(* ===== verification/Prelude.thy ===== *)
theory Prelude
  imports Main "HOL-Library.Word"
begin

unbundle bit_operations_syntax

section \<open>Shared vocabulary\<close>

text \<open>
  What every component uses: the machine integers of the Rust code, byte strings, the
  result type of fallible and panicking functions, the little-endian codecs of the standard
  library (\<open>to_le_bytes\<close>, \<open>from_le_bytes\<close>), checked and saturating arithmetic, and the
  lemmas about them that the component theories share. Lengths and capacities (\<open>usize\<close>) are
  \<open>nat\<close>; the model is that of a target whose \<open>usize\<close> has 64 bits, so that a conversion from
  \<open>u64\<close> to \<open>usize\<close> never fails.
\<close>

subsection \<open>Machine integers and byte strings\<close>

type_synonym u8 = "8 word"
type_synonym u16 = "16 word"
type_synonym u32 = "32 word"
type_synonym u64 = "64 word"
type_synonym u128 = "128 word"
type_synonym bytes = "u8 list"

named_theorems codec \<open>round trips of byte codecs\<close>

subsection \<open>Results\<close>

text \<open>
  \<open>Ok\<close> and \<open>Err\<close> are the constructors of the Rust \<open>Result\<close>. \<open>Panic\<close> is a call of \<open>panic!\<close>,
  a failed assertion, an out-of-bounds index or an \<open>unwrap\<close> of nothing; \<open>Diverge\<close> is a loop
  that does not end. The theorems say where the last two do not happen.
\<close>

datatype ('e, 'a) res = Ok 'a | Err 'e | Panic | Diverge

fun map_err :: "('e \<Rightarrow> 'f) \<Rightarrow> ('e, 'a) res \<Rightarrow> ('f, 'a) res" where
  "map_err f (Ok a) = Ok a"
| "map_err f (Err e) = Err (f e)"
| "map_err f Panic = Panic"
| "map_err f Diverge = Diverge"

text \<open>The operator \<open>?\<close>: go on with the value, or return the error.\<close>

fun res_bind :: "('e, 'a) res \<Rightarrow> ('a \<Rightarrow> ('e, 'b) res) \<Rightarrow> ('e, 'b) res" where
  "res_bind (Ok a) f = f a"
| "res_bind (Err e) f = Err e"
| "res_bind Panic f = Panic"
| "res_bind Diverge f = Diverge"

lemma map_err_Ok_iff [simp]: "map_err f r = Ok a \<longleftrightarrow> r = Ok a"
  by (cases r) auto

lemma map_err_Err_iff: "map_err f r = Err e \<longleftrightarrow> (\<exists>e'. r = Err e' \<and> e = f e')"
  by (cases r) auto

lemma map_err_Panic_iff [simp]: "map_err f r = Panic \<longleftrightarrow> r = Panic"
  by (cases r) auto

lemma map_err_Diverge_iff [simp]: "map_err f r = Diverge \<longleftrightarrow> r = Diverge"
  by (cases r) auto

lemma res_bind_Ok_iff: "res_bind r f = Ok b \<longleftrightarrow> (\<exists>a. r = Ok a \<and> f a = Ok b)"
  by (cases r) auto

text \<open>A computation that has no errors inside one that has.\<close>

fun lift_unit :: "(unit, 'a) res \<Rightarrow> ('e, 'a) res" where
  "lift_unit (Ok x) = Ok x"
| "lift_unit (Err _) = Panic"
| "lift_unit Panic = Panic"
| "lift_unit Diverge = Diverge"

lemma lift_unit_Ok [simp]: "lift_unit r = Ok x \<longleftrightarrow> r = Ok x"
  by (cases r) auto

subsection \<open>Text\<close>

text \<open>A string is its UTF-8 bytes. \<open>str::from_utf8\<close> accepts the well-formed byte sequences of the Unicode
  standard.\<close>

definition utf8_tail :: "u8 \<Rightarrow> bool" where "utf8_tail b \<longleftrightarrow> 0x80 \<le> b \<and> b \<le> 0xBF"

fun utf8_valid :: "bytes \<Rightarrow> bool" where
  "utf8_valid [] = True"
| "utf8_valid (a # s) =
     (if a \<le> 0x7F then utf8_valid s
      else case s of [] \<Rightarrow> False
      | b # s \<Rightarrow>
          if 0xC2 \<le> a \<and> a \<le> 0xDF then utf8_tail b \<and> utf8_valid s
          else case s of [] \<Rightarrow> False
          | c # s \<Rightarrow>
              if 0xE0 \<le> a \<and> a \<le> 0xEF then
                (if a = 0xE0 then 0xA0 \<le> b \<and> b \<le> 0xBF else if a = 0xED then 0x80 \<le> b \<and> b \<le> 0x9F else utf8_tail b)
                  \<and> utf8_tail c \<and> utf8_valid s
              else case s of [] \<Rightarrow> False
              | d # s \<Rightarrow>
                  0xF0 \<le> a \<and> a \<le> 0xF4
                  \<and> (if a = 0xF0 then 0x90 \<le> b \<and> b \<le> 0xBF else if a = 0xF4 then 0x80 \<le> b \<and> b \<le> 0x8F else utf8_tail b)
                  \<and> utf8_tail c \<and> utf8_tail d \<and> utf8_valid s)"

subsection \<open>Little-endian integers\<close>

text \<open>
  \<open>le_of_nat k n\<close> is the \<open>k\<close>-byte little-endian form of \<open>n\<close>; \<open>nat_of_le\<close> reads such a form.
  \<open>to_le_bytes\<close> and \<open>from_le_bytes\<close> are the two standard-library functions at any width.
\<close>

fun le_of_nat :: "nat \<Rightarrow> nat \<Rightarrow> bytes" where
  "le_of_nat 0 n = []"
| "le_of_nat (Suc k) n = word_of_nat n # le_of_nat k (n div 256)"

fun nat_of_le :: "bytes \<Rightarrow> nat" where
  "nat_of_le [] = 0"
| "nat_of_le (b # bs) = unat b + 256 * nat_of_le bs"

definition to_le_bytes :: "'a::len word \<Rightarrow> bytes" where
  "to_le_bytes w = le_of_nat (LENGTH('a) div 8) (unat w)"

definition from_le_bytes :: "bytes \<Rightarrow> 'a::len word" where
  "from_le_bytes bs = word_of_nat (nat_of_le bs)"

lemma length_le_of_nat [simp]: "length (le_of_nat k n) = k"
  by (induction k arbitrary: n) auto

lemma unat_word_of_nat_u8: "unat (word_of_nat n :: u8) = n mod 256"
  by (simp add: unat_of_nat)

lemma nat_of_le_of_nat: "nat_of_le (le_of_nat k n) = n mod 256 ^ k"
proof (induction k arbitrary: n)
  case 0
  then show ?case by simp
next
  case (Suc k)
  have "nat_of_le (le_of_nat (Suc k) n) = n mod 256 + 256 * ((n div 256) mod 256 ^ k)"
    by (simp add: Suc unat_word_of_nat_u8)
  also have "\<dots> = n mod (256 * 256 ^ k)"
    by (simp add: mod_mult2_eq)
  finally show ?case by simp
qed

lemma u8_bound: "unat (b :: u8) < 256"
  using unsigned_less [of b, where ?'a = nat] by simp

lemma nat_of_le_append: "nat_of_le (xs @ ys) = nat_of_le xs + 256 ^ length xs * nat_of_le ys"
  by (induction xs) (simp_all add: algebra_simps)

lemma nat_of_le_bound: "nat_of_le bs < 256 ^ length bs"
proof (induction bs)
  case Nil
  then show ?case by simp
next
  case (Cons b bs)
  have "unat b + 256 * nat_of_le bs < 256 + 256 * nat_of_le bs"
    using u8_bound [of b] by simp
  also have "\<dots> = 256 * Suc (nat_of_le bs)" by simp
  also have "\<dots> \<le> 256 * 256 ^ length bs"
    using Cons by (intro mult_le_mono2) simp
  finally show ?case by simp
qed

lemma le_of_nat_of_le: "le_of_nat (length bs) (nat_of_le bs) = bs"
proof (induction bs)
  case Nil
  then show ?case by simp
next
  case (Cons b bs)
  have "word_of_nat (unat b + 256 * nat_of_le bs) = (b :: u8)"
  proof (rule word_unat_eq_iff [THEN iffD2])
    have "unat (word_of_nat (unat b + 256 * nat_of_le bs) :: u8)
        = (unat b + 256 * nat_of_le bs) mod 256"
      by (rule unat_word_of_nat_u8)
    also have "\<dots> = unat b mod 256" by simp
    finally show "unat (word_of_nat (unat b + 256 * nat_of_le bs) :: u8) = unat b"
      using u8_bound [of b] by simp
  qed
  moreover have "(unat b + 256 * nat_of_le bs) div 256 = nat_of_le bs"
    using u8_bound [of b] by simp
  ultimately show ?case using Cons by simp
qed

lemma le_of_nat_cong: "length bs = k \<Longrightarrow> nat_of_le bs = n \<Longrightarrow> le_of_nat k n = bs"
  using le_of_nat_of_le [of bs] by simp

lemma length_to_le_bytes [simp]: "length (to_le_bytes (w :: 'a::len word)) = LENGTH('a) div 8"
  by (simp add: to_le_bytes_def)

lemma from_to_le_bytes:
  assumes "8 dvd LENGTH('a::len)"
  shows "from_le_bytes (to_le_bytes w) = (w :: 'a word)"
proof -
  obtain k where k: "LENGTH('a) = 8 * k" using assms by blast
  have "unat w < 256 ^ k"
    using unsigned_less [of w, where ?'a = nat] by (simp add: k power_mult)
  then show ?thesis
    by (simp add: from_le_bytes_def to_le_bytes_def nat_of_le_of_nat k)
qed

lemma from_to_le_u16 [codec, simp]: "from_le_bytes (to_le_bytes w) = (w :: u16)"
  by (rule from_to_le_bytes) simp

lemma from_to_le_u32 [codec, simp]: "from_le_bytes (to_le_bytes w) = (w :: u32)"
  by (rule from_to_le_bytes) simp

lemma from_to_le_u64 [codec, simp]: "from_le_bytes (to_le_bytes w) = (w :: u64)"
  by (rule from_to_le_bytes) simp

lemma from_to_le_u128 [codec, simp]: "from_le_bytes (to_le_bytes w) = (w :: u128)"
  by (rule from_to_le_bytes) simp

lemma pow256_eq: "(256::nat) ^ n = 2 ^ (n * 8)"
proof -
  have "(256::nat) ^ n = (2 ^ 8) ^ n" by simp
  then show ?thesis by (simp only: power_mult [symmetric] mult.commute)
qed

lemma unat_from_le_bytes:
  assumes "length bs * 8 = LENGTH('a::len)"
  shows "unat (from_le_bytes bs :: 'a word) = nat_of_le bs"
proof -
  have "nat_of_le bs < 2 ^ LENGTH('a)"
    using nat_of_le_bound [of bs] by (simp only: pow256_eq assms)
  then show ?thesis
    by (simp add: from_le_bytes_def unat_of_nat)
qed

lemma to_from_le_bytes:
  assumes "length bs * 8 = LENGTH('a::len)"
  shows "to_le_bytes (from_le_bytes bs :: 'a word) = bs"
proof -
  have "LENGTH('a) div 8 = length bs" using assms by simp
  then show ?thesis
    by (simp add: to_le_bytes_def unat_from_le_bytes [OF assms] le_of_nat_of_le)
qed

subsection \<open>Casts\<close>

lemma unat_ucast_mod: "unat (ucast (w :: 'b::len word) :: 'a::len word) = unat w mod 2 ^ LENGTH('a)"
proof -
  have "(ucast w :: 'a word) = word_of_nat (unat w)" by (simp add: unsigned_of_nat)
  then show ?thesis by (simp only: unat_of_nat)
qed

lemma ucast_eq_word_of_nat: "ucast (w :: 'a::len word) = (word_of_nat (unat w) :: 'b::len word)"
  by (simp add: word_unat_eq_iff unat_of_nat unat_ucast_mod)

lemma unat_ucast_small:
  "unat (w :: 'b::len word) < 2 ^ LENGTH('a::len) \<Longrightarrow> unat (ucast w :: 'a word) = unat w"
  by (simp add: unat_ucast_mod)

lemma unat_ucast_up:
  assumes "LENGTH('b::len) \<le> LENGTH('a::len)"
  shows "unat (ucast (w :: 'b word) :: 'a word) = unat w"
proof -
  have "unat w < 2 ^ LENGTH('b)" by (rule unsigned_less)
  also have "\<dots> \<le> 2 ^ LENGTH('a)" using assms by simp
  finally show ?thesis by (rule unat_ucast_small)
qed

lemma ucast_down_up:
  assumes "unat (w :: 'b::len word) < 2 ^ LENGTH('a::len)"
  shows "ucast (ucast w :: 'a word) = w"
  by (rule word_unat_eq_iff [THEN iffD2]) (simp only: unat_ucast_mod, use assms in simp)

lemma ucast_up_down:
  assumes "LENGTH('b::len) \<le> LENGTH('a::len)"
  shows "ucast (ucast (w :: 'b word) :: 'a word) = w"
  by (rule word_unat_eq_iff [THEN iffD2]) (simp only: unat_ucast_mod [where 'a = 'b] unat_ucast_up [OF assms], simp)

subsection \<open>Shifts\<close>

lemma unat_drop_bit: "unat (drop_bit n w :: 'a::len word) = unat w div 2 ^ n"
  unfolding unat_drop_bit_eq by (simp add: drop_bit_eq_div)

lemma or_push_bit: "(a :: nat) < 2 ^ k \<Longrightarrow> a OR push_bit k b = a + 2 ^ k * b"
proof -
  assume "a < 2 ^ k"
  then have "take_bit k a = a" by (simp add: take_bit_nat_eq_self)
  then have "\<not> bit a n" if "k \<le> n" for n using that by (metis bit_take_bit_iff not_le)
  then have "a AND push_bit k b = 0" by (intro bit_eqI) (auto simp: bit_simps)
  then have "a OR push_bit k b = a + push_bit k b" by (simp add: disjunctive_add_eq_or)
  then show ?thesis by (simp add: push_bit_eq_mult)
qed

subsection \<open>Lists\<close>

lemma append_eq_iff_take:
  "xs @ ys = zs \<longleftrightarrow> length xs \<le> length zs \<and> take (length xs) zs = xs \<and> ys = drop (length xs) zs"
proof
  assume "length xs \<le> length zs \<and> take (length xs) zs = xs \<and> ys = drop (length xs) zs"
  then show "xs @ ys = zs" using append_take_drop_id [of "length xs" zs] by simp
qed auto

lemma drop_length_append [simp]: "drop (length xs) (xs @ ys) = ys"
  by simp

text \<open>Blocks of equal length in a flat buffer.\<close>

lemma length_concat_blocks:
  "(\<And>x. x \<in> set xss \<Longrightarrow> length x = k) \<Longrightarrow> length (concat xss) = length xss * k"
  by (induction xss) auto

lemma nth_block:
  assumes "\<And>x. x \<in> set xss \<Longrightarrow> length x = k" and "i < length xss"
  shows "take k (drop (i * k) (concat xss)) = xss ! i"
  using assms
proof (induction xss arbitrary: i)
  case Nil
  then show ?case by simp
next
  case (Cons x xss)
  have x: "length x = k" using Cons.prems by simp
  show ?case
  proof (cases i)
    case 0
    then show ?thesis using x by simp
  next
    case (Suc j)
    have "drop (i * k) (concat (x # xss)) = drop (j * k) (concat xss)"
      using x Suc by (simp add: drop_append)
    then show ?thesis using Cons.IH [of j] Cons.prems Suc by simp
  qed
qed

text \<open>\<open>buffer[w..w + xs.len()].copy_from_slice(xs)\<close>: \<open>None\<close> is the panic of a range that does
  not fit.\<close>

definition copy_range :: "nat \<Rightarrow> 'a list \<Rightarrow> 'a list \<Rightarrow> 'a list option" where
  "copy_range w xs buffer =
     (if w + length xs \<le> length buffer then Some (take w buffer @ xs @ drop (w + length xs) buffer)
      else None)"

lemma copy_range_middle:
  "length ys = length xs \<Longrightarrow> w = length a \<Longrightarrow> copy_range w xs (a @ ys @ b) = Some (a @ xs @ b)"
  by (simp add: copy_range_def)

subsection \<open>Hash functions\<close>

text \<open>A hash function is a parameter. What rests on its collision resistance is stated with this alternative: a
  collision between two of the byte strings that were hashed. (That there is some collision is true of every
  function with results of 32 bytes, so the set is what makes the alternative say anything.)\<close>

definition hash_collision :: "(bytes \<Rightarrow> bytes) \<Rightarrow> bytes set \<Rightarrow> bool" where
  "hash_collision h S \<longleftrightarrow> (\<exists>a \<in> S. \<exists>b \<in> S. a \<noteq> b \<and> h a = h b)"

lemma hash_collision_here: "h a = h b \<Longrightarrow> a \<in> S \<Longrightarrow> b \<in> S \<Longrightarrow> a = b \<or> hash_collision h S"
  unfolding hash_collision_def by blast

lemma hash_collision_mono: "hash_collision h S \<Longrightarrow> S \<subseteq> T \<Longrightarrow> hash_collision h T"
  unfolding hash_collision_def by blast

end
