(* ===== verification/Encoder_Contract.thy ===== *)
theory Encoder_Contract
  imports Prelude
begin

section \<open>The encoder contract\<close>

text \<open>
  The trait \<open>Encoder\<close> of \<open>consensus_encoding/src/encode/mod.rs\<close> and the functions that consume
  one: \<open>drain_to_vec\<close>, \<open>check_encoder\<close> and the byte iterator \<open>EncoderByteIter\<close>. An encoder is a
  state with two operations: \<open>current_chunk\<close> shows the chunk to write, \<open>advance\<close> moves to the
  next one. \<open>None\<close> is a panic (an index that the code calls unreachable). The locale says that a
  usable state denotes the bytes it has still to yield, and that advancing makes progress; the
  consumers are proved inside it.
\<close>

datatype estatus = HasMore | Finished

fun has_more :: "estatus \<Rightarrow> bool" where
  "has_more HasMore = True"
| "has_more Finished = False"

fun has_finished :: "estatus \<Rightarrow> bool" where
  "has_finished Finished = True"
| "has_finished HasMore = False"

subsection \<open>The consumers\<close>

partial_function (option) drain_loop ::
  "('s \<Rightarrow> bytes option) \<Rightarrow> ('s \<Rightarrow> (estatus \<times> 's) option) \<Rightarrow> 's \<Rightarrow> bytes
     \<Rightarrow> (unit, bytes) res option" where
  "drain_loop chunk advance s vec =
     (case chunk s of
        None \<Rightarrow> Some Panic
      | Some c \<Rightarrow>
          (case advance s of
             None \<Rightarrow> Some Panic
           | Some (st, s') \<Rightarrow>
               if has_finished st then Some (Ok (vec @ c)) else drain_loop chunk advance s' (vec @ c)))"

definition drain_to_vec ::
  "('s \<Rightarrow> bytes option) \<Rightarrow> ('s \<Rightarrow> (estatus \<times> 's) option) \<Rightarrow> 's \<Rightarrow> (unit, bytes) res" where
  "drain_to_vec chunk advance s =
     (case drain_loop chunk advance s [] of None \<Rightarrow> Diverge | Some r \<Rightarrow> r)"

text \<open>\<open>check_encoder\<close> panics when the bytes differ from the expected ones.\<close>

partial_function (option) check_loop ::
  "('s \<Rightarrow> bytes option) \<Rightarrow> ('s \<Rightarrow> (estatus \<times> 's) option) \<Rightarrow> 's \<Rightarrow> bytes
     \<Rightarrow> (unit, unit) res option" where
  "check_loop chunk advance s expected =
     (case chunk s of
        None \<Rightarrow> Some Panic
      | Some c \<Rightarrow>
          if length expected < length c then Some Panic
          else if take (length c) expected \<noteq> c then Some Panic
          else (case advance s of
             None \<Rightarrow> Some Panic
           | Some (st, s') \<Rightarrow>
               if has_finished st then
                 (if drop (length c) expected = [] then Some (Ok ()) else Some Panic)
               else check_loop chunk advance s' (drop (length c) expected)))"

definition check_encoder ::
  "('s \<Rightarrow> bytes option) \<Rightarrow> ('s \<Rightarrow> (estatus \<times> 's) option) \<Rightarrow> 's \<Rightarrow> bytes \<Rightarrow> (unit, unit) res" where
  "check_encoder chunk advance s expected =
     (case check_loop chunk advance s expected of None \<Rightarrow> Diverge | Some r \<Rightarrow> r)"

text \<open>The byte iterator: an encoder and a position in its current chunk.\<close>

record 's byte_iter =
  bi_enc :: 's
  bi_position :: nat

definition byte_iter_new :: "'s \<Rightarrow> 's byte_iter" where
  "byte_iter_new encoder = \<lparr>bi_enc = encoder, bi_position = 0\<rparr>"

definition get :: "'a list \<Rightarrow> nat \<Rightarrow> 'a option" where
  "get xs i = (if i < length xs then Some (xs ! i) else None)"

partial_function (option) peek_loop ::
  "('s \<Rightarrow> bytes option) \<Rightarrow> ('s \<Rightarrow> (estatus \<times> 's) option) \<Rightarrow> 's byte_iter
     \<Rightarrow> (unit, bytes \<times> 's byte_iter) res option" where
  "peek_loop chunk advance it =
     (case advance (bi_enc it) of
        None \<Rightarrow> Some Panic
      | Some (st, s') \<Rightarrow>
          if has_finished st then Some (Ok ([], it\<lparr>bi_enc := s'\<rparr>))
          else (case chunk s' of
             None \<Rightarrow> Some Panic
           | Some c \<Rightarrow>
               if c \<noteq> [] then Some (Ok (c, it\<lparr>bi_enc := s', bi_position := 0\<rparr>))
               else peek_loop chunk advance (it\<lparr>bi_enc := s'\<rparr>)))"

definition peek_chunk ::
  "('s \<Rightarrow> bytes option) \<Rightarrow> ('s \<Rightarrow> (estatus \<times> 's) option) \<Rightarrow> 's byte_iter
     \<Rightarrow> (unit, bytes \<times> 's byte_iter) res option" where
  "peek_chunk chunk advance it =
     (case chunk (bi_enc it) of
        None \<Rightarrow> Some Panic
      | Some c \<Rightarrow>
          if bi_position it < length c then Some (Ok (drop (bi_position it) c, it))
          else peek_loop chunk advance it)"

partial_function (option) iter_next ::
  "('s \<Rightarrow> bytes option) \<Rightarrow> ('s \<Rightarrow> (estatus \<times> 's) option) \<Rightarrow> 's byte_iter
     \<Rightarrow> (unit, u8 option \<times> 's byte_iter) res option" where
  "iter_next chunk advance it =
     (case chunk (bi_enc it) of
        None \<Rightarrow> Some Panic
      | Some c \<Rightarrow>
          (case get c (bi_position it) of
             Some b \<Rightarrow> Some (Ok (Some b, it\<lparr>bi_position := bi_position it + 1\<rparr>))
           | None \<Rightarrow>
               (case advance (bi_enc it) of
                  None \<Rightarrow> Some Panic
                | Some (st, s') \<Rightarrow>
                    if has_finished st then Some (Ok (None, it\<lparr>bi_enc := s'\<rparr>))
                    else iter_next chunk advance (it\<lparr>bi_enc := s', bi_position := 0\<rparr>))))"

text \<open>\<open>n -= len\<close> cannot overflow, since \<open>get\<close> found nothing at \<open>n\<close>.\<close>

partial_function (option) nth_loop ::
  "('s \<Rightarrow> bytes option) \<Rightarrow> ('s \<Rightarrow> (estatus \<times> 's) option) \<Rightarrow> 's byte_iter \<Rightarrow> nat
     \<Rightarrow> (unit, u8 option \<times> 's byte_iter) res option" where
  "nth_loop chunk advance it n =
     (case chunk (bi_enc it) of
        None \<Rightarrow> Some Panic
      | Some c \<Rightarrow>
          (case get c n of
             Some b \<Rightarrow> Some (Ok (Some b, it\<lparr>bi_position := n + 1\<rparr>))
           | None \<Rightarrow>
               (case advance (bi_enc it) of
                  None \<Rightarrow> Some Panic
                | Some (st, s') \<Rightarrow>
                    if has_finished st then Some (Ok (None, it\<lparr>bi_enc := s'\<rparr>))
                    else nth_loop chunk advance (it\<lparr>bi_enc := s'\<rparr>) (n - length c))))"

text \<open>The sum \<open>position + n\<close> is checked: past the range of \<open>usize\<close> there is no byte.\<close>

definition iter_nth ::
  "('s \<Rightarrow> bytes option) \<Rightarrow> ('s \<Rightarrow> (estatus \<times> 's) option) \<Rightarrow> 's byte_iter \<Rightarrow> nat
     \<Rightarrow> (unit, u8 option \<times> 's byte_iter) res option" where
  "iter_nth chunk advance it n =
     (case chunk (bi_enc it) of
        None \<Rightarrow> Some Panic
      | Some c \<Rightarrow>
          (case (if bi_position it + n < 2 ^ 64 then get c (bi_position it + n) else None) of
             Some b \<Rightarrow> Some (Ok (Some b, it\<lparr>bi_position := bi_position it + (n + 1)\<rparr>))
           | None \<Rightarrow>
               if length c < bi_position it \<or> n < length c - bi_position it then Some Panic
               else (case advance (bi_enc it) of
                  None \<Rightarrow> Some Panic
                | Some (st, s') \<Rightarrow>
                    if has_finished st then Some (Ok (None, it\<lparr>bi_enc := s'\<rparr>))
                    else nth_loop chunk advance (it\<lparr>bi_enc := s'\<rparr>) (n - (length c - bi_position it)))))"

definition iter_len :: "('s \<Rightarrow> nat) \<Rightarrow> 's byte_iter \<Rightarrow> (unit, nat) res" where
  "iter_len len it =
     (if len (bi_enc it) < bi_position it then Panic else Ok (len (bi_enc it) - bi_position it))"

text \<open>What an iterator has still to yield, when it may be used, and what a call that skips \<open>n\<close>
  bytes of \<open>l\<close> should return.\<close>

definition iter_rest :: "('s \<Rightarrow> bytes) \<Rightarrow> 's byte_iter \<Rightarrow> bytes" where
  "iter_rest out it = drop (bi_position it) (out (bi_enc it))"

definition iter_ok :: "('s \<Rightarrow> bytes option) \<Rightarrow> ('s \<Rightarrow> bool) \<Rightarrow> 's byte_iter \<Rightarrow> bool" where
  "iter_ok chunk valid it \<longleftrightarrow> valid (bi_enc it) \<and> bi_position it \<le> length (the (chunk (bi_enc it)))"

definition iter_yields ::
  "('s \<Rightarrow> bytes option) \<Rightarrow> ('s \<Rightarrow> bytes) \<Rightarrow> ('s \<Rightarrow> bool) \<Rightarrow> nat \<Rightarrow> bytes
     \<Rightarrow> (unit, u8 option \<times> 's byte_iter) res option \<Rightarrow> bool" where
  "iter_yields chunk out valid n l x \<longleftrightarrow>
     (\<exists>it'. x = Some (Ok (get l n, it')) \<and>
        (n < length l \<longrightarrow> iter_ok chunk valid it' \<and> iter_rest out it' = drop (n + 1) l))"

lemma iter_yields_skip:
  "length c \<le> n \<Longrightarrow> iter_yields chunk out valid (n - length c) l x \<Longrightarrow>
     iter_yields chunk out valid n (c @ l) x"
  by (auto simp: iter_yields_def get_def nth_append Suc_diff_le)

subsection \<open>The contract\<close>

text \<open>
  \<open>out s\<close> are the bytes that \<open>s\<close> has still to yield, its current chunk first; \<open>steps s\<close> bounds
  the calls of \<open>advance\<close>; \<open>valid s\<close> says that the encoder may be used. A chunk is a slice, whose
  length fits in a \<open>usize\<close>.
\<close>

locale encoder =
  fixes chunk :: "'s \<Rightarrow> bytes option"
    and advance :: "'s \<Rightarrow> (estatus \<times> 's) option"
    and out :: "'s \<Rightarrow> bytes"
    and steps :: "'s \<Rightarrow> nat"
    and valid :: "'s \<Rightarrow> bool"
  assumes chunk_returns: "valid s \<Longrightarrow> chunk s \<noteq> None"
    and advance_returns: "valid s \<Longrightarrow> advance s \<noteq> None"
    and advance_more: "valid s \<Longrightarrow> advance s = Some (HasMore, s') \<Longrightarrow>
      valid s' \<and> out s = the (chunk s) @ out s' \<and> steps s' < steps s"
    and advance_finished: "valid s \<Longrightarrow> advance s = Some (Finished, s') \<Longrightarrow> out s = the (chunk s)"
begin

lemma encoder_cases:
  assumes "valid s"
  obtains (more) c s' where "chunk s = Some c" "advance s = Some (HasMore, s')" "valid s'"
      "out s = c @ out s'" "steps s' < steps s"
  | (finished) c s' where "chunk s = Some c" "advance s = Some (Finished, s')" "out s = c"
proof -
  obtain c where c: "chunk s = Some c" using chunk_returns [OF assms] by auto
  obtain st s' where a: "advance s = Some (st, s')" using advance_returns [OF assms] by auto
  show thesis
    by (cases st) (use c a advance_more [OF assms] advance_finished [OF assms] that in auto)
qed

lemma chunk_Some: "valid s \<Longrightarrow> \<exists>c. chunk s = Some c"
  using chunk_returns by auto

lemma drain_loop_out: "valid s \<Longrightarrow> drain_loop chunk advance s vec = Some (Ok (vec @ out s))"
proof (induction "steps s" arbitrary: s vec rule: less_induct)
  case less
  from less.prems show ?case
    by (cases rule: encoder_cases) (simp_all add: less.hyps drain_loop.simps [of chunk advance s])
qed

lemma drain_to_vec_out: "valid s \<Longrightarrow> drain_to_vec chunk advance s = Ok (out s)"
  by (simp add: drain_to_vec_def drain_loop_out)

lemma check_loop_out:
  "valid s \<Longrightarrow> check_loop chunk advance s expected = Some (if out s = expected then Ok () else Panic)"
proof (induction "steps s" arbitrary: s expected rule: less_induct)
  case less
  from less.prems show ?case
  proof (cases rule: encoder_cases)
    case (more c s')
    show ?thesis
      using more less.hyps [OF more(5,3), of "drop (length c) expected"]
      by (auto simp: check_loop.simps [of chunk advance s] append_eq_iff_take)
  next
    case (finished c s')
    then show ?thesis
      using append_eq_iff_take [of c "[]" expected]
      by (auto simp: check_loop.simps [of chunk advance s])
  qed
qed

lemma check_encoder_out:
  "valid s \<Longrightarrow> check_encoder chunk advance s expected = (if out s = expected then Ok () else Panic)"
  by (simp add: check_encoder_def check_loop_out)

text \<open>The iterator yields the bytes one by one, or after skipping \<open>n\<close> of them.\<close>

lemma iter_yields_here:
  assumes "iter_ok chunk valid it" and "bi_position it + n < length (the (chunk (bi_enc it)))"
  shows "iter_yields chunk out valid n (iter_rest out it)
    (Some (Ok (Some (the (chunk (bi_enc it)) ! (bi_position it + n)),
      it\<lparr>bi_position := bi_position it + (n + 1)\<rparr>)))"
proof -
  have "valid (bi_enc it)" using assms(1) by (simp add: iter_ok_def)
  then obtain c r where c: "chunk (bi_enc it) = Some c" and out: "out (bi_enc it) = c @ r"
    by (cases rule: encoder_cases) auto
  have len: "bi_position it + n < length c" using assms(2) c by simp
  then have "iter_rest out it ! n = c ! (bi_position it + n)"
    by (auto simp: iter_rest_def out nth_append add.commute)
  moreover have "n < length (iter_rest out it)" using len by (simp add: iter_rest_def out)
  moreover have "iter_rest out (it\<lparr>bi_position := bi_position it + (n + 1)\<rparr>) = drop (n + 1) (iter_rest out it)"
    by (simp add: iter_rest_def add.commute add.left_commute)
  ultimately show ?thesis
    using len assms(1) c by (simp add: iter_yields_def get_def iter_ok_def)
qed

lemma iter_next_yields:
  assumes "iter_ok chunk valid it"
  shows "iter_yields chunk out valid 0 (iter_rest out it) (iter_next chunk advance it)"
  using assms
proof (induction "steps (bi_enc it)" arbitrary: it rule: less_induct)
  case less
  let ?p = "bi_position it"
  from less.prems have valid: "valid (bi_enc it)" and p: "?p \<le> length (the (chunk (bi_enc it)))"
    by (auto simp: iter_ok_def)
  show ?case
  proof (cases "?p < length (the (chunk (bi_enc it)))")
    case True
    then have "iter_next chunk advance it =
        Some (Ok (Some (the (chunk (bi_enc it)) ! (?p + 0)), it\<lparr>bi_position := ?p + (0 + 1)\<rparr>))"
      using chunk_returns [OF valid] by (auto simp: iter_next.simps [of chunk advance it] get_def)
    then show ?thesis using iter_yields_here [OF less.prems, of 0] True by simp
  next
    case False
    from valid show ?thesis
    proof (cases rule: encoder_cases)
      case (more c s')
      let ?it = "it\<lparr>bi_enc := s', bi_position := 0\<rparr>"
      have "iter_next chunk advance it = iter_next chunk advance ?it"
        using more False by (simp add: iter_next.simps [of chunk advance it] get_def)
      moreover have "iter_rest out it = iter_rest out ?it"
        using more False p by (simp add: iter_rest_def)
      moreover have "iter_yields chunk out valid 0 (iter_rest out ?it) (iter_next chunk advance ?it)"
        by (rule less.hyps) (use more in \<open>simp_all add: iter_ok_def\<close>)
      ultimately show ?thesis by simp
    next
      case (finished c s')
      then have "iter_next chunk advance it = Some (Ok (None, it\<lparr>bi_enc := s'\<rparr>))"
        using False by (simp add: iter_next.simps [of chunk advance it] get_def)
      moreover have "iter_rest out it = []" using finished False by (simp add: iter_rest_def)
      ultimately show ?thesis by (simp add: iter_yields_def get_def)
    qed
  qed
qed

lemma nth_loop_yields:
  assumes "valid (bi_enc it)"
  shows "iter_yields chunk out valid n (out (bi_enc it)) (nth_loop chunk advance it n)"
  using assms
proof (induction "steps (bi_enc it)" arbitrary: it n rule: less_induct)
  case less
  from less.prems show ?case
  proof (cases "n < length (the (chunk (bi_enc it)))")
    case True
    let ?it = "it\<lparr>bi_position := 0\<rparr>"
    have "iter_ok chunk valid ?it" using less.prems by (simp add: iter_ok_def)
    from iter_yields_here [OF this, of n] True
    have "iter_yields chunk out valid n (out (bi_enc it))
        (Some (Ok (Some (the (chunk (bi_enc it)) ! n), it\<lparr>bi_position := n + 1\<rparr>)))"
      by (simp add: iter_rest_def)
    then show ?thesis
      using True chunk_returns [OF less.prems] by (auto simp: nth_loop.simps [of chunk advance it] get_def)
  next
    case False
    from less.prems show ?thesis
    proof (cases rule: encoder_cases)
      case (more c s')
      let ?it = "it\<lparr>bi_enc := s'\<rparr>"
      have "nth_loop chunk advance it n = nth_loop chunk advance ?it (n - length c)"
        using more False by (simp add: nth_loop.simps [of chunk advance it] get_def)
      moreover have "iter_yields chunk out valid (n - length c) (out s') (nth_loop chunk advance ?it (n - length c))"
        using less.hyps [of ?it] more by simp
      ultimately show ?thesis using more False by (simp add: iter_yields_skip)
    next
      case (finished c s')
      then have "nth_loop chunk advance it n = Some (Ok (None, it\<lparr>bi_enc := s'\<rparr>))"
        using False by (simp add: nth_loop.simps [of chunk advance it] get_def)
      then show ?thesis using finished False by (simp add: iter_yields_def get_def)
    qed
  qed
qed

lemma iter_nth_yields:
  assumes ok: "iter_ok chunk valid it" and usize: "length (the (chunk (bi_enc it))) < 2 ^ 64"
  shows "iter_yields chunk out valid n (iter_rest out it) (iter_nth chunk advance it n)"
proof -
  let ?p = "bi_position it"
  from ok have valid: "valid (bi_enc it)" and p: "?p \<le> length (the (chunk (bi_enc it)))"
    by (auto simp: iter_ok_def)
  show ?thesis
  proof (cases "?p + n < length (the (chunk (bi_enc it)))")
    case True
    then have "iter_nth chunk advance it n =
        Some (Ok (Some (the (chunk (bi_enc it)) ! (?p + n)), it\<lparr>bi_position := ?p + (n + 1)\<rparr>))"
      using chunk_returns [OF valid] usize by (auto simp: iter_nth_def get_def)
    then show ?thesis using iter_yields_here [OF ok True] by simp
  next
    case False
    from valid show ?thesis
    proof (cases rule: encoder_cases)
      case (more c s')
      let ?it = "it\<lparr>bi_enc := s'\<rparr>" and ?n = "n - (length c - ?p)"
      have len: "?p \<le> length c" "length c \<le> ?p + n" using p False more(1) by auto
      have "iter_nth chunk advance it n = nth_loop chunk advance ?it ?n"
        using more(1,2) len by (auto simp: iter_nth_def get_def not_less)
      moreover have "iter_yields chunk out valid ?n (out s') (nth_loop chunk advance ?it ?n)"
        using nth_loop_yields [of ?it ?n] more(3) by simp
      moreover have "iter_rest out it = drop ?p c @ out s'" using more(4) len by (simp add: iter_rest_def)
      ultimately show ?thesis
        using len by (simp add: iter_yields_skip)
    next
      case (finished c s')
      have len: "?p \<le> length c" "length c \<le> ?p + n" using p False finished(1) by auto
      have "iter_nth chunk advance it n = Some (Ok (None, it\<lparr>bi_enc := s'\<rparr>))"
        using finished(1,2) len by (auto simp: iter_nth_def get_def not_less)
      moreover have "length (iter_rest out it) \<le> n" using finished(3) len by (simp add: iter_rest_def)
      ultimately show ?thesis by (simp add: iter_yields_def get_def)
    qed
  qed
qed

end

text \<open>How an encoder is shown to meet the contract: one call of \<open>advance\<close> has two outcomes.\<close>

definition advance_more_ok where
  "advance_more_ok out steps valid c s x \<longleftrightarrow>
     (\<exists>s'. x = Some (HasMore, s') \<and> valid s' \<and> out s = c @ out s' \<and> steps s' < (steps s :: nat))"

definition advance_done_ok where
  "advance_done_ok out c s x \<longleftrightarrow> (\<exists>s'. x = Some (Finished, s') \<and> out s = c)"

lemma encoder_intro:
  fixes steps :: "'s \<Rightarrow> nat"
  assumes "\<And>s. valid s \<Longrightarrow> \<exists>c. chunk s = Some c \<and>
      (advance_more_ok out steps valid c s (advance s) \<or> advance_done_ok out c s (advance s))"
  shows "encoder chunk advance out steps valid"
proof
  fix s s' assume "valid s"
  note * = assms [OF this, unfolded advance_more_ok_def advance_done_ok_def]
  show "chunk s \<noteq> None" and "advance s \<noteq> None" using * by auto
  show "advance s = Some (HasMore, s') \<Longrightarrow> valid s' \<and> out s = the (chunk s) @ out s' \<and> steps s' < steps s"
    using * by auto
  show "advance s = Some (Finished, s') \<Longrightarrow> out s = the (chunk s)"
    using * by auto
qed

end
