(* ===== verification/Push_Decoder.thy ===== *)
theory Push_Decoder
  imports Prelude
begin

section \<open>The push-decoder contract\<close>

text \<open>
  The trait \<open>Decoder\<close> of \<open>consensus_encoding/src/decode/mod.rs\<close> and the functions that drive
  a decoder. A decoder is a state with three operations: \<open>push_bytes\<close> takes a slice, consumes a
  prefix of it and returns a status; \<open>end\<close> turns the state into a value; \<open>read_limit\<close> says how
  many bytes may be read without reading too far. The locale states what a driver relies on: a
  decoder state denotes a parser of the bytes still to come, and pushing bytes advances along
  that parser. The drivers are proved once, inside the locale, to compute that parser whatever
  the sizes of the pieces in which the bytes arrive.
\<close>

subsection \<open>Statuses and parsers\<close>

datatype dstatus = NeedsMore | Ready

fun needs_more :: "dstatus \<Rightarrow> bool" where
  "needs_more NeedsMore = True"
| "needs_more Ready = False"

fun is_ready :: "dstatus \<Rightarrow> bool" where
  "is_ready Ready = True"
| "is_ready NeedsMore = False"

text \<open>The outcome of a parser on a byte string: more bytes are needed, a value and the bytes
  left over, an error that no further byte can mend, or a panic.\<close>

datatype ('e, 'o) presult = PMore | POk 'o bytes | PErr 'e | PPanic

fun pbind :: "('e, 'a) presult \<Rightarrow> ('a \<Rightarrow> bytes \<Rightarrow> ('e, 'b) presult) \<Rightarrow> ('e, 'b) presult" where
  "pbind PMore f = PMore"
| "pbind (POk a r) f = f a r"
| "pbind (PErr e) f = PErr e"
| "pbind PPanic f = PPanic"

fun pmap_err :: "('e \<Rightarrow> 'f) \<Rightarrow> ('e, 'a) presult \<Rightarrow> ('f, 'a) presult" where
  "pmap_err g PMore = PMore"
| "pmap_err g (POk a r) = POk a r"
| "pmap_err g (PErr e) = PErr (g e)"
| "pmap_err g PPanic = PPanic"

text \<open>What \<open>end\<close> returns, read as the outcome of a parser that has consumed its input.\<close>

fun finished :: "('e, 'o) res \<Rightarrow> bytes \<Rightarrow> ('e, 'o) presult" where
  "finished (Ok v) x = POk v x"
| "finished (Err e) x = PErr e"
| "finished Panic x = PPanic"
| "finished Diverge x = PMore"

fun halts :: "('e, 'a) res \<Rightarrow> bool" where
  "halts (Ok a) = True"
| "halts (Err e) = True"
| "halts Panic = True"
| "halts Diverge = False"

lemma halts_cases: "halts r \<Longrightarrow> (\<exists>a. r = Ok a) \<or> (\<exists>e. r = Err e) \<or> r = Panic"
  by (cases r) auto

lemma halts_map_err [simp]: "halts (map_err f r) = halts r"
  by (cases r) auto

lemma finished_POk: "finished r x = POk v y \<longleftrightarrow> r = Ok v \<and> x = y"
  by (cases r) auto

lemma finished_PErr: "finished r x = PErr e \<longleftrightarrow> r = Err e"
  by (cases r) auto

lemma finished_PPanic: "halts r \<Longrightarrow> finished r x = PPanic \<longleftrightarrow> r = Panic"
  by (cases r) auto

lemma finished_map_err: "finished (map_err g r) x = pmap_err g (finished r x)"
  by (cases r) auto

lemma pmap_err_PMore_iff [simp]: "pmap_err g p = PMore \<longleftrightarrow> p = PMore"
  by (cases p) auto

lemma pmap_err_POk_iff [simp]: "pmap_err g p = POk v r \<longleftrightarrow> p = POk v r"
  by (cases p) auto

lemma pmap_err_PPanic_iff [simp]: "pmap_err g p = PPanic \<longleftrightarrow> p = PPanic"
  by (cases p) auto

lemma pmap_err_PErr_iff: "pmap_err g p = PErr e \<longleftrightarrow> (\<exists>e'. p = PErr e' \<and> e = g e')"
  by (cases p) auto

lemma pbind_assoc: "pbind (pbind p f) g = pbind p (\<lambda>a y. pbind (f a y) g)"
  by (cases p) auto

lemma pbind_POk_right [simp]: "pbind p POk = p"
  by (cases p) auto

lemma pbind_PMore_iff: "pbind p f = PMore \<longleftrightarrow> p = PMore \<or> (\<exists>a r. p = POk a r \<and> f a r = PMore)"
  by (cases p) auto

lemma pbind_PPanic_iff: "pbind p f = PPanic \<longleftrightarrow> p = PPanic \<or> (\<exists>a r. p = POk a r \<and> f a r = PPanic)"
  by (cases p) auto

lemma pbind_POk_iff: "pbind p f = POk v r \<longleftrightarrow> (\<exists>a r'. p = POk a r' \<and> f a r' = POk v r)"
  by (cases p) auto

subsection \<open>The driver for byte slices\<close>

text \<open>The loop \<open>while !bytes.is_empty()\<close>, which does not end when a decoder keeps asking for
  more without consuming anything.\<close>

partial_function (option) slice_loop ::
  "('s \<Rightarrow> bytes \<Rightarrow> ('e, dstatus) res \<times> 's \<times> bytes) \<Rightarrow> 's \<Rightarrow> bytes
     \<Rightarrow> (('e, unit) res \<times> 's \<times> bytes) option" where
  "slice_loop push s bs =
     (if bs = [] then Some (Ok (), s, bs)
      else case push s bs of (st, s', r) \<Rightarrow>
        (case st of
           Ok Ready \<Rightarrow> Some (Ok (), s', r)
         | Ok NeedsMore \<Rightarrow> slice_loop push s' r
         | Err e \<Rightarrow> Some (Err e, s', r)
         | Panic \<Rightarrow> Some (Panic, s', r)
         | Diverge \<Rightarrow> Some (Diverge, s', r)))"

text \<open>The result of the decoding and the slice that is left.\<close>

definition decode_from_slice_unbounded ::
  "('s \<Rightarrow> bytes \<Rightarrow> ('e, dstatus) res \<times> 's \<times> bytes) \<Rightarrow> ('s \<Rightarrow> ('e, 'o) res) \<Rightarrow> 's \<Rightarrow> bytes
     \<Rightarrow> ('e, 'o) res \<times> bytes" where
  "decode_from_slice_unbounded push fin s bs =
     (case slice_loop push s bs of
        None \<Rightarrow> (Diverge, bs)
      | Some (Ok u, s', r) \<Rightarrow> (fin s', r)
      | Some (Err e, s', r) \<Rightarrow> (Err e, r)
      | Some (Panic, s', r) \<Rightarrow> (Panic, r)
      | Some (Diverge, s', r) \<Rightarrow> (Diverge, r))"

datatype 'e decode_error = Parse 'e | Unconsumed

definition decode_from_slice ::
  "('s \<Rightarrow> bytes \<Rightarrow> ('e, dstatus) res \<times> 's \<times> bytes) \<Rightarrow> ('s \<Rightarrow> ('e, 'o) res) \<Rightarrow> 's \<Rightarrow> bytes
     \<Rightarrow> ('e decode_error, 'o) res" where
  "decode_from_slice push fin s bs =
     (case decode_from_slice_unbounded push fin s bs of (d, remaining) \<Rightarrow>
        res_bind (map_err Parse d)
          (\<lambda>data. if remaining = [] then Ok data else Err Unconsumed))"

subsection \<open>The driver for buffered readers\<close>

text \<open>
  A buffered reader (\<open>std::io::BufRead\<close>) is the bytes it has buffered and what its source will
  give: chunks of bytes, interrupted calls and I/O errors, in order, and then the end of the
  stream. \<open>fill_buf\<close> hands out the buffered bytes and asks the source only when there are none.
\<close>

datatype 'i read_event = Chunk bytes | Interrupted | IoError 'i

record 'i bufreader =
  buffered :: bytes
  source :: "'i read_event list"

datatype ('i, 'e) read_error = Io 'i | Decode 'e

text \<open>One call of \<open>fill_buf\<close>: \<open>None\<close> is an interrupted call, which the loop tries again.\<close>

fun fill_buf :: "'i bufreader \<Rightarrow> ('i, bytes) res option \<times> 'i bufreader" where
  "fill_buf rd =
     (if buffered rd \<noteq> [] then (Some (Ok (buffered rd)), rd)
      else case source rd of
        [] \<Rightarrow> (Some (Ok []), rd)
      | Chunk c # es \<Rightarrow> (Some (Ok c), rd\<lparr>buffered := c, source := es\<rparr>)
      | Interrupted # es \<Rightarrow> (None, rd\<lparr>source := es\<rparr>)
      | IoError i # es \<Rightarrow> (Some (Err i), rd\<lparr>source := es\<rparr>))"

partial_function (option) read_loop ::
  "('s \<Rightarrow> bytes \<Rightarrow> ('e, dstatus) res \<times> 's \<times> bytes) \<Rightarrow> ('s \<Rightarrow> ('e, 'o) res) \<Rightarrow> 's
     \<Rightarrow> 'i bufreader \<Rightarrow> ((('i, 'e) read_error, 'o) res \<times> 'i bufreader) option" where
  "read_loop push fin s rd =
     (case fill_buf rd of
        (None, rd') \<Rightarrow> read_loop push fin s rd'
      | (Some b, rd') \<Rightarrow>
          (case b of
             Ok buffer \<Rightarrow>
               if buffer = [] then Some (map_err Decode (fin s), rd')
               else (case push s buffer of (st, s', r) \<Rightarrow>
                 let rd2 = rd'\<lparr>buffered := r\<rparr> in
                 (case st of
                    Ok Ready \<Rightarrow> Some (map_err Decode (fin s'), rd2)
                  | Ok NeedsMore \<Rightarrow> read_loop push fin s' rd2
                  | Err e \<Rightarrow> Some (Err (Decode e), rd')
                  | Panic \<Rightarrow> Some (Panic, rd')
                  | Diverge \<Rightarrow> Some (Diverge, rd')))
           | Err i \<Rightarrow> Some (Err (Io i), rd')
           | Panic \<Rightarrow> Some (Panic, rd')
           | Diverge \<Rightarrow> Some (Diverge, rd')))"

definition decode_from_read ::
  "('s \<Rightarrow> bytes \<Rightarrow> ('e, dstatus) res \<times> 's \<times> bytes) \<Rightarrow> ('s \<Rightarrow> ('e, 'o) res) \<Rightarrow> 's
     \<Rightarrow> 'i bufreader \<Rightarrow> (('i, 'e) read_error, 'o) res \<times> 'i bufreader" where
  "decode_from_read push fin s rd =
     (case read_loop push fin s rd of None \<Rightarrow> (Diverge, rd) | Some x \<Rightarrow> x)"

text \<open>The bytes a reader will deliver before its first I/O error, and whether there is one.\<close>

fun delivered :: "'i read_event list \<Rightarrow> bytes" where
  "delivered [] = []"
| "delivered (Chunk c # es) = c @ delivered es"
| "delivered (Interrupted # es) = delivered es"
| "delivered (IoError i # es) = []"

fun io_error :: "'i read_event list \<Rightarrow> 'i option" where
  "io_error [] = None"
| "io_error (IoError i # es) = Some i"
| "io_error (_ # es) = io_error es"

definition stream_of :: "'i bufreader \<Rightarrow> bytes" where
  "stream_of rd = buffered rd @ delivered (source rd)"

text \<open>A source never hands out an empty chunk before its end: an empty read is the end.\<close>

definition chunks_nonempty :: "'i bufreader \<Rightarrow> bool" where
  "chunks_nonempty rd \<longleftrightarrow> Chunk [] \<notin> set (source rd)"

subsection \<open>The driver for unbuffered readers\<close>

text \<open>
  An unbuffered reader (\<open>std::io::Read\<close>) holds the bytes still to be read and, for its next
  calls, how many bytes it chooses to give (at least one, at most the room in the buffer and
  the bytes it has), an interruption or an I/O error. When the choices have run out it gives as
  much as it can.
\<close>

datatype 'i read_choice = Give nat | GiveInterrupted | GiveError 'i

record 'i rawreader =
  stream :: bytes
  choices :: "'i read_choice list"

definition take_bytes :: "nat \<Rightarrow> 'i rawreader \<Rightarrow> bytes \<times> 'i rawreader" where
  "take_bytes n rd = (take n (stream rd), rd\<lparr>stream := drop n (stream rd)\<rparr>)"

definition read_raw :: "nat \<Rightarrow> 'i rawreader \<Rightarrow> ('i, bytes) res option \<times> 'i rawreader" where
  "read_raw room rd =
     (case choices rd of
        [] \<Rightarrow> (let (b, rd') = take_bytes room rd in (Some (Ok b), rd'))
      | Give k # cs \<Rightarrow>
          (let (b, rd') = take_bytes (min room (max 1 k)) rd in (Some (Ok b), rd'\<lparr>choices := cs\<rparr>))
      | GiveInterrupted # cs \<Rightarrow> (None, rd\<lparr>choices := cs\<rparr>)
      | GiveError i # cs \<Rightarrow> (Some (Err i), rd\<lparr>choices := cs\<rparr>))"

text \<open>The inner loop pushes the bytes of one read; \<open>Inl\<close> is an early return.\<close>

partial_function (option) push_loop ::
  "('s \<Rightarrow> bytes \<Rightarrow> ('e, dstatus) res \<times> 's \<times> bytes) \<Rightarrow> ('s \<Rightarrow> ('e, 'o) res) \<Rightarrow> 's \<Rightarrow> bytes
     \<Rightarrow> (('e, 'o) res + 's) option" where
  "push_loop push fin s bs =
     (if bs = [] then Some (Inr s)
      else case push s bs of (st, s', r) \<Rightarrow>
        (case st of
           Ok Ready \<Rightarrow> Some (Inl (fin s'))
         | Ok NeedsMore \<Rightarrow> push_loop push fin s' r
         | Err e \<Rightarrow> Some (Inl (Err e))
         | Panic \<Rightarrow> Some (Inl Panic)
         | Diverge \<Rightarrow> Some (Inl Diverge)))"

partial_function (option) unbuffered_loop ::
  "nat \<Rightarrow> ('s \<Rightarrow> bytes \<Rightarrow> ('e, dstatus) res \<times> 's \<times> bytes) \<Rightarrow> ('s \<Rightarrow> ('e, 'o) res) \<Rightarrow> ('s \<Rightarrow> nat)
     \<Rightarrow> 's \<Rightarrow> 'i rawreader \<Rightarrow> ((('i, 'e) read_error, 'o) res \<times> 'i rawreader) option" where
  "unbuffered_loop buffer_size push fin limit s rd =
     (if limit s = 0 then Some (map_err Decode (fin s), rd)
      else case read_raw (min (limit s) buffer_size) rd of
        (None, rd') \<Rightarrow> unbuffered_loop buffer_size push fin limit s rd'
      | (Some b, rd') \<Rightarrow>
          (case b of
             Ok to_push \<Rightarrow>
               if to_push = [] then Some (map_err Decode (fin s), rd')
               else Option.bind (push_loop push fin s to_push) (\<lambda>x. case x of
                   Inl result \<Rightarrow> Some (map_err Decode result, rd')
                 | Inr s' \<Rightarrow> unbuffered_loop buffer_size push fin limit s' rd')
           | Err i \<Rightarrow> Some (Err (Io i), rd')
           | Panic \<Rightarrow> Some (Panic, rd')
           | Diverge \<Rightarrow> Some (Diverge, rd')))"

definition decode_from_read_unbuffered ::
  "nat \<Rightarrow> ('s \<Rightarrow> bytes \<Rightarrow> ('e, dstatus) res \<times> 's \<times> bytes) \<Rightarrow> ('s \<Rightarrow> ('e, 'o) res) \<Rightarrow> ('s \<Rightarrow> nat)
     \<Rightarrow> 's \<Rightarrow> 'i rawreader \<Rightarrow> (('i, 'e) read_error, 'o) res \<times> 'i rawreader" where
  "decode_from_read_unbuffered buffer_size push fin limit s rd =
     (case unbuffered_loop buffer_size push fin limit s rd of
        None \<Rightarrow> (Diverge, rd) | Some x \<Rightarrow> x)"

fun no_io_error :: "'i read_choice list \<Rightarrow> bool" where
  "no_io_error [] = True"
| "no_io_error (GiveError i # cs) = False"
| "no_io_error (_ # cs) = no_io_error cs"

text \<open>What a driver should answer on a parser's outcome, for the two kinds of reader.\<close>

definition reads :: "('e, 'o) presult \<Rightarrow> ((('i, 'e) read_error, 'o) res \<times> 'i bufreader) option \<Rightarrow> bool" where
  "reads p x \<longleftrightarrow> (\<exists>d rd. x = Some (d, rd) \<and>
     (case p of POk v r \<Rightarrow> d = Ok v \<and> stream_of rd = r
      | PErr e \<Rightarrow> d = Err (Decode e) | PMore \<Rightarrow> \<exists>e. d = Err (Decode e) | PPanic \<Rightarrow> d = Panic))"

definition reads_raw ::
  "('e, 'o) presult \<Rightarrow> ((('i, 'e) read_error, 'o) res \<times> 'i rawreader) option \<Rightarrow> bool" where
  "reads_raw p x \<longleftrightarrow> (\<exists>d rd. x = Some (d, rd) \<and>
     (case p of POk v r \<Rightarrow> d = Ok v \<and> stream rd = r
      | PErr e \<Rightarrow> d = Err (Decode e) | PMore \<Rightarrow> \<exists>e. d = Err (Decode e) | PPanic \<Rightarrow> d = Panic))"

lemma reads_finished:
  "halts f \<Longrightarrow> stream_of rd = r \<Longrightarrow> reads (finished f r) (Some (map_err Decode f, rd))"
  by (cases f) (auto simp: reads_def)

lemma reads_raw_finished:
  "halts f \<Longrightarrow> stream rd = r \<Longrightarrow> reads_raw (finished f r) (Some (map_err Decode f, rd))"
  by (cases f) (auto simp: reads_raw_def)

subsection \<open>The contract\<close>

text \<open>
  \<open>run s\<close> is the parser that the state \<open>s\<close> denotes, \<open>inv s\<close> says that \<open>s\<close> is a state in
  which the decoder may be used (not one it is left in by an error). The laws: pushing never
  panics; asking for more consumes a prefix, not an empty one unless the slice is empty, the
  new state denotes the rest of the parser, and more is needed indeed; being ready means that \<open>end\<close> gives the parser's
  outcome, whatever bytes follow; an error is the parser's error; \<open>end\<close> in a state whose parser
  needs no more bytes gives its outcome, and otherwise is an error; \<open>read_limit\<close> is not zero
  while bytes are needed and never exceeds what the parser is going to consume.
\<close>

locale push_decoder =
  fixes push :: "'s \<Rightarrow> bytes \<Rightarrow> ('e, dstatus) res \<times> 's \<times> bytes"
    and fin :: "'s \<Rightarrow> ('e, 'o) res"
    and limit :: "'s \<Rightarrow> nat"
    and run :: "'s \<Rightarrow> bytes \<Rightarrow> ('e, 'o) presult"
    and inv :: "'s \<Rightarrow> bool"
  assumes push_halts: "inv s \<Longrightarrow> halts (fst (push s bs))"
    and push_more: "inv s \<Longrightarrow> push s bs = (Ok NeedsMore, s', r) \<Longrightarrow>
      inv s' \<and> run s' [] = PMore \<and>
      (\<exists>k. bs = k @ r \<and> (bs \<noteq> [] \<longrightarrow> k \<noteq> []) \<and> (\<forall>x. run s (k @ x) = run s' x))"
    and push_ready: "inv s \<Longrightarrow> push s bs = (Ok Ready, s', r) \<Longrightarrow>
      halts (fin s') \<and> (\<exists>k. bs = k @ r \<and> (\<forall>x. run s (k @ x) = finished (fin s') x))"
    and push_error: "inv s \<Longrightarrow> push s bs = (Err e, s', r) \<Longrightarrow> run s (bs @ x) = PErr e"
    and push_panic: "inv s \<Longrightarrow> push s bs = (Panic, s', r) \<Longrightarrow> run s (bs @ x) = PPanic"
    and fin_more: "inv s \<Longrightarrow> run s [] = PMore \<Longrightarrow> \<exists>e. fin s = Err e"
    and fin_done: "inv s \<Longrightarrow> run s [] \<noteq> PMore \<Longrightarrow>
      halts (fin s) \<and> (\<forall>x. run s x = finished (fin s) x)"
    and limit_pos: "inv s \<Longrightarrow> run s [] = PMore \<Longrightarrow> 0 < limit s"
    and limit_sound: "inv s \<Longrightarrow> run s bs = POk v r \<Longrightarrow> limit s + length r \<le> length bs"
begin

lemma push_cases:
  assumes "inv s"
  obtains (more) s' r k where "push s bs = (Ok NeedsMore, s', r)" "inv s'" "bs = k @ r"
      "bs \<noteq> [] \<longrightarrow> k \<noteq> []" "\<And>x. run s (k @ x) = run s' x" "run s' [] = PMore"
  | (ready) s' r k where "push s bs = (Ok Ready, s', r)" "halts (fin s')" "bs = k @ r"
      "\<And>x. run s (k @ x) = finished (fin s') x"
  | (error) e s' r where "push s bs = (Err e, s', r)" "\<And>x. run s (bs @ x) = PErr e"
  | (panic) s' r where "push s bs = (Panic, s', r)" "\<And>x. run s (bs @ x) = PPanic"
proof -
  obtain st s' r where p: "push s bs = (st, s', r)" by (cases "push s bs") auto
  show thesis
  proof (cases st)
    case (Ok d)
    show thesis
    proof (cases d)
      case NeedsMore
      with p Ok push_more [OF assms, of bs s' r] show thesis by (auto intro: more)
    next
      case Ready
      with p Ok push_ready [OF assms, of bs s' r] show thesis by (auto intro: ready)
    qed
  next
    case (Err e)
    with p push_error [OF assms, of bs e s' r] show thesis by (auto intro: error)
  next
    case Panic
    with p push_panic [OF assms, of bs s' r] show thesis by (auto intro: panic)
  next
    case Diverge
    with p push_halts [OF assms, of bs] show thesis by simp
  qed
qed

lemma fin_finished:
  "inv s \<Longrightarrow> run s [] \<noteq> PMore \<Longrightarrow> run s x = finished (fin s) x"
  using fin_done by blast

lemma fin_halts: "inv s \<Longrightarrow> halts (fin s)"
  using fin_done [of s] fin_more [of s] by (cases "run s []") auto

text \<open>The slice driver computes the parser.\<close>

lemma slice_loop_run:
  assumes "inv s"
  shows "\<exists>s' r. (slice_loop push s bs = Some (Ok (), s', r) \<and> halts (fin s') \<and>
        (run s bs = finished (fin s') r \<or> run s bs = PMore \<and> r = [] \<and> (\<exists>e. fin s' = Err e)))
      \<or> (\<exists>e. slice_loop push s bs = Some (Err e, s', r) \<and> run s bs = PErr e)
      \<or> slice_loop push s bs = Some (Panic, s', r) \<and> run s bs = PPanic"
  using assms
proof (induction bs arbitrary: s rule: length_induct)
  case (1 bs)
  show ?case
  proof (cases "bs = []")
    case True
    then have "slice_loop push s bs = Some (Ok (), s, [])"
      by (simp add: slice_loop.simps)
    moreover have "run s bs = finished (fin s) [] \<or> run s bs = PMore \<and> (\<exists>e. fin s = Err e)"
      using fin_finished [OF "1.prems"] fin_more [OF "1.prems"] True by auto
    ultimately show ?thesis using fin_halts [OF "1.prems"] by blast
  next
    case False
    from "1.prems" show ?thesis
    proof (cases rule: push_cases [of s bs])
      case (more s' r k)
      then have "length r < length bs" using False by auto
      moreover have "slice_loop push s bs = slice_loop push s' r"
        using more(1) False by (simp add: slice_loop.simps)
      moreover have "run s bs = run s' r" using more(3,5) by simp
      ultimately show ?thesis using "1.IH" [rule_format, of r s'] more(2) by simp
    next
      case (ready s' r k)
      have "slice_loop push s bs = Some (Ok (), s', r)"
        using ready(1) False by (simp add: slice_loop.simps)
      then show ?thesis using ready by auto
    next
      case (error e s' r)
      have "slice_loop push s bs = Some (Err e, s', r)"
        using error(1) False by (simp add: slice_loop.simps)
      then show ?thesis using error(2) [of "[]"] by auto
    next
      case (panic s' r)
      have "slice_loop push s bs = Some (Panic, s', r)"
        using panic(1) False by (simp add: slice_loop.simps)
      then show ?thesis using panic(2) [of "[]"] by auto
    qed
  qed
qed

text \<open>What the slice driver should answer on a parser's outcome.\<close>

lemma decode_unbounded_cases:
  assumes "inv s"
  shows "case run s bs of
      POk v r \<Rightarrow> decode_from_slice_unbounded push fin s bs = (Ok v, r)
    | PErr e \<Rightarrow> fst (decode_from_slice_unbounded push fin s bs) = Err e
    | PPanic \<Rightarrow> fst (decode_from_slice_unbounded push fin s bs) = Panic
    | PMore \<Rightarrow> \<exists>e. decode_from_slice_unbounded push fin s bs = (Err e, [])"
  using slice_loop_run [OF assms, of bs]
proof (elim exE disjE conjE)
  fix s' r
  assume loop: "slice_loop push s bs = Some (Ok (), s', r)" and f: "halts (fin s')"
    and run: "run s bs = finished (fin s') r"
  show ?thesis
    using loop f run by (cases "fin s'") (simp_all add: decode_from_slice_unbounded_def)
qed (auto simp: decode_from_slice_unbounded_def)

lemma decode_from_slice_cases:
  assumes "inv s"
  shows "case run s bs of
      POk v r \<Rightarrow> decode_from_slice push fin s bs = (if r = [] then Ok v else Err Unconsumed)
    | PErr e \<Rightarrow> decode_from_slice push fin s bs = Err (Parse e)
    | PPanic \<Rightarrow> decode_from_slice push fin s bs = Panic
    | PMore \<Rightarrow> \<exists>e. decode_from_slice push fin s bs = Err (Parse e)"
  using decode_unbounded_cases [OF assms, of bs]
  by (cases "run s bs"; cases "decode_from_slice_unbounded push fin s bs")
     (auto simp: decode_from_slice_def)

lemma decode_from_slice_iff:
  "inv s \<Longrightarrow> decode_from_slice push fin s bs = Ok v \<longleftrightarrow> run s bs = POk v []"
  using decode_from_slice_cases [of s bs] by (cases "run s bs") auto

lemma decode_from_slice_panic_iff:
  "inv s \<Longrightarrow> decode_from_slice push fin s bs = Panic \<longleftrightarrow> run s bs = PPanic"
  using decode_from_slice_cases [of s bs] by (cases "run s bs") auto

lemma decode_from_slice_halts: "inv s \<Longrightarrow> halts (decode_from_slice push fin s bs)"
  using decode_from_slice_cases [of s bs] by (cases "run s bs") auto

text \<open>The buffered driver computes the parser, and leaves the reader after the object.\<close>

lemma read_loop_unfold:
  assumes "fill_buf rd = (Some (Ok buffer), rd')" and "buffer \<noteq> []"
  shows "push s buffer = (Ok NeedsMore, s', r) \<Longrightarrow>
      read_loop push fin s rd = read_loop push fin s' (rd'\<lparr>buffered := r\<rparr>)"
    and "push s buffer = (Ok Ready, s', r) \<Longrightarrow>
      read_loop push fin s rd = Some (map_err Decode (fin s'), rd'\<lparr>buffered := r\<rparr>)"
    and "push s buffer = (Err e, s', r) \<Longrightarrow>
      read_loop push fin s rd = Some (Err (Decode e), rd')"
    and "push s buffer = (Panic, s', r) \<Longrightarrow> read_loop push fin s rd = Some (Panic, rd')"
  using assms by (subst read_loop.simps; simp)+

lemma read_loop_push:
  assumes inv: "inv s" and fb: "fill_buf rd = (Some (Ok buffer), rd')" and ne: "buffer \<noteq> []"
    and st: "stream_of rd = buffer @ rest" and rd': "\<And>r. stream_of (rd'\<lparr>buffered := r\<rparr>) = r @ rest"
    and IH: "\<And>s' r k. inv s' \<Longrightarrow> buffer = k @ r \<Longrightarrow> k \<noteq> [] \<Longrightarrow>
      reads (run s' (r @ rest)) (read_loop push fin s' (rd'\<lparr>buffered := r\<rparr>))"
  shows "reads (run s (stream_of rd)) (read_loop push fin s rd)"
  using inv
proof (cases rule: push_cases [of s buffer])
  case (more s' r k)
  have "run s (stream_of rd) = run s' (r @ rest)" using more(3,5) by (simp add: st)
  then show ?thesis
    using read_loop_unfold(1) [OF fb ne more(1)] IH [OF more(2,3)] more(4) ne by simp
next
  case (ready s' r k)
  then show ?thesis
    using read_loop_unfold(2) [OF fb ne ready(1)] by (simp add: st reads_finished rd')
next
  case (error e s' r)
  then show ?thesis
    using read_loop_unfold(3) [OF fb ne error(1)] by (auto simp: reads_def st)
next
  case (panic s' r)
  then show ?thesis
    using read_loop_unfold(4) [OF fb ne panic(1)] by (auto simp: reads_def st)
qed

lemma reads_eof:
  assumes "inv s"
  shows "stream_of rd = [] \<Longrightarrow> reads (run s []) (Some (map_err Decode (fin s), rd))"
    and "stream rw = [] \<Longrightarrow> reads_raw (run s []) (Some (map_err Decode (fin s), rw))"
proof -
  have "reads (run s []) (Some (map_err Decode (fin s), rd))" if "stream_of rd = []"
  proof (cases "run s [] = PMore")
    case True
    then show ?thesis using fin_more [OF assms] by (auto simp: reads_def)
  next
    case False
    then show ?thesis using fin_done [OF assms False] that by (simp add: reads_finished)
  qed
  moreover have "reads_raw (run s []) (Some (map_err Decode (fin s), rw))" if "stream rw = []"
  proof (cases "run s [] = PMore")
    case True
    then show ?thesis using fin_more [OF assms] by (auto simp: reads_raw_def)
  next
    case False
    then show ?thesis using fin_done [OF assms False] that by (simp add: reads_raw_finished)
  qed
  ultimately show "stream_of rd = [] \<Longrightarrow> reads (run s []) (Some (map_err Decode (fin s), rd))"
    and "stream rw = [] \<Longrightarrow> reads_raw (run s []) (Some (map_err Decode (fin s), rw))" by auto
qed

lemma read_loop_eof:
  assumes "inv s" and "buffered rd = []" and "source rd = []"
  shows "reads (run s (stream_of rd)) (read_loop push fin s rd)"
proof -
  have "read_loop push fin s rd = Some (map_err Decode (fin s), rd)"
    using assms by (subst read_loop.simps) simp
  moreover have "stream_of rd = []" using assms by (simp add: stream_of_def)
  ultimately show ?thesis using reads_eof(1) [OF assms(1)] by simp
qed

lemma read_loop_run:
  assumes "inv s" and "chunks_nonempty rd" and "io_error (source rd) = None"
  shows "reads (run s (stream_of rd)) (read_loop push fin s rd)"
  using assms
proof (induction "length (stream_of rd) + length (source rd)" arbitrary: s rd rule: less_induct)
  case less
  have IH: "reads (run s' (r @ delivered es)) (read_loop push fin s' (rd\<lparr>source := es, buffered := r\<rparr>))"
    if "inv s'" and "length r + length (delivered es) + length es < length (stream_of rd) + length (source rd)"
      and "Chunk [] \<notin> set es" and "io_error es = None" for s' r es
    using less.hyps [of "rd\<lparr>source := es, buffered := r\<rparr>" s'] that
    by (simp add: stream_of_def chunks_nonempty_def)
  show ?case
  proof (cases "buffered rd = []")
    case False
    then have "fill_buf rd = (Some (Ok (buffered rd)), rd)" by simp
    then show ?thesis
      by (rule read_loop_push [OF less.prems(1)])
         (use False less.prems IH [where es = "source rd"]
            in \<open>auto simp: stream_of_def chunks_nonempty_def\<close>)
  next
    case True
    show ?thesis
    proof (cases "source rd")
      case Nil
      then show ?thesis using read_loop_eof less.prems(1) True by blast
    next
      case (Cons ev es)
      show ?thesis
      proof (cases ev)
        case (Chunk c)
        then have "fill_buf rd = (Some (Ok c), rd\<lparr>buffered := c, source := es\<rparr>)" and "c \<noteq> []"
          using True Cons less.prems(2) by (auto simp: chunks_nonempty_def)
        then show ?thesis
          by (rule read_loop_push [OF less.prems(1)])
             (use True Cons Chunk less.prems IH [where es = es]
                in \<open>auto simp: stream_of_def chunks_nonempty_def\<close>)
      next
        case Interrupted
        have "read_loop push fin s rd = read_loop push fin s (rd\<lparr>source := es\<rparr>)"
          using True Cons Interrupted by (subst read_loop.simps) simp
        then show ?thesis
          using less.hyps [of "rd\<lparr>source := es\<rparr>" s] less.prems True Cons Interrupted
          by (simp add: stream_of_def chunks_nonempty_def)
      next
        case (IoError i)
        with less.prems Cons show ?thesis by simp
      qed
    qed
  qed
qed

text \<open>The unbuffered driver computes the parser, and reads not one byte past the object.\<close>

lemma push_loop_run:
  assumes "inv s" and "length bs \<le> limit s"
  shows "(\<exists>s'. push_loop push fin s bs = Some (Inr s') \<and> inv s' \<and> (\<forall>x. run s (bs @ x) = run s' x))
      \<or> (\<exists>d. push_loop push fin s bs = Some (Inl d) \<and> halts d
            \<and> (\<forall>x. run s (bs @ x) = finished d x))"
proof -
  have "(\<exists>s'. push_loop push fin s bs = Some (Inr s') \<and> inv s' \<and> (\<forall>x. run s (bs @ x) = run s' x))
      \<or> (\<exists>d r. push_loop push fin s bs = Some (Inl d) \<and> halts d
            \<and> (\<forall>x. run s (bs @ x) = finished d (r @ x)))"
    using assms(1)
  proof (induction bs arbitrary: s rule: length_induct)
    case (1 bs)
    show ?case
    proof (cases "bs = []")
      case True
      then show ?thesis using "1.prems" by (simp add: push_loop.simps)
    next
      case False
      from "1.prems" show ?thesis
      proof (cases rule: push_cases [of s bs])
        case (more s' r k)
        then have "length r < length bs" using False by auto
        moreover have "\<And>x. run s (bs @ x) = run s' (r @ x)" using more(3,5) by simp
        moreover note "1.IH" [rule_format, of r s']
        ultimately show ?thesis
          using more(1,2) False by (simp add: push_loop.simps [of push fin s bs])
      next
        case (ready s' r k)
        have "push_loop push fin s bs = Some (Inl (fin s'))"
          using ready(1) False by (simp add: push_loop.simps)
        moreover have "\<And>x. run s (bs @ x) = finished (fin s') (r @ x)" using ready(3,4) by simp
        ultimately show ?thesis using ready(2) by blast
      next
        case (error e s' r)
        have "push_loop push fin s bs = Some (Inl (Err e))"
          using error(1) False by (simp add: push_loop.simps)
        moreover have "halts (Err e :: ('e, 'o) res)" by simp
        moreover have "\<And>x. run s (bs @ x) = finished (Err e) ([] @ x)" using error(2) by simp
        ultimately show ?thesis by blast
      next
        case (panic s' r)
        have "push_loop push fin s bs = Some (Inl Panic)"
          using panic(1) False by (simp add: push_loop.simps)
        moreover have "halts (Panic :: ('e, 'o) res)" by simp
        moreover have "\<And>x. run s (bs @ x) = finished Panic ([] @ x)" using panic(2) by simp
        ultimately show ?thesis by blast
      qed
    qed
  qed
  then show ?thesis
  proof (elim disjE exE conjE)
    fix d r
    assume d: "push_loop push fin s bs = Some (Inl d)" "halts d"
      and run: "\<forall>x. run s (bs @ x) = finished d (r @ x)"
    have "\<forall>x. run s (bs @ x) = finished d x"
    proof (cases d)
      case (Ok v)
      then have "limit s + length r \<le> length bs"
        using limit_sound [OF assms(1), of bs v r] run [rule_format, of "[]"] by simp
      then have "length r = 0" using assms(2) by linarith
      then have "r = []" by simp
      then show ?thesis using run by simp
    qed (use run d in auto)
    then show ?thesis using d by blast
  qed blast
qed

lemma read_raw_cases:
  assumes "0 < room" and "no_io_error (choices rd)"
  obtains (again) cs where "read_raw room rd = (None, rd\<lparr>choices := cs\<rparr>)"
      "choices rd = GiveInterrupted # cs"
  | (bytes) n cs where "0 < n" "n \<le> room"
      "read_raw room rd = (Some (Ok (take n (stream rd))), rd\<lparr>stream := drop n (stream rd), choices := cs\<rparr>)"
      "length cs \<le> length (choices rd)" "no_io_error cs"
proof (cases "choices rd")
  case Nil
  then show ?thesis
    using assms by (intro bytes [of room "[]"]) (auto simp: read_raw_def take_bytes_def)
next
  case (Cons c cs)
  show ?thesis
  proof (cases c)
    case (Give k)
    then show ?thesis
      using Cons assms by (intro bytes [of "min room (max 1 k)" cs]) (auto simp: read_raw_def take_bytes_def)
  next
    case GiveInterrupted
    then show ?thesis using Cons by (intro again) (auto simp: read_raw_def)
  next
    case (GiveError i)
    then show ?thesis using Cons assms by simp
  qed
qed

lemma unbuffered_loop_run:
  assumes "inv s" and "0 < buffer_size" and "no_io_error (choices rd)"
  shows "reads_raw (run s (stream rd)) (unbuffered_loop buffer_size push fin limit s rd)"
  using assms
proof (induction "length (stream rd) + length (choices rd)" arbitrary: s rd rule: less_induct)
  case less
  show ?case
  proof (cases "limit s = 0")
    case True
    then have "run s [] \<noteq> PMore" using limit_pos [OF less.prems(1)] by auto
    moreover have "unbuffered_loop buffer_size push fin limit s rd = Some (map_err Decode (fin s), rd)"
      using True by (subst unbuffered_loop.simps) simp
    ultimately show ?thesis
      using fin_done [OF less.prems(1)] by (simp add: reads_raw_finished)
  next
    case False
    let ?room = "min (limit s) buffer_size"
    have "0 < ?room" using False less.prems(2) by simp
    then show ?thesis using less.prems(3)
    proof (cases rule: read_raw_cases)
      case (again cs)
      then have "unbuffered_loop buffer_size push fin limit s rd
          = unbuffered_loop buffer_size push fin limit s (rd\<lparr>choices := cs\<rparr>)"
        using False by (subst unbuffered_loop.simps) simp
      then show ?thesis using less.hyps [of "rd\<lparr>choices := cs\<rparr>" s] less.prems again by simp
    next
      case (bytes n cs)
      let ?rd = "rd\<lparr>stream := drop n (stream rd), choices := cs\<rparr>"
      show ?thesis
      proof (cases "stream rd = []")
        case True
        then have "unbuffered_loop buffer_size push fin limit s rd = Some (map_err Decode (fin s), ?rd)"
          using False bytes by (subst unbuffered_loop.simps) simp
        then show ?thesis using True reads_eof(2) [OF less.prems(1), of ?rd] by simp
      next
        case nonempty: False
        have unfold: "unbuffered_loop buffer_size push fin limit s rd =
            Option.bind (push_loop push fin s (take n (stream rd))) (\<lambda>x. case x of
               Inl result \<Rightarrow> Some (map_err Decode result, ?rd)
             | Inr s' \<Rightarrow> unbuffered_loop buffer_size push fin limit s' ?rd)"
          using False bytes nonempty by (subst unbuffered_loop.simps) simp
        have "length (take n (stream rd)) \<le> limit s" using bytes(2) by (simp add: min_le_iff_disj)
        from push_loop_run [OF less.prems(1) this] show ?thesis
        proof (elim disjE exE conjE)
          fix s' assume s': "push_loop push fin s (take n (stream rd)) = Some (Inr s')" "inv s'"
            "\<forall>x. run s (take n (stream rd) @ x) = run s' x"
          have "reads_raw (run s' (stream ?rd)) (unbuffered_loop buffer_size push fin limit s' ?rd)"
            using less.hyps [of ?rd s'] less.prems s'(2) bytes nonempty by (simp add: add_less_le_mono)
          moreover have "run s (stream rd) = run s' (stream ?rd)"
            using s'(3) [rule_format, of "drop n (stream rd)"] by simp
          ultimately show ?thesis using s'(1) by (simp add: unfold)
        next
          fix d assume d: "push_loop push fin s (take n (stream rd)) = Some (Inl d)"
            "halts d" "\<forall>x. run s (take n (stream rd) @ x) = finished d x"
          have "run s (stream rd) = finished d (drop n (stream rd))"
            using d(3) [rule_format, of "drop n (stream rd)"] by simp
          then show ?thesis using d by (simp add: unfold reads_raw_finished)
        qed
      qed
    qed
  qed
qed

end

text \<open>How a decoder is shown to meet the contract: each push has one of four outcomes.\<close>

definition push_outcome ::
  "('s \<Rightarrow> bytes \<Rightarrow> ('e, dstatus) res \<times> 's \<times> bytes) \<Rightarrow> ('s \<Rightarrow> ('e, 'o) res) \<Rightarrow>
     ('s \<Rightarrow> bytes \<Rightarrow> ('e, 'o) presult) \<Rightarrow> ('s \<Rightarrow> bool) \<Rightarrow> 's \<Rightarrow> bytes \<Rightarrow> bool" where
  "push_outcome push fin run pending s bs \<longleftrightarrow>
     (\<exists>s' r k. push s bs = (Ok NeedsMore, s', r) \<and> pending s' \<and> run s' [] = PMore \<and> bs = k @ r \<and>
        (bs \<noteq> [] \<longrightarrow> k \<noteq> []) \<and> (\<forall>x. run s (k @ x) = run s' x))
     \<or> (\<exists>s' r k. push s bs = (Ok Ready, s', r) \<and> halts (fin s') \<and> bs = k @ r \<and>
        (\<forall>x. run s (k @ x) = finished (fin s') x))
     \<or> (\<exists>e s' r. push s bs = (Err e, s', r) \<and> (\<forall>x. run s (bs @ x) = PErr e))
     \<or> (\<exists>s' r. push s bs = (Panic, s', r) \<and> (\<forall>x. run s (bs @ x) = PPanic))"

lemma outcome_more:
  "push s bs = (Ok NeedsMore, s', r) \<Longrightarrow> pending s' \<Longrightarrow> run s' [] = PMore \<Longrightarrow> bs = k @ r \<Longrightarrow>
   (bs \<noteq> [] \<Longrightarrow> k \<noteq> []) \<Longrightarrow> (\<And>x. run s (k @ x) = run s' x) \<Longrightarrow> push_outcome push fin run pending s bs"
  unfolding push_outcome_def by blast

lemma outcome_ready:
  "push s bs = (Ok Ready, s', r) \<Longrightarrow> halts (fin s') \<Longrightarrow> bs = k @ r \<Longrightarrow>
   (\<And>x. run s (k @ x) = finished (fin s') x) \<Longrightarrow> push_outcome push fin run pending s bs"
  unfolding push_outcome_def by blast

lemma outcome_error:
  "push s bs = (Err e, s', r) \<Longrightarrow> (\<And>x. run s (bs @ x) = PErr e) \<Longrightarrow> push_outcome push fin run pending s bs"
  unfolding push_outcome_def by blast

lemma outcome_panic:
  "push s bs = (Panic, s', r) \<Longrightarrow> (\<And>x. run s (bs @ x) = PPanic) \<Longrightarrow> push_outcome push fin run pending s bs"
  unfolding push_outcome_def by blast

text \<open>A push that goes on, after the bytes \<open>k\<close>, as another push of the bytes left.\<close>

lemma outcome_step:
  assumes out: "push_outcome push0 fin run pending s0 r0"
    and push: "push s bs = push0 s0 r0" and k: "bs = k0 @ r0" "bs \<noteq> [] \<Longrightarrow> r0 = [] \<Longrightarrow> k0 \<noteq> []"
    and run: "\<And>x. run s (k0 @ x) = run s0 x"
  shows "push_outcome push fin run pending s bs"
  using out [unfolded push_outcome_def]
proof (elim disjE exE conjE)
  fix s' r k
  assume "push0 s0 r0 = (Ok NeedsMore, s', r)" "pending s'" "run s' [] = PMore" "r0 = k @ r"
    "r0 \<noteq> [] \<longrightarrow> k \<noteq> []" "\<forall>x. run s0 (k @ x) = run s' x"
  then show ?thesis
    using push k run by (intro outcome_more [where s' = s' and r = r and k = "k0 @ k"]) auto
next
  fix s' r k
  assume "push0 s0 r0 = (Ok Ready, s', r)" "halts (fin s')" "r0 = k @ r"
    "\<forall>x. run s0 (k @ x) = finished (fin s') x"
  then show ?thesis
    using push k run by (intro outcome_ready [where s' = s' and r = r and k = "k0 @ k"]) auto
next
  fix e s' r
  assume "push0 s0 r0 = (Err e, s', r)" "\<forall>x. run s0 (r0 @ x) = PErr e"
  then show ?thesis
    using push k run by (intro outcome_error [where e = e and s' = s' and r = r]) auto
next
  fix s' r
  assume "push0 s0 r0 = (Panic, s', r)" "\<forall>x. run s0 (r0 @ x) = PPanic"
  then show ?thesis
    using push k run by (intro outcome_panic [where s' = s' and r = r]) auto
qed

lemma push_decoder_intro:
  assumes outcome: "\<And>s bs. pending s \<Longrightarrow> push_outcome push fin run pending s bs"
    and fin_more: "\<And>s. pending s \<Longrightarrow> run s [] = PMore \<Longrightarrow> \<exists>e. fin s = Err e"
    and fin_done: "\<And>s x. pending s \<Longrightarrow> run s [] \<noteq> PMore \<Longrightarrow> halts (fin s) \<and> run s x = finished (fin s) x"
    and limit_pos: "\<And>s. pending s \<Longrightarrow> run s [] = PMore \<Longrightarrow> 0 < limit s"
    and limit_sound: "\<And>s bs v r. pending s \<Longrightarrow> run s bs = POk v r \<Longrightarrow> limit s + length r \<le> length bs"
  shows "push_decoder push fin limit run pending"
proof
  fix s s' bs r
  assume inv: "pending s"
  note out = outcome [OF inv, of bs, unfolded push_outcome_def]
  show "halts (fst (push s bs))" using out by auto
  show "push s bs = (Ok NeedsMore, s', r) \<Longrightarrow> pending s' \<and> run s' [] = PMore \<and>
      (\<exists>k. bs = k @ r \<and> (bs \<noteq> [] \<longrightarrow> k \<noteq> []) \<and> (\<forall>x. run s (k @ x) = run s' x))"
    using out by auto
  show "push s bs = (Ok Ready, s', r) \<Longrightarrow> halts (fin s') \<and>
      (\<exists>k. bs = k @ r \<and> (\<forall>x. run s (k @ x) = finished (fin s') x))"
    using out by auto
  show "push s bs = (Err e, s', r) \<Longrightarrow> run s (bs @ x) = PErr e" for e x
    using out by auto
  show "push s bs = (Panic, s', r) \<Longrightarrow> run s (bs @ x) = PPanic" for x
    using out by auto
qed (use fin_more fin_done limit_pos limit_sound in blast)+

subsection \<open>Decoders written as state machines\<close>

text \<open>
  A hand-written decoder is a loop over the states of a machine: the decoder of the current part
  is pushed to; when it is ready, it is ended and the next state is entered. \<open>Continue\<close> goes round
  the loop, \<open>Return\<close> leaves the function. \<open>drive_part\<close> is the treatment of one part: \<open>mk\<close> puts the
  part's decoder back into the state, \<open>err\<close> wraps its errors, \<open>nxt\<close> is what follows.
\<close>

datatype ('e, 's) round = Return "('e, dstatus) res \<times> 's \<times> bytes" | Continue 's bytes

definition drive_part ::
  "('d \<Rightarrow> bytes \<Rightarrow> ('f, dstatus) res \<times> 'd \<times> bytes) \<Rightarrow> ('d \<Rightarrow> ('f, 'a) res) \<Rightarrow> ('f \<Rightarrow> 'e) \<Rightarrow> ('d \<Rightarrow> 's)
     \<Rightarrow> 's \<Rightarrow> ('a \<Rightarrow> bytes \<Rightarrow> ('e, 's) round) \<Rightarrow> 'd \<Rightarrow> bytes \<Rightarrow> ('e, 's) round" where
  "drive_part push fin err mk errored nxt d bs =
     (case push d bs of (st, d', r) \<Rightarrow>
        (case st of
           Ok NeedsMore \<Rightarrow> Return (Ok NeedsMore, mk d', r)
         | Ok Ready \<Rightarrow>
             (case fin d' of
                Ok v \<Rightarrow> nxt v r
              | Err e \<Rightarrow> Return (Err (err e), errored, r)
              | Panic \<Rightarrow> Return (Panic, errored, r)
              | Diverge \<Rightarrow> Return (Diverge, errored, r))
         | Err e \<Rightarrow> Return (Err (err e), mk d', r)
         | Panic \<Rightarrow> Return (Panic, mk d', r)
         | Diverge \<Rightarrow> Return (Diverge, mk d', r)))"

partial_function (option) round_loop ::
  "('s \<Rightarrow> bytes \<Rightarrow> ('e, 's) round) \<Rightarrow> 's \<Rightarrow> bytes \<Rightarrow> (('e, dstatus) res \<times> 's \<times> bytes) option" where
  "round_loop step s bs =
     (case step s bs of Return x \<Rightarrow> Some x | Continue s' r \<Rightarrow> round_loop step s' r)"

definition machine_push ::
  "('s \<Rightarrow> bytes \<Rightarrow> ('e, 's) round) \<Rightarrow> 's \<Rightarrow> bytes \<Rightarrow> ('e, dstatus) res \<times> 's \<times> bytes" where
  "machine_push step s bs = (case round_loop step s bs of None \<Rightarrow> (Diverge, s, bs) | Some x \<Rightarrow> x)"

text \<open>The rest of a push after a round.\<close>

definition resume ::
  "('s \<Rightarrow> bytes \<Rightarrow> ('e, 's) round) \<Rightarrow> ('e, 's) round \<Rightarrow> ('e, dstatus) res \<times> 's \<times> bytes" where
  "resume step x = (case x of Return y \<Rightarrow> y | Continue s r \<Rightarrow> machine_push step s r)"

definition result_outcome ::
  "('s \<Rightarrow> ('e, 'o) res) \<Rightarrow> ('s \<Rightarrow> bytes \<Rightarrow> ('e, 'o) presult) \<Rightarrow> ('s \<Rightarrow> bool)
     \<Rightarrow> (bytes \<Rightarrow> ('e, 'o) presult) \<Rightarrow> bytes \<Rightarrow> ('e, dstatus) res \<times> 's \<times> bytes \<Rightarrow> bool" where
  "result_outcome fin run pending p bs y \<longleftrightarrow>
     (\<exists>s' r k. y = (Ok NeedsMore, s', r) \<and> pending s' \<and> run s' [] = PMore \<and> bs = k @ r \<and>
        (bs \<noteq> [] \<longrightarrow> k \<noteq> []) \<and> (\<forall>x. p (k @ x) = run s' x))
     \<or> (\<exists>s' r k. y = (Ok Ready, s', r) \<and> halts (fin s') \<and> bs = k @ r \<and>
        (\<forall>x. p (k @ x) = finished (fin s') x))
     \<or> (\<exists>e s' r. y = (Err e, s', r) \<and> (\<forall>x. p (bs @ x) = PErr e))
     \<or> (\<exists>s' r. y = (Panic, s', r) \<and> (\<forall>x. p (bs @ x) = PPanic))"

lemma result_outcome_push:
  "push_outcome push fin run pending s bs \<longleftrightarrow> result_outcome fin run pending (run s) bs (push s bs)"
  by (simp add: push_outcome_def result_outcome_def)

lemma result_more:
  "pending s' \<Longrightarrow> run s' [] = PMore \<Longrightarrow> bs = k @ r \<Longrightarrow> (bs \<noteq> [] \<Longrightarrow> k \<noteq> []) \<Longrightarrow>
   (\<And>x. p (k @ x) = run s' x) \<Longrightarrow> result_outcome fin run pending p bs (Ok NeedsMore, s', r)"
  unfolding result_outcome_def by blast

lemma result_ready:
  "halts (fin s') \<Longrightarrow> bs = k @ r \<Longrightarrow> (\<And>x. p (k @ x) = finished (fin s') x) \<Longrightarrow>
   result_outcome fin run pending p bs (Ok Ready, s', r)"
  unfolding result_outcome_def by blast

lemma result_error:
  "(\<And>x. p (bs @ x) = PErr e) \<Longrightarrow> result_outcome fin run pending p bs (Err e, s', r)"
  unfolding result_outcome_def by blast

lemma result_panic:
  "(\<And>x. p (bs @ x) = PPanic) \<Longrightarrow> result_outcome fin run pending p bs (Panic, s', r)"
  unfolding result_outcome_def by blast

lemma result_step:
  assumes out: "result_outcome fin run pending p0 r0 y"
    and k: "bs = k0 @ r0" "bs \<noteq> [] \<Longrightarrow> r0 = [] \<Longrightarrow> k0 \<noteq> []"
    and p: "\<And>x. p (k0 @ x) = p0 x"
  shows "result_outcome fin run pending p bs y"
  using out [unfolded result_outcome_def]
proof (elim disjE exE conjE)
  fix s' r k
  assume "y = (Ok NeedsMore, s', r)" "pending s'" "run s' [] = PMore" "r0 = k @ r"
    "r0 \<noteq> [] \<longrightarrow> k \<noteq> []" "\<forall>x. p0 (k @ x) = run s' x"
  then show ?thesis using k p by (auto intro!: result_more [where k = "k0 @ k"])
next
  fix s' r k
  assume "y = (Ok Ready, s', r)" "halts (fin s')" "r0 = k @ r" "\<forall>x. p0 (k @ x) = finished (fin s') x"
  then show ?thesis using k p by (auto intro!: result_ready [where k = "k0 @ k"])
next
  fix e s' r
  assume "y = (Err e, s', r)" "\<forall>x. p0 (r0 @ x) = PErr e"
  then show ?thesis using k p by (auto intro!: result_error)
next
  fix s' r
  assume "y = (Panic, s', r)" "\<forall>x. p0 (r0 @ x) = PPanic"
  then show ?thesis using k p by (auto intro!: result_panic)
qed

lemma machine_push_resume:
  "result_outcome fin run pending p bs (resume step (step s bs)) \<Longrightarrow>
   result_outcome fin run pending p bs (machine_push step s bs)"
  by (cases "step s bs")
     (auto simp: machine_push_def resume_def result_outcome_def round_loop.simps [of step s] split: option.splits)

context push_decoder
begin

lemma part_outcome:
  assumes inv: "inv d"
    and pending: "\<And>d'. inv d' \<Longrightarrow> run d' [] = PMore \<Longrightarrow>
      pending' (mk d') \<and> run' (mk d') = (\<lambda>x. pbind (pmap_err err (run d' x)) K)"
    and nxt_ok: "\<And>v r. result_outcome fin' run' pending' (K v) r (resume step (nxt v r))"
  shows "result_outcome fin' run' pending' (\<lambda>x. pbind (pmap_err err (run d x)) K) bs
    (resume step (drive_part push fin err mk errored nxt d bs))"
  using inv
proof (cases rule: push_cases [of d bs])
  case (more d' r k)
  then have "resume step (drive_part push fin err mk errored nxt d bs) = (Ok NeedsMore, mk d', r)"
    by (simp add: drive_part_def resume_def)
  then show ?thesis using more pending [of d'] by (auto intro!: result_more [where k = k])
next
  case (ready d' r k)
  show ?thesis
  proof (cases "fin d'")
    case (Ok v)
    then have eq: "resume step (drive_part push fin err mk errored nxt d bs) = resume step (nxt v r)"
      using ready by (simp add: drive_part_def resume_def)
    show ?thesis unfolding eq
      by (rule result_step [OF nxt_ok [of v r], of _ k]) (use ready Ok in auto)
  next
    case (Err e)
    have "run d (bs @ x) = PErr e" for x using ready(4) [of "r @ x"] ready(3) Err by simp
    then show ?thesis using ready Err by (auto simp: drive_part_def resume_def intro!: result_error)
  next
    case Panic
    have "run d (bs @ x) = PPanic" for x using ready(4) [of "r @ x"] ready(3) Panic by simp
    then show ?thesis using ready Panic by (auto simp: drive_part_def resume_def intro!: result_panic)
  qed (use ready in auto)
next
  case (error e d' r)
  then show ?thesis by (auto simp: drive_part_def resume_def intro!: result_error)
next
  case (panic d' r)
  then show ?thesis by (auto simp: drive_part_def resume_def intro!: result_panic)
qed

end

end
