(* ===== verification/Compact_Size.thy ===== *)
theory Compact_Size
  imports Push_Decoder
begin

section \<open>Compact sizes\<close>

text \<open>
  \<open>consensus_encoding/src/compact_size.rs\<close>: the variable-length integer that prefixes every
  collection of the consensus encoding. The encoder's buffer is the byte string
  \<open>compact_size_encode\<close>; the two decoders share \<open>compact_size_push_bytes\<close>,
  \<open>compact_size_read_limit\<close> and \<open>compact_size_decode_u64\<close>, and differ in what \<open>end\<close> makes of
  the number. Both are instances of \<open>push_decoder\<close>.
\<close>

subsection \<open>The encoder\<close>

definition MAX_COMPACT_SIZE :: nat where
  "MAX_COMPACT_SIZE = 0x02000000"

definition PREFIX_U16 :: u8 where "PREFIX_U16 = 0xFD"
definition PREFIX_U32 :: u8 where "PREFIX_U32 = 0xFE"
definition PREFIX_U64 :: u8 where "PREFIX_U64 = 0xFF"

lemmas prefix_defs = PREFIX_U16_def PREFIX_U32_def PREFIX_U64_def

definition encoded_size :: "nat \<Rightarrow> nat" where
  "encoded_size value =
     (if value \<le> 0xFC then 1
      else if value \<le> 0xFFFF then 3
      else if value \<le> 0xFFFFFFFF then 5
      else 9)"

definition compact_size_encode :: "u64 \<Rightarrow> bytes" where
  "compact_size_encode value =
     (if value \<le> 0xFC then [ucast value]
      else if value \<le> 0xFFFF then PREFIX_U16 # to_le_bytes (ucast value :: u16)
      else if value \<le> 0xFFFFFFFF then PREFIX_U32 # to_le_bytes (ucast value :: u32)
      else PREFIX_U64 # to_le_bytes value)"

text \<open>\<open>CompactSizeEncoder::new\<close>: the length of a collection, a \<open>usize\<close>, is cast to \<open>u64\<close>.\<close>

definition compact_size_new :: "nat \<Rightarrow> bytes" where
  "compact_size_new value = compact_size_encode (word_of_nat value)"

subsection \<open>The decoders\<close>

datatype compact_size_error =
    UnexpectedEof nat nat
  | NonMinimal u64
  | ValueExceedsLimit nat u64

record compact_size_decoder =
  cs_buf :: bytes
  cs_limit :: nat

record compact_size_u64_decoder =
  cs64_buf :: bytes

definition compact_size_decoder_new_with_limit :: "nat \<Rightarrow> compact_size_decoder" where
  "compact_size_decoder_new_with_limit limit = \<lparr>cs_buf = [], cs_limit = limit\<rparr>"

definition compact_size_decoder_new :: compact_size_decoder where
  "compact_size_decoder_new = \<lparr>cs_buf = [], cs_limit = MAX_COMPACT_SIZE\<rparr>"

definition compact_size_u64_decoder_new :: compact_size_u64_decoder where
  "compact_size_u64_decoder_new = \<lparr>cs64_buf = []\<rparr>"

definition prefix_length :: "u8 \<Rightarrow> nat" where
  "prefix_length b =
     (if b = PREFIX_U64 then 9 else if b = PREFIX_U32 then 5 else if b = PREFIX_U16 then 3 else 1)"

text \<open>The subtraction \<open>len - buf.len()\<close> would overflow on a buffer longer than its prefix says.\<close>

definition compact_size_push_bytes ::
  "bytes \<Rightarrow> bytes \<Rightarrow> (compact_size_error, dstatus) res \<times> bytes \<times> bytes" where
  "compact_size_push_bytes buf bs =
     (if bs = [] then (Ok NeedsMore, buf, bs)
      else
        let (buf1, bs1) = (if buf = [] then ([hd bs], tl bs) else (buf, bs));
            len = prefix_length (hd buf1)
        in if len < length buf1 then (Panic, buf1, bs1)
           else
             let to_copy = min (length bs1) (len - length buf1);
                 buf2 = buf1 @ take to_copy bs1
             in (Ok (if length buf2 = len then Ready else NeedsMore), buf2, drop to_copy bs1))"

definition compact_size_read_limit :: "bytes \<Rightarrow> nat" where
  "compact_size_read_limit buf =
     (if buf = [] then 1
      else if hd buf = PREFIX_U64 then 9 - length buf
      else if hd buf = PREFIX_U32 then 5 - length buf
      else if hd buf = PREFIX_U16 then 3 - length buf
      else 0)"

text \<open>\<open>arr::<N>(payload)\<close>: the payload must have exactly \<open>N\<close> bytes.\<close>

definition arr :: "nat \<Rightarrow> bytes \<Rightarrow> (compact_size_error, bytes) res" where
  "arr n bs = (if length bs = n then Ok bs else Err (UnexpectedEof n (length bs)))"

fun compact_size_decode_u64 :: "bytes \<Rightarrow> (compact_size_error, u64) res" where
  "compact_size_decode_u64 [] = Err (UnexpectedEof 1 0)"
| "compact_size_decode_u64 (first # payload) =
     (if first = PREFIX_U64 then
        res_bind (arr 8 payload) (\<lambda>a. let x = from_le_bytes a :: u64 in
          if x < 0x100000000 then Err (NonMinimal x) else Ok x)
      else if first = PREFIX_U32 then
        res_bind (arr 4 payload) (\<lambda>a. let x = from_le_bytes a :: u32 in
          if x < 0x10000 then Err (NonMinimal (ucast x)) else Ok (ucast x))
      else if first = PREFIX_U16 then
        res_bind (arr 2 payload) (\<lambda>a. let x = from_le_bytes a :: u16 in
          if x < 0xFD then Err (NonMinimal (ucast x)) else Ok (ucast x))
      else Ok (ucast first))"

text \<open>\<open>usize::try_from\<close> succeeds for every \<open>u64\<close> on a target with 64-bit pointers.\<close>

definition compact_size_check :: "nat \<Rightarrow> u64 \<Rightarrow> (compact_size_error, nat) res" where
  "compact_size_check limit dec_value =
     (let nsize = unat dec_value in
      if nsize \<le> limit then Ok nsize else Err (ValueExceedsLimit limit dec_value))"

definition compact_size_decoder_push ::
  "compact_size_decoder \<Rightarrow> bytes \<Rightarrow> (compact_size_error, dstatus) res \<times> compact_size_decoder \<times> bytes" where
  "compact_size_decoder_push d bs =
     (case compact_size_push_bytes (cs_buf d) bs of (st, b, r) \<Rightarrow> (st, d\<lparr>cs_buf := b\<rparr>, r))"

definition compact_size_decoder_end :: "compact_size_decoder \<Rightarrow> (compact_size_error, nat) res" where
  "compact_size_decoder_end d =
     res_bind (compact_size_decode_u64 (cs_buf d)) (compact_size_check (cs_limit d))"

definition compact_size_decoder_read_limit :: "compact_size_decoder \<Rightarrow> nat" where
  "compact_size_decoder_read_limit d = compact_size_read_limit (cs_buf d)"

definition compact_size_u64_decoder_push ::
  "compact_size_u64_decoder \<Rightarrow> bytes
     \<Rightarrow> (compact_size_error, dstatus) res \<times> compact_size_u64_decoder \<times> bytes" where
  "compact_size_u64_decoder_push d bs =
     (case compact_size_push_bytes (cs64_buf d) bs of (st, b, r) \<Rightarrow> (st, d\<lparr>cs64_buf := b\<rparr>, r))"

definition compact_size_u64_decoder_end ::
  "compact_size_u64_decoder \<Rightarrow> (compact_size_error, u64) res" where
  "compact_size_u64_decoder_end d = compact_size_decode_u64 (cs64_buf d)"

definition compact_size_u64_decoder_read_limit :: "compact_size_u64_decoder \<Rightarrow> nat" where
  "compact_size_u64_decoder_read_limit d = compact_size_read_limit (cs64_buf d)"

subsection \<open>The codec is a bijection onto the minimal encodings\<close>

lemma prefix_length_bounds: "1 \<le> prefix_length b" "prefix_length b \<le> 9"
  by (auto simp: prefix_length_def)

lemma compact_size_encode_ne [simp]: "compact_size_encode v \<noteq> []"
  by (simp add: compact_size_encode_def)

lemma decode_encode: "compact_size_decode_u64 (compact_size_encode v) = Ok v"
proof -
  consider "v \<le> 0xFC" | "\<not> v \<le> 0xFC" "v \<le> 0xFFFF" | "\<not> v \<le> 0xFC" "\<not> v \<le> 0xFFFF" "v \<le> 0xFFFFFFFF"
    | "\<not> v \<le> 0xFC" "\<not> v \<le> 0xFFFF" "\<not> v \<le> 0xFFFFFFFF" by blast
  then show ?thesis
  proof cases
    case 1
    then have u: "ucast (ucast v :: u8) = v" by (intro ucast_down_up) (simp add: word_le_nat_alt)
    have "unat v \<le> 0xFC" using 1 by (simp add: word_le_nat_alt)
    then have "unat (ucast v :: u8) \<le> 0xFC" by (simp only: unat_ucast_mod) simp
    then have "(ucast v :: u8) \<noteq> c" if "\<not> unat c \<le> 0xFC" for c
      using that by auto
    then show ?thesis using 1 u by (simp add: compact_size_encode_def prefix_defs)
  next
    case 2
    then have "ucast (ucast v :: u16) = v" by (intro ucast_down_up) (simp add: word_le_nat_alt)
    then show ?thesis using 2
      by (simp add: compact_size_encode_def arr_def prefix_defs word_less_nat_alt word_le_nat_alt
            unat_ucast_mod)
  next
    case 3
    then have "ucast (ucast v :: u32) = v" by (intro ucast_down_up) (simp add: word_le_nat_alt)
    then show ?thesis using 3
      by (simp add: compact_size_encode_def arr_def prefix_defs word_less_nat_alt word_le_nat_alt
            unat_ucast_mod)
  next
    case 4
    then show ?thesis
      by (auto simp: compact_size_encode_def arr_def prefix_defs word_less_nat_alt word_le_nat_alt)
  qed
qed

lemma length_compact_size_encode: "length (compact_size_encode v) = encoded_size (unat v)"
  by (simp add: compact_size_encode_def encoded_size_def word_le_nat_alt)

lemma hd_compact_size_encode: "prefix_length (hd (compact_size_encode v)) = length (compact_size_encode v)"
proof (cases "v \<le> 0xFC")
  case True
  then have "unat v \<le> 0xFC" by (simp add: word_le_nat_alt)
  then have "unat (ucast v :: u8) \<le> 0xFC" by (simp only: unat_ucast_mod) simp
  then show ?thesis using True
    by (auto simp: compact_size_encode_def prefix_length_def prefix_defs)
qed (simp add: compact_size_encode_def prefix_length_def prefix_defs)

lemma encode_decode:
  assumes "compact_size_decode_u64 b = Ok v" and "length b = prefix_length (hd b)"
  shows "b = compact_size_encode v"
proof (cases b)
  case Nil
  with assms show ?thesis by simp
next
  case (Cons n p)
  note len = assms(2) [unfolded Cons prefix_length_def, simplified]
  consider "n = PREFIX_U64" | "n = PREFIX_U32" | "n = PREFIX_U16"
    | "n \<noteq> PREFIX_U64" "n \<noteq> PREFIX_U32" "n \<noteq> PREFIX_U16" by blast
  then show ?thesis
  proof cases
    case 1
    then have p: "length p = 8" using len by simp
    then have v: "v = from_le_bytes p" "\<not> v < 0x100000000"
      using assms(1) 1 by (auto simp: Cons arr_def Let_def split: if_splits)
    then show ?thesis
      using p 1 by (simp add: compact_size_encode_def Cons to_from_le_bytes word_le_nat_alt word_less_nat_alt)
  next
    case 2
    then have p: "length p = 4" using len by (simp add: prefix_defs)
    let ?x = "from_le_bytes p :: u32"
    have v: "v = ucast ?x" "\<not> ?x < 0x10000"
      using assms(1) 2 p by (auto simp: Cons arr_def Let_def prefix_defs split: if_splits)
    have u: "unat v = unat ?x" using v(1) by (simp add: unat_ucast_up)
    have "unat ?x < 2 ^ 32" using unsigned_less [of ?x, where ?'a = nat] by simp
    then show ?thesis
      using p 2 v(2) u
      by (simp add: compact_size_encode_def Cons word_le_nat_alt word_less_nat_alt)
         (simp add: v(1) ucast_up_down to_from_le_bytes)
  next
    case 3
    then have p: "length p = 2" using len by (simp add: prefix_defs)
    let ?x = "from_le_bytes p :: u16"
    have v: "v = ucast ?x" "\<not> ?x < 0xFD"
      using assms(1) 3 p by (auto simp: Cons arr_def Let_def prefix_defs split: if_splits)
    have u: "unat v = unat ?x" using v(1) by (simp add: unat_ucast_up)
    have "unat ?x < 2 ^ 16" using unsigned_less [of ?x, where ?'a = nat] by simp
    then show ?thesis
      using p 3 v(2) u
      by (simp add: compact_size_encode_def Cons word_le_nat_alt word_less_nat_alt)
         (simp add: v(1) ucast_up_down to_from_le_bytes)
  next
    case 4
    then have p: "p = []" and v: "v = ucast n" using len assms(1) by (simp_all add: Cons)
    have "unat n \<noteq> 0xFD" "unat n \<noteq> 0xFE" "unat n \<noteq> 0xFF"
      using 4 by (auto simp: prefix_defs word_unat_eq_iff)
    moreover have "unat v = unat n" using v by (simp add: unat_ucast_up)
    ultimately have "v \<le> 0xFC" using u8_bound [of n] by (simp add: word_le_nat_alt)
    then show ?thesis using p v by (simp add: compact_size_encode_def Cons ucast_up_down)
  qed
qed

subsection \<open>The decoders are push decoders\<close>

text \<open>
  The parser of a buffer: it waits for as many bytes as the first one announces, decodes the
  number and hands it to \<open>check\<close>.
\<close>

definition compact_size_run ::
  "(u64 \<Rightarrow> (compact_size_error, 'o) res) \<Rightarrow> bytes \<Rightarrow> bytes \<Rightarrow> (compact_size_error, 'o) presult" where
  "compact_size_run check buf x =
     (let b = buf @ x; n = prefix_length (hd b) in
      if b = [] \<or> length b < n then PMore
      else finished (res_bind (compact_size_decode_u64 (take n b)) check) (drop n b))"

definition compact_size_inv :: "bytes \<Rightarrow> bool" where
  "compact_size_inv buf \<longleftrightarrow> (buf \<noteq> [] \<longrightarrow> length buf < prefix_length (hd buf))"

lemma decode_u64_halts: "halts (compact_size_decode_u64 b)"
  by (cases b) (auto simp: arr_def Let_def)

lemma decode_check_halts:
  "(\<And>v. halts (check v)) \<Longrightarrow> halts (res_bind (compact_size_decode_u64 b) check)"
  using decode_u64_halts [of b] by (cases "compact_size_decode_u64 b") auto

lemma compact_size_push_cases:
  assumes "compact_size_inv buf"
  obtains (more) k r where "compact_size_push_bytes buf bs = (Ok NeedsMore, buf @ k, r)"
      "bs = k @ r" "bs \<noteq> [] \<longrightarrow> k \<noteq> []" "compact_size_inv (buf @ k)"
  | (ready) k r where "compact_size_push_bytes buf bs = (Ok Ready, buf @ k, r)" "bs = k @ r"
      "buf @ k \<noteq> []" "length (buf @ k) = prefix_length (hd (buf @ k))"
proof (cases "bs = []")
  case True
  then show thesis using assms by (intro more [of "[]" bs]) (auto simp: compact_size_push_bytes_def)
next
  case False
  define k1 where "k1 = (if buf = [] then [hd bs] else [])"
  define bs1 where "bs1 = (if buf = [] then tl bs else bs)"
  let ?b = "buf @ k1" and ?n = "prefix_length (hd (buf @ k1))"
  have split: "bs = k1 @ bs1" and ne: "?b \<noteq> []" using False by (auto simp: k1_def bs1_def)
  have len: "length ?b \<le> ?n"
    using assms prefix_length_bounds(1) by (auto simp: k1_def compact_size_inv_def)
  define c where "c = min (length bs1) (?n - length ?b)"
  have push: "compact_size_push_bytes buf bs =
      (Ok (if length (?b @ take c bs1) = ?n then Ready else NeedsMore), ?b @ take c bs1, drop c bs1)"
    using False len
    by (cases "buf = []") (simp_all add: compact_size_push_bytes_def Let_def k1_def bs1_def c_def)
  have hd: "hd (?b @ take c bs1) = hd ?b" using ne by (cases ?b) simp_all
  show thesis
  proof (cases "length (?b @ take c bs1) = ?n")
    case True
    show thesis
      by (rule ready [of "k1 @ take c bs1" "drop c bs1"]) (use True push split hd ne in auto)
  next
    case F: False
    then have "length ?b < ?n" using len by (auto simp: c_def)
    then have "k1 @ take c bs1 \<noteq> []" using False split by (auto simp: c_def)
    moreover have "length (?b @ take c bs1) \<le> ?n" using len by (auto simp: c_def)
    ultimately show thesis
      by (intro more [of "k1 @ take c bs1" "drop c bs1"])
         (use F push split hd ne in \<open>auto simp: compact_size_inv_def\<close>)
  qed
qed

lemma compact_size_run_append: "compact_size_run check buf (k @ x) = compact_size_run check (buf @ k) x"
  by (simp add: compact_size_run_def Let_def)

lemma compact_size_run_full:
  "buf \<noteq> [] \<Longrightarrow> length buf = prefix_length (hd buf) \<Longrightarrow>
     compact_size_run check buf x = finished (res_bind (compact_size_decode_u64 buf) check) x"
  by (simp add: compact_size_run_def Let_def)

lemma compact_size_run_Nil: "compact_size_inv buf \<Longrightarrow> compact_size_run check buf [] = PMore"
  by (auto simp: compact_size_run_def compact_size_inv_def Let_def)

lemma compact_size_inv_more:
  assumes "compact_size_inv buf"
  shows "\<exists>e. compact_size_decode_u64 buf = Err e" and "0 < compact_size_read_limit buf"
  using assms
  by (cases buf; auto simp: compact_size_inv_def arr_def prefix_length_def compact_size_read_limit_def
        prefix_defs split: if_splits)+

lemma compact_size_run_limit:
  assumes "compact_size_inv buf" and "compact_size_run check buf bs = POk v r"
  shows "compact_size_read_limit buf + length r \<le> length bs"
proof -
  let ?n = "prefix_length (hd (buf @ bs))"
  have *: "buf @ bs \<noteq> []" "?n \<le> length (buf @ bs)" "r = drop ?n (buf @ bs)"
    using assms(2) by (auto simp: compact_size_run_def Let_def finished_POk split: if_splits)
  show ?thesis
  proof (cases "buf = []")
    case True
    then show ?thesis
      using * prefix_length_bounds(1) [of "hd bs"] by (simp add: compact_size_read_limit_def)
  next
    case False
    then have "compact_size_read_limit buf + length buf \<le> prefix_length (hd buf)"
      using assms(1) by (auto simp: compact_size_read_limit_def prefix_length_def compact_size_inv_def)
    then show ?thesis using * False by simp
  qed
qed

text \<open>A record that holds such a buffer inherits the contract.\<close>

lemma compact_size_push_decoder:
  assumes push: "\<And>d bs. push d bs = (case compact_size_push_bytes (get d) bs of (st, b, r) \<Rightarrow> (st, upd d b, r))"
    and fin: "\<And>d. fin d = res_bind (compact_size_decode_u64 (get d)) (check d)"
    and lens: "\<And>d b. get (upd d b) = b" "\<And>d b. check (upd d b) = check d"
    and check: "\<And>d v. halts (check d v)"
  shows "push_decoder push fin (\<lambda>d. compact_size_read_limit (get d))
    (\<lambda>d. compact_size_run (check d) (get d)) (\<lambda>d. compact_size_inv (get d))"
proof
  fix d d' bs r
  assume inv: "compact_size_inv (get d)"
  note cases = compact_size_push_cases [OF inv, of bs]
  show "halts (fst (push d bs))"
    by (rule cases) (simp_all add: push)
  show "push d bs = (Ok NeedsMore, d', r) \<Longrightarrow>
      compact_size_inv (get d') \<and> compact_size_run (check d') (get d') [] = PMore \<and>
      (\<exists>k. bs = k @ r \<and> (bs \<noteq> [] \<longrightarrow> k \<noteq> []) \<and>
        (\<forall>x. compact_size_run (check d) (get d) (k @ x) = compact_size_run (check d') (get d') x))"
    by (rule cases) (auto simp: push lens compact_size_run_append compact_size_run_Nil)
  show "push d bs = (Ok Ready, d', r) \<Longrightarrow> halts (fin d') \<and> (\<exists>k. bs = k @ r \<and>
      (\<forall>x. compact_size_run (check d) (get d) (k @ x) = finished (fin d') x))"
    by (rule cases)
       (auto simp: push lens fin compact_size_run_append compact_size_run_full
          intro!: decode_check_halts check)
  show "push d bs = (Err e, d', r) \<Longrightarrow> compact_size_run (check d) (get d) (bs @ x) = PErr e" for e x
    by (rule cases) (simp_all add: push)
  show "push d bs = (Panic, d', r) \<Longrightarrow> compact_size_run (check d) (get d) (bs @ x) = PPanic" for x
    by (rule cases) (simp_all add: push)
  show "compact_size_run (check d) (get d) [] = PMore \<Longrightarrow> \<exists>e. fin d = Err e"
    using compact_size_inv_more(1) [OF inv] by (auto simp: fin)
  show "compact_size_run (check d) (get d) [] \<noteq> PMore \<Longrightarrow>
      halts (fin d) \<and> (\<forall>x. compact_size_run (check d) (get d) x = finished (fin d) x)"
    by (simp add: compact_size_run_Nil [OF inv])
  show "compact_size_run (check d) (get d) [] = PMore \<Longrightarrow> 0 < compact_size_read_limit (get d)"
    using compact_size_inv_more(2) [OF inv] .
  show "compact_size_run (check d) (get d) bs = POk v r \<Longrightarrow>
      compact_size_read_limit (get d) + length r \<le> length bs" for v
    using compact_size_run_limit [OF inv] .
qed

definition compact_size_decoder_run ::
  "compact_size_decoder \<Rightarrow> bytes \<Rightarrow> (compact_size_error, nat) presult" where
  "compact_size_decoder_run d = compact_size_run (compact_size_check (cs_limit d)) (cs_buf d)"

definition compact_size_decoder_inv :: "compact_size_decoder \<Rightarrow> bool" where
  "compact_size_decoder_inv d = compact_size_inv (cs_buf d)"

definition compact_size_u64_decoder_run ::
  "compact_size_u64_decoder \<Rightarrow> bytes \<Rightarrow> (compact_size_error, u64) presult" where
  "compact_size_u64_decoder_run d = compact_size_run Ok (cs64_buf d)"

definition compact_size_u64_decoder_inv :: "compact_size_u64_decoder \<Rightarrow> bool" where
  "compact_size_u64_decoder_inv d = compact_size_inv (cs64_buf d)"

lemma compact_size_check_halts: "halts (compact_size_check limit v)"
  by (simp add: compact_size_check_def Let_def)

interpretation csd: push_decoder compact_size_decoder_push compact_size_decoder_end
  compact_size_decoder_read_limit compact_size_decoder_run compact_size_decoder_inv
proof -
  have "push_decoder compact_size_decoder_push compact_size_decoder_end
      (\<lambda>d. compact_size_read_limit (cs_buf d))
      (\<lambda>d. compact_size_run (compact_size_check (cs_limit d)) (cs_buf d)) (\<lambda>d. compact_size_inv (cs_buf d))"
    by (rule compact_size_push_decoder [where upd = "\<lambda>d b. d\<lparr>cs_buf := b\<rparr>"])
       (auto simp: compact_size_decoder_push_def compact_size_decoder_end_def compact_size_check_halts)
  then show "push_decoder compact_size_decoder_push compact_size_decoder_end
      compact_size_decoder_read_limit compact_size_decoder_run compact_size_decoder_inv"
    by (simp add: compact_size_decoder_read_limit_def [abs_def] compact_size_decoder_run_def [abs_def]
          compact_size_decoder_inv_def [abs_def])
qed

interpretation cs64: push_decoder compact_size_u64_decoder_push compact_size_u64_decoder_end
  compact_size_u64_decoder_read_limit compact_size_u64_decoder_run compact_size_u64_decoder_inv
proof -
  have "push_decoder compact_size_u64_decoder_push compact_size_u64_decoder_end
      (\<lambda>d. compact_size_read_limit (cs64_buf d))
      (\<lambda>d. compact_size_run Ok (cs64_buf d)) (\<lambda>d. compact_size_inv (cs64_buf d))"
  proof (rule compact_size_push_decoder [where upd = "\<lambda>d b. d\<lparr>cs64_buf := b\<rparr>"])
    fix d show "compact_size_u64_decoder_end d = res_bind (compact_size_decode_u64 (cs64_buf d)) Ok"
      by (cases "compact_size_decode_u64 (cs64_buf d)") (simp_all add: compact_size_u64_decoder_end_def)
  qed (auto simp: compact_size_u64_decoder_push_def)
  then show "push_decoder compact_size_u64_decoder_push compact_size_u64_decoder_end
      compact_size_u64_decoder_read_limit compact_size_u64_decoder_run compact_size_u64_decoder_inv"
    by (simp add: compact_size_u64_decoder_read_limit_def [abs_def] compact_size_u64_decoder_run_def [abs_def]
          compact_size_u64_decoder_inv_def [abs_def])
qed

subsection \<open>What is accepted\<close>

lemma compact_size_run_iff:
  "compact_size_run check [] x = POk v r \<longleftrightarrow> (\<exists>w. x = compact_size_encode w @ r \<and> check w = Ok v)"
proof
  assume run: "compact_size_run check [] x = POk v r"
  let ?n = "prefix_length (hd x)"
  have x: "x \<noteq> []" "?n \<le> length x" "r = drop ?n x"
    and "res_bind (compact_size_decode_u64 (take ?n x)) check = Ok v"
    using run by (auto simp: compact_size_run_def Let_def finished_POk split: if_splits)
  then obtain w where w: "compact_size_decode_u64 (take ?n x) = Ok w" "check w = Ok v"
    by (auto simp: res_bind_Ok_iff)
  have "hd (take ?n x) = hd x" using x prefix_length_bounds(1) [of "hd x"] by (cases x) (auto simp: take_Cons')
  then have "take ?n x = compact_size_encode w"
    using x by (intro encode_decode [OF w(1)]) simp
  then have "x = compact_size_encode w @ r" using append_take_drop_id [of ?n x] x(3) by simp
  then show "\<exists>w. x = compact_size_encode w @ r \<and> check w = Ok v" using w(2) by blast
next
  assume "\<exists>w. x = compact_size_encode w @ r \<and> check w = Ok v"
  then obtain w where "x = compact_size_encode w @ r" and w: "check w = Ok v" by blast
  then show "compact_size_run check [] x = POk v r"
    using compact_size_run_append [of check "[]" "compact_size_encode w" r]
    by (simp add: compact_size_run_full hd_compact_size_encode decode_encode)
qed

lemma compact_size_encode_inj:
  assumes "compact_size_encode v @ r = compact_size_encode w @ s"
  shows "v = w \<and> r = s"
proof -
  have "compact_size_run Ok [] (compact_size_encode v @ r) = POk v r"
    by (simp add: compact_size_run_iff)
  moreover have "compact_size_run Ok [] (compact_size_encode v @ r) = POk w s"
    unfolding assms by (simp add: compact_size_run_iff)
  ultimately show ?thesis by simp
qed

lemma compact_size_check_Ok: "compact_size_check limit w = Ok n \<longleftrightarrow> n \<le> limit \<and> n = unat w"
  by (auto simp: compact_size_check_def Let_def)

lemma compact_size_decoder_new_run_iff:
  "compact_size_decoder_run (compact_size_decoder_new_with_limit limit) x = POk n r \<longleftrightarrow>
     n \<le> limit \<and> n < 2 ^ 64 \<and> x = compact_size_new n @ r"
proof -
  have "(\<exists>w :: u64. x = compact_size_encode w @ r \<and> n \<le> limit \<and> n = unat w) \<longleftrightarrow>
      n \<le> limit \<and> n < 2 ^ 64 \<and> x = compact_size_encode (word_of_nat n) @ r"
  proof (intro iffI; elim exE conjE)
    fix w :: u64 assume *: "x = compact_size_encode w @ r" "n \<le> limit" "n = unat w"
    then show "n \<le> limit \<and> n < 2 ^ 64 \<and> x = compact_size_encode (word_of_nat n) @ r"
      using unsigned_less [of w, where ?'a = nat] by simp
  next
    assume "n \<le> limit" "n < 2 ^ 64" "x = compact_size_encode (word_of_nat n) @ r"
    then show "\<exists>w :: u64. x = compact_size_encode w @ r \<and> n \<le> limit \<and> n = unat w"
      by (intro exI [of _ "word_of_nat n"]) (simp add: unat_of_nat)
  qed
  then show ?thesis
    by (simp add: compact_size_decoder_run_def compact_size_decoder_new_with_limit_def compact_size_run_iff
          compact_size_check_Ok compact_size_new_def)
qed

lemma compact_size_u64_decoder_new_run_iff:
  "compact_size_u64_decoder_run compact_size_u64_decoder_new x = POk v r \<longleftrightarrow>
     x = compact_size_encode v @ r"
  by (simp add: compact_size_u64_decoder_run_def compact_size_u64_decoder_new_def compact_size_run_iff)

lemma compact_size_decoder_new_inv [simp]:
  "compact_size_decoder_inv (compact_size_decoder_new_with_limit limit)"
  "compact_size_decoder_inv compact_size_decoder_new"
  "compact_size_u64_decoder_inv compact_size_u64_decoder_new"
  by (simp_all add: compact_size_decoder_inv_def compact_size_u64_decoder_inv_def compact_size_inv_def
        compact_size_decoder_new_with_limit_def compact_size_decoder_new_def compact_size_u64_decoder_new_def)

lemma compact_size_run_no_panic:
  assumes "\<And>v. check v \<noteq> Panic"
  shows "compact_size_run check buf x \<noteq> PPanic"
proof -
  have "compact_size_decode_u64 b \<noteq> Panic" "compact_size_decode_u64 b \<noteq> Diverge" for b
    by (cases b; auto simp: arr_def Let_def)+
  then have "res_bind (compact_size_decode_u64 b) check \<noteq> Panic" for b
    using assms by (cases "compact_size_decode_u64 b") auto
  then have "finished (res_bind (compact_size_decode_u64 b) check) y \<noteq> PPanic" for b y
    by (cases "res_bind (compact_size_decode_u64 b) check") auto
  then show ?thesis by (simp add: compact_size_run_def Let_def)
qed

lemma compact_size_decoder_run_no_panic [simp]: "compact_size_decoder_run d x \<noteq> PPanic"
  unfolding compact_size_decoder_run_def
  by (rule compact_size_run_no_panic) (simp add: compact_size_check_def Let_def)

text \<open>
  The length decoder accepts a slice exactly when it is the encoding of a length
  within the limit: every such encoding decodes to its length, and no other byte string decodes
  at all, so that no length has a second encoding.
\<close>

theorem compact_size_decoder_accepts:
  "decode_from_slice compact_size_decoder_push compact_size_decoder_end
       (compact_size_decoder_new_with_limit limit) bs = Ok n
   \<longleftrightarrow> n \<le> limit \<and> n < 2 ^ 64 \<and> bs = compact_size_new n"
  by (simp add: csd.decode_from_slice_iff compact_size_decoder_new_run_iff)

text \<open>
  The same for the decoder of arbitrary 64-bit integers: decoding inverts encoding,
  and a slice that decodes to \<open>v\<close> is the encoding of \<open>v\<close>.
\<close>

theorem compact_size_u64_decoder_accepts:
  "decode_from_slice compact_size_u64_decoder_push compact_size_u64_decoder_end
       compact_size_u64_decoder_new bs = Ok v
   \<longleftrightarrow> bs = compact_size_encode v"
  by (simp add: cs64.decode_from_slice_iff compact_size_u64_decoder_new_run_iff)

end
