(* ===== verification/Decoders.thy ===== *)
theory Decoders
  imports Compact_Size
begin

section \<open>The generic decoders\<close>

text \<open>
  \<open>consensus_encoding/src/decode/decoders.rs\<close>: decoders of fixed-size arrays, of byte vectors
  and of vectors of decodable items, and the composite decoders that run several in sequence.
  Vectors and composites take the operations of their parts as arguments, as the generic Rust
  types do. Each is shown to meet the contract \<open>push_decoder\<close> when its parts do, with a parser
  that is the obvious composition of the parts' parsers; \<open>decoder_newtype\<close> is the macro of
  \<open>include/decoder_newtype.rs\<close>.
\<close>

subsection \<open>Arrays\<close>

text \<open>The length of the buffer is the constant \<open>N\<close> of the type.\<close>

record array_decoder =
  ad_buffer :: bytes
  ad_written :: nat

definition array_decoder_new :: "nat \<Rightarrow> array_decoder" where
  "array_decoder_new n = \<lparr>ad_buffer = replicate n 0, ad_written = 0\<rparr>"

text \<open>\<open>buffer[w..w + copy_len].copy_from_slice(..)\<close>\<close>

definition copy_at :: "nat \<Rightarrow> bytes \<Rightarrow> bytes \<Rightarrow> bytes" where
  "copy_at w xs buffer = take w buffer @ xs @ drop (w + length xs) buffer"

definition array_decoder_push ::
  "array_decoder \<Rightarrow> bytes \<Rightarrow> (nat, dstatus) res \<times> array_decoder \<times> bytes" where
  "array_decoder_push d bs =
     (let n = length (ad_buffer d); w = ad_written d in
      if n < w then (Panic, d, bs)
      else
        let copy_len = min (length bs) (n - w);
            d' = (if 0 < copy_len
                  then d\<lparr>ad_buffer := copy_at w (take copy_len bs) (ad_buffer d),
                         ad_written := w + copy_len\<rparr>
                  else d);
            bs' = (if 0 < copy_len then drop copy_len bs else bs)
        in (Ok (if ad_written d' < n then NeedsMore else Ready), d', bs'))"

text \<open>The error \<open>UnexpectedEofError\<close> is its only field, the number of missing bytes.\<close>

definition array_decoder_end :: "array_decoder \<Rightarrow> (nat, bytes) res" where
  "array_decoder_end d =
     (let n = length (ad_buffer d) in
      if ad_written d = n then Ok (ad_buffer d)
      else if n < ad_written d then Panic
      else Err (n - ad_written d))"

definition array_decoder_read_limit :: "array_decoder \<Rightarrow> nat" where
  "array_decoder_read_limit d = length (ad_buffer d) - ad_written d"

definition array_decoder_run :: "array_decoder \<Rightarrow> bytes \<Rightarrow> (nat, bytes) presult" where
  "array_decoder_run d x =
     (let k = length (ad_buffer d) - ad_written d in
      if length x < k then PMore else POk (take (ad_written d) (ad_buffer d) @ take k x) (drop k x))"

definition array_decoder_inv :: "array_decoder \<Rightarrow> bool" where
  "array_decoder_inv d \<longleftrightarrow> ad_written d \<le> length (ad_buffer d)"

lemma array_decoder_push_eq:
  assumes "array_decoder_inv d"
  shows "array_decoder_push d bs =
     (let n = length (ad_buffer d); w = ad_written d; c = min (length bs) (n - w) in
      (Ok (if w + c < n then NeedsMore else Ready),
       d\<lparr>ad_buffer := copy_at w (take c bs) (ad_buffer d), ad_written := w + c\<rparr>, drop c bs))"
  using assms by (auto simp: array_decoder_push_def array_decoder_inv_def Let_def copy_at_def min_def)

interpretation ad: push_decoder array_decoder_push array_decoder_end array_decoder_read_limit
  array_decoder_run array_decoder_inv
proof
  fix d d' :: array_decoder and bs r :: bytes
  assume inv: "array_decoder_inv d"
  note push = array_decoder_push_eq [OF inv, of bs]
  let ?n = "length (ad_buffer d)" and ?w = "ad_written d"
  let ?c = "min (length bs) (?n - ?w)"
  have wn: "?w \<le> ?n" using inv by (simp add: array_decoder_inv_def)
  have bs: "bs = take ?c bs @ drop ?c bs" by simp
  have len: "length (copy_at ?w (take ?c bs) (ad_buffer d)) = ?n"
    using wn by (auto simp: copy_at_def)
  show "halts (fst (array_decoder_push d bs))" by (simp add: push Let_def)
  show "array_decoder_inv d' \<and> array_decoder_run d' [] = PMore \<and> (\<exists>k. bs = k @ r \<and>
      (bs \<noteq> [] \<longrightarrow> k \<noteq> []) \<and> (\<forall>x. array_decoder_run d (k @ x) = array_decoder_run d' x))"
    if "array_decoder_push d bs = (Ok NeedsMore, d', r)"
  proof -
    have c: "?c = length bs" "?w + ?c < ?n" "r = []"
      and d': "d' = d\<lparr>ad_buffer := copy_at ?w bs (ad_buffer d), ad_written := ?w + ?c\<rparr>"
      using that by (auto simp: push Let_def min_def split: if_splits)
    have "array_decoder_run d (bs @ x) = array_decoder_run d' x" for x
      using c(1,2) len by (auto simp: array_decoder_run_def Let_def d' copy_at_def)
    moreover have "array_decoder_inv d'" and "array_decoder_run d' [] = PMore"
      using c len by (simp_all add: d' array_decoder_inv_def array_decoder_run_def Let_def)
    ultimately show ?thesis using c(3) by simp
  qed
  show "halts (array_decoder_end d') \<and> (\<exists>k. bs = k @ r \<and>
      (\<forall>x. array_decoder_run d (k @ x) = finished (array_decoder_end d') x))"
    if "array_decoder_push d bs = (Ok Ready, d', r)"
  proof -
    have c: "?w + ?c = ?n" "r = drop ?c bs"
      and d': "d' = d\<lparr>ad_buffer := copy_at ?w (take ?c bs) (ad_buffer d), ad_written := ?w + ?c\<rparr>"
      using that wn by (auto simp: push Let_def split: if_splits)
    have "array_decoder_end d' = Ok (take ?w (ad_buffer d) @ take ?c bs)"
      using c(1) wn len by (simp add: array_decoder_end_def d' copy_at_def)
    moreover have "array_decoder_run d (take ?c bs @ x) = POk (take ?w (ad_buffer d) @ take ?c bs) x" for x
    proof -
      have "?n - ?w = ?c" and "length (take ?c bs) = ?c" using c(1) by auto
      then show ?thesis by (simp add: array_decoder_run_def Let_def)
    qed
    ultimately show ?thesis using bs c(2) by (intro conjI exI [of _ "take ?c bs"]) simp_all
  qed
  show "array_decoder_push d bs = (Err e, d', r) \<Longrightarrow> array_decoder_run d (bs @ x) = PErr e" for e x
    by (simp add: push Let_def)
  show "array_decoder_push d bs = (Panic, d', r) \<Longrightarrow> array_decoder_run d (bs @ x) = PPanic" for x
    by (simp add: push Let_def)
  show "array_decoder_run d [] = PMore \<Longrightarrow> \<exists>e. array_decoder_end d = Err e"
    by (auto simp: array_decoder_run_def array_decoder_end_def Let_def split: if_splits)
  show "array_decoder_run d [] \<noteq> PMore \<Longrightarrow> halts (array_decoder_end d) \<and>
      (\<forall>x. array_decoder_run d x = finished (array_decoder_end d) x)"
    using wn by (auto simp: array_decoder_run_def array_decoder_end_def Let_def split: if_splits)
  show "array_decoder_run d [] = PMore \<Longrightarrow> 0 < array_decoder_read_limit d"
    by (auto simp: array_decoder_run_def array_decoder_read_limit_def Let_def split: if_splits)
  show "array_decoder_run d bs = POk v r \<Longrightarrow> array_decoder_read_limit d + length r \<le> length bs" for v
    by (auto simp: array_decoder_run_def array_decoder_read_limit_def Let_def split: if_splits)
qed

lemma array_decoder_new_inv [simp]: "array_decoder_inv (array_decoder_new n)"
  by (simp add: array_decoder_inv_def array_decoder_new_def)

lemma array_decoder_new_run:
  "array_decoder_run (array_decoder_new n) x =
     (if length x < n then PMore else POk (take n x) (drop n x))"
  by (simp add: array_decoder_run_def array_decoder_new_def Let_def)

lemma array_decoder_new_run_iff:
  "array_decoder_run (array_decoder_new n) x = POk v r \<longleftrightarrow> x = v @ r \<and> length v = n"
  by (auto simp: array_decoder_new_run)

subsection \<open>Two decoders in sequence\<close>

datatype ('e, 'f) decoder2_error = First_error 'e | Second_error 'f

datatype ('s, 'a, 't) decoder2 = First 's 't | Second 'a 't | Errored

fun decoder2_push_second ::
  "('t \<Rightarrow> bytes \<Rightarrow> ('f, dstatus) res \<times> 't \<times> bytes) \<Rightarrow> 'a \<Rightarrow> 't \<Rightarrow> bytes
     \<Rightarrow> (('e, 'f) decoder2_error, dstatus) res \<times> ('s, 'a, 't) decoder2 \<times> bytes" where
  "decoder2_push_second push_b first_result b bs =
     (case push_b b bs of (st, b', r) \<Rightarrow>
        (map_err Second_error st,
         (case st of Err e \<Rightarrow> Errored | _ \<Rightarrow> Second first_result b'), r))"

text \<open>The loop runs at most twice: from \<open>First\<close> to \<open>Second\<close> and out.\<close>

fun decoder2_push ::
  "('s \<Rightarrow> bytes \<Rightarrow> ('e, dstatus) res \<times> 's \<times> bytes) \<Rightarrow> ('s \<Rightarrow> ('e, 'a) res)
     \<Rightarrow> ('t \<Rightarrow> bytes \<Rightarrow> ('f, dstatus) res \<times> 't \<times> bytes) \<Rightarrow> ('s, 'a, 't) decoder2 \<Rightarrow> bytes
     \<Rightarrow> (('e, 'f) decoder2_error, dstatus) res \<times> ('s, 'a, 't) decoder2 \<times> bytes" where
  "decoder2_push push_a fin_a push_b (First a b) bs =
     (case push_a a bs of (st, a', r) \<Rightarrow>
        (case st of
           Err e \<Rightarrow> (Err (First_error e), First a' b, r)
         | Panic \<Rightarrow> (Panic, First a' b, r)
         | Diverge \<Rightarrow> (Diverge, First a' b, r)
         | Ok NeedsMore \<Rightarrow> (Ok NeedsMore, First a' b, r)
         | Ok Ready \<Rightarrow>
             (case fin_a a' of
                Ok first_result \<Rightarrow> decoder2_push_second push_b first_result b r
              | Err e \<Rightarrow> (Err (First_error e), Errored, r)
              | Panic \<Rightarrow> (Panic, Errored, r)
              | Diverge \<Rightarrow> (Diverge, Errored, r))))"
| "decoder2_push push_a fin_a push_b (Second first_result b) bs =
     decoder2_push_second push_b first_result b bs"
| "decoder2_push push_a fin_a push_b Errored bs = (Panic, Errored, bs)"

fun decoder2_end ::
  "('s \<Rightarrow> ('e, 'a) res) \<Rightarrow> ('t \<Rightarrow> ('f, 'b) res) \<Rightarrow> ('s, 'a, 't) decoder2
     \<Rightarrow> (('e, 'f) decoder2_error, 'a \<times> 'b) res" where
  "decoder2_end fin_a fin_b (First a b) =
     res_bind (map_err First_error (fin_a a)) (\<lambda>first_result.
       res_bind (map_err Second_error (fin_b b)) (\<lambda>second_result. Ok (first_result, second_result)))"
| "decoder2_end fin_a fin_b (Second first_result b) =
     res_bind (map_err Second_error (fin_b b)) (\<lambda>second_result. Ok (first_result, second_result))"
| "decoder2_end fin_a fin_b Errored = Panic"

fun decoder2_read_limit ::
  "('s \<Rightarrow> nat) \<Rightarrow> ('t \<Rightarrow> nat) \<Rightarrow> ('s, 'a, 't) decoder2 \<Rightarrow> nat" where
  "decoder2_read_limit limit_a limit_b (First a b) = limit_a a + limit_b b"
| "decoder2_read_limit limit_a limit_b (Second v b) = limit_b b"
| "decoder2_read_limit limit_a limit_b Errored = 0"

text \<open>The parser: the first, then the second on what it leaves.\<close>

fun decoder2_run ::
  "('s \<Rightarrow> bytes \<Rightarrow> ('e, 'a) presult) \<Rightarrow> ('t \<Rightarrow> bytes \<Rightarrow> ('f, 'b) presult) \<Rightarrow> ('s, 'a, 't) decoder2
     \<Rightarrow> bytes \<Rightarrow> (('e, 'f) decoder2_error, 'a \<times> 'b) presult" where
  "decoder2_run run_a run_b (First a b) x =
     pbind (pmap_err First_error (run_a a x)) (\<lambda>v y.
       pbind (pmap_err Second_error (run_b b y)) (\<lambda>w z. POk (v, w) z))"
| "decoder2_run run_a run_b (Second v b) x =
     pbind (pmap_err Second_error (run_b b x)) (\<lambda>w z. POk (v, w) z)"
| "decoder2_run run_a run_b Errored x = PMore"

fun decoder2_inv :: "('s \<Rightarrow> bool) \<Rightarrow> ('t \<Rightarrow> bool) \<Rightarrow> ('s, 'a, 't) decoder2 \<Rightarrow> bool" where
  "decoder2_inv inv_a inv_b (First a b) \<longleftrightarrow> inv_a a \<and> inv_b b"
| "decoder2_inv inv_a inv_b (Second v b) \<longleftrightarrow> inv_b b"
| "decoder2_inv inv_a inv_b Errored \<longleftrightarrow> False"

lemma halts_res_bind: "halts r \<Longrightarrow> (\<And>a. halts (f a)) \<Longrightarrow> halts (res_bind r f)"
  by (cases r) auto

lemma pbind_finished:
  "halts r \<Longrightarrow> pbind (finished r x) (\<lambda>v. finished (f v)) = finished (res_bind r f) x"
  by (cases r) auto

lemma POk_finished: "POk v = finished (Ok v)"
  by (rule ext) simp

lemma finished_ne_PMore: "halts r \<Longrightarrow> finished r x \<noteq> PMore"
  by (cases r) auto

locale decoder_pair =
  a: push_decoder push_a fin_a limit_a run_a inv_a +
  b: push_decoder push_b fin_b limit_b run_b inv_b
  for push_a :: "'s \<Rightarrow> bytes \<Rightarrow> ('e, dstatus) res \<times> 's \<times> bytes" and fin_a :: "'s \<Rightarrow> ('e, 'a) res"
    and limit_a run_a inv_a
    and push_b :: "'t \<Rightarrow> bytes \<Rightarrow> ('f, dstatus) res \<times> 't \<times> bytes" and fin_b :: "'t \<Rightarrow> ('f, 'b) res"
    and limit_b run_b inv_b
begin

lemma second_cases:
  assumes "inv_b b"
  obtains (more) b' r k where
      "decoder2_push_second push_b v b bs
        = (Ok NeedsMore :: (('e, 'f) decoder2_error, dstatus) res, Second v b' :: ('s, 'a, 't) decoder2, r)"
      "inv_b b'" "run_b b' [] = PMore" "bs = k @ r" "bs \<noteq> [] \<longrightarrow> k \<noteq> []"
      "\<And>x. run_b b (k @ x) = run_b b' x"
  | (ready) b' r k where
      "decoder2_push_second push_b v b bs
        = (Ok Ready :: (('e, 'f) decoder2_error, dstatus) res, Second v b' :: ('s, 'a, 't) decoder2, r)"
      "halts (fin_b b')" "bs = k @ r" "\<And>x. run_b b (k @ x) = finished (fin_b b') x"
  | (error) e r where
      "decoder2_push_second push_b v b bs
        = (Err (Second_error e) :: (('e, 'f) decoder2_error, dstatus) res, Errored :: ('s, 'a, 't) decoder2, r)"
      "\<And>x. run_b b (bs @ x) = PErr e"
  | (panic) b' r where
      "decoder2_push_second push_b v b bs
        = (Panic :: (('e, 'f) decoder2_error, dstatus) res, Second v b' :: ('s, 'a, 't) decoder2, r)"
      "\<And>x. run_b b (bs @ x) = PPanic"
  using assms
proof (cases rule: b.push_cases [of b bs])
  case (more s' r k) then show thesis by (intro that(1)) auto
next
  case (ready s' r k) then show thesis by (intro that(2)) auto
next
  case (error e s' r) then show thesis by (intro that(3)) auto
next
  case (panic s' r) then show thesis by (intro that(4)) auto
qed

lemma second_end_finished:
  "halts (fin_b b) \<Longrightarrow> halts (decoder2_end fin_a fin_b (Second v b)) \<and>
     finished (decoder2_end fin_a fin_b (Second v b)) x =
     pbind (pmap_err Second_error (finished (fin_b b) x)) (\<lambda>w z. POk (v, w) z)"
  by (cases "fin_b b") auto

lemma pair_outcome:
  assumes "decoder2_inv inv_a inv_b s"
  shows "push_outcome (decoder2_push push_a fin_a push_b) (decoder2_end fin_a fin_b)
    (decoder2_run run_a run_b) (decoder2_inv inv_a inv_b) s bs"
    (is "?outcome")
proof -
  have second: ?outcome
    if push: "decoder2_push push_a fin_a push_b s bs = decoder2_push_second push_b v b bs'"
      and b: "inv_b b" and k0: "bs = k0 @ bs'" "bs \<noteq> [] \<and> bs' = [] \<longrightarrow> k0 \<noteq> []"
      and run: "\<And>x. decoder2_run run_a run_b s (k0 @ x) =
        pbind (pmap_err Second_error (run_b b x)) (\<lambda>w z. POk (v, w) z)" for v b bs' k0
    using b
  proof (cases rule: second_cases [of b v bs'])
    case (more b' r k)
    then show ?outcome using push k0 run by (intro outcome_more [where s' = "Second v b'" and r = r and k = "k0 @ k"]) auto
  next
    case (ready b' r k)
    then show ?outcome using push k0 run second_end_finished [of b' v]
      by (intro outcome_ready [where s' = "Second v b'" and r = r and k = "k0 @ k"]) auto
  next
    case (error e r)
    then show ?outcome using push k0 run
      by (intro outcome_error [where e = "Second_error e" and s' = Errored and r = r]) auto
  next
    case (panic b' r)
    then show ?outcome using push k0 run
      by (intro outcome_panic [where s' = "Second v b'" and r = r]) auto
  qed
  show ?outcome
  proof (cases s)
    case (First a b)
    with assms have inv: "inv_a a" "inv_b b" by auto
    from inv(1) show ?outcome
    proof (cases rule: a.push_cases [of a bs])
      case (more s' r k)
      then show ?outcome using First inv by (intro outcome_more [where s' = "First s' b" and r = r and k = k]) auto
    next
      case (error e s' r)
      then show ?outcome using First by (intro outcome_error [where e = "First_error e" and s' = "First s' b" and r = r]) auto
    next
      case (ready a' r k)
      show ?outcome
      proof (cases "fin_a a'")
        case (Ok v)
        show ?outcome
          by (rule second [of v b r k]) (use ready Ok First inv in auto)
      next
        case (Err e)
        have "decoder2_run run_a run_b s (bs @ x) = PErr (First_error e)" for x
          using ready(4) [of "r @ x"] Err First ready(3) by simp
        then show ?outcome using ready Err First
          by (intro outcome_error [where e = "First_error e" and s' = Errored and r = r]) auto
      next
        case Panic
        have "decoder2_run run_a run_b s (bs @ x) = PPanic" for x
          using ready(4) [of "r @ x"] Panic First ready(3) by simp
        then show ?outcome using ready Panic First
          by (intro outcome_panic [where s' = Errored and r = r]) auto
      qed (use ready in auto)
    next
      case (panic s' r)
      then show ?outcome using First by (intro outcome_panic [where s' = "First s' b" and r = r]) auto
    qed
  next
    case (Second v b)
    then show ?outcome using assms by (intro second [of v b bs "[]"]) auto
  next
    case Errored
    then show ?outcome using assms by simp
  qed
qed

lemma pair_fin_more:
  assumes "decoder2_inv inv_a inv_b s" and "decoder2_run run_a run_b s [] = PMore"
  shows "\<exists>e. decoder2_end fin_a fin_b s = Err e"
proof (cases s)
  case (First a b)
  show ?thesis
  proof (cases "run_a a [] = PMore")
    case True
    then show ?thesis using a.fin_more [of a] assms First by auto
  next
    case False
    then show ?thesis
      using a.fin_done [of a] b.fin_more [of b] assms First
      by (cases "fin_a a") (auto simp: pbind_PMore_iff)
  qed
next
  case (Second v b)
  then show ?thesis using b.fin_more [of b] b.fin_done [of b] assms by (cases "run_b b []") auto
qed (use assms in auto)

lemma pair_fin_done:
  assumes "decoder2_inv inv_a inv_b s" and "decoder2_run run_a run_b s [] \<noteq> PMore"
  shows "halts (decoder2_end fin_a fin_b s) \<and>
    decoder2_run run_a run_b s x = finished (decoder2_end fin_a fin_b s) x"
proof (cases s)
  case (First a b)
  have "run_a a [] \<noteq> PMore" using First assms by auto
  then have a: "halts (fin_a a)" "\<And>x. run_a a x = finished (fin_a a) x"
    using a.fin_done [of a] First assms by auto
  show ?thesis
  proof (cases "fin_a a")
    case (Ok v)
    then have "run_b b [] \<noteq> PMore" using a First assms by auto
    then have "halts (fin_b b)" "\<And>x. run_b b x = finished (fin_b b) x"
      using b.fin_done [of b] First assms by auto
    then show ?thesis using a Ok First by (cases "fin_b b") auto
  qed (use a First in auto)
next
  case (Second v b)
  then have "run_b b [] \<noteq> PMore" using assms by auto
  then have "halts (fin_b b)" "run_b b x = finished (fin_b b) x"
    using b.fin_done [of b] Second assms by auto
  then show ?thesis using Second by (cases "fin_b b") auto
qed (use assms in auto)

lemma pair_limit_pos:
  assumes "decoder2_inv inv_a inv_b s" and "decoder2_run run_a run_b s [] = PMore"
  shows "0 < decoder2_read_limit limit_a limit_b s"
proof (cases s)
  case (First a b)
  show ?thesis
  proof (cases "run_a a []")
    case PMore
    then show ?thesis using a.limit_pos [of a] assms First by simp
  next
    case (POk v r)
    then have "r = []" using a.limit_sound [of a "[]" v r] assms First by simp
    then show ?thesis using b.limit_pos [of b] assms First POk by (cases "run_b b []") auto
  qed (use assms First in auto)
next
  case (Second v b)
  then show ?thesis using b.limit_pos [of b] assms by (cases "run_b b []") auto
qed (use assms in auto)

lemma pair_limit_sound:
  assumes "decoder2_inv inv_a inv_b s" and "decoder2_run run_a run_b s bs = POk v r"
  shows "decoder2_read_limit limit_a limit_b s + length r \<le> length bs"
proof (cases s)
  case (First a b)
  then obtain va y vb where "run_a a bs = POk va y" "run_b b y = POk vb r"
    using assms by (auto simp: pbind_POk_iff)
  then show ?thesis
    using a.limit_sound [of a bs va y] b.limit_sound [of b y vb r] assms First by auto
next
  case (Second va b)
  then obtain vb where "run_b b bs = POk vb r" using assms by (auto simp: pbind_POk_iff)
  then show ?thesis using b.limit_sound [of b bs vb r] assms Second by auto
qed (use assms in auto)

lemma pair_push_decoder:
  "push_decoder (decoder2_push push_a fin_a push_b) (decoder2_end fin_a fin_b)
     (decoder2_read_limit limit_a limit_b) (decoder2_run run_a run_b) (decoder2_inv inv_a inv_b)"
  by (rule push_decoder_intro [OF pair_outcome pair_fin_more pair_fin_done pair_limit_pos pair_limit_sound])

end

sublocale decoder_pair \<subseteq> pair: push_decoder "decoder2_push push_a fin_a push_b" "decoder2_end fin_a fin_b"
  "decoder2_read_limit limit_a limit_b" "decoder2_run run_a run_b" "decoder2_inv inv_a inv_b"
  by (rule pair_push_decoder)

subsection \<open>Wrapped decoders\<close>

text \<open>
  A decoder that delegates \<open>push_bytes\<close> and \<open>read_limit\<close> to an inner one, maps the errors with
  \<open>push_bytes_map_err\<close> and hands the inner result to the body of \<open>end\<close>. The body must treat the
  inner error as \<open>push_bytes_map_err\<close> does, and must not panic.
\<close>

definition newtype_push ::
  "('e \<Rightarrow> 'f) \<Rightarrow> ('s \<Rightarrow> bytes \<Rightarrow> ('e, dstatus) res \<times> 's \<times> bytes) \<Rightarrow> 's \<Rightarrow> bytes
     \<Rightarrow> ('f, dstatus) res \<times> 's \<times> bytes" where
  "newtype_push map_push_bytes_err push d bs =
     (case push d bs of (st, d', r) \<Rightarrow> (map_err map_push_bytes_err st, d', r))"

definition newtype_end :: "(('e, 'a) res \<Rightarrow> ('f, 'b) res) \<Rightarrow> ('s \<Rightarrow> ('e, 'a) res) \<Rightarrow> 's \<Rightarrow> ('f, 'b) res" where
  "newtype_end end_body fin d = end_body (fin d)"

text \<open>The usual body maps the error and goes on with the value.\<close>

definition end_with :: "('e \<Rightarrow> 'f) \<Rightarrow> ('a \<Rightarrow> ('f, 'b) res) \<Rightarrow> ('e, 'a) res \<Rightarrow> ('f, 'b) res" where
  "end_with g h result = res_bind (map_err g result) h"

definition newtype_run ::
  "('e \<Rightarrow> 'f) \<Rightarrow> ('a \<Rightarrow> ('f, 'b) res) \<Rightarrow> ('s \<Rightarrow> bytes \<Rightarrow> ('e, 'a) presult) \<Rightarrow> 's \<Rightarrow> bytes
     \<Rightarrow> ('f, 'b) presult" where
  "newtype_run g h run d x = pbind (pmap_err g (run d x)) (\<lambda>v. finished (h v))"

lemma halts_end_with: "halts r \<Longrightarrow> (\<And>v. halts (h v)) \<Longrightarrow> halts (end_with g h r)"
  by (cases r) (simp_all add: end_with_def)

lemma newtype_run_POk_iff: "newtype_run g h run d x = POk w r \<longleftrightarrow> (\<exists>v. run d x = POk v r \<and> h v = Ok w)"
  by (auto simp: newtype_run_def pbind_POk_iff finished_POk)

locale newtype_decoder = push_decoder push fin limit run inv
  for push :: "'s \<Rightarrow> bytes \<Rightarrow> ('e, dstatus) res \<times> 's \<times> bytes" and fin :: "'s \<Rightarrow> ('e, 'a) res"
    and limit run inv +
  fixes g :: "'e \<Rightarrow> 'f" and h :: "'a \<Rightarrow> ('f, 'b) res"
  assumes h_halts: "halts (h v)"
begin

lemma newtype_finished:
  "halts r \<Longrightarrow> finished (end_with g h r) x = pbind (pmap_err g (finished r x)) (\<lambda>v. finished (h v))"
  by (cases r) (simp_all add: end_with_def)

lemma newtype_push_decoder:
  "push_decoder (newtype_push g push) (newtype_end (end_with g h) fin) limit (newtype_run g h run) inv"
proof
  fix s s' bs r
  assume inv: "inv s"
  note cases = push_cases [OF inv, of bs]
  show "halts (fst (newtype_push g push s bs))" by (rule cases) (auto simp: newtype_push_def)
  show "newtype_push g push s bs = (Ok NeedsMore, s', r) \<Longrightarrow> inv s' \<and> newtype_run g h run s' [] = PMore \<and>
      (\<exists>k. bs = k @ r \<and> (bs \<noteq> [] \<longrightarrow> k \<noteq> []) \<and> (\<forall>x. newtype_run g h run s (k @ x) = newtype_run g h run s' x))"
    by (rule cases) (auto simp: newtype_push_def newtype_run_def)
  show "newtype_push g push s bs = (Ok Ready, s', r) \<Longrightarrow> halts (newtype_end (end_with g h) fin s') \<and>
      (\<exists>k. bs = k @ r \<and>
        (\<forall>x. newtype_run g h run s (k @ x) = finished (newtype_end (end_with g h) fin s') x))"
    by (rule cases)
       (auto simp: newtype_push_def newtype_run_def newtype_end_def newtype_finished
          intro: halts_end_with h_halts)
  show "newtype_push g push s bs = (Err e, s', r) \<Longrightarrow> newtype_run g h run s (bs @ x) = PErr e" for e x
    by (rule cases) (auto simp: newtype_push_def newtype_run_def)
  show "newtype_push g push s bs = (Panic, s', r) \<Longrightarrow> newtype_run g h run s (bs @ x) = PPanic" for x
    by (rule cases) (auto simp: newtype_push_def newtype_run_def)
  have nt_more: "newtype_run g h run s x = PMore \<longleftrightarrow> run s x = PMore" for x
    using h_halts by (auto simp: newtype_run_def pbind_PMore_iff finished_ne_PMore)
  show "newtype_run g h run s [] = PMore \<Longrightarrow> \<exists>e. newtype_end (end_with g h) fin s = Err e"
    using fin_more [OF inv] by (auto simp: nt_more newtype_end_def end_with_def)
  show "newtype_run g h run s [] \<noteq> PMore \<Longrightarrow> halts (newtype_end (end_with g h) fin s) \<and>
      (\<forall>x. newtype_run g h run s x = finished (newtype_end (end_with g h) fin s) x)"
    unfolding nt_more using fin_done [OF inv]
    by (auto simp: newtype_run_def newtype_end_def newtype_finished intro: halts_end_with h_halts)
  show "newtype_run g h run s [] = PMore \<Longrightarrow> 0 < limit s"
    using limit_pos [OF inv] by (simp add: nt_more)
  show "newtype_run g h run s bs = POk v r \<Longrightarrow> limit s + length r \<le> length bs" for v
    using limit_sound [OF inv] by (auto simp: newtype_run_POk_iff)
qed

end

sublocale newtype_decoder \<subseteq> newtype: push_decoder "newtype_push g push" "newtype_end (end_with g h) fin"
  limit "newtype_run g h run" inv
  by (rule newtype_push_decoder)

subsection \<open>Three, four and six decoders in sequence\<close>

text \<open>They are nested pairs whose errors and results are flattened.\<close>

datatype ('e1, 'e2, 'e3) decoder3_error = D3_First 'e1 | D3_Second 'e2 | D3_Third 'e3

datatype ('e1, 'e2, 'e3, 'e4) decoder4_error =
  D4_First 'e1 | D4_Second 'e2 | D4_Third 'e3 | D4_Fourth 'e4

datatype ('e1, 'e2, 'e3, 'e4, 'e5, 'e6) decoder6_error =
  D6_First 'e1 | D6_Second 'e2 | D6_Third 'e3 | D6_Fourth 'e4 | D6_Fifth 'e5 | D6_Sixth 'e6

fun decoder3_map_err ::
  "(('e1, 'e2) decoder2_error, 'e3) decoder2_error \<Rightarrow> ('e1, 'e2, 'e3) decoder3_error" where
  "decoder3_map_err (First_error (First_error a)) = D3_First a"
| "decoder3_map_err (First_error (Second_error b)) = D3_Second b"
| "decoder3_map_err (Second_error c) = D3_Third c"

fun decoder4_map_err ::
  "(('e1, 'e2) decoder2_error, ('e3, 'e4) decoder2_error) decoder2_error
     \<Rightarrow> ('e1, 'e2, 'e3, 'e4) decoder4_error" where
  "decoder4_map_err (First_error (First_error a)) = D4_First a"
| "decoder4_map_err (First_error (Second_error b)) = D4_Second b"
| "decoder4_map_err (Second_error (First_error c)) = D4_Third c"
| "decoder4_map_err (Second_error (Second_error d)) = D4_Fourth d"

fun decoder6_map_err ::
  "(('e1, 'e2, 'e3) decoder3_error, ('e4, 'e5, 'e6) decoder3_error) decoder2_error
     \<Rightarrow> ('e1, 'e2, 'e3, 'e4, 'e5, 'e6) decoder6_error" where
  "decoder6_map_err (First_error (D3_First a)) = D6_First a"
| "decoder6_map_err (First_error (D3_Second b)) = D6_Second b"
| "decoder6_map_err (First_error (D3_Third c)) = D6_Third c"
| "decoder6_map_err (Second_error (D3_First d)) = D6_Fourth d"
| "decoder6_map_err (Second_error (D3_Second e)) = D6_Fifth e"
| "decoder6_map_err (Second_error (D3_Third f)) = D6_Sixth f"

fun flatten3 :: "('a \<times> 'b) \<times> 'c \<Rightarrow> ('e, 'a \<times> 'b \<times> 'c) res" where
  "flatten3 ((first, second), third) = Ok (first, second, third)"

fun flatten4 :: "('a \<times> 'b) \<times> ('c \<times> 'd) \<Rightarrow> ('e, 'a \<times> 'b \<times> 'c \<times> 'd) res" where
  "flatten4 ((first, second), (third, fourth)) = Ok (first, second, third, fourth)"

fun flatten6 :: "('a \<times> 'b \<times> 'c) \<times> ('d \<times> 'e \<times> 'f) \<Rightarrow> ('err, 'a \<times> 'b \<times> 'c \<times> 'd \<times> 'e \<times> 'f) res" where
  "flatten6 ((first, second, third), (fourth, fifth, sixth)) = Ok (first, second, third, fourth, fifth, sixth)"

definition decoder3_push where
  "decoder3_push push_a fin_a push_b fin_b push_c =
     newtype_push decoder3_map_err
       (decoder2_push (decoder2_push push_a fin_a push_b) (decoder2_end fin_a fin_b) push_c)"

definition decoder3_end where
  "decoder3_end fin_a fin_b fin_c =
     newtype_end (end_with decoder3_map_err flatten3) (decoder2_end (decoder2_end fin_a fin_b) fin_c)"

definition decoder3_read_limit where
  "decoder3_read_limit limit_a limit_b limit_c =
     decoder2_read_limit (decoder2_read_limit limit_a limit_b) limit_c"

definition decoder3_new where
  "decoder3_new dec_1 dec_2 dec_3 = First (First dec_1 dec_2) dec_3"

definition decoder4_push where
  "decoder4_push push_a fin_a push_b fin_b push_c fin_c push_d =
     newtype_push decoder4_map_err
       (decoder2_push (decoder2_push push_a fin_a push_b) (decoder2_end fin_a fin_b)
          (decoder2_push push_c fin_c push_d))"

definition decoder4_end where
  "decoder4_end fin_a fin_b fin_c fin_d =
     newtype_end (end_with decoder4_map_err flatten4)
       (decoder2_end (decoder2_end fin_a fin_b) (decoder2_end fin_c fin_d))"

definition decoder4_read_limit where
  "decoder4_read_limit limit_a limit_b limit_c limit_d =
     decoder2_read_limit (decoder2_read_limit limit_a limit_b) (decoder2_read_limit limit_c limit_d)"

definition decoder4_new where
  "decoder4_new dec_1 dec_2 dec_3 dec_4 = First (First dec_1 dec_2) (First dec_3 dec_4)"

definition decoder6_push where
  "decoder6_push push_a fin_a push_b fin_b push_c fin_c push_d fin_d push_e fin_e push_f =
     newtype_push decoder6_map_err
       (decoder2_push (decoder3_push push_a fin_a push_b fin_b push_c) (decoder3_end fin_a fin_b fin_c)
          (decoder3_push push_d fin_d push_e fin_e push_f))"

definition decoder6_end where
  "decoder6_end fin_a fin_b fin_c fin_d fin_e fin_f =
     newtype_end (end_with decoder6_map_err flatten6)
       (decoder2_end (decoder3_end fin_a fin_b fin_c) (decoder3_end fin_d fin_e fin_f))"

definition decoder6_read_limit where
  "decoder6_read_limit limit_a limit_b limit_c limit_d limit_e limit_f =
     decoder2_read_limit (decoder3_read_limit limit_a limit_b limit_c)
       (decoder3_read_limit limit_d limit_e limit_f)"

definition decoder6_new where
  "decoder6_new dec_1 dec_2 dec_3 dec_4 dec_5 dec_6 =
     First (decoder3_new dec_1 dec_2 dec_3) (decoder3_new dec_4 dec_5 dec_6)"

lemma flatten_halts [simp]: "halts (flatten3 v)" "halts (flatten4 w)" "halts (flatten6 u)"
  by (cases v rule: flatten3.cases; cases w rule: flatten4.cases; cases u rule: flatten6.cases; simp)+

definition decoder3_run where
  "decoder3_run run_a run_b run_c =
     newtype_run decoder3_map_err flatten3 (decoder2_run (decoder2_run run_a run_b) run_c)"

definition decoder3_inv where
  "decoder3_inv inv_a inv_b inv_c = decoder2_inv (decoder2_inv inv_a inv_b) inv_c"

locale decoder_triple =
  ab: decoder_pair push_a fin_a limit_a run_a inv_a push_b fin_b limit_b run_b inv_b +
  c: push_decoder push_c fin_c limit_c run_c inv_c
  for push_a fin_a limit_a run_a inv_a push_b fin_b limit_b run_b inv_b push_c fin_c limit_c run_c inv_c
begin

lemma triple_push_decoder:
  "push_decoder (decoder3_push push_a fin_a push_b fin_b push_c) (decoder3_end fin_a fin_b fin_c)
     (decoder3_read_limit limit_a limit_b limit_c) (decoder3_run run_a run_b run_c)
     (decoder3_inv inv_a inv_b inv_c)"
proof -
  have "decoder_pair (decoder2_push push_a fin_a push_b) (decoder2_end fin_a fin_b)
      (decoder2_read_limit limit_a limit_b) (decoder2_run run_a run_b) (decoder2_inv inv_a inv_b)
      push_c fin_c limit_c run_c inv_c"
    by (intro decoder_pair.intro ab.pair_push_decoder c.push_decoder_axioms)
  then have "push_decoder
      (decoder2_push (decoder2_push push_a fin_a push_b) (decoder2_end fin_a fin_b) push_c)
      (decoder2_end (decoder2_end fin_a fin_b) fin_c)
      (decoder2_read_limit (decoder2_read_limit limit_a limit_b) limit_c)
      (decoder2_run (decoder2_run run_a run_b) run_c)
      (decoder2_inv (decoder2_inv inv_a inv_b) inv_c)"
    by (rule decoder_pair.pair_push_decoder)
  then have "newtype_decoder
      (decoder2_push (decoder2_push push_a fin_a push_b) (decoder2_end fin_a fin_b) push_c)
      (decoder2_end (decoder2_end fin_a fin_b) fin_c)
      (decoder2_read_limit (decoder2_read_limit limit_a limit_b) limit_c)
      (decoder2_run (decoder2_run run_a run_b) run_c)
      (decoder2_inv (decoder2_inv inv_a inv_b) inv_c) flatten3"
    by (intro newtype_decoder.intro newtype_decoder_axioms.intro) simp_all
  then show ?thesis
    unfolding decoder3_push_def decoder3_end_def decoder3_read_limit_def decoder3_run_def decoder3_inv_def
    by (rule newtype_decoder.newtype_push_decoder)
qed

end

definition decoder4_run where
  "decoder4_run run_a run_b run_c run_d =
     newtype_run decoder4_map_err flatten4
       (decoder2_run (decoder2_run run_a run_b) (decoder2_run run_c run_d))"

definition decoder4_inv where
  "decoder4_inv inv_a inv_b inv_c inv_d =
     decoder2_inv (decoder2_inv inv_a inv_b) (decoder2_inv inv_c inv_d)"

locale decoder_quadruple =
  ab: decoder_pair push_a fin_a limit_a run_a inv_a push_b fin_b limit_b run_b inv_b +
  cd: decoder_pair push_c fin_c limit_c run_c inv_c push_d fin_d limit_d run_d inv_d
  for push_a fin_a limit_a run_a inv_a push_b fin_b limit_b run_b inv_b
    push_c fin_c limit_c run_c inv_c push_d fin_d limit_d run_d inv_d
begin

lemma quadruple_push_decoder:
  "push_decoder (decoder4_push push_a fin_a push_b fin_b push_c fin_c push_d)
     (decoder4_end fin_a fin_b fin_c fin_d) (decoder4_read_limit limit_a limit_b limit_c limit_d)
     (decoder4_run run_a run_b run_c run_d) (decoder4_inv inv_a inv_b inv_c inv_d)"
proof -
  have "decoder_pair (decoder2_push push_a fin_a push_b) (decoder2_end fin_a fin_b)
      (decoder2_read_limit limit_a limit_b) (decoder2_run run_a run_b) (decoder2_inv inv_a inv_b)
      (decoder2_push push_c fin_c push_d) (decoder2_end fin_c fin_d)
      (decoder2_read_limit limit_c limit_d) (decoder2_run run_c run_d) (decoder2_inv inv_c inv_d)"
    by (intro decoder_pair.intro ab.pair_push_decoder cd.pair_push_decoder)
  then have "newtype_decoder
      (decoder2_push (decoder2_push push_a fin_a push_b) (decoder2_end fin_a fin_b)
         (decoder2_push push_c fin_c push_d))
      (decoder2_end (decoder2_end fin_a fin_b) (decoder2_end fin_c fin_d))
      (decoder2_read_limit (decoder2_read_limit limit_a limit_b) (decoder2_read_limit limit_c limit_d))
      (decoder2_run (decoder2_run run_a run_b) (decoder2_run run_c run_d))
      (decoder2_inv (decoder2_inv inv_a inv_b) (decoder2_inv inv_c inv_d)) flatten4"
    by (intro newtype_decoder.intro newtype_decoder_axioms.intro decoder_pair.pair_push_decoder) simp_all
  then show ?thesis
    unfolding decoder4_push_def decoder4_end_def decoder4_read_limit_def decoder4_run_def decoder4_inv_def
    by (rule newtype_decoder.newtype_push_decoder)
qed

end

definition decoder6_run where
  "decoder6_run run_a run_b run_c run_d run_e run_f =
     newtype_run decoder6_map_err flatten6
       (decoder2_run (decoder3_run run_a run_b run_c) (decoder3_run run_d run_e run_f))"

definition decoder6_inv where
  "decoder6_inv inv_a inv_b inv_c inv_d inv_e inv_f =
     decoder2_inv (decoder3_inv inv_a inv_b inv_c) (decoder3_inv inv_d inv_e inv_f)"

locale decoder_sextuple =
  abc: decoder_triple push_a fin_a limit_a run_a inv_a push_b fin_b limit_b run_b inv_b
    push_c fin_c limit_c run_c inv_c +
  def: decoder_triple push_d fin_d limit_d run_d inv_d push_e fin_e limit_e run_e inv_e
    push_f fin_f limit_f run_f inv_f
  for push_a fin_a limit_a run_a inv_a push_b fin_b limit_b run_b inv_b push_c fin_c limit_c run_c inv_c
    push_d fin_d limit_d run_d inv_d push_e fin_e limit_e run_e inv_e push_f fin_f limit_f run_f inv_f
begin

lemma sextuple_push_decoder:
  "push_decoder
     (decoder6_push push_a fin_a push_b fin_b push_c fin_c push_d fin_d push_e fin_e push_f)
     (decoder6_end fin_a fin_b fin_c fin_d fin_e fin_f)
     (decoder6_read_limit limit_a limit_b limit_c limit_d limit_e limit_f)
     (decoder6_run run_a run_b run_c run_d run_e run_f) (decoder6_inv inv_a inv_b inv_c inv_d inv_e inv_f)"
proof -
  have "newtype_decoder
      (decoder2_push (decoder3_push push_a fin_a push_b fin_b push_c) (decoder3_end fin_a fin_b fin_c)
         (decoder3_push push_d fin_d push_e fin_e push_f))
      (decoder2_end (decoder3_end fin_a fin_b fin_c) (decoder3_end fin_d fin_e fin_f))
      (decoder2_read_limit (decoder3_read_limit limit_a limit_b limit_c)
         (decoder3_read_limit limit_d limit_e limit_f))
      (decoder2_run (decoder3_run run_a run_b run_c) (decoder3_run run_d run_e run_f))
      (decoder2_inv (decoder3_inv inv_a inv_b inv_c) (decoder3_inv inv_d inv_e inv_f)) flatten6"
    by (intro newtype_decoder.intro newtype_decoder_axioms.intro decoder_pair.pair_push_decoder
          decoder_pair.intro abc.triple_push_decoder def.triple_push_decoder) simp
  then show ?thesis
    unfolding decoder6_push_def decoder6_end_def decoder6_read_limit_def decoder6_run_def decoder6_inv_def
    by (rule newtype_decoder.newtype_push_decoder)
qed

end

end
