(* ===== verification/Vec_Decoders.thy ===== *)
theory Vec_Decoders
  imports Decoders
begin

section \<open>Length-prefixed vectors\<close>

text \<open>
  \<open>ByteVecDecoder\<close> and \<open>VecDecoder\<close> of \<open>consensus_encoding/src/decode/decoders.rs\<close>: a
  compact-size length, then that many bytes or items. The byte decoder keeps the capacity of its
  buffer, which bounds the memory an attacker can make it take; the vector decoder takes the
  operations of its item decoder as arguments (its capacity does not show in its results and is
  left out).
\<close>

subsection \<open>Byte vectors\<close>

definition MAX_VECTOR_ALLOCATE :: nat where "MAX_VECTOR_ALLOCATE = 1000000"

definition MAX_VEC_SIZE :: nat where "MAX_VEC_SIZE = 4000000"

datatype byte_vec_error = BvLengthPrefix compact_size_error | BvUnexpectedEof nat

record byte_vec_decoder =
  bv_prefix :: "compact_size_decoder option"
  bv_buffer :: bytes
  bv_capacity :: nat
  bv_expected :: nat
  bv_written :: nat

definition byte_vec_decoder_new_with_limit :: "nat \<Rightarrow> byte_vec_decoder" where
  "byte_vec_decoder_new_with_limit limit =
     \<lparr>bv_prefix = Some (compact_size_decoder_new_with_limit limit), bv_buffer = [], bv_capacity = 0,
      bv_expected = 0, bv_written = 0\<rparr>"

definition byte_vec_decoder_new :: byte_vec_decoder where
  "byte_vec_decoder_new = byte_vec_decoder_new_with_limit MAX_VEC_SIZE"

text \<open>\<open>reserve_exact(n)\<close> on a full buffer makes room for exactly \<open>n\<close> more bytes.\<close>

definition byte_vec_reserve :: "byte_vec_decoder \<Rightarrow> byte_vec_decoder" where
  "byte_vec_reserve d =
     (if length (bv_buffer d) = bv_capacity d then
        let bytes_remaining = bv_expected d - bv_written d;
            batch_size = min bytes_remaining MAX_VECTOR_ALLOCATE
        in d\<lparr>bv_capacity := length (bv_buffer d) + batch_size\<rparr>
      else d)"

text \<open>What \<open>push_bytes\<close> does once the length is known.\<close>

definition byte_vec_fill ::
  "byte_vec_decoder \<Rightarrow> bytes \<Rightarrow> (byte_vec_error, dstatus) res \<times> byte_vec_decoder \<times> bytes" where
  "byte_vec_fill d bs =
     (if bv_expected d < bv_written d then (Panic, d, bs)
      else
        let d1 = byte_vec_reserve d;
            remaining = bv_expected d1 - bv_written d1;
            available_capacity = bv_capacity d1 - length (bv_buffer d1);
            copy_len = min (min (length bs) remaining) available_capacity;
            d2 = d1\<lparr>bv_buffer := bv_buffer d1 @ take copy_len bs, bv_written := bv_written d1 + copy_len\<rparr>
        in (Ok (if bv_written d2 < bv_expected d2 then NeedsMore else Ready), d2, drop copy_len bs))"

definition byte_vec_decoder_push ::
  "byte_vec_decoder \<Rightarrow> bytes \<Rightarrow> (byte_vec_error, dstatus) res \<times> byte_vec_decoder \<times> bytes" where
  "byte_vec_decoder_push d bs =
     (case bv_prefix d of
        None \<Rightarrow> byte_vec_fill d bs
      | Some decoder \<Rightarrow>
          (case compact_size_decoder_push decoder bs of (st, decoder', r) \<Rightarrow>
             (case st of
                Ok NeedsMore \<Rightarrow> (Ok NeedsMore, d\<lparr>bv_prefix := Some decoder'\<rparr>, r)
              | Ok Ready \<Rightarrow>
                  (case compact_size_decoder_end decoder' of
                     Ok n \<Rightarrow> byte_vec_fill (d\<lparr>bv_prefix := None, bv_expected := n\<rparr>) r
                   | Err e \<Rightarrow> (Err (BvLengthPrefix e), d\<lparr>bv_prefix := None\<rparr>, r)
                   | Panic \<Rightarrow> (Panic, d, r)
                   | Diverge \<Rightarrow> (Diverge, d, r))
              | Err e \<Rightarrow> (Err (BvLengthPrefix e), d\<lparr>bv_prefix := None\<rparr>, r)
              | Panic \<Rightarrow> (Panic, d, r)
              | Diverge \<Rightarrow> (Diverge, d, r))))"

definition byte_vec_decoder_end :: "byte_vec_decoder \<Rightarrow> (byte_vec_error, bytes) res" where
  "byte_vec_decoder_end d =
     (case bv_prefix d of
        Some prefix_decoder \<Rightarrow> Err (BvUnexpectedEof (compact_size_decoder_read_limit prefix_decoder))
      | None \<Rightarrow>
          if bv_written d \<noteq> bv_expected d then
            (if bv_expected d < bv_written d then Panic
             else Err (BvUnexpectedEof (bv_expected d - bv_written d)))
          else Ok (bv_buffer d))"

definition byte_vec_decoder_read_limit :: "byte_vec_decoder \<Rightarrow> nat" where
  "byte_vec_decoder_read_limit d =
     (case bv_prefix d of
        None \<Rightarrow> bv_expected d - bv_written d
      | Some prefix_decoder \<Rightarrow> compact_size_decoder_read_limit prefix_decoder)"

text \<open>The parser: a length, then so many bytes.\<close>

definition take_exactly :: "bytes \<Rightarrow> nat \<Rightarrow> bytes \<Rightarrow> ('e, bytes) presult" where
  "take_exactly acc n x = (if length x < n then PMore else POk (acc @ take n x) (drop n x))"

definition byte_vec_run :: "byte_vec_decoder \<Rightarrow> bytes \<Rightarrow> (byte_vec_error, bytes) presult" where
  "byte_vec_run d x =
     (case bv_prefix d of
        None \<Rightarrow> take_exactly (bv_buffer d) (bv_expected d - bv_written d) x
      | Some p \<Rightarrow> pbind (pmap_err BvLengthPrefix (compact_size_decoder_run p x)) (take_exactly []))"

definition byte_vec_inv :: "byte_vec_decoder \<Rightarrow> bool" where
  "byte_vec_inv d \<longleftrightarrow>
     (case bv_prefix d of
        None \<Rightarrow> bv_written d = length (bv_buffer d) \<and> bv_written d \<le> bv_expected d
          \<and> length (bv_buffer d) \<le> bv_capacity d
      | Some p \<Rightarrow> compact_size_decoder_inv p \<and> compact_size_decoder_run p [] = PMore
          \<and> bv_buffer d = [] \<and> bv_capacity d = 0 \<and> bv_written d = 0)"

lemma byte_vec_fill_cases:
  assumes "bv_prefix d = None" and "bv_written d = length (bv_buffer d)"
    and "bv_written d \<le> bv_expected d" and "length (bv_buffer d) \<le> bv_capacity d"
  obtains (more) d' r k where "byte_vec_fill d bs = (Ok NeedsMore, d', r)" "byte_vec_inv d'"
      "bv_prefix d' = None" "bv_written d' < bv_expected d'" "bs = k @ r" "bs \<noteq> [] \<longrightarrow> k \<noteq> []"
      "\<And>x. byte_vec_run d (k @ x) = byte_vec_run d' x"
  | (ready) d' r k where "byte_vec_fill d bs = (Ok Ready, d', r)" "bs = k @ r"
      "byte_vec_decoder_end d' = Ok (bv_buffer d @ k)"
      "\<And>x. byte_vec_run d (k @ x) = POk (bv_buffer d @ k) x"
proof -
  define d1 where "d1 = byte_vec_reserve d"
  have d1: "bv_prefix d1 = None" "bv_buffer d1 = bv_buffer d" "bv_written d1 = bv_written d"
    "bv_expected d1 = bv_expected d" "length (bv_buffer d1) \<le> bv_capacity d1"
    and room: "bv_written d < bv_expected d \<Longrightarrow> length (bv_buffer d1) < bv_capacity d1"
    using assms by (auto simp: d1_def byte_vec_reserve_def Let_def MAX_VECTOR_ALLOCATE_def)
  define c where "c = min (min (length bs) (bv_expected d - bv_written d)) (bv_capacity d1 - length (bv_buffer d))"
  define d2 where "d2 = d1\<lparr>bv_buffer := bv_buffer d @ take c bs, bv_written := bv_written d + c\<rparr>"
  have fill: "byte_vec_fill d bs =
      (Ok (if bv_written d + c < bv_expected d then NeedsMore else Ready), d2, drop c bs)"
    using assms(3) by (simp add: byte_vec_fill_def Let_def d1_def [symmetric] d1 c_def d2_def)
  have c: "c \<le> length bs" "bv_written d + c \<le> bv_expected d" using assms(3) by (auto simp: c_def)
  have "c \<le> bv_capacity d1 - length (bv_buffer d)" by (simp add: c_def)
  then have cap: "length (bv_buffer d) + c \<le> bv_capacity d1" using d1(2,5) by simp
  show thesis
  proof (cases "bv_written d + c < bv_expected d")
    case True
    have "bs \<noteq> [] \<longrightarrow> take c bs \<noteq> []" using True room d1(2) by (auto simp: c_def)
    moreover have "byte_vec_inv d2"
      using assms(2) d1 c cap by (simp add: byte_vec_inv_def d2_def)
    moreover have "byte_vec_run d (take c bs @ x) = byte_vec_run d2 x" for x
      using assms(1) d1 c True by (auto simp: byte_vec_run_def d2_def take_exactly_def)
    ultimately show thesis
      by (intro more [of d2 "drop c bs" "take c bs"]) (use True fill d1 in \<open>auto simp: d2_def\<close>)
  next
    case False
    then have w: "bv_written d + c = bv_expected d" using c(2) by simp
    have "byte_vec_run d (take c bs @ x) = POk (bv_buffer d @ take c bs) x" for x
    proof -
      have "bv_expected d - bv_written d = c" and "length (take c bs) = c" using w c by auto
      then show ?thesis using assms(1) by (simp add: byte_vec_run_def take_exactly_def)
    qed
    moreover have "byte_vec_decoder_end d2 = Ok (bv_buffer d @ take c bs)"
      using w d1 by (simp add: byte_vec_decoder_end_def d2_def)
    ultimately show thesis
      by (intro ready [of d2 "drop c bs" "take c bs"]) (use False fill in auto)
  qed
qed

lemma byte_vec_outcome:
  assumes "byte_vec_inv d"
  shows "push_outcome byte_vec_decoder_push byte_vec_decoder_end byte_vec_run byte_vec_inv d bs"
    (is "?outcome")
proof -
  have fill: ?outcome
    if push: "byte_vec_decoder_push d bs = byte_vec_fill d0 bs0"
      and d0: "bv_prefix d0 = None" "bv_written d0 = length (bv_buffer d0)" "bv_written d0 \<le> bv_expected d0"
        "length (bv_buffer d0) \<le> bv_capacity d0"
      and k0: "bs = k0 @ bs0" "bs \<noteq> [] \<and> bs0 = [] \<longrightarrow> k0 \<noteq> []"
      and run: "\<And>x. byte_vec_run d (k0 @ x) = byte_vec_run d0 x" for d0 bs0 k0
    using d0
  proof (cases rule: byte_vec_fill_cases [where bs = bs0])
    case (more d' r k)
    then show ?outcome using push k0 run
      by (intro outcome_more [where s' = d' and r = r and k = "k0 @ k"]) (auto simp: byte_vec_run_def take_exactly_def)
  next
    case (ready d' r k)
    then show ?outcome using push k0 run by (intro outcome_ready [where s' = d' and r = r and k = "k0 @ k"]) auto
  qed
  show ?outcome
  proof (cases "bv_prefix d")
    case None
    then show ?outcome
      by (intro fill [of d bs "[]"]) (use assms in \<open>auto simp: byte_vec_decoder_push_def byte_vec_inv_def\<close>)
  next
    case (Some p)
    have inv: "compact_size_decoder_inv p" "bv_buffer d = []" "bv_capacity d = 0" "bv_written d = 0"
      using assms Some by (auto simp: byte_vec_inv_def)
    have run: "byte_vec_run d x = pbind (pmap_err BvLengthPrefix (compact_size_decoder_run p x)) (take_exactly [])"
      for x using Some by (simp add: byte_vec_run_def)
    from inv(1) show ?outcome
    proof (cases rule: csd.push_cases [of p bs])
      case (more p' r k)
      then show ?outcome using Some inv run
        by (intro outcome_more [where s' = "d\<lparr>bv_prefix := Some p'\<rparr>" and r = r and k = k])
           (auto simp: byte_vec_decoder_push_def byte_vec_inv_def byte_vec_run_def)
    next
      case (error e p' r)
      then show ?outcome using Some run
        by (intro outcome_error [where e = "BvLengthPrefix e" and s' = "d\<lparr>bv_prefix := None\<rparr>" and r = r])
           (auto simp: byte_vec_decoder_push_def)
    next
      case (ready p' r k)
      show ?outcome
      proof (cases "compact_size_decoder_end p'")
        case (Ok n)
        show ?outcome
          by (rule fill [of "d\<lparr>bv_prefix := None, bv_expected := n\<rparr>" r k])
             (use ready Ok Some inv run in \<open>auto simp: byte_vec_decoder_push_def byte_vec_run_def\<close>)
      next
        case (Err e)
        have "byte_vec_run d (bs @ x) = PErr (BvLengthPrefix e)" for x
          using ready(3) ready(4) [of "r @ x"] Err run by simp
        then show ?outcome using ready Err Some
          by (intro outcome_error [where e = "BvLengthPrefix e" and s' = "d\<lparr>bv_prefix := None\<rparr>" and r = r])
             (auto simp: byte_vec_decoder_push_def)
      next
        case Panic
        have "byte_vec_run d (bs @ x) = PPanic" for x
          using ready(3) ready(4) [of "r @ x"] Panic run by simp
        then show ?outcome using ready Panic Some
          by (intro outcome_panic [where s' = d and r = r]) (auto simp: byte_vec_decoder_push_def)
      qed (use ready in auto)
    next
      case (panic p' r)
      then show ?outcome using Some run
        by (intro outcome_panic [where s' = d and r = r]) (auto simp: byte_vec_decoder_push_def)
    qed
  qed
qed

interpretation bvd: push_decoder byte_vec_decoder_push byte_vec_decoder_end byte_vec_decoder_read_limit
  byte_vec_run byte_vec_inv
proof (rule push_decoder_intro [OF byte_vec_outcome])
  fix d :: byte_vec_decoder and x
  assume inv: "byte_vec_inv d"
  show "byte_vec_run d [] = PMore \<Longrightarrow> \<exists>e. byte_vec_decoder_end d = Err e"
    using inv by (auto simp: byte_vec_run_def byte_vec_decoder_end_def byte_vec_inv_def take_exactly_def
          split: option.splits if_splits)
  show "byte_vec_run d [] \<noteq> PMore \<Longrightarrow>
      halts (byte_vec_decoder_end d) \<and> byte_vec_run d x = finished (byte_vec_decoder_end d) x"
    using inv by (auto simp: byte_vec_run_def byte_vec_decoder_end_def byte_vec_inv_def take_exactly_def
          split: option.splits if_splits)
  show "byte_vec_run d [] = PMore \<Longrightarrow> 0 < byte_vec_decoder_read_limit d"
    using inv csd.limit_pos
    by (auto simp: byte_vec_run_def byte_vec_decoder_read_limit_def byte_vec_inv_def take_exactly_def
          split: option.splits if_splits)
next
  fix d bs v r
  assume "byte_vec_inv d" and "byte_vec_run d bs = POk v r"
  then show "byte_vec_decoder_read_limit d + length r \<le> length bs"
    using csd.limit_sound
    by (fastforce simp: byte_vec_run_def byte_vec_decoder_read_limit_def byte_vec_inv_def take_exactly_def
          pbind_POk_iff split: option.splits if_splits)
qed

subsection \<open>Vectors of items\<close>

datatype 'e vec_error = VecLengthPrefix compact_size_error | VecItem 'e | VecUnexpectedEof nat

record ('s, 'a) vec_decoder =
  vd_prefix :: "compact_size_decoder option"
  vd_length :: nat
  vd_buffer :: "'a list"
  vd_decoder :: "'s option"

definition vec_decoder_new_with_limit :: "nat \<Rightarrow> ('s, 'a) vec_decoder" where
  "vec_decoder_new_with_limit limit =
     \<lparr>vd_prefix = Some (compact_size_decoder_new_with_limit limit), vd_length = 0, vd_buffer = [],
      vd_decoder = None\<rparr>"

definition vec_decoder_new :: "('s, 'a) vec_decoder" where
  "vec_decoder_new = vec_decoder_new_with_limit MAX_VEC_SIZE"

text \<open>\<open>self.decoder.take().unwrap_or_else(T::decoder)\<close>, for the item decoder \<open>new_item\<close>\<close>

definition current_item :: "'s \<Rightarrow> ('s, 'a) vec_decoder \<Rightarrow> 's" where
  "current_item new_item d = (case vd_decoder d of None \<Rightarrow> new_item | Some x \<Rightarrow> x)"

text \<open>The loop \<open>while !bytes.is_empty()\<close> and the comparison after it. It ends on every slice when
  each item takes a byte, but not in general.\<close>

partial_function (option) vec_loop ::
  "('s \<Rightarrow> bytes \<Rightarrow> ('e, dstatus) res \<times> 's \<times> bytes) \<Rightarrow> ('s \<Rightarrow> ('e, 'a) res) \<Rightarrow> 's
     \<Rightarrow> ('s, 'a) vec_decoder \<Rightarrow> bytes
     \<Rightarrow> (('e vec_error, dstatus) res \<times> ('s, 'a) vec_decoder \<times> bytes) option" where
  "vec_loop push fin new_item d bs =
     (if bs = [] then
        Some (Ok (if length (vd_buffer d) = vd_length d then Ready else NeedsMore), d, bs)
      else case push (current_item new_item d) bs of (st, decoder, r) \<Rightarrow>
        (case st of
           Err e \<Rightarrow> Some (Err (VecItem e), d\<lparr>vd_decoder := None\<rparr>, r)
         | Panic \<Rightarrow> Some (Panic, d, r)
         | Diverge \<Rightarrow> Some (Diverge, d, r)
         | Ok NeedsMore \<Rightarrow> Some (Ok NeedsMore, d\<lparr>vd_decoder := Some decoder\<rparr>, r)
         | Ok Ready \<Rightarrow>
             (case fin decoder of
                Err e \<Rightarrow> Some (Err (VecItem e), d\<lparr>vd_decoder := None\<rparr>, r)
              | Panic \<Rightarrow> Some (Panic, d, r)
              | Diverge \<Rightarrow> Some (Diverge, d, r)
              | Ok item \<Rightarrow>
                  let d' = d\<lparr>vd_decoder := None, vd_buffer := vd_buffer d @ [item]\<rparr> in
                  if length (vd_buffer d') = vd_length d' then Some (Ok Ready, d', r)
                  else vec_loop push fin new_item d' r)))"

definition vec_items where
  "vec_items push fin new_item d bs =
     (case vec_loop push fin new_item d bs of None \<Rightarrow> (Diverge, d, bs) | Some x \<Rightarrow> x)"

definition vec_decoder_push ::
  "('s \<Rightarrow> bytes \<Rightarrow> ('e, dstatus) res \<times> 's \<times> bytes) \<Rightarrow> ('s \<Rightarrow> ('e, 'a) res) \<Rightarrow> 's
     \<Rightarrow> ('s, 'a) vec_decoder \<Rightarrow> bytes
     \<Rightarrow> ('e vec_error, dstatus) res \<times> ('s, 'a) vec_decoder \<times> bytes" where
  "vec_decoder_push push fin new_item d bs =
     (case vd_prefix d of
        None \<Rightarrow> vec_items push fin new_item d bs
      | Some decoder \<Rightarrow>
          (case compact_size_decoder_push decoder bs of (st, decoder', r) \<Rightarrow>
             (case st of
                Ok NeedsMore \<Rightarrow> (Ok NeedsMore, d\<lparr>vd_prefix := Some decoder'\<rparr>, r)
              | Ok Ready \<Rightarrow>
                  (case compact_size_decoder_end decoder' of
                     Ok n \<Rightarrow>
                       let d' = d\<lparr>vd_prefix := None, vd_length := n\<rparr> in
                       if n = 0 then (Ok Ready, d', r) else vec_items push fin new_item d' r
                   | Err e \<Rightarrow> (Err (VecLengthPrefix e), d\<lparr>vd_prefix := None\<rparr>, r)
                   | Panic \<Rightarrow> (Panic, d, r)
                   | Diverge \<Rightarrow> (Diverge, d, r))
              | Err e \<Rightarrow> (Err (VecLengthPrefix e), d\<lparr>vd_prefix := None\<rparr>, r)
              | Panic \<Rightarrow> (Panic, d, r)
              | Diverge \<Rightarrow> (Diverge, d, r))))"

definition vec_decoder_end :: "('s, 'a) vec_decoder \<Rightarrow> ('e vec_error, 'a list) res" where
  "vec_decoder_end d =
     (let len = length (vd_buffer d) in
      case vd_prefix d of
        Some prefix_decoder \<Rightarrow> Err (VecUnexpectedEof (compact_size_decoder_read_limit prefix_decoder))
      | None \<Rightarrow>
          if len \<noteq> vd_length d then
            (if vd_length d < len then Panic else Err (VecUnexpectedEof (vd_length d - len)))
          else Ok (vd_buffer d))"

definition vec_decoder_read_limit :: "('s \<Rightarrow> nat) \<Rightarrow> 's \<Rightarrow> ('s, 'a) vec_decoder \<Rightarrow> nat" where
  "vec_decoder_read_limit limit new_item d =
     (case (vd_prefix d, vd_decoder d) of
        (Some pd, _) \<Rightarrow> compact_size_decoder_read_limit pd
      | (None, Some x) \<Rightarrow> limit x
      | (None, None) \<Rightarrow>
          if length (vd_buffer d) = vd_length d then 0
          else (vd_length d - length (vd_buffer d)) * limit new_item)"

text \<open>The parser of \<open>n\<close> items, and that of a decoder's state.\<close>

fun run_items :: "(bytes \<Rightarrow> ('e, 'a) presult) \<Rightarrow> nat \<Rightarrow> bytes \<Rightarrow> ('e, 'a list) presult" where
  "run_items p 0 x = POk [] x"
| "run_items p (Suc n) x = pbind (p x) (\<lambda>a y. pbind (run_items p n y) (\<lambda>as. POk (a # as)))"

definition vec_rest ::
  "('s \<Rightarrow> bytes \<Rightarrow> ('e, 'a) presult) \<Rightarrow> 's \<Rightarrow> 'a list \<Rightarrow> nat \<Rightarrow> 's option \<Rightarrow> bytes
     \<Rightarrow> ('e vec_error, 'a list) presult" where
  "vec_rest run new_item acc n dec x =
     pmap_err VecItem
       (case (n, dec) of
          (Suc m, Some s) \<Rightarrow> pbind (run s x) (\<lambda>a y. pbind (run_items (run new_item) m y) (\<lambda>as. POk (acc @ a # as)))
        | _ \<Rightarrow> pbind (run_items (run new_item) n x) (\<lambda>as. POk (acc @ as)))"

definition vec_run ::
  "('s \<Rightarrow> bytes \<Rightarrow> ('e, 'a) presult) \<Rightarrow> 's \<Rightarrow> ('s, 'a) vec_decoder \<Rightarrow> bytes
     \<Rightarrow> ('e vec_error, 'a list) presult" where
  "vec_run run new_item d x =
     (case vd_prefix d of
        None \<Rightarrow> vec_rest run new_item (vd_buffer d) (vd_length d - length (vd_buffer d)) (vd_decoder d) x
      | Some p \<Rightarrow> pbind (pmap_err VecLengthPrefix (compact_size_decoder_run p x))
          (\<lambda>n. vec_rest run new_item [] n None))"

definition vec_inv ::
  "('s \<Rightarrow> bytes \<Rightarrow> ('e, 'a) presult) \<Rightarrow> ('s \<Rightarrow> bool) \<Rightarrow> ('s, 'a) vec_decoder \<Rightarrow> bool" where
  "vec_inv run pending d \<longleftrightarrow>
     (case vd_prefix d of
        None \<Rightarrow> length (vd_buffer d) < vd_length d \<and>
          (case vd_decoder d of None \<Rightarrow> True | Some s \<Rightarrow> pending s \<and> run s [] = PMore)
      | Some p \<Rightarrow> compact_size_decoder_inv p \<and> compact_size_decoder_run p [] = PMore \<and> vd_buffer d = []
          \<and> vd_decoder d = None)"

locale item_decoder = item: push_decoder push fin limit run inv
  for push :: "'s \<Rightarrow> bytes \<Rightarrow> ('e, dstatus) res \<times> 's \<times> bytes" and fin :: "'s \<Rightarrow> ('e, 'a) res"
    and limit run inv +
  fixes new_item :: 's
  assumes new_inv: "inv new_item" and new_more: "run new_item [] = PMore"
begin

lemma rest_eq:
  "0 < n \<Longrightarrow> vec_rest run new_item acc n dec x =
     pmap_err VecItem (pbind (run (case dec of None \<Rightarrow> new_item | Some s \<Rightarrow> s) x)
       (\<lambda>a y. pbind (run_items (run new_item) (n - 1) y) (\<lambda>as. POk (acc @ a # as))))"
  by (cases n; cases dec) (simp_all add: vec_rest_def pbind_assoc)

lemma pending_run:
  assumes "vec_inv run inv d" and "vd_prefix d = None"
  shows "inv (current_item new_item d)" "run (current_item new_item d) [] = PMore"
    and "vec_run run new_item d x = pmap_err VecItem (pbind (run (current_item new_item d) x)
       (\<lambda>a y. pbind (run_items (run new_item) (vd_length d - length (vd_buffer d) - 1) y)
         (\<lambda>as. POk (vd_buffer d @ a # as))))"
    and "vec_run run new_item d [] = PMore"
  using assms new_inv new_more
  by (auto simp: vec_inv_def vec_run_def rest_eq current_item_def split: option.splits)

lemma vec_run_full:
  "vd_prefix d = None \<Longrightarrow> vd_decoder d = None \<Longrightarrow> length (vd_buffer d) = vd_length d \<Longrightarrow>
     vec_run run new_item d x = POk (vd_buffer d) x"
  by (simp add: vec_run_def vec_rest_def)

lemma vec_run_item:
  assumes "vec_inv run inv d" and "vd_prefix d = None"
    and "\<And>x. run (current_item new_item d) (k @ x) = POk a x"
  shows "vec_run run new_item d (k @ x) =
    vec_run run new_item (d\<lparr>vd_decoder := None, vd_buffer := vd_buffer d @ [a]\<rparr>) x"
proof -
  obtain m where m: "vd_length d = Suc (length (vd_buffer d) + m)"
    using assms(1,2) by (auto simp: vec_inv_def dest: less_imp_Suc_add)
  show ?thesis
    using pending_run(3) [OF assms(1,2), of "k @ x"] m assms(2,3)
    by (cases m) (simp_all add: vec_run_def vec_rest_def)
qed

lemma items_defined:
  "push_outcome (vec_items push fin new_item) vec_decoder_end p q d bs \<Longrightarrow>
     \<exists>x. vec_loop push fin new_item d bs = Some x"
  by (cases "vec_loop push fin new_item d bs") (auto simp: push_outcome_def vec_items_def)

lemma items_outcome:
  assumes "vec_inv run inv d" and "vd_prefix d = None"
  shows "push_outcome (vec_items push fin new_item) vec_decoder_end (vec_run run new_item)
    (vec_inv run inv) d bs"
  using assms
proof (induction bs arbitrary: d rule: length_induct)
  case (1 bs)
  note d = pending_run [OF "1.prems"]
  let ?cur = "current_item new_item d"
  have len: "length (vd_buffer d) < vd_length d"
    using "1.prems" by (simp add: vec_inv_def)
  show ?case
  proof (cases "bs = []")
    case True
    then show ?thesis
      using len d(4) "1.prems"
      by (intro outcome_more [where s' = d and r = bs and k = "[]"])
         (auto simp: vec_items_def vec_loop.simps)
  next
    case False
    from d(1) show ?thesis
    proof (cases rule: item.push_cases [of ?cur bs])
      case (more s' r k)
      have "vec_items push fin new_item d bs = (Ok NeedsMore, d\<lparr>vd_decoder := Some s'\<rparr>, r)"
        using False more(1) by (simp add: vec_items_def vec_loop.simps)
      moreover have inv': "vec_inv run inv (d\<lparr>vd_decoder := Some s'\<rparr>)"
        using more "1.prems" len by (simp add: vec_inv_def)
      ultimately show ?thesis
        using more "1.prems"(2) pending_run(3,4) [OF inv'] d(3)
        by (intro outcome_more [where s' = "d\<lparr>vd_decoder := Some s'\<rparr>" and r = r and k = k])
           (simp_all add: current_item_def)
    next
      case (error e s' r)
      then show ?thesis
        using False d(3)
        by (intro outcome_error [where e = "VecItem e" and s' = "d\<lparr>vd_decoder := None\<rparr>" and r = r])
           (simp_all add: vec_items_def vec_loop.simps)
    next
      case (panic s' r)
      then show ?thesis
        using False d(3)
        by (intro outcome_panic [where s' = d and r = r]) (simp_all add: vec_items_def vec_loop.simps)
    next
      case (ready s' r k)
      show ?thesis
      proof (cases "fin s'")
        case (Err e)
        have "vec_run run new_item d (bs @ x) = PErr (VecItem e)" for x
          using ready(3) ready(4) [of "r @ x"] Err d(3) by simp
        then show ?thesis
          using ready Err False
          by (intro outcome_error [where e = "VecItem e" and s' = "d\<lparr>vd_decoder := None\<rparr>" and r = r])
             (simp_all add: vec_items_def vec_loop.simps)
      next
        case Panic
        have "vec_run run new_item d (bs @ x) = PPanic" for x
          using ready(3) ready(4) [of "r @ x"] Panic d(3) by simp
        then show ?thesis
          using ready Panic False
          by (intro outcome_panic [where s' = d and r = r]) (simp_all add: vec_items_def vec_loop.simps)
      next
        case (Ok a)
        let ?d = "d\<lparr>vd_decoder := None, vd_buffer := vd_buffer d @ [a]\<rparr>"
        have "k \<noteq> []" using ready(4) [of "[]"] Ok d(2) by auto
        then have shorter: "length r < length bs" using ready(3) by auto
        have run: "vec_run run new_item d (k @ x) = vec_run run new_item ?d x" for x
          using vec_run_item [OF "1.prems"] ready(4) Ok by simp
        have loop: "vec_loop push fin new_item d bs =
            (if length (vd_buffer ?d) = vd_length ?d then Some (Ok Ready, ?d, r)
             else vec_loop push fin new_item ?d r)"
          using False ready(1) Ok by (simp add: vec_loop.simps [of push fin new_item d bs])
        show ?thesis
        proof (cases "length (vd_buffer ?d) = vd_length ?d")
          case True
          then show ?thesis
            using loop ready(3) run "1.prems"(2)
            by (intro outcome_ready [where s' = ?d and r = r and k = k])
               (simp_all add: vec_items_def vec_decoder_end_def vec_run_full)
        next
          case F: False
          then have "vec_inv run inv ?d" "vd_prefix ?d = None"
            using "1.prems" len by (auto simp: vec_inv_def)
          then have out: "push_outcome (vec_items push fin new_item) vec_decoder_end (vec_run run new_item)
              (vec_inv run inv) ?d r"
            using "1.IH" shorter by blast
          then show ?thesis
          proof (rule outcome_step)
            show "vec_items push fin new_item d bs = vec_items push fin new_item ?d r"
              using items_defined [OF out] loop F by (auto simp: vec_items_def)
          qed (use ready(3) run \<open>k \<noteq> []\<close> in auto)
        qed
      qed (use ready in auto)
    qed
  qed
qed

lemma vec_outcome:
  assumes "vec_inv run inv d"
  shows "push_outcome (vec_decoder_push push fin new_item) vec_decoder_end (vec_run run new_item)
    (vec_inv run inv) d bs"
proof (cases "vd_prefix d")
  case None
  from items_outcome [OF assms this, of bs] show ?thesis
    by (rule outcome_step [where ?k0.0 = "[]"]) (use None in \<open>simp_all add: vec_decoder_push_def\<close>)
next
  case (Some p)
  have inv: "compact_size_decoder_inv p" "vd_buffer d = []" "vd_decoder d = None"
    using assms Some by (auto simp: vec_inv_def)
  have run: "vec_run run new_item d x = pbind (pmap_err VecLengthPrefix (compact_size_decoder_run p x))
      (\<lambda>n. vec_rest run new_item [] n None)" for x
    using Some by (simp add: vec_run_def)
  from inv(1) show ?thesis
  proof (cases rule: csd.push_cases [of p bs])
    case (more p' r k)
    then show ?thesis using Some inv run
      by (intro outcome_more [where s' = "d\<lparr>vd_prefix := Some p'\<rparr>" and r = r and k = k])
         (auto simp: vec_decoder_push_def vec_inv_def vec_run_def)
  next
    case (error e p' r)
    then show ?thesis using Some run
      by (intro outcome_error [where e = "VecLengthPrefix e" and s' = "d\<lparr>vd_prefix := None\<rparr>" and r = r])
         (auto simp: vec_decoder_push_def)
  next
    case (panic p' r)
    then show ?thesis using Some run
      by (intro outcome_panic [where s' = d and r = r]) (auto simp: vec_decoder_push_def)
  next
    case (ready p' r k)
    show ?thesis
    proof (cases "compact_size_decoder_end p'")
      case (Err e)
      have "vec_run run new_item d (bs @ x) = PErr (VecLengthPrefix e)" for x
        using ready(3) ready(4) [of "r @ x"] Err run by simp
      then show ?thesis using ready Err Some
        by (intro outcome_error [where e = "VecLengthPrefix e" and s' = "d\<lparr>vd_prefix := None\<rparr>" and r = r])
           (auto simp: vec_decoder_push_def)
    next
      case Panic
      have "vec_run run new_item d (bs @ x) = PPanic" for x
        using ready(3) ready(4) [of "r @ x"] Panic run by simp
      then show ?thesis using ready Panic Some
        by (intro outcome_panic [where s' = d and r = r]) (auto simp: vec_decoder_push_def)
    next
      case (Ok n)
      let ?d = "d\<lparr>vd_prefix := None, vd_length := n\<rparr>"
      have push: "vec_decoder_push push fin new_item d bs =
          (if n = 0 then (Ok Ready, ?d, r) else vec_items push fin new_item ?d r)"
        using ready(1) Ok Some by (simp add: vec_decoder_push_def)
      have run': "vec_run run new_item d (k @ x) = vec_run run new_item ?d x" for x
        using ready(4) Ok run inv by (simp add: vec_run_def)
      have k: "bs \<noteq> [] \<Longrightarrow> r = [] \<Longrightarrow> k \<noteq> []" using ready(3) by auto
      show ?thesis
      proof (cases "n = 0")
        case True
        then show ?thesis using push ready(3) run' inv
          by (intro outcome_ready [where s' = ?d and r = r and k = k])
             (simp_all add: vec_decoder_end_def vec_run_full)
      next
        case False
        then have "vec_inv run inv ?d" "vd_prefix ?d = None" using inv by (auto simp: vec_inv_def)
        from items_outcome [OF this, of r] show ?thesis
          by (rule outcome_step) (use push False ready(3) k run' in simp_all)
      qed
    qed (use ready in auto)
  qed
qed

lemma run_items_limit:
  "run_items (run new_item) n x = POk v r \<Longrightarrow> n * limit new_item + length r \<le> length x"
proof (induction n arbitrary: x v)
  case 0
  then show ?case by simp
next
  case (Suc n)
  then obtain a y as where "run new_item x = POk a y" "run_items (run new_item) n y = POk as r"
    by (auto simp: pbind_POk_iff)
  then show ?case
    using Suc.IH [of y as] item.limit_sound [OF new_inv, of x a y] by simp
qed

lemma vec_rest_None:
  "vec_rest run new_item acc n None x =
     pmap_err VecItem (pbind (run_items (run new_item) n x) (\<lambda>as. POk (acc @ as)))"
  by (cases n) (simp_all add: vec_rest_def)

lemma vec_rest_limit:
  assumes "vec_rest run new_item acc n None x = POk v r"
  shows "n * limit new_item + length r \<le> length x"
  using assms run_items_limit by (auto simp: vec_rest_None pbind_POk_iff)

lemma vec_push_decoder:
  "push_decoder (vec_decoder_push push fin new_item) vec_decoder_end
     (vec_decoder_read_limit limit new_item) (vec_run run new_item) (vec_inv run inv)"
proof (rule push_decoder_intro [OF vec_outcome])
  fix d :: "('s, 'a) vec_decoder" and x
  assume inv: "vec_inv run inv d"
  have more: "vec_run run new_item d [] = PMore"
  proof (cases "vd_prefix d")
    case None
    then show ?thesis using pending_run(4) [OF inv] by simp
  next
    case (Some p)
    then show ?thesis using inv by (simp add: vec_run_def vec_inv_def)
  qed
  show "\<exists>e. vec_decoder_end d = Err e"
    using inv by (auto simp: vec_decoder_end_def vec_inv_def split: option.splits)
  show "vec_run run new_item d [] \<noteq> PMore \<Longrightarrow>
      halts (vec_decoder_end d) \<and> vec_run run new_item d x = finished (vec_decoder_end d) x"
    using more by simp
  show "0 < vec_decoder_read_limit limit new_item d"
    using inv csd.limit_pos item.limit_pos item.limit_pos [OF new_inv new_more]
    by (auto simp: vec_decoder_read_limit_def vec_inv_def split: option.splits)
next
  fix d :: "('s, 'a) vec_decoder" and bs v r
  assume inv: "vec_inv run inv d" and run: "vec_run run new_item d bs = POk v r"
  show "vec_decoder_read_limit limit new_item d + length r \<le> length bs"
  proof (cases "vd_prefix d")
    case (Some p)
    then obtain n y where "compact_size_decoder_run p bs = POk n y" "vec_rest run new_item [] n None y = POk v r"
      using run by (auto simp: vec_run_def pbind_POk_iff)
    then show ?thesis
      using csd.limit_sound [of p bs n y] vec_rest_limit [of "[]" n y v r] inv Some
      by (simp add: vec_inv_def vec_decoder_read_limit_def)
  next
    case None
    show ?thesis
    proof (cases "vd_decoder d")
      case N: None
      then show ?thesis using vec_rest_limit run None inv
        by (auto simp: vec_run_def vec_decoder_read_limit_def vec_inv_def)
    next
      case (Some s)
      then obtain a y as where *: "run s bs = POk a y"
          "run_items (run new_item) (vd_length d - length (vd_buffer d) - 1) y = POk as r"
        using run pending_run(3) [OF inv None, of bs] by (auto simp: pbind_POk_iff current_item_def)
      have "inv s" using inv None Some by (simp add: vec_inv_def)
      from item.limit_sound [OF this *(1)] run_items_limit [OF *(2)] show ?thesis
        using None Some by (simp add: vec_decoder_read_limit_def)
    qed
  qed
qed

end

sublocale item_decoder \<subseteq> vec: push_decoder "vec_decoder_push push fin new_item" vec_decoder_end
  "vec_decoder_read_limit limit new_item" "vec_run run new_item" "vec_inv run inv"
  by (rule vec_push_decoder)

subsection \<open>What is accepted, and at what cost\<close>

lemma byte_vec_new_inv [simp]: "byte_vec_inv (byte_vec_decoder_new_with_limit limit)"
  by (simp add: byte_vec_inv_def byte_vec_decoder_new_with_limit_def compact_size_decoder_run_def
        compact_size_decoder_new_with_limit_def compact_size_run_def compact_size_decoder_inv_def
        compact_size_inv_def)

lemma byte_vec_new_more: "byte_vec_run (byte_vec_decoder_new_with_limit limit) [] = PMore"
  by (simp add: byte_vec_run_def byte_vec_decoder_new_with_limit_def compact_size_decoder_run_def
        compact_size_decoder_new_with_limit_def compact_size_run_def)

lemma take_exactly_Nil_iff: "take_exactly [] n x = POk v r \<longleftrightarrow> x = v @ r \<and> length v = n"
  by (auto simp: take_exactly_def)

lemma byte_vec_new_run_iff:
  "byte_vec_run (byte_vec_decoder_new_with_limit limit) x = POk v r \<longleftrightarrow>
     length v \<le> limit \<and> length v < 2 ^ 64 \<and> x = compact_size_new (length v) @ v @ r"
  by (auto simp: byte_vec_run_def byte_vec_decoder_new_with_limit_def pbind_POk_iff
        compact_size_decoder_new_run_iff take_exactly_Nil_iff)

text \<open>
  The byte-vector decoder accepts exactly the length-prefixed byte strings within
  its limit: the prefix must be the minimal encoding of the length, and nothing may follow.
\<close>

theorem byte_vec_decoder_accepts:
  "decode_from_slice byte_vec_decoder_push byte_vec_decoder_end
       (byte_vec_decoder_new_with_limit limit) bs = Ok v
   \<longleftrightarrow> length v \<le> limit \<and> length v < 2 ^ 64 \<and> bs = compact_size_new (length v) @ v"
  by (simp add: bvd.decode_from_slice_iff byte_vec_new_run_iff)

text \<open>The state after a sequence of pushes, whatever they return.\<close>

fun byte_vec_pushes :: "byte_vec_decoder \<Rightarrow> bytes list \<Rightarrow> byte_vec_decoder" where
  "byte_vec_pushes d [] = d"
| "byte_vec_pushes d (bs # bss) = byte_vec_pushes (fst (snd (byte_vec_decoder_push d bs))) bss"

definition byte_vec_lean :: "byte_vec_decoder \<Rightarrow> bool" where
  "byte_vec_lean d \<longleftrightarrow> bv_capacity d \<le> length (bv_buffer d) + MAX_VECTOR_ALLOCATE"

lemma byte_vec_fill_lean:
  assumes fill: "byte_vec_fill d bs = (st, d', r)" and lean: "byte_vec_lean d"
  shows "byte_vec_lean d' \<and> length (bv_buffer d') \<le> length (bv_buffer d) + length bs"
proof (cases "bv_expected d < bv_written d")
  case True
  then show ?thesis using assms by (simp add: byte_vec_fill_def)
next
  case False
  define d1 where "d1 = byte_vec_reserve d"
  define c where "c = min (min (length bs) (bv_expected d1 - bv_written d1)) (bv_capacity d1 - length (bv_buffer d1))"
  have "byte_vec_lean d1" and "bv_buffer d1 = bv_buffer d"
    using lean by (simp_all add: d1_def byte_vec_reserve_def byte_vec_lean_def Let_def)
  moreover have "bv_buffer d' = bv_buffer d1 @ take c bs" "bv_capacity d' = bv_capacity d1"
    using fill False by (auto simp: byte_vec_fill_def Let_def d1_def c_def)
  ultimately show ?thesis by (simp add: byte_vec_lean_def)
qed

lemma byte_vec_push_lean:
  assumes "byte_vec_decoder_push d bs = (st, d', r)" and "byte_vec_lean d"
  shows "byte_vec_lean d' \<and> length (bv_buffer d') \<le> length (bv_buffer d) + length bs"
proof (cases "bv_prefix d")
  case None
  then show ?thesis using assms byte_vec_fill_lean by (simp add: byte_vec_decoder_push_def)
next
  case (Some p)
  obtain pst p' pr where p: "compact_size_decoder_push p bs = (pst, p', pr)"
    by (cases "compact_size_decoder_push p bs") auto
  have "length pr \<le> length bs"
    using p by (auto simp: compact_size_decoder_push_def compact_size_push_bytes_def Let_def
        split: if_splits prod.splits)
  moreover have "byte_vec_lean d' \<and> length (bv_buffer d') \<le> length (bv_buffer d) + length pr"
    using assms Some p byte_vec_fill_lean [of "d\<lparr>bv_prefix := None, bv_expected := n\<rparr>" pr st d' r for n]
    by (auto simp: byte_vec_decoder_push_def byte_vec_lean_def split: res.splits dstatus.splits)
  ultimately show ?thesis by simp
qed

lemma byte_vec_pushes_lean:
  "byte_vec_lean d \<Longrightarrow> byte_vec_lean (byte_vec_pushes d bss) \<and>
     length (bv_buffer (byte_vec_pushes d bss)) \<le> length (bv_buffer d) + length (concat bss)"
proof (induction bss arbitrary: d)
  case Nil
  then show ?case by simp
next
  case (Cons bs bss)
  obtain st d' r where push: "byte_vec_decoder_push d bs = (st, d', r)"
    by (cases "byte_vec_decoder_push d bs") auto
  then show ?case using Cons.IH [of d'] byte_vec_push_lean [OF push Cons.prems] by simp
qed

text \<open>
  Whatever length the prefix announces, and in whatever pieces the bytes arrive,
  the memory taken for the buffer exceeds the bytes received by at most the batch of one million.
\<close>

theorem byte_vec_memory_bound:
  "bv_capacity (byte_vec_pushes (byte_vec_decoder_new_with_limit limit) bss)
     \<le> length (concat bss) + 1000000"
  using byte_vec_pushes_lean [of "byte_vec_decoder_new_with_limit limit" bss]
  by (simp add: byte_vec_lean_def byte_vec_decoder_new_with_limit_def MAX_VECTOR_ALLOCATE_def)

text \<open>
  The vector decoder may not be pushed to again once it is ready. With one-byte
  items and the length 0 it is ready at once; one more byte is then consumed as an item, and
  \<open>end\<close> overflows in \<open>self.length - len\<close>.
\<close>

theorem vec_decoder_push_after_ready:
  "\<exists>d d'. vec_decoder_push array_decoder_push array_decoder_end (array_decoder_new 1)
        vec_decoder_new [0] = (Ok Ready, d, [])
    \<and> vec_decoder_push array_decoder_push array_decoder_end (array_decoder_new 1) d [b] = (Ok NeedsMore, d', [])
    \<and> vec_decoder_end d' = Panic"
proof -
  let ?d = "\<lparr>vd_prefix = None, vd_length = 0, vd_buffer = [], vd_decoder = None\<rparr>
    :: (array_decoder, bytes) vec_decoder"
  let ?d' = "?d\<lparr>vd_buffer := [[b]]\<rparr>"
  have "vec_decoder_push array_decoder_push array_decoder_end (array_decoder_new 1)
      vec_decoder_new [0] = (Ok Ready, ?d, [])"
    by (simp add: vec_decoder_push_def vec_decoder_new_def vec_decoder_new_with_limit_def
          compact_size_decoder_new_with_limit_def compact_size_decoder_push_def compact_size_push_bytes_def
          prefix_length_def prefix_defs compact_size_decoder_end_def compact_size_check_def)
  moreover have "vec_decoder_push array_decoder_push array_decoder_end (array_decoder_new 1) ?d [b]
      = (Ok NeedsMore, ?d', [])"
    by (simp add: vec_decoder_push_def vec_items_def vec_loop.simps current_item_def array_decoder_new_def
          array_decoder_push_def array_decoder_end_def copy_at_def)
  moreover have "vec_decoder_end ?d' = Panic"
    by (simp add: vec_decoder_end_def)
  ultimately show ?thesis by blast
qed

end
