(* ===== verification/Encoders.thy ===== *)
theory Encoders
  imports Encoder_Contract Vec_Decoders
begin

section \<open>The standard encoders\<close>

text \<open>
  \<open>consensus_encoding/src/encode/encoders.rs\<close>: encoders of byte slices, arrays, compact sizes,
  optional objects and slices of objects, and the composite encoders \<open>Encoder2\<close> to \<open>Encoder6\<close>
  that a macro unrolls. Slices and composites take the operations of their parts as arguments.
  Each is an \<open>encoder\<close> whose output is the concatenation of the outputs of its parts.
\<close>

subsection \<open>Encoders of one chunk\<close>

record bytes_encoder = be_sl :: bytes

definition bytes_encoder_chunk :: "bytes_encoder \<Rightarrow> bytes option" where
  "bytes_encoder_chunk e = Some (be_sl e)"

definition bytes_encoder_advance :: "bytes_encoder \<Rightarrow> (estatus \<times> bytes_encoder) option" where
  "bytes_encoder_advance e = Some (Finished, e)"

definition bytes_encoder_len :: "bytes_encoder \<Rightarrow> nat" where
  "bytes_encoder_len e = length (be_sl e)"

record array_encoder = ae_arr :: bytes

definition array_encoder_chunk :: "array_encoder \<Rightarrow> bytes option" where
  "array_encoder_chunk e = Some (ae_arr e)"

definition array_encoder_advance :: "array_encoder \<Rightarrow> (estatus \<times> array_encoder) option" where
  "array_encoder_advance e = Some (Finished, e)"

definition array_encoder_len :: "array_encoder \<Rightarrow> nat" where
  "array_encoder_len e = length (ae_arr e)"

record compact_size_encoder = ce_buf :: bytes

definition compact_size_encoder_new :: "nat \<Rightarrow> compact_size_encoder" where
  "compact_size_encoder_new value = \<lparr>ce_buf = compact_size_encode (word_of_nat value)\<rparr>"

definition compact_size_encoder_new_u64 :: "u64 \<Rightarrow> compact_size_encoder" where
  "compact_size_encoder_new_u64 value = \<lparr>ce_buf = compact_size_encode value\<rparr>"

definition compact_size_encoder_chunk :: "compact_size_encoder \<Rightarrow> bytes option" where
  "compact_size_encoder_chunk e = Some (ce_buf e)"

definition compact_size_encoder_advance ::
  "compact_size_encoder \<Rightarrow> (estatus \<times> compact_size_encoder) option" where
  "compact_size_encoder_advance e = Some (Finished, e)"

definition compact_size_encoder_len :: "compact_size_encoder \<Rightarrow> nat" where
  "compact_size_encoder_len e = length (ce_buf e)"

interpretation be: encoder bytes_encoder_chunk bytes_encoder_advance be_sl "\<lambda>_. 0" "\<lambda>_. True"
  by unfold_locales (auto simp: bytes_encoder_chunk_def bytes_encoder_advance_def)

interpretation ae: encoder array_encoder_chunk array_encoder_advance ae_arr "\<lambda>_. 0" "\<lambda>_. True"
  by unfold_locales (auto simp: array_encoder_chunk_def array_encoder_advance_def)

interpretation ce: encoder compact_size_encoder_chunk compact_size_encoder_advance ce_buf
  "\<lambda>_. 0" "\<lambda>_. True"
  by unfold_locales (auto simp: compact_size_encoder_chunk_def compact_size_encoder_advance_def)

subsection \<open>Optional objects\<close>

definition option_chunk :: "('s \<Rightarrow> bytes option) \<Rightarrow> 's option \<Rightarrow> bytes option" where
  "option_chunk chunk e = (case e of None \<Rightarrow> Some [] | Some x \<Rightarrow> chunk x)"

definition option_advance ::
  "('s \<Rightarrow> (estatus \<times> 's) option) \<Rightarrow> 's option \<Rightarrow> (estatus \<times> 's option) option" where
  "option_advance advance e =
     (case e of
        None \<Rightarrow> Some (Finished, None)
      | Some x \<Rightarrow> (case advance x of None \<Rightarrow> None | Some (st, x') \<Rightarrow> Some (st, Some x')))"

definition option_len :: "('s \<Rightarrow> nat) \<Rightarrow> 's option \<Rightarrow> nat" where
  "option_len len e = (case e of None \<Rightarrow> 0 | Some x \<Rightarrow> len x)"

definition option_out :: "('s \<Rightarrow> bytes) \<Rightarrow> 's option \<Rightarrow> bytes" where
  "option_out out e = (case e of None \<Rightarrow> [] | Some x \<Rightarrow> out x)"

definition option_steps :: "('s \<Rightarrow> nat) \<Rightarrow> 's option \<Rightarrow> nat" where
  "option_steps steps e = (case e of None \<Rightarrow> 0 | Some x \<Rightarrow> steps x)"

definition option_valid :: "('s \<Rightarrow> bool) \<Rightarrow> 's option \<Rightarrow> bool" where
  "option_valid valid e = (case e of None \<Rightarrow> True | Some x \<Rightarrow> valid x)"

context encoder begin

lemma option_encoder:
  "encoder (option_chunk chunk) (option_advance advance) (option_out out) (option_steps steps)
     (option_valid valid)"
  by unfold_locales
     (auto simp: option_chunk_def option_advance_def option_out_def option_steps_def option_valid_def
        split: option.splits dest: chunk_Some advance_returns advance_more advance_finished)

end

subsection \<open>Slices\<close>

text \<open>\<open>T::encoder\<close> is the argument \<open>new_enc\<close>.\<close>

record ('a, 's) slice_encoder =
  se_sl :: "'a list"
  se_cur :: "'s option"

definition slice_encoder_new :: "('a \<Rightarrow> 's) \<Rightarrow> 'a list \<Rightarrow> ('a, 's) slice_encoder" where
  "slice_encoder_new new_enc sl =
     \<lparr>se_sl = sl, se_cur = (case sl of [] \<Rightarrow> None | x # xs \<Rightarrow> Some (new_enc x))\<rparr>"

definition slice_encoder_chunk ::
  "('s \<Rightarrow> bytes option) \<Rightarrow> ('a, 's) slice_encoder \<Rightarrow> bytes option" where
  "slice_encoder_chunk chunk e = (case se_cur e of None \<Rightarrow> Some [] | Some cur \<Rightarrow> chunk cur)"

text \<open>The loop: \<open>&self.sl[1..]\<close> panics on an empty slice.\<close>

fun slice_encoder_loop ::
  "('s \<Rightarrow> bytes option) \<Rightarrow> ('s \<Rightarrow> (estatus \<times> 's) option) \<Rightarrow> ('a \<Rightarrow> 's) \<Rightarrow> 'a list \<Rightarrow> 's
     \<Rightarrow> (estatus \<times> ('a, 's) slice_encoder) option" where
  "slice_encoder_loop chunk advance new_enc sl cur =
     (case advance cur of
        None \<Rightarrow> None
      | Some (HasMore, cur') \<Rightarrow> Some (HasMore, \<lparr>se_sl = sl, se_cur = Some cur'\<rparr>)
      | Some (Finished, cur') \<Rightarrow>
          (case sl of
             [] \<Rightarrow> None
           | [x] \<Rightarrow> Some (Finished, \<lparr>se_sl = [], se_cur = None\<rparr>)
           | _ # y # ys \<Rightarrow>
               (case chunk (new_enc y) of
                  None \<Rightarrow> None
                | Some c \<Rightarrow>
                    if c \<noteq> [] then Some (HasMore, \<lparr>se_sl = y # ys, se_cur = Some (new_enc y)\<rparr>)
                    else slice_encoder_loop chunk advance new_enc (y # ys) (new_enc y))))"

definition slice_encoder_advance ::
  "('s \<Rightarrow> bytes option) \<Rightarrow> ('s \<Rightarrow> (estatus \<times> 's) option) \<Rightarrow> ('a \<Rightarrow> 's) \<Rightarrow> ('a, 's) slice_encoder
     \<Rightarrow> (estatus \<times> ('a, 's) slice_encoder) option" where
  "slice_encoder_advance chunk advance new_enc e =
     (case se_cur e of
        None \<Rightarrow> Some (Finished, e)
      | Some cur \<Rightarrow> slice_encoder_loop chunk advance new_enc (se_sl e) cur)"

definition slice_encoder_out :: "('s \<Rightarrow> bytes) \<Rightarrow> ('a \<Rightarrow> 's) \<Rightarrow> ('a, 's) slice_encoder \<Rightarrow> bytes" where
  "slice_encoder_out out new_enc e =
     (case se_cur e of
        None \<Rightarrow> []
      | Some cur \<Rightarrow> out cur @ concat (map (\<lambda>x. out (new_enc x)) (tl (se_sl e))))"

definition slice_encoder_steps :: "('s \<Rightarrow> nat) \<Rightarrow> ('a \<Rightarrow> 's) \<Rightarrow> ('a, 's) slice_encoder \<Rightarrow> nat" where
  "slice_encoder_steps steps new_enc e =
     (case se_cur e of
        None \<Rightarrow> 0
      | Some cur \<Rightarrow> Suc (steps cur) + sum_list (map (\<lambda>x. Suc (steps (new_enc x))) (tl (se_sl e))))"

definition slice_encoder_valid ::
  "('s \<Rightarrow> bool) \<Rightarrow> ('a \<Rightarrow> 's) \<Rightarrow> ('a \<Rightarrow> bool) \<Rightarrow> ('a, 's) slice_encoder \<Rightarrow> bool" where
  "slice_encoder_valid valid new_enc ok e \<longleftrightarrow>
     (case se_cur e of None \<Rightarrow> True | Some cur \<Rightarrow> valid cur \<and> se_sl e \<noteq> [] \<and> (\<forall>x \<in> set (tl (se_sl e)). ok x))"

locale item_encoder = item: encoder chunk advance out steps valid
  for chunk :: "'s \<Rightarrow> bytes option" and advance out steps valid +
  fixes new_enc :: "'a \<Rightarrow> 's" and ok :: "'a \<Rightarrow> bool"
  assumes new_valid: "ok x \<Longrightarrow> valid (new_enc x)"
begin

abbreviation (input) sl_out where "sl_out \<equiv> slice_encoder_out out new_enc"
abbreviation (input) sl_steps where "sl_steps \<equiv> slice_encoder_steps steps new_enc"
abbreviation (input) sl_valid where "sl_valid \<equiv> slice_encoder_valid valid new_enc ok"

lemma slice_loop_outcome:
  assumes "valid cur" and "\<forall>x \<in> set (tl sl). ok x" and "sl \<noteq> []"
  shows "advance_more_ok sl_out sl_steps sl_valid (the (chunk cur)) \<lparr>se_sl = sl, se_cur = Some cur\<rparr>
      (slice_encoder_loop chunk advance new_enc sl cur)
    \<or> advance_done_ok sl_out (the (chunk cur)) \<lparr>se_sl = sl, se_cur = Some cur\<rparr>
      (slice_encoder_loop chunk advance new_enc sl cur)"
  using assms
proof (induction sl arbitrary: cur)
  case Nil
  then show ?case by simp
next
  case (Cons x rest)
  from Cons.prems(1) show ?case
  proof (cases rule: item.encoder_cases)
    case (more c s')
    then show ?thesis
      using Cons.prems
      by (simp add: advance_more_ok_def slice_encoder_valid_def slice_encoder_out_def slice_encoder_steps_def)
  next
    case (finished c s')
    show ?thesis
    proof (cases rest)
      case Nil
      then show ?thesis using finished by (simp add: advance_done_ok_def slice_encoder_out_def)
    next
      case R: (Cons y ys)
      have y: "valid (new_enc y)" and ys: "\<forall>x \<in> set (tl rest). ok x"
        using new_valid Cons.prems R by auto
      obtain d where d: "chunk (new_enc y) = Some d" using item.chunk_Some [OF y] by auto
      let ?e = "\<lparr>se_sl = rest, se_cur = Some (new_enc y)\<rparr>"
      have out: "sl_out \<lparr>se_sl = x # rest, se_cur = Some cur\<rparr> = c @ sl_out ?e"
        using finished R by (simp add: slice_encoder_out_def)
      have steps: "sl_steps ?e < sl_steps \<lparr>se_sl = x # rest, se_cur = Some cur\<rparr>"
        using R by (simp add: slice_encoder_steps_def)
      have valid: "sl_valid ?e" using y ys R by (simp add: slice_encoder_valid_def)
      show ?thesis
      proof (cases "d = []")
        case False
        then have "slice_encoder_loop chunk advance new_enc (x # rest) cur = Some (HasMore, ?e)"
          using finished d R by simp
        then show ?thesis using out steps valid finished(1) by (simp add: advance_more_ok_def)
      next
        case True
        then have loop: "slice_encoder_loop chunk advance new_enc (x # rest) cur
            = slice_encoder_loop chunk advance new_enc rest (new_enc y)"
          using finished d R by simp
        have "advance_more_ok sl_out sl_steps sl_valid [] ?e (slice_encoder_loop chunk advance new_enc rest (new_enc y))
            \<or> advance_done_ok sl_out [] ?e (slice_encoder_loop chunk advance new_enc rest (new_enc y))"
          using Cons.IH [OF y ys] R d True by simp
        then show ?thesis
          unfolding loop advance_more_ok_def advance_done_ok_def out
          using finished(1) steps by (auto dest: less_trans)
      qed
    qed
  qed
qed

lemma slice_encoder:
  "encoder (slice_encoder_chunk chunk) (slice_encoder_advance chunk advance new_enc) sl_out sl_steps sl_valid"
proof (rule encoder_intro)
  fix e :: "('a, 's) slice_encoder"
  assume valid: "sl_valid e"
  show "\<exists>c. slice_encoder_chunk chunk e = Some c \<and>
      (advance_more_ok sl_out sl_steps sl_valid c e (slice_encoder_advance chunk advance new_enc e)
       \<or> advance_done_ok sl_out c e (slice_encoder_advance chunk advance new_enc e))"
  proof (cases "se_cur e")
    case None
    then show ?thesis
      by (simp add: slice_encoder_chunk_def slice_encoder_advance_def advance_done_ok_def slice_encoder_out_def)
  next
    case (Some cur)
    then have e: "e = \<lparr>se_sl = se_sl e, se_cur = Some cur\<rparr>" by (cases e) simp
    have *: "valid cur" "\<forall>x \<in> set (tl (se_sl e)). ok x" "se_sl e \<noteq> []"
      using valid Some by (simp_all add: slice_encoder_valid_def)
    obtain c where c: "chunk cur = Some c" using item.chunk_Some [OF *(1)] by auto
    then show ?thesis
      using slice_loop_outcome [OF *] Some e
      by (simp add: slice_encoder_chunk_def slice_encoder_advance_def del: slice_encoder_loop.simps)
  qed
qed

end

subsection \<open>Composite encoders\<close>

text \<open>
  The arms of the macro \<open>define_encoder_n\<close>. An inner encoder always leaves more to do, and is
  left behind when it has finished; the last one is passed through. An index out of range is a
  panic of \<open>current_chunk\<close> and the end for \<open>advance\<close>.
\<close>

definition inner_arm :: "(estatus \<times> 'x) option \<Rightarrow> ('x \<Rightarrow> bool \<Rightarrow> 's) \<Rightarrow> (estatus \<times> 's) option" where
  "inner_arm r upd = (case r of None \<Rightarrow> None | Some (st, x) \<Rightarrow> Some (HasMore, upd x (has_finished st)))"

definition last_arm :: "(estatus \<times> 'x) option \<Rightarrow> ('x \<Rightarrow> 's) \<Rightarrow> (estatus \<times> 's) option" where
  "last_arm r upd = (case r of None \<Rightarrow> None | Some (st, x) \<Rightarrow> Some (st, upd x))"

record ('a, 'b) encoder2 =
  e2_cur_idx :: nat
  e2_1 :: 'a
  e2_2 :: 'b

definition encoder2_new :: "'a \<Rightarrow> 'b \<Rightarrow> ('a, 'b) encoder2" where
  "encoder2_new a b = \<lparr>e2_cur_idx = 0, e2_1 = a, e2_2 = b\<rparr>"

definition encoder2_chunk ::
  "('a \<Rightarrow> bytes option) \<Rightarrow> ('b \<Rightarrow> bytes option) \<Rightarrow> ('a, 'b) encoder2 \<Rightarrow> bytes option" where
  "encoder2_chunk c1 c2 s =
     (if e2_cur_idx s = 0 then c1 (e2_1 s) else if e2_cur_idx s = 1 then c2 (e2_2 s) else None)"

definition encoder2_advance ::
  "('a \<Rightarrow> (estatus \<times> 'a) option) \<Rightarrow> ('b \<Rightarrow> (estatus \<times> 'b) option) \<Rightarrow> ('a, 'b) encoder2
     \<Rightarrow> (estatus \<times> ('a, 'b) encoder2) option" where
  "encoder2_advance a1 a2 s =
     (let next_idx = (\<lambda>done. e2_cur_idx s + (if done then 1 else 0)) in
      if e2_cur_idx s = 0 then inner_arm (a1 (e2_1 s)) (\<lambda>x d. s\<lparr>e2_1 := x, e2_cur_idx := next_idx d\<rparr>)
      else if e2_cur_idx s = 1 then last_arm (a2 (e2_2 s)) (\<lambda>x. s\<lparr>e2_2 := x\<rparr>)
      else Some (Finished, s))"

definition encoder2_len :: "('a \<Rightarrow> nat) \<Rightarrow> ('b \<Rightarrow> nat) \<Rightarrow> ('a, 'b) encoder2 \<Rightarrow> nat" where
  "encoder2_len l1 l2 s = 0 + l1 (e2_1 s) + l2 (e2_2 s)"

text \<open>What is left of the composite: the parts from the index on.\<close>

definition encoder2_out :: "('a \<Rightarrow> bytes) \<Rightarrow> ('b \<Rightarrow> bytes) \<Rightarrow> ('a, 'b) encoder2 \<Rightarrow> bytes" where
  "encoder2_out o1 o2 s = concat (drop (e2_cur_idx s) [o1 (e2_1 s), o2 (e2_2 s)])"

definition encoder2_steps :: "('a \<Rightarrow> nat) \<Rightarrow> ('b \<Rightarrow> nat) \<Rightarrow> ('a, 'b) encoder2 \<Rightarrow> nat" where
  "encoder2_steps t1 t2 s = sum_list (map Suc (drop (e2_cur_idx s) [t1 (e2_1 s), t2 (e2_2 s)]))"

definition encoder2_valid :: "('a \<Rightarrow> bool) \<Rightarrow> ('b \<Rightarrow> bool) \<Rightarrow> ('a, 'b) encoder2 \<Rightarrow> bool" where
  "encoder2_valid v1 v2 s \<longleftrightarrow>
     e2_cur_idx s < 2 \<and> list_all (\<lambda>b. b) (drop (e2_cur_idx s) [v1 (e2_1 s), v2 (e2_2 s)])"

locale encoder_pair = a: encoder c1 a1 o1 t1 v1 + b: encoder c2 a2 o2 t2 v2
  for c1 a1 o1 t1 v1 c2 a2 o2 t2 v2
begin

lemma pair_encoder:
  "encoder (encoder2_chunk c1 c2) (encoder2_advance a1 a2) (encoder2_out o1 o2) (encoder2_steps t1 t2)
     (encoder2_valid v1 v2)"
proof (rule encoder_intro)
  fix s :: "('a, 'b) encoder2"
  assume valid: "encoder2_valid v1 v2 s"
  then consider "e2_cur_idx s = 0" | "e2_cur_idx s = 1" by (auto simp: encoder2_valid_def less_2_cases_iff)
  then show "\<exists>c. encoder2_chunk c1 c2 s = Some c \<and>
      (advance_more_ok (encoder2_out o1 o2) (encoder2_steps t1 t2) (encoder2_valid v1 v2) c s (encoder2_advance a1 a2 s)
       \<or> advance_done_ok (encoder2_out o1 o2) c s (encoder2_advance a1 a2 s))"
  proof cases
    case 1
    then have "v1 (e2_1 s)" "v2 (e2_2 s)" using valid by (auto simp: encoder2_valid_def)
    then show ?thesis
      by (cases rule: a.encoder_cases)
         (use 1 in \<open>auto simp: encoder2_chunk_def encoder2_advance_def inner_arm_def advance_more_ok_def
            encoder2_out_def encoder2_steps_def encoder2_valid_def Let_def\<close>)
  next
    case 2
    then have "v2 (e2_2 s)" using valid by (auto simp: encoder2_valid_def)
    then show ?thesis
      by (cases rule: b.encoder_cases)
         (use 2 in \<open>auto simp: encoder2_chunk_def encoder2_advance_def last_arm_def advance_more_ok_def
            advance_done_ok_def encoder2_out_def encoder2_steps_def encoder2_valid_def Let_def\<close>)
  qed
qed

end

sublocale encoder_pair \<subseteq> pair: encoder "encoder2_chunk c1 c2" "encoder2_advance a1 a2" "encoder2_out o1 o2"
  "encoder2_steps t1 t2" "encoder2_valid v1 v2"
  by (rule pair_encoder)

record ('a, 'b, 'c) encoder3 =
  e3_cur_idx :: nat
  e3_1 :: 'a
  e3_2 :: 'b
  e3_3 :: 'c

definition encoder3_new :: "'a \<Rightarrow> 'b \<Rightarrow> 'c \<Rightarrow> ('a, 'b, 'c) encoder3" where
  "encoder3_new a b c = \<lparr>e3_cur_idx = 0, e3_1 = a, e3_2 = b, e3_3 = c\<rparr>"

definition encoder3_chunk ::
  "('a \<Rightarrow> bytes option) \<Rightarrow> ('b \<Rightarrow> bytes option) \<Rightarrow> ('c \<Rightarrow> bytes option) \<Rightarrow> ('a, 'b, 'c) encoder3
     \<Rightarrow> bytes option" where
  "encoder3_chunk c1 c2 c3 s =
     (if e3_cur_idx s = 0 then c1 (e3_1 s) else if e3_cur_idx s = 1 then c2 (e3_2 s)
      else if e3_cur_idx s = 2 then c3 (e3_3 s) else None)"

definition encoder3_advance where
  "encoder3_advance a1 a2 a3 s =
     (let next_idx = (\<lambda>done. e3_cur_idx s + (if done then 1 else 0)) in
      if e3_cur_idx s = 0 then inner_arm (a1 (e3_1 s)) (\<lambda>x d. s\<lparr>e3_1 := x, e3_cur_idx := next_idx d\<rparr>)
      else if e3_cur_idx s = 1 then inner_arm (a2 (e3_2 s)) (\<lambda>x d. s\<lparr>e3_2 := x, e3_cur_idx := next_idx d\<rparr>)
      else if e3_cur_idx s = 2 then last_arm (a3 (e3_3 s)) (\<lambda>x. s\<lparr>e3_3 := x\<rparr>)
      else Some (Finished, s))"

definition encoder3_out where
  "encoder3_out o1 o2 o3 s = concat (drop (e3_cur_idx s) [o1 (e3_1 s), o2 (e3_2 s), o3 (e3_3 s)])"

definition encoder3_steps :: "('a \<Rightarrow> nat) \<Rightarrow> ('b \<Rightarrow> nat) \<Rightarrow> ('c \<Rightarrow> nat) \<Rightarrow> ('a, 'b, 'c) encoder3 \<Rightarrow> nat" where
  "encoder3_steps t1 t2 t3 s = sum_list (map Suc (drop (e3_cur_idx s) [t1 (e3_1 s), t2 (e3_2 s), t3 (e3_3 s)]))"

definition encoder3_valid where
  "encoder3_valid v1 v2 v3 s \<longleftrightarrow>
     e3_cur_idx s < 3 \<and> list_all (\<lambda>b. b) (drop (e3_cur_idx s) [v1 (e3_1 s), v2 (e3_2 s), v3 (e3_3 s)])"

locale encoder_triple = a: encoder c1 a1 o1 t1 v1 + b: encoder c2 a2 o2 t2 v2 + c: encoder c3 a3 o3 t3 v3
  for c1 a1 o1 t1 v1 c2 a2 o2 t2 v2 c3 a3 o3 t3 v3
begin

lemmas triple_defs = encoder3_chunk_def encoder3_advance_def inner_arm_def last_arm_def advance_more_ok_def
  advance_done_ok_def encoder3_out_def encoder3_steps_def encoder3_valid_def Let_def

lemma triple_encoder:
  "encoder (encoder3_chunk c1 c2 c3) (encoder3_advance a1 a2 a3) (encoder3_out o1 o2 o3)
     (encoder3_steps t1 t2 t3) (encoder3_valid v1 v2 v3)"
proof (rule encoder_intro)
  fix s :: "('a, 'b, 'c) encoder3"
  assume valid: "encoder3_valid v1 v2 v3 s"
  then have "e3_cur_idx s < 3" by (simp add: encoder3_valid_def)
  then consider "e3_cur_idx s = 0" | "e3_cur_idx s = 1" | "e3_cur_idx s = 2" by linarith
  then show "\<exists>c. encoder3_chunk c1 c2 c3 s = Some c \<and>
      (advance_more_ok (encoder3_out o1 o2 o3) (encoder3_steps t1 t2 t3) (encoder3_valid v1 v2 v3) c s
         (encoder3_advance a1 a2 a3 s)
       \<or> advance_done_ok (encoder3_out o1 o2 o3) c s (encoder3_advance a1 a2 a3 s))"
  proof cases
    case 1
    then have "v1 (e3_1 s)" using valid by (auto simp: encoder3_valid_def)
    then show ?thesis
      by (cases rule: a.encoder_cases) (use 1 valid in \<open>auto simp: triple_defs\<close>)
  next
    case 2
    then have "v2 (e3_2 s)" using valid by (auto simp: encoder3_valid_def)
    then show ?thesis
      by (cases rule: b.encoder_cases) (use 2 valid in \<open>auto simp: triple_defs\<close>)
  next
    case 3
    then have "v3 (e3_3 s)" using valid by (auto simp: encoder3_valid_def)
    then show ?thesis
      by (cases rule: c.encoder_cases) (use 3 valid in \<open>auto simp: triple_defs\<close>)
  qed
qed

end

record ('a, 'b, 'c, 'd) encoder4 =
  e4_cur_idx :: nat
  e4_1 :: 'a
  e4_2 :: 'b
  e4_3 :: 'c
  e4_4 :: 'd

definition encoder4_new :: "'a \<Rightarrow> 'b \<Rightarrow> 'c \<Rightarrow> 'd \<Rightarrow> ('a, 'b, 'c, 'd) encoder4" where
  "encoder4_new a b c d = \<lparr>e4_cur_idx = 0, e4_1 = a, e4_2 = b, e4_3 = c, e4_4 = d\<rparr>"

definition encoder4_chunk ::
  "('a \<Rightarrow> bytes option) \<Rightarrow> ('b \<Rightarrow> bytes option) \<Rightarrow> ('c \<Rightarrow> bytes option) \<Rightarrow> ('d \<Rightarrow> bytes option) \<Rightarrow> ('a, 'b, 'c, 'd) encoder4
     \<Rightarrow> bytes option" where
  "encoder4_chunk c1 c2 c3 c4 s =
     (if e4_cur_idx s = 0 then c1 (e4_1 s) else if e4_cur_idx s = 1 then c2 (e4_2 s)
      else if e4_cur_idx s = 2 then c3 (e4_3 s) else if e4_cur_idx s = 3 then c4 (e4_4 s) else None)"

definition encoder4_advance where
  "encoder4_advance a1 a2 a3 a4 s =
     (let next_idx = (\<lambda>done. e4_cur_idx s + (if done then 1 else 0)) in
      if e4_cur_idx s = 0 then inner_arm (a1 (e4_1 s)) (\<lambda>x d. s\<lparr>e4_1 := x, e4_cur_idx := next_idx d\<rparr>)
      else if e4_cur_idx s = 1 then inner_arm (a2 (e4_2 s)) (\<lambda>x d. s\<lparr>e4_2 := x, e4_cur_idx := next_idx d\<rparr>)
      else if e4_cur_idx s = 2 then inner_arm (a3 (e4_3 s)) (\<lambda>x d. s\<lparr>e4_3 := x, e4_cur_idx := next_idx d\<rparr>)
      else if e4_cur_idx s = 3 then last_arm (a4 (e4_4 s)) (\<lambda>x. s\<lparr>e4_4 := x\<rparr>)
      else Some (Finished, s))"

definition encoder4_out where
  "encoder4_out o1 o2 o3 o4 s = concat (drop (e4_cur_idx s) [o1 (e4_1 s), o2 (e4_2 s), o3 (e4_3 s), o4 (e4_4 s)])"

definition encoder4_steps :: "('a \<Rightarrow> nat) \<Rightarrow> ('b \<Rightarrow> nat) \<Rightarrow> ('c \<Rightarrow> nat) \<Rightarrow> ('d \<Rightarrow> nat)
     \<Rightarrow> ('a, 'b, 'c, 'd) encoder4 \<Rightarrow> nat" where
  "encoder4_steps t1 t2 t3 t4 s = sum_list (map Suc (drop (e4_cur_idx s) [t1 (e4_1 s), t2 (e4_2 s), t3 (e4_3 s), t4 (e4_4 s)]))"

definition encoder4_valid where
  "encoder4_valid v1 v2 v3 v4 s \<longleftrightarrow>
     e4_cur_idx s < 4 \<and> list_all (\<lambda>b. b) (drop (e4_cur_idx s) [v1 (e4_1 s), v2 (e4_2 s), v3 (e4_3 s), v4 (e4_4 s)])"

locale encoder_quadruple = a: encoder c1 a1 o1 t1 v1 + b: encoder c2 a2 o2 t2 v2 + c: encoder c3 a3 o3 t3 v3
  + d: encoder c4 a4 o4 t4 v4
  for c1 a1 o1 t1 v1 c2 a2 o2 t2 v2 c3 a3 o3 t3 v3 c4 a4 o4 t4 v4
begin

lemmas quadruple_defs = encoder4_chunk_def encoder4_advance_def inner_arm_def last_arm_def advance_more_ok_def
  advance_done_ok_def encoder4_out_def encoder4_steps_def encoder4_valid_def Let_def

lemma quadruple_encoder:
  "encoder (encoder4_chunk c1 c2 c3 c4) (encoder4_advance a1 a2 a3 a4) (encoder4_out o1 o2 o3 o4)
     (encoder4_steps t1 t2 t3 t4) (encoder4_valid v1 v2 v3 v4)"
proof (rule encoder_intro)
  fix s :: "('a, 'b, 'c, 'd) encoder4"
  assume valid: "encoder4_valid v1 v2 v3 v4 s"
  then have "e4_cur_idx s < 4" by (simp add: encoder4_valid_def)
  then consider "e4_cur_idx s = 0" | "e4_cur_idx s = 1" | "e4_cur_idx s = 2" | "e4_cur_idx s = 3" by linarith
  then show "\<exists>c. encoder4_chunk c1 c2 c3 c4 s = Some c \<and>
      (advance_more_ok (encoder4_out o1 o2 o3 o4) (encoder4_steps t1 t2 t3 t4) (encoder4_valid v1 v2 v3 v4) c s
         (encoder4_advance a1 a2 a3 a4 s)
       \<or> advance_done_ok (encoder4_out o1 o2 o3 o4) c s (encoder4_advance a1 a2 a3 a4 s))"
  proof cases
    case 1
    then have "v1 (e4_1 s)" using valid by (auto simp: encoder4_valid_def)
    then show ?thesis
      by (cases rule: a.encoder_cases) (use 1 valid in \<open>auto simp: quadruple_defs\<close>)
  next
    case 2
    then have "v2 (e4_2 s)" using valid by (auto simp: encoder4_valid_def)
    then show ?thesis
      by (cases rule: b.encoder_cases) (use 2 valid in \<open>auto simp: quadruple_defs\<close>)
  next
    case 3
    then have "v3 (e4_3 s)" using valid by (auto simp: encoder4_valid_def)
    then show ?thesis
      by (cases rule: c.encoder_cases) (use 3 valid in \<open>auto simp: quadruple_defs\<close>)
  next
    case 4
    then have "v4 (e4_4 s)" using valid by (auto simp: encoder4_valid_def)
    then show ?thesis
      by (cases rule: d.encoder_cases) (use 4 valid in \<open>auto simp: quadruple_defs\<close>)
  qed
qed

end

record ('a, 'b, 'c, 'd, 'e, 'f) encoder6 =
  e6_cur_idx :: nat
  e6_1 :: 'a
  e6_2 :: 'b
  e6_3 :: 'c
  e6_4 :: 'd
  e6_5 :: 'e
  e6_6 :: 'f

definition encoder6_new :: "'a \<Rightarrow> 'b \<Rightarrow> 'c \<Rightarrow> 'd \<Rightarrow> 'e \<Rightarrow> 'f \<Rightarrow> ('a, 'b, 'c, 'd, 'e, 'f) encoder6" where
  "encoder6_new a b c d e f =
     \<lparr>e6_cur_idx = 0, e6_1 = a, e6_2 = b, e6_3 = c, e6_4 = d, e6_5 = e, e6_6 = f\<rparr>"

definition encoder6_chunk where
  "encoder6_chunk c1 c2 c3 c4 c5 c6 s =
     (if e6_cur_idx s = 0 then c1 (e6_1 s) else if e6_cur_idx s = 1 then c2 (e6_2 s)
      else if e6_cur_idx s = 2 then c3 (e6_3 s) else if e6_cur_idx s = 3 then c4 (e6_4 s)
      else if e6_cur_idx s = 4 then c5 (e6_5 s) else if e6_cur_idx s = 5 then c6 (e6_6 s)
      else None)"

definition encoder6_advance where
  "encoder6_advance a1 a2 a3 a4 a5 a6 s =
     (let next_idx = (\<lambda>done. e6_cur_idx s + (if done then 1 else 0)) in
      if e6_cur_idx s = 0 then inner_arm (a1 (e6_1 s)) (\<lambda>x d. s\<lparr>e6_1 := x, e6_cur_idx := next_idx d\<rparr>)
      else if e6_cur_idx s = 1 then inner_arm (a2 (e6_2 s)) (\<lambda>x d. s\<lparr>e6_2 := x, e6_cur_idx := next_idx d\<rparr>)
      else if e6_cur_idx s = 2 then inner_arm (a3 (e6_3 s)) (\<lambda>x d. s\<lparr>e6_3 := x, e6_cur_idx := next_idx d\<rparr>)
      else if e6_cur_idx s = 3 then inner_arm (a4 (e6_4 s)) (\<lambda>x d. s\<lparr>e6_4 := x, e6_cur_idx := next_idx d\<rparr>)
      else if e6_cur_idx s = 4 then inner_arm (a5 (e6_5 s)) (\<lambda>x d. s\<lparr>e6_5 := x, e6_cur_idx := next_idx d\<rparr>)
      else if e6_cur_idx s = 5 then last_arm (a6 (e6_6 s)) (\<lambda>x. s\<lparr>e6_6 := x\<rparr>)
      else Some (Finished, s))"

definition encoder6_out where
  "encoder6_out o1 o2 o3 o4 o5 o6 s =
     concat (drop (e6_cur_idx s) [o1 (e6_1 s), o2 (e6_2 s), o3 (e6_3 s), o4 (e6_4 s), o5 (e6_5 s), o6 (e6_6 s)])"

definition encoder6_steps ::
  "('a \<Rightarrow> nat) \<Rightarrow> ('b \<Rightarrow> nat) \<Rightarrow> ('c \<Rightarrow> nat) \<Rightarrow> ('d \<Rightarrow> nat) \<Rightarrow> ('e \<Rightarrow> nat) \<Rightarrow> ('f \<Rightarrow> nat)
     \<Rightarrow> ('a, 'b, 'c, 'd, 'e, 'f) encoder6 \<Rightarrow> nat" where
  "encoder6_steps t1 t2 t3 t4 t5 t6 s =
     sum_list (map Suc (drop (e6_cur_idx s)
       [t1 (e6_1 s), t2 (e6_2 s), t3 (e6_3 s), t4 (e6_4 s), t5 (e6_5 s), t6 (e6_6 s)]))"

definition encoder6_valid where
  "encoder6_valid v1 v2 v3 v4 v5 v6 s \<longleftrightarrow>
     e6_cur_idx s < 6 \<and> list_all (\<lambda>b. b) (drop (e6_cur_idx s)
       [v1 (e6_1 s), v2 (e6_2 s), v3 (e6_3 s), v4 (e6_4 s), v5 (e6_5 s), v6 (e6_6 s)])"

locale encoder_sextuple = a: encoder c1 a1 o1 t1 v1 + b: encoder c2 a2 o2 t2 v2 + c: encoder c3 a3 o3 t3 v3
  + d: encoder c4 a4 o4 t4 v4 + e: encoder c5 a5 o5 t5 v5 + f: encoder c6 a6 o6 t6 v6
  for c1 a1 o1 t1 v1 c2 a2 o2 t2 v2 c3 a3 o3 t3 v3 c4 a4 o4 t4 v4 c5 a5 o5 t5 v5 c6 a6 o6 t6 v6
begin

lemmas sextuple_defs = encoder6_chunk_def encoder6_advance_def inner_arm_def last_arm_def advance_more_ok_def
  advance_done_ok_def encoder6_out_def encoder6_steps_def encoder6_valid_def Let_def

lemma sextuple_encoder:
  "encoder (encoder6_chunk c1 c2 c3 c4 c5 c6) (encoder6_advance a1 a2 a3 a4 a5 a6)
     (encoder6_out o1 o2 o3 o4 o5 o6) (encoder6_steps t1 t2 t3 t4 t5 t6) (encoder6_valid v1 v2 v3 v4 v5 v6)"
proof (rule encoder_intro)
  fix s :: "('a, 'b, 'c, 'd, 'e, 'f) encoder6"
  assume valid: "encoder6_valid v1 v2 v3 v4 v5 v6 s"
  then have "e6_cur_idx s < 6" by (simp add: encoder6_valid_def)
  then consider "e6_cur_idx s = 0" | "e6_cur_idx s = 1" | "e6_cur_idx s = 2" | "e6_cur_idx s = 3"
    | "e6_cur_idx s = 4" | "e6_cur_idx s = 5" by linarith
  then show "\<exists>c. encoder6_chunk c1 c2 c3 c4 c5 c6 s = Some c \<and>
      (advance_more_ok (encoder6_out o1 o2 o3 o4 o5 o6) (encoder6_steps t1 t2 t3 t4 t5 t6)
         (encoder6_valid v1 v2 v3 v4 v5 v6) c s (encoder6_advance a1 a2 a3 a4 a5 a6 s)
       \<or> advance_done_ok (encoder6_out o1 o2 o3 o4 o5 o6) c s (encoder6_advance a1 a2 a3 a4 a5 a6 s))"
  proof cases
    case 1
    then have "v1 (e6_1 s)" using valid by (auto simp: encoder6_valid_def)
    then show ?thesis by (cases rule: a.encoder_cases) (use 1 valid in \<open>auto simp: sextuple_defs\<close>)
  next
    case 2
    then have "v2 (e6_2 s)" using valid by (auto simp: encoder6_valid_def)
    then show ?thesis by (cases rule: b.encoder_cases) (use 2 valid in \<open>auto simp: sextuple_defs\<close>)
  next
    case 3
    then have "v3 (e6_3 s)" using valid by (auto simp: encoder6_valid_def)
    then show ?thesis by (cases rule: c.encoder_cases) (use 3 valid in \<open>auto simp: sextuple_defs\<close>)
  next
    case 4
    then have "v4 (e6_4 s)" using valid by (auto simp: encoder6_valid_def)
    then show ?thesis by (cases rule: d.encoder_cases) (use 4 valid in \<open>auto simp: sextuple_defs\<close>)
  next
    case 5
    then have "v5 (e6_5 s)" using valid by (auto simp: encoder6_valid_def)
    then show ?thesis by (cases rule: e.encoder_cases) (use 5 valid in \<open>auto simp: sextuple_defs\<close>)
  next
    case 6
    then have "v6 (e6_6 s)" using valid by (auto simp: encoder6_valid_def)
    then show ?thesis by (cases rule: f.encoder_cases) (use 6 valid in \<open>auto simp: sextuple_defs\<close>)
  qed
qed

end

subsection \<open>Length-prefixed bytes and slices\<close>

type_synonym prefixed_bytes_encoder = "(compact_size_encoder, bytes_encoder) encoder2"

definition prefixed_bytes_encoder_new :: "bytes \<Rightarrow> prefixed_bytes_encoder" where
  "prefixed_bytes_encoder_new sl = encoder2_new (compact_size_encoder_new (length sl)) \<lparr>be_sl = sl\<rparr>"

definition prefixed_bytes_encoder_chunk :: "prefixed_bytes_encoder \<Rightarrow> bytes option" where
  "prefixed_bytes_encoder_chunk = encoder2_chunk compact_size_encoder_chunk bytes_encoder_chunk"

definition prefixed_bytes_encoder_advance ::
  "prefixed_bytes_encoder \<Rightarrow> (estatus \<times> prefixed_bytes_encoder) option" where
  "prefixed_bytes_encoder_advance = encoder2_advance compact_size_encoder_advance bytes_encoder_advance"

definition prefixed_bytes_encoder_len :: "prefixed_bytes_encoder \<Rightarrow> nat" where
  "prefixed_bytes_encoder_len = encoder2_len compact_size_encoder_len bytes_encoder_len"

definition prefixed_bytes_out :: "prefixed_bytes_encoder \<Rightarrow> bytes" where
  "prefixed_bytes_out = encoder2_out ce_buf be_sl"

definition prefixed_bytes_valid :: "prefixed_bytes_encoder \<Rightarrow> bool" where
  "prefixed_bytes_valid = encoder2_valid (\<lambda>_. True) (\<lambda>_. True)"

definition prefixed_bytes_steps :: "prefixed_bytes_encoder \<Rightarrow> nat" where
  "prefixed_bytes_steps = encoder2_steps (\<lambda>_. 0) (\<lambda>_. 0)"

interpretation pb_pair: encoder_pair compact_size_encoder_chunk compact_size_encoder_advance ce_buf
  "\<lambda>_. 0" "\<lambda>_. True" bytes_encoder_chunk bytes_encoder_advance be_sl "\<lambda>_. 0" "\<lambda>_. True"
  by unfold_locales

interpretation pb: encoder prefixed_bytes_encoder_chunk prefixed_bytes_encoder_advance prefixed_bytes_out
  prefixed_bytes_steps prefixed_bytes_valid
  unfolding prefixed_bytes_encoder_chunk_def prefixed_bytes_encoder_advance_def prefixed_bytes_out_def
    prefixed_bytes_steps_def prefixed_bytes_valid_def
  by (rule pb_pair.pair_encoder)

lemma prefixed_bytes_new [simp]:
  "prefixed_bytes_valid (prefixed_bytes_encoder_new sl)"
  "prefixed_bytes_out (prefixed_bytes_encoder_new sl) = compact_size_new (length sl) @ sl"
  by (simp_all add: prefixed_bytes_valid_def prefixed_bytes_encoder_new_def encoder2_valid_def encoder2_new_def
        prefixed_bytes_out_def encoder2_out_def compact_size_encoder_new_def compact_size_new_def)

text \<open>A vector is encoded as its length and its items.\<close>

type_synonym ('a, 's) prefixed_slice_encoder = "(compact_size_encoder, ('a, 's) slice_encoder) encoder2"

definition prefixed_slice_encoder_new :: "('a \<Rightarrow> 's) \<Rightarrow> 'a list \<Rightarrow> ('a, 's) prefixed_slice_encoder" where
  "prefixed_slice_encoder_new new_enc sl =
     encoder2_new (compact_size_encoder_new (length sl)) (slice_encoder_new new_enc sl)"

definition prefixed_slice_encoder_chunk ::
  "('s \<Rightarrow> bytes option) \<Rightarrow> ('a, 's) prefixed_slice_encoder \<Rightarrow> bytes option" where
  "prefixed_slice_encoder_chunk chunk = encoder2_chunk compact_size_encoder_chunk (slice_encoder_chunk chunk)"

definition prefixed_slice_encoder_advance where
  "prefixed_slice_encoder_advance chunk advance new_enc =
     encoder2_advance compact_size_encoder_advance (slice_encoder_advance chunk advance new_enc)"

definition prefixed_slice_out where
  "prefixed_slice_out out new_enc = encoder2_out ce_buf (slice_encoder_out out new_enc)"

definition prefixed_slice_steps where
  "prefixed_slice_steps steps new_enc = encoder2_steps (\<lambda>_. 0) (slice_encoder_steps steps new_enc)"

definition prefixed_slice_valid where
  "prefixed_slice_valid valid new_enc ok = encoder2_valid (\<lambda>_. True) (slice_encoder_valid valid new_enc ok)"

context item_encoder
begin

lemma prefixed_slice_encoder:
  "encoder (prefixed_slice_encoder_chunk chunk) (prefixed_slice_encoder_advance chunk advance new_enc)
     (prefixed_slice_out out new_enc) (prefixed_slice_steps steps new_enc) (prefixed_slice_valid valid new_enc ok)"
proof -
  have "encoder_pair compact_size_encoder_chunk compact_size_encoder_advance ce_buf (\<lambda>_. 0) (\<lambda>_. True)
      (slice_encoder_chunk chunk) (slice_encoder_advance chunk advance new_enc) sl_out sl_steps sl_valid"
    by (intro encoder_pair.intro ce.encoder_axioms slice_encoder)
  then show ?thesis
    unfolding prefixed_slice_encoder_chunk_def prefixed_slice_encoder_advance_def prefixed_slice_out_def
      prefixed_slice_steps_def prefixed_slice_valid_def
    by (rule encoder_pair.pair_encoder)
qed

lemma slice_new_out: "sl_out (slice_encoder_new new_enc sl) = concat (map (\<lambda>x. out (new_enc x)) sl)"
  by (cases sl) (simp_all add: slice_encoder_out_def slice_encoder_new_def)

lemma slice_new_valid: "\<forall>x \<in> set sl. ok x \<Longrightarrow> sl_valid (slice_encoder_new new_enc sl)"
  using new_valid by (cases sl) (simp_all add: slice_encoder_valid_def slice_encoder_new_def)

lemma prefixed_slice_new_out:
  "prefixed_slice_out out new_enc (prefixed_slice_encoder_new new_enc sl) =
     compact_size_new (length sl) @ concat (map (\<lambda>x. out (new_enc x)) sl)"
  by (simp add: prefixed_slice_out_def prefixed_slice_encoder_new_def encoder2_out_def encoder2_new_def
        compact_size_encoder_new_def compact_size_new_def slice_new_out)

lemma prefixed_slice_new_valid:
  "\<forall>x \<in> set sl. ok x \<Longrightarrow> prefixed_slice_valid valid new_enc ok (prefixed_slice_encoder_new new_enc sl)"
  by (simp add: prefixed_slice_valid_def prefixed_slice_encoder_new_def encoder2_valid_def encoder2_new_def
        slice_new_valid)

end

subsection \<open>Encoding byte strings, and the exact size\<close>

text \<open>
  Draining the encoder of a byte string and decoding the bytes gives the string
  back, for every string within the decoder's limit; one outside the limit is refused.
\<close>

theorem prefixed_bytes_roundtrip:
  "\<exists>bs. drain_to_vec prefixed_bytes_encoder_chunk prefixed_bytes_encoder_advance
        (prefixed_bytes_encoder_new sl) = Ok bs
    \<and> (decode_from_slice byte_vec_decoder_push byte_vec_decoder_end
          (byte_vec_decoder_new_with_limit limit) bs = Ok v
       \<longleftrightarrow> v = sl \<and> length sl \<le> limit \<and> length sl < 2 ^ 64)"
proof -
  have "v = sl \<and> length sl \<le> limit \<and> length sl < 2 ^ 64 \<longleftrightarrow>
      length v \<le> limit \<and> length v < 2 ^ 64 \<and> compact_size_new (length sl) @ sl = compact_size_new (length v) @ v"
    by (auto simp: compact_size_new_def dest: compact_size_encode_inj)
  then show ?thesis
    by (simp add: pb.drain_to_vec_out bvd.decode_from_slice_iff byte_vec_new_run_iff)
qed

text \<open>
  The byte iterator over any encoder of length-prefixed bytes skips and yields
  exactly the bytes of the encoding, across the border between the chunks: \<open>nth(n)\<close> returns byte
  \<open>n\<close> and leaves the bytes after it.
\<close>

theorem prefixed_bytes_iter_nth:
  assumes "length sl < 2 ^ 64"
  shows "\<exists>it. iter_nth prefixed_bytes_encoder_chunk prefixed_bytes_encoder_advance
        (byte_iter_new (prefixed_bytes_encoder_new sl)) n
      = Some (Ok (get (compact_size_new (length sl) @ sl) n, it))
    \<and> (n < length (compact_size_new (length sl) @ sl) \<longrightarrow>
         iter_rest prefixed_bytes_out it = drop (n + 1) (compact_size_new (length sl) @ sl))"
proof -
  let ?it = "byte_iter_new (prefixed_bytes_encoder_new sl)"
  have ok: "iter_ok prefixed_bytes_encoder_chunk prefixed_bytes_valid ?it"
    by (simp add: iter_ok_def byte_iter_new_def)
  have "length (compact_size_encode w) < 2 ^ 64" for w
    by (simp add: length_compact_size_encode encoded_size_def)
  then have "length (the (prefixed_bytes_encoder_chunk (bi_enc ?it))) < 2 ^ 64"
    by (simp add: prefixed_bytes_encoder_chunk_def prefixed_bytes_encoder_new_def encoder2_chunk_def
          encoder2_new_def byte_iter_new_def compact_size_encoder_chunk_def compact_size_encoder_new_def)
  from pb.iter_nth_yields [OF ok this, of n] show ?thesis
    by (auto simp: iter_yields_def iter_rest_def byte_iter_new_def)
qed

theorem prefixed_bytes_iter_nth_witness:
  "\<exists>it. iter_nth prefixed_bytes_encoder_chunk prefixed_bytes_encoder_advance
        (byte_iter_new (prefixed_bytes_encoder_new [7, 8, 9])) 2
      = Some (Ok (Some 8, it)) \<and> iter_rest prefixed_bytes_out it = [9]"
proof -
  have "compact_size_new (length [7, 8, 9 :: 8 word]) @ [7, 8, 9] = [3, 7, 8, 9]"
    by (simp add: compact_size_new_def compact_size_encode_def)
  then show ?thesis using prefixed_bytes_iter_nth [of "[7, 8, 9]" 2] by (auto simp: get_def)
qed

text \<open>
  The exact size is the number of bytes to come in a new encoder. It is not once the
  first part has been left behind: the size still counts the prefix, which has been yielded.
\<close>

theorem prefixed_bytes_len:
  "prefixed_bytes_encoder_len (prefixed_bytes_encoder_new sl)
     = length (prefixed_bytes_out (prefixed_bytes_encoder_new sl))
   \<and> (\<exists>s. prefixed_bytes_encoder_advance (prefixed_bytes_encoder_new sl) = Some (HasMore, s)
        \<and> length (prefixed_bytes_out s) < prefixed_bytes_encoder_len s)"
  by (simp add: prefixed_bytes_encoder_len_def prefixed_bytes_encoder_new_def encoder2_len_def encoder2_new_def
        prefixed_bytes_out_def encoder2_out_def compact_size_encoder_len_def bytes_encoder_len_def
        prefixed_bytes_encoder_advance_def encoder2_advance_def inner_arm_def compact_size_encoder_advance_def
        compact_size_encoder_new_def Let_def)

end
