(* ===== verification/Witness.thy ===== *)
theory Witness
  imports Encoders
begin

section \<open>Witnesses\<close>

text \<open>
  \<open>primitives/src/witness.rs\<close>: a list of byte strings kept in one buffer. The content area holds
  each element with its compact-size length, the index area after it the four-byte offset of
  each element. The abstract view is the list of elements, and \<open>witness_of\<close> lays such a list out;
  the operations that build a witness are shown to produce this layout, and the operations that
  read one to read the list. Offsets are written in the byte order of the target
  (\<open>to_ne_bytes\<close>), here little-endian; they never leave the process.
\<close>

subsection \<open>The representation\<close>

definition MAX_WITNESS_STACK_ITEMS :: nat where "MAX_WITNESS_STACK_ITEMS = 4000000"

definition MAX_WITNESS_ITEM_SIZE :: nat where "MAX_WITNESS_ITEM_SIZE = 4000000"

record witness =
  w_content :: bytes
  w_elements :: nat
  w_indices_start :: nat

definition witness_new :: witness where
  "witness_new = \<lparr>w_content = [], w_elements = 0, w_indices_start = 0\<rparr>"

definition witness_is_empty :: "witness \<Rightarrow> bool" where
  "witness_is_empty w \<longleftrightarrow> w_elements w = 0"

definition witness_len :: "witness \<Rightarrow> nat" where
  "witness_len w = w_elements w"

definition witness_clear :: "witness \<Rightarrow> witness" where
  "witness_clear w = w\<lparr>w_content := [], w_elements := 0, w_indices_start := 0\<rparr>"

text \<open>\<open>None\<close> is a panic: an offset that does not fit in 32 bits, or a range out of bounds.\<close>

definition encode_cursor :: "bytes \<Rightarrow> nat \<Rightarrow> nat \<Rightarrow> nat \<Rightarrow> bytes option" where
  "encode_cursor bs start_of_indices index value =
     (if value < 2 ^ 32 then
        copy_range (start_of_indices + index * 4) (to_le_bytes (word_of_nat value :: u32)) bs
      else None)"

definition decode_cursor :: "bytes \<Rightarrow> nat \<Rightarrow> nat \<Rightarrow> nat option" where
  "decode_cursor bs start_of_indices index =
     (let start = start_of_indices + index * 4 in
      if start + 4 \<le> length bs then Some (unat (from_le_bytes (take 4 (drop start bs)) :: u32))
      else None)"

text \<open>The assertions, those of debug builds included, are panics (\<open>None\<close>).\<close>

definition decode_unchecked :: "bytes \<Rightarrow> (u64 \<times> bytes) option" where
  "decode_unchecked bs =
     (if bs = [] then None
      else if hd bs = 0xFF then
        (if length bs < 9 then None
         else let v = from_le_bytes (take 8 (drop 1 bs)) :: u64 in
           if 0xFFFFFFFF < v then Some (v, drop 9 bs) else None)
      else if hd bs = 0xFE then
        (if length bs < 5 then None
         else let v = from_le_bytes (take 4 (drop 1 bs)) :: u32 in
           if 0xFFFF < v then Some (ucast v, drop 5 bs) else None)
      else if hd bs = 0xFD then
        (if length bs < 3 then None
         else let v = from_le_bytes (take 2 (drop 1 bs)) :: u16 in
           if 0xFD \<le> v then Some (ucast v, drop 3 bs) else None)
      else Some (ucast (hd bs), drop 1 bs))"

definition cast_to_usize_if_valid :: "u64 \<Rightarrow> nat option" where
  "cast_to_usize_if_valid n = (if 4000000 < n then None else Some (unat n))"

subsection \<open>Building and reading\<close>

fun from_slice_loop :: "nat \<Rightarrow> nat \<Rightarrow> nat \<Rightarrow> bytes \<Rightarrow> bytes list \<Rightarrow> bytes option" where
  "from_slice_loop content_size i cursor content [] = Some content"
| "from_slice_loop content_size i cursor content (elem # elems) =
     Option.bind (encode_cursor content content_size i cursor) (\<lambda>content.
     let encoded = compact_size_new (length elem) in
     Option.bind (copy_range cursor encoded content) (\<lambda>content.
     let cursor = cursor + length encoded in
     Option.bind (copy_range cursor elem content) (\<lambda>content.
       from_slice_loop content_size (i + 1) (cursor + length elem) content elems)))"

definition witness_from_slice :: "bytes list \<Rightarrow> (unit, witness) res" where
  "witness_from_slice elems =
     (let witness_elements = length elems;
          index_size = witness_elements * 4;
          content_size = sum_list (map (\<lambda>elem. length elem + encoded_size (length elem)) elems)
      in case from_slice_loop content_size 0 0 (replicate (content_size + index_size) 0) elems of
           None \<Rightarrow> Panic
         | Some content \<Rightarrow>
             Ok \<lparr>w_content = content, w_elements = witness_elements, w_indices_start = content_size\<rparr>)"

definition rotate_right :: "nat \<Rightarrow> 'a list \<Rightarrow> 'a list" where
  "rotate_right k xs = drop (length xs - k) xs @ take (length xs - k) xs"

definition witness_push_slice :: "witness \<Rightarrow> bytes \<Rightarrow> (unit, witness) res" where
  "witness_push_slice w new_element =
     (let elements = w_elements w + 1;
          previous_content_end = w_indices_start w;
          encoded = compact_size_new (length new_element);
          new_item_total_len = length encoded + length new_element;
          content = w_content w @ replicate (new_item_total_len + 4) 0;
          content = take previous_content_end content
            @ rotate_right new_item_total_len (drop previous_content_end content);
          indices_start = w_indices_start w + new_item_total_len;
          end_compact_size = previous_content_end + length encoded
      in case Option.bind (encode_cursor content indices_start (elements - 1) previous_content_end) (\<lambda>content.
              Option.bind (copy_range previous_content_end encoded content) (\<lambda>content.
                copy_range end_compact_size new_element content)) of
           None \<Rightarrow> Panic
         | Some content \<Rightarrow>
             Ok \<lparr>w_content = content, w_elements = elements, w_indices_start = indices_start\<rparr>)"

text \<open>The element at an offset of the content: what \<open>get\<close> and the iterator do.\<close>

definition element_at :: "bytes \<Rightarrow> nat \<Rightarrow> (unit, bytes option) res" where
  "element_at content pos =
     (if length content < pos then Panic
      else case decode_unchecked (drop pos content) of
        None \<Rightarrow> Panic
      | Some (element_len, bs) \<Rightarrow>
          (case cast_to_usize_if_valid element_len of
             None \<Rightarrow> Ok None
           | Some end \<Rightarrow> if length bs < end then Panic else Ok (Some (take end bs))))"

definition witness_get :: "witness \<Rightarrow> nat \<Rightarrow> (unit, bytes option) res" where
  "witness_get w index =
     (case decode_cursor (w_content w) (w_indices_start w) index of
        None \<Rightarrow> Ok None
      | Some pos \<Rightarrow> element_at (w_content w) pos)"

definition witness_get_back :: "witness \<Rightarrow> nat \<Rightarrow> (unit, bytes option) res" where
  "witness_get_back w index =
     (if w_elements w \<le> index then Ok None else witness_get w (w_elements w - 1 - index))"

definition witness_last :: "witness \<Rightarrow> (unit, bytes option) res" where
  "witness_last w = witness_get_back w 0"

record witness_iter =
  wi_inner :: bytes
  wi_indices_start :: nat
  wi_current_index :: nat

definition witness_iter :: "witness \<Rightarrow> witness_iter" where
  "witness_iter w = \<lparr>wi_inner = w_content w, wi_indices_start = w_indices_start w, wi_current_index = 0\<rparr>"

definition witness_iter_next :: "witness_iter \<Rightarrow> (unit, bytes option \<times> witness_iter) res" where
  "witness_iter_next it =
     (case decode_cursor (wi_inner it) (wi_indices_start it) (wi_current_index it) of
        None \<Rightarrow> Ok (None, it)
      | Some index \<Rightarrow>
          res_bind (element_at (wi_inner it) index) (\<lambda>x. case x of
              None \<Rightarrow> Ok (None, it)
            | Some e \<Rightarrow> Ok (Some e, it\<lparr>wi_current_index := wi_current_index it + 1\<rparr>)))"

text \<open>\<open>iter().collect()\<close>\<close>

partial_function (option) witness_collect :: "witness_iter \<Rightarrow> bytes list \<Rightarrow> (unit, bytes list) res option" where
  "witness_collect it acc =
     (case witness_iter_next it of
        Ok (None, it') \<Rightarrow> Some (Ok acc)
      | Ok (Some e, it') \<Rightarrow> witness_collect it' (acc @ [e])
      | Err e \<Rightarrow> Some (Err e)
      | Panic \<Rightarrow> Some Panic
      | Diverge \<Rightarrow> Some Diverge)"

definition witness_to_vec :: "witness \<Rightarrow> (unit, bytes list) res" where
  "witness_to_vec w = (case witness_collect (witness_iter w) [] of None \<Rightarrow> Diverge | Some r \<Rightarrow> r)"

definition witness_size :: "witness \<Rightarrow> (unit, nat) res" where
  "witness_size w =
     res_bind (witness_to_vec w) (\<lambda>elems.
       Ok (encoded_size (w_elements w)
           + sum_list (map (\<lambda>e. encoded_size (length e) + length e) elems)))"

subsection \<open>The abstract view\<close>

definition elem_bytes :: "bytes \<Rightarrow> bytes" where
  "elem_bytes e = compact_size_new (length e) @ e"

definition body :: "bytes list \<Rightarrow> bytes" where
  "body es = concat (map elem_bytes es)"

fun offsets :: "nat \<Rightarrow> bytes list \<Rightarrow> bytes list" where
  "offsets base [] = []"
| "offsets base (e # es) = to_le_bytes (word_of_nat base :: u32) # offsets (base + length (elem_bytes e)) es"

fun offsets_fit :: "nat \<Rightarrow> bytes list \<Rightarrow> bool" where
  "offsets_fit base [] = True"
| "offsets_fit base (e # es) = (base < 2 ^ 32 \<and> offsets_fit (base + length (elem_bytes e)) es)"

definition witness_of :: "bytes list \<Rightarrow> witness" where
  "witness_of es =
     \<lparr>w_content = body es @ concat (offsets 0 es), w_elements = length es, w_indices_start = length (body es)\<rparr>"

text \<open>The lengths of slices are \<open>usize\<close> values.\<close>

definition slices :: "bytes list \<Rightarrow> bool" where
  "slices es \<longleftrightarrow> list_all (\<lambda>e. length e < 2 ^ 64) es"

lemma length_compact_size_new:
  "n < 2 ^ 64 \<Longrightarrow> length (compact_size_new n) = encoded_size n"
  by (simp add: compact_size_new_def length_compact_size_encode unat_of_nat)

lemma body_simps [simp]: "body [] = []" "body (e # es) = elem_bytes e @ body es" "body (es @ fs) = body es @ body fs"
  by (simp_all add: body_def)

lemma length_offsets [simp]: "length (offsets base es) = length es"
  by (induction es arbitrary: base) auto

lemma offsets_length: "x \<in> set (offsets base es) \<Longrightarrow> length x = 4"
  by (induction es arbitrary: base) auto

lemma length_concat_offsets [simp]: "length (concat (offsets base es)) = length es * 4"
  using length_concat_blocks [of "offsets base es" 4] offsets_length by simp

lemma offsets_append: "offsets base (es @ fs) = offsets base es @ offsets (base + length (body es)) fs"
  by (induction es arbitrary: base) (auto simp: add.assoc)

lemma offsets_fit_append:
  "offsets_fit base (es @ fs) \<longleftrightarrow> offsets_fit base es \<and> offsets_fit (base + length (body es)) fs"
  by (induction es arbitrary: base) (auto simp: add.assoc)

lemma offsets_nth: "i < length es \<Longrightarrow> offsets base es ! i = to_le_bytes (word_of_nat (base + length (body (take i es))) :: u32)"
proof (induction es arbitrary: base i)
  case (Cons e es)
  then show ?case by (cases i) (auto simp: add.assoc)
qed simp

lemma offsets_fit_nth: "offsets_fit base es \<Longrightarrow> i < length es \<Longrightarrow> base + length (body (take i es)) < 2 ^ 32"
proof (induction es arbitrary: base i)
  case (Cons e es)
  then show ?case by (cases i) (auto simp: add.assoc [symmetric])
qed simp

lemma witness_of_Nil: "witness_of [] = witness_new"
  by (simp add: witness_of_def witness_new_def)

lemma length_elem_bytes:
  "length e < 2 ^ 64 \<Longrightarrow> length (elem_bytes e) = length e + encoded_size (length e)"
  by (simp add: elem_bytes_def length_compact_size_new)

lemma content_size_body:
  "slices es \<Longrightarrow> sum_list (map (\<lambda>e. length e + encoded_size (length e)) es) = length (body es)"
  by (induction es) (simp_all add: slices_def length_elem_bytes)

lemma from_slice_loop_body:
  assumes "slices es" and "length offs = i * 4"
  shows "from_slice_loop (length pre + length (body es)) i (length pre)
      (pre @ replicate (length (body es)) 0 @ offs @ replicate (length es * 4) 0) es
    = (if offsets_fit (length pre) es
       then Some (pre @ body es @ offs @ concat (offsets (length pre) es)) else None)"
  using assms
proof (induction es arbitrary: pre i offs)
  case Nil
  then show ?case by simp
next
  case (Cons e es)
  let ?enc = "compact_size_new (length e)" and ?cur = "to_le_bytes (word_of_nat (length pre) :: u32)"
  let ?n = "length (body es)" and ?zs = "replicate (length es * 4) (0::u8)"
  have e: "slices es" using Cons.prems by (simp add: slices_def)
  show ?case
  proof (cases "length pre < 2 ^ 32")
    case False
    then show ?thesis by (simp add: encode_cursor_def)
  next
    case True
    have split: "replicate (length (e # es) * 4) (0::u8) = replicate 4 0 @ ?zs"
      "replicate (length (body (e # es))) (0::u8)
        = replicate (length ?enc) 0 @ replicate (length e) 0 @ replicate ?n 0"
      by (simp_all add: elem_bytes_def flip: replicate_add)
    have "copy_range (length pre + length (body (e # es)) + i * 4) ?cur
        ((pre @ replicate (length (body (e # es))) 0 @ offs) @ replicate 4 0 @ ?zs)
      = Some ((pre @ replicate (length (body (e # es))) 0 @ offs) @ ?cur @ ?zs)"
      by (rule copy_range_middle) (use Cons.prems in simp_all)
    then have 1: "encode_cursor (pre @ replicate (length (body (e # es))) 0 @ offs @ replicate (length (e # es) * 4) 0)
          (length pre + length (body (e # es))) i (length pre)
        = Some (pre @ replicate (length ?enc) 0 @ replicate (length e) 0 @ replicate ?n 0 @ offs @ ?cur @ ?zs)"
      using True unfolding encode_cursor_def split by simp
    have 2: "copy_range (length pre) ?enc
          (pre @ replicate (length ?enc) 0 @ replicate (length e) 0 @ replicate ?n 0 @ offs @ ?cur @ ?zs)
        = Some (pre @ ?enc @ replicate (length e) 0 @ replicate ?n 0 @ offs @ ?cur @ ?zs)"
      by (rule copy_range_middle) simp_all
    have "copy_range (length (pre @ ?enc)) e
          ((pre @ ?enc) @ replicate (length e) 0 @ replicate ?n 0 @ offs @ ?cur @ ?zs)
        = Some ((pre @ ?enc) @ e @ replicate ?n 0 @ offs @ ?cur @ ?zs)"
      by (rule copy_range_middle) simp_all
    then have 3: "copy_range (length pre + length ?enc) e
          (pre @ ?enc @ replicate (length e) 0 @ replicate ?n 0 @ offs @ ?cur @ ?zs)
        = Some (pre @ elem_bytes e @ replicate ?n 0 @ offs @ ?cur @ ?zs)"
      by (simp add: elem_bytes_def)
    have IH: "from_slice_loop (length (pre @ elem_bytes e) + ?n) (i + 1) (length (pre @ elem_bytes e))
        ((pre @ elem_bytes e) @ replicate ?n 0 @ (offs @ ?cur) @ ?zs) es
      = (if offsets_fit (length (pre @ elem_bytes e)) es
         then Some ((pre @ elem_bytes e) @ body es @ (offs @ ?cur) @ concat (offsets (length (pre @ elem_bytes e)) es))
         else None)"
      by (rule Cons.IH) (use e Cons.prems in simp_all)
    have sizes: "length pre + length (body (e # es)) = length (pre @ elem_bytes e) + ?n"
      "length pre + length ?enc + length e = length (pre @ elem_bytes e)"
      by (simp_all add: elem_bytes_def)
    have "from_slice_loop (length pre + length (body (e # es))) i (length pre)
        (pre @ replicate (length (body (e # es))) 0 @ offs @ replicate (length (e # es) * 4) 0) (e # es)
      = from_slice_loop (length (pre @ elem_bytes e) + ?n) (i + 1) (length (pre @ elem_bytes e))
          ((pre @ elem_bytes e) @ replicate ?n 0 @ (offs @ ?cur) @ ?zs) es"
      unfolding from_slice_loop.simps 1 Let_def by (simp only: Option.bind.simps 2 3 sizes append_assoc)
    then show ?thesis using IH True by (simp add: add.assoc)
  qed
qed

lemma witness_from_slice_eq:
  assumes "slices es"
  shows "witness_from_slice es = (if offsets_fit 0 es then Ok (witness_of es) else Panic)"
proof -
  have "replicate (length (body es) + length es * 4) (0::u8)
      = [] @ replicate (length (body es)) 0 @ [] @ replicate (length es * 4) 0"
    by (simp add: replicate_add)
  then have "from_slice_loop (length (body es)) 0 0 (replicate (length (body es) + length es * 4) 0) es
      = (if offsets_fit 0 es then Some (body es @ concat (offsets 0 es)) else None)"
    using from_slice_loop_body [OF assms, of "[]" 0 "[]"] by simp
  then show ?thesis
    by (simp add: witness_from_slice_def Let_def content_size_body [OF assms] witness_of_def)
qed

lemma rotate_right_append: "rotate_right (length ys) (xs @ ys) = ys @ xs"
  by (simp add: rotate_right_def)

lemma witness_push_slice_eq:
  assumes "length e < 2 ^ 64"
  shows "witness_push_slice (witness_of es) e =
    (if length (body es) < 2 ^ 32 then Ok (witness_of (es @ [e])) else Panic)"
proof -
  let ?b = "body es" and ?o = "concat (offsets 0 es)" and ?enc = "compact_size_new (length e)"
  let ?n = "length ?enc + length e" and ?cur = "to_le_bytes (word_of_nat (length ?b) :: u32)"
  have rot: "rotate_right ?n (?o @ replicate (?n + 4) 0) = replicate ?n 0 @ ?o @ replicate 4 (0::u8)"
  proof -
    have "?o @ replicate (?n + 4) (0::u8) = (?o @ replicate 4 0) @ replicate ?n 0"
      by (simp flip: replicate_add add: add.commute)
    then show ?thesis using rotate_right_append [of "replicate ?n (0::u8)" "?o @ replicate 4 0"] by simp
  qed
  have "copy_range (length ?b + ?n + length es * 4) ?cur ((?b @ replicate ?n 0 @ ?o) @ replicate 4 0 @ [])
      = Some ((?b @ replicate ?n 0 @ ?o) @ ?cur @ [])"
    by (rule copy_range_middle) simp_all
  then have 1: "copy_range (length ?b + ?n + length es * 4) ?cur (?b @ replicate ?n 0 @ ?o @ replicate 4 0)
      = Some (?b @ replicate (length ?enc) 0 @ replicate (length e) 0 @ ?o @ ?cur)"
    by (simp add: replicate_add)
  have 2: "copy_range (length ?b) ?enc (?b @ replicate (length ?enc) 0 @ replicate (length e) 0 @ ?o @ ?cur)
      = Some (?b @ ?enc @ replicate (length e) 0 @ ?o @ ?cur)"
    by (rule copy_range_middle) simp_all
  have "copy_range (length (?b @ ?enc)) e ((?b @ ?enc) @ replicate (length e) 0 @ ?o @ ?cur)
      = Some ((?b @ ?enc) @ e @ ?o @ ?cur)"
    by (rule copy_range_middle) simp_all
  then have 3: "copy_range (length ?b + length ?enc) e (?b @ ?enc @ replicate (length e) 0 @ ?o @ ?cur)
      = Some (?b @ ?enc @ e @ ?o @ ?cur)"
    by simp
  have content: "take (length ?b) (w_content (witness_of es) @ replicate (?n + 4) 0)
      @ rotate_right ?n (drop (length ?b) (w_content (witness_of es) @ replicate (?n + 4) 0))
    = ?b @ replicate ?n 0 @ ?o @ replicate 4 0"
    by (simp add: witness_of_def rot)
  show ?thesis
  proof (cases "length ?b < 2 ^ 32")
    case True
    then have "encode_cursor (?b @ replicate ?n 0 @ ?o @ replicate 4 0) (length ?b + ?n) (length es) (length ?b)
        = Some (?b @ replicate (length ?enc) 0 @ replicate (length e) 0 @ ?o @ ?cur)"
      using 1 by (simp add: encode_cursor_def)
    then show ?thesis
      using True content 2 3
      by (simp add: witness_push_slice_def Let_def witness_of_def elem_bytes_def offsets_append)
  next
    case False
    then have "encode_cursor c i j (length ?b) = None" for c i j by (simp add: encode_cursor_def)
    then show ?thesis using False by (simp add: witness_push_slice_def Let_def witness_of_def)
  qed
qed

subsection \<open>Reading gives the elements\<close>

lemma decode_unchecked_encode: "decode_unchecked (compact_size_encode v @ r) = Some (v, r)"
proof -
  consider "v \<le> 0xFC" | "\<not> v \<le> 0xFC" "v \<le> 0xFFFF" | "\<not> v \<le> 0xFC" "\<not> v \<le> 0xFFFF" "v \<le> 0xFFFFFFFF"
    | "\<not> v \<le> 0xFC" "\<not> v \<le> 0xFFFF" "\<not> v \<le> 0xFFFFFFFF" by blast
  then show ?thesis
  proof cases
    case 1
    then have u: "ucast (ucast v :: u8) = v" by (intro ucast_down_up) (simp add: word_le_nat_alt)
    have "unat v \<le> 0xFC" using 1 by (simp add: word_le_nat_alt)
    then have "unat (ucast v :: u8) \<le> 0xFC" by (simp only: unat_ucast_mod) simp
    then have "(ucast v :: u8) \<noteq> c" if "\<not> unat c \<le> 0xFC" for c
      using that by auto
    then show ?thesis using 1 u by (simp add: compact_size_encode_def decode_unchecked_def)
  next
    case 2
    then have "ucast (ucast v :: u16) = v" by (intro ucast_down_up) (simp add: word_le_nat_alt)
    then show ?thesis using 2
      by (simp add: compact_size_encode_def decode_unchecked_def prefix_defs word_less_nat_alt word_le_nat_alt
            unat_ucast_mod)
  next
    case 3
    then have "ucast (ucast v :: u32) = v" by (intro ucast_down_up) (simp add: word_le_nat_alt)
    then show ?thesis using 3
      by (simp add: compact_size_encode_def decode_unchecked_def prefix_defs word_less_nat_alt word_le_nat_alt
            unat_ucast_mod)
  next
    case 4
    then show ?thesis
      by (simp add: compact_size_encode_def decode_unchecked_def prefix_defs word_less_nat_alt word_le_nat_alt)
  qed
qed

lemma decode_unchecked_elem:
  "decode_unchecked (elem_bytes e @ r) = Some (word_of_nat (length e), e @ r)"
  by (simp add: elem_bytes_def compact_size_new_def decode_unchecked_encode)

lemma cast_length:
  "length e < 2 ^ 64 \<Longrightarrow>
     cast_to_usize_if_valid (word_of_nat (length e)) = (if length e \<le> 4000000 then Some (length e) else None)"
  by (simp add: cast_to_usize_if_valid_def word_less_nat_alt unat_of_nat)

lemma element_at_body:
  assumes "content = body (take i es) @ elem_bytes (es ! i) @ rest" and "length (es ! i) < 2 ^ 64"
  shows "element_at content (length (body (take i es))) =
    Ok (if length (es ! i) \<le> 4000000 then Some (es ! i) else None)"
  using assms by (simp add: element_at_def decode_unchecked_elem cast_length)

lemma decode_cursor_offsets:
  assumes "offsets_fit 0 es"
  shows "decode_cursor (body es @ concat (offsets 0 es)) (length (body es)) i =
    (if i < length es then Some (length (body (take i es))) else None)"
proof (cases "i < length es")
  case True
  have "take 4 (drop (i * 4) (concat (offsets 0 es))) = offsets 0 es ! i"
    by (rule nth_block) (use True offsets_length in auto)
  also have "\<dots> = to_le_bytes (word_of_nat (length (body (take i es))) :: u32)"
    using offsets_nth [OF True, of 0] by simp
  finally have "take 4 (drop (length (body es) + i * 4) (body es @ concat (offsets 0 es)))
      = to_le_bytes (word_of_nat (length (body (take i es))) :: u32)" by simp
  moreover have "length (body (take i es)) < 2 ^ 32"
    using offsets_fit_nth [OF assms True] by simp
  ultimately show ?thesis
    using True by (simp add: decode_cursor_def unat_of_nat)
next
  case False
  then show ?thesis by (simp add: decode_cursor_def Let_def)
qed

lemma slices_nth: "slices es \<Longrightarrow> i < length es \<Longrightarrow> length (es ! i) < 2 ^ 64"
  by (simp add: slices_def list_all_length)

lemma body_split: "i < length es \<Longrightarrow> body es = body (take i es) @ elem_bytes (es ! i) @ body (drop (Suc i) es)"
  using id_take_nth_drop [of i es] body_simps(3) [of "take i es" "es ! i # drop (Suc i) es"] by simp

lemma witness_element_at:
  assumes "slices es" and "i < length es"
  shows "element_at (body es @ x) (length (body (take i es))) =
    Ok (if length (es ! i) \<le> 4000000 then Some (es ! i) else None)"
  by (rule element_at_body [where rest = "body (drop (Suc i) es) @ x"])
     (use assms body_split slices_nth in auto)

lemma witness_get_eq:
  assumes "slices es" and "offsets_fit 0 es"
  shows "witness_get (witness_of es) i =
    Ok (if i < length es \<and> length (es ! i) \<le> 4000000 then Some (es ! i) else None)"
  using assms witness_element_at [OF assms(1)]
  by (auto simp: witness_get_def witness_of_def decode_cursor_offsets)

lemma witness_collect_eq:
  assumes "slices es" and "offsets_fit 0 es"
  shows "witness_collect (\<lparr>wi_inner = w_content (witness_of es), wi_indices_start = w_indices_start (witness_of es),
      wi_current_index = i\<rparr>) acc
    = Some (Ok (acc @ takeWhile (\<lambda>e. length e \<le> 4000000) (drop i es)))"
proof (induction "length es - i" arbitrary: i acc)
  case 0
  then have "i \<ge> length es" by simp
  then show ?case
    by (subst witness_collect.simps)
       (simp add: witness_iter_next_def witness_of_def decode_cursor_offsets assms(2))
next
  case (Suc m)
  let ?it = "\<lambda>i. \<lparr>wi_inner = w_content (witness_of es), wi_indices_start = w_indices_start (witness_of es),
      wi_current_index = i\<rparr>"
  have i: "i < length es" using Suc.hyps(2) by linarith
  then have drop: "drop i es = es ! i # drop (i + 1) es" by (simp add: Cons_nth_drop_Suc)
  have nxt: "witness_iter_next (?it i) = (if length (es ! i) \<le> 4000000
      then Ok (Some (es ! i), ?it (i + 1)) else Ok (None, ?it i))"
    using witness_element_at [OF assms(1) i] i
    by (simp add: witness_iter_next_def witness_of_def decode_cursor_offsets assms(2))
  show ?case
  proof (cases "length (es ! i) \<le> 4000000")
    case True
    have "witness_collect (?it i) acc = witness_collect (?it (i + 1)) (acc @ [es ! i])"
      using nxt True by (subst witness_collect.simps) simp
    then show ?thesis using Suc.hyps(1) [of "i + 1" "acc @ [es ! i]"] Suc.hyps(2) True drop by simp
  next
    case False
    then show ?thesis using nxt drop by (subst witness_collect.simps) simp
  qed
qed

lemma witness_to_vec_eq:
  "slices es \<Longrightarrow> offsets_fit 0 es \<Longrightarrow>
     witness_to_vec (witness_of es) = Ok (takeWhile (\<lambda>e. length e \<le> 4000000) es)"
  using witness_collect_eq [of es 0 "[]"] by (simp add: witness_to_vec_def witness_iter_def)

end
