(* ===== verification/Witness_Decoder.thy ===== *)
theory Witness_Decoder
  imports Witness
begin

section \<open>The witness decoder\<close>

text \<open>
  \<open>WitnessDecoder\<close> of \<open>primitives/src/witness.rs\<close>: a count, then for each element a length and
  that many bytes. The content area grows as the bytes arrive, the index area is built by \<open>end\<close>.
  The element-length decoder is replaced with \<open>mem::take\<close>, that is by a decoder with the default
  limit, so that only the first element is held to \<open>MAX_WITNESS_ITEM_SIZE\<close>.
\<close>

datatype witness_error = WitLengthPrefix compact_size_error | WitUnexpectedEof nat

record witness_decoder =
  wd_content :: bytes
  wd_count_decoder :: compact_size_decoder
  wd_elements :: "nat option"
  wd_element_idx :: nat
  wd_length_decoder :: compact_size_decoder
  wd_remaining :: "nat option"

definition witness_decoder_new :: witness_decoder where
  "witness_decoder_new =
     \<lparr>wd_content = [],
      wd_count_decoder = compact_size_decoder_new_with_limit MAX_WITNESS_STACK_ITEMS,
      wd_elements = None, wd_element_idx = 0,
      wd_length_decoder = compact_size_decoder_new_with_limit MAX_WITNESS_ITEM_SIZE,
      wd_remaining = None\<rparr>"

text \<open>The loop over the elements. Reserving memory does not show in the results.\<close>

partial_function (option) witness_loop ::
  "nat \<Rightarrow> witness_decoder \<Rightarrow> bytes
     \<Rightarrow> ((witness_error, dstatus) res \<times> witness_decoder \<times> bytes) option" where
  "witness_loop n d bs =
     (if n \<le> wd_element_idx d then Some (Ok Ready, d, bs)
      else if bs = [] then Some (Ok NeedsMore, d, bs)
      else case wd_remaining d of
        Some bytes_to_read \<Rightarrow>
          let can_copy = min (length bs) bytes_to_read;
              d = d\<lparr>wd_content := wd_content d @ take can_copy bs\<rparr>;
              remaining = bytes_to_read - can_copy;
              d = (if remaining = 0
                   then d\<lparr>wd_element_idx := wd_element_idx d + 1, wd_remaining := None\<rparr>
                   else d\<lparr>wd_remaining := Some remaining\<rparr>)
          in witness_loop n d (drop can_copy bs)
      | None \<Rightarrow>
          (case compact_size_decoder_push (wd_length_decoder d) bs of (st, decoder, r) \<Rightarrow>
             (case st of
                Err e \<Rightarrow> Some (Err (WitLengthPrefix e), d\<lparr>wd_length_decoder := decoder\<rparr>, r)
              | Panic \<Rightarrow> Some (Panic, d, r)
              | Diverge \<Rightarrow> Some (Diverge, d, r)
              | Ok NeedsMore \<Rightarrow> Some (Ok NeedsMore, d\<lparr>wd_length_decoder := decoder\<rparr>, r)
              | Ok Ready \<Rightarrow>
                  let d = d\<lparr>wd_length_decoder := compact_size_decoder_new\<rparr> in
                  (case compact_size_decoder_end decoder of
                     Err e \<Rightarrow> Some (Err (WitLengthPrefix e), d, r)
                   | Panic \<Rightarrow> Some (Panic, d, r)
                   | Diverge \<Rightarrow> Some (Diverge, d, r)
                   | Ok element_length \<Rightarrow>
                       let d = d\<lparr>wd_content := wd_content d @ compact_size_new element_length\<rparr>;
                           d = (if element_length = 0
                                then d\<lparr>wd_element_idx := wd_element_idx d + 1, wd_remaining := None\<rparr>
                                else d\<lparr>wd_remaining := Some element_length\<rparr>)
                       in witness_loop n d r))))"

definition witness_items :: "witness_decoder \<Rightarrow> bytes \<Rightarrow> (witness_error, dstatus) res \<times> witness_decoder \<times> bytes" where
  "witness_items d bs =
     (case wd_elements d of
        None \<Rightarrow> (Panic, d, bs)
      | Some n \<Rightarrow> (case witness_loop n d bs of None \<Rightarrow> (Diverge, d, bs) | Some x \<Rightarrow> x))"

definition witness_decoder_push ::
  "witness_decoder \<Rightarrow> bytes \<Rightarrow> (witness_error, dstatus) res \<times> witness_decoder \<times> bytes" where
  "witness_decoder_push d bs =
     (case wd_elements d of
        Some n \<Rightarrow> witness_items d bs
      | None \<Rightarrow>
          (case compact_size_decoder_push (wd_count_decoder d) bs of (st, decoder, r) \<Rightarrow>
             (case st of
                Err e \<Rightarrow> (Err (WitLengthPrefix e), d\<lparr>wd_count_decoder := decoder\<rparr>, r)
              | Panic \<Rightarrow> (Panic, d, r)
              | Diverge \<Rightarrow> (Diverge, d, r)
              | Ok NeedsMore \<Rightarrow> (Ok NeedsMore, d\<lparr>wd_count_decoder := decoder\<rparr>, r)
              | Ok Ready \<Rightarrow>
                  let d = d\<lparr>wd_count_decoder := compact_size_decoder_new\<rparr> in
                  (case compact_size_decoder_end decoder of
                     Err e \<Rightarrow> (Err (WitLengthPrefix e), d, r)
                   | Panic \<Rightarrow> (Panic, d, r)
                   | Diverge \<Rightarrow> (Diverge, d, r)
                   | Ok witness_elements \<Rightarrow>
                       let d = d\<lparr>wd_elements := Some witness_elements\<rparr> in
                       if witness_elements = 0 then (Ok Ready, d, r) else witness_items d r))))"

text \<open>\<open>end\<close> walks over the content area and appends the offset of each element.\<close>

fun witness_index :: "nat \<Rightarrow> nat \<Rightarrow> nat \<Rightarrow> bytes \<Rightarrow> bytes option" where
  "witness_index indices_start 0 read_pos content = Some content"
| "witness_index indices_start (Suc k) read_pos content =
     (if 2 ^ 32 \<le> read_pos \<or> indices_start < read_pos then None
      else let bs = take (indices_start - read_pos) (drop read_pos content) in
        case decode_unchecked bs of
          None \<Rightarrow> None
        | Some (element_length, rest) \<Rightarrow>
            witness_index indices_start k
              (read_pos + (length bs - length rest) + unat element_length)
              (content @ to_le_bytes (word_of_nat read_pos :: u32)))"

definition witness_close :: "bytes \<Rightarrow> nat \<Rightarrow> (witness_error, witness) res" where
  "witness_close content n =
     (case witness_index (length content) n 0 content of
        None \<Rightarrow> Panic
      | Some c \<Rightarrow> Ok \<lparr>w_content = c, w_elements = n, w_indices_start = length content\<rparr>)"

definition witness_decoder_end :: "witness_decoder \<Rightarrow> (witness_error, witness) res" where
  "witness_decoder_end d =
     (case wd_elements d of
        None \<Rightarrow> Err (WitUnexpectedEof 0)
      | Some n \<Rightarrow>
          if n < wd_element_idx d then Panic
          else let remaining = n - wd_element_idx d in
            if remaining = 0 then witness_close (wd_content d) n else Err (WitUnexpectedEof remaining))"

definition witness_decoder_read_limit :: "witness_decoder \<Rightarrow> nat" where
  "witness_decoder_read_limit d =
     (if wd_elements d = None then compact_size_decoder_read_limit (wd_count_decoder d)
      else case wd_remaining d of
        None \<Rightarrow> compact_size_decoder_read_limit (wd_length_decoder d)
      | Some remaining \<Rightarrow> remaining)"

subsection \<open>The parser\<close>

text \<open>\<open>m\<close> elements, the length of the first of them read by \<open>p\<close>, those of the others by a
  default decoder.\<close>

fun run_elems :: "compact_size_decoder \<Rightarrow> nat \<Rightarrow> bytes \<Rightarrow> (witness_error, bytes list) presult" where
  "run_elems p 0 x = POk [] x"
| "run_elems p (Suc m) x =
     pbind (pmap_err WitLengthPrefix (compact_size_decoder_run p x)) (\<lambda>len y.
     pbind (take_exactly [] len y) (\<lambda>e z.
     pbind (run_elems compact_size_decoder_new m z) (\<lambda>es. POk (e # es))))"

definition witness_rest :: "witness_decoder \<Rightarrow> nat \<Rightarrow> bytes \<Rightarrow> (witness_error, witness) presult" where
  "witness_rest d n x =
     (case wd_remaining d of
        None \<Rightarrow> pbind (run_elems (wd_length_decoder d) (n - wd_element_idx d) x) (\<lambda>es.
          finished (witness_close (wd_content d @ body es) n))
      | Some k \<Rightarrow> pbind (take_exactly [] k x) (\<lambda>e y.
          pbind (run_elems (wd_length_decoder d) (n - wd_element_idx d - 1) y) (\<lambda>es.
          finished (witness_close (wd_content d @ e @ body es) n))))"

definition witness_decoder_run :: "witness_decoder \<Rightarrow> bytes \<Rightarrow> (witness_error, witness) presult" where
  "witness_decoder_run d x =
     (case wd_elements d of
        Some n \<Rightarrow> witness_rest d n x
      | None \<Rightarrow> pbind (pmap_err WitLengthPrefix (compact_size_decoder_run (wd_count_decoder d) x)) (\<lambda>n.
          witness_rest d n))"

definition witness_decoder_inv :: "witness_decoder \<Rightarrow> bool" where
  "witness_decoder_inv d \<longleftrightarrow>
     compact_size_decoder_inv (wd_length_decoder d) \<and>
     (case wd_elements d of
        None \<Rightarrow> compact_size_decoder_inv (wd_count_decoder d) \<and> wd_content d = [] \<and> wd_element_idx d = 0
          \<and> wd_remaining d = None
      | Some n \<Rightarrow> wd_element_idx d < n \<and> (\<forall>k. wd_remaining d = Some k \<longrightarrow>
          0 < k \<and> wd_length_decoder d = compact_size_decoder_new))"

lemma cs_pending: "compact_size_decoder_inv p \<Longrightarrow> compact_size_decoder_run p [] = PMore"
  by (simp add: compact_size_decoder_inv_def compact_size_decoder_run_def compact_size_run_Nil)

lemma take_exactly_split:
  "take_exactly [] k (a @ x) =
     (if length a \<le> k then pbind (take_exactly [] (k - length a) x) (\<lambda>e. POk (a @ e))
      else POk (take k a) (drop k a @ x))"
  by (auto simp: take_exactly_def)

lemma witness_items_defined:
  assumes "push_outcome witness_items witness_decoder_end p q d bs"
  shows "wd_elements d = Some n \<Longrightarrow> \<exists>x. witness_loop n d bs = Some x"
  using assms by (cases "witness_loop n d bs") (auto simp: push_outcome_def witness_items_def)

lemma witness_close_halts: "halts (witness_close content n)"
  by (simp add: witness_close_def split: option.splits)

lemma witness_run_Nil:
  assumes "witness_decoder_inv d"
  shows "witness_decoder_run d [] = PMore"
proof (cases "wd_elements d")
  case None
  then show ?thesis using assms by (simp add: witness_decoder_run_def witness_decoder_inv_def cs_pending)
next
  case (Some n)
  then have lt: "wd_element_idx d < n" and p: "compact_size_decoder_inv (wd_length_decoder d)"
    using assms by (simp_all add: witness_decoder_inv_def)
  then obtain m where m: "n - wd_element_idx d = Suc m" by (metis Suc_diff_Suc)
  have run: "witness_decoder_run d [] = witness_rest d n []" using Some by (simp add: witness_decoder_run_def)
  show ?thesis
  proof (cases "wd_remaining d")
    case None
    then show ?thesis by (simp add: run witness_rest_def m cs_pending [OF p])
  next
    case (Some k)
    then have "0 < k" using assms \<open>wd_elements d = Some n\<close> by (simp add: witness_decoder_inv_def)
    then show ?thesis using Some by (simp add: run witness_rest_def take_exactly_def)
  qed
qed

lemma witness_run_done:
  "wd_elements d = Some n \<Longrightarrow> wd_element_idx d = n \<Longrightarrow> wd_remaining d = None \<Longrightarrow>
     witness_decoder_run d x = finished (witness_decoder_end d) x"
  by (simp add: witness_decoder_run_def witness_rest_def witness_decoder_end_def)

text \<open>Bytes of an element: some of those that remain, or all of them.\<close>

lemma witness_run_data_part:
  assumes "wd_elements d = Some n" and "wd_remaining d = Some k" and "length a < k"
  shows "witness_decoder_run d (a @ x) =
    witness_decoder_run (d\<lparr>wd_content := wd_content d @ a, wd_remaining := Some (k - length a)\<rparr>) x"
  using assms
  by (cases "take_exactly [] (k - length a) x :: (witness_error, bytes) presult")
     (simp_all add: witness_decoder_run_def witness_rest_def take_exactly_split)

lemma witness_run_data_all:
  assumes "wd_elements d = Some n" and "wd_remaining d = Some k" and "length a = k" and "wd_element_idx d < n"
  shows "witness_decoder_run d (a @ x) = witness_decoder_run
    (d\<lparr>wd_content := wd_content d @ a, wd_element_idx := wd_element_idx d + 1, wd_remaining := None\<rparr>) x"
  using assms by (simp add: witness_decoder_run_def witness_rest_def take_exactly_def)

lemma witness_run_length:
  assumes "wd_elements d = Some n" and "wd_remaining d = None" and "wd_element_idx d < n"
    and "\<And>x. compact_size_decoder_run (wd_length_decoder d) (k @ x) = POk len x"
  shows "witness_decoder_run d (k @ x) = witness_decoder_run
    (if len = 0 then d\<lparr>wd_length_decoder := compact_size_decoder_new, wd_content := wd_content d @ compact_size_new len,
        wd_element_idx := wd_element_idx d + 1, wd_remaining := None\<rparr>
     else d\<lparr>wd_length_decoder := compact_size_decoder_new, wd_content := wd_content d @ compact_size_new len,
        wd_remaining := Some len\<rparr>) x"
proof -
  have "n - wd_element_idx d = Suc (n - wd_element_idx d - 1)" using assms(3) by simp
  then have "witness_decoder_run d (k @ x) = pbind (take_exactly [] len x) (\<lambda>e y.
      pbind (run_elems compact_size_decoder_new (n - wd_element_idx d - 1) y) (\<lambda>es.
      finished (witness_close (wd_content d @ elem_bytes e @ body es) n)))"
    using assms
    by (simp add: witness_decoder_run_def witness_rest_def pbind_assoc del: diff_Suc_eq_diff_pred)
  then show ?thesis
    using assms
    by (cases "length x < len") (auto simp: witness_decoder_run_def witness_rest_def take_exactly_def elem_bytes_def)
qed

subsection \<open>The decoder meets the contract\<close>

abbreviation witness_outcome where
  "witness_outcome push \<equiv> push_outcome push witness_decoder_end witness_decoder_run witness_decoder_inv"

text \<open>One round of the loop, after which it goes on with a shorter slice or is done.\<close>

lemma witness_round:
  assumes IH: "\<And>d r'. length r' < length bs \<Longrightarrow> witness_decoder_inv d \<Longrightarrow> wd_elements d = Some n \<Longrightarrow>
      witness_outcome witness_items d r'"
    and d: "wd_elements d = Some n" and loop: "witness_loop n d bs = witness_loop n d' r"
    and k: "bs = k @ r" "k \<noteq> []" and d': "wd_elements d' = Some n"
    and cont: "wd_element_idx d' < n \<and> witness_decoder_inv d' \<or> wd_element_idx d' = n \<and> wd_remaining d' = None"
    and run: "\<And>x. witness_decoder_run d (k @ x) = witness_decoder_run d' x"
  shows "witness_outcome witness_items d bs"
  using cont
proof
  assume "wd_element_idx d' < n \<and> witness_decoder_inv d'"
  then have out: "witness_outcome witness_items d' r" using k d' by (intro IH) auto
  from out show ?thesis
  proof (rule outcome_step)
    show "witness_items d bs = witness_items d' r"
      using witness_items_defined [OF out d'] d d' loop by (auto simp: witness_items_def)
  qed (use k run in auto)
next
  assume "wd_element_idx d' = n \<and> wd_remaining d' = None"
  moreover from this have "witness_items d bs = (Ok Ready, d', r)"
    using d loop by (simp add: witness_items_def witness_loop.simps [of n d'])
  ultimately show ?thesis
    using k run d' witness_close_halts
    by (intro outcome_ready [where s' = d' and r = r and k = k])
       (simp_all add: witness_run_done, simp add: witness_decoder_end_def)
qed

lemma witness_items_outcome:
  "witness_decoder_inv d \<Longrightarrow> wd_elements d = Some n \<Longrightarrow> witness_outcome witness_items d bs"
proof (induction bs arbitrary: d rule: length_induct)
  case (1 bs)
  note IH = "1.IH" [rule_format]
  have idx: "wd_element_idx d < n" and p: "compact_size_decoder_inv (wd_length_decoder d)"
    using "1.prems" by (auto simp: witness_decoder_inv_def)
  show ?case
  proof (cases "bs = []")
    case True
    then show ?thesis
      using "1.prems" idx witness_run_Nil [OF "1.prems"(1)]
      by (intro outcome_more [where s' = d and r = bs and k = "[]"])
         (simp_all add: witness_items_def witness_loop.simps)
  next
    case False
    show ?thesis
    proof (cases "wd_remaining d")
      case (Some k)
      then have "0 < k" and default: "wd_length_decoder d = compact_size_decoder_new"
        using "1.prems" by (auto simp: witness_decoder_inv_def)
      show ?thesis
      proof (cases "length bs < k")
        case True
        show ?thesis
        proof (rule witness_round [OF IH "1.prems"(2)])
          show "witness_loop n d bs = witness_loop n
              (d\<lparr>wd_content := wd_content d @ bs, wd_remaining := Some (k - length bs)\<rparr>) []"
            using idx False Some True by (subst witness_loop.simps) (simp add: Let_def)
        qed (use True Some "1.prems" False default in
              \<open>auto simp: witness_run_data_part witness_decoder_inv_def\<close>)
      next
        case F: False
        show ?thesis
        proof (rule witness_round [OF IH "1.prems"(2), where k = "take k bs"])
          show "witness_loop n d bs = witness_loop n
              (d\<lparr>wd_content := wd_content d @ take k bs, wd_element_idx := wd_element_idx d + 1,
                 wd_remaining := None\<rparr>) (drop k bs)"
            using idx False Some F by (subst witness_loop.simps) (simp add: Let_def min_def)
        qed (use F Some "1.prems" False default \<open>0 < k\<close> idx in
              \<open>auto simp: witness_run_data_all witness_decoder_inv_def\<close>)
      qed
    next
      case None
      have rest: "witness_decoder_run d x = pbind (run_elems (wd_length_decoder d) (n - wd_element_idx d) x)
          (\<lambda>es. finished (witness_close (wd_content d @ body es) n))" for x
        using None "1.prems"(2) by (simp add: witness_decoder_run_def witness_rest_def)
      obtain m where m: "n - wd_element_idx d = Suc m" using idx by (metis Suc_diff_Suc)
      from p show ?thesis
      proof (cases rule: csd.push_cases [of _ bs])
        case (more p' r k)
        have "witness_items d bs = (Ok NeedsMore, d\<lparr>wd_length_decoder := p'\<rparr>, r)"
          using more(1) idx False None "1.prems"(2) by (simp add: witness_items_def witness_loop.simps)
        moreover have inv: "witness_decoder_inv (d\<lparr>wd_length_decoder := p'\<rparr>)"
          using more(2) "1.prems" None by (simp add: witness_decoder_inv_def)
        moreover have "witness_decoder_run d (k @ x) = witness_decoder_run (d\<lparr>wd_length_decoder := p'\<rparr>) x" for x
          using more(5) None "1.prems"(2) m by (simp add: rest) (simp add: witness_decoder_run_def witness_rest_def m)
        ultimately show ?thesis
          using more(3,4) witness_run_Nil [OF inv]
          by (intro outcome_more [where s' = "d\<lparr>wd_length_decoder := p'\<rparr>" and r = r and k = k]) auto
      next
        case (error e p' r)
        then show ?thesis using idx False None "1.prems"(2) m
          by (intro outcome_error [where e = "WitLengthPrefix e" and s' = "d\<lparr>wd_length_decoder := p'\<rparr>" and r = r])
             (simp_all add: witness_items_def witness_loop.simps rest)
      next
        case (panic p' r)
        then show ?thesis using idx False None "1.prems"(2) m
          by (intro outcome_panic [where s' = d and r = r])
             (simp_all add: witness_items_def witness_loop.simps rest)
      next
        case (ready p' r k)
        let ?d = "d\<lparr>wd_length_decoder := compact_size_decoder_new\<rparr>"
        have k: "k \<noteq> []"
          using ready(2) ready(4) [of "[]"] cs_pending [OF p] by (cases "compact_size_decoder_end p'") auto
        show ?thesis
        proof (cases "compact_size_decoder_end p'")
          case (Err e)
          have "witness_decoder_run d (bs @ x) = PErr (WitLengthPrefix e)" for x
            using ready(3) ready(4) [of "r @ x"] Err by (simp add: rest m)
          then show ?thesis using ready Err idx False None "1.prems"(2)
            by (intro outcome_error [where e = "WitLengthPrefix e" and s' = ?d and r = r])
               (simp_all add: witness_items_def witness_loop.simps)
        next
          case Panic
          have "witness_decoder_run d (bs @ x) = PPanic" for x
            using ready(3) ready(4) [of "r @ x"] Panic by (simp add: rest m)
          then show ?thesis using ready Panic idx False None "1.prems"(2)
            by (intro outcome_panic [where s' = ?d and r = r])
               (simp_all add: witness_items_def witness_loop.simps)
        next
          case (Ok len)
          let ?c = "?d\<lparr>wd_content := wd_content d @ compact_size_new len\<rparr>"
          show ?thesis
          proof (rule witness_round [OF IH "1.prems"(2), where k = k])
            show "witness_loop n d bs = witness_loop n
                (if len = 0 then ?c\<lparr>wd_element_idx := wd_element_idx d + 1, wd_remaining := None\<rparr>
                 else ?c\<lparr>wd_remaining := Some len\<rparr>) r"
              using idx False None ready(1) Ok by (subst witness_loop.simps) (simp add: Let_def)
            show "witness_decoder_run d (k @ x) = witness_decoder_run
                (if len = 0 then ?c\<lparr>wd_element_idx := wd_element_idx d + 1, wd_remaining := None\<rparr>
                 else ?c\<lparr>wd_remaining := Some len\<rparr>) x" for x
              using witness_run_length [OF "1.prems"(2) None idx, of k len x] ready(4) Ok
              by (simp split: if_split_asm)
          qed (use ready(3) k idx "1.prems" in \<open>auto simp: witness_decoder_inv_def\<close>)
        qed (use ready in auto)
      qed
    qed
  qed
qed

lemma witness_push_outcome:
  assumes inv: "witness_decoder_inv d"
  shows "witness_outcome witness_decoder_push d bs"
proof (cases "wd_elements d")
  case (Some n)
  from witness_items_outcome [OF inv Some, of bs] show ?thesis
    by (rule outcome_step [where ?k0.0 = "[]"]) (use Some in \<open>simp_all add: witness_decoder_push_def\<close>)
next
  case None
  have p: "compact_size_decoder_inv (wd_count_decoder d)" and new: "wd_content d = []" "wd_element_idx d = 0"
      "wd_remaining d = None" "compact_size_decoder_inv (wd_length_decoder d)"
    using inv None by (auto simp: witness_decoder_inv_def)
  have run: "witness_decoder_run d x =
      pbind (pmap_err WitLengthPrefix (compact_size_decoder_run (wd_count_decoder d) x)) (\<lambda>n. witness_rest d n)"
    for x using None by (simp add: witness_decoder_run_def)
  from p show ?thesis
  proof (cases rule: csd.push_cases [of _ bs])
    case (more p' r k)
    have "witness_decoder_run d (k @ x) = witness_decoder_run (d\<lparr>wd_count_decoder := p'\<rparr>) x" for x
      using more(5) None new(3)
      by (simp add: run) (simp add: witness_decoder_run_def witness_rest_def [abs_def])
    moreover have i: "witness_decoder_inv (d\<lparr>wd_count_decoder := p'\<rparr>)"
      using more(2) new None by (simp add: witness_decoder_inv_def)
    ultimately show ?thesis
      using more None witness_run_Nil [OF i]
      by (intro outcome_more [where s' = "d\<lparr>wd_count_decoder := p'\<rparr>" and r = r and k = k])
         (simp_all add: witness_decoder_push_def)
  next
    case (error e p' r)
    then show ?thesis using None
      by (intro outcome_error [where e = "WitLengthPrefix e" and s' = "d\<lparr>wd_count_decoder := p'\<rparr>" and r = r])
         (simp_all add: witness_decoder_push_def run)
  next
    case (panic p' r)
    then show ?thesis using None
      by (intro outcome_panic [where s' = d and r = r]) (simp_all add: witness_decoder_push_def run)
  next
    case (ready p' r k)
    let ?d = "d\<lparr>wd_count_decoder := compact_size_decoder_new\<rparr>"
    show ?thesis
    proof (cases "compact_size_decoder_end p'")
      case (Err e)
      have "witness_decoder_run d (bs @ x) = PErr (WitLengthPrefix e)" for x
        using ready(3) ready(4) [of "r @ x"] Err by (simp add: run)
      then show ?thesis using ready Err None
        by (intro outcome_error [where e = "WitLengthPrefix e" and s' = ?d and r = r])
           (simp_all add: witness_decoder_push_def)
    next
      case Panic
      have "witness_decoder_run d (bs @ x) = PPanic" for x
        using ready(3) ready(4) [of "r @ x"] Panic by (simp add: run)
      then show ?thesis using ready Panic None
        by (intro outcome_panic [where s' = ?d and r = r]) (simp_all add: witness_decoder_push_def)
    next
      case (Ok n)
      let ?c = "?d\<lparr>wd_elements := Some n\<rparr>"
      have push: "witness_decoder_push d bs = (if n = 0 then (Ok Ready, ?c, r) else witness_items ?c r)"
        using ready(1) Ok None by (simp add: witness_decoder_push_def)
      have run': "witness_decoder_run d (k @ x) = witness_decoder_run ?c x" for x
        using ready(4) Ok new(3) by (simp add: run) (simp add: witness_decoder_run_def witness_rest_def)
      show ?thesis
      proof (cases "n = 0")
        case True
        then show ?thesis using push ready(3) run' new
          by (intro outcome_ready [where s' = ?c and r = r and k = k])
             (simp_all add: witness_run_done, simp add: witness_decoder_end_def witness_close_halts)
      next
        case False
        then have "witness_decoder_inv ?c" using new by (simp add: witness_decoder_inv_def)
        then have "witness_outcome witness_items ?c r" by (rule witness_items_outcome) simp
        then show ?thesis
          by (rule outcome_step) (use push False ready(3) run' in auto)
      qed
    qed (use ready in auto)
  qed
qed

lemma run_elems_limit:
  assumes "compact_size_decoder_inv p" and "run_elems p (Suc m) x = POk es r"
  shows "compact_size_decoder_read_limit p + length r \<le> length x"
proof -
  have rest: "run_elems compact_size_decoder_new m z = POk es' r' \<Longrightarrow> length r' \<le> length z" for z es' r'
  proof (induction m arbitrary: z es' r')
    case (Suc m)
    then obtain len y e y' es'' where "compact_size_decoder_run compact_size_decoder_new z = POk len y"
        "take_exactly [] len y = (POk e y' :: (witness_error, bytes) presult)"
        "run_elems compact_size_decoder_new m y' = POk es'' r'"
      by (auto simp: pbind_POk_iff)
    then show ?case
      using Suc.IH [of y' es'' r'] csd.limit_sound [of compact_size_decoder_new z len y]
      by (auto simp: take_exactly_def split: if_splits)
  qed simp
  obtain len y e z es' where *: "compact_size_decoder_run p x = POk len y"
      "take_exactly [] len y = (POk e z :: (witness_error, bytes) presult)"
      "run_elems compact_size_decoder_new m z = POk es' r"
    using assms(2) by (auto simp: pbind_POk_iff)
  then have "length z \<le> length y" by (auto simp: take_exactly_def split: if_splits)
  then show ?thesis using csd.limit_sound [OF assms(1) *(1)] rest [OF *(3)] by simp
qed

lemma run_elems_default_limit:
  "run_elems compact_size_decoder_new m x = POk es r \<Longrightarrow> length r \<le> length x"
  using run_elems_limit [of compact_size_decoder_new _ x es r] by (cases m) force+

lemma witness_rest_limit:
  assumes "compact_size_decoder_inv (wd_length_decoder d)" and "wd_element_idx d < n"
    and "\<forall>k. wd_remaining d = Some k \<longrightarrow> wd_length_decoder d = compact_size_decoder_new"
    and "witness_rest d n x = POk v r"
  shows "(case wd_remaining d of None \<Rightarrow> compact_size_decoder_read_limit (wd_length_decoder d) | Some k \<Rightarrow> k)
    + length r \<le> length x"
proof (cases "wd_remaining d")
  case None
  obtain m where m: "n - wd_element_idx d = Suc m" using assms(2) by (metis Suc_diff_Suc)
  obtain es where "run_elems (wd_length_decoder d) (Suc m) x = POk es r"
    using assms(4) None by (auto simp: witness_rest_def pbind_POk_iff finished_POk m simp del: run_elems.simps)
  then show ?thesis using run_elems_limit [OF assms(1), of m x es r] None by simp
next
  case (Some k)
  then obtain e y es where *: "take_exactly [] k x = (POk e y :: (witness_error, bytes) presult)"
      "run_elems compact_size_decoder_new (n - wd_element_idx d - 1) y = POk es r"
    using assms by (auto simp: witness_rest_def pbind_POk_iff finished_POk)
  from *(1) have "k \<le> length x" "length y = length x - k" by (auto simp: take_exactly_def split: if_splits)
  then show ?thesis using run_elems_default_limit [OF *(2)] Some by simp
qed

interpretation wd: push_decoder witness_decoder_push witness_decoder_end witness_decoder_read_limit
  witness_decoder_run witness_decoder_inv
proof (rule push_decoder_intro [OF witness_push_outcome])
  fix d x
  assume inv: "witness_decoder_inv d"
  show "\<exists>e. witness_decoder_end d = Err e"
    using inv by (auto simp: witness_decoder_end_def witness_decoder_inv_def split: option.splits)
  show "witness_decoder_run d [] \<noteq> PMore \<Longrightarrow>
      halts (witness_decoder_end d) \<and> witness_decoder_run d x = finished (witness_decoder_end d) x"
    using witness_run_Nil [OF inv] by simp
  show "0 < witness_decoder_read_limit d"
    using inv csd.limit_pos [OF _ cs_pending]
    by (auto simp: witness_decoder_read_limit_def witness_decoder_inv_def split: option.splits)
next
  fix d bs v r
  assume inv: "witness_decoder_inv d" and run: "witness_decoder_run d bs = POk v r"
  show "witness_decoder_read_limit d + length r \<le> length bs"
  proof (cases "wd_elements d")
    case (Some n)
    then show ?thesis
      using witness_rest_limit [of d n bs v r] inv run
      by (auto simp: witness_decoder_read_limit_def witness_decoder_inv_def witness_decoder_run_def)
  next
    case None
    then obtain n y where *: "compact_size_decoder_run (wd_count_decoder d) bs = POk n y"
        "witness_rest d n y = POk v r"
      using run by (auto simp: witness_decoder_run_def pbind_POk_iff)
    have "length r \<le> length y"
    proof (cases n)
      case 0
      then show ?thesis using * inv None
        by (auto simp: witness_rest_def witness_decoder_inv_def finished_POk)
    next
      case (Suc m)
      then show ?thesis using witness_rest_limit [of d n y v r] * inv None
        by (simp add: witness_decoder_inv_def)
    qed
    then show ?thesis
      using csd.limit_sound [OF _ *(1)] inv None
      by (simp add: witness_decoder_inv_def witness_decoder_read_limit_def)
  qed
qed

subsection \<open>What is accepted\<close>

text \<open>The limits that the decoder enforces: the first element is held to the witness item size, the
  others to the default limit of a compact size.\<close>

fun elems_within :: "nat \<Rightarrow> bytes list \<Rightarrow> bool" where
  "elems_within limit [] = True"
| "elems_within limit (e # es) = (length e \<le> limit \<and> elems_within MAX_COMPACT_SIZE es)"

definition witness_within :: "bytes list \<Rightarrow> bool" where
  "witness_within es \<longleftrightarrow> length es \<le> MAX_WITNESS_STACK_ITEMS \<and> elems_within MAX_WITNESS_ITEM_SIZE es"

lemma default_decoder: "compact_size_decoder_new = compact_size_decoder_new_with_limit MAX_COMPACT_SIZE"
  by (simp add: compact_size_decoder_new_def compact_size_decoder_new_with_limit_def)

lemma run_elems_iff:
  assumes "limit < 2 ^ 64"
  shows "run_elems (compact_size_decoder_new_with_limit limit) m x = POk es r \<longleftrightarrow>
    length es = m \<and> elems_within limit es \<and> x = body es @ r"
  using assms
proof (induction m arbitrary: limit x es)
  case 0
  then show ?case by auto
next
  case (Suc m)
  have IH: "run_elems compact_size_decoder_new m y = POk es r \<longleftrightarrow>
      length es = m \<and> elems_within MAX_COMPACT_SIZE es \<and> y = body es @ r" for y es
    unfolding default_decoder by (rule Suc.IH) (simp add: MAX_COMPACT_SIZE_def)
  have "run_elems (compact_size_decoder_new_with_limit limit) (Suc m) x = POk es r \<longleftrightarrow>
      (\<exists>e es'. es = e # es' \<and> length e \<le> limit \<and> length e < 2 ^ 64 \<and> length es' = m \<and>
        elems_within MAX_COMPACT_SIZE es' \<and> x = elem_bytes e @ body es' @ r)"
    by (auto simp: pbind_POk_iff compact_size_decoder_new_run_iff take_exactly_Nil_iff IH elem_bytes_def)
  also have "\<dots> \<longleftrightarrow> length es = Suc m \<and> elems_within limit es \<and> x = body es @ r"
    using Suc.prems by (cases es) auto
  finally show ?case .
qed

lemma elems_within_slices: "limit < 2 ^ 64 \<Longrightarrow> elems_within limit es \<Longrightarrow> slices es"
  by (induction limit es rule: elems_within.induct) (auto simp: slices_def MAX_COMPACT_SIZE_def)

lemma witness_index_body:
  "slices es \<Longrightarrow> witness_index (length pre + length (body es)) (length es) (length pre) (pre @ body es @ offs) =
    (if offsets_fit (length pre) es then Some (pre @ body es @ offs @ concat (offsets (length pre) es)) else None)"
proof (induction es arbitrary: pre offs)
  case Nil
  then show ?case by simp
next
  case (Cons e es)
  have e: "length e < 2 ^ 64" "slices es" using Cons.prems by (simp_all add: slices_def)
  let ?cur = "to_le_bytes (word_of_nat (length pre) :: u32)"
  have IH: "witness_index (length (pre @ elem_bytes e) + length (body es)) (length es) (length (pre @ elem_bytes e))
        ((pre @ elem_bytes e) @ body es @ (offs @ ?cur)) =
      (if offsets_fit (length (pre @ elem_bytes e)) es
       then Some ((pre @ elem_bytes e) @ body es @ (offs @ ?cur) @ concat (offsets (length (pre @ elem_bytes e)) es))
       else None)"
    by (rule Cons.IH) (rule e)
  have len: "length (body (e # es)) - length (e @ body es) + length e = length (elem_bytes e)"
    by (simp add: elem_bytes_def)
  have "witness_index (length pre + length (body (e # es))) (length (e # es)) (length pre) (pre @ body (e # es) @ offs)
    = (if 2 ^ 32 \<le> length pre then None else
        witness_index (length (pre @ elem_bytes e) + length (body es)) (length es) (length (pre @ elem_bytes e))
          ((pre @ elem_bytes e) @ body es @ (offs @ ?cur)))"
    using e(1) len by (simp add: decode_unchecked_elem unat_of_nat add.assoc)
  then show ?case using IH by (simp add: add.assoc)
qed

lemma witness_close_body:
  "slices es \<Longrightarrow> witness_close (body es) (length es) = (if offsets_fit 0 es then Ok (witness_of es) else Panic)"
  using witness_index_body [of es "[]" "[]"] by (simp add: witness_close_def witness_of_def)

lemma witness_decoder_new_inv [simp]: "witness_decoder_inv witness_decoder_new"
  by (simp add: witness_decoder_inv_def witness_decoder_new_def)

lemma witness_run_new:
  "witness_decoder_run witness_decoder_new x =
     pbind (pmap_err WitLengthPrefix
       (compact_size_decoder_run (compact_size_decoder_new_with_limit MAX_WITNESS_STACK_ITEMS) x)) (\<lambda>n y.
     pbind (run_elems (compact_size_decoder_new_with_limit MAX_WITNESS_ITEM_SIZE) n y) (\<lambda>es.
       finished (witness_close (body es) n)))"
  by (simp add: witness_decoder_run_def witness_decoder_new_def witness_rest_def [abs_def])

lemma witness_new_run_iff:
  "witness_decoder_run witness_decoder_new x = POk w r \<longleftrightarrow>
     (\<exists>es. witness_within es \<and> offsets_fit 0 es \<and> x = compact_size_new (length es) @ body es @ r \<and> w = witness_of es)"
proof -
  have stack: "n \<le> MAX_WITNESS_STACK_ITEMS \<Longrightarrow> n < 2 ^ 64" for n
    by (simp add: MAX_WITNESS_STACK_ITEMS_def)
  have close: "witness_close (body es) (length es) = Ok w \<longleftrightarrow> offsets_fit 0 es \<and> w = witness_of es"
    if "elems_within MAX_WITNESS_ITEM_SIZE es" for es
    using witness_close_body [OF elems_within_slices [OF _ that]] by (auto simp: MAX_WITNESS_ITEM_SIZE_def)
  have "MAX_WITNESS_ITEM_SIZE < 2 ^ 64" by (simp add: MAX_WITNESS_ITEM_SIZE_def)
  note items = run_elems_iff [OF this]
  have "witness_decoder_run witness_decoder_new x = POk w r \<longleftrightarrow> (\<exists>n y es.
      n \<le> MAX_WITNESS_STACK_ITEMS \<and> n < 2 ^ 64 \<and> x = compact_size_new n @ y \<and>
      length es = n \<and> elems_within MAX_WITNESS_ITEM_SIZE es \<and> y = body es @ r \<and>
      witness_close (body es) n = Ok w)"
    unfolding witness_run_new pbind_POk_iff pmap_err_POk_iff compact_size_decoder_new_run_iff items finished_POk
    by blast
  also have "\<dots> \<longleftrightarrow> (\<exists>es. witness_within es \<and> offsets_fit 0 es \<and>
      x = compact_size_new (length es) @ body es @ r \<and> w = witness_of es)"
    unfolding witness_within_def using close stack by metis
  finally show ?thesis .
qed

lemma run_elems_no_panic: "run_elems p m x \<noteq> PPanic"
proof (induction m arbitrary: p x)
  case (Suc m)
  then show ?case by (auto simp: pbind_PPanic_iff take_exactly_def)
qed simp

lemma offsets_fit_small: "base + length (body es) < 2 ^ 32 \<Longrightarrow> offsets_fit base es"
  by (induction es arbitrary: base) (auto simp: add.assoc)

lemma witness_new_run_panic:
  "witness_decoder_run witness_decoder_new x = PPanic \<Longrightarrow> 2 ^ 32 \<le> length x"
proof -
  assume "witness_decoder_run witness_decoder_new x = PPanic"
  then obtain n y es r where *: "compact_size_decoder_run (compact_size_decoder_new_with_limit MAX_WITNESS_STACK_ITEMS) x
        = POk n y"
      "run_elems (compact_size_decoder_new_with_limit MAX_WITNESS_ITEM_SIZE) n y = POk es r"
      "witness_close (body es) n = Panic"
    by (auto simp: witness_run_new pbind_PPanic_iff run_elems_no_panic finished_PPanic witness_close_halts)
  have "MAX_WITNESS_ITEM_SIZE < 2 ^ 64" by (simp add: MAX_WITNESS_ITEM_SIZE_def)
  then have es: "length es = n" "elems_within MAX_WITNESS_ITEM_SIZE es" "y = body es @ r" "slices es"
    using *(2) run_elems_iff elems_within_slices by blast+
  then have "\<not> offsets_fit 0 es" using *(3) witness_close_body [of es] by auto
  then have "2 ^ 32 \<le> length (body es)" using offsets_fit_small [of 0 es] by (metis add_0 not_le)
  moreover have "length y \<le> length x" using *(1) by (auto simp: compact_size_decoder_new_run_iff)
  ultimately show "2 ^ 32 \<le> length x" using es(3) by simp
qed

text \<open>
  Building a witness and reading it: \<open>from_slice\<close> keeps the list, \<open>get(i)\<close> returns
  element \<open>i\<close> and nothing past the end, and iterating gives the elements in order. An element of
  more than four million bytes is the exception: \<open>get\<close> does not find it, and the iteration stops
  before it.
\<close>

theorem witness_from_slice_reads:
  assumes "slices es" and "offsets_fit 0 es"
  shows "\<exists>w. witness_from_slice es = Ok w \<and> witness_len w = length es \<and>
    (\<forall>i. witness_get w i =
       Ok (if i < length es \<and> length (es ! i) \<le> 4000000 then Some (es ! i) else None)) \<and>
    witness_to_vec w = Ok (takeWhile (\<lambda>e. length e \<le> 4000000) es)"
  using assms witness_get_eq witness_to_vec_eq
  by (intro exI [of _ "witness_of es"]) (simp add: witness_from_slice_eq witness_len_def, simp add: witness_of_def)

theorem witness_from_slice_reads_witness:
  "\<exists>w. witness_from_slice [[1, 2], [3]] = Ok w \<and> witness_get w 1 = Ok (Some [3])
     \<and> witness_get w 2 = Ok None \<and> witness_to_vec w = Ok [[1, 2], [3]]"
proof -
  have "slices [[1, 2], [3]]" and "offsets_fit 0 [[1, 2], [3]]"
    by (simp_all add: slices_def elem_bytes_def length_compact_size_new encoded_size_def)
  from witness_from_slice_reads [OF this] show ?thesis by force
qed

text \<open>
  Pushing an element onto a witness gives the witness of the longer list, byte for
  byte what building that list at once gives: moving the index area loses nothing.
\<close>

theorem witness_push_from_slice:
  assumes "slices (es @ [e])" and "offsets_fit 0 (es @ [e])"
  shows "res_bind (witness_from_slice es) (\<lambda>w. witness_push_slice w e) = witness_from_slice (es @ [e])"
proof -
  have "slices es" "length e < 2 ^ 64" "offsets_fit 0 es" "length (body es) < 2 ^ 32"
    using assms by (simp_all add: slices_def offsets_fit_append)
  then show ?thesis
    using assms witness_push_slice_eq [of e es] by (simp add: witness_from_slice_eq)
qed

theorem witness_push_from_slice_witness:
  "res_bind (witness_from_slice [[1, 2]]) (\<lambda>w. witness_push_slice w [3]) = witness_from_slice [[1, 2], [3]]"
proof -
  have "slices ([[1, 2]] @ [[3]])" and "offsets_fit 0 ([[1, 2]] @ [[3]])"
    by (simp_all add: slices_def elem_bytes_def length_compact_size_new encoded_size_def)
  from witness_push_from_slice [OF this] show ?thesis by simp
qed

text \<open>
  The witness decoder accepts exactly the encodings of lists within its limits, and
  returns the witness that \<open>from_slice\<close> builds from the list.
\<close>

theorem witness_decoder_accepts:
  "decode_from_slice witness_decoder_push witness_decoder_end witness_decoder_new bs = Ok w
   \<longleftrightarrow> (\<exists>es. witness_within es \<and> bs = compact_size_new (length es) @ body es \<and> witness_from_slice es = Ok w)"
proof -
  have "witness_from_slice es = Ok w \<longleftrightarrow> offsets_fit 0 es \<and> w = witness_of es" if "witness_within es" for es
    using that elems_within_slices [of MAX_WITNESS_ITEM_SIZE es] witness_from_slice_eq [of es]
    by (auto simp: witness_within_def MAX_WITNESS_ITEM_SIZE_def)
  then show ?thesis
    by (auto simp: wd.decode_from_slice_iff witness_new_run_iff)
qed

text \<open>
  The item-size limit of four million bytes holds for the first element only: a
  witness whose second element is larger is decoded, and the element cannot be read back, while
  the same element in the first place is refused.
\<close>

theorem witness_limit_first_only:
  "\<exists>e w. decode_from_slice witness_decoder_push witness_decoder_end witness_decoder_new
        (compact_size_new 2 @ body [[], e]) = Ok w
      \<and> witness_len w = 2 \<and> witness_get w 1 = Ok None \<and> witness_to_vec w = Ok [[]]
      \<and> (\<forall>w'. decode_from_slice witness_decoder_push witness_decoder_end witness_decoder_new
            (compact_size_new 1 @ body [e]) \<noteq> Ok w')"
proof -
  define e :: bytes where "e = replicate 4000001 0"
  have len: "length e = 4000001" by (simp add: e_def)
  have es: "slices [[], e]" "offsets_fit 0 [[], e]" "witness_within [[], e]"
    using len by (simp_all add: slices_def elem_bytes_def length_compact_size_new encoded_size_def
        witness_within_def MAX_WITNESS_STACK_ITEMS_def MAX_WITNESS_ITEM_SIZE_def MAX_COMPACT_SIZE_def)
  have "decode_from_slice witness_decoder_push witness_decoder_end witness_decoder_new
      (compact_size_new 2 @ body [[], e]) = Ok (witness_of [[], e])"
    unfolding wd.decode_from_slice_iff [OF witness_decoder_new_inv] witness_new_run_iff
    by (rule exI [of _ "[[], e]"]) (use es in \<open>simp add: numeral_2_eq_2\<close>)
  moreover have "witness_get (witness_of [[], e]) 1 = Ok None"
    and "witness_to_vec (witness_of [[], e]) = Ok [[]]"
    using len es by (simp_all add: witness_get_eq witness_to_vec_eq)
  moreover have "\<not> (\<exists>es. witness_within es \<and> compact_size_new 1 @ body [e] = compact_size_new (length es) @ body es)"
  proof (rule notI, elim exE conjE)
    fix es assume w: "witness_within es" and eq: "compact_size_new 1 @ body [e] = compact_size_new (length es) @ body es"
    have "(word_of_nat 1 :: u64) = word_of_nat (length es) \<and> body [e] = body es"
      using compact_size_encode_inj eq unfolding compact_size_new_def by blast
    moreover have "length es < 2 ^ 64" using w by (simp add: witness_within_def MAX_WITNESS_STACK_ITEMS_def)
    ultimately have "length es = 1" and b: "body [e] = body es"
      by (auto simp: word_unat_eq_iff unat_of_nat)
    then obtain f where f: "es = [f]" by (auto simp: length_Suc_conv)
    then have "length f \<le> 4000000" using w by (simp add: witness_within_def MAX_WITNESS_ITEM_SIZE_def)
    moreover have "length e = length f"
      using b f compact_size_encode_inj [of "word_of_nat (length e)" e "word_of_nat (length f)" f]
      by (simp add: elem_bytes_def compact_size_new_def)
    ultimately show False using len by simp
  qed
  then have "\<forall>w'. decode_from_slice witness_decoder_push witness_decoder_end witness_decoder_new
      (compact_size_new 1 @ body [e]) \<noteq> Ok w'"
    by (auto simp: wd.decode_from_slice_iff witness_new_run_iff)
  ultimately show ?thesis
    by (intro exI [of _ e] exI [of _ "witness_of [[], e]"]) (simp add: witness_len_def, simp add: witness_of_def)
qed

end
