(* ===== verification/Lock_Times.thy ===== *)
theory Lock_Times
  imports Prelude
begin

section \<open>Lock times and sequence numbers\<close>

text \<open>
  \<open>units/src/locktime/absolute/mod.rs\<close>, \<open>units/src/locktime/relative/mod.rs\<close> and
  \<open>units/src/sequence.rs\<close>: absolute lock times (a height below the threshold, a median time past
  from it on), relative lock times (a number of blocks or of 512-second intervals, told apart by
  bit 22) and the sequence number that carries them. The wrappers \<open>Height\<close>, \<open>MedianTimePast\<close>,
  \<open>NumberOfBlocks\<close> and \<open>NumberOf512Seconds\<close> are their integers.
\<close>

subsection \<open>Absolute lock times\<close>

definition LOCK_TIME_THRESHOLD :: u32 where "LOCK_TIME_THRESHOLD = 500000000"

definition is_block_height :: "u32 \<Rightarrow> bool" where
  "is_block_height n \<longleftrightarrow> n < LOCK_TIME_THRESHOLD"

definition is_block_time :: "u32 \<Rightarrow> bool" where
  "is_block_time n \<longleftrightarrow> LOCK_TIME_THRESHOLD \<le> n"

datatype conversion_error = InvalidHeight u32 | InvalidTime u32

definition height_from_u32 :: "u32 \<Rightarrow> (conversion_error, u32) res" where
  "height_from_u32 n = (if is_block_height n then Ok n else Err (InvalidHeight n))"

definition mtp_from_u32 :: "u32 \<Rightarrow> (conversion_error, u32) res" where
  "mtp_from_u32 n = (if is_block_time n then Ok n else Err (InvalidTime n))"

datatype lock_time = Blocks u32 | Seconds u32

text \<open>\<open>expect("n is valid")\<close> is a panic on an error.\<close>

fun lock_time_from_consensus :: "u32 \<Rightarrow> (unit, lock_time) res" where
  "lock_time_from_consensus n =
     (if is_block_height n then
        (case height_from_u32 n of Ok h \<Rightarrow> Ok (Blocks h) | _ \<Rightarrow> Panic)
      else (case mtp_from_u32 n of Ok t \<Rightarrow> Ok (Seconds t) | _ \<Rightarrow> Panic))"

definition lock_time_from_height :: "u32 \<Rightarrow> (conversion_error, lock_time) res" where
  "lock_time_from_height n = res_bind (height_from_u32 n) (\<lambda>h. Ok (Blocks h))"

definition lock_time_from_mtp :: "u32 \<Rightarrow> (conversion_error, lock_time) res" where
  "lock_time_from_mtp n = res_bind (mtp_from_u32 n) (\<lambda>t. Ok (Seconds t))"

fun lock_time_to_consensus :: "lock_time \<Rightarrow> u32" where
  "lock_time_to_consensus (Blocks h) = h"
| "lock_time_to_consensus (Seconds t) = t"

text \<open>The comparison is made in 64 bits, so that the next height does not overflow.\<close>

definition height_is_satisfied_by :: "u32 \<Rightarrow> u32 \<Rightarrow> bool" where
  "height_is_satisfied_by h height =
     (let next_block_height = (ucast height :: u64) + 1 in (ucast h :: u64) \<le> next_block_height)"

definition mtp_is_satisfied_by :: "u32 \<Rightarrow> u32 \<Rightarrow> bool" where
  "mtp_is_satisfied_by t time \<longleftrightarrow> t < time"

fun lock_time_is_satisfied_by :: "lock_time \<Rightarrow> u32 \<Rightarrow> u32 \<Rightarrow> bool" where
  "lock_time_is_satisfied_by (Blocks blocks) height mtp = height_is_satisfied_by blocks height"
| "lock_time_is_satisfied_by (Seconds time) height mtp = mtp_is_satisfied_by time mtp"

fun lock_time_is_same_unit :: "lock_time \<Rightarrow> lock_time \<Rightarrow> bool" where
  "lock_time_is_same_unit (Blocks _) (Blocks _) = True"
| "lock_time_is_same_unit (Seconds _) (Seconds _) = True"
| "lock_time_is_same_unit _ _ = False"

datatype incompatible = IncompatibleHeight u32 u32 | IncompatibleTime u32 u32

fun lock_time_is_satisfied_by_height :: "lock_time \<Rightarrow> u32 \<Rightarrow> (incompatible, bool) res" where
  "lock_time_is_satisfied_by_height (Blocks blocks) height = Ok (height_is_satisfied_by blocks height)"
| "lock_time_is_satisfied_by_height (Seconds time) height = Err (IncompatibleHeight time height)"

fun lock_time_is_satisfied_by_time :: "lock_time \<Rightarrow> u32 \<Rightarrow> (incompatible, bool) res" where
  "lock_time_is_satisfied_by_time (Seconds time) mtp = Ok (mtp_is_satisfied_by time mtp)"
| "lock_time_is_satisfied_by_time (Blocks blocks) mtp = Err (IncompatibleTime blocks mtp)"

fun lock_time_is_implied_by :: "lock_time \<Rightarrow> lock_time \<Rightarrow> bool" where
  "lock_time_is_implied_by (Blocks this) (Blocks other) = (this \<le> other)"
| "lock_time_is_implied_by (Seconds this) (Seconds other) = (this \<le> other)"
| "lock_time_is_implied_by _ _ = False"

text \<open>The lock times that the constructors build.\<close>

fun lock_time_wf :: "lock_time \<Rightarrow> bool" where
  "lock_time_wf (Blocks h) = is_block_height h"
| "lock_time_wf (Seconds t) = is_block_time t"

lemma lock_time_from_consensus_Ok:
  "\<exists>l. lock_time_from_consensus n = Ok l \<and> lock_time_wf l \<and> lock_time_to_consensus l = n"
  by (simp add: height_from_u32_def mtp_from_u32_def is_block_height_def is_block_time_def not_less)

lemma lock_time_from_to_consensus:
  "lock_time_wf l \<Longrightarrow> lock_time_from_consensus (lock_time_to_consensus l) = Ok l"
  by (cases l) (auto simp: height_from_u32_def mtp_from_u32_def is_block_height_def is_block_time_def)

lemma height_is_satisfied_by_unat: "height_is_satisfied_by h height \<longleftrightarrow> unat h \<le> unat height + 1"
proof -
  have "unat height < 2 ^ 32" using unsigned_less [of height, where ?'a = nat] by simp
  then have "unat ((ucast height :: u64) + 1) = unat height + 1"
    by (simp add: unat_word_ariths unat_ucast_up)
  then show ?thesis
    by (simp add: height_is_satisfied_by_def Let_def word_le_nat_alt unat_ucast_up)
qed

text \<open>
  The consensus form of a lock time is unambiguous: every 32-bit number decodes,
  without a panic, to a lock time whose consensus form it is, and a well-formed lock time is
  recovered from its consensus form.
\<close>

theorem lock_time_consensus_bijection:
  "(\<exists>l. lock_time_from_consensus n = Ok l \<and> lock_time_wf l \<and> lock_time_to_consensus l = n)
   \<and> (lock_time_from_consensus n = Ok l' \<longleftrightarrow> lock_time_wf l' \<and> n = lock_time_to_consensus l')"
proof
  show "\<exists>l. lock_time_from_consensus n = Ok l \<and> lock_time_wf l \<and> lock_time_to_consensus l = n"
    by (rule lock_time_from_consensus_Ok)
  obtain l where l: "lock_time_from_consensus n = Ok l" "lock_time_wf l" "lock_time_to_consensus l = n"
    using lock_time_from_consensus_Ok [of n] by blast
  show "lock_time_from_consensus n = Ok l' \<longleftrightarrow> lock_time_wf l' \<and> n = lock_time_to_consensus l'"
    using l lock_time_from_to_consensus [of l']
    by (metis res.inject(1))
qed

text \<open>
  A lock time implied by another is satisfied whenever the other is, at every
  height and median time.
\<close>

theorem lock_time_implied_satisfied:
  assumes "lock_time_is_implied_by l other" and "lock_time_is_satisfied_by other height mtp"
  shows "lock_time_is_satisfied_by l height mtp"
  using assms
  by (cases "(l, other)" rule: lock_time_is_implied_by.cases)
     (auto simp: height_is_satisfied_by_unat mtp_is_satisfied_by_def word_le_nat_alt
        word_less_nat_alt)

theorem lock_time_implied_satisfied_witness:
  "lock_time_is_satisfied_by (Blocks 100) 150 0"
  by (rule lock_time_implied_satisfied [of _ "Blocks 120"])
     (simp_all add: height_is_satisfied_by_unat)

subsection \<open>Sequence numbers and relative lock times\<close>

definition LOCK_TIME_DISABLE_FLAG_MASK :: u32 where "LOCK_TIME_DISABLE_FLAG_MASK = 0x80000000"

definition LOCK_TYPE_MASK :: u32 where "LOCK_TYPE_MASK = 0x00400000"

definition MIN_NO_RBF :: u32 where "MIN_NO_RBF = 0xFFFFFFFE"

definition SEQUENCE_MAX :: u32 where "SEQUENCE_MAX = 0xFFFFFFFF"

definition enables_absolute_lock_time :: "u32 \<Rightarrow> bool" where
  "enables_absolute_lock_time s \<longleftrightarrow> s \<noteq> SEQUENCE_MAX"

definition is_final :: "u32 \<Rightarrow> bool" where "is_final s \<longleftrightarrow> \<not> enables_absolute_lock_time s"

definition is_rbf :: "u32 \<Rightarrow> bool" where "is_rbf s \<longleftrightarrow> s < MIN_NO_RBF"

definition is_relative_lock_time :: "u32 \<Rightarrow> bool" where
  "is_relative_lock_time s \<longleftrightarrow> s AND LOCK_TIME_DISABLE_FLAG_MASK = 0"

definition is_height_locked :: "u32 \<Rightarrow> bool" where
  "is_height_locked s \<longleftrightarrow> is_relative_lock_time s \<and> s AND LOCK_TYPE_MASK = 0"

definition is_time_locked :: "u32 \<Rightarrow> bool" where
  "is_time_locked s \<longleftrightarrow> is_relative_lock_time s \<and> 0 < s AND LOCK_TYPE_MASK"

definition sequence_from_height :: "u16 \<Rightarrow> u32" where "sequence_from_height height = ucast height"

definition sequence_from_512_second_intervals :: "u16 \<Rightarrow> u32" where
  "sequence_from_512_second_intervals intervals = ucast intervals OR LOCK_TYPE_MASK"

definition low_u16 :: "u32 \<Rightarrow> u16" where "low_u16 s = ucast s"

datatype rel_lock_time = RelBlocks u16 | RelTime u16

definition to_relative_lock_time :: "u32 \<Rightarrow> rel_lock_time option" where
  "to_relative_lock_time s =
     (if \<not> is_relative_lock_time s then None
      else let lock_value = low_u16 s in
        if is_time_locked s then Some (RelTime lock_value) else Some (RelBlocks lock_value))"

text \<open>The error \<open>DisabledLockTimeError\<close> carries the number.\<close>

definition rel_from_consensus :: "u32 \<Rightarrow> (u32, rel_lock_time) res" where
  "rel_from_consensus n = (case to_relative_lock_time n of Some l \<Rightarrow> Ok l | None \<Rightarrow> Err n)"

fun rel_to_consensus :: "rel_lock_time \<Rightarrow> u32" where
  "rel_to_consensus (RelBlocks h) = ucast h"
| "rel_to_consensus (RelTime t) = LOCK_TYPE_MASK OR ucast t"

text \<open>The error \<open>TimeOverflowError\<close> carries the seconds.\<close>

definition from_seconds_floor :: "u32 \<Rightarrow> (u32, u16) res" where
  "from_seconds_floor seconds =
     (let interval = seconds div 512 in
      if interval \<le> 0xFFFF then Ok (ucast interval) else Err seconds)"

definition div_ceil :: "u32 \<Rightarrow> u32 \<Rightarrow> u32" where
  "div_ceil a b = (if a mod b = 0 then a div b else a div b + 1)"

definition from_seconds_ceil :: "u32 \<Rightarrow> (u32, u16) res" where
  "from_seconds_ceil seconds =
     (if seconds \<le> 0xFFFF * 512 then Ok (ucast (div_ceil seconds 512)) else Err seconds)"

definition to_seconds :: "u16 \<Rightarrow> u32" where "to_seconds intervals = ucast intervals * 512"

definition checked_sub :: "'a::len word \<Rightarrow> 'a word \<Rightarrow> 'a word option" where
  "checked_sub a b = (if a < b then None else Some (a - b))"

text \<open>The errors carry the two heights or times.\<close>

definition blocks_is_satisfied_by :: "u16 \<Rightarrow> u32 \<Rightarrow> u32 \<Rightarrow> (u32 \<times> u32, bool) res" where
  "blocks_is_satisfied_by n chain_tip utxo_mined_at =
     (case checked_sub chain_tip utxo_mined_at of
        Some diff \<Rightarrow>
          if diff = 0xFFFFFFFF then Ok True else Ok ((ucast n :: u32) \<le> diff + 1)
      | None \<Rightarrow> Err (chain_tip, utxo_mined_at))"

definition intervals_is_satisfied_by :: "u16 \<Rightarrow> u32 \<Rightarrow> u32 \<Rightarrow> (u32 \<times> u32, bool) res" where
  "intervals_is_satisfied_by n chain_tip utxo_mined_at =
     (case checked_sub chain_tip utxo_mined_at of
        Some diff \<Rightarrow> Ok (to_seconds n \<le> diff)
      | None \<Rightarrow> Err (chain_tip, utxo_mined_at))"

datatype satisfied_error = SatBlocks "u32 \<times> u32" | SatTime "u32 \<times> u32"

fun rel_is_satisfied_by :: "rel_lock_time \<Rightarrow> u32 \<Rightarrow> u32 \<Rightarrow> u32 \<Rightarrow> u32 \<Rightarrow> (satisfied_error, bool) res" where
  "rel_is_satisfied_by (RelBlocks n) tip_height tip_mtp utxo_height utxo_mtp =
     map_err SatBlocks (blocks_is_satisfied_by n tip_height utxo_height)"
| "rel_is_satisfied_by (RelTime n) tip_height tip_mtp utxo_height utxo_mtp =
     map_err SatTime (intervals_is_satisfied_by n tip_mtp utxo_mtp)"

fun rel_is_implied_by :: "rel_lock_time \<Rightarrow> rel_lock_time \<Rightarrow> bool" where
  "rel_is_implied_by (RelBlocks this) (RelBlocks other) = (this \<le> other)"
| "rel_is_implied_by (RelTime this) (RelTime other) = (this \<le> other)"
| "rel_is_implied_by _ _ = False"

definition rel_is_implied_by_sequence :: "rel_lock_time \<Rightarrow> u32 \<Rightarrow> bool" where
  "rel_is_implied_by_sequence l other =
     (case rel_from_consensus other of Ok o' \<Rightarrow> rel_is_implied_by l o' | _ \<Rightarrow> False)"

lemma unat_to_seconds: "unat (to_seconds n) = unat n * 512"
proof -
  have "unat n < 2 ^ 16" using unsigned_less [of n, where ?'a = nat] by simp
  then show ?thesis by (simp add: to_seconds_def unat_word_ariths unat_ucast_up)
qed

lemma blocks_is_satisfied_by_unat:
  "blocks_is_satisfied_by n tip utxo =
     (if tip < utxo then Err (tip, utxo) else Ok (unat utxo + unat n \<le> unat tip + 1))"
proof (cases "tip < utxo")
  case False
  then have le: "utxo \<le> tip" by simp
  have d: "unat (tip - utxo) = unat tip - unat utxo" using le by (rule unat_sub)
  have n: "unat n < 2 ^ 16" using unsigned_less [of n, where ?'a = nat] by simp
  have t: "unat tip < 2 ^ 32" using unsigned_less [of tip, where ?'a = nat] by simp
  have le': "unat utxo \<le> unat tip" using le by (simp add: word_le_nat_alt)
  show ?thesis
  proof (cases "tip - utxo = 0xFFFFFFFF")
    case True
    then have "unat tip - unat utxo = 0xFFFFFFFF" using d by simp
    then show ?thesis using False True n by (simp add: blocks_is_satisfied_by_def checked_sub_def)
  next
    case F: False
    then have "unat (tip - utxo) \<noteq> 0xFFFFFFFF" by (simp add: word_unat_eq_iff)
    then have "unat (tip - utxo + 1) = unat tip - unat utxo + 1"
      using d t by (simp add: unat_word_ariths)
    then show ?thesis using False F le'
      by (auto simp: blocks_is_satisfied_by_def checked_sub_def word_le_nat_alt unat_ucast_up)
  qed
qed (simp add: blocks_is_satisfied_by_def checked_sub_def)

text \<open>Reading back the number of a relative lock time.\<close>

lemma bit_LOCK_TYPE_MASK: "bit LOCK_TYPE_MASK i \<longleftrightarrow> i = 22"
proof -
  have m: "LOCK_TYPE_MASK = 2 ^ 22" by (simp add: LOCK_TYPE_MASK_def)
  show ?thesis unfolding m bit_exp_iff possible_bit_word by auto
qed

lemma bit_LOCK_TIME_DISABLE_FLAG_MASK: "bit LOCK_TIME_DISABLE_FLAG_MASK i \<longleftrightarrow> i = 31"
proof -
  have m: "LOCK_TIME_DISABLE_FLAG_MASK = 2 ^ 31" by (simp add: LOCK_TIME_DISABLE_FLAG_MASK_def)
  show ?thesis unfolding m bit_exp_iff possible_bit_word by auto
qed

lemmas mask_bits = bit_LOCK_TYPE_MASK bit_LOCK_TIME_DISABLE_FLAG_MASK

lemma rel_lock_bits:
  fixes n :: u16
  shows "(ucast n :: u32) AND LOCK_TYPE_MASK = 0"
    and "(ucast n :: u32) AND LOCK_TIME_DISABLE_FLAG_MASK = 0"
    and "(LOCK_TYPE_MASK OR ucast n) AND LOCK_TYPE_MASK = LOCK_TYPE_MASK"
    and "(LOCK_TYPE_MASK OR ucast n) AND LOCK_TIME_DISABLE_FLAG_MASK = 0"
  by (rule bit_word_eqI; auto simp: bit_simps mask_bits dest: bit_imp_le_length)+

lemma low_u16_type [simp]: "low_u16 (LOCK_TYPE_MASK OR ucast n) = n"
  unfolding low_u16_def
  by (rule bit_word_eqI) (auto simp: bit_simps mask_bits dest: bit_imp_le_length)

lemma low_u16_ucast [simp]: "low_u16 (ucast n) = n"
  unfolding low_u16_def
  by (rule bit_word_eqI) (auto simp: bit_simps dest: bit_imp_le_length)

lemma LOCK_TYPE_MASK_pos: "0 < LOCK_TYPE_MASK" by (simp add: LOCK_TYPE_MASK_def)

lemma rel_from_to_consensus: "rel_from_consensus (rel_to_consensus l) = Ok l"
  by (cases l) (simp_all add: rel_from_consensus_def to_relative_lock_time_def is_time_locked_def
      is_relative_lock_time_def rel_lock_bits LOCK_TYPE_MASK_pos Let_def)

lemma rel_from_consensus_Err: "rel_from_consensus n = Err e \<longleftrightarrow> \<not> is_relative_lock_time n \<and> e = n"
  by (auto simp: rel_from_consensus_def to_relative_lock_time_def Let_def)

lemma rel_satisfied_iff:
  "rel_is_satisfied_by (RelBlocks n) th tm uh um = Ok True \<longleftrightarrow>
     uh \<le> th \<and> unat uh + unat n \<le> unat th + 1"
  "rel_is_satisfied_by (RelTime n) th tm uh um = Ok True \<longleftrightarrow>
     um \<le> tm \<and> unat um + unat n * 512 \<le> unat tm"
proof -
  show "rel_is_satisfied_by (RelBlocks n) th tm uh um = Ok True \<longleftrightarrow>
     uh \<le> th \<and> unat uh + unat n \<le> unat th + 1"
    by (auto simp: blocks_is_satisfied_by_unat)
  have "um \<le> tm \<Longrightarrow> unat (tm - um) = unat tm - unat um" by (rule unat_sub)
  then show "rel_is_satisfied_by (RelTime n) th tm uh um = Ok True \<longleftrightarrow>
     um \<le> tm \<and> unat um + unat n * 512 \<le> unat tm"
    by (auto simp: intervals_is_satisfied_by_def checked_sub_def word_le_nat_alt unat_to_seconds
        word_less_nat_alt)
qed

text \<open>
  A relative lock time is recovered from the sequence number that carries it; a
  sequence number with the disable bit is refused; and every other one is read as the lock with
  its low sixteen bits in the unit of its bit 22.
\<close>

theorem rel_lock_time_consensus:
  "rel_from_consensus (rel_to_consensus l) = Ok l
   \<and> rel_from_consensus n =
       (if bit n 31 then Err n
        else if bit n 22 then Ok (RelTime (ucast n)) else Ok (RelBlocks (ucast n)))"
proof
  have b: "bit (n AND LOCK_TIME_DISABLE_FLAG_MASK) i \<longleftrightarrow> i = 31 \<and> bit n 31"
    "bit (n AND LOCK_TYPE_MASK) i \<longleftrightarrow> i = 22 \<and> bit n 22" for i
    by (auto simp: bit_and_iff mask_bits)
  have m: "n AND LOCK_TIME_DISABLE_FLAG_MASK = 0 \<longleftrightarrow> \<not> bit n 31"
    "n AND LOCK_TYPE_MASK = 0 \<longleftrightarrow> \<not> bit n 22"
    by (simp_all add: bit_eq_iff [where ?'a = u32] b)
  show "rel_from_consensus n =
       (if bit n 31 then Err n
        else if bit n 22 then Ok (RelTime (ucast n)) else Ok (RelBlocks (ucast n)))"
    by (simp add: rel_from_consensus_def to_relative_lock_time_def is_time_locked_def
        is_relative_lock_time_def m word_gt_0 low_u16_def Let_def)
qed (rule rel_from_to_consensus)

text \<open>
  The check of \<open>CHECKSEQUENCEVERIFY\<close>: when a lock is implied by the sequence number
  of the spending input, that number is the consensus form of some lock of the same unit (up to
  its unused bits), and at any chain tip that satisfies it the lock is satisfied.
\<close>

theorem rel_lock_time_implied_by_sequence:
  assumes "rel_is_implied_by_sequence l s"
  shows "\<exists>l'. rel_from_consensus s = Ok l'
          \<and> (rel_is_satisfied_by l' th tm uh um = Ok True
             \<longrightarrow> rel_is_satisfied_by l th tm uh um = Ok True)"
proof -
  obtain l' where l': "rel_from_consensus s = Ok l'" "rel_is_implied_by l l'"
    using assms by (auto simp: rel_is_implied_by_sequence_def split: res.splits)
  have "rel_is_satisfied_by l' th tm uh um = Ok True
      \<longrightarrow> rel_is_satisfied_by l th tm uh um = Ok True"
    using l'(2) by (cases "(l, l')" rule: rel_is_implied_by.cases)
      (auto simp: rel_satisfied_iff word_le_nat_alt simp del: rel_is_satisfied_by.simps)
  then show ?thesis using l'(1) by blast
qed

lemma rel_lock_time_implied_by_sequence_witness:
  "\<exists>l'. rel_from_consensus 336 = Ok l'
     \<and> (rel_is_satisfied_by l' 1000 0 600 0 = Ok True
        \<longrightarrow> rel_is_satisfied_by (RelBlocks 168) 1000 0 600 0 = Ok True)"
  by (rule rel_lock_time_implied_by_sequence)
     (simp add: rel_is_implied_by_sequence_def rel_from_consensus_def to_relative_lock_time_def
      is_relative_lock_time_def is_time_locked_def LOCK_TIME_DISABLE_FLAG_MASK_def
      LOCK_TYPE_MASK_def low_u16_def)

lemma ceil_512:
  assumes "n mod 512 \<noteq> (0 :: nat)"
  shows "(n + 511) div 512 = n div 512 + 1"
proof -
  have "(n mod 512 + 511) div 512 = 1"
    using assms mod_less_divisor [of 512 n, OF zero_less_numeral]
    by (intro div_nat_eqI; simp)
  then show ?thesis by (simp add: div_add1_eq [of n 511])
qed

text \<open>
  Both conversions from seconds are exact in their rounding direction and refuse
  exactly what does not fit: rounding down gives the largest interval count that is not longer
  than the request, rounding up the smallest one that is not shorter.
\<close>

theorem seconds_to_intervals:
  "from_seconds_floor sec =
     (if unat sec < 65536 * 512 then Ok (word_of_nat (unat sec div 512)) else Err sec)
   \<and> from_seconds_ceil sec =
     (if unat sec \<le> 65535 * 512 then Ok (word_of_nat ((unat sec + 511) div 512)) else Err sec)"
proof
  have d: "unat (sec div 512) = unat sec div 512" by (simp add: unat_div)
  have le: "sec div 512 \<le> 0xFFFF \<longleftrightarrow> unat sec < 65536 * 512"
    by (simp add: word_le_nat_alt d) linarith
  have u: "ucast (sec div 512) = (word_of_nat (unat sec div 512) :: u16)"
    by (simp only: ucast_eq_word_of_nat d)
  show "from_seconds_floor sec =
     (if unat sec < 65536 * 512 then Ok (word_of_nat (unat sec div 512)) else Err sec)"
    by (simp only: from_seconds_floor_def Let_def le u)
  have c: "unat (div_ceil sec 512) = (unat sec + 511) div 512"
  proof -
    have s: "unat sec < 2 ^ 32" using unsigned_less [of sec, where ?'a = nat] by simp
    have m: "sec mod 512 = 0 \<longleftrightarrow> unat sec mod 512 = 0"
      by (simp add: word_unat_eq_iff unat_mod)
    have p: "unat (sec div 512 + 1) = unat sec div 512 + 1"
      using s by (simp add: unat_word_ariths d)
    show ?thesis unfolding div_ceil_def
    proof (cases "sec mod 512 = 0")
      case True
      then have "unat sec mod 512 = 0" using m by simp
      then show "unat (if sec mod 512 = 0 then sec div 512 else sec div 512 + 1)
          = (unat sec + 511) div 512" using True d by (simp add: div_add1_eq [of _ 511])
    next
      case False
      then have "unat sec mod 512 \<noteq> 0" using m by simp
      then show "unat (if sec mod 512 = 0 then sec div 512 else sec div 512 + 1)
          = (unat sec + 511) div 512" using False p by (simp add: ceil_512)
    qed
  qed
  have u': "ucast (div_ceil sec 512) = (word_of_nat ((unat sec + 511) div 512) :: u16)"
    by (simp only: ucast_eq_word_of_nat c)
  have le': "sec \<le> 0xFFFF * 512 \<longleftrightarrow> unat sec \<le> 65535 * 512"
    by (simp add: word_le_nat_alt)
  show "from_seconds_ceil sec =
     (if unat sec \<le> 65535 * 512 then Ok (word_of_nat ((unat sec + 511) div 512)) else Err sec)"
    by (simp only: from_seconds_ceil_def le' u')
qed

end
