(* ===== verification/Amounts.thy ===== *)
theory Amounts
  imports Prelude
begin

section \<open>Amounts\<close>

text \<open>
  \<open>units/src/amount/unsigned.rs\<close>: an \<open>Amount\<close> is a 64-bit number of satoshis, at most
  \<open>MAX_MONEY\<close>. The type is a private wrapper whose only constructor is \<open>from_sat\<close>; here an amount
  is its \<open>u64\<close>, and \<open>amount_ok\<close> is the invariant of the wrapper.
\<close>

subsection \<open>Construction\<close>

definition MAX_MONEY :: u64 where "MAX_MONEY = 21000000 * 100000000"

record out_of_range_error =
  is_signed :: bool
  is_greater_than_max :: bool

definition amount_from_sat :: "u64 \<Rightarrow> (out_of_range_error, u64) res" where
  "amount_from_sat satoshi =
     (if MAX_MONEY < satoshi then Err \<lparr>is_signed = False, is_greater_than_max = True\<rparr> else Ok satoshi)"

definition amount_ok :: "u64 \<Rightarrow> bool" where
  "amount_ok a \<longleftrightarrow> a \<le> MAX_MONEY"

lemma unat_MAX_MONEY [simp]: "unat MAX_MONEY = 2100000000000000"
  by (simp add: MAX_MONEY_def)

lemma amount_ok_unat: "amount_ok a \<longleftrightarrow> unat a \<le> 2100000000000000"
  by (simp add: amount_ok_def word_le_nat_alt)

lemma amount_from_sat_Ok: "amount_from_sat s = Ok a \<longleftrightarrow> a = s \<and> amount_ok s"
  by (auto simp: amount_from_sat_def amount_ok_def)

lemma amount_from_sat_halts [simp]: "amount_from_sat s \<noteq> Panic" "amount_from_sat s \<noteq> Diverge"
  by (simp_all add: amount_from_sat_def)

end
