(* ===== verification/Tx_Parts.thy ===== *)
theory Tx_Parts
  imports Witness_Decoder Encoders Lock_Times Amounts
begin

section \<open>The parts of a transaction\<close>

text \<open>
  \<open>primitives/src/transaction.rs\<close> and the field types it uses: versions, sequence numbers, lock
  times (\<open>units/src/locktime/absolute/mod.rs\<close>), amounts, scripts
  (\<open>primitives/src/script/owned.rs\<close>, \<open>borrowed.rs\<close>), outpoints, inputs and outputs, each with its
  decoder (a newtype around a standard decoder) and its encoder. A \<open>Txid\<close> is its 32 bytes.
\<close>

subsection \<open>Fixed-width fields\<close>

lemma array_newtype:
  "(\<And>b. halts (h b)) \<Longrightarrow>
     push_decoder (newtype_push g array_decoder_push) (newtype_end (end_with g h) array_decoder_end)
       array_decoder_read_limit (newtype_run g h array_decoder_run) array_decoder_inv"
  by (intro newtype_decoder.newtype_push_decoder newtype_decoder.intro newtype_decoder_axioms.intro
        ad.push_decoder_axioms)

lemma array_newtype_run_iff:
  "newtype_run g h array_decoder_run (array_decoder_new n) x = POk v r \<longleftrightarrow>
     (\<exists>b. length b = n \<and> x = b @ r \<and> h b = Ok v)"
  by (auto simp: newtype_run_POk_iff array_decoder_new_run_iff)

lemma array_newtype_no_panic:
  assumes "\<And>b. halts (h b)" and "\<And>b. h b \<noteq> Panic"
  shows "newtype_run g h array_decoder_run (array_decoder_new n) x \<noteq> PPanic"
  using assms by (auto simp: newtype_run_def array_decoder_new_run finished_PPanic)

lemma array_newtype_more:
  "0 < n \<Longrightarrow> newtype_run g h array_decoder_run (array_decoder_new n) [] = PMore"
  by (simp add: newtype_run_def array_decoder_new_run)

lemma le_u32_iff: "(\<exists>b. length b = 4 \<and> x = b @ r \<and> v = (from_le_bytes b :: u32)) \<longleftrightarrow> x = to_le_bytes v @ r"
proof
  assume "\<exists>b. length b = 4 \<and> x = b @ r \<and> v = (from_le_bytes b :: u32)"
  then show "x = to_le_bytes v @ r" by (auto simp: to_from_le_bytes)
next
  assume "x = to_le_bytes v @ r"
  then show "\<exists>b. length b = 4 \<and> x = b @ r \<and> v = (from_le_bytes b :: u32)"
    by (intro exI [of _ "to_le_bytes v"]) simp
qed

lemma le_u64_iff: "(\<exists>b. length b = 8 \<and> x = b @ r \<and> v = (from_le_bytes b :: u64)) \<longleftrightarrow> x = to_le_bytes v @ r"
proof
  assume "\<exists>b. length b = 8 \<and> x = b @ r \<and> v = (from_le_bytes b :: u64)"
  then show "x = to_le_bytes v @ r" by (auto simp: to_from_le_bytes)
next
  assume "x = to_le_bytes v @ r"
  then show "\<exists>b. length b = 8 \<and> x = b @ r \<and> v = (from_le_bytes b :: u64)"
    by (intro exI [of _ "to_le_bytes v"]) simp
qed

text \<open>The version of a transaction.\<close>

datatype version_decoder_error = VersionDecoderError nat

definition version_decoder_new :: array_decoder where "version_decoder_new = array_decoder_new 4"

definition version_decoder_push ::
  "array_decoder \<Rightarrow> bytes \<Rightarrow> (version_decoder_error, dstatus) res \<times> array_decoder \<times> bytes" where
  "version_decoder_push = newtype_push VersionDecoderError array_decoder_push"

definition version_decoder_end :: "array_decoder \<Rightarrow> (version_decoder_error, u32) res" where
  "version_decoder_end =
     newtype_end (end_with VersionDecoderError (\<lambda>bytes. Ok (from_le_bytes bytes))) array_decoder_end"

definition version_decoder_run :: "array_decoder \<Rightarrow> bytes \<Rightarrow> (version_decoder_error, u32) presult" where
  "version_decoder_run = newtype_run VersionDecoderError (\<lambda>bytes. Ok (from_le_bytes bytes)) array_decoder_run"

interpretation version_dec: push_decoder version_decoder_push version_decoder_end array_decoder_read_limit
  version_decoder_run array_decoder_inv
  unfolding version_decoder_push_def version_decoder_end_def version_decoder_run_def
  by (rule array_newtype) simp

lemma version_run:
  "version_decoder_run version_decoder_new x = POk v r \<longleftrightarrow> x = to_le_bytes v @ r"
  "version_decoder_run version_decoder_new x \<noteq> PPanic"
  "version_decoder_run version_decoder_new [] = PMore"
  unfolding version_decoder_run_def version_decoder_new_def
  by (simp_all add: array_newtype_run_iff array_newtype_no_panic array_newtype_more le_u32_iff [symmetric]
        eq_commute [of v])

text \<open>Sequence numbers.\<close>

datatype sequence_decoder_error = SequenceDecoderError nat

definition sequence_decoder_new :: array_decoder where "sequence_decoder_new = array_decoder_new 4"

definition sequence_decoder_push ::
  "array_decoder \<Rightarrow> bytes \<Rightarrow> (sequence_decoder_error, dstatus) res \<times> array_decoder \<times> bytes" where
  "sequence_decoder_push = newtype_push SequenceDecoderError array_decoder_push"

definition sequence_decoder_end :: "array_decoder \<Rightarrow> (sequence_decoder_error, u32) res" where
  "sequence_decoder_end =
     newtype_end (end_with SequenceDecoderError (\<lambda>value. Ok (from_le_bytes value))) array_decoder_end"

definition sequence_decoder_run :: "array_decoder \<Rightarrow> bytes \<Rightarrow> (sequence_decoder_error, u32) presult" where
  "sequence_decoder_run = newtype_run SequenceDecoderError (\<lambda>value. Ok (from_le_bytes value)) array_decoder_run"

interpretation sequence_dec: push_decoder sequence_decoder_push sequence_decoder_end array_decoder_read_limit
  sequence_decoder_run array_decoder_inv
  unfolding sequence_decoder_push_def sequence_decoder_end_def sequence_decoder_run_def
  by (rule array_newtype) simp

lemma sequence_run:
  "sequence_decoder_run sequence_decoder_new x = POk v r \<longleftrightarrow> x = to_le_bytes v @ r"
  "sequence_decoder_run sequence_decoder_new x \<noteq> PPanic"
  unfolding sequence_decoder_run_def sequence_decoder_new_def
  by (simp_all add: array_newtype_run_iff array_newtype_no_panic le_u32_iff [symmetric] eq_commute [of v])

text \<open>Absolute lock times.\<close>

datatype lock_time_decoder_error = LockTimeDecoderError nat

definition lock_time_of_bytes :: "bytes \<Rightarrow> (lock_time_decoder_error, lock_time) res" where
  "lock_time_of_bytes value =
     (case lock_time_from_consensus (from_le_bytes value) of Ok l \<Rightarrow> Ok l | _ \<Rightarrow> Panic)"

definition lock_time_decoder_new :: array_decoder where "lock_time_decoder_new = array_decoder_new 4"

definition lock_time_decoder_push ::
  "array_decoder \<Rightarrow> bytes \<Rightarrow> (lock_time_decoder_error, dstatus) res \<times> array_decoder \<times> bytes" where
  "lock_time_decoder_push = newtype_push LockTimeDecoderError array_decoder_push"

definition lock_time_decoder_end :: "array_decoder \<Rightarrow> (lock_time_decoder_error, lock_time) res" where
  "lock_time_decoder_end = newtype_end (end_with LockTimeDecoderError lock_time_of_bytes) array_decoder_end"

definition lock_time_decoder_run :: "array_decoder \<Rightarrow> bytes \<Rightarrow> (lock_time_decoder_error, lock_time) presult" where
  "lock_time_decoder_run = newtype_run LockTimeDecoderError lock_time_of_bytes array_decoder_run"

lemma lock_time_of_bytes_Ok:
  "\<exists>l. lock_time_of_bytes b = Ok l \<and> lock_time_wf l \<and> lock_time_to_consensus l = from_le_bytes b"
  using lock_time_from_consensus_Ok [of "from_le_bytes b"]
  by (auto simp: lock_time_of_bytes_def simp del: lock_time_from_consensus.simps)

lemma lock_time_of_bytes_halts [simp]: "halts (lock_time_of_bytes b)" "lock_time_of_bytes b \<noteq> Panic"
  using lock_time_of_bytes_Ok [of b] by auto

interpretation lock_time_dec: push_decoder lock_time_decoder_push lock_time_decoder_end
  array_decoder_read_limit lock_time_decoder_run array_decoder_inv
  unfolding lock_time_decoder_push_def lock_time_decoder_end_def lock_time_decoder_run_def
  by (rule array_newtype) simp

lemma lock_time_of_bytes_iff:
  "lock_time_of_bytes b = Ok v \<longleftrightarrow> lock_time_wf v \<and> lock_time_to_consensus v = from_le_bytes b"
  using lock_time_of_bytes_Ok [of b] lock_time_from_to_consensus [of v]
  by (auto simp: lock_time_of_bytes_def simp del: lock_time_from_consensus.simps)

lemma lock_time_run:
  "lock_time_decoder_run lock_time_decoder_new x = POk v r \<longleftrightarrow>
     lock_time_wf v \<and> x = to_le_bytes (lock_time_to_consensus v) @ r"
  "lock_time_decoder_run lock_time_decoder_new x \<noteq> PPanic"
  "lock_time_decoder_run lock_time_decoder_new [] = PMore"
  unfolding lock_time_decoder_run_def lock_time_decoder_new_def
  by (auto simp add: array_newtype_run_iff array_newtype_no_panic array_newtype_more lock_time_of_bytes_iff
        le_u32_iff [symmetric])

text \<open>Amounts.\<close>

datatype amount_decoder_error = AmountEof nat | AmountOutOfRange out_of_range_error

definition amount_of_bytes :: "bytes \<Rightarrow> (amount_decoder_error, u64) res" where
  "amount_of_bytes value = map_err AmountOutOfRange (amount_from_sat (from_le_bytes value))"

definition amount_decoder_new :: array_decoder where "amount_decoder_new = array_decoder_new 8"

definition amount_decoder_push ::
  "array_decoder \<Rightarrow> bytes \<Rightarrow> (amount_decoder_error, dstatus) res \<times> array_decoder \<times> bytes" where
  "amount_decoder_push = newtype_push AmountEof array_decoder_push"

definition amount_decoder_end :: "array_decoder \<Rightarrow> (amount_decoder_error, u64) res" where
  "amount_decoder_end = newtype_end (end_with AmountEof amount_of_bytes) array_decoder_end"

definition amount_decoder_run :: "array_decoder \<Rightarrow> bytes \<Rightarrow> (amount_decoder_error, u64) presult" where
  "amount_decoder_run = newtype_run AmountEof amount_of_bytes array_decoder_run"

lemma amount_of_bytes_halts [simp]: "halts (amount_of_bytes b)" "amount_of_bytes b \<noteq> Panic"
  by (simp_all add: amount_of_bytes_def amount_from_sat_def)

interpretation amount_dec: push_decoder amount_decoder_push amount_decoder_end array_decoder_read_limit
  amount_decoder_run array_decoder_inv
  unfolding amount_decoder_push_def amount_decoder_end_def amount_decoder_run_def
  by (rule array_newtype) simp

lemma amount_of_bytes_iff: "amount_of_bytes b = Ok v \<longleftrightarrow> amount_ok v \<and> v = from_le_bytes b"
  by (auto simp: amount_of_bytes_def amount_from_sat_Ok)

lemma amount_run:
  "amount_decoder_run amount_decoder_new x = POk v r \<longleftrightarrow> amount_ok v \<and> x = to_le_bytes v @ r"
  "amount_decoder_run amount_decoder_new x \<noteq> PPanic"
  "amount_decoder_run amount_decoder_new [] = PMore"
  unfolding amount_decoder_run_def amount_decoder_new_def
  by (auto simp add: array_newtype_run_iff array_newtype_no_panic array_newtype_more amount_of_bytes_iff
        le_u64_iff [symmetric])

subsection \<open>Scripts and outpoints\<close>

datatype script_decoder_error = ScriptBufDecoderError byte_vec_error

definition script_decoder_new :: byte_vec_decoder where "script_decoder_new = byte_vec_decoder_new"

definition script_decoder_push ::
  "byte_vec_decoder \<Rightarrow> bytes \<Rightarrow> (script_decoder_error, dstatus) res \<times> byte_vec_decoder \<times> bytes" where
  "script_decoder_push = newtype_push ScriptBufDecoderError byte_vec_decoder_push"

definition script_decoder_end :: "byte_vec_decoder \<Rightarrow> (script_decoder_error, bytes) res" where
  "script_decoder_end = newtype_end (end_with ScriptBufDecoderError Ok) byte_vec_decoder_end"

definition script_decoder_run :: "byte_vec_decoder \<Rightarrow> bytes \<Rightarrow> (script_decoder_error, bytes) presult" where
  "script_decoder_run = newtype_run ScriptBufDecoderError Ok byte_vec_run"

interpretation script_nt: newtype_decoder byte_vec_decoder_push byte_vec_decoder_end
  byte_vec_decoder_read_limit byte_vec_run byte_vec_inv ScriptBufDecoderError Ok
  by unfold_locales simp

interpretation script_dec: push_decoder script_decoder_push script_decoder_end byte_vec_decoder_read_limit
  script_decoder_run byte_vec_inv
  unfolding script_decoder_push_def script_decoder_end_def script_decoder_run_def
  by (rule script_nt.newtype_push_decoder)

definition script_ok :: "bytes \<Rightarrow> bool" where
  "script_ok s \<longleftrightarrow> length s \<le> MAX_VEC_SIZE"

definition script_bytes :: "bytes \<Rightarrow> bytes" where
  "script_bytes s = compact_size_new (length s) @ s"

lemma byte_vec_new_no_panic: "byte_vec_run (byte_vec_decoder_new_with_limit limit) x \<noteq> PPanic"
  by (auto simp: byte_vec_run_def byte_vec_decoder_new_with_limit_def pbind_PPanic_iff take_exactly_def)

lemma script_new_inv [simp]: "byte_vec_inv script_decoder_new"
  by (simp add: script_decoder_new_def byte_vec_decoder_new_def)

lemma script_run:
  "script_decoder_run script_decoder_new x = POk v r \<longleftrightarrow> script_ok v \<and> x = script_bytes v @ r"
  "script_decoder_run script_decoder_new x \<noteq> PPanic"
proof -
  show "script_decoder_run script_decoder_new x = POk v r \<longleftrightarrow> script_ok v \<and> x = script_bytes v @ r"
    by (auto simp: script_decoder_run_def script_decoder_new_def byte_vec_decoder_new_def newtype_run_POk_iff
          byte_vec_new_run_iff script_ok_def script_bytes_def MAX_VEC_SIZE_def)
  show "script_decoder_run script_decoder_new x \<noteq> PPanic"
    by (auto simp: script_decoder_run_def script_decoder_new_def byte_vec_decoder_new_def newtype_run_def
          pbind_PPanic_iff byte_vec_new_no_panic)
qed

record out_point =
  txid :: bytes
  vout :: u32

definition COINBASE_PREVOUT :: out_point where
  "COINBASE_PREVOUT = \<lparr>txid = replicate 32 0, vout = 0xFFFFFFFF\<rparr>"

datatype out_point_decoder_error = OutPointDecoderError nat

definition out_point_of_bytes :: "bytes \<Rightarrow> (out_point_decoder_error, out_point) res" where
  "out_point_of_bytes encoded = Ok \<lparr>txid = take 32 encoded, vout = from_le_bytes (drop 32 encoded)\<rparr>"

definition out_point_decoder_new :: array_decoder where "out_point_decoder_new = array_decoder_new 36"

definition out_point_decoder_push ::
  "array_decoder \<Rightarrow> bytes \<Rightarrow> (out_point_decoder_error, dstatus) res \<times> array_decoder \<times> bytes" where
  "out_point_decoder_push = newtype_push OutPointDecoderError array_decoder_push"

definition out_point_decoder_end :: "array_decoder \<Rightarrow> (out_point_decoder_error, out_point) res" where
  "out_point_decoder_end = newtype_end (end_with OutPointDecoderError out_point_of_bytes) array_decoder_end"

definition out_point_decoder_run :: "array_decoder \<Rightarrow> bytes \<Rightarrow> (out_point_decoder_error, out_point) presult" where
  "out_point_decoder_run = newtype_run OutPointDecoderError out_point_of_bytes array_decoder_run"

lemma out_point_of_bytes_halts [simp]: "halts (out_point_of_bytes b)" "out_point_of_bytes b \<noteq> Panic"
  by (simp_all add: out_point_of_bytes_def)

interpretation out_point_dec: push_decoder out_point_decoder_push out_point_decoder_end
  array_decoder_read_limit out_point_decoder_run array_decoder_inv
  unfolding out_point_decoder_push_def out_point_decoder_end_def out_point_decoder_run_def
  by (rule array_newtype) simp

text \<open>The consensus form of an outpoint. \<open>out_point_ok\<close>: a \<open>Txid\<close> has 32 bytes.\<close>

definition out_point_ok :: "out_point \<Rightarrow> bool" where
  "out_point_ok p \<longleftrightarrow> length (txid p) = 32"

definition out_point_bytes :: "out_point \<Rightarrow> bytes" where
  "out_point_bytes p = txid p @ to_le_bytes (vout p)"

lemma out_point_of_bytes_iff:
  "(\<exists>b. length b = 36 \<and> x = b @ r \<and> out_point_of_bytes b = Ok p) \<longleftrightarrow>
     out_point_ok p \<and> x = out_point_bytes p @ r"
proof
  assume "\<exists>b. length b = 36 \<and> x = b @ r \<and> out_point_of_bytes b = Ok p"
  then obtain b where b: "length b = 36" "x = b @ r" "out_point_of_bytes b = Ok p" by blast
  have "to_le_bytes (from_le_bytes (drop 32 b) :: u32) = drop 32 b"
    using b(1) by (simp add: to_from_le_bytes)
  then show "out_point_ok p \<and> x = out_point_bytes p @ r"
    using b by (auto simp: out_point_of_bytes_def out_point_ok_def out_point_bytes_def)
next
  assume "out_point_ok p \<and> x = out_point_bytes p @ r"
  then show "\<exists>b. length b = 36 \<and> x = b @ r \<and> out_point_of_bytes b = Ok p"
    by (intro exI [of _ "out_point_bytes p"])
       (auto simp: out_point_of_bytes_def out_point_ok_def out_point_bytes_def)
qed

lemma out_point_run:
  "out_point_decoder_run out_point_decoder_new x = POk v r \<longleftrightarrow> out_point_ok v \<and> x = out_point_bytes v @ r"
  "out_point_decoder_run out_point_decoder_new x \<noteq> PPanic"
  "out_point_decoder_run out_point_decoder_new [] = PMore"
  unfolding out_point_decoder_run_def out_point_decoder_new_def
  by (simp_all add: array_newtype_run_iff array_newtype_no_panic array_newtype_more out_point_of_bytes_iff)

subsection \<open>Inputs and outputs\<close>

record tx_in =
  previous_output :: out_point
  script_sig :: bytes
  sequence_no :: u32
  tx_witness :: witness

type_synonym tx_in_state =
  "((array_decoder, out_point, byte_vec_decoder) decoder2, out_point \<times> bytes, array_decoder) decoder2"

datatype tx_in_decoder_error =
  TxInDecoderError "(out_point_decoder_error, script_decoder_error, sequence_decoder_error) decoder3_error"

definition tx_in_of_parts :: "out_point \<times> bytes \<times> u32 \<Rightarrow> (tx_in_decoder_error, tx_in) res" where
  "tx_in_of_parts parts = (case parts of (p, s, q) \<Rightarrow>
     Ok \<lparr>previous_output = p, script_sig = s, sequence_no = q, tx_witness = witness_new\<rparr>)"

definition tx_in_decoder_new :: tx_in_state where
  "tx_in_decoder_new = decoder3_new out_point_decoder_new script_decoder_new sequence_decoder_new"

definition tx_in_decoder_push ::
  "tx_in_state \<Rightarrow> bytes \<Rightarrow> (tx_in_decoder_error, dstatus) res \<times> tx_in_state \<times> bytes" where
  "tx_in_decoder_push = newtype_push TxInDecoderError
     (decoder3_push out_point_decoder_push out_point_decoder_end script_decoder_push script_decoder_end
        sequence_decoder_push)"

definition tx_in_decoder_end :: "tx_in_state \<Rightarrow> (tx_in_decoder_error, tx_in) res" where
  "tx_in_decoder_end = newtype_end (end_with TxInDecoderError tx_in_of_parts)
     (decoder3_end out_point_decoder_end script_decoder_end sequence_decoder_end)"

definition tx_in_decoder_read_limit :: "tx_in_state \<Rightarrow> nat" where
  "tx_in_decoder_read_limit =
     decoder3_read_limit array_decoder_read_limit byte_vec_decoder_read_limit array_decoder_read_limit"

definition tx_in_decoder_run :: "tx_in_state \<Rightarrow> bytes \<Rightarrow> (tx_in_decoder_error, tx_in) presult" where
  "tx_in_decoder_run = newtype_run TxInDecoderError tx_in_of_parts
     (decoder3_run out_point_decoder_run script_decoder_run sequence_decoder_run)"

definition tx_in_decoder_inv :: "tx_in_state \<Rightarrow> bool" where
  "tx_in_decoder_inv = decoder3_inv array_decoder_inv byte_vec_inv array_decoder_inv"

interpretation tx_in_parts: decoder_triple
  out_point_decoder_push out_point_decoder_end array_decoder_read_limit out_point_decoder_run array_decoder_inv
  script_decoder_push script_decoder_end byte_vec_decoder_read_limit script_decoder_run byte_vec_inv
  sequence_decoder_push sequence_decoder_end array_decoder_read_limit sequence_decoder_run array_decoder_inv
  by unfold_locales

interpretation tx_in_dec: push_decoder tx_in_decoder_push tx_in_decoder_end tx_in_decoder_read_limit
  tx_in_decoder_run tx_in_decoder_inv
  unfolding tx_in_decoder_push_def tx_in_decoder_end_def tx_in_decoder_read_limit_def tx_in_decoder_run_def
    tx_in_decoder_inv_def
  by (intro newtype_decoder.newtype_push_decoder newtype_decoder.intro newtype_decoder_axioms.intro
        tx_in_parts.triple_push_decoder)
     (simp add: tx_in_of_parts_def split: prod.splits)

definition tx_in_ok :: "tx_in \<Rightarrow> bool" where
  "tx_in_ok i \<longleftrightarrow> out_point_ok (previous_output i) \<and> script_ok (script_sig i)"

definition tx_in_bytes :: "tx_in \<Rightarrow> bytes" where
  "tx_in_bytes i = out_point_bytes (previous_output i) @ script_bytes (script_sig i) @ to_le_bytes (sequence_no i)"

lemma decoder3_run_new:
  "decoder3_run run_a run_b run_c (decoder3_new a b c) x =
     pbind (pmap_err decoder3_map_err
       (pbind (pmap_err First_error
          (pbind (pmap_err First_error (run_a a x)) (\<lambda>v y.
             pbind (pmap_err Second_error (run_b b y)) (\<lambda>w. POk (v, w)))))
        (\<lambda>vw y. pbind (pmap_err Second_error (run_c c y)) (\<lambda>u. POk (vw, u)))))
       (\<lambda>v. finished (flatten3 v))"
  by (simp add: decoder3_run_def decoder3_new_def newtype_run_def)

lemma decoder3_run_new_iff:
  "decoder3_run run_a run_b run_c (decoder3_new a b c) x = POk (u, v, w) r \<longleftrightarrow>
     (\<exists>y z. run_a a x = POk u y \<and> run_b b y = POk v z \<and> run_c c z = POk w r)"
  by (auto simp: decoder3_run_new pbind_POk_iff finished_POk)

lemma decoder3_run_new_panic:
  "(\<And>x. run_a a x \<noteq> PPanic) \<Longrightarrow> (\<And>x. run_b b x \<noteq> PPanic) \<Longrightarrow> (\<And>x. run_c c x \<noteq> PPanic) \<Longrightarrow>
     decoder3_run run_a run_b run_c (decoder3_new a b c) x \<noteq> PPanic"
  by (auto simp: decoder3_run_new pbind_PPanic_iff)

lemma tx_in_run:
  "tx_in_decoder_run tx_in_decoder_new x = POk v r \<longleftrightarrow>
     tx_in_ok v \<and> tx_witness v = witness_new \<and> x = tx_in_bytes v @ r"
  "tx_in_decoder_run tx_in_decoder_new x \<noteq> PPanic"
  "tx_in_decoder_run tx_in_decoder_new [] = PMore"
proof -
  show "tx_in_decoder_run tx_in_decoder_new x = POk v r \<longleftrightarrow>
      tx_in_ok v \<and> tx_witness v = witness_new \<and> x = tx_in_bytes v @ r"
    by (cases v) (auto simp: tx_in_decoder_run_def tx_in_decoder_new_def newtype_run_POk_iff
          tx_in_of_parts_def decoder3_run_new_iff out_point_run script_run sequence_run tx_in_ok_def tx_in_bytes_def)
  have "decoder3_run out_point_decoder_run script_decoder_run sequence_decoder_run
      (decoder3_new out_point_decoder_new script_decoder_new sequence_decoder_new) x \<noteq> PPanic"
    by (rule decoder3_run_new_panic) (simp_all add: out_point_run script_run sequence_run)
  then show "tx_in_decoder_run tx_in_decoder_new x \<noteq> PPanic"
    by (auto simp: tx_in_decoder_run_def tx_in_decoder_new_def newtype_run_def pbind_PPanic_iff tx_in_of_parts_def)
  show "tx_in_decoder_run tx_in_decoder_new [] = PMore"
    by (simp add: tx_in_decoder_run_def tx_in_decoder_new_def newtype_run_def decoder3_run_new out_point_run)
qed

record tx_out =
  amount :: u64
  script_pubkey :: bytes

type_synonym tx_out_state = "(array_decoder, u64, byte_vec_decoder) decoder2"

datatype tx_out_decoder_error = TxOutDecoderError "(amount_decoder_error, script_decoder_error) decoder2_error"

definition tx_out_of_parts :: "u64 \<times> bytes \<Rightarrow> (tx_out_decoder_error, tx_out) res" where
  "tx_out_of_parts parts = (case parts of (a, s) \<Rightarrow> Ok \<lparr>amount = a, script_pubkey = s\<rparr>)"

definition tx_out_decoder_new :: tx_out_state where
  "tx_out_decoder_new = First amount_decoder_new script_decoder_new"

definition tx_out_decoder_push ::
  "tx_out_state \<Rightarrow> bytes \<Rightarrow> (tx_out_decoder_error, dstatus) res \<times> tx_out_state \<times> bytes" where
  "tx_out_decoder_push = newtype_push TxOutDecoderError
     (decoder2_push amount_decoder_push amount_decoder_end script_decoder_push)"

definition tx_out_decoder_end :: "tx_out_state \<Rightarrow> (tx_out_decoder_error, tx_out) res" where
  "tx_out_decoder_end = newtype_end (end_with TxOutDecoderError tx_out_of_parts)
     (decoder2_end amount_decoder_end script_decoder_end)"

definition tx_out_decoder_read_limit :: "tx_out_state \<Rightarrow> nat" where
  "tx_out_decoder_read_limit = decoder2_read_limit array_decoder_read_limit byte_vec_decoder_read_limit"

definition tx_out_decoder_run :: "tx_out_state \<Rightarrow> bytes \<Rightarrow> (tx_out_decoder_error, tx_out) presult" where
  "tx_out_decoder_run = newtype_run TxOutDecoderError tx_out_of_parts
     (decoder2_run amount_decoder_run script_decoder_run)"

definition tx_out_decoder_inv :: "tx_out_state \<Rightarrow> bool" where
  "tx_out_decoder_inv = decoder2_inv array_decoder_inv byte_vec_inv"

interpretation tx_out_parts: decoder_pair
  amount_decoder_push amount_decoder_end array_decoder_read_limit amount_decoder_run array_decoder_inv
  script_decoder_push script_decoder_end byte_vec_decoder_read_limit script_decoder_run byte_vec_inv
  by unfold_locales

interpretation tx_out_dec: push_decoder tx_out_decoder_push tx_out_decoder_end tx_out_decoder_read_limit
  tx_out_decoder_run tx_out_decoder_inv
  unfolding tx_out_decoder_push_def tx_out_decoder_end_def tx_out_decoder_read_limit_def tx_out_decoder_run_def
    tx_out_decoder_inv_def
  by (intro newtype_decoder.newtype_push_decoder newtype_decoder.intro newtype_decoder_axioms.intro
        tx_out_parts.pair_push_decoder)
     (simp add: tx_out_of_parts_def split: prod.splits)

definition tx_out_ok :: "tx_out \<Rightarrow> bool" where
  "tx_out_ok out \<longleftrightarrow> amount_ok (amount out) \<and> script_ok (script_pubkey out)"

definition tx_out_bytes :: "tx_out \<Rightarrow> bytes" where
  "tx_out_bytes out = to_le_bytes (amount out) @ script_bytes (script_pubkey out)"

lemma tx_out_run:
  "tx_out_decoder_run tx_out_decoder_new x = POk v r \<longleftrightarrow> tx_out_ok v \<and> x = tx_out_bytes v @ r"
  "tx_out_decoder_run tx_out_decoder_new x \<noteq> PPanic"
  "tx_out_decoder_run tx_out_decoder_new [] = PMore"
proof -
  show "tx_out_decoder_run tx_out_decoder_new x = POk v r \<longleftrightarrow> tx_out_ok v \<and> x = tx_out_bytes v @ r"
    by (cases v) (auto simp: tx_out_decoder_run_def tx_out_decoder_new_def newtype_run_POk_iff pbind_POk_iff
          tx_out_of_parts_def amount_run script_run tx_out_ok_def tx_out_bytes_def)
  show "tx_out_decoder_run tx_out_decoder_new x \<noteq> PPanic"
    by (auto simp: tx_out_decoder_run_def tx_out_decoder_new_def newtype_run_def pbind_PPanic_iff
          tx_out_of_parts_def amount_run script_run)
  show "tx_out_decoder_run tx_out_decoder_new [] = PMore"
    by (simp add: tx_out_decoder_run_def tx_out_decoder_new_def newtype_run_def amount_run)
qed

lemma new_invs [simp]:
  "array_decoder_inv version_decoder_new" "array_decoder_inv lock_time_decoder_new"
  "tx_in_decoder_inv tx_in_decoder_new" "tx_out_decoder_inv tx_out_decoder_new"
  by (simp_all add: version_decoder_new_def lock_time_decoder_new_def tx_in_decoder_inv_def tx_in_decoder_new_def
        decoder3_inv_def decoder3_new_def out_point_decoder_new_def sequence_decoder_new_def
        tx_out_decoder_inv_def tx_out_decoder_new_def amount_decoder_new_def)

subsection \<open>Vectors of inputs and of outputs\<close>

type_synonym tx_ins_decoder = "(tx_in_state, tx_in) vec_decoder"
type_synonym tx_outs_decoder = "(tx_out_state, tx_out) vec_decoder"

interpretation tx_ins: item_decoder tx_in_decoder_push tx_in_decoder_end tx_in_decoder_read_limit
  tx_in_decoder_run tx_in_decoder_inv tx_in_decoder_new
  by unfold_locales (simp_all add: tx_in_run)

interpretation tx_outs: item_decoder tx_out_decoder_push tx_out_decoder_end tx_out_decoder_read_limit
  tx_out_decoder_run tx_out_decoder_inv tx_out_decoder_new
  by unfold_locales (simp_all add: tx_out_run)

definition vec_bytes :: "('a \<Rightarrow> bytes) \<Rightarrow> 'a list \<Rightarrow> bytes" where
  "vec_bytes f xs = compact_size_new (length xs) @ concat (map f xs)"

text \<open>What a vector decoder accepts, from what its item decoder accepts.\<close>

lemma run_items_iff:
  assumes "\<And>x v r. p x = POk v r \<longleftrightarrow> ok v \<and> x = f v @ r"
  shows "run_items p n x = POk vs r \<longleftrightarrow> length vs = n \<and> (\<forall>v \<in> set vs. ok v) \<and> x = concat (map f vs) @ r"
proof (induction n arbitrary: x vs)
  case 0
  then show ?case by auto
next
  case (Suc n)
  have "run_items p (Suc n) x = POk vs r \<longleftrightarrow>
      (\<exists>v vs'. vs = v # vs' \<and> ok v \<and> length vs' = n \<and> (\<forall>v \<in> set vs'. ok v) \<and> x = f v @ concat (map f vs') @ r)"
    by (auto simp: pbind_POk_iff assms Suc.IH)
  also have "\<dots> \<longleftrightarrow> length vs = Suc n \<and> (\<forall>v \<in> set vs. ok v) \<and> x = concat (map f vs) @ r"
    by (cases vs) auto
  finally show ?case .
qed

lemma run_items_no_panic: "(\<And>x. p x \<noteq> PPanic) \<Longrightarrow> run_items p n x \<noteq> PPanic"
  by (induction n arbitrary: x) (auto simp: pbind_PPanic_iff)

lemma vec_new_run:
  "vec_run run new_item vec_decoder_new x =
     pbind (pmap_err VecLengthPrefix (compact_size_decoder_run (compact_size_decoder_new_with_limit MAX_VEC_SIZE) x))
       (\<lambda>n y. pmap_err VecItem (run_items (run new_item) n y))"
proof -
  have "vec_rest run new_item [] n None = (\<lambda>y. pmap_err VecItem (run_items (run new_item) n y))" for n
    by (rule ext, cases n) (simp_all add: vec_rest_def)
  then show ?thesis
    by (simp add: vec_run_def vec_decoder_new_def vec_decoder_new_with_limit_def)
qed

lemma vec_new_run_iff:
  assumes "\<And>x v r. run new_item x = POk v r \<longleftrightarrow> ok v \<and> x = f v @ r"
  shows "vec_run run new_item vec_decoder_new x = POk vs r \<longleftrightarrow>
    length vs \<le> MAX_VEC_SIZE \<and> (\<forall>v \<in> set vs. ok v) \<and> x = vec_bytes f vs @ r"
  unfolding vec_new_run pbind_POk_iff pmap_err_POk_iff compact_size_decoder_new_run_iff
    run_items_iff [of "run new_item" ok f, OF assms]
  by (auto simp: vec_bytes_def MAX_VEC_SIZE_def)

lemma vec_new_no_panic:
  "(\<And>x. run new_item x \<noteq> PPanic) \<Longrightarrow> vec_run run new_item vec_decoder_new x \<noteq> PPanic"
  by (auto simp: vec_new_run pbind_PPanic_iff run_items_no_panic)

lemma vec_new_more: "vec_run run new_item vec_decoder_new [] = PMore"
  by (simp add: vec_new_run compact_size_decoder_run_def compact_size_decoder_new_with_limit_def compact_size_run_def)

lemma vec_new_inv [simp]: "vec_inv run pending vec_decoder_new"
  by (simp add: vec_inv_def vec_decoder_new_def vec_decoder_new_with_limit_def compact_size_decoder_run_def
        compact_size_decoder_new_with_limit_def compact_size_run_def compact_size_decoder_inv_def compact_size_inv_def)

end
