(* ===== verification/Transaction.thy ===== *)
theory Transaction
  imports Tx_Parts "HOL-Library.List_Lexorder" "HOL-Library.Product_Lexorder"
begin

section \<open>Transactions: data, identifiers and encoder\<close>

text \<open>
  \<open>primitives/src/transaction.rs\<close>: the transaction type, the choice between the two consensus
  serialisations, the encoder of each part and of the whole, and the preimages of the
  transaction identifiers. The double SHA-256 hash is the argument \<open>sha256d\<close>.
\<close>

subsection \<open>Transactions\<close>

record transaction =
  version :: u32
  lock_time_of :: lock_time
  inputs :: "tx_in list"
  outputs :: "tx_out list"

definition uses_segwit_serialization :: "transaction \<Rightarrow> bool" where
  "uses_segwit_serialization tx =
     (if list_ex (\<lambda>input. \<not> witness_is_empty (tx_witness input)) (inputs tx) then True else inputs tx = [])"

definition is_coinbase :: "transaction \<Rightarrow> bool" where
  "is_coinbase tx \<longleftrightarrow> length (inputs tx) = 1 \<and> previous_output (inputs tx ! 0) = COINBASE_PREVOUT"

subsection \<open>Encoders of the parts\<close>

definition out_point_encoder_new :: "out_point \<Rightarrow> (bytes_encoder, array_encoder) encoder2" where
  "out_point_encoder_new p = encoder2_new \<lparr>be_sl = txid p\<rparr> \<lparr>ae_arr = to_le_bytes (vout p)\<rparr>"

type_synonym tx_in_encoder =
  "((bytes_encoder, array_encoder) encoder2, prefixed_bytes_encoder, array_encoder) encoder3"

definition tx_in_encoder_new :: "tx_in \<Rightarrow> tx_in_encoder" where
  "tx_in_encoder_new i = encoder3_new (out_point_encoder_new (previous_output i))
     (prefixed_bytes_encoder_new (script_sig i)) \<lparr>ae_arr = to_le_bytes (sequence_no i)\<rparr>"

definition tx_in_encoder_chunk :: "tx_in_encoder \<Rightarrow> bytes option" where
  "tx_in_encoder_chunk = encoder3_chunk (encoder2_chunk bytes_encoder_chunk array_encoder_chunk)
     prefixed_bytes_encoder_chunk array_encoder_chunk"

definition tx_in_encoder_advance :: "tx_in_encoder \<Rightarrow> (estatus \<times> tx_in_encoder) option" where
  "tx_in_encoder_advance = encoder3_advance (encoder2_advance bytes_encoder_advance array_encoder_advance)
     prefixed_bytes_encoder_advance array_encoder_advance"

definition tx_in_encoder_out :: "tx_in_encoder \<Rightarrow> bytes" where
  "tx_in_encoder_out = encoder3_out (encoder2_out be_sl ae_arr) prefixed_bytes_out ae_arr"

definition tx_in_encoder_steps :: "tx_in_encoder \<Rightarrow> nat" where
  "tx_in_encoder_steps = encoder3_steps (encoder2_steps (\<lambda>_. 0) (\<lambda>_. 0)) prefixed_bytes_steps (\<lambda>_. 0)"

definition tx_in_encoder_valid :: "tx_in_encoder \<Rightarrow> bool" where
  "tx_in_encoder_valid = encoder3_valid (encoder2_valid (\<lambda>_. True) (\<lambda>_. True)) prefixed_bytes_valid (\<lambda>_. True)"

interpretation out_point_enc: encoder_pair bytes_encoder_chunk bytes_encoder_advance be_sl "\<lambda>_. 0" "\<lambda>_. True"
  array_encoder_chunk array_encoder_advance ae_arr "\<lambda>_. 0" "\<lambda>_. True"
  by unfold_locales

interpretation tx_in_enc_parts: encoder_triple
  "encoder2_chunk bytes_encoder_chunk array_encoder_chunk"
  "encoder2_advance bytes_encoder_advance array_encoder_advance" "encoder2_out be_sl ae_arr"
  "encoder2_steps (\<lambda>_. 0) (\<lambda>_. 0)" "encoder2_valid (\<lambda>_. True) (\<lambda>_. True)"
  prefixed_bytes_encoder_chunk prefixed_bytes_encoder_advance prefixed_bytes_out prefixed_bytes_steps
  prefixed_bytes_valid
  array_encoder_chunk array_encoder_advance ae_arr "\<lambda>_. 0" "\<lambda>_. True"
  by unfold_locales

interpretation tx_in_enc: encoder tx_in_encoder_chunk tx_in_encoder_advance tx_in_encoder_out
  tx_in_encoder_steps tx_in_encoder_valid
  unfolding tx_in_encoder_chunk_def tx_in_encoder_advance_def tx_in_encoder_out_def tx_in_encoder_steps_def
    tx_in_encoder_valid_def
  by (rule tx_in_enc_parts.triple_encoder)

lemma out_point_encoder_new:
  "encoder2_valid (\<lambda>_. True) (\<lambda>_. True) (out_point_encoder_new p)"
  "encoder2_out be_sl ae_arr (out_point_encoder_new p) = out_point_bytes p"
  by (simp_all add: out_point_encoder_new_def encoder2_valid_def encoder2_new_def encoder2_out_def
        out_point_bytes_def)

lemma tx_in_encoder_new:
  "tx_in_encoder_valid (tx_in_encoder_new i)"
  "tx_in_encoder_out (tx_in_encoder_new i) = tx_in_bytes i"
  using out_point_encoder_new [of "previous_output i"]
  by (simp_all add: tx_in_encoder_new_def tx_in_encoder_valid_def encoder3_valid_def encoder3_new_def
        tx_in_encoder_out_def encoder3_out_def tx_in_bytes_def script_bytes_def)

interpretation tx_ins_enc: item_encoder tx_in_encoder_chunk tx_in_encoder_advance tx_in_encoder_out
  tx_in_encoder_steps tx_in_encoder_valid tx_in_encoder_new "\<lambda>_. True"
  by unfold_locales (rule tx_in_encoder_new)

type_synonym tx_out_encoder = "(array_encoder, prefixed_bytes_encoder) encoder2"

definition tx_out_encoder_new :: "tx_out \<Rightarrow> tx_out_encoder" where
  "tx_out_encoder_new out =
     encoder2_new \<lparr>ae_arr = to_le_bytes (amount out)\<rparr> (prefixed_bytes_encoder_new (script_pubkey out))"

definition tx_out_encoder_chunk :: "tx_out_encoder \<Rightarrow> bytes option" where
  "tx_out_encoder_chunk = encoder2_chunk array_encoder_chunk prefixed_bytes_encoder_chunk"

definition tx_out_encoder_advance :: "tx_out_encoder \<Rightarrow> (estatus \<times> tx_out_encoder) option" where
  "tx_out_encoder_advance = encoder2_advance array_encoder_advance prefixed_bytes_encoder_advance"

definition tx_out_encoder_out :: "tx_out_encoder \<Rightarrow> bytes" where
  "tx_out_encoder_out = encoder2_out ae_arr prefixed_bytes_out"

definition tx_out_encoder_steps :: "tx_out_encoder \<Rightarrow> nat" where
  "tx_out_encoder_steps = encoder2_steps (\<lambda>_. 0) prefixed_bytes_steps"

definition tx_out_encoder_valid :: "tx_out_encoder \<Rightarrow> bool" where
  "tx_out_encoder_valid = encoder2_valid (\<lambda>_. True) prefixed_bytes_valid"

interpretation tx_out_enc_parts: encoder_pair array_encoder_chunk array_encoder_advance ae_arr "\<lambda>_. 0" "\<lambda>_. True"
  prefixed_bytes_encoder_chunk prefixed_bytes_encoder_advance prefixed_bytes_out prefixed_bytes_steps
  prefixed_bytes_valid
  by unfold_locales

interpretation tx_out_enc: encoder tx_out_encoder_chunk tx_out_encoder_advance tx_out_encoder_out
  tx_out_encoder_steps tx_out_encoder_valid
  unfolding tx_out_encoder_chunk_def tx_out_encoder_advance_def tx_out_encoder_out_def tx_out_encoder_steps_def
    tx_out_encoder_valid_def
  by (rule tx_out_enc_parts.pair_encoder)

lemma tx_out_encoder_new:
  "tx_out_encoder_valid (tx_out_encoder_new out)"
  "tx_out_encoder_out (tx_out_encoder_new out) = tx_out_bytes out"
  by (simp_all add: tx_out_encoder_new_def tx_out_encoder_valid_def encoder2_valid_def encoder2_new_def
        tx_out_encoder_out_def encoder2_out_def tx_out_bytes_def script_bytes_def)

interpretation tx_outs_enc: item_encoder tx_out_encoder_chunk tx_out_encoder_advance tx_out_encoder_out
  tx_out_encoder_steps tx_out_encoder_valid tx_out_encoder_new "\<lambda>_. True"
  by unfold_locales (rule tx_out_encoder_new)

subsection \<open>Witnesses\<close>

text \<open>\<open>&self.content[..self.indices_start]\<close> panics on an index past the end: \<open>None\<close>. A witness
  encoder has the parts of a prefixed byte string.\<close>

definition slice_to :: "nat \<Rightarrow> 'a list \<Rightarrow> 'a list option" where
  "slice_to n xs = (if n \<le> length xs then Some (take n xs) else None)"

definition witness_encoder_new :: "witness \<Rightarrow> prefixed_bytes_encoder option" where
  "witness_encoder_new w = map_option
     (\<lambda>sl. encoder2_new (compact_size_encoder_new (w_elements w)) \<lparr>be_sl = sl\<rparr>)
     (slice_to (w_indices_start w) (w_content w))"

text \<open>\<open>WitnessesEncoder\<close> has the fields of a slice encoder, the inputs and the current encoder, but its
  own code.\<close>

type_synonym witnesses_encoder = "(tx_in, prefixed_bytes_encoder) slice_encoder"

definition witnesses_encoder_new :: "tx_in list \<Rightarrow> witnesses_encoder option" where
  "witnesses_encoder_new ins =
     (case ins of
        [] \<Rightarrow> Some \<lparr>se_sl = [], se_cur = None\<rparr>
      | i # is \<Rightarrow> map_option (\<lambda>enc. \<lparr>se_sl = ins, se_cur = Some enc\<rparr>) (witness_encoder_new (tx_witness i)))"

definition witnesses_encoder_chunk :: "witnesses_encoder \<Rightarrow> bytes option" where
  "witnesses_encoder_chunk e =
     (case se_cur e of None \<Rightarrow> Some [] | Some cur \<Rightarrow> prefixed_bytes_encoder_chunk cur)"

fun witnesses_encoder_loop ::
  "tx_in list \<Rightarrow> prefixed_bytes_encoder \<Rightarrow> (estatus \<times> witnesses_encoder) option" where
  "witnesses_encoder_loop ins cur =
     (case prefixed_bytes_encoder_advance cur of
        None \<Rightarrow> None
      | Some (HasMore, cur') \<Rightarrow> Some (HasMore, \<lparr>se_sl = ins, se_cur = Some cur'\<rparr>)
      | Some (Finished, cur') \<Rightarrow>
          (case ins of
             [] \<Rightarrow> None
           | [i] \<Rightarrow> Some (Finished, \<lparr>se_sl = [], se_cur = None\<rparr>)
           | _ # input # is \<Rightarrow>
               (case witness_encoder_new (tx_witness input) of
                  None \<Rightarrow> None
                | Some enc \<Rightarrow>
                    (case prefixed_bytes_encoder_chunk enc of
                       None \<Rightarrow> None
                     | Some c \<Rightarrow>
                         if c \<noteq> [] then Some (HasMore, \<lparr>se_sl = input # is, se_cur = Some enc\<rparr>)
                         else witnesses_encoder_loop (input # is) enc))))"

definition witnesses_encoder_advance :: "witnesses_encoder \<Rightarrow> (estatus \<times> witnesses_encoder) option" where
  "witnesses_encoder_advance e =
     (case se_cur e of
        None \<Rightarrow> Some (Finished, e)
      | Some cur \<Rightarrow> witnesses_encoder_loop (se_sl e) cur)"

text \<open>The index area of a witness starts within its content.\<close>

definition witness_sliced :: "tx_in \<Rightarrow> bool" where
  "witness_sliced i \<longleftrightarrow> w_indices_start (tx_witness i) \<le> length (w_content (tx_witness i))"

definition witness_enc_of :: "tx_in \<Rightarrow> prefixed_bytes_encoder" where
  "witness_enc_of i = the (witness_encoder_new (tx_witness i))"

definition witness_bytes :: "witness \<Rightarrow> bytes" where
  "witness_bytes w = compact_size_new (w_elements w) @ take (w_indices_start w) (w_content w)"

lemma witness_encoder_new_Some: "witness_sliced i \<Longrightarrow> witness_encoder_new (tx_witness i) = Some (witness_enc_of i)"
  by (simp add: witness_sliced_def witness_enc_of_def witness_encoder_new_def slice_to_def)

lemma witness_enc_of:
  assumes "witness_sliced i"
  shows "prefixed_bytes_valid (witness_enc_of i)"
    and "prefixed_bytes_out (witness_enc_of i) = witness_bytes (tx_witness i)"
  using assms
  by (simp_all add: witness_sliced_def witness_enc_of_def witness_encoder_new_def slice_to_def
        prefixed_bytes_valid_def encoder2_valid_def encoder2_new_def prefixed_bytes_out_def encoder2_out_def
        witness_bytes_def compact_size_encoder_new_def compact_size_new_def)

interpretation witness_item_enc: item_encoder prefixed_bytes_encoder_chunk prefixed_bytes_encoder_advance
  prefixed_bytes_out prefixed_bytes_steps prefixed_bytes_valid witness_enc_of witness_sliced
  by unfold_locales (rule witness_enc_of)

text \<open>On sliced witnesses the code is that of the slice encoder.\<close>

lemma witnesses_loop_eq:
  "\<forall>i \<in> set (tl ins). witness_sliced i \<Longrightarrow> witnesses_encoder_loop ins cur =
     slice_encoder_loop prefixed_bytes_encoder_chunk prefixed_bytes_encoder_advance witness_enc_of ins cur"
proof (induction ins arbitrary: cur)
  case Nil
  then show ?case by (simp split: option.splits estatus.splits prod.splits)
next
  case (Cons i ins)
  show ?case
  proof (cases ins)
    case Nil
    then show ?thesis by (simp split: option.splits prod.splits estatus.splits)
  next
    case (Cons j js)
    then have "witness_sliced j" "\<forall>i \<in> set (tl ins). witness_sliced i" using Cons.prems by auto
    then show ?thesis using Cons Cons.IH [of "witness_enc_of j"]
      by (simp add: witness_encoder_new_Some split: option.splits prod.splits estatus.splits)
  qed
qed

definition witnesses_encoder_out :: "witnesses_encoder \<Rightarrow> bytes" where
  "witnesses_encoder_out = slice_encoder_out prefixed_bytes_out witness_enc_of"

definition witnesses_encoder_steps :: "witnesses_encoder \<Rightarrow> nat" where
  "witnesses_encoder_steps = slice_encoder_steps prefixed_bytes_steps witness_enc_of"

definition witnesses_encoder_valid :: "witnesses_encoder \<Rightarrow> bool" where
  "witnesses_encoder_valid = slice_encoder_valid prefixed_bytes_valid witness_enc_of witness_sliced"

lemma witnesses_advance_eq:
  "witnesses_encoder_valid e \<Longrightarrow> witnesses_encoder_advance e =
     slice_encoder_advance prefixed_bytes_encoder_chunk prefixed_bytes_encoder_advance witness_enc_of e"
  by (auto simp: witnesses_encoder_valid_def slice_encoder_valid_def witnesses_encoder_advance_def
        slice_encoder_advance_def witnesses_loop_eq
        simp del: slice_encoder_loop.simps witnesses_encoder_loop.simps split: option.splits)

lemma witnesses_chunk_eq: "witnesses_encoder_chunk = slice_encoder_chunk prefixed_bytes_encoder_chunk"
  by (rule ext) (simp add: witnesses_encoder_chunk_def slice_encoder_chunk_def)

interpretation witnesses_enc: encoder witnesses_encoder_chunk witnesses_encoder_advance witnesses_encoder_out
  witnesses_encoder_steps witnesses_encoder_valid
proof
  fix e e'
  assume valid: "witnesses_encoder_valid e"
  note slice = witness_item_enc.slice_encoder [folded witnesses_encoder_out_def witnesses_encoder_steps_def
      witnesses_encoder_valid_def witnesses_chunk_eq]
  note adv = witnesses_advance_eq [OF valid]
  show "witnesses_encoder_chunk e \<noteq> None" by (rule encoder.chunk_returns [OF slice valid])
  show "witnesses_encoder_advance e \<noteq> None" unfolding adv by (rule encoder.advance_returns [OF slice valid])
  show "witnesses_encoder_advance e = Some (HasMore, e') \<Longrightarrow> witnesses_encoder_valid e' \<and>
      witnesses_encoder_out e = the (witnesses_encoder_chunk e) @ witnesses_encoder_out e' \<and>
      witnesses_encoder_steps e' < witnesses_encoder_steps e"
    unfolding adv by (rule encoder.advance_more [OF slice valid])
  show "witnesses_encoder_advance e = Some (Finished, e') \<Longrightarrow>
      witnesses_encoder_out e = the (witnesses_encoder_chunk e)"
    unfolding adv by (rule encoder.advance_finished [OF slice valid])
qed

lemma witnesses_encoder_new:
  assumes "\<forall>i \<in> set ins. witness_sliced i"
  shows "\<exists>e. witnesses_encoder_new ins = Some e \<and> witnesses_encoder_valid e \<and>
    witnesses_encoder_out e = concat (map (\<lambda>i. witness_bytes (tx_witness i)) ins)"
proof (cases ins)
  case Nil
  then show ?thesis
    by (simp add: witnesses_encoder_new_def witnesses_encoder_valid_def slice_encoder_valid_def
          witnesses_encoder_out_def slice_encoder_out_def)
next
  case (Cons i js)
  have "map (\<lambda>x. prefixed_bytes_out (witness_enc_of x)) ins = map (\<lambda>i. witness_bytes (tx_witness i)) ins"
    using assms witness_enc_of(2) by simp
  then show ?thesis
    using assms Cons witness_enc_of(1) [of i]
    by (simp add: witnesses_encoder_new_def witness_encoder_new_Some witnesses_encoder_valid_def
          slice_encoder_valid_def witnesses_encoder_out_def slice_encoder_out_def cong: map_cong)
qed

subsection \<open>The encoder of a transaction\<close>

type_synonym transaction_encoder =
  "(array_encoder, array_encoder option, (tx_in, tx_in_encoder) prefixed_slice_encoder,
    (tx_out, tx_out_encoder) prefixed_slice_encoder, witnesses_encoder option, array_encoder) encoder6"

definition transaction_encoder_new :: "transaction \<Rightarrow> transaction_encoder option" where
  "transaction_encoder_new tx =
     (let version = \<lparr>ae_arr = to_le_bytes (version tx)\<rparr>;
          ins = prefixed_slice_encoder_new tx_in_encoder_new (inputs tx);
          outs = prefixed_slice_encoder_new tx_out_encoder_new (outputs tx);
          lock_time = \<lparr>ae_arr = to_le_bytes (lock_time_to_consensus (lock_time_of tx))\<rparr> in
      if uses_segwit_serialization tx then
        map_option (\<lambda>witnesses. encoder6_new version (Some \<lparr>ae_arr = [0x00, 0x01]\<rparr>) ins outs (Some witnesses) lock_time)
          (witnesses_encoder_new (inputs tx))
      else Some (encoder6_new version None ins outs None lock_time))"

definition transaction_encoder_chunk :: "transaction_encoder \<Rightarrow> bytes option" where
  "transaction_encoder_chunk = encoder6_chunk array_encoder_chunk (option_chunk array_encoder_chunk)
     (prefixed_slice_encoder_chunk tx_in_encoder_chunk) (prefixed_slice_encoder_chunk tx_out_encoder_chunk)
     (option_chunk witnesses_encoder_chunk) array_encoder_chunk"

definition transaction_encoder_advance :: "transaction_encoder \<Rightarrow> (estatus \<times> transaction_encoder) option" where
  "transaction_encoder_advance = encoder6_advance array_encoder_advance (option_advance array_encoder_advance)
     (prefixed_slice_encoder_advance tx_in_encoder_chunk tx_in_encoder_advance tx_in_encoder_new)
     (prefixed_slice_encoder_advance tx_out_encoder_chunk tx_out_encoder_advance tx_out_encoder_new)
     (option_advance witnesses_encoder_advance) array_encoder_advance"

definition transaction_encoder_out :: "transaction_encoder \<Rightarrow> bytes" where
  "transaction_encoder_out = encoder6_out ae_arr (option_out ae_arr)
     (prefixed_slice_out tx_in_encoder_out tx_in_encoder_new)
     (prefixed_slice_out tx_out_encoder_out tx_out_encoder_new) (option_out witnesses_encoder_out) ae_arr"

definition transaction_encoder_steps :: "transaction_encoder \<Rightarrow> nat" where
  "transaction_encoder_steps = encoder6_steps (\<lambda>_. 0) (option_steps (\<lambda>_. 0))
     (prefixed_slice_steps tx_in_encoder_steps tx_in_encoder_new)
     (prefixed_slice_steps tx_out_encoder_steps tx_out_encoder_new) (option_steps witnesses_encoder_steps) (\<lambda>_. 0)"

definition transaction_encoder_valid :: "transaction_encoder \<Rightarrow> bool" where
  "transaction_encoder_valid = encoder6_valid (\<lambda>_. True) (option_valid (\<lambda>_. True))
     (prefixed_slice_valid tx_in_encoder_valid tx_in_encoder_new (\<lambda>_. True))
     (prefixed_slice_valid tx_out_encoder_valid tx_out_encoder_new (\<lambda>_. True))
     (option_valid witnesses_encoder_valid) (\<lambda>_. True)"

interpretation transaction_enc_parts: encoder_sextuple
  array_encoder_chunk array_encoder_advance ae_arr "\<lambda>_. 0" "\<lambda>_. True"
  "option_chunk array_encoder_chunk" "option_advance array_encoder_advance" "option_out ae_arr"
  "option_steps (\<lambda>_. 0)" "option_valid (\<lambda>_. True)"
  "prefixed_slice_encoder_chunk tx_in_encoder_chunk"
  "prefixed_slice_encoder_advance tx_in_encoder_chunk tx_in_encoder_advance tx_in_encoder_new"
  "prefixed_slice_out tx_in_encoder_out tx_in_encoder_new"
  "prefixed_slice_steps tx_in_encoder_steps tx_in_encoder_new"
  "prefixed_slice_valid tx_in_encoder_valid tx_in_encoder_new (\<lambda>_. True)"
  "prefixed_slice_encoder_chunk tx_out_encoder_chunk"
  "prefixed_slice_encoder_advance tx_out_encoder_chunk tx_out_encoder_advance tx_out_encoder_new"
  "prefixed_slice_out tx_out_encoder_out tx_out_encoder_new"
  "prefixed_slice_steps tx_out_encoder_steps tx_out_encoder_new"
  "prefixed_slice_valid tx_out_encoder_valid tx_out_encoder_new (\<lambda>_. True)"
  "option_chunk witnesses_encoder_chunk" "option_advance witnesses_encoder_advance"
  "option_out witnesses_encoder_out" "option_steps witnesses_encoder_steps" "option_valid witnesses_encoder_valid"
  array_encoder_chunk array_encoder_advance ae_arr "\<lambda>_. 0" "\<lambda>_. True"
  by (intro encoder_sextuple.intro ae.encoder_axioms ae.option_encoder tx_ins_enc.prefixed_slice_encoder
        tx_outs_enc.prefixed_slice_encoder witnesses_enc.option_encoder)

interpretation transaction_enc: encoder transaction_encoder_chunk transaction_encoder_advance
  transaction_encoder_out transaction_encoder_steps transaction_encoder_valid
  unfolding transaction_encoder_chunk_def transaction_encoder_advance_def transaction_encoder_out_def
    transaction_encoder_steps_def transaction_encoder_valid_def
  by (rule transaction_enc_parts.sextuple_encoder)

text \<open>The consensus form: BIP 144 when witnesses are serialised, the original form otherwise.\<close>

definition legacy_bytes :: "transaction \<Rightarrow> bytes" where
  "legacy_bytes tx = to_le_bytes (version tx) @ vec_bytes tx_in_bytes (inputs tx)
     @ vec_bytes tx_out_bytes (outputs tx) @ to_le_bytes (lock_time_to_consensus (lock_time_of tx))"

definition segwit_bytes :: "transaction \<Rightarrow> bytes" where
  "segwit_bytes tx = to_le_bytes (version tx) @ [0x00, 0x01] @ vec_bytes tx_in_bytes (inputs tx)
     @ vec_bytes tx_out_bytes (outputs tx) @ concat (map (\<lambda>i. witness_bytes (tx_witness i)) (inputs tx))
     @ to_le_bytes (lock_time_to_consensus (lock_time_of tx))"

definition transaction_bytes :: "transaction \<Rightarrow> bytes" where
  "transaction_bytes tx = (if uses_segwit_serialization tx then segwit_bytes tx else legacy_bytes tx)"

lemma prefixed_slices_out:
  "prefixed_slice_out tx_in_encoder_out tx_in_encoder_new (prefixed_slice_encoder_new tx_in_encoder_new ins)
     = vec_bytes tx_in_bytes ins"
  "prefixed_slice_out tx_out_encoder_out tx_out_encoder_new (prefixed_slice_encoder_new tx_out_encoder_new outs)
     = vec_bytes tx_out_bytes outs"
  by (simp_all add: tx_ins_enc.prefixed_slice_new_out tx_outs_enc.prefixed_slice_new_out vec_bytes_def
        tx_in_encoder_new tx_out_encoder_new)

lemma transaction_encoder_new:
  assumes "\<forall>i \<in> set (inputs tx). witness_sliced i"
  shows "\<exists>e. transaction_encoder_new tx = Some e \<and> transaction_encoder_valid e \<and>
    transaction_encoder_out e = transaction_bytes tx"
proof -
  obtain we where we: "witnesses_encoder_new (inputs tx) = Some we" "witnesses_encoder_valid we"
    "witnesses_encoder_out we = concat (map (\<lambda>i. witness_bytes (tx_witness i)) (inputs tx))"
    using witnesses_encoder_new [OF assms] by blast
  show ?thesis
    using we tx_ins_enc.prefixed_slice_new_valid tx_outs_enc.prefixed_slice_new_valid
    by (simp add: transaction_encoder_new_def transaction_encoder_valid_def encoder6_valid_def encoder6_new_def
          option_valid_def transaction_encoder_out_def encoder6_out_def option_out_def prefixed_slices_out
          transaction_bytes_def segwit_bytes_def legacy_bytes_def Let_def)
qed

subsection \<open>Identifiers\<close>

text \<open>\<open>hash_transaction\<close> feeds the hash engine piece by piece; the model collects what it is fed.
  Iterating over a witness goes through its iterator.\<close>

fun hash_witnesses :: "tx_in list \<Rightarrow> (unit, bytes) res" where
  "hash_witnesses [] = Ok []"
| "hash_witnesses (input # ins) =
     res_bind (witness_to_vec (tx_witness input)) (\<lambda>elements.
       res_bind (hash_witnesses ins) (\<lambda>more.
         Ok (compact_size_new (witness_len (tx_witness input))
             @ concat (map (\<lambda>element. compact_size_new (length element) @ element) elements) @ more)))"

definition hash_preimage :: "transaction \<Rightarrow> bool \<Rightarrow> (unit, bytes) res" where
  "hash_preimage tx uses_segwit =
     res_bind (if uses_segwit then hash_witnesses (inputs tx) else Ok []) (\<lambda>witnesses.
       Ok (to_le_bytes (version tx)
           @ (if uses_segwit then [0x00] @ [0x01] else [])
           @ compact_size_new (length (inputs tx))
           @ concat (map (\<lambda>input. txid (previous_output input) @ to_le_bytes (vout (previous_output input))
               @ compact_size_new (length (script_sig input)) @ script_sig input
               @ to_le_bytes (sequence_no input)) (inputs tx))
           @ compact_size_new (length (outputs tx))
           @ concat (map (\<lambda>output. to_le_bytes (amount output)
               @ compact_size_new (length (script_pubkey output)) @ script_pubkey output) (outputs tx))
           @ witnesses
           @ to_le_bytes (lock_time_to_consensus (lock_time_of tx))))"

definition hash_transaction :: "(bytes \<Rightarrow> bytes) \<Rightarrow> transaction \<Rightarrow> bool \<Rightarrow> (unit, bytes) res" where
  "hash_transaction sha256d tx uses_segwit = res_bind (hash_preimage tx uses_segwit) (\<lambda>x. Ok (sha256d x))"

definition compute_txid :: "(bytes \<Rightarrow> bytes) \<Rightarrow> transaction \<Rightarrow> (unit, bytes) res" where
  "compute_txid sha256d tx = hash_transaction sha256d tx False"

definition compute_wtxid :: "(bytes \<Rightarrow> bytes) \<Rightarrow> transaction \<Rightarrow> (unit, bytes) res" where
  "compute_wtxid sha256d tx = hash_transaction sha256d tx (uses_segwit_serialization tx)"

definition compute_ntxid :: "(bytes \<Rightarrow> bytes) \<Rightarrow> transaction \<Rightarrow> (unit, bytes) res" where
  "compute_ntxid sha256d tx =
     (let normalized = \<lparr>version = version tx, lock_time_of = lock_time_of tx,
        inputs = map (\<lambda>txin. txin\<lparr>script_sig := [], tx_witness := witness_new\<rparr>) (inputs tx),
        outputs = outputs tx\<rparr> in
      compute_txid sha256d normalized)"

lemma in_bytes_flat: "txid (previous_output i) @ to_le_bytes (vout (previous_output i))
    @ compact_size_new (length (script_sig i)) @ script_sig i @ to_le_bytes (sequence_no i) = tx_in_bytes i"
  by (simp add: tx_in_bytes_def out_point_bytes_def script_bytes_def)

lemma out_bytes_flat: "to_le_bytes (amount out) @ compact_size_new (length (script_pubkey out)) @ script_pubkey out
    = tx_out_bytes out"
  by (simp add: tx_out_bytes_def script_bytes_def)

lemma hash_preimage_txid: "hash_preimage tx False = Ok (legacy_bytes tx)"
  by (simp add: hash_preimage_def legacy_bytes_def vec_bytes_def in_bytes_flat out_bytes_flat)

text \<open>A witness that was built from elements which its iterator can read.\<close>

definition witness_readable :: "witness \<Rightarrow> bool" where
  "witness_readable w \<longleftrightarrow> (\<exists>es. w = witness_of es \<and> slices es \<and> offsets_fit 0 es \<and> list_all (\<lambda>e. length e \<le> 4000000) es)"

lemma witness_bytes_of: "witness_bytes (witness_of es) = compact_size_new (length es) @ body es"
  by (simp add: witness_bytes_def witness_of_def)

lemma witness_sliced_of: "tx_witness i = witness_of es \<Longrightarrow> witness_sliced i"
  by (simp add: witness_sliced_def witness_of_def)

lemma witness_readable_sliced: "witness_readable (tx_witness i) \<Longrightarrow> witness_sliced i"
  by (auto simp: witness_readable_def witness_sliced_of)

lemma hash_witnesses_eq:
  "\<forall>i \<in> set ins. witness_readable (tx_witness i) \<Longrightarrow>
     hash_witnesses ins = Ok (concat (map (\<lambda>i. witness_bytes (tx_witness i)) ins))"
proof (induction ins)
  case Nil
  then show ?case by simp
next
  case (Cons i ins)
  obtain es where es: "tx_witness i = witness_of es" "slices es" "offsets_fit 0 es"
    "list_all (\<lambda>e. length e \<le> 4000000) es"
    using Cons.prems by (auto simp: witness_readable_def)
  then have "witness_to_vec (tx_witness i) = Ok es"
    by (simp add: witness_to_vec_eq list_all_iff takeWhile_eq_all_conv)
  moreover have "witness_len (tx_witness i) = length es"
    using es(1) by (simp add: witness_len_def) (simp add: witness_of_def)
  ultimately show ?case
    using Cons es(1) by (simp add: witness_bytes_of body_def elem_bytes_def [abs_def])
qed

lemma hash_preimage_wtxid:
  "\<forall>i \<in> set (inputs tx). witness_readable (tx_witness i) \<Longrightarrow>
     hash_preimage tx (uses_segwit_serialization tx) = Ok (transaction_bytes tx)"
  by (simp add: hash_preimage_def hash_witnesses_eq transaction_bytes_def segwit_bytes_def legacy_bytes_def
        vec_bytes_def in_bytes_flat out_bytes_flat)

text \<open>
  The witness transaction identifier is the hash of the consensus encoding: feeding
  the hash engine field by field gives it the bytes that the transaction's encoder yields.
\<close>

theorem wtxid_hashes_encoding:
  assumes "\<forall>i \<in> set (inputs tx). witness_readable (tx_witness i)"
  shows "\<exists>e bs. transaction_encoder_new tx = Some e
    \<and> drain_to_vec transaction_encoder_chunk transaction_encoder_advance e = Ok bs
    \<and> compute_wtxid sha256d tx = Ok (sha256d bs)"
proof -
  have "\<forall>i \<in> set (inputs tx). witness_sliced i" using assms witness_readable_sliced by blast
  then obtain e where "transaction_encoder_new tx = Some e" "transaction_encoder_valid e"
    "transaction_encoder_out e = transaction_bytes tx"
    using transaction_encoder_new by blast
  then show ?thesis
    using hash_preimage_wtxid [OF assms]
    by (simp add: transaction_enc.drain_to_vec_out compute_wtxid_def hash_transaction_def)
qed

definition example_input :: tx_in where
  "example_input = \<lparr>previous_output = \<lparr>txid = replicate 32 7, vout = 1\<rparr>, script_sig = [0x51],
     sequence_no = 0xFFFFFFFF, tx_witness = witness_of [[1, 2], [3]]\<rparr>"

definition example_tx :: transaction where
  "example_tx = \<lparr>version = 2, lock_time_of = Blocks 100, inputs = [example_input],
     outputs = [\<lparr>amount = 5000, script_pubkey = [0x51]\<rparr>]\<rparr>"

lemma example_readable: "\<forall>i \<in> set (inputs example_tx). witness_readable (tx_witness i)"
  unfolding witness_readable_def example_tx_def example_input_def
  by (auto simp: slices_def elem_bytes_def length_compact_size_new encoded_size_def
        intro!: exI [of _ "[[1, 2], [3]]"])

theorem wtxid_hashes_encoding_witness:
  "\<exists>e bs. transaction_encoder_new example_tx = Some e
    \<and> drain_to_vec transaction_encoder_chunk transaction_encoder_advance e = Ok bs
    \<and> compute_wtxid (take 32) example_tx = Ok (take 32 bs)"
  by (rule wtxid_hashes_encoding [OF example_readable])

lemma compute_txid_eq: "compute_txid sha256d tx = Ok (sha256d (legacy_bytes tx))"
  by (simp add: compute_txid_def hash_transaction_def hash_preimage_txid)

lemma tx_in_bytes_witness [simp]: "tx_in_bytes (i\<lparr>tx_witness := w\<rparr>) = tx_in_bytes i"
  by (simp add: tx_in_bytes_def)

text \<open>
  The transaction identifier does not depend on the witnesses: it is the hash of
  the original serialisation, it never panics, it stays the same when every witness is replaced,
  and it is the witness identifier of a transaction that has inputs and no witnesses. The
  normalized identifier does not depend on the input scripts either.
\<close>

theorem txid_ignores_witnesses:
  "compute_txid sha256d tx = Ok (sha256d (legacy_bytes tx))
   \<and> compute_txid sha256d (tx\<lparr>inputs := map (\<lambda>i. i\<lparr>tx_witness := f i\<rparr>) (inputs tx)\<rparr>) = compute_txid sha256d tx
   \<and> compute_ntxid sha256d (tx\<lparr>inputs := map (\<lambda>i. i\<lparr>script_sig := g i, tx_witness := f i\<rparr>) (inputs tx)\<rparr>)
       = compute_ntxid sha256d tx
   \<and> (uses_segwit_serialization tx \<or> compute_wtxid sha256d tx = compute_txid sha256d tx)"
proof (intro conjI)
  show "compute_txid sha256d tx = Ok (sha256d (legacy_bytes tx))" by (rule compute_txid_eq)
  show "compute_txid sha256d (tx\<lparr>inputs := map (\<lambda>i. i\<lparr>tx_witness := f i\<rparr>) (inputs tx)\<rparr>)
      = compute_txid sha256d tx"
    by (simp add: compute_txid_eq legacy_bytes_def vec_bytes_def comp_def)
  show "compute_ntxid sha256d (tx\<lparr>inputs := map (\<lambda>i. i\<lparr>script_sig := g i, tx_witness := f i\<rparr>) (inputs tx)\<rparr>)
      = compute_ntxid sha256d tx"
    by (simp add: compute_ntxid_def comp_def Let_def)
  show "uses_segwit_serialization tx \<or> compute_wtxid sha256d tx = compute_txid sha256d tx"
    by (cases "uses_segwit_serialization tx") (simp_all add: compute_wtxid_def compute_txid_def)
qed

end
