(* ===== verification/Transaction_Decoder.thy ===== *)
theory Transaction_Decoder
  imports Transaction
begin

section \<open>The transaction decoder\<close>

text \<open>
  \<open>TransactionDecoder\<close> of \<open>primitives/src/transaction.rs\<close>: a state machine over the decoders of the
  parts. An empty first vector of inputs is the marker of BIP 144: a flag byte and a second vector
  follow. \<open>end\<close> checks what consensus requires of a transaction on its own.
\<close>

subsection \<open>States and errors\<close>

datatype attempt = FirstAttempt | SecondAttempt

datatype is_segwit = SegwitYes | SegwitNo

datatype transaction_state =
    TxVersion array_decoder
  | TxInputs u32 attempt tx_ins_decoder
  | TxSegwitFlag u32
  | TxOutputs u32 "tx_in list" is_segwit tx_outs_decoder
  | TxWitnesses u32 "tx_in list" "tx_out list" nat witness_decoder
  | TxLockTime u32 "tx_in list" "tx_out list" array_decoder
  | TxDone transaction
  | TxErrored

datatype transaction_error =
    EVersion version_decoder_error
  | EUnsupportedSegwitFlag u8
  | EInputs "tx_in_decoder_error vec_error"
  | EOutputs "tx_out_decoder_error vec_error"
  | EWitness witness_error
  | ENoWitnesses
  | ELockTime lock_time_decoder_error
  | EEarlyEnd string
  | ENullPrevoutInNonCoinbase nat
  | ECoinbaseScriptSigTooSmall nat
  | ECoinbaseScriptSigTooLarge nat
  | EDuplicateInput out_point
  | EOutputValueSumTooLarge u64
  | ENoOutputs

definition transaction_decoder_new :: transaction_state where
  "transaction_decoder_new = TxVersion version_decoder_new"

subsection \<open>Pushing bytes\<close>

text \<open>\<open>inputs[iteration].witness = w\<close> panics when the index is out of range.\<close>

definition after_witness ::
  "u32 \<Rightarrow> tx_in list \<Rightarrow> tx_out list \<Rightarrow> nat \<Rightarrow> witness \<Rightarrow> bytes \<Rightarrow> (transaction_error, transaction_state) round" where
  "after_witness ver ins outs iteration w r =
     (if length ins \<le> iteration then Return (Panic, TxErrored, r)
      else let ins' = ins[iteration := (ins ! iteration)\<lparr>tx_witness := w\<rparr>] in
        if iteration < length ins' - 1 then
          Continue (TxWitnesses ver ins' outs (iteration + 1) witness_decoder_new) r
        else if ins' \<noteq> [] \<and> list_all (\<lambda>input. witness_is_empty (tx_witness input)) ins' then
          Return (Err ENoWitnesses, TxErrored, r)
        else Continue (TxLockTime ver ins' outs lock_time_decoder_new) r)"

fun transaction_round :: "transaction_state \<Rightarrow> bytes \<Rightarrow> (transaction_error, transaction_state) round" where
  "transaction_round (TxVersion d) bs =
     drive_part version_decoder_push version_decoder_end EVersion TxVersion TxErrored
       (\<lambda>ver. Continue (TxInputs ver FirstAttempt vec_decoder_new)) d bs"
| "transaction_round (TxInputs ver attempt d) bs =
     drive_part (vec_decoder_push tx_in_decoder_push tx_in_decoder_end tx_in_decoder_new) vec_decoder_end
       EInputs (TxInputs ver attempt) TxErrored
       (\<lambda>ins.
          if attempt = FirstAttempt then
            (if ins = [] then Continue (TxSegwitFlag ver)
             else Continue (TxOutputs ver ins SegwitNo vec_decoder_new))
          else Continue (TxOutputs ver ins SegwitYes vec_decoder_new)) d bs"
| "transaction_round (TxSegwitFlag ver) bs =
     (case bs of
        [] \<Rightarrow> Return (Ok NeedsMore, TxSegwitFlag ver, bs)
      | segwit_flag # r \<Rightarrow>
          if segwit_flag \<noteq> 1 then Return (Err (EUnsupportedSegwitFlag segwit_flag), TxErrored, r)
          else Continue (TxInputs ver SecondAttempt vec_decoder_new) r)"
| "transaction_round (TxOutputs ver ins is_segwit d) bs =
     drive_part (vec_decoder_push tx_out_decoder_push tx_out_decoder_end tx_out_decoder_new) vec_decoder_end
       EOutputs (TxOutputs ver ins is_segwit) TxErrored
       (\<lambda>outs.
          if is_segwit = SegwitYes \<and> ins \<noteq> [] then Continue (TxWitnesses ver ins outs 0 witness_decoder_new)
          else Continue (TxLockTime ver ins outs lock_time_decoder_new)) d bs"
| "transaction_round (TxWitnesses ver ins outs iteration d) bs =
     drive_part witness_decoder_push witness_decoder_end EWitness (TxWitnesses ver ins outs iteration)
       TxErrored (after_witness ver ins outs iteration) d bs"
| "transaction_round (TxLockTime ver ins outs d) bs =
     drive_part lock_time_decoder_push lock_time_decoder_end ELockTime (TxLockTime ver ins outs) TxErrored
       (\<lambda>lock_time r. Return (Ok Ready,
          TxDone \<lparr>version = ver, lock_time_of = lock_time, inputs = ins, outputs = outs\<rparr>, r)) d bs"
| "transaction_round (TxDone tx) bs = Return (Ok Ready, TxDone tx, bs)"
| "transaction_round TxErrored bs = Return (Panic, TxErrored, bs)"

definition transaction_decoder_push ::
  "transaction_state \<Rightarrow> bytes \<Rightarrow> (transaction_error, dstatus) res \<times> transaction_state \<times> bytes" where
  "transaction_decoder_push = machine_push transaction_round"

fun transaction_decoder_read_limit :: "transaction_state \<Rightarrow> nat" where
  "transaction_decoder_read_limit (TxVersion d) = array_decoder_read_limit d"
| "transaction_decoder_read_limit (TxInputs ver attempt d) =
     vec_decoder_read_limit tx_in_decoder_read_limit tx_in_decoder_new d"
| "transaction_decoder_read_limit (TxSegwitFlag ver) = 1"
| "transaction_decoder_read_limit (TxOutputs ver ins is_segwit d) =
     vec_decoder_read_limit tx_out_decoder_read_limit tx_out_decoder_new d"
| "transaction_decoder_read_limit (TxWitnesses ver ins outs iteration d) = witness_decoder_read_limit d"
| "transaction_decoder_read_limit (TxLockTime ver ins outs d) = array_decoder_read_limit d"
| "transaction_decoder_read_limit (TxDone tx) = 0"
| "transaction_decoder_read_limit TxErrored = 0"

subsection \<open>The checks of \<open>end\<close>\<close>

fun null_prevout_index :: "nat \<Rightarrow> tx_in list \<Rightarrow> nat option" where
  "null_prevout_index index [] = None"
| "null_prevout_index index (input # ins) =
     (if previous_output input = COINBASE_PREVOUT then Some index else null_prevout_index (index + 1) ins)"

text \<open>The loop over \<open>outpoints.windows(2)\<close>.\<close>

fun duplicate_pair :: "out_point list \<Rightarrow> out_point option" where
  "duplicate_pair (a # b # ps) = (if a = b then Some a else duplicate_pair (b # ps))"
| "duplicate_pair ps = None"

definition saturating_add_u64 :: "u64 \<Rightarrow> u64 \<Rightarrow> u64" where
  "saturating_add_u64 a b = (if unat a + unat b < 2 ^ 64 then a + b else 0xFFFFFFFFFFFFFFFF)"

fun sum_exceeds :: "u64 \<Rightarrow> tx_out list \<Rightarrow> u64 option" where
  "sum_exceeds total_out [] = None"
| "sum_exceeds total_out (output # outs) =
     (let total_out = saturating_add_u64 total_out (amount output) in
      if MAX_MONEY < total_out then Some total_out else sum_exceeds total_out outs)"

definition check_sums :: "transaction \<Rightarrow> (transaction_error, transaction) res" where
  "check_sums tx = (case sum_exceeds 0 (outputs tx) of
     Some total_out \<Rightarrow> Err (EOutputValueSumTooLarge total_out) | None \<Rightarrow> Ok tx)"

definition check_duplicates :: "transaction \<Rightarrow> (transaction_error, transaction) res" where
  "check_duplicates tx =
     (let outpoints = sort_key (\<lambda>p. (txid p, vout p)) (map previous_output (inputs tx)) in
      case duplicate_pair outpoints of Some p \<Rightarrow> Err (EDuplicateInput p) | None \<Rightarrow> check_sums tx)"

definition check_coinbase :: "transaction \<Rightarrow> (transaction_error, transaction) res" where
  "check_coinbase tx =
     (if is_coinbase tx then
        let len = length (script_sig (inputs tx ! 0)) in
        if len < 2 then Err (ECoinbaseScriptSigTooSmall len)
        else if 100 < len then Err (ECoinbaseScriptSigTooLarge len)
        else check_duplicates tx
      else check_duplicates tx)"

definition transaction_check :: "transaction \<Rightarrow> (transaction_error, transaction) res" where
  "transaction_check tx =
     (if outputs tx = [] then Err ENoOutputs
      else case (if 1 < length (inputs tx) then null_prevout_index 0 (inputs tx) else None) of
        Some index \<Rightarrow> Err (ENullPrevoutInNonCoinbase index)
      | None \<Rightarrow> check_coinbase tx)"

fun transaction_decoder_end :: "transaction_state \<Rightarrow> (transaction_error, transaction) res" where
  "transaction_decoder_end (TxVersion d) = Err (EEarlyEnd ''version'')"
| "transaction_decoder_end (TxInputs ver attempt d) = Err (EEarlyEnd ''inputs'')"
| "transaction_decoder_end (TxSegwitFlag ver) = Err (EEarlyEnd ''segwit flag'')"
| "transaction_decoder_end (TxOutputs ver ins is_segwit d) = Err (EEarlyEnd ''outputs'')"
| "transaction_decoder_end (TxWitnesses ver ins outs iteration d) = Err (EEarlyEnd ''witnesses'')"
| "transaction_decoder_end (TxLockTime ver ins outs d) = Err (EEarlyEnd ''locktime'')"
| "transaction_decoder_end (TxDone tx) = transaction_check tx"
| "transaction_decoder_end TxErrored = Panic"

subsection \<open>The parser\<close>

definition run_ins :: "tx_ins_decoder \<Rightarrow> bytes \<Rightarrow> (tx_in_decoder_error vec_error, tx_in list) presult" where
  "run_ins = vec_run tx_in_decoder_run tx_in_decoder_new"

definition run_outs :: "tx_outs_decoder \<Rightarrow> bytes \<Rightarrow> (tx_out_decoder_error vec_error, tx_out list) presult" where
  "run_outs = vec_run tx_out_decoder_run tx_out_decoder_new"

definition run_lock_time ::
  "u32 \<Rightarrow> tx_in list \<Rightarrow> tx_out list \<Rightarrow> array_decoder \<Rightarrow> bytes \<Rightarrow> (transaction_error, transaction) presult" where
  "run_lock_time ver ins outs d x =
     pbind (pmap_err ELockTime (lock_time_decoder_run d x)) (\<lambda>lock_time.
       finished (transaction_check \<lparr>version = ver, lock_time_of = lock_time, inputs = ins, outputs = outs\<rparr>))"

text \<open>The witnesses from the input \<open>iteration\<close> on; \<open>left\<close> is the number of inputs after it.\<close>

definition after_witnesses ::
  "u32 \<Rightarrow> tx_in list \<Rightarrow> tx_out list \<Rightarrow> bytes \<Rightarrow> (transaction_error, transaction) presult" where
  "after_witnesses ver ins outs x =
     (if list_all (\<lambda>input. witness_is_empty (tx_witness input)) ins then PErr ENoWitnesses
      else run_lock_time ver ins outs lock_time_decoder_new x)"

fun run_witnesses ::
  "nat \<Rightarrow> u32 \<Rightarrow> tx_in list \<Rightarrow> tx_out list \<Rightarrow> nat \<Rightarrow> witness_decoder \<Rightarrow> bytes
     \<Rightarrow> (transaction_error, transaction) presult" where
  "run_witnesses 0 ver ins outs iteration d x =
     pbind (pmap_err EWitness (witness_decoder_run d x)) (\<lambda>w.
       after_witnesses ver (ins[iteration := (ins ! iteration)\<lparr>tx_witness := w\<rparr>]) outs)"
| "run_witnesses (Suc left) ver ins outs iteration d x =
     pbind (pmap_err EWitness (witness_decoder_run d x)) (\<lambda>w.
       run_witnesses left ver (ins[iteration := (ins ! iteration)\<lparr>tx_witness := w\<rparr>]) outs (iteration + 1)
         witness_decoder_new)"

definition run_outputs ::
  "u32 \<Rightarrow> tx_in list \<Rightarrow> is_segwit \<Rightarrow> tx_outs_decoder \<Rightarrow> bytes \<Rightarrow> (transaction_error, transaction) presult" where
  "run_outputs ver ins is_segwit d x =
     pbind (pmap_err EOutputs (run_outs d x)) (\<lambda>outs.
       if is_segwit = SegwitYes \<and> ins \<noteq> []
       then run_witnesses (length ins - 1) ver ins outs 0 witness_decoder_new
       else run_lock_time ver ins outs lock_time_decoder_new)"

definition run_inputs2 :: "u32 \<Rightarrow> tx_ins_decoder \<Rightarrow> bytes \<Rightarrow> (transaction_error, transaction) presult" where
  "run_inputs2 ver d x =
     pbind (pmap_err EInputs (run_ins d x)) (\<lambda>ins. run_outputs ver ins SegwitYes vec_decoder_new)"

definition run_flag :: "u32 \<Rightarrow> bytes \<Rightarrow> (transaction_error, transaction) presult" where
  "run_flag ver x =
     (case x of [] \<Rightarrow> PMore
      | flag # y \<Rightarrow> if flag \<noteq> 1 then PErr (EUnsupportedSegwitFlag flag) else run_inputs2 ver vec_decoder_new y)"

definition run_inputs1 :: "u32 \<Rightarrow> tx_ins_decoder \<Rightarrow> bytes \<Rightarrow> (transaction_error, transaction) presult" where
  "run_inputs1 ver d x =
     pbind (pmap_err EInputs (run_ins d x)) (\<lambda>ins.
       if ins = [] then run_flag ver else run_outputs ver ins SegwitNo vec_decoder_new)"

definition run_version :: "array_decoder \<Rightarrow> bytes \<Rightarrow> (transaction_error, transaction) presult" where
  "run_version d x =
     pbind (pmap_err EVersion (version_decoder_run d x)) (\<lambda>ver. run_inputs1 ver vec_decoder_new)"

fun transaction_run :: "transaction_state \<Rightarrow> bytes \<Rightarrow> (transaction_error, transaction) presult" where
  "transaction_run (TxVersion d) x = run_version d x"
| "transaction_run (TxInputs ver FirstAttempt d) x = run_inputs1 ver d x"
| "transaction_run (TxInputs ver SecondAttempt d) x = run_inputs2 ver d x"
| "transaction_run (TxSegwitFlag ver) x = run_flag ver x"
| "transaction_run (TxOutputs ver ins is_segwit d) x = run_outputs ver ins is_segwit d x"
| "transaction_run (TxWitnesses ver ins outs iteration d) x =
     run_witnesses (length ins - 1 - iteration) ver ins outs iteration d x"
| "transaction_run (TxLockTime ver ins outs d) x = run_lock_time ver ins outs d x"
| "transaction_run (TxDone tx) x = finished (transaction_check tx) x"
| "transaction_run TxErrored x = PMore"

fun transaction_pending :: "transaction_state \<Rightarrow> bool" where
  "transaction_pending (TxVersion d) \<longleftrightarrow> array_decoder_inv d \<and> version_decoder_run d [] = PMore"
| "transaction_pending (TxInputs ver attempt d) \<longleftrightarrow>
     vec_inv tx_in_decoder_run tx_in_decoder_inv d \<and> run_ins d [] = PMore"
| "transaction_pending (TxSegwitFlag ver) \<longleftrightarrow> True"
| "transaction_pending (TxOutputs ver ins is_segwit d) \<longleftrightarrow>
     vec_inv tx_out_decoder_run tx_out_decoder_inv d \<and> run_outs d [] = PMore"
| "transaction_pending (TxWitnesses ver ins outs iteration d) \<longleftrightarrow>
     iteration < length ins \<and> witness_decoder_inv d \<and> witness_decoder_run d [] = PMore"
| "transaction_pending (TxLockTime ver ins outs d) \<longleftrightarrow>
     array_decoder_inv d \<and> lock_time_decoder_run d [] = PMore"
| "transaction_pending (TxDone tx) \<longleftrightarrow> True"
| "transaction_pending TxErrored \<longleftrightarrow> False"

subsection \<open>The decoder computes the parser\<close>

abbreviation (input) tx_outcome ::
  "(bytes \<Rightarrow> (transaction_error, transaction) presult) \<Rightarrow> bytes
     \<Rightarrow> (transaction_error, dstatus) res \<times> transaction_state \<times> bytes \<Rightarrow> bool" where
  "tx_outcome \<equiv> result_outcome transaction_decoder_end transaction_run transaction_pending"

abbreviation (input) tx_push :: "transaction_state \<Rightarrow> bytes
     \<Rightarrow> (transaction_error, dstatus) res \<times> transaction_state \<times> bytes" where
  "tx_push \<equiv> machine_push transaction_round"

lemma transaction_check_halts [simp]: "halts (transaction_check tx)"
  by (simp add: transaction_check_def check_coinbase_def check_duplicates_def check_sums_def Let_def
      split: option.splits)

lemma resume_Continue [simp]: "resume step (Continue s r) = machine_push step s r"
  by (simp add: resume_def)

lemma resume_Return [simp]: "resume step (Return y) = y"
  by (simp add: resume_def)

lemma lock_time_outcome:
  assumes "array_decoder_inv d"
  shows "tx_outcome (run_lock_time ver ins outs d) bs (tx_push (TxLockTime ver ins outs d) bs)"
proof -
  let ?tx = "\<lambda>l. \<lparr>version = ver, lock_time_of = l, inputs = ins, outputs = outs\<rparr>"
  have run: "run_lock_time ver ins outs d =
      (\<lambda>x. pbind (pmap_err ELockTime (lock_time_decoder_run d x)) (\<lambda>l. finished (transaction_check (?tx l))))" for d
    by (rule ext) (simp add: run_lock_time_def)
  show ?thesis
    unfolding run
  proof (rule machine_push_resume, unfold transaction_round.simps, rule lock_time_dec.part_outcome [OF assms])
    fix d' assume "array_decoder_inv d'" "lock_time_decoder_run d' [] = PMore"
    then show "transaction_pending (TxLockTime ver ins outs d') \<and> transaction_run (TxLockTime ver ins outs d') =
        (\<lambda>x. pbind (pmap_err ELockTime (lock_time_decoder_run d' x)) (\<lambda>l. finished (transaction_check (?tx l))))"
      by (simp add: fun_eq_iff run)
  next
    fix l r
    show "tx_outcome (finished (transaction_check (?tx l))) r
        (resume transaction_round (Return (Ok Ready, TxDone (?tx l), r)))"
      unfolding resume_Return by (rule result_ready [where k = "[]"]) simp_all
  qed
qed

lemma witnesses_outcome:
  assumes "witness_decoder_inv d" and "length ins = iteration + left + 1"
  shows "tx_outcome (run_witnesses left ver ins outs iteration d) bs (tx_push (TxWitnesses ver ins outs iteration d) bs)"
  using assms
proof (induction left arbitrary: d ins iteration bs)
  case 0
  let ?upd = "\<lambda>w. ins[iteration := (ins ! iteration)\<lparr>tx_witness := w\<rparr>]"
  have run: "run_witnesses 0 ver ins outs iteration d = (\<lambda>x. pbind (pmap_err EWitness (witness_decoder_run d x))
      (\<lambda>w. after_witnesses ver (?upd w) outs))" for d
    by (rule ext) simp
  show ?case
    unfolding run
  proof (rule machine_push_resume, unfold transaction_round.simps, rule wd.part_outcome [OF "0.prems"(1)])
    fix d' assume "witness_decoder_inv d'" "witness_decoder_run d' [] = PMore"
    then show "transaction_pending (TxWitnesses ver ins outs iteration d') \<and>
        transaction_run (TxWitnesses ver ins outs iteration d') =
        (\<lambda>x. pbind (pmap_err EWitness (witness_decoder_run d' x)) (\<lambda>w. after_witnesses ver (?upd w) outs))"
      using "0.prems" by (simp add: fun_eq_iff)
  next
    fix w r
    have "ins \<noteq> []" using "0.prems"(2) by auto
    then have ne: "?upd w \<noteq> []" by simp
    show "tx_outcome (after_witnesses ver (?upd w) outs) r
        (resume transaction_round (after_witness ver ins outs iteration w r))"
    proof (cases "list_all (\<lambda>input. witness_is_empty (tx_witness input)) (?upd w)")
      case True
      then have "after_witness ver ins outs iteration w r = Return (Err ENoWitnesses, TxErrored, r)"
        using "0.prems"(2) ne by (simp add: after_witness_def Let_def)
      then show ?thesis using True by (auto simp: after_witnesses_def intro!: result_error)
    next
      case False
      then have "after_witness ver ins outs iteration w r =
          Continue (TxLockTime ver (?upd w) outs lock_time_decoder_new) r"
        using "0.prems"(2) by (simp add: after_witness_def Let_def)
      moreover have "after_witnesses ver (?upd w) outs = run_lock_time ver (?upd w) outs lock_time_decoder_new"
        using False by (simp add: fun_eq_iff after_witnesses_def)
      ultimately show ?thesis using lock_time_outcome [of lock_time_decoder_new] by simp
    qed
  qed
next
  case (Suc left)
  let ?upd = "\<lambda>w. ins[iteration := (ins ! iteration)\<lparr>tx_witness := w\<rparr>]"
  have run: "run_witnesses (Suc left) ver ins outs iteration d =
      (\<lambda>x. pbind (pmap_err EWitness (witness_decoder_run d x))
        (\<lambda>w. run_witnesses left ver (?upd w) outs (iteration + 1) witness_decoder_new))" for d
    by (rule ext) simp
  have left: "length ins - 1 - iteration = Suc left" using Suc.prems(2) by simp
  show ?case
    unfolding run
  proof (rule machine_push_resume, unfold transaction_round.simps, rule wd.part_outcome [OF Suc.prems(1)])
    fix d' assume "witness_decoder_inv d'" "witness_decoder_run d' [] = PMore"
    then show "transaction_pending (TxWitnesses ver ins outs iteration d') \<and>
        transaction_run (TxWitnesses ver ins outs iteration d') =
        (\<lambda>x. pbind (pmap_err EWitness (witness_decoder_run d' x))
          (\<lambda>w. run_witnesses left ver (?upd w) outs (iteration + 1) witness_decoder_new))"
      using Suc.prems left by (simp add: fun_eq_iff)
  next
    fix w r
    have "after_witness ver ins outs iteration w r =
        Continue (TxWitnesses ver (?upd w) outs (iteration + 1) witness_decoder_new) r"
      using Suc.prems(2) by (simp add: after_witness_def Let_def)
    then show "tx_outcome (run_witnesses left ver (?upd w) outs (iteration + 1) witness_decoder_new) r
        (resume transaction_round (after_witness ver ins outs iteration w r))"
      using Suc.IH [of witness_decoder_new "?upd w" "iteration + 1" r] Suc.prems(2) by simp
  qed
qed

lemma outputs_outcome:
  assumes "vec_inv tx_out_decoder_run tx_out_decoder_inv d"
  shows "tx_outcome (run_outputs ver ins is_segwit d) bs (tx_push (TxOutputs ver ins is_segwit d) bs)"
proof -
  let ?K = "\<lambda>outs. if is_segwit = SegwitYes \<and> ins \<noteq> []
    then run_witnesses (length ins - 1) ver ins outs 0 witness_decoder_new
    else run_lock_time ver ins outs lock_time_decoder_new"
  have run: "run_outputs ver ins is_segwit d = (\<lambda>x. pbind (pmap_err EOutputs (run_outs d x)) ?K)" for d
    by (rule ext) (simp add: run_outputs_def)
  show ?thesis
    unfolding run unfolding run_outs_def
  proof (rule machine_push_resume, unfold transaction_round.simps, rule tx_outs.vec.part_outcome [OF assms])
    fix d' assume "vec_inv tx_out_decoder_run tx_out_decoder_inv d'"
      "vec_run tx_out_decoder_run tx_out_decoder_new d' [] = PMore"
    then show "transaction_pending (TxOutputs ver ins is_segwit d') \<and>
        transaction_run (TxOutputs ver ins is_segwit d') =
        (\<lambda>x. pbind (pmap_err EOutputs (vec_run tx_out_decoder_run tx_out_decoder_new d' x)) ?K)"
      by (simp add: fun_eq_iff run run_outs_def)
  next
    fix outs r
    show "tx_outcome (?K outs) r (resume transaction_round
        ((if is_segwit = SegwitYes \<and> ins \<noteq> [] then Continue (TxWitnesses ver ins outs 0 witness_decoder_new)
          else Continue (TxLockTime ver ins outs lock_time_decoder_new)) r))"
    proof (cases "is_segwit = SegwitYes \<and> ins \<noteq> []")
      case True
      then have "length ins = 0 + (length ins - 1) + 1" by (cases ins) auto
      then show ?thesis using True witnesses_outcome [of witness_decoder_new ins 0 "length ins - 1"] by simp
    next
      case False
      then show ?thesis using lock_time_outcome [of lock_time_decoder_new] by (simp only: if_False resume_Continue) simp
    qed
  qed
qed

lemma inputs2_outcome:
  assumes "vec_inv tx_in_decoder_run tx_in_decoder_inv d"
  shows "tx_outcome (run_inputs2 ver d) bs (tx_push (TxInputs ver SecondAttempt d) bs)"
proof -
  let ?K = "\<lambda>ins. run_outputs ver ins SegwitYes vec_decoder_new"
  have run: "run_inputs2 ver d = (\<lambda>x. pbind (pmap_err EInputs (run_ins d x)) ?K)" for d
    by (rule ext) (simp add: run_inputs2_def)
  show ?thesis
    unfolding run unfolding run_ins_def
  proof (rule machine_push_resume, unfold transaction_round.simps, rule tx_ins.vec.part_outcome [OF assms])
    fix d' assume "vec_inv tx_in_decoder_run tx_in_decoder_inv d'"
      "vec_run tx_in_decoder_run tx_in_decoder_new d' [] = PMore"
    then show "transaction_pending (TxInputs ver SecondAttempt d') \<and>
        transaction_run (TxInputs ver SecondAttempt d') =
        (\<lambda>x. pbind (pmap_err EInputs (vec_run tx_in_decoder_run tx_in_decoder_new d' x)) ?K)"
      by (simp add: fun_eq_iff run run_ins_def)
  next
    fix ins r
    show "tx_outcome (?K ins) r (resume transaction_round
        ((if SecondAttempt = FirstAttempt then
            (if ins = [] then Continue (TxSegwitFlag ver) else Continue (TxOutputs ver ins SegwitNo vec_decoder_new))
          else Continue (TxOutputs ver ins SegwitYes vec_decoder_new)) r))"
      using outputs_outcome [of vec_decoder_new] by simp
  qed
qed

lemma flag_outcome: "tx_outcome (run_flag ver) bs (tx_push (TxSegwitFlag ver) bs)"
proof (rule machine_push_resume, cases bs)
  case Nil
  then show "tx_outcome (run_flag ver) bs (resume transaction_round (transaction_round (TxSegwitFlag ver) bs))"
    by (auto simp: run_flag_def intro!: result_more [where k = "[]"])
next
  case (Cons flag r)
  show "tx_outcome (run_flag ver) bs (resume transaction_round (transaction_round (TxSegwitFlag ver) bs))"
  proof (cases "flag = 1")
    case True
    have "tx_outcome (run_flag ver) bs (tx_push (TxInputs ver SecondAttempt vec_decoder_new) r)"
      by (rule result_step [OF inputs2_outcome [of vec_decoder_new ver r], of _ "[flag]"])
         (use Cons True in \<open>simp_all add: run_flag_def\<close>)
    then show ?thesis using Cons True by simp
  next
    case False
    then show ?thesis using Cons by (auto simp: run_flag_def intro!: result_error)
  qed
qed

lemma inputs1_outcome:
  assumes "vec_inv tx_in_decoder_run tx_in_decoder_inv d"
  shows "tx_outcome (run_inputs1 ver d) bs (tx_push (TxInputs ver FirstAttempt d) bs)"
proof -
  let ?K = "\<lambda>ins. if ins = [] then run_flag ver else run_outputs ver ins SegwitNo vec_decoder_new"
  have run: "run_inputs1 ver d = (\<lambda>x. pbind (pmap_err EInputs (run_ins d x)) ?K)" for d
    by (rule ext) (simp add: run_inputs1_def)
  show ?thesis
    unfolding run unfolding run_ins_def
  proof (rule machine_push_resume, unfold transaction_round.simps, rule tx_ins.vec.part_outcome [OF assms])
    fix d' assume "vec_inv tx_in_decoder_run tx_in_decoder_inv d'"
      "vec_run tx_in_decoder_run tx_in_decoder_new d' [] = PMore"
    then show "transaction_pending (TxInputs ver FirstAttempt d') \<and>
        transaction_run (TxInputs ver FirstAttempt d') =
        (\<lambda>x. pbind (pmap_err EInputs (vec_run tx_in_decoder_run tx_in_decoder_new d' x)) ?K)"
      by (simp add: fun_eq_iff run run_ins_def)
  next
    fix ins r
    show "tx_outcome (?K ins) r (resume transaction_round
        ((if FirstAttempt = FirstAttempt then
            (if ins = [] then Continue (TxSegwitFlag ver) else Continue (TxOutputs ver ins SegwitNo vec_decoder_new))
          else Continue (TxOutputs ver ins SegwitYes vec_decoder_new)) r))"
      using outputs_outcome [of vec_decoder_new] flag_outcome by simp
  qed
qed

lemma version_outcome:
  assumes "array_decoder_inv d"
  shows "tx_outcome (run_version d) bs (tx_push (TxVersion d) bs)"
proof -
  have run: "run_version d = (\<lambda>x. pbind (pmap_err EVersion (version_decoder_run d x))
      (\<lambda>ver. run_inputs1 ver vec_decoder_new))" for d
    by (rule ext) (simp add: run_version_def)
  show ?thesis
    unfolding run
  proof (rule machine_push_resume, unfold transaction_round.simps, rule version_dec.part_outcome [OF assms])
    fix d' assume "array_decoder_inv d'" "version_decoder_run d' [] = PMore"
    then show "transaction_pending (TxVersion d') \<and> transaction_run (TxVersion d') =
        (\<lambda>x. pbind (pmap_err EVersion (version_decoder_run d' x)) (\<lambda>ver. run_inputs1 ver vec_decoder_new))"
      by (simp add: fun_eq_iff run)
  next
    fix ver r
    show "tx_outcome (run_inputs1 ver vec_decoder_new) r
        (resume transaction_round (Continue (TxInputs ver FirstAttempt vec_decoder_new) r))"
      using inputs1_outcome [of vec_decoder_new] by simp
  qed
qed

lemma transaction_outcome:
  assumes "transaction_pending s"
  shows "push_outcome transaction_decoder_push transaction_decoder_end transaction_run transaction_pending s bs"
  unfolding result_outcome_push transaction_decoder_push_def
proof (cases s)
  case (TxVersion d)
  moreover have "transaction_run (TxVersion d) = run_version d" by (rule ext) simp
  ultimately show "tx_outcome (transaction_run s) bs (tx_push s bs)"
    using assms version_outcome by simp
next
  case (TxInputs ver a d)
  moreover have "transaction_run (TxInputs ver FirstAttempt d) = run_inputs1 ver d"
    "transaction_run (TxInputs ver SecondAttempt d) = run_inputs2 ver d" by (simp_all add: fun_eq_iff)
  ultimately show "tx_outcome (transaction_run s) bs (tx_push s bs)"
    using assms inputs1_outcome inputs2_outcome by (cases a) simp_all
next
  case (TxSegwitFlag ver)
  moreover have "transaction_run (TxSegwitFlag ver) = run_flag ver" by (rule ext) simp
  ultimately show "tx_outcome (transaction_run s) bs (tx_push s bs)" using flag_outcome by simp
next
  case (TxOutputs ver ins w d)
  moreover have "transaction_run (TxOutputs ver ins w d) = run_outputs ver ins w d" by (rule ext) simp
  ultimately show "tx_outcome (transaction_run s) bs (tx_push s bs)" using assms outputs_outcome by simp
next
  case (TxWitnesses ver ins outs it d)
  then have "it < length ins" using assms by simp
  then have len: "length ins = it + (length ins - 1 - it) + 1" by linarith
  have "transaction_run (TxWitnesses ver ins outs it d) = run_witnesses (length ins - 1 - it) ver ins outs it d"
    by (rule ext) simp
  then show "tx_outcome (transaction_run s) bs (tx_push s bs)"
    using TxWitnesses assms witnesses_outcome [OF _ len, of d] by simp
next
  case (TxLockTime ver ins outs d)
  moreover have "transaction_run (TxLockTime ver ins outs d) = run_lock_time ver ins outs d" by (rule ext) simp
  ultimately show "tx_outcome (transaction_run s) bs (tx_push s bs)" using assms lock_time_outcome by simp
next
  case (TxDone tx)
  then have "tx_push s bs = (Ok Ready, TxDone tx, bs)"
    by (simp add: machine_push_def round_loop.simps)
  then show "tx_outcome (transaction_run s) bs (tx_push s bs)"
    using TxDone by (auto intro!: result_ready [where k = "[]"])
next
  case TxErrored
  then show "tx_outcome (transaction_run s) bs (tx_push s bs)" using assms by simp
qed

lemma finished_check [simp]: "finished (transaction_check tx) x \<noteq> PMore"
  by (rule finished_ne_PMore) simp

lemma part_limit:
  assumes "pbind (pmap_err err (p x)) K = POk v r"
    and "\<And>a y. p x = POk a y \<Longrightarrow> n + length y \<le> length x"
    and "\<And>a y. p x = POk a y \<Longrightarrow> K a y = POk v r \<Longrightarrow> length r \<le> length y"
  shows "n + length r \<le> length x"
  using assms by (fastforce simp: pbind_POk_iff)

lemma run_lock_time_limit:
  "array_decoder_inv d \<Longrightarrow> run_lock_time ver ins outs d x = POk v r \<Longrightarrow>
     array_decoder_read_limit d + length r \<le> length x"
  unfolding run_lock_time_def
  by (erule part_limit) (auto dest: lock_time_dec.limit_sound simp: finished_POk)

lemma after_witnesses_limit: "after_witnesses ver ins outs x = POk v r \<Longrightarrow> length r \<le> length x"
  using run_lock_time_limit [of lock_time_decoder_new ver ins outs x v r]
  by (simp add: after_witnesses_def split: if_splits)

lemma run_witnesses_limit:
  "witness_decoder_inv d \<Longrightarrow> run_witnesses left ver ins outs it d x = POk v r \<Longrightarrow>
     witness_decoder_read_limit d + length r \<le> length x"
proof (induction left arbitrary: ins it d x)
  case 0
  from "0.prems"(2) [unfolded run_witnesses.simps] show ?case
    by (rule part_limit) (use "0.prems"(1) in \<open>auto dest: wd.limit_sound after_witnesses_limit\<close>)
next
  case (Suc left)
  from Suc.prems(2) [unfolded run_witnesses.simps] show ?case
    by (rule part_limit) (use Suc.prems(1) in \<open>auto dest: wd.limit_sound Suc.IH [OF witness_decoder_new_inv]\<close>)
qed

lemma run_outputs_limit:
  assumes "vec_inv tx_out_decoder_run tx_out_decoder_inv d" and "run_outputs ver ins w d x = POk v r"
  shows "vec_decoder_read_limit tx_out_decoder_read_limit tx_out_decoder_new d + length r \<le> length x"
  using assms(2) [unfolded run_outputs_def run_outs_def]
  by (rule part_limit)
     (use assms(1) in \<open>auto dest: tx_outs.vec.limit_sound run_witnesses_limit [OF witness_decoder_new_inv]
        run_lock_time_limit [OF new_invs(2)] split: if_splits\<close>)

lemma run_inputs2_limit:
  assumes "vec_inv tx_in_decoder_run tx_in_decoder_inv d" and "run_inputs2 ver d x = POk v r"
  shows "vec_decoder_read_limit tx_in_decoder_read_limit tx_in_decoder_new d + length r \<le> length x"
  using assms(2) [unfolded run_inputs2_def run_ins_def]
  by (rule part_limit)
     (use assms(1) in \<open>auto dest: tx_ins.vec.limit_sound run_outputs_limit [OF vec_new_inv]\<close>)

lemma run_flag_limit: "run_flag ver x = POk v r \<Longrightarrow> 1 + length r \<le> length x"
  by (auto simp: run_flag_def dest: run_inputs2_limit [OF vec_new_inv] split: list.splits if_splits)

lemma run_inputs1_limit:
  assumes "vec_inv tx_in_decoder_run tx_in_decoder_inv d" and "run_inputs1 ver d x = POk v r"
  shows "vec_decoder_read_limit tx_in_decoder_read_limit tx_in_decoder_new d + length r \<le> length x"
  using assms(2) [unfolded run_inputs1_def run_ins_def]
  by (rule part_limit)
     (use assms(1) in \<open>auto dest: tx_ins.vec.limit_sound run_outputs_limit [OF vec_new_inv] run_flag_limit
        split: if_splits\<close>)

lemma run_version_limit:
  assumes "array_decoder_inv d" and "run_version d x = POk v r"
  shows "array_decoder_read_limit d + length r \<le> length x"
  using assms(2) [unfolded run_version_def]
  by (rule part_limit)
     (use assms(1) in \<open>auto dest: version_dec.limit_sound run_inputs1_limit [OF vec_new_inv]\<close>)

lemma transaction_limit_sound:
  assumes "transaction_pending s" and "transaction_run s x = POk v r"
  shows "transaction_decoder_read_limit s + length r \<le> length x"
proof (cases s)
  case (TxInputs ver a d)
  then show ?thesis
    using assms run_inputs1_limit [of d ver x v r] run_inputs2_limit [of d ver x v r] by (cases a) simp_all
next
  case (TxWitnesses ver ins outs it d)
  then show ?thesis using assms run_witnesses_limit by simp
qed (use assms run_version_limit run_flag_limit run_outputs_limit run_lock_time_limit in
      \<open>auto simp: finished_POk\<close>)

text \<open>Every state but the last two asks for more bytes.\<close>

lemma transaction_run_Nil:
  assumes "transaction_pending s"
  shows "transaction_run s [] = PMore \<or> (\<exists>tx. s = TxDone tx)"
proof (cases s)
  case (TxInputs ver a d)
  then show ?thesis using assms by (cases a) (simp_all add: run_inputs1_def run_inputs2_def)
next
  case (TxWitnesses ver ins outs it d)
  then show ?thesis using assms by (cases "length ins - 1 - it") simp_all
qed (use assms in \<open>simp_all add: run_version_def run_flag_def run_outputs_def run_lock_time_def\<close>)

lemma transaction_limit_pos:
  assumes "transaction_pending s" and "transaction_run s [] = PMore"
  shows "0 < transaction_decoder_read_limit s"
proof (cases s)
  case (TxDone tx)
  then show ?thesis using assms finished_ne_PMore [of "transaction_check tx" "[]"] by simp
qed (use assms version_dec.limit_pos tx_ins.vec.limit_pos tx_outs.vec.limit_pos wd.limit_pos lock_time_dec.limit_pos in
      \<open>auto simp: run_ins_def run_outs_def\<close>)

interpretation tx_dec: push_decoder transaction_decoder_push transaction_decoder_end
  transaction_decoder_read_limit transaction_run transaction_pending
proof (rule push_decoder_intro [OF transaction_outcome])
  fix s x
  assume inv: "transaction_pending s"
  show "transaction_run s [] = PMore \<Longrightarrow> \<exists>e. transaction_decoder_end s = Err e"
    using inv by (cases s) simp_all
  show "transaction_run s [] \<noteq> PMore \<Longrightarrow>
      halts (transaction_decoder_end s) \<and> transaction_run s x = finished (transaction_decoder_end s) x"
    using transaction_run_Nil [OF inv] by auto
  show "transaction_run s [] = PMore \<Longrightarrow> 0 < transaction_decoder_read_limit s"
    by (rule transaction_limit_pos [OF inv])
qed (auto intro: transaction_limit_sound)

subsection \<open>The checks, declaratively\<close>

lemma null_prevout_index_None:
  "null_prevout_index n ins = None \<longleftrightarrow> COINBASE_PREVOUT \<notin> previous_output ` set ins"
  by (induction ins arbitrary: n) auto

lemma duplicate_pair_sorted:
  assumes "inj f" and "sorted (map (f :: out_point \<Rightarrow> 'k::linorder) ps)"
  shows "duplicate_pair ps = None \<longleftrightarrow> distinct ps"
  using assms(2)
proof (induction ps rule: duplicate_pair.induct)
  case (1 a b ps)
  have "a \<notin> set ps" if "a \<noteq> b"
  proof
    assume "a \<in> set ps"
    then have "f b \<le> f a" "f a \<le> f b" using 1(2) by auto
    then show False using that assms(1) by (auto dest: injD)
  qed
  then show ?case using 1 by auto
qed auto

lemma out_point_key_inj: "inj (\<lambda>p :: out_point. (txid p, vout p))"
  by (rule injI) simp

lemma check_duplicates_cases:
  "if distinct (map previous_output (inputs tx)) then check_duplicates tx = check_sums tx
   else \<exists>p. check_duplicates tx = Err (EDuplicateInput p)"
proof -
  let ?key = "\<lambda>p :: out_point. (txid p, vout p)"
  let ?ps = "sort_key ?key (map previous_output (inputs tx))"
  have "duplicate_pair ?ps = None \<longleftrightarrow> distinct ?ps"
    by (rule duplicate_pair_sorted [OF out_point_key_inj]) simp
  then have d: "duplicate_pair ?ps = None \<longleftrightarrow> distinct (map previous_output (inputs tx))" by simp
  show ?thesis
  proof (cases "duplicate_pair ?ps")
    case None
    then show ?thesis using d by (simp add: check_duplicates_def Let_def)
  next
    case (Some p)
    then have "\<not> distinct (map previous_output (inputs tx))" using d by simp
    then show ?thesis using Some by (simp add: check_duplicates_def Let_def)
  qed
qed

text \<open>The running sum never wraps around, since it stops above \<open>MAX_MONEY\<close>.\<close>

lemma sum_exceeds_None:
  assumes "unat acc \<le> unat MAX_MONEY"
  shows "sum_exceeds acc outs = None \<longleftrightarrow> unat acc + (\<Sum>out\<leftarrow>outs. unat (amount out)) \<le> unat MAX_MONEY"
  using assms
proof (induction outs arbitrary: acc)
  case Nil
  then show ?case by simp
next
  case (Cons out outs)
  show ?case
  proof (cases "unat acc + unat (amount out) < 2 ^ 64")
    case True
    then have add: "unat (acc + amount out) = unat acc + unat (amount out)"
      by (simp add: unat_word_ariths)
    show ?thesis
    proof (cases "MAX_MONEY < acc + amount out")
      case gt: True
      then have "unat MAX_MONEY < unat acc + unat (amount out)" by (simp only: word_less_nat_alt add)
      then show ?thesis using True gt by (simp add: saturating_add_u64_def)
    next
      case False
      then have le: "unat (acc + amount out) \<le> unat MAX_MONEY" by (simp add: word_less_nat_alt)
      show ?thesis using True False Cons.IH [OF le] add by (simp add: saturating_add_u64_def add.assoc)
    qed
  next
    case False
    then show ?thesis by (simp add: saturating_add_u64_def word_less_nat_alt)
  qed
qed

text \<open>What consensus requires of a transaction on its own.\<close>

definition consensus_ok :: "transaction \<Rightarrow> bool" where
  "consensus_ok tx \<longleftrightarrow> outputs tx \<noteq> []
     \<and> (length (inputs tx) \<le> 1 \<or> COINBASE_PREVOUT \<notin> previous_output ` set (inputs tx))
     \<and> (is_coinbase tx \<longrightarrow> length (script_sig (inputs tx ! 0)) \<in> {2..100})
     \<and> distinct (map previous_output (inputs tx))
     \<and> (\<Sum>out\<leftarrow>outputs tx. unat (amount out)) \<le> 2100000000000000"

lemma check_sums_Ok:
  "check_sums tx = Ok tx' \<longleftrightarrow> tx' = tx \<and> (\<Sum>out\<leftarrow>outputs tx. unat (amount out)) \<le> 2100000000000000"
  using sum_exceeds_None [of 0 "outputs tx"] by (auto simp: check_sums_def split: option.splits)

lemma check_duplicates_Ok:
  "check_duplicates tx = Ok tx' \<longleftrightarrow> tx' = tx \<and> distinct (map previous_output (inputs tx))
     \<and> (\<Sum>out\<leftarrow>outputs tx. unat (amount out)) \<le> 2100000000000000"
  using check_duplicates_cases [of tx] check_sums_Ok [of tx tx'] by (auto split: if_splits)

lemma transaction_check_Ok: "transaction_check tx = Ok tx' \<longleftrightarrow> tx' = tx \<and> consensus_ok tx"
proof -
  have coinbase: "check_coinbase tx = Ok tx' \<longleftrightarrow> tx' = tx
      \<and> (is_coinbase tx \<longrightarrow> length (script_sig (inputs tx ! 0)) \<in> {2..100})
      \<and> distinct (map previous_output (inputs tx)) \<and> (\<Sum>out\<leftarrow>outputs tx. unat (amount out)) \<le> 2100000000000000"
    by (simp add: check_coinbase_def check_duplicates_Ok Let_def) linarith?
  have "(if 1 < length (inputs tx) then null_prevout_index 0 (inputs tx) else None) = None \<longleftrightarrow>
      length (inputs tx) \<le> 1 \<or> COINBASE_PREVOUT \<notin> previous_output ` set (inputs tx)"
    by (simp add: null_prevout_index_None not_less)
  then show ?thesis
    by (cases "if 1 < length (inputs tx) then null_prevout_index 0 (inputs tx) else None")
       (simp_all add: transaction_check_def consensus_ok_def coinbase del: if_split)
qed

text \<open>
  Property C26. The checks of the transaction decoder's \<open>end\<close>, with their loops over sorted
  outpoints and saturating sums, accept a transaction exactly when it has an output, no null
  outpoint beside others, a coinbase script of 2 to 100 bytes if it is a coinbase, no outpoint
  twice, and outputs whose exact sum is at most \<open>MAX_MONEY\<close>; an accepted transaction is unchanged.
\<close>

theorem transaction_check_accepts:
  "transaction_decoder_end (TxDone tx) = Ok tx' \<longleftrightarrow> tx' = tx \<and> consensus_ok tx"
  by (simp add: transaction_check_Ok)

subsection \<open>What is accepted\<close>

definition witness_wire :: "witness \<Rightarrow> bool" where
  "witness_wire w \<longleftrightarrow> (\<exists>es. witness_within es \<and> offsets_fit 0 es \<and> w = witness_of es)"

lemma witness_run:
  "witness_decoder_run witness_decoder_new x = POk w r \<longleftrightarrow> witness_wire w \<and> x = witness_bytes w @ r"
  by (auto simp: witness_new_run_iff witness_wire_def witness_bytes_of)

lemma witness_wire_new: "witness_wire witness_new"
  unfolding witness_wire_def
  by (rule exI [of _ "[]"]) (simp add: witness_of_Nil [symmetric] witness_within_def)

lemma witness_wire_empty: "witness_wire w \<Longrightarrow> witness_is_empty w \<longleftrightarrow> w = witness_new"
proof -
  assume "witness_wire w"
  then obtain es where w: "w = witness_of es" by (auto simp: witness_wire_def)
  show "witness_is_empty w \<longleftrightarrow> w = witness_new"
  proof (cases es)
    case Nil
    then show ?thesis using w by (simp add: witness_of_Nil witness_is_empty_def witness_new_def)
  next
    case (Cons e es')
    then show ?thesis using w by (auto simp: witness_is_empty_def witness_new_def) (simp_all add: witness_of_def)
  qed
qed

text \<open>The transactions that have a consensus form within the decoder's limits.\<close>

definition transaction_wire :: "transaction \<Rightarrow> bool" where
  "transaction_wire tx \<longleftrightarrow> length (inputs tx) \<le> MAX_VEC_SIZE \<and> length (outputs tx) \<le> MAX_VEC_SIZE
     \<and> list_all tx_in_ok (inputs tx) \<and> list_all (\<lambda>i. witness_wire (tx_witness i)) (inputs tx)
     \<and> list_all tx_out_ok (outputs tx) \<and> lock_time_wf (lock_time_of tx)"

definition fresh_inputs :: "tx_in list \<Rightarrow> bool" where
  "fresh_inputs ins \<longleftrightarrow> length ins \<le> MAX_VEC_SIZE \<and> list_all tx_in_ok ins
     \<and> list_all (\<lambda>i. tx_witness i = witness_new) ins"

definition wire_outputs :: "tx_out list \<Rightarrow> bool" where
  "wire_outputs outs \<longleftrightarrow> length outs \<le> MAX_VEC_SIZE \<and> list_all tx_out_ok outs"

definition set_witnesses :: "tx_in list \<Rightarrow> witness list \<Rightarrow> tx_in list" where
  "set_witnesses ins ws = map2 (\<lambda>i w. i\<lparr>tx_witness := w\<rparr>) ins ws"

lemma run_ins_iff:
  "run_ins vec_decoder_new x = POk ins r \<longleftrightarrow> fresh_inputs ins \<and> x = vec_bytes tx_in_bytes ins @ r"
proof -
  have "tx_in_decoder_run tx_in_decoder_new x = POk v r \<longleftrightarrow>
      (tx_in_ok v \<and> tx_witness v = witness_new) \<and> x = tx_in_bytes v @ r" for x v r
    by (simp add: tx_in_run)
  from vec_new_run_iff [of tx_in_decoder_run tx_in_decoder_new, OF this] show ?thesis
    by (auto simp: run_ins_def fresh_inputs_def list_all_iff)
qed

lemma run_outs_iff:
  "run_outs vec_decoder_new x = POk outs r \<longleftrightarrow> wire_outputs outs \<and> x = vec_bytes tx_out_bytes outs @ r"
  using vec_new_run_iff [of tx_out_decoder_run tx_out_decoder_new, OF tx_out_run(1)]
  by (auto simp: run_outs_def wire_outputs_def list_all_iff)

text \<open>The end of every serialisation.\<close>

definition tail_ok :: "u32 \<Rightarrow> tx_in list \<Rightarrow> tx_out list \<Rightarrow> bytes \<Rightarrow> transaction \<Rightarrow> bytes \<Rightarrow> bool" where
  "tail_ok ver ins outs x tx r \<longleftrightarrow> version tx = ver \<and> inputs tx = ins \<and> outputs tx = outs
     \<and> lock_time_wf (lock_time_of tx) \<and> consensus_ok tx
     \<and> x = to_le_bytes (lock_time_to_consensus (lock_time_of tx)) @ r"

lemma run_lock_time_iff:
  "run_lock_time ver ins outs lock_time_decoder_new x = POk tx r \<longleftrightarrow> tail_ok ver ins outs x tx r"
  by (cases tx) (auto simp: run_lock_time_def pbind_POk_iff lock_time_run finished_POk transaction_check_Ok tail_ok_def)

lemma set_witnesses_step:
  assumes "it < length ins"
  shows "take (it + 1) (ins[it := (ins ! it)\<lparr>tx_witness := w\<rparr>])
      @ set_witnesses (drop (it + 1) (ins[it := (ins ! it)\<lparr>tx_witness := w\<rparr>])) ws
    = take it ins @ set_witnesses (drop it ins) (w # ws)"
proof -
  have "drop it ins = ins ! it # drop (it + 1) ins" using assms by (simp add: Cons_nth_drop_Suc)
  moreover have "take (it + 1) (ins[it := (ins ! it)\<lparr>tx_witness := w\<rparr>]) = take it ins @ [(ins ! it)\<lparr>tx_witness := w\<rparr>]"
    using assms by (simp add: take_Suc_conv_app_nth)
  ultimately show ?thesis by (simp add: set_witnesses_def)
qed

definition witness_tail :: "u32 \<Rightarrow> tx_in list \<Rightarrow> tx_out list \<Rightarrow> bytes \<Rightarrow> transaction \<Rightarrow> bytes \<Rightarrow> bool" where
  "witness_tail ver ins outs x tx r \<longleftrightarrow>
     \<not> list_all (\<lambda>i. witness_is_empty (tx_witness i)) ins \<and> tail_ok ver ins outs x tx r"

lemma after_witnesses_iff: "after_witnesses ver ins outs x = POk tx r \<longleftrightarrow> witness_tail ver ins outs x tx r"
  by (auto simp: after_witnesses_def witness_tail_def run_lock_time_iff)

lemma run_witnesses_iff:
  assumes "length ins = it + left + 1"
  shows "run_witnesses left ver ins outs it witness_decoder_new x = POk tx r \<longleftrightarrow>
    (\<exists>ws y. length ws = left + 1 \<and> list_all witness_wire ws \<and> x = concat (map witness_bytes ws) @ y
       \<and> witness_tail ver (take it ins @ set_witnesses (drop it ins) ws) outs y tx r)"
  using assms
proof (induction left arbitrary: ins it x)
  case 0
  let ?upd = "\<lambda>w. ins[it := (ins ! it)\<lparr>tx_witness := w\<rparr>]"
  have upd: "?upd w = take it ins @ set_witnesses (drop it ins) [w]" for w
    using set_witnesses_step [of it ins w "[]"] "0.prems" by (simp add: set_witnesses_def)
  have "run_witnesses 0 ver ins outs it witness_decoder_new x = POk tx r \<longleftrightarrow>
      (\<exists>w y. witness_wire w \<and> x = witness_bytes w @ y \<and> witness_tail ver (?upd w) outs y tx r)"
    by (auto simp: pbind_POk_iff witness_run after_witnesses_iff)
  then show ?case unfolding upd by (auto simp: length_Suc_conv)
next
  case (Suc left)
  let ?upd = "\<lambda>w. ins[it := (ins ! it)\<lparr>tx_witness := w\<rparr>]"
    and ?all = "\<lambda>ws. take it ins @ set_witnesses (drop it ins) ws"
  have it: "it < length ins" using Suc.prems by simp
  have IH: "run_witnesses left ver (?upd w) outs (it + 1) witness_decoder_new z = POk tx r \<longleftrightarrow>
      (\<exists>ws y. length ws = left + 1 \<and> list_all witness_wire ws \<and> z = concat (map witness_bytes ws) @ y
         \<and> witness_tail ver (?all (w # ws)) outs y tx r)" for w z
    using Suc.IH [of "?upd w" "it + 1" z] Suc.prems unfolding set_witnesses_step [OF it] by simp
  have "run_witnesses (Suc left) ver ins outs it witness_decoder_new x = POk tx r \<longleftrightarrow> (\<exists>w z.
      witness_wire w \<and> x = witness_bytes w @ z
      \<and> run_witnesses left ver (?upd w) outs (it + 1) witness_decoder_new z = POk tx r)"
    by (auto simp: pbind_POk_iff witness_run)
  also have "\<dots> \<longleftrightarrow> (\<exists>ws y. length ws = Suc left + 1 \<and> list_all witness_wire ws
       \<and> x = concat (map witness_bytes ws) @ y \<and> witness_tail ver (?all ws) outs y tx r)"
    (is "?L \<longleftrightarrow> ?R")
  proof
    assume ?L
    then obtain w ws y where "witness_wire w" "length ws = left + 1" "list_all witness_wire ws"
      "x = witness_bytes w @ concat (map witness_bytes ws) @ y" "witness_tail ver (?all (w # ws)) outs y tx r"
      unfolding IH by blast
    then show ?R by (intro exI [of _ "w # ws"] exI [of _ y]) simp
  next
    assume ?R
    then obtain ws y where *: "length ws = Suc left + 1" "list_all witness_wire ws"
      "x = concat (map witness_bytes ws) @ y" "witness_tail ver (?all ws) outs y tx r" by blast
    then obtain w ws' where "ws = w # ws'" by (cases ws) auto
    then show ?L using * unfolding IH
      by (intro exI [of _ w] exI [of _ "concat (map witness_bytes ws') @ y"] conjI exI [of _ ws'] exI [of _ y]) auto
  qed
  finally show ?case .
qed

lemma set_witnesses_props:
  assumes "length ws = length ins"
  shows "length (set_witnesses ins ws) = length ins"
    and "map tx_witness (set_witnesses ins ws) = ws"
    and "map tx_in_bytes (set_witnesses ins ws) = map tx_in_bytes ins"
    and "list_all tx_in_ok (set_witnesses ins ws) = list_all tx_in_ok ins"
  using assms by (induction ins ws rule: list_induct2', auto simp: set_witnesses_def tx_in_ok_def)+

definition strip :: "tx_in list \<Rightarrow> tx_in list" where
  "strip ins = map (\<lambda>i. i\<lparr>tx_witness := witness_new\<rparr>) ins"

lemma strip_props:
  "length (strip ins) = length ins" "set_witnesses (strip ins) (map tx_witness ins) = ins"
  "map tx_in_bytes (strip ins) = map tx_in_bytes ins" "list_all tx_in_ok (strip ins) = list_all tx_in_ok ins"
  by (induction ins) (auto simp: strip_def set_witnesses_def tx_in_ok_def)

lemma fresh_strip: "fresh_inputs (strip ins) \<longleftrightarrow> length ins \<le> MAX_VEC_SIZE \<and> list_all tx_in_ok ins"
  by (simp add: fresh_inputs_def strip_props) (simp add: strip_def list_all_iff)

lemma run_outputs_plain_iff:
  assumes "\<not> (w = SegwitYes \<and> ins \<noteq> [])"
  shows "run_outputs ver ins w vec_decoder_new x = POk tx r \<longleftrightarrow>
    (\<exists>outs y. wire_outputs outs \<and> x = vec_bytes tx_out_bytes outs @ y \<and> tail_ok ver ins outs y tx r)"
  unfolding run_outputs_def if_not_P [OF assms]
  by (auto simp: pbind_POk_iff run_outs_iff run_lock_time_iff)

lemma run_outputs_segwit_iff:
  assumes "ins \<noteq> []"
  shows "run_outputs ver ins SegwitYes vec_decoder_new x = POk tx r \<longleftrightarrow>
    (\<exists>outs ws y. wire_outputs outs \<and> length ws = length ins \<and> list_all witness_wire ws
       \<and> x = vec_bytes tx_out_bytes outs @ concat (map witness_bytes ws) @ y
       \<and> witness_tail ver (set_witnesses ins ws) outs y tx r)"
proof -
  have len: "length ins = 0 + (length ins - 1) + 1" and one: "length ins - 1 + 1 = length ins"
    using assms by (cases ins; simp)+
  have ws: "run_witnesses (length ins - 1) ver ins outs 0 witness_decoder_new z = POk tx r \<longleftrightarrow>
      (\<exists>ws y. length ws = length ins \<and> list_all witness_wire ws
         \<and> z = concat (map witness_bytes ws) @ y \<and> witness_tail ver (set_witnesses ins ws) outs y tx r)" for outs z
    using run_witnesses_iff [OF len, of ver outs z tx r] unfolding one by simp
  have "run_outputs ver ins SegwitYes vec_decoder_new x = POk tx r \<longleftrightarrow>
      (\<exists>outs z. wire_outputs outs \<and> x = vec_bytes tx_out_bytes outs @ z
         \<and> run_witnesses (length ins - 1) ver ins outs 0 witness_decoder_new z = POk tx r)"
    using assms by (auto simp: run_outputs_def pbind_POk_iff run_outs_iff simp del: One_nat_def)
  then show ?thesis unfolding ws by blast
qed

text \<open>The three serialisations.\<close>

definition legacy_form :: "bytes \<Rightarrow> transaction \<Rightarrow> bytes \<Rightarrow> bool" where
  "legacy_form x tx r \<longleftrightarrow> inputs tx \<noteq> [] \<and> fresh_inputs (inputs tx) \<and> wire_outputs (outputs tx)
     \<and> lock_time_wf (lock_time_of tx) \<and> consensus_ok tx \<and> x = legacy_bytes tx @ r"

definition segwit_form :: "bytes \<Rightarrow> transaction \<Rightarrow> bytes \<Rightarrow> bool" where
  "segwit_form x tx r \<longleftrightarrow> length (inputs tx) \<le> MAX_VEC_SIZE \<and> list_all tx_in_ok (inputs tx)
     \<and> list_all (\<lambda>i. witness_wire (tx_witness i)) (inputs tx)
     \<and> (inputs tx = [] \<or> \<not> list_all (\<lambda>i. witness_is_empty (tx_witness i)) (inputs tx))
     \<and> wire_outputs (outputs tx) \<and> lock_time_wf (lock_time_of tx) \<and> consensus_ok tx \<and> x = segwit_bytes tx @ r"

lemma vec_bytes_Nil [simp]: "vec_bytes f [] = [0]"
  by (simp add: vec_bytes_def compact_size_new_def compact_size_encode_def)

lemma run_flag_iff:
  "run_flag ver z = POk tx r \<longleftrightarrow> (\<exists>z'. z = 1 # z' \<and> run_inputs2 ver vec_decoder_new z' = POk tx r)"
  by (auto simp: run_flag_def split: list.splits if_splits)

lemma run_inputs2_sound:
  assumes "run_inputs2 ver vec_decoder_new z = POk tx r"
  shows "version tx = ver \<and> segwit_form (to_le_bytes ver @ [0, 1] @ z) tx r"
proof -
  obtain ins z' where ins: "fresh_inputs ins" "z = vec_bytes tx_in_bytes ins @ z'"
    and run: "run_outputs ver ins SegwitYes vec_decoder_new z' = POk tx r"
    using assms by (auto simp: run_inputs2_def pbind_POk_iff run_ins_iff)
  show ?thesis
  proof (cases "ins = []")
    case True
    then obtain outs y where "wire_outputs outs" "z' = vec_bytes tx_out_bytes outs @ y" "tail_ok ver ins outs y tx r"
      using run run_outputs_plain_iff [of SegwitYes ins ver z' tx r] by auto
    then show ?thesis using ins True by (auto simp: tail_ok_def segwit_form_def segwit_bytes_def)
  next
    case False
    then obtain outs ws y where *: "wire_outputs outs" "length ws = length ins" "list_all witness_wire ws"
        "z' = vec_bytes tx_out_bytes outs @ concat (map witness_bytes ws) @ y"
        "witness_tail ver (set_witnesses ins ws) outs y tx r"
      using run run_outputs_segwit_iff [OF False] by auto
    note props = set_witnesses_props [OF *(2)]
    have tx: "inputs tx = set_witnesses ins ws" "version tx = ver" "outputs tx = outs"
      using *(5) by (simp_all add: witness_tail_def tail_ok_def)
    have ws: "ws = map tx_witness (inputs tx)" unfolding tx by (simp only: props)
    have "map (\<lambda>i. witness_bytes (tx_witness i)) (inputs tx) = map witness_bytes ws"
      unfolding ws by simp
    moreover have "list_all (\<lambda>i. witness_wire (tx_witness i)) (inputs tx)"
      using *(3) unfolding ws by (simp add: list.pred_map comp_def)
    ultimately show ?thesis
      using * ins tx props
      by (auto simp: segwit_form_def segwit_bytes_def vec_bytes_def witness_tail_def tail_ok_def fresh_inputs_def)
  qed
qed

lemma run_inputs2_complete:
  assumes "segwit_form x tx r"
  shows "\<exists>z. x = to_le_bytes (version tx) @ [0, 1] @ z \<and> run_inputs2 (version tx) vec_decoder_new z = POk tx r"
proof -
  let ?ins = "strip (inputs tx)" and ?ws = "map tx_witness (inputs tx)"
  let ?tail = "to_le_bytes (lock_time_to_consensus (lock_time_of tx)) @ r"
  let ?y = "concat (map witness_bytes ?ws) @ ?tail"
  let ?z' = "vec_bytes tx_out_bytes (outputs tx) @ ?y"
  let ?z = "vec_bytes tx_in_bytes ?ins @ ?z'"
  have x: "x = to_le_bytes (version tx) @ [0, 1] @ ?z"
    using assms by (simp add: segwit_form_def segwit_bytes_def vec_bytes_def strip_props comp_def)
  have fresh: "fresh_inputs ?ins" and outs: "wire_outputs (outputs tx)" and ws: "list_all witness_wire ?ws"
    using assms by (simp_all add: segwit_form_def fresh_strip list.pred_map comp_def)
  have tail: "tail_ok (version tx) (inputs tx) (outputs tx) ?tail tx r"
    using assms by (simp add: segwit_form_def tail_ok_def)
  have "run_outputs (version tx) ?ins SegwitYes vec_decoder_new ?z' = POk tx r"
  proof (cases "inputs tx = []")
    case True
    then have "?ins = []" by (simp add: strip_def)
    then show ?thesis
      using outs tail True run_outputs_plain_iff [of SegwitYes ?ins "version tx" ?z' tx r]
      by auto
  next
    case False
    then have ne: "?ins \<noteq> []" by (simp add: strip_def)
    have "witness_tail (version tx) (set_witnesses ?ins ?ws) (outputs tx) ?tail tx r"
      unfolding strip_props(2) witness_tail_def using tail assms False by (simp add: segwit_form_def)
    moreover have "length ?ws = length ?ins" by (simp add: strip_props)
    ultimately show ?thesis
      unfolding run_outputs_segwit_iff [OF ne] using outs ws by blast
  qed
  then have "run_inputs2 (version tx) vec_decoder_new ?z = POk tx r"
    using fresh unfolding run_inputs2_def pbind_POk_iff pmap_err_POk_iff run_ins_iff by blast
  then show ?thesis using x by blast
qed

text \<open>The choice of the serialisation is that of the encoder.\<close>

lemma form_iff:
  "legacy_form x tx r \<or> segwit_form x tx r \<longleftrightarrow>
     transaction_wire tx \<and> consensus_ok tx \<and> x = transaction_bytes tx @ r"
proof -
  have segwit: "uses_segwit_serialization tx \<longleftrightarrow>
      inputs tx = [] \<or> \<not> list_all (\<lambda>i. witness_is_empty (tx_witness i)) (inputs tx)"
    by (auto simp: uses_segwit_serialization_def list_ex_iff list_all_iff)
  have empty: "list_all (\<lambda>i. tx_witness i = witness_new) (inputs tx) \<longleftrightarrow>
      list_all (\<lambda>i. witness_wire (tx_witness i)) (inputs tx)
      \<and> list_all (\<lambda>i. witness_is_empty (tx_witness i)) (inputs tx)"
    using witness_wire_new witness_wire_empty by (auto simp: list_all_iff witness_is_empty_def witness_new_def)
  show ?thesis
    unfolding transaction_bytes_def transaction_wire_def legacy_form_def segwit_form_def fresh_inputs_def
      wire_outputs_def segwit empty
    by auto
qed

lemma run_inputs1_iff:
  "run_inputs1 ver vec_decoder_new z = POk tx r \<longleftrightarrow> version tx = ver
     \<and> (legacy_form (to_le_bytes ver @ z) tx r \<or> segwit_form (to_le_bytes ver @ z) tx r)" (is "?L \<longleftrightarrow> ?R")
proof
  assume ?L
  then obtain ins z' where ins: "fresh_inputs ins" "z = vec_bytes tx_in_bytes ins @ z'"
    and run: "(if ins = [] then run_flag ver else run_outputs ver ins SegwitNo vec_decoder_new) z' = POk tx r"
    by (auto simp: run_inputs1_def pbind_POk_iff run_ins_iff)
  show ?R
  proof (cases "ins = []")
    case True
    then show ?thesis using run ins run_inputs2_sound by (auto simp: run_flag_iff)
  next
    case False
    then have "legacy_form (to_le_bytes ver @ z) tx r \<and> version tx = ver"
      using run ins by (auto simp: run_outputs_plain_iff tail_ok_def legacy_form_def legacy_bytes_def)
    then show ?thesis by blast
  qed
next
  assume R: ?R
  then consider "legacy_form (to_le_bytes ver @ z) tx r" | "segwit_form (to_le_bytes ver @ z) tx r" by blast
  then show ?L
  proof cases
    case 1
    let ?tail = "to_le_bytes (lock_time_to_consensus (lock_time_of tx)) @ r"
    let ?z' = "vec_bytes tx_out_bytes (outputs tx) @ ?tail"
    have form: "inputs tx \<noteq> []" "fresh_inputs (inputs tx)" "wire_outputs (outputs tx)"
        "z = vec_bytes tx_in_bytes (inputs tx) @ ?z'" "tail_ok ver (inputs tx) (outputs tx) ?tail tx r"
      using 1 R by (auto simp: legacy_form_def legacy_bytes_def tail_ok_def)
    have "run_outputs ver (inputs tx) SegwitNo vec_decoder_new ?z' = POk tx r"
      using form run_outputs_plain_iff [of SegwitNo "inputs tx" ver ?z' tx r] by auto
    then show ?thesis using form
      by (auto simp: run_inputs1_def pbind_POk_iff run_ins_iff)
  next
    case 2
    then obtain y where y: "to_le_bytes ver @ z = to_le_bytes ver @ [0, 1] @ y"
      and run: "run_inputs2 ver vec_decoder_new y = POk tx r"
      using run_inputs2_complete R by metis
    have "run_ins vec_decoder_new z = POk [] (1 # y)"
      using y by (simp add: run_ins_iff fresh_inputs_def)
    then show ?thesis using run by (simp add: run_inputs1_def run_flag_iff)
  qed
qed

text \<open>The parser accepts exactly the consensus encodings of the transactions that consensus allows.\<close>

lemma transaction_run_iff:
  "transaction_run transaction_decoder_new x = POk tx r \<longleftrightarrow>
     transaction_wire tx \<and> consensus_ok tx \<and> x = transaction_bytes tx @ r"
proof -
  have "transaction_run transaction_decoder_new x = POk tx r \<longleftrightarrow>
      (\<exists>ver z. x = to_le_bytes ver @ z \<and> run_inputs1 ver vec_decoder_new z = POk tx r)"
    by (auto simp: transaction_decoder_new_def run_version_def pbind_POk_iff version_run)
  also have "\<dots> \<longleftrightarrow> legacy_form x tx r \<or> segwit_form x tx r"
    unfolding run_inputs1_iff by (auto simp: legacy_form_def segwit_form_def legacy_bytes_def segwit_bytes_def)
  finally show ?thesis unfolding form_iff .
qed

end
