(* ===== verification/Tx_Codec.thy ===== *)
theory Tx_Codec
  imports Transaction_Decoder
begin

section \<open>Transactions: encoder and decoder together\<close>

text \<open>
  What the encoder and the decoder of transactions (\<open>primitives/src/transaction.rs\<close>) promise each
  other and their callers: which byte strings decode, through which driver, that encoding and
  decoding are inverse, and what the identifiers commit to.
\<close>

subsection \<open>Acceptance\<close>

lemma transaction_decoder_new_pending [simp]: "transaction_pending transaction_decoder_new"
  unfolding transaction_decoder_new_def transaction_pending.simps
  using version_run(3) by (simp add: version_decoder_new_def array_decoder_new_def array_decoder_inv_def)

abbreviation decode_transaction :: "bytes \<Rightarrow> (transaction_error decode_error, transaction) res" where
  "decode_transaction \<equiv> decode_from_slice transaction_decoder_push transaction_decoder_end transaction_decoder_new"

text \<open>
  Property C1. The transaction decoder accepts a slice exactly when it is the consensus encoding of
  a transaction within the decoder's limits that passes the consensus checks, and returns that
  transaction: nothing else decodes, and no transaction has two encodings.
\<close>

theorem transaction_decoder_accepts:
  "decode_from_slice transaction_decoder_push transaction_decoder_end transaction_decoder_new bs = Ok tx
   \<longleftrightarrow> transaction_wire tx \<and> consensus_ok tx \<and> bs = transaction_bytes tx"
  by (simp add: tx_dec.decode_from_slice_iff transaction_run_iff)

lemma witness_wire_sliced: "witness_wire (tx_witness i) \<Longrightarrow> witness_sliced i"
  by (auto simp: witness_wire_def witness_sliced_of)

lemma transaction_encodes:
  assumes "transaction_wire tx"
  obtains e where "transaction_encoder_new tx = Some e" "transaction_encoder_valid e"
    "transaction_encoder_out e = transaction_bytes tx"
proof -
  have "\<forall>i \<in> set (inputs tx). witness_sliced i"
    using assms witness_wire_sliced by (auto simp: transaction_wire_def list_all_iff)
  then show ?thesis using transaction_encoder_new that by blast
qed

text \<open>
  Property C2. Draining the encoder of a transaction and decoding the bytes gives the
  transaction back, for every transaction within the limits that consensus allows.
\<close>

theorem transaction_roundtrip:
  assumes "transaction_wire tx" and "consensus_ok tx"
  shows "\<exists>e bs. transaction_encoder_new tx = Some e
    \<and> drain_to_vec transaction_encoder_chunk transaction_encoder_advance e = Ok bs
    \<and> decode_from_slice transaction_decoder_push transaction_decoder_end transaction_decoder_new bs = Ok tx"
proof -
  obtain e where "transaction_encoder_new tx = Some e" "transaction_encoder_valid e"
    "transaction_encoder_out e = transaction_bytes tx"
    by (rule transaction_encodes [OF assms(1)])
  then show ?thesis
    using assms by (simp add: transaction_enc.drain_to_vec_out tx_dec.decode_from_slice_iff transaction_run_iff)
qed

lemma example_witness_wire: "witness_wire (witness_of [[1, 2], [3]])"
  unfolding witness_wire_def
  by (rule exI [of _ "[[1, 2], [3]]"])
     (simp add: witness_within_def MAX_WITNESS_STACK_ITEMS_def MAX_WITNESS_ITEM_SIZE_def MAX_COMPACT_SIZE_def
        elem_bytes_def length_compact_size_new encoded_size_def)

lemma example_wire: "transaction_wire example_tx"
  by (simp add: transaction_wire_def example_tx_def example_input_def example_witness_wire MAX_VEC_SIZE_def
      tx_in_ok_def out_point_ok_def script_ok_def tx_out_ok_def amount_ok_def MAX_MONEY_def is_block_height_def LOCK_TIME_THRESHOLD_def)

lemma example_consensus: "consensus_ok example_tx"
  by (simp add: consensus_ok_def example_tx_def is_coinbase_def example_input_def COINBASE_PREVOUT_def)

theorem transaction_roundtrip_witness:
  "\<exists>e bs. transaction_encoder_new example_tx = Some e
    \<and> drain_to_vec transaction_encoder_chunk transaction_encoder_advance e = Ok bs
    \<and> decode_from_slice transaction_decoder_push transaction_decoder_end transaction_decoder_new bs = Ok example_tx"
  by (rule transaction_roundtrip [OF example_wire example_consensus])

subsection \<open>Panics\<close>

text \<open>The only way to a panic is a witness of more than four gigabytes.\<close>

lemma vec_run_shorter:
  "run_ins vec_decoder_new x = POk ins r \<Longrightarrow> length r \<le> length x"
  "run_outs vec_decoder_new x = POk outs r \<Longrightarrow> length r \<le> length x"
  by (simp_all add: run_ins_iff run_outs_iff)

lemma run_ins_no_panic: "run_ins vec_decoder_new x \<noteq> PPanic" "run_outs vec_decoder_new x \<noteq> PPanic"
  by (simp_all add: run_ins_def run_outs_def vec_new_no_panic tx_in_run tx_out_run)

lemma run_lock_time_no_panic: "run_lock_time ver ins outs lock_time_decoder_new x \<noteq> PPanic"
proof -
  have "transaction_check tx \<noteq> Panic" for tx
    by (simp add: transaction_check_def check_coinbase_def check_duplicates_def check_sums_def Let_def
        split: option.splits)
  then show ?thesis by (auto simp: run_lock_time_def pbind_PPanic_iff lock_time_run finished_PPanic)
qed

lemma run_witnesses_panic:
  "run_witnesses left ver ins outs it witness_decoder_new x = PPanic \<Longrightarrow> 2 ^ 32 \<le> length x"
proof (induction left arbitrary: ins it x)
  case 0
  then have "witness_decoder_run witness_decoder_new x = PPanic"
    by (auto simp: pbind_PPanic_iff after_witnesses_def run_lock_time_no_panic split: if_splits)
  then show ?case by (rule witness_new_run_panic)
next
  case (Suc left)
  then consider "witness_decoder_run witness_decoder_new x = PPanic"
    | w r ins' where "witness_decoder_run witness_decoder_new x = POk w r"
        "run_witnesses left ver ins' outs (it + 1) witness_decoder_new r = PPanic"
    by (auto simp: pbind_PPanic_iff)
  then show ?case
  proof cases
    case 1
    then show ?thesis by (rule witness_new_run_panic)
  next
    case 2
    then have "2 ^ 32 \<le> length r" and "length r \<le> length x" using Suc.IH by (auto simp: witness_run)
    then show ?thesis by linarith
  qed
qed

lemma run_outputs_panic: "run_outputs ver ins w vec_decoder_new x = PPanic \<Longrightarrow> 2 ^ 32 \<le> length x"
proof -
  assume "run_outputs ver ins w vec_decoder_new x = PPanic"
  then obtain outs r where r: "run_outs vec_decoder_new x = POk outs r"
    "run_witnesses (length ins - 1) ver ins outs 0 witness_decoder_new r = PPanic"
    by (auto simp: run_outputs_def pbind_PPanic_iff run_ins_no_panic run_lock_time_no_panic split: if_splits)
  show ?thesis using vec_run_shorter(2) [OF r(1)] run_witnesses_panic [OF r(2)] by linarith
qed

lemma run_inputs2_panic: "run_inputs2 ver vec_decoder_new x = PPanic \<Longrightarrow> 2 ^ 32 \<le> length x"
  using vec_run_shorter(1) run_outputs_panic
  by (fastforce simp: run_inputs2_def pbind_PPanic_iff run_ins_no_panic)

lemma run_flag_panic: "run_flag ver x = PPanic \<Longrightarrow> 2 ^ 32 \<le> length x"
  using run_inputs2_panic by (fastforce simp: run_flag_def split: list.splits if_splits)

lemma run_inputs1_panic: "run_inputs1 ver vec_decoder_new x = PPanic \<Longrightarrow> 2 ^ 32 \<le> length x"
  using vec_run_shorter(1) run_outputs_panic run_flag_panic
  by (fastforce simp: run_inputs1_def pbind_PPanic_iff run_ins_no_panic split: if_splits)

lemma transaction_run_panic: "transaction_run transaction_decoder_new x = PPanic \<Longrightarrow> 2 ^ 32 \<le> length x"
  using run_inputs1_panic
  by (fastforce simp: transaction_decoder_new_def run_version_def pbind_PPanic_iff version_run)

text \<open>
  Property C3. On any input shorter than four gigabytes the transaction decoder does not panic:
  the length checks before every allocation, subtraction and index in the decoders are enough,
  and the loop over the slice ends.
\<close>

theorem transaction_decoder_no_panic:
  assumes "length bs < 2 ^ 32"
  shows "\<exists>r. decode_from_slice transaction_decoder_push transaction_decoder_end transaction_decoder_new bs = r
    \<and> ((\<exists>tx. r = Ok tx) \<or> (\<exists>e. r = Err e))"
proof -
  have "decode_transaction bs \<noteq> Panic"
    using transaction_run_panic [of bs] assms by (auto simp: tx_dec.decode_from_slice_panic_iff)
  moreover have "halts (decode_transaction bs)" by (rule tx_dec.decode_from_slice_halts) simp
  ultimately show ?thesis by (cases "decode_transaction bs") auto
qed

theorem transaction_decoder_no_panic_witness:
  "\<exists>r. decode_from_slice transaction_decoder_push transaction_decoder_end transaction_decoder_new [1, 2, 3] = r
    \<and> ((\<exists>tx. r = Ok tx) \<or> (\<exists>e. r = Err e))"
  by (rule transaction_decoder_no_panic) simp

subsection \<open>Readers\<close>

text \<open>
  Property C24. Decoding from a buffered reader depends only on the bytes that it delivers and not
  on how they are cut into chunks or on interrupted calls: when the stream starts with the encoding of a
  transaction, the transaction is returned and the reader is left right behind it, and only then.
\<close>

theorem transaction_read_chunks:
  assumes "chunks_nonempty rd" and "io_error (source rd) = None"
  shows "(\<exists>rd'. decode_from_read transaction_decoder_push transaction_decoder_end transaction_decoder_new rd
        = (Ok tx, rd') \<and> stream_of rd' = r)
    \<longleftrightarrow> transaction_wire tx \<and> consensus_ok tx \<and> stream_of rd = transaction_bytes tx @ r"
proof -
  have "reads (transaction_run transaction_decoder_new (stream_of rd))
      (read_loop transaction_decoder_push transaction_decoder_end transaction_decoder_new rd)"
    using assms by (intro tx_dec.read_loop_run) simp_all
  then have "(\<exists>rd'. decode_from_read transaction_decoder_push transaction_decoder_end transaction_decoder_new rd
        = (Ok tx, rd') \<and> stream_of rd' = r)
      \<longleftrightarrow> transaction_run transaction_decoder_new (stream_of rd) = POk tx r"
    by (cases "transaction_run transaction_decoder_new (stream_of rd)")
       (auto simp: reads_def decode_from_read_def)
  then show ?thesis unfolding transaction_run_iff .
qed

theorem transaction_read_chunks_witness:
  "\<exists>rd'. decode_from_read transaction_decoder_push transaction_decoder_end transaction_decoder_new
     \<lparr>buffered = take 3 (transaction_bytes example_tx),
      source = [Interrupted, Chunk (drop 3 (transaction_bytes example_tx) @ [9 :: 8 word])] :: unit read_event list\<rparr> = (Ok example_tx, rd') \<and> stream_of rd' = [9]"
  by (rule transaction_read_chunks [THEN iffD2])
     (simp_all add: chunks_nonempty_def stream_of_def example_wire example_consensus)

subsection \<open>What the identifiers commit to\<close>

lemma transaction_bytes_prefix_free:
  assumes "transaction_wire tx" "consensus_ok tx" "transaction_wire tx'" "consensus_ok tx'"
    and "transaction_bytes tx @ r = transaction_bytes tx' @ r'"
  shows "tx = tx' \<and> r = r'"
proof -
  have "transaction_run transaction_decoder_new (transaction_bytes tx @ r) = POk tx r"
    using assms by (simp add: transaction_run_iff)
  moreover have "transaction_run transaction_decoder_new (transaction_bytes tx @ r) = POk tx' r'"
    using assms by (simp add: transaction_run_iff)
  ultimately show ?thesis by simp
qed

lemma run_determined: "p x = POk a r \<Longrightarrow> p y = POk b r' \<Longrightarrow> x = y \<Longrightarrow> a = b \<and> r = r'"
  by simp

lemma legacy_bytes_inj:
  assumes "transaction_wire tx" "transaction_wire tx'" and "legacy_bytes tx = legacy_bytes tx'"
  shows "version tx = version tx' \<and> strip (inputs tx) = strip (inputs tx') \<and> outputs tx = outputs tx'
    \<and> lock_time_of tx = lock_time_of tx'"
proof -
  let ?l = "\<lambda>tx. to_le_bytes (lock_time_to_consensus (lock_time_of tx))"
  let ?o = "\<lambda>tx. vec_bytes tx_out_bytes (outputs tx) @ ?l tx"
  let ?i = "\<lambda>tx. vec_bytes tx_in_bytes (strip (inputs tx)) @ ?o tx"
  have bytes: "legacy_bytes tx = to_le_bytes (version tx) @ ?i tx" for tx
    by (simp add: legacy_bytes_def vec_bytes_def strip_props)
  have v: "version_decoder_run version_decoder_new (legacy_bytes tx) = POk (version tx) (?i tx)" for tx
    unfolding bytes by (simp add: version_run)
  have i: "run_ins vec_decoder_new (?i tx) = POk (strip (inputs tx)) (?o tx)" if "transaction_wire tx" for tx
    using that by (simp add: run_ins_iff fresh_strip transaction_wire_def)
  have o: "run_outs vec_decoder_new (?o tx) = POk (outputs tx) (?l tx)" if "transaction_wire tx" for tx
    using that by (simp add: run_outs_iff wire_outputs_def transaction_wire_def)
  have l: "lock_time_decoder_run lock_time_decoder_new (?l tx) = POk (lock_time_of tx) []"
    if "transaction_wire tx" for tx
    using that by (simp add: lock_time_run transaction_wire_def)
  note 1 = run_determined [OF v [of tx] v [of tx'] assms(3)]
  note 2 = run_determined [OF i [OF assms(1)] i [OF assms(2)] 1 [THEN conjunct2]]
  note 3 = run_determined [OF o [OF assms(1)] o [OF assms(2)] 2 [THEN conjunct2]]
  note 4 = run_determined [OF l [OF assms(1)] l [OF assms(2)] 3 [THEN conjunct2]]
  show ?thesis using 1 2 3 4 by blast
qed

text \<open>
  Property C25. Identifiers commit to transactions that are within the limits of the wire format, relative to the hash function: two of them
  with the same identifier agree in everything but the witnesses, unless the two encodings that were hashed differ and have the same hash.
  Two with the same witness identifier are equal, with the same exception, where both also pass the consensus checks
  of the decoder and no element of their witnesses has more than four million bytes, so that all can be read back (the decoder
  checks this of the first element only).
\<close>

theorem identifiers_commit:
  assumes "transaction_wire tx" "transaction_wire tx'"
  shows "(compute_txid sha256d tx = compute_txid sha256d tx' \<longrightarrow>
       tx\<lparr>inputs := strip (inputs tx)\<rparr> = tx'\<lparr>inputs := strip (inputs tx')\<rparr>
         \<or> hash_collision sha256d {legacy_bytes tx, legacy_bytes tx'})
    \<and> (consensus_ok tx \<and> consensus_ok tx' \<and> (\<forall>i \<in> set (inputs tx) \<union> set (inputs tx'). witness_readable (tx_witness i)) \<longrightarrow>
       compute_wtxid sha256d tx = compute_wtxid sha256d tx' \<longrightarrow> tx = tx'
         \<or> hash_collision sha256d {transaction_bytes tx, transaction_bytes tx'})"
proof (intro conjI impI)
  assume "compute_txid sha256d tx = compute_txid sha256d tx'"
  then have "legacy_bytes tx = legacy_bytes tx' \<or> hash_collision sha256d {legacy_bytes tx, legacy_bytes tx'}"
    by (intro hash_collision_here) (simp_all add: compute_txid_eq)
  then show "tx\<lparr>inputs := strip (inputs tx)\<rparr> = tx'\<lparr>inputs := strip (inputs tx')\<rparr>
      \<or> hash_collision sha256d {legacy_bytes tx, legacy_bytes tx'}"
    using legacy_bytes_inj [OF assms] by (cases tx; cases tx') auto
next
  assume ok: "consensus_ok tx \<and> consensus_ok tx' \<and> (\<forall>i \<in> set (inputs tx) \<union> set (inputs tx'). witness_readable (tx_witness i))"
  assume "compute_wtxid sha256d tx = compute_wtxid sha256d tx'"
  then have "transaction_bytes tx = transaction_bytes tx'
      \<or> hash_collision sha256d {transaction_bytes tx, transaction_bytes tx'}"
    using hash_preimage_wtxid [of tx] hash_preimage_wtxid [of tx'] ok
    by (intro hash_collision_here) (simp_all add: compute_wtxid_def hash_transaction_def)
  then show "tx = tx' \<or> hash_collision sha256d {transaction_bytes tx, transaction_bytes tx'}"
    using transaction_bytes_prefix_free [of tx tx' "[]" "[]"] assms ok by simp blast?
qed

definition example_tx_stripped :: transaction where
  "example_tx_stripped = example_tx\<lparr>inputs := strip (inputs example_tx)\<rparr>"

lemma example_stripped:
  "transaction_wire example_tx_stripped" "consensus_ok example_tx_stripped"
  "\<forall>i \<in> set (inputs example_tx) \<union> set (inputs example_tx_stripped). witness_readable (tx_witness i)"
proof -
  have "witness_readable witness_new"
    unfolding witness_readable_def by (rule exI [of _ "[]"]) (simp add: witness_of_Nil slices_def)
  then show "\<forall>i \<in> set (inputs example_tx) \<union> set (inputs example_tx_stripped). witness_readable (tx_witness i)"
    using example_readable by (auto simp: example_tx_stripped_def strip_def)
qed (use example_wire example_consensus in
      \<open>simp_all add: example_tx_stripped_def strip_def transaction_wire_def witness_wire_new consensus_ok_def
         is_coinbase_def example_tx_def example_input_def tx_in_ok_def\<close>)

theorem identifiers_commit_witness:
  "compute_txid (\<lambda>_. []) example_tx = compute_txid (\<lambda>_. []) example_tx_stripped
   \<and> (example_tx\<lparr>inputs := strip (inputs example_tx)\<rparr>
        = example_tx_stripped\<lparr>inputs := strip (inputs example_tx_stripped)\<rparr>
      \<or> hash_collision (\<lambda>_. []) {legacy_bytes example_tx, legacy_bytes example_tx_stripped})
   \<and> compute_wtxid (\<lambda>_. []) example_tx = compute_wtxid (\<lambda>_. []) example_tx_stripped
   \<and> (example_tx = example_tx_stripped
      \<or> hash_collision (\<lambda>_. []) {transaction_bytes example_tx, transaction_bytes example_tx_stripped})"
proof -
  have "compute_txid (\<lambda>_. []) example_tx = compute_txid (\<lambda>_. []) example_tx_stripped"
    by (simp add: compute_txid_eq)
  moreover have "compute_wtxid (\<lambda>_. []) example_tx = compute_wtxid (\<lambda>_. []) example_tx_stripped"
    using hash_preimage_wtxid [of example_tx] hash_preimage_wtxid [of example_tx_stripped] example_stripped(3)
    by (simp add: compute_wtxid_def hash_transaction_def)
  ultimately show ?thesis
    using identifiers_commit [OF example_wire example_stripped(1), of "\<lambda>_. []"] example_consensus example_stripped(2,3)
    by blast
qed

end
