(* ===== verification/Block_Header.thy ===== *)
theory Block_Header
  imports Tx_Codec
begin

section \<open>Block headers\<close>

text \<open>
  \<open>Header\<close> and \<open>Version\<close> of \<open>primitives/src/block.rs\<close>, with the decoders of the fields
  (\<open>primitives/src/hash_types\<close>, \<open>units/src/time.rs\<close>, \<open>units/src/pow.rs\<close>). A hash is its 32 bytes, the
  version an \<open>i32\<close>, that is a 32-bit word read with \<open>sint\<close>.
\<close>

record header =
  h_version :: u32
  prev_blockhash :: bytes
  merkle_root :: bytes
  h_time :: u32
  bits :: u32
  nonce :: u32

subsection \<open>Decoders of the fields\<close>

lemma u32_newtype_run:
  "newtype_run g (\<lambda>b. Ok (from_le_bytes b :: u32)) array_decoder_run (array_decoder_new 4) x = POk v r
     \<longleftrightarrow> x = to_le_bytes v @ r"
  "newtype_run g (\<lambda>b. Ok (from_le_bytes b :: u32)) array_decoder_run (array_decoder_new 4) x \<noteq> PPanic"
  by (simp_all add: array_newtype_run_iff array_newtype_no_panic le_u32_iff [symmetric] eq_commute [of v])

lemma bytes_newtype_run:
  "newtype_run g Ok array_decoder_run (array_decoder_new n) x = POk v r \<longleftrightarrow> length v = n \<and> x = v @ r"
  "newtype_run g Ok array_decoder_run (array_decoder_new n) x \<noteq> PPanic"
  by (auto simp: array_newtype_run_iff array_newtype_no_panic)

datatype block_version_decoder_error = BlockVersionDecoderError nat
datatype block_hash_decoder_error = BlockHashDecoderError nat
datatype tx_merkle_node_decoder_error = TxMerkleNodeDecoderError nat
datatype block_time_decoder_error = BlockTimeDecoderError nat
datatype compact_target_decoder_error = CompactTargetDecoderError nat

definition block_version_decoder_new :: array_decoder where
  "block_version_decoder_new = array_decoder_new 4"

definition block_version_decoder_push ::
  "array_decoder \<Rightarrow> bytes \<Rightarrow> (block_version_decoder_error, dstatus) res \<times> array_decoder \<times> bytes" where
  "block_version_decoder_push = newtype_push BlockVersionDecoderError array_decoder_push"

definition block_version_decoder_end :: "array_decoder \<Rightarrow> (block_version_decoder_error, u32) res" where
  "block_version_decoder_end =
     newtype_end (end_with BlockVersionDecoderError (\<lambda>value. Ok (from_le_bytes value))) array_decoder_end"

definition block_version_decoder_run :: "array_decoder \<Rightarrow> bytes \<Rightarrow> (block_version_decoder_error, u32) presult" where
  "block_version_decoder_run =
     newtype_run BlockVersionDecoderError (\<lambda>value. Ok (from_le_bytes value)) array_decoder_run"

definition block_hash_decoder_new :: array_decoder where
  "block_hash_decoder_new = array_decoder_new 32"

definition block_hash_decoder_push ::
  "array_decoder \<Rightarrow> bytes \<Rightarrow> (block_hash_decoder_error, dstatus) res \<times> array_decoder \<times> bytes" where
  "block_hash_decoder_push = newtype_push BlockHashDecoderError array_decoder_push"

definition block_hash_decoder_end :: "array_decoder \<Rightarrow> (block_hash_decoder_error, bytes) res" where
  "block_hash_decoder_end = newtype_end (end_with BlockHashDecoderError Ok) array_decoder_end"

definition block_hash_decoder_run :: "array_decoder \<Rightarrow> bytes \<Rightarrow> (block_hash_decoder_error, bytes) presult" where
  "block_hash_decoder_run = newtype_run BlockHashDecoderError Ok array_decoder_run"

definition tx_merkle_node_decoder_new :: array_decoder where
  "tx_merkle_node_decoder_new = array_decoder_new 32"

definition tx_merkle_node_decoder_push ::
  "array_decoder \<Rightarrow> bytes \<Rightarrow> (tx_merkle_node_decoder_error, dstatus) res \<times> array_decoder \<times> bytes" where
  "tx_merkle_node_decoder_push = newtype_push TxMerkleNodeDecoderError array_decoder_push"

definition tx_merkle_node_decoder_end :: "array_decoder \<Rightarrow> (tx_merkle_node_decoder_error, bytes) res" where
  "tx_merkle_node_decoder_end = newtype_end (end_with TxMerkleNodeDecoderError Ok) array_decoder_end"

definition tx_merkle_node_decoder_run :: "array_decoder \<Rightarrow> bytes \<Rightarrow> (tx_merkle_node_decoder_error, bytes) presult" where
  "tx_merkle_node_decoder_run = newtype_run TxMerkleNodeDecoderError Ok array_decoder_run"

definition block_time_decoder_new :: array_decoder where
  "block_time_decoder_new = array_decoder_new 4"

definition block_time_decoder_push ::
  "array_decoder \<Rightarrow> bytes \<Rightarrow> (block_time_decoder_error, dstatus) res \<times> array_decoder \<times> bytes" where
  "block_time_decoder_push = newtype_push BlockTimeDecoderError array_decoder_push"

definition block_time_decoder_end :: "array_decoder \<Rightarrow> (block_time_decoder_error, u32) res" where
  "block_time_decoder_end =
     newtype_end (end_with BlockTimeDecoderError (\<lambda>value. Ok (from_le_bytes value))) array_decoder_end"

definition block_time_decoder_run :: "array_decoder \<Rightarrow> bytes \<Rightarrow> (block_time_decoder_error, u32) presult" where
  "block_time_decoder_run = newtype_run BlockTimeDecoderError (\<lambda>value. Ok (from_le_bytes value)) array_decoder_run"

definition compact_target_decoder_new :: array_decoder where
  "compact_target_decoder_new = array_decoder_new 4"

definition compact_target_decoder_push ::
  "array_decoder \<Rightarrow> bytes \<Rightarrow> (compact_target_decoder_error, dstatus) res \<times> array_decoder \<times> bytes" where
  "compact_target_decoder_push = newtype_push CompactTargetDecoderError array_decoder_push"

definition compact_target_decoder_end :: "array_decoder \<Rightarrow> (compact_target_decoder_error, u32) res" where
  "compact_target_decoder_end =
     newtype_end (end_with CompactTargetDecoderError (\<lambda>value. Ok (from_le_bytes value))) array_decoder_end"

definition compact_target_decoder_run :: "array_decoder \<Rightarrow> bytes \<Rightarrow> (compact_target_decoder_error, u32) presult" where
  "compact_target_decoder_run =
     newtype_run CompactTargetDecoderError (\<lambda>value. Ok (from_le_bytes value)) array_decoder_run"

lemma header_field_decoders:
  "push_decoder block_version_decoder_push block_version_decoder_end array_decoder_read_limit
     block_version_decoder_run array_decoder_inv"
  "push_decoder block_hash_decoder_push block_hash_decoder_end array_decoder_read_limit
     block_hash_decoder_run array_decoder_inv"
  "push_decoder tx_merkle_node_decoder_push tx_merkle_node_decoder_end array_decoder_read_limit
     tx_merkle_node_decoder_run array_decoder_inv"
  "push_decoder block_time_decoder_push block_time_decoder_end array_decoder_read_limit
     block_time_decoder_run array_decoder_inv"
  "push_decoder compact_target_decoder_push compact_target_decoder_end array_decoder_read_limit
     compact_target_decoder_run array_decoder_inv"
  unfolding block_version_decoder_push_def block_version_decoder_end_def block_version_decoder_run_def
    block_hash_decoder_push_def block_hash_decoder_end_def block_hash_decoder_run_def
    tx_merkle_node_decoder_push_def tx_merkle_node_decoder_end_def tx_merkle_node_decoder_run_def
    block_time_decoder_push_def block_time_decoder_end_def block_time_decoder_run_def
    compact_target_decoder_push_def compact_target_decoder_end_def compact_target_decoder_run_def
  by (rule array_newtype; simp)+

lemmas header_field_runs =
  u32_newtype_run [of BlockVersionDecoderError, folded block_version_decoder_run_def block_version_decoder_new_def]
  bytes_newtype_run [of BlockHashDecoderError 32, folded block_hash_decoder_run_def block_hash_decoder_new_def]
  bytes_newtype_run [of TxMerkleNodeDecoderError 32, folded tx_merkle_node_decoder_run_def tx_merkle_node_decoder_new_def]
  u32_newtype_run [of BlockTimeDecoderError, folded block_time_decoder_run_def block_time_decoder_new_def]
  u32_newtype_run [of CompactTargetDecoderError, folded compact_target_decoder_run_def compact_target_decoder_new_def]

subsection \<open>The decoder of a header\<close>

type_synonym header_state =
  "(((array_decoder, u32, array_decoder) decoder2, u32 \<times> bytes, array_decoder) decoder2,
    u32 \<times> bytes \<times> bytes,
    ((array_decoder, u32, array_decoder) decoder2, u32 \<times> u32, array_decoder) decoder2) decoder2"

datatype header_decoder_error =
    HVersion block_version_decoder_error
  | HPrevBlockhash block_hash_decoder_error
  | HMerkleRoot tx_merkle_node_decoder_error
  | HTime block_time_decoder_error
  | HBits compact_target_decoder_error
  | HNonce nat

fun header_from_inner ::
  "(block_version_decoder_error, block_hash_decoder_error, tx_merkle_node_decoder_error, block_time_decoder_error,
    compact_target_decoder_error, nat) decoder6_error \<Rightarrow> header_decoder_error" where
  "header_from_inner (D6_First e) = HVersion e"
| "header_from_inner (D6_Second e) = HPrevBlockhash e"
| "header_from_inner (D6_Third e) = HMerkleRoot e"
| "header_from_inner (D6_Fourth e) = HTime e"
| "header_from_inner (D6_Fifth e) = HBits e"
| "header_from_inner (D6_Sixth e) = HNonce e"

definition header_of_parts ::
  "u32 \<times> bytes \<times> bytes \<times> u32 \<times> u32 \<times> bytes \<Rightarrow> (header_decoder_error, header) res" where
  "header_of_parts parts = (case parts of (ver, prev, root, time, target, n) \<Rightarrow>
     Ok \<lparr>h_version = ver, prev_blockhash = prev, merkle_root = root, h_time = time, bits = target,
         nonce = from_le_bytes n\<rparr>)"

definition header_decoder_new :: header_state where
  "header_decoder_new = decoder6_new block_version_decoder_new block_hash_decoder_new tx_merkle_node_decoder_new
     block_time_decoder_new compact_target_decoder_new (array_decoder_new 4)"

definition header_decoder_push ::
  "header_state \<Rightarrow> bytes \<Rightarrow> (header_decoder_error, dstatus) res \<times> header_state \<times> bytes" where
  "header_decoder_push = newtype_push header_from_inner
     (decoder6_push block_version_decoder_push block_version_decoder_end block_hash_decoder_push block_hash_decoder_end
        tx_merkle_node_decoder_push tx_merkle_node_decoder_end block_time_decoder_push block_time_decoder_end
        compact_target_decoder_push compact_target_decoder_end array_decoder_push)"

definition header_decoder_end :: "header_state \<Rightarrow> (header_decoder_error, header) res" where
  "header_decoder_end = newtype_end (end_with header_from_inner header_of_parts)
     (decoder6_end block_version_decoder_end block_hash_decoder_end tx_merkle_node_decoder_end
        block_time_decoder_end compact_target_decoder_end array_decoder_end)"

definition header_decoder_read_limit :: "header_state \<Rightarrow> nat" where
  "header_decoder_read_limit = decoder6_read_limit array_decoder_read_limit array_decoder_read_limit
     array_decoder_read_limit array_decoder_read_limit array_decoder_read_limit array_decoder_read_limit"

definition header_decoder_run :: "header_state \<Rightarrow> bytes \<Rightarrow> (header_decoder_error, header) presult" where
  "header_decoder_run = newtype_run header_from_inner header_of_parts
     (decoder6_run block_version_decoder_run block_hash_decoder_run tx_merkle_node_decoder_run
        block_time_decoder_run compact_target_decoder_run array_decoder_run)"

definition header_decoder_inv :: "header_state \<Rightarrow> bool" where
  "header_decoder_inv = decoder6_inv array_decoder_inv array_decoder_inv array_decoder_inv
     array_decoder_inv array_decoder_inv array_decoder_inv"

interpretation header_parts: decoder_sextuple
  block_version_decoder_push block_version_decoder_end array_decoder_read_limit block_version_decoder_run array_decoder_inv
  block_hash_decoder_push block_hash_decoder_end array_decoder_read_limit block_hash_decoder_run array_decoder_inv
  tx_merkle_node_decoder_push tx_merkle_node_decoder_end array_decoder_read_limit tx_merkle_node_decoder_run array_decoder_inv
  block_time_decoder_push block_time_decoder_end array_decoder_read_limit block_time_decoder_run array_decoder_inv
  compact_target_decoder_push compact_target_decoder_end array_decoder_read_limit compact_target_decoder_run array_decoder_inv
  array_decoder_push array_decoder_end array_decoder_read_limit array_decoder_run array_decoder_inv
  by (intro decoder_sextuple.intro decoder_triple.intro decoder_pair.intro header_field_decoders ad.push_decoder_axioms)

lemma header_of_parts_halts [simp]: "halts (header_of_parts p)" "header_of_parts p \<noteq> Panic"
  by (simp_all add: header_of_parts_def Let_def split: prod.splits)

interpretation header_dec: push_decoder header_decoder_push header_decoder_end header_decoder_read_limit
  header_decoder_run header_decoder_inv
  unfolding header_decoder_push_def header_decoder_end_def header_decoder_read_limit_def header_decoder_run_def
    header_decoder_inv_def
  by (intro newtype_decoder.newtype_push_decoder newtype_decoder.intro newtype_decoder_axioms.intro
        header_parts.sextuple_push_decoder header_of_parts_halts)

text \<open>The 80 bytes of a header.\<close>

definition header_ok :: "header \<Rightarrow> bool" where
  "header_ok h \<longleftrightarrow> length (prev_blockhash h) = 32 \<and> length (merkle_root h) = 32"

definition header_bytes :: "header \<Rightarrow> bytes" where
  "header_bytes h = to_le_bytes (h_version h) @ prev_blockhash h @ merkle_root h @ to_le_bytes (h_time h)
     @ to_le_bytes (bits h) @ to_le_bytes (nonce h)"

lemma decoder6_run_new_iff:
  "decoder6_run ra rb rc rd re rf (decoder6_new a b c d e f) x = POk (t, u, v, w, y, z) r \<longleftrightarrow>
     (\<exists>x1 x2 x3 x4 x5. ra a x = POk t x1 \<and> rb b x1 = POk u x2 \<and> rc c x2 = POk v x3 \<and>
        rd d x3 = POk w x4 \<and> re e x4 = POk y x5 \<and> rf f x5 = POk z r)"
proof -
  have "decoder6_run ra rb rc rd re rf (decoder6_new a b c d e f) x = POk (t, u, v, w, y, z) r \<longleftrightarrow>
      (\<exists>x3. decoder3_run ra rb rc (decoder3_new a b c) x = POk (t, u, v) x3 \<and>
         decoder3_run rd re rf (decoder3_new d e f) x3 = POk (w, y, z) r)"
    by (auto simp: decoder6_run_def decoder6_new_def newtype_run_POk_iff pbind_POk_iff)
  then show ?thesis by (auto simp: decoder3_run_new_iff)
qed

lemma header_run:
  "header_decoder_run header_decoder_new x = POk h r \<longleftrightarrow> header_ok h \<and> x = header_bytes h @ r"
proof -
  have le: "length n = 4 \<Longrightarrow> to_le_bytes (from_le_bytes n :: u32) = n" for n by (rule to_from_le_bytes) simp
  have "header_decoder_run header_decoder_new x = POk h r \<longleftrightarrow>
      (\<exists>n. length n = 4 \<and> nonce h = from_le_bytes n \<and> header_ok h \<and>
         x = to_le_bytes (h_version h) @ prev_blockhash h @ merkle_root h @ to_le_bytes (h_time h)
           @ to_le_bytes (bits h) @ n @ r)"
    by (cases h) (auto simp: header_decoder_run_def header_decoder_new_def newtype_run_POk_iff header_of_parts_def
        Let_def decoder6_run_new_iff header_field_runs array_decoder_new_run_iff header_ok_def split: prod.splits)
  then show ?thesis
    by (auto simp: header_bytes_def le intro!: exI [of _ "to_le_bytes (nonce h)"])
qed

lemma header_decoder_new_inv [simp]: "header_decoder_inv header_decoder_new"
  by (simp add: header_decoder_inv_def header_decoder_new_def decoder6_inv_def decoder6_new_def decoder3_inv_def
      decoder3_new_def block_version_decoder_new_def block_hash_decoder_new_def tx_merkle_node_decoder_new_def
      block_time_decoder_new_def compact_target_decoder_new_def)


lemma header_run_no_panic: "header_decoder_run header_decoder_new x \<noteq> PPanic"
  by (auto simp: header_decoder_run_def header_decoder_new_def newtype_run_def decoder6_run_def decoder6_new_def
      decoder3_run_new pbind_PPanic_iff finished_PPanic header_field_runs array_decoder_new_run)

lemma header_run_Nil: "header_decoder_run header_decoder_new [] = PMore"
  by (simp add: header_decoder_run_def header_decoder_new_def newtype_run_def decoder6_run_def decoder6_new_def
      decoder3_run_new block_version_decoder_run_def block_version_decoder_new_def array_decoder_new_run)

subsection \<open>The encoder of a header\<close>

record array_ref_encoder = are_arr :: bytes

definition array_ref_encoder_chunk :: "array_ref_encoder \<Rightarrow> bytes option" where
  "array_ref_encoder_chunk e = Some (are_arr e)"

definition array_ref_encoder_advance :: "array_ref_encoder \<Rightarrow> (estatus \<times> array_ref_encoder) option" where
  "array_ref_encoder_advance e = Some (Finished, e)"

interpretation are: encoder array_ref_encoder_chunk array_ref_encoder_advance are_arr "\<lambda>_. 0" "\<lambda>_. True"
  by unfold_locales (auto simp: array_ref_encoder_chunk_def array_ref_encoder_advance_def)

type_synonym header_encoder =
  "(array_encoder, array_ref_encoder, array_ref_encoder, array_encoder, array_encoder, array_encoder) encoder6"

definition header_encoder_new :: "header \<Rightarrow> header_encoder" where
  "header_encoder_new h = encoder6_new \<lparr>ae_arr = to_le_bytes (h_version h)\<rparr> \<lparr>are_arr = prev_blockhash h\<rparr>
     \<lparr>are_arr = merkle_root h\<rparr> \<lparr>ae_arr = to_le_bytes (h_time h)\<rparr> \<lparr>ae_arr = to_le_bytes (bits h)\<rparr>
     \<lparr>ae_arr = to_le_bytes (nonce h)\<rparr>"

definition header_encoder_chunk :: "header_encoder \<Rightarrow> bytes option" where
  "header_encoder_chunk = encoder6_chunk array_encoder_chunk array_ref_encoder_chunk array_ref_encoder_chunk
     array_encoder_chunk array_encoder_chunk array_encoder_chunk"

definition header_encoder_advance :: "header_encoder \<Rightarrow> (estatus \<times> header_encoder) option" where
  "header_encoder_advance = encoder6_advance array_encoder_advance array_ref_encoder_advance
     array_ref_encoder_advance array_encoder_advance array_encoder_advance array_encoder_advance"

definition header_encoder_out :: "header_encoder \<Rightarrow> bytes" where
  "header_encoder_out = encoder6_out ae_arr are_arr are_arr ae_arr ae_arr ae_arr"

definition header_encoder_steps :: "header_encoder \<Rightarrow> nat" where
  "header_encoder_steps = encoder6_steps (\<lambda>_. 0) (\<lambda>_. 0) (\<lambda>_. 0) (\<lambda>_. 0) (\<lambda>_. 0) (\<lambda>_. 0)"

definition header_encoder_valid :: "header_encoder \<Rightarrow> bool" where
  "header_encoder_valid = encoder6_valid (\<lambda>_. True) (\<lambda>_. True) (\<lambda>_. True) (\<lambda>_. True) (\<lambda>_. True) (\<lambda>_. True)"

interpretation header_enc_parts: encoder_sextuple
  array_encoder_chunk array_encoder_advance ae_arr "\<lambda>_. 0" "\<lambda>_. True"
  array_ref_encoder_chunk array_ref_encoder_advance are_arr "\<lambda>_. 0" "\<lambda>_. True"
  array_ref_encoder_chunk array_ref_encoder_advance are_arr "\<lambda>_. 0" "\<lambda>_. True"
  array_encoder_chunk array_encoder_advance ae_arr "\<lambda>_. 0" "\<lambda>_. True"
  array_encoder_chunk array_encoder_advance ae_arr "\<lambda>_. 0" "\<lambda>_. True"
  array_encoder_chunk array_encoder_advance ae_arr "\<lambda>_. 0" "\<lambda>_. True"
  by (intro encoder_sextuple.intro ae.encoder_axioms are.encoder_axioms)

interpretation header_enc: encoder header_encoder_chunk header_encoder_advance header_encoder_out
  header_encoder_steps header_encoder_valid
  unfolding header_encoder_chunk_def header_encoder_advance_def header_encoder_out_def header_encoder_steps_def
    header_encoder_valid_def
  by (rule header_enc_parts.sextuple_encoder)

lemma header_encoder_new [simp]:
  "header_encoder_valid (header_encoder_new h)"
  "header_encoder_out (header_encoder_new h) = header_bytes h"
  by (simp_all add: header_encoder_valid_def header_encoder_out_def header_encoder_new_def encoder6_valid_def
      encoder6_out_def encoder6_new_def header_bytes_def)

text \<open>\<open>encode_to_hash\<close> drains the encoder into the hash engine.\<close>

definition block_hash :: "(bytes \<Rightarrow> bytes) \<Rightarrow> header \<Rightarrow> (unit, bytes) res" where
  "block_hash sha256d h =
     res_bind (drain_to_vec header_encoder_chunk header_encoder_advance (header_encoder_new h)) (\<lambda>bs. Ok (sha256d bs))"

lemma block_hash_eq: "block_hash sha256d h = Ok (sha256d (header_bytes h))"
  by (simp add: block_hash_def header_enc.drain_to_vec_out)

text \<open>
  A block header is exactly its 80 bytes: the decoder accepts a slice when it is the
  encoding of a header and then returns that header, every header's encoder yields 80 bytes,
  and these decode to the header.
\<close>

theorem header_decoder_accepts:
  "(decode_from_slice header_decoder_push header_decoder_end header_decoder_new bs = Ok h
     \<longleftrightarrow> header_ok h \<and> drain_to_vec header_encoder_chunk header_encoder_advance (header_encoder_new h) = Ok bs)
   \<and> ((\<exists>h. decode_from_slice header_decoder_push header_decoder_end header_decoder_new bs = Ok h) \<longleftrightarrow> length bs = 80)"
proof
  have accepts: "decode_from_slice header_decoder_push header_decoder_end header_decoder_new bs = Ok h
      \<longleftrightarrow> header_ok h \<and> bs = header_bytes h" for h
    by (simp add: header_dec.decode_from_slice_iff header_run)
  then show "decode_from_slice header_decoder_push header_decoder_end header_decoder_new bs = Ok h
     \<longleftrightarrow> header_ok h \<and> drain_to_vec header_encoder_chunk header_encoder_advance (header_encoder_new h) = Ok bs"
    by (auto simp: header_enc.drain_to_vec_out)
  have "\<exists>h. header_ok h \<and> bs = header_bytes h" if len: "length bs = 80"
  proof -
    let ?f = "\<lambda>i n. take n (drop i bs)"
    have le: "to_le_bytes (from_le_bytes (?f i 4) :: u32) = ?f i 4" if "i \<le> 76" for i
      by (rule to_from_le_bytes) (use len that in simp)
    have le_ends: "to_le_bytes (from_le_bytes (take 4 bs) :: u32) = take 4 bs"
        "to_le_bytes (from_le_bytes (drop 76 bs) :: u32) = drop 76 bs"
      using le [of 0] le [of 76] len by simp_all
    have split: "drop i bs = ?f i n @ drop (i + n) bs" for i n
      by (metis add.commute append_take_drop_id drop_drop)
    have "drop 76 bs = ?f 76 4" using len by simp
    then have "drop 72 bs = ?f 72 4 @ ?f 76 4" by (subst split [of 72 4]) simp
    then have "drop 68 bs = ?f 68 4 @ ?f 72 4 @ ?f 76 4" by (subst split [of 68 4]) simp
    then have "drop 36 bs = ?f 36 32 @ ?f 68 4 @ ?f 72 4 @ ?f 76 4" by (subst split [of 36 32]) simp
    then have "drop 4 bs = ?f 4 32 @ ?f 36 32 @ ?f 68 4 @ ?f 72 4 @ ?f 76 4" by (subst split [of 4 32]) simp
    then have "drop 0 bs = ?f 0 4 @ ?f 4 32 @ ?f 36 32 @ ?f 68 4 @ ?f 72 4 @ ?f 76 4" by (subst split [of 0 4]) simp
    then have "bs = ?f 0 4 @ ?f 4 32 @ ?f 36 32 @ ?f 68 4 @ ?f 72 4 @ ?f 76 4" by simp
    then show ?thesis
      using len
      by (intro exI [of _ "\<lparr>h_version = from_le_bytes (?f 0 4), prev_blockhash = ?f 4 32, merkle_root = ?f 36 32,
            h_time = from_le_bytes (?f 68 4), bits = from_le_bytes (?f 72 4), nonce = from_le_bytes (?f 76 4)\<rparr>"])
         (simp add: header_ok_def header_bytes_def le le_ends)
  qed
  then show "(\<exists>h. decode_from_slice header_decoder_push header_decoder_end header_decoder_new bs = Ok h) \<longleftrightarrow> length bs = 80"
    unfolding accepts by (auto simp: header_ok_def header_bytes_def)
qed

end
