(* ===== verification/Merkle.thy ===== *)
theory Merkle
  imports Prelude
begin

section \<open>Merkle roots\<close>

text \<open>
  \<open>primitives/src/merkle_tree.rs\<close>: the Merkle root of the transactions of a block, computed by the
  trait method \<open>MerkleNode::calculate_root\<close> with a stack of complete subtrees, and on some
  platforms by \<open>calculate_root_batched\<close>, level by level. The hash function is a parameter \<open>h\<close>.
  Both are shown to compute one recursive tree, and to agree as long as no hash
  collision is involved; a root commits to the leaves.
\<close>

subsection \<open>The stack algorithm\<close>

type_synonym stack = "(nat \<times> bytes) list"

definition combine :: "(bytes \<Rightarrow> bytes) \<Rightarrow> bytes \<Rightarrow> bytes \<Rightarrow> bytes" where
  "combine h left right = h (left @ right)"

text \<open>\<open>while n & 1 == 1\<close>; the head of the list is the top of the stack. \<open>None\<close> is the early return.\<close>

function merge_loop :: "(bytes \<Rightarrow> bytes) \<Rightarrow> nat \<Rightarrow> stack \<Rightarrow> (unit, stack option) res" where
  "merge_loop h n stack =
     (if odd n then
        (case stack of
           right # left # stack' \<Rightarrow>
             if snd left = snd right then Ok None
             else if fst left \<noteq> fst right then Panic
             else merge_loop h (n div 2) ((fst left + 1, combine h (snd left) (snd right)) # stack')
         | _ \<Rightarrow> Panic)
      else Ok (Some stack))"
  by pat_completeness auto
termination by (relation "measure (\<lambda>(h, n, stack). n)") (auto elim: oddE)

fun leaf_loop :: "(bytes \<Rightarrow> bytes) \<Rightarrow> nat \<Rightarrow> bytes list \<Rightarrow> stack \<Rightarrow> (unit, stack option) res" where
  "leaf_loop h n [] stack = Ok (Some stack)"
| "leaf_loop h n (leaf # leaves) stack =
     res_bind (merge_loop h n ((0, leaf) # stack)) (\<lambda>r.
       case r of None \<Rightarrow> Ok None | Some stack' \<Rightarrow> leaf_loop h (n + 1) leaves stack')"

text \<open>\<open>while right.0 != left.0\<close>\<close>

function raise_right :: "(bytes \<Rightarrow> bytes) \<Rightarrow> nat \<Rightarrow> nat \<times> bytes \<Rightarrow> (unit, nat \<times> bytes) res" where
  "raise_right h level right =
     (if fst right = level then Ok right
      else if \<not> fst right < level then Panic
      else raise_right h level (fst right + 1, combine h (snd right) (snd right)))"
  by pat_completeness auto
termination by (relation "measure (\<lambda>(h, level, right). level - fst right)") auto

function root_loop :: "(bytes \<Rightarrow> bytes) \<Rightarrow> stack \<Rightarrow> (unit, bytes option) res" where
  "root_loop h [] = Ok None"
| "root_loop h [x] = Ok (Some (snd x))"
| "root_loop h (right # left # stack) =
     res_bind (raise_right h (fst left) right) (\<lambda>right.
       root_loop h ((fst left + 1, combine h (snd left) (snd right)) # stack))"
  by pat_completeness auto
termination by (relation "measure (\<lambda>(h, stack). length stack)") auto

definition calculate_root :: "(bytes \<Rightarrow> bytes) \<Rightarrow> bytes list \<Rightarrow> (unit, bytes option) res" where
  "calculate_root h leaves =
     res_bind (leaf_loop h 0 leaves []) (\<lambda>r. case r of None \<Rightarrow> Ok None | Some stack \<Rightarrow> root_loop h stack)"

declare merge_loop.simps [simp del] raise_right.simps [simp del]

subsection \<open>The batched algorithm\<close>

text \<open>The loops over \<open>chunks_exact(2)\<close>; \<open>hash_64_many\<close> hashes every block of 64 bytes.\<close>

fun equal_pair :: "bytes list \<Rightarrow> bool" where
  "equal_pair (a # b # nodes) \<longleftrightarrow> a = b \<or> equal_pair nodes"
| "equal_pair nodes \<longleftrightarrow> False"

fun hash_pairs :: "(bytes \<Rightarrow> bytes) \<Rightarrow> bytes list \<Rightarrow> bytes list" where
  "hash_pairs h (a # b # nodes) = combine h a b # hash_pairs h nodes"
| "hash_pairs h nodes = []"

definition pad_odd :: "bytes list \<Rightarrow> bytes list" where
  "pad_odd nodes = (if odd (length nodes) then nodes @ [last nodes] else nodes)"

lemma length_hash_pairs [simp]: "length (hash_pairs h nodes) = length nodes div 2"
  by (induction h nodes rule: hash_pairs.induct) auto

lemma length_pad_odd [simp]: "length (pad_odd nodes) = 2 * ((length nodes + 1) div 2)"
  by (auto simp: pad_odd_def elim: oddE)

function batched_loop :: "(bytes \<Rightarrow> bytes) \<Rightarrow> bytes list \<Rightarrow> bytes option" where
  "batched_loop h nodes =
     (if length nodes > 1 then
        (if equal_pair nodes then None else batched_loop h (hash_pairs h (pad_odd nodes)))
      else Some (nodes ! 0))"
  by pat_completeness auto
termination by (relation "measure (\<lambda>(h, nodes). length nodes)") auto

declare batched_loop.simps [simp del]

definition calculate_root_batched :: "(bytes \<Rightarrow> bytes) \<Rightarrow> bytes list \<Rightarrow> bytes option" where
  "calculate_root_batched h nodes = (if nodes = [] then None else batched_loop h nodes)"

subsection \<open>The tree they compute\<close>

text \<open>
  The tree of height \<open>k\<close> over at most \<open>2 ^ k\<close> leaves, in which a missing right half is a copy of
  the left one; \<open>siblings_differ\<close> says that no two siblings that are both there are equal, and
  \<open>complete_differ\<close> says so of siblings that are both complete.
\<close>

fun tree :: "(bytes \<Rightarrow> bytes) \<Rightarrow> nat \<Rightarrow> bytes list \<Rightarrow> bytes" where
  "tree h 0 xs = hd xs"
| "tree h (Suc k) xs =
     (if length xs \<le> 2 ^ k then combine h (tree h k xs) (tree h k xs)
      else combine h (tree h k (take (2 ^ k) xs)) (tree h k (drop (2 ^ k) xs)))"

fun siblings_differ :: "(bytes \<Rightarrow> bytes) \<Rightarrow> nat \<Rightarrow> bytes list \<Rightarrow> bool" where
  "siblings_differ h 0 xs \<longleftrightarrow> True"
| "siblings_differ h (Suc k) xs \<longleftrightarrow>
     (if length xs \<le> 2 ^ k then siblings_differ h k xs
      else siblings_differ h k (take (2 ^ k) xs) \<and> siblings_differ h k (drop (2 ^ k) xs)
        \<and> tree h k (take (2 ^ k) xs) \<noteq> tree h k (drop (2 ^ k) xs))"

fun complete_differ :: "(bytes \<Rightarrow> bytes) \<Rightarrow> nat \<Rightarrow> bytes list \<Rightarrow> bool" where
  "complete_differ h 0 xs \<longleftrightarrow> True"
| "complete_differ h (Suc k) xs \<longleftrightarrow>
     (if length xs \<le> 2 ^ k then complete_differ h k xs
      else complete_differ h k (take (2 ^ k) xs) \<and> complete_differ h k (drop (2 ^ k) xs)
        \<and> (length xs = 2 ^ Suc k \<longrightarrow> tree h k (take (2 ^ k) xs) \<noteq> tree h k (drop (2 ^ k) xs)))"

function tree_height :: "nat \<Rightarrow> nat" where
  "tree_height n = (if n \<le> 1 then 0 else Suc (tree_height ((n + 1) div 2)))"
  by pat_completeness auto
termination by (relation "measure id") auto

declare tree_height.simps [simp del]

lemma tree_height_bound: "n \<le> 2 ^ tree_height n"
proof (induction n rule: tree_height.induct)
  case (1 n)
  show ?case
  proof (cases "n \<le> 1")
    case False
    then have "(n + 1) div 2 \<le> 2 ^ tree_height ((n + 1) div 2)" using 1 by blast
    then show ?thesis using False by (subst tree_height.simps) simp
  qed (simp add: tree_height.simps)
qed

lemma tree_height_unique: "0 < n \<Longrightarrow> n \<le> 2 ^ k \<Longrightarrow> k = 0 \<or> 2 ^ (k - 1) < n \<Longrightarrow> tree_height n = k"
proof (induction k arbitrary: n)
  case 0
  then show ?case by (simp add: tree_height.simps)
next
  case (Suc k)
  then have n: "1 < n" by (metis One_nat_def diff_Suc_1 less_one nat.distinct(1) not_less_iff_gr_or_eq one_le_numeral one_le_power order.strict_trans2)
  have "tree_height ((n + 1) div 2) = k"
  proof (rule Suc.IH)
    show "0 < (n + 1) div 2" using n by simp
    show "(n + 1) div 2 \<le> 2 ^ k" using Suc.prems(2) by simp
    show "k = 0 \<or> 2 ^ (k - 1) < (n + 1) div 2"
    proof (cases k)
      case (Suc j)
      then have "2 * 2 ^ j < n" using Suc.prems(3) by simp
      then show ?thesis using Suc by simp
    qed simp
  qed
  then show ?case using n by (subst tree_height.simps) simp
qed

subsection \<open>The batched algorithm computes it\<close>

lemma hash_pairs_append:
  "even (length xs) \<Longrightarrow> hash_pairs h (xs @ ys) = hash_pairs h xs @ hash_pairs h ys"
  by (induction h xs rule: hash_pairs.induct) auto

lemma equal_pair_append: "even (length xs) \<Longrightarrow> equal_pair (xs @ ys) \<longleftrightarrow> equal_pair xs \<or> equal_pair ys"
  by (induction xs rule: equal_pair.induct) auto

lemma pad_odd_append: "even (length xs) \<Longrightarrow> ys \<noteq> [] \<Longrightarrow> pad_odd (xs @ ys) = xs @ pad_odd ys"
  by (simp add: pad_odd_def)

lemma pad_odd_even: "even (length xs) \<Longrightarrow> pad_odd xs = xs"
  by (simp add: pad_odd_def)

definition next_level :: "(bytes \<Rightarrow> bytes) \<Rightarrow> bytes list \<Rightarrow> bytes list" where
  "next_level h xs = hash_pairs h (pad_odd xs)"

lemma length_next_level [simp]: "length (next_level h xs) = (length xs + 1) div 2"
  by (simp add: next_level_def)

lemma next_level_split:
  assumes "2 ^ Suc k < length xs"
  shows "next_level h xs = next_level h (take (2 ^ Suc k) xs) @ next_level h (drop (2 ^ Suc k) xs)"
    and "equal_pair xs \<longleftrightarrow> equal_pair (take (2 ^ Suc k) xs) \<or> equal_pair (drop (2 ^ Suc k) xs)"
proof -
  let ?L = "take (2 ^ Suc k) xs" and ?R = "drop (2 ^ Suc k) xs"
  have even: "even (length ?L)" and "?R \<noteq> []" using assms by simp_all
  then have "pad_odd (?L @ ?R) = ?L @ pad_odd ?R" "pad_odd ?L = ?L"
    using pad_odd_append [of ?L ?R] pad_odd_even [of ?L] by blast+
  then show "next_level h xs = next_level h ?L @ next_level h ?R"
    unfolding next_level_def by (metis append_take_drop_id even hash_pairs_append)
  show "equal_pair xs \<longleftrightarrow> equal_pair ?L \<or> equal_pair ?R"
    using equal_pair_append [OF even, of ?R] by simp
qed

lemma tree_next_level:
  assumes "xs \<noteq> []" and "length xs \<le> 2 ^ Suc k"
  shows "tree h (Suc k) xs = tree h k (next_level h xs)
    \<and> (siblings_differ h (Suc k) xs \<longleftrightarrow> \<not> equal_pair xs \<and> siblings_differ h k (next_level h xs))"
  using assms
proof (induction k arbitrary: xs)
  case 0
  then consider x where "xs = [x]" | x y where "xs = [x, y]"
    by (cases xs rule: remdups_adj.cases) (auto simp: Suc_le_eq)
  then show ?case by cases (auto simp: next_level_def pad_odd_def)
next
  case (Suc k)
  let ?L = "take (2 ^ Suc k) xs" and ?R = "drop (2 ^ Suc k) xs"
  show ?case
  proof (cases "length xs \<le> 2 ^ Suc k")
    case True
    then have "length (next_level h xs) \<le> 2 ^ k" by simp
    then show ?thesis using Suc.IH [OF Suc.prems(1) True] True by (simp del: power_Suc tree.simps(2)
          add: tree.simps(2) [of h "Suc k"] tree.simps(2) [of h k "next_level h xs"]) 
  next
    case False
    then have split: "2 ^ Suc k < length xs" by simp
    then have L: "?L \<noteq> []" "length ?L \<le> 2 ^ Suc k" and R: "?R \<noteq> []" "length ?R \<le> 2 ^ Suc k"
      using Suc.prems(2) by auto
    have len: "length (next_level h ?L) = 2 ^ k" using split by simp
    note IH = Suc.IH [OF L] Suc.IH [OF R]
    have "\<not> length (next_level h xs) \<le> 2 ^ k" using split by simp
    then show ?thesis
      using IH False len
      by (simp only: tree.simps(2) [of h "Suc k"] tree.simps(2) [of h k "next_level h xs"]
          siblings_differ.simps(2) [of h "Suc k"] siblings_differ.simps(2) [of h k "next_level h xs"] if_False
          next_level_split [OF split]) auto
  qed
qed

lemma batched_loop_tree:
  "xs \<noteq> [] \<Longrightarrow> batched_loop h xs =
     (if siblings_differ h (tree_height (length xs)) xs then Some (tree h (tree_height (length xs)) xs) else None)"
proof (induction h xs rule: batched_loop.induct)
  case (1 h xs)
  show ?case
  proof (cases "length xs > 1")
    case False
    then show ?thesis using 1(2) by (cases xs) (simp_all add: batched_loop.simps tree_height.simps)
  next
    case True
    let ?k = "tree_height ((length xs + 1) div 2)"
    have k: "tree_height (length xs) = Suc ?k" using True by (subst tree_height.simps) simp
    have "length xs \<le> 2 ^ Suc ?k" using tree_height_bound [of "length xs"] k by simp
    note level = tree_next_level [OF 1(2) this, of h]
    have ne: "next_level h xs \<noteq> []" using True length_next_level [of h xs] by (auto simp del: length_next_level)
    have "\<not> equal_pair xs \<Longrightarrow> batched_loop h (next_level h xs) =
        (if siblings_differ h ?k (next_level h xs) then Some (tree h ?k (next_level h xs)) else None)"
      using 1(1) [OF True] ne by (simp add: next_level_def)
    then show ?thesis
      unfolding k using level True by (subst batched_loop.simps) (simp add: next_level_def)
  qed
qed

subsection \<open>The stack algorithm computes it\<close>

text \<open>The stack after \<open>xs\<close>, fewer than \<open>2 ^ k\<close> leaves: one complete tree for each bit of their number.\<close>

fun forest :: "(bytes \<Rightarrow> bytes) \<Rightarrow> nat \<Rightarrow> bytes list \<Rightarrow> stack" where
  "forest h 0 xs = []"
| "forest h (Suc k) xs =
     (if length xs < 2 ^ k then forest h k xs
      else forest h k (drop (2 ^ k) xs) @ [(k, tree h k (take (2 ^ k) xs))])"

lemma forest_Nil [simp]: "forest h k [] = []"
  by (induction k) auto

lemma complete_differ_Nil [simp]: "complete_differ h k []"
  by (induction k) auto

lemma tree_exact [simp]: "length xs = 2 ^ k \<Longrightarrow> tree h (Suc k) xs = combine h (tree h k xs) (tree h k xs)"
  by simp

text \<open>Adding a leaf: the carry runs through the trees of a binary counter.\<close>

lemma merge_loop_forest:
  assumes "length xs < 2 ^ k" and "complete_differ h k xs"
  shows "merge_loop h (length xs + 2 ^ k * m) ((0, x) # forest h k xs @ S) =
    (if \<not> complete_differ h k (xs @ [x]) then Ok None
     else if length xs + 1 < 2 ^ k then Ok (Some (forest h k (xs @ [x]) @ S))
     else merge_loop h m ((k, tree h k (xs @ [x])) # S))"
  using assms
proof (induction k arbitrary: xs m S)
  case 0
  then show ?case by simp
next
  case (Suc k)
  show ?case
  proof (cases "length xs < 2 ^ k")
    case True
    have n: "length xs + 2 ^ Suc k * m = length xs + 2 ^ k * (2 * m)" by simp
    have "complete_differ h k xs" using Suc.prems True by simp
    note IH = Suc.IH [OF True this, of "2 * m" S, folded n]
    have stop: "merge_loop h (2 * m) T = Ok (Some T)" for T by (subst merge_loop.simps) simp
    have differ: "complete_differ h (Suc k) (xs @ [x]) = complete_differ h k (xs @ [x])"
      and small: "length xs + 1 < 2 ^ Suc k" and old: "forest h (Suc k) xs = forest h k xs"
      using True by simp_all
    have new: "forest h (Suc k) (xs @ [x]) =
        (if length xs + 1 < 2 ^ k then forest h k (xs @ [x]) else [(k, tree h k (xs @ [x]))])"
    proof (cases "length xs + 1 < 2 ^ k")
      case False
      then have "length (xs @ [x]) = 2 ^ k" using True by simp
      then show ?thesis using False by simp
    qed simp
    show ?thesis unfolding old IH differ new stop if_P [OF small] by simp
  next
    case False
    let ?L = "take (2 ^ k) xs" and ?R = "drop (2 ^ k) xs"
    have R: "length ?R < 2 ^ k" using Suc.prems(1) by simp
    have cR: "complete_differ h k ?R" and cL: "complete_differ h k ?L"
      using Suc.prems(2) False by (cases "length xs \<le> 2 ^ k"; simp)+
    have n: "length xs + 2 ^ Suc k * m = length ?R + 2 ^ k * (2 * m + 1)" using False by simp
    have forest: "forest h (Suc k) xs @ S = forest h k ?R @ (k, tree h k ?L) # S" using False by simp
    have take: "take (2 ^ k) (xs @ [x]) = ?L" "drop (2 ^ k) (xs @ [x]) = ?R @ [x]" using False by simp_all
    note IH = Suc.IH [OF R cR, of "2 * m + 1" "(k, tree h k ?L) # S", folded n forest]
    have step: "merge_loop h (2 * m + 1) ((k, r) # (k, l) # T) =
        (if l = r then Ok None else merge_loop h m ((Suc k, combine h l r) # T))" for l r T
      by (subst merge_loop.simps) simp
    have more: "\<not> length (xs @ [x]) \<le> 2 ^ k" "\<not> length (xs @ [x]) < 2 ^ k" using False by simp_all
    have len: "length ?R + 1 < 2 ^ k \<longleftrightarrow> length xs + 1 < 2 ^ Suc k"
      "length (xs @ [x]) = 2 ^ Suc k \<longleftrightarrow> \<not> length xs + 1 < 2 ^ Suc k"
      using False Suc.prems(1) by auto
    show ?thesis
      unfolding IH step len complete_differ.simps(2) [of h k "xs @ [x]"] tree.simps(2) [of h k "xs @ [x]"]
        forest.simps(2) [of h k "xs @ [x]"] take
      using more cL len by auto
  qed
qed

lemma complete_differ_prefix:
  "length (xs @ ys) \<le> 2 ^ k \<Longrightarrow> complete_differ h k (xs @ ys) \<Longrightarrow> complete_differ h k xs"
proof (induction k arbitrary: xs ys)
  case (Suc k)
  show ?case
  proof (cases "length xs \<le> 2 ^ k")
    case True
    show ?thesis
    proof (cases "length (xs @ ys) \<le> 2 ^ k")
      case False
      then have "complete_differ h k (xs @ take (2 ^ k - length xs) ys)"
        using Suc.prems(2) True by simp
      then show ?thesis using Suc.IH [of xs "take (2 ^ k - length xs) ys"] True by simp
    qed (use Suc True in auto)
  next
    case False
    then have "complete_differ h k (drop (2 ^ k) xs)"
      using Suc.IH [of "drop (2 ^ k) xs" ys] Suc.prems by (simp split: if_splits)
    then show ?thesis using Suc.prems False by (auto split: if_splits)
  qed
qed simp

lemma leaf_loop_forest:
  assumes "length (xs @ leaves) < 2 ^ k" and "complete_differ h k xs"
  shows "leaf_loop h (length xs) leaves (forest h k xs) =
    Ok (if complete_differ h k (xs @ leaves) then Some (forest h k (xs @ leaves)) else None)"
  using assms
proof (induction leaves arbitrary: xs)
  case (Cons leaf leaves)
  have "merge_loop h (length xs) ((0, leaf) # forest h k xs) =
      Ok (if complete_differ h k (xs @ [leaf]) then Some (forest h k (xs @ [leaf])) else None)"
    using merge_loop_forest [of xs k h 0 leaf "[]"] Cons.prems by simp
  moreover have "\<not> complete_differ h k (xs @ [leaf]) \<Longrightarrow> \<not> complete_differ h k (xs @ leaf # leaves)"
    using complete_differ_prefix [of "xs @ [leaf]" leaves k h] Cons.prems(1) by auto
  ultimately show ?case
    using Cons.IH [of "xs @ [leaf]"] Cons.prems(1) by auto
qed simp

lemma tree_height_pos: "n \<noteq> 0 \<Longrightarrow> tree_height n = Suc j \<Longrightarrow> 2 ^ j < n"
proof (induction n arbitrary: j rule: tree_height.induct)
  case (1 n)
  then have n: "\<not> n \<le> 1" and j: "tree_height ((n + 1) div 2) = j"
    by (metis nat.distinct(1) tree_height.simps, metis nat.distinct(1) nat.inject tree_height.simps)
  show ?case
  proof (cases j)
    case (Suc i)
    then show ?thesis using 1(1) [OF n, of i] j n by simp
  qed (use n in simp)
qed

lemma raise_right_tree:
  assumes "xs \<noteq> []" and "length xs \<le> 2 ^ j" and "j \<le> k"
  shows "raise_right h k (j, tree h j xs) = Ok (k, tree h k xs)"
  using assms(2,3)
proof (induction "k - j" arbitrary: j)
  case 0
  then show ?case by (subst raise_right.simps) simp
next
  case (Suc d)
  then have "raise_right h k (Suc j, tree h (Suc j) xs) = Ok (k, tree h k xs)"
    by (intro Suc.hyps(1)) auto
  then show ?case using Suc.prems Suc.hyps(2) by (subst raise_right.simps) auto
qed

lemma root_loop_forest:
  assumes "xs \<noteq> []" and "length xs < 2 ^ k"
  shows "root_loop h (forest h k xs @ S) =
    root_loop h ((tree_height (length xs), tree h (tree_height (length xs)) xs) # S)"
  using assms
proof (induction k arbitrary: xs S)
  case (Suc k)
  show ?case
  proof (cases "length xs < 2 ^ k")
    case False
    let ?L = "take (2 ^ k) xs" and ?R = "drop (2 ^ k) xs"
    show ?thesis
    proof (cases "length xs = 2 ^ k")
      case True
      have "tree_height (length xs) = k" by (rule tree_height_unique) (simp_all add: True, cases k, simp_all)
      then show ?thesis using False True by simp
    next
      case False
      with \<open>\<not> length xs < 2 ^ k\<close> have gt: "2 ^ k < length xs" by simp
      have height: "tree_height (length xs) = Suc k"
        by (rule tree_height_unique) (use gt Suc.prems in auto)
      let ?j = "tree_height (length ?R)"
      have R: "?R \<noteq> []" "length ?R < 2 ^ k" using gt Suc.prems by simp_all
      have "?j \<le> k"
      proof (rule ccontr)
        assume "\<not> ?j \<le> k"
        then have "tree_height (length ?R) = Suc (?j - 1)" "k \<le> ?j - 1" by simp_all
        then have "2 ^ (?j - 1) < length ?R"
          by (intro tree_height_pos) (use R(1) in simp_all)
        moreover have "(2::nat) ^ k \<le> 2 ^ (?j - 1)" using \<open>k \<le> ?j - 1\<close> by simp
        ultimately show False using R(2) by linarith
      qed
      then have "raise_right h k (?j, tree h ?j ?R) = Ok (k, tree h k ?R)"
        by (intro raise_right_tree) (use R tree_height_bound in auto)
      then show ?thesis
        using Suc.IH [OF R, of "(k, tree h k ?L) # S"] gt height by simp
    qed
  qed (use Suc in auto)
qed simp

subsection \<open>The results\<close>

lemma calculate_root_tree:
  "calculate_root h xs = Ok (if xs = [] then None
     else if complete_differ h (tree_height (length xs)) xs then Some (tree h (tree_height (length xs)) xs) else None)"
proof (cases "xs = []")
  case False
  let ?k = "Suc (tree_height (length xs))"
  have len: "length xs \<le> 2 ^ tree_height (length xs)" by (rule tree_height_bound)
  moreover have "(0::nat) < 2 ^ tree_height (length xs)" by simp
  ultimately have "length xs < 2 * 2 ^ tree_height (length xs)" by linarith
  then have lt: "length ([] @ xs) < 2 ^ ?k" by simp
  have "complete_differ h ?k []" "forest h ?k [] = []" by (simp_all add: complete_differ_Nil)
  then have "leaf_loop h 0 xs [] = Ok (if complete_differ h ?k xs then Some (forest h ?k xs) else None)"
    using leaf_loop_forest [OF lt, of h] by simp
  moreover have "complete_differ h ?k xs \<longleftrightarrow> complete_differ h (tree_height (length xs)) xs" using len by simp
  moreover have "root_loop h (forest h ?k xs) = Ok (Some (tree h (tree_height (length xs)) xs))"
    using root_loop_forest [OF False, of ?k h "[]"] lt by simp
  ultimately show ?thesis using False by (simp add: calculate_root_def del: forest.simps complete_differ.simps)
qed (simp add: calculate_root_def)

lemma calculate_root_batched_tree:
  "calculate_root_batched h xs = (if xs = [] then None
     else if siblings_differ h (tree_height (length xs)) xs then Some (tree h (tree_height (length xs)) xs) else None)"
  by (simp add: calculate_root_batched_def batched_loop_tree)

lemma siblings_differ_complete: "siblings_differ h k xs \<Longrightarrow> complete_differ h k xs"
  by (induction k arbitrary: xs) (auto split: if_splits)

text \<open>What the hash function is assumed to be: its results have 32 bytes.\<close>

definition hash32 :: "(bytes \<Rightarrow> bytes) \<Rightarrow> bool" where
  "hash32 h \<longleftrightarrow> (\<forall>x. length (h x) = 32)"

definition leaves32 :: "bytes list \<Rightarrow> bool" where
  "leaves32 xs \<longleftrightarrow> list_all (\<lambda>x. length x = 32) xs"

lemma length_tree: "hash32 h \<Longrightarrow> leaves32 xs \<Longrightarrow> xs \<noteq> [] \<Longrightarrow> length (tree h k xs) = 32"
  by (cases k; cases xs) (simp_all add: hash32_def leaves32_def combine_def)

text \<open>What is hashed for a tree.\<close>

fun tree_inputs :: "(bytes \<Rightarrow> bytes) \<Rightarrow> nat \<Rightarrow> bytes list \<Rightarrow> bytes set" where
  "tree_inputs h 0 xs = {}"
| "tree_inputs h (Suc k) xs =
     (if length xs \<le> 2 ^ k then insert (tree h k xs @ tree h k xs) (tree_inputs h k xs)
      else insert (tree h k (take (2 ^ k) xs) @ tree h k (drop (2 ^ k) xs))
        (tree_inputs h k (take (2 ^ k) xs) \<union> tree_inputs h k (drop (2 ^ k) xs)))"

definition merkle_inputs :: "(bytes \<Rightarrow> bytes) \<Rightarrow> bytes list \<Rightarrow> bytes set" where
  "merkle_inputs h xs = tree_inputs h (tree_height (length xs)) xs"

lemma combine_inj:
  assumes "combine h a b = combine h c d" and "length a = length c" and "\<not> hash_collision h S" "a @ b \<in> S" "c @ d \<in> S"
  shows "a = c \<and> b = d"
proof -
  have "a @ b = c @ d" using assms unfolding combine_def hash_collision_def by blast
  then show ?thesis using assms(2) by simp
qed

lemma leaves32_parts: "leaves32 xs \<Longrightarrow> leaves32 (take n xs)" "leaves32 xs \<Longrightarrow> leaves32 (drop n xs)"
  by (auto simp: leaves32_def list_all_iff dest: in_set_takeD in_set_dropD)

lemma complete_ne_incomplete:
  assumes "hash32 h" "\<not> hash_collision h S"
    and "complete_differ h k xs" "length xs = 2 ^ k" "leaves32 xs"
    and "ys \<noteq> []" "length ys < 2 ^ k" "leaves32 ys" and "tree_inputs h k xs \<subseteq> S" "tree_inputs h k ys \<subseteq> S"
  shows "tree h k xs \<noteq> tree h k ys"
  using assms(3-)
proof (induction k arbitrary: xs ys)
  case (Suc k)
  let ?L = "take (2 ^ k) xs" and ?R = "drop (2 ^ k) xs"
  have L: "?L \<noteq> []" "leaves32 ?L" and R: "leaves32 ?R" "length ?R = 2 ^ k"
    and xs: "\<not> length xs \<le> 2 ^ k" "tree h k ?L \<noteq> tree h k ?R" "complete_differ h k ?R"
    using Suc.prems leaves32_parts by auto
  show ?case
  proof
    assume eq: "tree h (Suc k) xs = tree h (Suc k) ys"
    show False
    proof (cases "length ys \<le> 2 ^ k")
      case True
      then have "combine h (tree h k ?L) (tree h k ?R) = combine h (tree h k ys) (tree h k ys)"
        using eq xs(1) by simp
      then have "tree h k ?L = tree h k ys \<and> tree h k ?R = tree h k ys"
        by (rule combine_inj [OF _ _ assms(2)])
          (use Suc.prems(7,8) xs(1) True in \<open>simp_all add: length_tree [OF assms(1) L(2,1)] length_tree [OF assms(1) Suc.prems(6,4)]\<close>)
      then show False using xs(2) by simp
    next
      case False
      let ?L' = "take (2 ^ k) ys" and ?R' = "drop (2 ^ k) ys"
      have L': "?L' \<noteq> []" "leaves32 ?L'" and R': "?R' \<noteq> []" "leaves32 ?R'" "length ?R' < 2 ^ k"
        using False Suc.prems leaves32_parts by auto
      have "combine h (tree h k ?L) (tree h k ?R) = combine h (tree h k ?L') (tree h k ?R')"
        using eq xs(1) False by simp
      then have "tree h k ?R = tree h k ?R'"
        by (rule combine_inj [OF _ _ assms(2), THEN conjunct2])
          (use Suc.prems(7,8) xs(1) False in \<open>simp_all add: length_tree [OF assms(1) L(2,1)] length_tree [OF assms(1) L'(2,1)]\<close>)
      then show False using Suc.IH [OF xs(3) R(2,1) R'(1,3,2)] Suc.prems(7,8) xs(1) False by simp
    qed
  qed
qed simp

lemma complete_differ_siblings:
  assumes "hash32 h" "\<not> hash_collision h S"
  shows "length xs \<le> 2 ^ k \<Longrightarrow> leaves32 xs \<Longrightarrow> complete_differ h k xs \<Longrightarrow> tree_inputs h k xs \<subseteq> S \<Longrightarrow> siblings_differ h k xs"
proof (induction k arbitrary: xs)
  case (Suc k)
  show ?case
  proof (cases "length xs \<le> 2 ^ k")
    case False
    let ?L = "take (2 ^ k) xs" and ?R = "drop (2 ^ k) xs"
    have parts: "complete_differ h k ?L" "complete_differ h k ?R"
      "length xs = 2 ^ Suc k \<longrightarrow> tree h k ?L \<noteq> tree h k ?R"
      using Suc.prems(3) False by simp_all
    have "tree h k ?L \<noteq> tree h k ?R"
    proof (cases "length xs = 2 ^ Suc k")
      case incomplete: False
      show ?thesis
        by (rule complete_ne_incomplete [OF assms parts(1)])
           (use False incomplete Suc.prems leaves32_parts in auto)
    qed (use parts in simp)
    moreover have "siblings_differ h k ?L" "siblings_differ h k ?R"
      using Suc.IH [of ?L] Suc.IH [of ?R] parts Suc.prems leaves32_parts [of xs] False by auto
    ultimately show ?thesis using False by simp
  qed (use Suc in simp)
qed simp

lemma tree_inj:
  assumes "hash32 h" "\<not> hash_collision h S"
    and "xs \<noteq> []" "length xs \<le> 2 ^ k" "leaves32 xs" "siblings_differ h k xs"
    and "ys \<noteq> []" "length ys \<le> 2 ^ k" "leaves32 ys" "siblings_differ h k ys"
    and "tree h k xs = tree h k ys" and "tree_inputs h k xs \<subseteq> S" "tree_inputs h k ys \<subseteq> S"
  shows "xs = ys"
  using assms(3-)
proof (induction k arbitrary: xs ys)
  case 0
  then have "length xs = 1" "length ys = 1" by (cases xs; cases ys; simp)+
  then obtain x y where "xs = [x]" "ys = [y]" by (auto simp: length_Suc_conv)
  then show ?case using 0 by simp
next
  case (Suc k)
  note tree_len = length_tree [OF assms(1)] and inj = combine_inj [OF _ _ assms(2)]
  have parts: "take (2 ^ k) zs \<noteq> []" "drop (2 ^ k) zs \<noteq> []" "leaves32 (take (2 ^ k) zs)" "leaves32 (drop (2 ^ k) zs)"
      "length (take (2 ^ k) zs) \<le> 2 ^ k" "length (drop (2 ^ k) zs) \<le> 2 ^ k"
      "siblings_differ h k (take (2 ^ k) zs)" "siblings_differ h k (drop (2 ^ k) zs)"
      "tree h k (take (2 ^ k) zs) \<noteq> tree h k (drop (2 ^ k) zs)"
      "tree h (Suc k) zs = combine h (tree h k (take (2 ^ k) zs)) (tree h k (drop (2 ^ k) zs))"
      "tree h k (take (2 ^ k) zs) @ tree h k (drop (2 ^ k) zs) \<in> S"
      "tree_inputs h k (take (2 ^ k) zs) \<subseteq> S" "tree_inputs h k (drop (2 ^ k) zs) \<subseteq> S"
    if "\<not> length zs \<le> 2 ^ k" "length zs \<le> 2 ^ Suc k" "leaves32 zs" "siblings_differ h (Suc k) zs"
      "tree_inputs h (Suc k) zs \<subseteq> S" for zs
    using that leaves32_parts by auto
  have small: "tree h (Suc k) zs = combine h (tree h k zs) (tree h k zs)" "siblings_differ h k zs"
      "tree h k zs @ tree h k zs \<in> S" "tree_inputs h k zs \<subseteq> S"
    if "length zs \<le> 2 ^ k" "siblings_differ h (Suc k) zs" "tree_inputs h (Suc k) zs \<subseteq> S" for zs
    using that by auto
  consider "length xs \<le> 2 ^ k" "length ys \<le> 2 ^ k" | "length xs \<le> 2 ^ k" "\<not> length ys \<le> 2 ^ k"
    | "\<not> length xs \<le> 2 ^ k" "length ys \<le> 2 ^ k" | "\<not> length xs \<le> 2 ^ k" "\<not> length ys \<le> 2 ^ k" by blast
  then show ?case
  proof cases
    case 1
    note x = small [OF 1(1) Suc.prems(4,10)] and y = small [OF 1(2) Suc.prems(8,11)]
    have "tree h k xs = tree h k ys"
      using inj [OF Suc.prems(9) [unfolded x(1) y(1)] _ x(3) y(3)] tree_len Suc.prems by simp
    then show ?thesis using Suc.IH Suc.prems 1 x(2,4) y(2,4) by blast
  next
    case 2
    note x = small [OF 2(1) Suc.prems(4,10)] and y = parts [OF 2(2) Suc.prems(6-8,11)]
    then show ?thesis using inj [OF Suc.prems(9) [unfolded x(1) y(10)] _ x(3) y(11)] tree_len Suc.prems by simp
  next
    case 3
    note y = small [OF 3(2) Suc.prems(8,11)] and x = parts [OF 3(1) Suc.prems(2-4,10)]
    then show ?thesis using inj [OF Suc.prems(9) [unfolded y(1) x(10)] _ x(11) y(3)] tree_len Suc.prems by simp
  next
    case 4
    note x = parts [OF 4(1) Suc.prems(2-4,10)] and y = parts [OF 4(2) Suc.prems(6-8,11)]
    have eq: "tree h k (take (2 ^ k) xs) = tree h k (take (2 ^ k) ys)"
      "tree h k (drop (2 ^ k) xs) = tree h k (drop (2 ^ k) ys)"
      using inj [OF Suc.prems(9) [unfolded x(10) y(10)] _ x(11) y(11)] tree_len x y by simp_all
    have "take (2 ^ k) xs = take (2 ^ k) ys" "drop (2 ^ k) xs = drop (2 ^ k) ys"
      using Suc.IH [OF x(1,5,3,7) y(1,5,3,7) eq(1) x(12) y(12)] Suc.IH [OF x(2,6,4,8) y(2,6,4,8) eq(2) x(13) y(13)]
      by blast+
    then show ?thesis by (metis append_take_drop_id)
  qed
qed

text \<open>
  The rows of nodes of a tree. A row is the list of leaves of a lower tree with the same root, and each node above the leaves is the hash of two that
  are hashed for the tree.
\<close>

definition tree_row :: "(bytes \<Rightarrow> bytes) \<Rightarrow> nat \<Rightarrow> bytes list \<Rightarrow> bytes list" where
  "tree_row h n xs = (next_level h ^^ n) xs"

lemma tree_row_simps [simp]: "tree_row h 0 xs = xs" "tree_row h (Suc n) xs = tree_row h n (next_level h xs)"
  by (simp_all add: tree_row_def funpow_swap1)

lemma next_level_inputs:
  assumes "xs \<noteq> []" and "length xs \<le> 2 ^ Suc k"
  shows "tree_inputs h k (next_level h xs) \<subseteq> tree_inputs h (Suc k) xs
    \<and> (\<forall>z \<in> set (next_level h xs). \<exists>a \<in> set xs. \<exists>b \<in> set xs. z = combine h a b \<and> a @ b \<in> tree_inputs h (Suc k) xs)"
  using assms
proof (induction k arbitrary: xs)
  case 0
  then consider x where "xs = [x]" | x y where "xs = [x, y]"
    by (cases xs rule: remdups_adj.cases) (auto simp: Suc_le_eq)
  then show ?case by cases (auto simp: next_level_def pad_odd_def)
next
  case (Suc k)
  let ?L = "take (2 ^ Suc k) xs" and ?R = "drop (2 ^ Suc k) xs" and ?n = "next_level h xs"
  show ?case
  proof (cases "length xs \<le> 2 ^ Suc k")
    case True
    then have "length ?n \<le> 2 ^ k" by simp
    then have low: "tree_inputs h (Suc k) ?n = insert (tree h k ?n @ tree h k ?n) (tree_inputs h k ?n)" by simp
    have high: "tree_inputs h (Suc (Suc k)) xs = insert (tree h (Suc k) xs @ tree h (Suc k) xs) (tree_inputs h (Suc k) xs)"
      using True by (simp only: tree_inputs.simps(2) [of h "Suc k"] if_True)
    have node: "tree h (Suc k) xs = tree h k ?n" using tree_next_level [OF Suc.prems(1) True] by blast
    note IH = Suc.IH [OF Suc.prems(1) True]
    show ?thesis unfolding low high node using insert_mono [OF IH [THEN conjunct1]] IH [THEN conjunct2] by (meson insertCI)
  next
    case False
    then have split: "2 ^ Suc k < length xs" by simp
    then have L: "?L \<noteq> []" "length ?L \<le> 2 ^ Suc k" and R: "?R \<noteq> []" "length ?R \<le> 2 ^ Suc k" using Suc.prems(2) by auto
    have n: "?n = next_level h ?L @ next_level h ?R" by (rule next_level_split(1) [OF split])
    have len: "length (next_level h ?L) = 2 ^ k" "\<not> length ?n \<le> 2 ^ k" using split by simp_all
    have low: "tree_inputs h (Suc k) ?n = insert (tree h k (next_level h ?L) @ tree h k (next_level h ?R))
        (tree_inputs h k (next_level h ?L) \<union> tree_inputs h k (next_level h ?R))"
      using len by (simp only: tree_inputs.simps(2) if_False) (simp add: n)
    have high: "tree_inputs h (Suc (Suc k)) xs = insert (tree h (Suc k) ?L @ tree h (Suc k) ?R)
        (tree_inputs h (Suc k) ?L \<union> tree_inputs h (Suc k) ?R)"
      using False by (simp only: tree_inputs.simps(2) [of h "Suc k"] if_False)
    have nodes: "tree h (Suc k) ?L = tree h k (next_level h ?L)" "tree h (Suc k) ?R = tree h k (next_level h ?R)"
      using tree_next_level [OF L] tree_next_level [OF R] by blast+
    note IH = Suc.IH [OF L] Suc.IH [OF R]
    have "set ?n = set (next_level h ?L) \<union> set (next_level h ?R)" by (simp only: n set_append)
    note parts = this
    have sub: "set ?L \<subseteq> set xs" "set ?R \<subseteq> set xs" by (rule set_take_subset, rule set_drop_subset)
    have "\<exists>a \<in> set xs. \<exists>b \<in> set xs. z = combine h a b \<and> a @ b \<in> tree_inputs h (Suc k) ?L \<union> tree_inputs h (Suc k) ?R"
      if z: "z \<in> set ?n" for z
    proof (cases "z \<in> set (next_level h ?L)")
      case True
      then show ?thesis using bspec [OF IH(1) [THEN conjunct2] True] sub(1) by blast
    next
      case False
      then have "z \<in> set (next_level h ?R)" using z parts by blast
      then show ?thesis using bspec [OF IH(2) [THEN conjunct2]] sub(2) by blast
    qed
    moreover have "tree_inputs h (Suc k) ?L \<union> tree_inputs h (Suc k) ?R \<subseteq> tree_inputs h (Suc (Suc k)) xs"
      unfolding high by (rule subset_insertI)
    ultimately have "\<forall>z \<in> set ?n. \<exists>a \<in> set xs. \<exists>b \<in> set xs. z = combine h a b \<and> a @ b \<in> tree_inputs h (Suc (Suc k)) xs"
      by (meson subsetD)
    moreover have "tree_inputs h (Suc k) ?n \<subseteq> tree_inputs h (Suc (Suc k)) xs"
      unfolding low high nodes using IH [THEN conjunct1] by (intro insert_mono Un_mono)
    ultimately show ?thesis by (intro conjI)
  qed
qed

lemma leaves32_next_level: "hash32 h \<Longrightarrow> leaves32 (next_level h xs)"
proof -
  have "hash32 h \<Longrightarrow> leaves32 (hash_pairs h ys)" for ys
    by (induction h ys rule: hash_pairs.induct) (simp_all add: leaves32_def hash32_def combine_def)
  then show "hash32 h \<Longrightarrow> leaves32 (next_level h xs)" by (simp add: next_level_def)
qed

lemma tree_row_tree:
  assumes "hash32 h" "xs \<noteq> []" "length xs \<le> 2 ^ (n + k)" "leaves32 xs"
  shows "tree_row h n xs \<noteq> [] \<and> length (tree_row h n xs) \<le> 2 ^ k \<and> leaves32 (tree_row h n xs)
    \<and> tree h (n + k) xs = tree h k (tree_row h n xs)
    \<and> (siblings_differ h (n + k) xs \<longrightarrow> siblings_differ h k (tree_row h n xs))
    \<and> tree_inputs h k (tree_row h n xs) \<subseteq> tree_inputs h (n + k) xs"
  using assms(2-)
proof (induction n arbitrary: xs)
  case (Suc n)
  have len: "length xs \<le> 2 ^ Suc (n + k)" using Suc.prems(2) by simp
  have "next_level h xs \<noteq> []" using Suc.prems(1) length_next_level [of h xs] by (cases xs) (auto simp del: length_next_level)
  moreover have "length (next_level h xs) \<le> 2 ^ (n + k)" using len by simp
  ultimately show ?case
    using Suc.IH [of "next_level h xs"] leaves32_next_level [OF assms(1)] tree_next_level [OF Suc.prems(1) len, of h]
      next_level_inputs [OF Suc.prems(1) len, of h] by (simp only: tree_row_simps add_Suc) blast
qed simp

lemma tree_row_hashed:
  assumes "hash32 h" "xs \<noteq> []" "length xs \<le> 2 ^ (Suc n + k)" "leaves32 xs" "z \<in> set (tree_row h (Suc n) xs)"
  shows "\<exists>a b. z = combine h a b \<and> a @ b \<in> tree_inputs h (Suc n + k) xs \<and> length (a @ b) = 64"
  using assms(2-)
proof (induction n arbitrary: xs)
  case 0
  then obtain a b where ab: "a \<in> set xs" "b \<in> set xs" "z = combine h a b" "a @ b \<in> tree_inputs h (Suc k) xs"
    using next_level_inputs [of xs k h] by auto
  then have "length (a @ b) = 64" using 0(3) by (simp add: leaves32_def list_all_iff)
  then show ?case using ab(3,4) unfolding add_Suc add_0 by blast
next
  case (Suc n)
  let ?n = "next_level h xs"
  have len: "length xs \<le> 2 ^ Suc (Suc n + k)" using Suc.prems(2) by simp
  have ne: "?n \<noteq> []" using Suc.prems(1) length_next_level [of h xs] by (cases xs) (auto simp del: length_next_level)
  have "length ?n \<le> 2 ^ (Suc n + k)" using len by simp
  moreover have "z \<in> set (tree_row h (Suc n) ?n)" using Suc.prems(4) by simp
  ultimately have "\<exists>a b. z = combine h a b \<and> a @ b \<in> tree_inputs h (Suc n + k) ?n \<and> length (a @ b) = 64"
    using Suc.IH [OF ne] leaves32_next_level [OF assms(1)] by blast
  then show ?case using next_level_inputs [OF Suc.prems(1) len, of h] by (simp only: add_Suc) blast
qed

text \<open>The same root at different heights: the leaves of the lower tree are a row of the higher one.\<close>

lemma lower_tree_row:
  assumes "hash32 h" "\<not> hash_collision h S"
    and "xs \<noteq> []" "leaves32 xs" "siblings_differ h (tree_height (length xs)) xs" "merkle_inputs h xs \<subseteq> S"
    and "ys \<noteq> []" "leaves32 ys" "siblings_differ h (tree_height (length ys)) ys" "merkle_inputs h ys \<subseteq> S"
    and "tree h (tree_height (length xs)) xs = tree h (tree_height (length ys)) ys"
    and "tree_height (length ys) \<le> tree_height (length xs)"
  shows "ys = tree_row h (tree_height (length xs) - tree_height (length ys)) xs"
proof -
  define k n where "k = tree_height (length ys)" and "n = tree_height (length xs) - k"
  have height: "tree_height (length xs) = n + k" "tree_height (length ys) = k" using assms(12) by (simp_all add: n_def k_def)
  have len: "length xs \<le> 2 ^ (n + k)" "length ys \<le> 2 ^ k"
    using tree_height_bound [of "length xs"] tree_height_bound [of "length ys"] height by simp_all
  note row = tree_row_tree [OF assms(1,3) len(1) assms(4)]
  have inputs: "tree_inputs h k (tree_row h n xs) \<subseteq> S" "tree_inputs h k ys \<subseteq> S"
    using row assms(6,10) by (auto simp: merkle_inputs_def height)
  have "tree_row h n xs = ys"
    by (rule tree_inj [OF assms(1,2) _ _ _ _ assms(7) len(2) assms(8) _ _ inputs]) (use row assms(5,9,11) in \<open>simp_all add: height\<close>)
  then show ?thesis by (simp add: n_def k_def)
qed

lemma if_three:
  fixes m n :: nat
  shows "(m = n \<Longrightarrow> P) \<Longrightarrow> (m < n \<Longrightarrow> Q) \<Longrightarrow> (n < m \<Longrightarrow> R) \<Longrightarrow> if m = n then P else if m < n then Q else R"
  by auto

lemma calculate_root_Some:
  assumes "calculate_root h xs = Ok (Some root)" "hash32 h" "leaves32 xs" "\<not> hash_collision h S" "merkle_inputs h xs \<subseteq> S"
  shows "xs \<noteq> []" "siblings_differ h (tree_height (length xs)) xs" "tree h (tree_height (length xs)) xs = root"
  using assms(1) complete_differ_siblings [OF assms(2,4) tree_height_bound assms(3) _ assms(5) [unfolded merkle_inputs_def]]
  by (simp_all add: calculate_root_tree split: if_splits)

text \<open>
  Property C9. The two algorithms for the Merkle root agree: the stack algorithm never trips over an
  empty stack or one of its assertions, and it returns what the batched algorithm returns,
  unless two of the byte strings that are hashed for the tree are different and have the same hash.
\<close>

theorem merkle_root_batched:
  assumes "hash32 h" and "leaves32 xs"
  shows "\<exists>r. calculate_root h xs = Ok r \<and> (r = calculate_root_batched h xs \<or> hash_collision h (merkle_inputs h xs))"
proof -
  have "complete_differ h (tree_height (length xs)) xs \<longleftrightarrow> siblings_differ h (tree_height (length xs)) xs"
    if "\<not> hash_collision h (merkle_inputs h xs)"
    using complete_differ_siblings [OF assms(1) that tree_height_bound assms(2)] unfolding merkle_inputs_def
    using siblings_differ_complete by blast
  then show ?thesis
    by (auto simp: calculate_root_tree calculate_root_batched_tree)
qed

definition first_32 :: "bytes \<Rightarrow> bytes" where
  "first_32 x = take 32 (x @ replicate 32 0)"

lemma first_32: "hash32 first_32"
  by (auto simp: hash32_def first_32_def)

theorem merkle_root_batched_witness:
  "\<exists>r. calculate_root first_32 [replicate 32 1, replicate 32 2, replicate 32 3] = Ok r
     \<and> (r = calculate_root_batched first_32 [replicate 32 1, replicate 32 2, replicate 32 3]
       \<or> hash_collision first_32 (merkle_inputs first_32 [replicate 32 1, replicate 32 2, replicate 32 3]))"
  by (rule merkle_root_batched [OF first_32]) (simp add: leaves32_def)

text \<open>
  Property C35. The Merkle root commits to the leaves, up to the height of the tree: of two lists with the same root, whose trees have the same height, both
  are the same, and if the heights differ, then the leaves of the lower tree are the nodes of a row of the
  higher one, the one of its own height; unless two of the strings hashed for them collide. In
  particular no list is confused with one that repeats its last leaves (CVE-2012-2459).
\<close>

theorem merkle_root_commits:
  assumes "hash32 h" and "leaves32 xs" and "leaves32 ys"
    and "calculate_root h xs = Ok (Some root)" and "calculate_root h ys = Ok (Some root)"
  shows "(if tree_height (length xs) = tree_height (length ys) then xs = ys
      else if tree_height (length xs) < tree_height (length ys)
      then xs = tree_row h (tree_height (length ys) - tree_height (length xs)) ys
      else ys = tree_row h (tree_height (length xs) - tree_height (length ys)) xs)
    \<or> hash_collision h (merkle_inputs h xs \<union> merkle_inputs h ys)"
proof (rule disjCI)
  assume no: "\<not> hash_collision h (merkle_inputs h xs \<union> merkle_inputs h ys)"
  note x = calculate_root_Some [OF assms(4,1,2) no Un_upper1] and y = calculate_root_Some [OF assms(5,1,3) no Un_upper2]
  have tree: "tree h (tree_height (length xs)) xs = tree h (tree_height (length ys)) ys" using x(3) y(3) by simp
  show "if tree_height (length xs) = tree_height (length ys) then xs = ys
      else if tree_height (length xs) < tree_height (length ys)
      then xs = tree_row h (tree_height (length ys) - tree_height (length xs)) ys
      else ys = tree_row h (tree_height (length xs) - tree_height (length ys)) xs"
  proof (intro if_three)
    note xy = lower_tree_row [OF assms(1) no x(1) assms(2) x(2) Un_upper1 y(1) assms(3) y(2) Un_upper2]
      and yx = lower_tree_row [OF assms(1) no y(1) assms(3) y(2) Un_upper2 x(1) assms(2) x(2) Un_upper1]
    show "xs = ys" if "tree_height (length xs) = tree_height (length ys)"
      using xy [OF tree] that by (simp only: order_refl diff_self_eq_0 tree_row_simps simp_thms)
    show "xs = tree_row h (tree_height (length ys) - tree_height (length xs)) ys"
      if "tree_height (length xs) < tree_height (length ys)" by (rule yx [OF tree [symmetric] less_imp_le [OF that]])
    show "ys = tree_row h (tree_height (length xs) - tree_height (length ys)) xs"
      if "tree_height (length ys) < tree_height (length xs)" by (rule xy [OF tree less_imp_le [OF that]])
  qed
qed

theorem merkle_root_commits_witness:
  "calculate_root first_32 [replicate 32 1, replicate 32 2] = Ok (Some (replicate 32 1))
    \<and> calculate_root first_32 [replicate 32 1, replicate 32 3] = Ok (Some (replicate 32 1))
    \<and> hash_collision first_32 {replicate 32 1 @ replicate 32 2, replicate 32 1 @ replicate 32 3}"
proof -
  have root: "calculate_root first_32 [replicate 32 1, replicate 32 x] = Ok (Some (replicate 32 1))" if "x \<noteq> 1" for x
    using that by (simp add: calculate_root_tree tree_height.simps combine_def first_32_def)
  have "[replicate 32 1, replicate 32 2] = [replicate 32 1, replicate 32 3 :: bytes]
      \<or> hash_collision first_32 (merkle_inputs first_32 [replicate 32 1, replicate 32 2]
          \<union> merkle_inputs first_32 [replicate 32 1, replicate 32 3])"
    using merkle_root_commits [OF first_32 _ _ root root, of 2 3] by (simp add: leaves32_def)
  then show ?thesis using root by (simp add: merkle_inputs_def tree_height.simps insert_commute)
qed

text \<open>
  Repeating leaves to fill up a tree is refused: a list of odd length at least three
  and the list with its last leaf twice have the same tree, but the second is never given a root.
\<close>

theorem merkle_duplicate_refused:
  assumes "odd (length xs)" and "1 < length xs"
  shows "tree h (tree_height (length xs)) (xs @ [last xs]) = tree h (tree_height (length xs)) xs
    \<and> calculate_root_batched h (xs @ [last xs]) = None"
proof
  let ?k = "tree_height ((length xs + 1) div 2)"
  have k: "tree_height (length xs) = Suc ?k" using assms(2) by (subst tree_height.simps) simp
  have bound: "length xs \<le> 2 ^ Suc ?k" using tree_height_bound [of "length xs"] k by simp
  have "length xs \<noteq> 2 ^ Suc ?k" using assms(1) by (metis dvd_triv_left power_Suc)
  then have "length (xs @ [last xs]) \<le> 2 ^ Suc ?k" using bound by simp
  moreover have "next_level h (xs @ [last xs]) = next_level h xs"
    using assms(1) by (simp add: next_level_def pad_odd_def)
  ultimately show "tree h (tree_height (length xs)) (xs @ [last xs]) = tree h (tree_height (length xs)) xs"
    unfolding k using tree_next_level [of "xs @ [last xs]" ?k h] tree_next_level [of xs ?k h] bound assms(2)
    by (cases xs) auto
  have pair: "equal_pair (ys @ [last ys])" if "odd (length ys)" for ys
    using that by (induction ys rule: equal_pair.induct) auto
  show "calculate_root_batched h (xs @ [last xs]) = None"
    using pair [OF assms(1)] assms(2) by (auto simp: calculate_root_batched_def batched_loop.simps)
qed

theorem merkle_duplicate_refused_witness:
  "calculate_root_batched first_32 ([[1], [2], [3]] @ [[3]]) = None"
  using merkle_duplicate_refused [of "[[1], [2], [3]]" first_32] by simp

end
