(* ===== verification/Block.thy ===== *)
theory Block
  imports Block_Header Merkle
begin

section \<open>Blocks\<close>

text \<open>
  \<open>Block\<close> of \<open>primitives/src/block.rs\<close>: its encoder and decoder, and \<open>validate\<close>, which checks the
  Merkle root of the header and the witness commitment of the coinbase. The type parameter that
  marks a checked block is not represented: what \<open>validate\<close> returns is the checked block.
\<close>

record block =
  b_header :: header
  transactions :: "transaction list"
  witness_root :: "bytes option"

definition block_new_unchecked :: "header \<Rightarrow> transaction list \<Rightarrow> block" where
  "block_new_unchecked h txs = \<lparr>b_header = h, transactions = txs, witness_root = None\<rparr>"

definition assume_checked :: "block \<Rightarrow> bytes option \<Rightarrow> block" where
  "assume_checked b root = b\<lparr>witness_root := root\<rparr>"

subsection \<open>The decoder of a block\<close>

type_synonym txs_decoder = "(transaction_state, transaction) vec_decoder"
type_synonym block_state = "(header_state, header, txs_decoder) decoder2"

datatype block_decoder_error =
  BlockDecoderError "(header_decoder_error, transaction_error vec_error) decoder2_error"

lemma transaction_run_new_Nil: "transaction_run transaction_decoder_new [] = PMore"
  by (simp add: transaction_decoder_new_def run_version_def version_run)

interpretation txs: item_decoder transaction_decoder_push transaction_decoder_end transaction_decoder_read_limit
  transaction_run transaction_pending transaction_decoder_new
  by unfold_locales (simp_all add: transaction_run_new_Nil)

definition block_of_parts :: "header \<times> transaction list \<Rightarrow> (block_decoder_error, block) res" where
  "block_of_parts parts = (case parts of (h, txs) \<Rightarrow> Ok (block_new_unchecked h txs))"

definition block_decoder_new :: block_state where
  "block_decoder_new = First header_decoder_new vec_decoder_new"

definition block_decoder_push ::
  "block_state \<Rightarrow> bytes \<Rightarrow> (block_decoder_error, dstatus) res \<times> block_state \<times> bytes" where
  "block_decoder_push = newtype_push BlockDecoderError
     (decoder2_push header_decoder_push header_decoder_end
        (vec_decoder_push transaction_decoder_push transaction_decoder_end transaction_decoder_new))"

definition block_decoder_end :: "block_state \<Rightarrow> (block_decoder_error, block) res" where
  "block_decoder_end = newtype_end (end_with BlockDecoderError block_of_parts)
     (decoder2_end header_decoder_end vec_decoder_end)"

definition block_decoder_read_limit :: "block_state \<Rightarrow> nat" where
  "block_decoder_read_limit = decoder2_read_limit header_decoder_read_limit
     (vec_decoder_read_limit transaction_decoder_read_limit transaction_decoder_new)"

definition block_decoder_run :: "block_state \<Rightarrow> bytes \<Rightarrow> (block_decoder_error, block) presult" where
  "block_decoder_run = newtype_run BlockDecoderError block_of_parts
     (decoder2_run header_decoder_run (vec_run transaction_run transaction_decoder_new))"

definition block_decoder_inv :: "block_state \<Rightarrow> bool" where
  "block_decoder_inv = decoder2_inv header_decoder_inv (vec_inv transaction_run transaction_pending)"

interpretation block_parts: decoder_pair
  header_decoder_push header_decoder_end header_decoder_read_limit header_decoder_run header_decoder_inv
  "vec_decoder_push transaction_decoder_push transaction_decoder_end transaction_decoder_new" vec_decoder_end
  "vec_decoder_read_limit transaction_decoder_read_limit transaction_decoder_new"
  "vec_run transaction_run transaction_decoder_new" "vec_inv transaction_run transaction_pending"
  by unfold_locales

interpretation block_dec: push_decoder block_decoder_push block_decoder_end block_decoder_read_limit
  block_decoder_run block_decoder_inv
  unfolding block_decoder_push_def block_decoder_end_def block_decoder_read_limit_def block_decoder_run_def
    block_decoder_inv_def
  by (intro newtype_decoder.newtype_push_decoder newtype_decoder.intro newtype_decoder_axioms.intro
        block_parts.pair_push_decoder)
     (simp add: block_of_parts_def split: prod.splits)

definition block_wire :: "block \<Rightarrow> bool" where
  "block_wire b \<longleftrightarrow> header_ok (b_header b) \<and> length (transactions b) \<le> MAX_VEC_SIZE
     \<and> (\<forall>tx \<in> set (transactions b). transaction_wire tx \<and> consensus_ok tx)"

definition block_bytes :: "block \<Rightarrow> bytes" where
  "block_bytes b = header_bytes (b_header b) @ vec_bytes transaction_bytes (transactions b)"

lemma block_run:
  "block_decoder_run block_decoder_new x = POk b r \<longleftrightarrow>
     block_wire b \<and> witness_root b = None \<and> x = block_bytes b @ r"
proof -
  have tx: "transaction_run transaction_decoder_new x = POk tx r \<longleftrightarrow>
      (transaction_wire tx \<and> consensus_ok tx) \<and> x = transaction_bytes tx @ r" for x tx r
    by (simp add: transaction_run_iff)
  have "block_decoder_run block_decoder_new x = POk b r \<longleftrightarrow>
      (\<exists>h txs y. header_decoder_run header_decoder_new x = POk h y
         \<and> vec_run transaction_run transaction_decoder_new vec_decoder_new y = POk txs r
         \<and> b = block_new_unchecked h txs)"
    by (auto simp: block_decoder_run_def block_decoder_new_def newtype_run_POk_iff pbind_POk_iff block_of_parts_def)
  then show ?thesis
    unfolding header_run vec_new_run_iff [of transaction_run transaction_decoder_new, OF tx]
    by (cases b) (auto simp: block_wire_def block_bytes_def block_new_unchecked_def)
qed

lemma block_decoder_new_inv [simp]: "block_decoder_inv block_decoder_new"
  by (simp add: block_decoder_inv_def block_decoder_new_def)

subsection \<open>The encoder of a block\<close>

text \<open>The slice encoder over transactions, whose encoders slice the content of witnesses.\<close>

type_synonym txs_encoder = "(transaction, transaction_encoder) slice_encoder"
type_synonym block_encoder = "(header_encoder, (compact_size_encoder, txs_encoder) encoder2) encoder2"

definition txs_encoder_new :: "transaction list \<Rightarrow> txs_encoder option" where
  "txs_encoder_new txs =
     (case txs of
        [] \<Rightarrow> Some \<lparr>se_sl = [], se_cur = None\<rparr>
      | tx # _ \<Rightarrow> map_option (\<lambda>enc. \<lparr>se_sl = txs, se_cur = Some enc\<rparr>) (transaction_encoder_new tx))"

definition txs_encoder_chunk :: "txs_encoder \<Rightarrow> bytes option" where
  "txs_encoder_chunk e = (case se_cur e of None \<Rightarrow> Some [] | Some cur \<Rightarrow> transaction_encoder_chunk cur)"

fun txs_encoder_loop :: "transaction list \<Rightarrow> transaction_encoder \<Rightarrow> (estatus \<times> txs_encoder) option" where
  "txs_encoder_loop txs cur =
     (case transaction_encoder_advance cur of
        None \<Rightarrow> None
      | Some (HasMore, cur') \<Rightarrow> Some (HasMore, \<lparr>se_sl = txs, se_cur = Some cur'\<rparr>)
      | Some (Finished, cur') \<Rightarrow>
          (case txs of
             [] \<Rightarrow> None
           | [_] \<Rightarrow> Some (Finished, \<lparr>se_sl = [], se_cur = None\<rparr>)
           | _ # tx # rest \<Rightarrow>
               (case transaction_encoder_new tx of
                  None \<Rightarrow> None
                | Some enc \<Rightarrow>
                    (case transaction_encoder_chunk enc of
                       None \<Rightarrow> None
                     | Some c \<Rightarrow>
                         if c \<noteq> [] then Some (HasMore, \<lparr>se_sl = tx # rest, se_cur = Some enc\<rparr>)
                         else txs_encoder_loop (tx # rest) enc))))"

definition txs_encoder_advance :: "txs_encoder \<Rightarrow> (estatus \<times> txs_encoder) option" where
  "txs_encoder_advance e =
     (case se_cur e of None \<Rightarrow> Some (Finished, e) | Some cur \<Rightarrow> txs_encoder_loop (se_sl e) cur)"

definition block_encoder_new :: "block \<Rightarrow> block_encoder option" where
  "block_encoder_new b = map_option
     (\<lambda>txs. encoder2_new (header_encoder_new (b_header b))
        (encoder2_new (compact_size_encoder_new (length (transactions b))) txs))
     (txs_encoder_new (transactions b))"

definition block_encoder_chunk :: "block_encoder \<Rightarrow> bytes option" where
  "block_encoder_chunk =
     encoder2_chunk header_encoder_chunk (encoder2_chunk compact_size_encoder_chunk txs_encoder_chunk)"

definition block_encoder_advance :: "block_encoder \<Rightarrow> (estatus \<times> block_encoder) option" where
  "block_encoder_advance =
     encoder2_advance header_encoder_advance (encoder2_advance compact_size_encoder_advance txs_encoder_advance)"

definition tx_sliced :: "transaction \<Rightarrow> bool" where
  "tx_sliced tx \<longleftrightarrow> (\<forall>i \<in> set (inputs tx). witness_sliced i)"

definition tx_enc_of :: "transaction \<Rightarrow> transaction_encoder" where
  "tx_enc_of tx = the (transaction_encoder_new tx)"

lemma tx_enc_of:
  assumes "tx_sliced tx"
  shows "transaction_encoder_new tx = Some (tx_enc_of tx)" "transaction_encoder_valid (tx_enc_of tx)"
    "transaction_encoder_out (tx_enc_of tx) = transaction_bytes tx"
  using transaction_encoder_new [of tx] assms by (auto simp: tx_sliced_def tx_enc_of_def)

interpretation tx_item_enc: item_encoder transaction_encoder_chunk transaction_encoder_advance
  transaction_encoder_out transaction_encoder_steps transaction_encoder_valid tx_enc_of tx_sliced
  by unfold_locales (rule tx_enc_of)

lemma txs_loop_eq:
  "\<forall>tx \<in> set (tl txs). tx_sliced tx \<Longrightarrow> txs_encoder_loop txs cur =
     slice_encoder_loop transaction_encoder_chunk transaction_encoder_advance tx_enc_of txs cur"
proof (induction txs arbitrary: cur)
  case Nil
  then show ?case by (simp split: option.splits estatus.splits prod.splits)
next
  case (Cons tx txs)
  show ?case
  proof (cases txs)
    case Nil
    then show ?thesis by (simp split: option.splits prod.splits estatus.splits)
  next
    case (Cons tx' rest)
    then have "tx_sliced tx'" "\<forall>tx \<in> set (tl txs). tx_sliced tx" using Cons.prems by auto
    then show ?thesis using Cons Cons.IH [of "tx_enc_of tx'"]
      by (simp add: tx_enc_of split: option.splits prod.splits estatus.splits)
  qed
qed

definition txs_out :: "txs_encoder \<Rightarrow> bytes" where
  "txs_out = slice_encoder_out transaction_encoder_out tx_enc_of"

definition txs_steps :: "txs_encoder \<Rightarrow> nat" where
  "txs_steps = slice_encoder_steps transaction_encoder_steps tx_enc_of"

definition txs_valid :: "txs_encoder \<Rightarrow> bool" where
  "txs_valid = slice_encoder_valid transaction_encoder_valid tx_enc_of tx_sliced"

lemma txs_advance_eq:
  "txs_valid e \<Longrightarrow> txs_encoder_advance e =
     slice_encoder_advance transaction_encoder_chunk transaction_encoder_advance tx_enc_of e"
  by (auto simp: txs_valid_def slice_encoder_valid_def txs_encoder_advance_def slice_encoder_advance_def txs_loop_eq
        simp del: slice_encoder_loop.simps txs_encoder_loop.simps split: option.splits)

lemma txs_chunk_eq: "txs_encoder_chunk = slice_encoder_chunk transaction_encoder_chunk"
  by (rule ext) (simp add: txs_encoder_chunk_def slice_encoder_chunk_def)

interpretation txs_enc: encoder txs_encoder_chunk txs_encoder_advance txs_out txs_steps txs_valid
proof
  fix e e'
  assume valid: "txs_valid e"
  note slice = tx_item_enc.slice_encoder [folded txs_out_def txs_steps_def txs_valid_def txs_chunk_eq]
  note adv = txs_advance_eq [OF valid]
  show "txs_encoder_chunk e \<noteq> None" by (rule encoder.chunk_returns [OF slice valid])
  show "txs_encoder_advance e \<noteq> None" unfolding adv by (rule encoder.advance_returns [OF slice valid])
  show "txs_encoder_advance e = Some (HasMore, e') \<Longrightarrow> txs_valid e' \<and>
      txs_out e = the (txs_encoder_chunk e) @ txs_out e' \<and> txs_steps e' < txs_steps e"
    unfolding adv by (rule encoder.advance_more [OF slice valid])
  show "txs_encoder_advance e = Some (Finished, e') \<Longrightarrow> txs_out e = the (txs_encoder_chunk e)"
    unfolding adv by (rule encoder.advance_finished [OF slice valid])
qed

interpretation prefixed_txs: encoder_pair compact_size_encoder_chunk compact_size_encoder_advance ce_buf
  "\<lambda>_. 0" "\<lambda>_. True" txs_encoder_chunk txs_encoder_advance txs_out txs_steps txs_valid
  by (intro encoder_pair.intro ce.encoder_axioms txs_enc.encoder_axioms)

interpretation block_enc_parts: encoder_pair header_encoder_chunk header_encoder_advance header_encoder_out
  header_encoder_steps header_encoder_valid
  "encoder2_chunk compact_size_encoder_chunk txs_encoder_chunk"
  "encoder2_advance compact_size_encoder_advance txs_encoder_advance"
  "encoder2_out ce_buf txs_out" "encoder2_steps (\<lambda>_. 0) txs_steps" "encoder2_valid (\<lambda>_. True) txs_valid"
  by (intro encoder_pair.intro header_enc.encoder_axioms prefixed_txs.pair_encoder)

definition block_encoder_out :: "block_encoder \<Rightarrow> bytes" where
  "block_encoder_out = encoder2_out header_encoder_out (encoder2_out ce_buf txs_out)"

definition block_encoder_steps :: "block_encoder \<Rightarrow> nat" where
  "block_encoder_steps = encoder2_steps header_encoder_steps (encoder2_steps (\<lambda>_. 0) txs_steps)"

definition block_encoder_valid :: "block_encoder \<Rightarrow> bool" where
  "block_encoder_valid = encoder2_valid header_encoder_valid (encoder2_valid (\<lambda>_. True) txs_valid)"

interpretation block_enc: encoder block_encoder_chunk block_encoder_advance block_encoder_out
  block_encoder_steps block_encoder_valid
  unfolding block_encoder_chunk_def block_encoder_advance_def block_encoder_out_def block_encoder_steps_def
    block_encoder_valid_def
  by (rule block_enc_parts.pair_encoder)

lemma block_encoder_new:
  assumes "\<forall>tx \<in> set (transactions b). tx_sliced tx"
  obtains e where "block_encoder_new b = Some e" "block_encoder_valid e" "block_encoder_out e = block_bytes b"
proof -
  obtain txs where txs: "txs_encoder_new (transactions b) = Some txs" "txs_valid txs"
    "txs_out txs = concat (map transaction_bytes (transactions b))"
  proof (cases "transactions b")
    case Nil
    then show ?thesis
      using that by (simp add: txs_encoder_new_def txs_valid_def slice_encoder_valid_def txs_out_def slice_encoder_out_def)
  next
    case (Cons tx rest)
    then show ?thesis
      using assms that tx_enc_of
      by (simp add: txs_encoder_new_def txs_valid_def slice_encoder_valid_def txs_out_def slice_encoder_out_def
          cong: map_cong)
  qed
  then show ?thesis
    using that by (simp add: block_encoder_new_def block_encoder_valid_def block_encoder_out_def encoder2_valid_def
        encoder2_out_def encoder2_new_def block_bytes_def vec_bytes_def compact_size_encoder_new_def compact_size_new_def)
qed

text \<open>
  Property C7. Blocks: the decoder accepts exactly the encodings of blocks whose header is 80 bytes
  and whose transactions are within the limits and pass the consensus checks. For such a block
  the encoder yields the accepted bytes, so that encoding and decoding are inverse.
\<close>

theorem block_decoder_accepts:
  "decode_from_slice block_decoder_push block_decoder_end block_decoder_new bs = Ok b
   \<longleftrightarrow> block_wire b \<and> witness_root b = None
     \<and> (\<exists>e. block_encoder_new b = Some e \<and> drain_to_vec block_encoder_chunk block_encoder_advance e = Ok bs)"
proof -
  have "(\<exists>e. block_encoder_new b = Some e \<and> drain_to_vec block_encoder_chunk block_encoder_advance e = Ok bs)
      \<longleftrightarrow> bs = block_bytes b" if "block_wire b"
  proof -
    have "\<forall>tx \<in> set (transactions b). tx_sliced tx"
      using that witness_wire_sliced
      by (auto simp: block_wire_def tx_sliced_def transaction_wire_def list_all_iff)
    then obtain e where "block_encoder_new b = Some e" "block_encoder_valid e" "block_encoder_out e = block_bytes b"
      by (rule block_encoder_new)
    then show ?thesis by (auto simp: block_enc.drain_to_vec_out)
  qed
  then show ?thesis by (auto simp: block_dec.decode_from_slice_iff block_run)
qed

subsection \<open>Validation\<close>

datatype invalid_block_error = InvalidMerkleRoot | InvalidWitnessCommitment | NoTransactions | InvalidCoinbase

text \<open>
  Which of the two Merkle algorithms \<open>calculate_root\<close> is depends on the platform
  (\<open>cfg\<close> attributes), here the argument \<open>batched\<close>. Iterators are evaluated in order by \<open>map_res\<close>.
\<close>

definition node_calculate_root :: "bool \<Rightarrow> (bytes \<Rightarrow> bytes) \<Rightarrow> bytes list \<Rightarrow> (unit, bytes option) res" where
  "node_calculate_root batched h leaves =
     (if batched then Ok (calculate_root_batched h leaves) else calculate_root h leaves)"

fun map_res :: "('a \<Rightarrow> ('e, 'b) res) \<Rightarrow> 'a list \<Rightarrow> ('e, 'b list) res" where
  "map_res f [] = Ok []"
| "map_res f (x # xs) = res_bind (f x) (\<lambda>y. res_bind (map_res f xs) (\<lambda>ys. Ok (y # ys)))"

definition compute_merkle_root :: "bool \<Rightarrow> (bytes \<Rightarrow> bytes) \<Rightarrow> transaction list \<Rightarrow> (unit, bytes option) res" where
  "compute_merkle_root batched h txs = res_bind (map_res (compute_txid h) txs) (node_calculate_root batched h)"

text \<open>The first leaf is replaced with zeros.\<close>

definition witness_leaf :: "(bytes \<Rightarrow> bytes) \<Rightarrow> nat \<times> transaction \<Rightarrow> (unit, bytes) res" where
  "witness_leaf h it = (case it of (i, tx) \<Rightarrow> if i = 0 then Ok (replicate 32 0) else compute_wtxid h tx)"

definition compute_witness_root :: "bool \<Rightarrow> (bytes \<Rightarrow> bytes) \<Rightarrow> transaction list \<Rightarrow> (unit, bytes option) res" where
  "compute_witness_root batched h txs =
     res_bind (map_res (witness_leaf h) (enumerate 0 txs)) (node_calculate_root batched h)"

definition WITNESS_COMMITMENT_MAGIC :: bytes where
  "WITNESS_COMMITMENT_MAGIC = [0x6a, 0x24, 0xaa, 0x21, 0xa9, 0xed]"

definition is_commitment :: "tx_out \<Rightarrow> bool" where
  "is_commitment out \<longleftrightarrow> 38 \<le> length (script_pubkey out) \<and> take 6 (script_pubkey out) = WITNESS_COMMITMENT_MAGIC"

definition witness_commitment_from_coinbase :: "transaction \<Rightarrow> bytes option" where
  "witness_commitment_from_coinbase coinbase =
     (if \<not> is_coinbase coinbase then None
      else case List.find is_commitment (rev (outputs coinbase)) of
        Some out \<Rightarrow> Some (take 32 (drop 6 (script_pubkey out)))
      | None \<Rightarrow> None)"

definition check_merkle_root :: "bool \<Rightarrow> (bytes \<Rightarrow> bytes) \<Rightarrow> block \<Rightarrow> (unit, bool) res" where
  "check_merkle_root batched h b = res_bind (compute_merkle_root batched h (transactions b)) (\<lambda>r.
     case r of Some root \<Rightarrow> Ok (merkle_root (b_header b) = root) | None \<Rightarrow> Ok False)"

definition compute_witness_commitment ::
  "bool \<Rightarrow> (bytes \<Rightarrow> bytes) \<Rightarrow> block \<Rightarrow> bytes \<Rightarrow> (unit, (bytes \<times> bytes) option) res" where
  "compute_witness_commitment batched h b witness_reserved_value =
     res_bind (compute_witness_root batched h (transactions b)) (\<lambda>r.
       Ok (map_option (\<lambda>root. (root, h (root @ witness_reserved_value))) r))"

definition no_witnesses :: "transaction list \<Rightarrow> bool" where
  "no_witnesses txs \<longleftrightarrow> list_all (\<lambda>t. list_all (\<lambda>i. witness_is_empty (tx_witness i)) (inputs t)) txs"

definition check_witness_commitment ::
  "bool \<Rightarrow> (bytes \<Rightarrow> bytes) \<Rightarrow> block \<Rightarrow> (unit, bool \<times> bytes option) res" where
  "check_witness_commitment batched h b =
     (let optional = (if no_witnesses (transactions b) then Ok (True, None) else Ok (False, None)) in
      case transactions b of
        [] \<Rightarrow> Ok (False, None)
      | coinbase # _ \<Rightarrow>
          if is_coinbase coinbase then
            (case witness_commitment_from_coinbase coinbase of
               Some commitment \<Rightarrow>
                 res_bind (witness_to_vec (tx_witness (inputs coinbase ! 0))) (\<lambda>witness_vec.
                   if length witness_vec = 1 \<and> length (witness_vec ! 0) = 32 then
                     res_bind (compute_witness_commitment batched h b (witness_vec ! 0)) (\<lambda>r.
                       case r of
                         Some (root, witness_commitment) \<Rightarrow>
                           if commitment = witness_commitment then Ok (True, Some root) else Ok (False, None)
                       | None \<Rightarrow> Ok (False, None))
                   else Ok (False, None))
             | None \<Rightarrow> optional)
          else optional)"

definition block_validate :: "bool \<Rightarrow> (bytes \<Rightarrow> bytes) \<Rightarrow> block \<Rightarrow> (invalid_block_error, block) res" where
  "block_validate batched h b =
     (if transactions b = [] then Err NoTransactions
      else if \<not> is_coinbase (transactions b ! 0) then Err InvalidCoinbase
      else res_bind (lift_unit (check_merkle_root batched h b)) (\<lambda>ok.
        if \<not> ok then Err InvalidMerkleRoot
        else res_bind (lift_unit (check_witness_commitment batched h b)) (\<lambda>r.
          case r of
            (False, _) \<Rightarrow> Err InvalidWitnessCommitment
          | (True, root) \<Rightarrow> Ok (assume_checked (block_new_unchecked (b_header b) (transactions b)) root))))"

subsection \<open>What a validated block commits to\<close>

lemma map_res_Ok: "\<forall>x \<in> set xs. f x = Ok (g x) \<Longrightarrow> map_res f xs = Ok (map g xs)"
  by (induction xs) auto

lemma node_root_tree:
  assumes "node_calculate_root batched h xs = Ok (Some root)" and "hash32 h" "leaves32 xs"
    and "\<not> hash_collision h S" "merkle_inputs h xs \<subseteq> S"
  shows "xs \<noteq> []" "siblings_differ h (tree_height (length xs)) xs" "tree h (tree_height (length xs)) xs = root"
    "length root = 32"
proof -
  show ne: "xs \<noteq> []" and root: "tree h (tree_height (length xs)) xs = root"
    and "siblings_differ h (tree_height (length xs)) xs"
    using assms(1) complete_differ_siblings [OF assms(2,4) tree_height_bound assms(3) _ assms(5) [unfolded merkle_inputs_def]]
    by (auto simp: node_calculate_root_def calculate_root_batched_tree calculate_root_tree split: if_splits)
  show "length root = 32" using length_tree [OF assms(2,3) ne] root by blast
qed

lemma node_root_inj:
  assumes "node_calculate_root batched h xs = Ok (Some root)" "node_calculate_root batched' h ys = Ok (Some root)"
    and "hash32 h" "\<not> hash_collision h S" "leaves32 xs" "leaves32 ys"
    and "tree_height (length xs) = tree_height (length ys)" and "merkle_inputs h xs \<subseteq> S" "merkle_inputs h ys \<subseteq> S"
  shows "xs = ys"
proof -
  note x = node_root_tree [OF assms(1,3,5,4,8)] and y = node_root_tree [OF assms(2,3,6,4,9)]
  show ?thesis
    by (rule tree_inj [OF assms(3,4) x(1) tree_height_bound assms(5) x(2) y(1) _ assms(6)])
       (use tree_height_bound [of "length ys"] x y assms(7-9) in \<open>simp_all add: merkle_inputs_def\<close>)
qed

definition txids :: "(bytes \<Rightarrow> bytes) \<Rightarrow> transaction list \<Rightarrow> bytes list" where
  "txids h txs = map (\<lambda>tx. h (legacy_bytes tx)) txs"

definition witness_leaves :: "(bytes \<Rightarrow> bytes) \<Rightarrow> transaction list \<Rightarrow> bytes list" where
  "witness_leaves h txs =
     map (\<lambda>(i, tx). if i = 0 then replicate 32 0 else h (transaction_bytes tx)) (enumerate 0 txs)"

definition txs_readable :: "transaction list \<Rightarrow> bool" where
  "txs_readable txs \<longleftrightarrow> (\<forall>tx \<in> set txs. \<forall>i \<in> set (inputs tx). witness_readable (tx_witness i))"

lemma compute_merkle_root_eq:
  "compute_merkle_root batched h txs = node_calculate_root batched h (txids h txs)"
  using map_res_Ok [of txs "compute_txid h" "\<lambda>tx. h (legacy_bytes tx)"]
  by (simp add: compute_merkle_root_def txids_def compute_txid_eq)

lemma compute_witness_root_eq:
  assumes "txs_readable txs"
  shows "compute_witness_root batched h txs = node_calculate_root batched h (witness_leaves h txs)"
proof -
  have "witness_leaf h x = Ok ((\<lambda>(i, tx). if i = 0 then replicate 32 0 else h (transaction_bytes tx)) x)"
    if x: "x \<in> set (enumerate 0 txs)" for x
  proof -
    obtain i tx where it: "x = (i, tx)" by (cases x)
    then have "tx \<in> set txs" using x by (auto simp: enumerate_eq_zip dest: set_zip_rightD)
    then have "compute_wtxid h tx = Ok (h (transaction_bytes tx))"
      using assms hash_preimage_wtxid [of tx] by (simp add: txs_readable_def compute_wtxid_def hash_transaction_def)
    then show ?thesis by (simp add: witness_leaf_def it)
  qed
  then have "map_res (witness_leaf h) (enumerate 0 txs) = Ok (witness_leaves h txs)"
    unfolding witness_leaves_def by (intro map_res_Ok ballI)
  then show ?thesis by (simp add: compute_witness_root_def)
qed

lemma leaves32_hashes:
  assumes "hash32 h"
  shows "leaves32 (txids h txs)" "leaves32 (witness_leaves h txs)"
    "length (txids h txs) = length txs" "length (witness_leaves h txs) = length txs"
  using assms by (auto simp: leaves32_def txids_def witness_leaves_def hash32_def list_all_iff)

lemma block_validate_Ok:
  assumes "block_validate batched h b = Ok c"
  shows "transactions b \<noteq> [] \<and> is_coinbase (transactions b ! 0)
    \<and> node_calculate_root batched h (txids h (transactions b)) = Ok (Some (merkle_root (b_header b)))
    \<and> (\<exists>root. check_witness_commitment batched h b = Ok (True, root))"
  using assms unfolding block_validate_def check_merkle_root_def compute_merkle_root_eq
  by (auto simp: res_bind_Ok_iff split: if_splits option.splits prod.splits bool.splits)

text \<open>What the check of the witness commitment has established.\<close>

definition committed :: "bool \<Rightarrow> (bytes \<Rightarrow> bytes) \<Rightarrow> transaction list \<Rightarrow> bytes \<Rightarrow> bool" where
  "committed batched h txs commitment \<longleftrightarrow> (\<exists>reserved root.
     witness_to_vec (tx_witness (inputs (txs ! 0) ! 0)) = Ok [reserved] \<and> length reserved = 32
     \<and> node_calculate_root batched h (witness_leaves h txs) = Ok (Some root) \<and> commitment = h (root @ reserved))"

lemma check_witness_commitment_Ok:
  assumes "check_witness_commitment batched h b = Ok (True, root)" "txs_readable (transactions b)"
    "is_coinbase (transactions b ! 0)"
  shows "case witness_commitment_from_coinbase (transactions b ! 0) of
      None \<Rightarrow> no_witnesses (transactions b) | Some c \<Rightarrow> committed batched h (transactions b) c"
proof (cases "transactions b")
  case Nil
  then show ?thesis using assms(1) by (simp add: check_witness_commitment_def)
next
  case (Cons coinbase rest)
  then have cb: "is_coinbase coinbase" using assms(3) by simp
  show ?thesis
  proof (cases "witness_commitment_from_coinbase coinbase")
    case None
    then show ?thesis using assms(1) Cons cb by (simp add: check_witness_commitment_def Let_def split: if_splits)
  next
    case (Some c)
    let ?w = "tx_witness (inputs coinbase ! 0)"
    obtain v where v: "witness_to_vec ?w = Ok v" "length v = 1" "length (v ! 0) = 32"
      and r: "res_bind (compute_witness_commitment batched h b (v ! 0)) (\<lambda>r. case r of
          Some (root, witness_commitment) \<Rightarrow> if c = witness_commitment then Ok (True, Some root) else Ok (False, None)
        | None \<Rightarrow> Ok (False, None)) = Ok (True, root)"
      using assms(1) Cons cb Some by (auto simp: check_witness_commitment_def Let_def res_bind_Ok_iff split: if_splits)
    then obtain rt where "node_calculate_root batched h (witness_leaves h (transactions b)) = Ok (Some rt)"
        "c = h (rt @ v ! 0)"
      by (auto simp: compute_witness_commitment_def compute_witness_root_eq [OF assms(2)] res_bind_Ok_iff
          split: if_splits option.splits)
    moreover obtain reserved where "v = [reserved]" using v(2) by (auto simp: length_Suc_conv)
    ultimately show ?thesis using v Cons Some by (auto simp: committed_def)
  qed
qed

lemma tx_eqI:
  assumes "version tx = version tx'" "strip (inputs tx) = strip (inputs tx')" "outputs tx = outputs tx'"
    "lock_time_of tx = lock_time_of tx'" "map tx_witness (inputs tx) = map tx_witness (inputs tx')"
  shows "(tx :: transaction) = tx'"
proof -
  have "inputs tx = inputs tx'" using assms(2,5) strip_props(2) by metis
  then show ?thesis using assms by (cases tx; cases tx') simp
qed

lemma witness_to_vec_readable:
  "witness_readable w \<Longrightarrow> witness_to_vec w = Ok es \<Longrightarrow> w = witness_of es"
  by (auto simp: witness_readable_def witness_to_vec_eq list_all_iff takeWhile_eq_all_conv [THEN iffD2])

lemma strip_length: "strip xs = strip ys \<Longrightarrow> length xs = length ys"
  by (metis strip_props(1))

lemma no_witnesses_tx:
  assumes "no_witnesses txs" "tx \<in> set txs" "transaction_wire tx"
  shows "map tx_witness (inputs tx) = replicate (length (inputs tx)) witness_new"
proof -
  have "tx_witness i = witness_new" if "i \<in> set (inputs tx)" for i
    using that assms witness_wire_empty by (auto simp: no_witnesses_def list_all_iff transaction_wire_def)
  then show ?thesis by (simp add: list_eq_iff_nth_eq)
qed

lemma header_bytes_inj: "header_ok h \<Longrightarrow> header_ok h' \<Longrightarrow> header_bytes h = header_bytes h' \<Longrightarrow> h = h'"
  using header_run [of "header_bytes h" h "[]"] header_run [of "header_bytes h'" h' "[]"] by simp

text \<open>What is hashed for the identifiers, the roots, the witness commitment and the hash of a block.\<close>

definition block_inputs :: "(bytes \<Rightarrow> bytes) \<Rightarrow> block \<Rightarrow> bytes set" where
  "block_inputs h b = (let txs = transactions b in
     {header_bytes (b_header b)} \<union> legacy_bytes ` set txs \<union> transaction_bytes ` set (drop 1 txs)
     \<union> merkle_inputs h (txids h txs) \<union> merkle_inputs h (witness_leaves h txs)
     \<union> {tree h (tree_height (length txs)) (witness_leaves h txs) @ reserved | reserved.
          witness_to_vec (tx_witness (inputs (txs ! 0) ! 0)) = Ok [reserved]})"

lemma block_inputs_subset:
  assumes "block_inputs h b \<subseteq> S"
  shows "header_bytes (b_header b) \<in> S" "tx \<in> set (transactions b) \<Longrightarrow> legacy_bytes tx \<in> S"
    "i < length (transactions b) \<Longrightarrow> i \<noteq> 0 \<Longrightarrow> transaction_bytes (transactions b ! i) \<in> S"
    "merkle_inputs h (txids h (transactions b)) \<subseteq> S" "merkle_inputs h (witness_leaves h (transactions b)) \<subseteq> S"
    "witness_to_vec (tx_witness (inputs (transactions b ! 0) ! 0)) = Ok [r]
      \<Longrightarrow> tree h (tree_height (length (transactions b))) (witness_leaves h (transactions b)) @ r \<in> S"
proof -
  have "transactions b ! i \<in> set (drop 1 (transactions b))" if "i < length (transactions b)" "i \<noteq> 0"
    using that by (cases "transactions b") (auto simp: nth_Cons')
  then show "i < length (transactions b) \<Longrightarrow> i \<noteq> 0 \<Longrightarrow> transaction_bytes (transactions b ! i) \<in> S"
    using assms by (auto simp: block_inputs_def Let_def)
qed (use assms in \<open>auto simp: block_inputs_def Let_def\<close>)

text \<open>Two transactions that agree in everything but the witnesses.\<close>

definition same_body :: "transaction \<Rightarrow> transaction \<Rightarrow> bool" where
  "same_body tx tx' \<longleftrightarrow> version tx = version tx' \<and> strip (inputs tx) = strip (inputs tx')
     \<and> outputs tx = outputs tx' \<and> lock_time_of tx = lock_time_of tx'"

lemma same_body_eq: "same_body tx tx' \<Longrightarrow> map tx_witness (inputs tx) = map tx_witness (inputs tx') \<Longrightarrow> tx = tx'"
  by (auto simp: same_body_def intro: tx_eqI)

lemma no_witnesses_bodies:
  assumes "no_witnesses txs" "no_witnesses txs'" "tx \<in> set txs" "tx' \<in> set txs'"
    and "transaction_wire tx" "transaction_wire tx'" "same_body tx tx'"
  shows "tx = tx'"
proof (rule same_body_eq [OF assms(7)])
  have "length (inputs tx) = length (inputs tx')"
    by (rule strip_length) (use assms(7) in \<open>simp add: same_body_def\<close>)
  then show "map tx_witness (inputs tx) = map tx_witness (inputs tx')"
    by (simp only: no_witnesses_tx [OF assms(1,3,5)] no_witnesses_tx [OF assms(2,4,6)])
qed

text \<open>The Merkle root determines the transactions but for the witnesses.\<close>

lemma merkle_root_bodies:
  assumes "hash32 h" "\<not> hash_collision h S" "block_inputs h b \<subseteq> S" "block_inputs h b' \<subseteq> S" "block_wire b" "block_wire b'"
    and "node_calculate_root batched h (txids h (transactions b)) = Ok (Some root)"
    and "node_calculate_root batched' h (txids h (transactions b')) = Ok (Some root)"
    and "tree_height (length (transactions b)) = tree_height (length (transactions b'))"
  shows "length (transactions b) = length (transactions b')
    \<and> (\<forall>i < length (transactions b). same_body (transactions b ! i) (transactions b' ! i))"
proof -
  let ?txs = "transactions b" and ?txs' = "transactions b'"
  note leaves = leaves32_hashes [OF assms(1)]
  have "txids h ?txs = txids h ?txs'"
    by (rule node_root_inj [OF assms(7,8,1,2) leaves(1) leaves(1)])
       (use leaves assms(9) block_inputs_subset(4) [OF assms(3)] block_inputs_subset(4) [OF assms(4)] in simp_all)
  then have len: "length ?txs = length ?txs'"
    and same: "\<forall>i < length ?txs. h (legacy_bytes (?txs ! i)) = h (legacy_bytes (?txs' ! i))"
    by (auto simp: txids_def list_eq_iff_nth_eq)
  have "same_body (?txs ! i) (?txs' ! i)" if i: "i < length ?txs" for i
  proof -
    have mem: "?txs ! i \<in> set ?txs" "?txs' ! i \<in> set ?txs'" using i len by simp_all
    have "legacy_bytes (?txs ! i) = legacy_bytes (?txs' ! i)"
      using same i assms(2) hash_collision_here [of h "legacy_bytes (?txs ! i)" "legacy_bytes (?txs' ! i)" S]
        block_inputs_subset(2) [OF assms(3) mem(1)] block_inputs_subset(2) [OF assms(4) mem(2)] by blast
    then show ?thesis unfolding same_body_def
      by (rule legacy_bytes_inj [rotated 2]) (use assms(5,6) mem in \<open>auto simp: block_wire_def\<close>)
  qed
  then show ?thesis using len by blast
qed

text \<open>The commitment in the coinbase determines the witnesses.\<close>

lemma commitment_witnesses:
  assumes "hash32 h" "\<not> hash_collision h S" "block_inputs h b \<subseteq> S" "block_inputs h b' \<subseteq> S"
    and "committed batched h (transactions b) c" "committed batched' h (transactions b') c"
    and "length (transactions b) = length (transactions b')"
  shows "witness_leaves h (transactions b) = witness_leaves h (transactions b')
    \<and> (\<exists>r. witness_to_vec (tx_witness (inputs (transactions b ! 0) ! 0)) = Ok [r]
         \<and> witness_to_vec (tx_witness (inputs (transactions b' ! 0) ! 0)) = Ok [r])"
proof -
  let ?txs = "transactions b" and ?txs' = "transactions b'"
  note leaves = leaves32_hashes [OF assms(1)]
  obtain r rt where r: "witness_to_vec (tx_witness (inputs (?txs ! 0) ! 0)) = Ok [r]"
      "node_calculate_root batched h (witness_leaves h ?txs) = Ok (Some rt)" "c = h (rt @ r)"
    using assms(5) by (auto simp: committed_def)
  obtain r' rt' where r': "witness_to_vec (tx_witness (inputs (?txs' ! 0) ! 0)) = Ok [r']"
      "node_calculate_root batched' h (witness_leaves h ?txs') = Ok (Some rt')" "c = h (rt' @ r')"
    using assms(6) by (auto simp: committed_def)
  note inputs = block_inputs_subset(5) [OF assms(3)] block_inputs_subset(5) [OF assms(4)]
  note rt = node_root_tree(3,4) [OF r(2) assms(1) leaves(2) assms(2) inputs(1)]
    and rt' = node_root_tree(3,4) [OF r'(2) assms(1) leaves(2) assms(2) inputs(2)]
  have "rt @ r \<in> S" "rt' @ r' \<in> S"
    using block_inputs_subset(6) [OF assms(3) r(1)] block_inputs_subset(6) [OF assms(4) r'(1)] rt(1) rt'(1) leaves(4)
    by simp_all
  then have "rt @ r = rt' @ r'" using r(3) r'(3) hash_collision_here [of h "rt @ r" "rt' @ r'" S] assms(2) by simp
  then have eq: "rt' = rt" "r' = r" using rt(2) rt'(2) by simp_all
  have "witness_leaves h ?txs = witness_leaves h ?txs'"
    by (rule node_root_inj [OF r(2) r'(2) [unfolded eq] assms(1,2) leaves(2) leaves(2) _ inputs])
       (simp add: leaves(4) assms(7))
  then show ?thesis using r(1) r'(1) eq by blast
qed

lemma commitment_transactions:
  assumes "hash32 h" "\<not> hash_collision h S" "block_inputs h b \<subseteq> S" "block_inputs h b' \<subseteq> S" "block_wire b" "block_wire b'"
    and "txs_readable (transactions b)" "txs_readable (transactions b')"
    and "committed batched h (transactions b) c" "committed batched' h (transactions b') c"
    and "length (transactions b) = length (transactions b')" "is_coinbase (transactions b ! 0)" "is_coinbase (transactions b' ! 0)"
    and "i < length (transactions b)" "same_body (transactions b ! i) (transactions b' ! i)"
  shows "transactions b ! i = transactions b' ! i"
proof -
  let ?txs = "transactions b" and ?txs' = "transactions b'"
  from commitment_witnesses [OF assms(1-4,9-11)] obtain r where wl: "witness_leaves h ?txs = witness_leaves h ?txs'"
    and r: "witness_to_vec (tx_witness (inputs (?txs ! 0) ! 0)) = Ok [r]"
      "witness_to_vec (tx_witness (inputs (?txs' ! 0) ! 0)) = Ok [r]" by blast
  show ?thesis
  proof (cases "i = 0")
    case True
    have one: "length (inputs (?txs ! 0)) = 1" "length (inputs (?txs' ! 0)) = 1"
      using assms(12,13) by (simp_all add: is_coinbase_def)
    then have in_set: "inputs (?txs ! 0) ! 0 \<in> set (inputs (?txs ! 0))" "inputs (?txs' ! 0) ! 0 \<in> set (inputs (?txs' ! 0))"
      by simp_all
    have mem: "?txs ! 0 \<in> set ?txs" "?txs' ! 0 \<in> set ?txs'" using assms(11,14) True by simp_all
    have "tx_witness (inputs (?txs ! 0) ! 0) = witness_of [r]" "tx_witness (inputs (?txs' ! 0) ! 0) = witness_of [r]"
      using assms(7,8) in_set mem
      by (intro witness_to_vec_readable [OF _ r(1)] witness_to_vec_readable [OF _ r(2)]; simp add: txs_readable_def)+
    then have "map tx_witness (inputs (?txs ! 0)) = map tx_witness (inputs (?txs' ! 0))"
      using one by (simp add: list_eq_iff_nth_eq)
    then show ?thesis using assms(15) True by (simp add: same_body_eq)
  next
    case False
    have i': "i < length ?txs'" using assms(11,14) by simp
    have "witness_leaves h ?txs ! i = witness_leaves h ?txs' ! i" using wl by simp
    then have "h (transaction_bytes (?txs ! i)) = h (transaction_bytes (?txs' ! i))"
      using assms(14) i' False by (simp add: witness_leaves_def nth_enumerate_eq)
    then have "transaction_bytes (?txs ! i) = transaction_bytes (?txs' ! i)"
      using hash_collision_here assms(2) block_inputs_subset(3) [OF assms(3,14) False] block_inputs_subset(3) [OF assms(4) i' False]
      by blast
    then show ?thesis
      using transaction_bytes_prefix_free [of "?txs ! i" "?txs' ! i" "[]" "[]"] assms(5,6,14) i' by (auto simp: block_wire_def)
  qed
qed

lemma validated_transactions:
  assumes "hash32 h" "\<not> hash_collision h S" "block_inputs h b \<subseteq> S" "block_inputs h b' \<subseteq> S"
    and "block_wire b" "txs_readable (transactions b)" "block_validate batched h b = Ok c"
    and "block_wire b'" "txs_readable (transactions b')" "block_validate batched' h b' = Ok c'"
    and "b_header b = b_header b'"
    and "tree_height (length (transactions b)) = tree_height (length (transactions b'))"
  shows "transactions b = transactions b'"
proof -
  let ?txs = "transactions b" and ?txs' = "transactions b'"
  note v = block_validate_Ok [OF assms(7)] and v' = block_validate_Ok [OF assms(10)]
  have bodies: "length ?txs = length ?txs'" "\<forall>i < length ?txs. same_body (?txs ! i) (?txs' ! i)"
    using merkle_root_bodies [OF assms(1-4,5,8) _ _ assms(12)] v v' assms(11) by auto
  have cb: "is_coinbase (?txs ! 0)" "is_coinbase (?txs' ! 0)" "0 < length ?txs" using v v' by auto
  have commitment: "witness_commitment_from_coinbase (?txs ! 0) = witness_commitment_from_coinbase (?txs' ! 0)"
    using bodies(2) cb by (simp add: witness_commitment_from_coinbase_def same_body_def)
  obtain root root' where check: "check_witness_commitment batched h b = Ok (True, root)"
    "check_witness_commitment batched' h b' = Ok (True, root')" using v v' by blast
  note wc = check_witness_commitment_Ok [OF check(1) assms(6) cb(1)]
    and wc' = check_witness_commitment_Ok [OF check(2) assms(9) cb(2)]
  have "?txs ! i = ?txs' ! i" if i: "i < length ?txs" for i
  proof (cases "witness_commitment_from_coinbase (?txs ! 0)")
    case None
    have mem: "?txs ! i \<in> set ?txs" "?txs' ! i \<in> set ?txs'" using i bodies(1) by simp_all
    show ?thesis using None wc wc' commitment no_witnesses_bodies [OF _ _ mem] bodies i assms(5,8) mem by (simp add: block_wire_def)
  next
    case (Some commit)
    show ?thesis
      by (rule commitment_transactions [OF assms(1-4,5,8,6,9) _ _ bodies(1) cb(1,2) i])
         (use Some wc wc' commitment bodies(2) i in simp_all)
  qed
  then show ?thesis using bodies(1) by (simp add: list_eq_iff_nth_eq)
qed

text \<open>
  Where the trees have different heights, the transactions of the lower one are strings that are hashed for a node of the
  higher one, so that they have 64 bytes (as in CVE-2017-12842).
\<close>

lemma lower_block_transactions:
  assumes "hash32 h" "\<not> hash_collision h S" "block_inputs h b \<subseteq> S" "block_inputs h b' \<subseteq> S"
    and "node_calculate_root batched h (txids h (transactions b)) = Ok (Some root)"
    and "node_calculate_root batched' h (txids h (transactions b')) = Ok (Some root)"
    and "tree_height (length (transactions b')) < tree_height (length (transactions b))"
  shows "list_all (\<lambda>tx. length (legacy_bytes tx) = 64) (transactions b')"
  unfolding list_all_iff
proof
  let ?xs = "txids h (transactions b)" and ?ys = "txids h (transactions b')"
  fix tx
  assume tx: "tx \<in> set (transactions b')"
  note leaves = leaves32_hashes [OF assms(1)]
  note sub = block_inputs_subset(4) [OF assms(3)] block_inputs_subset(4) [OF assms(4)]
  note x = node_root_tree [OF assms(5,1) leaves(1) assms(2) sub(1)] and y = node_root_tree [OF assms(6,1) leaves(1) assms(2) sub(2)]
  obtain n where n: "tree_height (length ?xs) = Suc n + tree_height (length ?ys)"
    using less_imp_Suc_add [OF assms(7)] by (auto simp: leaves add.commute)
  have "?ys = tree_row h (tree_height (length ?xs) - tree_height (length ?ys)) ?xs"
    by (rule lower_tree_row [OF assms(1,2) x(1) leaves(1) x(2) sub(1) y(1) leaves(1) y(2) sub(2)]) (use x(3) y(3) n in simp_all)
  then have row: "?ys = tree_row h (Suc n) ?xs" unfolding n by (simp only: diff_add_inverse2)
  have "h (legacy_bytes tx) \<in> set (tree_row h (Suc n) ?xs)" using tx unfolding row [symmetric] by (simp add: txids_def)
  moreover have "length ?xs \<le> 2 ^ (Suc n + tree_height (length ?ys))" using tree_height_bound [of "length ?xs"] unfolding n .
  ultimately obtain a c where ac: "h (legacy_bytes tx) = combine h a c" "length (a @ c) = 64"
    "a @ c \<in> tree_inputs h (Suc n + tree_height (length ?ys)) ?xs"
    using tree_row_hashed [OF assms(1) x(1) _ leaves(1)] by blast
  have "a @ c \<in> S" using ac(3) sub(1) unfolding merkle_inputs_def n by blast
  moreover have "legacy_bytes tx \<in> S" by (rule block_inputs_subset(2) [OF assms(4) tx])
  ultimately have "legacy_bytes tx = a @ c" using ac(1) assms(2) hash_collision_here [of h "legacy_bytes tx" "a @ c" S]
    unfolding combine_def by blast
  then show "length (legacy_bytes tx) = 64" using ac(2) by simp
qed

text \<open>
  Property C8. A block hash commits to the whole block: of two blocks that pass validation (possibly on
  platforms with different Merkle algorithms) and have the same block hash, the headers are equal and, where the Merkle trees have the
  same height, the transactions and their witnesses too. Where the heights differ, every transaction of the block
  with the lower tree has exactly 64 bytes without witnesses. Otherwise two of the strings that are hashed for the blocks
  (the header, the transactions, the nodes of the trees and the commitment) collide. The blocks are within the limits of the
  decoder, and the elements of their witnesses can be read back.
\<close>

theorem validated_block_commits:
  assumes "hash32 h"
    and "block_wire b" "txs_readable (transactions b)" "block_validate batched h b = Ok c"
    and "block_wire b'" "txs_readable (transactions b')" "block_validate batched' h b' = Ok c'"
    and "block_hash h (b_header b) = block_hash h (b_header b')"
  shows "b_header b = b_header b' \<and>
      (if tree_height (length (transactions b)) = tree_height (length (transactions b')) then transactions b = transactions b'
       else if tree_height (length (transactions b)) < tree_height (length (transactions b'))
       then list_all (\<lambda>tx. length (legacy_bytes tx) = 64) (transactions b)
       else list_all (\<lambda>tx. length (legacy_bytes tx) = 64) (transactions b'))
    \<or> hash_collision h (block_inputs h b \<union> block_inputs h b')"
proof (rule disjCI)
  let ?S = "block_inputs h b \<union> block_inputs h b'"
  assume no: "\<not> hash_collision h ?S"
  have sub: "block_inputs h b \<subseteq> ?S" "block_inputs h b' \<subseteq> ?S" by blast+
  have "header_bytes (b_header b) = header_bytes (b_header b')"
    using assms(8) hash_collision_here no block_inputs_subset(1) [OF sub(1)] block_inputs_subset(1) [OF sub(2)]
    by (simp add: block_hash_eq) blast
  then have header: "b_header b = b_header b'"
    using assms(2,5) header_bytes_inj by (simp add: block_wire_def)
  have roots: "node_calculate_root batched h (txids h (transactions b)) = Ok (Some (merkle_root (b_header b)))"
    "node_calculate_root batched' h (txids h (transactions b')) = Ok (Some (merkle_root (b_header b)))"
    using block_validate_Ok [OF assms(4)] block_validate_Ok [OF assms(7)] header by simp_all
  show "b_header b = b_header b' \<and>
      (if tree_height (length (transactions b)) = tree_height (length (transactions b')) then transactions b = transactions b'
       else if tree_height (length (transactions b)) < tree_height (length (transactions b'))
       then list_all (\<lambda>tx. length (legacy_bytes tx) = 64) (transactions b)
       else list_all (\<lambda>tx. length (legacy_bytes tx) = 64) (transactions b'))"
    by (intro conjI header if_three validated_transactions [OF assms(1) no sub assms(2-7) header]
        lower_block_transactions [OF assms(1) no sub roots] lower_block_transactions [OF assms(1) no sub(2,1) roots(2,1)])
qed

definition example_coinbase :: transaction where
  "example_coinbase = \<lparr>version = 1, lock_time_of = Blocks 0,
     inputs = [\<lparr>previous_output = COINBASE_PREVOUT, script_sig = [1, 2], sequence_no = 0, tx_witness = witness_new\<rparr>],
     outputs = [\<lparr>amount = 5000, script_pubkey = [0x51]\<rparr>]\<rparr>"

definition example_block :: "u32 \<Rightarrow> block" where
  "example_block n = block_new_unchecked
     \<lparr>h_version = 1, prev_blockhash = replicate 32 0, merkle_root = first_32 (legacy_bytes example_coinbase),
      h_time = 0, bits = 0, nonce = n\<rparr> [example_coinbase]"

lemma example_block:
  "block_wire (example_block n)" "txs_readable (transactions (example_block n))"
  "block_validate True first_32 (example_block n) = Ok (example_block n)"
proof -
  have readable: "witness_readable witness_new"
    unfolding witness_readable_def by (rule exI [of _ "[]"]) (simp add: witness_of_Nil slices_def)
  have cb: "is_coinbase example_coinbase" by (simp add: is_coinbase_def example_coinbase_def)
  have "length (first_32 x) = 32" for x using first_32 by (simp add: hash32_def)
  then show "block_wire (example_block n)"
    by (simp add: block_wire_def example_block_def block_new_unchecked_def header_ok_def MAX_VEC_SIZE_def
        transaction_wire_def consensus_ok_def example_coinbase_def witness_wire_new tx_in_ok_def out_point_ok_def
        COINBASE_PREVOUT_def script_ok_def tx_out_ok_def amount_ok_def MAX_MONEY_def is_block_height_def
        LOCK_TIME_THRESHOLD_def)
  show "txs_readable (transactions (example_block n))"
    using readable by (simp add: txs_readable_def example_block_def block_new_unchecked_def example_coinbase_def)
  have none: "witness_commitment_from_coinbase example_coinbase = None"
    by (simp add: witness_commitment_from_coinbase_def example_coinbase_def is_commitment_def)
  have "no_witnesses [example_coinbase]"
    by (simp add: no_witnesses_def example_coinbase_def witness_is_empty_def witness_new_def)
  then show "block_validate True first_32 (example_block n) = Ok (example_block n)"
    by (simp add: block_validate_def example_block_def block_new_unchecked_def cb check_merkle_root_def
        compute_merkle_root_eq txids_def node_calculate_root_def calculate_root_batched_def batched_loop.simps
        check_witness_commitment_def none assume_checked_def)
qed

theorem validated_block_commits_witness:
  "block_hash first_32 (b_header (example_block 0)) = block_hash first_32 (b_header (example_block 1))
   \<and> (b_header (example_block 0) = b_header (example_block 1)
       \<and> transactions (example_block 0) = transactions (example_block 1)
     \<or> hash_collision first_32 (block_inputs first_32 (example_block 0) \<union> block_inputs first_32 (example_block 1)))"
proof
  show same: "block_hash first_32 (b_header (example_block 0)) = block_hash first_32 (b_header (example_block 1))"
    by (simp add: block_hash_eq example_block_def block_new_unchecked_def header_bytes_def first_32_def)
  show "b_header (example_block 0) = b_header (example_block 1)
      \<and> transactions (example_block 0) = transactions (example_block 1)
    \<or> hash_collision first_32 (block_inputs first_32 (example_block 0) \<union> block_inputs first_32 (example_block 1))"
    using validated_block_commits [OF first_32 example_block example_block same]
    by (simp add: example_block_def block_new_unchecked_def)
qed

end
