(* ===== verification/U256.thy ===== *)
theory U256
  imports Prelude
begin

section \<open>256-bit integers\<close>

text \<open>
  \<open>include/u256.rs\<close>: an unsigned 256-bit integer as a pair of 128-bit words, the high one first. Its
  meaning is the number \<open>val\<close>; every operation is shown to compute the intended function on
  numbers modulo \<open>2 ^ 256\<close>, with the right overflow flag.
\<close>

datatype u256 = U256 (hi: u128) (lo: u128)

definition val :: "u256 \<Rightarrow> nat" where
  "val x = unat (hi x) * 2 ^ 128 + unat (lo x)"

subsection \<open>Numbers\<close>

lemma unat_u128: "unat (w :: u128) < 2 ^ 128"
  using unsigned_less [of w] by simp

lemma unat_u64: "unat (w :: u64) < 2 ^ 64"
  using unsigned_less [of w] by simp

lemma val_parts: "val x div 2 ^ 128 = unat (hi x)" "val x mod 2 ^ 128 = unat (lo x)"
  using unat_u128 [of "lo x"] by (simp_all add: val_def)

lemma val_bound: "val x < 2 ^ 256"
proof -
  have "unat (hi x) \<le> 2 ^ 128 - 1" "unat (lo x) < 2 ^ 128"
    using unat_u128 [of "hi x"] unat_u128 [of "lo x"] by simp_all
  then show ?thesis unfolding val_def by simp
qed

lemma val_inject: "val x = val y \<longleftrightarrow> x = y"
proof
  assume "val x = val y"
  then have "unat (hi x) = unat (hi y)" "unat (lo x) = unat (lo y)"
    using val_parts by metis+
  then show "x = y" by (cases x; cases y) (simp add: word_unat_eq_iff)
qed simp

lemma val_eqI: "val x = val y \<Longrightarrow> x = y"
  by (simp add: val_inject)

text \<open>The derived order compares the high words first.\<close>

instantiation u256 :: linorder
begin

definition less_eq_u256 :: "u256 \<Rightarrow> u256 \<Rightarrow> bool" where
  "x \<le> y \<longleftrightarrow> hi x < hi y \<or> hi x = hi y \<and> lo x \<le> lo y"

definition less_u256 :: "u256 \<Rightarrow> u256 \<Rightarrow> bool" where
  "x < y \<longleftrightarrow> hi x < hi y \<or> hi x = hi y \<and> lo x < lo y"

instance
  by standard (auto simp: less_eq_u256_def less_u256_def u256.expand)

end

lemma val_le_iff: "x \<le> y \<longleftrightarrow> val x \<le> val y"
proof -
  have "hi x < hi y \<Longrightarrow> val x \<le> val y"
  proof -
    assume "hi x < hi y"
    then have "unat (hi x) + 1 \<le> unat (hi y)" by (simp add: word_less_nat_alt)
    then have "(unat (hi x) + 1) * 2 ^ 128 \<le> unat (hi y) * 2 ^ 128" by (rule mult_le_mono1)
    then show "val x \<le> val y" using unat_u128 [of "lo x"] by (simp add: val_def)
  qed
  moreover have "hi y < hi x \<Longrightarrow> \<not> val x \<le> val y"
  proof -
    assume "hi y < hi x"
    then have "unat (hi y) + 1 \<le> unat (hi x)" by (simp add: word_less_nat_alt)
    then have "(unat (hi y) + 1) * 2 ^ 128 \<le> unat (hi x) * 2 ^ 128" by (rule mult_le_mono1)
    then show "\<not> val x \<le> val y" using unat_u128 [of "lo y"] by (simp add: val_def)
  qed
  moreover have "hi x = hi y \<Longrightarrow> (lo x \<le> lo y) = (val x \<le> val y)"
    by (simp add: val_def word_le_nat_alt)
  ultimately show ?thesis unfolding less_eq_u256_def by (metis not_less_iff_gr_or_eq)
qed

lemma val_less_iff: "x < y \<longleftrightarrow> val x < val y"
  using val_le_iff [of y x] by (metis not_le)

subsection \<open>Constants and tests\<close>

definition u256_MAX :: u256 where "u256_MAX = U256 (- 1) (- 1)"
definition u256_ZERO :: u256 where "u256_ZERO = U256 0 0"
definition u256_ONE :: u256 where "u256_ONE = U256 0 1"

definition u256_of_u128 :: "u128 \<Rightarrow> u256" where "u256_of_u128 x = U256 0 x"

definition is_zero :: "u256 \<Rightarrow> bool" where "is_zero x \<longleftrightarrow> hi x = 0 \<and> lo x = 0"
definition is_one :: "u256 \<Rightarrow> bool" where "is_one x \<longleftrightarrow> hi x = 0 \<and> lo x = 1"
definition is_max :: "u256 \<Rightarrow> bool" where "is_max x \<longleftrightarrow> hi x = - 1 \<and> lo x = - 1"

definition low_u128 :: "u256 \<Rightarrow> u128" where "low_u128 x = lo x"
definition low_u64 :: "u256 \<Rightarrow> u64" where "low_u64 x = ucast (low_u128 x)"
definition low_u32 :: "u256 \<Rightarrow> u32" where "low_u32 x = ucast (low_u128 x)"

definition saturating_to_u128 :: "u256 \<Rightarrow> u128" where
  "saturating_to_u128 x = (if u256_of_u128 (- 1) < x then - 1 else low_u128 x)"

lemma unat_minus_1_u128: "unat (- 1 :: u128) = 2 ^ 128 - 1"
  by (simp add: unsigned_minus_1_eq_mask mask_eq_exp_minus_1)

lemma val_constants [simp]:
  "val u256_ZERO = 0" "val u256_ONE = 1" "val (u256_of_u128 w) = unat w"
  by (simp_all add: u256_ZERO_def u256_ONE_def u256_of_u128_def val_def)

lemma val_MAX: "val u256_MAX = 2 ^ 256 - 1"
  by (simp add: u256_MAX_def val_def unat_minus_1_u128)

lemma is_zero_iff: "is_zero x \<longleftrightarrow> val x = 0"
  by (cases x) (simp add: is_zero_def val_def unat_eq_0)

lemma is_one_iff: "is_one x \<longleftrightarrow> val x = 1"
  using val_inject [of x u256_ONE] unfolding val_constants by (cases x) (simp add: is_one_def u256_ONE_def)

lemma is_max_iff: "is_max x \<longleftrightarrow> val x = 2 ^ 256 - 1"
  using val_inject [of x u256_MAX] unfolding val_MAX by (cases x) (simp add: is_max_def u256_MAX_def)

lemma unat_low_u64: "unat (low_u64 x) = val x mod 2 ^ 64"
proof -
  have "(2::nat) ^ 64 dvd 2 ^ 128" by (rule le_imp_power_dvd) simp
  then have "val x mod 2 ^ 64 = (val x mod 2 ^ 128) mod 2 ^ 64" by (simp only: mod_mod_cancel)
  then show ?thesis by (simp only: val_parts(2) low_u64_def low_u128_def unat_ucast_mod) simp
qed

lemma unat_low_u32: "unat (low_u32 x) = val x mod 2 ^ 32"
proof -
  have "(2::nat) ^ 32 dvd 2 ^ 128" by (rule le_imp_power_dvd) simp
  then have "val x mod 2 ^ 32 = (val x mod 2 ^ 128) mod 2 ^ 32" by (simp only: mod_mod_cancel)
  then show ?thesis by (simp only: val_parts(2) low_u32_def low_u128_def unat_ucast_mod) simp
qed

lemma unat_saturating: "unat (saturating_to_u128 x) = min (val x) (2 ^ 128 - 1)"
proof (cases "2 ^ 128 - 1 < val x")
  case True
  then show ?thesis by (simp add: saturating_to_u128_def val_less_iff unat_minus_1_u128)
next
  case False
  then have "val x < 2 ^ 128" by simp
  then have "val x = unat (lo x)" using val_parts(2) [of x] by (metis mod_less)
  then show ?thesis using False by (simp add: saturating_to_u128_def val_less_iff unat_minus_1_u128 low_u128_def)
qed

subsection \<open>Addition and subtraction\<close>

definition u128_overflowing_add :: "u128 \<Rightarrow> u128 \<Rightarrow> u128 \<times> bool" where
  "u128_overflowing_add a b = (a + b, 2 ^ 128 \<le> unat a + unat b)"

definition u256_overflowing_add :: "u256 \<Rightarrow> u256 \<Rightarrow> u256 \<times> bool" where
  "u256_overflowing_add x y =
     (let (high, overflow1) = u128_overflowing_add (hi x) (hi y);
          (low, overflow2) = u128_overflowing_add (lo x) (lo y) in
      if overflow2 then
        let (high, overflow3) = u128_overflowing_add high 1 in (U256 high low, overflow1 \<or> overflow3)
      else (U256 high low, overflow1))"

definition u256_not :: "u256 \<Rightarrow> u256" where "u256_not x = U256 (NOT (hi x)) (NOT (lo x))"

definition u256_wrapping_add :: "u256 \<Rightarrow> u256 \<Rightarrow> u256" where
  "u256_wrapping_add x y = fst (u256_overflowing_add x y)"

definition u256_overflowing_sub :: "u256 \<Rightarrow> u256 \<Rightarrow> u256 \<times> bool" where
  "u256_overflowing_sub x y = (u256_wrapping_add (u256_wrapping_add x (u256_not y)) u256_ONE, x < y)"

definition u256_wrapping_sub :: "u256 \<Rightarrow> u256 \<Rightarrow> u256" where
  "u256_wrapping_sub x y = fst (u256_overflowing_sub x y)"

definition u256_wrapping_inc :: "u256 \<Rightarrow> u256" where
  "u256_wrapping_inc x =
     (let low = lo x + 1 in U256 (if low = 0 then hi x + 1 else hi x) low)"

lemma unat_add_carry:
  "unat (a + b :: u128) + (if 2 ^ 128 \<le> unat a + unat b then 2 ^ 128 else 0) = unat a + unat b"
proof -
  have "unat a + unat b - 2 ^ 128 < 2 ^ 128" using unat_u128 [of a] unat_u128 [of b] by linarith
  then show ?thesis by (simp add: unat_word_ariths(1) mod_if)
qed

lemma val_overflowing_add:
  "val (fst (u256_overflowing_add x y)) + (if snd (u256_overflowing_add x y) then 2 ^ 256 else 0) = val x + val y"
proof -
  let ?c = "(if 2 ^ 128 \<le> unat (lo x) + unat (lo y) then 1 else 0) :: nat"
  let ?h = "hi x + hi y"
  have low: "unat (lo x + lo y) + ?c * 2 ^ 128 = unat (lo x) + unat (lo y)"
    using unat_add_carry [of "lo x" "lo y"] by auto
  note high = unat_add_carry [of "hi x" "hi y"] and inc = unat_add_carry [of ?h 1]
  have no: "\<not> (2 ^ 128 \<le> unat (hi x) + unat (hi y) \<and> 2 ^ 128 \<le> unat ?h + 1)"
    using high unat_u128 [of "hi x"] unat_u128 [of "hi y"] by auto
  show ?thesis
    using low high inc no
    by (simp add: u256_overflowing_add_def u128_overflowing_add_def val_def Let_def split: if_splits)
qed

lemma u256_overflowing_add:
  "val (fst (u256_overflowing_add x y)) = (val x + val y) mod 2 ^ 256"
  "snd (u256_overflowing_add x y) \<longleftrightarrow> 2 ^ 256 \<le> val x + val y"
proof -
  note sum = val_overflowing_add [of x y] and bound = val_bound [of "fst (u256_overflowing_add x y)"]
  show "snd (u256_overflowing_add x y) \<longleftrightarrow> 2 ^ 256 \<le> val x + val y"
    using sum bound by (simp split: if_splits)
  show "val (fst (u256_overflowing_add x y)) = (val x + val y) mod 2 ^ 256"
    unfolding sum [symmetric] using bound by simp
qed

lemma val_wrapping_add: "val (u256_wrapping_add x y) = (val x + val y) mod 2 ^ 256"
  by (simp only: u256_wrapping_add_def u256_overflowing_add)

lemma val_not: "val (u256_not x) = 2 ^ 256 - 1 - val x"
proof -
  have "unat (NOT w :: u128) = 2 ^ 128 - 1 - unat w" for w
  proof -
    have "NOT w = - 1 - w" by (simp add: not_eq_complement)
    moreover have "unat (- 1 - w) = unat (- 1 :: u128) - unat w" by (rule unat_sub) simp
    ultimately show ?thesis by (simp only: unat_minus_1_u128)
  qed
  then show ?thesis using unat_u128 [of "lo x"] unat_u128 [of "hi x"] by (simp add: u256_not_def val_def)
qed

lemma val_wrapping_inc: "val (u256_wrapping_inc x) = (val x + 1) mod 2 ^ 256"
proof -
  have "u256_wrapping_inc x = u256_wrapping_add x u256_ONE"
  proof -
    have "lo x + 1 = 0 \<longleftrightarrow> 2 ^ 128 \<le> unat (lo x) + 1"
      using unat_add_carry [of "lo x" 1] unat_u128 [of "lo x"] by (auto simp: unat_eq_0 [symmetric] split: if_splits)
    then show ?thesis
      by (simp add: u256_wrapping_inc_def u256_wrapping_add_def u256_overflowing_add_def u128_overflowing_add_def
          u256_ONE_def Let_def)
  qed
  then show ?thesis by (simp add: val_wrapping_add)
qed

lemma u256_overflowing_sub:
  "val (fst (u256_overflowing_sub x y)) = (val x + 2 ^ 256 - val y) mod 2 ^ 256"
  "snd (u256_overflowing_sub x y) \<longleftrightarrow> val x < val y"
proof -
  have "val x + (2 ^ 256 - 1 - val y) + 1 = val x + 2 ^ 256 - val y" using val_bound [of y] by simp
  then show "val (fst (u256_overflowing_sub x y)) = (val x + 2 ^ 256 - val y) mod 2 ^ 256"
    by (simp only: u256_overflowing_sub_def fst_conv val_wrapping_add val_not val_constants mod_add_left_eq)
  show "snd (u256_overflowing_sub x y) \<longleftrightarrow> val x < val y" by (simp add: u256_overflowing_sub_def val_less_iff)
qed

lemma val_wrapping_sub: "val y \<le> val x \<Longrightarrow> val (u256_wrapping_sub x y) = val x - val y"
proof -
  assume "val y \<le> val x"
  then have "val x + 2 ^ 256 - val y = (val x - val y) + 2 ^ 256" "val x - val y < 2 ^ 256"
    using val_bound [of x] by simp_all
  then show ?thesis by (simp only: u256_wrapping_sub_def u256_overflowing_sub mod_add_self2 mod_less)
qed

subsection \<open>Shifts\<close>

text \<open>
  \<open><<\<close> and \<open>>>\<close> on \<open>u128\<close> are only used with amounts below 128, and the additions \<open>+=\<close> of the code
  combine disjoint bits (see \<open>val_shl\<close>).
\<close>

definition u256_shl :: "u256 \<Rightarrow> nat \<Rightarrow> u256" where
  "u256_shl x rhs =
     (let shift = rhs mod 256; bit_shift = shift mod 128 in
      if 128 \<le> shift then U256 (push_bit bit_shift (lo x)) 0
      else U256 (if 0 < bit_shift then push_bit bit_shift (hi x) + drop_bit (128 - bit_shift) (lo x)
                 else push_bit bit_shift (hi x))
             (push_bit bit_shift (lo x)))"

definition u256_shr :: "u256 \<Rightarrow> nat \<Rightarrow> u256" where
  "u256_shr x rhs =
     (let shift = rhs mod 256; bit_shift = shift mod 128 in
      if 128 \<le> shift then U256 0 (drop_bit bit_shift (hi x))
      else U256 (drop_bit bit_shift (hi x))
             (if 0 < bit_shift then drop_bit bit_shift (lo x) + push_bit (128 - bit_shift) (hi x)
              else drop_bit bit_shift (lo x)))"

lemma unat_push_bit: "unat (push_bit n w :: u128) = unat w * 2 ^ n mod 2 ^ 128"
  unfolding unsigned_push_bit_eq by (simp add: take_bit_eq_mod push_bit_eq_mult)

lemma unat_add_small: "unat a + unat b < 2 ^ 128 \<Longrightarrow> unat (a + b :: u128) = unat a + unat b"
  by (simp add: unat_word_ariths(1))

text \<open>Shifting left splits a word in the part that stays and the part that goes.\<close>

lemma shift_split:
  assumes "n < 128" and "a < 2 ^ 128"
  shows "a * 2 ^ n = a div 2 ^ (128 - n) * 2 ^ 128 + a * 2 ^ n mod (2 ^ 128 :: nat)"
    and "a div 2 ^ (128 - n) < 2 ^ n"
proof -
  have p: "(2::nat) ^ (128 - n) * 2 ^ n = 2 ^ 128" using assms(1) by (simp flip: power_add)
  have "a * 2 ^ n div 2 ^ 128 = a div 2 ^ (128 - n)" unfolding p [symmetric] by simp
  then show "a * 2 ^ n = a div 2 ^ (128 - n) * 2 ^ 128 + a * 2 ^ n mod 2 ^ 128"
    by (metis div_mult_mod_eq)
  show "a div 2 ^ (128 - n) < 2 ^ n" using assms(2) p by (intro less_mult_imp_div_less) (simp add: mult.commute)
qed

lemma shift_room: "n < 128 \<Longrightarrow> c < 2 ^ n \<Longrightarrow> a * 2 ^ n mod 2 ^ 128 + c < (2 ^ 128 :: nat)"
proof -
  assume n: "n < 128" and c: "c < 2 ^ n"
  have p: "(2::nat) ^ 128 = 2 ^ (128 - n) * 2 ^ n" using n by (simp flip: power_add)
  have "a * 2 ^ n mod 2 ^ 128 = (a mod 2 ^ (128 - n)) * 2 ^ n" unfolding p by (rule mod_mult_mult2)
  moreover have "(a mod 2 ^ (128 - n)) + 1 \<le> 2 ^ (128 - n)" by (simp add: Suc_leI)
  then have "((a mod 2 ^ (128 - n)) + 1) * 2 ^ n \<le> 2 ^ 128" unfolding p by (rule mult_le_mono1)
  ultimately show ?thesis using c by simp
qed

lemma val_shl: "n < 256 \<Longrightarrow> val (u256_shl x n) = val x * 2 ^ n mod 2 ^ 256"
proof -
  assume n: "n < 256"
  have two: "(2::nat) ^ 256 = 2 ^ 128 * 2 ^ 128" by simp
  let ?h = "unat (hi x)" and ?l = "unat (lo x)"
  note l = unat_u128 [of "lo x"]
  show ?thesis
  proof (cases "128 \<le> n")
    case True
    let ?m = "n - 128"
    have nm: "n mod 256 = n" "n mod 128 = ?m" "n = 128 + ?m" using True n by (simp_all add: mod_if)
    have "val x * 2 ^ n = ?l * 2 ^ ?m * 2 ^ 128 + ?h * 2 ^ ?m * (2 ^ 128 * 2 ^ 128)"
      by (subst nm(3)) (simp add: val_def power_add algebra_simps)
    then have "val x * 2 ^ n mod (2 ^ 128 * 2 ^ 128) = ?l * 2 ^ ?m mod 2 ^ 128 * 2 ^ 128"
      by (simp only: mod_mult_self1 mod_mult_mult2)
    then show ?thesis
      unfolding two using True nm(1,2) by (simp only: u256_shl_def Let_def if_True val_def u256.sel unat_push_bit) simp
  next
    case False
    have nm: "n mod 256 = n" "n mod 128 = n" "n < 128" using False n by simp_all
    note split = shift_split [OF nm(3) l]
    let ?c = "?l div 2 ^ (128 - n)"
    have sum: "unat (push_bit n (hi x) + drop_bit (128 - n) (lo x)) = ?h * 2 ^ n mod 2 ^ 128 + ?c"
      using shift_room [OF nm(3) split(2), of ?h]
      by (simp add: unat_word_ariths(1) unat_push_bit unat_drop_bit)
    have hi: "unat (hi (u256_shl x n)) = ?h * 2 ^ n mod 2 ^ 128 + ?c"
    proof (cases "0 < n")
      case True
      then show ?thesis using False nm sum by (simp add: u256_shl_def Let_def)
    next
      case zero: False
      then have "?c = 0" using l by simp
      then show ?thesis using zero unat_u128 [of "hi x"] by (simp add: u256_shl_def unat_push_bit)
    qed
    have lo: "unat (lo (u256_shl x n)) = ?l * 2 ^ n mod 2 ^ 128"
      using False nm by (simp add: u256_shl_def Let_def unat_push_bit)
    have "val x * 2 ^ n = ?h * 2 ^ n * 2 ^ 128 + ?l * 2 ^ n" by (simp add: val_def algebra_simps)
    also have "\<dots> = (?h * 2 ^ n + ?c) * 2 ^ 128 + ?l * 2 ^ n mod 2 ^ 128"
      using split(1) by (simp add: algebra_simps)
    finally have v: "val x * 2 ^ n = (?h * 2 ^ n + ?c) * 2 ^ 128 + ?l * 2 ^ n mod 2 ^ 128" .
    have "val (u256_shl x n) mod 2 ^ 256 = val x * 2 ^ n mod 2 ^ 256"
    proof -
      have "(?h * 2 ^ n mod 2 ^ 128 + ?c) * 2 ^ 128 mod 2 ^ 256 = (?h * 2 ^ n + ?c) * 2 ^ 128 mod 2 ^ 256"
        unfolding two mod_mult_mult2 by (simp only: mod_add_left_eq)
      then show ?thesis unfolding v val_def [of "u256_shl x n"] hi lo by (rule mod_add_cong [OF _ refl])
    qed
    then show ?thesis using val_bound [of "u256_shl x n"] by simp
  qed
qed

lemma val_shr: "n < 256 \<Longrightarrow> val (u256_shr x n) = val x div 2 ^ n"
proof -
  assume n: "n < 256"
  let ?h = "unat (hi x)" and ?l = "unat (lo x)"
  note l = unat_u128 [of "lo x"] and h = unat_u128 [of "hi x"]
  show ?thesis
  proof (cases "128 \<le> n")
    case True
    let ?m = "n - 128"
    have nm: "n mod 256 = n" "n mod 128 = ?m" "n = 128 + ?m" using True n by (simp_all add: mod_if)
    have "val x div 2 ^ n = ?h div 2 ^ ?m"
      by (subst nm(3)) (simp only: power_add div_mult2_eq val_parts)
    then show ?thesis using True nm(1,2) by (simp add: u256_shr_def val_def unat_drop_bit)
  next
    case False
    have nm: "n mod 256 = n" "n mod 128 = n" "n < 128" using False n by simp_all
    have p: "(2::nat) ^ 128 = 2 ^ n * 2 ^ (128 - n)" using nm(3) by (simp flip: power_add)
    have div: "val x div 2 ^ n = ?h * 2 ^ (128 - n) + ?l div 2 ^ n"
    proof -
      have "val x = ?l + ?h * 2 ^ (128 - n) * 2 ^ n" unfolding val_def p by simp
      then show ?thesis by simp
    qed
    show ?thesis
    proof (cases "n = 0")
      case True
      then show ?thesis by (simp add: u256_shr_def val_def)
    next
      case zero: False
      let ?m = "128 - n"
      have m: "?m < 128" "128 - ?m = n" using zero nm(3) by simp_all
      note split = shift_split [OF m(1) h, unfolded m(2)]
      have "?l div 2 ^ n < 2 ^ ?m" using l p by (intro less_mult_imp_div_less) (simp add: mult.commute)
      from shift_room [OF m(1) this, of ?h]
      have "unat (drop_bit n (lo x)) + unat (push_bit ?m (hi x)) < 2 ^ 128"
        unfolding unat_push_bit unat_drop_bit by (simp only: add.commute)
      then have "unat (drop_bit n (lo x) + push_bit ?m (hi x)) = ?l div 2 ^ n + ?h * 2 ^ ?m mod 2 ^ 128"
        by (simp only: unat_add_small unat_push_bit unat_drop_bit)
      then have "val (u256_shr x n) = ?h div 2 ^ n * 2 ^ 128 + (?l div 2 ^ n + ?h * 2 ^ ?m mod 2 ^ 128)"
        using False nm zero by (simp add: u256_shr_def Let_def val_def unat_drop_bit)
      then show ?thesis unfolding div by (subst split(1)) (simp only: ac_simps)
    qed
  qed
qed

subsection \<open>Length in bits\<close>

text \<open>\<open>leading_zeros\<close> of the standard library counts the zero bits above the highest set bit.\<close>

fun bit_length :: "nat \<Rightarrow> nat" where
  "bit_length n = (if n = 0 then 0 else Suc (bit_length (n div 2)))"

declare bit_length.simps [simp del]

definition leading_zeros :: "u128 \<Rightarrow> nat" where "leading_zeros w = 128 - bit_length (unat w)"

definition u256_bits :: "u256 \<Rightarrow> nat" where
  "u256_bits x = (if 0 < hi x then 256 - leading_zeros (hi x) else 128 - leading_zeros (lo x))"

lemma bit_length_le_iff: "bit_length n \<le> k \<longleftrightarrow> n < 2 ^ k"
proof (induction k arbitrary: n)
  case 0
  then show ?case by (simp add: bit_length.simps)
next
  case (Suc k)
  show ?case
  proof (cases "n = 0")
    case True
    then show ?thesis by (simp add: bit_length.simps)
  next
    case False
    then have "bit_length n = Suc (bit_length (n div 2))" by (simp add: bit_length.simps [of n])
    then show ?thesis using Suc [of "n div 2"] by (simp add: div_less_iff_less_mult mult.commute)
  qed
qed

lemma bits_eq: "u256_bits x = bit_length (val x)"
proof -
  note h = unat_u128 [of "hi x"] and l = unat_u128 [of "lo x"]
  note len = bit_length_le_iff [of _ 128]
  show ?thesis
  proof (cases "0 < hi x")
    case True
    then have pos: "0 < unat (hi x)" by (simp add: word_less_nat_alt)
    have "bit_length (val x) = 128 + bit_length (unat (hi x))"
    proof (rule le_antisym)
      have "unat (hi x) < 2 ^ bit_length (unat (hi x))" using bit_length_le_iff by blast
      then have "unat (hi x) + 1 \<le> 2 ^ bit_length (unat (hi x))" by simp
      then have "(unat (hi x) + 1) * 2 ^ 128 \<le> 2 ^ bit_length (unat (hi x)) * 2 ^ 128" by (rule mult_le_mono1)
      then have "val x < 2 ^ (128 + bit_length (unat (hi x)))"
        using l by (simp add: val_def power_add mult.commute)
      then show "bit_length (val x) \<le> 128 + bit_length (unat (hi x))" by (simp only: bit_length_le_iff)
      have "\<not> val x < 2 ^ (127 + bit_length (unat (hi x)))"
      proof -
        obtain m where m: "bit_length (unat (hi x)) = Suc m"
          using pos by (auto simp: bit_length.simps [of "unat (hi x)"])
        then have "2 ^ m \<le> unat (hi x)" using bit_length_le_iff [of "unat (hi x)" m] by simp
        then have "2 ^ m * 2 ^ 128 \<le> unat (hi x) * 2 ^ 128" by (rule mult_le_mono1)
        moreover have "(2::nat) ^ (127 + Suc m) = 2 ^ m * 2 ^ 128" by (simp add: power_add)
        moreover have "unat (hi x) * 2 ^ 128 \<le> val x" by (simp only: val_def le_add1)
        ultimately have "2 ^ (127 + Suc m) \<le> val x" by (simp only: le_trans)
        then show ?thesis unfolding m by (simp only: not_less)
      qed
      then have "\<not> bit_length (val x) \<le> 127 + bit_length (unat (hi x))"
        by (simp only: bit_length_le_iff not_False_eq_True)
      then show "128 + bit_length (unat (hi x)) \<le> bit_length (val x)" by linarith
    qed
    then show ?thesis using True h len by (simp add: u256_bits_def leading_zeros_def)
  next
    case False
    then have "val x = unat (lo x)" by (simp add: val_def word_less_nat_alt)
    then show ?thesis using False l len by (simp add: u256_bits_def leading_zeros_def)
  qed
qed

lemma bits_le_iff: "u256_bits x \<le> k \<longleftrightarrow> val x < 2 ^ k"
  by (simp only: bits_eq bit_length_le_iff)

lemma bits_bound: "u256_bits x \<le> 256"
  using val_bound by (simp only: bits_le_iff)

subsection \<open>Multiplication\<close>

text \<open>
  \<open>mul_u64\<close> multiplies the four 64-bit words, the lowest first, passing the carry on. The sum
  \<open>n\<close> of a step is a \<open>u128\<close>; \<open>unat_mul_step\<close> shows that it never wraps.
\<close>

fun mul_words :: "u64 \<Rightarrow> u128 \<Rightarrow> u64 list \<Rightarrow> u64 list \<times> u128" where
  "mul_words rhs carry [] = ([], carry)"
| "mul_words rhs carry (word # split_le) =
     (let n = carry + ucast rhs * ucast word;
          (split_le', carry') = mul_words rhs (drop_bit 64 n) split_le in
      (ucast n # split_le', carry'))"

definition mul_u64 :: "u256 \<Rightarrow> u64 \<Rightarrow> u256 \<times> bool" where
  "mul_u64 x rhs =
     (let (split_le, carry) = mul_words rhs 0
            [ucast (lo x), ucast (drop_bit 64 (lo x)), ucast (hi x), ucast (drop_bit 64 (hi x))];
          low = ucast (split_le ! 0) OR push_bit 64 (ucast (split_le ! 1));
          high = ucast (split_le ! 2) OR push_bit 64 (ucast (split_le ! 3)) in
      (U256 high low, carry \<noteq> 0))"

fun mul_limbs :: "nat list \<Rightarrow> u256 \<Rightarrow> u256 \<Rightarrow> u256 \<Rightarrow> bool \<Rightarrow> u256 \<times> bool" where
  "mul_limbs [] x rhs ret ret_overflow = (ret, ret_overflow)"
| "mul_limbs (i # is) x rhs ret ret_overflow =
     (let to_mul = low_u64 (u256_shr rhs (64 * i));
          (mul_res, overflow1) = mul_u64 x to_mul;
          overflow_bits = (if 0 < i then u256_shr mul_res (256 - 64 * i) else u256_ZERO);
          (sum, overflow2) = u256_overflowing_add ret (u256_shl mul_res (64 * i)) in
      mul_limbs is x rhs sum (ret_overflow \<or> overflow1 \<or> u256_ZERO < overflow_bits \<or> overflow2))"

definition u256_overflowing_mul :: "u256 \<Rightarrow> u256 \<Rightarrow> u256 \<times> bool" where
  "u256_overflowing_mul x rhs = mul_limbs [0..<4] x rhs u256_ZERO False"

fun words_val :: "u64 list \<Rightarrow> nat" where
  "words_val [] = 0"
| "words_val (w # ws) = unat w + 2 ^ 64 * words_val ws"

lemma unat_ucast_64_128: "unat (ucast (w :: u64) :: u128) = unat w"
  by (rule unat_ucast_up) simp

lemma mul_step_bound: "a < 2 ^ 64 \<Longrightarrow> b < 2 ^ 64 \<Longrightarrow> c < 2 ^ 64 \<Longrightarrow> c + a * b < (2 ^ 64 * 2 ^ 64 :: nat)"
proof -
  assume "a < 2 ^ 64" "b < 2 ^ 64" "c < (2 ^ 64 :: nat)"
  then have "a * b \<le> (2 ^ 64 - 1) * (2 ^ 64 - 1)" by (intro mult_le_mono) simp_all
  with \<open>c < 2 ^ 64\<close> show ?thesis by simp
qed

lemma unat_mul_step:
  assumes "unat carry < 2 ^ 64"
  shows "unat (carry + ucast (rhs :: u64) * ucast (word :: u64) :: u128) = unat carry + unat rhs * unat word"
    and "unat (drop_bit 64 (carry + ucast rhs * ucast word :: u128)) < 2 ^ 64"
proof -
  have "unat carry + unat rhs * unat word < 2 ^ 64 * 2 ^ 64"
    using assms unat_u64 [of rhs] unat_u64 [of word] by (intro mul_step_bound)
  then have small: "unat carry + unat rhs * unat word < 2 ^ 128" by simp
  then have "unat (ucast rhs * ucast word :: u128) = unat rhs * unat word"
    by (simp add: unat_word_ariths(2) unat_ucast_64_128)
  then show *: "unat (carry + ucast rhs * ucast word :: u128) = unat carry + unat rhs * unat word"
    using small by (simp add: unat_word_ariths(1))
  show "unat (drop_bit 64 (carry + ucast rhs * ucast word :: u128)) < 2 ^ 64"
    unfolding unat_drop_bit * using small by (intro less_mult_imp_div_less) simp
qed

lemma mul_words_val:
  "unat carry < 2 ^ 64 \<Longrightarrow>
   words_val (fst (mul_words rhs carry ws)) + unat (snd (mul_words rhs carry ws)) * 2 ^ (64 * length ws)
     = unat carry + unat rhs * words_val ws
   \<and> length (fst (mul_words rhs carry ws)) = length ws"
proof (induction ws arbitrary: carry)
  case Nil
  then show ?case by simp
next
  case (Cons w ws)
  let ?n = "carry + ucast rhs * ucast w :: u128"
  let ?r = "mul_words rhs (drop_bit 64 ?n) ws"
  note n = unat_mul_step [OF Cons.prems, of rhs w]
  have ih: "words_val (fst ?r) + unat (snd ?r) * 2 ^ (64 * length ws)
      = (unat carry + unat rhs * unat w) div 2 ^ 64 + unat rhs * words_val ws"
    and len: "length (fst ?r) = length ws"
    using Cons.IH [OF n(2)] by (simp_all only: unat_drop_bit n(1))
  have "unat (ucast ?n :: u64) = (unat carry + unat rhs * unat w) mod 2 ^ 64"
    unfolding unat_ucast_mod n(1) by simp
  then have "words_val (fst (mul_words rhs carry (w # ws)))
        + unat (snd (mul_words rhs carry (w # ws))) * 2 ^ (64 * length (w # ws))
      = (unat carry + unat rhs * unat w) mod 2 ^ 64
        + 2 ^ 64 * (words_val (fst ?r) + unat (snd ?r) * 2 ^ (64 * length ws))"
    by (simp add: Let_def case_prod_unfold power_add algebra_simps)
  also have "\<dots> = unat carry + unat rhs * unat w + 2 ^ 64 * (unat rhs * words_val ws)"
    unfolding ih by (simp add: algebra_simps)
  finally show ?case using len by (simp add: Let_def case_prod_unfold algebra_simps)
qed


subsubsection \<open>Combining words\<close>

lemma unat_or_push:
  assumes "unat a < 2 ^ n"
  shows "unat (a OR push_bit n b :: 'a::len word) = unat (a + push_bit n b)"
proof -
  have "\<not> bit a k" if "n \<le> k" for k
  proof -
    have "unat a < 2 ^ k" using assms that by (meson less_le_trans power_increasing one_le_numeral)
    then have "drop_bit k a = 0" by (simp add: word_unat_eq_iff unat_drop_bit)
    moreover have "bit (drop_bit k a) 0 = bit a k" by (simp add: bit_simps)
    ultimately show ?thesis by simp
  qed
  then have "a AND push_bit n b = 0" by (auto simp: bit_eq_iff bit_simps not_le)
  then show ?thesis by (simp add: disjunctive_add_eq_or)
qed


lemma unat_or_push_64:
  "unat (ucast (a :: u64) OR push_bit 64 (ucast (b :: u64)) :: u128) = unat a + 2 ^ 64 * unat b"
proof -
  have a: "unat (ucast a :: u128) = unat a" and b: "unat (ucast b :: u128) = unat b"
    by (rule unat_ucast_64_128)+
  have "unat a + unat b * 2 ^ 64 < 2 ^ 64 * 2 ^ 64"
  proof -
    have "(unat b + 1) * 2 ^ 64 \<le> 2 ^ 64 * 2 ^ 64" using unat_u64 [of b] by (intro mult_le_mono1) simp
    then show ?thesis using unat_u64 [of a] by simp
  qed
  then have small: "unat a + unat b * 2 ^ 64 < 2 ^ 128" by simp
  then have p: "unat (push_bit 64 (ucast b) :: u128) = unat b * 2 ^ 64"
    by (simp add: unat_push_bit b)
  have "unat (ucast a OR push_bit 64 (ucast b) :: u128) = unat (ucast a + push_bit 64 (ucast b) :: u128)"
    by (rule unat_or_push) (simp only: a unat_u64)
  also have "\<dots> = unat a + unat b * 2 ^ 64"
    using small by (subst unat_add_small) (simp_all only: a p)
  finally show ?thesis by (simp only: mult.commute)
qed

lemma val_limbs:
  "words_val [ucast (lo x), ucast (drop_bit 64 (lo x)), ucast (hi x), ucast (drop_bit 64 (hi x))] = val x"
proof -
  have "unat (ucast w :: u64) + 2 ^ 64 * unat (ucast (drop_bit 64 w) :: u64) = unat w" for w :: u128
  proof -
    have "unat w div 2 ^ 64 < 2 ^ 64" using unat_u128 [of w] by (intro less_mult_imp_div_less) simp
    then show ?thesis by (simp add: unat_ucast_mod unat_drop_bit)
  qed
  from this [of "lo x"] this [of "hi x"] show ?thesis by (simp add: val_def)
qed

lemma mul_u64:
  "val (fst (mul_u64 x w)) = val x * unat w mod 2 ^ 256"
  "snd (mul_u64 x w) \<longleftrightarrow> 2 ^ 256 \<le> val x * unat w"
proof -
  let ?ws = "[ucast (lo x), ucast (drop_bit 64 (lo x)), ucast (hi x), ucast (drop_bit 64 (hi x))] :: u64 list"
  obtain out carry where r: "mul_words w 0 ?ws = (out, carry)" by fastforce
  have total: "words_val out + unat carry * 2 ^ 256 = unat w * val x" and len: "length out = 4"
    using mul_words_val [of 0 w ?ws] unfolding r val_limbs fst_conv snd_conv by simp_all
  obtain a b c d where out: "out = [a, b, c, d]"
    using len by (auto simp: length_Suc_conv eval_nat_numeral)
  have res: "mul_u64 x w = (U256 (ucast c OR push_bit 64 (ucast d)) (ucast a OR push_bit 64 (ucast b)), carry \<noteq> 0)"
    unfolding mul_u64_def r out Let_def prod.case by (simp add: numeral_2_eq_2 numeral_3_eq_3)
  have val_out: "val (fst (mul_u64 x w)) = words_val out"
    unfolding res out fst_conv val_def u256.sel unat_or_push_64 by simp
  have bound: "words_val out < 2 ^ 256" using val_bound [of "fst (mul_u64 x w)"] by (simp only: val_out)
  show "val (fst (mul_u64 x w)) = val x * unat w mod 2 ^ 256"
    unfolding val_out mult.commute [of "val x"] total [symmetric] using bound
    by (simp only: mod_mult_self1 mod_less)
  have "carry \<noteq> 0 \<longleftrightarrow> unat carry \<noteq> 0" by (simp add: unat_eq_0)
  then show "snd (mul_u64 x w) \<longleftrightarrow> 2 ^ 256 \<le> val x * unat w"
    unfolding res snd_conv mult.commute [of "val x"] total [symmetric] using bound
    by (cases "unat carry") simp_all
qed

lemma limb_split: "y mod 2 ^ (64 * i) + (y div 2 ^ (64 * i) mod 2 ^ 64) * 2 ^ (64 * i) = y mod (2 ^ (64 * Suc i) :: nat)"
proof -
  have "(2::nat) ^ (64 * Suc i) = 2 ^ (64 * i) * 2 ^ 64" by (simp add: power_add)
  then show ?thesis by (simp only: mod_mult2_eq) (simp add: mult.commute)
qed

text \<open>One step of the multiplication: the flag says exactly whether the partial product has 257 bits.\<close>

lemma mul_limb:
  assumes i: "i < 4"
    and ret: "val ret = val x * (val y mod 2 ^ (64 * i)) mod 2 ^ 256"
    and ovf: "ovf \<longleftrightarrow> 2 ^ 256 \<le> val x * (val y mod 2 ^ (64 * i))"
  defines "m \<equiv> mul_u64 x (low_u64 (u256_shr y (64 * i)))"
  defines "s \<equiv> u256_overflowing_add ret (u256_shl (fst m) (64 * i))"
  shows "val (fst s) = val x * (val y mod 2 ^ (64 * Suc i)) mod 2 ^ 256"
    and "(ovf \<or> snd m \<or> u256_ZERO < (if 0 < i then u256_shr (fst m) (256 - 64 * i) else u256_ZERO) \<or> snd s)
           \<longleftrightarrow> 2 ^ 256 \<le> val x * (val y mod 2 ^ (64 * Suc i))"
proof -
  let ?w = "val y div 2 ^ (64 * i) mod 2 ^ 64" and ?p = "(2::nat) ^ (64 * i)"
  let ?old = "val x * (val y mod ?p)" and ?new = "val x * (val y mod 2 ^ (64 * Suc i))"
  have i256: "64 * i < 256" using i by simp
  have w: "unat (low_u64 (u256_shr y (64 * i))) = ?w"
    by (simp only: unat_low_u64 val_shr [OF i256])
  have m: "val (fst m) = val x * ?w mod 2 ^ 256" "snd m \<longleftrightarrow> 2 ^ 256 \<le> val x * ?w"
    unfolding m_def mul_u64 w by simp_all
  have shl: "val (u256_shl (fst m) (64 * i)) = val x * ?w * ?p mod 2 ^ 256"
    unfolding val_shl [OF i256] m(1) by (simp only: mod_mult_left_eq)
  have new: "?new = ?old + val x * ?w * ?p"
    unfolding limb_split [symmetric] by (simp only: distrib_left mult.assoc)
  show "val (fst s) = ?new mod 2 ^ 256"
    unfolding s_def u256_overflowing_add ret shl new by (simp only: mod_add_eq)
  have snd_s: "snd s \<longleftrightarrow> 2 ^ 256 \<le> ?old mod 2 ^ 256 + val x * ?w * ?p mod 2 ^ 256"
    unfolding s_def u256_overflowing_add ret shl by (rule refl)
  let ?bits = "u256_ZERO < (if 0 < i then u256_shr (fst m) (256 - 64 * i) else u256_ZERO)"
  have bits: "?bits \<longleftrightarrow> 2 ^ 256 \<le> val x * ?w * ?p" if "\<not> snd m"
  proof (cases "0 < i")
    case True
    have small: "val (fst m) = val x * ?w" using that m by simp
    have "val (u256_shr (fst m) (256 - 64 * i)) = val x * ?w div 2 ^ (256 - 64 * i)"
      using True by (subst val_shr) (simp, simp only: small)
    then have "?bits \<longleftrightarrow> 2 ^ (256 - 64 * i) \<le> val x * ?w"
      using True by (simp add: val_less_iff div_greater_zero_iff)
    also have "\<dots> \<longleftrightarrow> 2 ^ (256 - 64 * i) * ?p \<le> val x * ?w * ?p" by simp
    also have "2 ^ (256 - 64 * i) * ?p = 2 ^ 256" using i256 by (simp flip: power_add)
    finally show ?thesis .
  next
    case False
    then show ?thesis using that m by simp
  qed
  show "(ovf \<or> snd m \<or> ?bits \<or> snd s) \<longleftrightarrow> 2 ^ 256 \<le> ?new"
  proof (cases "ovf \<or> snd m")
    case True
    have "val x * ?w * 1 \<le> val x * ?w * ?p" by (intro mult_le_mono2) simp
    then have "2 ^ 256 \<le> ?new" using True ovf m(2) unfolding new by linarith
    then show ?thesis using True by blast
  next
    case False
    then have old: "?old mod 2 ^ 256 = ?old" using ovf by simp
    show ?thesis
    proof (cases ?bits)
      case True
      then show ?thesis using bits False unfolding new by auto
    next
      case no: False
      then have "val x * ?w * ?p mod 2 ^ 256 = val x * ?w * ?p" using bits False by simp
      then show ?thesis unfolding snd_s old new using False no by simp
    qed
  qed
qed

lemma mul_limbs_from:
  assumes "i \<le> 4"
    and "val ret = val x * (val y mod 2 ^ (64 * i)) mod 2 ^ 256"
    and "ovf \<longleftrightarrow> 2 ^ 256 \<le> val x * (val y mod 2 ^ (64 * i))"
  shows "val (fst (mul_limbs [i..<4] x y ret ovf)) = val x * val y mod 2 ^ 256
       \<and> (snd (mul_limbs [i..<4] x y ret ovf) \<longleftrightarrow> 2 ^ 256 \<le> val x * val y)"
  using assms
proof (induction "4 - i" arbitrary: i ret ovf)
  case 0
  then have i: "i = 4" by simp
  have "val y mod 2 ^ (64 * i) = val y" using val_bound [of y] unfolding i by simp
  then show ?case using 0 i by simp
next
  case (Suc n)
  then have i: "i < 4" "[i..<4] = i # [Suc i..<4]" "n = 4 - Suc i" "Suc i \<le> 4" by (auto simp: upt_rec)
  note step = mul_limb [OF i(1) Suc.prems(2,3)]
  show ?case
    unfolding i(2) mul_limbs.simps Let_def case_prod_unfold by (rule Suc.hyps(1) [OF i(3,4) step])
qed

lemma u256_overflowing_mul:
  "val (fst (u256_overflowing_mul x y)) = val x * val y mod 2 ^ 256"
  "snd (u256_overflowing_mul x y) \<longleftrightarrow> 2 ^ 256 \<le> val x * val y"
  using mul_limbs_from [of 0 u256_ZERO x y False] by (simp_all add: u256_overflowing_mul_def)

subsection \<open>Division\<close>

text \<open>
  Schoolbook division bit by bit. The array \<open>ret\<close> has the high word first, so \<open>set_quotient_bit\<close>
  is the assignment to its entry \<open>1 - shift / 128\<close>.
\<close>

definition set_quotient_bit :: "nat \<Rightarrow> u256 \<Rightarrow> u256" where
  "set_quotient_bit shift ret =
     (if shift div 128 = 0 then U256 (hi ret) (lo ret OR push_bit (shift mod 128) 1)
      else U256 (hi ret OR push_bit (shift mod 128) 1) (lo ret))"

fun div_loop :: "nat \<Rightarrow> u256 \<Rightarrow> u256 \<Rightarrow> u256 \<Rightarrow> u256 \<times> u256" where
  "div_loop shift sub_copy shift_copy ret =
     (let (ret', sub_copy') =
            (if shift_copy \<le> sub_copy then (set_quotient_bit shift ret, u256_wrapping_sub sub_copy shift_copy)
             else (ret, sub_copy));
          shift_copy' = u256_shr shift_copy 1 in
      if shift = 0 then (ret', sub_copy') else div_loop (shift - 1) sub_copy' shift_copy' ret')"

declare div_loop.simps [simp del]

definition div_rem :: "u256 \<Rightarrow> u256 \<Rightarrow> ('e, u256 \<times> u256) res" where
  "div_rem x rhs =
     (let my_bits = u256_bits x; your_bits = u256_bits rhs in
      if your_bits = 0 then Panic
      else if my_bits < your_bits then Ok (u256_ZERO, x)
      else let shift = my_bits - your_bits in Ok (div_loop shift x (u256_shl rhs shift) u256_ZERO))"

lemma unat_or_bit:
  assumes "k < 128" and "unat w mod 2 ^ Suc k = 0"
  shows "unat (w OR push_bit k 1 :: u128) = unat w + 2 ^ k"
proof -
  have "\<not> bit w k"
  proof -
    obtain q where "unat w = 2 ^ Suc k * q" using assms(2) by blast
    then have "\<not> bit (unat w) k" by (simp add: bit_iff_odd)
    then show ?thesis by (simp add: bit_unsigned_iff)
  qed
  then have "w AND push_bit k 1 = 0" using assms(1) by (intro bit_eqI) (auto simp: bit_simps bit_1_iff)
  then have or: "w OR push_bit k 1 = w + push_bit k 1" by (simp add: disjunctive_add_eq_or)
  have "(2::nat) ^ k < 2 ^ 128" using assms(1) by (rule power_strict_increasing) simp
  then have one: "unat (push_bit k 1 :: u128) = 2 ^ k" unfolding unat_push_bit by simp
  have "unat w + 2 ^ k < 2 ^ 128"
  proof -
    obtain q where q: "unat w = 2 ^ Suc k * q" using assms(2) by blast
    have p: "(2::nat) ^ 128 = 2 ^ Suc k * 2 ^ (127 - k)" using assms(1) by (simp flip: power_add power_Suc)
    have "q < 2 ^ (127 - k)" using unat_u128 [of w] unfolding q p by simp
    then have "2 ^ Suc k * (q + 1) \<le> 2 ^ 128" unfolding p by (intro mult_le_mono2) simp
    then have "2 ^ Suc k * q + 2 ^ k + 2 ^ k \<le> 2 ^ 128" by (simp add: algebra_simps)
    moreover have "(0::nat) < 2 ^ k" by simp
    ultimately show ?thesis unfolding q by linarith
  qed
  then show ?thesis unfolding or using one by (subst unat_add_small) simp_all
qed

lemma val_set_bit:
  assumes "k < 256" and "val w mod 2 ^ Suc k = 0"
  shows "val (set_quotient_bit k w) = val w + 2 ^ k"
proof (cases "k < 128")
  case True
  have "(2::nat) ^ Suc k dvd 2 ^ 128" using True by (intro le_imp_power_dvd) simp
  then have "unat (lo w) mod 2 ^ Suc k = 0"
    using assms(2) unfolding val_parts(2) [symmetric] by (simp only: mod_mod_cancel)
  then show ?thesis using True by (simp add: set_quotient_bit_def val_def unat_or_bit del: push_bit_of_1)
next
  case False
  then obtain m where m: "k = 128 + m" "m < 128"
    using assms(1) by (intro that [of "k - 128"]) simp_all
  have p: "(2::nat) ^ Suc k = 2 ^ 128 * 2 ^ Suc m" unfolding m by (simp add: power_add)
  obtain q where "val w = 2 ^ Suc k * q" using assms(2) by blast
  then have "unat (hi w) = 2 ^ Suc m * q"
    unfolding val_parts(1) [symmetric] p by (simp only: mult.assoc nonzero_mult_div_cancel_left) simp
  then have "unat (hi w) mod 2 ^ Suc m = 0" by simp
  then have "unat (hi w OR push_bit m 1) = unat (hi w) + 2 ^ m" using m(2) by (intro unat_or_bit)
  moreover have "(128 + m) div 128 = 1" "(128 + m) mod 128 = m" using m(2) by simp_all
  ultimately show ?thesis unfolding m(1) using m(2)
    by (simp add: set_quotient_bit_def val_def power_add distrib_right mult.commute del: push_bit_of_1)
qed

lemma div_loop_val:
  assumes "shift < 256" and "val sc = r * 2 ^ shift" and "val sub < r * 2 ^ Suc shift"
    and "val ret mod 2 ^ Suc shift = 0" and "val ret * r + val sub = t"
  shows "val (fst (div_loop shift sub sc ret)) * r + val (snd (div_loop shift sub sc ret)) = t
       \<and> val (snd (div_loop shift sub sc ret)) < r"
  using assms
proof (induction shift arbitrary: sub sc ret)
  case 0
  show ?case
  proof (cases "sc \<le> sub")
    case True
    then have "val sc \<le> val sub" by (simp add: val_le_iff)
    then show ?thesis
      using True 0 val_set_bit [of 0 ret]
      by (subst (1 2 3) div_loop.simps) (simp add: val_wrapping_sub algebra_simps)
  next
    case False
    then show ?thesis using 0 by (subst (1 2 3) div_loop.simps) (simp add: val_le_iff)
  qed
next
  case (Suc n)
  have half: "val (u256_shr sc 1) = r * 2 ^ n" using Suc.prems(2) by (simp add: val_shr)
  have n: "n < 256" using Suc.prems(1) by simp
  have dvd: "(2::nat) ^ Suc n dvd 2 ^ Suc (Suc n)" by (rule le_imp_power_dvd) simp
  show ?case
  proof (cases "sc \<le> sub")
    case True
    then have le: "val sc \<le> val sub" by (simp add: val_le_iff)
    have bit: "val (set_quotient_bit (Suc n) ret) = val ret + 2 ^ Suc n"
      using Suc.prems(1,4) by (rule val_set_bit)
    have "div_loop (Suc n) sub sc ret
        = div_loop n (u256_wrapping_sub sub sc) (u256_shr sc 1) (set_quotient_bit (Suc n) ret)"
      using True by (subst div_loop.simps) simp
    moreover have "val (u256_wrapping_sub sub sc) < r * 2 ^ Suc n"
      using Suc.prems(2,3) le by (simp add: val_wrapping_sub)
    moreover have "val (set_quotient_bit (Suc n) ret) mod 2 ^ Suc n = 0"
      unfolding bit using Suc.prems(4) dvd by (metis dvd_add dvd_imp_mod_0 dvd_refl dvd_trans mod_0_imp_dvd)
    moreover have "val (set_quotient_bit (Suc n) ret) * r + val (u256_wrapping_sub sub sc) = t"
      unfolding bit val_wrapping_sub [OF le] using Suc.prems(2,5) le by (simp add: algebra_simps)
    ultimately show ?thesis using Suc.IH [OF n half] by simp
  next
    case False
    have "div_loop (Suc n) sub sc ret = div_loop n sub (u256_shr sc 1) ret"
      using False by (subst div_loop.simps) simp
    moreover have "val sub < r * 2 ^ Suc n" using False Suc.prems(2) by (simp add: val_le_iff)
    moreover have "val ret mod 2 ^ Suc n = 0"
      using Suc.prems(4) dvd by (metis dvd_imp_mod_0 dvd_trans mod_0_imp_dvd)
    ultimately show ?thesis using Suc.IH [OF n half] Suc.prems(5) by simp
  qed
qed

lemma div_rem:
  assumes "val y \<noteq> 0"
  shows "\<exists>q r. div_rem x y = Ok (q, r) \<and> val q = val x div val y \<and> val r = val x mod val y"
proof -
  let ?m = "u256_bits x" and ?n = "u256_bits y"
  have pos: "0 < ?n" using assms bits_le_iff [of y 0] by simp
  have x: "val x < 2 ^ ?m" and y: "val y < 2 ^ ?n" using bits_le_iff by blast+
  obtain k where k: "?n = Suc k" using pos by (cases ?n) auto
  have yk: "2 ^ k \<le> val y" using bits_le_iff [of y k] k by simp
  show ?thesis
  proof (cases "?m < ?n")
    case True
    then have "val x < 2 ^ k" using k bits_le_iff [of x k] by simp
    then have "val x < val y" using yk by simp
    then show ?thesis using True pos by (simp add: div_rem_def Let_def)
  next
    case False
    let ?s = "?m - ?n"
    let ?r = "div_loop ?s x (u256_shl y ?s) u256_ZERO"
    have s: "?s < 256" using pos bits_bound [of x] by simp
    have "val y * 2 ^ ?s < 2 ^ ?n * 2 ^ ?s" using y by simp
    also have "\<dots> = 2 ^ ?m" using False by (simp flip: power_add)
    also have "\<dots> \<le> 2 ^ 256" using bits_bound [of x] by (rule power_increasing) simp
    finally have sc: "val (u256_shl y ?s) = val y * 2 ^ ?s" by (subst val_shl [OF s]) (rule mod_less)
    have "val x < val y * 2 ^ Suc ?s"
    proof -
      have "(2::nat) ^ ?m = 2 ^ k * 2 ^ Suc ?s" using False k by (simp flip: power_add power_Suc)
      also have "\<dots> \<le> val y * 2 ^ Suc ?s" using yk by (rule mult_le_mono1)
      finally show ?thesis using x by simp
    qed
    from div_loop_val [OF s sc this, of u256_ZERO "val x"]
    have r: "val (fst ?r) * val y + val (snd ?r) = val x" "val (snd ?r) < val y" by simp_all
    have "val x div val y = val (fst ?r) \<and> val x mod val y = val (snd ?r)"
      unfolding r(1) [symmetric] using r(2) by simp
    moreover have "div_rem x y = Ok ?r" using False pos by (simp add: div_rem_def Let_def)
    ultimately show ?thesis by (metis prod.collapse)
  qed
qed

lemma div_rem_zero: "div_rem x y = Panic \<longleftrightarrow> val y = 0"
proof -
  have "u256_bits y = 0 \<longleftrightarrow> val y = 0" using bits_le_iff [of y 0] by simp
  then show ?thesis by (simp add: div_rem_def Let_def)
qed

subsection \<open>Operators that panic in debug builds\<close>

text \<open>\<open>Add\<close>, \<open>Sub\<close>, \<open>Mul\<close>, \<open>Div\<close> and \<open>Rem\<close>; \<open>debug\<close> says whether \<open>debug_assert!\<close> is compiled in.\<close>

definition u256_checked :: "bool \<Rightarrow> u256 \<times> bool \<Rightarrow> ('e, u256) res" where
  "u256_checked debug r = (if snd r \<and> debug then Panic else Ok (fst r))"

definition u256_add :: "bool \<Rightarrow> u256 \<Rightarrow> u256 \<Rightarrow> ('e, u256) res" where
  "u256_add debug x y = u256_checked debug (u256_overflowing_add x y)"

definition u256_sub :: "bool \<Rightarrow> u256 \<Rightarrow> u256 \<Rightarrow> ('e, u256) res" where
  "u256_sub debug x y = u256_checked debug (u256_overflowing_sub x y)"

definition u256_mul :: "bool \<Rightarrow> u256 \<Rightarrow> u256 \<Rightarrow> ('e, u256) res" where
  "u256_mul debug x y = u256_checked debug (u256_overflowing_mul x y)"

definition u256_div :: "u256 \<Rightarrow> u256 \<Rightarrow> ('e, u256) res" where
  "u256_div x y = res_bind (div_rem x y) (\<lambda>p. Ok (fst p))"

definition u256_rem :: "u256 \<Rightarrow> u256 \<Rightarrow> ('e, u256) res" where
  "u256_rem x y = res_bind (div_rem x y) (\<lambda>p. Ok (snd p))"

definition u256_inverse :: "u256 \<Rightarrow> ('e, u256) res" where
  "u256_inverse x =
     (if is_zero x then Ok u256_MAX
      else if is_one x then Ok u256_MAX
      else if is_max x then Ok u256_ONE
      else res_bind (u256_div (u256_not x) (u256_wrapping_inc x)) (\<lambda>ret. Ok (u256_wrapping_inc ret)))"

lemma u256_div: "val y \<noteq> 0 \<Longrightarrow> \<exists>q. u256_div x y = (Ok q :: ('e, u256) res) \<and> val q = val x div val y"
  using div_rem [of y x, where ?'a = 'e] by (auto simp: u256_div_def)

lemma u256_rem: "val y \<noteq> 0 \<Longrightarrow> \<exists>r. u256_rem x y = (Ok r :: ('e, u256) res) \<and> val r = val x mod val y"
  using div_rem [of y x, where ?'a = 'e] by (auto simp: u256_rem_def)

lemma u256_add: "val x + val y < 2 ^ 256 \<Longrightarrow> \<exists>z. u256_add debug x y = Ok z \<and> val z = val x + val y"
  by (simp add: u256_add_def u256_checked_def u256_overflowing_add)

lemma u256_mul: "val x * val y < 2 ^ 256 \<Longrightarrow> \<exists>z. u256_mul debug x y = Ok z \<and> val z = val x * val y"
  by (simp add: u256_mul_def u256_checked_def u256_overflowing_mul)

lemma u256_sub: "val y \<le> val x \<Longrightarrow> \<exists>z. u256_sub debug x y = Ok z \<and> val z = val x - val y"
  using val_wrapping_sub [of y x]
  by (simp add: u256_sub_def u256_checked_def u256_overflowing_sub(2) u256_wrapping_sub_def)

text \<open>The identity \<open>2^256 / (x + 1) = ~x / (x + 1) + 1\<close> of the comment.\<close>

lemma inverse_identity:
  fixes a :: nat
  assumes "a < 2 ^ 256"
  shows "(2 ^ 256 - 1 - a) div (a + 1) + 1 = 2 ^ 256 div (a + 1)"
proof -
  have "2 ^ 256 = (2 ^ 256 - 1 - a) + (a + 1)" using assms by simp
  then have "2 ^ 256 div (a + 1) = ((2 ^ 256 - 1 - a) + (a + 1)) div (a + 1)" by (rule arg_cong)
  then show ?thesis by (simp only: div_add_self2 [of "a + 1"] add_is_0 one_neq_zero not_False_eq_True simp_thms)
qed

lemma u256_inverse:
  "\<exists>y. u256_inverse x = Ok y
     \<and> val y = (if val x \<le> 1 then 2 ^ 256 - 1 else if val x = 2 ^ 256 - 1 then 1 else 2 ^ 256 div (val x + 1))"
proof (cases "val x \<le> 1 \<or> val x = 2 ^ 256 - 1")
  case True
  then show ?thesis
    by (auto simp: u256_inverse_def is_zero_iff is_one_iff is_max_iff val_MAX le_Suc_eq)
next
  case False
  then have "val x + 1 < 2 ^ 256" using val_bound [of x] by linarith
  then have inc: "val (u256_wrapping_inc x) = val x + 1" unfolding val_wrapping_inc by (rule mod_less)
  then obtain q where q: "u256_div (u256_not x) (u256_wrapping_inc x) = (Ok q :: ('a, u256) res)"
      "val q = (2 ^ 256 - 1 - val x) div (val x + 1)"
    using u256_div [of "u256_wrapping_inc x" "u256_not x"] by (auto simp: val_not)
  have id: "val q + 1 = 2 ^ 256 div (val x + 1)" unfolding q(2) using val_bound by (rule inverse_identity)
  moreover have "2 ^ 256 div (val x + 1) < (2 ^ 256 :: nat)" using False by (intro div_less_dividend) simp_all
  ultimately have "val (u256_wrapping_inc q) = 2 ^ 256 div (val x + 1)"
    unfolding val_wrapping_inc by (simp only: mod_less)
  then show ?thesis
    using False q(1) by (simp add: u256_inverse_def is_zero_iff is_one_iff is_max_iff)
qed

subsection \<open>Byte order\<close>

definition split_in_half :: "bytes \<Rightarrow> bytes \<times> bytes" where
  "split_in_half a = (take 16 a, drop 16 a)"

text \<open>\<open>u128::from_be_bytes\<close> and \<open>to_be_bytes\<close> are the little-endian functions on the reversed bytes.\<close>

definition u256_from_be_bytes :: "bytes \<Rightarrow> u256" where
  "u256_from_be_bytes a =
     (let (high, low) = split_in_half a in U256 (from_le_bytes (rev high)) (from_le_bytes (rev low)))"

definition u256_from_le_bytes :: "bytes \<Rightarrow> u256" where
  "u256_from_le_bytes a =
     (let (high, low) = split_in_half a; little = from_le_bytes high; big = from_le_bytes low in U256 big little)"

definition u256_to_be_bytes :: "u256 \<Rightarrow> bytes" where
  "u256_to_be_bytes x = rev (to_le_bytes (hi x)) @ rev (to_le_bytes (lo x))"

definition u256_to_le_bytes :: "u256 \<Rightarrow> bytes" where
  "u256_to_le_bytes x = to_le_bytes (lo x) @ to_le_bytes (hi x)"

lemma to_be_bytes_rev: "u256_to_be_bytes x = rev (u256_to_le_bytes x)"
  by (simp add: u256_to_be_bytes_def u256_to_le_bytes_def)

lemma from_be_bytes_rev: "length a = 32 \<Longrightarrow> u256_from_be_bytes a = u256_from_le_bytes (rev a)"
  by (simp add: u256_from_be_bytes_def u256_from_le_bytes_def split_in_half_def rev_take rev_drop)

lemma length_u256_bytes [simp]: "length (u256_to_le_bytes x) = 32" "length (u256_to_be_bytes x) = 32"
  by (simp_all add: u256_to_le_bytes_def u256_to_be_bytes_def)

lemma val_from_le_bytes: "length a = 32 \<Longrightarrow> val (u256_from_le_bytes a) = nat_of_le a"
proof -
  assume a: "length a = 32"
  have "nat_of_le a = nat_of_le (take 16 a) + 256 ^ 16 * nat_of_le (drop 16 a)"
    using a nat_of_le_append [of "take 16 a" "drop 16 a"] by simp
  then show ?thesis
    using a by (simp add: u256_from_le_bytes_def split_in_half_def val_def unat_from_le_bytes)
qed

lemma from_to_le_u256: "u256_from_le_bytes (u256_to_le_bytes x) = x"
  by (simp add: u256_from_le_bytes_def u256_to_le_bytes_def split_in_half_def)

lemma from_to_be_u256: "u256_from_be_bytes (u256_to_be_bytes x) = x"
  by (simp add: from_be_bytes_rev to_be_bytes_rev from_to_le_u256)

lemma to_from_le_u256: "length a = 32 \<Longrightarrow> u256_to_le_bytes (u256_from_le_bytes a) = a"
  by (simp add: u256_from_le_bytes_def u256_to_le_bytes_def split_in_half_def to_from_le_bytes)

end
