(* ===== verification/Target.thy ===== *)
theory Target
  imports U256
begin

section \<open>Targets, compact targets and work\<close>

text \<open>
  \<open>units/src/pow.rs\<close>: the newtypes \<open>Target\<close> and \<open>Work\<close> around a 256-bit integer and \<open>CompactTarget\<close>
  around the \<open>u32\<close> of a block header, modelled by what they wrap. The compact form is a
  floating-point number with an exponent in base 256 and a mantissa of 23 bits; the lemmas say which
  number it denotes and by how much a target is rounded when it is compressed.
\<close>

type_synonym target = u256
type_synonym work = u256
type_synonym compact_target = u32

subsection \<open>From the compact form\<close>

definition target_from_compact :: "compact_target \<Rightarrow> target" where
  "target_from_compact c =
     (let unshifted_expt = unat (drop_bit 24 c);
          (mant, expt) =
            (if unshifted_expt \<le> 3 then (drop_bit (8 * (3 - unshifted_expt)) (c AND 0xFFFFFF), 0)
             else (c AND 0xFFFFFF, 8 * (unshifted_expt - 3)));
          overflow = (mant \<noteq> 0 \<and> (34 < unshifted_expt \<or> 0xFF < mant \<and> 33 < unshifted_expt
                                  \<or> 0xFFFF < mant \<and> 32 < unshifted_expt)) in
      if 0x7FFFFF < mant \<or> overflow then u256_ZERO
      else u256_shl (u256_of_u128 (ucast mant)) expt)"

text \<open>The parts of a compact form, as numbers.\<close>

definition compact_exponent :: "compact_target \<Rightarrow> nat" where "compact_exponent c = unat c div 2 ^ 24"

definition compact_mantissa :: "compact_target \<Rightarrow> nat" where
  "compact_mantissa c = unat c mod 2 ^ 24 div 256 ^ (3 - compact_exponent c)"

lemma unat_and_24: "unat (c AND 0xFFFFFF :: u32) = unat c mod 2 ^ 24"
proof -
  have "(0xFFFFFF :: u32) = mask 24" by (simp add: mask_eq_exp_minus_1)
  then have "unat (c AND 0xFFFFFF) = unat (take_bit 24 c)" by (simp only: take_bit_eq_mask)
  also have "\<dots> = unat c mod 2 ^ 24" by (subst unsigned_take_bit_eq) (simp only: take_bit_eq_mod)
  finally show ?thesis .
qed

lemma compact_mantissa_bound: "compact_mantissa c < 2 ^ 24"
proof -
  have "compact_mantissa c \<le> unat c mod 2 ^ 24" by (simp only: compact_mantissa_def div_le_dividend)
  also have "\<dots> < 2 ^ 24" by simp
  finally show ?thesis .
qed

lemma mult_pow256_less: "0 < k \<Longrightarrow> a * 256 ^ n < 256 ^ (n + k) \<longleftrightarrow> a < (256 ^ k :: nat)"
  by (simp add: power_add mult.commute)

text \<open>The overflow test decides whether the number has more than 256 bits.\<close>

lemma compact_overflow_iff:
  fixes m e :: nat
  assumes "m < 2 ^ 23"
  shows "(m \<noteq> 0 \<and> (34 < e \<or> 0xFF < m \<and> 33 < e \<or> 0xFFFF < m \<and> 32 < e)) \<longleftrightarrow> 256 ^ 32 \<le> m * 256 ^ (e - 3)"
proof -
  have big: "256 ^ 32 \<le> m * 256 ^ (e - 3)" if "256 ^ k \<le> m" "32 \<le> k + (e - 3)" for k
  proof -
    have "(256::nat) ^ 32 \<le> 256 ^ (k + (e - 3))" using that(2) by (intro power_increasing) simp_all
    also have "\<dots> = 256 ^ k * 256 ^ (e - 3)" by (rule power_add)
    also have "\<dots> \<le> m * 256 ^ (e - 3)" using that(1) by (rule mult_le_mono1)
    finally show ?thesis .
  qed
  have small: "m * 256 ^ (e - 3) < 256 ^ 32" if "m < 256 ^ k" "k + (e - 3) \<le> 32" for k
  proof -
    have "m * 256 ^ (e - 3) < 256 ^ k * 256 ^ (e - 3)" using that(1) by simp
    also have "\<dots> = 256 ^ (k + (e - 3))" by (rule power_add [symmetric])
    also have "\<dots> \<le> 256 ^ 32" using that(2) by (intro power_increasing) simp_all
    finally show ?thesis .
  qed
  show ?thesis
  proof (cases "m = 0")
    case False
    consider "34 < e" | "e \<le> 34" "0xFF < m" "33 < e" | "e \<le> 33" "0xFFFF < m" "32 < e"
      | "e \<le> 32" | "e \<le> 33" "m \<le> 0xFFFF" | "e \<le> 34" "m \<le> 0xFF" by linarith
    then show ?thesis
    proof cases
      case 1
      then show ?thesis using False big [of 0] by simp
    next
      case 2
      then have "256 ^ 32 \<le> m * 256 ^ (e - 3)" by (intro big [of 1]) simp_all
      then show ?thesis using 2 False by blast
    next
      case 3
      then have "256 ^ 32 \<le> m * 256 ^ (e - 3)" by (intro big [of 2]) simp_all
      then show ?thesis using 3 False by blast
    next
      case 4
      then have "m * 256 ^ (e - 3) < 256 ^ 32" using assms by (intro small [of 3]) simp_all
      then show ?thesis using 4 by linarith
    next
      case 5
      then have "m * 256 ^ (e - 3) < 256 ^ 32" using assms by (intro small [of 2]) simp_all
      then show ?thesis using 5 by linarith
    next
      case 6
      then have "m * 256 ^ (e - 3) < 256 ^ 32" using assms by (intro small [of 1]) simp_all
      then show ?thesis using 6 by linarith
    qed
  qed simp
qed

lemma val_target_from_compact:
  "val (target_from_compact c) =
     (let n = compact_mantissa c * 256 ^ (compact_exponent c - 3) in
      if compact_mantissa c < 2 ^ 23 \<and> n < 2 ^ 256 then n else 0)"
proof -
  let ?e = "compact_exponent c" and ?m = "compact_mantissa c"
  have e: "unat (drop_bit 24 c) = ?e" by (simp add: unat_drop_bit compact_exponent_def)
  define mant :: u32 where "mant = (if ?e \<le> 3 then drop_bit (8 * (3 - ?e)) (c AND 0xFFFFFF) else c AND 0xFFFFFF)"
  have pow: "(2::nat) ^ (8 * k) = 256 ^ k" for k by (simp only: power_mult) simp
  have mant: "unat mant = ?m"
    by (cases "?e \<le> 3") (simp_all only: mant_def compact_mantissa_def unat_drop_bit unat_and_24 pow if_True if_False,
      simp add: compact_exponent_def)
  have cmp: "k < mant \<longleftrightarrow> unat k < ?m" for k by (simp add: word_less_nat_alt mant)
  have zero: "mant = 0 \<longleftrightarrow> ?m = 0" unfolding mant [symmetric] by (simp add: unat_eq_0)
  define overflow where "overflow = (?m \<noteq> 0 \<and> (34 < ?e \<or> 0xFF < ?m \<and> 33 < ?e \<or> 0xFFFF < ?m \<and> 32 < ?e))"
  have code: "target_from_compact c = (if 0x7FFFFF < ?m \<or> overflow then u256_ZERO
      else u256_shl (u256_of_u128 (ucast mant)) (8 * (?e - 3)))"
  proof -
    have "(if ?e \<le> 3 then (drop_bit (8 * (3 - ?e)) (c AND 0xFFFFFF), 0) else (c AND 0xFFFFFF, 8 * (?e - 3)))
        = (mant, 8 * (?e - 3))" by (simp add: mant_def)
    then show ?thesis
      unfolding target_from_compact_def e Let_def overflow_def by (simp add: cmp zero)
  qed
  show ?thesis
  proof (cases "?m < 2 ^ 23")
    case False
    then show ?thesis unfolding code by simp
  next
    case True
    have "(2::nat) ^ 256 = 256 ^ 32" by simp
    then have ovf: "overflow \<longleftrightarrow> \<not> ?m * 256 ^ (?e - 3) < 2 ^ 256"
      unfolding overflow_def compact_overflow_iff [OF True] by (simp only: not_less)
    show ?thesis
    proof (cases "?m * 256 ^ (?e - 3) < 2 ^ 256 \<and> ?m \<noteq> 0")
      case no: False
      then show ?thesis using True ovf unfolding code
        by (cases "?m = 0") (auto simp: mant [symmetric] unat_eq_0 val_def u256_ZERO_def u256_shl_def u256_of_u128_def Let_def)
    next
      case yes: True
      then have "?e \<le> 34" using ovf unfolding overflow_def by linarith
      then have "8 * (?e - 3) < 256" by simp
      moreover have "unat (ucast mant :: u128) = ?m" unfolding mant [symmetric] by (rule unat_ucast_up) simp
      ultimately have "val (u256_shl (u256_of_u128 (ucast mant)) (8 * (?e - 3))) = ?m * 2 ^ (8 * (?e - 3)) mod 2 ^ 256"
        by (simp only: val_shl val_constants)
      moreover have "(2::nat) ^ (8 * (?e - 3)) = 256 ^ (?e - 3)" by (simp only: power_mult) simp
      ultimately show ?thesis unfolding code using yes True ovf by simp
    qed
  qed
qed

subsection \<open>To the compact form\<close>

definition to_compact_lossy :: "target \<Rightarrow> compact_target" where
  "to_compact_lossy t =
     (let size = (u256_bits t + 7) div 8;
          compact =
            (if size \<le> 3 then ucast (push_bit (8 * (3 - size)) (low_u64 t))
             else low_u32 (u256_shr t (8 * (size - 3)))) :: u32;
          (compact, size) =
            (if compact AND 0x00800000 \<noteq> 0 then (drop_bit 8 compact, size + 1) else (compact, size)) in
      compact OR push_bit 24 (word_of_nat size))"

text \<open>
  The exponent is the number of bytes of the target read as a signed number, and the mantissa its
  three leading bytes.
\<close>

definition compact_size :: "nat \<Rightarrow> nat" where
  "compact_size n = (if n = 0 then 0 else bit_length n div 8 + 1)"

definition leading_bytes :: "nat \<Rightarrow> nat \<Rightarrow> nat" where
  "leading_bytes s n = n * 256 ^ (3 - s) div 256 ^ (s - 3)"

lemma pow256: "(2::nat) ^ (8 * k) = 256 ^ k"
  by (simp only: power_mult) simp

lemma leading_bytes_bound: "n < 2 ^ b \<Longrightarrow> b + 8 * (3 - s) \<le> k + 8 * (s - 3) \<Longrightarrow> leading_bytes s n < 2 ^ k"
proof -
  assume n: "n < 2 ^ b" and b: "b + 8 * (3 - s) \<le> k + 8 * (s - 3)"
  have "n * 256 ^ (3 - s) < 2 ^ b * 2 ^ (8 * (3 - s))" using n unfolding pow256 by simp
  also have "\<dots> \<le> 2 ^ k * 2 ^ (8 * (s - 3))" using b by (simp only: power_add [symmetric]) simp
  finally show ?thesis unfolding leading_bytes_def pow256 [symmetric] by (rule less_mult_imp_div_less)
qed

lemma leading_bytes_lower:
  "2 ^ b \<le> n \<Longrightarrow> k + 8 * (s - 3) \<le> b + 8 * (3 - s) \<Longrightarrow> 2 ^ k \<le> leading_bytes s n"
proof -
  assume n: "2 ^ b \<le> n" and b: "k + 8 * (s - 3) \<le> b + 8 * (3 - s)"
  have "(2::nat) ^ k * 2 ^ (8 * (s - 3)) \<le> 2 ^ b * 2 ^ (8 * (3 - s))"
    using b by (simp only: power_add [symmetric]) simp
  also have "\<dots> \<le> n * 256 ^ (3 - s)" using n unfolding pow256 by simp
  finally show ?thesis unfolding leading_bytes_def pow256 [symmetric] by (simp add: less_eq_div_iff_mult_less_eq)
qed

lemma leading_bytes_Suc: "leading_bytes s n div 256 = leading_bytes (Suc s) n"
proof (cases "s \<le> 2")
  case True
  then have s: "3 - s = Suc (3 - Suc s)" "s - 3 = 0" "Suc s - 3 = 0" by simp_all
  show ?thesis unfolding leading_bytes_def s by simp
next
  case False
  then have s: "3 - s = 0" "3 - Suc s = 0" "Suc s - 3 = Suc (s - 3)" by simp_all
  show ?thesis unfolding leading_bytes_def s power_Suc2 by (simp only: div_mult2_eq)
qed

lemma bit_23_test: "unat (c :: u32) < 2 ^ 24 \<Longrightarrow> c AND 0x00800000 \<noteq> 0 \<longleftrightarrow> 2 ^ 23 \<le> unat c"
proof -
  assume c: "unat c < 2 ^ 24"
  have "(0x00800000 :: u32) = 2 ^ 23" by simp
  then have "c AND 0x00800000 \<noteq> 0 \<longleftrightarrow> bit c 23" by (simp only: and_exp_eq_0_iff_not_bit not_not)
  also have "\<dots> \<longleftrightarrow> bit (unat c) 23" by (simp add: bit_unsigned_iff)
  also have "\<dots> \<longleftrightarrow> odd (unat c div 2 ^ 23)" by (simp only: bit_iff_odd)
  also have "\<dots> \<longleftrightarrow> 2 ^ 23 \<le> unat c"
  proof (cases "2 ^ 23 \<le> unat c")
    case True
    then have "unat c div 2 ^ 23 = 1" using c by (intro div_nat_eqI) simp_all
    then show ?thesis using True by simp
  qed simp
  finally show ?thesis .
qed

lemma unat_to_compact:
  "unat (to_compact_lossy t) = leading_bytes (compact_size (val t)) (val t) + compact_size (val t) * 2 ^ 24
   \<and> leading_bytes (compact_size (val t)) (val t) < 2 ^ 23"
proof -
  let ?n = "val t" and ?b = "bit_length (val t)" and ?s = "compact_size (val t)"
  define s where "s = (?b + 7) div 8"
  define c :: u32 where "c = (if s \<le> 3 then ucast (push_bit (8 * (3 - s)) (low_u64 t))
             else low_u32 (u256_shr t (8 * (s - 3))))"
  have b: "?n < 2 ^ ?b" using bit_length_le_iff by blast
  have b256: "?b \<le> 256" using bits_bound [of t] by (simp only: bits_eq)
  have m24: "leading_bytes s ?n < 2 ^ 24" using b by (rule leading_bytes_bound) (simp add: s_def)
  have c: "unat c = leading_bytes s ?n"
  proof (cases "s \<le> 3")
    case True
    then have m: "leading_bytes s ?n = ?n * 2 ^ (8 * (3 - s))" unfolding pow256 by (simp add: leading_bytes_def)
    have le: "?n \<le> ?n * 2 ^ (8 * (3 - s))" by simp
    then have "?n < 2 ^ 24" using m24 m by linarith
    then have "unat (low_u64 t) = ?n" unfolding unat_low_u64 by simp
    moreover have "unat (push_bit (8 * (3 - s)) (low_u64 t)) = unat (low_u64 t) * 2 ^ (8 * (3 - s)) mod 2 ^ 64"
      unfolding unsigned_push_bit_eq by (simp add: take_bit_eq_mod push_bit_eq_mult)
    ultimately show ?thesis using True m24 unfolding m by (simp add: c_def unat_ucast_mod)
  next
    case False
    then have "8 * (s - 3) < 256" using b256 by (simp add: s_def)
    then have "unat c = ?n div 2 ^ (8 * (s - 3)) mod 2 ^ 32" using False by (simp only: c_def if_False unat_low_u32 val_shr)
    moreover have "leading_bytes s ?n = ?n div 2 ^ (8 * (s - 3))" using False unfolding pow256 by (simp add: leading_bytes_def)
    ultimately show ?thesis using m24 by simp
  qed
  have test: "c AND 0x00800000 \<noteq> 0 \<longleftrightarrow> ?s = Suc s"
  proof -
    have "c AND 0x00800000 \<noteq> 0 \<longleftrightarrow> 2 ^ 23 \<le> leading_bytes s ?n"
      using bit_23_test [of c] m24 unfolding c by simp
    also have "\<dots> \<longleftrightarrow> ?n \<noteq> 0 \<and> ?b mod 8 = 0"
    proof (cases "?n \<noteq> 0 \<and> ?b mod 8 = 0")
      case True
      then have "?b = 8 * s" unfolding s_def by presburger
      moreover obtain k where "?b = Suc k" using True by (cases ?b) (auto simp: bit_length.simps [of ?n])
      ultimately have "2 ^ 23 \<le> leading_bytes s ?n"
        using bit_length_le_iff [of ?n k] by (intro leading_bytes_lower [of k]) auto
      then show ?thesis using True by blast
    next
      case False
      have "leading_bytes s ?n < 2 ^ 23"
      proof (cases "?n = 0")
        case True
        then show ?thesis by (simp add: leading_bytes_def)
      next
        case pos: False
        then have "?b + 1 \<le> 8 * s" using False unfolding s_def by presburger
        then show ?thesis using b by (intro leading_bytes_bound [OF b]) simp
      qed
      then show ?thesis using False by linarith
    qed
    also have "\<dots> \<longleftrightarrow> ?s = Suc s"
    proof (cases "?n = 0")
      case False
      then show ?thesis unfolding compact_size_def s_def by simp presburger
    qed (simp add: compact_size_def)
    finally show ?thesis .
  qed
  have other: "?s = s" if "?s \<noteq> Suc s"
  proof (cases "?n = 0")
    case True
    then show ?thesis by (simp add: compact_size_def s_def bit_length.simps [of 0])
  next
    case False
    then show ?thesis using that unfolding compact_size_def s_def by simp
  qed
  define c' where "c' = (if c AND 0x00800000 \<noteq> 0 then drop_bit 8 c else c)"
  have c': "unat c' = leading_bytes ?s ?n"
    using test other leading_bytes_Suc [of s ?n] by (auto simp: c'_def unat_drop_bit c)
  have s33: "?s \<le> 33" using div_le_mono [OF b256, of 8] by (simp add: compact_size_def)
  have m23: "leading_bytes ?s ?n < 2 ^ 23"
  proof (cases "?n = 0")
    case False
    then show ?thesis by (intro leading_bytes_bound [OF b]) (simp add: compact_size_def)
  qed (simp add: leading_bytes_def)
  have "to_compact_lossy t = c' OR push_bit 24 (word_of_nat ?s)"
    unfolding to_compact_lossy_def bits_eq Let_def s_def [symmetric] c_def [symmetric] c'_def
    using test other by auto
  also have "unat \<dots> = unat (c' + push_bit 24 (word_of_nat ?s))"
    using m23 unfolding c' [symmetric] by (intro unat_or_push) simp
  also have "\<dots> = leading_bytes ?s ?n + ?s * 2 ^ 24"
  proof -
    have "unat (push_bit 24 (word_of_nat ?s) :: u32) = ?s * 2 ^ 24"
      unfolding unsigned_push_bit_eq using s33 by (simp add: take_bit_eq_mod push_bit_eq_mult unat_of_nat)
    then show ?thesis using m23 s33 by (simp add: unat_word_ariths(1) c')
  qed
  finally show ?thesis using m23 by blast
qed

text \<open>What is left of a target that is written in compact form.\<close>

lemma compact_parts:
  "compact_exponent (to_compact_lossy t) = compact_size (val t)"
  "compact_mantissa (to_compact_lossy t)
     = leading_bytes (compact_size (val t)) (val t) div 256 ^ (3 - compact_size (val t))"
proof -
  let ?s = "compact_size (val t)" and ?m = "leading_bytes (compact_size (val t)) (val t)"
  have c: "unat (to_compact_lossy t) = ?m + ?s * 2 ^ 24" and m: "?m < 2 ^ 24"
    using unat_to_compact [of t] by auto
  show e: "compact_exponent (to_compact_lossy t) = ?s" using m unfolding compact_exponent_def c by simp
  show "compact_mantissa (to_compact_lossy t) = ?m div 256 ^ (3 - ?s)"
    using m unfolding compact_mantissa_def e c by simp
qed

lemma val_from_to_compact:
  "val (target_from_compact (to_compact_lossy t))
     = val t div 256 ^ (compact_size (val t) - 3) * 256 ^ (compact_size (val t) - 3)"
proof -
  let ?n = "val t" and ?s = "compact_size (val t)"
  have m: "compact_mantissa (to_compact_lossy t) = ?n div 256 ^ (?s - 3)"
  proof (cases "?s \<le> 3")
    case True
    then show ?thesis unfolding compact_parts by (simp add: leading_bytes_def)
  next
    case False
    then show ?thesis unfolding compact_parts by (simp add: leading_bytes_def)
  qed
  have "leading_bytes ?s ?n < 2 ^ 23" using unat_to_compact [of t] by blast
  then have "compact_mantissa (to_compact_lossy t) < 2 ^ 23"
    unfolding compact_parts by (rule le_less_trans [OF div_le_dividend])
  moreover have "?n div 256 ^ (?s - 3) * 256 ^ (?s - 3) < 2 ^ 256"
    using val_bound [of t] by (rule le_less_trans [rotated]) simp
  ultimately show ?thesis unfolding val_target_from_compact m compact_parts(1) Let_def by simp
qed

lemma compact_size_truncate:
  "compact_size (n div 256 ^ (compact_size n - 3) * 256 ^ (compact_size n - 3)) = compact_size n"
proof (cases "compact_size n \<le> 3")
  case False
  let ?k = "compact_size n - 3" and ?b = "bit_length n"
  have n: "n \<noteq> 0" using False by (intro notI) (simp add: compact_size_def)
  then have size: "compact_size n = ?b div 8 + 1" by (simp add: compact_size_def)
  from n obtain j where j: "?b = Suc j" by (cases ?b) (auto simp: bit_length.simps [of n])
  have kj: "8 * ?k \<le> j" using size j False by presburger
  have lower: "2 ^ j \<le> n" using bit_length_le_iff [of n j] j by simp
  let ?t = "n div 256 ^ ?k * 256 ^ ?k"
  have "(2::nat) ^ (j - 8 * ?k) * 256 ^ ?k = 2 ^ j"
    unfolding pow256 [symmetric] using kj by (simp flip: power_add)
  moreover from this lower have "2 ^ (j - 8 * ?k) \<le> n div 256 ^ ?k" by (simp add: less_eq_div_iff_mult_less_eq)
  ultimately have t: "2 ^ j \<le> ?t" using mult_le_mono1 [of "2 ^ (j - 8 * ?k)" "n div 256 ^ ?k" "256 ^ ?k"] by simp
  have "0 < ?t" by (rule less_le_trans [OF _ t]) simp
  moreover have "bit_length ?t = ?b"
  proof (rule le_antisym)
    have "n < 2 ^ ?b" using bit_length_le_iff by blast
    then have "?t < 2 ^ ?b" by (rule le_less_trans [rotated]) simp
    then show "bit_length ?t \<le> ?b" by (simp only: bit_length_le_iff)
    have "\<not> bit_length ?t \<le> j" using t by (simp only: bit_length_le_iff not_less)
    then show "?b \<le> bit_length ?t" using j by simp
  qed
  ultimately show ?thesis using n unfolding compact_size_def by simp
qed simp

text \<open>Property C36. The compact form denotes mantissa times a power of 256; a mantissa with the sign bit, or a
  number of more than 256 bits, is read as zero.\<close>

theorem compact_target_denotes:
  "val (target_from_compact c) =
     (let n = compact_mantissa c * 256 ^ (compact_exponent c - 3) in
      if compact_mantissa c < 2 ^ 23 \<and> n < 2 ^ 256 then n else 0)"
  by (rule val_target_from_compact)

text \<open>Property C37. Writing a target in compact form rounds it down to its three leading bytes, which loses less than
  one part in \<open>2 ^ 15\<close>, and a target that has been read from this form is written to the same form again.\<close>

theorem compact_target_truncates:
  "let s = target_from_compact (to_compact_lossy t);
       k = compact_size (val t) - 3 in
   val s = val t div 256 ^ k * 256 ^ k
   \<and> val s \<le> val t \<and> (val t - val s) * 2 ^ 15 \<le> val t
   \<and> to_compact_lossy s = to_compact_lossy t"
proof -
  let ?s = "target_from_compact (to_compact_lossy t)" and ?k = "compact_size (val t) - 3"
  have v: "val ?s = val t div 256 ^ ?k * 256 ^ ?k" by (rule val_from_to_compact)
  have le: "val ?s \<le> val t" unfolding v by simp
  have loss: "(val t - val ?s) * 2 ^ 15 \<le> val t"
  proof (cases "?k = 0")
    case True
    then show ?thesis unfolding v by simp
  next
    case False
    then have n: "val t \<noteq> 0" by (intro notI) (simp add: compact_size_def)
    then obtain j where j: "bit_length (val t) = Suc j"
      by (cases "bit_length (val t)") (auto simp: bit_length.simps [of "val t"])
    have "8 * ?k + 15 \<le> j" using False n j by (simp add: compact_size_def)
    then have "(2::nat) ^ (8 * ?k + 15) \<le> 2 ^ j" by (rule power_increasing) simp
    also have "\<dots> \<le> val t" using bit_length_le_iff [of "val t" j] j by simp
    finally have big: "256 ^ ?k * 2 ^ 15 \<le> val t" unfolding power_add pow256 .
    have "val t - val ?s = val t mod 256 ^ ?k" unfolding v by (simp add: minus_div_mult_eq_mod)
    also have "\<dots> \<le> 256 ^ ?k" by (simp add: less_imp_le)
    finally have "(val t - val ?s) * 2 ^ 15 \<le> 256 ^ ?k * 2 ^ 15" by (rule mult_le_mono1)
    then show ?thesis using big by (rule le_trans)
  qed
  have size: "compact_size (val ?s) = compact_size (val t)" unfolding v by (rule compact_size_truncate)
  have "leading_bytes (compact_size (val t)) (val ?s) = leading_bytes (compact_size (val t)) (val t)"
  proof (cases "?k = 0")
    case True
    then show ?thesis unfolding v by (simp add: leading_bytes_def)
  next
    case False
    then show ?thesis unfolding v by (simp add: leading_bytes_def)
  qed
  then have "unat (to_compact_lossy ?s) = unat (to_compact_lossy t)"
    using unat_to_compact [of ?s] unat_to_compact [of t] unfolding size by simp
  then show ?thesis using v le loss by (simp add: Let_def word_unat_eq_iff)
qed

text \<open>A mantissa that is shifted out before the sign is tested: the sign bit is set in \<open>0x01fedcba\<close>, and yet the form
  denotes \<open>0xfe\<close>.\<close>

lemma negative_compact_target: "val (target_from_compact 0x01fedcba) = 0xfe"
  by (simp add: val_target_from_compact compact_mantissa_def compact_exponent_def)

subsection \<open>Work\<close>

definition to_work :: "target \<Rightarrow> (unit, work) res" where "to_work t = u256_inverse t"
definition to_target :: "work \<Rightarrow> (unit, target) res" where "to_target w = u256_inverse w"

definition work_add :: "bool \<Rightarrow> work \<Rightarrow> work \<Rightarrow> ('e, work) res" where "work_add debug = u256_add debug"
definition work_sub :: "bool \<Rightarrow> work \<Rightarrow> work \<Rightarrow> ('e, work) res" where "work_sub debug = u256_sub debug"

definition inverse_val :: "nat \<Rightarrow> nat" where
  "inverse_val n = (if n \<le> 1 then 2 ^ 256 - 1 else 2 ^ 256 div (n + 1))"

lemma to_work_val: "\<exists>w. to_work t = Ok w \<and> val w = inverse_val (val t)"
  using u256_inverse [of t] by (auto simp: to_work_def inverse_val_def)

lemma inverse_val_antimono: "m \<le> n \<Longrightarrow> inverse_val n \<le> inverse_val m"
proof -
  assume le: "m \<le> n"
  have small: "inverse_val n \<le> 2 ^ 256 - 1"
  proof (cases "n \<le> 1")
    case False
    have "2 ^ 256 div (n + 1) < (2 ^ 256 :: nat)" using False by (intro div_less_dividend) simp_all
    then have "2 ^ 256 div (n + 1) \<le> (2 ^ 256 - 1 :: nat)" by linarith
    then show ?thesis using False unfolding inverse_val_def by (simp only: if_False)
  qed (simp add: inverse_val_def)
  show ?thesis
  proof (cases "m \<le> 1")
    case True
    then show ?thesis using small by (simp add: inverse_val_def)
  next
    case False
    then have "\<not> n \<le> 1" using le by simp
    moreover have "2 ^ 256 div (n + 1) \<le> 2 ^ 256 div (m + 1)" using le by (intro div_le_mono2) simp_all
    ultimately show ?thesis using False unfolding inverse_val_def by (simp only: if_False)
  qed
qed

text \<open>The work of a target of two or more is \<open>2 ^ 256\<close> divided by the target plus one, that of zero and one
  is the largest number; it is always computed without panic, and a lower target never has less work.\<close>

theorem work_of_target:
  "\<exists>w w'. to_work t = Ok w \<and> val w = (if val t \<le> 1 then 2 ^ 256 - 1 else 2 ^ 256 div (val t + 1))
        \<and> to_work t' = Ok w' \<and> (t \<le> t' \<longrightarrow> w' \<le> w)"
proof -
  obtain w where w: "to_work t = Ok w" "val w = inverse_val (val t)" using to_work_val by blast
  obtain w' where w': "to_work t' = Ok w'" "val w' = inverse_val (val t')" using to_work_val by blast
  have "t \<le> t' \<longrightarrow> w' \<le> w" using inverse_val_antimono unfolding val_le_iff w(2) w'(2) by blast
  then show ?thesis using w w' unfolding inverse_val_def by blast
qed

theorem work_of_target_witness:
  "\<exists>w w'. to_work (U256 0 2) = Ok w \<and> to_work (U256 0 9) = Ok w' \<and> w' \<le> (w :: work)"
  using work_of_target [of "U256 0 2" "U256 0 9"] by (auto simp: less_eq_u256_def)

end
