(* ===== verification/Networks.thy ===== *)
theory Networks
  imports Prelude
begin

section \<open>Networks\<close>

text \<open>\<open>network/src/lib.rs\<close>: the networks, their kinds and their names. A name is a \<open>string\<close>.\<close>

datatype testnet_version = V3 | V4
datatype network = Bitcoin | Testnet testnet_version | Signet | Regtest

datatype network_kind = Main | Test

definition kind_is_mainnet :: "network_kind \<Rightarrow> bool" where
  "kind_is_mainnet kind \<longleftrightarrow> kind = Main"

fun network_kind_of :: "network \<Rightarrow> network_kind" where
  "network_kind_of Bitcoin = Main"
| "network_kind_of (Testnet _) = Test"
| "network_kind_of Signet = Test"
| "network_kind_of Regtest = Test"

fun to_core_arg :: "network \<Rightarrow> string" where
  "to_core_arg Bitcoin = ''main''"
| "to_core_arg (Testnet V3) = ''test''"
| "to_core_arg (Testnet V4) = ''testnet4''"
| "to_core_arg Signet = ''signet''"
| "to_core_arg Regtest = ''regtest''"

text \<open>The error is the name.\<close>

definition from_core_arg :: "string \<Rightarrow> (string, network) res" where
  "from_core_arg core_arg =
     (if core_arg = ''main'' then Ok Bitcoin
      else if core_arg = ''test'' then Ok (Testnet V3)
      else if core_arg = ''testnet4'' then Ok (Testnet V4)
      else if core_arg = ''signet'' then Ok Signet
      else if core_arg = ''regtest'' then Ok Regtest
      else Err core_arg)"

fun as_display_str :: "network \<Rightarrow> string" where
  "as_display_str Bitcoin = ''bitcoin''"
| "as_display_str (Testnet V3) = ''testnet''"
| "as_display_str (Testnet V4) = ''testnet4''"
| "as_display_str Signet = ''signet''"
| "as_display_str Regtest = ''regtest''"

definition network_from_str :: "string \<Rightarrow> (string, network) res" where
  "network_from_str s =
     (if s = ''bitcoin'' then Ok Bitcoin
      else if s = ''testnet'' then Ok (Testnet V3)
      else if s = ''testnet4'' then Ok (Testnet V4)
      else if s = ''signet'' then Ok Signet
      else if s = ''regtest'' then Ok Regtest
      else Err s)"

lemma from_core_arg_iff: "from_core_arg s = Ok n \<longleftrightarrow> s = to_core_arg n"
  by (cases n rule: to_core_arg.cases) (auto simp: from_core_arg_def)

lemma network_from_str_iff: "network_from_str s = Ok n \<longleftrightarrow> s = as_display_str n"
  by (cases n rule: as_display_str.cases) (auto simp: network_from_str_def)

end
