(* ===== verification/Pow.thy ===== *)
theory Pow
  imports Target Block_Header Networks
begin

section \<open>Proof of work\<close>

text \<open>
  \<open>bitcoin/src/network/params.rs\<close>, the consensus parameters of the networks, and \<open>bitcoin/src/pow.rs\<close>:
  the test of a hash against a target, the difficulty, and the target of the next block. The
  argument \<open>debug\<close> says whether overflow checks are compiled in. A block height is a
  \<open>u32\<close>, a time span an \<open>i64\<close> whose values stay far from the bounds and so an \<open>int\<close>.
\<close>

subsection \<open>Consensus parameters\<close>

record params =
  p_network :: network
  bip16_time :: u32
  bip34_height :: u32
  bip65_height :: u32
  bip66_height :: u32
  enforce_bip94 :: bool
  rule_change_activation_threshold :: u32
  miner_confirmation_window :: u32
  pow_limit :: target
  max_attainable_target :: target
  pow_target_spacing :: u32
  pow_target_timespan :: u32
  allow_min_difficulty_blocks :: bool
  no_pow_retargeting :: bool

definition MAX_ATTAINABLE_MAINNET :: target where "MAX_ATTAINABLE_MAINNET = U256 (push_bit 80 0xFFFF) 0"
definition MAX_ATTAINABLE_TESTNET :: target where "MAX_ATTAINABLE_TESTNET = U256 (push_bit 80 0xFFFF) 0"
definition MAX_ATTAINABLE_REGTEST :: target where "MAX_ATTAINABLE_REGTEST = U256 (push_bit 96 0x7FFFFF00) 0"
definition MAX_ATTAINABLE_SIGNET :: target where "MAX_ATTAINABLE_SIGNET = U256 (push_bit 80 0x0377AE00) 0"

definition MAINNET :: params where
  "MAINNET = \<lparr> p_network = Bitcoin, bip16_time = 1333238400, bip34_height = 227931, bip65_height = 388381,
     bip66_height = 363725, enforce_bip94 = False, rule_change_activation_threshold = 1916,
     miner_confirmation_window = 2016, pow_limit = MAX_ATTAINABLE_MAINNET,
     max_attainable_target = MAX_ATTAINABLE_MAINNET, pow_target_spacing = 10 * 60,
     pow_target_timespan = 14 * 24 * 60 * 60, allow_min_difficulty_blocks = False, no_pow_retargeting = False \<rparr>"

definition TESTNET3 :: params where
  "TESTNET3 = \<lparr> p_network = Testnet V3, bip16_time = 1333238400, bip34_height = 21111, bip65_height = 581885,
     bip66_height = 330776, enforce_bip94 = False, rule_change_activation_threshold = 1512,
     miner_confirmation_window = 2016, pow_limit = MAX_ATTAINABLE_TESTNET,
     max_attainable_target = MAX_ATTAINABLE_TESTNET, pow_target_spacing = 10 * 60,
     pow_target_timespan = 14 * 24 * 60 * 60, allow_min_difficulty_blocks = True, no_pow_retargeting = False \<rparr>"

definition TESTNET4 :: params where
  "TESTNET4 = \<lparr> p_network = Testnet V4, bip16_time = 1333238400, bip34_height = 1, bip65_height = 1,
     bip66_height = 1, enforce_bip94 = True, rule_change_activation_threshold = 1512,
     miner_confirmation_window = 2016, pow_limit = MAX_ATTAINABLE_TESTNET,
     max_attainable_target = MAX_ATTAINABLE_TESTNET, pow_target_spacing = 10 * 60,
     pow_target_timespan = 14 * 24 * 60 * 60, allow_min_difficulty_blocks = True, no_pow_retargeting = False \<rparr>"

definition SIGNET :: params where
  "SIGNET = \<lparr> p_network = Signet, bip16_time = 1333238400, bip34_height = 1, bip65_height = 1,
     bip66_height = 1, enforce_bip94 = False, rule_change_activation_threshold = 1916,
     miner_confirmation_window = 2016, pow_limit = MAX_ATTAINABLE_SIGNET,
     max_attainable_target = MAX_ATTAINABLE_SIGNET, pow_target_spacing = 10 * 60,
     pow_target_timespan = 14 * 24 * 60 * 60, allow_min_difficulty_blocks = False, no_pow_retargeting = False \<rparr>"

definition REGTEST :: params where
  "REGTEST = \<lparr> p_network = Regtest, bip16_time = 1333238400, bip34_height = 100000000, bip65_height = 1351,
     bip66_height = 1251, enforce_bip94 = False, rule_change_activation_threshold = 108,
     miner_confirmation_window = 144, pow_limit = MAX_ATTAINABLE_REGTEST,
     max_attainable_target = MAX_ATTAINABLE_REGTEST, pow_target_spacing = 10 * 60,
     pow_target_timespan = 14 * 24 * 60 * 60, allow_min_difficulty_blocks = True, no_pow_retargeting = True \<rparr>"

fun params_new :: "network \<Rightarrow> params" where
  "params_new Bitcoin = MAINNET"
| "params_new (Testnet V3) = TESTNET3"
| "params_new (Testnet V4) = TESTNET4"
| "params_new Signet = SIGNET"
| "params_new Regtest = REGTEST"

definition difficulty_adjustment_interval :: "params \<Rightarrow> ('e, u32) res" where
  "difficulty_adjustment_interval params =
     (if pow_target_spacing params = 0 then Panic
      else Ok (pow_target_timespan params div pow_target_spacing params))"

lemma params_new_timespan [simp]:
  "pow_target_timespan (params_new n) = 1209600" "pow_target_spacing (params_new n) = 600"
  "difficulty_adjustment_interval (params_new n) = Ok 2016"
  by (induction n rule: params_new.induct;
      simp add: MAINNET_def TESTNET3_def TESTNET4_def SIGNET_def REGTEST_def difficulty_adjustment_interval_def)+

subsection \<open>Targets\<close>

text \<open>The conversions go through the little-endian bytes of the newtype.\<close>

definition to_inner :: "target \<Rightarrow> u256" where "to_inner t = u256_from_le_bytes (u256_to_le_bytes t)"
definition from_inner :: "u256 \<Rightarrow> target" where "from_inner x = u256_from_le_bytes (u256_to_le_bytes x)"

lemma inner [simp]: "to_inner t = t" "from_inner x = x"
  by (simp_all add: to_inner_def from_inner_def from_to_le_u256)

definition is_met_by :: "target \<Rightarrow> bytes \<Rightarrow> bool" where
  "is_met_by t hash \<longleftrightarrow> u256_from_le_bytes hash \<le> to_inner t"

definition difficulty_with_max :: "target \<Rightarrow> target \<Rightarrow> (unit, u128) res" where
  "difficulty_with_max t max_target =
     (let self_inner = to_inner t in
      if self_inner = u256_ZERO then Panic
      else res_bind (u256_div (to_inner max_target) self_inner) (\<lambda>d. Ok (saturating_to_u128 d)))"

definition difficulty :: "target \<Rightarrow> params \<Rightarrow> (unit, u128) res" where
  "difficulty t params = difficulty_with_max t (max_attainable_target params)"

definition min_transition_threshold :: "target \<Rightarrow> target" where
  "min_transition_threshold t = from_inner (u256_shr (to_inner t) 2)"

definition max_transition_threshold_unchecked :: "target \<Rightarrow> target" where
  "max_transition_threshold_unchecked t = from_inner (u256_shl (to_inner t) 2)"

definition max_transition_threshold :: "target \<Rightarrow> params \<Rightarrow> target" where
  "max_transition_threshold t params = min (max_transition_threshold_unchecked t) (max_attainable_target params)"

lemma val_min: "val (min x y) = min (val x) (val y)"
  by (simp add: min_def val_le_iff)

lemma val_transition_thresholds:
  "val (min_transition_threshold t) = val t div 4"
  "val (max_transition_threshold_unchecked t) = val t * 4 mod 2 ^ 256"
  by (simp_all add: min_transition_threshold_def max_transition_threshold_unchecked_def val_shr val_shl)

subsection \<open>Retargeting\<close>

text \<open>\<open>i64::clamp\<close> panics when the bounds are out of order.\<close>

definition clamp :: "int \<Rightarrow> int \<Rightarrow> int \<Rightarrow> ('e, int) res" where
  "clamp x low high = (if \<not> low \<le> high then Panic else Ok (if x < low then low else if high < x then high else x))"

definition from_next_work_required :: "compact_target \<Rightarrow> int \<Rightarrow> params \<Rightarrow> (unit, compact_target) res" where
  "from_next_work_required c0 timespan params =
     (if no_pow_retargeting params then Ok c0
      else
        let min_timespan = drop_bit 2 (pow_target_timespan params);
            max_timespan = push_bit 2 (pow_target_timespan params) in
        res_bind (clamp timespan (uint min_timespan) (uint max_timespan)) (\<lambda>actual_timespan.
          let prev_target = target_from_compact c0;
              maximum_retarget = max_transition_threshold prev_target params;
              retarget = to_inner prev_target;
              (retarget, _) = mul_u64 retarget (word_of_int actual_timespan) in
          res_bind (u256_div retarget (u256_of_u128 (ucast (pow_target_timespan params)))) (\<lambda>retarget.
            let retarget = from_inner retarget in
            if maximum_retarget \<le> retarget then Ok (to_compact_lossy maximum_retarget)
            else Ok (to_compact_lossy retarget))))"

definition from_header_difficulty_adjustment :: "header \<Rightarrow> header \<Rightarrow> params \<Rightarrow> (unit, compact_target) res" where
  "from_header_difficulty_adjustment last_epoch_boundary current params =
     (let timespan = uint (h_time current) - uint (h_time last_epoch_boundary);
          c = (if enforce_bip94 params then bits last_epoch_boundary else bits current) in
      from_next_work_required c timespan params)"

text \<open>The new target as a number: the old one in proportion to the time it took, within a factor of four
  and below the limit of the network.\<close>

definition clamped_timespan :: "int \<Rightarrow> nat \<Rightarrow> nat" where
  "clamped_timespan timespan t = nat (max (int (t div 4)) (min (int (4 * t)) timespan))"

lemma clamped_timespan_le: "clamped_timespan s n \<le> 4 * n"
proof -
  have "n div 4 \<le> 4 * n" by simp
  then have "int (n div 4) \<le> int (4 * n)" by linarith
  then show ?thesis unfolding clamped_timespan_def nat_le_iff by linarith
qed

lemma clamp_timespan: "clamp s (int (n div 4)) (int (4 * n)) = Ok (int (clamped_timespan s n))"
proof -
  have "int (n div 4) \<le> int (4 * n)" by linarith
  then show ?thesis unfolding clamp_def clamped_timespan_def by auto
qed

lemma from_next_work_required_val:
  assumes "\<not> no_pow_retargeting params"
    and t: "0 < unat (pow_target_timespan params)" "unat (pow_target_timespan params) < 2 ^ 30"
    and small: "val (target_from_compact c0) * (4 * unat (pow_target_timespan params)) < 2 ^ 256"
  shows "\<exists>x. from_next_work_required c0 timespan params = Ok (to_compact_lossy x)
     \<and> val x = min (val (max_attainable_target params))
                 (val (target_from_compact c0) * clamped_timespan timespan (unat (pow_target_timespan params))
                    div unat (pow_target_timespan params))"
proof -
  let ?ts = "unat (pow_target_timespan params)" and ?p = "target_from_compact c0"
  let ?c = "clamped_timespan timespan ?ts"
  have c_le: "?c \<le> 4 * ?ts" by (rule clamped_timespan_le)
  then have c_small: "?c < 2 ^ 32" using t(2) by simp
  have bounds: "uint (drop_bit 2 (pow_target_timespan params)) = int (?ts div 4)"
    "uint (push_bit 2 (pow_target_timespan params)) = int (4 * ?ts)"
  proof -
    have "unat (push_bit 2 (pow_target_timespan params)) = ?ts * 4 mod 2 ^ 32"
      unfolding unsigned_push_bit_eq by (simp add: take_bit_eq_mod push_bit_eq_mult)
    then show "uint (push_bit 2 (pow_target_timespan params)) = int (4 * ?ts)"
      unfolding uint_nat using t(2) by simp
    show "uint (drop_bit 2 (pow_target_timespan params)) = int (?ts div 4)"
      unfolding uint_nat unat_drop_bit by simp
  qed
  have clamp: "clamp timespan (uint (drop_bit 2 (pow_target_timespan params))) (uint (push_bit 2 (pow_target_timespan params)))
      = (Ok (int ?c) :: (unit, int) res)"
    unfolding bounds by (rule clamp_timespan)
  have mul: "val (fst (mul_u64 ?p (word_of_nat ?c))) = val ?p * ?c"
  proof -
    have "unat (word_of_nat ?c :: u64) = ?c" using c_small by (simp add: unat_of_nat)
    moreover have "val ?p * ?c < 2 ^ 256" by (rule le_less_trans [OF mult_le_mono2 [OF c_le] small])
    ultimately show ?thesis by (simp only: mul_u64 mod_less)
  qed
  let ?max = "max_transition_threshold ?p params"
  have max: "val ?max = min (val ?p * 4) (val (max_attainable_target params))"
  proof -
    have "val ?p * 4 \<le> val ?p * (4 * ?ts)" using t(1) by simp
    then have "val ?p * 4 < 2 ^ 256" using small by (rule le_less_trans)
    then show ?thesis by (simp only: max_transition_threshold_def val_min val_transition_thresholds mod_less)
  qed
  have ts: "val (u256_of_u128 (ucast (pow_target_timespan params))) = ?ts"
    unfolding val_constants by (rule unat_ucast_up) simp
  obtain q where q: "u256_div (fst (mul_u64 ?p (word_of_nat ?c))) (u256_of_u128 (ucast (pow_target_timespan params)))
        = (Ok q :: (unit, u256) res)" "val q = val ?p * ?c div ?ts"
    using u256_div [of "u256_of_u128 (ucast (pow_target_timespan params))" "fst (mul_u64 ?p (word_of_nat ?c))", where ?'e = unit] t(1)
    unfolding ts mul by auto
  have res: "from_next_work_required c0 timespan params = Ok (to_compact_lossy (if ?max \<le> q then ?max else q))"
    using assms(1) unfolding from_next_work_required_def Let_def clamp
    by (simp add: case_prod_unfold q(1))
  have "val ?p * ?c div ?ts \<le> val ?p * 4"
  proof -
    have "val ?p * ?c \<le> val ?p * 4 * ?ts" using c_le by simp
    then show ?thesis using t(1) by (metis div_le_mono nonzero_mult_div_cancel_right not_gr_zero)
  qed
  then have "val (if ?max \<le> q then ?max else q) = min (val (max_attainable_target params)) (val ?p * ?c div ?ts)"
    unfolding val_le_iff q(2) max by (simp add: max q(2) min_def)
  then show ?thesis using res by blast
qed

subsection \<open>The target of the next block\<close>

text \<open>The heights are \<open>u32\<close>; \<open>get_block_header_by_height\<close> is a function of the height.\<close>

definition height_saturating_add :: "u32 \<Rightarrow> u32 \<Rightarrow> u32" where
  "height_saturating_add h n = (if 2 ^ 32 \<le> unat h + unat n then - 1 else h + n)"

definition height_saturating_sub :: "u32 \<Rightarrow> u32 \<Rightarrow> u32" where
  "height_saturating_sub h n = (if h < n then 0 else h - n)"

definition is_retarget_height :: "u32 \<Rightarrow> u32 \<Rightarrow> (unit, bool) res" where
  "is_retarget_height height adjustment_interval =
     (if adjustment_interval = 0 then Panic else Ok (height mod adjustment_interval = 0))"

definition GENESIS_PREVIOUS_BLOCK_HASH :: bytes where "GENESIS_PREVIOUS_BLOCK_HASH = replicate 32 0"

text \<open>\<open>while header.prev_blockhash != \<dots> && \<dots>\<close>, with the short-circuit evaluation of the conjunction.\<close>

function min_difficulty_loop ::
  "(u32 \<Rightarrow> ('e, header) res) \<Rightarrow> u32 \<Rightarrow> u32 \<Rightarrow> header \<Rightarrow> u32 \<Rightarrow> ('e, compact_target) res" where
  "min_difficulty_loop headers limit adjustment_interval header height =
     (if prev_blockhash header = GENESIS_PREVIOUS_BLOCK_HASH then Ok (bits header)
      else if adjustment_interval = 0 then Panic
      else if height mod adjustment_interval = 0 then Ok (bits header)
      else if bits header \<noteq> limit then Ok (bits header)
      else
        let height = height_saturating_sub height 1 in
        (case headers height of
           Ok header \<Rightarrow> min_difficulty_loop headers limit adjustment_interval header height
         | Err e \<Rightarrow> Err e | Panic \<Rightarrow> Panic | Diverge \<Rightarrow> Diverge))"
  by pat_completeness auto
termination
proof (relation "measure (\<lambda>(headers, limit, n, header, height). unat height)")
  fix headers :: "u32 \<Rightarrow> ('e, header) res" and limit n height height' :: u32 and header header' :: header
  assume "height mod n \<noteq> 0" "height' = height_saturating_sub height 1"
  then have "height \<noteq> 0" by auto
  then have "unat height' < unat height"
    using \<open>height' = _\<close> measure_unat [of height] by (simp add: height_saturating_sub_def word_less_nat_alt unat_eq_0)
  then show "((headers, limit, n, header', height'), headers, limit, n, header, height)
      \<in> measure (\<lambda>(headers, limit, n, header, height). unat height)" by simp
qed simp

declare min_difficulty_loop.simps [simp del]

definition next_target_after ::
  "bool \<Rightarrow> header \<Rightarrow> u32 \<Rightarrow> params \<Rightarrow> u32 option \<Rightarrow> (u32 \<Rightarrow> ('e, header) res) \<Rightarrow> ('e, compact_target) res" where
  "next_target_after debug current_header current_height params new_block_timestamp get_block_header_by_height =
     res_bind (difficulty_adjustment_interval params) (\<lambda>adjustment_interval.
     res_bind (lift_unit (is_retarget_height (height_saturating_add current_height 1) adjustment_interval)) (\<lambda>retarget.
       if \<not> retarget then
         (if allow_min_difficulty_blocks params then
            (case new_block_timestamp of
               None \<Rightarrow> Panic
             | Some timestamp \<Rightarrow>
                 let limit = to_compact_lossy (max_attainable_target params) in
                 if debug \<and> 2 ^ 32 \<le> unat (h_time current_header) + unat (pow_target_spacing params) * 2 then Panic
                 else if h_time current_header + pow_target_spacing params * 2 < timestamp then Ok limit
                 else min_difficulty_loop get_block_header_by_height limit adjustment_interval current_header current_height)
          else Ok (bits current_header))
       else
         let back_step = adjustment_interval - 1;
             height_first = height_saturating_sub current_height back_step in
         res_bind (get_block_header_by_height height_first) (\<lambda>block_first.
           lift_unit (from_header_difficulty_adjustment block_first current_header params))))"

subsection \<open>Properties\<close>

lemma difficulty_val:
  "difficulty_with_max t m = Panic \<longleftrightarrow> val t = 0"
  "val t \<noteq> 0 \<Longrightarrow> \<exists>d. difficulty_with_max t m = Ok d \<and> unat d = min (val m div val t) (2 ^ 128 - 1)"
proof -
  have zero: "t = u256_ZERO \<longleftrightarrow> val t = 0" by (metis val_constants(1) val_inject)
  show ok: "\<exists>d. difficulty_with_max t m = Ok d \<and> unat d = min (val m div val t) (2 ^ 128 - 1)" if "val t \<noteq> 0"
    using that u256_div [OF that, of m, where ?'e = unit]
    by (auto simp: difficulty_with_max_def Let_def zero unat_saturating)
  show "difficulty_with_max t m = Panic \<longleftrightarrow> val t = 0"
    using ok by (cases "val t = 0") (auto simp: difficulty_with_max_def Let_def zero)
qed

lemma is_met_by_val: "length hash = 32 \<Longrightarrow> is_met_by t hash \<longleftrightarrow> nat_of_le hash \<le> val t"
  by (simp add: is_met_by_def val_le_iff val_from_le_bytes)

text \<open>The limits of the networks; that of signet is close to the largest for which the product cannot overflow.\<close>

lemma unat_network_timespan: "unat (1209600 :: u32) = 1209600"
  by simp

lemma val_max_attainable: "val (max_attainable_target (params_new n)) \<le> 0x0377AE00 * 2 ^ 208 \<or> n = Regtest"
  by (induction n rule: params_new.induct)
    (simp_all add: MAINNET_def TESTNET3_def TESTNET4_def SIGNET_def MAX_ATTAINABLE_MAINNET_def
      MAX_ATTAINABLE_TESTNET_def MAX_ATTAINABLE_SIGNET_def val_def)

lemma no_pow_retargeting_network: "no_pow_retargeting (params_new n) \<longleftrightarrow> n = Regtest"
  by (induction n rule: params_new.induct)
    (simp_all add: MAINNET_def TESTNET3_def TESTNET4_def SIGNET_def REGTEST_def)

text \<open>Property C27. On every network that retargets, a target within the limit of the network is replaced by the
  target in proportion to the time the period took, which stays between a quarter and four times the old
  one and within the limit.\<close>

theorem retarget_bounded:
  assumes "n \<noteq> Regtest" and "val (target_from_compact c0) \<le> val (max_attainable_target (params_new n))"
  shows "\<exists>x. from_next_work_required c0 timespan (params_new n) = Ok (to_compact_lossy x)
     \<and> val x = min (val (max_attainable_target (params_new n)))
                 (val (target_from_compact c0) * clamped_timespan timespan 1209600 div 1209600)
     \<and> val (target_from_compact c0) div 4 \<le> val x \<and> val x \<le> 4 * val (target_from_compact c0)"
proof -
  let ?t = "val (target_from_compact c0)" and ?m = "val (max_attainable_target (params_new n))"
  let ?c = "clamped_timespan timespan 1209600"
  have "?t \<le> 0x0377AE00 * 2 ^ 208" using assms val_max_attainable [of n] by (auto elim: le_trans)
  then have small: "?t * (4 * 1209600) < 2 ^ 256" by simp
  obtain x where x: "from_next_work_required c0 timespan (params_new n) = Ok (to_compact_lossy x)"
      "val x = min ?m (?t * ?c div 1209600)"
    using from_next_work_required_val [of "params_new n" c0 timespan] small assms(1)
    unfolding params_new_timespan unat_network_timespan by (auto simp: no_pow_retargeting_network)
  have "1209600 div 4 \<le> ?c" by (simp add: clamped_timespan_def)
  then have "?t * 302400 \<le> ?t * ?c" by simp
  then have "?t * 302400 div 1209600 \<le> ?t * ?c div 1209600" by (rule div_le_mono)
  then have lower: "?t div 4 \<le> ?t * ?c div 1209600" by simp
  have "?t * ?c \<le> ?t * (4 * 1209600)" by (intro mult_le_mono2 clamped_timespan_le)
  then have "?t * ?c div 1209600 \<le> ?t * (4 * 1209600) div 1209600" by (rule div_le_mono)
  then have upper: "?t * ?c div 1209600 \<le> 4 * ?t" by simp
  have "?t div 4 \<le> ?m" using assms(2) by (meson div_le_dividend le_trans)
  then show ?thesis using x lower upper by auto
qed

theorem retarget_bounded_witness:
  "\<exists>x. from_next_work_required 0x1d00ffff 1000000 MAINNET = Ok (to_compact_lossy x)
     \<and> val x \<le> 4 * (0xffff * 256 ^ 26)"
proof -
  have t: "val (target_from_compact 0x1d00ffff) = 0xffff * 256 ^ 26"
    by (simp add: val_target_from_compact compact_mantissa_def compact_exponent_def)
  then have "val (target_from_compact 0x1d00ffff) \<le> val (max_attainable_target (params_new Bitcoin))"
    by (simp add: MAINNET_def MAX_ATTAINABLE_MAINNET_def val_def)
  from retarget_bounded [OF _ this, of 1000000] show ?thesis
    unfolding t by auto
qed

lemma min_difficulty_loop_Ok:
  assumes chain: "\<And>k. headers k = Ok (block_at k)" and n: "n \<noteq> 0"
  shows "\<exists>k. min_difficulty_loop headers limit n (block_at height) height = Ok (bits (block_at (word_of_nat k)))
     \<and> k \<le> unat height \<and> k div unat n = unat height div unat n
     \<and> (\<forall>j. k < j \<and> j \<le> unat height \<longrightarrow> bits (block_at (word_of_nat j)) = limit)
     \<and> (k mod unat n = 0 \<or> bits (block_at (word_of_nat k)) \<noteq> limit
         \<or> prev_blockhash (block_at (word_of_nat k)) = GENESIS_PREVIOUS_BLOCK_HASH)"
proof (induction "unat height" arbitrary: height rule: less_induct)
  case less
  let ?stop = "unat height mod unat n = 0 \<or> bits (block_at height) \<noteq> limit \<or> prev_blockhash (block_at height) = GENESIS_PREVIOUS_BLOCK_HASH"
  have mod: "height mod n = 0 \<longleftrightarrow> unat height mod unat n = 0"
    by (simp add: word_unat_eq_iff unat_mod)
  have self: "word_of_nat (unat height) = height" by simp
  show ?case
  proof (cases ?stop)
    case True
    then have "min_difficulty_loop headers limit n (block_at height) height = Ok (bits (block_at height))"
      using n by (subst min_difficulty_loop.simps) (auto simp: mod)
    then show ?thesis using True by (intro exI [of _ "unat height"]) auto
  next
    case False
    let ?h = "height - 1"
    have nonzero: "height \<noteq> 0" using False by auto
    have h: "unat ?h = unat height - 1" "unat ?h < unat height"
      using nonzero measure_unat [of height] by (simp_all add: unat_minus_one)
    have sub: "height_saturating_sub height 1 = ?h"
      using nonzero by (simp add: height_saturating_sub_def)
    have step: "min_difficulty_loop headers limit n (block_at height) height = min_difficulty_loop headers limit n (block_at ?h) ?h"
      using False n chain sub by (subst min_difficulty_loop.simps) (simp add: mod Let_def)
    obtain k where k: "min_difficulty_loop headers limit n (block_at ?h) ?h = Ok (bits (block_at (word_of_nat k)))"
      "k \<le> unat ?h" "k div unat n = unat ?h div unat n"
      "\<forall>j. k < j \<and> j \<le> unat ?h \<longrightarrow> bits (block_at (word_of_nat j)) = limit"
      "k mod unat n = 0 \<or> bits (block_at (word_of_nat k)) \<noteq> limit \<or> prev_blockhash (block_at (word_of_nat k)) = GENESIS_PREVIOUS_BLOCK_HASH"
      using less [OF h(2)] by (elim exE conjE) (rule that)
    have "unat ?h div unat n = unat height div unat n"
    proof -
      obtain m where m: "unat height = Suc m" using h by (cases "unat height") auto
      show ?thesis using False div_Suc [of m "unat n"] unfolding h(1) m by (simp split: if_splits)
    qed
    moreover have "\<forall>j. k < j \<and> j \<le> unat height \<longrightarrow> bits (block_at (word_of_nat j)) = limit"
    proof (intro allI impI)
      fix j assume j: "k < j \<and> j \<le> unat height"
      show "bits (block_at (word_of_nat j)) = limit"
      proof (cases "j = unat height")
        case True
        then show ?thesis using False self by simp
      next
        case not_last: False
        then show ?thesis using k(4) j h(1) by auto
      qed
    qed
    moreover have "k \<le> unat height" using k(2) h(2) by simp
    ultimately show ?thesis unfolding step using k by (intro exI [of _ k]) simp
  qed
qed

text \<open>Property C28. The walk back for a block of minimal difficulty ends; it yields the compact target of the first block, going
  back in the same period, that does not have the minimal difficulty, starts the period or is the first of the chain.\<close>

theorem min_difficulty_walk:
  assumes chain: "\<And>k. headers k = Ok (block_at k)" and n: "n \<noteq> 0"
  shows "\<exists>k. min_difficulty_loop headers limit n (block_at height) height = Ok (bits (block_at (word_of_nat k)))
     \<and> k \<le> unat height \<and> k div unat n = unat height div unat n
     \<and> (\<forall>j. k < j \<and> j \<le> unat height \<longrightarrow> bits (block_at (word_of_nat j)) = limit)
     \<and> (k mod unat n = 0 \<or> bits (block_at (word_of_nat k)) \<noteq> limit
         \<or> prev_blockhash (block_at (word_of_nat k)) = GENESIS_PREVIOUS_BLOCK_HASH)"
  using chain n by (rule min_difficulty_loop_Ok)

definition example_header :: header where
  "example_header = \<lparr> h_version = 1, prev_blockhash = replicate 32 1, merkle_root = replicate 32 0, h_time = 7,
     bits = 0x1d00ffff, nonce = 0 \<rparr>"

theorem min_difficulty_walk_witness:
  "\<exists>k \<le> (5 :: nat). min_difficulty_loop (\<lambda>_. Ok example_header :: (unit, header) res) 0x1d00ffff 2016 example_header 5
      = Ok 0x1d00ffff \<and> k mod 2016 = 0"
proof -
  have "prev_blockhash example_header \<noteq> GENESIS_PREVIOUS_BLOCK_HASH"
    by (simp add: example_header_def GENESIS_PREVIOUS_BLOCK_HASH_def)
  moreover have "bits example_header = 0x1d00ffff" by (simp add: example_header_def)
  ultimately show ?thesis
    using min_difficulty_walk [of "\<lambda>_. Ok example_header :: (unit, header) res" "\<lambda>_. example_header" 2016 "0x1d00ffff" 5]
    by auto
qed

lemma network_clamp: "\<exists>c. clamp timespan (uint (drop_bit 2 (1209600 :: u32))) (uint (push_bit 2 (1209600 :: u32))) = Ok c"
  by (simp add: clamp_def drop_bit_eq_div push_bit_eq_mult)

lemma from_next_work_required_Ok: "\<exists>c. from_next_work_required c0 timespan (params_new n) = Ok c"
proof -
  have ts: "val (u256_of_u128 (ucast (1209600 :: u32))) \<noteq> 0" by simp
  obtain a where a: "clamp timespan (uint (drop_bit 2 (1209600 :: u32))) (uint (push_bit 2 (1209600 :: u32))) = (Ok a :: (unit, int) res)"
    using network_clamp by blast
  obtain q where "u256_div (fst (mul_u64 (to_inner (target_from_compact c0)) (word_of_int a))) (u256_of_u128 (ucast (1209600 :: u32)))
      = (Ok q :: (unit, u256) res)"
    using u256_div [OF ts, where ?'e = unit] by blast
  then show ?thesis
    unfolding from_next_work_required_def params_new_timespan Let_def a res_bind.simps case_prod_unfold by simp
qed

text \<open>Computing the target of the next block always ends with a result, in every network, when every
  header asked for is found, a time stamp is given where the network allows blocks of minimal difficulty,
  and the header's time is not within twenty minutes of the end of the 32-bit range.\<close>

theorem next_target_total:
  assumes chain: "\<And>k. headers k = Ok (block_at k)"
    and time: "allow_min_difficulty_blocks (params_new n) \<Longrightarrow>
      timestamp \<noteq> None \<and> unat (h_time (block_at height)) + 1200 < 2 ^ 32"
  shows "\<exists>c. next_target_after debug (block_at height) height (params_new n) timestamp headers = Ok c"
proof -
  have retarget: "is_retarget_height h 2016 = Ok (h mod 2016 = 0)" for h by (simp add: is_retarget_height_def)
  obtain c where adjust: "from_header_difficulty_adjustment (block_at (height_saturating_sub height (2016 - 1))) (block_at height) (params_new n) = Ok c"
    using from_next_work_required_Ok unfolding from_header_difficulty_adjustment_def Let_def by blast
  have n: "(2016 :: u32) \<noteq> 0" by simp
  show ?thesis
  proof (cases "height_saturating_add height 1 mod 2016 = 0")
    case True
    then show ?thesis
      unfolding next_target_after_def params_new_timespan res_bind.simps retarget lift_unit.simps Let_def chain adjust by simp
  next
    case no: False
    show ?thesis
    proof (cases "allow_min_difficulty_blocks (params_new n)")
      case True
      then obtain t where t: "timestamp = Some t" "unat (h_time (block_at height)) + 1200 < 2 ^ 32" using time by auto
      obtain k where k: "min_difficulty_loop headers (to_compact_lossy (max_attainable_target (params_new n))) 2016 (block_at height) height
          = Ok (bits (block_at (word_of_nat k)))"
        using min_difficulty_loop_Ok [of headers block_at 2016 "to_compact_lossy (max_attainable_target (params_new n))" height, OF chain n]
        by (elim exE conjE) (rule that)
      show ?thesis
        using no True t(2)
        unfolding next_target_after_def params_new_timespan res_bind.simps retarget lift_unit.simps Let_def t(1) option.case k
        by simp
    next
      case False
      then show ?thesis
        using no unfolding next_target_after_def params_new_timespan res_bind.simps retarget lift_unit.simps by simp
    qed
  qed
qed

theorem next_target_total_witness:
  "\<exists>c. next_target_after True example_header 2015 (params_new (Testnet V4)) (Some 9) (\<lambda>_. Ok example_header :: (unit, header) res) = Ok c"
  using next_target_total [of "\<lambda>_. Ok example_header :: (unit, header) res" "\<lambda>_. example_header" "Testnet V4" "Some 9" 2015 True]
  by (simp add: example_header_def)

text \<open>A wrap of the time stamp: in a build without overflow checks, a header whose time is within twenty minutes of the
  end of the range lets a block of any later or earlier time be mined at minimal difficulty.\<close>

lemma min_difficulty_time_wraps:
  "next_target_after False (example_header\<lparr>h_time := - 1\<rparr>) 1 TESTNET3 (Some 1200) headers
     = Ok (to_compact_lossy (max_attainable_target TESTNET3))"
  by (simp add: next_target_after_def TESTNET3_def difficulty_adjustment_interval_def is_retarget_height_def
      height_saturating_add_def)

end
