(* ===== verification/Decimal_Text.thy ===== *)
theory Decimal_Text
  imports Prelude
begin

section \<open>Numbers as text\<close>

text \<open>
  The positional notation of a number, as the formatting of the standard library writes it, and the number that a
  string of decimal digits denotes. A string is its UTF-8 bytes.
\<close>

subsection \<open>Positional notation\<close>

function digits :: "nat \<Rightarrow> nat \<Rightarrow> bytes" where
  "digits b n = (if n = 0 \<or> b < 2 then [] else digits b (n div b) @ [0x30 + word_of_nat (n mod b)])"
  by pat_completeness auto
termination by (relation "measure snd") auto

declare digits.simps [simp del]

lemma digits_zero [simp]: "digits b 0 = []"
  by (simp add: digits.simps)

lemma digits_step: "2 \<le> b \<Longrightarrow> 0 < n \<Longrightarrow> digits b n = digits b (n div b) @ [0x30 + word_of_nat (n mod b)]"
  by (subst digits.simps) simp

subsection \<open>The number of a string of digits\<close>

definition is_digit :: "u8 \<Rightarrow> bool" where "is_digit c \<longleftrightarrow> 0x30 \<le> c \<and> c \<le> 0x39"

definition decimal :: "bytes \<Rightarrow> nat" where
  "decimal s = foldl (\<lambda>n c. n * 10 + unat (c - 0x30)) 0 s"

lemma decimal_Nil [simp]: "decimal [] = 0"
  by (simp add: decimal_def)

lemma decimal_snoc: "decimal (s @ [c]) = decimal s * 10 + unat (c - 0x30)"
  by (simp add: decimal_def)

lemma decimal_foldl: "foldl (\<lambda>n c. n * 10 + unat (c - 0x30)) m s = m * 10 ^ length s + decimal s"
  by (induction s rule: rev_induct) (simp_all add: decimal_def algebra_simps)

lemma decimal_append: "decimal (s @ t) = decimal s * 10 ^ length t + decimal t"
  using decimal_foldl [of "decimal s" t] by (simp add: decimal_def)

lemma decimal_Cons: "decimal (c # s) = unat (c - 0x30) * 10 ^ length s + decimal s"
  using decimal_append [of "[c]" s] by (simp add: decimal_def)

lemma digit_bound: "is_digit c \<Longrightarrow> unat (c - 0x30) < 10"
proof -
  assume "is_digit c"
  then have "unat (c - 0x30) = unat c - 48" "unat c \<le> 57"
    by (simp_all add: is_digit_def unat_sub word_le_nat_alt)
  then show ?thesis by simp
qed

lemma decimal_bound: "list_all is_digit s \<Longrightarrow> decimal s < 10 ^ length s"
proof (induction s)
  case (Cons c s)
  then have "unat (c - 0x30) + 1 \<le> 10" using digit_bound [of c] by simp
  then have "(unat (c - 0x30) + 1) * 10 ^ length s \<le> 10 * 10 ^ length s" by (rule mult_le_mono1)
  then have "unat (c - 0x30) * 10 ^ length s + 10 ^ length s \<le> 10 ^ length (c # s)" by simp
  moreover have "decimal s < 10 ^ length s" using Cons by simp
  ultimately show ?case unfolding decimal_Cons by linarith
qed simp

lemma digits_are_digits: "b \<le> 10 \<Longrightarrow> list_all is_digit (digits b n)"
proof (induction b n rule: digits.induct)
  case (1 b n)
  show ?case
  proof (cases "n = 0 \<or> b < 2")
    case True
    then show ?thesis by (subst digits.simps) simp
  next
    case False
    have "\<forall>d \<in> set [0..<10]. is_digit (0x30 + word_of_nat d)" by (simp add: upt_rec is_digit_def)
    moreover have "n mod b < 10" using False 1(2) mod_less_divisor [of b n] by linarith
    ultimately have "is_digit (0x30 + word_of_nat (n mod b))" by simp
    then show ?thesis using False 1 by (subst digits.simps) simp
  qed
qed

lemma decimal_digits: "decimal (digits 10 n) = n"
proof (induction n rule: less_induct)
  case (less n)
  show ?case
  proof (cases "n = 0")
    case False
    then have "decimal (digits 10 (n div 10)) = n div 10" by (intro less) simp
    moreover have "unat ((0x30 :: u8) + word_of_nat (n mod 10) - 0x30) = n mod 10"
      by (simp add: unat_word_of_nat_u8)
    ultimately show ?thesis using False by (simp add: digits_step decimal_snoc)
  qed simp
qed

text \<open>The pieces of a number.\<close>

lemma decimal_nines: "decimal (replicate n 0x39) = 10 ^ n - 1"
  by (induction n) (simp_all add: decimal_Cons)

lemma decimal_zeros: "decimal (replicate n 0x30) = 0"
  by (induction n) (simp_all add: decimal_Cons)

lemma utf8_valid_number: "list_all is_digit s \<Longrightarrow> utf8_valid s"
proof (induction s)
  case (Cons c s)
  have "c \<le> 0x39" using Cons.prems by (simp add: is_digit_def)
  also have "(0x39 :: u8) \<le> 0x7F" by simp
  finally show ?case using Cons by simp
qed simp

end
