(* ===== verification/U256_Text.thy ===== *)
theory U256_Text
  imports U256 Decimal_Text
begin

section \<open>256-bit integers as text\<close>

text \<open>
  \<open>include/u256.rs\<close>: \<open>Display\<close>, \<open>Binary\<close>, \<open>Octal\<close> (the digits they pass to \<open>pad_integral\<close>) and
  \<open>FromStr\<close>. A string is its UTF-8 bytes. The digits are written from the end of a buffer of
  fixed length; the lemmas show that the buffer is always long enough and that the text is
  the positional representation of the number. Parsing accepts the decimal text of every number, refuses
  the numbers of 257 bits and more, and inverts \<open>Display\<close>.
\<close>

subsection \<open>Writing\<close>

definition u256_TEN :: u256 where "u256_TEN = U256 0 10"

function fmt_decimal_loop :: "nat \<Rightarrow> u256 \<Rightarrow> bytes \<Rightarrow> (unit, bytes) res" where
  "fmt_decimal_loop i cur buf =
     res_bind (u256_rem cur u256_TEN) (\<lambda>r.
       let buf = buf[i := ucast (low_u128 r) + 0x30] in
       res_bind (u256_div cur u256_TEN) (\<lambda>cur.
         if is_zero cur then Ok (drop i buf)
         else if i = 0 then Panic
         else fmt_decimal_loop (i - 1) cur buf))"
  by pat_completeness auto
termination by (relation "measure fst") auto

declare fmt_decimal_loop.simps [simp del]

definition fmt_decimal :: "u256 \<Rightarrow> (unit, bytes) res" where
  "fmt_decimal x = fmt_decimal_loop 77 x (replicate 78 0)"

definition u256_display :: "u256 \<Rightarrow> (unit, bytes) res" where
  "u256_display x = (if is_zero x then Ok [0x30] else fmt_decimal x)"

text \<open>\<open>Binary\<close> is the loop with \<open>k = 1\<close> on 256 bytes, \<open>Octal\<close> with \<open>k = 3\<close> on 86 bytes.\<close>

fun fmt_bits_loop :: "nat \<Rightarrow> u64 \<Rightarrow> nat \<Rightarrow> u256 \<Rightarrow> bytes \<Rightarrow> (unit, bytes) res" where
  "fmt_bits_loop k m i value buf =
     (if u256_ZERO < value then
        (if i = 0 then Panic
         else fmt_bits_loop k m (i - 1) (u256_shr value k)
                (buf[i - 1 := 0x30 + ucast (low_u64 value AND m)]))
      else Ok (drop i buf))"

declare fmt_bits_loop.simps [simp del]

definition u256_binary :: "u256 \<Rightarrow> (unit, bytes) res" where
  "u256_binary x = (if is_zero x then Ok [0x30] else fmt_bits_loop 1 1 256 x (replicate 256 0))"

definition u256_octal :: "u256 \<Rightarrow> (unit, bytes) res" where
  "u256_octal x = (if is_zero x then Ok [0x30] else fmt_bits_loop 3 7 86 x (replicate 86 0))"

lemma val_TEN: "val u256_TEN = 10"
  by (simp add: u256_TEN_def val_def)

lemma div_TEN:
  "\<exists>q r. u256_div x u256_TEN = (Ok q :: ('e, u256) res) \<and> val q = val x div 10
       \<and> u256_rem x u256_TEN = (Ok r :: ('e, u256) res) \<and> val r = val x mod 10"
  using u256_div [of u256_TEN x, where ?'e = 'e] u256_rem [of u256_TEN x, where ?'e = 'e] by (simp add: val_TEN)

lemma unat_low_u128_small: "val r < 2 ^ 128 \<Longrightarrow> unat (low_u128 r) = val r"
  using val_parts(2) [of r] by (simp add: low_u128_def)

lemma drop_update_last: "i < length buf \<Longrightarrow> drop i (buf[i := d]) = d # drop (Suc i) buf"
  by (simp add: drop_update_swap upd_conv_take_nth_drop)

lemma fmt_decimal_loop:
  "val cur < 10 ^ Suc i \<Longrightarrow> 0 < val cur \<Longrightarrow> i < length buf \<Longrightarrow>
   fmt_decimal_loop i cur buf = Ok (digits 10 (val cur) @ drop (Suc i) buf)"
proof (induction i arbitrary: cur buf)
  case (0 cur buf)
  obtain q r where q: "u256_div cur u256_TEN = (Ok q :: (unit, u256) res)" "val q = val cur div 10"
    and r: "u256_rem cur u256_TEN = (Ok r :: (unit, u256) res)" "val r = val cur mod 10"
    using div_TEN [of cur, where ?'e = unit] by blast
  have "ucast (low_u128 r) = (word_of_nat (val cur mod 10) :: u8)"
    using r(2) by (simp add: ucast_eq_word_of_nat unat_low_u128_small)
  then show ?case
    using 0 q r
    by (subst fmt_decimal_loop.simps)
      (simp add: is_zero_iff digits_step drop_update_last [of 0, simplified] add.commute)
next
  case (Suc i cur buf)
  obtain q r where q: "u256_div cur u256_TEN = (Ok q :: (unit, u256) res)" "val q = val cur div 10"
    and r: "u256_rem cur u256_TEN = (Ok r :: (unit, u256) res)" "val r = val cur mod 10"
    using div_TEN [of cur, where ?'e = unit] by blast
  let ?buf = "buf[Suc i := ucast (low_u128 r) + 0x30]"
  have digit: "ucast (low_u128 r) = (word_of_nat (val cur mod 10) :: u8)"
    using r(2) by (simp add: ucast_eq_word_of_nat unat_low_u128_small)
  have all: "digits 10 (val cur) @ drop (Suc (Suc i)) buf = digits 10 (val q) @ drop (Suc i) ?buf"
    using Suc.prems digits_step [of 10 "val cur"]
    by (simp add: drop_update_last digit q(2) add.commute)
  have q_small: "val q < 10 ^ Suc i" using Suc.prems(1) q(2) by (simp add: div_less_iff_less_mult)
  show ?case
  proof (cases "is_zero q")
    case True
    then show ?thesis unfolding all using q r
      by (subst fmt_decimal_loop.simps) (simp add: is_zero_iff)
  next
    case False
    then have "fmt_decimal_loop i q ?buf = Ok (digits 10 (val q) @ drop (Suc i) ?buf)"
      using Suc.IH [OF q_small, of ?buf] Suc.prems(3) by (simp add: is_zero_iff)
    then show ?thesis unfolding all using False q r
      by (subst fmt_decimal_loop.simps) simp
  qed
qed

lemma u256_display:
  "u256_display x = Ok (if val x = 0 then [0x30] else digits 10 (val x))"
proof -
  have "(2::nat) ^ 256 < 10 ^ Suc 77" by simp
  then have "val x < 10 ^ Suc 77" using val_bound [of x] by linarith
  then show ?thesis
    using fmt_decimal_loop [of x 77 "replicate 78 0"]
    by (simp add: u256_display_def fmt_decimal_def is_zero_iff)
qed

lemma low_bits_digit:
  assumes "k = 1 \<and> m = (1 :: u64) \<or> k = 3 \<and> m = 7"
  shows "ucast (low_u64 v AND m) = (word_of_nat (val v mod 2 ^ k) :: u8)"
proof -
  have m: "m = mask k" using assms by (auto simp: mask_eq_exp_minus_1)
  have k: "k \<le> 64" using assms by auto
  have "unat (low_u64 v AND m) = val v mod 2 ^ 64 mod 2 ^ k"
    unfolding m take_bit_eq_mask [symmetric] by (subst unsigned_take_bit_eq) (simp only: take_bit_eq_mod unat_low_u64)
  also have "\<dots> = val v mod 2 ^ k" using k by (intro mod_mod_cancel le_imp_power_dvd)
  finally show ?thesis by (simp only: ucast_eq_word_of_nat)
qed

lemma fmt_bits_loop:
  assumes k: "k = 1 \<and> m = 1 \<or> k = 3 \<and> m = 7"
  shows "val v < (2 ^ k) ^ i \<Longrightarrow> i \<le> length buf \<Longrightarrow>
    fmt_bits_loop k m i v buf = Ok (digits (2 ^ k) (val v) @ drop i buf)"
proof (induction i arbitrary: v buf)
  case 0
  then show ?case by (subst fmt_bits_loop.simps) (simp add: val_less_iff)
next
  case (Suc i)
  have two: "2 \<le> (2 :: nat) ^ k" "k < 256" using k by auto
  have shr: "val (u256_shr v k) = val v div 2 ^ k" using two(2) by (rule val_shr)
  show ?case
  proof (cases "val v = 0")
    case True
    then show ?thesis by (subst fmt_bits_loop.simps) (simp add: val_less_iff)
  next
    case False
    let ?buf = "buf[i := 0x30 + ucast (low_u64 v AND m)]"
    have "val (u256_shr v k) < (2 ^ k) ^ i"
      using Suc.prems(1) unfolding shr by (simp add: div_less_iff_less_mult mult.commute)
    then have "fmt_bits_loop k m i (u256_shr v k) ?buf = Ok (digits (2 ^ k) (val v div 2 ^ k) @ drop i ?buf)"
      using Suc.IH [of "u256_shr v k" ?buf] Suc.prems(2) by (simp only: shr length_list_update)
    moreover have "drop i ?buf = (0x30 + word_of_nat (val v mod 2 ^ k)) # drop (Suc i) buf"
      using Suc.prems(2) by (simp only: drop_update_last low_bits_digit [OF k])
    ultimately show ?thesis
      using False digits_step [OF two(1), of "val v"]
      by (subst fmt_bits_loop.simps) (simp add: val_less_iff)
  qed
qed

lemma u256_binary: "u256_binary x = Ok (if val x = 0 then [0x30] else digits 2 (val x))"
  using fmt_bits_loop [of 1 1 x 256 "replicate 256 0"] val_bound [of x]
  by (simp add: u256_binary_def is_zero_iff)

lemma u256_octal: "u256_octal x = Ok (if val x = 0 then [0x30] else digits 8 (val x))"
proof -
  have "(2::nat) ^ 256 < (2 ^ 3) ^ 86" by simp
  then have "val x < (2 ^ 3) ^ 86" using val_bound [of x] by linarith
  then show ?thesis
    using fmt_bits_loop [of 3 7 x 86 "replicate 86 0"] by (simp add: u256_octal_def is_zero_iff)
qed

subsection \<open>Parsing\<close>

text \<open>
  From the standard library: \<open>u128::from_str\<close>, which accepts a leading plus sign, and
  \<open>rchunks\<close>, which cuts a slice in blocks from its end.
\<close>

datatype int_error = IntEmpty | IntInvalidDigit | IntPosOverflow

fun parse_digits :: "u128 \<Rightarrow> bytes \<Rightarrow> (int_error, u128) res" where
  "parse_digits result [] = Ok result"
| "parse_digits result (c # cs) =
     (if \<not> (0x30 \<le> c \<and> c \<le> 0x39) then Err IntInvalidDigit
      else if 2 ^ 128 \<le> unat result * 10 + unat (c - 0x30) then Err IntPosOverflow
      else parse_digits (result * 10 + ucast (c - 0x30)) cs)"

definition parse_u128 :: "bytes \<Rightarrow> (int_error, u128) res" where
  "parse_u128 src =
     (if src = [] then Err IntEmpty
      else if src = [0x2B] \<or> src = [0x2D] then Err IntInvalidDigit
      else parse_digits 0 (if hd src = 0x2B then tl src else src))"

function rchunks :: "nat \<Rightarrow> bytes \<Rightarrow> bytes list" where
  "rchunks k s =
     (if s = [] \<or> k = 0 then [] else drop (length s - k) s # rchunks k (take (length s - k) s))"
  by pat_completeness auto
termination by (relation "measure (\<lambda>(k, s). length s)") auto

declare rchunks.simps [simp del]

datatype parse_u256_error = U256Overflow | U256Empty | U256InvalidDigit int_error | U256InvalidEncoding

definition POW10_38 :: u128 where "POW10_38 = 10 ^ 38"

fun parse_chunks :: "u256 \<Rightarrow> bytes list \<Rightarrow> (parse_u256_error, u256) res" where
  "parse_chunks result [] = Ok result"
| "parse_chunks result (chunk # chunks) =
     (if \<not> utf8_valid chunk then Err U256InvalidEncoding
      else res_bind (map_err U256InvalidDigit (parse_u128 chunk)) (\<lambda>val.
        let (res, carry1) = u256_overflowing_mul result (u256_of_u128 POW10_38);
            (res, carry2) = u256_overflowing_add res (u256_of_u128 val) in
        if carry1 \<or> carry2 then Err U256Overflow else parse_chunks res chunks))"

definition u256_from_str :: "bytes \<Rightarrow> (parse_u256_error, u256) res" where
  "u256_from_str s = (if s = [] then Err U256Empty else parse_chunks u256_ZERO (rev (rchunks 38 s)))"

lemma parse_digits_number:
  "list_all is_digit cs \<Longrightarrow> unat r * 10 ^ length cs + decimal cs < 2 ^ 128 \<Longrightarrow>
   \<exists>w. parse_digits r cs = Ok w \<and> unat w = unat r * 10 ^ length cs + decimal cs"
proof (induction cs arbitrary: r)
  case (Cons c cs)
  let ?d = "unat (c - 0x30)" and ?p = "(10::nat) ^ length cs"
  have digit: "0x30 \<le> c" "c \<le> 0x39" using Cons.prems(1) by (simp_all add: is_digit_def)
  have total: "(unat r * 10 + ?d) * ?p + decimal cs < 2 ^ 128"
    using Cons.prems(2) by (simp add: decimal_Cons algebra_simps)
  have "(unat r * 10 + ?d) * 1 \<le> (unat r * 10 + ?d) * ?p" by (intro mult_le_mono2) simp
  then have "unat r * 10 + ?d \<le> (unat r * 10 + ?d) * ?p" by (simp only: mult_1_right)
  then have small: "unat r * 10 + ?d < 2 ^ 128" using add_lessD1 [OF total] by (rule le_less_trans)
  let ?r = "r * 10 + ucast (c - 0x30)"
  have "unat (ucast (c - 0x30) :: u128) = ?d" by (rule unat_ucast_up) simp
  moreover have "unat (r * 10) = unat r * 10" using small by (simp add: unat_word_ariths(2))
  ultimately have next_r: "unat ?r = unat r * 10 + ?d" using small by (simp add: unat_word_ariths(1))
  have "list_all is_digit cs" using Cons.prems(1) by simp
  from Cons.IH [OF this, of ?r] total obtain w
    where w: "parse_digits ?r cs = Ok w" "unat w = (unat r * 10 + ?d) * ?p + decimal cs"
    unfolding next_r by blast
  have "parse_digits r (c # cs) = Ok w" using w(1) digit small by simp
  then show ?case using w(2) by (auto simp: decimal_Cons algebra_simps)
qed simp

lemma parse_u128_number:
  assumes "list_all is_digit s" and "s \<noteq> []" and "length s \<le> 38"
  shows "\<exists>w. parse_u128 s = Ok w \<and> unat w = decimal s"
proof -
  have "decimal s < 10 ^ length s" using assms(1) by (rule decimal_bound)
  also have "\<dots> \<le> 10 ^ 38" using assms(3) by (intro power_increasing) simp_all
  also have "\<dots> < (2 ^ 128 :: nat)" by simp
  finally have "unat (0 :: u128) * 10 ^ length s + decimal s < 2 ^ 128" by simp
  from parse_digits_number [OF assms(1) this] obtain w
    where w: "parse_digits 0 s = Ok w" "unat w = decimal s" by auto
  obtain c cs where s: "s = c # cs" using assms(2) by (cases s) auto
  have c: "0x30 \<le> c" using assms(1) unfolding s by (simp add: is_digit_def)
  have "\<not> 0x30 \<le> (0x2B :: u8)" "\<not> 0x30 \<le> (0x2D :: u8)" by simp_all
  then have "c \<noteq> 0x2B" "c \<noteq> 0x2D" using c by blast+
  then have "parse_u128 s = Ok w" using w(1) by (simp add: parse_u128_def s)
  then show ?thesis using w(2) by blast
qed

lemma unat_POW10_38: "unat POW10_38 = 10 ^ 38"
  by (simp add: POW10_38_def)

lemma parse_chunk_step:
  assumes "utf8_valid c" and w: "parse_u128 c = Ok w"
  shows "\<exists>r'. parse_chunks r (c # cs)
      = (if val r * 10 ^ 38 + unat w < 2 ^ 256 then parse_chunks r' cs else Err U256Overflow)
    \<and> (val r * 10 ^ 38 + unat w < 2 ^ 256 \<longrightarrow> val r' = val r * 10 ^ 38 + unat w)"
proof -
  let ?m = "u256_overflowing_mul r (u256_of_u128 POW10_38)"
  let ?a = "u256_overflowing_add (fst ?m) (u256_of_u128 w)"
  have m: "val (fst ?m) = val r * 10 ^ 38 mod 2 ^ 256" "snd ?m \<longleftrightarrow> 2 ^ 256 \<le> val r * 10 ^ 38"
    unfolding u256_overflowing_mul val_constants unat_POW10_38 by (rule refl)+
  have a: "val (fst ?a) = (val r * 10 ^ 38 + unat w) mod 2 ^ 256"
    "snd ?a \<longleftrightarrow> 2 ^ 256 \<le> val r * 10 ^ 38 mod 2 ^ 256 + unat w"
    unfolding u256_overflowing_add m val_constants by (simp_all only: mod_add_left_eq)
  have flag: "snd ?m \<or> snd ?a \<longleftrightarrow> \<not> val r * 10 ^ 38 + unat w < 2 ^ 256"
  proof (cases "snd ?m")
    case False
    then have "val r * 10 ^ 38 mod 2 ^ 256 = val r * 10 ^ 38" unfolding m(2) by simp
    then show ?thesis using False unfolding a(2) by (simp only: not_less simp_thms)
  qed (use m(2) in linarith)
  have "parse_chunks r (c # cs) = (if snd ?m \<or> snd ?a then Err U256Overflow else parse_chunks (fst ?a) cs)"
    using assms(1) by (simp add: w Let_def case_prod_unfold)
  moreover have "val r * 10 ^ 38 + unat w < 2 ^ 256 \<Longrightarrow> val (fst ?a) = val r * 10 ^ 38 + unat w"
    unfolding a(1) by (rule mod_less)
  ultimately show ?thesis unfolding flag by (intro exI [of _ "fst ?a"]) simp
qed

lemma parse_number_step:
  assumes "list_all is_digit c" and "c \<noteq> []" and "length c \<le> 38"
  shows "\<exists>r'. parse_chunks r (c # cs)
      = (if val r * 10 ^ 38 + decimal c < 2 ^ 256 then parse_chunks r' cs else Err U256Overflow)
    \<and> (val r * 10 ^ 38 + decimal c < 2 ^ 256 \<longrightarrow> val r' = val r * 10 ^ 38 + decimal c)"
  using parse_u128_number [OF assms] parse_chunk_step [OF utf8_valid_number [OF assms(1)]] by metis

definition parses_to :: "(parse_u256_error, u256) res \<Rightarrow> nat \<Rightarrow> bool" where
  "parses_to r n \<longleftrightarrow> (if n < 2 ^ 256 then \<exists>x. r = Ok x \<and> val x = n else r = Err U256Overflow)"

lemma parses_to_Ok: "parses_to r (val x) \<longleftrightarrow> r = Ok x"
  using val_bound [of x] by (auto simp: parses_to_def val_inject)

lemma parse_chunks_Nil: "parse_chunks r [] = Ok r"
  by simp

declare parse_chunks.simps [simp del]

lemma parse_chunks_number:
  "list_all (list_all is_digit) cs \<Longrightarrow> list_all (\<lambda>c. length c = 38) cs \<Longrightarrow>
   n = val r * 10 ^ length (concat cs) + decimal (concat cs) \<Longrightarrow>
   parses_to (parse_chunks r cs) n"
proof (induction cs arbitrary: r)
  case Nil
  then show ?case by (simp add: parse_chunks_Nil parses_to_Ok)
next
  case (Cons c cs)
  have c: "list_all is_digit c" "c \<noteq> []" "length c \<le> 38" using Cons.prems by auto
  have cs: "list_all (list_all is_digit) cs" "list_all (\<lambda>c. length c = 38) cs" using Cons.prems by simp_all
  let ?v = "val r * 10 ^ 38 + decimal c" and ?p = "10 ^ length (concat cs)"
  obtain r' where r': "parse_chunks r (c # cs) = (if ?v < 2 ^ 256 then parse_chunks r' cs else Err U256Overflow)"
    "?v < 2 ^ 256 \<longrightarrow> val r' = ?v"
    using parse_number_step [OF c] by blast
  have n: "n = ?v * ?p + decimal (concat cs)"
    using Cons.prems(2,3) by (simp add: decimal_append power_add algebra_simps)
  show ?case
  proof (cases "?v < 2 ^ 256")
    case True
    then have "parse_chunks r (c # cs) = parse_chunks r' cs" "n = val r' * ?p + decimal (concat cs)"
      using r' n by simp_all
    then show ?thesis using Cons.IH [OF cs] by simp
  next
    case False
    have "?v * 1 \<le> ?v * ?p" by (intro mult_le_mono2) simp
    then have "?v \<le> n" unfolding n by (simp only: mult_1_right trans_le_add1)
    then have "\<not> n < 2 ^ 256" using False by linarith
    then show ?thesis using False r'(1) by (simp add: parses_to_def)
  qed
qed

lemma rev_rchunks:
  "s \<noteq> [] \<Longrightarrow> 0 < k \<Longrightarrow>
   \<exists>c cs. rev (rchunks k s) = c # cs \<and> c \<noteq> [] \<and> length c \<le> k \<and> list_all (\<lambda>c. length c = k) cs \<and> concat (c # cs) = s"
proof (induction k s rule: rchunks.induct)
  case (1 k s)
  show ?case
  proof (cases "length s \<le> k")
    case True
    then show ?thesis using 1 by (subst rchunks.simps) (simp add: rchunks.simps)
  next
    case False
    let ?t = "take (length s - k) s"
    have "?t \<noteq> []" using False by auto
    then obtain c cs where "rev (rchunks k ?t) = c # cs" "c \<noteq> []" "length c \<le> k"
      "list_all (\<lambda>c. length c = k) cs" "concat (c # cs) = ?t"
      using 1 by blast
    then have "rev (rchunks k s) = c # (cs @ [drop (length s - k) s])"
        "list_all (\<lambda>c. length c = k) (cs @ [drop (length s - k) s])"
        "concat (c # (cs @ [drop (length s - k) s])) = s"
      using 1(2,3) False append_take_drop_id [of "length s - k" s]
      by (subst rchunks.simps, simp_all del: append_take_drop_id flip: append_assoc)
    then show ?thesis using \<open>c \<noteq> []\<close> \<open>length c \<le> k\<close> by blast
  qed
qed

lemma u256_from_number:
  assumes "list_all is_digit s" and "s \<noteq> []"
  shows "parses_to (u256_from_str s) (decimal s)"
proof -
  obtain c cs where cs: "rev (rchunks 38 s) = c # cs" "c \<noteq> []" "length c \<le> 38"
    "list_all (\<lambda>c. length c = 38) cs" "concat (c # cs) = s"
    using rev_rchunks [OF assms(2), of 38] by auto
  have s: "s = c @ concat cs" using cs(5) by simp
  have digits: "list_all is_digit c" "list_all (list_all is_digit) cs"
    using assms(1) unfolding s by (auto simp: list_all_iff)
  have dec: "decimal c < 2 ^ 256"
  proof -
    have "decimal c < 10 ^ length c" using digits(1) by (rule decimal_bound)
    also have "\<dots> \<le> 10 ^ 38" using cs(3) by (intro power_increasing) simp_all
    also have "\<dots> < (2 ^ 256 :: nat)" by simp
    finally show ?thesis .
  qed
  obtain r where r: "parse_chunks u256_ZERO (c # cs) = parse_chunks r cs" "val r = decimal c"
    using parse_number_step [OF digits(1) cs(2,3), of u256_ZERO cs] dec by auto
  have "decimal s = val r * 10 ^ length (concat cs) + decimal (concat cs)"
    unfolding s r(2) by (rule decimal_append)
  from parse_chunks_number [OF digits(2) cs(4) this] show ?thesis
    using assms(2) unfolding u256_from_str_def cs(1) r(1) by simp
qed

lemma display_number:
  "\<exists>s. u256_display x = Ok s \<and> list_all is_digit s \<and> s \<noteq> [] \<and> decimal s = val x"
proof (cases "val x = 0")
  case True
  then show ?thesis by (simp add: u256_display is_digit_def decimal_def)
next
  case False
  then have "digits 10 (val x) \<noteq> []" by (subst digits.simps) simp
  then show ?thesis using False digits_are_digits [of 10 "val x"] decimal_digits [of "val x"]
    by (simp add: u256_display)
qed

text \<open>Displaying a 256-bit integer never fails, gives the decimal digits of its
  value without leading zeros, and parsing the text gives the integer back.\<close>

theorem u256_text_roundtrip:
  "u256_display x = Ok (if val x = 0 then [0x30] else digits 10 (val x))
   \<and> res_bind (map_err (\<lambda>_. U256Empty) (u256_display x)) u256_from_str = Ok x"
proof -
  obtain s where s: "u256_display x = Ok s" "list_all is_digit s" "s \<noteq> []" "decimal s = val x"
    using display_number by blast
  have "u256_from_str s = Ok x"
    using u256_from_number [OF s(2,3)] unfolding s(4) by (simp only: parses_to_Ok)
  then show ?thesis using s(1) u256_display [of x] by simp
qed

text \<open>A nonempty string of decimal digits, of any length, is parsed to the number it denotes,
  or refused as an overflow exactly when the number is \<open>2 ^ 256\<close> or more.\<close>

theorem u256_parse_decimal:
  assumes "list_all is_digit s" and "s \<noteq> []"
  shows "if decimal s < 2 ^ 256 then \<exists>x. u256_from_str s = Ok x \<and> val x = decimal s
         else u256_from_str s = Err U256Overflow"
  using u256_from_number [OF assms] unfolding parses_to_def .

theorem u256_parse_decimal_witness:
  "(\<exists>x. u256_from_str [0x34, 0x32] = Ok x \<and> val x = 42) \<and> u256_from_str (replicate 78 0x39) = Err U256Overflow"
proof
  have "decimal [0x34, 0x32] = 42" by (simp add: decimal_def)
  then show "\<exists>x. u256_from_str [0x34, 0x32] = Ok x \<and> val x = 42"
    using u256_parse_decimal [of "[0x34, 0x32]"] by (simp add: is_digit_def)
  have "(2::nat) ^ 256 \<le> 10 ^ 78 - 1" by simp
  then have "\<not> decimal (replicate 78 0x39) < 2 ^ 256" by (simp only: decimal_nines not_less)
  moreover have "list_all is_digit (replicate 78 0x39)" "replicate 78 0x39 \<noteq> ([] :: bytes)"
    by (simp_all add: is_digit_def list_all_length)
  ultimately show "u256_from_str (replicate 78 0x39) = Err U256Overflow"
    using u256_parse_decimal by simp
qed

text \<open>A plus sign is accepted at the start of every block of 38 characters, not only at the start of the
  string: \<open>1+\<close> followed by 37 zeros is parsed as \<open>10 ^ 38\<close>.\<close>

lemma u256_parse_inner_plus:
  "\<exists>x. u256_from_str (0x31 # 0x2B # replicate 37 0x30) = Ok x \<and> val x = 10 ^ 38"
proof -
  let ?zeros = "replicate 37 0x30 :: bytes"
  have "list_all is_digit ?zeros" by (simp add: is_digit_def list_all_length)
  then have "\<exists>w. parse_digits 0 ?zeros = Ok w \<and> unat w = 0"
    using parse_digits_number [of ?zeros 0] by (simp only: decimal_zeros) simp
  then obtain w where w: "parse_u128 (0x2B # ?zeros) = Ok w" "unat w = 0"
    by (auto simp: parse_u128_def simp del: parse_digits.simps)
  have one: "parse_u128 [0x31] = Ok 1" by (simp add: parse_u128_def)
  have utf8: "utf8_valid [0x31]" "utf8_valid (0x2B # ?zeros)"
    using utf8_valid_number [OF \<open>list_all is_digit ?zeros\<close>] by simp_all
  obtain r1 where r1: "parse_chunks u256_ZERO [[0x31], 0x2B # ?zeros] = parse_chunks r1 [0x2B # ?zeros]" "val r1 = 1"
    using parse_chunk_step [OF utf8(1) one, of u256_ZERO "[0x2B # ?zeros]"] by auto
  obtain r2 where r2: "parse_chunks r1 [0x2B # ?zeros] = Ok r2" "val r2 = 10 ^ 38"
    using parse_chunk_step [OF utf8(2) w(1), of r1 "[]"] r1(2) w(2) by (auto simp: parse_chunks.simps)
  have "rchunks 38 (0x31 # 0x2B # ?zeros) = [0x2B # ?zeros, [0x31]]"
    by (subst rchunks.simps, subst rchunks.simps) (simp add: rchunks.simps)
  then show ?thesis using r1(1) r2 by (simp add: u256_from_str_def)
qed

end
