(* ===== verification/Reject.thy ===== *)
theory Reject
  imports Tx_Parts
begin

section \<open>Reject messages\<close>

text \<open>
  \<open>RejectReason\<close> and \<open>Reject\<close> of \<open>p2p/src/message_network.rs\<close>: a message of the peer-to-peer protocol
  with two strings, a code and a hash. Its decoder is a sequence of four decoders followed by a
  check, its encoder a sequence of four encoders.
\<close>

datatype reject_reason = Malformed | Invalid | Obsolete | Duplicate | NonStandard | Dust | Fee | Checkpoint

datatype reject_reason_decoder_error = ReasonDecoder nat | UnknownRejectCode u8

fun reject_code :: "reject_reason \<Rightarrow> u8" where
  "reject_code Malformed = 0x01"
| "reject_code Invalid = 0x10"
| "reject_code Obsolete = 0x11"
| "reject_code Duplicate = 0x12"
| "reject_code NonStandard = 0x40"
| "reject_code Dust = 0x41"
| "reject_code Fee = 0x42"
| "reject_code Checkpoint = 0x43"

definition reject_reason_of_bytes :: "bytes \<Rightarrow> (reject_reason_decoder_error, reject_reason) res" where
  "reject_reason_of_bytes code_arr =
     (let code = from_le_bytes code_arr :: u8 in
      if code = 0x01 then Ok Malformed
      else if code = 0x10 then Ok Invalid
      else if code = 0x11 then Ok Obsolete
      else if code = 0x12 then Ok Duplicate
      else if code = 0x40 then Ok NonStandard
      else if code = 0x41 then Ok Dust
      else if code = 0x42 then Ok Fee
      else if code = 0x43 then Ok Checkpoint
      else Err (UnknownRejectCode code))"

definition reject_reason_decoder_new :: array_decoder where "reject_reason_decoder_new = array_decoder_new 1"

definition reject_reason_decoder_push ::
  "array_decoder \<Rightarrow> bytes \<Rightarrow> (reject_reason_decoder_error, dstatus) res \<times> array_decoder \<times> bytes" where
  "reject_reason_decoder_push = newtype_push ReasonDecoder array_decoder_push"

definition reject_reason_decoder_end :: "array_decoder \<Rightarrow> (reject_reason_decoder_error, reject_reason) res" where
  "reject_reason_decoder_end = newtype_end (end_with ReasonDecoder reject_reason_of_bytes) array_decoder_end"

definition reject_reason_decoder_run ::
  "array_decoder \<Rightarrow> bytes \<Rightarrow> (reject_reason_decoder_error, reject_reason) presult" where
  "reject_reason_decoder_run = newtype_run ReasonDecoder reject_reason_of_bytes array_decoder_run"

lemma reject_reason_of_bytes_halts [simp]: "halts (reject_reason_of_bytes b)" "reject_reason_of_bytes b \<noteq> Panic"
  by (simp_all add: reject_reason_of_bytes_def Let_def)

interpretation reject_reason_dec: push_decoder reject_reason_decoder_push reject_reason_decoder_end
  array_decoder_read_limit reject_reason_decoder_run array_decoder_inv
  unfolding reject_reason_decoder_push_def reject_reason_decoder_end_def reject_reason_decoder_run_def
  by (rule array_newtype) simp

lemma reject_reason_of_code: "reject_reason_of_bytes [b] = Ok v \<longleftrightarrow> b = reject_code v"
proof -
  have b: "(from_le_bytes [b] :: u8) = b" by (simp add: from_le_bytes_def)
  show ?thesis
    unfolding reject_reason_of_bytes_def Let_def b by (cases v) (auto split: if_splits)
qed

lemma reject_reason_run:
  "reject_reason_decoder_run reject_reason_decoder_new x = POk v r \<longleftrightarrow> x = reject_code v # r"
proof -
  have "(\<exists>b. length b = 1 \<and> x = b @ r \<and> reject_reason_of_bytes b = Ok v) \<longleftrightarrow>
      (\<exists>c. x = c # r \<and> reject_reason_of_bytes [c] = Ok v)"
    by (auto simp: length_Suc_conv)
  then show ?thesis
    by (simp add: reject_reason_decoder_run_def reject_reason_decoder_new_def array_newtype_run_iff reject_reason_of_code)
qed

subsection \<open>The message\<close>

record reject =
  rej_message :: bytes
  ccode :: reject_reason
  rej_reason :: bytes
  rej_hash :: bytes

type_synonym reject_state =
  "((byte_vec_decoder, bytes, array_decoder) decoder2, bytes \<times> reject_reason,
     (byte_vec_decoder, bytes, array_decoder) decoder2) decoder2"

datatype reject_decoder_error =
    RejectDecoder "(byte_vec_error, reject_reason_decoder_error, byte_vec_error, nat) decoder4_error"
  | InvalidUtf8

definition reject_of_parts :: "bytes \<times> reject_reason \<times> bytes \<times> bytes \<Rightarrow> (reject_decoder_error, reject) res" where
  "reject_of_parts parts = (case parts of (message, code, reason, hash) \<Rightarrow>
     if \<not> utf8_valid message then Err InvalidUtf8
     else if \<not> utf8_valid reason then Err InvalidUtf8
     else Ok \<lparr>rej_message = message, ccode = code, rej_reason = reason, rej_hash = hash\<rparr>)"

definition reject_decoder_new :: reject_state where
  "reject_decoder_new = decoder4_new byte_vec_decoder_new reject_reason_decoder_new byte_vec_decoder_new (array_decoder_new 32)"

definition reject_decoder_push ::
  "reject_state \<Rightarrow> bytes \<Rightarrow> (reject_decoder_error, dstatus) res \<times> reject_state \<times> bytes" where
  "reject_decoder_push = newtype_push RejectDecoder
     (decoder4_push byte_vec_decoder_push byte_vec_decoder_end reject_reason_decoder_push reject_reason_decoder_end
        byte_vec_decoder_push byte_vec_decoder_end array_decoder_push)"

definition reject_decoder_end :: "reject_state \<Rightarrow> (reject_decoder_error, reject) res" where
  "reject_decoder_end = newtype_end (end_with RejectDecoder reject_of_parts)
     (decoder4_end byte_vec_decoder_end reject_reason_decoder_end byte_vec_decoder_end array_decoder_end)"

definition reject_decoder_read_limit :: "reject_state \<Rightarrow> nat" where
  "reject_decoder_read_limit = decoder4_read_limit byte_vec_decoder_read_limit array_decoder_read_limit
     byte_vec_decoder_read_limit array_decoder_read_limit"

definition reject_decoder_run :: "reject_state \<Rightarrow> bytes \<Rightarrow> (reject_decoder_error, reject) presult" where
  "reject_decoder_run = newtype_run RejectDecoder reject_of_parts
     (decoder4_run byte_vec_run reject_reason_decoder_run byte_vec_run array_decoder_run)"

definition reject_decoder_inv :: "reject_state \<Rightarrow> bool" where
  "reject_decoder_inv = decoder4_inv byte_vec_inv array_decoder_inv byte_vec_inv array_decoder_inv"

interpretation reject_parts: decoder_quadruple
  byte_vec_decoder_push byte_vec_decoder_end byte_vec_decoder_read_limit byte_vec_run byte_vec_inv
  reject_reason_decoder_push reject_reason_decoder_end array_decoder_read_limit reject_reason_decoder_run array_decoder_inv
  byte_vec_decoder_push byte_vec_decoder_end byte_vec_decoder_read_limit byte_vec_run byte_vec_inv
  array_decoder_push array_decoder_end array_decoder_read_limit array_decoder_run array_decoder_inv
  by (intro decoder_quadruple.intro decoder_pair.intro bvd.push_decoder_axioms reject_reason_dec.push_decoder_axioms
        ad.push_decoder_axioms)

lemma reject_of_parts_halts [simp]: "halts (reject_of_parts p)"
  by (simp add: reject_of_parts_def split: prod.splits)

interpretation reject_dec: push_decoder reject_decoder_push reject_decoder_end reject_decoder_read_limit
  reject_decoder_run reject_decoder_inv
  unfolding reject_decoder_push_def reject_decoder_end_def reject_decoder_read_limit_def reject_decoder_run_def
    reject_decoder_inv_def
  by (intro newtype_decoder.newtype_push_decoder newtype_decoder.intro newtype_decoder_axioms.intro
        reject_parts.quadruple_push_decoder reject_of_parts_halts)

text \<open>\<open>reject_ok\<close>: the strings are UTF-8 and within the limit of byte vectors, the hash has 32 bytes.\<close>

definition reject_ok :: "reject \<Rightarrow> bool" where
  "reject_ok m \<longleftrightarrow> utf8_valid (rej_message m) \<and> length (rej_message m) \<le> MAX_VEC_SIZE
     \<and> utf8_valid (rej_reason m) \<and> length (rej_reason m) \<le> MAX_VEC_SIZE \<and> length (rej_hash m) = 32"

definition reject_bytes :: "reject \<Rightarrow> bytes" where
  "reject_bytes m = script_bytes (rej_message m) @ [reject_code (ccode m)] @ script_bytes (rej_reason m) @ rej_hash m"

lemma byte_vec_run_new_iff:
  "byte_vec_run byte_vec_decoder_new x = POk v r \<longleftrightarrow> length v \<le> MAX_VEC_SIZE \<and> x = script_bytes v @ r"
  by (auto simp: byte_vec_decoder_new_def byte_vec_new_run_iff script_bytes_def MAX_VEC_SIZE_def)

lemma decoder4_run_new_iff:
  "decoder4_run ra rb rc rd (decoder4_new a b c d) x = POk (t, u, v, w) r \<longleftrightarrow>
     (\<exists>x1 x2 x3. ra a x = POk t x1 \<and> rb b x1 = POk u x2 \<and> rc c x2 = POk v x3 \<and> rd d x3 = POk w r)"
  by (auto simp: decoder4_run_def decoder4_new_def newtype_run_POk_iff pbind_POk_iff)

lemma reject_run:
  "reject_decoder_run reject_decoder_new x = POk m r \<longleftrightarrow> reject_ok m \<and> x = reject_bytes m @ r"
  by (cases m)
    (auto simp: reject_decoder_run_def reject_decoder_new_def newtype_run_POk_iff reject_of_parts_def decoder4_run_new_iff
      byte_vec_run_new_iff reject_reason_run array_decoder_new_run_iff reject_ok_def reject_bytes_def split: prod.splits if_splits)

lemma reject_decoder_new_inv [simp]: "reject_decoder_inv reject_decoder_new"
  by (simp add: reject_decoder_inv_def reject_decoder_new_def decoder4_inv_def decoder4_new_def
      byte_vec_decoder_new_def reject_reason_decoder_new_def)

subsection \<open>The encoder\<close>

type_synonym reject_encoder = "(prefixed_bytes_encoder, array_encoder, prefixed_bytes_encoder, array_encoder) encoder4"

definition reject_reason_encoder_new :: "reject_reason \<Rightarrow> array_encoder" where
  "reject_reason_encoder_new code = \<lparr>ae_arr = [reject_code code]\<rparr>"

definition reject_encoder_new :: "reject \<Rightarrow> reject_encoder" where
  "reject_encoder_new m = encoder4_new (prefixed_bytes_encoder_new (rej_message m)) (reject_reason_encoder_new (ccode m))
     (prefixed_bytes_encoder_new (rej_reason m)) \<lparr>ae_arr = rej_hash m\<rparr>"

definition reject_encoder_chunk :: "reject_encoder \<Rightarrow> bytes option" where
  "reject_encoder_chunk = encoder4_chunk prefixed_bytes_encoder_chunk array_encoder_chunk
     prefixed_bytes_encoder_chunk array_encoder_chunk"

definition reject_encoder_advance :: "reject_encoder \<Rightarrow> (estatus \<times> reject_encoder) option" where
  "reject_encoder_advance = encoder4_advance prefixed_bytes_encoder_advance array_encoder_advance
     prefixed_bytes_encoder_advance array_encoder_advance"

definition reject_encoder_out :: "reject_encoder \<Rightarrow> bytes" where
  "reject_encoder_out = encoder4_out prefixed_bytes_out ae_arr prefixed_bytes_out ae_arr"

definition reject_encoder_steps :: "reject_encoder \<Rightarrow> nat" where
  "reject_encoder_steps = encoder4_steps prefixed_bytes_steps (\<lambda>_. 0) prefixed_bytes_steps (\<lambda>_. 0)"

definition reject_encoder_valid :: "reject_encoder \<Rightarrow> bool" where
  "reject_encoder_valid = encoder4_valid prefixed_bytes_valid (\<lambda>_. True) prefixed_bytes_valid (\<lambda>_. True)"

interpretation reject_enc_parts: encoder_quadruple
  prefixed_bytes_encoder_chunk prefixed_bytes_encoder_advance prefixed_bytes_out prefixed_bytes_steps prefixed_bytes_valid
  array_encoder_chunk array_encoder_advance ae_arr "\<lambda>_. 0" "\<lambda>_. True"
  prefixed_bytes_encoder_chunk prefixed_bytes_encoder_advance prefixed_bytes_out prefixed_bytes_steps prefixed_bytes_valid
  array_encoder_chunk array_encoder_advance ae_arr "\<lambda>_. 0" "\<lambda>_. True"
  by (intro encoder_quadruple.intro pb.encoder_axioms ae.encoder_axioms)

interpretation reject_enc: encoder reject_encoder_chunk reject_encoder_advance reject_encoder_out
  reject_encoder_steps reject_encoder_valid
  unfolding reject_encoder_chunk_def reject_encoder_advance_def reject_encoder_out_def reject_encoder_steps_def
    reject_encoder_valid_def
  by (rule reject_enc_parts.quadruple_encoder)

lemma reject_encoder_new [simp]:
  "reject_encoder_valid (reject_encoder_new m)" "reject_encoder_out (reject_encoder_new m) = reject_bytes m"
  by (simp_all add: reject_encoder_valid_def reject_encoder_out_def reject_encoder_new_def encoder4_valid_def
      encoder4_out_def encoder4_new_def reject_bytes_def reject_reason_encoder_new_def prefixed_bytes_new script_bytes_def)

text \<open>The decoder of reject messages accepts a slice exactly when it is what the encoder yields for a message
  whose strings are UTF-8, within the limit on byte vectors, and returns that message.\<close>

theorem reject_decoder_accepts:
  "decode_from_slice reject_decoder_push reject_decoder_end reject_decoder_new bs = Ok m
     \<longleftrightarrow> reject_ok m \<and> drain_to_vec reject_encoder_chunk reject_encoder_advance (reject_encoder_new m) = Ok bs"
  by (auto simp: reject_dec.decode_from_slice_iff reject_run reject_enc.drain_to_vec_out)

end
