(* ===== verification/Amount_Arith.thy ===== *)
theory Amount_Arith
  imports Amounts "HOL-Library.Signed_Division"
begin

section \<open>Arithmetic on amounts, weights and fee rates\<close>

text \<open>
  \<open>units/src/amount/unsigned.rs\<close>, \<open>units/src/amount/signed.rs\<close>, \<open>units/src/weight.rs\<close>, \<open>units/src/fee_rate\<close>
  and \<open>units/src/result.rs\<close>. An \<open>Amount\<close>, a \<open>Weight\<close> (in weight units) and a \<open>FeeRate\<close> (in satoshis per
  million virtual bytes) are their \<open>u64\<close>; a \<open>SignedAmount\<close> is its \<open>i64\<close>, an \<open>int\<close> for which the bounds
  of the machine type are written out. The theorems say that the range of amounts is kept and relate fees,
  weights and fee rates.
\<close>

subsection \<open>Checked arithmetic of the standard library\<close>

definition u64_checked_add :: "u64 \<Rightarrow> u64 \<Rightarrow> u64 option" where
  "u64_checked_add a b = (if unat a + unat b < 2 ^ 64 then Some (a + b) else None)"

definition u64_checked_sub :: "u64 \<Rightarrow> u64 \<Rightarrow> u64 option" where
  "u64_checked_sub a b = (if b \<le> a then Some (a - b) else None)"

definition u64_checked_mul :: "u64 \<Rightarrow> u64 \<Rightarrow> u64 option" where
  "u64_checked_mul a b = (if unat a * unat b < 2 ^ 64 then Some (a * b) else None)"

definition u64_checked_div :: "u64 \<Rightarrow> u64 \<Rightarrow> u64 option" where
  "u64_checked_div a b = (if b = 0 then None else Some (a div b))"

definition u64_checked_rem :: "u64 \<Rightarrow> u64 \<Rightarrow> u64 option" where
  "u64_checked_rem a b = (if b = 0 then None else Some (a mod b))"

text \<open>Division rounding up; the code calls it with a divisor that is not zero.\<close>

definition div_ceil :: "u64 \<Rightarrow> u64 \<Rightarrow> u64" where
  "div_ceil a b = (if a mod b = 0 then a div b else a div b + 1)"

lemma u64_bound: "unat (a :: u64) < 2 ^ 64"
  using unsigned_less [of a] by simp

lemma checked_add_iff: "u64_checked_add a b = Some c \<longleftrightarrow> unat c = unat a + unat b"
proof -
  have "unat a + unat b < 2 ^ 64 \<Longrightarrow> unat (a + b) = unat a + unat b" by (simp add: unat_word_ariths(1))
  then show ?thesis using u64_bound [of c] by (auto simp: u64_checked_add_def word_unat_eq_iff)
qed

lemma checked_sub_iff: "u64_checked_sub a b = Some c \<longleftrightarrow> unat a = unat b + unat c"
  by (auto simp: u64_checked_sub_def word_le_nat_alt word_unat_eq_iff unat_sub split: if_splits)

lemma checked_mul_iff: "u64_checked_mul a b = Some c \<longleftrightarrow> unat c = unat a * unat b"
proof -
  have "unat a * unat b < 2 ^ 64 \<Longrightarrow> unat (a * b) = unat a * unat b" by (simp add: unat_word_ariths(2))
  then show ?thesis using u64_bound [of c] by (auto simp: u64_checked_mul_def word_unat_eq_iff)
qed

lemma checked_mul_None: "u64_checked_mul a b = None \<longleftrightarrow> 2 ^ 64 \<le> unat a * unat b"
  by (simp add: u64_checked_mul_def not_less)

lemma checked_div_iff: "u64_checked_div a b = Some c \<longleftrightarrow> unat b \<noteq> 0 \<and> unat c = unat a div unat b"
  by (auto simp: u64_checked_div_def word_unat_eq_iff unat_div split: if_splits)

lemma checked_rem_iff: "u64_checked_rem a b = Some c \<longleftrightarrow> unat b \<noteq> 0 \<and> unat c = unat a mod unat b"
  by (auto simp: u64_checked_rem_def word_unat_eq_iff unat_mod split: if_splits)

definition nat_ceil :: "nat \<Rightarrow> nat \<Rightarrow> nat" where
  "nat_ceil a b = (if a mod b = 0 then a div b else a div b + 1)"

lemma nat_ceil_le_iff: "0 < b \<Longrightarrow> nat_ceil a b \<le> c \<longleftrightarrow> a \<le> b * c"
proof -
  assume b: "0 < b"
  have a: "a = b * (a div b) + a mod b" by simp
  show ?thesis
  proof (cases "a mod b = 0")
    case True
    then have "a = b * (a div b)" using a by simp
    then show ?thesis using True b by (metis nat_ceil_def mult_le_cancel1)
  next
    case False
    have "a \<le> b * c \<longleftrightarrow> a div b < c"
    proof
      assume "a \<le> b * c"
      then have "b * (a div b) < b * c" using a False by linarith
      then show "a div b < c" using b by simp
    next
      assume "a div b < c"
      then have "b * (a div b + 1) \<le> b * c" by (intro mult_le_mono2) simp
      moreover have "a mod b < b" using b by simp
      moreover have "b * (a div b + 1) = b * (a div b) + b" by (simp only: distrib_left mult_1_right)
      ultimately show "a \<le> b * c" using a by linarith
    qed
    then show ?thesis using False by (simp add: nat_ceil_def Suc_le_eq)
  qed
qed

lemma nat_ceil_lower: "0 < b \<Longrightarrow> a \<le> b * nat_ceil a b"
  using nat_ceil_le_iff [of b a "nat_ceil a b"] by simp

lemma unat_div_ceil: "b \<noteq> 0 \<Longrightarrow> unat (div_ceil a b) = nat_ceil (unat a) (unat b)"
proof -
  assume "b \<noteq> 0"
  have mod: "a mod b = 0 \<longleftrightarrow> unat a mod unat b = 0" by (simp add: word_unat_eq_iff unat_mod)
  show ?thesis
  proof (cases "a mod b = 0")
    case True
    then show ?thesis by (simp add: div_ceil_def nat_ceil_def mod unat_div)
  next
    case False
    have "unat b \<noteq> 0" using \<open>b \<noteq> 0\<close> by (simp add: unat_eq_0)
    moreover have "unat b \<noteq> 1" using False mod by (metis mod_by_Suc_0 One_nat_def)
    moreover have "unat a \<noteq> 0" using False mod by (metis mod_0)
    ultimately have "unat a div unat b < unat a" by (intro div_less_dividend) linarith+
    then have "unat (a div b) + 1 < 2 ^ 64" using u64_bound [of a] unfolding unat_div by linarith
    then have "unat (a div b + 1) = unat a div unat b + 1" by (simp add: unat_word_ariths(1) unat_div)
    then show ?thesis using False mod by (simp add: div_ceil_def nat_ceil_def)
  qed
qed

subsection \<open>Results of arithmetic\<close>

datatype math_op = Op_Add | Op_Sub | Op_Mul | Op_Div | Op_Rem | Op_Neg

text \<open>\<open>NumOpError\<close> wraps the operation that failed.\<close>

datatype 'a num_op_result = Valid 'a | Error math_op

definition is_overflow :: "math_op \<Rightarrow> bool" where
  "is_overflow op \<longleftrightarrow> op \<in> {Op_Add, Op_Sub, Op_Mul, Op_Neg}"

definition is_div_by_zero :: "math_op \<Rightarrow> bool" where
  "is_div_by_zero op \<longleftrightarrow> \<not> is_overflow op"

fun nor_and_then :: "'a num_op_result \<Rightarrow> ('a \<Rightarrow> 'b num_op_result) \<Rightarrow> 'b num_op_result" where
  "nor_and_then (Valid x) f = f x"
| "nor_and_then (Error e) f = Error e"

fun nor_map :: "('a \<Rightarrow> 'b) \<Rightarrow> 'a num_op_result \<Rightarrow> 'b num_op_result" where
  "nor_map f (Valid x) = Valid (f x)"
| "nor_map f (Error e) = Error e"

fun nor_ok :: "'a num_op_result \<Rightarrow> 'a option" where
  "nor_ok (Valid x) = Some x"
| "nor_ok (Error e) = None"

fun nor_into_result :: "'a num_op_result \<Rightarrow> (math_op, 'a) res" where
  "nor_into_result (Valid x) = Ok x"
| "nor_into_result (Error e) = Err e"

text \<open>\<open>expect\<close> and \<open>unwrap\<close>.\<close>

fun nor_expect :: "'a num_op_result \<Rightarrow> ('e, 'a) res" where
  "nor_expect (Valid x) = Ok x"
| "nor_expect (Error e) = Panic"

fun nor_unwrap_or :: "'a num_op_result \<Rightarrow> 'a \<Rightarrow> 'a" where
  "nor_unwrap_or (Valid x) d = x"
| "nor_unwrap_or (Error e) d = d"

definition valid_or_error :: "'a option \<Rightarrow> math_op \<Rightarrow> 'a num_op_result" where
  "valid_or_error v op = (case v of Some x \<Rightarrow> Valid x | None \<Rightarrow> Error op)"

text \<open>Addition and subtraction of two results, with the operation on their type as an argument.\<close>

fun nor_add :: "('a \<Rightarrow> 'a \<Rightarrow> 'a num_op_result) \<Rightarrow> 'a num_op_result \<Rightarrow> 'a num_op_result \<Rightarrow> 'a num_op_result" where
  "nor_add add (Valid x) (Valid y) = add x y"
| "nor_add add _ _ = Error Op_Add"

fun nor_sub :: "('a \<Rightarrow> 'a \<Rightarrow> 'a num_op_result) \<Rightarrow> 'a num_op_result \<Rightarrow> 'a num_op_result \<Rightarrow> 'a num_op_result" where
  "nor_sub sub (Valid x) (Valid y) = sub x y"
| "nor_sub sub _ _ = Error Op_Sub"

lemma valid_or_error_Valid [simp]: "valid_or_error v op = Valid x \<longleftrightarrow> v = Some x"
  by (simp add: valid_or_error_def split: option.splits)

lemma nor_ok_Some [simp]: "nor_ok r = Some x \<longleftrightarrow> r = Valid x"
  by (cases r) auto

subsection \<open>Unsigned amounts\<close>

text \<open>
  The plain \<open>+\<close> of \<open>checked_add\<close> is the wrapping one here. Two amounts in range add up to less
  than \<open>2 ^ 64\<close>, so the code never wraps and, in a debug build, never panics (\<open>amount_add_no_wrap\<close>).
\<close>

definition sat_in_range :: "u64 \<Rightarrow> u64 option" where
  "sat_in_range s = (case amount_from_sat s of Ok a \<Rightarrow> Some a | _ \<Rightarrow> None)"

definition amount_checked_add :: "u64 \<Rightarrow> u64 \<Rightarrow> u64 option" where
  "amount_checked_add a b = sat_in_range (a + b)"

definition amount_checked_sub :: "u64 \<Rightarrow> u64 \<Rightarrow> u64 option" where
  "amount_checked_sub a b = Option.bind (u64_checked_sub a b) sat_in_range"

definition amount_checked_mul :: "u64 \<Rightarrow> u64 \<Rightarrow> u64 option" where
  "amount_checked_mul a k = Option.bind (u64_checked_mul a k) sat_in_range"

definition amount_checked_div :: "u64 \<Rightarrow> u64 \<Rightarrow> u64 option" where
  "amount_checked_div a k = Option.bind (u64_checked_div a k) sat_in_range"

definition amount_checked_rem :: "u64 \<Rightarrow> u64 \<Rightarrow> u64 option" where
  "amount_checked_rem a k = Option.bind (u64_checked_rem a k) sat_in_range"

definition amount_add :: "u64 \<Rightarrow> u64 \<Rightarrow> u64 num_op_result" where
  "amount_add a b = valid_or_error (amount_checked_add a b) Op_Add"

definition amount_sub :: "u64 \<Rightarrow> u64 \<Rightarrow> u64 num_op_result" where
  "amount_sub a b = valid_or_error (amount_checked_sub a b) Op_Sub"

definition amount_mul :: "u64 \<Rightarrow> u64 \<Rightarrow> u64 num_op_result" where
  "amount_mul a k = valid_or_error (amount_checked_mul a k) Op_Mul"

definition amount_div :: "u64 \<Rightarrow> u64 \<Rightarrow> u64 num_op_result" where
  "amount_div a k = valid_or_error (amount_checked_div a k) Op_Div"

definition amount_rem :: "u64 \<Rightarrow> u64 \<Rightarrow> u64 num_op_result" where
  "amount_rem a k = valid_or_error (amount_checked_rem a k) Op_Rem"

definition amount_div_amount :: "u64 \<Rightarrow> u64 \<Rightarrow> u64 num_op_result" where
  "amount_div_amount a b = valid_or_error (u64_checked_div a b) Op_Div"

definition amount_div_nonzero :: "u64 \<Rightarrow> u64 \<Rightarrow> ('e, u64) res" where
  "amount_div_nonzero a k = (case amount_from_sat (a div k) of Ok x \<Rightarrow> Ok x | _ \<Rightarrow> Panic)"

text \<open>The sum of an iterator of results: once an error, always an error.\<close>

definition amounts_sum :: "u64 num_op_result list \<Rightarrow> u64 num_op_result" where
  "amounts_sum rs = fold (\<lambda>r acc. nor_add amount_add acc r) rs (Valid 0)"

lemma sat_in_range_iff: "sat_in_range s = Some a \<longleftrightarrow> a = s \<and> amount_ok s"
  by (auto simp: sat_in_range_def amount_from_sat_def amount_ok_def)

lemma amount_add_no_wrap: "amount_ok a \<Longrightarrow> amount_ok b \<Longrightarrow> unat (a + b) = unat a + unat b"
  by (simp add: amount_ok_unat unat_word_ariths(1))

lemma amount_checked_add_iff:
  "amount_ok a \<Longrightarrow> amount_ok b \<Longrightarrow> amount_checked_add a b = Some c \<longleftrightarrow> amount_ok c \<and> unat c = unat a + unat b"
  by (auto simp: amount_checked_add_def sat_in_range_iff amount_add_no_wrap word_unat_eq_iff amount_ok_unat)

lemma amount_checked_sub_iff: "amount_checked_sub a b = Some c \<longleftrightarrow> amount_ok c \<and> unat a = unat b + unat c"
  by (auto simp: amount_checked_sub_def bind_eq_Some_conv sat_in_range_iff checked_sub_iff)

lemma amount_checked_mul_iff: "amount_checked_mul a k = Some c \<longleftrightarrow> amount_ok c \<and> unat c = unat a * unat k"
  by (auto simp: amount_checked_mul_def bind_eq_Some_conv sat_in_range_iff checked_mul_iff)

lemma amount_checked_div_iff:
  "amount_checked_div a k = Some c \<longleftrightarrow> amount_ok c \<and> unat k \<noteq> 0 \<and> unat c = unat a div unat k"
  by (auto simp: amount_checked_div_def bind_eq_Some_conv sat_in_range_iff checked_div_iff)

lemma amount_checked_rem_iff:
  "amount_checked_rem a k = Some c \<longleftrightarrow> amount_ok c \<and> unat k \<noteq> 0 \<and> unat c = unat a mod unat k"
  by (auto simp: amount_checked_rem_def bind_eq_Some_conv sat_in_range_iff checked_rem_iff)

lemmas amount_checked_iffs = amount_checked_add_iff amount_checked_sub_iff amount_checked_mul_iff
  amount_checked_div_iff amount_checked_rem_iff

text \<open>The numbers in the range of an amount.\<close>

definition money_range :: "nat \<Rightarrow> nat option" where
  "money_range n = (if n \<le> 2100000000000000 then Some n else None)"

lemma money_range_Some [simp]: "money_range n = Some m \<longleftrightarrow> m = n \<and> n \<le> 2100000000000000"
  by (auto simp: money_range_def)

lemma option_eqI: "(\<And>x. a = Some x \<longleftrightarrow> b = Some x) \<Longrightarrow> a = b"
  by (cases a; cases b) auto

lemma u64_of_nat: "n < 2 ^ 64 \<Longrightarrow> \<exists>w :: u64. unat w = n"
  by (rule exI [of _ "word_of_nat n"]) (simp add: unat_of_nat)

lemma map_unat_eqI:
  assumes "\<And>c. r = Some c \<longleftrightarrow> amount_ok c \<and> unat c = n"
  shows "map_option unat r = money_range n"
proof (cases "n \<le> 2100000000000000")
  case True
  then obtain w :: u64 where w: "unat w = n" using u64_of_nat [of n] by auto
  then have "r = Some w" using assms True by (simp add: amount_ok_unat)
  then show ?thesis using w True by (simp add: money_range_def)
next
  case False
  then have "r \<noteq> Some c" for c by (simp add: assms amount_ok_unat)
  then have "r = None" by (cases r) auto
  then show ?thesis using False by (simp add: money_range_def)
qed

lemma map_unat_None: "(\<And>c. r \<noteq> Some c) \<Longrightarrow> map_option unat r = None"
  by (cases r) auto

text \<open>
  Property C40. On amounts in range the checked operations are the operations of the natural numbers: the result is
  the exact sum, difference, product, quotient or remainder, and \<open>None\<close> exactly when that number
  does not exist (a negative difference, a division by zero) or is above the maximum. Together they keep the
  invariant of the type, as every number they return is in range.
\<close>

theorem amount_arithmetic:
  assumes "amount_ok a" "amount_ok b"
  shows "map_option unat (amount_checked_add a b) = money_range (unat a + unat b)
    \<and> map_option unat (amount_checked_sub a b) = (if unat b \<le> unat a then money_range (unat a - unat b) else None)
    \<and> map_option unat (amount_checked_mul a k) = money_range (unat a * unat k)
    \<and> map_option unat (amount_checked_div a k) = (if unat k = 0 then None else money_range (unat a div unat k))
    \<and> map_option unat (amount_checked_rem a k) = (if unat k = 0 then None else money_range (unat a mod unat k))"
proof (intro conjI)
  show "map_option unat (amount_checked_add a b) = money_range (unat a + unat b)"
    by (rule map_unat_eqI) (simp add: amount_checked_add_iff assms)
  show "map_option unat (amount_checked_sub a b) = (if unat b \<le> unat a then money_range (unat a - unat b) else None)"
  proof (cases "unat b \<le> unat a")
    case True
    have "amount_checked_sub a b = Some c \<longleftrightarrow> amount_ok c \<and> unat c = unat a - unat b" for c
      using True by (auto simp: amount_checked_sub_iff)
    then show ?thesis using True by (simp add: map_unat_eqI)
  next
    case False
    then show ?thesis by (simp add: amount_checked_sub_def u64_checked_sub_def word_le_nat_alt)
  qed
  show "map_option unat (amount_checked_mul a k) = money_range (unat a * unat k)"
    by (rule map_unat_eqI) (simp add: amount_checked_mul_iff)
  show "map_option unat (amount_checked_div a k) = (if unat k = 0 then None else money_range (unat a div unat k))"
    by (auto intro!: map_unat_eqI simp: amount_checked_div_iff) (simp add: amount_checked_div_def u64_checked_div_def unat_eq_0)
  show "map_option unat (amount_checked_rem a k) = (if unat k = 0 then None else money_range (unat a mod unat k))"
    by (auto intro!: map_unat_eqI simp: amount_checked_rem_iff) (simp add: amount_checked_rem_def u64_checked_rem_def unat_eq_0)
qed

theorem amount_arithmetic_witness:
  "map_option unat (amount_checked_add 7 MAX_MONEY) = None \<and> map_option unat (amount_checked_sub 7 MAX_MONEY) = None"
  using amount_arithmetic [of 7 MAX_MONEY 0] by (simp add: amount_ok_unat money_range_def)

subsubsection \<open>Sums\<close>

text \<open>The code's sum of two amounts in range, and the reference for a list: the exact total if every summand is valid and
  the total is in range.\<close>

fun nor_is_valid :: "'a num_op_result \<Rightarrow> bool" where
  "nor_is_valid (Valid x) = True"
| "nor_is_valid (Error e) = False"

fun sats_of :: "u64 num_op_result \<Rightarrow> nat" where
  "sats_of (Valid a) = unat a"
| "sats_of (Error e) = 0"

definition exact_sum :: "nat \<Rightarrow> u64 num_op_result list \<Rightarrow> u64 num_op_result" where
  "exact_sum n rs =
     (if list_all nor_is_valid rs \<and> n + sum_list (map sats_of rs) \<le> 2100000000000000
      then Valid (word_of_nat (n + sum_list (map sats_of rs))) else Error Op_Add)"

lemma amount_add_cases:
  assumes "amount_ok a" "amount_ok b"
  shows "amount_add a b = (if unat a + unat b \<le> 2100000000000000 then Valid (a + b) else Error Op_Add)"
  using amount_add_no_wrap [OF assms]
  by (simp add: amount_add_def valid_or_error_def amount_checked_add_def sat_in_range_def amount_from_sat_def word_less_nat_alt)

lemma fold_error: "fold (\<lambda>r acc. nor_add amount_add acc r) rs (Error Op_Add) = Error Op_Add"
  by (induction rs) auto

lemma fold_amounts:
  assumes "amount_ok acc" "\<forall>a. Valid a \<in> set rs \<longrightarrow> amount_ok a"
  shows "fold (\<lambda>r acc. nor_add amount_add acc r) rs (Valid acc) = exact_sum (unat acc) rs"
  using assms
proof (induction rs arbitrary: acc)
  case Nil
  then show ?case by (simp add: exact_sum_def amount_ok_unat)
next
  case (Cons r rs)
  show ?case
  proof (cases r)
    case (Error e)
    then show ?thesis by (simp add: exact_sum_def fold_error)
  next
    case (Valid a)
    then have a: "amount_ok a" using Cons.prems by simp
    have acc: "unat (acc + a) = unat acc + unat a" by (rule amount_add_no_wrap [OF Cons.prems(1) a])
    show ?thesis
    proof (cases "unat acc + unat a \<le> 2100000000000000")
      case True
      then have "amount_ok (acc + a)" by (simp add: amount_ok_unat acc)
      then show ?thesis using True Valid Cons.IH [of "acc + a"] Cons.prems
        by (simp add: amount_add_cases [OF Cons.prems(1) a] exact_sum_def acc add.assoc)
    next
      case False
      then show ?thesis using Valid
        by (simp add: amount_add_cases [OF Cons.prems(1) a] exact_sum_def fold_error)
    qed
  qed
qed

lemma amounts_sum_exact: "\<forall>a. Valid a \<in> set rs \<longrightarrow> amount_ok a \<Longrightarrow> amounts_sum rs = exact_sum 0 rs"
  using fold_amounts [of 0 rs] by (simp add: amounts_sum_def amount_ok_def)

subsection \<open>Signed amounts\<close>

definition i64_min :: int where "i64_min = - (2 ^ 63)"
definition i64_max :: int where "i64_max = 2 ^ 63 - 1"

definition i64_fit :: "int \<Rightarrow> int option" where
  "i64_fit n = (if i64_min \<le> n \<and> n \<le> i64_max then Some n else None)"

text \<open>Division of \<open>i64\<close> truncates towards zero; it fails on a zero divisor and where the quotient is \<open>2 ^ 63\<close>, and
  the remainder fails with it.\<close>

definition i64_checked_div :: "int \<Rightarrow> int \<Rightarrow> int option" where
  "i64_checked_div a b = (if b = 0 then None else i64_fit (a sdiv b))"

definition i64_checked_rem :: "int \<Rightarrow> int \<Rightarrow> int option" where
  "i64_checked_rem a b = (if b = 0 \<or> i64_fit (a sdiv b) = None then None else Some (a smod b))"

definition SIGNED_MAX :: int where "SIGNED_MAX = 21000000 * 100000000"
definition SIGNED_MIN :: int where "SIGNED_MIN = - 21000000 * 100000000"

definition signed_from_sat :: "int \<Rightarrow> (out_of_range_error, int) res" where
  "signed_from_sat s =
     (if s < SIGNED_MIN then Err \<lparr>is_signed = True, is_greater_than_max = False\<rparr>
      else if s > SIGNED_MAX then Err \<lparr>is_signed = True, is_greater_than_max = True\<rparr>
      else Ok s)"

definition signed_ok :: "int \<Rightarrow> bool" where
  "signed_ok s \<longleftrightarrow> SIGNED_MIN \<le> s \<and> s \<le> SIGNED_MAX"

definition signed_in_range :: "int \<Rightarrow> int option" where
  "signed_in_range s = (case signed_from_sat s of Ok a \<Rightarrow> Some a | _ \<Rightarrow> None)"

definition signed_expect :: "int \<Rightarrow> ('e, int) res" where
  "signed_expect s = (case signed_from_sat s of Ok a \<Rightarrow> Ok a | _ \<Rightarrow> Panic)"

definition signed_abs :: "int \<Rightarrow> ('e, int) res" where
  "signed_abs a = signed_expect \<bar>a\<bar>"

definition signed_neg :: "int \<Rightarrow> ('e, int) res" where
  "signed_neg a = signed_expect (- a)"

definition signed_signum :: "int \<Rightarrow> int" where "signed_signum a = sgn a"
definition signed_is_positive :: "int \<Rightarrow> bool" where "signed_is_positive a \<longleftrightarrow> 0 < a"
definition signed_is_negative :: "int \<Rightarrow> bool" where "signed_is_negative a \<longleftrightarrow> a < 0"

definition signed_checked_add :: "int \<Rightarrow> int \<Rightarrow> int option" where
  "signed_checked_add a b = Option.bind (i64_fit (a + b)) signed_in_range"

definition signed_checked_sub :: "int \<Rightarrow> int \<Rightarrow> int option" where
  "signed_checked_sub a b = Option.bind (i64_fit (a - b)) signed_in_range"

definition signed_checked_mul :: "int \<Rightarrow> int \<Rightarrow> int option" where
  "signed_checked_mul a k = Option.bind (i64_fit (a * k)) signed_in_range"

definition signed_checked_div :: "int \<Rightarrow> int \<Rightarrow> int option" where
  "signed_checked_div a k = Option.bind (i64_checked_div a k) signed_in_range"

definition signed_checked_rem :: "int \<Rightarrow> int \<Rightarrow> int option" where
  "signed_checked_rem a k = Option.bind (i64_checked_rem a k) signed_in_range"

definition signed_add :: "int \<Rightarrow> int \<Rightarrow> int num_op_result" where
  "signed_add a b = valid_or_error (signed_checked_add a b) Op_Add"

definition signed_sub :: "int \<Rightarrow> int \<Rightarrow> int num_op_result" where
  "signed_sub a b = valid_or_error (signed_checked_sub a b) Op_Sub"

definition signed_mul :: "int \<Rightarrow> int \<Rightarrow> int num_op_result" where
  "signed_mul a k = valid_or_error (signed_checked_mul a k) Op_Mul"

definition signed_div :: "int \<Rightarrow> int \<Rightarrow> int num_op_result" where
  "signed_div a k = valid_or_error (signed_checked_div a k) Op_Div"

definition signed_rem :: "int \<Rightarrow> int \<Rightarrow> int num_op_result" where
  "signed_rem a k = valid_or_error (signed_checked_rem a k) Op_Rem"

definition signed_div_signed :: "int \<Rightarrow> int \<Rightarrow> int num_op_result" where
  "signed_div_signed a b = valid_or_error (i64_checked_div a b) Op_Div"

definition positive_sub :: "int \<Rightarrow> int \<Rightarrow> int option" where
  "positive_sub a b =
     (if signed_is_negative a \<or> signed_is_negative b \<or> b > a then None else signed_checked_sub a b)"

definition signed_amounts_sum :: "int num_op_result list \<Rightarrow> int num_op_result" where
  "signed_amounts_sum rs = fold (\<lambda>r acc. nor_add signed_add acc r) rs (Valid 0)"

text \<open>Conversions; \<open>as u64\<close> and \<open>as i64\<close> keep the two's complement bits.\<close>

definition to_unsigned :: "int \<Rightarrow> (out_of_range_error, u64) res" where
  "to_unsigned a =
     (if signed_is_negative a then Err \<lparr>is_signed = False, is_greater_than_max = False\<rparr>
      else case amount_from_sat (word_of_int a) of Ok x \<Rightarrow> Ok x | _ \<Rightarrow> Panic)"

definition unsigned_abs :: "int \<Rightarrow> ('e, u64) res" where
  "unsigned_abs a = res_bind (signed_abs a) (\<lambda>b. case to_unsigned b of Ok x \<Rightarrow> Ok x | _ \<Rightarrow> Panic)"

definition to_signed :: "u64 \<Rightarrow> ('e, int) res" where
  "to_signed a = signed_expect (sint a)"

definition amount_signed_sub :: "u64 \<Rightarrow> u64 \<Rightarrow> ('e, int) res" where
  "amount_signed_sub a b =
     res_bind (to_signed a) (\<lambda>x. res_bind (to_signed b) (\<lambda>y. nor_expect (signed_sub x y)))"

definition valid_range :: "out_of_range_error \<Rightarrow> int \<times> nat" where
  "valid_range e = (if is_signed e then (i64_min, nat i64_max) else (0, 2 ^ 64 - 1))"

subsubsection \<open>The signed operations are exact\<close>

definition signed_range :: "int \<Rightarrow> int option" where
  "signed_range n = (if signed_ok n then Some n else None)"

lemmas signed_bounds = signed_ok_def SIGNED_MIN_def SIGNED_MAX_def i64_min_def i64_max_def

lemma signed_in_range_eq: "signed_in_range n = signed_range n"
  by (simp add: signed_in_range_def signed_from_sat_def signed_range_def signed_bounds)

lemma signed_expect_ok: "signed_ok n \<Longrightarrow> signed_expect n = Ok n"
  by (simp add: signed_expect_def signed_from_sat_def signed_bounds)

lemma i64_fit_range: "Option.bind (i64_fit n) signed_in_range = signed_range n"
  by (simp add: i64_fit_def signed_in_range_eq signed_range_def signed_bounds)

lemma abs_sgn_mult_le: "0 \<le> y \<Longrightarrow> \<bar>sgn (x :: int) * y\<bar> \<le> y"
  by (simp add: abs_mult sgn_if)

lemma abs_sdiv_le: "\<bar>(a :: int) sdiv b\<bar> \<le> \<bar>a\<bar>"
proof (cases "b = 0")
  case False
  then have nonneg: "0 \<le> \<bar>a\<bar> div \<bar>b\<bar>" by (simp add: pos_imp_zdiv_nonneg_iff)
  have "\<bar>a sdiv b\<bar> = \<bar>sgn (a * b) * (\<bar>a\<bar> div \<bar>b\<bar>)\<bar>" by (simp add: signed_divide_int_def sgn_mult)
  also have "\<dots> \<le> \<bar>a\<bar> div \<bar>b\<bar>" by (rule abs_sgn_mult_le [OF nonneg])
  also have "\<dots> \<le> \<bar>a\<bar>" using zdiv_mono2 [of "\<bar>a\<bar>" 1 "\<bar>b\<bar>"] False by simp
  finally show ?thesis .
qed (simp add: signed_divide_int_def)

lemma abs_smod_le: "\<bar>(a :: int) smod b\<bar> \<le> \<bar>a\<bar>"
proof (cases "b = 0")
  case False
  have "\<bar>a smod b\<bar> = \<bar>sgn a * (\<bar>a\<bar> mod \<bar>b\<bar>)\<bar>" by (simp add: signed_modulo_int_def)
  also have "\<dots> \<le> \<bar>a\<bar> mod \<bar>b\<bar>" using False by (intro abs_sgn_mult_le) simp
  also have "\<dots> \<le> \<bar>a\<bar>" using False by (intro zmod_le_nonneg_dividend) simp
  finally show ?thesis .
qed (simp add: signed_modulo_int_def abs_mult sgn_if)

lemma signed_ok_abs: "signed_ok a \<longleftrightarrow> \<bar>a\<bar> \<le> 2100000000000000"
  unfolding signed_bounds by linarith

lemma signed_ok_abs_le: "signed_ok a \<Longrightarrow> \<bar>b\<bar> \<le> \<bar>a\<bar> \<Longrightarrow> signed_ok b"
  unfolding signed_ok_abs by linarith

lemma i64_fit_ok: "signed_ok a \<Longrightarrow> i64_fit a = Some a"
  by (simp add: i64_fit_def signed_bounds)

lemma signed_checked_div_eq:
  assumes "signed_ok a"
  shows "signed_checked_div a k = (if k = 0 then None else Some (a sdiv k))"
proof -
  have "signed_ok (a sdiv k)" by (rule signed_ok_abs_le [OF assms abs_sdiv_le])
  then show ?thesis by (simp add: signed_checked_div_def i64_checked_div_def i64_fit_range signed_range_def)
qed

lemma signed_checked_rem_eq:
  assumes "signed_ok a"
  shows "signed_checked_rem a k = (if k = 0 then None else Some (a smod k))"
proof -
  have "i64_fit (a sdiv k) = Some (a sdiv k)" by (simp add: i64_fit_ok [OF signed_ok_abs_le [OF assms abs_sdiv_le]])
  moreover have "signed_ok (a smod k)" by (rule signed_ok_abs_le [OF assms abs_smod_le])
  ultimately show ?thesis
    by (simp add: signed_checked_rem_def i64_checked_rem_def signed_in_range_eq signed_range_def)
qed

text \<open>
  On signed amounts in range the checked operations are those of the integers: the exact sum, difference or product if it is in
  range, and the truncated quotient or the remainder unless the divisor is zero. The checks of the machine type never decide.
\<close>

lemma signed_arithmetic:
  assumes "signed_ok a" "signed_ok b"
  shows "signed_checked_add a b = signed_range (a + b)"
    and "signed_checked_sub a b = signed_range (a - b)"
    and "signed_checked_mul a k = signed_range (a * k)"
    and "signed_checked_div a k = (if k = 0 then None else Some (a sdiv k))"
    and "signed_checked_rem a k = (if k = 0 then None else Some (a smod k))"
    and "positive_sub a b = (if 0 \<le> b \<and> b \<le> a then Some (a - b) else None)"
  using assms
  by (simp_all add: signed_checked_add_def signed_checked_sub_def signed_checked_mul_def i64_fit_range
      signed_checked_div_eq signed_checked_rem_eq)
    (auto simp: positive_sub_def signed_is_negative_def signed_checked_sub_def i64_fit_range signed_range_def signed_bounds)

lemma amount_ok_uint: "amount_ok a \<longleftrightarrow> uint a \<le> 2100000000000000"
  unfolding amount_ok_unat by (simp only: uint_nat) linarith

lemma sint_amount: "amount_ok a \<Longrightarrow> sint a = uint a"
proof -
  assume "amount_ok a"
  then have "uint a < 2 ^ 63" by (simp add: amount_ok_uint)
  moreover have "- (2 ^ 63) \<le> uint a" by (rule order_trans [OF _ uint_ge_0]) simp
  ultimately have "signed_take_bit 63 (uint a) = uint a" by (intro signed_take_bit_int_eq_self)
  then show ?thesis by (simp add: sint_uint)
qed

lemma amount_signed_ok: "amount_ok a \<Longrightarrow> signed_ok (uint a)"
  by (simp add: amount_ok_uint signed_ok_abs)

lemma to_signed_eq: "amount_ok a \<Longrightarrow> to_signed a = Ok (uint a)"
  by (simp add: to_signed_def sint_amount signed_expect_ok amount_signed_ok)

lemma to_unsigned_eq:
  assumes "signed_ok n" "0 \<le> n"
  shows "to_unsigned n = Ok (word_of_int n)" and "uint (word_of_int n :: u64) = n"
proof -
  have "n < 2 ^ 64" using assms by (simp add: signed_bounds)
  then show n: "uint (word_of_int n :: u64) = n" using assms by (simp add: uint_word_of_int)
  then have "amount_ok (word_of_int n)" using assms by (simp add: amount_ok_uint signed_bounds)
  then show "to_unsigned n = Ok (word_of_int n)" using assms
    by (simp add: to_unsigned_def signed_is_negative_def amount_from_sat_def amount_ok_def)
qed

text \<open>
  Conversions between the two amount types lose nothing and none of their \<open>expect\<close>s fails: an
  unsigned amount becomes the signed amount of the same number of satoshis and comes back unchanged, the difference of
  two unsigned amounts is the exact signed difference, and \<open>abs\<close>, \<open>unsigned_abs\<close> and negation of a signed amount are exact.
\<close>

theorem signed_conversions:
  assumes "amount_ok a" "amount_ok b" "signed_ok n"
  shows "to_signed a = (Ok (uint a) :: ('e, int) res) \<and> to_unsigned (uint a) = Ok a
    \<and> amount_signed_sub a b = (Ok (uint a - uint b) :: ('e, int) res)
    \<and> signed_abs n = (Ok \<bar>n\<bar> :: ('e, int) res) \<and> signed_neg n = (Ok (- n) :: ('e, int) res)
    \<and> (\<exists>m. unsigned_abs n = (Ok m :: ('e, u64) res) \<and> uint m = \<bar>n\<bar>)"
proof (intro conjI)
  have ok: "signed_ok (uint a)" "signed_ok (uint a - uint b)" "signed_ok \<bar>n\<bar>" "signed_ok (- n)"
    using assms uint_ge_0 [of a] uint_ge_0 [of b] unfolding signed_ok_abs amount_ok_uint by linarith+
  show "to_signed a = (Ok (uint a) :: ('e, int) res)" by (rule to_signed_eq [OF assms(1)])
  show "to_unsigned (uint a) = Ok a" using to_unsigned_eq(1) [OF ok(1)] by simp
  show "amount_signed_sub a b = (Ok (uint a - uint b) :: ('e, int) res)" using ok(2)
    by (simp add: amount_signed_sub_def to_signed_eq assms signed_sub_def signed_checked_sub_def i64_fit_range
        signed_range_def valid_or_error_def)
  show "signed_abs n = (Ok \<bar>n\<bar> :: ('e, int) res)" "signed_neg n = (Ok (- n) :: ('e, int) res)"
    by (simp_all add: signed_abs_def signed_neg_def signed_expect_ok ok)
  have "unsigned_abs n = (Ok (word_of_int \<bar>n\<bar>) :: ('e, u64) res)" using to_unsigned_eq(1) [OF ok(3)]
    by (simp add: unsigned_abs_def signed_abs_def signed_expect_ok ok)
  then show "\<exists>m. unsigned_abs n = (Ok m :: ('e, u64) res) \<and> uint m = \<bar>n\<bar>" using to_unsigned_eq(2) [OF ok(3)] by simp
qed

theorem signed_conversions_witness:
  "(amount_signed_sub 3 MAX_MONEY :: (unit, int) res) = Ok (- 2099999999999997)"
  using signed_conversions [of 3 MAX_MONEY 0, where ?'e = unit] by (simp add: amount_ok_uint signed_ok_abs MAX_MONEY_def)

text \<open>The range that an \<open>OutOfRangeError\<close> reports is that of the machine integer, not that of the amount.\<close>

lemma valid_range_not_MAX:
  "valid_range \<lparr>is_signed = False, is_greater_than_max = True\<rparr> = (0, 18446744073709551615)"
  "amount_from_sat 18446744073709551615 = Err \<lparr>is_signed = False, is_greater_than_max = True\<rparr>"
  by (simp_all add: valid_range_def amount_from_sat_def MAX_MONEY_def word_less_nat_alt)

end
