(* ===== verification/Fees.thy ===== *)
theory Fees
  imports Amount_Arith
begin

section \<open>Weights, fee rates and fees\<close>

text \<open>
  \<open>units/src/weight.rs\<close>, \<open>units/src/fee_rate/mod.rs\<close>, \<open>units/src/fee.rs\<close> and the divisions of
  \<open>units/src/amount/unsigned.rs\<close>. A \<open>Weight\<close> is its \<open>u64\<close> of weight units and a \<open>FeeRate\<close> its \<open>u64\<close> of
  satoshis per million virtual bytes, that is per four million weight units. The theorems relate fees, weights and rates as
  an adjunction: the greatest weight or rate that an amount pays for is exactly the one the rounding division returns.
\<close>

subsection \<open>Weights\<close>

definition SCALE_FACTOR :: u64 where "SCALE_FACTOR = 4"

definition weight_from_kwu :: "u64 \<Rightarrow> u64 option" where
  "weight_from_kwu k = u64_checked_mul k 1000"

definition weight_from_vb :: "u64 \<Rightarrow> u64 option" where
  "weight_from_vb vb = u64_checked_mul vb SCALE_FACTOR"

definition to_kwu_floor :: "u64 \<Rightarrow> u64" where "to_kwu_floor w = w div 1000"
definition to_kwu_ceil :: "u64 \<Rightarrow> u64" where "to_kwu_ceil w = div_ceil w 1000"
definition to_vbytes_floor :: "u64 \<Rightarrow> u64" where "to_vbytes_floor w = w div SCALE_FACTOR"
definition to_vbytes_ceil :: "u64 \<Rightarrow> u64" where "to_vbytes_ceil w = div_ceil w SCALE_FACTOR"

definition weight_checked_add :: "u64 \<Rightarrow> u64 \<Rightarrow> u64 option" where
  "weight_checked_add a b = u64_checked_add a b"

definition weight_checked_sub :: "u64 \<Rightarrow> u64 \<Rightarrow> u64 option" where
  "weight_checked_sub a b = u64_checked_sub a b"

definition weight_checked_mul :: "u64 \<Rightarrow> u64 \<Rightarrow> u64 option" where
  "weight_checked_mul a k = u64_checked_mul a k"

definition weight_checked_div :: "u64 \<Rightarrow> u64 \<Rightarrow> u64 option" where
  "weight_checked_div a k = u64_checked_div a k"

subsection \<open>Fee rates\<close>

definition from_sat_per_kwu :: "u32 \<Rightarrow> u64" where "from_sat_per_kwu s = ucast s * 4000"
definition from_sat_per_vb :: "u32 \<Rightarrow> u64" where "from_sat_per_vb s = ucast s * 1000000"
definition from_sat_per_kvb :: "u32 \<Rightarrow> u64" where "from_sat_per_kvb s = ucast s * 1000"

definition from_per_kwu :: "u64 \<Rightarrow> u64 num_op_result" where
  "from_per_kwu r = (case amount_checked_mul r 4000 of Some x \<Rightarrow> Valid x | None \<Rightarrow> Error Op_Mul)"

definition from_per_vb :: "u64 \<Rightarrow> u64 num_op_result" where
  "from_per_vb r = (case amount_checked_mul r 1000000 of Some x \<Rightarrow> Valid x | None \<Rightarrow> Error Op_Mul)"

definition from_per_kvb :: "u64 \<Rightarrow> u64 num_op_result" where
  "from_per_kvb r = (case amount_checked_mul r 1000 of Some x \<Rightarrow> Valid x | None \<Rightarrow> Error Op_Mul)"

definition to_sat_per_kwu_floor :: "u64 \<Rightarrow> u64" where "to_sat_per_kwu_floor r = r div 4000"
definition to_sat_per_kwu_ceil :: "u64 \<Rightarrow> u64" where "to_sat_per_kwu_ceil r = div_ceil r 4000"
definition to_sat_per_vb_floor :: "u64 \<Rightarrow> u64" where "to_sat_per_vb_floor r = r div 1000000"
definition to_sat_per_vb_ceil :: "u64 \<Rightarrow> u64" where "to_sat_per_vb_ceil r = div_ceil r 1000000"
definition to_sat_per_kvb_floor :: "u64 \<Rightarrow> u64" where "to_sat_per_kvb_floor r = r div 1000"
definition to_sat_per_kvb_ceil :: "u64 \<Rightarrow> u64" where "to_sat_per_kvb_ceil r = div_ceil r 1000"

definition fee_rate_checked_mul :: "u64 \<Rightarrow> u64 \<Rightarrow> u64 option" where
  "fee_rate_checked_mul r k = u64_checked_mul r k"

definition fee_rate_checked_div :: "u64 \<Rightarrow> u64 \<Rightarrow> u64 option" where
  "fee_rate_checked_div r k = u64_checked_div r k"

definition fee_rate_checked_add :: "u64 \<Rightarrow> u64 \<Rightarrow> u64 option" where
  "fee_rate_checked_add r s = u64_checked_add r s"

definition fee_rate_checked_sub :: "u64 \<Rightarrow> u64 \<Rightarrow> u64 option" where
  "fee_rate_checked_sub r s = u64_checked_sub r s"

subsection \<open>Fees\<close>

definition mul_by_weight :: "u64 \<Rightarrow> u64 \<Rightarrow> u64 num_op_result" where
  "mul_by_weight r w =
     (case u64_checked_mul (to_sat_per_kwu_ceil r) w of
        Some fee_kwu \<Rightarrow>
          (case amount_from_sat (div_ceil fee_kwu 1000) of Ok fee \<Rightarrow> Valid fee | _ \<Rightarrow> Error Op_Mul)
      | None \<Rightarrow> Error Op_Mul)"

definition to_fee :: "u64 \<Rightarrow> u64 \<Rightarrow> u64" where
  "to_fee r w = (case mul_by_weight r w of Valid fee \<Rightarrow> fee | Error _ \<Rightarrow> MAX_MONEY)"

definition mul_by_fee_rate :: "u64 \<Rightarrow> u64 \<Rightarrow> u64 num_op_result" where
  "mul_by_fee_rate w r = mul_by_weight r w"

definition div_by_weight_floor :: "u64 \<Rightarrow> u64 \<Rightarrow> u64 num_op_result" where
  "div_by_weight_floor a wu =
     (case u64_checked_mul a 1000 of
        Some sats \<Rightarrow>
          (case u64_checked_div sats wu of
             Some fee_rate \<Rightarrow>
               (case amount_from_sat fee_rate of Ok x \<Rightarrow> from_per_kwu x | _ \<Rightarrow> Error Op_Mul)
           | None \<Rightarrow> Error Op_Div)
      | None \<Rightarrow> Error Op_Mul)"

definition div_by_weight_ceil :: "u64 \<Rightarrow> u64 \<Rightarrow> u64 num_op_result" where
  "div_by_weight_ceil a wu =
     (if wu = 0 then Error Op_Div
      else case u64_checked_mul a 1000 of
        Some sats \<Rightarrow>
          (case amount_from_sat (div_ceil sats wu) of Ok x \<Rightarrow> from_per_kwu x | _ \<Rightarrow> Error Op_Mul)
      | None \<Rightarrow> Error Op_Mul)"

text \<open>The plain product \<open>self.to_sat() * 1_000\<close> does not overflow on an amount in range.\<close>

definition div_by_fee_rate_floor :: "u64 \<Rightarrow> u64 \<Rightarrow> u64 num_op_result" where
  "div_by_fee_rate_floor a r =
     (case u64_checked_div (a * 1000) (to_sat_per_kwu_ceil r) of Some wu \<Rightarrow> Valid wu | None \<Rightarrow> Error Op_Div)"

definition div_by_fee_rate_ceil :: "u64 \<Rightarrow> u64 \<Rightarrow> u64 num_op_result" where
  "div_by_fee_rate_ceil a r =
     (let rate = to_sat_per_kwu_ceil r in
      if rate = 0 then Error Op_Div else Valid (div_ceil (a * 1000) rate))"

text \<open>The operators of \<open>fee.rs\<close> on results: the error of the left operand comes first.\<close>

definition nor_lift2 ::
  "('a \<Rightarrow> 'b \<Rightarrow> 'c num_op_result) \<Rightarrow> 'a num_op_result \<Rightarrow> 'b num_op_result \<Rightarrow> 'c num_op_result" where
  "nor_lift2 f l r = nor_and_then l (\<lambda>x. nor_and_then r (f x))"

definition weight_mul_rate :: "u64 num_op_result \<Rightarrow> u64 num_op_result \<Rightarrow> u64 num_op_result" where
  "weight_mul_rate = nor_lift2 (\<lambda>w r. mul_by_weight r w)"

definition rate_mul_weight :: "u64 num_op_result \<Rightarrow> u64 num_op_result \<Rightarrow> u64 num_op_result" where
  "rate_mul_weight = nor_lift2 mul_by_weight"

definition amount_div_weight :: "u64 num_op_result \<Rightarrow> u64 num_op_result \<Rightarrow> u64 num_op_result" where
  "amount_div_weight = nor_lift2 div_by_weight_floor"

definition amount_div_rate :: "u64 num_op_result \<Rightarrow> u64 num_op_result \<Rightarrow> u64 num_op_result" where
  "amount_div_rate = nor_lift2 div_by_fee_rate_floor"

subsection \<open>What the operations compute\<close>

text \<open>The rate in satoshis per thousand weight units that the fee is computed from.\<close>

definition kwu_rate :: "u64 \<Rightarrow> nat" where "kwu_rate r = nat_ceil (unat r) 4000"

lemma unat_kwu_ceil [simp]: "unat (to_sat_per_kwu_ceil r) = kwu_rate r"
  by (simp add: to_sat_per_kwu_ceil_def unat_div_ceil kwu_rate_def)

lemma mul_by_weight_Valid:
  "mul_by_weight r w = Valid fee \<longleftrightarrow> amount_ok fee \<and> unat fee = nat_ceil (kwu_rate r * unat w) 1000"
proof (cases "u64_checked_mul (to_sat_per_kwu_ceil r) w")
  case None
  then have big: "2 ^ 64 \<le> kwu_rate r * unat w" by (simp only: checked_mul_None unat_kwu_ceil)
  have "\<not> nat_ceil (kwu_rate r * unat w) 1000 \<le> 2100000000000000"
    using big by (simp add: nat_ceil_le_iff)
  then show ?thesis using None by (auto simp: mul_by_weight_def amount_ok_unat)
next
  case (Some f)
  then have f: "unat f = kwu_rate r * unat w" by (simp add: checked_mul_iff)
  have "unat (div_ceil f 1000) = nat_ceil (kwu_rate r * unat w) 1000" by (simp add: unat_div_ceil f)
  then show ?thesis using Some
    by (auto simp: mul_by_weight_def amount_from_sat_def amount_ok_unat word_less_nat_alt word_unat_eq_iff split: if_splits)
qed

lemma kwu_rate_from_per_kwu: "from_per_kwu x = Valid r \<Longrightarrow> kwu_rate r = unat x"
  by (auto simp: from_per_kwu_def amount_checked_mul_iff kwu_rate_def nat_ceil_def split: option.splits)

lemma unat_msats: "amount_ok a \<Longrightarrow> unat (a * 1000) = unat a * 1000"
  by (simp add: amount_ok_unat unat_word_ariths(2))

lemma checked_msats: "amount_ok a \<Longrightarrow> u64_checked_mul a 1000 = Some (a * 1000)"
  by (simp add: checked_mul_iff unat_msats)

lemma to_fee_ge: "a \<le> MAX_MONEY \<Longrightarrow> unat a * 1000 \<le> kwu_rate r * unat w \<Longrightarrow> a \<le> to_fee r w"
proof (cases "mul_by_weight r w")
  case (Valid fee)
  assume "unat a * 1000 \<le> kwu_rate r * unat w"
  moreover have "kwu_rate r * unat w \<le> 1000 * unat fee"
    using Valid nat_ceil_lower [of 1000 "kwu_rate r * unat w"] by (simp add: mul_by_weight_Valid)
  ultimately have "unat a \<le> unat fee" by linarith
  then show "a \<le> to_fee r w" using Valid by (simp add: to_fee_def word_le_nat_alt)
qed (simp add: to_fee_def)

text \<open>An amount pays for a weight at a rate: the fee exists and is at most the amount.\<close>

definition pays :: "u64 \<Rightarrow> u64 \<Rightarrow> u64 \<Rightarrow> bool" where
  "pays a r w = (case mul_by_weight r w of Valid fee \<Rightarrow> fee \<le> a | Error _ \<Rightarrow> False)"

lemma pays_iff:
  assumes "amount_ok a"
  shows "pays a r w \<longleftrightarrow> kwu_rate r * unat w \<le> 1000 * unat a"
proof
  assume "pays a r w"
  then obtain fee where fee: "mul_by_weight r w = Valid fee" "fee \<le> a"
    by (auto simp: pays_def split: num_op_result.splits)
  then have "nat_ceil (kwu_rate r * unat w) 1000 \<le> unat a" by (simp add: mul_by_weight_Valid word_le_nat_alt)
  then show "kwu_rate r * unat w \<le> 1000 * unat a" by (simp add: nat_ceil_le_iff)
next
  assume "kwu_rate r * unat w \<le> 1000 * unat a"
  then have le: "nat_ceil (kwu_rate r * unat w) 1000 \<le> unat a" by (simp add: nat_ceil_le_iff)
  then have "nat_ceil (kwu_rate r * unat w) 1000 < 2 ^ 64" using u64_bound [of a] by linarith
  then obtain fee :: u64 where fee: "unat fee = nat_ceil (kwu_rate r * unat w) 1000" using u64_of_nat by blast
  then have "mul_by_weight r w = Valid fee" using le assms by (simp add: mul_by_weight_Valid amount_ok_unat)
  then show "pays a r w" using le fee by (simp add: pays_def word_le_nat_alt)
qed

lemma msats_bound: "amount_ok a \<Longrightarrow> n \<le> unat a * 1000 \<Longrightarrow> n < 2 ^ 64"
  by (simp add: amount_ok_unat)

lemma div_by_fee_rate_floor_Valid:
  assumes "amount_ok a"
  shows "div_by_fee_rate_floor a r = Valid w \<longleftrightarrow> kwu_rate r \<noteq> 0 \<and> unat w = unat a * 1000 div kwu_rate r"
proof -
  have "div_by_fee_rate_floor a r = Valid w \<longleftrightarrow> u64_checked_div (a * 1000) (to_sat_per_kwu_ceil r) = Some w"
    by (simp add: div_by_fee_rate_floor_def split: option.splits)
  then show ?thesis by (simp add: checked_div_iff unat_msats assms)
qed

lemma div_by_fee_rate_ceil_Valid:
  assumes "amount_ok a"
  shows "div_by_fee_rate_ceil a r = Valid w \<longleftrightarrow> kwu_rate r \<noteq> 0 \<and> unat w = nat_ceil (unat a * 1000) (kwu_rate r)"
proof -
  have z: "to_sat_per_kwu_ceil r = 0 \<longleftrightarrow> kwu_rate r = 0" by (simp add: word_unat_eq_iff)
  have "kwu_rate r \<noteq> 0 \<Longrightarrow> unat (div_ceil (a * 1000) (to_sat_per_kwu_ceil r)) = nat_ceil (unat a * 1000) (kwu_rate r)"
    using z unat_div_ceil [of "to_sat_per_kwu_ceil r" "a * 1000"] by (simp add: unat_msats assms)
  then show ?thesis by (auto simp: div_by_fee_rate_ceil_def Let_def z word_unat_eq_iff)
qed

text \<open>
  The fee is exact. \<open>mul_by_weight\<close> returns the rate in satoshis per thousand weight units, rounded up, times
  the weight, divided by a thousand and rounded up, whenever that number is an amount, and an error exactly when it is
  not; the overflow check of the product never refuses a fee that is in range. \<open>to_fee\<close> answers the largest amount then.
\<close>

theorem fee_exact:
  "map_option unat (nor_ok (mul_by_weight r w)) = money_range (nat_ceil (nat_ceil (unat r) 4000 * unat w) 1000)
   \<and> (nor_is_valid (mul_by_weight r w) \<or> to_fee r w = MAX_MONEY)"
proof
  show "map_option unat (nor_ok (mul_by_weight r w)) = money_range (nat_ceil (nat_ceil (unat r) 4000 * unat w) 1000)"
    by (rule map_unat_eqI) (simp add: mul_by_weight_Valid kwu_rate_def)
  show "nor_is_valid (mul_by_weight r w) \<or> to_fee r w = MAX_MONEY"
    by (cases "mul_by_weight r w") (simp_all add: to_fee_def)
qed

text \<open>
  \<open>div_by_fee_rate_floor\<close> is the greatest weight that the amount pays for: an amount pays for a weight at
  the rate exactly when the weight is at most the quotient. The quotient that is rounded up is always
  sufficient, in that its fee is at least the amount. The division fails only for the rate zero.
\<close>

theorem weight_for_fee:
  assumes "amount_ok a" "r \<noteq> 0"
  shows "\<exists>lo hi. div_by_fee_rate_floor a r = Valid lo \<and> div_by_fee_rate_ceil a r = Valid hi
    \<and> (\<forall>w. pays a r w = (w \<le> lo)) \<and> a \<le> to_fee r hi"
proof -
  have pos: "0 < kwu_rate r" using assms(2) nat_ceil_lower [of 4000 "unat r"]
    by (cases "kwu_rate r") (simp_all add: kwu_rate_def unat_eq_0)
  have "unat a * 1000 div kwu_rate r < 2 ^ 64"
    by (rule msats_bound [OF assms(1) div_le_dividend])
  then obtain lo :: u64 where lo: "unat lo = unat a * 1000 div kwu_rate r" using u64_of_nat by blast
  have "nat_ceil (unat a * 1000) (kwu_rate r) \<le> unat a * 1000" using pos by (simp add: nat_ceil_le_iff)
  then have "nat_ceil (unat a * 1000) (kwu_rate r) < 2 ^ 64" by (rule msats_bound [OF assms(1)])
  then obtain hi :: u64 where hi: "unat hi = nat_ceil (unat a * 1000) (kwu_rate r)" using u64_of_nat by blast
  have "pays a r w = (w \<le> lo)" for w
    using pos by (simp add: pays_iff assms(1) word_le_nat_alt lo less_eq_div_iff_mult_less_eq mult.commute)
  moreover have "a \<le> to_fee r hi"
    using assms(1) pos nat_ceil_lower [of "kwu_rate r" "unat a * 1000"] by (intro to_fee_ge) (simp_all add: amount_ok_def hi)
  ultimately show ?thesis
    using pos lo hi by (auto simp: div_by_fee_rate_floor_Valid div_by_fee_rate_ceil_Valid assms(1))
qed

theorem weight_for_fee_witness:
  "pays 10 (from_sat_per_kwu 3) 3333 \<and> \<not> pays 10 (from_sat_per_kwu 3) 3334"
proof -
  have r: "kwu_rate (from_sat_per_kwu 3) = 3" by (simp add: kwu_rate_def from_sat_per_kwu_def nat_ceil_def)
  have "from_sat_per_kwu 3 \<noteq> 0" by (simp add: from_sat_per_kwu_def)
  then obtain lo where lo: "div_by_fee_rate_floor 10 (from_sat_per_kwu 3) = Valid lo"
    "\<forall>w. pays 10 (from_sat_per_kwu 3) w = (w \<le> lo)"
    using weight_for_fee [of 10 "from_sat_per_kwu 3"] by (auto simp: amount_ok_unat)
  then have "unat lo = 3333" by (simp add: div_by_fee_rate_floor_Valid amount_ok_unat r)
  then show ?thesis using lo(2) by (simp add: word_le_nat_alt)
qed

lemma div_by_weight_Valid:
  assumes "amount_ok a"
  shows "div_by_weight_floor a w = Valid r \<Longrightarrow> w \<noteq> 0 \<and> kwu_rate r = unat a * 1000 div unat w"
    and "div_by_weight_ceil a w = Valid r \<Longrightarrow> w \<noteq> 0 \<and> kwu_rate r = nat_ceil (unat a * 1000) (unat w)"
proof -
  assume "div_by_weight_floor a w = Valid r"
  then obtain q where "u64_checked_div (a * 1000) w = Some q" "from_per_kwu q = Valid r"
    by (auto simp: div_by_weight_floor_def checked_msats assms amount_from_sat_def split: option.splits if_splits)
  then show "w \<noteq> 0 \<and> kwu_rate r = unat a * 1000 div unat w"
    by (auto simp: checked_div_iff kwu_rate_from_per_kwu unat_msats assms)
next
  assume "div_by_weight_ceil a w = Valid r"
  then have "w \<noteq> 0" "from_per_kwu (div_ceil (a * 1000) w) = Valid r"
    by (auto simp: div_by_weight_ceil_def checked_msats assms amount_from_sat_def split: if_splits)
  then show "w \<noteq> 0 \<and> kwu_rate r = nat_ceil (unat a * 1000) (unat w)"
    by (simp add: kwu_rate_from_per_kwu unat_div_ceil unat_msats assms)
qed

lemma kwu_rate_of_kwu: "kwu_rate (from_sat_per_kwu k) = unat k"
proof -
  have "unat (ucast k * 4000 :: u64) = unat k * 4000"
    using unsigned_less [of k, where ?'a = nat] by (simp add: unat_word_ariths(2) unat_ucast_up)
  then show ?thesis by (simp add: kwu_rate_def from_sat_per_kwu_def nat_ceil_def)
qed

lemma div_by_weight_error:
  assumes "amount_ok a"
  shows "div_by_weight_floor a w = Error Op_Div \<longleftrightarrow> w = 0" "div_by_weight_ceil a w = Error Op_Div \<longleftrightarrow> w = 0"
  by (auto simp: div_by_weight_floor_def div_by_weight_ceil_def checked_msats assms u64_checked_div_def
      amount_from_sat_def from_per_kwu_def split: option.splits)

text \<open>
  \<open>div_by_weight_floor\<close> is the greatest whole rate at which an amount pays for the weight: the amount
  pays for it at a rate of so many satoshis per thousand weight units exactly when that is at most the rate
  returned. The rate that is rounded up is sufficient: its fee for the weight is at least the amount.
\<close>

theorem rate_for_fee:
  assumes "amount_ok a" "div_by_weight_floor a w = Valid lo" "div_by_weight_ceil a w = Valid hi"
  shows "pays a lo w \<and> (\<forall>k. pays a (from_sat_per_kwu k) w = (unat k \<le> unat (to_sat_per_kwu_floor lo))) \<and> a \<le> to_fee hi w"
proof (intro conjI allI)
  note lo = div_by_weight_Valid(1) [OF assms(1,2)] and hi = div_by_weight_Valid(2) [OF assms(1,3)]
  have pos: "0 < unat w" using lo by (simp add: unat_gt_0)
  have whole: "unat (to_sat_per_kwu_floor lo) = kwu_rate lo"
    using assms(2)
    by (auto simp: div_by_weight_floor_def from_per_kwu_def amount_checked_mul_iff to_sat_per_kwu_floor_def
        kwu_rate_def nat_ceil_def unat_div split: option.splits res.splits)
  show "pays a lo w" using lo by (simp add: pays_iff assms(1) mult.commute [of 1000])
  show "pays a (from_sat_per_kwu k) w = (unat k \<le> unat (to_sat_per_kwu_floor lo))" for k
    using lo pos by (simp add: pays_iff assms(1) kwu_rate_of_kwu whole less_eq_div_iff_mult_less_eq mult.commute [of 1000])
  show "a \<le> to_fee hi w" using assms(1) hi pos nat_ceil_lower [of "unat w" "unat a * 1000"]
    by (intro to_fee_ge) (simp_all add: amount_ok_def mult.commute [of _ "unat w"])
qed

theorem rate_for_fee_witness: "pays 10 132000 300 \<and> 10 \<le> to_fee 136000 300"
proof -
  have "div_by_weight_floor 10 300 = Valid 132000" "div_by_weight_ceil 10 300 = Valid 136000"
    by (simp_all add: div_by_weight_floor_def div_by_weight_ceil_def checked_msats amount_ok_unat u64_checked_div_def
        amount_from_sat_def MAX_MONEY_def div_ceil_def from_per_kwu_def amount_checked_mul_def u64_checked_mul_def
        sat_in_range_def)
  then show ?thesis using rate_for_fee [of 10 300 132000 136000] by (simp add: amount_ok_unat)
qed

text \<open>The quotients that are rounded up are not the least that suffice, because the fee is rounded up as well: one weight unit
  already costs a satoshi at one satoshi per thousand, and 31 satoshis per thousand cost ten for 300 units.\<close>

lemma div_by_fee_rate_ceil_not_least:
  "div_by_fee_rate_ceil 1 (from_sat_per_kwu 1) = Valid 1000" "to_fee (from_sat_per_kwu 1) 1 = 1"
proof -
  show "div_by_fee_rate_ceil 1 (from_sat_per_kwu 1) = Valid 1000"
    by (simp add: div_by_fee_rate_ceil_Valid amount_ok_unat kwu_rate_of_kwu nat_ceil_def)
  have "mul_by_weight (from_sat_per_kwu 1) 1 = Valid 1"
    by (simp add: mul_by_weight_Valid amount_ok_unat kwu_rate_of_kwu nat_ceil_def)
  then show "to_fee (from_sat_per_kwu 1) 1 = 1" by (simp add: to_fee_def)
qed

lemma div_by_weight_ceil_not_least:
  "div_by_weight_ceil 10 300 = Valid (from_sat_per_kwu 34)" "to_fee (from_sat_per_kwu 31) 300 = 10"
proof -
  show "div_by_weight_ceil 10 300 = Valid (from_sat_per_kwu 34)"
    by (simp add: div_by_weight_ceil_def checked_msats amount_ok_unat amount_from_sat_def MAX_MONEY_def div_ceil_def
        from_per_kwu_def amount_checked_mul_def u64_checked_mul_def sat_in_range_def from_sat_per_kwu_def)
  have "mul_by_weight (from_sat_per_kwu 31) 300 = Valid 10"
    by (simp add: mul_by_weight_Valid amount_ok_unat kwu_rate_of_kwu nat_ceil_def)
  then show "to_fee (from_sat_per_kwu 31) 300 = 10" by (simp add: to_fee_def)
qed

end
