(* ===== verification/Amount_Text.thy ===== *)
theory Amount_Text
  imports Amount_Arith Decimal_Text
begin

section \<open>Amounts as text\<close>

text \<open>
  \<open>units/src/amount/mod.rs\<close>: denominations, the parser of decimal amounts \<open>parse_signed_to_satoshi\<close>, the formatter
  \<open>fmt_satoshi_in\<close>, and what \<open>unsigned.rs\<close> and \<open>signed.rs\<close> build from them. A \<open>str\<close> is its UTF-8 bytes, a
  \<open>char\<close> its code point. \<open>char::is_alphabetic\<close>, which consults the tables of the Unicode standard, is a
  parameter.
\<close>

subsection \<open>Strings\<close>

text \<open>The code points of a well-formed UTF-8 string, with their byte offsets (\<open>str::char_indices\<close>).\<close>

fun char_indices :: "nat \<Rightarrow> bytes \<Rightarrow> (nat \<times> nat) list" where
  "char_indices i [] = []"
| "char_indices i (a # s) =
     (if a \<le> 0x7F then (i, unat a) # char_indices (i + 1) s
      else if a \<le> 0xDF then
        (i, (unat a mod 32) * 64 + unat (hd s) mod 64) # char_indices (i + 2) (drop 1 s)
      else if a \<le> 0xEF then
        (i, ((unat a mod 16) * 64 + unat (hd s) mod 64) * 64 + unat (s ! 1) mod 64) # char_indices (i + 3) (drop 2 s)
      else
        (i, (((unat a mod 8) * 64 + unat (hd s) mod 64) * 64 + unat (s ! 1) mod 64) * 64 + unat (s ! 2) mod 64)
          # char_indices (i + 4) (drop 3 s))"

text \<open>\<open>str::find\<close> of an ASCII character: the offset of its first byte.\<close>

fun find_byte :: "u8 \<Rightarrow> bytes \<Rightarrow> nat option" where
  "find_byte c [] = None"
| "find_byte c (b # s) = (if b = c then Some 0 else map_option Suc (find_byte c s))"

text \<open>\<open>s.parse::<i64>().ok()\<close>.\<close>

definition parse_i64 :: "bytes \<Rightarrow> int option" where
  "parse_i64 s =
     (let (neg, ds) = (if s = [] then (False, s)
                       else if hd s = 0x2D then (True, tl s) else if hd s = 0x2B then (False, tl s) else (False, s)) in
      if ds = [] \<or> \<not> list_all is_digit ds then None
      else i64_fit (if neg then - int (decimal ds) else int (decimal ds)))"

definition ascii :: "string \<Rightarrow> bytes" where "ascii s = map (\<lambda>c. word_of_nat (of_char c)) s"

subsection \<open>Denominations\<close>

datatype denomination = Bitcoin | CentiBitcoin | MilliBitcoin | MicroBitcoin | Bit | Satoshi

fun precision :: "denomination \<Rightarrow> int" where
  "precision Bitcoin = - 8"
| "precision CentiBitcoin = - 6"
| "precision MilliBitcoin = - 5"
| "precision MicroBitcoin = - 2"
| "precision Bit = - 2"
| "precision Satoshi = 0"

fun denom_as_str :: "denomination \<Rightarrow> bytes" where
  "denom_as_str Bitcoin = ascii ''BTC''"
| "denom_as_str CentiBitcoin = ascii ''cBTC''"
| "denom_as_str MilliBitcoin = ascii ''mBTC''"
| "denom_as_str MicroBitcoin = ascii ''uBTC''"
| "denom_as_str Bit = ascii ''bits''"
| "denom_as_str Satoshi = ascii ''satoshi''"

text \<open>The micro sign is \<open>0xC2 0xB5\<close> in UTF-8.\<close>

definition denom_forms :: "bytes \<Rightarrow> denomination option" where
  "denom_forms s =
     (if s \<in> {ascii ''BTC'', ascii ''btc''} then Some Bitcoin
      else if s \<in> {ascii ''cBTC'', ascii ''cbtc''} then Some CentiBitcoin
      else if s \<in> {ascii ''mBTC'', ascii ''mbtc''} then Some MilliBitcoin
      else if s \<in> {ascii ''uBTC'', ascii ''ubtc'', [0xC2, 0xB5] @ ascii ''BTC'', [0xC2, 0xB5] @ ascii ''btc''}
        then Some MicroBitcoin
      else if s \<in> {ascii ''bit'', ascii ''bits'', ascii ''BIT'', ascii ''BITS''} then Some Bit
      else if s \<in> {ascii ''SATOSHI'', ascii ''satoshi'', ascii ''SATOSHIS'', ascii ''satoshis'', ascii ''SAT'',
                   ascii ''sat'', ascii ''SATS'', ascii ''sats''} then Some Satoshi
      else None)"

definition CONFUSING_FORMS :: "bytes list" where
  "CONFUSING_FORMS = map ascii [''CBTC'', ''Cbtc'', ''MBTC'', ''Mbtc'', ''UBTC'', ''Ubtc'']"

datatype denomination_error = UnknownDenomination bytes | PossiblyConfusing bytes

definition denom_from_str :: "bytes \<Rightarrow> (denomination_error, denomination) res" where
  "denom_from_str s =
     (if s \<in> set CONFUSING_FORMS then Err (PossiblyConfusing s)
      else case denom_forms s of Some d \<Rightarrow> Ok d | None \<Rightarrow> Err (UnknownDenomination s))"

subsection \<open>Parsing\<close>

datatype missing_digits_kind = Empty | OnlyMinusSign

text \<open>\<open>InvalidCharacter\<close> and \<open>BadPosition\<close> carry the character and its position.\<close>

datatype inner_parse_error =
    Overflow bool
  | TooPrecise nat
  | MissingDigits missing_digits_kind
  | InputTooLarge nat
  | InvalidCharacter nat nat
  | BadPosition nat nat

definition first_nonzero :: "(nat \<times> nat) list \<Rightarrow> nat option" where
  "first_nonzero cs = map_option fst (find (\<lambda>(_, d). d \<noteq> 0x30) cs)"

definition is_too_precise :: "bytes \<Rightarrow> nat \<Rightarrow> nat option" where
  "is_too_precise s prec =
     (case find_byte 0x2E s of
        Some pos \<Rightarrow>
          if prec \<ge> pos then Some 0
          else (case first_nonzero (take prec (rev (char_indices 0 (take pos s)))) of
                  Some i \<Rightarrow> Some i
                | None \<Rightarrow> map_option (\<lambda>i. i + pos + 1) (first_nonzero (char_indices 0 (drop (pos + 1) s))))
      | None \<Rightarrow>
          if prec \<ge> length s then Some 0
          else first_nonzero (take prec (rev (char_indices 0 s))))"

definition INPUT_STRING_LEN_LIMIT :: nat where "INPUT_STRING_LEN_LIMIT = 50"

text \<open>The loop over the characters. \<open>maxd\<close> is \<open>max_decimals\<close>; the result is \<open>decimals\<close> and \<open>value\<close>.\<close>

fun parse_loop ::
  "int \<Rightarrow> bool \<Rightarrow> (nat \<times> nat) list \<Rightarrow> int option \<Rightarrow> nat option \<Rightarrow> int \<Rightarrow> (inner_parse_error, int option \<times> int) res" where
  "parse_loop maxd neg [] decimals underscores value = Ok (decimals, value)"
| "parse_loop maxd neg ((i, c) # cs) decimals underscores value =
     (if 0x30 \<le> c \<and> c \<le> 0x39 then
        (case i64_fit (10 * value) of
           None \<Rightarrow> Err (Overflow neg)
         | Some val \<Rightarrow>
             (case i64_fit (val + int (c - 0x30)) of
                None \<Rightarrow> Err (Overflow neg)
              | Some value \<Rightarrow>
                  (case decimals of
                     None \<Rightarrow> parse_loop maxd neg cs None None value
                   | Some d \<Rightarrow>
                       if d < maxd then parse_loop maxd neg cs (Some (d + 1)) None value
                       else Err (TooPrecise (i + of_bool neg)))))
      else if c = 0x5F \<and> i = 0 then Err (BadPosition 0x5F (i + of_bool neg))
      else if c = 0x5F then
        (case underscores of
           None \<Rightarrow> parse_loop maxd neg cs decimals (Some 1) value
         | Some _ \<Rightarrow> Err (BadPosition 0x5F (i + of_bool neg)))
      else if c = 0x2E then
        (case decimals of
           None \<Rightarrow> if maxd \<le> 0 then Ok (decimals, value) else parse_loop maxd neg cs (Some 0) None value
         | Some _ \<Rightarrow> Err (InvalidCharacter 0x2E (i + of_bool neg)))
      else Err (InvalidCharacter c (i + of_bool neg)))"

fun scale_loop :: "bool \<Rightarrow> nat \<Rightarrow> int \<Rightarrow> (inner_parse_error, int) res" where
  "scale_loop neg 0 value = Ok value"
| "scale_loop neg (Suc k) value =
     (case i64_fit (10 * value) of Some v \<Rightarrow> scale_loop neg k v | None \<Rightarrow> Err (Overflow neg))"

text \<open>What follows the sign and the adjustment of the precision.\<close>

definition parse_digits_of :: "bytes \<Rightarrow> int \<Rightarrow> bool \<Rightarrow> (inner_parse_error, bool \<times> int) res" where
  "parse_digits_of s maxd neg =
     res_bind (parse_loop maxd neg (char_indices 0 s) None None 0) (\<lambda>(decimals, value).
     res_bind (scale_loop neg (nat (maxd - (case decimals of Some d \<Rightarrow> d | None \<Rightarrow> 0))) value) (\<lambda>value.
     res_bind (map_err (\<lambda>_. Overflow neg) (signed_from_sat value)) (\<lambda>ret.
       if neg then res_bind (signed_neg ret) (\<lambda>r. Ok (neg, r)) else Ok (neg, ret))))"

definition parse_signed_to_satoshi :: "bytes \<Rightarrow> denomination \<Rightarrow> (inner_parse_error, bool \<times> int) res" where
  "parse_signed_to_satoshi s denom =
     (if s = [] then Err (MissingDigits Empty)
      else if length s > INPUT_STRING_LEN_LIMIT then Err (InputTooLarge (length s))
      else let neg = (hd s = 0x2D) in
        if neg \<and> length s = 1 then Err (MissingDigits OnlyMinusSign)
        else let s = (if neg then tl s else s);
                 precision_diff = - precision denom in
          if precision_diff \<le> 0 then
            (let last_n = nat \<bar>precision_diff\<bar> in
             case is_too_precise s last_n of
               Some position \<Rightarrow>
                 if parse_i64 s = Some 0 then Ok (neg, 0) else Err (TooPrecise (position + of_bool neg))
             | None \<Rightarrow>
                 parse_digits_of
                   (take ((case find_byte 0x2E s of Some p \<Rightarrow> p | None \<Rightarrow> length s) - last_n) s) 0 neg)
          else parse_digits_of s precision_diff neg)"

datatype amount_error =
    OutOfRange out_of_range_error
  | AmountTooPrecise nat
  | AmountMissingDigits missing_digits_kind
  | AmountInputTooLarge nat
  | AmountInvalidCharacter nat nat
  | AmountBadPosition nat nat

fun convert :: "bool \<Rightarrow> inner_parse_error \<Rightarrow> amount_error" where
  "convert s (Overflow neg) = OutOfRange \<lparr>is_signed = s, is_greater_than_max = \<not> neg\<rparr>"
| "convert s (TooPrecise p) = AmountTooPrecise p"
| "convert s (MissingDigits k) = AmountMissingDigits k"
| "convert s (InputTooLarge len) = AmountInputTooLarge len"
| "convert s (InvalidCharacter c p) = AmountInvalidCharacter c p"
| "convert s (BadPosition c p) = AmountBadPosition c p"

definition amount_from_str_in :: "bytes \<Rightarrow> denomination \<Rightarrow> (amount_error, u64) res" where
  "amount_from_str_in s denom =
     res_bind (map_err (convert False) (parse_signed_to_satoshi s denom)) (\<lambda>(neg, amount).
       if neg then Err (OutOfRange \<lparr>is_signed = False, is_greater_than_max = False\<rparr>)
       else map_err OutOfRange (to_unsigned amount))"

definition signed_from_str_in :: "bytes \<Rightarrow> denomination \<Rightarrow> (amount_error, int) res" where
  "signed_from_str_in s denom =
     map_err (convert True) (res_bind (parse_signed_to_satoshi s denom) (\<lambda>(_, amount). Ok amount))"

datatype parse_error = AmountError amount_error | DenominationError denomination_error | MissingDenomination

text \<open>The offset of the first alphabetic character.\<close>

definition split_amount_and_denomination ::
  "(nat \<Rightarrow> bool) \<Rightarrow> bytes \<Rightarrow> (parse_error, bytes \<times> denomination) res" where
  "split_amount_and_denomination alphabetic s =
     (let at = (case find_byte 0x20 s of
                  Some i \<Rightarrow> Some (i, i + 1)
                | None \<Rightarrow> map_option (\<lambda>(i, _). (i, i)) (find (\<lambda>(_, c). alphabetic c) (char_indices 0 s))) in
      case at of
        None \<Rightarrow> Err MissingDenomination
      | Some (i, j) \<Rightarrow> res_bind (map_err DenominationError (denom_from_str (drop j s))) (\<lambda>d. Ok (take i s, d)))"

definition amount_from_str_with_denomination :: "(nat \<Rightarrow> bool) \<Rightarrow> bytes \<Rightarrow> (parse_error, u64) res" where
  "amount_from_str_with_denomination alphabetic s =
     res_bind (split_amount_and_denomination alphabetic s) (\<lambda>(amt, denom).
       map_err AmountError (amount_from_str_in amt denom))"

definition signed_from_str_with_denomination :: "(nat \<Rightarrow> bool) \<Rightarrow> bytes \<Rightarrow> (parse_error, int) res" where
  "signed_from_str_with_denomination alphabetic s =
     res_bind (split_amount_and_denomination alphabetic s) (\<lambda>(amt, denom).
       map_err AmountError (signed_from_str_in amt denom))"

definition amount_from_str :: "(nat \<Rightarrow> bool) \<Rightarrow> bytes \<Rightarrow> (parse_error, u64) res" where
  "amount_from_str alphabetic s =
     (let result = amount_from_str_with_denomination alphabetic s in
      if result = Err MissingDenomination
      then (if amount_from_str_in s Satoshi = Ok 0 then Ok 0 else result) else result)"

definition signed_from_str :: "(nat \<Rightarrow> bool) \<Rightarrow> bytes \<Rightarrow> (parse_error, int) res" where
  "signed_from_str alphabetic s =
     (let result = signed_from_str_with_denomination alphabetic s in
      if result = Err MissingDenomination
      then (if signed_from_str_in s Satoshi = Ok 0 then Ok 0 else result) else result)"

subsection \<open>Formatting\<close>

text \<open>The options of a formatter; \<open>fill\<close> is the UTF-8 form of the fill character.\<close>

datatype alignment = AlignLeft | AlignRight | AlignCenter

record format_options =
  fill :: bytes
  align :: "alignment option"
  opt_width :: "nat option"
  opt_precision :: "nat option"
  sign_plus :: bool
  zero_pad :: bool

definition default_options :: format_options where
  "default_options = \<lparr>fill = [0x20], align = None, opt_width = None, opt_precision = None, sign_plus = False, zero_pad = False\<rparr>"

function dec_width_loop :: "nat \<Rightarrow> nat \<Rightarrow> nat" where
  "dec_width_loop num width = (let num = num div 10 in if num = 0 then width else dec_width_loop num (width + 1))"
  by pat_completeness auto
termination by (relation "measure fst") (auto simp: Let_def)

declare dec_width_loop.simps [simp del]

definition dec_width :: "nat \<Rightarrow> nat" where "dec_width num = dec_width_loop num 1"

text \<open>\<open>write!(f, "{}", n)\<close> and \<open>write!(f, "{:0width$}", n)\<close>.\<close>

definition show_nat :: "nat \<Rightarrow> bytes" where
  "show_nat n = (if n = 0 then [0x30] else digits 10 n)"

definition show_nat_padded :: "nat \<Rightarrow> nat \<Rightarrow> bytes" where
  "show_nat_padded width n = replicate (width - length (show_nat n)) 0x30 @ show_nat n"

definition repeat_char :: "bytes \<Rightarrow> nat \<Rightarrow> bytes" where
  "repeat_char c count = concat (replicate count c)"

text \<open>Rounding to a multiple of a power of ten; the amounts are below \<open>2 ^ 51\<close>, so that nothing overflows.\<close>

definition round_satoshi :: "nat \<Rightarrow> nat \<Rightarrow> nat" where
  "round_satoshi rounding_divisor satoshi =
     (let remainder = satoshi mod rounding_divisor; satoshi = satoshi - remainder in
      if 5 \<le> remainder div (rounding_divisor div 10) then satoshi + rounding_divisor else satoshi)"

text \<open>The loop that strips trailing zeros, entered with a number that is not zero.\<close>

function strip_zeros :: "nat \<Rightarrow> nat \<Rightarrow> nat \<times> nat" where
  "strip_zeros nb num = (if num = 0 \<or> num mod 10 \<noteq> 0 then (nb, num) else strip_zeros (nb - 1) (num div 10))"
  by pat_completeness auto
termination by (relation "measure snd") auto

declare strip_zeros.simps [simp del]

text \<open>The digits before the point, the digits after it, how many of these there are, the zeros to append to the first,
  and the zeros that follow.\<close>

definition fmt_parts :: "nat \<Rightarrow> denomination \<Rightarrow> nat option \<Rightarrow> nat \<times> nat \<times> nat \<times> nat \<times> nat" where
  "fmt_parts satoshi denom prec =
     (let requested = (case prec of Some p \<Rightarrow> p | None \<Rightarrow> 0) in
      if 0 < precision denom then
        (satoshi, 0, 0, (if 0 < satoshi then nat (precision denom) else 0), requested)
      else if precision denom < 0 then
        (let p = nat \<bar>precision denom\<bar>;
             satoshi = (case prec of
                          Some fp \<Rightarrow> if p > fp then round_satoshi (10 ^ (p - fp)) satoshi else satoshi
                        | None \<Rightarrow> satoshi);
             divisor = 10 ^ p;
             whole = satoshi div divisor;
             (nb, frac) = (if satoshi mod divisor = 0 then (0, 0) else strip_zeros p (satoshi mod divisor)) in
         (whole, frac, nb, 0, requested - nb))
      else (satoshi, 0, 0, 0, requested))"

definition num_width :: "nat \<Rightarrow> bool \<Rightarrow> denomination \<Rightarrow> bool \<Rightarrow> format_options \<Rightarrow> nat" where
  "num_width satoshi negative denom show_denom options =
     (case fmt_parts satoshi denom (opt_precision options) of (whole, frac, nb, exp, trailing) \<Rightarrow>
        (if 0 < nb + trailing then 1 + (nb + trailing) else 0) + (dec_width whole + exp)
        + (if sign_plus options \<or> negative then 1 else 0)
        + (if show_denom then length (denom_as_str denom) + 1 else 0))"

definition padding :: "nat \<Rightarrow> format_options \<Rightarrow> nat \<times> nat" where
  "padding w options =
     (let width = (case opt_width options of Some n \<Rightarrow> n | None \<Rightarrow> 0);
          al = (case align options of Some a \<Rightarrow> a | None \<Rightarrow> AlignRight) in
      if \<not> w < width then (0, 0)
      else if zero_pad options \<or> al = AlignRight then (width - w, 0)
      else if al = AlignLeft then (0, width - w)
      else ((width - w) div 2, (width - w + 1) div 2))"

definition fmt_satoshi_in :: "nat \<Rightarrow> bool \<Rightarrow> denomination \<Rightarrow> bool \<Rightarrow> format_options \<Rightarrow> bytes" where
  "fmt_satoshi_in satoshi negative denom show_denom options =
     (case fmt_parts satoshi denom (opt_precision options) of (whole, frac, nb, exp, trailing) \<Rightarrow>
      case padding (num_width satoshi negative denom show_denom options) options of (left_pad, pad_right) \<Rightarrow>
        (if zero_pad options then [] else repeat_char (fill options) left_pad)
        @ (if negative then [0x2D] else if sign_plus options then [0x2B] else [])
        @ (if zero_pad options then repeat_char [0x30] left_pad else [])
        @ show_nat whole @ repeat_char [0x30] exp
        @ (if 0 < nb + trailing then [0x2E] else [])
        @ (if 0 < nb then show_nat_padded nb frac else [])
        @ repeat_char [0x30] trailing
        @ (if show_denom then 0x20 # denom_as_str denom else [])
        @ repeat_char (fill options) pad_right)"

datatype display_style = FixedDenomination denomination bool | DynamicDenomination

record amount_display =
  sats_abs :: nat
  is_negative :: bool
  style :: display_style

definition show_denomination :: "amount_display \<Rightarrow> amount_display" where
  "show_denomination d =
     (case style d of FixedDenomination denom _ \<Rightarrow> d\<lparr>style := FixedDenomination denom True\<rparr> | DynamicDenomination \<Rightarrow> d)"

definition ONE_BTC :: nat where "ONE_BTC = 100000000"

definition display_fmt :: "amount_display \<Rightarrow> format_options \<Rightarrow> bytes" where
  "display_fmt d options =
     (case style d of
        FixedDenomination denom sh \<Rightarrow> fmt_satoshi_in (sats_abs d) (is_negative d) denom sh options
      | DynamicDenomination \<Rightarrow>
          if ONE_BTC \<le> sats_abs d then fmt_satoshi_in (sats_abs d) (is_negative d) Bitcoin True options
          else fmt_satoshi_in (sats_abs d) (is_negative d) Satoshi True options)"

definition amount_display_in :: "u64 \<Rightarrow> denomination \<Rightarrow> amount_display" where
  "amount_display_in a denom = \<lparr>sats_abs = unat a, is_negative = False, style = FixedDenomination denom False\<rparr>"

definition amount_display_dynamic :: "u64 \<Rightarrow> amount_display" where
  "amount_display_dynamic a = \<lparr>sats_abs = unat a, is_negative = False, style = DynamicDenomination\<rparr>"

text \<open>\<open>sats_abs\<close> is \<open>self.unsigned_abs().to_sat()\<close>.\<close>

definition signed_display_in :: "int \<Rightarrow> denomination \<Rightarrow> amount_display" where
  "signed_display_in a denom =
     \<lparr>sats_abs = (case unsigned_abs a :: (unit, u64) res of Ok m \<Rightarrow> unat m | _ \<Rightarrow> 0),
      is_negative = signed_is_negative a, style = FixedDenomination denom False\<rparr>"

definition amount_to_string_in :: "u64 \<Rightarrow> denomination \<Rightarrow> bytes" where
  "amount_to_string_in a denom = display_fmt (amount_display_in a denom) default_options"

definition amount_to_string_with_denomination :: "u64 \<Rightarrow> denomination \<Rightarrow> bytes" where
  "amount_to_string_with_denomination a denom = display_fmt (show_denomination (amount_display_in a denom)) default_options"

definition signed_to_string_in :: "int \<Rightarrow> denomination \<Rightarrow> bytes" where
  "signed_to_string_in a denom = display_fmt (signed_display_in a denom) default_options"

definition signed_to_string_with_denomination :: "int \<Rightarrow> denomination \<Rightarrow> bytes" where
  "signed_to_string_with_denomination a denom = display_fmt (show_denomination (signed_display_in a denom)) default_options"

text \<open>\<open>Display\<close> of the two types.\<close>

definition amount_fmt :: "u64 \<Rightarrow> format_options \<Rightarrow> bytes" where
  "amount_fmt a options = display_fmt (show_denomination (amount_display_in a Bitcoin)) options"

definition signed_fmt :: "int \<Rightarrow> format_options \<Rightarrow> bytes" where
  "signed_fmt a options = display_fmt (show_denomination (signed_display_in a Bitcoin)) options"

end
