(* ===== verification/Amount_Roundtrip.thy ===== *)
theory Amount_Roundtrip
  imports Amount_Text
begin

section \<open>Amounts as text: parsing is exact and inverts formatting\<close>

text \<open>
  The lemmas follow the loop of the parser over a string of decimal digits, give the exact condition for an overflow,
  and show that the default formatting of an amount is the plain decimal text of it.
\<close>

subsection \<open>The characters of a number\<close>

lemma digit_range: "is_digit c \<Longrightarrow> c \<le> 0x7F \<and> 0x30 \<le> unat c \<and> unat c \<le> 0x39 \<and> unat c - 0x30 = unat (c - 0x30)"
proof -
  assume "is_digit c"
  then have r: "0x30 \<le> c" "c \<le> 0x39" by (simp_all add: is_digit_def)
  have "c \<le> 0x7F" by (rule order_trans [OF r(2)]) simp
  then show ?thesis using r by (simp add: word_le_nat_alt unat_sub)
qed

text \<open>ASCII strings have one character per byte.\<close>

lemma char_indices_ascii:
  "\<forall>c \<in> set s. c \<le> 0x7F \<Longrightarrow> char_indices i s = zip [i..<i + length s] (map unat s)"
proof (induction s arbitrary: i)
  case (Cons c s)
  then have "char_indices (i + 1) s = zip [i + 1..<i + 1 + length s] (map unat s)" by (intro Cons.IH) simp
  then show ?case using Cons.prems by (simp add: upt_conv_Cons del: upt_Suc)
qed simp

lemma char_indices_digits:
  "list_all is_digit s \<Longrightarrow> char_indices i (s @ t) = zip [i..<i + length s] (map unat s) @ char_indices (i + length s) t"
proof (induction s arbitrary: i)
  case (Cons c s)
  then have "char_indices (i + 1) (s @ t)
      = zip [i + 1..<i + 1 + length s] (map unat s) @ char_indices (i + 1 + length s) t" by (intro Cons.IH) simp
  then show ?case using Cons.prems digit_range [of c] by (simp add: upt_conv_Cons del: upt_Suc)
qed simp

lemma find_byte_none: "c \<notin> set s \<Longrightarrow> find_byte c s = None"
  by (induction s) auto

lemma find_byte_append: "c \<notin> set s \<Longrightarrow> find_byte c (s @ c # t) = Some (length s)"
  by (induction s) auto

lemma digits_no_byte: "list_all is_digit s \<Longrightarrow> \<not> is_digit c \<Longrightarrow> c \<notin> set s"
  by (auto simp: list_all_iff)

subsection \<open>The loops\<close>

lemma i64_fit_nonneg: "0 \<le> v \<Longrightarrow> i64_fit v = (if v \<le> i64_max then Some v else None)"
  by (simp add: i64_fit_def i64_min_def)

lemma parse_loop_digits:
  assumes "list_all is_digit ds" "length ixs = length ds" "0 \<le> v"
    and "case dec of None \<Rightarrow> True | Some d \<Rightarrow> d + int (length ds) \<le> m"
  shows "parse_loop m neg (zip ixs (map unat ds) @ rest) dec None v =
    (if v * 10 ^ length ds + int (decimal ds) \<le> i64_max \<or> ds = []
     then parse_loop m neg rest (map_option (\<lambda>d. d + int (length ds)) dec) None (v * 10 ^ length ds + int (decimal ds))
     else Err (Overflow neg))"
  using assms
proof (induction ds arbitrary: ixs dec v)
  case Nil
  then show ?case by (cases dec) simp_all
next
  case (Cons c ds)
  then obtain i js where ixs: "ixs = i # js" "length js = length ds" by (cases ixs) auto
  have c: "0x30 \<le> unat c" "unat c \<le> 0x39" "unat c - 0x30 = unat (c - 0x30)"
    using Cons.prems(1) digit_range [of c] by simp_all
  define w where "w = 10 * v + int (unat (c - 0x30))"
  have w0: "0 \<le> w" using Cons.prems(3) by (simp add: w_def)
  have total: "v * 10 ^ length (c # ds) + int (decimal (c # ds)) = w * 10 ^ length ds + int (decimal ds)"
    by (simp add: w_def decimal_Cons algebra_simps)
  have mono: "w \<le> w * 10 ^ length ds + int (decimal ds)"
  proof -
    have "w * 1 \<le> w * 10 ^ length ds" using w0 by (intro mult_left_mono) simp_all
    then show ?thesis by simp
  qed
  show ?case
  proof (cases "w \<le> i64_max")
    case False
    then have "10 * v \<le> i64_max \<Longrightarrow> \<not> 10 * v + int (unat (c - 0x30)) \<le> i64_max" by (simp add: w_def)
    moreover have "\<not> w * 10 ^ length ds + int (decimal ds) \<le> i64_max" using False mono by linarith
    ultimately show ?thesis using ixs c Cons.prems(3) unfolding total
      by (simp add: i64_fit_nonneg)
  next
    case True
    have fit: "10 * v \<le> i64_max" using True unfolding w_def by linarith
    define dec' where "dec' = map_option (\<lambda>d. d + 1) dec"
    have "parse_loop m neg (zip js (map unat ds) @ rest) dec' None w =
      (if w * 10 ^ length ds + int (decimal ds) \<le> i64_max \<or> ds = []
       then parse_loop m neg rest (map_option (\<lambda>d. d + int (length ds)) dec') None (w * 10 ^ length ds + int (decimal ds))
       else Err (Overflow neg))"
      using Cons.prems ixs w0 by (intro Cons.IH) (auto simp: dec'_def split: option.splits)
    moreover have "parse_loop m neg (zip ixs (map unat (c # ds)) @ rest) dec None v
        = parse_loop m neg (zip js (map unat ds) @ rest) dec' None w"
      using ixs c fit True Cons.prems(3,4) by (cases dec) (simp_all add: i64_fit_nonneg w_def dec'_def)
    moreover have "map_option (\<lambda>d. d + int (length ds)) dec' = map_option (\<lambda>d. d + int (length (c # ds))) dec"
      by (cases dec) (simp_all add: dec'_def)
    moreover have "ds = [] \<Longrightarrow> w * 10 ^ length ds + int (decimal ds) \<le> i64_max" using True by simp
    ultimately show ?thesis unfolding total by auto
  qed
qed

lemma scale_loop_eq:
  "0 \<le> v \<Longrightarrow> v \<le> i64_max \<Longrightarrow> scale_loop neg k v = (if v * 10 ^ k \<le> i64_max then Ok (v * 10 ^ k) else Err (Overflow neg))"
proof (induction k arbitrary: v)
  case (Suc k)
  have eq: "v * 10 ^ Suc k = (10 * v) * 10 ^ k" by simp
  have mono: "10 * v \<le> (10 * v) * 10 ^ k" using Suc.prems(1) mult_left_mono [of 1 "10 ^ k" "10 * v"] by simp
  show ?case
  proof (cases "10 * v \<le> i64_max")
    case True
    then show ?thesis using Suc.IH [of "10 * v"] Suc.prems unfolding eq by (simp add: i64_fit_nonneg)
  next
    case False
    then have "\<not> (10 * v) * 10 ^ k \<le> i64_max" using mono by linarith
    then show ?thesis using False Suc.prems unfolding eq by (simp add: i64_fit_nonneg)
  qed
qed simp

subsection \<open>The parser on a decimal number\<close>

text \<open>The text of a decimal number: a sign, the digits before the point, and the digits after it if there are any.\<close>

definition number_text :: "bool \<Rightarrow> bytes \<Rightarrow> bytes \<Rightarrow> bytes" where
  "number_text neg ip fp = (if neg then [0x2D] else []) @ ip @ (if fp = [] then [] else 0x2E # fp)"

text \<open>What it denotes in units of \<open>10 ^ - k\<close>.\<close>

definition number_value :: "nat \<Rightarrow> bytes \<Rightarrow> bytes \<Rightarrow> nat" where
  "number_value k ip fp = decimal (ip @ fp) * 10 ^ (k - length fp)"

definition decimals_of :: "denomination \<Rightarrow> nat" where "decimals_of denom = nat (- precision denom)"

lemma decimals_of_simps [simp]: "int (decimals_of d) = - precision d" "0 < - precision d \<longleftrightarrow> d \<noteq> Satoshi"
  by (cases d; simp add: decimals_of_def)+

lemma parse_loop_number:
  assumes "list_all is_digit ip" "list_all is_digit fp" "int (length fp) \<le> m" "fp \<noteq> [] \<Longrightarrow> 0 < m"
  shows "parse_loop m neg (char_indices 0 (number_text False ip fp)) None None 0 =
    (if int (decimal (ip @ fp)) \<le> i64_max
     then Ok (if fp = [] then None else Some (int (length fp)), int (decimal (ip @ fp)))
     else Err (Overflow neg))"
proof -
  let ?is = "[0..<0 + length ip]"
  define rest where "rest = (if fp = [] then [] else (length ip, 0x2E) # zip [Suc (length ip)..<Suc (length ip) + length fp] (map unat fp))"
  have ascii: "\<forall>c \<in> set fp. c \<le> 0x7F" using assms(2) digit_range by (auto simp: list_all_iff)
  have chars: "char_indices 0 (number_text False ip fp) = zip ?is (map unat ip) @ rest"
    using assms(1) ascii char_indices_ascii [OF ascii, of "Suc (length ip)"]
    by (simp add: number_text_def rest_def char_indices_digits del: upt_Suc)
  have ip_le: "int (decimal ip) \<le> int (decimal (ip @ fp))"
  proof -
    have "decimal ip * 1 \<le> decimal ip * 10 ^ length fp" by (intro mult_le_mono2) simp
    then have "decimal ip \<le> decimal (ip @ fp)" unfolding decimal_append by linarith
    then show ?thesis by (simp only: of_nat_le_iff)
  qed
  have ip: "parse_loop m neg (zip ?is (map unat ip) @ rest) None None 0 =
      (if int (decimal ip) \<le> i64_max then parse_loop m neg rest None None (int (decimal ip)) else Err (Overflow neg))"
    using parse_loop_digits [OF assms(1), of ?is 0 m None neg rest] by (auto simp: i64_max_def)
  show ?thesis
  proof (cases "fp = []")
    case True
    then show ?thesis using chars ip by (simp add: rest_def)
  next
    case False
    then have "parse_loop m neg rest None None (int (decimal ip)) =
        (if int (decimal (ip @ fp)) \<le> i64_max then Ok (Some (int (length fp)), int (decimal (ip @ fp))) else Err (Overflow neg))"
      using parse_loop_digits [OF assms(2), of "[Suc (length ip)..<Suc (length ip) + length fp]" "int (decimal ip)" m "Some 0" neg "[]"]
        assms(3,4) by (simp add: rest_def decimal_append del: upt_Suc)
    then show ?thesis using False ip_le chars ip by simp
  qed
qed

lemma parse_signed_digits:
  assumes "list_all is_digit ip" "list_all is_digit fp" "length fp \<le> k"
  shows "parse_digits_of (number_text False ip fp) (int k) neg =
    (if number_value k ip fp \<le> 2100000000000000
     then Ok (neg, if neg then - int (number_value k ip fp) else int (number_value k ip fp)) else Err (Overflow neg))"
proof -
  let ?v = "int (decimal (ip @ fp))"
  have total: "int (number_value k ip fp) = ?v * 10 ^ (k - length fp)" by (simp add: number_value_def)
  have le: "?v \<le> int (number_value k ip fp)"
    unfolding total using mult_left_mono [of 1 "10 ^ (k - length fp)" ?v] by simp
  have loop: "parse_loop (int k) neg (char_indices 0 (number_text False ip fp)) None None 0 =
      (if ?v \<le> i64_max then Ok (if fp = [] then None else Some (int (length fp)), ?v) else Err (Overflow neg))"
    using assms by (intro parse_loop_number) (simp_all, cases fp, simp_all)
  have shift: "nat (int k - (case if fp = [] then None else Some (int (length fp)) of Some d \<Rightarrow> d | None \<Rightarrow> 0)) = k - length fp"
    using assms(3) by (simp add: nat_diff_distrib)
  have range: "int (number_value k ip fp) \<le> i64_max \<Longrightarrow>
      signed_from_sat (int (number_value k ip fp)) =
        (if number_value k ip fp \<le> 2100000000000000 then Ok (int (number_value k ip fp))
         else Err \<lparr>is_signed = True, is_greater_than_max = True\<rparr>)"
    by (simp add: signed_from_sat_def SIGNED_MIN_def SIGNED_MAX_def)
  have neg: "number_value k ip fp \<le> 2100000000000000 \<Longrightarrow>
      signed_neg (int (number_value k ip fp)) = (Ok (- int (number_value k ip fp)) :: (inner_parse_error, int) res)"
    by (simp add: signed_neg_def signed_expect_ok signed_ok_abs)
  have small: "number_value k ip fp \<le> 2100000000000000 \<Longrightarrow> int (number_value k ip fp) \<le> i64_max"
    by (simp add: i64_max_def)
  show ?thesis
  proof (cases "int (number_value k ip fp) \<le> i64_max")
    case True
    then have v: "?v \<le> i64_max" using le by linarith
    then have "scale_loop neg (k - length fp) ?v = Ok (int (number_value k ip fp))"
      using True total scale_loop_eq [of ?v neg "k - length fp"] by simp
    then show ?thesis using v range [OF True] neg
      by (simp add: parse_digits_of_def loop shift)
  next
    case False
    then have big: "\<not> number_value k ip fp \<le> 2100000000000000" using small by blast
    have "?v \<le> i64_max \<Longrightarrow> scale_loop neg (k - length fp) ?v = Err (Overflow neg)"
      using False total scale_loop_eq [of ?v neg "k - length fp"] by simp
    then show ?thesis using big by (simp add: parse_digits_of_def loop shift)
  qed
qed

lemma number_text_tl: "number_text True ip fp = 0x2D # number_text False ip fp"
  by (simp add: number_text_def)

lemma is_too_precise_0:
  assumes "0x2E \<notin> set s" "s \<noteq> []"
  shows "is_too_precise s 0 = None"
  using assms by (simp add: is_too_precise_def find_byte_none first_nonzero_def)

lemma parse_number:
  assumes "list_all is_digit ip" "list_all is_digit fp" "length fp \<le> decimals_of denom" "ip @ fp \<noteq> []"
    and "length (number_text neg ip fp) \<le> 50"
  shows "parse_signed_to_satoshi (number_text neg ip fp) denom =
    (let v = number_value (decimals_of denom) ip fp in
     if v \<le> 2100000000000000 then Ok (neg, if neg then - int v else int v) else Err (Overflow neg))"
proof -
  let ?t = "number_text False ip fp"
  have t: "?t \<noteq> []" using assms(4) by (auto simp: number_text_def)
  have minus: "0x2D \<notin> set ip" using assms(1) by (rule digits_no_byte) (simp add: is_digit_def)
  then have hd: "hd ?t \<noteq> 0x2D" using assms(4) by (cases ip) (auto simp: number_text_def)
  have point: "denom = Satoshi \<Longrightarrow> fp = []" using assms(3) by (simp add: decimals_of_def)
  have dot: "0x2E \<notin> set ip" using assms(1) by (rule digits_no_byte) (simp add: is_digit_def)
  have after_sign: "(if - precision denom \<le> 0 then
        (case is_too_precise ?t (nat \<bar>- precision denom\<bar>) of
           Some p \<Rightarrow> if parse_i64 ?t = Some 0 then Ok (neg, 0) else Err (TooPrecise (p + of_bool neg))
         | None \<Rightarrow> parse_digits_of
             (take ((case find_byte 0x2E ?t of Some p \<Rightarrow> p | None \<Rightarrow> length ?t) - nat \<bar>- precision denom\<bar>) ?t) 0 neg)
      else parse_digits_of ?t (- precision denom) neg)
    = parse_digits_of ?t (int (decimals_of denom)) neg"
  proof (cases "denom = Satoshi")
    case True
    then have "?t = ip" using point by (simp add: number_text_def)
    then show ?thesis using True t dot is_too_precise_0 [OF dot] by (simp add: find_byte_none decimals_of_def)
  next
    case False
    then show ?thesis by (cases denom) (simp_all add: decimals_of_def)
  qed
  have "parse_signed_to_satoshi (number_text neg ip fp) denom = parse_digits_of ?t (int (decimals_of denom)) neg"
  proof (cases neg)
    case True
    then have n: "neg = True" by simp
    have "length (number_text True ip fp) = Suc (length ?t)" "tl (number_text True ip fp) = ?t"
      "hd (number_text True ip fp) = 0x2D" "number_text True ip fp \<noteq> []"
      by (simp_all add: number_text_tl)
    moreover from this have "\<not> 50 < length (number_text True ip fp)" "length ?t \<noteq> 0" using assms(5) t n by simp_all
    ultimately show ?thesis using after_sign [unfolded n] unfolding n
      by (cases denom) (simp_all add: parse_signed_to_satoshi_def INPUT_STRING_LEN_LIMIT_def Let_def del: One_nat_def cong: option.case_cong)
  next
    case False
    then have n: "neg = False" by simp
    show ?thesis using after_sign [unfolded n] t hd assms(5) [unfolded n] unfolding n
      by (cases denom) (simp_all add: parse_signed_to_satoshi_def INPUT_STRING_LEN_LIMIT_def Let_def cong: option.case_cong)
  qed
  then show ?thesis using parse_signed_digits [OF assms(1-3), of neg] by (simp add: Let_def)
qed

subsection \<open>Parsing is exact\<close>

lemma amount_from_number:
  assumes "list_all is_digit ip" "list_all is_digit fp" "length fp \<le> decimals_of denom" "ip @ fp \<noteq> []"
    and "length (number_text False ip fp) \<le> 50"
  shows "amount_from_str_in (number_text False ip fp) denom =
    (let v = number_value (decimals_of denom) ip fp in
     if v \<le> 2100000000000000 then Ok (word_of_nat v) else Err (OutOfRange \<lparr>is_signed = False, is_greater_than_max = True\<rparr>))"
  using parse_number [OF assms]
  by (simp add: amount_from_str_in_def Let_def to_unsigned_eq(1) signed_ok_abs)

lemma signed_from_number:
  assumes "list_all is_digit ip" "list_all is_digit fp" "length fp \<le> decimals_of denom" "ip @ fp \<noteq> []"
    and "length (number_text neg ip fp) \<le> 50"
  shows "signed_from_str_in (number_text neg ip fp) denom =
    (let v = number_value (decimals_of denom) ip fp in
     if v \<le> 2100000000000000 then Ok (if neg then - int v else int v)
     else Err (OutOfRange \<lparr>is_signed = True, is_greater_than_max = \<not> neg\<rparr>))"
  using parse_number [OF assms] by (simp add: signed_from_str_in_def Let_def)

text \<open>Property C39. A decimal number of at most fifty characters with no more decimals than the denomination has is
  parsed to exactly the amount it denotes, or refused as out of range exactly when it denotes more than 21 million
  bitcoin; the overflow checks of the loop never decide.\<close>

theorem amount_parse_exact:
  assumes "list_all is_digit ip" "list_all is_digit fp" "length fp \<le> decimals_of denom" "ip @ fp \<noteq> []"
    and "length (number_text False ip fp) \<le> 50"
  shows "amount_from_str_in (number_text False ip fp) denom =
    (let v = decimal (ip @ fp) * 10 ^ (decimals_of denom - length fp) in
     if v \<le> 2100000000000000 then Ok (word_of_nat v) else Err (OutOfRange \<lparr>is_signed = False, is_greater_than_max = True\<rparr>))"
  using amount_from_number [OF assms] unfolding number_value_def .

theorem amount_parse_exact_witness:
  "amount_from_str_in (ascii ''21000000'') Bitcoin = Ok 2100000000000000
   \<and> amount_from_str_in (ascii ''21000000.1'') Bitcoin = Err (OutOfRange \<lparr>is_signed = False, is_greater_than_max = True\<rparr>)"
proof -
  have t: "ascii ''21000000'' = number_text False (ascii ''21000000'') []"
    "ascii ''21000000.1'' = number_text False (ascii ''21000000'') (ascii ''1'')"
    by (simp_all add: number_text_def ascii_def)
  have d: "list_all is_digit (ascii ''21000000'')" "list_all is_digit (ascii ''1'')"
    by (simp_all add: ascii_def is_digit_def)
  have v: "decimal (ascii ''21000000'') = 21000000" "decimal (ascii ''21000000'' @ ascii ''1'') = 210000001"
    by (simp_all add: ascii_def decimal_def)
  have "amount_from_str_in (number_text False (ascii ''21000000'') []) Bitcoin = Ok 2100000000000000"
    "amount_from_str_in (number_text False (ascii ''21000000'') (ascii ''1'')) Bitcoin
       = Err (OutOfRange \<lparr>is_signed = False, is_greater_than_max = True\<rparr>)"
    using amount_parse_exact [of "ascii ''21000000''" "[]" Bitcoin] amount_parse_exact [of "ascii ''21000000''" "ascii ''1''" Bitcoin] d v
    by (simp_all add: decimals_of_def number_text_def ascii_def)
  then show ?thesis by (simp only: t [symmetric])
qed

subsection \<open>The default format is the decimal text\<close>

lemma show_nat_digits: "list_all is_digit (show_nat n)" "decimal (show_nat n) = n" "show_nat n \<noteq> []"
proof -
  show "list_all is_digit (show_nat n)" by (simp add: show_nat_def digits_are_digits is_digit_def)
  show "decimal (show_nat n) = n" by (simp add: show_nat_def decimal_digits decimal_Cons)
  show "show_nat n \<noteq> []" by (simp add: show_nat_def digits_step)
qed

lemma decimal_zeros_append: "decimal (replicate k 0x30 @ s) = decimal s"
  by (simp add: decimal_append decimal_zeros)

lemma length_digits: "0 < n \<Longrightarrow> n < 10 ^ k \<Longrightarrow> length (digits 10 n) \<le> k"
proof (induction k arbitrary: n)
  case (Suc k)
  then have "n div 10 < 10 ^ k" by (simp add: div_less_iff_less_mult mult.commute)
  then show ?case using Suc by (cases "n div 10 = 0") (simp_all add: digits_step)
qed simp

lemma length_show_nat: "n < 10 ^ k \<Longrightarrow> 0 < k \<Longrightarrow> length (show_nat n) \<le> k"
  using length_digits [of n k] by (simp add: show_nat_def)

lemma show_nat_padded:
  assumes "n < 10 ^ k" "0 < k"
  shows "list_all is_digit (show_nat_padded k n)" "length (show_nat_padded k n) = k" "decimal (show_nat_padded k n) = n"
  using show_nat_digits [of n] length_show_nat [OF assms]
  by (auto simp: show_nat_padded_def decimal_zeros_append is_digit_def list_all_iff)

lemma strip_zeros:
  assumes "0 < num" "num < 10 ^ nb" "strip_zeros nb num = (nb', num')"
  shows "0 < nb' \<and> nb' \<le> nb \<and> num' < 10 ^ nb' \<and> num' * 10 ^ (nb - nb') = num"
  using assms
proof (induction nb num arbitrary: nb' num' rule: strip_zeros.induct)
  case (1 nb num)
  show ?case
  proof (cases "num mod 10 = 0")
    case False
    then have "nb' = nb" "num' = num" using 1(4) by (simp_all add: strip_zeros.simps [of nb num])
    moreover have "0 < nb" using 1(2,3) by (cases nb) simp_all
    ultimately show ?thesis using 1(3) by simp
  next
    case True
    then have num: "num = 10 * (num div 10)" by auto
    obtain k where k: "nb = Suc k" using 1(2,3) by (cases nb) simp_all
    have "strip_zeros k (num div 10) = (nb', num')"
      using 1(2,4) True k by (simp add: strip_zeros.simps [of "Suc k" num])
    moreover have "num div 10 < 10 ^ k" using 1(3) k by (simp add: div_less_iff_less_mult mult.commute)
    moreover have "0 < num div 10" using num 1(2) by linarith
    ultimately have "0 < nb' \<and> nb' \<le> k \<and> num' < 10 ^ nb' \<and> num' * 10 ^ (k - nb') = num div 10"
      using 1(1) [of nb' num'] 1(2) True k by simp
    then show ?thesis using num k by (simp add: Suc_diff_le)
  qed
qed

lemma fmt_default_denomination:
  "fmt_satoshi_in s neg denom sh default_options
     = fmt_satoshi_in s neg denom False default_options @ (if sh then 0x20 # denom_as_str denom else [])"
  by (simp add: fmt_satoshi_in_def default_options_def padding_def repeat_char_def split: prod.splits)

lemma fmt_default_number:
  assumes "s \<le> 2100000000000000"
  shows "\<exists>ip fp. fmt_satoshi_in s neg denom False default_options = number_text neg ip fp
    \<and> list_all is_digit ip \<and> list_all is_digit fp \<and> length fp \<le> decimals_of denom \<and> ip \<noteq> []
    \<and> length (number_text neg ip fp) \<le> 50 \<and> number_value (decimals_of denom) ip fp = s"
proof -
  define p where "p = decimals_of denom"
  have p8: "p \<le> 8" by (cases denom) (simp_all add: p_def decimals_of_def)
  have parts: "fmt_parts s denom None = (s div 10 ^ p, frac, nb, 0, 0)"
    if "(if s mod 10 ^ p = 0 then (0, 0) else strip_zeros p (s mod 10 ^ p)) = (nb, frac)" for nb frac
    using that by (cases denom) (auto simp: fmt_parts_def p_def decimals_of_def split: if_splits)
  have short: "length (show_nat (s div 10 ^ p)) \<le> 16"
  proof (rule length_show_nat)
    have "s div 10 ^ p \<le> s" by (rule div_le_dividend)
    moreover have "(2100000000000000 :: nat) < 10 ^ 16" by simp
    ultimately show "s div 10 ^ p < 10 ^ 16" using assms by linarith
  qed simp
  show ?thesis
  proof (cases "s mod 10 ^ p = 0")
    case True
    have "fmt_satoshi_in s neg denom False default_options = number_text neg (show_nat (s div 10 ^ p)) []"
      using parts [of 0 0] True
      by (simp add: fmt_satoshi_in_def default_options_def padding_def repeat_char_def number_text_def)
    moreover have "number_value p (show_nat (s div 10 ^ p)) [] = s"
      using True by (auto simp: number_value_def show_nat_digits)
    ultimately show ?thesis using show_nat_digits [of "s div 10 ^ p"] short
      by (intro exI [of _ "show_nat (s div 10 ^ p)"] exI [of _ "[]"]) (simp add: p_def [symmetric] number_text_def)
  next
    case False
    obtain nb frac where strip: "strip_zeros p (s mod 10 ^ p) = (nb, frac)" by fastforce
    have st: "0 < nb \<and> nb \<le> p \<and> frac < 10 ^ nb \<and> frac * 10 ^ (p - nb) = s mod 10 ^ p"
      using strip_zeros [OF _ _ strip] False by simp
    let ?ip = "show_nat (s div 10 ^ p)" and ?fp = "show_nat_padded nb frac"
    note fp = show_nat_padded [of frac nb]
    have rendered: "fmt_satoshi_in s neg denom False default_options = number_text neg ?ip ?fp"
      using parts [of nb frac] False strip st fp
      by (auto simp: fmt_satoshi_in_def default_options_def padding_def repeat_char_def number_text_def)
    have "number_value p ?ip ?fp = (s div 10 ^ p * 10 ^ nb + frac) * 10 ^ (p - nb)"
      using st fp by (simp add: number_value_def decimal_append show_nat_digits)
    also have "\<dots> = s div 10 ^ p * (10 ^ nb * 10 ^ (p - nb)) + s mod 10 ^ p"
      using st by (simp add: distrib_right)
    also have "\<dots> = s" using st div_mult_mod_eq [of s "10 ^ p"] by (simp add: power_add [symmetric])
    finally show ?thesis using rendered show_nat_digits [of "s div 10 ^ p"] short st fp p8
      by (intro exI [of _ ?ip] exI [of _ ?fp]) (simp add: p_def [symmetric] number_text_def)
  qed
qed

lemma number_no_space:
  assumes "list_all is_digit ip" "list_all is_digit fp"
  shows "0x20 \<notin> set (number_text neg ip fp)"
proof -
  have "\<not> is_digit 0x20" by (simp add: is_digit_def)
  then show ?thesis using digits_no_byte [OF assms(1)] digits_no_byte [OF assms(2)] by (auto simp: number_text_def)
qed

lemma denom_from_as_str: "denom_from_str (denom_as_str d) = Ok d"
  by (cases d) (simp_all add: denom_from_str_def denom_forms_def CONFUSING_FORMS_def ascii_def)

lemma split_number:
  assumes "0x20 \<notin> set t"
  shows "split_amount_and_denomination alphabetic (t @ 0x20 # denom_as_str d) = Ok (t, d)"
  using assms by (simp add: split_amount_and_denomination_def find_byte_append denom_from_as_str Let_def)

lemma amount_text:
  assumes "amount_ok a"
  shows "amount_from_str_in (fmt_satoshi_in (unat a) False d False default_options) d = Ok a"
    and "amount_from_str alphabetic (fmt_satoshi_in (unat a) False d True default_options) = Ok a"
proof -
  have "unat a \<le> 2100000000000000" using assms by (simp add: amount_ok_unat)
  then obtain ip fp where t: "fmt_satoshi_in (unat a) False d False default_options = number_text False ip fp"
    "list_all is_digit ip" "list_all is_digit fp" "length fp \<le> decimals_of d" "ip \<noteq> []"
    "length (number_text False ip fp) \<le> 50" "number_value (decimals_of d) ip fp = unat a"
    using fmt_default_number [of "unat a" False d] by blast
  show number: "amount_from_str_in (fmt_satoshi_in (unat a) False d False default_options) d = Ok a"
    unfolding t(1) using amount_from_number [OF t(2,3,4) _ t(6)] t(5,7) assms by (simp add: amount_ok_unat)
  have "0x20 \<notin> set (fmt_satoshi_in (unat a) False d False default_options)"
    unfolding t(1) by (rule number_no_space [OF t(2,3)])
  then show "amount_from_str alphabetic (fmt_satoshi_in (unat a) False d True default_options) = Ok a"
    using number unfolding fmt_default_denomination [of _ _ _ True]
    by (simp add: amount_from_str_def amount_from_str_with_denomination_def split_number)
qed

lemma signed_text:
  assumes "signed_ok n"
  shows "signed_from_str_in (fmt_satoshi_in (nat \<bar>n\<bar>) (n < 0) d False default_options) d = Ok n"
    and "signed_from_str alphabetic (fmt_satoshi_in (nat \<bar>n\<bar>) (n < 0) d True default_options) = Ok n"
proof -
  have small: "nat \<bar>n\<bar> \<le> 2100000000000000" using assms by (simp add: signed_ok_abs)
  then obtain ip fp where t: "fmt_satoshi_in (nat \<bar>n\<bar>) (n < 0) d False default_options = number_text (n < 0) ip fp"
    "list_all is_digit ip" "list_all is_digit fp" "length fp \<le> decimals_of d" "ip \<noteq> []"
    "length (number_text (n < 0) ip fp) \<le> 50" "number_value (decimals_of d) ip fp = nat \<bar>n\<bar>"
    using fmt_default_number [of "nat \<bar>n\<bar>" "n < 0" d] by blast
  show number: "signed_from_str_in (fmt_satoshi_in (nat \<bar>n\<bar>) (n < 0) d False default_options) d = Ok n"
    unfolding t(1) using signed_from_number [OF t(2,3,4) _ t(6)] t(5,7) small by (auto simp: Let_def)
  have "0x20 \<notin> set (fmt_satoshi_in (nat \<bar>n\<bar>) (n < 0) d False default_options)"
    unfolding t(1) by (rule number_no_space [OF t(2,3)])
  then show "signed_from_str alphabetic (fmt_satoshi_in (nat \<bar>n\<bar>) (n < 0) d True default_options) = Ok n"
    using number unfolding fmt_default_denomination [of _ _ _ True]
    by (simp add: signed_from_str_def signed_from_str_with_denomination_def split_number)
qed

lemma signed_display:
  assumes "signed_ok n"
  shows "signed_display_in n d = \<lparr>sats_abs = nat \<bar>n\<bar>, is_negative = (n < 0), style = FixedDenomination d False\<rparr>"
proof -
  have ok: "signed_ok \<bar>n\<bar>" using assms by (simp add: signed_ok_abs)
  then have "unsigned_abs n = (Ok (word_of_int \<bar>n\<bar>) :: (unit, u64) res)"
    by (simp add: unsigned_abs_def signed_abs_def signed_expect_ok to_unsigned_eq(1))
  moreover have "unat (word_of_int \<bar>n\<bar> :: u64) = nat \<bar>n\<bar>" using to_unsigned_eq(2) [OF ok] by (simp flip: nat_uint_eq)
  ultimately show ?thesis by (simp add: signed_display_in_def signed_is_negative_def)
qed

text \<open>Property C38. The text of an amount is parsed back to it: in every denomination without and with its suffix, and as the default
  formatting of the type and the dynamic one. The same holds of signed amounts. Only the
  space between the number and the suffix is needed to separate them, whatever the alphabetic characters are.\<close>

theorem amount_text_roundtrip:
  assumes "amount_ok a" "signed_ok n"
  shows "amount_from_str_in (amount_to_string_in a d) d = Ok a
    \<and> amount_from_str alphabetic (amount_to_string_with_denomination a d) = Ok a
    \<and> amount_from_str alphabetic (amount_fmt a default_options) = Ok a
    \<and> amount_from_str alphabetic (display_fmt (amount_display_dynamic a) default_options) = Ok a
    \<and> signed_from_str_in (signed_to_string_in n d) d = Ok n
    \<and> signed_from_str alphabetic (signed_to_string_with_denomination n d) = Ok n
    \<and> signed_from_str alphabetic (signed_fmt n default_options) = Ok n"
  using amount_text [OF assms(1)] signed_text [OF assms(2)]
  by (simp add: amount_to_string_in_def amount_to_string_with_denomination_def amount_fmt_def amount_display_in_def
      amount_display_dynamic_def display_fmt_def show_denomination_def signed_to_string_in_def
      signed_to_string_with_denomination_def signed_fmt_def signed_display [OF assms(2)])

theorem amount_text_roundtrip_witness:
  "amount_from_str_in (amount_to_string_in 12345 MilliBitcoin) MilliBitcoin = Ok 12345
   \<and> signed_from_str (\<lambda>_. False) (signed_fmt (- 7) default_options) = Ok (- 7)"
  using amount_text_roundtrip [of 12345 "- 7" MilliBitcoin "\<lambda>_. False"] by (simp add: amount_ok_unat signed_ok_abs)

subsection \<open>The width of a formatted amount\<close>

lemma dec_width_loop: "dec_width_loop n w = w + (length (show_nat n) - 1)"
proof (induction n w rule: dec_width_loop.induct)
  case (1 n w)
  have step: "n div 10 \<noteq> 0 \<Longrightarrow> length (show_nat n) = Suc (length (show_nat (n div 10)))"
    by (simp add: show_nat_def digits_step)
  have last: "n div 10 = 0 \<Longrightarrow> length (show_nat n) = 1" by (simp add: show_nat_def digits_step)
  have pos: "0 < length (show_nat (n div 10))" using show_nat_digits(3) by simp
  show ?case
  proof (cases "n div 10 = 0")
    case True
    then show ?thesis using last by (simp add: dec_width_loop.simps [of n w])
  next
    case False
    then have "dec_width_loop (n div 10) (w + 1) = w + 1 + (length (show_nat (n div 10)) - 1)" using 1 by simp
    then show ?thesis using False step pos by (simp add: dec_width_loop.simps [of n w] Let_def)
  qed
qed

lemma dec_width: "dec_width n = length (show_nat n)"
  using show_nat_digits(3) [of n] by (cases "show_nat n") (simp_all add: dec_width_def dec_width_loop)

lemma length_repeat_char: "length c = 1 \<Longrightarrow> length (repeat_char c k) = k"
  by (induction k) (simp_all add: repeat_char_def)

lemma fmt_parts_fraction:
  assumes "fmt_parts s denom prec = (whole, frac, nb, ex, trailing)" "0 < nb"
  shows "length (show_nat_padded nb frac) = nb"
proof -
  have "\<exists>p m. 0 < m \<and> m < 10 ^ p \<and> strip_zeros p m = (nb, frac)"
  proof (cases "precision denom < 0")
    case True
    define s' where "s' = (case prec of
        Some fp \<Rightarrow> if decimals_of denom > fp then round_satoshi (10 ^ (decimals_of denom - fp)) s else s | None \<Rightarrow> s)"
    have "strip_zeros (decimals_of denom) (s' mod 10 ^ decimals_of denom) = (nb, frac) \<and> 0 < s' mod 10 ^ decimals_of denom"
      using assms True
      by (auto simp: fmt_parts_def Let_def decimals_of_def s'_def [unfolded decimals_of_def, symmetric]
          split: prod.splits if_splits)
    then show ?thesis by (intro exI [of _ "decimals_of denom"] exI [of _ "s' mod 10 ^ decimals_of denom"]) simp
  next
    case False
    then show ?thesis using assms by (auto simp: fmt_parts_def Let_def split: if_splits)
  qed
  then show ?thesis using strip_zeros show_nat_padded(2) by blast
qed

text \<open>With a fill character of one byte, the formatted text has the requested width, or its natural width if that is larger:
  the code computes the natural width before it writes anything, and that number is right for every
  denomination, precision, sign and alignment.\<close>

theorem amount_display_width:
  assumes "length (fill options) = 1"
  shows "length (fmt_satoshi_in s neg denom sh options)
    = max (num_width s neg denom sh options) (case opt_width options of Some w \<Rightarrow> w | None \<Rightarrow> 0)"
proof -
  obtain whole frac nb ex trailing where parts: "fmt_parts s denom (opt_precision options) = (whole, frac, nb, ex, trailing)"
    by (metis prod.exhaust)
  define w where "w = num_width s neg denom sh options"
  obtain l r where pad: "padding w options = (l, r)" by fastforce
  have total: "w + l + r = max w (case opt_width options of Some w \<Rightarrow> w | None \<Rightarrow> 0)"
    using pad by (auto simp: padding_def Let_def split: if_splits option.splits)
  have "length (repeat_char [0x30] k) = k" for k by (simp add: length_repeat_char)
  then have "length (fmt_satoshi_in s neg denom sh options) = w + l + r"
    using parts pad fmt_parts_fraction [OF parts] length_repeat_char [OF assms]
    by (auto simp: fmt_satoshi_in_def w_def [symmetric]) (auto simp: w_def num_width_def dec_width)
  then show ?thesis using total by (simp add: w_def)
qed

theorem amount_display_width_witness:
  "length (fmt_satoshi_in 12345 True Bitcoin True (default_options\<lparr>opt_width := Some 30\<rparr>)) \<ge> 30"
  using amount_display_width [of "default_options\<lparr>opt_width := Some 30\<rparr>" 12345 True Bitcoin True] by (simp add: default_options_def)

subsection \<open>Corner cases\<close>

text \<open>A lone decimal point is parsed as zero, and negative zero of an unsigned amount needs more than its text: it is
  refused, with and without a denomination. A precision below that of the denomination rounds.\<close>

lemma amount_parse_point: "amount_from_str_in (ascii ''.'') Bitcoin = Ok 0"
  by code_simp

lemma amount_negative_zero:
  "amount_from_str (\<lambda>_. False) (ascii ''-0'') = Err MissingDenomination"
  "signed_from_str (\<lambda>_. False) (ascii ''-0'') = Ok 0"
  by code_simp+

lemma amount_display_rounds:
  "fmt_satoshi_in 19 False Bit False (default_options\<lparr>opt_precision := Some 1\<rparr>) = ascii ''0.2''"
  by code_simp

end
