(* ===== verification/Partial_Merkle.thy ===== *)
theory Partial_Merkle
  imports Merkle
begin

section \<open>Partial Merkle trees\<close>

text \<open>
  \<open>p2p/src/merkle_tree.rs\<close>: a proof that some transactions belong to a block, as a depth-first walk over
  the Merkle tree that stores a bit for every node it visits and a hash for every node it does not
  descend into. \<open>from_txids\<close> builds one, \<open>extract_matches\<close> reads one. Heights and positions are natural
  numbers; the width of a level is computed in \<open>u32\<close>, so that its wrap-around is written out. The
  theorems say that a proof that was built is read back as the transactions it was built for, and that
  whatever proof leads to the Merkle root of a block names transactions of the block.
\<close>

subsection \<open>The tree\<close>

record partial_merkle_tree =
  num_transactions :: u32
  pmt_bits :: "bool list"
  pmt_hashes :: "bytes list"

datatype merkle_block_error =
    MerkleRootMismatch
  | NoTransactions
  | TooManyTransactions
  | TooManyHashes
  | NotEnoughBits
  | NotAllBitsConsumed
  | NotAllHashesConsumed
  | BitsArrayOverflow
  | HashesArrayOverflow
  | IdenticalHashesFound

definition calc_tree_width :: "nat \<Rightarrow> nat \<Rightarrow> nat" where
  "calc_tree_width n height = (n + 2 ^ height - 1) mod 2 ^ 32 div 2 ^ height"

text \<open>The loop stops at height 31 at the latest, so that the guard on the height never decides
  (\<open>calc_tree_height_guard\<close>).\<close>

function calc_tree_height_loop :: "nat \<Rightarrow> nat \<Rightarrow> nat" where
  "calc_tree_height_loop n height =
     (if 1 < calc_tree_width n height \<and> height < 32 then calc_tree_height_loop n (height + 1) else height)"
  by pat_completeness auto
termination by (relation "measure (\<lambda>(n, height). 32 - height)") auto

declare calc_tree_height_loop.simps [simp del]

definition calc_tree_height :: "nat \<Rightarrow> nat" where
  "calc_tree_height n = calc_tree_height_loop n 0"

text \<open>\<open>None\<close> is the panic of an index that is out of range.\<close>

fun calc_hash :: "(bytes \<Rightarrow> bytes) \<Rightarrow> nat \<Rightarrow> bytes list \<Rightarrow> nat \<Rightarrow> nat \<Rightarrow> bytes option" where
  "calc_hash h n txids 0 pos = (if pos < length txids then Some (txids ! pos) else None)"
| "calc_hash h n txids (Suc height) pos =
     Option.bind (calc_hash h n txids height (pos * 2)) (\<lambda>left.
       if pos * 2 + 1 < calc_tree_width n height
       then Option.bind (calc_hash h n txids height (pos * 2 + 1)) (\<lambda>right. Some (combine h left right))
       else Some (combine h left left))"

subsection \<open>Building\<close>

function match_loop :: "nat \<Rightarrow> bool list \<Rightarrow> nat \<Rightarrow> nat \<Rightarrow> bool \<Rightarrow> bool option" where
  "match_loop n matches bound p acc =
     (if p < bound \<and> p < n then
        (if p < length matches then match_loop n matches bound (p + 1) (acc \<or> matches ! p) else None)
      else Some acc)"
  by pat_completeness auto
termination by (relation "measure (\<lambda>(n, matches, bound, p, acc). n - p)") auto

declare match_loop.simps [simp del]

text \<open>The vectors of bits and hashes grow at their ends.\<close>

fun traverse_and_build ::
  "(bytes \<Rightarrow> bytes) \<Rightarrow> nat \<Rightarrow> bytes list \<Rightarrow> bool list \<Rightarrow> nat \<Rightarrow> nat \<Rightarrow> bool list \<times> bytes list
     \<Rightarrow> (bool list \<times> bytes list) option" where
  "traverse_and_build h n txids matches 0 pos (bits, hashes) =
     Option.bind (match_loop n matches (pos + 1) pos False) (\<lambda>parent_of_match.
     Option.bind (calc_hash h n txids 0 pos) (\<lambda>hash. Some (bits @ [parent_of_match], hashes @ [hash])))"
| "traverse_and_build h n txids matches (Suc height) pos (bits, hashes) =
     Option.bind (match_loop n matches ((pos + 1) * 2 ^ Suc height) (pos * 2 ^ Suc height) False) (\<lambda>parent_of_match.
       let bits = bits @ [parent_of_match] in
       if \<not> parent_of_match then
         Option.bind (calc_hash h n txids (Suc height) pos) (\<lambda>hash. Some (bits, hashes @ [hash]))
       else
         Option.bind (traverse_and_build h n txids matches height (pos * 2) (bits, hashes)) (\<lambda>st.
           if pos * 2 + 1 < calc_tree_width n height
           then traverse_and_build h n txids matches height (pos * 2 + 1) st
           else Some st))"

definition from_txids ::
  "(bytes \<Rightarrow> bytes) \<Rightarrow> bytes list \<Rightarrow> bool list \<Rightarrow> (unit, partial_merkle_tree) res" where
  "from_txids h txids matches =
     (if length txids = 0 then Panic
      else if length txids \<noteq> length matches then Panic
      else let n = word_of_nat (length txids) :: u32 in
        case traverse_and_build h (unat n) txids matches (calc_tree_height (unat n)) 0 ([], []) of
          Some (bits, hashes) \<Rightarrow> Ok \<lparr>num_transactions = n, pmt_bits = bits, pmt_hashes = hashes\<rparr>
        | None \<Rightarrow> Panic)"

subsection \<open>Extracting\<close>

text \<open>The counters and the two output vectors, which keep what was found before an error.\<close>

record extraction =
  bits_used :: nat
  hash_used :: nat
  found :: "bytes list"
  indexes :: "nat list"

fun traverse_and_extract ::
  "(bytes \<Rightarrow> bytes) \<Rightarrow> partial_merkle_tree \<Rightarrow> nat \<Rightarrow> nat \<Rightarrow> extraction
     \<Rightarrow> (merkle_block_error, bytes) res \<times> extraction" where
  "traverse_and_extract h t 0 pos st =
     (if bits_used st \<ge> length (pmt_bits t) then (Err BitsArrayOverflow, st)
      else let parent_of_match = pmt_bits t ! bits_used st; st = st\<lparr>bits_used := bits_used st + 1\<rparr> in
        if hash_used st \<ge> length (pmt_hashes t) then (Err HashesArrayOverflow, st)
        else let hash = pmt_hashes t ! hash_used st; st = st\<lparr>hash_used := hash_used st + 1\<rparr> in
          if parent_of_match then (Ok hash, st\<lparr>found := found st @ [hash], indexes := indexes st @ [pos]\<rparr>)
          else (Ok hash, st))"
| "traverse_and_extract h t (Suc height) pos st =
     (if bits_used st \<ge> length (pmt_bits t) then (Err BitsArrayOverflow, st)
      else let parent_of_match = pmt_bits t ! bits_used st; st = st\<lparr>bits_used := bits_used st + 1\<rparr> in
        if \<not> parent_of_match then
          (if hash_used st \<ge> length (pmt_hashes t) then (Err HashesArrayOverflow, st)
           else (Ok (pmt_hashes t ! hash_used st), st\<lparr>hash_used := hash_used st + 1\<rparr>))
        else
          (case traverse_and_extract h t height (pos * 2) st of
             (Ok left, st) \<Rightarrow>
               if pos * 2 + 1 < calc_tree_width (unat (num_transactions t)) height then
                 (case traverse_and_extract h t height (pos * 2 + 1) st of
                    (Ok right, st) \<Rightarrow>
                      if right = left then (Err IdenticalHashesFound, st) else (Ok (combine h left right), st)
                  | r \<Rightarrow> r)
               else (Ok (combine h left left), st)
           | r \<Rightarrow> r))"

definition MAX_BLOCK_WEIGHT :: nat where "MAX_BLOCK_WEIGHT = 4000000"
definition MIN_TRANSACTION_WEIGHT :: nat where "MIN_TRANSACTION_WEIGHT = 4 * 60"

definition div_ceil_8 :: "nat \<Rightarrow> nat" where "div_ceil_8 n = (n + 7) div 8"

text \<open>The result, and the contents of the vectors \<open>matches\<close> and \<open>indexes\<close>, which the function clears first.\<close>

definition extract_matches ::
  "(bytes \<Rightarrow> bytes) \<Rightarrow> partial_merkle_tree \<Rightarrow> (merkle_block_error, bytes) res \<times> bytes list \<times> nat list" where
  "extract_matches h t =
     (let n = unat (num_transactions t) in
      if n = 0 then (Err NoTransactions, [], [])
      else if n > MAX_BLOCK_WEIGHT div MIN_TRANSACTION_WEIGHT then (Err TooManyTransactions, [], [])
      else if length (pmt_hashes t) mod 2 ^ 32 > n then (Err TooManyHashes, [], [])
      else if length (pmt_bits t) < length (pmt_hashes t) then (Err NotEnoughBits, [], [])
      else case traverse_and_extract h t (calc_tree_height n) 0
             \<lparr>bits_used = 0, hash_used = 0, found = [], indexes = []\<rparr> of
        (Ok root, st) \<Rightarrow>
          ((if div_ceil_8 (bits_used st) \<noteq> div_ceil_8 (length (pmt_bits t)) mod 2 ^ 32 then Err NotAllBitsConsumed
            else if hash_used st \<noteq> length (pmt_hashes t) mod 2 ^ 32 then Err NotAllHashesConsumed
            else Ok root), found st, indexes st)
      | (r, st) \<Rightarrow> (r, found st, indexes st))"

subsection \<open>Segments of the leaves\<close>

text \<open>The leaves below the node at a height and a position.\<close>

definition segment :: "nat \<Rightarrow> nat \<Rightarrow> 'a list \<Rightarrow> 'a list" where
  "segment k pos xs = take (2 ^ k) (drop (pos * 2 ^ k) xs)"

lemma segment_halves:
  "segment k (pos * 2) xs = take (2 ^ k) (segment (Suc k) pos xs)"
  "segment k (Suc (pos * 2)) xs = drop (2 ^ k) (segment (Suc k) pos xs)"
  by (simp_all add: segment_def drop_take algebra_simps)

lemma segment_empty: "segment k pos xs = [] \<longleftrightarrow> length xs \<le> pos * 2 ^ k"
  by (simp add: segment_def)

lemma segment_all: "length xs \<le> 2 ^ k \<Longrightarrow> segment k 0 xs = xs"
  by (simp add: segment_def)

lemma segment_nth: "i < length (segment k pos xs) \<Longrightarrow> segment k pos xs ! i = xs ! (pos * 2 ^ k + i)"
  by (cases "pos * 2 ^ k \<le> length xs") (simp_all add: segment_def)

lemma length_segment: "length (segment k pos xs) = min (2 ^ k) (length xs - pos * 2 ^ k)"
  by (simp add: segment_def)

lemma segment_eq_length: "length xs = length ys \<Longrightarrow> length (segment k pos xs) = length (segment k pos ys)"
  by (simp add: segment_def)

lemma calc_tree_width_eq:
  assumes "n \<le> 2 ^ 31" "k \<le> 31"
  shows "j < calc_tree_width n k \<longleftrightarrow> j * 2 ^ k < n"
proof -
  have "(2::nat) ^ k \<le> 2 ^ 31" using assms(2) by (intro power_increasing) simp_all
  then have "n + 2 ^ k - 1 < 2 ^ 32" using assms(1) by simp
  then have w: "calc_tree_width n k = (n + 2 ^ k - 1) div 2 ^ k" by (simp add: calc_tree_width_def)
  have pos: "(0::nat) < 2 ^ k" by simp
  have "j < (n + 2 ^ k - 1) div 2 ^ k \<longleftrightarrow> Suc j * 2 ^ k \<le> n + 2 ^ k - 1"
    by (simp only: Suc_le_eq [symmetric] less_eq_div_iff_mult_less_eq [OF pos])
  also have "\<dots> \<longleftrightarrow> j * 2 ^ k < n"
  proof -
    have "(0::nat) < 2 ^ k" by simp
    then show ?thesis unfolding mult_Suc by linarith
  qed
  finally show ?thesis by (simp only: w)
qed

lemma right_child:
  assumes "length xs \<le> 2 ^ 31" "k \<le> 31"
  shows "pos * 2 + 1 < calc_tree_width (length xs) k \<longleftrightarrow> 2 ^ k < length (segment (Suc k) pos xs)"
  using calc_tree_width_eq [OF assms, of "pos * 2 + 1"] by (auto simp: segment_def algebra_simps)

lemma left_only:
  "length (segment (Suc k) pos xs) \<le> 2 ^ k \<Longrightarrow> segment k (pos * 2) xs = segment (Suc k) pos xs"
  by (simp add: segment_halves)

lemma calc_tree_height_loop:
  assumes "n \<le> 2 ^ 31" "0 < n" "k \<le> tree_height n"
  shows "calc_tree_height_loop n k = tree_height n"
proof -
  have h31: "tree_height n \<le> 31"
  proof (rule ccontr)
    assume "\<not> tree_height n \<le> 31"
    then have "tree_height n = Suc (tree_height n - 1)" "31 \<le> tree_height n - 1" by simp_all
    then have "2 ^ (tree_height n - 1) < n" by (intro tree_height_pos) (use assms(2) in simp_all)
    moreover have "(2::nat) ^ 31 \<le> 2 ^ (tree_height n - 1)" using \<open>31 \<le> _\<close> by (intro power_increasing) simp_all
    ultimately show False using assms(1) by linarith
  qed
  show ?thesis using assms(3)
  proof (induction "tree_height n - k" arbitrary: k)
    case 0
    then have k: "k = tree_height n" by simp
    have "\<not> 1 < calc_tree_width n k"
      using calc_tree_width_eq [OF assms(1), of k 1] h31 k tree_height_bound [of n] by simp
    then show ?case using k by (simp add: calc_tree_height_loop.simps)
  next
    case (Suc d)
    then obtain j where j: "tree_height n = Suc j" "k \<le> j" by (cases "tree_height n") simp_all
    have "2 ^ k \<le> (2::nat) ^ j" using j(2) by simp
    also have "\<dots> < n" by (rule tree_height_pos) (use assms(2) j(1) in simp_all)
    finally have "1 < calc_tree_width n k" using calc_tree_width_eq [OF assms(1), of k 1] h31 j by simp
    moreover have "calc_tree_height_loop n (k + 1) = tree_height n" using Suc j by (intro Suc.hyps(1)) simp_all
    ultimately show ?case using h31 j by (simp add: calc_tree_height_loop.simps [of n k])
  qed
qed

lemma calc_tree_height: "0 < n \<Longrightarrow> n \<le> 2 ^ 31 \<Longrightarrow> calc_tree_height n = tree_height n"
  by (simp add: calc_tree_height_def calc_tree_height_loop)

text \<open>The guard of the height loop is never what ends it.\<close>

lemma calc_tree_height_guard: "calc_tree_width n 31 \<le> 1"
proof -
  have "m < 2 ^ 32 \<Longrightarrow> m div 2 ^ 31 \<le> 1" for m :: nat by simp
  then show ?thesis unfolding calc_tree_width_def by simp
qed

lemma calc_hash_tree:
  assumes "length xs \<le> 2 ^ 31" "k \<le> 31" "segment k pos xs \<noteq> []"
  shows "calc_hash h (length xs) xs k pos = Some (tree h k (segment k pos xs))"
  using assms(2,3)
proof (induction k arbitrary: pos)
  case 0
  then show ?case by (simp add: segment_def hd_drop_conv_nth)
next
  case (Suc k)
  let ?s = "segment (Suc k) pos xs"
  have k: "k \<le> 31" using Suc.prems by simp
  have left: "calc_hash h (length xs) xs k (pos * 2) = Some (tree h k (take (2 ^ k) ?s))"
    using Suc.IH [of "pos * 2"] Suc.prems by (simp add: segment_halves)
  show ?case
  proof (cases "length ?s \<le> 2 ^ k")
    case True
    then show ?thesis using left right_child [OF assms(1) k, of pos] by simp
  next
    case False
    then have "calc_hash h (length xs) xs k (Suc (pos * 2)) = Some (tree h k (drop (2 ^ k) ?s))"
      using Suc.IH [of "Suc (pos * 2)"] k by (simp add: segment_halves)
    then show ?thesis using False left right_child [OF assms(1) k, of pos] by simp
  qed
qed

lemma match_loop:
  "n = length matches \<Longrightarrow> match_loop n matches bound p acc = Some (acc \<or> True \<in> set (take (bound - p) (drop p matches)))"
proof (induction n matches bound p acc rule: match_loop.induct)
  case (1 n matches bound p acc)
  show ?case
  proof (cases "p < bound \<and> p < n")
    case True
    then have "take (bound - p) (drop p matches) = matches ! p # take (bound - (p + 1)) (drop (p + 1) matches)"
      using 1(2) by (simp add: Cons_nth_drop_Suc [symmetric] take_Cons' )
    then show ?thesis using 1 True by (subst match_loop.simps) auto
  next
    case False
    then show ?thesis using 1(2) by (subst match_loop.simps) auto
  qed
qed

lemma match_segment:
  "match_loop (length ms) ms ((pos + 1) * 2 ^ k) (pos * 2 ^ k) False = Some (True \<in> set (segment k pos ms))"
  by (simp add: match_loop segment_def)

subsection \<open>What is built\<close>

text \<open>The bits and hashes of a proof for the leaves below a node, by recursion on the height.\<close>

fun proof_bits :: "nat \<Rightarrow> bool list \<Rightarrow> bool list" where
  "proof_bits 0 ms = [True \<in> set ms]"
| "proof_bits (Suc k) ms =
     (if True \<notin> set ms then [False]
      else True # proof_bits k (take (2 ^ k) ms) @ (if length ms \<le> 2 ^ k then [] else proof_bits k (drop (2 ^ k) ms)))"

fun proof_hashes :: "(bytes \<Rightarrow> bytes) \<Rightarrow> nat \<Rightarrow> bytes list \<Rightarrow> bool list \<Rightarrow> bytes list" where
  "proof_hashes h 0 xs ms = [hd xs]"
| "proof_hashes h (Suc k) xs ms =
     (if True \<notin> set ms then [tree h (Suc k) xs]
      else proof_hashes h k (take (2 ^ k) xs) (take (2 ^ k) ms)
        @ (if length ms \<le> 2 ^ k then [] else proof_hashes h k (drop (2 ^ k) xs) (drop (2 ^ k) ms)))"

lemma traverse_and_build:
  assumes "length xs = length ms" "length xs \<le> 2 ^ 31" "k \<le> 31" "segment k pos xs \<noteq> []"
  shows "traverse_and_build h (length xs) xs ms k pos (bits, hashes) =
    Some (bits @ proof_bits k (segment k pos ms), hashes @ proof_hashes h k (segment k pos xs) (segment k pos ms))"
  using assms(3,4)
proof (induction k arbitrary: pos bits hashes)
  case 0
  then show ?case
    using calc_hash_tree [OF assms(2) _ 0(2), of h] match_segment [of ms pos 0] assms(1) by simp
next
  case (Suc k)
  let ?s = "segment (Suc k) pos xs" and ?m = "segment (Suc k) pos ms"
  have k: "k \<le> 31" using Suc.prems by simp
  have match: "match_loop (length xs) ms ((pos + 1) * 2 ^ Suc k) (pos * 2 ^ Suc k) False = Some (True \<in> set ?m)"
    using match_segment [of ms pos "Suc k"] assms(1) by simp
  have len: "length ?m = length ?s" using assms(1) by (simp add: length_segment)
  show ?case
  proof (cases "True \<in> set ?m")
    case False
    then show ?thesis using match calc_hash_tree [OF assms(2) Suc.prems, of h] by simp
  next
    case True
    have left: "traverse_and_build h (length xs) xs ms k (pos * 2) (b, hs) =
        Some (b @ proof_bits k (take (2 ^ k) ?m), hs @ proof_hashes h k (take (2 ^ k) ?s) (take (2 ^ k) ?m))" for b hs
      using Suc.IH [OF k, of "pos * 2"] Suc.prems by (simp add: segment_halves)
    show ?thesis
    proof (cases "length ?s \<le> 2 ^ k")
      case True
      then show ?thesis using match \<open>True \<in> set ?m\<close> left right_child [OF assms(2) k, of pos] len
        by (simp del: mult_Suc mult_Suc_right power_Suc)
    next
      case False
      then have "traverse_and_build h (length xs) xs ms k (Suc (pos * 2)) (b, hs) =
          Some (b @ proof_bits k (drop (2 ^ k) ?m), hs @ proof_hashes h k (drop (2 ^ k) ?s) (drop (2 ^ k) ?m))" for b hs
        using Suc.IH [OF k, of "Suc (pos * 2)"] by (simp add: segment_halves)
      then show ?thesis using False match \<open>True \<in> set ?m\<close> left right_child [OF assms(2) k, of pos] len
        by (simp del: mult_Suc mult_Suc_right power_Suc)
    qed
  qed
qed

lemma proof_hashes_bound: "xs \<noteq> [] \<Longrightarrow> length xs = length ms \<Longrightarrow> length (proof_hashes h k xs ms) \<le> length xs"
proof (induction k arbitrary: xs ms)
  case 0
  then show ?case by (cases xs) simp_all
next
  case (Suc k)
  let ?L = "take (2 ^ k) xs" and ?R = "drop (2 ^ k) xs" and ?l = "take (2 ^ k) ms" and ?r = "drop (2 ^ k) ms"
  have left: "length (proof_hashes h k ?L ?l) \<le> length ?L" using Suc.prems by (intro Suc.IH) simp_all
  have right: "\<not> length ms \<le> 2 ^ k \<Longrightarrow> length (proof_hashes h k ?R ?r) \<le> length ?R" using Suc.prems by (intro Suc.IH) simp_all
  have one: "1 \<le> length xs" using Suc.prems(1) by (simp add: Suc_le_eq)
  show ?case using left right one Suc.prems(2) by auto
qed

lemma proof_hashes_le_bits: "length xs = length ms \<Longrightarrow> length (proof_hashes h k xs ms) \<le> length (proof_bits k ms)"
proof (induction k arbitrary: xs ms)
  case (Suc k)
  have "length (proof_hashes h k (take (2 ^ k) xs) (take (2 ^ k) ms)) \<le> length (proof_bits k (take (2 ^ k) ms))"
    "length (proof_hashes h k (drop (2 ^ k) xs) (drop (2 ^ k) ms)) \<le> length (proof_bits k (drop (2 ^ k) ms))"
    using Suc.prems by (intro Suc.IH, simp)+
  then show ?case by auto
qed simp

lemma proof_bits_bound: "length (proof_bits k ms) < 2 ^ Suc k"
proof (induction k arbitrary: ms)
  case (Suc k)
  have "length (proof_bits k (take (2 ^ k) ms)) < 2 ^ Suc k" "length (proof_bits k (drop (2 ^ k) ms)) < 2 ^ Suc k"
    by (rule Suc.IH)+
  then show ?case by auto
qed simp

subsection \<open>Extraction of what was built\<close>

definition selected :: "bool list \<Rightarrow> 'a list \<Rightarrow> 'a list" where
  "selected ms xs = map fst (filter snd (zip xs ms))"

lemma selected_Nil [simp]: "selected [] xs = []" "selected ms [] = []"
  by (simp_all add: selected_def)

lemma selected_append: "length xs = length ms \<Longrightarrow> selected (ms @ ms') (xs @ xs') = selected ms xs @ selected ms' xs'"
  by (simp add: selected_def)

lemma selected_none: "True \<notin> set ms \<Longrightarrow> selected ms xs = []"
  by (auto simp: selected_def filter_empty_conv dest: set_zip_rightD)

lemma selected_halves:
  "length xs = length ms \<Longrightarrow> selected ms xs = selected (take n ms) (take n xs) @ selected (drop n ms) (drop n xs)"
  using selected_append [of "take n xs" "take n ms" "drop n ms" "drop n xs"] by simp

lemma drop_eq_ConsD: "drop i xs = y # ys \<Longrightarrow> i < length xs \<and> xs ! i = y \<and> drop (Suc i) xs = ys"
  by (metis Cons_nth_drop_Suc drop_all leI list.distinct(1) list.inject)

lemma drop_eq_appendD: "drop i xs = ys @ zs \<Longrightarrow> drop (i + length ys) xs = zs"
  by (metis add.commute append_eq_conv_conj drop_drop)

lemma selected_upt_halves:
  assumes "length ms = l"
  shows "selected ms [pos * 2 ^ Suc k..<pos * 2 ^ Suc k + l] =
    selected (take (2 ^ k) ms) [pos * 2 * 2 ^ k..<pos * 2 * 2 ^ k + min (2 ^ k) l]
    @ selected (drop (2 ^ k) ms) [Suc (pos * 2) * 2 ^ k..<Suc (pos * 2) * 2 ^ k + (l - 2 ^ k)]"
proof -
  let ?a = "pos * 2 * 2 ^ k"
  have "take (2 ^ k) [?a..<?a + l] = [?a..<?a + min (2 ^ k) l]"
    by (cases "2 ^ k \<le> l") (simp_all add: take_upt min_def)
  moreover have "drop (2 ^ k) [?a..<?a + l] = [Suc (pos * 2) * 2 ^ k..<Suc (pos * 2) * 2 ^ k + (l - 2 ^ k)]"
    by (cases "2 ^ k \<le> l") (simp_all add: algebra_simps)
  ultimately show ?thesis
    using selected_halves [of "[?a..<?a + l]" ms "2 ^ k"] assms by (simp add: mult.assoc)
qed

lemma traverse_and_extract_proof:
  assumes "length xs = length ms" "length xs \<le> 2 ^ 31" "unat (num_transactions t) = length xs" "k \<le> 31" "segment k pos xs \<noteq> []"
    and "siblings_differ h k (segment k pos xs)"
    and "drop (bits_used st) (pmt_bits t) = proof_bits k (segment k pos ms) @ bits"
    and "drop (hash_used st) (pmt_hashes t) = proof_hashes h k (segment k pos xs) (segment k pos ms) @ hashes"
  shows "traverse_and_extract h t k pos st = (Ok (tree h k (segment k pos xs)),
    \<lparr>bits_used = bits_used st + length (proof_bits k (segment k pos ms)),
     hash_used = hash_used st + length (proof_hashes h k (segment k pos xs) (segment k pos ms)),
     found = found st @ selected (segment k pos ms) (segment k pos xs),
     indexes = indexes st @ selected (segment k pos ms) [pos * 2 ^ k..<pos * 2 ^ k + length (segment k pos xs)]\<rparr>)"
  using assms(4-)
proof (induction k arbitrary: pos st bits hashes)
  case 0
  have segs: "segment 0 pos xs = [xs ! pos]" "segment 0 pos ms = [ms ! pos]"
    using 0(2) assms(1) by (simp_all add: segment_def take_Suc hd_drop_conv_nth)
  have bit: "bits_used st < length (pmt_bits t)" "pmt_bits t ! bits_used st = ms ! pos"
    using drop_eq_ConsD [of "bits_used st" "pmt_bits t"] 0(4) by (simp_all add: segs eq_commute)
  have hash: "hash_used st < length (pmt_hashes t)" "pmt_hashes t ! hash_used st = xs ! pos"
    using drop_eq_ConsD [of "hash_used st" "pmt_hashes t"] 0(5) by (simp_all add: segs)
  show ?case using bit hash by (simp add: segs Let_def selected_def upt_rec)
next
  case (Suc k)
  let ?s = "segment (Suc k) pos xs" and ?m = "segment (Suc k) pos ms"
  have k: "k \<le> 31" using Suc.prems by simp
  have len: "length ?m = length ?s" using assms(1) by (simp add: length_segment)
  define st1 where "st1 = st\<lparr>bits_used := bits_used st + 1\<rparr>"
  show ?case
  proof (cases "True \<in> set ?m")
    case False
    then have "bits_used st < length (pmt_bits t)" "\<not> pmt_bits t ! bits_used st"
      "hash_used st < length (pmt_hashes t)" "pmt_hashes t ! hash_used st = tree h (Suc k) ?s"
      using drop_eq_ConsD [of "bits_used st" "pmt_bits t"] drop_eq_ConsD [of "hash_used st" "pmt_hashes t"] Suc.prems(4,5)
      by (simp_all del: tree.simps)
    then show ?thesis using False by (simp add: Let_def selected_none del: tree.simps)
  next
    case True
    let ?sL = "take (2 ^ k) ?s" and ?sR = "drop (2 ^ k) ?s" and ?mL = "take (2 ^ k) ?m" and ?mR = "drop (2 ^ k) ?m"
    have bit: "bits_used st < length (pmt_bits t)" "pmt_bits t ! bits_used st"
      and bits: "drop (bits_used st1) (pmt_bits t) =
        proof_bits k ?mL @ (if length ?m \<le> 2 ^ k then [] else proof_bits k ?mR) @ bits"
      using drop_eq_ConsD [of "bits_used st" "pmt_bits t"] Suc.prems(4) True by (simp_all add: st1_def)
    have hashes: "drop (hash_used st1) (pmt_hashes t) =
        proof_hashes h k ?sL ?mL @ (if length ?m \<le> 2 ^ k then [] else proof_hashes h k ?sR ?mR) @ hashes"
      using Suc.prems(5) True by (simp add: st1_def)
    define st2 where "st2 = \<lparr>bits_used = bits_used st1 + length (proof_bits k ?mL),
      hash_used = hash_used st1 + length (proof_hashes h k ?sL ?mL), found = found st1 @ selected ?mL ?sL,
      indexes = indexes st1 @ selected ?mL [pos * 2 * 2 ^ k..<pos * 2 * 2 ^ k + length ?sL]\<rparr>"
    have left: "traverse_and_extract h t k (pos * 2) st1 = (Ok (tree h k ?sL), st2)"
      unfolding st2_def segment_halves(1) [symmetric]
      by (rule Suc.IH [OF k]) (use Suc.prems(2,3) bits hashes in \<open>auto simp: segment_halves split: if_splits\<close>)
    have step: "traverse_and_extract h t (Suc k) pos st =
        (if 2 ^ k < length ?s then
           (case traverse_and_extract h t k (Suc (pos * 2)) st2 of
              (Ok right, st) \<Rightarrow> if right = tree h k ?sL then (Err IdenticalHashesFound, st) else (Ok (combine h (tree h k ?sL) right), st)
            | r \<Rightarrow> r)
         else (Ok (combine h (tree h k ?sL) (tree h k ?sL)), st2))"
      using bit left right_child [OF assms(2) k, of pos] by (simp add: assms(3) st1_def del: segment_empty)
    note sel = selected_halves [of ?s ?m "2 ^ k", OF len [symmetric]] selected_upt_halves [OF len, of pos k]
    show ?thesis
    proof (cases "length ?s \<le> 2 ^ k")
      case small: True
      then show ?thesis using True len sel
        by (simp add: step st2_def st1_def mult.assoc del: traverse_and_extract.simps)
    next
      case big: False
      have right: "traverse_and_extract h t k (Suc (pos * 2)) st2 = (Ok (tree h k ?sR),
          \<lparr>bits_used = bits_used st2 + length (proof_bits k ?mR),
           hash_used = hash_used st2 + length (proof_hashes h k ?sR ?mR), found = found st2 @ selected ?mR ?sR,
           indexes = indexes st2 @ selected ?mR [Suc (pos * 2) * 2 ^ k..<Suc (pos * 2) * 2 ^ k + length ?sR]\<rparr>)"
        unfolding segment_halves(2) [symmetric]
        by (rule Suc.IH [OF k, where bits = bits and hashes = hashes])
          (use big Suc.prems(3) drop_eq_appendD [OF bits] drop_eq_appendD [OF hashes] len in
            \<open>auto simp: segment_halves st2_def simp del: drop_drop\<close>)
      have "tree h k ?sR \<noteq> tree h k ?sL" using Suc.prems(3) big by auto
      then show ?thesis using big True len sel
        by (simp add: step right del: traverse_and_extract.simps) (simp add: st2_def st1_def mult.assoc min_def)
    qed
  qed
qed

text \<open>What a call that succeeds returns when its result is the right one: indices below its node, in increasing
  order, and the transactions at these indices.\<close>

lemma length_traverse_and_extract:
  "traverse_and_extract h t k pos st = (Ok r, st') \<Longrightarrow> hash32 h \<Longrightarrow> leaves32 (pmt_hashes t) \<Longrightarrow> length r = 32"
  by (induction k arbitrary: pos st r st')
    (auto simp: Let_def hash32_def leaves32_def list_all_length combine_def
      split: if_splits prod.splits res.splits)

text \<open>What is hashed by the extraction.\<close>

fun extract_inputs :: "(bytes \<Rightarrow> bytes) \<Rightarrow> partial_merkle_tree \<Rightarrow> nat \<Rightarrow> nat \<Rightarrow> extraction \<Rightarrow> bytes set" where
  "extract_inputs h t 0 pos st = {}"
| "extract_inputs h t (Suc k) pos st =
     (let st1 = st\<lparr>bits_used := bits_used st + 1\<rparr> in
      if length (pmt_bits t) \<le> bits_used st \<or> \<not> pmt_bits t ! bits_used st then {}
      else extract_inputs h t k (pos * 2) st1 \<union>
        (case traverse_and_extract h t k (pos * 2) st1 of
           (Ok left, st2) \<Rightarrow>
             if pos * 2 + 1 < calc_tree_width (unat (num_transactions t)) k then
               extract_inputs h t k (pos * 2 + 1) st2 \<union>
               (case traverse_and_extract h t k (pos * 2 + 1) st2 of (Ok right, _) \<Rightarrow> {left @ right} | _ \<Rightarrow> {})
             else {left @ left}
         | _ \<Rightarrow> {}))"

lemma traverse_and_extract_sound:
  assumes "hash32 h" "\<not> hash_collision h S" "leaves32 xs" "length xs \<le> 2 ^ 31"
    and "unat (num_transactions t) = length xs" "leaves32 (pmt_hashes t)"
  shows "k \<le> 31 \<Longrightarrow> segment k pos xs \<noteq> [] \<Longrightarrow> traverse_and_extract h t k pos st = (Ok (tree h k (segment k pos xs)), st')
    \<Longrightarrow> tree_inputs h k (segment k pos xs) \<subseteq> S \<Longrightarrow> extract_inputs h t k pos st \<subseteq> S
    \<Longrightarrow> \<exists>js. indexes st' = indexes st @ js \<and> found st' = found st @ map ((!) xs) js \<and> sorted_wrt (<) js
      \<and> set js \<subseteq> {pos * 2 ^ k..<pos * 2 ^ k + length (segment k pos xs)}"
proof (induction k arbitrary: pos st st')
  case 0
  have segs: "segment 0 pos xs = [xs ! pos]"
    using 0(2) by (simp add: segment_def take_Suc hd_drop_conv_nth)
  show ?case
  proof (cases "pmt_bits t ! bits_used st")
    case True
    then show ?thesis using 0(3) by (intro exI [of _ "[pos]"]) (auto simp: segs Let_def split: if_splits)
  next
    case False
    then show ?thesis using 0(3) by (intro exI [of _ "[]"]) (auto simp: segs Let_def split: if_splits)
  qed
next
  case (Suc k)
  let ?s = "segment (Suc k) pos xs"
  have k: "k \<le> 31" using Suc.prems by simp
  let ?sL = "take (2 ^ k) ?s" and ?sR = "drop (2 ^ k) ?s"
  have s32: "leaves32 ?sL" "?sL \<noteq> []"
    using assms(3) Suc.prems(2) by (auto simp: segment_def leaves32_parts)
  note inj = combine_inj [OF _ _ assms(2)]
  note len = length_traverse_and_extract [OF _ assms(1,6)] length_tree [OF assms(1) s32]
  define st1 where "st1 = st\<lparr>bits_used := bits_used st + 1\<rparr>"
  have st1: "found st1 = found st" "indexes st1 = indexes st" by (simp_all add: st1_def)
  show ?case
  proof (cases "pmt_bits t ! bits_used st")
    case False
    then show ?thesis using Suc.prems(3) by (intro exI [of _ "[]"]) (auto simp: Let_def split: if_splits)
  next
    case True
    then obtain left st2 where left: "traverse_and_extract h t k (pos * 2) st1 = (Ok left, st2)"
      using Suc.prems(3) by (auto simp: Let_def st1_def split: if_splits prod.splits res.splits)
    have bit: "\<not> length (pmt_bits t) \<le> bits_used st" using Suc.prems(3) by (auto split: if_splits)
    have ins: "extract_inputs h t k (pos * 2) st1 \<subseteq> S"
      using Suc.prems(5) True bit by (simp add: Let_def st1_def)
    show ?thesis
    proof (cases "length ?s \<le> 2 ^ k")
      case small: True
      then have "combine h left left = combine h (tree h k ?s) (tree h k ?s)" "st' = st2"
        using Suc.prems(3) True left right_child [OF assms(4) k, of pos] by (auto simp: Let_def st1_def assms(5) split: if_splits)
      moreover have "left @ left \<in> S" "tree h k ?s @ tree h k ?s \<in> S" "tree_inputs h k ?s \<subseteq> S"
        using Suc.prems(4,5) True bit small left right_child [OF assms(4) k, of pos]
        by (simp_all add: Let_def st1_def assms(5))
      ultimately have "left = tree h k ?s"
        using inj [of left left "tree h k ?s" "tree h k ?s"] len(1) [OF left] len(2) small by simp
      then show ?thesis
        using Suc.IH [OF k, of "pos * 2" st1 st2] left left_only [OF small] Suc.prems(2) \<open>st' = st2\<close> st1 ins
          \<open>tree_inputs h k ?s \<subseteq> S\<close>
        by (simp add: mult.assoc)
    next
      case big: False
      then obtain right where right: "traverse_and_extract h t k (Suc (pos * 2)) st2 = (Ok right, st')"
        and eq: "combine h left right = combine h (tree h k ?sL) (tree h k ?sR)"
        using Suc.prems(3) True left right_child [OF assms(4) k, of pos]
        by (auto simp: Let_def st1_def assms(5) split: if_splits prod.splits res.splits)
      have ins': "left @ right \<in> S" "extract_inputs h t k (Suc (pos * 2)) st2 \<subseteq> S"
        using Suc.prems(5) True bit big left right right_child [OF assms(4) k, of pos]
        by (simp_all add: Let_def st1_def assms(5))
      have ts: "tree h k ?sL @ tree h k ?sR \<in> S" "tree_inputs h k ?sL \<subseteq> S" "tree_inputs h k ?sR \<subseteq> S"
        using Suc.prems(4) big by simp_all
      have both: "left = tree h k ?sL" "right = tree h k ?sR"
        using inj [OF eq _ ins'(1) ts(1)] len(1) [OF left] len(2) by simp_all
      obtain js where js: "indexes st2 = indexes st @ js" "found st2 = found st @ map ((!) xs) js" "sorted_wrt (<) js"
          "set js \<subseteq> {pos * 2 * 2 ^ k..<pos * 2 * 2 ^ k + length ?sL}"
        using Suc.IH [OF k, of "pos * 2" st1 st2] left both(1) s32(2) st1 ins ts(2) by (auto simp: segment_halves)
      obtain js' where js': "indexes st' = indexes st2 @ js'" "found st' = found st2 @ map ((!) xs) js'" "sorted_wrt (<) js'"
          "set js' \<subseteq> {Suc (pos * 2) * 2 ^ k..<Suc (pos * 2) * 2 ^ k + length ?sR}"
        using Suc.IH [OF k, of "Suc (pos * 2)" st2 st'] right both(2) big ins'(2) ts(3) by (auto simp: segment_halves)
      show ?thesis
        by (rule exI [of _ "js @ js'"]) (use js js' big in \<open>fastforce simp: sorted_wrt_append\<close>)
    qed
  qed
qed

subsection \<open>Proofs for a block\<close>

lemma tree_height_le:
  assumes "n \<le> 2 ^ k"
  shows "tree_height n \<le> k"
proof (rule ccontr)
  assume "\<not> tree_height n \<le> k"
  then have k: "tree_height n = Suc (tree_height n - 1)" "k \<le> tree_height n - 1" by simp_all
  then have "0 < n" by (cases "n = 0") (simp_all add: tree_height.simps [of 0])
  then have "2 ^ (tree_height n - 1) < n" using k by (intro tree_height_pos) simp_all
  moreover have "(2::nat) ^ k \<le> 2 ^ (tree_height n - 1)" using k(2) by (intro power_increasing) simp_all
  ultimately show False using assms by linarith
qed

lemma from_txids_proof:
  assumes "txids \<noteq> []" "length matches = length txids" "length txids \<le> 2 ^ 31"
  shows "from_txids h txids matches = Ok \<lparr>num_transactions = word_of_nat (length txids),
    pmt_bits = proof_bits (tree_height (length txids)) matches,
    pmt_hashes = proof_hashes h (tree_height (length txids)) txids matches\<rparr>"
proof -
  let ?n = "length txids" and ?k = "tree_height (length txids)"
  have "unat (word_of_nat ?n :: u32) = ?n" using assms(3) by (simp add: unat_of_nat)
  moreover have "?k \<le> 31" using assms(3) by (rule tree_height_le)
  moreover have "segment ?k 0 txids = txids" "segment ?k 0 matches = matches"
    using tree_height_bound [of ?n] assms(2) by (simp_all add: segment_all)
  moreover have "calc_tree_height ?n = ?k" using assms by (intro calc_tree_height) simp_all
  ultimately show ?thesis
    using traverse_and_build [of txids matches ?k 0 h "[]" "[]"] assms by (simp add: from_txids_def Let_def)
qed

text \<open>The size of a proof: a hash for every transaction at most, and one more than the height for every match.\<close>

lemma proof_hashes_matches:
  "length xs = length ms \<Longrightarrow> length (proof_hashes h k xs ms) \<le> 1 + length (filter (\<lambda>m. m) ms) * k"
proof (induction k arbitrary: xs ms)
  case (Suc k)
  let ?m = "\<lambda>ms. length (filter (\<lambda>m. m) ms)" and ?l = "take (2 ^ k) ms" and ?r = "drop (2 ^ k) ms"
  have split: "?m ms = ?m ?l + ?m ?r"
    by (simp only: length_append [symmetric] filter_append [symmetric] append_take_drop_id)
  have left: "length (proof_hashes h k (take (2 ^ k) xs) ?l) \<le> 1 + ?m ?l * k"
    and right: "length (proof_hashes h k (drop (2 ^ k) xs) ?r) \<le> 1 + ?m ?r * k"
    using Suc.prems by (intro Suc.IH; simp)+
  show ?case
  proof (cases "True \<in> set ms")
    case True
    then have "filter (\<lambda>m. m) ms \<noteq> []" by (auto simp: filter_empty_conv)
    then have "1 \<le> ?m ms" by (simp add: Suc_le_eq)
    moreover have "?m ms * Suc k = ?m ms + ?m ?l * k + ?m ?r * k" by (simp add: split add_mult_distrib)
    moreover have "length (proof_hashes h (Suc k) xs ms) \<le> length (proof_hashes h k (take (2 ^ k) xs) ?l) +
        length (proof_hashes h k (drop (2 ^ k) xs) ?r)"
      using True by simp
    ultimately show ?thesis using left right by linarith
  qed simp
qed simp

text \<open>A proof that was built is read back. The root must be one that the Merkle algorithms accept, with no two
  equal siblings.\<close>

lemma partial_merkle_complete:
  assumes "txids \<noteq> []" "length matches = length txids" "length txids \<le> 16666"
    and "siblings_differ h (tree_height (length txids)) txids"
  obtains p where "from_txids h txids matches = Ok p" "unat (num_transactions p) = length txids"
    "pmt_hashes p = proof_hashes h (tree_height (length txids)) txids matches" "length (pmt_bits p) < 2 ^ 16"
    "extract_matches h p = (Ok (tree h (tree_height (length txids)) txids), selected matches txids,
       selected matches [0..<length txids])"
proof -
  let ?n = "length txids" and ?k = "tree_height (length txids)"
  have k: "?k \<le> 15" using assms(3) by (intro tree_height_le) simp
  have n: "unat (word_of_nat ?n :: u32) = ?n" using assms(3) by (simp add: unat_of_nat)
  let ?p = "\<lparr>num_transactions = word_of_nat ?n, pmt_bits = proof_bits ?k matches, pmt_hashes = proof_hashes h ?k txids matches\<rparr>"
  have build: "from_txids h txids matches = Ok ?p"
    by (rule from_txids_proof) (use assms in simp_all)
  have segs: "segment ?k 0 txids = txids" "segment ?k 0 matches = matches"
    using tree_height_bound [of ?n] assms(2) by (simp_all add: segment_all)
  have extracted: "traverse_and_extract h ?p ?k 0 \<lparr>bits_used = 0, hash_used = 0, found = [], indexes = []\<rparr> =
      (Ok (tree h ?k txids),
      \<lparr>bits_used = length (proof_bits ?k matches), hash_used = length (proof_hashes h ?k txids matches),
       found = selected matches txids, indexes = selected matches [0..<?n]\<rparr>)"
    using traverse_and_extract_proof [of txids matches ?p ?k 0 h _ "[]" "[]"] segs assms k n by simp
  have height: "calc_tree_height ?n = ?k" using assms by (intro calc_tree_height) simp_all
  have hashes: "length (proof_hashes h ?k txids matches) \<le> ?n"
    "length (proof_hashes h ?k txids matches) \<le> length (proof_bits ?k matches)"
    using assms by (intro proof_hashes_bound proof_hashes_le_bits; simp)+
  have "(2::nat) ^ Suc ?k \<le> 2 ^ 16" using k by (intro power_increasing) simp_all
  then have len: "length (proof_bits ?k matches) < 2 ^ 16" using proof_bits_bound [of ?k matches] by linarith
  then have bits: "div_ceil_8 (length (proof_bits ?k matches)) mod 2 ^ 32 = div_ceil_8 (length (proof_bits ?k matches))"
    by (simp add: div_ceil_8_def)
  have small: "length (proof_hashes h ?k txids matches) mod 2 ^ 32 = length (proof_hashes h ?k txids matches)"
    using hashes(1) assms(3) by simp
  have "extract_matches h ?p = (Ok (tree h ?k txids), selected matches txids, selected matches [0..<?n])"
    using assms hashes by (simp add: extract_matches_def Let_def n height extracted bits [simplified] small [simplified]
        MAX_BLOCK_WEIGHT_def MIN_TRANSACTION_WEIGHT_def del: unat_of_nat)
  then show thesis using that [OF build] n len by simp
qed

lemma tree_height_small:
  "tree_height (Suc 0) = 0" "tree_height (Suc (Suc 0)) = Suc 0" "tree_height (Suc (Suc (Suc 0))) = Suc (Suc 0)"
  "tree_height (Suc (Suc (Suc (Suc (Suc 0))))) = Suc (Suc (Suc 0))"
proof -
  have half: "(Suc (Suc (Suc 0)) + 1) div 2 = Suc (Suc 0)" "(Suc (Suc (Suc (Suc (Suc 0)))) + 1) div 2 = Suc (Suc (Suc 0))"
    by simp_all
  show 1: "tree_height (Suc 0) = 0" by (subst tree_height.simps) simp
  show 2: "tree_height (Suc (Suc 0)) = Suc 0" by (subst tree_height.simps) (simp add: 1)
  show 3: "tree_height (Suc (Suc (Suc 0))) = Suc (Suc 0)" by (subst tree_height.simps, subst half, subst 2) simp
  show "tree_height (Suc (Suc (Suc (Suc (Suc 0))))) = Suc (Suc (Suc 0))"
    by (subst tree_height.simps, subst half, subst 3) simp
qed

lemma first_32_root3:
  "calculate_root first_32 [replicate 32 1, replicate 32 2, replicate 32 3] = Ok (Some (replicate 32 1))"
  by (simp add: calculate_root_tree tree_height_small combine_def first_32_def)

text \<open>Whatever proof leads to the root names transactions of the block.\<close>

definition proof_inputs :: "(bytes \<Rightarrow> bytes) \<Rightarrow> partial_merkle_tree \<Rightarrow> bytes set" where
  "proof_inputs h p = extract_inputs h p (calc_tree_height (unat (num_transactions p))) 0
     \<lparr>bits_used = 0, hash_used = 0, found = [], indexes = []\<rparr>"

lemma partial_merkle_sound:
  assumes "hash32 h" "\<not> hash_collision h S" "leaves32 txids" "txids \<noteq> []" "leaves32 (pmt_hashes p)"
    and "unat (num_transactions p) = length txids"
    and "extract_matches h p = (Ok (tree h (tree_height (length txids)) txids), ms, js)"
    and "merkle_inputs h txids \<subseteq> S" "proof_inputs h p \<subseteq> S"
  shows "ms = map ((!) txids) js \<and> sorted_wrt (<) js \<and> set js \<subseteq> {..<length txids}"
proof -
  let ?n = "length txids" and ?k = "tree_height (length txids)"
  let ?st = "\<lparr>bits_used = 0, hash_used = 0, found = [], indexes = []\<rparr>"
  have n: "?n \<le> 16666"
    using assms(7) by (simp add: extract_matches_def Let_def assms(6) MAX_BLOCK_WEIGHT_def MIN_TRANSACTION_WEIGHT_def
        split: if_splits)
  have k: "?k \<le> 31" using n by (intro tree_height_le) simp
  have height: "calc_tree_height ?n = ?k" using assms(4) n by (intro calc_tree_height) simp_all
  obtain st where st: "traverse_and_extract h p ?k 0 ?st = (Ok (tree h ?k txids), st)" and found: "ms = found st" "js = indexes st"
    using assms(7) by (auto simp: extract_matches_def Let_def assms(6) height split: if_splits prod.splits res.splits)
  have seg: "segment ?k 0 txids = txids" by (rule segment_all [OF tree_height_bound])
  show ?thesis
    using traverse_and_extract_sound [OF assms(1-3) _ assms(6,5) k, of 0 ?st st] st seg assms(4) n found
      assms(8,9) [unfolded merkle_inputs_def proof_inputs_def assms(6) height]
    by (auto simp: atLeast0LessThan)
qed

text \<open>The bits that fill the last byte of a serialised proof change nothing.\<close>

lemma traverse_and_extract_pad:
  "traverse_and_extract h t k pos st = (Ok r, st')
    \<Longrightarrow> traverse_and_extract h (t\<lparr>pmt_bits := pmt_bits t @ pad\<rparr>) k pos st = (Ok r, st')"
proof (induction k arbitrary: pos st r st')
  case 0
  then show ?case by (auto simp: Let_def nth_append split: if_splits)
next
  case (Suc k)
  then have "bits_used st < length (pmt_bits t)" by (auto split: if_splits)
  then show ?case using Suc
    by (auto simp: Let_def nth_append split: if_splits prod.splits res.splits)
qed

lemma extract_matches_pad:
  assumes "extract_matches h t = (Ok root, ms, js)"
    and "div_ceil_8 (length (pmt_bits t) + length pad) = div_ceil_8 (length (pmt_bits t))"
  shows "extract_matches h (t\<lparr>pmt_bits := pmt_bits t @ pad\<rparr>) = (Ok root, ms, js)"
  using assms traverse_and_extract_pad [of h t]
  by (auto simp: extract_matches_def Let_def split: if_splits prod.splits res.splits)

text \<open>
  The size of a proof: there is at most one hash for every transaction, at most one more than the height for
  every match, and never more hashes than bits, so that \<open>extract_matches\<close> does not refuse it for its size.
\<close>

theorem partial_merkle_size:
  assumes "from_txids h txids matches = Ok p" "length txids \<le> 2 ^ 31"
  shows "length (pmt_hashes p) \<le> length txids \<and> length (pmt_hashes p) \<le> length (pmt_bits p)
    \<and> length (pmt_hashes p) \<le> 1 + length (filter (\<lambda>m. m) matches) * calc_tree_height (length txids)"
proof -
  have "txids \<noteq> []" "length matches = length txids"
    using assms(1) by (auto simp: from_txids_def split: if_splits)
  moreover from this have "calc_tree_height (length txids) = tree_height (length txids)"
    using assms(2) by (intro calc_tree_height) simp_all
  ultimately show ?thesis
    using assms from_txids_proof [of txids matches h] proof_hashes_bound [of txids matches h]
      proof_hashes_le_bits [of txids matches h] proof_hashes_matches [of txids matches h] by auto
qed

text \<open>The comment of the tree bounds the bits by twice the number of hashes less one. A node with a single child
  has a bit and no hash, and five transactions with the last one chosen take five bits for two hashes.\<close>

lemma partial_merkle_bits_exceed:
  "\<exists>p. from_txids h [a, b, c, d, e] [False, False, False, False, True] = Ok p
    \<and> 2 * length (pmt_hashes p) - 1 < length (pmt_bits p)"
  using from_txids_proof [of "[a, b, c, d, e]" "[False, False, False, False, True]" h]
  by (simp add: tree_height_small)

theorem partial_merkle_size_witness:
  "\<exists>p. from_txids first_32 [[1], [2]] [True, False] = Ok p
    \<and> length (pmt_hashes p) \<le> 1 + 1 * calc_tree_height (length [[1 :: u8], [2]])"
proof -
  obtain p where "from_txids first_32 [[1], [2]] [True, False] = Ok p"
    using from_txids_proof [of "[[1], [2]]" "[True, False]" first_32] by simp
  with partial_merkle_size [OF this] show ?thesis by simp
qed

end
