(* ===== verification/Merkle_Block.thy ===== *)
theory Merkle_Block
  imports Block Partial_Merkle
begin

section \<open>Merkle blocks\<close>

text \<open>
  \<open>MerkleBlock\<close> of \<open>p2p/src/merkle_tree.rs\<close>, a block header with a partial Merkle tree: how it is built
  from a block, serialised, parsed and checked. The theorems follow a proof from the block it is built
  for over the wire to the client that extracts the transactions.
\<close>

subsection \<open>Bits and bytes\<close>

definition pack_byte :: "bool list \<Rightarrow> u8" where
  "pack_byte chunk = fold (\<lambda>(i, b) byte. byte OR push_bit i (of_bool b)) (enumerate 0 chunk) 0"

text \<open>The buffer of \<open>BitVecEncoder::new\<close>, from the chunks of eight bits.\<close>

function pack_bits :: "bool list \<Rightarrow> bytes" where
  "pack_bits bv = (if bv = [] then [] else pack_byte (take 8 bv) # pack_bits (drop 8 bv))"
  by pat_completeness auto
termination by (relation "measure length") auto

declare pack_bits.simps [simp del]

definition unpack_byte :: "u8 \<Rightarrow> bool list" where
  "unpack_byte byte = map (\<lambda>i. byte AND push_bit i 1 \<noteq> 0) [0..<8]"

definition unpack_bits :: "bytes \<Rightarrow> bool list" where
  "unpack_bits bs = concat (map unpack_byte bs)"

lemma unpack_byte_bits: "unpack_byte byte = map (bit byte) [0..<8]"
proof -
  have "byte AND push_bit i 1 \<noteq> 0 \<longleftrightarrow> bit byte i" if "i < 8" for i
  proof -
    have "byte AND push_bit i 1 = (if bit byte i then push_bit i 1 else 0)"
      by (rule bit_eqI) (auto simp: bit_simps)
    moreover have "push_bit i (1 :: u8) \<noteq> 0" using that by (simp add: push_bit_eq_0_iff)
    ultimately show ?thesis by simp
  qed
  then show ?thesis by (simp add: unpack_byte_def)
qed

lemma length_unpack_byte [simp]: "length (unpack_byte byte) = 8"
  by (simp add: unpack_byte_def)

lemma length_unpack_bits [simp]: "length (unpack_bits bs) = 8 * length bs"
  by (induction bs) (simp_all add: unpack_bits_def)

lemma bit_pack_fold:
  "n + length chunk \<le> 8 \<Longrightarrow> bit (fold (\<lambda>(i, b) byte. byte OR push_bit i (of_bool b)) (enumerate n chunk) (acc :: u8)) j
    \<longleftrightarrow> bit acc j \<or> (n \<le> j \<and> j < n + length chunk \<and> chunk ! (j - n))"
proof (induction chunk arbitrary: n acc)
  case (Cons b chunk)
  have "bit (acc OR push_bit n (of_bool b)) j \<longleftrightarrow> bit acc j \<or> (j = n \<and> b)"
    using Cons.prems by (auto simp: bit_simps)
  moreover consider "j < n" | "j = n" | "Suc n \<le> j" by linarith
  ultimately show ?case using Cons by cases (auto simp: nth_Cons')
qed auto

lemma bit_pack_byte: "length chunk \<le> 8 \<Longrightarrow> bit (pack_byte chunk) j \<longleftrightarrow> j < length chunk \<and> chunk ! j"
  unfolding pack_byte_def by (subst bit_pack_fold) simp_all

lemma unpack_pack_byte: "length chunk \<le> 8 \<Longrightarrow> unpack_byte (pack_byte chunk) = chunk @ replicate (8 - length chunk) False"
  by (rule nth_equalityI) (auto simp: unpack_byte_bits bit_pack_byte nth_append)

lemma pack_unpack_byte: "pack_byte (unpack_byte byte) = byte"
  by (rule bit_eqI) (auto simp: bit_pack_byte unpack_byte_bits dest: bit_imp_le_length)

lemma pack_unpack_bits: "pack_bits (unpack_bits bs) = bs"
proof (induction bs)
  case (Cons b bs)
  have "unpack_byte b \<noteq> []" by (simp add: unpack_byte_def)
  then show ?case using Cons by (subst pack_bits.simps) (simp add: unpack_bits_def pack_unpack_byte)
qed (simp add: unpack_bits_def pack_bits.simps)

lemma div_ceil_8_one: "0 < n \<Longrightarrow> n \<le> 8 \<Longrightarrow> (n + 7) div 8 = Suc 0" for n :: nat
  by arith

lemma length_pack_bits: "length (pack_bits bv) = div_ceil_8 (length bv)"
proof (induction bv rule: pack_bits.induct)
  case (1 bv)
  show ?case
  proof (cases "length bv \<le> 8")
    case True
    then show ?thesis by (cases "bv = []") (simp_all add: pack_bits.simps div_ceil_8_def div_ceil_8_one)
  next
    case False
    then have "(length bv + 7) div 8 = Suc ((length bv - 8 + 7) div 8)" by arith
    moreover have "bv \<noteq> []" using False by auto
    ultimately show ?thesis using 1 by (subst pack_bits.simps) (simp add: div_ceil_8_def)
  qed
qed

definition pad_bits :: "bool list \<Rightarrow> bool list" where
  "pad_bits bv = replicate (8 * div_ceil_8 (length bv) - length bv) False"

lemma unpack_pack_bits: "unpack_bits (pack_bits bv) = bv @ pad_bits bv"
proof (induction bv rule: pack_bits.induct)
  case (1 bv)
  show ?case
  proof (cases "length bv \<le> 8")
    case True
    then show ?thesis
      by (cases "bv = []")
         (simp_all add: pack_bits.simps unpack_bits_def unpack_pack_byte pad_bits_def div_ceil_8_def div_ceil_8_one)
  next
    case False
    then have "(length bv + 7) div 8 = Suc ((length bv - 8 + 7) div 8)" by arith
    then have pad: "pad_bits bv = pad_bits (drop 8 bv)" using False by (simp add: pad_bits_def div_ceil_8_def)
    have "bv \<noteq> []" using False by auto
    then have "unpack_bits (pack_bits bv) = unpack_byte (pack_byte (take 8 bv)) @ unpack_bits (pack_bits (drop 8 bv))"
      by (subst pack_bits.simps) (simp add: unpack_bits_def)
    then show ?thesis using 1 [OF \<open>bv \<noteq> []\<close>] False pad by (simp add: unpack_pack_byte append_assoc [symmetric] del: append_assoc)
  qed
qed

lemma div_ceil_8_pad: "div_ceil_8 (length bv + length (pad_bits bv)) = div_ceil_8 (length bv)"
  by (simp add: pad_bits_def div_ceil_8_def)

lemma pad_bits_Nil: "8 dvd length bv \<Longrightarrow> pad_bits bv = []"
  by (auto simp: pad_bits_def div_ceil_8_def)

subsection \<open>The encoder\<close>

record bit_vec_encoder =
  bve_buffer :: bytes
  bve_exhausted :: bool

definition bit_vec_encoder_new :: "bool list \<Rightarrow> bit_vec_encoder" where
  "bit_vec_encoder_new bv = \<lparr>bve_buffer = pack_bits bv, bve_exhausted = False\<rparr>"

definition bit_vec_encoder_chunk :: "bit_vec_encoder \<Rightarrow> bytes option" where
  "bit_vec_encoder_chunk e = Some (if bve_exhausted e then [] else bve_buffer e)"

definition bit_vec_encoder_advance :: "bit_vec_encoder \<Rightarrow> (estatus \<times> bit_vec_encoder) option" where
  "bit_vec_encoder_advance e = Some (Finished, e\<lparr>bve_exhausted := True\<rparr>)"

definition bit_vec_encoder_valid :: "bit_vec_encoder \<Rightarrow> bool" where
  "bit_vec_encoder_valid e \<longleftrightarrow> \<not> bve_exhausted e"

interpretation bve: encoder bit_vec_encoder_chunk bit_vec_encoder_advance bve_buffer "\<lambda>_. 0" bit_vec_encoder_valid
  by unfold_locales (auto simp: bit_vec_encoder_chunk_def bit_vec_encoder_advance_def bit_vec_encoder_valid_def)

definition tx_merkle_node_encoder_new :: "bytes \<Rightarrow> array_ref_encoder" where
  "tx_merkle_node_encoder_new node = \<lparr>are_arr = node\<rparr>"

interpretation node_enc: item_encoder array_ref_encoder_chunk array_ref_encoder_advance are_arr "\<lambda>_. 0" "\<lambda>_. True"
  tx_merkle_node_encoder_new "\<lambda>_. True"
  by unfold_locales simp

type_synonym partial_merkle_tree_encoder =
  "(array_encoder, (bytes, array_ref_encoder) prefixed_slice_encoder, (compact_size_encoder, bit_vec_encoder) encoder2) encoder3"

definition partial_merkle_tree_encoder_new :: "partial_merkle_tree \<Rightarrow> partial_merkle_tree_encoder" where
  "partial_merkle_tree_encoder_new t = encoder3_new
     \<lparr>ae_arr = to_le_bytes (num_transactions t)\<rparr>
     (prefixed_slice_encoder_new tx_merkle_node_encoder_new (pmt_hashes t))
     (encoder2_new (compact_size_encoder_new (div_ceil_8 (length (pmt_bits t)))) (bit_vec_encoder_new (pmt_bits t)))"

definition partial_merkle_tree_encoder_chunk :: "partial_merkle_tree_encoder \<Rightarrow> bytes option" where
  "partial_merkle_tree_encoder_chunk = encoder3_chunk array_encoder_chunk
     (prefixed_slice_encoder_chunk array_ref_encoder_chunk)
     (encoder2_chunk compact_size_encoder_chunk bit_vec_encoder_chunk)"

definition partial_merkle_tree_encoder_advance ::
  "partial_merkle_tree_encoder \<Rightarrow> (estatus \<times> partial_merkle_tree_encoder) option" where
  "partial_merkle_tree_encoder_advance = encoder3_advance array_encoder_advance
     (prefixed_slice_encoder_advance array_ref_encoder_chunk array_ref_encoder_advance tx_merkle_node_encoder_new)
     (encoder2_advance compact_size_encoder_advance bit_vec_encoder_advance)"

definition partial_merkle_tree_encoder_out :: "partial_merkle_tree_encoder \<Rightarrow> bytes" where
  "partial_merkle_tree_encoder_out = encoder3_out ae_arr (prefixed_slice_out are_arr tx_merkle_node_encoder_new)
     (encoder2_out ce_buf bve_buffer)"

definition partial_merkle_tree_encoder_steps :: "partial_merkle_tree_encoder \<Rightarrow> nat" where
  "partial_merkle_tree_encoder_steps = encoder3_steps (\<lambda>_. 0)
     (prefixed_slice_steps (\<lambda>_. 0) tx_merkle_node_encoder_new) (encoder2_steps (\<lambda>_. 0) (\<lambda>_. 0))"

definition partial_merkle_tree_encoder_valid :: "partial_merkle_tree_encoder \<Rightarrow> bool" where
  "partial_merkle_tree_encoder_valid = encoder3_valid (\<lambda>_. True)
     (prefixed_slice_valid (\<lambda>_. True) tx_merkle_node_encoder_new (\<lambda>_. True))
     (encoder2_valid (\<lambda>_. True) bit_vec_encoder_valid)"

interpretation bit_bytes: encoder_pair compact_size_encoder_chunk compact_size_encoder_advance ce_buf
  "\<lambda>_. 0" "\<lambda>_. True" bit_vec_encoder_chunk bit_vec_encoder_advance bve_buffer "\<lambda>_. 0" bit_vec_encoder_valid
  by unfold_locales

interpretation pmt_enc_parts: encoder_triple array_encoder_chunk array_encoder_advance ae_arr "\<lambda>_. 0" "\<lambda>_. True"
  "prefixed_slice_encoder_chunk array_ref_encoder_chunk"
  "prefixed_slice_encoder_advance array_ref_encoder_chunk array_ref_encoder_advance tx_merkle_node_encoder_new"
  "prefixed_slice_out are_arr tx_merkle_node_encoder_new" "prefixed_slice_steps (\<lambda>_. 0) tx_merkle_node_encoder_new"
  "prefixed_slice_valid (\<lambda>_. True) tx_merkle_node_encoder_new (\<lambda>_. True)"
  "encoder2_chunk compact_size_encoder_chunk bit_vec_encoder_chunk"
  "encoder2_advance compact_size_encoder_advance bit_vec_encoder_advance" "encoder2_out ce_buf bve_buffer"
  "encoder2_steps (\<lambda>_. 0) (\<lambda>_. 0)" "encoder2_valid (\<lambda>_. True) bit_vec_encoder_valid"
  by (intro encoder_triple.intro ae.encoder_axioms node_enc.prefixed_slice_encoder bit_bytes.pair_encoder)

interpretation pmt_enc: encoder partial_merkle_tree_encoder_chunk partial_merkle_tree_encoder_advance
  partial_merkle_tree_encoder_out partial_merkle_tree_encoder_steps partial_merkle_tree_encoder_valid
  unfolding partial_merkle_tree_encoder_chunk_def partial_merkle_tree_encoder_advance_def
    partial_merkle_tree_encoder_out_def partial_merkle_tree_encoder_steps_def partial_merkle_tree_encoder_valid_def
  by (rule pmt_enc_parts.triple_encoder)

text \<open>The bytes of a tree.\<close>

definition partial_merkle_tree_bytes :: "partial_merkle_tree \<Rightarrow> bytes" where
  "partial_merkle_tree_bytes t = to_le_bytes (num_transactions t) @ vec_bytes (\<lambda>node. node) (pmt_hashes t)
     @ compact_size_new (div_ceil_8 (length (pmt_bits t))) @ pack_bits (pmt_bits t)"

lemma partial_merkle_tree_encoder_new [simp]:
  "partial_merkle_tree_encoder_valid (partial_merkle_tree_encoder_new t)"
  "partial_merkle_tree_encoder_out (partial_merkle_tree_encoder_new t) = partial_merkle_tree_bytes t"
  by (simp_all add: partial_merkle_tree_encoder_valid_def partial_merkle_tree_encoder_out_def
      partial_merkle_tree_encoder_new_def encoder3_valid_def encoder3_out_def encoder3_new_def encoder2_valid_def
      encoder2_out_def encoder2_new_def node_enc.prefixed_slice_new_valid node_enc.prefixed_slice_new_out
      partial_merkle_tree_bytes_def vec_bytes_def bit_vec_encoder_new_def bit_vec_encoder_valid_def
      tx_merkle_node_encoder_new_def compact_size_encoder_new_def compact_size_new_def)

subsection \<open>The decoder\<close>

type_synonym partial_merkle_tree_state =
  "((array_decoder, bytes, (array_decoder, bytes) vec_decoder) decoder2, bytes \<times> bytes list, byte_vec_decoder) decoder2"

datatype partial_merkle_tree_decoder_error =
  PartialMerkleTreeDecoderError "(nat, tx_merkle_node_decoder_error vec_error, byte_vec_error) decoder3_error"

definition partial_merkle_tree_of_parts ::
  "bytes \<times> bytes list \<times> bytes \<Rightarrow> (partial_merkle_tree_decoder_error, partial_merkle_tree) res" where
  "partial_merkle_tree_of_parts parts = (case parts of (n, hashes, compress_bit_vec) \<Rightarrow>
     Ok \<lparr>num_transactions = from_le_bytes n, pmt_bits = unpack_bits compress_bit_vec, pmt_hashes = hashes\<rparr>)"

definition partial_merkle_tree_decoder_new :: partial_merkle_tree_state where
  "partial_merkle_tree_decoder_new = decoder3_new (array_decoder_new 4) vec_decoder_new byte_vec_decoder_new"

definition partial_merkle_tree_decoder_push ::
  "partial_merkle_tree_state \<Rightarrow> bytes
     \<Rightarrow> (partial_merkle_tree_decoder_error, dstatus) res \<times> partial_merkle_tree_state \<times> bytes" where
  "partial_merkle_tree_decoder_push = newtype_push PartialMerkleTreeDecoderError
     (decoder3_push array_decoder_push array_decoder_end
        (vec_decoder_push tx_merkle_node_decoder_push tx_merkle_node_decoder_end tx_merkle_node_decoder_new) vec_decoder_end
        byte_vec_decoder_push)"

definition partial_merkle_tree_decoder_end ::
  "partial_merkle_tree_state \<Rightarrow> (partial_merkle_tree_decoder_error, partial_merkle_tree) res" where
  "partial_merkle_tree_decoder_end = newtype_end (end_with PartialMerkleTreeDecoderError partial_merkle_tree_of_parts)
     (decoder3_end array_decoder_end vec_decoder_end byte_vec_decoder_end)"

definition partial_merkle_tree_decoder_read_limit :: "partial_merkle_tree_state \<Rightarrow> nat" where
  "partial_merkle_tree_decoder_read_limit = decoder3_read_limit array_decoder_read_limit
     (vec_decoder_read_limit array_decoder_read_limit tx_merkle_node_decoder_new) byte_vec_decoder_read_limit"

definition partial_merkle_tree_decoder_run ::
  "partial_merkle_tree_state \<Rightarrow> bytes \<Rightarrow> (partial_merkle_tree_decoder_error, partial_merkle_tree) presult" where
  "partial_merkle_tree_decoder_run = newtype_run PartialMerkleTreeDecoderError partial_merkle_tree_of_parts
     (decoder3_run array_decoder_run (vec_run tx_merkle_node_decoder_run tx_merkle_node_decoder_new) byte_vec_run)"

definition partial_merkle_tree_decoder_inv :: "partial_merkle_tree_state \<Rightarrow> bool" where
  "partial_merkle_tree_decoder_inv =
     decoder3_inv array_decoder_inv (vec_inv tx_merkle_node_decoder_run array_decoder_inv) byte_vec_inv"

interpretation node_dec: item_decoder tx_merkle_node_decoder_push tx_merkle_node_decoder_end array_decoder_read_limit
  tx_merkle_node_decoder_run array_decoder_inv tx_merkle_node_decoder_new
  by (intro item_decoder.intro item_decoder_axioms.intro header_field_decoders)
     (simp_all add: tx_merkle_node_decoder_new_def tx_merkle_node_decoder_run_def newtype_run_def array_decoder_new_run)

interpretation pmt_parts: decoder_triple array_decoder_push array_decoder_end array_decoder_read_limit
  array_decoder_run array_decoder_inv
  "vec_decoder_push tx_merkle_node_decoder_push tx_merkle_node_decoder_end tx_merkle_node_decoder_new" vec_decoder_end
  "vec_decoder_read_limit array_decoder_read_limit tx_merkle_node_decoder_new"
  "vec_run tx_merkle_node_decoder_run tx_merkle_node_decoder_new"
  "vec_inv tx_merkle_node_decoder_run array_decoder_inv"
  byte_vec_decoder_push byte_vec_decoder_end byte_vec_decoder_read_limit byte_vec_run byte_vec_inv
  by (intro decoder_triple.intro decoder_pair.intro ad.push_decoder_axioms node_dec.vec_push_decoder bvd.push_decoder_axioms)

interpretation pmt_dec: push_decoder partial_merkle_tree_decoder_push partial_merkle_tree_decoder_end
  partial_merkle_tree_decoder_read_limit partial_merkle_tree_decoder_run partial_merkle_tree_decoder_inv
  unfolding partial_merkle_tree_decoder_push_def partial_merkle_tree_decoder_end_def
    partial_merkle_tree_decoder_read_limit_def partial_merkle_tree_decoder_run_def partial_merkle_tree_decoder_inv_def
  by (intro newtype_decoder.newtype_push_decoder newtype_decoder.intro newtype_decoder_axioms.intro
        pmt_parts.triple_push_decoder)
     (simp add: partial_merkle_tree_of_parts_def split: prod.splits)

definition partial_merkle_tree_wire :: "partial_merkle_tree \<Rightarrow> bool" where
  "partial_merkle_tree_wire t \<longleftrightarrow> leaves32 (pmt_hashes t) \<and> length (pmt_hashes t) \<le> MAX_VEC_SIZE
     \<and> div_ceil_8 (length (pmt_bits t)) \<le> MAX_VEC_SIZE"

lemma pack_bits_iff: "8 dvd length bv \<and> v = pack_bits bv \<longleftrightarrow> bv = unpack_bits v"
  using unpack_pack_bits [of bv] pad_bits_Nil [of bv] pack_unpack_bits [of v] by auto

lemma partial_merkle_tree_run:
  "partial_merkle_tree_decoder_run partial_merkle_tree_decoder_new x = POk t r \<longleftrightarrow>
     partial_merkle_tree_wire t \<and> 8 dvd length (pmt_bits t) \<and> x = partial_merkle_tree_bytes t @ r"
proof -
  have le: "length n = 4 \<Longrightarrow> to_le_bytes (from_le_bytes n :: u32) = n" for n by (rule to_from_le_bytes) simp
  have "partial_merkle_tree_decoder_run partial_merkle_tree_decoder_new x = POk t r \<longleftrightarrow>
      (\<exists>n v. length n = 4 \<and> num_transactions t = from_le_bytes n \<and> pmt_bits t = unpack_bits v
        \<and> length (pmt_hashes t) \<le> MAX_VEC_SIZE \<and> leaves32 (pmt_hashes t) \<and> length v \<le> MAX_VEC_SIZE
        \<and> x = n @ vec_bytes (\<lambda>node. node) (pmt_hashes t) @ compact_size_new (length v) @ v @ r)"
    by (cases t, auto simp: partial_merkle_tree_decoder_run_def partial_merkle_tree_decoder_new_def newtype_run_POk_iff
        partial_merkle_tree_of_parts_def decoder3_run_new_iff array_decoder_new_run_iff leaves32_def list_all_iff
        vec_new_run_iff [of tx_merkle_node_decoder_run tx_merkle_node_decoder_new "\<lambda>v. length v = 32" "\<lambda>node. node"]
        header_field_runs byte_vec_decoder_new_def byte_vec_new_run_iff MAX_VEC_SIZE_def split: prod.splits)
      (intro exI conjI, rule refl, simp_all)
  also have "\<dots> \<longleftrightarrow> (\<exists>n v. length n = 4 \<and> n = to_le_bytes (num_transactions t) \<and> 8 dvd length (pmt_bits t)
        \<and> v = pack_bits (pmt_bits t) \<and> length (pmt_hashes t) \<le> MAX_VEC_SIZE \<and> leaves32 (pmt_hashes t)
        \<and> length v \<le> MAX_VEC_SIZE
        \<and> x = n @ vec_bytes (\<lambda>node. node) (pmt_hashes t) @ compact_size_new (length v) @ v @ r)"
  proof -
    have "length n = 4 \<and> num_transactions t = from_le_bytes n \<longleftrightarrow> length n = 4 \<and> n = to_le_bytes (num_transactions t)" for n
      using le [of n] by auto
    then show ?thesis unfolding pack_bits_iff [symmetric] by (simp only: conj_assoc [symmetric])
  qed
  also have "\<dots> \<longleftrightarrow> partial_merkle_tree_wire t \<and> 8 dvd length (pmt_bits t) \<and> x = partial_merkle_tree_bytes t @ r"
    by (auto simp: partial_merkle_tree_wire_def partial_merkle_tree_bytes_def length_pack_bits)
  finally show ?thesis .
qed

lemma partial_merkle_tree_decoder_new_inv [simp]: "partial_merkle_tree_decoder_inv partial_merkle_tree_decoder_new"
  by (simp add: partial_merkle_tree_decoder_inv_def partial_merkle_tree_decoder_new_def decoder3_inv_def decoder3_new_def
      byte_vec_decoder_new_def)

subsection \<open>Merkle blocks\<close>

record merkle_block =
  mb_header :: header
  mb_txn :: partial_merkle_tree

definition from_header_txids_with_predicate ::
  "(bytes \<Rightarrow> bytes) \<Rightarrow> header \<Rightarrow> bytes list \<Rightarrow> (bytes \<Rightarrow> bool) \<Rightarrow> (unit, merkle_block) res" where
  "from_header_txids_with_predicate h hdr block_txids match_txids =
     (let matches = map match_txids block_txids in
      res_bind (from_txids h block_txids matches) (\<lambda>pmt. Ok \<lparr>mb_header = hdr, mb_txn = pmt\<rparr>))"

definition from_block_with_predicate ::
  "(bytes \<Rightarrow> bytes) \<Rightarrow> block \<Rightarrow> (bytes \<Rightarrow> bool) \<Rightarrow> (unit, merkle_block) res" where
  "from_block_with_predicate h b match_txids =
     res_bind (map_res (compute_txid h) (transactions b)) (\<lambda>block_txids.
       from_header_txids_with_predicate h (b_header b) block_txids match_txids)"

definition merkle_block_extract_matches ::
  "(bytes \<Rightarrow> bytes) \<Rightarrow> merkle_block \<Rightarrow> (merkle_block_error, unit) res \<times> bytes list \<times> nat list" where
  "merkle_block_extract_matches h mb = (case extract_matches h (mb_txn mb) of (r, ms, js) \<Rightarrow>
     (res_bind r (\<lambda>root. if root = merkle_root (mb_header mb) then Ok () else Err MerkleRootMismatch), ms, js))"

type_synonym merkle_block_encoder = "(header_encoder, partial_merkle_tree_encoder) encoder2"

definition merkle_block_encoder_new :: "merkle_block \<Rightarrow> merkle_block_encoder" where
  "merkle_block_encoder_new mb =
     encoder2_new (header_encoder_new (mb_header mb)) (partial_merkle_tree_encoder_new (mb_txn mb))"

definition merkle_block_encoder_chunk :: "merkle_block_encoder \<Rightarrow> bytes option" where
  "merkle_block_encoder_chunk = encoder2_chunk header_encoder_chunk partial_merkle_tree_encoder_chunk"

definition merkle_block_encoder_advance :: "merkle_block_encoder \<Rightarrow> (estatus \<times> merkle_block_encoder) option" where
  "merkle_block_encoder_advance = encoder2_advance header_encoder_advance partial_merkle_tree_encoder_advance"

definition merkle_block_bytes :: "merkle_block \<Rightarrow> bytes" where
  "merkle_block_bytes mb = header_bytes (mb_header mb) @ partial_merkle_tree_bytes (mb_txn mb)"

interpretation mb_enc: encoder_pair header_encoder_chunk header_encoder_advance header_encoder_out header_encoder_steps
  header_encoder_valid partial_merkle_tree_encoder_chunk partial_merkle_tree_encoder_advance
  partial_merkle_tree_encoder_out partial_merkle_tree_encoder_steps partial_merkle_tree_encoder_valid
  by (intro encoder_pair.intro header_enc.encoder_axioms pmt_enc.encoder_axioms)

lemma merkle_block_drain:
  "drain_to_vec merkle_block_encoder_chunk merkle_block_encoder_advance (merkle_block_encoder_new mb) = Ok (merkle_block_bytes mb)"
  using encoder.drain_to_vec_out [OF mb_enc.pair_encoder, of "merkle_block_encoder_new mb"]
  by (simp add: merkle_block_encoder_chunk_def merkle_block_encoder_advance_def merkle_block_encoder_new_def
      encoder2_valid_def encoder2_out_def encoder2_new_def merkle_block_bytes_def)

type_synonym merkle_block_state = "(header_state, header, partial_merkle_tree_state) decoder2"

datatype merkle_block_decoder_error =
  MerkleBlockDecoderError "(header_decoder_error, partial_merkle_tree_decoder_error) decoder2_error"

definition merkle_block_of_parts ::
  "header \<times> partial_merkle_tree \<Rightarrow> (merkle_block_decoder_error, merkle_block) res" where
  "merkle_block_of_parts parts = (case parts of (hdr, txn) \<Rightarrow> Ok \<lparr>mb_header = hdr, mb_txn = txn\<rparr>)"

definition merkle_block_decoder_new :: merkle_block_state where
  "merkle_block_decoder_new = First header_decoder_new partial_merkle_tree_decoder_new"

definition merkle_block_decoder_push ::
  "merkle_block_state \<Rightarrow> bytes \<Rightarrow> (merkle_block_decoder_error, dstatus) res \<times> merkle_block_state \<times> bytes" where
  "merkle_block_decoder_push = newtype_push MerkleBlockDecoderError
     (decoder2_push header_decoder_push header_decoder_end partial_merkle_tree_decoder_push)"

definition merkle_block_decoder_end :: "merkle_block_state \<Rightarrow> (merkle_block_decoder_error, merkle_block) res" where
  "merkle_block_decoder_end = newtype_end (end_with MerkleBlockDecoderError merkle_block_of_parts)
     (decoder2_end header_decoder_end partial_merkle_tree_decoder_end)"

interpretation mb_parts: decoder_pair
  header_decoder_push header_decoder_end header_decoder_read_limit header_decoder_run header_decoder_inv
  partial_merkle_tree_decoder_push partial_merkle_tree_decoder_end partial_merkle_tree_decoder_read_limit
  partial_merkle_tree_decoder_run partial_merkle_tree_decoder_inv
  by unfold_locales

interpretation mb_dec: push_decoder merkle_block_decoder_push merkle_block_decoder_end
  "decoder2_read_limit header_decoder_read_limit partial_merkle_tree_decoder_read_limit"
  "newtype_run MerkleBlockDecoderError merkle_block_of_parts (decoder2_run header_decoder_run partial_merkle_tree_decoder_run)"
  "decoder2_inv header_decoder_inv partial_merkle_tree_decoder_inv"
  unfolding merkle_block_decoder_push_def merkle_block_decoder_end_def
  by (intro newtype_decoder.newtype_push_decoder newtype_decoder.intro newtype_decoder_axioms.intro mb_parts.pair_push_decoder)
     (simp add: merkle_block_of_parts_def split: prod.splits)

lemma merkle_block_decodes:
  "decode_from_slice merkle_block_decoder_push merkle_block_decoder_end merkle_block_decoder_new bs = Ok mb
    \<longleftrightarrow> header_ok (mb_header mb) \<and> partial_merkle_tree_wire (mb_txn mb) \<and> 8 dvd length (pmt_bits (mb_txn mb))
      \<and> bs = merkle_block_bytes mb"
  by (cases mb) (auto simp: mb_dec.decode_from_slice_iff merkle_block_decoder_new_def newtype_run_POk_iff pbind_POk_iff
      merkle_block_of_parts_def header_run partial_merkle_tree_run merkle_block_bytes_def)

text \<open>
  Merkle blocks on the wire: the decoder accepts exactly the encodings of Merkle blocks with a header of
  80 bytes, hashes of 32 bytes, vectors within the limits and a number of flag bits that is a multiple of
  eight; other numbers of bits are padded by the encoder and not restored.
\<close>

theorem merkle_block_decoder_accepts:
  "decode_from_slice merkle_block_decoder_push merkle_block_decoder_end merkle_block_decoder_new bs = Ok mb
   \<longleftrightarrow> header_ok (mb_header mb) \<and> partial_merkle_tree_wire (mb_txn mb) \<and> 8 dvd length (pmt_bits (mb_txn mb))
     \<and> drain_to_vec merkle_block_encoder_chunk merkle_block_encoder_advance (merkle_block_encoder_new mb) = Ok bs"
  by (auto simp: merkle_block_decodes merkle_block_drain)

text \<open>What a validated block gives the proofs: the tree of its transaction ids.\<close>

lemma block_validate_parts:
  "block_validate batched h b = Ok b' \<Longrightarrow> b_header b' = b_header b \<and> transactions b' = transactions b"
  by (auto simp: block_validate_def res_bind_Ok_iff assume_checked_def block_new_unchecked_def
      split: if_splits prod.splits bool.splits)

lemma validated_txids:
  assumes "block_validate batched h b = Ok b'" "hash32 h" "\<not> hash_collision h S"
    and "merkle_inputs h (txids h (transactions b)) \<subseteq> S"
  shows "txids h (transactions b) \<noteq> []" "leaves32 (txids h (transactions b))"
    "siblings_differ h (tree_height (length (transactions b))) (txids h (transactions b))"
    "tree h (tree_height (length (transactions b))) (txids h (transactions b)) = merkle_root (b_header b)"
proof -
  have root: "node_calculate_root batched h (txids h (transactions b)) = Ok (Some (merkle_root (b_header b)))"
    using block_validate_Ok [OF assms(1)] by blast
  show leaves: "leaves32 (txids h (transactions b))" by (rule leaves32_hashes [OF assms(2)])
  show "txids h (transactions b) \<noteq> []"
    "siblings_differ h (tree_height (length (transactions b))) (txids h (transactions b))"
    "tree h (tree_height (length (transactions b))) (txids h (transactions b)) = merkle_root (b_header b)"
    using node_root_tree [OF root assms(2) leaves assms(3,4)] by (simp_all add: leaves32_hashes(3) [OF assms(2)])
qed

lemma leaves32_proof_hashes:
  "hash32 h \<Longrightarrow> leaves32 xs \<Longrightarrow> xs \<noteq> [] \<Longrightarrow> length xs = length ms \<Longrightarrow> leaves32 (proof_hashes h k xs ms)"
proof (induction k arbitrary: xs ms)
  case 0
  then show ?case by (cases xs) (simp_all add: leaves32_def)
next
  case (Suc k)
  let ?L = "take (2 ^ k) xs" and ?R = "drop (2 ^ k) xs"
  have "leaves32 (proof_hashes h k ?L (take (2 ^ k) ms))" using Suc.prems leaves32_parts by (intro Suc.IH) auto
  moreover have "leaves32 (proof_hashes h k ?R (drop (2 ^ k) ms))" if "\<not> length ms \<le> 2 ^ k"
    using Suc.prems leaves32_parts that by (intro Suc.IH) auto
  moreover have "leaves32 [tree h (Suc k) xs]" using length_tree [OF Suc.prems(1-3)] by (simp add: leaves32_def del: tree.simps)
  ultimately show ?case by (simp add: leaves32_def del: tree.simps)
qed

lemma map_selected: "selected (map P xs) xs = filter P xs"
  by (induction xs) (simp_all add: selected_def)

lemma selected_positions: "selected (map P xs) [0..<length xs] = filter (\<lambda>i. P (xs ! i)) [0..<length xs]"
proof -
  have "zip [0..<length xs] (map P xs) = map (\<lambda>i. (i, P (xs ! i))) [0..<length xs]"
    by (rule nth_equalityI) simp_all
  then show ?thesis by (simp add: selected_def filter_map comp_def)
qed

lemma from_block_txids:
  "from_block_with_predicate h b match_txids =
     from_header_txids_with_predicate h (b_header b) (txids h (transactions b)) match_txids"
  using map_res_Ok [of "transactions b" "compute_txid h" "\<lambda>tx. h (legacy_bytes tx)"]
  by (simp add: from_block_with_predicate_def txids_def compute_txid_eq)

text \<open>Encoding pads the bits of a tree, and nothing else changes.\<close>

lemma merkle_block_padded:
  assumes "header_ok hdr" "partial_merkle_tree_wire p"
  shows "decode_from_slice merkle_block_decoder_push merkle_block_decoder_end merkle_block_decoder_new
      (merkle_block_bytes \<lparr>mb_header = hdr, mb_txn = p\<rparr>)
    = Ok \<lparr>mb_header = hdr, mb_txn = p\<lparr>pmt_bits := pmt_bits p @ pad_bits (pmt_bits p)\<rparr>\<rparr>"
proof -
  let ?bv = "pmt_bits p @ pad_bits (pmt_bits p)"
  have bv: "?bv = unpack_bits (pack_bits (pmt_bits p))" by (simp add: unpack_pack_bits)
  then have "pack_bits ?bv = pack_bits (pmt_bits p)" "8 dvd length ?bv" by (metis pack_bits_iff)+
  moreover have "div_ceil_8 (length ?bv) = div_ceil_8 (length (pmt_bits p))" using div_ceil_8_pad by simp
  ultimately have "partial_merkle_tree_bytes (p\<lparr>pmt_bits := ?bv\<rparr>) = partial_merkle_tree_bytes p"
    "partial_merkle_tree_wire (p\<lparr>pmt_bits := ?bv\<rparr>)" "8 dvd length ?bv"
    using assms(2) by (simp_all add: partial_merkle_tree_bytes_def partial_merkle_tree_wire_def)
  then show ?thesis using assms(1)
    by (simp add: merkle_block_decodes merkle_block_bytes_def)
qed

text \<open>
  Property C10. A proof for a block reaches the client: a validated block with a header of 80 bytes and at most 16666
  transactions gives a Merkle block, which is encoded and decoded, and the client that
  extracts the matches gets the transaction ids that the predicate selects, in order, with their
  positions. The only escape is a collision between two nodes of the Merkle tree of the block.
\<close>

theorem merkle_block_transport:
  assumes "block_validate batched h b = Ok b'" "hash32 h" "header_ok (b_header b)" "length (transactions b) \<le> 16666"
  shows "(\<exists>mb bs mb'. from_block_with_predicate h b' match_txids = Ok mb
      \<and> drain_to_vec merkle_block_encoder_chunk merkle_block_encoder_advance (merkle_block_encoder_new mb) = Ok bs
      \<and> decode_from_slice merkle_block_decoder_push merkle_block_decoder_end merkle_block_decoder_new bs = Ok mb'
      \<and> merkle_block_extract_matches h mb' = (Ok (), filter match_txids (txids h (transactions b)),
          filter (\<lambda>i. match_txids (txids h (transactions b) ! i)) [0..<length (transactions b)]))
    \<or> hash_collision h (merkle_inputs h (txids h (transactions b)))"
proof (cases "hash_collision h (merkle_inputs h (txids h (transactions b)))")
  case False
  let ?ids = "txids h (transactions b)"
  note v = validated_txids [OF assms(1,2) False subset_refl] and parts = block_validate_parts [OF assms(1)]
  have n: "length ?ids = length (transactions b)" by (simp add: txids_def)
  obtain p where p: "from_txids h ?ids (map match_txids ?ids) = Ok p"
    and hs: "pmt_hashes p = proof_hashes h (tree_height (length ?ids)) ?ids (map match_txids ?ids)"
    and short: "length (pmt_bits p) < 2 ^ 16"
    and extracted: "extract_matches h p = (Ok (merkle_root (b_header b)), filter match_txids ?ids,
      filter (\<lambda>i. match_txids (?ids ! i)) [0..<length ?ids])"
    by (rule partial_merkle_complete [of ?ids "map match_txids ?ids" h])
      (use v(1,3,4) assms(4) n in \<open>simp_all add: map_selected selected_positions [of match_txids ?ids, unfolded n]\<close>)
  have "leaves32 (pmt_hashes p)" "length (pmt_hashes p) \<le> length ?ids"
    unfolding hs using v assms(2) by (intro leaves32_proof_hashes proof_hashes_bound; simp)+
  then have wire: "partial_merkle_tree_wire p"
    using short assms(4) n by (simp add: partial_merkle_tree_wire_def MAX_VEC_SIZE_def div_ceil_8_def)
  have "from_block_with_predicate h b' match_txids = Ok \<lparr>mb_header = b_header b, mb_txn = p\<rparr>"
    using p parts by (simp add: from_block_txids from_header_txids_with_predicate_def)
  moreover note merkle_block_drain [of "\<lparr>mb_header = b_header b, mb_txn = p\<rparr>"] merkle_block_padded [OF assms(3) wire]
  moreover have "merkle_block_extract_matches h
      \<lparr>mb_header = b_header b, mb_txn = p\<lparr>pmt_bits := pmt_bits p @ pad_bits (pmt_bits p)\<rparr>\<rparr> =
      (Ok (), filter match_txids ?ids, filter (\<lambda>i. match_txids (?ids ! i)) [0..<length (transactions b)])"
    using extract_matches_pad [OF extracted div_ceil_8_pad] n by (simp add: merkle_block_extract_matches_def)
  ultimately show ?thesis by blast
qed simp

text \<open>
  Property C11. A Merkle block cannot lie: when the client holds the header of a validated block and decodes a proof
  with the right number of transactions, then whatever the bytes were, the matches it extracts
  are transactions of the block at the reported positions, which increase, unless two of the nodes that are hashed for the Merkle tree of the block and by the extraction collide.
\<close>

theorem merkle_block_sound:
  assumes "decode_from_slice merkle_block_decoder_push merkle_block_decoder_end merkle_block_decoder_new bs = Ok mb"
    and "block_validate batched h b = Ok b'" "hash32 h" "mb_header mb = b_header b"
    and "unat (num_transactions (mb_txn mb)) = length (transactions b)"
    and "merkle_block_extract_matches h mb = (Ok (), ms, js)"
  shows "(ms = map ((!) (txids h (transactions b))) js \<and> sorted_wrt (<) js \<and> set js \<subseteq> {..<length (transactions b)})
    \<or> hash_collision h (merkle_inputs h (txids h (transactions b)) \<union> proof_inputs h (mb_txn mb))"
proof (cases "hash_collision h (merkle_inputs h (txids h (transactions b)) \<union> proof_inputs h (mb_txn mb))")
  case False
  let ?ids = "txids h (transactions b)"
  note v = validated_txids [OF assms(2,3) False Un_upper1]
  have n: "length ?ids = length (transactions b)" by (simp add: txids_def)
  have "leaves32 (pmt_hashes (mb_txn mb))"
    using assms(1) by (simp add: merkle_block_decodes partial_merkle_tree_wire_def)
  moreover have "extract_matches h (mb_txn mb) = (Ok (merkle_root (b_header b)), ms, js)"
    using assms(4,6) by (auto simp: merkle_block_extract_matches_def res_bind_Ok_iff split: prod.splits if_splits)
  ultimately show ?thesis
    using partial_merkle_sound [OF assms(3) False v(2,1) _ _ _ Un_upper1 Un_upper2] v(4) n assms(5) by simp
qed simp

text \<open>In the example there is one transaction, and no node is hashed for it.\<close>

lemma example_inputs: "merkle_inputs h (txids h (transactions (example_block 0))) = {}"
  by (simp add: merkle_inputs_def txids_def example_block_def block_new_unchecked_def tree_height_small)

theorem merkle_block_transport_witness:
  "\<exists>mb bs mb'. from_block_with_predicate first_32 (example_block 0) (\<lambda>_. True) = Ok mb
      \<and> drain_to_vec merkle_block_encoder_chunk merkle_block_encoder_advance (merkle_block_encoder_new mb) = Ok bs
      \<and> decode_from_slice merkle_block_decoder_push merkle_block_decoder_end merkle_block_decoder_new bs = Ok mb'
      \<and> merkle_block_extract_matches first_32 mb' =
          (Ok (), txids first_32 (transactions (example_block 0)), [0..<length (transactions (example_block 0))])"
proof -
  have none: "\<not> hash_collision first_32 (merkle_inputs first_32 (txids first_32 (transactions (example_block 0))))"
    unfolding example_inputs by (simp add: hash_collision_def)
  have "header_ok (b_header (example_block 0))" "length (transactions (example_block 0)) \<le> 16666"
    using example_block(1) [of 0] by (simp_all add: block_wire_def) (simp add: example_block_def block_new_unchecked_def)
  from merkle_block_transport [OF example_block(3) first_32 this, of "\<lambda>_. True"] none show ?thesis by simp
qed

theorem merkle_block_sound_witness:
  "[merkle_root (b_header (example_block 0))] = map ((!) (txids first_32 (transactions (example_block 0)))) [0]
      \<and> sorted_wrt (<) [0 :: nat] \<and> set [0] \<subseteq> {..<length (transactions (example_block 0))}"
proof -
  let ?root = "merkle_root (b_header (example_block 0))"
  let ?mb = "\<lparr>mb_header = b_header (example_block 0),
    mb_txn = \<lparr>num_transactions = 1, pmt_bits = True # replicate 7 False, pmt_hashes = [?root]\<rparr>\<rparr>"
  have height: "calc_tree_height (Suc 0) = 0" by (simp add: calc_tree_height tree_height_small)
  have ok: "header_ok (b_header (example_block 0))" using example_block(1) [of 0] by (simp add: block_wire_def)
  have wire: "partial_merkle_tree_wire (mb_txn ?mb)"
    using ok by (simp add: partial_merkle_tree_wire_def leaves32_def header_ok_def MAX_VEC_SIZE_def div_ceil_8_def)
  have "decode_from_slice merkle_block_decoder_push merkle_block_decoder_end merkle_block_decoder_new (merkle_block_bytes ?mb) = Ok ?mb"
    using ok wire by (simp add: merkle_block_decodes)
  moreover have "merkle_block_extract_matches first_32 ?mb = (Ok (), [?root], [0])"
    by (simp add: merkle_block_extract_matches_def extract_matches_def Let_def height MAX_BLOCK_WEIGHT_def
        MIN_TRANSACTION_WEIGHT_def div_ceil_8_def)
  moreover have "unat (num_transactions (mb_txn ?mb)) = length (transactions (example_block 0))"
    by (simp add: example_block_def block_new_unchecked_def)
  ultimately have "[?root] = map ((!) (txids first_32 (transactions (example_block 0)))) [0]
      \<and> sorted_wrt (<) [0 :: nat] \<and> set [0] \<subseteq> {..<length (transactions (example_block 0))}
    \<or> hash_collision first_32 (merkle_inputs first_32 (txids first_32 (transactions (example_block 0)))
        \<union> proof_inputs first_32 (mb_txn ?mb))"
    by (intro merkle_block_sound [OF _ example_block(3) first_32]) (assumption | simp)+
  then show ?thesis unfolding example_inputs by (simp add: proof_inputs_def height hash_collision_def)
qed

end
