(* ===== verification/Taproot_Tree.thy ===== *)
theory Taproot_Tree
  imports Encoders "HOL-Library.List_Lexorder"
begin

section \<open>Taproot script trees\<close>

text \<open>
  Script trees of \<open>bitcoin/src/taproot/mod.rs\<close> and \<open>taproot-primitives/src/lib.rs\<close>: node infos, which keep
  the hash of a node and for every script below it the hashes on its path, and the builder that takes
  leaves in depth-first order. The tagged hash functions are arguments: \<open>hl\<close> for leaves, \<open>hb\<close> for branches.
  Hashes are compared as byte strings, in lexicographic order. The theorems compare the builder with trees.
\<close>

definition TAPROOT_CONTROL_MAX_NODE_COUNT :: nat where "TAPROOT_CONTROL_MAX_NODE_COUNT = 128"
definition TAPROOT_LEAF_TAPSCRIPT :: u8 where "TAPROOT_LEAF_TAPSCRIPT = 0xc0"
definition TAPROOT_ANNEX_PREFIX :: u8 where "TAPROOT_ANNEX_PREFIX = 0x50"
definition TAPROOT_LEAF_MASK :: u8 where "TAPROOT_LEAF_MASK = 0xfe"

subsection \<open>Leaf versions\<close>

datatype leaf_version = TapScript | Future u8

definition future_from_consensus :: "u8 \<Rightarrow> (u8, u8) res" where
  "future_from_consensus v =
     (if v = TAPROOT_LEAF_TAPSCRIPT then Panic
      else if v = TAPROOT_ANNEX_PREFIX then Err TAPROOT_ANNEX_PREFIX
      else if v AND 0xFE \<noteq> v then Err v
      else Ok v)"

definition leaf_version_from_consensus :: "u8 \<Rightarrow> (u8, leaf_version) res" where
  "leaf_version_from_consensus v =
     (if v = TAPROOT_LEAF_TAPSCRIPT then Ok TapScript
      else if v = TAPROOT_ANNEX_PREFIX then Err TAPROOT_ANNEX_PREFIX
      else res_bind (future_from_consensus v) (\<lambda>f. Ok (Future f)))"

fun leaf_version_to_consensus :: "leaf_version \<Rightarrow> u8" where
  "leaf_version_to_consensus TapScript = TAPROOT_LEAF_TAPSCRIPT"
| "leaf_version_to_consensus (Future v) = v"

text \<open>The versions that can be constructed.\<close>

definition leaf_version_ok :: "leaf_version \<Rightarrow> bool" where
  "leaf_version_ok ver \<longleftrightarrow> (case ver of TapScript \<Rightarrow> True
     | Future v \<Rightarrow> v \<noteq> TAPROOT_LEAF_TAPSCRIPT \<and> v \<noteq> TAPROOT_ANNEX_PREFIX \<and> v AND 0xFE = v)"

lemma leaf_version_from_consensus_iff:
  "leaf_version_from_consensus v = Ok ver \<longleftrightarrow> leaf_version_ok ver \<and> v = leaf_version_to_consensus ver"
  by (cases ver) (auto simp: leaf_version_from_consensus_def future_from_consensus_def leaf_version_ok_def
      res_bind_Ok_iff TAPROOT_LEAF_TAPSCRIPT_def TAPROOT_ANNEX_PREFIX_def split: if_splits)

lemma leaf_version_total: "leaf_version_from_consensus v \<noteq> Panic" "leaf_version_from_consensus v \<noteq> Diverge"
  by (auto simp: leaf_version_from_consensus_def future_from_consensus_def)

subsection \<open>Hashes\<close>

definition tap_leaf_hash :: "(bytes \<Rightarrow> bytes) \<Rightarrow> bytes \<Rightarrow> leaf_version \<Rightarrow> bytes" where
  "tap_leaf_hash hl script ver = hl (leaf_version_to_consensus ver # compact_size_new (length script) @ script)"

text \<open>What is hashed after the version is the output of the script encoder.\<close>

lemma tap_leaf_hash_drain:
  "drain_to_vec prefixed_bytes_encoder_chunk prefixed_bytes_encoder_advance (prefixed_bytes_encoder_new script) = Ok bs
    \<Longrightarrow> tap_leaf_hash hl script ver = hl (leaf_version_to_consensus ver # bs)"
  by (simp add: tap_leaf_hash_def pb.drain_to_vec_out)

definition combine_node_hashes :: "(bytes \<Rightarrow> bytes) \<Rightarrow> bytes \<Rightarrow> bytes \<Rightarrow> bytes \<times> bool" where
  "combine_node_hashes hb a b = (hb (if a < b then a @ b else b @ a), a < b)"

definition from_node_hashes :: "(bytes \<Rightarrow> bytes) \<Rightarrow> bytes \<Rightarrow> bytes \<Rightarrow> bytes" where
  "from_node_hashes hb a b = fst (combine_node_hashes hb a b)"

lemma from_node_hashes_commute: "from_node_hashes hb a b = from_node_hashes hb b a"
  by (auto simp: from_node_hashes_def combine_node_hashes_def dest: antisym_conv3)

subsection \<open>Node infos\<close>

datatype tap_leaf = Script bytes leaf_version | Hidden bytes

record leaf_node =
  ln_leaf :: tap_leaf
  merkle_branch :: "bytes list"

record node_info =
  ni_hash :: bytes
  ni_leaves :: "leaf_node list"
  has_hidden_nodes :: bool

datatype taproot_builder_error = InvalidMerkleTreeDepth nat | NodeNotInDfsOrder | OverCompleteTree | EmptyTree

definition branch_push :: "bytes list \<Rightarrow> bytes \<Rightarrow> (nat, bytes list) res" where
  "branch_push branch h =
     (if TAPROOT_CONTROL_MAX_NODE_COUNT \<le> length branch then Err (length branch) else Ok (branch @ [h]))"

definition leaf_node_new_script :: "bytes \<Rightarrow> leaf_version \<Rightarrow> leaf_node" where
  "leaf_node_new_script script ver = \<lparr>ln_leaf = Script script ver, merkle_branch = []\<rparr>"

definition leaf_node_hash :: "(bytes \<Rightarrow> bytes) \<Rightarrow> leaf_node \<Rightarrow> bytes" where
  "leaf_node_hash hl n = (case ln_leaf n of Script script ver \<Rightarrow> tap_leaf_hash hl script ver | Hidden hash \<Rightarrow> hash)"

definition new_hidden_node :: "bytes \<Rightarrow> node_info" where
  "new_hidden_node hash = \<lparr>ni_hash = hash, ni_leaves = [], has_hidden_nodes = True\<rparr>"

definition new_leaf_with_ver :: "(bytes \<Rightarrow> bytes) \<Rightarrow> bytes \<Rightarrow> leaf_version \<Rightarrow> node_info" where
  "new_leaf_with_ver hl script ver = \<lparr>ni_hash = tap_leaf_hash hl script ver,
     ni_leaves = [leaf_node_new_script script ver], has_hidden_nodes = False\<rparr>"

text \<open>The loops of \<open>combine\<close>: the partner is appended to the path of every leaf.\<close>

fun push_all :: "bytes \<Rightarrow> leaf_node list \<Rightarrow> (taproot_builder_error, leaf_node list) res" where
  "push_all h [] = Ok []"
| "push_all h (leaf # leaves) =
     res_bind (map_err InvalidMerkleTreeDepth (branch_push (merkle_branch leaf) h)) (\<lambda>branch.
     res_bind (push_all h leaves) (\<lambda>leaves. Ok (leaf\<lparr>merkle_branch := branch\<rparr> # leaves)))"

definition node_combine ::
  "(bytes \<Rightarrow> bytes) \<Rightarrow> node_info \<Rightarrow> node_info \<Rightarrow> (taproot_builder_error, node_info) res" where
  "node_combine hb a b =
     (let (hash, left_first) = combine_node_hashes hb (ni_hash a) (ni_hash b);
          (a, b) = if left_first then (a, b) else (b, a) in
      res_bind (push_all (ni_hash b) (ni_leaves a)) (\<lambda>a_leaves.
      res_bind (push_all (ni_hash a) (ni_leaves b)) (\<lambda>b_leaves.
        Ok \<lparr>ni_hash = hash, ni_leaves = a_leaves @ b_leaves,
            has_hidden_nodes = (has_hidden_nodes a \<or> has_hidden_nodes b)\<rparr>)))"

subsection \<open>The builder\<close>

text \<open>For every level at most one node; the root is first.\<close>

type_synonym taproot_builder = "node_info option list"

definition taproot_builder_new :: taproot_builder where "taproot_builder_new = []"

function insert_loop :: "(bytes \<Rightarrow> bytes) \<Rightarrow> taproot_builder \<Rightarrow> node_info \<Rightarrow> nat
    \<Rightarrow> (taproot_builder_error, taproot_builder \<times> node_info \<times> nat) res" where
  "insert_loop hb branch node depth =
     (if length branch = depth + 1 then
        (case last branch of
           None \<Rightarrow> Ok (branch, node, depth)
         | Some child \<Rightarrow>
             if depth = 0 then Err OverCompleteTree
             else res_bind (node_combine hb node child) (\<lambda>node. insert_loop hb (butlast branch) node (depth - 1)))
      else Ok (branch, node, depth))"
  by pat_completeness auto
termination by (relation "measure (\<lambda>(hb, branch, node, depth). length branch)") auto

declare insert_loop.simps [simp del]

definition builder_insert ::
  "(bytes \<Rightarrow> bytes) \<Rightarrow> taproot_builder \<Rightarrow> node_info \<Rightarrow> u8 \<Rightarrow> (taproot_builder_error, taproot_builder) res" where
  "builder_insert hb branch node depth =
     (if unat depth > TAPROOT_CONTROL_MAX_NODE_COUNT then Err (InvalidMerkleTreeDepth (unat depth))
      else if unat depth + 1 < length branch then Err NodeNotInDfsOrder
      else res_bind (insert_loop hb branch node (unat depth)) (\<lambda>(branch, node, depth).
        let branch = branch @ replicate (depth + 1 - length branch) None in
        Ok (branch[depth := Some node])))"

definition add_leaf_with_ver ::
  "(bytes \<Rightarrow> bytes) \<Rightarrow> (bytes \<Rightarrow> bytes) \<Rightarrow> taproot_builder \<Rightarrow> u8 \<Rightarrow> bytes \<Rightarrow> leaf_version
     \<Rightarrow> (taproot_builder_error, taproot_builder) res" where
  "add_leaf_with_ver hl hb b depth script ver = builder_insert hb b (new_leaf_with_ver hl script ver) depth"

definition add_leaf ::
  "(bytes \<Rightarrow> bytes) \<Rightarrow> (bytes \<Rightarrow> bytes) \<Rightarrow> taproot_builder \<Rightarrow> u8 \<Rightarrow> bytes \<Rightarrow> (taproot_builder_error, taproot_builder) res" where
  "add_leaf hl hb b depth script = add_leaf_with_ver hl hb b depth script TapScript"

definition add_hidden_node ::
  "(bytes \<Rightarrow> bytes) \<Rightarrow> taproot_builder \<Rightarrow> u8 \<Rightarrow> bytes \<Rightarrow> (taproot_builder_error, taproot_builder) res" where
  "add_hidden_node hb b depth hash = builder_insert hb b (new_hidden_node hash) depth"

definition is_finalizable :: "taproot_builder \<Rightarrow> bool" where
  "is_finalizable b \<longleftrightarrow> length b = 1 \<and> b ! 0 \<noteq> None"

datatype incomplete_builder_error = NotFinalized taproot_builder | HiddenParts taproot_builder

definition try_into_node_info :: "taproot_builder \<Rightarrow> (incomplete_builder_error, node_info) res" where
  "try_into_node_info b =
     (if length b \<noteq> 1 then Err (NotFinalized b)
      else case last b of None \<Rightarrow> Panic | Some node \<Rightarrow> Ok node)"

definition try_into_tap_tree :: "taproot_builder \<Rightarrow> (incomplete_builder_error, node_info) res" where
  "try_into_tap_tree b = res_bind (try_into_node_info b) (\<lambda>node.
     if has_hidden_nodes node then Err (HiddenParts [Some node]) else Ok node)"

definition builder_has_hidden_nodes :: "taproot_builder \<Rightarrow> bool" where
  "builder_has_hidden_nodes b \<longleftrightarrow>
     list_ex (\<lambda>n. case n of None \<Rightarrow> False | Some node \<Rightarrow> has_hidden_nodes node) b"

subsection \<open>Trees\<close>

text \<open>What a builder stands for: a binary tree of scripts and hidden hashes, its leaves in depth-first order
  with their depths, and the node info of its root.\<close>

datatype script_tree = Leaf_script bytes leaf_version | Leaf_hidden bytes | Branch script_tree script_tree

fun depth_of :: "script_tree \<Rightarrow> nat" where
  "depth_of (Branch l r) = Suc (max (depth_of l) (depth_of r))"
| "depth_of t = 0"

fun dfs :: "nat \<Rightarrow> script_tree \<Rightarrow> (nat \<times> tap_leaf) list" where
  "dfs d (Leaf_script script ver) = [(d, Script script ver)]"
| "dfs d (Leaf_hidden hash) = [(d, Hidden hash)]"
| "dfs d (Branch l r) = dfs (Suc d) l @ dfs (Suc d) r"

definition extend_branch :: "bytes \<Rightarrow> leaf_node \<Rightarrow> leaf_node" where
  "extend_branch h leaf = leaf\<lparr>merkle_branch := merkle_branch leaf @ [h]\<rparr>"

definition join :: "(bytes \<Rightarrow> bytes) \<Rightarrow> node_info \<Rightarrow> node_info \<Rightarrow> node_info" where
  "join hb a b =
     (let hash = from_node_hashes hb (ni_hash a) (ni_hash b);
          (a, b) = if ni_hash a < ni_hash b then (a, b) else (b, a) in
      \<lparr>ni_hash = hash,
       ni_leaves = map (extend_branch (ni_hash b)) (ni_leaves a) @ map (extend_branch (ni_hash a)) (ni_leaves b),
       has_hidden_nodes = (has_hidden_nodes a \<or> has_hidden_nodes b)\<rparr>)"

fun tree_info :: "(bytes \<Rightarrow> bytes) \<Rightarrow> (bytes \<Rightarrow> bytes) \<Rightarrow> script_tree \<Rightarrow> node_info" where
  "tree_info hl hb (Leaf_script script ver) = new_leaf_with_ver hl script ver"
| "tree_info hl hb (Leaf_hidden hash) = new_hidden_node hash"
| "tree_info hl hb (Branch l r) = join hb (tree_info hl hb r) (tree_info hl hb l)"

definition leaf_info :: "(bytes \<Rightarrow> bytes) \<Rightarrow> tap_leaf \<Rightarrow> node_info" where
  "leaf_info hl leaf = (case leaf of Script script ver \<Rightarrow> new_leaf_with_ver hl script ver | Hidden hash \<Rightarrow> new_hidden_node hash)"

definition short_branches :: "nat \<Rightarrow> node_info \<Rightarrow> bool" where
  "short_branches n node \<longleftrightarrow> (\<forall>leaf \<in> set (ni_leaves node). length (merkle_branch leaf) \<le> n)"

lemma push_all_short:
  "\<forall>leaf \<in> set leaves. length (merkle_branch leaf) < TAPROOT_CONTROL_MAX_NODE_COUNT
    \<Longrightarrow> push_all h leaves = Ok (map (extend_branch h) leaves)"
  by (induction leaves) (auto simp: branch_push_def extend_branch_def)

lemma node_combine_short:
  assumes "short_branches n a" "short_branches n b" "n < TAPROOT_CONTROL_MAX_NODE_COUNT"
  shows "node_combine hb a b = Ok (join hb a b)"
proof -
  have push: "push_all h (ni_leaves a) = Ok (map (extend_branch h) (ni_leaves a))"
    "push_all h (ni_leaves b) = Ok (map (extend_branch h) (ni_leaves b))" for h
    using assms by (intro push_all_short; force simp: short_branches_def)+
  show ?thesis
    by (cases "ni_hash a < ni_hash b")
       (simp_all add: node_combine_def join_def combine_node_hashes_def from_node_hashes_def push Let_def)
qed

lemma short_branches_join: "short_branches n a \<Longrightarrow> short_branches n b \<Longrightarrow> short_branches (Suc n) (join hb a b)"
  by (auto simp: short_branches_def join_def extend_branch_def Let_def split: prod.splits if_splits)

lemma short_branches_mono: "short_branches n a \<Longrightarrow> n \<le> m \<Longrightarrow> short_branches m a"
  by (auto simp: short_branches_def)

lemma short_branches_tree: "short_branches (depth_of t) (tree_info hl hb t)"
proof (induction t)
  case (Branch l r)
  then have "short_branches (max (depth_of l) (depth_of r)) (tree_info hl hb l)"
    "short_branches (max (depth_of l) (depth_of r)) (tree_info hl hb r)"
    by (auto intro: short_branches_mono)
  then show ?case by (simp add: short_branches_join)
qed (simp_all add: short_branches_def new_leaf_with_ver_def new_hidden_node_def leaf_node_new_script_def)

lemma combine_trees:
  assumes "depth_of (Branch l r) \<le> TAPROOT_CONTROL_MAX_NODE_COUNT"
  shows "node_combine hb (tree_info hl hb r) (tree_info hl hb l) = Ok (tree_info hl hb (Branch l r))"
proof -
  have "short_branches (max (depth_of l) (depth_of r)) (tree_info hl hb r)"
    "short_branches (max (depth_of l) (depth_of r)) (tree_info hl hb l)"
    by (rule short_branches_mono [OF short_branches_tree]; simp)+
  moreover have "max (depth_of l) (depth_of r) < TAPROOT_CONTROL_MAX_NODE_COUNT" using assms by (simp add: Suc_le_eq)
  ultimately show ?thesis by (simp add: node_combine_short del: max_less_iff_conj)
qed

subsection \<open>The builder builds trees\<close>

text \<open>A node at a depth, as \<open>insert\<close> places it, and the insertion of a list of leaves.\<close>

definition place :: "(bytes \<Rightarrow> bytes) \<Rightarrow> taproot_builder \<Rightarrow> node_info \<Rightarrow> nat \<Rightarrow> (taproot_builder_error, taproot_builder) res" where
  "place hb b node d = builder_insert hb b node (word_of_nat d)"

fun add_all :: "(bytes \<Rightarrow> bytes) \<Rightarrow> (bytes \<Rightarrow> bytes) \<Rightarrow> taproot_builder \<Rightarrow> (nat \<times> tap_leaf) list
    \<Rightarrow> (taproot_builder_error, taproot_builder) res" where
  "add_all hl hb b [] = Ok b"
| "add_all hl hb b ((d, leaf) # ds) = res_bind (place hb b (leaf_info hl leaf) d) (\<lambda>b. add_all hl hb b ds)"

lemma res_bind_assoc: "res_bind (res_bind r f) g = res_bind r (\<lambda>x. res_bind (f x) g)"
  by (cases r) simp_all

text \<open>The calls of a client.\<close>

lemma add_leaf_place: "d < 256 \<Longrightarrow> add_leaf_with_ver hl hb b (word_of_nat d) script ver = place hb b (leaf_info hl (Script script ver)) d"
  "d < 256 \<Longrightarrow> add_hidden_node hb b (word_of_nat d) hash = place hb b (leaf_info hl (Hidden hash)) d"
  by (simp_all add: add_leaf_with_ver_def add_hidden_node_def place_def leaf_info_def)

lemma add_all_append: "add_all hl hb b (xs @ ys) = res_bind (add_all hl hb b xs) (\<lambda>b. add_all hl hb b ys)"
proof (induction xs arbitrary: b)
  case (Cons x xs)
  then show ?case by (cases x) (simp add: res_bind_assoc)
qed simp

text \<open>What an insertion does above the deepest node.\<close>

definition settle :: "(bytes \<Rightarrow> bytes) \<Rightarrow> taproot_builder \<Rightarrow> node_info \<Rightarrow> nat \<Rightarrow> (taproot_builder_error, taproot_builder) res" where
  "settle hb b node d = res_bind (insert_loop hb b node d) (\<lambda>(b, node, d).
     Ok ((b @ replicate (d + 1 - length b) None)[d := Some node]))"

lemma place_settle:
  assumes "d \<le> TAPROOT_CONTROL_MAX_NODE_COUNT" "length b \<le> d + 1"
  shows "place hb b node d = settle hb b node d"
proof -
  have "unat (word_of_nat d :: u8) = d"
    using assms(1) by (simp add: unat_of_nat TAPROOT_CONTROL_MAX_NODE_COUNT_def)
  then show ?thesis using assms by (simp add: place_def builder_insert_def settle_def)
qed

lemma settle_short: "length b \<le> d \<Longrightarrow> settle hb b node d = Ok (b @ replicate (d - length b) None @ [Some node])"
  by (simp add: settle_def insert_loop.simps replicate_append_same[symmetric] Suc_diff_le list_update_append)

lemma settle_Some:
  assumes "length b = d + 2" "last b = Some child" "node_combine hb node child = Ok node'"
  shows "settle hb b node (Suc d) = settle hb (butlast b) node' d"
  using assms by (simp add: settle_def insert_loop.simps [of hb b])

lemma settle_None:
  "length b = d + 1 \<Longrightarrow> last b = None \<Longrightarrow> settle hb b node d = Ok (butlast b @ [Some node])"
  by (cases b rule: rev_cases) (simp_all add: settle_def insert_loop.simps list_update_append)

lemma settle_pad:
  assumes "length b \<le> d"
  shows "settle hb (b @ replicate (d + 1 - length b) None) node d = settle hb b node d"
proof -
  have snoc: "replicate (Suc n) (None :: node_info option) = replicate n None @ [None]" for n
    by (simp add: replicate_append_same)
  have "butlast (b @ replicate (Suc (d - length b)) None) = b @ replicate (d - length b) None"
    unfolding snoc by (simp add: butlast_append)
  then show ?thesis using assms by (simp add: settle_None settle_short Suc_diff_le del: replicate.simps)
qed

lemma res_bind_Ok_right: "res_bind r Ok = r"
  by (cases r) simp_all

lemma add_all_dfs:
  "length b \<le> d + 1 \<Longrightarrow> d + depth_of t \<le> TAPROOT_CONTROL_MAX_NODE_COUNT
    \<Longrightarrow> add_all hl hb b (dfs d t) = place hb b (tree_info hl hb t) d"
proof (induction t arbitrary: b d)
  case (Branch l r)
  let ?b = "b @ replicate (d + 1 - length b) None"
  have depths: "d + 1 + depth_of l \<le> TAPROOT_CONTROL_MAX_NODE_COUNT" "d + 1 + depth_of r \<le> TAPROOT_CONTROL_MAX_NODE_COUNT"
    using Branch.prems(2) by simp_all
  have combined: "node_combine hb (tree_info hl hb r) (tree_info hl hb l) = Ok (tree_info hl hb (Branch l r))"
    using Branch.prems(2) by (intro combine_trees) simp
  have "add_all hl hb b (dfs (Suc d) l) = Ok (?b @ [Some (tree_info hl hb l)])"
    using Branch.IH(1) [of b "Suc d"] Branch.prems depths by (simp add: place_settle settle_short)
  then have "add_all hl hb b (dfs d (Branch l r)) = place hb (?b @ [Some (tree_info hl hb l)]) (tree_info hl hb r) (Suc d)"
    using Branch.IH(2) [of "?b @ [Some (tree_info hl hb l)]" "Suc d"] Branch.prems depths by (simp add: add_all_append)
  also have "\<dots> = settle hb ?b (tree_info hl hb (Branch l r)) d"
    using settle_Some [of "?b @ [Some (tree_info hl hb l)]" d, OF _ _ combined] Branch.prems depths
    by (simp add: place_settle butlast_append)
  also have "\<dots> = settle hb b (tree_info hl hb (Branch l r)) d"
    using settle_pad [of b d] Branch.prems(1) by (cases "length b \<le> d") (simp_all add: not_le)
  finally show ?case using Branch.prems by (simp add: place_settle)
qed (simp_all add: leaf_info_def res_bind_Ok_right)

lemma add_all_tree:
  "depth_of t \<le> TAPROOT_CONTROL_MAX_NODE_COUNT \<Longrightarrow>
     add_all hl hb taproot_builder_new (dfs 0 t) = Ok [Some (tree_info hl hb t)]"
  by (simp add: taproot_builder_new_def add_all_dfs place_settle settle_short)

text \<open>Conversely, what is in a builder stands for trees: one for each of its nodes, and their leaves in order
  are the leaves that were added.\<close>

definition forest_dfs :: "script_tree option list \<Rightarrow> (nat \<times> tap_leaf) list" where
  "forest_dfs ts = concat (map (\<lambda>(i, t). case t of None \<Rightarrow> [] | Some t \<Rightarrow> dfs i t) (enumerate 0 ts))"

definition forest_ok :: "script_tree option list \<Rightarrow> bool" where
  "forest_ok ts \<longleftrightarrow> (\<forall>i < length ts. \<forall>t. ts ! i = Some t \<longrightarrow> i + depth_of t \<le> TAPROOT_CONTROL_MAX_NODE_COUNT)"

abbreviation forest_infos where "forest_infos hl hb \<equiv> map (map_option (tree_info hl hb))"

lemma forest_dfs_snoc:
  "forest_dfs (ts @ [t]) = forest_dfs ts @ (case t of None \<Rightarrow> [] | Some t \<Rightarrow> dfs (length ts) t)"
  by (simp add: forest_dfs_def enumerate_append_eq split: option.splits)

lemma forest_dfs_pad [simp]: "forest_dfs (ts @ replicate n None) = forest_dfs ts"
proof (induction n)
  case (Suc n)
  have "replicate (Suc n) (None :: script_tree option) = replicate n None @ [None]" by (simp add: replicate_append_same)
  then show ?case using Suc forest_dfs_snoc [of "ts @ replicate n None" None] by (simp del: replicate.simps)
qed simp

lemma forest_ok_snoc:
  "forest_ok (ts @ [t]) \<longleftrightarrow> forest_ok ts \<and> (\<forall>s. t = Some s \<longrightarrow> length ts + depth_of s \<le> TAPROOT_CONTROL_MAX_NODE_COUNT)"
  by (auto simp: forest_ok_def nth_append less_Suc_eq)

lemma forest_ok_pad [simp]: "forest_ok (ts @ replicate n None) \<longleftrightarrow> forest_ok ts"
proof (induction n)
  case (Suc n)
  have "replicate (Suc n) (None :: script_tree option) = replicate n None @ [None]" by (simp add: replicate_append_same)
  then show ?case using Suc forest_ok_snoc [of "ts @ replicate n None" None] by (simp del: replicate.simps)
qed simp

lemma settle_forest_here:
  assumes "forest_ok ts" "d + depth_of t \<le> TAPROOT_CONTROL_MAX_NODE_COUNT" "length ts \<le> d + 1"
    and "settle hb (forest_infos hl hb ts) (tree_info hl hb t) d = Ok b"
    and "length ts = d + 1 \<longrightarrow> last ts = None"
  shows "\<exists>ts' t'. b = forest_infos hl hb (ts' @ [Some t']) \<and> forest_ok (ts' @ [Some t'])
      \<and> forest_dfs (ts' @ [Some t']) = forest_dfs ts @ dfs d t"
proof (cases "length ts = d + 1")
  case True
  then obtain us where ts: "ts = us @ [None]" using assms(5) by (cases ts rule: rev_cases) auto
  then show ?thesis
    using True assms by (intro exI [of _ us] exI [of _ t]) (simp add: settle_None forest_ok_snoc forest_dfs_snoc)
next
  case False
  then show ?thesis
    using assms by (intro exI [of _ "ts @ replicate (d - length ts) None"] exI [of _ t])
      (simp add: settle_short forest_ok_snoc forest_dfs_snoc flip: append_assoc)
qed

lemma settle_forest:
  "forest_ok ts \<Longrightarrow> d + depth_of t \<le> TAPROOT_CONTROL_MAX_NODE_COUNT \<Longrightarrow> length ts \<le> d + 1
    \<Longrightarrow> settle hb (forest_infos hl hb ts) (tree_info hl hb t) d = Ok b
    \<Longrightarrow> \<exists>ts' t'. b = forest_infos hl hb (ts' @ [Some t']) \<and> forest_ok (ts' @ [Some t'])
      \<and> forest_dfs (ts' @ [Some t']) = forest_dfs ts @ dfs d t"
proof (induction d arbitrary: ts t)
  case 0
  have "last ts = None" if "length ts = 0 + 1"
    using that 0(4) by (cases ts rule: rev_cases) (auto simp: settle_def insert_loop.simps split: option.splits)
  then show ?case using settle_forest_here [OF 0] by blast
next
  case (Suc d)
  show ?case
  proof (cases "length ts = Suc d + 1 \<and> last ts \<noteq> None")
    case False
    then show ?thesis by (intro settle_forest_here [OF Suc.prems]) blast
  next
    case True
    then obtain us c where ts: "ts = us @ [Some c]" by (cases ts rule: rev_cases) auto
    have len: "length us = d + 1" using True ts by simp
    have depth: "d + depth_of (Branch c t) \<le> TAPROOT_CONTROL_MAX_NODE_COUNT"
      using Suc.prems(1,2) len by (simp add: ts forest_ok_snoc max_def)
    then have "node_combine hb (tree_info hl hb t) (tree_info hl hb c) = Ok (tree_info hl hb (Branch c t))"
      by (intro combine_trees) simp
    then have "settle hb (forest_infos hl hb us) (tree_info hl hb (Branch c t)) d = Ok b"
      using Suc.prems(4) settle_Some [of "forest_infos hl hb ts" d "tree_info hl hb c" hb "tree_info hl hb t"] len
      by (simp add: ts butlast_append)
    then show ?thesis
      using Suc.IH [of us "Branch c t"] Suc.prems(1) depth len by (simp add: ts forest_ok_snoc forest_dfs_snoc)
  qed
qed

lemma place_forest:
  assumes "forest_ok ts" "d < 256" "place hb (forest_infos hl hb ts) (leaf_info hl leaf) d = Ok b"
  shows "\<exists>ts' t'. b = forest_infos hl hb (ts' @ [Some t']) \<and> forest_ok (ts' @ [Some t'])
      \<and> forest_dfs (ts' @ [Some t']) = forest_dfs ts @ [(d, leaf)]"
proof -
  have d: "unat (word_of_nat d :: u8) = d" using assms(2) by (simp add: unat_of_nat)
  then have bounds: "d \<le> TAPROOT_CONTROL_MAX_NODE_COUNT" "length ts \<le> d + 1"
    using assms(3) by (auto simp: place_def builder_insert_def split: if_splits)
  obtain t where t: "tree_info hl hb t = leaf_info hl leaf" "depth_of t = 0" "dfs d t = [(d, leaf)]"
  proof (cases leaf)
    case (Script script ver)
    then show thesis using that [of "Leaf_script script ver"] by (simp add: leaf_info_def)
  next
    case (Hidden hash)
    then show thesis using that [of "Leaf_hidden hash"] by (simp add: leaf_info_def)
  qed
  have "settle hb (forest_infos hl hb ts) (tree_info hl hb t) d = Ok b"
    using assms(3) bounds t by (simp add: place_settle)
  from settle_forest [OF assms(1) _ bounds(2) this] bounds(1) t show ?thesis by simp
qed

lemma add_all_forest:
  "forest_ok ts \<Longrightarrow> \<forall>(d, leaf) \<in> set ds. d < 256 \<Longrightarrow> add_all hl hb (forest_infos hl hb ts) ds = Ok b \<Longrightarrow> ds \<noteq> []
    \<Longrightarrow> \<exists>ts' t'. b = forest_infos hl hb (ts' @ [Some t']) \<and> forest_ok (ts' @ [Some t'])
      \<and> forest_dfs (ts' @ [Some t']) = forest_dfs ts @ ds"
proof (induction ds arbitrary: ts)
  case (Cons x ds)
  obtain d leaf where x: "x = (d, leaf)" by (cases x)
  then obtain b' where b': "place hb (forest_infos hl hb ts) (leaf_info hl leaf) d = Ok b'" "add_all hl hb b' ds = Ok b"
    using Cons.prems(3) by (auto simp: res_bind_Ok_iff)
  moreover have "d < 256" using Cons.prems(2) x by simp
  ultimately obtain ts' t' where one: "b' = forest_infos hl hb (ts' @ [Some t'])" "forest_ok (ts' @ [Some t'])"
      "forest_dfs (ts' @ [Some t']) = forest_dfs ts @ [x]"
    using place_forest [OF Cons.prems(1)] x by blast
  show ?case
  proof (cases "ds = []")
    case True
    then show ?thesis using one b'(2) by auto
  next
    case False
    then show ?thesis using Cons.IH [OF one(2)] Cons.prems(2) b'(2) one by auto
  qed
qed simp

text \<open>
  Property C14. The builder and trees: adding leaves and hidden nodes one after the other ends in a builder that is
  finalizable with a node exactly when they are the leaves of a binary tree of height at most 128 in
  depth-first order, and then the node is the one that the tree computes to by joining its
  subtrees. Depths are those of a byte.
\<close>

theorem taproot_builder_dfs:
  assumes "\<forall>(d, leaf) \<in> set ds. d < 256"
  shows "(\<exists>b. add_all hl hb taproot_builder_new ds = Ok b \<and> is_finalizable b \<and> try_into_node_info b = Ok node)
    \<longleftrightarrow> (\<exists>t. depth_of t \<le> TAPROOT_CONTROL_MAX_NODE_COUNT \<and> ds = dfs 0 t \<and> node = tree_info hl hb t)"
proof
  assume "\<exists>t. depth_of t \<le> TAPROOT_CONTROL_MAX_NODE_COUNT \<and> ds = dfs 0 t \<and> node = tree_info hl hb t"
  then show "\<exists>b. add_all hl hb taproot_builder_new ds = Ok b \<and> is_finalizable b \<and> try_into_node_info b = Ok node"
    using add_all_tree by (fastforce simp: is_finalizable_def try_into_node_info_def)
next
  assume "\<exists>b. add_all hl hb taproot_builder_new ds = Ok b \<and> is_finalizable b \<and> try_into_node_info b = Ok node"
  then obtain b where b: "add_all hl hb (forest_infos hl hb []) ds = Ok b" "length b = 1" "try_into_node_info b = Ok node"
    by (auto simp: taproot_builder_new_def is_finalizable_def)
  then have "ds \<noteq> []" by auto
  moreover have "forest_ok []" by (simp add: forest_ok_def)
  ultimately obtain ts t where t: "b = forest_infos hl hb (ts @ [Some t])" "forest_ok (ts @ [Some t])"
      "forest_dfs (ts @ [Some t]) = forest_dfs [] @ ds"
    using add_all_forest assms b(1) by blast
  then have "ts = []" using b(2) by simp
  then have "depth_of t \<le> TAPROOT_CONTROL_MAX_NODE_COUNT" "ds = dfs 0 t" "node = tree_info hl hb t"
    using t b(3) by (simp_all add: forest_ok_def forest_dfs_def try_into_node_info_def)
  then show "\<exists>t. depth_of t \<le> TAPROOT_CONTROL_MAX_NODE_COUNT \<and> ds = dfs 0 t \<and> node = tree_info hl hb t" by blast
qed

text \<open>At two scripts, one of them behind its hash.\<close>

theorem taproot_builder_dfs_witness:
  "\<exists>b. add_all (take 32) (take 32) taproot_builder_new [(1, Script [1] TapScript), (1, Hidden [2])] = Ok b
      \<and> is_finalizable b
      \<and> try_into_node_info b = Ok (tree_info (take 32) (take 32) (Branch (Leaf_script [1] TapScript) (Leaf_hidden [2])))"
proof -
  let ?t = "Branch (Leaf_script [1] TapScript) (Leaf_hidden [2])" and ?ds = "[(1, Script [1] TapScript), (1, Hidden [2])] :: (nat \<times> tap_leaf) list"
  have "\<forall>(d, leaf) \<in> set ?ds. d < 256" by simp
  note build = taproot_builder_dfs [OF this, of "take 32" "take 32" "tree_info (take 32) (take 32) ?t"]
  show ?thesis
    by (rule build [THEN iffD2]) (intro exI [of _ ?t]; simp add: TAPROOT_CONTROL_MAX_NODE_COUNT_def)
qed

subsection \<open>Paths\<close>

text \<open>The loop of \<open>verify_taproot_commitment\<close>.\<close>

definition path_hash :: "(bytes \<Rightarrow> bytes) \<Rightarrow> bytes list \<Rightarrow> bytes \<Rightarrow> bytes" where
  "path_hash hb path curr_hash = fold (\<lambda>elem curr_hash. from_node_hashes hb curr_hash elem) path curr_hash"

lemma path_hash_simps [simp]:
  "path_hash hb [] x = x" "path_hash hb (path @ [e]) x = from_node_hashes hb (path_hash hb path x) e"
  by (simp_all add: path_hash_def)

lemma ni_leaves_join:
  "set (ni_leaves (join hb a b)) = extend_branch (ni_hash b) ` set (ni_leaves a) \<union> extend_branch (ni_hash a) ` set (ni_leaves b)"
  by (auto simp: join_def Let_def)

lemma ni_hash_join: "ni_hash (join hb a b) = from_node_hashes hb (ni_hash a) (ni_hash b)"
  by (simp add: join_def Let_def split: prod.splits)

lemma hidden_join: "has_hidden_nodes (join hb a b) \<longleftrightarrow> has_hidden_nodes a \<or> has_hidden_nodes b"
  by (auto simp: join_def Let_def)

lemma tree_path:
  "leaf \<in> set (ni_leaves (tree_info hl hb t)) \<Longrightarrow>
     path_hash hb (merkle_branch leaf) (leaf_node_hash hl leaf) = ni_hash (tree_info hl hb t)"
proof (induction t arbitrary: leaf)
  case (Branch l r)
  have "leaf \<in> extend_branch (ni_hash (tree_info hl hb l)) ` set (ni_leaves (tree_info hl hb r))
      \<union> extend_branch (ni_hash (tree_info hl hb r)) ` set (ni_leaves (tree_info hl hb l))"
    using Branch.prems by (simp add: ni_leaves_join)
  then show ?case using Branch.IH
    by (auto simp: extend_branch_def leaf_node_hash_def ni_hash_join from_node_hashes_commute)
qed (simp_all add: new_leaf_with_ver_def new_hidden_node_def leaf_node_new_script_def leaf_node_hash_def)

text \<open>What the leaves of a tree must satisfy.\<close>

fun script_tree_ok :: "script_tree \<Rightarrow> bool" where
  "script_tree_ok (Leaf_script script ver) \<longleftrightarrow> length script < 2 ^ 64 \<and> leaf_version_ok ver"
| "script_tree_ok (Leaf_hidden hash) \<longleftrightarrow> length hash = 32"
| "script_tree_ok (Branch l r) \<longleftrightarrow> script_tree_ok l \<and> script_tree_ok r"

text \<open>What is hashed for a tree, for its leaves and for its branches, and along a path. A collision is one
  between two of the leaves, between two of the branches, or of a leaf and a branch.\<close>

definition leaf_preimage :: "bytes \<Rightarrow> leaf_version \<Rightarrow> bytes" where
  "leaf_preimage script ver = leaf_version_to_consensus ver # compact_size_new (length script) @ script"

definition node_preimage :: "bytes \<Rightarrow> bytes \<Rightarrow> bytes" where
  "node_preimage a b = (if a < b then a @ b else b @ a)"

fun leaf_inputs :: "script_tree \<Rightarrow> bytes set" where
  "leaf_inputs (Leaf_script script ver) = {leaf_preimage script ver}"
| "leaf_inputs (Leaf_hidden hash) = {}"
| "leaf_inputs (Branch l r) = leaf_inputs l \<union> leaf_inputs r"

fun branch_inputs :: "(bytes \<Rightarrow> bytes) \<Rightarrow> (bytes \<Rightarrow> bytes) \<Rightarrow> script_tree \<Rightarrow> bytes set" where
  "branch_inputs hl hb (Branch l r) =
     insert (node_preimage (ni_hash (tree_info hl hb r)) (ni_hash (tree_info hl hb l)))
       (branch_inputs hl hb l \<union> branch_inputs hl hb r)"
| "branch_inputs hl hb t = {}"

fun path_inputs :: "(bytes \<Rightarrow> bytes) \<Rightarrow> bytes list \<Rightarrow> bytes \<Rightarrow> bytes set" where
  "path_inputs hb [] x = {}"
| "path_inputs hb (e # path) x = insert (node_preimage x e) (path_inputs hb path (from_node_hashes hb x e))"

lemma path_inputs_snoc:
  "path_inputs hb (path @ [e]) x = insert (node_preimage (path_hash hb path x) e) (path_inputs hb path x)"
  by (induction path arbitrary: x) (auto simp: path_hash_def)

definition taproot_collision :: "(bytes \<Rightarrow> bytes) \<Rightarrow> (bytes \<Rightarrow> bytes) \<Rightarrow> bytes set \<Rightarrow> bytes set \<Rightarrow> bool" where
  "taproot_collision hl hb L B \<longleftrightarrow> hash_collision hl L \<or> hash_collision hb B \<or> (\<exists>x \<in> L. \<exists>y \<in> B. hl x = hb y)"

lemma node_preimage_commute: "node_preimage a b = node_preimage b a"
  by (auto simp: node_preimage_def dest: antisym_conv3)

lemma hash_preimages: "tap_leaf_hash hl script ver = hl (leaf_preimage script ver)"
  "from_node_hashes hb a b = hb (node_preimage a b)"
  by (simp_all add: tap_leaf_hash_def leaf_preimage_def from_node_hashes_def combine_node_hashes_def node_preimage_def)

definition hashes_32 :: "(bytes \<Rightarrow> bytes) \<Rightarrow> bool" where
  "hashes_32 h \<longleftrightarrow> (\<forall>x. length (h x) = 32)"

lemma tap_leaf_hash_inj:
  assumes "tap_leaf_hash hl script ver = tap_leaf_hash hl script' ver'" "\<not> hash_collision hl L"
    and "leaf_preimage script ver \<in> L" "leaf_preimage script' ver' \<in> L"
    and "leaf_version_ok ver" "leaf_version_ok ver'" "length script < 2 ^ 64" "length script' < 2 ^ 64"
  shows "script = script' \<and> ver = ver'"
proof -
  have eq: "leaf_version_to_consensus ver = leaf_version_to_consensus ver'"
    "compact_size_new (length script) @ script = compact_size_new (length script') @ script'"
    using assms(1-4) unfolding hash_preimages hash_collision_def leaf_preimage_def by blast+
  then have "ver = ver'" using assms(5,6) by (metis leaf_version_from_consensus_iff res.inject(1))
  then show ?thesis using eq(2) by (auto simp: compact_size_new_def dest: compact_size_encode_inj)
qed

lemma from_node_hashes_inj:
  assumes "from_node_hashes hb a b = from_node_hashes hb c d" "\<not> hash_collision hb B"
    and "node_preimage a b \<in> B" "node_preimage c d \<in> B"
    and "length a = n" "length b = n" "length c = n" "length d = n"
  shows "a = c \<and> b = d \<or> a = d \<and> b = c"
proof -
  have "node_preimage a b = node_preimage c d"
    using assms(1-4) unfolding hash_preimages hash_collision_def by blast
  then show ?thesis using assms(5-) by (auto simp: node_preimage_def split: if_splits)
qed

lemma length_tree_hash:
  "hashes_32 hl \<Longrightarrow> hashes_32 hb \<Longrightarrow> script_tree_ok t \<Longrightarrow> length (ni_hash (tree_info hl hb t)) = 32"
  by (cases t) (auto simp: hashes_32_def new_leaf_with_ver_def new_hidden_node_def tap_leaf_hash_def ni_hash_join
      from_node_hashes_def combine_node_hashes_def)

lemma length_path_hash:
  "hashes_32 hb \<Longrightarrow> length x = 32 \<Longrightarrow> length (path_hash hb path x) = 32"
  by (induction path rule: rev_induct) (simp_all add: hashes_32_def from_node_hashes_def combine_node_hashes_def)

text \<open>
  The root of a script tree commits to its scripts: a script with a version and a path of hashes that
  leads to the root of a tree without hidden nodes is a leaf of the tree with exactly that path, unless
  something of what is hashed for the tree and for the path collides.
\<close>

lemma tree_commits_path:
  assumes "hashes_32 hl" "hashes_32 hb" "\<not> taproot_collision hl hb L B"
    and "length script < 2 ^ 64" "leaf_version_ok ver" "leaf_preimage script ver \<in> L"
  shows "script_tree_ok t \<Longrightarrow> \<not> has_hidden_nodes (tree_info hl hb t) \<Longrightarrow> list_all (\<lambda>e. length e = 32) path
    \<Longrightarrow> path_hash hb path (tap_leaf_hash hl script ver) = ni_hash (tree_info hl hb t)
    \<Longrightarrow> leaf_inputs t \<subseteq> L \<Longrightarrow> branch_inputs hl hb t \<subseteq> B \<Longrightarrow> path_inputs hb path (tap_leaf_hash hl script ver) \<subseteq> B
    \<Longrightarrow> \<lparr>ln_leaf = Script script ver, merkle_branch = path\<rparr> \<in> set (ni_leaves (tree_info hl hb t))"
proof (induction t arbitrary: path)
  case (Leaf_script script' ver')
  have no: "\<not> hash_collision hl L" using assms(3) by (simp add: taproot_collision_def)
  show ?case
  proof (cases path rule: rev_cases)
    case Nil
    then show ?thesis
      using Leaf_script tap_leaf_hash_inj [OF _ no assms(6) _ assms(5) _ assms(4)]
      by (simp add: new_leaf_with_ver_def leaf_node_new_script_def)
  next
    case (snoc p e)
    then have "hl (leaf_preimage script' ver') = hb (node_preimage (path_hash hb p (tap_leaf_hash hl script ver)) e)"
        "leaf_preimage script' ver' \<in> L" "node_preimage (path_hash hb p (tap_leaf_hash hl script ver)) e \<in> B"
      using Leaf_script.prems(4,5,7) by (simp_all add: new_leaf_with_ver_def path_inputs_snoc hash_preimages)
    then show ?thesis using assms(3) unfolding taproot_collision_def by blast
  qed
next
  case (Leaf_hidden hash)
  then show ?case by (simp add: new_hidden_node_def)
next
  case (Branch l r)
  let ?l = "tree_info hl hb l" and ?r = "tree_info hl hb r"
  have no: "\<not> hash_collision hb B" using assms(3) by (simp add: taproot_collision_def)
  have inputs: "leaf_inputs l \<subseteq> L" "leaf_inputs r \<subseteq> L" "branch_inputs hl hb l \<subseteq> B" "branch_inputs hl hb r \<subseteq> B"
      "node_preimage (ni_hash ?r) (ni_hash ?l) \<in> B"
    using Branch.prems(5,6) by simp_all
  show ?case
  proof (cases path rule: rev_cases)
    case Nil
    then have "hl (leaf_preimage script ver) = hb (node_preimage (ni_hash ?r) (ni_hash ?l))"
      using Branch.prems(4) by (simp add: ni_hash_join hash_preimages)
    then show ?thesis using inputs(5) assms(3,6) unfolding taproot_collision_def by blast
  next
    case (snoc p e)
    let ?x = "path_hash hb p (tap_leaf_hash hl script ver)"
    have len: "length ?x = 32" "length e = 32" "length (ni_hash ?r) = 32" "length (ni_hash ?l) = 32"
      using length_path_hash [OF assms(2)] assms(1) length_tree_hash [OF assms(1,2)] Branch.prems(1,3) snoc
      by (simp_all add: hashes_32_def tap_leaf_hash_def)
    have p: "node_preimage ?x e \<in> B" "path_inputs hb p (tap_leaf_hash hl script ver) \<subseteq> B"
      using Branch.prems(7) snoc by (simp_all add: path_inputs_snoc)
    have "from_node_hashes hb ?x e = from_node_hashes hb (ni_hash ?r) (ni_hash ?l)"
      using Branch.prems(4) snoc by (simp add: ni_hash_join)
    from from_node_hashes_inj [OF this no p(1) inputs(5) len]
    consider "?x = ni_hash ?r" "e = ni_hash ?l" | "?x = ni_hash ?l" "e = ni_hash ?r" by blast
    then show ?thesis
    proof cases
      case 1
      then have "\<lparr>ln_leaf = Script script ver, merkle_branch = p\<rparr> \<in> set (ni_leaves ?r)"
        using Branch.IH(2) [of p] Branch.prems(1-3) snoc inputs p by (simp add: hidden_join)
      then show ?thesis using 1 snoc unfolding tree_info.simps ni_leaves_join
        by (intro UnI1 image_eqI) (auto simp: extend_branch_def)
    next
      case 2
      then have "\<lparr>ln_leaf = Script script ver, merkle_branch = p\<rparr> \<in> set (ni_leaves ?l)"
        using Branch.IH(1) [of p] Branch.prems(1-3) snoc inputs p by (simp add: hidden_join)
      then show ?thesis using 2 snoc unfolding tree_info.simps ni_leaves_join
        by (intro UnI2 image_eqI) (auto simp: extend_branch_def)
    qed
  qed
qed

lemma tree_commits:
  assumes "hashes_32 hl" "hashes_32 hb" "script_tree_ok t" "\<not> has_hidden_nodes (tree_info hl hb t)"
    and "length script < 2 ^ 64" "leaf_version_ok ver" "list_all (\<lambda>e. length e = 32) path"
    and "path_hash hb path (tap_leaf_hash hl script ver) = ni_hash (tree_info hl hb t)"
  shows "\<lparr>ln_leaf = Script script ver, merkle_branch = path\<rparr> \<in> set (ni_leaves (tree_info hl hb t))
    \<or> taproot_collision hl hb (insert (leaf_preimage script ver) (leaf_inputs t))
        (branch_inputs hl hb t \<union> path_inputs hb path (tap_leaf_hash hl script ver))"
proof (rule disjCI)
  assume "\<not> taproot_collision hl hb (insert (leaf_preimage script ver) (leaf_inputs t))
        (branch_inputs hl hb t \<union> path_inputs hb path (tap_leaf_hash hl script ver))"
  from tree_commits_path [OF assms(1,2) this assms(5,6) insertI1 assms(3,4,7,8)]
  show "\<lparr>ln_leaf = Script script ver, merkle_branch = path\<rparr> \<in> set (ni_leaves (tree_info hl hb t))" by blast
qed

end
