(* ===== verification/Taproot_Spend.thy ===== *)
theory Taproot_Spend
  imports Taproot_Tree
begin

section \<open>Taproot outputs and control blocks\<close>

text \<open>
  \<open>TaprootSpendInfo\<close> and \<open>ControlBlock\<close> of \<open>bitcoin/src/taproot/mod.rs\<close>, with the merkle branches of
  \<open>taproot/merkle_branch\<close> and the tweak of \<open>taproot-primitives/src/lib.rs\<close>. The operations of libsecp256k1
  are the fields of \<open>secp\<close>; what they promise is \<open>secp_ok\<close>. The theorems say that the control blocks that
  are made verify, that what verifies is a script of the tree, and that control blocks survive serialisation.
\<close>

subsection \<open>Keys\<close>

text \<open>Which byte strings are scalars or x coordinates, the sum of a key and a multiple of the generator (the x
  coordinate and whether y is odd), and the check of such a sum.\<close>

record secp =
  scalar_from_be_bytes :: "bytes \<Rightarrow> bool"
  x_coordinate :: "bytes \<Rightarrow> bool"
  secp_add_tweak :: "bytes \<Rightarrow> bytes \<Rightarrow> (bytes \<times> bool) option"
  secp_tweak_add_check :: "bytes \<Rightarrow> bytes \<Rightarrow> bool \<Rightarrow> bytes \<Rightarrow> bool"

definition secp_ok :: "secp \<Rightarrow> bool" where
  "secp_ok sp \<longleftrightarrow> (\<forall>key tweak q par. secp_add_tweak sp key tweak = Some (q, par) \<longrightarrow> secp_tweak_add_check sp key q par tweak)"

definition secp_binding :: "secp \<Rightarrow> bool" where
  "secp_binding sp \<longleftrightarrow> (\<forall>key q par tweak tweak'. secp_tweak_add_check sp key q par tweak \<longrightarrow>
     secp_tweak_add_check sp key q par tweak' \<longrightarrow> tweak = tweak')"

record x_only_public_key =
  xk_inner :: bytes
  xk_odd :: bool

definition with_parity :: "x_only_public_key \<Rightarrow> bool \<Rightarrow> x_only_public_key" where
  "with_parity key par = key\<lparr>xk_odd := par\<rparr>"

definition tweak_add_check :: "secp \<Rightarrow> x_only_public_key \<Rightarrow> x_only_public_key \<Rightarrow> bytes \<Rightarrow> bool" where
  "tweak_add_check sp key tweaked_key tweak =
     secp_tweak_add_check sp (xk_inner key) (xk_inner tweaked_key) (xk_odd tweaked_key) tweak"

definition add_tweak :: "secp \<Rightarrow> x_only_public_key \<Rightarrow> bytes \<Rightarrow> x_only_public_key option" where
  "add_tweak sp key tweak =
     (case secp_add_tweak sp (xk_inner key) tweak of
        Some (xonly, par) \<Rightarrow> Some \<lparr>xk_inner = xonly, xk_odd = par\<rparr> | None \<Rightarrow> None)"

definition x_only_from_byte_array :: "secp \<Rightarrow> bytes \<Rightarrow> (unit, x_only_public_key) res" where
  "x_only_from_byte_array sp bs = (if x_coordinate sp bs then Ok \<lparr>xk_inner = bs, xk_odd = False\<rparr> else Err ())"

definition from_key_and_merkle_root :: "(bytes \<Rightarrow> bytes) \<Rightarrow> x_only_public_key \<Rightarrow> bytes option \<Rightarrow> bytes" where
  "from_key_and_merkle_root ht internal_key root =
     ht (xk_inner internal_key @ (case root of Some h \<Rightarrow> h | None \<Rightarrow> []))"

definition to_scalar :: "secp \<Rightarrow> bytes \<Rightarrow> ('e, bytes) res" where
  "to_scalar sp h = (if scalar_from_be_bytes sp h then Ok h else Panic)"

definition tap_tweak :: "secp \<Rightarrow> (bytes \<Rightarrow> bytes) \<Rightarrow> x_only_public_key \<Rightarrow> bytes option \<Rightarrow> ('e, x_only_public_key) res" where
  "tap_tweak sp ht key root =
     res_bind (to_scalar sp (from_key_and_merkle_root ht key root)) (\<lambda>tweak.
       case add_tweak sp key tweak of Some output_key \<Rightarrow> Ok output_key | None \<Rightarrow> Panic)"

subsection \<open>Spend infos\<close>

text \<open>The map from scripts to sets of branches; a \<open>BTreeSet\<close> is the sorted list of its elements.\<close>

type_synonym script_merkle_proof_map = "bytes \<times> leaf_version \<Rightarrow> bytes list list option"

record taproot_spend_info =
  internal_key :: x_only_public_key
  spend_root :: "bytes option"
  output_key_odd :: bool
  output_key :: x_only_public_key
  script_map :: script_merkle_proof_map

definition new_key_spend ::
  "secp \<Rightarrow> (bytes \<Rightarrow> bytes) \<Rightarrow> x_only_public_key \<Rightarrow> bytes option \<Rightarrow> ('e, taproot_spend_info) res" where
  "new_key_spend sp ht key root = res_bind (tap_tweak sp ht key root) (\<lambda>out.
     Ok \<lparr>internal_key = key, spend_root = root, output_key_odd = xk_odd out, output_key = out, script_map = (\<lambda>_. None)\<rparr>)"

definition map_leaf :: "leaf_node \<Rightarrow> script_merkle_proof_map \<Rightarrow> script_merkle_proof_map" where
  "map_leaf leaf m =
     (case ln_leaf leaf of
        Hidden _ \<Rightarrow> m
      | Script script ver \<Rightarrow>
          (case m (script, ver) of
             None \<Rightarrow> m((script, ver) \<mapsto> [merkle_branch leaf])
           | Some branches \<Rightarrow> m((script, ver) \<mapsto> insort_insert (merkle_branch leaf) branches)))"

definition from_node_info ::
  "secp \<Rightarrow> (bytes \<Rightarrow> bytes) \<Rightarrow> x_only_public_key \<Rightarrow> node_info \<Rightarrow> ('e, taproot_spend_info) res" where
  "from_node_info sp ht key node =
     res_bind (new_key_spend sp ht key (Some (ni_hash node))) (\<lambda>info.
       Ok (info\<lparr>script_map := fold map_leaf (ni_leaves node) (script_map info)\<rparr>))"

definition builder_finalize ::
  "secp \<Rightarrow> (bytes \<Rightarrow> bytes) \<Rightarrow> taproot_builder \<Rightarrow> x_only_public_key \<Rightarrow> (taproot_builder, taproot_spend_info) res" where
  "builder_finalize sp ht b key =
     (if length b = 0 then new_key_spend sp ht key None
      else if length b = 1 then (case last b of Some node \<Rightarrow> from_node_info sp ht key node | None \<Rightarrow> Panic)
      else Err b)"

subsection \<open>Control blocks\<close>

record control_block =
  cb_leaf_version :: leaf_version
  cb_output_key_odd :: bool
  cb_internal_key :: x_only_public_key
  cb_merkle_branch :: "bytes list"

text \<open>\<open>min_by\<close> on the lengths: the first of the shortest.\<close>

fun shortest :: "bytes list list \<Rightarrow> bytes list option" where
  "shortest [] = None"
| "shortest (x # xs) = Some (fold (\<lambda>y best. if length y < length best then y else best) xs x)"

definition spend_control_block :: "taproot_spend_info \<Rightarrow> bytes \<times> leaf_version \<Rightarrow> (unit, control_block option) res" where
  "spend_control_block info script_ver =
     (case script_map info script_ver of
        None \<Rightarrow> Ok None
      | Some branches \<Rightarrow>
          (case shortest branches of
             None \<Rightarrow> Panic
           | Some branch \<Rightarrow> Ok (Some \<lparr>cb_leaf_version = snd script_ver, cb_output_key_odd = output_key_odd info,
               cb_internal_key = internal_key info, cb_merkle_branch = branch\<rparr>)))"

definition verify_taproot_commitment ::
  "secp \<Rightarrow> (bytes \<Rightarrow> bytes) \<Rightarrow> (bytes \<Rightarrow> bytes) \<Rightarrow> (bytes \<Rightarrow> bytes) \<Rightarrow> control_block \<Rightarrow> x_only_public_key \<Rightarrow> bytes
     \<Rightarrow> (unit, bool) res" where
  "verify_taproot_commitment sp hl hb ht cb out script =
     (let curr_hash = fold (\<lambda>elem curr_hash. from_node_hashes hb curr_hash elem) (cb_merkle_branch cb)
            (tap_leaf_hash hl script (cb_leaf_version cb)) in
      res_bind (to_scalar sp (from_key_and_merkle_root ht (cb_internal_key cb) (Some curr_hash))) (\<lambda>tweak.
        Ok (tweak_add_check sp (cb_internal_key cb) (with_parity out (cb_output_key_odd cb)) tweak)))"

subsection \<open>What is made verifies\<close>

lemma shortest:
  assumes "shortest xs = Some x"
  shows "x \<in> set xs \<and> (\<forall>y \<in> set xs. length x \<le> length y)"
proof -
  obtain z zs where xs: "xs = z # zs" using assms by (cases xs) auto
  let ?f = "\<lambda>y best. if length y < length best then y else best"
  have "fold ?f ys b \<in> set (b # ys) \<and> (\<forall>y \<in> set (b # ys). length (fold ?f ys b) \<le> length y)" for ys and b :: "bytes list"
    by (induction ys arbitrary: b) (auto, (meson le_trans less_imp_le not_less)+)
  then show ?thesis using assms xs by fastforce
qed

lemma shortest_None: "shortest xs = None \<longleftrightarrow> xs = []"
  by (cases xs) simp_all

text \<open>The script map holds for every script the branches of its leaves.\<close>

definition branches_of :: "leaf_node list \<Rightarrow> bytes \<times> leaf_version \<Rightarrow> bytes list set" where
  "branches_of leaves sv = {b. \<lparr>ln_leaf = Script (fst sv) (snd sv), merkle_branch = b\<rparr> \<in> set leaves}"

definition map_holds :: "script_merkle_proof_map \<Rightarrow> leaf_node list \<Rightarrow> bool" where
  "map_holds m leaves \<longleftrightarrow> (\<forall>sv. case m sv of None \<Rightarrow> branches_of leaves sv = {}
     | Some bs \<Rightarrow> bs \<noteq> [] \<and> set bs = branches_of leaves sv)"

lemma map_leaf_holds: "map_holds m leaves \<Longrightarrow> map_holds (map_leaf leaf m) (leaves @ [leaf])"
proof (cases "ln_leaf leaf")
  case (Script script ver)
  assume m: "map_holds m leaves"
  have here: "branches_of (leaves @ [leaf]) sv =
      (if sv = (script, ver) then insert (merkle_branch leaf) (branches_of leaves sv) else branches_of leaves sv)" for sv
    using Script by (cases leaf; cases sv) (auto simp: branches_of_def)
  have m': "map_leaf leaf m = m((script, ver) \<mapsto>
      (case m (script, ver) of None \<Rightarrow> [merkle_branch leaf] | Some bs \<Rightarrow> insort_insert (merkle_branch leaf) bs))"
    using Script by (simp add: map_leaf_def split: option.splits)
  have "insort_insert x bs \<noteq> []" for x and bs :: "bytes list list"
    by (metis insertI1 set_insort_insert empty_iff empty_set)
  note ne = this
  have "case m' sv of None \<Rightarrow> branches_of (leaves @ [leaf]) sv = {} | Some bs \<Rightarrow> bs \<noteq> [] \<and> set bs = branches_of (leaves @ [leaf]) sv"
    if "m' = map_leaf leaf m" for sv m'
  proof (cases "sv = (script, ver)")
    case True
    have "case m sv of None \<Rightarrow> branches_of leaves sv = {} | Some bs \<Rightarrow> bs \<noteq> [] \<and> set bs = branches_of leaves sv"
      using m [unfolded map_holds_def, rule_format, of sv] .
    then show ?thesis using True ne unfolding that m' here
      by (cases "m (script, ver)") (simp_all add: set_insort_insert)
  next
    case False
    then show ?thesis using m [unfolded map_holds_def, rule_format, of sv] unfolding that m' here by simp
  qed
  then show ?thesis by (simp add: map_holds_def)
next
  case (Hidden hash)
  assume m: "map_holds m leaves"
  have "branches_of (leaves @ [leaf]) = branches_of leaves"
    using Hidden by (cases leaf) (auto simp: branches_of_def fun_eq_iff)
  moreover have "map_leaf leaf m = m" using Hidden by (simp add: map_leaf_def)
  ultimately show ?thesis using m by (simp add: map_holds_def cong: option.case_cong)
qed

lemma map_leaves_hold: "map_holds m leaves \<Longrightarrow> map_holds (fold map_leaf ls m) (leaves @ ls)"
proof (induction ls arbitrary: m leaves)
  case (Cons l ls)
  then show ?case using Cons.IH [OF map_leaf_holds [OF Cons.prems, of l]] by simp
qed simp

lemma from_node_info_holds:
  assumes "from_node_info sp ht key node = Ok info"
  shows "map_holds (script_map info) (ni_leaves node) \<and> internal_key info = key \<and> spend_root info = Some (ni_hash node)
    \<and> output_key_odd info = xk_odd (output_key info)
    \<and> tap_tweak sp ht key (Some (ni_hash node)) = (Ok (output_key info) :: (unit, x_only_public_key) res)"
proof -
  have "map_holds (\<lambda>_. None) []" by (simp add: map_holds_def branches_of_def)
  from map_leaves_hold [OF this, of "ni_leaves node"] show ?thesis
    using assms by (auto simp: from_node_info_def new_key_spend_def tap_tweak_def to_scalar_def res_bind_Ok_iff
        split: if_splits option.splits)
qed

lemma tap_tweak_checks:
  assumes "tap_tweak sp ht key root = Ok q" "secp_ok sp"
  shows "scalar_from_be_bytes sp (from_key_and_merkle_root ht key root)"
    "secp_tweak_add_check sp (xk_inner key) (xk_inner q) (xk_odd q) (from_key_and_merkle_root ht key root)"
proof -
  obtain x par where "secp_add_tweak sp (xk_inner key) (from_key_and_merkle_root ht key root) = Some (x, par)"
      "q = \<lparr>xk_inner = x, xk_odd = par\<rparr>" "scalar_from_be_bytes sp (from_key_and_merkle_root ht key root)"
    using assms(1) by (auto simp: tap_tweak_def to_scalar_def res_bind_Ok_iff add_tweak_def split: if_splits option.splits)
  then show "scalar_from_be_bytes sp (from_key_and_merkle_root ht key root)"
    "secp_tweak_add_check sp (xk_inner key) (xk_inner q) (xk_odd q) (from_key_and_merkle_root ht key root)"
    using assms(2) unfolding secp_ok_def by auto
qed

text \<open>
  Property C12. What is made verifies: for a tree of height at most 128, the builder that was given its leaves is
  finalized, and for every script and version the control block of the resulting spend info exists
  exactly if the script is a leaf of the tree with that version; then its branch is a shortest one of the
  script's, and the commitment verifies against the output key.
\<close>

theorem taproot_spend_verifies:
  assumes "secp_ok sp" "depth_of t \<le> TAPROOT_CONTROL_MAX_NODE_COUNT"
    and "res_bind (map_err (\<lambda>_. taproot_builder_new) (add_all hl hb taproot_builder_new (dfs 0 t)))
           (\<lambda>b. builder_finalize sp ht b key) = Ok info"
  shows "case spend_control_block info (script, ver) of
      Ok None \<Rightarrow> \<forall>leaf \<in> set (ni_leaves (tree_info hl hb t)). ln_leaf leaf \<noteq> Script script ver
    | Ok (Some cb) \<Rightarrow> cb_leaf_version cb = ver \<and> cb_internal_key cb = key
        \<and> \<lparr>ln_leaf = Script script ver, merkle_branch = cb_merkle_branch cb\<rparr> \<in> set (ni_leaves (tree_info hl hb t))
        \<and> (\<forall>leaf \<in> set (ni_leaves (tree_info hl hb t)). ln_leaf leaf = Script script ver \<longrightarrow>
             length (cb_merkle_branch cb) \<le> length (merkle_branch leaf))
        \<and> verify_taproot_commitment sp hl hb ht cb (output_key info) script = Ok True
    | _ \<Rightarrow> False"
proof -
  let ?leaves = "ni_leaves (tree_info hl hb t)"
  have "from_node_info sp ht key (tree_info hl hb t) = (Ok info :: (taproot_builder, taproot_spend_info) res)"
    using assms(3) by (simp add: add_all_tree [OF assms(2)] builder_finalize_def)
  from from_node_info_holds [OF this]
  have info: "map_holds (script_map info) ?leaves" "internal_key info = key" "output_key_odd info = xk_odd (output_key info)"
      "tap_tweak sp ht key (Some (ni_hash (tree_info hl hb t))) = (Ok (output_key info) :: (unit, x_only_public_key) res)"
    by blast+
  have holds: "case script_map info (script, ver) of None \<Rightarrow> branches_of ?leaves (script, ver) = {}
      | Some bs \<Rightarrow> bs \<noteq> [] \<and> set bs = branches_of ?leaves (script, ver)"
    using info(1) by (simp add: map_holds_def)
  have leaf: "\<lparr>ln_leaf = Script script ver, merkle_branch = merkle_branch leaf\<rparr> = leaf"
    if "ln_leaf leaf = Script script ver" for leaf :: leaf_node
    using that by (cases leaf) simp
  show ?thesis
  proof (cases "script_map info (script, ver)")
    case None
    then have "branches_of ?leaves (script, ver) = {}" using holds by simp
    then have "ln_leaf leaf \<noteq> Script script ver" if "leaf \<in> set ?leaves" for leaf
      using leaf that by (metis (mono_tags, lifting) branches_of_def empty_Collect_eq fst_conv snd_conv)
    then show ?thesis using None by (simp add: spend_control_block_def)
  next
    case (Some bs)
    then have bs: "bs \<noteq> []" "set bs = branches_of ?leaves (script, ver)" using holds by simp_all
    then obtain br where br: "shortest bs = Some br" using shortest_None by blast
    have mem: "\<lparr>ln_leaf = Script script ver, merkle_branch = br\<rparr> \<in> set ?leaves"
      using shortest [OF br] bs(2) by (auto simp: branches_of_def)
    have short: "length br \<le> length (merkle_branch leaf)" if "leaf \<in> set ?leaves" "ln_leaf leaf = Script script ver" for leaf
    proof -
      have "merkle_branch leaf \<in> set bs" using leaf [OF that(2)] that(1) bs(2) by (simp add: branches_of_def)
      then show ?thesis using shortest [OF br] by blast
    qed
    have "path_hash hb br (tap_leaf_hash hl script ver) = ni_hash (tree_info hl hb t)"
      using tree_path [OF mem] by (simp add: leaf_node_hash_def)
    then have "verify_taproot_commitment sp hl hb ht \<lparr>cb_leaf_version = ver, cb_output_key_odd = output_key_odd info,
        cb_internal_key = key, cb_merkle_branch = br\<rparr> (output_key info) script = Ok True"
      using tap_tweak_checks [OF info(4) assms(1)] info(3)
      by (simp add: verify_taproot_commitment_def path_hash_def [symmetric] to_scalar_def tweak_add_check_def with_parity_def)
    then show ?thesis using Some br mem short info(2) by (simp add: spend_control_block_def)
  qed
qed

text \<open>Operations that keep the promises, hash functions, and a tree of two scripts.\<close>

definition sample_secp :: secp where
  "sample_secp = \<lparr>scalar_from_be_bytes = (\<lambda>bs. length bs = 32), x_coordinate = (\<lambda>bs. length bs = 32),
     secp_add_tweak = (\<lambda>key tweak. Some (tweak, False)), secp_tweak_add_check = (\<lambda>key q par tweak. q = tweak \<and> \<not> par)\<rparr>"

definition sample_hash :: "u8 \<Rightarrow> bytes \<Rightarrow> bytes" where
  "sample_hash tag bs = take 32 (tag # bs @ replicate 31 0)"

definition sample_tree :: script_tree where
  "sample_tree = Branch (Leaf_script [1] TapScript) (Leaf_script [2] TapScript)"

definition sample_key :: x_only_public_key where
  "sample_key = \<lparr>xk_inner = replicate 32 7, xk_odd = False\<rparr>"

lemma sample_ok:
  "secp_ok sample_secp" "secp_binding sample_secp" "hashes_32 (sample_hash tag)" "script_tree_ok sample_tree"
  "\<not> has_hidden_nodes (tree_info (sample_hash 1) (sample_hash 2) sample_tree)"
  "depth_of sample_tree \<le> TAPROOT_CONTROL_MAX_NODE_COUNT"
  by (auto simp: secp_ok_def secp_binding_def sample_secp_def hashes_32_def sample_hash_def sample_tree_def
      leaf_version_ok_def join_def new_leaf_with_ver_def TAPROOT_CONTROL_MAX_NODE_COUNT_def Let_def)

lemma sample_finalize: "\<exists>info. from_node_info sample_secp (sample_hash 3) sample_key node = Ok info"
  by (simp add: from_node_info_def new_key_spend_def tap_tweak_def to_scalar_def add_tweak_def sample_secp_def
      from_key_and_merkle_root_def sample_hash_def)

theorem taproot_spend_verifies_witness:
  "\<exists>info. res_bind (map_err (\<lambda>_. taproot_builder_new)
        (add_all (sample_hash 1) (sample_hash 2) taproot_builder_new (dfs 0 sample_tree)))
      (\<lambda>b. builder_finalize sample_secp (sample_hash 3) b sample_key) = Ok info
    \<and> (case spend_control_block info ([1], TapScript) of
        Ok (Some cb) \<Rightarrow> verify_taproot_commitment sample_secp (sample_hash 1) (sample_hash 2) (sample_hash 3) cb
          (output_key info) [1] = Ok True
      | _ \<Rightarrow> False)"
proof -
  have "\<exists>info. res_bind (map_err (\<lambda>_. taproot_builder_new)
        (add_all (sample_hash 1) (sample_hash 2) taproot_builder_new (dfs 0 sample_tree)))
      (\<lambda>b. builder_finalize sample_secp (sample_hash 3) b sample_key) = Ok info"
    using sample_finalize by (simp add: add_all_tree [OF sample_ok(6)] builder_finalize_def)
  then obtain info where info: "res_bind (map_err (\<lambda>_. taproot_builder_new)
        (add_all (sample_hash 1) (sample_hash 2) taproot_builder_new (dfs 0 sample_tree)))
      (\<lambda>b. builder_finalize sample_secp (sample_hash 3) b sample_key) = Ok info" ..
  have "\<exists>leaf \<in> set (ni_leaves (tree_info (sample_hash 1) (sample_hash 2) sample_tree)). ln_leaf leaf = Script [1] TapScript"
    by (auto simp: sample_tree_def join_def new_leaf_with_ver_def leaf_node_new_script_def extend_branch_def Let_def)
  then show ?thesis
    using info taproot_spend_verifies [OF sample_ok(1,6) info, of "[1]" TapScript]
    by (auto split: res.splits option.splits)
qed

text \<open>
  Property C29. What verifies is a script of the tree: a control block with the internal key and the parity of a spend info
  whose tree has no hidden nodes verifies a script against the output key only if the script is a leaf of the
  tree with the version and the branch of the control block, unless something of what is hashed for the tree
  and for the verification collides, in one of the tagged hashes or between leaves and branches.
\<close>

theorem taproot_spend_binds:
  assumes "secp_ok sp" "secp_binding sp" "hashes_32 hl" "hashes_32 hb"
    and "script_tree_ok t" "\<not> has_hidden_nodes (tree_info hl hb t)"
    and "from_node_info sp ht key (tree_info hl hb t) = Ok info"
    and "length script < 2 ^ 64" "leaf_version_ok (cb_leaf_version cb)" "list_all (\<lambda>e. length e = 32) (cb_merkle_branch cb)"
    and "xk_inner (cb_internal_key cb) = xk_inner key" "cb_output_key_odd cb = output_key_odd info"
    and "verify_taproot_commitment sp hl hb ht cb (output_key info) script = Ok True"
  shows "\<lparr>ln_leaf = Script script (cb_leaf_version cb), merkle_branch = cb_merkle_branch cb\<rparr> \<in> set (ni_leaves (tree_info hl hb t))
    \<or> taproot_collision hl hb (insert (leaf_preimage script (cb_leaf_version cb)) (leaf_inputs t))
        (branch_inputs hl hb t \<union> path_inputs hb (cb_merkle_branch cb) (tap_leaf_hash hl script (cb_leaf_version cb)))
    \<or> hash_collision ht {xk_inner key @ ni_hash (tree_info hl hb t),
        xk_inner key @ path_hash hb (cb_merkle_branch cb) (tap_leaf_hash hl script (cb_leaf_version cb))}"
proof -
  let ?root = "ni_hash (tree_info hl hb t)"
  let ?curr = "path_hash hb (cb_merkle_branch cb) (tap_leaf_hash hl script (cb_leaf_version cb))"
  from from_node_info_holds [OF assms(7)]
  have info: "output_key_odd info = xk_odd (output_key info)"
      "tap_tweak sp ht key (Some ?root) = (Ok (output_key info) :: (unit, x_only_public_key) res)" by blast+
  have "secp_tweak_add_check sp (xk_inner key) (xk_inner (output_key info)) (xk_odd (output_key info)) (ht (xk_inner key @ ?root))"
    using tap_tweak_checks [OF info(2) assms(1)] by (simp add: from_key_and_merkle_root_def)
  moreover have "secp_tweak_add_check sp (xk_inner key) (xk_inner (output_key info)) (xk_odd (output_key info)) (ht (xk_inner key @ ?curr))"
    using assms(11-13) info(1) by (auto simp: verify_taproot_commitment_def path_hash_def [symmetric] res_bind_Ok_iff Let_def
        to_scalar_def tweak_add_check_def with_parity_def from_key_and_merkle_root_def split: if_splits)
  ultimately have "ht (xk_inner key @ ?root) = ht (xk_inner key @ ?curr)"
    using assms(2) unfolding secp_binding_def by blast
  then have "?curr = ?root \<or> hash_collision ht {xk_inner key @ ?root, xk_inner key @ ?curr}"
    using hash_collision_here [of ht "xk_inner key @ ?root" "xk_inner key @ ?curr" "{xk_inner key @ ?root, xk_inner key @ ?curr}"]
    by auto
  then show ?thesis
    using tree_commits [OF assms(3-6,8-10)] by blast
qed

lemma sample_hash_Cons: "sample_hash tag bs = tag # take 31 (bs @ replicate 31 0)"
  by (simp add: sample_hash_def)

lemma sample_no_collision:
  "\<not> taproot_collision (sample_hash 1) (sample_hash 2) (insert (leaf_preimage [1] TapScript) (leaf_inputs sample_tree))
     (branch_inputs (sample_hash 1) (sample_hash 2) sample_tree
       \<union> path_inputs (sample_hash 2) [tap_leaf_hash (sample_hash 1) [2] TapScript] (tap_leaf_hash (sample_hash 1) [1] TapScript))"
proof -
  let ?l = "tap_leaf_hash (sample_hash 1) [1] TapScript" and ?r = "tap_leaf_hash (sample_hash 1) [2] TapScript"
  have branches: "branch_inputs (sample_hash 1) (sample_hash 2) sample_tree \<union> path_inputs (sample_hash 2) [?r] ?l = {node_preimage ?l ?r}"
    by (simp add: sample_tree_def new_leaf_with_ver_def node_preimage_commute [of ?r])
  have leaves: "insert (leaf_preimage [1] TapScript) (leaf_inputs sample_tree) = {leaf_preimage [1] TapScript, leaf_preimage [2] TapScript}"
    by (auto simp: sample_tree_def)
  have "sample_hash 1 (leaf_preimage [1] TapScript) \<noteq> sample_hash 1 (leaf_preimage [2] TapScript)"
    by (simp add: sample_hash_Cons leaf_preimage_def compact_size_new_def compact_size_encode_def)
  then show ?thesis unfolding branches leaves
    by (auto simp: taproot_collision_def hash_collision_def sample_hash_Cons)
qed

theorem taproot_spend_binds_witness:
  "\<exists>info cb. from_node_info sample_secp (sample_hash 3) sample_key (tree_info (sample_hash 1) (sample_hash 2) sample_tree)
        = (Ok info :: (unit, taproot_spend_info) res)
    \<and> verify_taproot_commitment sample_secp (sample_hash 1) (sample_hash 2) (sample_hash 3) cb (output_key info) [1] = Ok True
    \<and> \<lparr>ln_leaf = Script [1] (cb_leaf_version cb), merkle_branch = cb_merkle_branch cb\<rparr>
        \<in> set (ni_leaves (tree_info (sample_hash 1) (sample_hash 2) sample_tree))"
proof -
  let ?t = "tree_info (sample_hash 1) (sample_hash 2) sample_tree"
  obtain info where info: "from_node_info sample_secp (sample_hash 3) sample_key ?t = (Ok info :: (unit, taproot_spend_info) res)"
    using sample_finalize by blast
  define cb where "cb = \<lparr>cb_leaf_version = TapScript, cb_output_key_odd = output_key_odd info, cb_internal_key = sample_key,
    cb_merkle_branch = [tap_leaf_hash (sample_hash 1) [2] TapScript]\<rparr>"
  have cb: "cb_leaf_version cb = TapScript" "cb_output_key_odd cb = output_key_odd info" "cb_internal_key cb = sample_key"
    by (simp_all add: cb_def)
  have root: "path_hash (sample_hash 2) (cb_merkle_branch cb) (tap_leaf_hash (sample_hash 1) [1] TapScript) = ni_hash ?t"
    by (simp add: cb_def path_hash_def sample_tree_def join_def new_leaf_with_ver_def from_node_hashes_commute Let_def)
  have tweak: "tap_tweak sample_secp (sample_hash 3) sample_key (Some (ni_hash ?t)) = (Ok (output_key info) :: (unit, x_only_public_key) res)"
    and odd: "output_key_odd info = xk_odd (output_key info)"
    using from_node_info_holds [OF info] by blast+
  have verifies: "verify_taproot_commitment sample_secp (sample_hash 1) (sample_hash 2) (sample_hash 3) cb (output_key info) [1] = Ok True"
    using tap_tweak_checks [OF tweak sample_ok(1)] odd root
    by (simp add: verify_taproot_commitment_def path_hash_def [symmetric] to_scalar_def tweak_add_check_def with_parity_def cb)
  have "list_all (\<lambda>e. length e = 32) (cb_merkle_branch cb)"
    using sample_ok(3) [of 1] by (simp add: cb_def tap_leaf_hash_def hashes_32_def)
  then have "\<lparr>ln_leaf = Script [1] (cb_leaf_version cb), merkle_branch = cb_merkle_branch cb\<rparr> \<in> set (ni_leaves ?t)
      \<or> taproot_collision (sample_hash 1) (sample_hash 2) (insert (leaf_preimage [1] (cb_leaf_version cb)) (leaf_inputs sample_tree))
          (branch_inputs (sample_hash 1) (sample_hash 2) sample_tree
            \<union> path_inputs (sample_hash 2) (cb_merkle_branch cb) (tap_leaf_hash (sample_hash 1) [1] (cb_leaf_version cb)))
      \<or> hash_collision (sample_hash 3) {xk_inner sample_key @ ni_hash ?t,
          xk_inner sample_key @ path_hash (sample_hash 2) (cb_merkle_branch cb) (tap_leaf_hash (sample_hash 1) [1] (cb_leaf_version cb))}"
    by (intro taproot_spend_binds [OF sample_ok(1,2,3,3,4,5) info _ _ _ _ _ verifies]) (simp_all add: cb_def leaf_version_ok_def)
  then have "\<lparr>ln_leaf = Script [1] (cb_leaf_version cb), merkle_branch = cb_merkle_branch cb\<rparr> \<in> set (ni_leaves ?t)"
    using sample_no_collision unfolding cb root by (simp add: cb_def hash_collision_def)
  then show ?thesis using info verifies by blast
qed

subsection \<open>Control blocks as bytes\<close>

definition TAPROOT_CONTROL_NODE_SIZE :: nat where "TAPROOT_CONTROL_NODE_SIZE = 32"
definition TAPROOT_CONTROL_BASE_SIZE :: nat where "TAPROOT_CONTROL_BASE_SIZE = 33"

datatype taproot_error =
    InvalidMerkleBranchSize nat
  | InvalidMerkleTreeDepth nat
  | InvalidTaprootLeafVersion u8
  | InvalidControlBlockSize nat
  | InvalidInternalKey

text \<open>\<open>bitcoin_as_chunks\<close>: the full chunks; what remains is looked at by its length.\<close>

function as_chunks :: "bytes \<Rightarrow> bytes list" where
  "as_chunks bs = (if length bs < TAPROOT_CONTROL_NODE_SIZE then []
     else take TAPROOT_CONTROL_NODE_SIZE bs # as_chunks (drop TAPROOT_CONTROL_NODE_SIZE bs))"
  by pat_completeness auto
termination by (relation "measure length") (auto simp: TAPROOT_CONTROL_NODE_SIZE_def)

declare as_chunks.simps [simp del]

definition branch_from_hashes :: "bytes list \<Rightarrow> (taproot_error, bytes list) res" where
  "branch_from_hashes nodes =
     (if length nodes \<le> TAPROOT_CONTROL_MAX_NODE_COUNT then Ok nodes else Err (InvalidMerkleTreeDepth (length nodes)))"

definition branch_decode :: "bytes \<Rightarrow> (taproot_error, bytes list) res" where
  "branch_decode bs =
     (if length bs mod TAPROOT_CONTROL_NODE_SIZE = 0 then branch_from_hashes (as_chunks bs)
      else Err (InvalidMerkleBranchSize (length bs)))"

definition decode_borrowed :: "bytes \<Rightarrow> (taproot_error, leaf_version \<times> bool \<times> bytes \<times> bytes list) res" where
  "decode_borrowed sl =
     (if length sl < TAPROOT_CONTROL_BASE_SIZE then Err (InvalidControlBlockSize (length sl))
      else
        let base = take TAPROOT_CONTROL_BASE_SIZE sl;
            branch = drop TAPROOT_CONTROL_BASE_SIZE sl;
            first = base ! 0;
            par = (first AND 1 \<noteq> 0)
        in res_bind (map_err InvalidTaprootLeafVersion (leaf_version_from_consensus (first AND TAPROOT_LEAF_MASK))) (\<lambda>ver.
           res_bind (branch_decode branch) (\<lambda>branch. Ok (ver, par, drop 1 base, branch))))"

definition control_block_decode :: "secp \<Rightarrow> bytes \<Rightarrow> (taproot_error, control_block) res" where
  "control_block_decode sp sl =
     res_bind (decode_borrowed sl) (\<lambda>(ver, par, key, branch).
     res_bind (map_err (\<lambda>_. InvalidInternalKey) (x_only_from_byte_array sp key)) (\<lambda>key.
       Ok \<lparr>cb_leaf_version = ver, cb_output_key_odd = par, cb_internal_key = key, cb_merkle_branch = branch\<rparr>))"

definition control_block_size :: "control_block \<Rightarrow> nat" where
  "control_block_size cb = TAPROOT_CONTROL_BASE_SIZE + TAPROOT_CONTROL_NODE_SIZE * length (cb_merkle_branch cb)"

definition control_block_serialize :: "control_block \<Rightarrow> bytes" where
  "control_block_serialize cb =
     (of_bool (cb_output_key_odd cb) OR leaf_version_to_consensus (cb_leaf_version cb))
       # xk_inner (cb_internal_key cb) @ concat (cb_merkle_branch cb)"

text \<open>The control blocks that the types of the program allow, and those that decoding can give.\<close>

definition control_block_ok :: "secp \<Rightarrow> control_block \<Rightarrow> bool" where
  "control_block_ok sp cb \<longleftrightarrow> leaf_version_ok (cb_leaf_version cb) \<and> length (xk_inner (cb_internal_key cb)) = 32
     \<and> x_coordinate sp (xk_inner (cb_internal_key cb)) \<and> length (cb_merkle_branch cb) \<le> TAPROOT_CONTROL_MAX_NODE_COUNT
     \<and> list_all (\<lambda>e. length e = 32) (cb_merkle_branch cb)"

lemma as_chunks_iff:
  "length bs mod 32 = 0 \<Longrightarrow> as_chunks bs = nodes \<longleftrightarrow> list_all (\<lambda>e. length e = 32) nodes \<and> bs = concat nodes"
proof (induction nodes arbitrary: bs)
  case Nil
  then show ?case by (subst as_chunks.simps) (auto simp: TAPROOT_CONTROL_NODE_SIZE_def)
next
  case (Cons n nodes)
  show ?case
  proof (cases "length bs < 32")
    case True
    then have "bs = []" using Cons.prems by simp
    then show ?thesis by (subst as_chunks.simps) (auto simp: TAPROOT_CONTROL_NODE_SIZE_def)
  next
    case False
    have "length (drop 32 bs) mod 32 = 0" using Cons.prems False by (simp add: mod_if)
    note IH = Cons.IH [OF this]
    have "bs = n @ concat nodes \<and> length n = 32 \<longleftrightarrow> take 32 bs = n \<and> drop 32 bs = concat nodes"
      using False by (metis append_eq_conv_conj append_take_drop_id length_take min.absorb2 not_less)
    then show ?thesis using False IH
      by (subst as_chunks.simps) (auto simp: TAPROOT_CONTROL_NODE_SIZE_def)
  qed
qed

lemma branch_decode_iff:
  "branch_decode bs = Ok nodes \<longleftrightarrow>
     length nodes \<le> TAPROOT_CONTROL_MAX_NODE_COUNT \<and> list_all (\<lambda>e. length e = 32) nodes \<and> bs = concat nodes"
proof -
  have "length bs mod 32 = 0" if "list_all (\<lambda>e. length e = 32) nodes" "bs = concat nodes"
    using that by (induction nodes arbitrary: bs) auto
  then show ?thesis using as_chunks_iff [of bs nodes]
    by (auto simp: branch_decode_def branch_from_hashes_def TAPROOT_CONTROL_NODE_SIZE_def split: if_splits)
qed

lemma fe_and_1: "(0xFE :: u8) AND 1 = 0" "(1 :: u8) AND 0xFE = 0" "(1 :: u8) OR 0xFE = -1"
  by simp_all

lemma first_byte_iff:
  assumes "leaf_version_ok ver"
  shows "first AND TAPROOT_LEAF_MASK = leaf_version_to_consensus ver \<and> (first AND 1 \<noteq> 0) = par
    \<longleftrightarrow> first = of_bool par OR leaf_version_to_consensus ver"
proof -
  let ?v = "leaf_version_to_consensus ver"
  have v: "?v AND 0xFE = ?v"
    using assms by (cases ver) (simp_all add: leaf_version_ok_def TAPROOT_LEAF_TAPSCRIPT_def)
  then have v1: "?v AND 1 = 0" by (metis (no_types) and.assoc and_zero_eq fe_and_1(1))
  have split: "first = (first AND 1) OR (first AND 0xFE)"
    by (simp only: bit.conj_disj_distrib [symmetric] fe_and_1(3) and.right_neutral)
  have one: "first AND 1 = of_bool par \<longleftrightarrow> (first AND 1 \<noteq> 0) = par" by (auto simp: and_one_eq)
  show ?thesis
  proof
    assume "first AND TAPROOT_LEAF_MASK = ?v \<and> (first AND 1 \<noteq> 0) = par"
    then show "first = of_bool par OR ?v" using split one by (simp add: TAPROOT_LEAF_MASK_def)
  next
    assume first: "first = of_bool par OR ?v"
    have "first AND 0xFE = ?v" "first AND 1 = of_bool par"
      unfolding first by (cases par; simp add: bit.conj_disj_distrib2 v v1 fe_and_1(2))+
    then show "first AND TAPROOT_LEAF_MASK = ?v \<and> (first AND 1 \<noteq> 0) = par"
      using one by (simp add: TAPROOT_LEAF_MASK_def)
  qed
qed

lemma length_control_block_serialize:
  assumes "control_block_ok sp cb"
  shows "length (control_block_serialize cb) = control_block_size cb"
proof -
  have "length (concat nodes) = 32 * length nodes" if "list_all (\<lambda>e. length e = 32) nodes" for nodes :: "bytes list"
    using that by (induction nodes) simp_all
  then show ?thesis using assms by (simp add: control_block_serialize_def control_block_size_def control_block_ok_def
      TAPROOT_CONTROL_BASE_SIZE_def TAPROOT_CONTROL_NODE_SIZE_def)
qed

lemma control_block_decode_Ok:
  "control_block_decode sp bs = Ok cb \<longleftrightarrow>
     control_block_ok sp cb \<and> \<not> xk_odd (cb_internal_key cb) \<and> bs = control_block_serialize cb"
proof (cases "length bs < 33")
  case True
  then show ?thesis
    by (auto simp: control_block_decode_def decode_borrowed_def TAPROOT_CONTROL_BASE_SIZE_def control_block_serialize_def
        control_block_ok_def)
next
  case False
  then obtain first rest where bs: "bs = first # rest" "32 \<le> length rest" by (cases bs) auto
  let ?ver = "cb_leaf_version cb" and ?key = "cb_internal_key cb"
  have parts: "rest = xk_inner ?key @ concat (cb_merkle_branch cb) \<and> length (xk_inner ?key) = 32 \<longleftrightarrow>
      xk_inner ?key = take 32 rest \<and> drop 32 rest = concat (cb_merkle_branch cb)"
    using bs(2) by (metis append_eq_conv_conj append_take_drop_id length_take min.absorb2)
  have "control_block_decode sp bs = Ok cb \<longleftrightarrow>
      (leaf_version_ok ?ver \<and> first AND TAPROOT_LEAF_MASK = leaf_version_to_consensus ?ver) \<and>
      (first AND 1 \<noteq> 0) = cb_output_key_odd cb \<and> branch_decode (drop 32 rest) = Ok (cb_merkle_branch cb) \<and>
      x_coordinate sp (take 32 rest) \<and> xk_inner ?key = take 32 rest \<and> \<not> xk_odd ?key"
    unfolding leaf_version_from_consensus_iff [symmetric] using bs
    by (cases cb; cases "cb_internal_key cb")
       (auto simp: control_block_decode_def decode_borrowed_def TAPROOT_CONTROL_BASE_SIZE_def res_bind_Ok_iff Let_def
        x_only_from_byte_array_def map_err_Ok_iff split: if_splits)
  also have "\<dots> \<longleftrightarrow> control_block_ok sp cb \<and> \<not> xk_odd ?key \<and> bs = control_block_serialize cb"
    using first_byte_iff [of ?ver first "cb_output_key_odd cb"] parts
    by (auto simp: branch_decode_iff control_block_ok_def control_block_serialize_def bs(1))
  finally show ?thesis .
qed

text \<open>
  Control blocks as bytes: decoding accepts exactly the serialisations of control blocks with 32 bytes
  for every node, at most 128 nodes, a leaf version that is even and not the annex prefix and a valid internal key,
  and returns the control block with the internal key taken as even; a serialisation has the announced size.
\<close>

theorem control_block_decode_iff:
  "(control_block_decode sp bs = Ok cb \<longleftrightarrow>
      control_block_ok sp cb \<and> \<not> xk_odd (cb_internal_key cb) \<and> bs = control_block_serialize cb)
   \<and> (control_block_ok sp cb \<longrightarrow> length (control_block_serialize cb) = control_block_size cb)"
  using control_block_decode_Ok length_control_block_serialize by blast

text \<open>The block of a key alone, and its 33 bytes.\<close>

theorem control_block_decode_iff_witness:
  "control_block_decode sample_secp (0xc1 # replicate 32 7) = Ok \<lparr>cb_leaf_version = TapScript, cb_output_key_odd = True,
     cb_internal_key = sample_key, cb_merkle_branch = []\<rparr>
   \<and> control_block_size \<lparr>cb_leaf_version = TapScript, cb_output_key_odd = True,
     cb_internal_key = sample_key, cb_merkle_branch = []\<rparr> = 33"
proof -
  let ?cb = "\<lparr>cb_leaf_version = TapScript, cb_output_key_odd = True, cb_internal_key = sample_key, cb_merkle_branch = []\<rparr>"
  have ok: "control_block_ok sample_secp ?cb \<and> \<not> xk_odd (cb_internal_key ?cb)"
    by (simp add: control_block_ok_def leaf_version_ok_def sample_key_def sample_secp_def)
  have bs: "control_block_serialize ?cb = 0xc1 # replicate 32 7"
    by (simp add: control_block_serialize_def sample_key_def TAPROOT_LEAF_TAPSCRIPT_def)
  show ?thesis
    using ok bs control_block_decode_iff [of sample_secp "0xc1 # replicate 32 7" ?cb] by auto
qed

text \<open>The parity of the internal key is not part of the serialisation, but it is compared: a control block whose
  internal key was made from a key pair with an odd point is not equal to what its bytes decode to.\<close>

lemma control_block_parity_lost:
  assumes "control_block_ok sp cb" "xk_odd (cb_internal_key cb)"
  shows "\<exists>cb'. control_block_decode sp (control_block_serialize cb) = Ok cb' \<and> cb' \<noteq> cb"
proof -
  let ?cb = "cb\<lparr>cb_internal_key := with_parity (cb_internal_key cb) False\<rparr>"
  have "control_block_decode sp (control_block_serialize cb) = Ok ?cb"
    unfolding control_block_decode_Ok using assms
    by (simp add: control_block_ok_def control_block_serialize_def with_parity_def)
  moreover have "xk_odd (cb_internal_key ?cb) \<noteq> xk_odd (cb_internal_key cb)" using assms(2) by (simp add: with_parity_def)
  then have "?cb \<noteq> cb" by metis
  ultimately show ?thesis by blast
qed

end
