(* ===== verification/Taproot_Huffman.thy ===== *)
theory Taproot_Huffman
  imports Taproot_Tree "HOL-Library.Multiset" "HOL-Library.Product_Lexorder"
begin

section \<open>Huffman trees of scripts\<close>

text \<open>
  \<open>TaprootBuilder::with_huffman_tree\<close> of \<open>bitcoin/src/taproot/mod.rs\<close>: a heap of weighted nodes whose two
  lightest are joined until one is left. The theorems say that it is total for up to 129 scripts, and
  that no tree of the scripts has a smaller sum of weights times depths.
\<close>

subsection \<open>The heap\<close>

text \<open>The order of the items: the weight reversed, then the derived order of nodes by their hash, their leaves
  and the flag. Items that are equal in it are equal.\<close>

type_synonym heap_item = "u32 \<times> node_info"

fun leaf_version_key :: "leaf_version \<Rightarrow> nat \<times> u8" where
  "leaf_version_key TapScript = (0, 0)"
| "leaf_version_key (Future v) = (1, v)"

definition leaf_node_key :: "leaf_node \<Rightarrow> (nat \<times> bytes \<times> nat \<times> u8) \<times> bytes list" where
  "leaf_node_key leaf =
     (case ln_leaf leaf of
        Script script ver \<Rightarrow> (0, script, leaf_version_key ver)
      | Hidden hash \<Rightarrow> (1, hash, 0, 0), merkle_branch leaf)"

definition node_key :: "node_info \<Rightarrow> bytes \<times> ((nat \<times> bytes \<times> nat \<times> u8) \<times> bytes list) list \<times> bool" where
  "node_key node = (ni_hash node, map leaf_node_key (ni_leaves node), has_hidden_nodes node)"

definition item_less :: "heap_item \<Rightarrow> heap_item \<Rightarrow> bool" where
  "item_less a b \<longleftrightarrow> fst b < fst a \<or> fst a = fst b \<and> node_key (snd a) < node_key (snd b)"

text \<open>\<open>pop\<close> removes a greatest item.\<close>

fun heap_pop :: "heap_item list \<Rightarrow> (heap_item \<times> heap_item list) option" where
  "heap_pop [] = None"
| "heap_pop (x # xs) = (let m = fold (\<lambda>y m. if item_less m y then y else m) xs x in Some (m, remove1 m (x # xs)))"

definition u32_saturating_add :: "u32 \<Rightarrow> u32 \<Rightarrow> u32" where
  "u32_saturating_add a b = (if 2 ^ 32 \<le> unat a + unat b then -1 else a + b)"

lemma heap_pop_Some:
  assumes "heap_pop xs = Some (m, ys)"
  shows "m \<in> set xs \<and> ys = remove1 m xs \<and> (\<forall>x \<in> set xs. fst m \<le> fst x)"
proof -
  obtain z zs where xs: "xs = z # zs" using assms by (cases xs) auto
  let ?f = "\<lambda>y m. if item_less m y then y else m"
  have "fold ?f ys b \<in> set (b # ys) \<and> (\<forall>x \<in> set (b # ys). fst (fold ?f ys b) \<le> fst x)" for ys b
  proof (induction ys arbitrary: b)
    case (Cons y ys)
    have "fst (?f y b) \<le> fst y \<and> fst (?f y b) \<le> fst b" by (auto simp: item_less_def)
    then show ?case using Cons.IH [of "?f y b"] by (auto intro: order_trans)
  qed simp
  from this [of zs z] show ?thesis using assms unfolding xs heap_pop.simps Let_def option.inject prod.inject by metis
qed

lemma heap_pop_None: "heap_pop xs = None \<longleftrightarrow> xs = []"
  by (cases xs) (simp_all add: Let_def)

lemma length_heap_pop: "heap_pop xs = Some (m, ys) \<Longrightarrow> length xs = Suc (length ys)"
  using heap_pop_Some [of xs m ys] length_pos_if_in_set [of m xs] by (auto simp: length_remove1)

subsection \<open>The algorithm\<close>

function huffman_loop :: "(bytes \<Rightarrow> bytes) \<Rightarrow> heap_item list \<Rightarrow> (taproot_builder_error, heap_item list) res" where
  "huffman_loop hb heap =
     (if length heap > 1 then
        (case heap_pop heap of
           None \<Rightarrow> Panic
         | Some ((p1, s1), heap1) \<Rightarrow>
             (case heap_pop heap1 of
                None \<Rightarrow> Panic
              | Some ((p2, s2), heap2) \<Rightarrow>
                  let p = u32_saturating_add p1 p2 in
                  res_bind (node_combine hb s1 s2) (\<lambda>node. huffman_loop hb ((p, node) # heap2))))
      else Ok heap)"
  by pat_completeness auto
termination by (relation "measure (\<lambda>(hb, heap). length heap)") (auto dest!: length_heap_pop)

declare huffman_loop.simps [simp del]

definition with_huffman_tree ::
  "(bytes \<Rightarrow> bytes) \<Rightarrow> (bytes \<Rightarrow> bytes) \<Rightarrow> (u32 \<times> bytes) list \<Rightarrow> (taproot_builder_error, taproot_builder) res" where
  "with_huffman_tree hl hb script_weights =
     (let heap = map (\<lambda>(p, leaf). (p, new_leaf_with_ver hl leaf TapScript)) script_weights in
      if heap = [] then Err EmptyTree
      else res_bind (huffman_loop hb heap) (\<lambda>heap.
        case heap_pop heap of None \<Rightarrow> Panic | Some ((_, node), _) \<Rightarrow> Ok [Some node]))"

subsection \<open>Depths of binary trees\<close>

text \<open>The multisets of depths of the leaves of binary trees. A deepest leaf has a sibling; without the two
  there is a leaf one level higher.\<close>

inductive depths :: "nat multiset \<Rightarrow> bool" where
  depths_one: "depths {#0#}"
| depths_split: "depths (add_mset d D) \<Longrightarrow> depths (add_mset (Suc d) (add_mset (Suc d) D))"

lemma deepest_pair:
  "depths D \<Longrightarrow> 2 \<le> size D \<Longrightarrow>
     \<exists>m M. D = add_mset (Suc m) (add_mset (Suc m) M) \<and> (\<forall>d \<in># D. d \<le> Suc m) \<and> depths (add_mset m M)"
proof (induction rule: depths.induct)
  case (depths_split d D)
  show ?case
  proof (cases "\<forall>x \<in># D. x \<le> Suc d")
    case True
    then show ?thesis using depths_split.hyps by (intro exI [of _ d] exI [of _ D]) auto
  next
    case False
    then obtain x where x: "x \<in># D" "Suc d < x" by (auto simp: not_le)
    then have "2 \<le> size (add_mset d D)" by (cases D) auto
    then obtain m M where m: "add_mset d D = add_mset (Suc m) (add_mset (Suc m) M)" "\<forall>y \<in># add_mset d D. y \<le> Suc m"
        "depths (add_mset m M)"
      using depths_split.IH by blast
    have "d < m" using m(2) x by auto
    have "d \<in># add_mset (Suc m) (add_mset (Suc m) M)" unfolding m(1) [symmetric] by simp
    then have "d \<in># M" using \<open>d < m\<close> by auto
    then obtain N where N: "M = add_mset d N" by (blast dest: multi_member_split)
    have D: "D = add_mset (Suc m) (add_mset (Suc m) N)" using m(1) unfolding N by (simp add: add_mset_commute)
    have "depths (add_mset d (add_mset m N))" using m(3) N by (simp add: add_mset_commute)
    then have "depths (add_mset m (add_mset (Suc d) (add_mset (Suc d) N)))"
      by (drule_tac depths.depths_split) (simp add: add_mset_commute)
    then show ?thesis
      using m(2) \<open>d < m\<close> D
      by (intro exI [of _ m] exI [of _ "add_mset (Suc d) (add_mset (Suc d) N)"]) (auto simp: add_mset_commute)
  qed
qed simp

subsection \<open>Optimality\<close>

text \<open>The cost of an assignment of weights to depths, and the cost of what the algorithm does to a multiset of
  weights: it adds the two smallest until one is left.\<close>

definition pcost :: "(nat \<times> nat) multiset \<Rightarrow> nat" where
  "pcost P = (\<Sum>(w, d)\<in>#P. w * d)"

lemma pcost_add [simp]: "pcost (add_mset (w, d) P) = w * d + pcost P" "pcost {#} = 0" "pcost (P + Q) = pcost P + pcost Q"
  by (simp_all add: pcost_def)

inductive hcost :: "nat multiset \<Rightarrow> nat \<Rightarrow> bool" where
  hcost_one: "hcost {#w#} 0"
| hcost_step: "a \<le> b \<Longrightarrow> \<forall>x \<in># W. b \<le> x \<Longrightarrow> hcost (add_mset (a + b) W) c \<Longrightarrow> hcost (add_mset a (add_mset b W)) (a + b + c)"

text \<open>The smallest weight can be moved to the greatest depth.\<close>

lemma swap_cost:
  assumes "a \<le> y" "d \<le> m"
  shows "y * d + a * m \<le> a * d + y * (m :: nat)"
proof -
  obtain i j where "y = a + i" "m = d + j" using assms by (metis le_iff_add)
  then show ?thesis by (simp add: algebra_simps)
qed

lemma exchange:
  assumes "a \<in># image_mset fst P" "m \<in># image_mset snd P"
    and "\<forall>x \<in># image_mset fst P. a \<le> x" "\<forall>d \<in># image_mset snd P. d \<le> m"
  obtains Q where "image_mset fst P = add_mset a (image_mset fst Q)" "image_mset snd P = add_mset m (image_mset snd Q)"
    "pcost Q + a * m \<le> pcost P"
proof (cases "(a, m) \<in># P")
  case True
  then obtain Q where "P = add_mset (a, m) Q" by (blast dest: multi_member_split)
  then show thesis using that [of Q] by simp
next
  case False
  obtain d y where d: "(a, d) \<in># P" and y: "(y, m) \<in># P" using assms(1,2) by auto
  then obtain P' where P': "P = add_mset (a, d) P'" by (blast dest: multi_member_split)
  then have "(y, m) \<in># P'" using y False d by auto
  then obtain R where "P' = add_mset (y, m) R" by (blast dest: multi_member_split)
  then have P: "P = add_mset (a, d) (add_mset (y, m) R)" using P' by simp
  have "a \<le> y" "d \<le> m" using assms(3,4) by (auto simp: P)
  then show thesis using that [of "add_mset (y, d) R"] swap_cost [of a y d m] by (simp add: P add_mset_commute)
qed

lemma hcost_optimal:
  "hcost W c \<Longrightarrow> image_mset fst P = W \<Longrightarrow> depths (image_mset snd P) \<Longrightarrow> c \<le> pcost P"
proof (induction arbitrary: P rule: hcost.induct)
  case (hcost_step a b W c)
  let ?D = "image_mset snd P"
  have size: "size ?D = size (add_mset a (add_mset b W))" using hcost_step.prems(1) by (metis size_image_mset)
  obtain m M where M: "?D = add_mset (Suc m) (add_mset (Suc m) M)" "\<forall>d \<in># ?D. d \<le> Suc m" "depths (add_mset m M)"
  proof -
    have "2 \<le> size ?D" using size by simp
    from deepest_pair [OF hcost_step.prems(2) this] show thesis using that by blast
  qed
  have a: "a \<in># image_mset fst P" "\<forall>x \<in># image_mset fst P. a \<le> x"
    unfolding hcost_step.prems(1) using hcost_step.hyps(1,2) by auto
  have "Suc m \<in># ?D" unfolding M(1) by simp
  from exchange [OF a(1) this a(2) M(2)] obtain Q where Q: "image_mset fst P = add_mset a (image_mset fst Q)" "?D = add_mset (Suc m) (image_mset snd Q)"
      "pcost Q + a * Suc m \<le> pcost P" .
  have fstQ: "image_mset fst Q = add_mset b W" and sndQ: "image_mset snd Q = add_mset (Suc m) M"
    using Q hcost_step.prems(1) M(1) by simp_all
  have b: "b \<in># image_mset fst Q" "\<forall>x \<in># image_mset fst Q. b \<le> x" unfolding fstQ using hcost_step.hyps(2) by auto
  have d: "Suc m \<in># image_mset snd Q" "\<forall>d \<in># image_mset snd Q. d \<le> Suc m"
    unfolding sndQ using M(1,2) by auto
  from exchange [OF b(1) d(1) b(2) d(2)] obtain R where R: "image_mset fst Q = add_mset b (image_mset fst R)" "image_mset snd Q = add_mset (Suc m) (image_mset snd R)"
      "pcost R + b * Suc m \<le> pcost Q" .
  have "image_mset fst (add_mset (a + b, m) R) = add_mset (a + b) W" "image_mset snd (add_mset (a + b, m) R) = add_mset m M"
    using R fstQ sndQ by simp_all
  then have "c \<le> pcost (add_mset (a + b, m) R)" using hcost_step.IH M(3) by metis
  then show ?case using Q(3) R(3) by (simp add: algebra_simps)
qed simp

text \<open>Trees with weights at the leaves.\<close>

datatype wtree = WLeaf nat bytes | WNode wtree wtree

fun erase :: "wtree \<Rightarrow> script_tree" where
  "erase (WLeaf w script) = Leaf_script script TapScript"
| "erase (WNode l r) = Branch (erase l) (erase r)"

fun wleaves :: "wtree \<Rightarrow> (nat \<times> bytes) multiset" where
  "wleaves (WLeaf w script) = {#(w, script)#}"
| "wleaves (WNode l r) = wleaves l + wleaves r"

definition wweight :: "wtree \<Rightarrow> nat" where
  "wweight t = (\<Sum>(w, script)\<in>#wleaves t. w)"

text \<open>Every leaf with its depth, and the sum of the weights times the depths.\<close>

fun wdepths :: "nat \<Rightarrow> wtree \<Rightarrow> (nat \<times> nat) multiset" where
  "wdepths d (WLeaf w script) = {#(w, d)#}"
| "wdepths d (WNode l r) = wdepths (Suc d) l + wdepths (Suc d) r"

definition wcost :: "wtree \<Rightarrow> nat" where
  "wcost t = pcost (wdepths 0 t)"

lemma wweight_simps [simp]: "wweight (WLeaf w script) = w" "wweight (WNode l r) = wweight l + wweight r"
  by (simp_all add: wweight_def)

lemma pcost_wdepths: "pcost (wdepths d t) = wcost t + d * wweight t"
proof -
  have "pcost (wdepths (Suc d) t) = pcost (wdepths d t) + wweight t" for d
    by (induction t arbitrary: d) simp_all
  then show ?thesis by (induction d) (simp_all add: wcost_def)
qed

lemma wcost_simps [simp]: "wcost (WLeaf w script) = 0" "wcost (WNode l r) = wcost l + wcost r + wweight l + wweight r"
  using pcost_wdepths [of 1 l] pcost_wdepths [of 1 r] by (simp_all add: wcost_def [of "WLeaf w script"] wcost_def [of "WNode l r"])

lemma fst_wdepths: "image_mset fst (wdepths d t) = image_mset fst (wleaves t)"
  by (induction t arbitrary: d) simp_all

lemma depths_wdepths: "depths (add_mset d D) \<Longrightarrow> depths (image_mset snd (wdepths d t) + D)"
proof (induction t arbitrary: d D)
  case (WNode l r)
  have "depths (add_mset (Suc d) (add_mset (Suc d) D))" by (rule depths_split [OF WNode.prems])
  from WNode.IH(1) [OF this] have "depths (add_mset (Suc d) (image_mset snd (wdepths (Suc d) l) + D))" by simp
  from WNode.IH(2) [OF this] show ?case by (simp add: ac_simps)
qed simp

lemma hcost_tree:
  assumes "hcost (image_mset fst (wleaves t)) (wcost t)" "wleaves t' = wleaves t"
  shows "wcost t \<le> wcost t'"
  unfolding wcost_def [of t'] using assms(1)
proof (rule hcost_optimal)
  show "image_mset fst (wdepths 0 t') = image_mset fst (wleaves t)" by (simp add: fst_wdepths assms(2))
  show "depths (image_mset snd (wdepths 0 t'))" using depths_wdepths [of 0 "{#}" t'] depths_one by simp
qed

subsection \<open>What the algorithm builds\<close>

text \<open>The item of a tree, and one turn of the loop on the items of a multiset of trees.\<close>

definition witem :: "(bytes \<Rightarrow> bytes) \<Rightarrow> (bytes \<Rightarrow> bytes) \<Rightarrow> wtree \<Rightarrow> heap_item" where
  "witem hl hb t = (word_of_nat (wweight t), tree_info hl hb (erase t))"

lemma witem_le:
  assumes "fst (witem hl hb s) \<le> fst (witem hl hb t)" "wweight s < 2 ^ 32" "wweight t < 2 ^ 32"
  shows "wweight s \<le> wweight t"
  using assms by (simp add: witem_def word_le_nat_alt unat_of_nat)

lemma heap_pop_trees:
  assumes "mset heap = image_mset (witem hl hb) T" "T \<noteq> {#}" "\<forall>t \<in># T. wweight t < 2 ^ 32"
  obtains t U heap' where "heap_pop heap = Some (witem hl hb t, heap')" "T = add_mset t U"
    "mset heap' = image_mset (witem hl hb) U" "\<forall>u \<in># U. wweight t \<le> wweight u"
proof -
  have "heap \<noteq> []" using assms(1,2) by auto
  then obtain m heap' where pop: "heap_pop heap = Some (m, heap')" using heap_pop_None by fastforce
  note m = heap_pop_Some [OF pop]
  have items: "x \<in> set heap \<longleftrightarrow> (\<exists>t \<in># T. x = witem hl hb t)" for x
    using arg_cong [OF assms(1), of set_mset] by auto
  then obtain t where t: "t \<in># T" "m = witem hl hb t" using m by auto
  then obtain U where U: "T = add_mset t U" by (blast dest: multi_member_split)
  have "mset heap' = image_mset (witem hl hb) U" using m assms(1) t(2) U by simp
  moreover have "wweight t \<le> wweight u" if "u \<in># U" for u
  proof (rule witem_le [of hl hb])
    have "witem hl hb u \<in> set heap" unfolding items using that U by auto
    then show "fst (witem hl hb t) \<le> fst (witem hl hb u)" using m t(2) by blast
    show "wweight t < 2 ^ 32" "wweight u < 2 ^ 32" using assms(3) that U by auto
  qed
  ultimately show thesis using that pop t(2) U by blast
qed

lemma huffman_step:
  assumes "mset heap = image_mset (witem hl hb) T" "1 < length heap" "(\<Sum>t\<in>#T. wweight t) < 2 ^ 32"
  obtains s t U heap' where "T = add_mset s (add_mset t U)" "wweight s \<le> wweight t" "\<forall>u \<in># U. wweight t \<le> wweight u"
    "mset heap' = image_mset (witem hl hb) U"
    "huffman_loop hb heap = res_bind (node_combine hb (tree_info hl hb (erase s)) (tree_info hl hb (erase t)))
       (\<lambda>node. huffman_loop hb ((word_of_nat (wweight s + wweight t), node) # heap'))"
proof -
  have small: "\<forall>t \<in># T. wweight t < 2 ^ 32"
  proof
    fix t
    assume t: "t \<in># T"
    obtain U where "T = add_mset t U" using t by (blast dest: multi_member_split)
    then show "wweight t < 2 ^ 32" using assms(3) by simp
  qed
  have len: "length heap = size T" using arg_cong [OF assms(1), of size] by simp
  have "T \<noteq> {#}" using len assms(2) by auto
  from heap_pop_trees [OF assms(1) this small] obtain s T1 heap1
    where s: "heap_pop heap = Some (witem hl hb s, heap1)" "T = add_mset s T1"
      "mset heap1 = image_mset (witem hl hb) T1" "\<forall>u \<in># T1. wweight s \<le> wweight u" .
  have "T1 \<noteq> {#}" using len assms(2) s(2) by auto
  moreover have "\<forall>t \<in># T1. wweight t < 2 ^ 32" using small s(2) by simp
  ultimately obtain t U heap2
    where t: "heap_pop heap1 = Some (witem hl hb t, heap2)" "T1 = add_mset t U"
      "mset heap2 = image_mset (witem hl hb) U" "\<forall>u \<in># U. wweight t \<le> wweight u"
    by (rule heap_pop_trees [OF s(3)])
  have "wweight s + wweight t < 2 ^ 32" using assms(3) s(2) t(2) by simp
  then have "u32_saturating_add (word_of_nat (wweight s)) (word_of_nat (wweight t)) = word_of_nat (wweight s + wweight t)"
    by (simp add: u32_saturating_add_def unat_of_nat)
  then have "huffman_loop hb heap = res_bind (node_combine hb (tree_info hl hb (erase s)) (tree_info hl hb (erase t)))
       (\<lambda>node. huffman_loop hb ((word_of_nat (wweight s + wweight t), node) # heap2))"
    using assms(2) s(1) t(1) by (subst huffman_loop.simps) (simp add: witem_def Let_def)
  then show thesis using that s t by simp
qed

lemma push_all_Ok:
  "push_all h leaves = Ok leaves' \<Longrightarrow> leaves' = map (extend_branch h) leaves \<and>
     (\<forall>leaf \<in> set leaves. length (merkle_branch leaf) < TAPROOT_CONTROL_MAX_NODE_COUNT)"
  by (induction leaves arbitrary: leaves')
     (auto simp: res_bind_Ok_iff map_err_Ok_iff branch_push_def extend_branch_def split: if_splits)

lemma node_combine_Ok:
  assumes "node_combine hb a b = Ok n"
  shows "n = join hb a b \<and> (\<forall>leaf \<in> set (ni_leaves a) \<union> set (ni_leaves b). length (merkle_branch leaf) < TAPROOT_CONTROL_MAX_NODE_COUNT)"
  using assms by (cases "ni_hash a < ni_hash b")
    (auto simp: node_combine_def join_def combine_node_hashes_def from_node_hashes_def Let_def res_bind_Ok_iff dest!: push_all_Ok)

lemma deepest_leaf: "\<exists>leaf \<in> set (ni_leaves (tree_info hl hb (erase t))). length (merkle_branch leaf) = depth_of (erase t)"
proof (induction t)
  case (WNode l r)
  have up: "\<exists>leaf \<in> set (ni_leaves (join hb a b)). length (merkle_branch leaf) = Suc n"
    if "\<exists>leaf \<in> set (ni_leaves a) \<union> set (ni_leaves b). length (merkle_branch leaf) = n" for a b n
    using that by (force simp: join_def extend_branch_def Let_def)
  show ?case unfolding erase.simps tree_info.simps depth_of.simps
    by (rule up) (use WNode.IH in \<open>auto simp: max_def\<close>)
qed (simp add: new_leaf_with_ver_def leaf_node_new_script_def)

lemma combine_wtrees:
  assumes "node_combine hb (tree_info hl hb (erase s)) (tree_info hl hb (erase t)) = Ok n"
  shows "n = tree_info hl hb (erase (WNode t s)) \<and> depth_of (erase (WNode t s)) \<le> TAPROOT_CONTROL_MAX_NODE_COUNT"
proof -
  note n = node_combine_Ok [OF assms]
  have "depth_of (erase s) < TAPROOT_CONTROL_MAX_NODE_COUNT" "depth_of (erase t) < TAPROOT_CONTROL_MAX_NODE_COUNT"
    using n deepest_leaf [of hl hb s] deepest_leaf [of hl hb t] by (metis UnI1, metis n UnI2 deepest_leaf)
  then show ?thesis using n by (simp add: Suc_le_eq)
qed

lemma huffman_loop_Ok:
  "mset heap = image_mset (witem hl hb) T \<Longrightarrow> T \<noteq> {#} \<Longrightarrow> (\<Sum>t\<in>#T. wweight t) < 2 ^ 32
    \<Longrightarrow> \<forall>t \<in># T. depth_of (erase t) \<le> TAPROOT_CONTROL_MAX_NODE_COUNT \<Longrightarrow> huffman_loop hb heap = Ok heap'
    \<Longrightarrow> \<exists>t c. heap' = [witem hl hb t] \<and> wleaves t = (\<Sum>t\<in>#T. wleaves t) \<and> hcost (image_mset wweight T) c
      \<and> wcost t = c + (\<Sum>t\<in>#T. wcost t) \<and> depth_of (erase t) \<le> TAPROOT_CONTROL_MAX_NODE_COUNT"
proof (induction "length heap" arbitrary: heap T)
  case 0
  then show ?case by auto
next
  case (Suc n)
  have size: "size T = Suc n" using arg_cong [OF Suc.prems(1), of size] Suc.hyps(2) by simp
  show ?case
  proof (cases "n = 0")
    case True
    then obtain t where T: "T = {#t#}" using size by (metis One_nat_def size_1_singleton_mset)
    then have "heap = [witem hl hb t]" using Suc.prems(1) by simp
    then show ?thesis using Suc.prems(4,5) T
      by (intro exI [of _ t] exI [of _ 0]) (auto simp: huffman_loop.simps hcost_one)
  next
    case False
    then have "1 < length heap" using Suc.hyps(2) by simp
    from huffman_step [OF Suc.prems(1) this Suc.prems(3)] obtain s t U rest
      where T: "T = add_mset s (add_mset t U)" and le: "wweight s \<le> wweight t" "\<forall>u \<in># U. wweight t \<le> wweight u"
        and rest: "mset rest = image_mset (witem hl hb) U"
        and loop: "huffman_loop hb heap = res_bind (node_combine hb (tree_info hl hb (erase s)) (tree_info hl hb (erase t)))
          (\<lambda>node. huffman_loop hb ((word_of_nat (wweight s + wweight t), node) # rest))" .
    let ?n = "WNode t s" and ?T = "add_mset (WNode t s) U"
    have n: "huffman_loop hb (witem hl hb ?n # rest) = Ok heap'" "depth_of (erase ?n) \<le> TAPROOT_CONTROL_MAX_NODE_COUNT"
      using Suc.prems(5) combine_wtrees unfolding loop res_bind_Ok_iff by (auto simp: witem_def add.commute)
    have "length rest = size U" using arg_cong [OF rest, of size] by simp
    then have len: "n = length (witem hl hb ?n # rest)" using size T by simp
    have ms: "mset (witem hl hb ?n # rest) = image_mset (witem hl hb) ?T" "?T \<noteq> {#}" using rest by simp_all
    have small: "(\<Sum>t\<in>#?T. wweight t) < 2 ^ 32" using Suc.prems(3) by (simp add: T)
    have deep: "\<forall>t \<in># ?T. depth_of (erase t) \<le> TAPROOT_CONTROL_MAX_NODE_COUNT" using Suc.prems(4) n(2) T by auto
    from Suc.hyps(1) [OF len ms small deep n(1)] obtain u c
      where u: "heap' = [witem hl hb u]" "wleaves u = (\<Sum>t\<in>#?T. wleaves t)" "hcost (image_mset wweight ?T) c"
        "wcost u = c + (\<Sum>t\<in>#?T. wcost t)" "depth_of (erase u) \<le> TAPROOT_CONTROL_MAX_NODE_COUNT" by blast
    have "hcost (image_mset wweight T) (wweight s + wweight t + c)"
      using hcost_step [of "wweight s" "wweight t" "image_mset wweight U" c] u(3) le by (simp add: T add.commute)
    then show ?thesis using u
      by (intro exI [of _ u] exI [of _ "wweight s + wweight t + c"]) (auto simp: T ac_simps)
  qed
qed

subsection \<open>Totality\<close>

lemma depth_less_leaves: "depth_of (erase t) < size (wleaves t)"
  by (induction t) auto

lemma heap_pop_mset: "heap_pop xs = Some (m, ys) \<Longrightarrow> mset xs = add_mset m (mset ys)"
  using heap_pop_Some [of xs m ys] by simp

lemma huffman_loop_total:
  "image_mset snd (mset heap) = image_mset (\<lambda>t. tree_info hl hb (erase t)) T \<Longrightarrow> T \<noteq> {#}
    \<Longrightarrow> (\<Sum>t\<in>#T. size (wleaves t)) \<le> Suc TAPROOT_CONTROL_MAX_NODE_COUNT \<Longrightarrow> \<exists>i. huffman_loop hb heap = Ok [i]"
proof (induction "length heap" arbitrary: heap T)
  case 0
  then show ?case by auto
next
  case (Suc n)
  show ?case
  proof (cases "n = 0")
    case True
    then obtain i where "heap = [i]" using Suc.hyps(2) by (cases heap) auto
    then show ?thesis by (simp add: huffman_loop.simps)
  next
    case False
    then have len: "1 < length heap" using Suc.hyps(2) by simp
    then have "heap \<noteq> []" by auto
    then obtain p1 s1 heap1 where 1: "heap_pop heap = Some ((p1, s1), heap1)" using heap_pop_None by fastforce
    then have "heap1 \<noteq> []" using len length_heap_pop [OF 1] by auto
    then obtain p2 s2 heap2 where 2: "heap_pop heap1 = Some ((p2, s2), heap2)" using heap_pop_None by fastforce
    have snd: "image_mset (\<lambda>t. tree_info hl hb (erase t)) T = add_mset s1 (add_mset s2 (image_mset snd (mset heap2)))"
      using Suc.prems(1) heap_pop_mset [OF 1] heap_pop_mset [OF 2] by simp
    then obtain s T1 where s: "T = add_mset s T1" "s1 = tree_info hl hb (erase s)"
        "image_mset (\<lambda>t. tree_info hl hb (erase t)) T1 = add_mset s2 (image_mset snd (mset heap2))"
      by (auto dest!: msed_map_invR)
    from s(3) obtain t U where t: "T1 = add_mset t U" "s2 = tree_info hl hb (erase t)"
        "image_mset (\<lambda>t. tree_info hl hb (erase t)) U = image_mset snd (mset heap2)"
      by (auto dest!: msed_map_invR)
    let ?n = "WNode t s"
    have sizes: "size (wleaves ?n) \<le> Suc TAPROOT_CONTROL_MAX_NODE_COUNT" using Suc.prems(3) s t by simp
    then have "depth_of (Branch (erase t) (erase s)) \<le> TAPROOT_CONTROL_MAX_NODE_COUNT"
      using depth_less_leaves [of ?n] by simp
    from combine_trees [OF this] have "node_combine hb s1 s2 = Ok (tree_info hl hb (erase ?n))" by (simp add: s t)
    then have loop: "huffman_loop hb heap = huffman_loop hb ((u32_saturating_add p1 p2, tree_info hl hb (erase ?n)) # heap2)"
      using len 1 2 by (subst huffman_loop.simps) (simp add: Let_def)
    show ?thesis unfolding loop
    proof (rule Suc.hyps(1))
      show "n = length ((u32_saturating_add p1 p2, tree_info hl hb (erase ?n)) # heap2)"
        using Suc.hyps(2) length_heap_pop [OF 1] length_heap_pop [OF 2] by simp
      show "image_mset snd (mset ((u32_saturating_add p1 p2, tree_info hl hb (erase ?n)) # heap2))
          = image_mset (\<lambda>t. tree_info hl hb (erase t)) (add_mset ?n U)" using t by simp
      show "(\<Sum>t\<in>#add_mset ?n U. size (wleaves t)) \<le> Suc TAPROOT_CONTROL_MAX_NODE_COUNT"
        using Suc.prems(3) s t by simp
    qed simp
  qed
qed

subsection \<open>Properties\<close>

definition weighted_leaves :: "(u32 \<times> bytes) list \<Rightarrow> wtree list" where
  "weighted_leaves ws = map (\<lambda>(p, script). WLeaf (unat p) script) ws"

lemma weighted_leaves_heap:
  "map (\<lambda>(p, leaf). (p, new_leaf_with_ver hl leaf TapScript)) ws = map (witem hl hb) (weighted_leaves ws)"
  by (auto simp: weighted_leaves_def witem_def)

lemma weighted_leaves_sums:
  "(\<Sum>t\<in>#mset (weighted_leaves ws). wleaves t) = mset (map (\<lambda>(p, script). (unat p, script)) ws)"
  "(\<Sum>t\<in>#mset (weighted_leaves ws). wweight t) = (\<Sum>(p, script)\<leftarrow>ws. unat p)"
  "(\<Sum>t\<in>#mset (weighted_leaves ws). wcost t) = 0"
  "(\<Sum>t\<in>#mset (weighted_leaves ws). size (wleaves t)) = length ws"
  by (induction ws) (auto simp: weighted_leaves_def)

lemma weighted_leaves_flat: "t \<in> set (weighted_leaves ws) \<Longrightarrow> depth_of (erase t) = 0"
  by (auto simp: weighted_leaves_def)

lemma with_huffman_tree_Ok:
  assumes "ws \<noteq> []" "length ws \<le> 129"
  shows "\<exists>node. with_huffman_tree hl hb ws = Ok [Some node]"
proof -
  let ?heap = "map (witem hl hb) (weighted_leaves ws)" and ?T = "mset (weighted_leaves ws)"
  have heap: "image_mset snd (mset ?heap) = image_mset (\<lambda>t. tree_info hl hb (erase t)) ?T"
    by (simp add: image_mset.compositionality comp_def witem_def)
  have ne: "?T \<noteq> {#}" using assms by (simp add: weighted_leaves_def)
  have size: "(\<Sum>t\<in>#?T. size (wleaves t)) \<le> Suc TAPROOT_CONTROL_MAX_NODE_COUNT"
    unfolding weighted_leaves_sums using assms by (simp add: TAPROOT_CONTROL_MAX_NODE_COUNT_def)
  from huffman_loop_total [OF heap ne size] obtain i where "huffman_loop hb ?heap = Ok [i]" ..
  then show ?thesis
    unfolding with_huffman_tree_def weighted_leaves_heap [of hl ws hb] Let_def
    using assms by (cases i) (auto simp: weighted_leaves_def Let_def)
qed

text \<open>Property C13. A builder that the algorithm returns holds one node, the node of a tree with exactly the given scripts
  and weights, of depth at most 128, and no tree with the same scripts and weights has a smaller sum of weights
  times depths. The sum of the weights has to be below 2^32: above it the additions saturate.\<close>

theorem huffman_optimal:
  assumes "(\<Sum>(p, script)\<leftarrow>ws. unat p) < 2 ^ 32" "with_huffman_tree hl hb ws = Ok b"
  shows "\<exists>t. b = [Some (tree_info hl hb (erase t))]
      \<and> wleaves t = mset (map (\<lambda>(p, script). (unat p, script)) ws)
      \<and> depth_of (erase t) \<le> TAPROOT_CONTROL_MAX_NODE_COUNT
      \<and> (\<forall>t'. wleaves t' = wleaves t \<longrightarrow> wcost t \<le> wcost t')"
proof -
  let ?heap = "map (witem hl hb) (weighted_leaves ws)"
  obtain heap where "ws \<noteq> []" and loop: "huffman_loop hb ?heap = Ok heap"
    and b: "(case heap_pop heap of None \<Rightarrow> Panic | Some ((_, node), _) \<Rightarrow> Ok [Some node]) = (Ok b :: (taproot_builder_error, taproot_builder) res)"
    using assms(2) unfolding with_huffman_tree_def weighted_leaves_heap [of hl ws hb] Let_def
    by (auto simp: res_bind_Ok_iff weighted_leaves_def split: if_splits)
  have heap: "mset ?heap = image_mset (witem hl hb) (mset (weighted_leaves ws))" by simp
  have ne: "mset (weighted_leaves ws) \<noteq> {#}" using \<open>ws \<noteq> []\<close> by (simp add: weighted_leaves_def)
  have sum: "(\<Sum>t\<in>#mset (weighted_leaves ws). wweight t) < 2 ^ 32" using assms(1) unfolding weighted_leaves_sums .
  have flat: "\<forall>t \<in># mset (weighted_leaves ws). depth_of (erase t) \<le> TAPROOT_CONTROL_MAX_NODE_COUNT"
    using weighted_leaves_flat [of _ ws] by simp
  from huffman_loop_Ok [OF heap ne sum flat loop] obtain t c
    where t: "heap = [witem hl hb t]" "wleaves t = mset (map (\<lambda>(p, script). (unat p, script)) ws)"
      "hcost (image_mset wweight (mset (weighted_leaves ws))) c" "wcost t = c"
      "depth_of (erase t) \<le> TAPROOT_CONTROL_MAX_NODE_COUNT"
    unfolding weighted_leaves_sums by auto
  have "image_mset wweight (mset (weighted_leaves ws)) = image_mset fst (wleaves t)"
    unfolding t(2) by (simp add: weighted_leaves_def image_mset.compositionality comp_def case_prod_beta)
  then have "\<forall>t'. wleaves t' = wleaves t \<longrightarrow> wcost t \<le> wcost t'" using hcost_tree [of t] t(3,4) by simp
  then show ?thesis using t b by (intro exI [of _ t]) (simp add: Let_def witem_def)
qed

text \<open>The algorithm builds a tree of any up to 129 scripts, whatever the weights are: it does not panic
  and no path gets too long. Without scripts it is the error for the empty tree.\<close>

theorem huffman_total:
  "with_huffman_tree hl hb [] = Err EmptyTree
   \<and> (ws \<noteq> [] \<and> length ws \<le> 129 \<longrightarrow> (\<exists>node. with_huffman_tree hl hb ws = Ok [Some node]))"
  using with_huffman_tree_Ok [of ws hl hb] by (simp add: with_huffman_tree_def)

text \<open>At three scripts.\<close>

theorem huffman_total_witness:
  "\<exists>node. with_huffman_tree (take 32) (take 32) [(1, [1]), (2, [2]), (5, [3])] = Ok [Some node]"
  using huffman_total [of "take 32" "take 32" "[(1, [1]), (2, [2]), (5, [3])]"] by simp

theorem huffman_optimal_witness:
  "\<exists>t b. with_huffman_tree (take 32) (take 32) [(1, [1]), (2, [2]), (5, [3])] = Ok b
      \<and> b = [Some (tree_info (take 32) (take 32) (erase t))]
      \<and> (\<forall>t'. wleaves t' = {#(1, [1]), (2, [2]), (5, [3])#} \<longrightarrow> wcost t \<le> wcost t')"
proof -
  let ?ws = "[(1, [1]), (2, [2]), (5, [3])] :: (u32 \<times> bytes) list"
  obtain b where b: "with_huffman_tree (take 32) (take 32) ?ws = Ok b"
    using with_huffman_tree_Ok [of ?ws] by force
  have "(\<Sum>(p, script)\<leftarrow>?ws. unat p) < 2 ^ 32" by simp
  from huffman_optimal [OF this b] show ?thesis using b by auto
qed

end
