(* ===== verification/Script_Int.thy ===== *)
theory Script_Int
  imports Prelude
begin

section \<open>Script integers\<close>

text \<open>
  Numbers in scripts: \<open>write_scriptint\<close>, \<open>scriptint_parse\<close>, \<open>read_scriptint_non_minimal\<close> and
  \<open>read_scriptbool\<close> of \<open>bitcoin/src/blockdata/script/mod.rs\<close> and the readers of \<open>push_bytes.rs\<close>. An \<open>i64\<close> is
  an \<open>int\<close> within its range, the magnitude a \<open>u64\<close>; \<open>out\<close> is the part of the buffer of 8 bytes that
  has been written. The theorems compare the two directions: the readers accept exactly what the writer writes.
\<close>

datatype script_int_error = NumericOverflow | NonMinimal

subsection \<open>Writing\<close>

definition put_byte :: "u8 \<Rightarrow> bytes \<Rightarrow> (unit, bytes) res" where
  "put_byte b out = (if length out < 8 then Ok (out @ [b]) else Panic)"

function magnitude_loop :: "u64 \<Rightarrow> bytes \<Rightarrow> (unit, u64 \<times> bytes) res" where
  "magnitude_loop mag out =
     (if mag > 0xFF then res_bind (put_byte (ucast (mag AND 0xFF)) out) (magnitude_loop (drop_bit 8 mag))
      else Ok (mag, out))"
  by pat_completeness auto
termination
proof (relation "measure (\<lambda>(mag, out). unat mag)")
  fix mag :: u64
  assume "0xFF < mag"
  then have "0 < unat mag" by (simp add: word_less_nat_alt)
  then have "unat mag div 2 ^ 8 < unat mag" by simp
  then show "((drop_bit 8 mag, x), (mag, out)) \<in> measure (\<lambda>(mag, out). unat mag)" for x out
    by (simp add: drop_bit_eq_div unat_div)
qed simp

declare magnitude_loop.simps [simp del]

definition i64_unsigned_abs :: "int \<Rightarrow> u64" where
  "i64_unsigned_abs n = word_of_int \<bar>n\<bar>"

definition write_scriptint :: "int \<Rightarrow> (unit, bytes) res" where
  "write_scriptint n =
     (if n = 0 then Ok []
      else
        let neg = n < 0 in
        res_bind (magnitude_loop (i64_unsigned_abs n) []) (\<lambda>(mag, out).
          if mag AND 0x80 \<noteq> 0 then res_bind (put_byte (ucast mag) out) (put_byte (if neg then 0x80 else 0))
          else put_byte (ucast (mag OR (if neg then 0x80 else 0))) out))"

subsection \<open>Reading\<close>

definition scriptint_parse :: "bytes \<Rightarrow> int" where
  "scriptint_parse v =
     (let (ret, sh) = fold (\<lambda>n (acc, sh). (acc + push_bit sh (uint n), sh + 8)) v (0, 0 :: nat) in
      if last v AND 0x80 \<noteq> 0 then - (ret AND (push_bit (sh - 1) 1 - 1)) else ret)"

definition read_scriptint_internal :: "bytes \<Rightarrow> nat \<Rightarrow> (script_int_error, int) res" where
  "read_scriptint_internal bs max_size =
     (if bs = [] then Ok 0
      else if length bs > max_size then Err NumericOverflow
      else if last bs AND 0x7F = 0 \<and> (length bs \<le> 1 \<or> (bs ! (length bs - 2)) AND 0x80 = 0) then Err NonMinimal
      else Ok (scriptint_parse bs))"

definition i32_try_from :: "int \<Rightarrow> ('e, int) res" where
  "i32_try_from n = (if - (2 ^ 31) \<le> n \<and> n < 2 ^ 31 then Ok n else Panic)"

definition read_scriptint :: "bytes \<Rightarrow> (script_int_error, int) res" where
  "read_scriptint bs = res_bind (read_scriptint_internal bs 4) i32_try_from"

definition read_cltv_scriptint :: "bytes \<Rightarrow> (script_int_error, int) res" where
  "read_cltv_scriptint bs = read_scriptint_internal bs 5"

definition read_scriptint_non_minimal :: "bytes \<Rightarrow> (script_int_error, int) res" where
  "read_scriptint_non_minimal v =
     (if v = [] then Ok 0
      else if length v > 4 then Err NumericOverflow
      else i32_try_from (scriptint_parse v))"

definition read_scriptbool :: "bytes \<Rightarrow> bool" where
  "read_scriptbool v = (if v = [] then False
     else \<not> (last v AND NOT 0x80 = 0 \<and> list_all (\<lambda>b. b = 0) (butlast v)))"

subsection \<open>Sign and magnitude\<close>

text \<open>The number that bytes stand for, and when there are no shorter bytes for it.\<close>

fun scriptint_value :: "bytes \<Rightarrow> int" where
  "scriptint_value [] = 0"
| "scriptint_value [b] = (if b \<ge> 0x80 then - (uint b - 128) else uint b)"
| "scriptint_value (b # c # bs) =
     (let v = scriptint_value (c # bs) in
      if last (c # bs) \<ge> 0x80 then 256 * v - uint b else 256 * v + uint b)"

definition scriptint_minimal :: "bytes \<Rightarrow> bool" where
  "scriptint_minimal bs \<longleftrightarrow>
     bs = [] \<or> unat (last bs) mod 128 \<noteq> 0 \<or> 1 < length bs \<and> 128 \<le> unat (bs ! (length bs - 2))"

text \<open>With the last byte apart.\<close>

definition magnitude :: "bytes \<Rightarrow> nat" where
  "magnitude bs = nat_of_le (butlast bs) + 256 ^ (length bs - 1) * (unat (last bs) mod 128)"

lemma u8_top: "(b :: u8) AND 0x80 \<noteq> 0 \<longleftrightarrow> 128 \<le> unat b" "b \<ge> 0x80 \<longleftrightarrow> 128 \<le> unat b"
proof -
  have b: "unat b < 256" by (rule u8_bound)
  have "b AND 0x80 = (if bit b 7 then 0x80 else 0)"
    by (rule bit_eqI) (auto simp: bit_simps bit_numeral_rec(1) less_Suc_eq numeral_eq_Suc)
  moreover have "bit b 7 \<longleftrightarrow> odd (unat b div 128)"
    using bit_unsigned_iff [of b 7, where ?'a = nat] by (simp add: bit_iff_odd [of "unat b"])
  moreover have "odd (unat b div 128) \<longleftrightarrow> 128 \<le> unat b"
  proof (cases "128 \<le> unat b")
    case True
    have "unat b div 128 = 1" by (rule div_nat_eqI) (use True b in simp_all)
    then show ?thesis using True by simp
  qed simp
  ultimately show "b AND 0x80 \<noteq> 0 \<longleftrightarrow> 128 \<le> unat b" by auto
  show "b \<ge> 0x80 \<longleftrightarrow> 128 \<le> unat b" by (simp add: word_le_nat_alt)
qed

lemma magnitude_Cons: "bs \<noteq> [] \<Longrightarrow> magnitude (b # bs) = unat b + 256 * magnitude bs"
  by (cases bs rule: rev_cases) (simp_all add: magnitude_def add_mult_distrib2 mult.assoc)

lemma scriptint_value_magnitude:
  "bs \<noteq> [] \<Longrightarrow> scriptint_value bs = (if 128 \<le> unat (last bs) then - int (magnitude bs) else int (magnitude bs))"
proof (induction bs rule: scriptint_value.induct)
  case (2 b)
  have b: "unat b < 256" by (rule u8_bound)
  have v: "scriptint_value [b] = (if 128 \<le> unat b then - (int (unat b) - 128) else int (unat b))"
    by (simp only: scriptint_value.simps u8_top(2) uint_nat)
  have m: "magnitude [b] = (if 128 \<le> unat b then unat b - 128 else unat b)"
    using b le_mod_geq [of 128 "unat b"] by (simp add: magnitude_def)
  show ?case unfolding v m by (simp only: last.simps if_True if_False split: if_splits) (simp add: of_nat_diff)
next
  case (3 b c bs)
  have step: "scriptint_value (b # c # bs) = (if 128 \<le> unat (last (c # bs)) then 256 * scriptint_value (c # bs) - uint b
      else 256 * scriptint_value (c # bs) + uint b)"
    by (simp only: scriptint_value.simps Let_def u8_top(2))
  have IH: "scriptint_value (c # bs) = (if 128 \<le> unat (last (c # bs)) then - int (magnitude (c # bs)) else int (magnitude (c # bs)))"
    using 3 by blast
  have m: "magnitude (b # c # bs) = unat b + 256 * magnitude (c # bs)" by (rule magnitude_Cons) simp
  have l: "last (b # c # bs) = last (c # bs)" by simp
  show ?case unfolding step IH m l uint_nat by (simp split: if_split)
qed simp

text \<open>Minimal bytes are determined by their number.\<close>

lemma magnitude_length:
  assumes "bs \<noteq> []" "scriptint_minimal bs"
  shows "(length bs = 1 \<longrightarrow> 0 < magnitude bs) \<and> (1 < length bs \<longrightarrow> 128 * 256 ^ (length bs - 2) \<le> magnitude bs)
    \<and> magnitude bs < 128 * 256 ^ (length bs - 1)"
proof -
  obtain xs l where bs: "bs = xs @ [l]" using assms(1) by (metis append_butlast_last_id)
  have lt: "nat_of_le xs < 256 ^ length xs" by (rule nat_of_le_bound)
  have "nat_of_le xs + 256 ^ length xs * (unat l mod 128) < 256 ^ length xs * (1 + unat l mod 128)" using lt by (simp add: algebra_simps)
  also have "\<dots> \<le> 256 ^ length xs * 128" by (intro mult_le_mono2) (simp add: Suc_le_eq)
  finally have up: "magnitude bs < 128 * 256 ^ (length bs - 1)" by (simp add: magnitude_def bs mult.commute)
  show ?thesis
  proof (cases "xs" rule: rev_cases)
    case Nil
    then show ?thesis using assms(2) up by (simp add: bs magnitude_def scriptint_minimal_def)
  next
    case (snoc ys m)
    have "128 * 256 ^ length ys \<le> magnitude bs"
    proof (cases "unat l mod 128 = 0")
      case True
      then have "128 \<le> unat m" using assms(2) by (simp add: bs snoc scriptint_minimal_def nth_append)
      then have "256 ^ length ys * 128 \<le> 256 ^ length ys * unat m" by (intro mult_le_mono2)
      moreover have "nat_of_le (butlast bs) = nat_of_le ys + 256 ^ length ys * unat m"
        by (simp add: bs snoc butlast_append nat_of_le_append)
      ultimately show ?thesis unfolding magnitude_def by linarith
    next
      case False
      then have "256 ^ length xs * 1 \<le> 256 ^ length xs * (unat l mod 128)" by (intro mult_le_mono2) simp
      moreover have "magnitude bs = nat_of_le xs + 256 ^ length xs * (unat l mod 128)" by (simp add: bs magnitude_def)
      moreover have "(256 :: nat) ^ length xs = 256 * 256 ^ length ys" by (simp add: snoc)
      ultimately show ?thesis by linarith
    qed
    then show ?thesis using up by (simp add: bs snoc)
  qed
qed

lemma magnitude_inj:
  assumes "bs \<noteq> []" "scriptint_minimal bs" "cs \<noteq> []" "scriptint_minimal cs" "magnitude bs = magnitude cs"
    and "128 \<le> unat (last bs) \<longleftrightarrow> 128 \<le> unat (last cs)"
  shows "bs = cs"
proof -
  have le: "length ys \<le> length xs" if "xs \<noteq> []" "scriptint_minimal xs" "ys \<noteq> []" "scriptint_minimal ys" "magnitude xs = magnitude ys"
    for xs ys
  proof (rule ccontr)
    assume "\<not> length ys \<le> length xs"
    then have len: "1 < length ys" "length xs - 1 \<le> length ys - 2" using that(1) by (cases xs; simp)+
    then have "(256 :: nat) ^ (length xs - 1) \<le> 256 ^ (length ys - 2)" by (intro power_increasing) simp_all
    then show False using magnitude_length [OF that(1,2)] magnitude_length [OF that(3,4)] that(5) len(1) by linarith
  qed
  have len: "length bs = length cs" using le [OF assms(1-5)] le [OF assms(3,4,1,2) assms(5) [symmetric]] by simp
  obtain xs l ys m where bs: "bs = xs @ [l]" "cs = ys @ [m]" using assms(1,3) by (metis append_butlast_last_id)
  then have xy: "length xs = length ys" using len by simp
  have eq: "nat_of_le xs + 256 ^ length xs * (unat l mod 128) = nat_of_le ys + 256 ^ length xs * (unat m mod 128)"
    using assms(5) by (simp add: bs magnitude_def xy)
  have "nat_of_le xs < 256 ^ length xs" "nat_of_le ys < 256 ^ length xs" using nat_of_le_bound xy by metis+
  then have "nat_of_le xs = nat_of_le ys"
    using arg_cong [OF eq, of "\<lambda>x. x mod 256 ^ length xs"] by (simp only: mod_mult_self2 mod_less)
  moreover from this have "unat l mod 128 = unat m mod 128" using eq by simp
  moreover have "unat l < 256" "unat m < 256" by (rule u8_bound)+
  ultimately have "xs = ys" "unat l = unat m"
    using assms(6) xy le_of_nat_of_le by (metis, auto simp: bs mod_if split: if_splits)
  from this(2) have "l = m" by (rule word_unat_eq_iff [THEN iffD2])
  then show ?thesis using \<open>xs = ys\<close> by (simp add: bs)
qed

lemma scriptint_value_inj:
  assumes "scriptint_minimal bs" "scriptint_minimal cs" "scriptint_value bs = scriptint_value cs"
  shows "bs = cs"
proof -
  have pos: "0 < magnitude bs" if "bs \<noteq> []" "scriptint_minimal bs" for bs
  proof (cases "length bs = 1")
    case False
    then have "1 < length bs" using that(1) by (cases bs) simp_all
    moreover have "0 < (128 :: nat) * 256 ^ (length bs - 2)" by simp
    ultimately show ?thesis using magnitude_length [OF that] by linarith
  qed (use magnitude_length [OF that] in simp)
  show ?thesis
  proof (cases "bs = [] \<or> cs = []")
    case True
    then show ?thesis using assms scriptint_value_magnitude pos by (cases "bs = []"; cases "cs = []"; force split: if_splits)
  next
    case False
    then show ?thesis
      using magnitude_inj [of bs cs] assms scriptint_value_magnitude [of bs] scriptint_value_magnitude [of cs] pos [of bs] pos [of cs]
      by (simp split: if_splits)
  qed
qed

subsection \<open>The writer\<close>

lemma magnitude_loop_result:
  "0 < unat mag \<Longrightarrow> unat mag < 256 ^ Suc k \<Longrightarrow> length out + k \<le> 8 \<Longrightarrow>
     \<exists>top low. magnitude_loop mag out = Ok (top, out @ low) \<and> 0 < unat top \<and> unat top < 256
       \<and> unat mag = nat_of_le low + 256 ^ length low * unat top"
proof (induction k arbitrary: mag out)
  case 0
  then have "\<not> mag > 0xFF" by (simp add: word_less_nat_alt)
  then show ?case using 0 by (intro exI [of _ mag] exI [of _ "[]"]) (simp add: magnitude_loop.simps)
next
  case (Suc k)
  show ?case
  proof (cases "mag > 0xFF")
    case False
    then show ?thesis using Suc.prems
      by (intro exI [of _ mag] exI [of _ "[]"]) (simp add: magnitude_loop.simps word_less_nat_alt)
  next
    case True
    let ?b = "ucast (mag AND 0xFF) :: u8" and ?mag = "drop_bit 8 mag"
    have b: "unat ?b = unat mag mod 256"
      using take_bit_eq_mask [of 8 "unat mag"] by (simp add: mask_eq_exp_minus_1 unat_ucast_mod unsigned_and_eq take_bit_eq_mod)
    have m: "unat ?mag = unat mag div 256" by (simp add: drop_bit_eq_div unat_div)
    have "0 < unat ?mag" using True by (simp add: m word_less_nat_alt div_greater_zero_iff)
    moreover have "unat ?mag < 256 ^ Suc k" using Suc.prems(2) by (simp add: m less_mult_imp_div_less mult.commute)
    moreover have "length (out @ [?b]) + k \<le> 8" using Suc.prems(3) by simp
    ultimately obtain top low where IH: "magnitude_loop ?mag (out @ [?b]) = Ok (top, (out @ [?b]) @ low)" "0 < unat top" "unat top < 256"
        "unat ?mag = nat_of_le low + 256 ^ length low * unat top" using Suc.IH by blast
    have "unat mag = unat mag mod 256 + 256 * unat ?mag" unfolding m by simp
    then have "unat mag = nat_of_le (?b # low) + 256 ^ length (?b # low) * unat top" using IH(4) b by (simp add: algebra_simps)
    moreover have "magnitude_loop mag out = Ok (top, out @ ?b # low)"
      using True IH(1) Suc.prems(3) by (subst magnitude_loop.simps) (simp add: put_byte_def)
    ultimately show ?thesis using IH(2,3) by blast
  qed
qed

lemma unat_unsigned_abs: "\<bar>n\<bar> \<le> 2 ^ 63 \<Longrightarrow> unat (i64_unsigned_abs n) = nat \<bar>n\<bar>"
  by (simp add: i64_unsigned_abs_def unat_eq_nat_uint take_bit_int_eq_self uint_word_of_int_eq)

lemma u64_top: "unat (mag :: u64) < 256 \<Longrightarrow> mag AND 0x80 \<noteq> 0 \<longleftrightarrow> 128 \<le> unat mag"
proof -
  assume b: "unat mag < 256"
  have "mag AND 0x80 = (if bit mag 7 then 0x80 else 0)"
    by (rule bit_eqI) (auto simp: bit_simps bit_numeral_rec(1) less_Suc_eq numeral_eq_Suc)
  moreover have "bit mag 7 \<longleftrightarrow> odd (unat mag div 128)"
    using bit_unsigned_iff [of mag 7, where ?'a = nat] by (simp add: bit_iff_odd [of "unat mag"])
  moreover have "odd (unat mag div 128) \<longleftrightarrow> 128 \<le> unat mag"
  proof (cases "128 \<le> unat mag")
    case True
    have "unat mag div 128 = 1" by (rule div_nat_eqI) (use True b in simp_all)
    then show ?thesis using True by simp
  qed simp
  ultimately show ?thesis by auto
qed

lemma unat_or_sign:
  assumes "unat (mag :: u64) < 128"
  shows "unat (ucast (mag OR (if neg then 0x80 else 0)) :: u8) = unat mag + (if neg then 128 else 0)"
proof -
  have "uint mag < 128" using assms unfolding uint_nat by linarith
  then have "take_bit 7 (uint mag) = uint mag" by (simp add: take_bit_int_eq_self)
  then have "uint mag OR 128 = uint mag + 128"
    using concat_bit_eq [of 7 "uint mag" 1] concat_bit_def [of 7 "uint mag" 1] by (simp add: push_bit_eq_mult)
  moreover have "uint (mag OR 0x80) = uint mag OR 128" by (simp add: unsigned_or_eq)
  ultimately have "int (unat (mag OR 0x80)) = int (unat mag + 128)" unfolding uint_nat of_nat_add by (simp only: of_nat_numeral)
  then have "unat (mag OR 0x80) = unat mag + 128" by (simp only: of_nat_eq_iff)
  then have "unat (mag OR (if neg then 0x80 else 0)) = unat mag + (if neg then 128 else 0)" by simp
  then show ?thesis using assms by (simp add: unat_ucast_mod)
qed

lemma short_magnitude:
  assumes "x = a + 256 ^ k * (t :: nat)" "c \<le> t" "x < 256 ^ m * c"
  shows "k < m"
proof -
  have "(256 :: nat) ^ k * c \<le> 256 ^ k * t" using assms(2) by (intro mult_le_mono2)
  then have "(256 :: nat) ^ k * c < 256 ^ m * c" using assms(1,3) by linarith
  then have "(256 :: nat) ^ k < 256 ^ m" by simp
  then show ?thesis by (simp only: power_strict_increasing_iff)
qed

text \<open>All numbers but the least: the bytes are minimal and stand for the number, and the buffer is large enough.\<close>

lemma write_scriptint_value:
  assumes "\<bar>n\<bar> < 2 ^ 63"
  shows "\<exists>bs. write_scriptint n = Ok bs \<and> scriptint_minimal bs \<and> scriptint_value bs = n"
proof (cases "n = 0")
  case True
  then show ?thesis by (simp add: write_scriptint_def scriptint_minimal_def)
next
  case False
  let ?m = "i64_unsigned_abs n" and ?sign = "if n < 0 then 0x80 else 0 :: u8"
  have m: "unat ?m = nat \<bar>n\<bar>" using assms by (intro unat_unsigned_abs) simp
  then have "0 < unat ?m" "unat ?m < 256 ^ Suc 7" using False assms by simp_all
  from magnitude_loop_result [OF this, of "[]"] obtain top low
    where loop: "magnitude_loop ?m [] = Ok (top, low)" and top: "0 < unat top" "unat top < 256"
      and sum: "nat \<bar>n\<bar> = nat_of_le low + 256 ^ length low * unat top" using m by auto
  have len: "length low < 8" by (rule short_magnitude [OF sum, of 1]) (use top(1) assms in simp_all)
  show ?thesis
  proof (cases "128 \<le> unat top")
    case True
    have len: "length low < 7" by (rule short_magnitude [OF sum True]) (use assms in simp)
    let ?bs = "low @ [ucast top, ?sign]"
    have t: "unat (ucast top :: u8) = unat top" using top by (simp add: unat_ucast_mod)
    have "write_scriptint n = Ok ?bs"
      using False loop True u64_top [OF top(2)] len by (simp add: write_scriptint_def put_byte_def Let_def)
    moreover have "scriptint_minimal ?bs" using True t by (simp add: scriptint_minimal_def nth_append)
    moreover have "magnitude ?bs = nat \<bar>n\<bar>" using sum t by (simp add: magnitude_def butlast_append nat_of_le_append)
    then have "scriptint_value ?bs = n" by (simp add: scriptint_value_magnitude)
    ultimately show ?thesis by blast
  next
    case False': False
    let ?l = "ucast (top OR (if n < 0 then 0x80 else 0)) :: u8" and ?bs = "low @ [ucast (top OR (if n < 0 then 0x80 else 0))] :: bytes"
    have l: "unat ?l = unat top + (if n < 0 then 128 else 0)" using False' by (intro unat_or_sign) simp
    have "write_scriptint n = Ok ?bs"
      using False loop False' u64_top [OF top(2)] len by (simp add: write_scriptint_def put_byte_def Let_def)
    moreover have mod: "unat ?l mod 128 = unat top" using False' unfolding l by simp
    then have "scriptint_minimal ?bs" using top(1) by (simp add: scriptint_minimal_def del: ucast_eq_word_of_nat)
    moreover have "magnitude ?bs = nat \<bar>n\<bar>" using sum mod by (simp add: magnitude_def)
    then have "scriptint_value ?bs = n" using l False' by (simp add: scriptint_value_magnitude split: if_splits)
    ultimately show ?thesis by blast
  qed
qed

text \<open>The least number has a magnitude of 2^63, for which nine bytes are needed.\<close>

lemma write_scriptint_min: "write_scriptint (- (2 ^ 63)) = Panic"
proof -
  let ?m = "i64_unsigned_abs (- (2 ^ 63))"
  have m: "unat ?m = 2 ^ 63" using unat_unsigned_abs [of "- (2 ^ 63)"] by simp
  then have "0 < unat ?m" "unat ?m < 256 ^ Suc 7" by simp_all
  from magnitude_loop_result [OF this, of "[]"] obtain top low
    where loop: "magnitude_loop ?m [] = Ok (top, low)" and top: "0 < unat top" "unat top < 256"
      and sum: "2 ^ 63 = nat_of_le low + 256 ^ length low * unat top" using m by auto
  have lt: "nat_of_le low < 256 ^ length low" by (rule nat_of_le_bound)
  have "256 ^ length low * unat top \<le> 256 ^ length low * 255" using top(2) by (intro mult_le_mono2) simp
  then have "(2 :: nat) ^ 63 < 256 ^ length low * 256" using sum lt by linarith
  then have "(256 :: nat) ^ 7 < 256 ^ Suc (length low)" by simp
  then have "7 \<le> length low" by (simp only: power_strict_increasing_iff)
  moreover have "length low < 8" by (rule short_magnitude [OF sum, of 1]) (use top(1) in simp_all)
  ultimately have len: "length low = 7" by simp
  then have "128 \<le> unat top" using sum lt by simp
  then show ?thesis
    using loop u64_top [OF top(2)] len by (simp add: write_scriptint_def put_byte_def Let_def)
qed

subsection \<open>The readers\<close>

lemma u8_low: "(b :: u8) AND 0x7F = 0 \<longleftrightarrow> unat b mod 128 = 0"
proof -
  have "unat (b AND 0x7F) = unat b mod 128"
    using take_bit_eq_mask [of 7 "unat b"] by (simp add: mask_eq_exp_minus_1 unsigned_and_eq take_bit_eq_mod)
  then show ?thesis by (metis unat_eq_zero)
qed

lemma scriptint_fold:
  "fold (\<lambda>n (acc, sh). (acc + push_bit sh (uint n), sh + 8)) v (acc, sh)
     = (acc + 2 ^ sh * int (nat_of_le v), sh + 8 * length v)"
proof (induction v arbitrary: acc sh)
  case (Cons b v)
  have "push_bit sh (uint b) = 2 ^ sh * int (unat b)" by (simp add: push_bit_eq_mult)
  then show ?case using Cons.IH [of "acc + push_bit sh (uint b)" "sh + 8"] by (simp add: algebra_simps power_add)
qed simp

lemma scriptint_parse_value:
  assumes "v \<noteq> []"
  shows "scriptint_parse v = scriptint_value v"
proof -
  obtain xs l where v: "v = xs @ [l]" using assms by (metis append_butlast_last_id)
  have l: "unat l < 256" by (rule u8_bound)
  have len: "8 * length v - 1 = 8 * length xs + 7" by (simp add: v)
  have pow: "(2 :: nat) ^ (8 * length xs + 7) = 256 ^ length xs * 128" by (simp add: power_add power_mult)
  have "nat_of_le v mod 2 ^ (8 * length xs + 7) = (nat_of_le xs + 256 ^ length xs * unat l) mod (256 ^ length xs * 128)"
    by (simp add: v nat_of_le_append pow)
  also have "\<dots> = nat_of_le xs + 256 ^ length xs * (unat l mod 128)"
    using nat_of_le_bound [of xs] by (simp add: mod_mult2_eq)
  finally have mod: "nat_of_le v mod 2 ^ (8 * length xs + 7) = magnitude v" by (simp add: magnitude_def v)
  have mask: "int (nat_of_le v) AND (push_bit (8 * length xs + 7) 1 - 1) = int (magnitude v)"
    using take_bit_eq_mask [of "8 * length xs + 7" "int (nat_of_le v)"] arg_cong [OF mod, of int]
    by (simp add: push_bit_eq_mult mask_eq_exp_minus_1 take_bit_eq_mod of_nat_mod)
  have top: "last v AND 0x80 \<noteq> 0 \<longleftrightarrow> 128 \<le> unat (last v)" by (rule u8_top)
  have small: "magnitude v = nat_of_le v" if "\<not> 128 \<le> unat (last v)"
    using that by (simp add: magnitude_def v nat_of_le_append)
  show ?thesis unfolding scriptint_parse_def scriptint_fold prod.case Let_def top scriptint_value_magnitude [OF assms]
    add_0_left power_0 mult_1 using mask small by (simp only: len simp_thms split: if_split) simp
qed

lemma read_scriptint_internal_iff:
  "read_scriptint_internal bs k = Ok n \<longleftrightarrow> length bs \<le> k \<and> scriptint_minimal bs \<and> scriptint_value bs = n"
proof (cases "bs = []")
  case False
  have "128 \<le> unat (bs ! (length bs - 2)) \<longleftrightarrow> bs ! (length bs - 2) AND 0x80 \<noteq> 0" by (simp only: u8_top)
  then show ?thesis
    using False by (auto simp: read_scriptint_internal_def scriptint_minimal_def u8_low scriptint_parse_value)
qed (auto simp: read_scriptint_internal_def scriptint_minimal_def)

lemma magnitude_bound: "bs \<noteq> [] \<Longrightarrow> magnitude bs < 128 * 256 ^ (length bs - 1)"
proof -
  assume "bs \<noteq> []"
  then obtain xs l where bs: "bs = xs @ [l]" by (metis append_butlast_last_id)
  have lt: "nat_of_le xs < 256 ^ length xs" by (rule nat_of_le_bound)
  have "256 ^ length xs * (unat l mod 128) \<le> 256 ^ length xs * 127" by (intro mult_le_mono2) simp
  moreover have "magnitude bs = nat_of_le xs + 256 ^ length xs * (unat l mod 128)" "length bs - 1 = length xs"
    by (simp_all add: magnitude_def bs)
  ultimately show ?thesis using lt by (simp only:)
qed

lemma scriptint_value_bound:
  assumes "length bs \<le> Suc k"
  shows "\<bar>scriptint_value bs\<bar> < 128 * 256 ^ k"
proof (cases "bs = []")
  case False
  have "(256 :: nat) ^ (length bs - 1) \<le> 256 ^ k" using assms by (intro power_increasing) simp_all
  then have "magnitude bs < 128 * 256 ^ k" using magnitude_bound [OF False] by linarith
  then have "int (magnitude bs) < int (128 * 256 ^ k)" by (simp only: of_nat_less_iff)
  then show ?thesis by (simp add: scriptint_value_magnitude [OF False])
qed simp

lemma write_scriptint_iff:
  assumes "- (2 ^ 63) \<le> n" "n < 2 ^ 63"
  shows "write_scriptint n = Ok bs \<longleftrightarrow> n \<noteq> - (2 ^ 63) \<and> scriptint_minimal bs \<and> scriptint_value bs = n"
proof (cases "n = - (2 ^ 63)")
  case False
  then have "\<bar>n\<bar> < 2 ^ 63" using assms by simp
  then show ?thesis using write_scriptint_value [of n] scriptint_value_inj False by auto
qed (use write_scriptint_min in simp)

lemma read_scriptint_no_panic: "read_scriptint bs \<noteq> Panic" "read_cltv_scriptint bs \<noteq> Panic" "read_scriptint_non_minimal bs \<noteq> Panic"
proof -
  have int32: "i32_try_from (scriptint_value bs) \<noteq> (Panic :: (script_int_error, int) res)" if "length bs \<le> 4"
    using scriptint_value_bound [of bs 3] that by (auto simp: i32_try_from_def)
  then show "read_scriptint bs \<noteq> Panic" "read_cltv_scriptint bs \<noteq> Panic" "read_scriptint_non_minimal bs \<noteq> Panic"
    by (auto simp: read_scriptint_def read_scriptint_internal_def read_cltv_scriptint_def read_scriptint_non_minimal_def
        scriptint_parse_value)
qed

text \<open>
  Numbers in scripts: the reader of lock times accepts exactly the at most five bytes that the writer writes
  for a number, the reader of operands exactly the at most four; no reader panics, and the writer
  panics for the least number only.
\<close>

theorem scriptint_roundtrip:
  assumes "- (2 ^ 63) \<le> n" "n < 2 ^ 63"
  shows "(read_cltv_scriptint bs = Ok n \<longleftrightarrow> length bs \<le> 5 \<and> write_scriptint n = Ok bs)
    \<and> (read_scriptint bs = Ok n \<longleftrightarrow> length bs \<le> 4 \<and> write_scriptint n = Ok bs)
    \<and> read_scriptint bs \<noteq> Panic \<and> read_cltv_scriptint bs \<noteq> Panic
    \<and> (write_scriptint n = Panic \<longleftrightarrow> n = - (2 ^ 63))"
proof (intro conjI)
  have small: "n \<noteq> - (2 ^ 63)" if "scriptint_value bs = n" "length bs \<le> 5"
    using scriptint_value_bound [of bs 4] that by auto
  show "read_cltv_scriptint bs = Ok n \<longleftrightarrow> length bs \<le> 5 \<and> write_scriptint n = Ok bs"
    using small by (auto simp: read_cltv_scriptint_def read_scriptint_internal_iff write_scriptint_iff [OF assms])
  have "i32_try_from n = (Ok n :: (script_int_error, int) res)" if "scriptint_value bs = n" "length bs \<le> 4"
    using scriptint_value_bound [of bs 3] that by (auto simp: i32_try_from_def)
  moreover have "i32_try_from m = (Ok n :: (script_int_error, int) res) \<Longrightarrow> m = n" for m
    by (auto simp: i32_try_from_def split: if_splits)
  ultimately show "read_scriptint bs = Ok n \<longleftrightarrow> length bs \<le> 4 \<and> write_scriptint n = Ok bs"
    using small by (auto simp: read_scriptint_def res_bind_Ok_iff read_scriptint_internal_iff write_scriptint_iff [OF assms])
  show "write_scriptint n = Panic \<longleftrightarrow> n = - (2 ^ 63)"
  proof (cases "n = - (2 ^ 63)")
    case False
    then have "\<bar>n\<bar> < 2 ^ 63" using assms by simp
    then show ?thesis using write_scriptint_value [of n] False by auto
  qed (use write_scriptint_min in simp)
qed (rule read_scriptint_no_panic)+

theorem scriptint_roundtrip_witness:
  "read_cltv_scriptint [0x00, 0x80, 0x80] = Ok (- 32768) \<and> write_scriptint (- 32768) = Ok [0x00, 0x80, 0x80]"
proof -
  have read: "read_cltv_scriptint [0x00, 0x80, 0x80] = Ok (- 32768)"
    by (simp add: read_cltv_scriptint_def read_scriptint_internal_iff scriptint_minimal_def)
  then show ?thesis using scriptint_roundtrip [of "- 32768" "[0x00, 0x80, 0x80]"] by simp
qed

end
