(* ===== verification/Opcodes.thy ===== *)
theory Opcodes
  imports Prelude
begin

section \<open>Opcodes\<close>

text \<open>
  The opcodes of scripts and their classes (\<open>bitcoin/src/blockdata/opcodes.rs\<close>, \<open>primitives/src/opcodes.rs\<close>). An
  opcode is its byte. The lemmas say that every opcode has a class, and which class the pushes have.
\<close>

datatype classify_context = TapScriptContext | LegacyContext

datatype opcode_class =
    PushNum int
  | PushBytesClass u32
  | ReturnOp
  | SuccessOp
  | IllegalOp
  | NoOp
  | Ordinary u8

definition OP_PUSHDATA1 :: u8 where "OP_PUSHDATA1 = 0x4c"
definition OP_PUSHDATA2 :: u8 where "OP_PUSHDATA2 = 0x4d"
definition OP_PUSHDATA4 :: u8 where "OP_PUSHDATA4 = 0x4e"
definition OP_1NEGATE :: u8 where "OP_1NEGATE = 0x4f"
definition OP_1 :: u8 where "OP_1 = 0x51"
definition OP_16 :: u8 where "OP_16 = 0x60"
definition OP_VERIFY :: u8 where "OP_VERIFY = 0x69"
definition OP_RETURN :: u8 where "OP_RETURN = 0x6a"
definition OP_DUP :: u8 where "OP_DUP = 0x76"
definition OP_EQUAL :: u8 where "OP_EQUAL = 0x87"
definition OP_EQUALVERIFY :: u8 where "OP_EQUALVERIFY = 0x88"
definition OP_NUMEQUAL :: u8 where "OP_NUMEQUAL = 0x9c"
definition OP_NUMEQUALVERIFY :: u8 where "OP_NUMEQUALVERIFY = 0x9d"
definition OP_HASH160 :: u8 where "OP_HASH160 = 0xa9"
definition OP_CHECKSIG :: u8 where "OP_CHECKSIG = 0xac"
definition OP_CHECKSIGVERIFY :: u8 where "OP_CHECKSIGVERIFY = 0xad"
definition OP_CHECKMULTISIG :: u8 where "OP_CHECKMULTISIG = 0xae"
definition OP_CHECKMULTISIGVERIFY :: u8 where "OP_CHECKMULTISIGVERIFY = 0xaf"
definition OP_CHECKSIGADD :: u8 where "OP_CHECKSIGADD = 0xba"

lemmas opcodes = OP_PUSHDATA1_def OP_PUSHDATA2_def OP_PUSHDATA4_def OP_1NEGATE_def OP_1_def OP_16_def OP_VERIFY_def
  OP_RETURN_def OP_DUP_def OP_EQUAL_def OP_EQUALVERIFY_def OP_NUMEQUAL_def OP_NUMEQUALVERIFY_def OP_HASH160_def
  OP_CHECKSIG_def OP_CHECKSIGVERIFY_def OP_CHECKMULTISIG_def OP_CHECKMULTISIGVERIFY_def OP_CHECKSIGADD_def

text \<open>The 61 ordinary opcodes, in the order of the source.\<close>

definition ordinary_opcodes :: "u8 list" where
  "ordinary_opcodes =
     [OP_PUSHDATA1, OP_PUSHDATA2, OP_PUSHDATA4, 0x63, 0x64, 0x67, 0x68, OP_VERIFY, 0x6b, 0x6c,
      0x6d, 0x6e, 0x6f, 0x70, 0x71, 0x72, 0x75, OP_DUP, 0x77, 0x78, 0x79, 0x7a, 0x7b, 0x7c, 0x7d, 0x73, 0x74, 0x82,
      OP_EQUAL, OP_EQUALVERIFY, 0x8b, 0x8c, 0x8f, 0x90, 0x91, 0x92, 0x93, 0x94, 0x9a, 0x9b,
      OP_NUMEQUAL, OP_NUMEQUALVERIFY, 0x9e, 0x9f, 0xa0, 0xa1, 0xa2, 0xa3, 0xa4, 0xa5, 0xa6, 0xa7, 0xa8, OP_HASH160, 0xaa,
      0xab, OP_CHECKSIG, OP_CHECKSIGVERIFY, OP_CHECKMULTISIG, OP_CHECKMULTISIGVERIFY, OP_CHECKSIGADD]"

definition ordinary_with :: "u8 \<Rightarrow> (unit, opcode_class) res" where
  "ordinary_with op = (if op \<in> set ordinary_opcodes then Ok (Ordinary op) else Panic)"

definition classify :: "u8 \<Rightarrow> classify_context \<Rightarrow> (unit, opcode_class) res" where
  "classify op ctx =
     (if op = 0x65 \<or> op = 0x66 \<or> op = 0xff then Ok IllegalOp
      else if op \<in> set [0x7e, 0x7f, 0x80, 0x81, 0x83, 0x84, 0x85, 0x86, 0x8d, 0x8e, 0x95, 0x96, 0x97, 0x98, 0x99]
        \<and> ctx = LegacyContext then Ok IllegalOp
      else if ctx = TapScriptContext \<and>
        (op = 80 \<or> op = 98 \<or> 126 \<le> op \<and> op \<le> 129 \<or> 131 \<le> op \<and> op \<le> 134 \<or> 137 \<le> op \<and> op \<le> 138
         \<or> 141 \<le> op \<and> op \<le> 142 \<or> 149 \<le> op \<and> op \<le> 153 \<or> 187 \<le> op \<and> op \<le> 254) then Ok SuccessOp
      else if op = 0x61 then Ok NoOp
      else if 0xb0 \<le> op \<and> op \<le> 0xb9 then Ok NoOp
      else if op = OP_RETURN then Ok ReturnOp
      else if op \<in> set [0x50, 0x89, 0x8a, 0x62] \<and> ctx = LegacyContext then Ok ReturnOp
      else if ctx = LegacyContext \<and> OP_CHECKSIGADD \<le> op then Ok ReturnOp
      else if ctx = TapScriptContext \<and> (op = OP_CHECKMULTISIG \<or> op = OP_CHECKMULTISIGVERIFY) then Ok ReturnOp
      else if op = OP_1NEGATE then Ok (PushNum (- 1))
      else if OP_1 \<le> op \<and> op \<le> OP_16 then Ok (PushNum (1 + uint op - uint OP_1))
      else if op \<le> 0x4b then Ok (PushBytesClass (ucast op))
      else ordinary_with op)"

definition decode_pushnum :: "u8 \<Rightarrow> u8 option" where
  "decode_pushnum op = (if OP_1 \<le> op \<and> op \<le> OP_16 then Some (op - OP_1 + 1) else None)"

text \<open>Every opcode has a class: what the last case takes is ordinary.\<close>

lemma classify_low: "op \<le> 0x4b \<Longrightarrow> classify op ctx = Ok (PushBytesClass (ucast op))"
proof -
  assume op: "op \<le> 0x4b"
  then have "unat op \<le> 75" by (simp add: word_le_nat_alt)
  then have "op \<noteq> w" if "75 < unat w" for w using that by auto
  then show ?thesis using op
    by (simp add: classify_def opcodes word_le_nat_alt)
qed

lemma classify_enumerated:
  "list_all (\<lambda>n. classify (word_of_nat n) LegacyContext \<noteq> Panic) [0x4c..<0xb0]"
  "list_all (\<lambda>n. classify (word_of_nat n) TapScriptContext \<noteq> Panic) [0x4c..<0xb0]"
  by (simp_all add: upt_rec_numeral classify_def opcodes word_le_nat_alt ordinary_with_def ordinary_opcodes_def)

lemma classify_middle:
  assumes "0x4c \<le> unat op" "unat op < 0xb0"
  shows "classify op ctx \<noteq> Panic"
proof -
  have "unat op \<in> set [0x4c..<0xb0]" unfolding set_upt atLeastLessThan_iff using assms by blast
  then have "classify (word_of_nat (unat op)) LegacyContext \<noteq> Panic" "classify (word_of_nat (unat op)) TapScriptContext \<noteq> Panic"
    using classify_enumerated unfolding list_all_iff by blast+
  then show ?thesis by (cases ctx) simp_all
qed

lemma classify_high: "0xb0 \<le> unat op \<Longrightarrow> classify op ctx \<noteq> Panic"
proof -
  assume op: "0xb0 \<le> unat op"
  have "unat op < 256" by (rule u8_bound)
  then have "unat op \<le> 185 \<or> unat op = 186 \<or> 187 \<le> unat op \<and> unat op \<le> 254 \<or> unat op = 255" using op by linarith
  moreover have "op = 186" if "unat op = 186" by (rule word_unat_eq_iff [THEN iffD2]) (use that in simp)
  moreover have "op = 255" if "unat op = 255" by (rule word_unat_eq_iff [THEN iffD2]) (use that in simp)
  ultimately show ?thesis using op
    by (cases ctx) (auto simp: classify_def opcodes word_le_nat_alt ordinary_with_def ordinary_opcodes_def)
qed

text \<open>Every opcode has a class: what the last case takes is ordinary.\<close>

lemma classify_total: "classify op ctx \<noteq> Panic"
  using classify_low [of op ctx] classify_middle [of op ctx] classify_high [of op ctx]
  by (cases "unat op < 0x4c"; cases "unat op < 0xb0") (auto simp: word_le_nat_alt)

lemma if_neq: "x \<noteq> z \<Longrightarrow> y \<noteq> z \<Longrightarrow> (if c then x else y) \<noteq> z"
  by simp

lemma classify_push: "classify op ctx = Ok (PushBytesClass n) \<longleftrightarrow> op \<le> 0x4b \<and> n = ucast op"
proof (cases "op \<le> 0x4b")
  case False
  have "classify op ctx \<noteq> Ok (PushBytesClass n)"
    unfolding classify_def ordinary_with_def if_not_P [OF False] by (intro if_neq) simp_all
  then show ?thesis using False by simp
qed (simp add: classify_low eq_commute)

lemma classify_ordinary: "classify op ctx = Ok (Ordinary w) \<Longrightarrow> w = op \<and> 0x4b < op"
proof -
  assume c: "classify op ctx = Ok (Ordinary w)"
  have "classify op ctx \<noteq> Ok (Ordinary w)" if "op \<noteq> w"
    unfolding classify_def ordinary_with_def by (intro if_neq) (use that in simp_all)
  then show ?thesis using c classify_low [of op ctx] by (cases "op \<le> 0x4b") auto
qed

lemma classify_pushdata:
  "classify OP_PUSHDATA1 ctx = Ok (Ordinary OP_PUSHDATA1)"
  "classify OP_PUSHDATA2 ctx = Ok (Ordinary OP_PUSHDATA2)"
  "classify OP_PUSHDATA4 ctx = Ok (Ordinary OP_PUSHDATA4)"
  by (simp_all add: classify_def ordinary_with_def ordinary_opcodes_def opcodes)

end
