(* ===== verification/Script_Instructions.thy ===== *)
theory Script_Instructions
  imports Script_Int Opcodes Tx_Parts
begin

section \<open>Instructions of scripts\<close>

text \<open>
  The iterator over the instructions of a script (\<open>bitcoin/src/blockdata/script/instruction.rs\<close> and
  \<open>internals/src/script.rs\<close>). A script is its bytes, an iterator the bytes that are left. The lemmas say which
  bytes stand for which instructions, with and without the rule that pushes be minimal.
\<close>

subsection \<open>The iterator\<close>

datatype instruction = PushBytes bytes | Op u8

datatype script_error =
    NonMinimalPush
  | EarlyEndOfScript
  | NumericOverflow
  | UnknownSpentOutput out_point
  | Serialization

type_synonym instruction_item = "(script_error, instruction) res"

definition read_push_data_len :: "bytes \<Rightarrow> nat \<Rightarrow> (unit, nat) res \<times> bytes" where
  "read_push_data_len data count =
     (if length data < count then (Err (), data)
      else (Ok (fold (\<lambda>(i, item) ret. ret OR push_bit (i * 8) (unat item)) (enumerate 0 (take count data)) 0), drop count data))"

text \<open>\<open>kill\<close> moves the slice iterator to the end.\<close>

definition take_slice_or_kill :: "nat \<Rightarrow> bytes \<Rightarrow> (script_error, bytes) res \<times> bytes" where
  "take_slice_or_kill len data =
     (if length data \<ge> len then (Ok (take len data), drop len data) else (Err EarlyEndOfScript, []))"

definition push_item :: "(script_error, bytes) res \<times> bytes \<Rightarrow> instruction_item option \<times> bytes" where
  "push_item r = (Some (res_bind (fst r) (\<lambda>bs. Ok (PushBytes bs))), snd r)"

definition next_push_data_len :: "bool \<Rightarrow> bytes \<Rightarrow> nat \<Rightarrow> nat \<Rightarrow> instruction_item option \<times> bytes" where
  "next_push_data_len enforce_minimal data count min_push_len =
     (case read_push_data_len data count of
        (Ok n, data) \<Rightarrow>
          if enforce_minimal \<and> n < min_push_len then (Some (Err NonMinimalPush), [])
          else if n < 2 ^ 32 then push_item (take_slice_or_kill n data)
          else (Some (Err NumericOverflow), data)
      | (_, data) \<Rightarrow> (Some (Err EarlyEndOfScript), []))"

definition instructions_next :: "bool \<Rightarrow> bytes \<Rightarrow> instruction_item option \<times> bytes" where
  "instructions_next enforce_minimal data =
     (case data of
        [] \<Rightarrow> (None, [])
      | byte # data \<Rightarrow>
          (case classify byte LegacyContext of
             Ok (PushBytesClass n) \<Rightarrow>
               if enforce_minimal \<and> data \<noteq> [] \<and> n = 1 \<and> (hd data = 0x81 \<or> hd data > 0 \<and> hd data \<le> 16)
               then (Some (Err NonMinimalPush), [])
               else if data = [] \<and> n = 0 then (Some (Ok (PushBytes [])), data)
               else push_item (take_slice_or_kill (unat n) data)
           | Ok (Ordinary op) \<Rightarrow>
               if op = OP_PUSHDATA1 then next_push_data_len enforce_minimal data 1 76
               else if op = OP_PUSHDATA2 then next_push_data_len enforce_minimal data 2 0x100
               else if op = OP_PUSHDATA4 then next_push_data_len enforce_minimal data 4 0x10000
               else (Some (Ok (Op byte)), data)
           | Ok _ \<Rightarrow> (Some (Ok (Op byte)), data)
           | _ \<Rightarrow> (Some Panic, data)))"

lemma read_push_data_len_rest: "read_push_data_len data count = (r, data') \<Longrightarrow> length data' \<le> length data"
  by (auto simp: read_push_data_len_def split: if_splits)

lemma instructions_next_shorter:
  "instructions_next m data = (Some r, data') \<Longrightarrow> length data' < length data"
  by (cases data)
     (auto simp: instructions_next_def next_push_data_len_def push_item_def take_slice_or_kill_def
       dest!: read_push_data_len_rest split: if_splits res.splits opcode_class.splits prod.splits)

text \<open>All items.\<close>

function instructions :: "bool \<Rightarrow> bytes \<Rightarrow> instruction_item list" where
  "instructions m data =
     (case instructions_next m data of (None, _) \<Rightarrow> [] | (Some r, data) \<Rightarrow> r # instructions m data)"
  by pat_completeness auto
termination by (relation "measure (\<lambda>(m, data). length data)") (auto dest: instructions_next_shorter [OF sym])

declare instructions.simps [simp del]

subsection \<open>The bytes behind instructions\<close>

definition push_header :: "nat \<Rightarrow> bytes" where
  "push_header n =
     (if n < 0x4c then [word_of_nat n]
      else if n < 0x100 then OP_PUSHDATA1 # le_of_nat 1 n
      else if n < 0x10000 then OP_PUSHDATA2 # le_of_nat 2 n
      else OP_PUSHDATA4 # le_of_nat 4 n)"

fun instruction_bytes :: "instruction \<Rightarrow> bytes" where
  "instruction_bytes (PushBytes bs) = push_header (length bs) @ bs"
| "instruction_bytes (Op op) = [op]"

text \<open>What an iterator can return, and what a minimal one can.\<close>

fun instruction_ok :: "instruction \<Rightarrow> bool" where
  "instruction_ok (PushBytes bs) \<longleftrightarrow> length bs < 2 ^ 32"
| "instruction_ok (Op op) \<longleftrightarrow> 0x4e < op"

definition pushes_number :: "bytes \<Rightarrow> bool" where
  "pushes_number bs \<longleftrightarrow> length bs = 1 \<and> (hd bs = 0x81 \<or> 0 < hd bs \<and> hd bs \<le> 16)"

fun canonical :: "instruction \<Rightarrow> bool" where
  "canonical (PushBytes bs) \<longleftrightarrow> length bs < 2 ^ 32 \<and> \<not> pushes_number bs"
| "canonical (Op op) \<longleftrightarrow> 0x4e < op"

lemma canonical_ok: "canonical i \<Longrightarrow> instruction_ok i"
  by (cases i) auto

subsection \<open>One instruction\<close>

lemma fold_push_data_len:
  "acc < 2 ^ (k * 8) \<Longrightarrow>
     fold (\<lambda>(i, item) ret. ret OR push_bit (i * 8) (unat item)) (enumerate k bs) acc = acc + 2 ^ (k * 8) * nat_of_le bs"
proof (induction bs arbitrary: k acc)
  case (Cons b bs)
  have "2 ^ (k * 8) * Suc (unat b) \<le> 2 ^ (k * 8) * 2 ^ 8" using u8_bound [of b] by (intro mult_le_mono2) simp
  then have "acc + 2 ^ (k * 8) * unat b < 2 ^ (k * 8) * 2 ^ 8" using Cons.prems unfolding mult_Suc_right by linarith
  then have "acc + 2 ^ (k * 8) * unat b < 2 ^ (Suc k * 8)" by (simp add: power_add)
  from Cons.IH [OF this] show ?case using Cons.prems by (simp add: or_push_bit power_add algebra_simps)
qed simp

lemma read_push_data_len_value:
  "read_push_data_len data count =
     (if length data < count then (Err (), data) else (Ok (nat_of_le (take count data)), drop count data))"
  by (simp add: read_push_data_len_def fold_push_data_len)

lemma classify_ok: "\<exists>c. classify op ctx = Ok c"
proof -
  have "classify op ctx \<noteq> Err e" "classify op ctx \<noteq> Diverge" for e
    unfolding classify_def ordinary_with_def by (intro if_neq; simp)+
  then show ?thesis using classify_total [of op ctx] by (cases "classify op ctx") auto
qed

lemma instructions_next_Cons:
  "instructions_next m (byte # data) =
     (if byte \<le> 0x4b then
        if m \<and> data \<noteq> [] \<and> byte = 1 \<and> (hd data = 0x81 \<or> 0 < hd data \<and> hd data \<le> 16)
        then (Some (Err NonMinimalPush), [])
        else push_item (take_slice_or_kill (unat byte) data)
      else if byte = OP_PUSHDATA1 then next_push_data_len m data 1 76
      else if byte = OP_PUSHDATA2 then next_push_data_len m data 2 0x100
      else if byte = OP_PUSHDATA4 then next_push_data_len m data 4 0x10000
      else (Some (Ok (Op byte)), data))"
proof (cases "byte \<le> 0x4b")
  case True
  have one: "(ucast byte = (1 :: u32)) \<longleftrightarrow> byte = 1" "(ucast byte = (0 :: u32)) \<longleftrightarrow> byte = 0"
    by (simp_all add: word_unat_eq_iff unat_ucast_up)
  have u: "unat (ucast byte :: u32) = unat byte" by (rule unat_ucast_up) simp
  show ?thesis using True
    by (simp add: instructions_next_def classify_low one u push_item_def take_slice_or_kill_def del: unsigned_ucast_eq)
next
  case False
  obtain c where c: "classify byte LegacyContext = Ok c" using classify_ok by blast
  show ?thesis
  proof (cases c)
    case (PushBytesClass n)
    then show ?thesis using c False by (simp add: classify_push)
  next
    case (Ordinary w)
    then have "w = byte" using c classify_ordinary by blast
    then show ?thesis using c False Ordinary by (simp add: instructions_next_def)
  qed (use c False classify_pushdata [of LegacyContext] in \<open>auto simp: instructions_next_def\<close>)
qed

lemma take_slice_or_kill_append: "length bs = n \<Longrightarrow> take_slice_or_kill n (bs @ rest) = (Ok bs, rest)"
  by (auto simp: take_slice_or_kill_def)

lemma next_push_data_len_Ok:
  "next_push_data_len m data count k = (Some (Ok i), rest) \<longleftrightarrow>
     (\<exists>bs. i = PushBytes bs \<and> data = le_of_nat count (length bs) @ bs @ rest \<and> length bs < 256 ^ count
        \<and> length bs < 2 ^ 32 \<and> (m \<longrightarrow> k \<le> length bs))" (is "?l \<longleftrightarrow> ?r")
proof
  assume l: ?l
  then have short: "count \<le> length data"
    by (auto simp: next_push_data_len_def read_push_data_len_value split: if_splits)
  define n where "n = nat_of_le (take count data)"
  have n: "\<not> (m \<and> n < k)" "n < 2 ^ 32" "push_item (take_slice_or_kill n (drop count data)) = (Some (Ok i), rest)"
    using l short by (auto simp: next_push_data_len_def read_push_data_len_value n_def split: if_splits)
  then have i: "i = PushBytes (take n (drop count data))" "rest = drop n (drop count data)" "n \<le> length (drop count data)"
    by (auto simp: push_item_def take_slice_or_kill_def split: if_splits)
  have "le_of_nat count n = take count data"
    unfolding n_def using le_of_nat_of_le [of "take count data"] short by simp
  then have "data = le_of_nat count n @ take n (drop count data) @ rest" unfolding i(2) by (simp only: append_take_drop_id)
  moreover have "n < 256 ^ count" unfolding n_def using nat_of_le_bound [of "take count data"] short by simp
  ultimately show ?r using n i by (intro exI [of _ "take n (drop count data)"]) auto
next
  assume ?r
  then obtain bs where bs: "i = PushBytes bs" "data = le_of_nat count (length bs) @ bs @ rest" "length bs < 256 ^ count"
    "length bs < 2 ^ 32" "m \<longrightarrow> k \<le> length bs" by blast
  have "nat_of_le (take count data) = length bs" using bs(3) by (simp add: bs(2) nat_of_le_of_nat)
  moreover have "drop count data = bs @ rest" "count \<le> length data" by (simp_all add: bs(2))
  ultimately show ?l using bs(1,4,5)
    by (auto simp: next_push_data_len_def read_push_data_len_value take_slice_or_kill_append push_item_def)
qed

lemma next_push_data_len_no_overflow:
  "count \<le> 4 \<Longrightarrow> next_push_data_len m data count k \<noteq> (Some (Err NumericOverflow), rest)"
proof -
  assume count: "count \<le> 4"
  have "nat_of_le (take count data) < 256 ^ length (take count data)" by (rule nat_of_le_bound)
  also have "\<dots> \<le> 256 ^ 4" using count by (intro power_increasing) auto
  finally have "nat_of_le (take count data) < 2 ^ 32" by simp
  then show ?thesis
    by (auto simp: next_push_data_len_def read_push_data_len_value push_item_def take_slice_or_kill_def split: if_splits)
qed

lemma unat_small_u8: "n < 256 \<Longrightarrow> unat (word_of_nat n :: u8) = n"
  by (simp add: unat_word_of_nat_u8)

lemma small_header: "n < 0x4c \<Longrightarrow> (word_of_nat n :: u8) \<le> 0x4b"
  by (simp add: word_le_nat_alt unat_small_u8)

lemma push_header_cases:
  assumes "n < 2 ^ 32"
  obtains "n < 0x4c" "push_header n = [word_of_nat n]"
  | "0x4c \<le> n" "n < 256 ^ 1" "push_header n = OP_PUSHDATA1 # le_of_nat 1 n"
  | "0x100 \<le> n" "n < 256 ^ 2" "push_header n = OP_PUSHDATA2 # le_of_nat 2 n"
  | "0x10000 \<le> n" "n < 256 ^ 4" "push_header n = OP_PUSHDATA4 # le_of_nat 4 n"
  using assms by (cases "n < 0x4c"; cases "n < 0x100"; cases "n < 0x10000") (auto simp: push_header_def)

lemma pushdata_bytes: "\<not> OP_PUSHDATA1 \<le> 0x4b" "\<not> OP_PUSHDATA2 \<le> 0x4b" "\<not> OP_PUSHDATA4 \<le> 0x4b"
  "OP_PUSHDATA2 \<noteq> OP_PUSHDATA1" "OP_PUSHDATA4 \<noteq> OP_PUSHDATA1" "OP_PUSHDATA4 \<noteq> OP_PUSHDATA2"
  by (simp_all add: opcodes word_le_nat_alt)

lemma low_push: "n < 0x4c \<Longrightarrow> length bs = n \<Longrightarrow> \<not> (m \<and> pushes_number bs) \<Longrightarrow>
    instructions_next m (word_of_nat n # bs @ rest) = (Some (Ok (PushBytes bs)), rest)"
proof -
  assume n: "n < 0x4c" "length bs = n" and num: "\<not> (m \<and> pushes_number bs)"
  have u: "unat (word_of_nat n :: u8) = n" using n by (simp add: unat_small_u8)
  have "\<not> (m \<and> bs @ rest \<noteq> [] \<and> word_of_nat n = (1 :: u8) \<and> (hd (bs @ rest) = 0x81 \<or> 0 < hd (bs @ rest) \<and> hd (bs @ rest) \<le> 16))"
  proof
    assume a: "m \<and> bs @ rest \<noteq> [] \<and> word_of_nat n = (1 :: u8) \<and> (hd (bs @ rest) = 0x81 \<or> 0 < hd (bs @ rest) \<and> hd (bs @ rest) \<le> 16)"
    then have "n = 1" using u by simp
    then show False using a num n by (cases bs) (auto simp: pushes_number_def)
  qed
  then show ?thesis using n u
    by (simp add: instructions_next_Cons small_header push_item_def take_slice_or_kill_append del: hd_append)
qed

lemma next_encoded:
  assumes "instruction_ok i" "m \<Longrightarrow> canonical i"
  shows "instructions_next m (instruction_bytes i @ rest) = (Some (Ok i), rest)"
proof (cases i)
  case (Op op)
  then have "\<not> op \<le> 0x4b" "op \<noteq> OP_PUSHDATA1" "op \<noteq> OP_PUSHDATA2" "op \<noteq> OP_PUSHDATA4"
    using assms(1) by (auto simp: opcodes word_le_nat_alt word_less_nat_alt)
  then show ?thesis using Op by (simp add: instructions_next_Cons)
next
  case (PushBytes bs)
  then have len: "length bs < 2 ^ 32" "\<not> (m \<and> pushes_number bs)" using assms by auto
  from len(1) show ?thesis
  proof (cases rule: push_header_cases)
    case 1
    then show ?thesis using PushBytes low_push [OF 1(1) refl len(2)] by simp
  qed (use PushBytes len in \<open>simp_all add: instructions_next_Cons pushdata_bytes next_push_data_len_Ok\<close>)
qed

lemma push_header_at:
  "n < 0x4c \<Longrightarrow> push_header n = [word_of_nat n]"
  "76 \<le> n \<Longrightarrow> n < 256 ^ 1 \<Longrightarrow> push_header n = OP_PUSHDATA1 # le_of_nat 1 n"
  "0x100 \<le> n \<Longrightarrow> n < 256 ^ 2 \<Longrightarrow> push_header n = OP_PUSHDATA2 # le_of_nat 2 n"
  "0x10000 \<le> n \<Longrightarrow> push_header n = OP_PUSHDATA4 # le_of_nat 4 n"
  by (simp_all add: push_header_def)

lemma next_decoded:
  assumes "instructions_next True data = (Some (Ok i), rest)"
  shows "canonical i \<and> data = instruction_bytes i @ rest"
proof -
  obtain byte tl where data: "data = byte # tl" using assms by (cases data) (auto simp: instructions_next_def)
  consider "byte \<le> 0x4b" | "byte = OP_PUSHDATA1" | "byte = OP_PUSHDATA2" | "byte = OP_PUSHDATA4"
    | "0x4e < byte"
    by (cases "unat byte \<le> 75"; cases "unat byte = 76"; cases "unat byte = 77"; cases "unat byte = 78")
       (auto simp: word_le_nat_alt word_less_nat_alt opcodes word_unat_eq_iff)
  then show ?thesis
  proof cases
    case 1
    then have low: "unat byte < 0x4c" by (simp add: word_le_nat_alt)
    then have bs: "unat byte \<le> length tl" "i = PushBytes (take (unat byte) tl)" "rest = drop (unat byte) tl"
      and num: "\<not> (tl \<noteq> [] \<and> byte = 1 \<and> (hd tl = 0x81 \<or> 0 < hd tl \<and> hd tl \<le> 16))"
      using assms 1 by (auto simp: data instructions_next_Cons push_item_def take_slice_or_kill_def split: if_splits)
    have "\<not> pushes_number (take (unat byte) tl)"
    proof
      assume p: "pushes_number (take (unat byte) tl)"
      then have "unat byte = 1" "tl \<noteq> []" using bs(1) by (auto simp: pushes_number_def)
      moreover from this have "byte = 1" by (simp add: word_unat_eq_iff)
      ultimately show False using p num by (cases tl) (auto simp: pushes_number_def)
    qed
    then show ?thesis using low bs by (simp add: data push_header_at)
  next
    case 5
    then have "\<not> byte \<le> 0x4b" "byte \<noteq> OP_PUSHDATA1" "byte \<noteq> OP_PUSHDATA2" "byte \<noteq> OP_PUSHDATA4"
      by (auto simp: opcodes word_le_nat_alt word_less_nat_alt)
    then show ?thesis using assms 5 by (auto simp: data instructions_next_Cons)
  qed (use assms in \<open>auto simp: data instructions_next_Cons pushdata_bytes next_push_data_len_Ok push_header_at pushes_number_def\<close>)
qed

lemma next_ok: "instructions_next m data = (Some (Ok i), rest) \<Longrightarrow> instruction_ok i"
proof -
  assume n: "instructions_next m data = (Some (Ok i), rest)"
  then obtain byte tl where data: "data = byte # tl" by (cases data) (auto simp: instructions_next_def)
  have "0x4e < byte" if "\<not> byte \<le> 0x4b" "byte \<noteq> OP_PUSHDATA1" "byte \<noteq> OP_PUSHDATA2" "byte \<noteq> OP_PUSHDATA4"
    using that by (auto simp: word_le_nat_alt word_less_nat_alt opcodes word_unat_eq_iff)
  moreover have "unat byte < 2 ^ 32" using u8_bound [of byte] by simp
  ultimately show ?thesis using n
    by (auto simp: data instructions_next_Cons push_item_def take_slice_or_kill_def next_push_data_len_Ok split: if_splits)
qed

text \<open>After an error there is nothing left, and there is no other way to fail.\<close>

lemma next_error: "instructions_next m data = (Some r, rest) \<Longrightarrow> (\<exists>i. r = Ok i) \<or> (\<exists>e. r = Err e) \<and> rest = []"
proof -
  assume n: "instructions_next m data = (Some r, rest)"
  then obtain byte tl where data: "data = byte # tl" by (cases data) (auto simp: instructions_next_def)
  have "next_push_data_len m tl c k = (Some r, rest) \<Longrightarrow> c \<le> 4 \<Longrightarrow> (\<exists>i. r = Ok i) \<or> (\<exists>e. r = Err e) \<and> rest = []" for c k
    using next_push_data_len_no_overflow [of c m tl k rest]
    by (auto simp: next_push_data_len_def read_push_data_len_value push_item_def take_slice_or_kill_def split: if_splits)
  then show ?thesis using n
    by (auto simp: data instructions_next_Cons push_item_def take_slice_or_kill_def split: if_splits)
qed

subsection \<open>All instructions\<close>

lemma instructions_Nil [simp]: "instructions m [] = []"
  by (simp add: instructions.simps instructions_next_def)

lemma instructions_eq_Nil [simp]: "instructions m data = [] \<longleftrightarrow> data = []"
proof (cases data)
  case (Cons byte tl)
  have "\<exists>r rest. instructions_next m data = (Some r, rest)"
    by (auto simp: Cons instructions_next_Cons push_item_def next_push_data_len_def read_push_data_len_value split: if_splits)
  then show ?thesis using Cons by (auto simp: instructions.simps)
qed simp

lemma instructions_step:
  "instructions_next m data = (Some r, rest) \<Longrightarrow> instructions m data = r # instructions m rest"
  by (simp add: instructions.simps [of m data])

lemma instructions_Cons_iff:
  "instructions m data = r # rs \<longleftrightarrow> (\<exists>rest. instructions_next m data = (Some r, rest) \<and> instructions m rest = rs)"
  by (subst instructions.simps) (auto split: prod.splits option.splits)

lemma instructions_encoded:
  "list_all instruction_ok is \<Longrightarrow> (m \<Longrightarrow> list_all canonical is) \<Longrightarrow>
     instructions m (concat (map instruction_bytes is) @ rest) = map Ok is @ instructions m rest"
  by (induction "is") (simp_all add: instructions_step next_encoded)

lemma instructions_decoded:
  "instructions True data = map Ok is \<Longrightarrow> list_all canonical is \<and> data = concat (map instruction_bytes is)"
proof (induction "is" arbitrary: data)
  case (Cons i "is")
  then obtain rest where "instructions_next True data = (Some (Ok i), rest)" "instructions True rest = map Ok is"
    by (auto simp: instructions_Cons_iff)
  then show ?case using Cons.IH next_decoded by fastforce
qed simp

text \<open>An error is the last item.\<close>

lemma instructions_error_last:
  "instructions m data = rs \<Longrightarrow> \<exists>is e. list_all instruction_ok is \<and> (rs = map Ok is \<or> rs = map Ok is @ [Err e])"
proof (induction rs arbitrary: data)
  case (Cons r rs)
  then obtain rest where rest: "instructions_next m data = (Some r, rest)" "instructions m rest = rs"
    by (auto simp: instructions_Cons_iff)
  from next_error [OF rest(1)] show ?case
  proof
    assume "\<exists>i. r = Ok i"
    then obtain i where i: "r = Ok i" by blast
    obtain "is" e where "list_all instruction_ok is" "rs = map Ok is \<or> rs = map Ok is @ [Err e]"
      using Cons.IH [OF rest(2)] by blast
    moreover have "instruction_ok i" using rest(1) i next_ok by blast
    ultimately show ?thesis using i by (intro exI [of _ "i # is"] exI [of _ e]) auto
  next
    assume "(\<exists>e. r = Err e) \<and> rest = []"
    then show ?thesis using rest(2) by (intro exI [of _ "[]"]) auto
  qed
qed (intro exI [of _ "[]"], simp)

lemma instructions_length: "length (instructions m script) \<le> length script"
proof (induction m script rule: instructions.induct)
  case (1 m data)
  show ?case
  proof (cases "instructions_next m data")
    case (Pair r rest)
    then show ?thesis using 1 [OF Pair [symmetric]] instructions_next_shorter [of m data]
      by (cases r) (fastforce simp: instructions.simps [of m data])+
  qed
qed

text \<open>
  Property C15. The minimal iterator accepts exactly the canonical scripts: it returns the instructions and no error if and
  only if the script is the concatenation of their bytes and each is canonical. So a script has at most one sequence of
  instructions, and a sequence of canonical instructions exactly one script.
\<close>

theorem script_minimal_iff:
  "instructions True script = map Ok is \<longleftrightarrow> list_all canonical is \<and> script = concat (map instruction_bytes is)"
  using instructions_decoded [of script "is"] instructions_encoded [of "is" True "[]"] canonical_ok
  by (auto simp: list_all_iff)

text \<open>
  Both iterators end, never panic, return at most one error, and that one last; they return at most as many
  items as the script has bytes, as \<open>size_hint\<close> says.
\<close>

theorem script_iterator_errors:
  "(\<exists>is. list_all instruction_ok is \<and> (instructions m script = map Ok is \<or> (\<exists>e. instructions m script = map Ok is @ [Err e])))
     \<and> length (instructions m script) \<le> length script"
proof
  show "\<exists>is. list_all instruction_ok is \<and> (instructions m script = map Ok is \<or> (\<exists>e. instructions m script = map Ok is @ [Err e]))"
    using instructions_error_last [of m script] by blast
qed (rule instructions_length)

end
