(* ===== verification/Script_Builder.thy ===== *)
theory Script_Builder
  imports Script_Instructions Lock_Times
begin

section \<open>Appending to scripts\<close>

text \<open>
  What appends to a script: \<open>primitives/src/script/owned.rs\<close>, \<open>builder.rs\<close> and
  \<open>bitcoin/src/blockdata/script/owned.rs\<close>. A script and its builder are the bytes written so far; reserving
  capacity has no effect on them.
\<close>

subsection \<open>Pushing opcodes and slices\<close>

definition push_opcode :: "bytes \<Rightarrow> u8 \<Rightarrow> bytes" where
  "push_opcode script data = script @ [data]"

definition push_slice_no_opt :: "bytes \<Rightarrow> bytes \<Rightarrow> bytes" where
  "push_slice_no_opt this data =
     (let n = length data in
      (if n < 0x4c then this @ [word_of_nat n]
       else if n < 0x100 then this @ [OP_PUSHDATA1] @ [word_of_nat n]
       else if n < 0x10000 then this @ [OP_PUSHDATA2] @ [word_of_nat (n mod 0x100)] @ [word_of_nat (n div 0x100)]
       else this @ [OP_PUSHDATA4] @ [word_of_nat (n mod 0x100)] @ [word_of_nat (n div 0x100 mod 0x100)]
              @ [word_of_nat (n div 0x10000 mod 0x100)] @ [word_of_nat (n div 0x1000000)]) @ data)"

definition reserved_len_for_slice :: "nat \<Rightarrow> nat" where
  "reserved_len_for_slice len =
     len + (if len \<le> 0x4b then 1 else if len \<le> 0xff then 2 else if len \<le> 0xffff then 3 else 5)"

definition push_slice_non_minimal :: "bytes \<Rightarrow> bytes \<Rightarrow> bytes" where
  "push_slice_non_minimal script data = push_slice_no_opt script data"

definition push_slice :: "bytes \<Rightarrow> bytes \<Rightarrow> bytes" where
  "push_slice script bs =
     (if length bs = 1 then
        (if hd bs = 0x81 then push_opcode script OP_1NEGATE
         else if 1 \<le> hd bs \<and> hd bs \<le> 16 then push_opcode script (hd bs + (OP_1 - 1))
         else push_slice_non_minimal script bs)
      else push_slice_non_minimal script bs)"

fun push_instruction :: "bytes \<Rightarrow> instruction \<Rightarrow> bytes" where
  "push_instruction script (Op opcode) = push_opcode script opcode"
| "push_instruction script (PushBytes bs) = push_slice script bs"

fun push_instruction_no_opt :: "bytes \<Rightarrow> instruction \<Rightarrow> bytes" where
  "push_instruction_no_opt script (Op opcode) = push_opcode script opcode"
| "push_instruction_no_opt script (PushBytes bs) = push_slice_no_opt script bs"

fun script_serialized_len :: "instruction \<Rightarrow> nat" where
  "script_serialized_len (Op _) = 1"
| "script_serialized_len (PushBytes bs) = reserved_len_for_slice (length bs)"

text \<open>\<open>Extend\<close>, with the upper bound that the iterator gives of its length: at most five instructions are gathered
  first and appended one by one as they are; more are appended with the opcodes for numbers.\<close>

definition extend_script :: "nat option \<Rightarrow> bytes \<Rightarrow> instruction list \<Rightarrow> (unit, bytes) res" where
  "extend_script upper script iter =
     (if (case upper of Some max_len \<Rightarrow> max_len < 6 | None \<Rightarrow> False) then
        if drop 5 iter \<noteq> [] then Panic
        else Ok (fold (\<lambda>instr script. push_instruction_no_opt script instr) (take 5 iter) script)
      else Ok (fold (\<lambda>instr script. push_instruction script instr) iter script))"

definition script_from_iter :: "nat option \<Rightarrow> instruction list \<Rightarrow> (unit, bytes) res" where
  "script_from_iter upper iter = extend_script upper [] iter"

subsection \<open>Pushing numbers\<close>

definition push_int_non_minimal :: "bytes \<Rightarrow> int \<Rightarrow> (unit, bytes) res" where
  "push_int_non_minimal script data = res_bind (write_scriptint data) (\<lambda>buf. Ok (push_slice_no_opt script buf))"

definition push_int_unchecked :: "bytes \<Rightarrow> int \<Rightarrow> (unit, bytes) res" where
  "push_int_unchecked script n =
     (if n = - 1 then Ok (push_opcode script OP_1NEGATE)
      else if n = 0 then Ok (push_opcode script 0)
      else if 1 \<le> n \<and> n \<le> 16 then Ok (push_opcode script (word_of_int n + (OP_1 - 1)))
      else push_int_non_minimal script n)"

definition push_int :: "bytes \<Rightarrow> int \<Rightarrow> (script_error, bytes) res" where
  "push_int script n =
     (if n = - (2 ^ 31) then Err script_error.NumericOverflow else lift_unit (push_int_unchecked script n))"

definition push_lock_time :: "bytes \<Rightarrow> u32 \<Rightarrow> (unit, bytes) res" where
  "push_lock_time script lock_time = push_int_unchecked script (uint lock_time)"

fun script_num :: "instruction \<Rightarrow> int option" where
  "script_num (Op op) = (if 0x51 \<le> op \<and> op \<le> 0x60 then Some (uint op - 0x50) else if op = 0x4f then Some (- 1) else None)"
| "script_num (PushBytes bs) = (case read_scriptint_non_minimal bs of Ok n \<Rightarrow> Some n | _ \<Rightarrow> None)"

fun read_int :: "instruction \<Rightarrow> int option" where
  "read_int (Op op) = (if 0x51 \<le> op \<and> op \<le> 0x60 then Some (uint op - 0x50) else if op = 0x4f then Some (- 1) else None)"
| "read_int (PushBytes bs) = (case read_cltv_scriptint bs of Ok n \<Rightarrow> Some n | _ \<Rightarrow> None)"

subsection \<open>Verify forms\<close>

definition opcode_to_verify :: "u8 option \<Rightarrow> u8 option" where
  "opcode_to_verify opcode =
     (case opcode of None \<Rightarrow> None
      | Some op \<Rightarrow>
          if op = OP_EQUAL then Some OP_EQUALVERIFY
          else if op = OP_NUMEQUAL then Some OP_NUMEQUALVERIFY
          else if op = OP_CHECKSIG then Some OP_CHECKSIGVERIFY
          else if op = OP_CHECKMULTISIG then Some OP_CHECKMULTISIGVERIFY
          else None)"

definition last_opcode :: "bytes \<Rightarrow> u8 option" where
  "last_opcode script =
     (let items = instructions False script in
      if items = [] then None else (case last items of Ok (Op op) \<Rightarrow> Some op | _ \<Rightarrow> None))"

definition last_pushdata :: "bytes \<Rightarrow> bytes option" where
  "last_pushdata script =
     (let items = instructions False script in
      if items = [] then None else (case last items of Ok (PushBytes bs) \<Rightarrow> Some bs | _ \<Rightarrow> None))"

definition push_verify :: "bytes \<Rightarrow> u8 option \<Rightarrow> bytes" where
  "push_verify script last_op =
     (case opcode_to_verify last_op of
        Some opcode \<Rightarrow> push_opcode (butlast script) opcode
      | None \<Rightarrow> push_opcode script OP_VERIFY)"

definition scan_and_push_verify :: "bytes \<Rightarrow> bytes" where
  "scan_and_push_verify script = push_verify script (last_opcode script)"

text \<open>The builder looks for the last opcode itself.\<close>

definition builder_push_verify :: "bytes \<Rightarrow> bytes" where
  "builder_push_verify script =
     (case opcode_to_verify (last_opcode script) of
        Some opcode \<Rightarrow> push_opcode (butlast script) opcode
      | None \<Rightarrow> push_opcode script OP_VERIFY)"

subsection \<open>What is appended\<close>

lemma u8_of_mod: "word_of_nat (n mod 256) = (word_of_nat n :: u8)"
  by (simp add: word_unat_eq_iff unat_word_of_nat_u8)

lemma le_of_nat_1: "le_of_nat 1 n = [word_of_nat n]"
  by simp

lemma le_of_nat_2: "le_of_nat 2 n = [word_of_nat (n mod 0x100), word_of_nat (n div 0x100)]"
  by (simp add: numeral_2_eq_2 u8_of_mod)

lemma le_of_nat_4: "le_of_nat 4 n = [word_of_nat (n mod 0x100), word_of_nat (n div 0x100 mod 0x100),
    word_of_nat (n div 0x10000 mod 0x100), word_of_nat (n div 0x1000000)]"
proof -
  have "(4 :: nat) = Suc (Suc (Suc (Suc 0)))" by simp
  then show ?thesis by (simp only: le_of_nat.simps u8_of_mod div_mult2_eq [symmetric]) simp
qed

lemmas le_of_nat_pushdata = le_of_nat_1 le_of_nat_2 le_of_nat_4

lemma push_slice_no_opt_bytes:
  "push_slice_no_opt script bs = script @ instruction_bytes (PushBytes bs)"
  by (simp only: push_slice_no_opt_def push_header_def le_of_nat_pushdata Let_def instruction_bytes.simps) simp

lemma push_instruction_no_opt_bytes: "push_instruction_no_opt script i = script @ instruction_bytes i"
  by (cases i) (simp_all add: push_slice_no_opt_bytes push_opcode_def)

lemma script_serialized_len_bytes: "script_serialized_len i = length (instruction_bytes i)"
  by (cases i) (auto simp: reserved_len_for_slice_def push_header_def)

text \<open>The opcode for a number instead of the push of a byte.\<close>

fun normalise :: "instruction \<Rightarrow> instruction" where
  "normalise (Op op) = Op op"
| "normalise (PushBytes bs) =
     (if pushes_number bs then Op (if hd bs = 0x81 then OP_1NEGATE else hd bs + 0x50) else PushBytes bs)"

lemma number_opcode: "0 < b \<Longrightarrow> b \<le> (16 :: u8) \<Longrightarrow> unat (b + 0x50) = unat b + 80"
proof -
  assume "0 < b" "b \<le> 16"
  then have "unat b + unat (0x50 :: u8) < 2 ^ LENGTH(8)" by (simp add: word_le_nat_alt)
  then show ?thesis using unat_add_lem [where 'a = 8, of b "0x50"] by simp
qed

lemma canonical_normalise: "instruction_ok i \<Longrightarrow> canonical (normalise i)"
  by (cases i) (auto simp: pushes_number_def opcodes word_less_nat_alt number_opcode)

lemma push_instruction_bytes: "push_instruction script i = script @ instruction_bytes (normalise i)"
  by (cases i) (auto simp: push_slice_def push_slice_non_minimal_def push_slice_no_opt_bytes push_opcode_def pushes_number_def
      word_le_nat_alt word_less_nat_alt opcodes)

lemma fold_push_instruction: "fold (\<lambda>i s. push_instruction s i) is script = script @ concat (map instruction_bytes (map normalise is))"
  by (induction "is" arbitrary: script) (simp_all add: push_instruction_bytes)

lemma fold_push_instruction_no_opt: "fold (\<lambda>i s. push_instruction_no_opt s i) is script = script @ concat (map instruction_bytes is)"
  by (induction "is" arbitrary: script) (simp_all add: push_instruction_no_opt_bytes)

lemma canonical_map_normalise: "list_all instruction_ok is \<Longrightarrow> list_all canonical (map normalise is)"
  by (induction "is") (simp_all add: canonical_normalise)

lemma extend_script_bytes:
  assumes "\<And>n. upper = Some n \<Longrightarrow> length is \<le> n"
  shows "extend_script upper script is = Ok (script @ concat (map instruction_bytes
     (if (case upper of Some n \<Rightarrow> n < 6 | None \<Rightarrow> False) then is else map normalise is)))"
  using assms by (cases upper) (auto simp: extend_script_def fold_push_instruction fold_push_instruction_no_opt)

subsection \<open>Numbers\<close>

lemma scriptint_minimal_length:
  assumes "scriptint_minimal bs" "\<bar>scriptint_value bs\<bar> < 128 * 256 ^ k"
  shows "length bs \<le> Suc k"
proof (cases "bs = []")
  case False
  have v: "\<bar>scriptint_value bs\<bar> = int (magnitude bs)" using scriptint_value_magnitude [OF False] by simp
  have "int (magnitude bs) < int (128 * 256 ^ k)" using v assms(2) by simp
  then have m: "magnitude bs < 128 * 256 ^ k" by (simp only: of_nat_less_iff)
  show ?thesis
  proof (rule ccontr)
    assume long: "\<not> length bs \<le> Suc k"
    then have "128 * 256 ^ (length bs - 2) \<le> magnitude bs" using magnitude_length [OF False assms(1)] by simp
    moreover have "(256 :: nat) ^ k \<le> 256 ^ (length bs - 2)" using long by (intro power_increasing) auto
    ultimately show False using m by linarith
  qed
qed simp

lemma pushes_number_value:
  assumes "pushes_number bs"
  shows "scriptint_value bs = - 1 \<or> 1 \<le> scriptint_value bs \<and> scriptint_value bs \<le> 16"
proof -
  obtain b where b: "bs = [b]" using assms by (cases bs) (auto simp: pushes_number_def)
  have "uint b \<le> 16 \<and> 0 < uint b" if "0 < b" "b \<le> 16"
    using that by (simp add: word_le_def word_less_def)
  moreover have "\<not> 0x80 \<le> b" if "b \<le> 16" using that by (auto simp: word_le_nat_alt)
  ultimately show ?thesis using assms by (auto simp: b pushes_number_def)
qed

lemma push_int_unchecked_instruction:
  assumes "\<bar>n\<bar> < 2 ^ 63"
  shows "\<exists>i. push_int_unchecked script n = Ok (script @ instruction_bytes i) \<and> canonical i
     \<and> (\<bar>n\<bar> < 2 ^ 39 \<longrightarrow> read_int i = Some n) \<and> (\<bar>n\<bar> < 2 ^ 31 \<longrightarrow> script_num i = Some n)"
proof -
  consider "n = - 1" | "n = 0" | "1 \<le> n" "n \<le> 16" | "n \<noteq> - 1" "n \<noteq> 0" "\<not> (1 \<le> n \<and> n \<le> 16)" by linarith
  then show ?thesis
  proof cases
    case 1
    then show ?thesis by (intro exI [of _ "Op OP_1NEGATE"]) (simp add: push_int_unchecked_def push_opcode_def opcodes)
  next
    case 2
    then show ?thesis
      by (intro exI [of _ "PushBytes []"])
         (simp add: push_int_unchecked_def push_opcode_def push_header_def pushes_number_def read_cltv_scriptint_def
           read_scriptint_internal_def read_scriptint_non_minimal_def)
  next
    case 3
    define b where "b = (word_of_int n :: u8)"
    have ub: "uint b = n" using 3 by (simp add: b_def uint_word_of_int)
    then have un: "unat b = nat n" by (simp add: unat_eq_nat_uint)
    have b: "0 < b" "b \<le> 16" using 3 un by (simp_all add: word_less_nat_alt word_le_nat_alt)
    have u: "unat (b + 0x50) = nat n + 80" using number_opcode [OF b] un by simp
    then have "uint (b + 0x50) = n + 0x50" using 3 unfolding uint_nat by linarith
    moreover have "0x51 \<le> b + 0x50" "b + 0x50 \<le> 0x60" "0x4e < b + 0x50"
      using u 3 by (simp_all add: word_le_nat_alt word_less_nat_alt)
    ultimately show ?thesis using 3
      by (intro exI [of _ "Op (b + 0x50)"]) (simp add: push_int_unchecked_def push_opcode_def opcodes b_def [symmetric])
  next
    case 4
    obtain bs where bs: "write_scriptint n = Ok bs" "scriptint_minimal bs" "scriptint_value bs = n"
      using write_scriptint_value [OF assms] by blast
    have "\<bar>scriptint_value bs\<bar> < 128 * 256 ^ 7" using bs(3) assms by simp
    then have len: "length bs \<le> 8" using scriptint_minimal_length [OF bs(2), of 7] by simp
    have len5: "length bs \<le> 5" if "\<bar>n\<bar> < 2 ^ 39" using that scriptint_minimal_length [OF bs(2), of 4] bs(3) by simp
    have len4: "length bs \<le> 4" if "\<bar>n\<bar> < 2 ^ 31" using that scriptint_minimal_length [OF bs(2), of 3] bs(3) by simp
    have "\<not> pushes_number bs" using pushes_number_value [of bs] bs(3) 4 by auto
    moreover have "read_cltv_scriptint bs = Ok n" if "\<bar>n\<bar> < 2 ^ 39"
      using len5 [OF that] bs by (simp add: read_cltv_scriptint_def read_scriptint_internal_iff)
    moreover have "read_scriptint_non_minimal bs = Ok n" if "\<bar>n\<bar> < 2 ^ 31"
      using that len4 [OF that] bs 4 scriptint_parse_value [of bs]
      by (auto simp: read_scriptint_non_minimal_def i32_try_from_def)
    moreover have "push_int_unchecked script n = push_int_non_minimal script n" using 4 by (auto simp: push_int_unchecked_def)
    ultimately show ?thesis using len
      by (intro exI [of _ "PushBytes bs"]) (simp add: push_int_non_minimal_def bs(1) push_slice_no_opt_bytes)
  qed
qed

subsection \<open>The last instruction\<close>

lemma next_split:
  assumes "instructions_next False data = (Some (Ok i), rest)"
  shows "\<exists>enc. data = enc @ rest \<and> (\<forall>r. instructions_next False (enc @ r) = (Some (Ok i), r)) \<and> (\<forall>op. i = Op op \<longrightarrow> enc = [op])"
proof -
  obtain byte tl where data: "data = byte # tl" using assms by (cases data) (auto simp: instructions_next_def)
  consider "byte \<le> 0x4b" | "\<not> byte \<le> 0x4b" "byte = OP_PUSHDATA1 \<or> byte = OP_PUSHDATA2 \<or> byte = OP_PUSHDATA4"
    | "\<not> byte \<le> 0x4b" "byte \<noteq> OP_PUSHDATA1" "byte \<noteq> OP_PUSHDATA2" "byte \<noteq> OP_PUSHDATA4" by blast
  then show ?thesis
  proof cases
    case 1
    then have "unat byte \<le> length tl" "i = PushBytes (take (unat byte) tl)" "rest = drop (unat byte) tl"
      using assms by (auto simp: data instructions_next_Cons push_item_def take_slice_or_kill_def split: if_splits)
    then show ?thesis using 1 unfolding data
      by (intro exI [of _ "byte # take (unat byte) tl"])
         (auto simp: instructions_next_Cons push_item_def take_slice_or_kill_def)
  next
    case 2
    have "\<exists>count k. \<forall>tl. instructions_next False (byte # tl) = next_push_data_len False tl count k"
      using 2(2) by (elim disjE; simp add: instructions_next_Cons pushdata_bytes; blast)
    then obtain count k where next_eq: "\<And>tl. instructions_next False (byte # tl) = next_push_data_len False tl count k"
      by blast
    then obtain bs where bs: "i = PushBytes bs" "tl = le_of_nat count (length bs) @ bs @ rest" "length bs < 256 ^ count" "length bs < 2 ^ 32"
      using assms unfolding data next_eq next_push_data_len_Ok by auto
    then show ?thesis unfolding data
      by (intro exI [of _ "byte # le_of_nat count (length bs) @ bs"]) (simp add: next_eq next_push_data_len_Ok)
  next
    case 3
    then show ?thesis using assms unfolding data by (intro exI [of _ "[byte]"]) (auto simp: instructions_next_Cons)
  qed
qed

lemma instructions_append:
  "instructions False script = map Ok is \<Longrightarrow> instructions False (script @ t) = map Ok is @ instructions False t"
proof (induction "is" arbitrary: script)
  case (Cons i "is")
  then obtain rest where rest: "instructions_next False script = (Some (Ok i), rest)" "instructions False rest = map Ok is"
    by (auto simp: instructions_Cons_iff)
  obtain enc where enc: "script = enc @ rest" "\<And>r. instructions_next False (enc @ r) = (Some (Ok i), r)"
    using next_split [OF rest(1)] by blast
  then show ?case using Cons.IH [OF rest(2)] instructions_step [OF enc(2) [of "rest @ t"]] by simp
qed simp

lemma instructions_last_op:
  "instructions False script = map Ok (is @ [Op op]) \<Longrightarrow>
     \<exists>script'. script = script' @ [op] \<and> instructions False script' = map Ok is"
proof (induction "is" arbitrary: script)
  case Nil
  then obtain rest where rest: "instructions_next False script = (Some (Ok (Op op)), rest)" "instructions False rest = []"
    by (auto simp: instructions_Cons_iff)
  then show ?case using next_split [OF rest(1)] by auto
next
  case (Cons i "is")
  then obtain rest where rest: "instructions_next False script = (Some (Ok i), rest)" "instructions False rest = map Ok (is @ [Op op])"
    by (auto simp: instructions_Cons_iff)
  obtain enc where enc: "script = enc @ rest" "\<And>r. instructions_next False (enc @ r) = (Some (Ok i), r)"
    using next_split [OF rest(1)] by blast
  obtain rest' where "rest = rest' @ [op]" "instructions False rest' = map Ok is" using Cons.IH [OF rest(2)] by blast
  then show ?case using enc instructions_step [OF enc(2) [of rest']] by (intro exI [of _ "enc @ rest'"]) simp
qed

lemma instructions_op: "0x4e < op \<Longrightarrow> instructions m [op] = [Ok (Op op)]"
  using instructions_encoded [of "[Op op]" m "[]"] by simp

definition verify_form :: "instruction list \<Rightarrow> instruction list" where
  "verify_form is =
     (case opcode_to_verify (if is = [] then None else case last is of Op op \<Rightarrow> Some op | PushBytes _ \<Rightarrow> None) of
        Some v \<Rightarrow> butlast is @ [Op v]
      | None \<Rightarrow> is @ [Op OP_VERIFY])"

lemma opcode_to_verify_Some: "opcode_to_verify opcode = Some v \<Longrightarrow> 0x4e < v \<and> opcode \<noteq> None"
  by (auto simp: opcode_to_verify_def opcodes word_less_nat_alt split: option.splits if_splits)

lemma last_opcode_items:
  "instructions False script = map Ok is \<Longrightarrow>
     last_opcode script = (if is = [] then None else case last is of Op op \<Rightarrow> Some op | PushBytes _ \<Rightarrow> None)"
  by (auto simp: last_opcode_def last_map split: instruction.splits)

text \<open>
  \<open>scan_and_push_verify\<close> changes the last instruction of a script that parses: an opcode with a verify
  form becomes that form, and after every other instruction \<open>OP_VERIFY\<close> is appended. The other instructions
  stay as they are, although only bytes are changed.
\<close>

theorem push_verify_items:
  assumes "instructions False script = map Ok is"
  shows "instructions False (scan_and_push_verify script) = map Ok (verify_form is)"
proof (cases "opcode_to_verify (last_opcode script)")
  case None
  have v: "instructions False [OP_VERIFY] = [Ok (Op OP_VERIFY)]"
    by (rule instructions_op) (simp add: opcodes word_less_nat_alt)
  have "verify_form is = is @ [Op OP_VERIFY]" using None by (simp add: verify_form_def last_opcode_items [OF assms])
  then show ?thesis using instructions_append [OF assms, of "[OP_VERIFY]"] None v
    by (simp add: scan_and_push_verify_def push_verify_def push_opcode_def)
next
  case (Some v)
  then obtain op where op: "last_opcode script = Some op" and v: "0x4e < v" using opcode_to_verify_Some by blast
  then have last: "is \<noteq> []" "last is = Op op"
    by (auto simp: last_opcode_items [OF assms] split: if_splits instruction.splits)
  define is' where "is' = butlast is"
  have "is": "is = is' @ [Op op]" using last unfolding is'_def by (metis append_butlast_last_id)
  obtain script' where s: "script = script' @ [op]" "instructions False script' = map Ok is'"
    using instructions_last_op assms unfolding "is" by blast
  have "verify_form is = is' @ [Op v]" using Some op by (simp add: verify_form_def "is")
  then show ?thesis using instructions_append [OF s(2), of "[v]"] instructions_op [OF v, of False] Some
    by (simp add: scan_and_push_verify_def push_verify_def push_opcode_def s(1))
qed

theorem push_verify_items_witness:
  "instructions False (scan_and_push_verify [OP_DUP, OP_EQUAL]) = map Ok (verify_form [Op OP_DUP, Op OP_EQUAL])
     \<and> scan_and_push_verify [OP_DUP, OP_EQUAL] = [OP_DUP, OP_EQUALVERIFY]"
proof -
  have parse: "instructions False [OP_DUP, OP_EQUAL] = map Ok [Op OP_DUP, Op OP_EQUAL]"
    using instructions_encoded [of "[Op OP_DUP, Op OP_EQUAL]" False "[]"] by (simp add: opcodes word_less_nat_alt)
  then have "last_opcode [OP_DUP, OP_EQUAL] = Some OP_EQUAL" unfolding last_opcode_items [OF parse] by simp
  then have "scan_and_push_verify [OP_DUP, OP_EQUAL] = [OP_DUP, OP_EQUALVERIFY]"
    by (simp add: scan_and_push_verify_def push_verify_def opcode_to_verify_def push_opcode_def)
  then show ?thesis using push_verify_items [OF parse] by simp
qed

subsection \<open>Builder and iterator\<close>

text \<open>
  A number that is pushed on a script that parses minimally is read back from its one instruction by
  \<open>read_int\<close> and \<open>script_num\<close>, and the script still parses minimally; only the number that has no
  magnitude in 31 bits is refused.
\<close>

theorem push_int_reads_back:
  assumes "- (2 ^ 31) \<le> n" "n < 2 ^ 31" and "instructions True script = map Ok is"
  shows "if n = - (2 ^ 31) then push_int script n = Err script_error.NumericOverflow
    else \<exists>script' i. push_int script n = Ok script' \<and> instructions True script' = map Ok (is @ [i])
      \<and> read_int i = Some n \<and> script_num i = Some n"
proof (cases "n = - (2 ^ 31)")
  case False
  then have n: "\<bar>n\<bar> < 2 ^ 31" using assms by linarith
  then obtain i where i: "push_int_unchecked script n = Ok (script @ instruction_bytes i)" "canonical i"
    "read_int i = Some n" "script_num i = Some n"
    using push_int_unchecked_instruction [of n script] by auto
  have "list_all canonical is" "script = concat (map instruction_bytes is)" using instructions_decoded [OF assms(3)] by blast+
  then have "instructions True (script @ instruction_bytes i) = map Ok (is @ [i])"
    using instructions_encoded [of "is @ [i]" True "[]"] i(2) canonical_ok by (auto simp: list_all_iff)
  then show ?thesis using False i by (auto simp: push_int_def)
qed (simp add: push_int_def)

theorem push_int_reads_back_witness:
  "\<exists>script' i. push_int [] 1000 = Ok script' \<and> instructions True script' = map Ok ([] @ [i])
     \<and> read_int i = Some 1000 \<and> script_num i = Some 1000"
  using push_int_reads_back [of 1000 "[]" "[]"] by simp

text \<open>
  A script that is collected from instructions parses to them; when it is built from an iterator that may
  have six items or more, pushes of one byte that an opcode for a number can make have become that opcode, and the
  script parses minimally.
\<close>

theorem script_from_iter_parses:
  assumes "list_all instruction_ok is" "case upper of Some n \<Rightarrow> length is \<le> n | None \<Rightarrow> True"
  shows "\<exists>script. script_from_iter upper is = Ok script \<and>
    (if (case upper of Some n \<Rightarrow> n < 6 | None \<Rightarrow> False) then instructions False script = map Ok is
     else instructions True script = map Ok (map normalise is))"
proof -
  let ?short = "case upper of Some n \<Rightarrow> n < 6 | None \<Rightarrow> False"
  have "script_from_iter upper is = Ok (concat (map instruction_bytes (if ?short then is else map normalise is)))"
    unfolding script_from_iter_def using assms(2) by (subst extend_script_bytes) (auto split: option.splits)
  moreover have "instructions False (concat (map instruction_bytes is)) = map Ok is"
    using instructions_encoded [of "is" False "[]"] assms(1) by simp
  moreover have "instructions True (concat (map instruction_bytes (map normalise is))) = map Ok (map normalise is)"
    using instructions_encoded [of "map normalise is" True "[]"] canonical_map_normalise [OF assms(1)] canonical_ok
    by (auto simp: list_all_iff)
  ultimately show ?thesis by auto
qed

theorem script_from_iter_parses_witness:
  "\<exists>script. script_from_iter (Some 1) [PushBytes [5]] = Ok script \<and> instructions False script = [Ok (PushBytes [5])]"
  using script_from_iter_parses [of "[PushBytes [5]]" "Some 1"] by simp

text \<open>The two ways differ: with a small upper bound the push of one byte stays, and does not parse minimally.\<close>

lemma script_from_iter_depends_on_hint:
  "script_from_iter (Some 1) [PushBytes [5]] = Ok [1, 5]" "script_from_iter None [PushBytes [5]] = Ok [0x55]"
  "instructions True [1, 5] = [Err NonMinimalPush]"
proof -
  have "instructions_next True [1, 5] = (Some (Err NonMinimalPush), [])"
    by (simp add: instructions_next_Cons word_le_nat_alt word_less_nat_alt)
  then show "instructions True [1, 5] = [Err NonMinimalPush]" by (simp add: instructions_step)
qed (simp_all add: script_from_iter_def extend_script_def push_slice_no_opt_def push_slice_def opcodes push_opcode_def
    word_le_nat_alt)

end
