(* ===== verification/Script_Templates.thy ===== *)
theory Script_Templates
  imports Script_Builder Compact_Size Fees
begin

section \<open>Standard scripts\<close>

text \<open>
  Witness versions (\<open>primitives/src/witness_version.rs\<close>), witness programs (\<open>addresses/src/witness_program.rs\<close>), the
  constructors of the standard output scripts (\<open>primitives/src/script/owned.rs\<close>, \<open>addresses/src/lib.rs\<close>) and the
  predicates that recognise them (\<open>primitives/src/script/borrowed.rs\<close>, \<open>bitcoin/src/blockdata/script/borrowed.rs\<close>).
  The theorems say that a predicate holds of exactly the scripts that its constructor makes. Hashes and keys
  are their bytes.
\<close>

subsection \<open>Witness versions and programs\<close>

datatype witness_version =
  V0 | V1 | V2 | V3 | V4 | V5 | V6 | V7 | V8 | V9 | V10 | V11 | V12 | V13 | V14 | V15 | V16

fun to_num :: "witness_version \<Rightarrow> u8" where
  "to_num V0 = 0" | "to_num V1 = 1" | "to_num V2 = 2" | "to_num V3 = 3" | "to_num V4 = 4" | "to_num V5 = 5"
| "to_num V6 = 6" | "to_num V7 = 7" | "to_num V8 = 8" | "to_num V9 = 9" | "to_num V10 = 10" | "to_num V11 = 11"
| "to_num V12 = 12" | "to_num V13 = 13" | "to_num V14 = 14" | "to_num V15 = 15" | "to_num V16 = 16"

text \<open>The error carries the number that is no version.\<close>

definition version_try_from_u8 :: "u8 \<Rightarrow> (u8, witness_version) res" where
  "version_try_from_u8 no =
     (if no = 0 then Ok V0 else if no = 1 then Ok V1 else if no = 2 then Ok V2 else if no = 3 then Ok V3
      else if no = 4 then Ok V4 else if no = 5 then Ok V5 else if no = 6 then Ok V6 else if no = 7 then Ok V7
      else if no = 8 then Ok V8 else if no = 9 then Ok V9 else if no = 10 then Ok V10 else if no = 11 then Ok V11
      else if no = 12 then Ok V12 else if no = 13 then Ok V13 else if no = 14 then Ok V14 else if no = 15 then Ok V15
      else if no = 16 then Ok V16 else Err no)"

definition version_try_from_opcode :: "u8 \<Rightarrow> (u8, witness_version) res" where
  "version_try_from_opcode opcode =
     (if opcode = 0 then Ok V0
      else if OP_1 \<le> opcode \<and> opcode \<le> OP_16 then version_try_from_u8 (opcode - OP_1 + 1)
      else Err opcode)"

definition opcode_from_version :: "witness_version \<Rightarrow> u8" where
  "opcode_from_version version = (case version of V0 \<Rightarrow> 0 | no \<Rightarrow> OP_1 + to_num no - 1)"

datatype try_from_instruction_error = TryFrom u8 | DataPush

fun version_try_from_instruction :: "instruction \<Rightarrow> (try_from_instruction_error, witness_version) res" where
  "version_try_from_instruction (Op op) = map_err TryFrom (version_try_from_opcode op)"
| "version_try_from_instruction (PushBytes bs) = (if bs = [] then Ok V0 else Err DataPush)"

record witness_program =
  program_version :: witness_version
  program_bytes :: bytes

datatype witness_program_error = InvalidLength nat | InvalidSegwitV0Length nat

definition witness_program_new :: "witness_version \<Rightarrow> bytes \<Rightarrow> (witness_program_error, witness_program) res" where
  "witness_program_new version bs =
     (let program_len = length bs in
      if program_len < 2 \<or> program_len > 40 then Err (InvalidLength program_len)
      else if version = V0 \<and> program_len \<noteq> 20 \<and> program_len \<noteq> 32 then Err (InvalidSegwitV0Length program_len)
      else Ok \<lparr>program_version = version, program_bytes = bs\<rparr>)"

definition P2A_PROGRAM :: bytes where "P2A_PROGRAM = [78, 115]"

definition program_is_p2wpkh :: "witness_program \<Rightarrow> bool" where
  "program_is_p2wpkh p \<longleftrightarrow> program_version p = V0 \<and> length (program_bytes p) = 20"

definition program_is_p2wsh :: "witness_program \<Rightarrow> bool" where
  "program_is_p2wsh p \<longleftrightarrow> program_version p = V0 \<and> length (program_bytes p) = 32"

definition program_is_p2tr :: "witness_program \<Rightarrow> bool" where
  "program_is_p2tr p \<longleftrightarrow> program_version p = V1 \<and> length (program_bytes p) = 32"

definition program_is_p2a :: "witness_program \<Rightarrow> bool" where
  "program_is_p2a p \<longleftrightarrow> program_version p = V1 \<and> program_bytes p = P2A_PROGRAM"

subsection \<open>Constructors\<close>

definition new_witness_program_unchecked :: "witness_version \<Rightarrow> bytes \<Rightarrow> bytes" where
  "new_witness_program_unchecked version program = push_slice (push_opcode [] (opcode_from_version version)) program"

definition new_witness_program :: "witness_program \<Rightarrow> bytes" where
  "new_witness_program p = push_slice (push_opcode [] (opcode_from_version (program_version p))) (program_bytes p)"

definition new_op_return :: "bytes \<Rightarrow> bytes" where
  "new_op_return data = push_slice (push_opcode [] OP_RETURN) data"

definition new_p2sh :: "bytes \<Rightarrow> bytes" where
  "new_p2sh script_hash = push_opcode (push_slice (push_opcode [] OP_HASH160) script_hash) OP_EQUAL"

definition new_p2a :: bytes where
  "new_p2a = new_witness_program_unchecked V1 P2A_PROGRAM"

definition new_p2wsh :: "bytes \<Rightarrow> bytes" where
  "new_p2wsh script_hash = new_witness_program_unchecked V0 script_hash"

definition new_p2wpkh :: "bytes \<Rightarrow> bytes" where
  "new_p2wpkh pubkey_hash = new_witness_program_unchecked V0 pubkey_hash"

definition new_p2tr_tweaked :: "bytes \<Rightarrow> bytes" where
  "new_p2tr_tweaked output_key = new_witness_program_unchecked V1 output_key"

definition new_p2pk :: "bytes \<Rightarrow> bytes" where
  "new_p2pk pubkey = push_opcode (push_slice [] pubkey) OP_CHECKSIG"

definition new_p2pkh :: "bytes \<Rightarrow> bytes" where
  "new_p2pkh pubkey_hash =
     push_opcode (push_opcode (push_slice (push_opcode (push_opcode [] OP_DUP) OP_HASH160) pubkey_hash) OP_EQUALVERIFY) OP_CHECKSIG"

definition p2wpkh_script_code :: "bytes \<Rightarrow> bytes" where
  "p2wpkh_script_code wpkh =
     push_opcode (push_opcode (push_slice (push_opcode (push_opcode [] OP_DUP) OP_HASH160) wpkh) OP_EQUALVERIFY) OP_CHECKSIG"

subsection \<open>Predicates\<close>

definition script_witness_version :: "bytes \<Rightarrow> witness_version option" where
  "script_witness_version script =
     (let script_len = length script in
      if \<not> (4 \<le> script_len \<and> script_len \<le> 42) then None
      else
        let ver_opcode = script ! 0; push_opbyte = script ! 1 in
        if push_opbyte < 0x02 \<or> push_opbyte > 0x28 then None
        else if script_len - 2 \<noteq> unat push_opbyte then None
        else (case version_try_from_opcode ver_opcode of Ok v \<Rightarrow> Some v | _ \<Rightarrow> None))"

definition is_p2wsh :: "bytes \<Rightarrow> bool" where
  "is_p2wsh script \<longleftrightarrow> length script = 34 \<and> script_witness_version script = Some V0 \<and> script ! 1 = 0x20"

definition is_p2wpkh :: "bytes \<Rightarrow> bool" where
  "is_p2wpkh script \<longleftrightarrow> length script = 22 \<and> script_witness_version script = Some V0 \<and> script ! 1 = 0x14"

definition is_witness_program :: "bytes \<Rightarrow> bool" where
  "is_witness_program script \<longleftrightarrow> script_witness_version script \<noteq> None"

definition is_p2sh :: "bytes \<Rightarrow> bool" where
  "is_p2sh script \<longleftrightarrow> length script = 23 \<and> script ! 0 = OP_HASH160 \<and> script ! 1 = 0x14 \<and> script ! 22 = OP_EQUAL"

definition is_p2pkh :: "bytes \<Rightarrow> bool" where
  "is_p2pkh script \<longleftrightarrow> length script = 25 \<and> script ! 0 = OP_DUP \<and> script ! 1 = OP_HASH160 \<and> script ! 2 = 0x14
     \<and> script ! 23 = OP_EQUALVERIFY \<and> script ! 24 = OP_CHECKSIG"

definition is_p2a :: "bytes \<Rightarrow> bool" where
  "is_p2a script \<longleftrightarrow> length script = 4 \<and> script_witness_version script = Some V1 \<and> script ! 1 = 0x02
     \<and> drop 2 script = P2A_PROGRAM"

definition is_p2tr :: "bytes \<Rightarrow> bool" where
  "is_p2tr script \<longleftrightarrow> length script = 34 \<and> script_witness_version script = Some V1 \<and> script ! 1 = 0x20"

definition is_op_return :: "bytes \<Rightarrow> bool" where
  "is_op_return script \<longleftrightarrow> script \<noteq> [] \<and> script ! 0 = OP_RETURN"

definition p2pk_pubkey_bytes :: "bytes \<Rightarrow> bytes option" where
  "p2pk_pubkey_bytes script =
     (if length script = 67 then
        (if hd script = 0x41 \<and> last script = OP_CHECKSIG then Some (butlast (tl script)) else None)
      else if length script = 35 then
        (if hd script = 0x21 \<and> last script = OP_CHECKSIG then Some (butlast (tl script)) else None)
      else None)"

definition is_p2pk :: "bytes \<Rightarrow> bool" where
  "is_p2pk script \<longleftrightarrow> p2pk_pubkey_bytes script \<noteq> None"

definition script_p2wpkh_script_code :: "bytes \<Rightarrow> bytes option" where
  "script_p2wpkh_script_code script = (if is_p2wpkh script then Some (p2wpkh_script_code (drop 2 script)) else None)"

definition is_provably_unspendable :: "bytes \<Rightarrow> bool" where
  "is_provably_unspendable script =
     (case script of [] \<Rightarrow> False
      | b # _ \<Rightarrow> classify b LegacyContext = Ok ReturnOp \<or> classify b LegacyContext = Ok IllegalOp)"

definition is_push_only_item :: "instruction_item \<Rightarrow> bool" where
  "is_push_only_item inst =
     (case inst of Ok (PushBytes _) \<Rightarrow> True | Ok (Op op) \<Rightarrow> op \<le> 0x60 | _ \<Rightarrow> False)"

definition is_push_only :: "bytes \<Rightarrow> bool" where
  "is_push_only script = list_all is_push_only_item (instructions False script)"

definition redeem_script :: "bytes \<Rightarrow> bytes option" where
  "redeem_script script =
     (let items = instructions False script in
      if list_ex (\<lambda>i. case i of Ok (PushBytes _) \<Rightarrow> False | _ \<Rightarrow> True) items then None
      else if items = [] then None else (case last items of Ok (PushBytes b) \<Rightarrow> Some b | _ \<Rightarrow> None))"

subsection \<open>Bare multisig\<close>

text \<open>The loop that counts the keys: \<open>None\<close> is \<open>return false\<close>, the counter is a \<open>u8\<close>.\<close>

function multisig_loop :: "bytes \<Rightarrow> u8 \<Rightarrow> (unit, (u8 \<times> bytes) option) res" where
  "multisig_loop data num_pubkeys =
     (case instructions_next False data of
        (Some (Ok (PushBytes _)), rest) \<Rightarrow>
          if num_pubkeys = 255 then Panic else multisig_loop rest (num_pubkeys + 1)
      | (Some (Ok (Op op)), rest) \<Rightarrow>
          if decode_pushnum op = Some num_pubkeys then Ok (Some (num_pubkeys, rest)) else Ok None
      | (_, rest) \<Rightarrow> Ok (Some (num_pubkeys, rest)))"
  by pat_completeness auto
termination
  by (relation "measure (\<lambda>(data, num). length data)") (auto dest: instructions_next_shorter [OF sym])

declare multisig_loop.simps [simp del]

definition is_multisig :: "bytes \<Rightarrow> (unit, bool) res" where
  "is_multisig script =
     (case instructions_next False script of
        (Some (Ok (Op op)), rest) \<Rightarrow>
          (case decode_pushnum op of
             None \<Rightarrow> Ok False
           | Some required_sigs \<Rightarrow>
               res_bind (multisig_loop rest 0) (\<lambda>result.
                 case result of None \<Rightarrow> Ok False
                 | Some (num_pubkeys, rest) \<Rightarrow>
                     if required_sigs > num_pubkeys then Ok False
                     else (case instructions_next False rest of
                             (Some (Ok (Op c)), rest) \<Rightarrow>
                               if c = OP_CHECKMULTISIG then Ok (fst (instructions_next False rest) = None) else Ok False
                           | _ \<Rightarrow> Ok False)))
      | _ \<Rightarrow> Ok False)"

subsection \<open>Signature operations\<close>

fun count_sigops_loop :: "bool \<Rightarrow> instruction_item list \<Rightarrow> nat \<Rightarrow> u8 option \<Rightarrow> nat" where
  "count_sigops_loop accurate (Ok (Op opcode) # items) n pushnum_cache =
     (if opcode = OP_CHECKSIG \<or> opcode = OP_CHECKSIGVERIFY then count_sigops_loop accurate items (n + 1) None
      else if opcode = OP_CHECKMULTISIG \<or> opcode = OP_CHECKMULTISIGVERIFY then
        count_sigops_loop accurate items
          (n + (case (accurate, pushnum_cache) of (True, Some pushnum) \<Rightarrow> unat pushnum | _ \<Rightarrow> 20)) None
      else count_sigops_loop accurate items n (decode_pushnum opcode))"
| "count_sigops_loop accurate (Ok (PushBytes _) # items) n pushnum_cache = count_sigops_loop accurate items n None"
| "count_sigops_loop accurate (_ # items) n pushnum_cache = n"
| "count_sigops_loop accurate [] n pushnum_cache = n"

definition count_sigops_internal :: "bytes \<Rightarrow> bool \<Rightarrow> nat" where
  "count_sigops_internal script accurate = count_sigops_loop accurate (instructions False script) 0 None"

definition count_sigops :: "bytes \<Rightarrow> nat" where "count_sigops script = count_sigops_internal script True"
definition count_sigops_legacy :: "bytes \<Rightarrow> nat" where "count_sigops_legacy script = count_sigops_internal script False"

subsection \<open>Dust\<close>

definition script_encoded_len :: "bytes \<Rightarrow> nat" where
  "script_encoded_len script = length (compact_size_new (length script)) + length script"

definition minimal_non_dust_internal :: "bytes \<Rightarrow> u64 \<Rightarrow> u64 option" where
  "minimal_non_dust_internal script dust_relay_fee_rate_per_kvb =
     (case u64_checked_mul dust_relay_fee_rate_per_kvb
         (if is_op_return script then 0
          else if is_witness_program script then 32 + 4 + 1 + 107 div 4 + 4 + 8 + word_of_nat (script_encoded_len script)
          else 32 + 4 + 1 + 107 + 4 + 8 + word_of_nat (script_encoded_len script)) of
        None \<Rightarrow> None
      | Some product \<Rightarrow> (case amount_from_sat (product div 1000) of Ok a \<Rightarrow> Some a | _ \<Rightarrow> None))"

definition minimal_non_dust :: "bytes \<Rightarrow> (unit, u64) res" where
  "minimal_non_dust script = (case minimal_non_dust_internal script 3000 of Some a \<Rightarrow> Ok a | None \<Rightarrow> Panic)"

definition minimal_non_dust_custom :: "bytes \<Rightarrow> u64 \<Rightarrow> u64 option" where
  "minimal_non_dust_custom script dust_relay = minimal_non_dust_internal script (to_sat_per_kvb_ceil dust_relay)"

subsection \<open>Versions and opcodes\<close>

lemma version_from_num [simp]: "version_try_from_u8 (to_num v) = Ok v"
  by (cases v) (simp_all add: version_try_from_u8_def)

lemma version_try_from_u8_Ok: "version_try_from_u8 no = Ok v \<Longrightarrow> no = to_num v"
  by (auto simp: version_try_from_u8_def split: if_splits)

lemma version_opcode [simp]: "version_try_from_opcode (opcode_from_version v) = Ok v"
  by (cases v) (simp_all add: version_try_from_opcode_def opcode_from_version_def version_try_from_u8_def opcodes word_le_nat_alt)

lemma version_try_from_opcode_Ok: "version_try_from_opcode opcode = Ok v \<longleftrightarrow> opcode = opcode_from_version v"
proof
  assume v: "version_try_from_opcode opcode = Ok v"
  show "opcode = opcode_from_version v"
  proof (cases "opcode = 0")
    case False
    then have "version_try_from_u8 (opcode - OP_1 + 1) = Ok v" "OP_1 \<le> opcode"
      using v by (auto simp: version_try_from_opcode_def split: if_splits)
    then have num: "opcode - OP_1 + 1 = to_num v" using version_try_from_u8_Ok by blast
    then have op: "opcode = OP_1 + to_num v - 1" by (simp add: algebra_simps)
    moreover have "to_num v \<noteq> 0" using op \<open>OP_1 \<le> opcode\<close> by (auto simp: opcodes word_le_nat_alt)
    ultimately show ?thesis by (cases v) (auto simp: opcode_from_version_def)
  qed (use v in \<open>simp add: version_try_from_opcode_def opcode_from_version_def\<close>)
qed simp

lemma opcode_from_version_neq: "opcode_from_version v \<notin> {OP_HASH160, OP_DUP, OP_RETURN, 0x21, 0x41}"
  by (cases v) (simp_all add: opcode_from_version_def opcodes)

subsection \<open>The bytes of standard scripts\<close>

lemma push_slice_short:
  "length bs \<noteq> 1 \<Longrightarrow> length bs < 0x4c \<Longrightarrow> push_slice script bs = script @ word_of_nat (length bs) # bs"
  by (simp add: push_slice_def push_slice_non_minimal_def push_slice_no_opt_def)

lemma new_witness_program_unchecked_bytes:
  "2 \<le> length p \<Longrightarrow> length p \<le> 40 \<Longrightarrow>
     new_witness_program_unchecked v p = opcode_from_version v # word_of_nat (length p) # p"
  by (simp add: new_witness_program_unchecked_def push_opcode_def push_slice_short)

lemma new_p2pkh_bytes:
  "length h = 20 \<Longrightarrow> new_p2pkh h = [OP_DUP, OP_HASH160, 0x14] @ h @ [OP_EQUALVERIFY, OP_CHECKSIG]"
  by (simp add: new_p2pkh_def push_opcode_def push_slice_short)

lemma new_p2sh_bytes: "length h = 20 \<Longrightarrow> new_p2sh h = [OP_HASH160, 0x14] @ h @ [OP_EQUAL]"
  by (simp add: new_p2sh_def push_opcode_def push_slice_short)

lemma new_p2pk_bytes:
  "length k = 33 \<Longrightarrow> new_p2pk k = 0x21 # k @ [OP_CHECKSIG]"
  "length k = 65 \<Longrightarrow> new_p2pk k = 0x41 # k @ [OP_CHECKSIG]"
  by (simp_all add: new_p2pk_def push_opcode_def push_slice_short)

lemma length_1: "length xs = 1 \<longleftrightarrow> (\<exists>a. xs = [a])"
  by (auto simp: length_Suc_conv)

lemma length_2: "length xs = 2 \<longleftrightarrow> (\<exists>a b. xs = [a, b])"
  by (auto simp: numeral_2_eq_2 length_Suc_conv)

text \<open>A list of known length in parts.\<close>

lemma three_parts:
  assumes "length xs = m + n + k"
  obtains a b c where "xs = a @ b @ c" "length a = m" "length b = n" "length c = k"
proof
  show "xs = take m xs @ take n (drop m xs) @ drop (m + n) xs"
    by (metis add.commute append_take_drop_id drop_drop)
qed (use assms in auto)

lemma script_witness_version_iff:
  "script_witness_version script = Some v \<longleftrightarrow>
     (\<exists>p. 2 \<le> length p \<and> length p \<le> 40 \<and> script = new_witness_program_unchecked v p)" (is "?l \<longleftrightarrow> ?r")
proof
  assume l: ?l
  then have len: "4 \<le> length script" "length script \<le> 42" by (auto simp: script_witness_version_def Let_def split: if_splits)
  then obtain a b p where s: "script = a # b # p" by (cases script; cases "tl script") auto
  have u: "unat b = length p" and "version_try_from_opcode a = Ok v"
    using l by (auto simp: script_witness_version_def Let_def s split: if_splits res.splits)
  then have "a = opcode_from_version v" by (simp add: version_try_from_opcode_Ok)
  moreover have "b = word_of_nat (length p)" unfolding u [symmetric] by simp
  ultimately show ?r using len new_witness_program_unchecked_bytes [of p v] unfolding s by (intro exI [of _ p]) auto
next
  assume ?r
  then obtain p where p: "2 \<le> length p" "length p \<le> 40" "script = opcode_from_version v # word_of_nat (length p) # p"
    using new_witness_program_unchecked_bytes by auto
  have u: "unat (word_of_nat (length p) :: u8) = length p" using p(2) by (simp add: unat_small_u8)
  show ?l using p u by (simp add: script_witness_version_def word_less_nat_alt)
qed

lemma witness_template:
  assumes "2 \<le> n" "n \<le> 40"
  shows "(length script = n + 2 \<and> script_witness_version script = Some v \<and> script ! 1 = word_of_nat n)
    \<longleftrightarrow> (\<exists>p. length p = n \<and> script = new_witness_program_unchecked v p)"
  unfolding script_witness_version_iff
  using assms new_witness_program_unchecked_bytes [of _ v] by (auto; fastforce)

lemma is_p2wpkh_iff: "is_p2wpkh script \<longleftrightarrow> (\<exists>h. length h = 20 \<and> script = new_p2wpkh h)"
  using witness_template [of 20 script V0] by (simp add: is_p2wpkh_def new_p2wpkh_def)

lemma is_p2wsh_iff: "is_p2wsh script \<longleftrightarrow> (\<exists>h. length h = 32 \<and> script = new_p2wsh h)"
  using witness_template [of 32 script V0] by (simp add: is_p2wsh_def new_p2wsh_def)

lemma is_p2tr_iff: "is_p2tr script \<longleftrightarrow> (\<exists>k. length k = 32 \<and> script = new_p2tr_tweaked k)"
  using witness_template [of 32 script V1] by (simp add: is_p2tr_def new_p2tr_tweaked_def)

lemma is_p2a_iff: "is_p2a script \<longleftrightarrow> script = new_p2a"
proof -
  have bytes: "length p = 2 \<Longrightarrow> drop 2 (new_witness_program_unchecked V1 p) = p" for p
    by (simp add: new_witness_program_unchecked_bytes numeral_2_eq_2)
  have "is_p2a script \<longleftrightarrow> (\<exists>p. length p = 2 \<and> script = new_witness_program_unchecked V1 p) \<and> drop 2 script = P2A_PROGRAM"
    using witness_template [of 2 script V1] by (auto simp: is_p2a_def)
  also have "\<dots> \<longleftrightarrow> script = new_p2a"
    unfolding new_p2a_def using bytes bytes [of P2A_PROGRAM]
    by (auto simp: P2A_PROGRAM_def intro!: exI [of _ "[78, 115]"])
  finally show ?thesis .
qed

lemma is_p2pkh_iff: "is_p2pkh script \<longleftrightarrow> (\<exists>h. length h = 20 \<and> script = new_p2pkh h)"
proof
  assume p: "is_p2pkh script"
  then have "length script = 3 + 20 + 2" by (simp add: is_p2pkh_def)
  then obtain a h c where s: "script = a @ h @ c" "length a = 3" "length h = 20" "length c = 2" by (rule three_parts)
  then obtain a0 a1 a2 c0 c1 where ac: "a = [a0, a1, a2]" "c = [c0, c1]"
    by (auto simp: length_2 numeral_3_eq_3 length_Suc_conv)
  then have "a = [OP_DUP, OP_HASH160, 0x14]" "c = [OP_EQUALVERIFY, OP_CHECKSIG]"
    using p s(3) by (simp_all add: is_p2pkh_def s(1) nth_append nth_Cons')
  then show "\<exists>h. length h = 20 \<and> script = new_p2pkh h" using s by (auto simp: new_p2pkh_bytes)
next
  assume "\<exists>h. length h = 20 \<and> script = new_p2pkh h"
  then show "is_p2pkh script" by (auto simp: new_p2pkh_bytes is_p2pkh_def nth_append nth_Cons')
qed

lemma is_p2sh_iff: "is_p2sh script \<longleftrightarrow> (\<exists>h. length h = 20 \<and> script = new_p2sh h)"
proof
  assume p: "is_p2sh script"
  then have "length script = 2 + 20 + 1" by (simp add: is_p2sh_def)
  then obtain a h c where s: "script = a @ h @ c" "length a = 2" "length h = 20" "length c = 1" by (rule three_parts)
  then obtain a0 a1 c0 where ac: "a = [a0, a1]" "c = [c0]" by (auto simp: numeral_2_eq_2 length_Suc_conv)
  then have "a = [OP_HASH160, 0x14]" "c = [OP_EQUAL]"
    using p s(3) by (simp_all add: is_p2sh_def s(1) nth_append nth_Cons')
  then show "\<exists>h. length h = 20 \<and> script = new_p2sh h" using s by (auto simp: new_p2sh_bytes)
next
  assume "\<exists>h. length h = 20 \<and> script = new_p2sh h"
  then show "is_p2sh script" by (auto simp: new_p2sh_bytes is_p2sh_def nth_append nth_Cons')
qed

lemma is_p2pk_iff: "is_p2pk script \<longleftrightarrow> (\<exists>k. (length k = 33 \<or> length k = 65) \<and> script = new_p2pk k)"
proof
  assume p: "is_p2pk script"
  then have len: "length script = 67 \<or> length script = 35" by (auto simp: is_p2pk_def p2pk_pubkey_bytes_def split: if_splits)
  then obtain a k c where s: "script = a # k @ [c]" "length k = 65 \<or> length k = 33"
    by (cases script; cases "tl script" rule: rev_cases) auto
  then show "\<exists>k. (length k = 33 \<or> length k = 65) \<and> script = new_p2pk k"
    using p by (auto simp: is_p2pk_def p2pk_pubkey_bytes_def new_p2pk_bytes split: if_splits)
next
  assume "\<exists>k. (length k = 33 \<or> length k = 65) \<and> script = new_p2pk k"
  then show "is_p2pk script" by (auto simp: is_p2pk_def p2pk_pubkey_bytes_def new_p2pk_bytes)
qed

text \<open>
  Property C16. Each predicate on output scripts holds of exactly the scripts that the constructor of its kind makes from a
  hash, key or program of the right length.
\<close>

theorem script_templates_exact:
  "(is_p2pkh script \<longleftrightarrow> (\<exists>h. length h = 20 \<and> script = new_p2pkh h))
   \<and> (is_p2sh script \<longleftrightarrow> (\<exists>h. length h = 20 \<and> script = new_p2sh h))
   \<and> (is_p2wpkh script \<longleftrightarrow> (\<exists>h. length h = 20 \<and> script = new_p2wpkh h))
   \<and> (is_p2wsh script \<longleftrightarrow> (\<exists>h. length h = 32 \<and> script = new_p2wsh h))
   \<and> (is_p2tr script \<longleftrightarrow> (\<exists>k. length k = 32 \<and> script = new_p2tr_tweaked k))
   \<and> (is_p2a script \<longleftrightarrow> script = new_p2a)
   \<and> (is_p2pk script \<longleftrightarrow> (\<exists>k. (length k = 33 \<or> length k = 65) \<and> script = new_p2pk k))
   \<and> (script_witness_version script = Some v \<longleftrightarrow>
        (\<exists>p. 2 \<le> length p \<and> length p \<le> 40 \<and> script = new_witness_program_unchecked v p))"
  by (simp only: is_p2pkh_iff is_p2sh_iff is_p2wpkh_iff is_p2wsh_iff is_p2tr_iff is_p2a_iff is_p2pk_iff script_witness_version_iff)

text \<open>No script is of two kinds.\<close>

lemma script_templates_exclusive:
  "length (filter (\<lambda>is_kind. is_kind script)
     [is_p2pkh, is_p2sh, is_p2wpkh, is_p2wsh, is_p2tr, is_p2a, is_p2pk, is_op_return]) \<le> 1"
proof -
  have first: "is_p2pkh script \<Longrightarrow> length script = 25 \<and> script ! 0 = OP_DUP"
    "is_p2sh script \<Longrightarrow> length script = 23 \<and> script ! 0 = OP_HASH160"
    "is_op_return script \<Longrightarrow> script ! 0 = OP_RETURN"
    by (simp_all add: is_p2pkh_def is_p2sh_def is_op_return_def)
  have wit: "is_p2wpkh script \<Longrightarrow> length script = 22 \<and> script ! 0 = 0"
    "is_p2wsh script \<Longrightarrow> length script = 34 \<and> script ! 0 = 0"
    "is_p2tr script \<Longrightarrow> length script = 34 \<and> script ! 0 = OP_1"
    "is_p2a script \<Longrightarrow> length script = 4 \<and> script ! 0 = OP_1"
    by (auto simp: is_p2wpkh_iff is_p2wsh_iff is_p2tr_iff is_p2a_iff new_p2wpkh_def new_p2wsh_def new_p2tr_tweaked_def
        new_p2a_def P2A_PROGRAM_def new_witness_program_unchecked_bytes opcode_from_version_def)
  have pk: "is_p2pk script \<Longrightarrow> (length script = 35 \<or> length script = 67) \<and> (script ! 0 = 0x21 \<or> script ! 0 = 0x41)"
    by (auto simp: is_p2pk_iff new_p2pk_bytes)
  have "OP_DUP \<noteq> OP_RETURN" "OP_HASH160 \<noteq> OP_RETURN" "0 \<noteq> OP_RETURN" "OP_1 \<noteq> OP_RETURN" "0x21 \<noteq> OP_RETURN" "0x41 \<noteq> OP_RETURN"
    "OP_1 \<noteq> 0"
    by (simp_all add: opcodes)
  then show ?thesis using first wit pk by auto
qed

subsection \<open>Bare multisig and its loop\<close>

lemma decode_pushnum_Some: "decode_pushnum op = Some k \<longleftrightarrow> 1 \<le> unat k \<and> unat k \<le> 16 \<and> op = k + 0x50"
proof
  assume d: "decode_pushnum op = Some k"
  then have op: "OP_1 \<le> op" "op \<le> OP_16" and k: "k = op - OP_1 + 1" by (auto simp: decode_pushnum_def split: if_splits)
  have "op = k + 0x50" using k by (simp add: opcodes algebra_simps)
  moreover have "unat (op - OP_1) = unat op - unat OP_1" using op(1) by (rule unat_sub)
  then have "unat (op - OP_1) \<le> 15" using op by (simp add: opcodes word_le_nat_alt)
  then have "unat k = unat (op - OP_1) + 1" unfolding k by (subst unat_add_lem [where y = 1, THEN iffD1]) simp_all
  ultimately show "1 \<le> unat k \<and> unat k \<le> 16 \<and> op = k + 0x50" using \<open>unat (op - OP_1) \<le> 15\<close> by simp
next
  assume k: "1 \<le> unat k \<and> unat k \<le> 16 \<and> op = k + 0x50"
  then have "unat op = unat k + 80" using number_opcode [of k] by (simp add: word_less_nat_alt word_le_nat_alt)
  then have "OP_1 \<le> op" "op \<le> OP_16" using k by (simp_all add: opcodes word_le_nat_alt)
  then show "decode_pushnum op = Some k" using k by (simp add: decode_pushnum_def opcodes)
qed

lemma multisig_loop_sound:
  "multisig_loop data num = Ok (Some (k, rest)) \<Longrightarrow>
     (\<exists>keys op. instructions False data = map (\<lambda>key. Ok (PushBytes key)) keys @ Ok (Op op) # instructions False rest
        \<and> decode_pushnum op = Some k \<and> unat k = unat num + length keys) \<or> rest = []"
proof (induction data num rule: multisig_loop.induct)
  case (1 data num)
  show ?case
  proof (cases "instructions_next False data")
    case (Pair r rest')
    show ?thesis
    proof (cases "\<exists>i. r = Some (Ok i)")
      case True
      then obtain i where i: "r = Some (Ok i)" by blast
      have step: "instructions False data = Ok i # instructions False rest'"
        using instructions_step Pair i by blast
      show ?thesis
      proof (cases i)
        case (PushBytes key)
        then have num: "num \<noteq> 255" and loop: "multisig_loop rest' (num + 1) = Ok (Some (k, rest))"
          using 1(2) Pair i by (auto simp: multisig_loop.simps [of data] split: if_splits)
        have "unat num \<noteq> 255" using num by (auto simp: word_unat_eq_iff)
        then have "unat num + unat (1 :: u8) < 2 ^ LENGTH(8)" using u8_bound [of num] by simp
        then have u: "unat (num + 1) = unat num + 1" using unat_add_lem [of num 1] by simp
        from 1(1) [OF Pair [symmetric] i refl PushBytes num loop]
        show ?thesis
        proof (elim disjE exE conjE)
          fix keys op
          assume "instructions False rest' = map (\<lambda>key. Ok (PushBytes key)) keys @ Ok (Op op) # instructions False rest"
            "decode_pushnum op = Some k" "unat k = unat (num + 1) + length keys"
          then show ?thesis
            using step PushBytes u by (intro disjI1 exI [of _ "key # keys"] exI [of _ op]) auto
        qed simp_all
      next
        case (Op op)
        then have "decode_pushnum op = Some k" "rest = rest'" "k = num"
          using 1(2) Pair i by (auto simp: multisig_loop.simps [of data] split: if_splits)
        then show ?thesis using step Op by (intro disjI1 exI [of _ "[]"] exI [of _ op]) auto
      qed
    next
      case False
      then have "rest = rest'" using 1(2) Pair
        by (auto simp: multisig_loop.simps [of data] split: option.splits res.splits)
      moreover have "rest' = []"
      proof (cases r)
        case None
        then have "data = []" using Pair instructions_eq_Nil [of False data] by (subst (asm) instructions.simps) simp
        then show ?thesis using Pair by (simp add: instructions_next_def)
      next
        case (Some item)
        then show ?thesis using False Pair next_error [of False data item rest'] by auto
      qed
      ultimately show ?thesis by simp
    qed
  qed
qed

lemma multisig_loop_complete:
  "instructions False data = map (\<lambda>key. Ok (PushBytes key)) keys @ Ok (Op op) # items \<Longrightarrow> decode_pushnum op = Some k \<Longrightarrow>
     unat k = unat num + length keys \<Longrightarrow> \<exists>rest. multisig_loop data num = Ok (Some (k, rest)) \<and> instructions False rest = items"
proof (induction keys arbitrary: data num)
  case Nil
  then obtain rest where "instructions_next False data = (Some (Ok (Op op)), rest)" "instructions False rest = items"
    by (auto simp: instructions_Cons_iff)
  moreover have "k = num" using Nil by (simp add: word_unat_eq_iff)
  ultimately show ?case using Nil by (auto simp: multisig_loop.simps [of data])
next
  case (Cons key keys)
  then obtain rest where rest: "instructions_next False data = (Some (Ok (PushBytes key)), rest)"
    "instructions False rest = map (\<lambda>key. Ok (PushBytes key)) keys @ Ok (Op op) # items"
    by (auto simp: instructions_Cons_iff)
  have lt: "unat num < 16" using Cons.prems(2,3) by (auto simp: decode_pushnum_Some)
  then have num: "num \<noteq> 255" by auto
  have "unat num + unat (1 :: u8) < 2 ^ LENGTH(8)" using lt by simp
  then have "unat (num + 1) = unat num + 1" using unat_add_lem [of num 1] by simp
  then show ?case using Cons.IH [OF rest(2) Cons.prems(2), of "num + 1"] Cons.prems(3) rest(1) num
    by (auto simp: multisig_loop.simps [of data])
qed

lemma instructions_single:
  "instructions False data = [Ok (Op op)] \<longleftrightarrow> (\<exists>rest. instructions_next False data = (Some (Ok (Op op)), rest) \<and> fst (instructions_next False rest) = None)"
proof -
  have "instructions False rest = [] \<longleftrightarrow> fst (instructions_next False rest) = None" for rest
    by (subst instructions.simps) (auto split: prod.splits option.splits)
  then show ?thesis by (simp add: instructions_Cons_iff)
qed

lemma checkmultisig_last:
  "(case instructions_next False rest of
      (Some (Ok (Op c)), rest) \<Rightarrow> if c = OP_CHECKMULTISIG then Ok (fst (instructions_next False rest) = None) else Ok False
    | _ \<Rightarrow> Ok False) = (Ok True :: (unit, bool) res)
   \<longleftrightarrow> instructions False rest = [Ok (Op OP_CHECKMULTISIG)]"
  unfolding instructions_single by (auto split: prod.splits option.splits res.splits instruction.splits)

text \<open>The counter overflows on the 256th push, and nowhere else; the functions never return an error.\<close>

definition is_push_item :: "instruction_item \<Rightarrow> bool" where
  "is_push_item item = (case item of Ok (PushBytes _) \<Rightarrow> True | _ \<Rightarrow> False)"

lemma multisig_loop_Panic:
  "(multisig_loop data num = Panic \<longleftrightarrow> 256 \<le> unat num + length (takeWhile is_push_item (instructions False data)))
    \<and> (multisig_loop data num = Panic \<or> (\<exists>r. multisig_loop data num = Ok r))"
proof (induction data num rule: multisig_loop.induct)
  case (1 data num)
  have small: "\<not> 256 \<le> unat num" using u8_bound [of num] by simp
  obtain r rest where next_eq: "instructions_next False data = (r, rest)" by fastforce
  show ?case
  proof (cases "\<exists>key. r = Some (Ok (PushBytes key))")
    case True
    then obtain key where r: "r = Some (Ok (PushBytes key))" by blast
    then have step: "instructions False data = Ok (PushBytes key) # instructions False rest"
      using instructions_step next_eq by blast
    show ?thesis
    proof (cases "num = 255")
      case True
      then show ?thesis by (simp add: multisig_loop.simps [of data] next_eq r step is_push_item_def)
    next
      case False
      then have "unat num \<noteq> 255" by (auto simp: word_unat_eq_iff)
      then have "unat num + unat (1 :: u8) < 2 ^ LENGTH(8)" using u8_bound [of num] by simp
      then have u: "unat (num + 1) = unat num + 1" using unat_add_lem [of num 1] by simp
      have "multisig_loop data num = multisig_loop rest (num + 1)" using False by (simp add: multisig_loop.simps [of data] next_eq r)
      then show ?thesis using 1 [OF next_eq [symmetric] r refl refl False] u by (simp add: step is_push_item_def) blast
    qed
  next
    case False
    then have "\<exists>x. multisig_loop data num = Ok x"
      by (auto simp: multisig_loop.simps [of data] next_eq split: option.splits res.splits instruction.splits)
    moreover have "takeWhile is_push_item (instructions False data) = []"
      using False next_eq by (subst instructions.simps) (auto simp: is_push_item_def split: option.splits res.splits instruction.splits)
    ultimately show ?thesis using small by auto
  qed
qed

lemma is_multisig_Panic:
  "is_multisig script = Panic \<longleftrightarrow>
     (\<exists>op m items. instructions False script = Ok (Op op) # items \<and> decode_pushnum op = Some m
        \<and> 256 \<le> length (takeWhile is_push_item items))"
  "is_multisig script \<in> {Ok True, Ok False, Panic}"
proof -
  have start: "(\<exists>op m items. instructions False script = Ok (Op op) # items \<and> decode_pushnum op = Some m
        \<and> 256 \<le> length (takeWhile is_push_item items)) \<longleftrightarrow>
      (\<exists>op m rest. instructions_next False script = (Some (Ok (Op op)), rest) \<and> decode_pushnum op = Some m
        \<and> multisig_loop rest 0 = Panic)"
    using multisig_loop_Panic [where num = 0] by (auto simp: instructions_Cons_iff)
  have "(is_multisig script = Panic \<longleftrightarrow>
      (\<exists>op m rest. instructions_next False script = (Some (Ok (Op op)), rest) \<and> decode_pushnum op = Some m
        \<and> multisig_loop rest 0 = Panic)) \<and> is_multisig script \<in> {Ok True, Ok False, Panic}"
  proof (cases "\<exists>op m rest. instructions_next False script = (Some (Ok (Op op)), rest) \<and> decode_pushnum op = Some m")
    case True
    then obtain op m rest where op: "instructions_next False script = (Some (Ok (Op op)), rest)" "decode_pushnum op = Some m" by blast
    show ?thesis
    proof (cases "multisig_loop rest 0")
      case (Ok result)
      then have "is_multisig script \<in> {Ok True, Ok False}"
        by (auto simp: is_multisig_def op split: option.split prod.split res.split instruction.split)
      then show ?thesis using op Ok by auto
    next
      case Panic
      then have "is_multisig script = Panic" by (simp add: is_multisig_def op)
      then show ?thesis using op Panic by auto
    qed (use multisig_loop_Panic [of rest 0] in simp_all)
  next
    case False
    then have "is_multisig script = Ok False"
      by (auto simp: is_multisig_def split: option.split prod.split res.split instruction.split)
    then show ?thesis using False by auto
  qed
  then show "is_multisig script = Panic \<longleftrightarrow>
     (\<exists>op m items. instructions False script = Ok (Op op) # items \<and> decode_pushnum op = Some m
        \<and> 256 \<le> length (takeWhile is_push_item items))"
    "is_multisig script \<in> {Ok True, Ok False, Panic}"
    unfolding start by blast+
qed

lemma is_multisig_True:
  "is_multisig script = Ok True \<longleftrightarrow>
     (\<exists>m n op1 op2 keys. decode_pushnum op1 = Some m \<and> decode_pushnum op2 = Some n \<and> m \<le> n \<and> length keys = unat n
        \<and> instructions False script
            = [Ok (Op op1)] @ map (\<lambda>key. Ok (PushBytes key)) keys @ [Ok (Op op2), Ok (Op OP_CHECKMULTISIG)])"
  (is "?l \<longleftrightarrow> ?r")
proof
  assume l: ?l
  then obtain op1 rest m where op1: "instructions_next False script = (Some (Ok (Op op1)), rest)" "decode_pushnum op1 = Some m"
    by (auto simp: is_multisig_def split: prod.splits option.splits res.splits instruction.splits)
  then obtain result where result: "multisig_loop rest 0 = Ok result"
    and last: "(case result of None \<Rightarrow> Ok False
               | Some (num_pubkeys, rest) \<Rightarrow>
                   if m > num_pubkeys then Ok False
                   else (case instructions_next False rest of
                           (Some (Ok (Op c)), rest) \<Rightarrow>
                             if c = OP_CHECKMULTISIG then Ok (fst (instructions_next False rest) = None) else Ok False
                         | _ \<Rightarrow> Ok False)) = (Ok True :: (unit, bool) res)"
    using l by (auto simp: is_multisig_def res_bind_Ok_iff)
  then obtain k rest' where loop: "multisig_loop rest 0 = Ok (Some (k, rest'))" "\<not> m > k"
    and "instructions False rest' = [Ok (Op OP_CHECKMULTISIG)]"
    by (auto simp: checkmultisig_last split: option.splits if_splits)
  moreover from this have "rest' \<noteq> []" by auto
  then obtain keys op2 where "instructions False rest = map (\<lambda>key. Ok (PushBytes key)) keys @ Ok (Op op2) # instructions False rest'"
    "decode_pushnum op2 = Some k" "unat k = length keys"
    using multisig_loop_sound [OF loop(1)] by auto
  ultimately show ?r using op1 loop(2)
    by (intro exI [of _ m] exI [of _ k] exI [of _ op1] exI [of _ op2] exI [of _ keys]) (auto simp: instructions_Cons_iff not_less)
next
  assume ?r
  then obtain m n op1 op2 keys where r: "decode_pushnum op1 = Some m" "decode_pushnum op2 = Some n" "m \<le> n" "length keys = unat n"
    "instructions False script = [Ok (Op op1)] @ map (\<lambda>key. Ok (PushBytes key)) keys @ [Ok (Op op2), Ok (Op OP_CHECKMULTISIG)]" by blast
  then obtain rest where rest: "instructions_next False script = (Some (Ok (Op op1)), rest)"
    "instructions False rest = map (\<lambda>key. Ok (PushBytes key)) keys @ Ok (Op op2) # [Ok (Op OP_CHECKMULTISIG)]"
    by (auto simp: instructions_Cons_iff)
  obtain rest' where loop: "multisig_loop rest 0 = Ok (Some (n, rest'))" "instructions False rest' = [Ok (Op OP_CHECKMULTISIG)]"
    using multisig_loop_complete [OF rest(2) r(2), of 0] r(4) by auto
  then obtain rest'' where "instructions_next False rest' = (Some (Ok (Op OP_CHECKMULTISIG)), rest'')"
    "fst (instructions_next False rest'') = None"
    using instructions_single by blast
  then show ?l using r(1,3) rest(1) loop(1) by (auto simp: is_multisig_def not_less)
qed

lemma is_multisig_many_pushes: "is_multisig (0x51 # replicate 256 0) = Panic"
proof -
  have pushes: "instructions False (replicate n 0) = replicate n (Ok (PushBytes []))" for n
  proof (induction n)
    case (Suc n)
    have "instructions_next False (0 # replicate n 0) = (Some (Ok (PushBytes [])), replicate n 0)"
      by (simp add: instructions_next_Cons push_item_def take_slice_or_kill_def)
    then show ?case using Suc instructions_step by simp
  qed (simp add: instructions_eq_Nil)
  have "instructions_next False (0x51 # replicate 256 0) = (Some (Ok (Op 0x51)), replicate 256 0)"
    by (simp add: instructions_next_Cons opcodes word_le_nat_alt)
  then have "instructions False (0x51 # replicate 256 0) = Ok (Op 0x51) # replicate 256 (Ok (PushBytes []))"
    using instructions_step pushes by metis
  moreover have "decode_pushnum 0x51 = Some 1" by (simp add: decode_pushnum_Some)
  moreover have "length (takeWhile is_push_item (replicate 256 (Ok (PushBytes [])))) = 256"
    by (simp add: is_push_item_def takeWhile_replicate)
  ultimately show ?thesis
    unfolding is_multisig_Panic(1) by (intro exI conjI) (assumption | simp)+
qed

text \<open>
  Property C31. A script is a bare multisig script exactly when its instructions are a number, that many keys at least, their
  number, and \<open>OP_CHECKMULTISIG\<close>. The counter of the keys is a \<open>u8\<close>: it overflows exactly when at least 256 pushes in
  a row follow a first opcode that is a number, as in the script of \<open>OP_1\<close> and 256 empty pushes. For every other script the answer is no.
\<close>

theorem is_multisig_iff:
  "(is_multisig script = Ok True \<longleftrightarrow>
     (\<exists>m n op1 op2 keys. decode_pushnum op1 = Some m \<and> decode_pushnum op2 = Some n \<and> m \<le> n \<and> length keys = unat n
        \<and> instructions False script
            = [Ok (Op op1)] @ map (\<lambda>key. Ok (PushBytes key)) keys @ [Ok (Op op2), Ok (Op OP_CHECKMULTISIG)]))
   \<and> (is_multisig script = Panic \<longleftrightarrow>
     (\<exists>op m items. instructions False script = Ok (Op op) # items \<and> decode_pushnum op = Some m
        \<and> 256 \<le> length (takeWhile is_push_item items)))
   \<and> is_multisig script \<in> {Ok True, Ok False, Panic}
   \<and> is_multisig (0x51 # replicate 256 0) = Panic"
  by (intro conjI is_multisig_True is_multisig_Panic is_multisig_many_pushes)

subsection \<open>Counting\<close>

definition is_checksig :: "u8 \<Rightarrow> bool" where "is_checksig op \<longleftrightarrow> op = OP_CHECKSIG \<or> op = OP_CHECKSIGVERIFY"
definition is_checkmultisig :: "u8 \<Rightarrow> bool" where "is_checkmultisig op \<longleftrightarrow> op = OP_CHECKMULTISIG \<or> op = OP_CHECKMULTISIGVERIFY"

fun sigop_weight :: "instruction_item \<Rightarrow> nat" where
  "sigop_weight (Ok (Op op)) = (if is_checksig op then 1 else if is_checkmultisig op then 20 else 0)"
| "sigop_weight _ = 0"

lemma count_sigops_loop_legacy:
  "count_sigops_loop False items n cache = n + sum_list (map sigop_weight (takeWhile (\<lambda>i. \<exists>x. i = Ok x) items))"
  by (induction False items n cache rule: count_sigops_loop.induct)
     (simp_all add: is_checksig_def is_checkmultisig_def)

lemma count_sigops_loop_mono:
  "(\<And>k. cache = Some k \<Longrightarrow> unat k \<le> 16) \<Longrightarrow> n \<le> n' \<Longrightarrow> count_sigops_loop True items n cache \<le> count_sigops_loop False items n' cache'"
proof (induction True items n cache arbitrary: n' cache' rule: count_sigops_loop.induct)
  case (1 opcode items n cache)
  have push: "decode_pushnum opcode = Some k \<Longrightarrow> unat k \<le> 16" for k by (simp add: decode_pushnum_Some)
  have "(case cache of Some p \<Rightarrow> unat p | None \<Rightarrow> 20) \<le> 20" using 1(4) by (auto split: option.split dest: order.trans)
  then show ?case using 1 push by (auto split: option.splits)
qed simp_all

lemma sigop_weight_bound: "sum_list (map sigop_weight items) \<le> 20 * length items"
proof (induction items)
  case (Cons i items)
  have "sigop_weight i \<le> 20" by (cases i rule: sigop_weight.cases) auto
  then show ?case using Cons by simp
qed simp

text \<open>
  The accurate count of signature operations is at most the legacy count, which weighs the opcodes before the
  first error and is at most twenty for each byte of the script.
\<close>

theorem count_sigops_bounds:
  "count_sigops script \<le> count_sigops_legacy script
   \<and> count_sigops_legacy script = sum_list (map sigop_weight (takeWhile (\<lambda>i. \<exists>x. i = Ok x) (instructions False script)))
   \<and> count_sigops_legacy script \<le> 20 * length script"
proof -
  let ?items = "takeWhile (\<lambda>i. \<exists>x. i = Ok x) (instructions False script)"
  have legacy: "count_sigops_legacy script = sum_list (map sigop_weight ?items)"
    by (simp add: count_sigops_legacy_def count_sigops_internal_def count_sigops_loop_legacy)
  also have "\<dots> \<le> 20 * length ?items" by (rule sigop_weight_bound)
  also have "\<dots> \<le> 20 * length script"
    using length_takeWhile_le [of "\<lambda>i. \<exists>x. i = Ok x" "instructions False script"] instructions_length [of False script]
    by linarith
  finally show ?thesis using legacy count_sigops_loop_mono [of None 0 0 "instructions False script" None]
    by (simp add: count_sigops_def count_sigops_legacy_def count_sigops_internal_def)
qed

text \<open>The redeem script is the last of the pushes that a script consists of.\<close>

lemma redeem_script_iff:
  "redeem_script script = Some b \<longleftrightarrow> (\<exists>bs. instructions False script = map (\<lambda>x. Ok (PushBytes x)) (bs @ [b]))"
proof
  assume r: "redeem_script script = Some b"
  let ?items = "instructions False script"
  have all: "list_all (\<lambda>i. \<exists>x. i = Ok (PushBytes x)) ?items"
    using r unfolding redeem_script_def Let_def list_all_iff
    by (auto simp: list_ex_iff split: if_splits res.splits instruction.splits) (metis instruction.exhaust res.exhaust)
  then obtain bs where bs: "?items = map (\<lambda>x. Ok (PushBytes x)) bs"
    unfolding list_all_iff using ex_map_conv [of ?items "\<lambda>x. Ok (PushBytes x)"] by auto
  then have "bs \<noteq> []" "last bs = b" using r by (auto simp: redeem_script_def Let_def last_map split: if_splits)
  then show "\<exists>bs. ?items = map (\<lambda>x. Ok (PushBytes x)) (bs @ [b])" using bs by (metis append_butlast_last_id)
qed (auto simp: redeem_script_def list_ex_iff)

end
