(* ===== verification/Base58.thy ===== *)
theory Base58
  imports Prelude
begin

section \<open>Base58\<close>

text \<open>
  The crate \<open>base58\<close> (\<open>base58/src/lib.rs\<close>). Text is its ASCII bytes, the hash function of the checksum a parameter.
  \<open>Vec::with_capacity\<close> may allocate more than it is asked for, so the capacity it gives is a parameter of \<open>decode\<close>.
  A buffer is its bytes with the number of bytes it can hold, \<open>None\<close> for a vector. The theorems say that the
  encoder and the decoder are inverse to each other, and for which inputs the encoder panics.
\<close>

subsection \<open>The alphabet\<close>

definition BASE58_CHARS :: bytes where
  "BASE58_CHARS =
     [49, 50, 51, 52, 53, 54, 55, 56, 57, 65, 66, 67, 68, 69, 70, 71, 72, 74, 75, 76, 77, 78, 80, 81, 82, 83, 84,
      85, 86, 87, 88, 89, 90, 97, 98, 99, 100, 101, 102, 103, 104, 105, 106, 107, 109, 110, 111, 112, 113, 114,
      115, 116, 117, 118, 119, 120, 121, 122]"

definition BASE58_DIGITS :: "u8 option list" where
  "BASE58_DIGITS =
     [None, None, None, None, None, None, None, None, None, None, None, None, None, None, None, None, None, None,
      None, None, None, None, None, None, None, None, None, None, None, None, None, None, None, None, None, None,
      None, None, None, None, None, None, None, None, None, None, None, None, None, Some 0, Some 1, Some 2, Some 3,
      Some 4, Some 5, Some 6, Some 7, Some 8, None, None, None, None, None, None, None, Some 9, Some 10, Some 11,
      Some 12, Some 13, Some 14, Some 15, Some 16, None, Some 17, Some 18, Some 19, Some 20, Some 21, None,
      Some 22, Some 23, Some 24, Some 25, Some 26, Some 27, Some 28, Some 29, Some 30, Some 31, Some 32, None,
      None, None, None, None, None, Some 33, Some 34, Some 35, Some 36, Some 37, Some 38, Some 39, Some 40,
      Some 41, Some 42, Some 43, None, Some 44, Some 45, Some 46, Some 47, Some 48, Some 49, Some 50, Some 51,
      Some 52, Some 53, Some 54, Some 55, Some 56, Some 57, None, None, None, None, None]"

subsection \<open>Decoding\<close>

datatype base58_error =
    Decode u8
  | IncorrectChecksum u32 u32
  | TooShort nat

text \<open>The loops over the digits to the base 256, the lowest first.\<close>

fun decode_fill :: "nat \<Rightarrow> u32 \<Rightarrow> bytes \<times> u32" where
  "decode_fill 0 carry = ([], carry)"
| "decode_fill (Suc n) carry = (let (scratch, c) = decode_fill n (carry div 256) in (ucast carry # scratch, c))"

fun decode_carry :: "u32 \<Rightarrow> bytes \<Rightarrow> bytes \<times> u32" where
  "decode_carry carry [] = ([], carry)"
| "decode_carry carry (d256 # scratch) =
     (let carry = carry + ucast d256 * 58; (scratch, c) = decode_carry (carry div 256) scratch in (ucast carry # scratch, c))"

fun decode_chars :: "nat \<Rightarrow> bytes \<Rightarrow> bytes \<Rightarrow> (u8, bytes) res" where
  "decode_chars capacity [] scratch = Ok scratch"
| "decode_chars capacity (d58 # data) scratch =
     (if unat d58 \<ge> length BASE58_DIGITS then Err d58
      else case BASE58_DIGITS ! unat d58 of
          None \<Rightarrow> Err d58
        | Some d \<Rightarrow>
            let (scratch, carry) = (if scratch = [] then decode_fill capacity (ucast d) else decode_carry (ucast d) scratch) in
            if carry \<noteq> 0 then Panic else decode_chars capacity data scratch)"

definition base58_decode :: "(nat \<Rightarrow> nat) \<Rightarrow> bytes \<Rightarrow> (u8, bytes) res" where
  "base58_decode with_capacity data =
     res_bind (decode_chars (with_capacity (1 + length data * 11 div 15)) data []) (\<lambda>scratch.
       Ok (map (\<lambda>_. 0) (takeWhile (\<lambda>x. x = BASE58_CHARS ! 0) data) @ dropWhile (\<lambda>x. x = 0) (rev scratch)))"

definition decode_check :: "(bytes \<Rightarrow> bytes) \<Rightarrow> (nat \<Rightarrow> nat) \<Rightarrow> bytes \<Rightarrow> (base58_error, bytes) res" where
  "decode_check sha256d with_capacity data =
     res_bind (map_err Decode (base58_decode with_capacity data)) (\<lambda>ret.
       if length ret < 4 then Err (TooShort (length ret))
       else
         let remaining = take (length ret - 4) ret;
             data_check = drop (length ret - 4) ret;
             expected = from_le_bytes (take 4 (sha256d remaining));
             actual = from_le_bytes data_check in
         if actual \<noteq> expected then Err (IncorrectChecksum actual expected) else Ok remaining)"

subsection \<open>Encoding\<close>

definition try_push :: "nat option \<Rightarrow> u8 \<Rightarrow> bytes \<Rightarrow> (nat, bytes) res" where
  "try_push cap val buf =
     (case cap of None \<Rightarrow> Ok (buf @ [val]) | Some n \<Rightarrow> if length buf < n then Ok (buf @ [val]) else Err n)"

fun encode_carry :: "u32 \<Rightarrow> bytes \<Rightarrow> bytes \<times> u32" where
  "encode_carry carry [] = ([], carry)"
| "encode_carry carry (ch # buf) =
     (let new_ch = ucast ch * 256 + carry; (buf, c) = encode_carry (new_ch div 58) buf in (ucast (new_ch mod 58) # buf, c))"

function push_carry :: "nat option \<Rightarrow> u32 \<Rightarrow> bytes \<Rightarrow> (nat, bytes) res" where
  "push_carry cap carry buf =
     (if carry > 0 then res_bind (try_push cap (ucast (carry mod 58)) buf) (push_carry cap (carry div 58)) else Ok buf)"
  by pat_completeness auto
termination
proof (relation "measure (\<lambda>(cap, carry, buf). unat carry)")
  fix cap :: "nat option" and carry :: u32 and buf x :: bytes
  assume "0 < carry"
  then have "unat carry div 58 < unat carry" by (simp add: word_less_nat_alt)
  then show "((cap, carry div 58, x), (cap, carry, buf)) \<in> measure (\<lambda>(cap, carry, buf). unat carry)"
    by (simp add: unat_div)
qed simp

declare push_carry.simps [simp del]

fun encode_loop :: "nat option \<Rightarrow> bytes \<Rightarrow> nat \<Rightarrow> bool \<Rightarrow> bytes \<Rightarrow> (nat, nat \<times> bytes) res" where
  "encode_loop cap [] leading_zero_count leading_zeroes buf = Ok (leading_zero_count, buf)"
| "encode_loop cap (d256 # data) leading_zero_count leading_zeroes buf =
     (let carry = ucast d256 :: u32;
          zero = leading_zeroes \<and> carry = 0;
          (buf, carry) = encode_carry carry buf in
      res_bind (push_carry cap carry buf)
        (encode_loop cap data (if zero then leading_zero_count + 1 else leading_zero_count) zero))"

fun push_zeros :: "nat option \<Rightarrow> nat \<Rightarrow> bytes \<Rightarrow> (nat, bytes) res" where
  "push_zeros cap 0 buf = Ok buf"
| "push_zeros cap (Suc n) buf = res_bind (try_push cap 0 buf) (push_zeros cap n)"

definition encode_to_buffer :: "nat option \<Rightarrow> bytes \<Rightarrow> (nat, bytes) res" where
  "encode_to_buffer cap data =
     res_bind (encode_loop cap data 0 True []) (\<lambda>(leading_zero_count, buf).
       res_bind (push_zeros cap leading_zero_count buf) (\<lambda>buf.
         if list_all (\<lambda>ch. unat ch < length BASE58_CHARS) buf
         then Ok (map (\<lambda>ch. BASE58_CHARS ! unat ch) (rev buf)) else Panic))"

definition encoded_reserve_len :: "nat \<Rightarrow> nat" where
  "encoded_reserve_len unencoded_len = unencoded_len * 137 div 100"

definition encoded_check_reserve_len :: "nat \<Rightarrow> nat" where
  "encoded_check_reserve_len unencoded_len = encoded_reserve_len (unencoded_len + 4)"

datatype base58ck_string = Small bytes | Large bytes

fun base58ck_as_bytes :: "base58ck_string \<Rightarrow> bytes" where
  "base58ck_as_bytes (Small data) = data"
| "base58ck_as_bytes (Large data) = data"

definition SHORT_OPT_BUFFER_LEN :: nat where "SHORT_OPT_BUFFER_LEN = 128"

definition encode_unbounded :: "(bytes \<Rightarrow> bytes) \<Rightarrow> bytes \<Rightarrow> (unit, base58ck_string) res" where
  "encode_unbounded sha256d data =
     (let iter = data @ take 4 (sha256d data);
          reserve_len = encoded_check_reserve_len (length data) in
      if reserve_len \<le> SHORT_OPT_BUFFER_LEN then
        (case encode_to_buffer (Some SHORT_OPT_BUFFER_LEN) iter of Ok buf \<Rightarrow> Ok (Small buf) | _ \<Rightarrow> Panic)
      else
        (case encode_to_buffer None iter of Ok buf \<Rightarrow> Ok (Large buf) | _ \<Rightarrow> Panic))"

text \<open>\<open>encode\<close>, with the feature \<open>alloc\<close> or without it; the error is the length of the data.\<close>

definition base58ck_encode :: "bool \<Rightarrow> (bytes \<Rightarrow> bytes) \<Rightarrow> bytes \<Rightarrow> (nat, base58ck_string) res" where
  "base58ck_encode alloc sha256d data =
     (if alloc then (case encode_unbounded sha256d data of Ok s \<Rightarrow> Ok s | _ \<Rightarrow> Panic)
      else
        (case encode_to_buffer (Some SHORT_OPT_BUFFER_LEN) (data @ take 4 (sha256d data)) of
           Ok buf \<Rightarrow> Ok (Small buf) | Err _ \<Rightarrow> Err (length data) | Panic \<Rightarrow> Panic | Diverge \<Rightarrow> Diverge))"

subsection \<open>Digits\<close>

text \<open>Positional notation, the highest digit first; numbers have no leading zero.\<close>

definition be_val :: "nat \<Rightarrow> nat list \<Rightarrow> nat" where
  "be_val B ds = foldl (\<lambda>a d. a * B + d) 0 ds"

function be_digits :: "nat \<Rightarrow> nat \<Rightarrow> nat list" where
  "be_digits B n = (if n = 0 \<or> B < 2 then [] else be_digits B (n div B) @ [n mod B])"
  by pat_completeness auto
termination by (relation "measure snd") auto

declare be_digits.simps [simp del]

lemma be_val_Nil [simp]: "be_val B [] = 0"
  by (simp add: be_val_def)

lemma be_val_snoc [simp]: "be_val B (ds @ [d]) = be_val B ds * B + d"
  by (simp add: be_val_def)

lemma be_val_append: "be_val B (xs @ ys) = be_val B xs * B ^ length ys + be_val B ys"
  by (induction ys rule: rev_induct) (simp_all add: append_assoc [symmetric] algebra_simps del: append_assoc)

lemma be_val_zeros [simp]: "be_val B (replicate z 0 @ ds) = be_val B ds"
proof -
  have "be_val B (replicate z 0) = 0"  by (induction z) (simp_all add: be_val_def)
  then show ?thesis by (simp add: be_val_append)
qed

lemma be_val_less: "\<forall>d\<in>set ds. d < B \<Longrightarrow> be_val B ds < B ^ length ds"
proof (induction ds rule: rev_induct)
  case (snoc d ds)
  then have "be_val B ds + 1 \<le> B ^ length ds" "d < B" by simp_all
  then have "(be_val B ds + 1) * B \<le> B ^ length ds * B" by (intro mult_le_mono1)
  then show ?case using \<open>d < B\<close> by (simp add: algebra_simps)
qed simp

lemma be_digits_0 [simp]: "be_digits B 0 = []"
  by (simp add: be_digits.simps)

lemma be_digits_step: "2 \<le> B \<Longrightarrow> 0 < n \<Longrightarrow> be_digits B n = be_digits B (n div B) @ [n mod B]"
  by (simp add: be_digits.simps [of B n])

lemma be_digits_val:
  "2 \<le> B \<Longrightarrow> \<forall>d\<in>set ds. d < B \<Longrightarrow> be_digits B (be_val B ds) = dropWhile (\<lambda>d. d = 0) ds"
proof (induction ds rule: rev_induct)
  case (snoc d ds)
  have d: "d < B" and IH: "be_digits B (be_val B ds) = dropWhile (\<lambda>d. d = 0) ds" using snoc by auto
  show ?case
  proof (cases "be_val B ds * B + d = 0")
    case True
    then have "dropWhile (\<lambda>d. d = 0) ds = []" "d = 0" using IH \<open>2 \<le> B\<close> by auto
    then show ?thesis unfolding be_val_snoc True by (simp add: dropWhile_eq_Nil_conv dropWhile_append2)
  next
    case False
    then have "be_digits B (be_val B ds * B + d) = be_digits B (be_val B ds) @ [d]"
      using be_digits_step [OF \<open>2 \<le> B\<close>, of "be_val B ds * B + d"] d by simp
    moreover have "dropWhile (\<lambda>d. d = 0) (ds @ [d]) = dropWhile (\<lambda>d. d = 0) ds @ [d]"
    proof (cases "\<exists>x\<in>set ds. x \<noteq> 0")
      case no: False
      then have nil: "dropWhile (\<lambda>d. d = 0) ds = []" by (simp add: dropWhile_eq_Nil_conv)
      have "\<not> 0 < be_val B ds" using IH be_digits_step [OF \<open>2 \<le> B\<close>, of "be_val B ds"] unfolding nil by auto
      then have "be_val B ds = 0" by simp
      then show ?thesis using no False by (simp add: dropWhile_append2)
    qed (auto simp: dropWhile_append1)
    ultimately show ?thesis using IH by simp
  qed
qed simp

lemma be_digits_less: "d \<in> set (be_digits B n) \<Longrightarrow> d < B"
proof (induction B n rule: be_digits.induct)
  case (1 B n)
  then show ?case by (cases "n = 0 \<or> B < 2") (auto simp: be_digits.simps [of B n])
qed

lemma be_val_digits [simp]: "2 \<le> B \<Longrightarrow> be_val B (be_digits B n) = n"
proof (induction B n rule: be_digits.induct)
  case (1 B n)
  then show ?case by (cases "n = 0") (simp_all add: be_digits_step)
qed

lemma be_digits_no_zero [simp]: "2 \<le> B \<Longrightarrow> dropWhile (\<lambda>d. d = 0) (be_digits B n) = be_digits B n"
  using be_digits_val [of B "be_digits B n"] be_digits_less by auto

lemma length_be_digits: "2 \<le> B \<Longrightarrow> length (be_digits B n) \<le> k \<longleftrightarrow> n < B ^ k"
proof
  assume B: "2 \<le> B"
  assume "length (be_digits B n) \<le> k"
  then have "B ^ length (be_digits B n) \<le> B ^ k" using B by (intro power_increasing) auto
  moreover have "be_val B (be_digits B n) < B ^ length (be_digits B n)" by (rule be_val_less) (use be_digits_less in blast)
  ultimately show "n < B ^ k" unfolding be_val_digits [OF B] by (rule less_le_trans [rotated])
next
  assume B: "2 \<le> B"
  show "n < B ^ k \<Longrightarrow> length (be_digits B n) \<le> k"
  proof (induction k arbitrary: n)
    case (Suc k)
    then have "n div B < B ^ k" using B by (simp add: less_mult_imp_div_less mult.commute)
    then show ?case using Suc.IH [of "n div B"] be_digits_step [OF B, of n] by (cases "n = 0") auto
  qed simp
qed

lemma length_be_digits_mono: "2 \<le> B \<Longrightarrow> m \<le> n \<Longrightarrow> length (be_digits B m) \<le> length (be_digits B n)"
  using length_be_digits [of B n "length (be_digits B n)"] length_be_digits [of B m "length (be_digits B n)"] by simp

lemma leading_zeros: "replicate (length (takeWhile (\<lambda>d. d = 0) ds)) 0 @ dropWhile (\<lambda>d. d = 0) ds = ds"
proof -
  have "replicate (length (takeWhile (\<lambda>d. d = 0) ds)) 0 = takeWhile (\<lambda>d. d = 0) ds"
    by (induction ds) auto
  then show ?thesis by simp
qed

lemma takeWhile_zeros:
  "2 \<le> B \<Longrightarrow> length (takeWhile (\<lambda>d. d = 0) (replicate z 0 @ be_digits B n)) = z"
proof -
  assume B: "2 \<le> B"
  have "takeWhile (\<lambda>d. d = 0) (be_digits B n) = []"
    using be_digits_no_zero [OF B, of n] leading_zeros [of "be_digits B n"] by (metis append_self_conv2 replicate_empty length_0_conv)
  then show ?thesis by (subst takeWhile_append2) auto
qed

subsection \<open>The encoder's buffer\<close>

definition fits :: "nat option \<Rightarrow> bytes \<Rightarrow> bool" where
  "fits cap buf \<longleftrightarrow> (case cap of None \<Rightarrow> True | Some n \<Rightarrow> length buf \<le> n)"

definition limit :: "nat option \<Rightarrow> bytes \<Rightarrow> (nat, bytes) res" where
  "limit cap buf = (if fits cap buf then Ok buf else Err (the cap))"

lemma fits_None [simp]: "fits None buf"
  by (simp add: fits_def)

lemma fits_append: "fits cap (xs @ ys) \<Longrightarrow> fits cap xs"
  by (auto simp: fits_def split: option.splits)

lemma try_push_limit: "fits cap buf \<Longrightarrow> try_push cap b buf = limit cap (buf @ [b])"
  by (auto simp: try_push_def limit_def fits_def split: option.splits)

lemma limit_bind: "(fits cap buf \<Longrightarrow> f buf = limit cap (buf @ ys)) \<Longrightarrow> res_bind (limit cap buf) f = limit cap (buf @ ys)"
  by (auto simp: limit_def dest: fits_append)

text \<open>The digits of a number, the lowest first.\<close>

definition buf58 :: "nat \<Rightarrow> bytes" where
  "buf58 v = rev (map word_of_nat (be_digits 58 v))"

lemma map_unat_word: "\<forall>d\<in>set ds. d < 256 \<Longrightarrow> map unat (map word_of_nat ds :: bytes) = ds"
  by (induction ds) (simp_all add: unat_word_of_nat_u8)

lemma map_word_unat: "map word_of_nat (map unat bs) = (bs :: bytes)"
  by (induction bs) simp_all

lemma digits_buf58: "map unat (rev (buf58 v)) = be_digits 58 v"
proof -
  have "\<forall>d\<in>set (be_digits 58 v). d < 256" using be_digits_less [of _ 58 v] by fastforce
  then show ?thesis unfolding buf58_def rev_rev_ident by (rule map_unat_word)
qed

lemma rev_digits_buf58 [simp]: "rev (map unat (buf58 v)) = be_digits 58 v"
  using digits_buf58 [of v] by (simp only: rev_map)

lemma buf58_cong: "map unat (rev bs) = be_digits 58 v \<Longrightarrow> bs = buf58 v"
proof -
  assume "map unat (rev bs) = be_digits 58 v"
  then have "map word_of_nat (map unat (rev bs)) = (map word_of_nat (be_digits 58 v) :: bytes)" by simp
  then have "rev bs = map word_of_nat (be_digits 58 v)" by (simp only: map_word_unat)
  then show ?thesis unfolding buf58_def by (metis rev_rev_ident)
qed

lemma length_buf58 [simp]: "length (buf58 v) = length (be_digits 58 v)"
  by (simp add: buf58_def)

lemma set_buf58: "b \<in> set (buf58 v) \<Longrightarrow> unat b < 58"
proof -
  assume "b \<in> set (buf58 v)"
  then have "unat b \<in> set (map unat (rev (buf58 v)))" by simp
  then show ?thesis unfolding digits_buf58 by (rule be_digits_less)
qed

definition buf_val :: "nat \<Rightarrow> bytes \<Rightarrow> nat" where
  "buf_val B buf = be_val B (map unat (rev buf))"

lemma buf_val_Nil [simp]: "buf_val B [] = 0"
  by (simp add: buf_val_def)

lemma buf_val_Cons [simp]: "buf_val B (b # buf) = buf_val B buf * B + unat b"
  by (simp add: buf_val_def)

lemma buf_val_append: "buf_val B (xs @ ys) = buf_val B xs + B ^ length xs * buf_val B ys"
  by (induction xs) (simp_all add: algebra_simps)

lemma buf_val_buf58 [simp]: "buf_val 58 (buf58 v) = v"
  by (simp add: buf_val_def digits_buf58)

lemma buf_val_256: "buf_val 256 bs = nat_of_le bs"
  by (induction bs) simp_all

text \<open>One byte more.\<close>

lemma unat_u32_sum: "unat (ch :: u8) * k + unat (c :: u32) < 2 ^ 32 \<Longrightarrow> k < 2 ^ 32 \<Longrightarrow>
    unat (ucast ch * word_of_nat k + c) = unat ch * k + unat c"
proof -
  assume lt: "unat ch * k + unat c < 2 ^ 32" "k < 2 ^ 32"
  have "unat (ucast ch * word_of_nat k :: u32) = unat ch * k"
    using lt by (simp add: unat_mult_lem [THEN iffD1] unat_word_ariths unat_of_nat unat_ucast_up)
  then show ?thesis using lt by (subst unat_add_lem [THEN iffD1]) simp_all
qed

lemma encode_carry_value:
  "encode_carry carry buf = (buf', c) \<Longrightarrow> unat carry < 256 \<Longrightarrow> \<forall>b\<in>set buf. unat b < 58 \<Longrightarrow>
     length buf' = length buf \<and> (\<forall>b\<in>set buf'. unat b < 58) \<and> unat c < 256
     \<and> buf_val 58 buf' + 58 ^ length buf * unat c = 256 * buf_val 58 buf + unat carry"
proof (induction buf arbitrary: carry buf' c)
  case (Cons ch buf)
  define new where "new = (ucast ch * 256 + carry :: u32)"
  have ch: "unat ch < 58" using Cons.prems(3) by simp
  then have "unat ch * 256 + unat carry < 58 * 256" using Cons.prems(2) by linarith
  then have new: "unat new = unat ch * 256 + unat carry" "unat new < 58 * 256"
    using unat_u32_sum [of ch 256 carry] by (simp_all add: new_def)
  obtain rest where rest: "encode_carry (new div 58) buf = (rest, c)" "buf' = ucast (new mod 58) # rest"
    using Cons.prems(1) by (auto simp: Let_def new_def split: prod.splits)
  have div_lt: "unat (new div 58) < 256" using new(2) by (simp add: unat_div less_mult_imp_div_less)
  have "unat new mod 58 < 58" by simp
  then have m: "unat (ucast (new mod 58) :: u8) = unat new mod 58" by (simp add: unat_ucast_mod unat_mod)
  have IH: "length rest = length buf" "\<forall>b\<in>set rest. unat b < 58" "unat c < 256"
    "buf_val 58 rest + 58 ^ length buf * unat c = 256 * buf_val 58 buf + unat (new div 58)"
    using Cons.IH [OF rest(1) div_lt] Cons.prems(3) by auto
  have "58 * unat (new div 58) + unat new mod 58 = unat new" by (simp add: unat_div)
  moreover have "58 * (buf_val 58 rest + 58 ^ length buf * unat c) = 58 * (256 * buf_val 58 buf) + 58 * unat (new div 58)"
    unfolding IH(4) by (simp add: distrib_left)
  ultimately have "buf_val 58 rest * 58 + unat new mod 58 + 58 * 58 ^ length buf * unat c
      = 256 * (buf_val 58 buf * 58) + unat new" by (simp add: algebra_simps)
  then show ?case using IH m rest(2) new(1) by (simp add: algebra_simps)
qed simp

lemma push_carry_limit:
  "fits cap buf \<Longrightarrow> push_carry cap carry buf = limit cap (buf @ buf58 (unat carry))"
proof (induction cap carry buf rule: push_carry.induct)
  case (1 cap carry buf)
  show ?case
  proof (cases "carry = 0")
    case True
    then show ?thesis using 1(2) by (simp add: push_carry.simps [of cap 0] limit_def buf58_def)
  next
    case False
    then have pos: "0 < carry" "0 < unat carry" by (simp_all add: word_greater_zero_iff unat_gt_0)
    define d where "d = (ucast (carry mod 58) :: u8)"
    have "unat carry mod 58 < 58" by simp
    then have d: "unat d = unat carry mod 58" by (simp add: d_def unat_ucast_mod unat_mod)
    have digits: "buf58 (unat carry) = d # buf58 (unat (carry div 58))"
    proof (rule buf58_cong [symmetric])
      show "map unat (rev (d # buf58 (unat (carry div 58)))) = be_digits 58 (unat carry)"
        using be_digits_step [of 58 "unat carry"] pos by (simp add: rev_map [symmetric] d unat_div)
    qed
    have "push_carry cap carry buf = res_bind (limit cap (buf @ [d])) (push_carry cap (carry div 58))"
      using pos 1(2) by (simp add: push_carry.simps [of cap carry] try_push_limit d_def)
    also have "\<dots> = limit cap ((buf @ [d]) @ buf58 (unat (carry div 58)))"
      by (rule limit_bind) (rule 1(1) [OF pos(1)])
    finally show ?thesis by (simp add: digits)
  qed
qed

lemma dropWhile_same_length: "length xs \<le> length (dropWhile P xs) \<Longrightarrow> dropWhile P xs = xs"
proof (cases xs)
  case (Cons x tl)
  then show "length xs \<le> length (dropWhile P xs) \<Longrightarrow> dropWhile P xs = xs" using length_dropWhile_le [of P tl] by auto
qed simp

lemma encode_step:
  fixes d256 :: u8
  assumes "encode_carry (ucast d256) (buf58 v) = (buf', c)" "fits cap (buf58 v)"
  shows "push_carry cap c buf' = limit cap (buf58 (v * 256 + unat d256))"
proof -
  let ?w = "v * 256 + unat d256"
  have carry: "unat (ucast (d256 :: u8) :: u32) = unat d256" by (rule unat_ucast_up) simp
  have step: "length buf' = length (buf58 v)" "\<forall>b\<in>set buf'. unat b < 58"
    "buf_val 58 buf' + 58 ^ length (buf58 v) * unat c = 256 * v + unat d256"
    using encode_carry_value [OF assms(1)] u8_bound [of d256] set_buf58 by (simp_all add: carry)
  let ?bs = "buf' @ buf58 (unat c)"
  have val: "buf_val 58 ?bs = ?w" using step by (simp add: buf_val_append)
  have "\<forall>d\<in>set (map unat (rev ?bs)). d < 58" using step(2) set_buf58 by auto
  then have digits: "be_digits 58 ?w = dropWhile (\<lambda>d. d = 0) (map unat (rev ?bs))"
    unfolding val [symmetric] buf_val_def by (rule be_digits_val [rotated]) simp
  have "dropWhile (\<lambda>d. d = 0) (map unat (rev ?bs)) = map unat (rev ?bs)"
  proof (cases "unat c = 0")
    case True
    have "length (be_digits 58 v) \<le> length (be_digits 58 ?w)" by (rule length_be_digits_mono) simp_all
    then have "length (map unat (rev ?bs)) \<le> length (dropWhile (\<lambda>d. d = 0) (map unat (rev ?bs)))"
      using step(1) True by (simp add: digits buf58_def)
    then show ?thesis by (rule dropWhile_same_length)
  next
    case False
    then have ne: "be_digits 58 (unat c) \<noteq> []" by (simp add: be_digits_step)
    have "map unat (rev ?bs) = be_digits 58 (unat c) @ map unat (rev buf')" by (simp add: digits_buf58 rev_map [symmetric])
    moreover have "hd (be_digits 58 (unat c)) \<noteq> 0"
      using ne be_digits_no_zero [of 58 "unat c"] hd_dropWhile [of "\<lambda>d. d = 0" "be_digits 58 (unat c)"] by simp
    ultimately show ?thesis using ne by (cases "be_digits 58 (unat c)") simp_all
  qed
  then have "?bs = buf58 ?w" using digits by (intro buf58_cong) simp
  moreover have "fits cap buf'" using assms(2) step(1) by (auto simp: fits_def split: option.splits)
  ultimately show ?thesis by (simp add: push_carry_limit)
qed

subsection \<open>What the encoder writes\<close>

definition leading_zero_bytes :: "bytes \<Rightarrow> nat" where
  "leading_zero_bytes data = length (takeWhile (\<lambda>b. b = 0) data)"

lemma be_val_Cons_acc: "foldl (\<lambda>a d. a * B + d) v (d # ds) = foldl (\<lambda>a d. a * B + d) (v * B + d) ds"
  by simp

lemma foldl_be_mono: "1 \<le> B \<Longrightarrow> v \<le> foldl (\<lambda>a d. a * B + (d :: nat)) v ds"
proof (induction ds arbitrary: v)
  case (Cons d ds)
  have "v * 1 \<le> v * B" using Cons.prems by (intro mult_le_mono2)
  also have "\<dots> \<le> v * B + d" by simp
  also have "\<dots> \<le> foldl (\<lambda>a d. a * B + d) (v * B + d) ds" using Cons by simp
  finally show ?case by simp
qed simp

lemma encode_loop_value:
  assumes "fits cap (buf58 v)"
  shows "encode_loop cap data lz leading (buf58 v) =
    (let w = foldl (\<lambda>a d. a * 256 + d) v (map unat data) in
     if fits cap (buf58 w) then Ok (if leading then lz + leading_zero_bytes data else lz, buf58 w) else Err (the cap))"
  using assms
proof (induction data arbitrary: v lz leading)
  case Nil
  then show ?case by (simp add: leading_zero_bytes_def)
next
  case (Cons d data)
  obtain b c where bc: "encode_carry (ucast d) (buf58 v) = (b, c)" by (cases "encode_carry (ucast d) (buf58 v)")
  define u where "u = v * 256 + unat d"
  have push: "push_carry cap c b = limit cap (buf58 u)" using encode_step [OF bc Cons.prems] by (simp add: u_def)
  have zero: "(ucast d = (0 :: u32)) \<longleftrightarrow> d = 0" by (simp add: word_unat_eq_iff unat_ucast_up)
  show ?case
  proof (cases "fits cap (buf58 u)")
    case True
    then show ?thesis using Cons.IH [OF True] bc push
      by (auto simp: Let_def zero limit_def u_def leading_zero_bytes_def)
  next
    case False
    let ?w = "foldl (\<lambda>a d. a * 256 + d) u (map unat data)"
    have "length (be_digits 58 u) \<le> length (be_digits 58 ?w)" by (rule length_be_digits_mono) (simp_all add: foldl_be_mono)
    then have "\<not> fits cap (buf58 ?w)" using False by (auto simp: fits_def split: option.splits)
    then show ?thesis using False bc push by (simp add: Let_def zero limit_def u_def)
  qed
qed

lemma push_zeros_limit: "fits cap buf \<Longrightarrow> push_zeros cap n buf = limit cap (buf @ replicate n 0)"
proof (induction n arbitrary: buf)
  case (Suc n)
  have "push_zeros cap (Suc n) buf = res_bind (limit cap (buf @ [0])) (push_zeros cap n)"
    using Suc.prems by (simp add: try_push_limit)
  also have "\<dots> = limit cap ((buf @ [0]) @ replicate n 0)" by (rule limit_bind) (rule Suc.IH)
  finally show ?case by simp
qed (simp add: limit_def)

text \<open>The text of bytes, as a number with as many zeros before it.\<close>

definition base58_text :: "bytes \<Rightarrow> bytes" where
  "base58_text data = map (\<lambda>d. BASE58_CHARS ! d)
     (replicate (leading_zero_bytes data) 0 @ be_digits 58 (be_val 256 (map unat data)))"

lemma length_BASE58_CHARS [simp]: "length BASE58_CHARS = 58"
  by (simp add: BASE58_CHARS_def)

theorem encode_to_buffer_text:
  "encode_to_buffer cap data = (if fits cap (base58_text data) then Ok (base58_text data) else Err (the cap))"
proof -
  let ?w = "be_val 256 (map unat data)" and ?z = "leading_zero_bytes data"
  let ?buf = "buf58 ?w @ replicate ?z 0"
  have len: "length (base58_text data) = length ?buf" by (simp add: base58_text_def)
  have fit: "fits cap (base58_text data) \<longleftrightarrow> fits cap ?buf" by (simp only: fits_def len)
  have loop: "encode_loop cap data 0 True [] = (if fits cap (buf58 ?w) then Ok (?z, buf58 ?w) else Err (the cap))"
    using encode_loop_value [of cap 0 data 0 True] by (simp add: buf58_def fits_def be_val_def split: option.splits)
  have all: "list_all (\<lambda>ch. unat ch < length BASE58_CHARS) ?buf"
    using set_buf58 by (auto simp: list_all_iff)
  have "map (\<lambda>ch. BASE58_CHARS ! unat ch) (rev ?buf) = map (\<lambda>d. BASE58_CHARS ! d) (map unat (rev ?buf))" by simp
  also have "map unat (rev ?buf) = replicate ?z 0 @ be_digits 58 ?w" using digits_buf58 [of ?w] by (simp add: rev_map)
  finally have chars: "map (\<lambda>ch. BASE58_CHARS ! unat ch) (rev ?buf) = base58_text data" by (simp add: base58_text_def)
  show ?thesis
  proof (cases "fits cap ?buf")
    case True
    then have "fits cap (buf58 ?w)" by (rule fits_append)
    then show ?thesis using True fit all chars
      by (simp add: encode_to_buffer_def loop push_zeros_limit limit_def del: rev_append)
  next
    case False
    then show ?thesis using fit
      by (cases "fits cap (buf58 ?w)") (simp_all add: encode_to_buffer_def loop push_zeros_limit limit_def)
  qed
qed

subsection \<open>The alphabet and its inverse\<close>

lemma in_range: "n < k \<Longrightarrow> n \<in> set (0 # 1 # [2..<k])"
  by (simp only: list.set set_upt insert_iff atLeastLessThan_iff) arith

lemma digits_of_chars: "d < 58 \<Longrightarrow> unat (BASE58_CHARS ! d) < 128 \<and> BASE58_DIGITS ! unat (BASE58_CHARS ! d) = Some (word_of_nat d)"
proof -
  have all: "list_all (\<lambda>d. unat (BASE58_CHARS ! d) < 128 \<and> BASE58_DIGITS ! unat (BASE58_CHARS ! d) = Some (word_of_nat d))
      (0 # 1 # [2..<58])"
    by (simp add: upt_rec_numeral BASE58_CHARS_def BASE58_DIGITS_def)
  show "d < 58 \<Longrightarrow> unat (BASE58_CHARS ! d) < 128 \<and> BASE58_DIGITS ! unat (BASE58_CHARS ! d) = Some (word_of_nat d)"
    by (rule bspec [OF all [unfolded list_all_iff] in_range])
qed

lemma length_BASE58_DIGITS [simp]: "length BASE58_DIGITS = 128"
  by (simp add: BASE58_DIGITS_def)

lemma chars_of_digits: "n < 128 \<Longrightarrow> BASE58_DIGITS ! n = Some d \<Longrightarrow> unat d < 58 \<and> unat (BASE58_CHARS ! unat d) = n"
proof -
  have all: "list_all (\<lambda>n. case BASE58_DIGITS ! n of None \<Rightarrow> True | Some d \<Rightarrow> unat d < 58 \<and> unat (BASE58_CHARS ! unat d) = n)
      (0 # 1 # [2..<128])"
    by (simp add: upt_rec_numeral BASE58_CHARS_def BASE58_DIGITS_def)
  show "n < 128 \<Longrightarrow> BASE58_DIGITS ! n = Some d \<Longrightarrow> unat d < 58 \<and> unat (BASE58_CHARS ! unat d) = n"
    using bspec [OF all [unfolded list_all_iff] in_range, of n] by simp
qed

lemma base58_char: "c \<in> set BASE58_CHARS \<longleftrightarrow> unat c < 128 \<and> (\<exists>d. BASE58_DIGITS ! unat c = Some d)"
proof
  assume "c \<in> set BASE58_CHARS"
  then obtain d where "d < 58" "c = BASE58_CHARS ! d" by (auto simp: in_set_conv_nth)
  then show "unat c < 128 \<and> (\<exists>d. BASE58_DIGITS ! unat c = Some d)" using digits_of_chars by blast
next
  assume "unat c < 128 \<and> (\<exists>d. BASE58_DIGITS ! unat c = Some d)"
  then obtain d where "unat c < 128" "BASE58_DIGITS ! unat c = Some d" by blast
  then have d: "unat d < 58" "unat (BASE58_CHARS ! unat d) = unat c" using chars_of_digits by blast+
  then have "c = BASE58_CHARS ! unat d" by (simp add: word_unat_eq_iff)
  then show "c \<in> set BASE58_CHARS" using d(1) by simp
qed

lemma base58_char_inj: "d < 58 \<Longrightarrow> e < 58 \<Longrightarrow> BASE58_CHARS ! d = BASE58_CHARS ! e \<longleftrightarrow> d = e"
proof
  assume de: "d < 58" "e < 58" "BASE58_CHARS ! d = BASE58_CHARS ! e"
  then have "unat (word_of_nat d :: u8) = unat (word_of_nat e :: u8)"
    using digits_of_chars [of d] digits_of_chars [of e] by simp
  then show "d = e" using de by (simp add: unat_word_of_nat_u8)
qed simp

lemma base58_text_digits:
  "list_all (\<lambda>c. c \<in> set BASE58_CHARS) data \<Longrightarrow> \<exists>ds. (\<forall>d\<in>set ds. d < 58) \<and> data = map (\<lambda>d. BASE58_CHARS ! d) ds"
proof (induction data)
  case (Cons c data)
  then obtain ds d where "\<forall>d\<in>set ds. d < 58" "data = map (\<lambda>d. BASE58_CHARS ! d) ds" "d < 58" "c = BASE58_CHARS ! d"
    by (auto simp: in_set_conv_nth)
  then show ?case by (intro exI [of _ "d # ds"]) auto
qed simp

subsection \<open>What the decoder reads\<close>

lemma u8_of_u32_mod: "unat (ucast (w :: u32) :: u8) = unat w mod 256"
  by (simp add: unat_ucast_mod)

lemma decode_fill_value:
  "decode_fill n carry = (scratch, c) \<Longrightarrow> length scratch = n \<and> nat_of_le scratch + 256 ^ n * unat c = unat carry"
proof (induction n arbitrary: carry scratch)
  case (Suc n)
  then obtain rest where rest: "decode_fill n (carry div 256) = (rest, c)" "scratch = ucast carry # rest"
    by (auto split: prod.splits)
  have IH: "length rest = n" "nat_of_le rest + 256 ^ n * unat c = unat carry div 256"
    using Suc.IH [OF rest(1)] by (simp_all add: unat_div)
  have "unat carry = unat carry mod 256 + 256 * (nat_of_le rest + 256 ^ n * unat c)" unfolding IH(2) by simp
  then show ?case using rest(2) IH(1) u8_of_u32_mod [of carry] by (simp add: algebra_simps)
qed simp

lemma decode_carry_value:
  "decode_carry carry scratch = (scratch', c) \<Longrightarrow> unat carry \<le> 58 \<Longrightarrow>
     length scratch' = length scratch \<and> unat c \<le> 58
     \<and> nat_of_le scratch' + 256 ^ length scratch * unat c = 58 * nat_of_le scratch + unat carry"
proof (induction scratch arbitrary: carry scratch' c)
  case (Cons d256 scratch)
  define new where "new = (carry + ucast d256 * 58 :: u32)"
  have "unat d256 * 58 + unat carry \<le> 255 * 58 + 58" using u8_bound [of d256] Cons.prems(2) by linarith
  then have new: "unat new = unat d256 * 58 + unat carry" "unat new \<le> 255 * 58 + 58"
    using unat_u32_sum [of d256 58 carry] by (simp_all add: new_def add.commute)
  obtain rest where rest: "decode_carry (new div 256) scratch = (rest, c)" "scratch' = ucast new # rest"
    using Cons.prems(1) by (auto simp: Let_def new_def split: prod.splits)
  have "unat (new div 256) \<le> 58" using div_le_mono [OF new(2), of 256] by (simp add: unat_div)
  from Cons.IH [OF rest(1) this] have IH: "length rest = length scratch" "unat c \<le> 58"
    "nat_of_le rest + 256 ^ length scratch * unat c = 58 * nat_of_le scratch + unat new div 256"
    by (simp_all add: unat_div)
  have "unat new = unat new mod 256 + 256 * (unat new div 256)" by simp
  moreover have "256 * (nat_of_le rest + 256 ^ length scratch * unat c) = 256 * (58 * nat_of_le scratch) + 256 * (unat new div 256)"
    unfolding IH(3) by (simp add: distrib_left)
  ultimately have "unat new mod 256 + 256 * nat_of_le rest + 256 * 256 ^ length scratch * unat c
      = 58 * (256 * nat_of_le scratch) + unat new" unfolding distrib_left mult.assoc by linarith
  then show ?case using rest(2) IH(1,2) u8_of_u32_mod [of new] new(1) by (simp add: algebra_simps)
qed simp

lemma no_carry: "(x :: nat) + 256 ^ n * unat (c :: u32) = y \<Longrightarrow> y < 256 ^ n \<Longrightarrow> c = 0 \<and> x = y"
proof -
  assume xy: "x + 256 ^ n * unat c = y" "y < 256 ^ n"
  have "unat c = 0"
  proof (rule ccontr)
    assume "unat c \<noteq> 0"
    then have "256 ^ n * 1 \<le> 256 ^ n * unat c" by (intro mult_le_mono2) simp
    then show False using xy by linarith
  qed
  then show "c = 0 \<and> x = y" using xy(1) by (simp add: unat_eq_0)
qed

lemma decode_chars_value:
  assumes "\<forall>d\<in>set ds. d < 58" "scratch = [] \<or> length scratch = capacity" "0 < capacity"
    and "(nat_of_le scratch + 1) * 58 ^ length ds \<le> 256 ^ capacity"
  shows "\<exists>scratch'. decode_chars capacity (map (\<lambda>d. BASE58_CHARS ! d) ds @ rest) scratch = decode_chars capacity rest scratch'
     \<and> nat_of_le scratch' = foldl (\<lambda>a d. a * 58 + d) (nat_of_le scratch) ds"
  using assms
proof (induction ds arbitrary: scratch)
  case (Cons d ds)
  let ?c = "BASE58_CHARS ! d" and ?w = "nat_of_le scratch * 58 + d"
  have d: "d < 58" using Cons.prems(1) by simp
  have digit: "unat ?c < 128" "BASE58_DIGITS ! unat ?c = Some (word_of_nat d)" using digits_of_chars [OF d] by auto
  have u: "unat (ucast (word_of_nat d :: u8) :: u32) = d" using d by (simp add: unat_ucast_up unat_word_of_nat_u8)
  have "(?w + 1) * 58 ^ length ds \<le> (nat_of_le scratch + 1) * 58 * 58 ^ length ds"
    using d by (intro mult_le_mono1) simp
  also have "\<dots> \<le> 256 ^ capacity" using Cons.prems(4) by (simp add: algebra_simps)
  finally have bound: "(?w + 1) * 58 ^ length ds \<le> 256 ^ capacity" .
  have "(?w + 1) * 1 \<le> (?w + 1) * 58 ^ length ds" by (intro mult_le_mono2) simp
  then have "(?w + 1) * 1 \<le> 256 ^ capacity" using bound by (rule order.trans)
  then have w: "?w < 256 ^ capacity" by (simp only: mult_1_right Suc_eq_plus1 [symmetric] Suc_le_eq)
  define step where "step = (if scratch = [] then decode_fill capacity (ucast (word_of_nat d :: u8))
    else decode_carry (ucast (word_of_nat d :: u8)) scratch)"
  obtain s c where sc: "step = (s, c)" by (cases step)
  have "length s = capacity \<and> nat_of_le s + 256 ^ capacity * unat c = ?w"
  proof (cases "scratch = []")
    case True
    then show ?thesis using sc decode_fill_value [of capacity "ucast (word_of_nat d :: u8)" s c] u by (simp add: step_def)
  next
    case False
    then show ?thesis using sc decode_carry_value [of "ucast (word_of_nat d :: u8)" scratch s c] u d Cons.prems(2)
      by (simp add: step_def algebra_simps)
  qed
  then have s: "length s = capacity" "c = 0" "nat_of_le s = ?w" using no_carry [OF _ w] by blast+
  have dec: "decode_chars capacity (map (\<lambda>d. BASE58_CHARS ! d) (d # ds) @ rest) scratch
      = decode_chars capacity (map (\<lambda>d. BASE58_CHARS ! d) ds @ rest) s"
    using digit sc s(2) by (simp add: step_def [symmetric])
  show ?case using Cons.IH [of s] Cons.prems(1,3) bound s unfolding dec by simp
qed auto

lemma capacity_enough: "(58 :: nat) ^ n \<le> 256 ^ (1 + n * 11 div 15)"
proof -
  define q r where "q = n div 15" and "r = n mod 15"
  have n: "n = 15 * q + r" and r: "r < 15" by (simp_all add: q_def r_def)
  have "list_all (\<lambda>r. (58 :: nat) ^ r \<le> 256 ^ (1 + r * 11 div 15)) (0 # 1 # [2..<15])"
    by (simp add: upt_rec_numeral)
  then have small: "(58 :: nat) ^ r \<le> 256 ^ (1 + r * 11 div 15)"
    using in_range [OF r] unfolding list_all_iff by blast
  have "n * 11 div 15 = 11 * q + r * 11 div 15"
    unfolding n by (simp add: algebra_simps)
  then have "(256 :: nat) ^ (1 + n * 11 div 15) = (256 ^ 11) ^ q * 256 ^ (1 + r * 11 div 15)"
    by (simp add: power_add power_mult)
  moreover have "((58 :: nat) ^ 15) ^ q \<le> (256 ^ 11) ^ q" by (intro power_mono) simp_all
  moreover have "(58 :: nat) ^ n = (58 ^ 15) ^ q * 58 ^ r" unfolding n power_add power_mult ..
  ultimately show ?thesis using mult_le_mono [OF _ small] by metis
qed

lemma leading_ones:
  "\<forall>d\<in>set ds. d < 58 \<Longrightarrow>
     map (\<lambda>_. 0 :: u8) (takeWhile (\<lambda>x. x = BASE58_CHARS ! 0) (map (\<lambda>d. BASE58_CHARS ! d) ds))
       = replicate (length (takeWhile (\<lambda>d. d = 0) ds)) 0"
proof (induction ds)
  case (Cons d ds)
  then show ?case using base58_char_inj [of d 0] by simp
qed simp

lemma map_unat_dropWhile:
  "map unat (dropWhile (\<lambda>x. x = 0) (bs :: bytes)) = dropWhile (\<lambda>d. d = 0) (map unat bs)"
  by (induction bs) (simp_all add: unat_eq_0)

text \<open>The bytes of a text, as a number with as many zeros before it.\<close>

definition base58_bytes :: "nat list \<Rightarrow> bytes" where
  "base58_bytes ds = map word_of_nat (replicate (length (takeWhile (\<lambda>d. d = 0) ds)) 0 @ be_digits 256 (be_val 58 ds))"

lemma base58_decode_digits:
  assumes "\<And>n. n \<le> with_capacity n" "\<forall>d\<in>set ds. d < 58"
  shows "base58_decode with_capacity (map (\<lambda>d. BASE58_CHARS ! d) ds) = Ok (base58_bytes ds)"
proof -
  define cap where "cap = with_capacity (1 + length (map (\<lambda>d. BASE58_CHARS ! d) ds) * 11 div 15)"
  have cap: "1 + length ds * 11 div 15 \<le> cap" unfolding cap_def length_map by (rule assms(1))
  then have "(256 :: nat) ^ (1 + length ds * 11 div 15) \<le> 256 ^ cap" by (intro power_increasing) simp_all
  then have "58 ^ length ds \<le> (256 :: nat) ^ cap" using capacity_enough [of "length ds"] by (rule order.trans [rotated])
  then have "(nat_of_le [] + 1) * 58 ^ length ds \<le> 256 ^ cap" by simp
  then obtain scratch where scratch: "decode_chars cap (map (\<lambda>d. BASE58_CHARS ! d) ds) [] = Ok scratch"
    "nat_of_le scratch = be_val 58 ds"
    using decode_chars_value [of ds "[]" cap "[]"] assms(2) cap by (auto simp: be_val_def)
  have "map unat (dropWhile (\<lambda>x. x = 0) (rev scratch)) = dropWhile (\<lambda>d. d = 0) (map unat (rev scratch))"
    by (rule map_unat_dropWhile)
  also have "\<dots> = be_digits 256 (be_val 256 (map unat (rev scratch)))"
    by (rule be_digits_val [symmetric]) (use u8_bound in auto)
  also have "be_val 256 (map unat (rev scratch)) = be_val 58 ds"
    unfolding buf_val_def [symmetric] buf_val_256 scratch(2) ..
  finally have rest: "dropWhile (\<lambda>x. x = 0) (rev scratch) = map word_of_nat (be_digits 256 (be_val 58 ds))"
    by (metis map_word_unat)
  show ?thesis
    unfolding base58_decode_def cap_def [symmetric] scratch(1) res_bind.simps leading_ones [OF assms(2)] rest base58_bytes_def
    by simp
qed

text \<open>Writing and reading are inverse to each other.\<close>

lemma base58_bytes_text:
  "\<forall>d\<in>set ds. d < 58 \<Longrightarrow> base58_text (base58_bytes ds) = map (\<lambda>d. BASE58_CHARS ! d) ds"
proof -
  assume ds: "\<forall>d\<in>set ds. d < 58"
  let ?z = "length (takeWhile (\<lambda>d. d = 0) ds)" and ?v = "be_val 58 ds"
  have "\<forall>d\<in>set (replicate ?z 0 @ be_digits 256 ?v). d < 256" using be_digits_less [of _ 256] by auto
  then have unat: "map unat (base58_bytes ds) = replicate ?z 0 @ be_digits 256 ?v"
    unfolding base58_bytes_def by (rule map_unat_word)
  have "leading_zero_bytes (base58_bytes ds) = length (takeWhile (\<lambda>d. d = 0) (map unat (base58_bytes ds)))"
    unfolding leading_zero_bytes_def by (induction "base58_bytes ds") (simp_all add: takeWhile_map comp_def unat_eq_0)
  then have z: "leading_zero_bytes (base58_bytes ds) = ?z" unfolding unat by (simp add: takeWhile_zeros)
  have "base58_text (base58_bytes ds) = map (\<lambda>d. BASE58_CHARS ! d) (replicate ?z 0 @ be_digits 58 ?v)"
    unfolding base58_text_def z unat by simp
  also have "be_digits 58 ?v = dropWhile (\<lambda>d. d = 0) ds" using ds by (intro be_digits_val) simp_all
  finally show ?thesis unfolding leading_zeros .
qed

lemma base58_text_bytes:
  "\<exists>ds. (\<forall>d\<in>set ds. d < 58) \<and> base58_text data = map (\<lambda>d. BASE58_CHARS ! d) ds \<and> base58_bytes ds = data"
proof -
  let ?z = "leading_zero_bytes data" and ?v = "be_val 256 (map unat data)"
  let ?ds = "replicate ?z 0 @ be_digits 58 ?v"
  have small: "\<forall>d\<in>set ?ds. d < 58" using be_digits_less [of _ 58] by auto
  have z: "?z = length (takeWhile (\<lambda>d. d = 0) (map unat data))"
    by (simp add: leading_zero_bytes_def takeWhile_map comp_def unat_eq_0)
  have "base58_bytes ?ds = map word_of_nat (replicate ?z 0 @ be_digits 256 ?v)"
    by (simp add: base58_bytes_def takeWhile_zeros)
  also have "be_digits 256 ?v = dropWhile (\<lambda>d. d = 0) (map unat data)" by (rule be_digits_val) (use u8_bound in auto)
  also have "replicate ?z 0 @ dropWhile (\<lambda>d. d = 0) (map unat data) = map unat data" unfolding z by (rule leading_zeros)
  finally have "base58_bytes ?ds = data" by (simp only: map_word_unat)
  then show ?thesis using small by (intro exI [of _ ?ds]) (simp add: base58_text_def)
qed

lemma map_chars_inj:
  assumes "\<forall>d\<in>set ds. d < 58" "\<forall>d\<in>set es. d < 58" "map (\<lambda>d. BASE58_CHARS ! d) ds = map (\<lambda>d. BASE58_CHARS ! d) es"
  shows "ds = es"
  using assms
proof (induction ds arbitrary: es)
  case (Cons d ds)
  then obtain e es' where es: "es = e # es'" by (cases es) auto
  have "BASE58_CHARS ! d = BASE58_CHARS ! e" "map (\<lambda>d. BASE58_CHARS ! d) ds = map (\<lambda>d. BASE58_CHARS ! d) es'"
    using Cons.prems(3) unfolding es by simp_all
  then have "d = e" "ds = es'" using Cons.IH [of es'] Cons.prems(1,2) base58_char_inj [of d e] unfolding es by simp_all
  then show ?case using es by simp
qed simp

subsection \<open>Errors\<close>

lemma decode_chars_bad:
  "c \<notin> set BASE58_CHARS \<Longrightarrow> decode_chars capacity (c # rest) scratch = Err c"
  by (auto simp: base58_char split: option.splits)

lemma base58_decode_bad:
  assumes "\<And>n. n \<le> with_capacity n" "find (\<lambda>c. c \<notin> set BASE58_CHARS) data = Some c"
  shows "base58_decode with_capacity data = Err c"
proof -
  obtain i where i: "i < length data" "data ! i \<notin> set BASE58_CHARS" "c = data ! i" "\<forall>j<i. data ! j \<in> set BASE58_CHARS"
    using assms(2) by (auto simp: find_Some_iff)
  have "list_all (\<lambda>c. c \<in> set BASE58_CHARS) (take i data)" using i(1,4) by (auto simp: list_all_length)
  then obtain ds where ds: "\<forall>d\<in>set ds. d < 58" "take i data = map (\<lambda>d. BASE58_CHARS ! d) ds"
    using base58_text_digits by blast
  have data: "data = map (\<lambda>d. BASE58_CHARS ! d) ds @ c # drop (Suc i) data"
    unfolding ds(2) [symmetric] i(3) by (rule id_take_nth_drop [OF i(1)])
  define cap where "cap = with_capacity (1 + length data * 11 div 15)"
  have cap: "1 + length data * 11 div 15 \<le> cap" unfolding cap_def by (rule assms(1))
  have "length ds \<le> length data" using data by (metis le_add1 length_append length_map)
  then have "length ds * 11 div 15 \<le> length data * 11 div 15" by (intro div_le_mono mult_le_mono1)
  then have "(256 :: nat) ^ (1 + length ds * 11 div 15) \<le> 256 ^ cap" using cap by (intro power_increasing) simp_all
  then have "58 ^ length ds \<le> (256 :: nat) ^ cap" using capacity_enough [of "length ds"] by (rule order.trans [rotated])
  then have "(nat_of_le [] + 1) * 58 ^ length ds \<le> 256 ^ cap" by simp
  then obtain scratch where "decode_chars cap (map (\<lambda>d. BASE58_CHARS ! d) ds @ c # drop (Suc i) data) []
      = decode_chars cap (c # drop (Suc i) data) scratch"
    using decode_chars_value [of ds "[]" cap "c # drop (Suc i) data"] ds(1) cap by auto
  then have "decode_chars cap data [] = Err c"
    using decode_chars_bad [of c cap "drop (Suc i) data" scratch] i(2,3) data by metis
  then show ?thesis unfolding base58_decode_def cap_def [symmetric] by simp
qed

text \<open>
  Property C17. Encoding and decoding to the base 58 are inverse to each other: \<open>decode\<close> accepts exactly the texts that the
  encoder writes, each for the bytes it is written for; every other text has a character outside of the
  alphabet, and the first of them is the error. It never panics, whatever more capacity the allocator gives.
\<close>

theorem base58_roundtrip:
  assumes "\<And>n. n \<le> with_capacity n"
  shows "(base58_decode with_capacity str = Ok data \<longleftrightarrow> encode_to_buffer None data = Ok str)
    \<and> (base58_decode with_capacity str = Err c \<longleftrightarrow> find (\<lambda>c. c \<notin> set BASE58_CHARS) str = Some c)
    \<and> base58_decode with_capacity str \<noteq> Panic"
proof (cases "find (\<lambda>c. c \<notin> set BASE58_CHARS) str")
  case None
  then have "list_all (\<lambda>c. c \<in> set BASE58_CHARS) str" by (auto simp: find_None_iff list_all_iff)
  then obtain ds where ds: "\<forall>d\<in>set ds. d < 58" "str = map (\<lambda>d. BASE58_CHARS ! d) ds" using base58_text_digits by blast
  have dec: "base58_decode with_capacity str = Ok (base58_bytes ds)"
    unfolding ds(2) by (rule base58_decode_digits [OF assms ds(1)])
  have "base58_bytes ds = data \<longleftrightarrow> base58_text data = str"
  proof
    assume "base58_bytes ds = data"
    then show "base58_text data = str" using base58_bytes_text [OF ds(1)] ds(2) by blast
  next
    assume "base58_text data = str"
    then show "base58_bytes ds = data" using base58_text_bytes [of data] map_chars_inj ds by metis
  qed
  then show ?thesis using None dec by (simp add: encode_to_buffer_text)
next
  case (Some bad)
  have "base58_text data \<noteq> str"
  proof
    assume "base58_text data = str"
    then obtain es where "\<forall>d\<in>set es. d < 58" "str = map (\<lambda>d. BASE58_CHARS ! d) es" using base58_text_bytes [of data] by metis
    then have "\<forall>c\<in>set str. c \<in> set BASE58_CHARS" by auto
    then show False using Some by (auto simp: find_Some_iff)
  qed
  then show ?thesis using Some base58_decode_bad [OF assms Some] by (auto simp: encode_to_buffer_text)
qed

theorem base58_roundtrip_witness:
  "encode_to_buffer None [0, 13, 36] = Ok [49, 50, 49, 49] \<and> base58_decode (\<lambda>n. n) [49, 50, 49, 49] = Ok [0, 13, 36]"
proof -
  have "be_digits 58 3364 = [1, 0, 0]" by (simp add: be_digits.simps)
  then have enc: "encode_to_buffer None [0, 13, 36] = Ok [49, 50, 49, 49]"
    by (simp add: encode_to_buffer_text base58_text_def leading_zero_bytes_def be_val_def BASE58_CHARS_def)
  then show ?thesis using base58_roundtrip [of "\<lambda>n. n" "[49, 50, 49, 49]" "[0, 13, 36]"] by simp
qed

subsection \<open>Checksums\<close>

lemma from_le_bytes_inj: "length xs = 4 \<Longrightarrow> length ys = 4 \<Longrightarrow> from_le_bytes xs = (from_le_bytes ys :: u32) \<longleftrightarrow> xs = ys"
proof
  assume len: "length xs = 4" "length ys = 4" and eq: "from_le_bytes xs = (from_le_bytes ys :: u32)"
  have "to_le_bytes (from_le_bytes xs :: u32) = xs" by (rule to_from_le_bytes) (simp add: len)
  moreover have "to_le_bytes (from_le_bytes ys :: u32) = ys" by (rule to_from_le_bytes) (simp add: len)
  ultimately show "xs = ys" unfolding eq by (rule trans [OF sym])
qed simp

lemma decode_check_Ok:
  assumes "\<And>x. length (sha256d x) = 32"
  shows "decode_check sha256d with_capacity str = Ok data \<longleftrightarrow>
    base58_decode with_capacity str = Ok (data @ take 4 (sha256d data))" (is "?l \<longleftrightarrow> ?r")
proof
  assume ?l
  then obtain ret where ret: "base58_decode with_capacity str = Ok ret" "\<not> length ret < 4"
    "from_le_bytes (drop (length ret - 4) ret) = (from_le_bytes (take 4 (sha256d (take (length ret - 4) ret))) :: u32)"
    "data = take (length ret - 4) ret"
    by (auto simp: decode_check_def res_bind_Ok_iff Let_def split: if_splits)
  then have "drop (length ret - 4) ret = take 4 (sha256d data)"
    using from_le_bytes_inj [of "drop (length ret - 4) ret" "take 4 (sha256d data)"] assms by simp
  then have "ret = data @ take 4 (sha256d data)" using ret(4) by (metis append_take_drop_id)
  then show ?r using ret(1) by simp
next
  assume ?r
  then show ?l using assms by (simp add: decode_check_def)
qed

lemma encode_unbounded_text:
  "encode_unbounded sha256d data = Ok s \<Longrightarrow> base58ck_as_bytes s = base58_text (data @ take 4 (sha256d data))"
  by (auto simp: encode_unbounded_def encode_to_buffer_text Let_def split: if_splits res.splits)

lemma base58_decode_text:
  assumes "\<And>n. n \<le> with_capacity n"
  shows "base58_decode with_capacity str = Ok ret \<longleftrightarrow> base58_text ret = str"
proof -
  obtain ds where ds: "\<forall>d\<in>set ds. d < 58" "base58_text ret = map (\<lambda>d. BASE58_CHARS ! d) ds" "base58_bytes ds = ret"
    using base58_text_bytes by blast
  then have "base58_decode with_capacity (base58_text ret) = Ok ret" using base58_decode_digits [OF assms ds(1)] by simp
  moreover have "base58_text ret = str" if dec: "base58_decode with_capacity str = Ok ret"
  proof (cases "find (\<lambda>c. c \<notin> set BASE58_CHARS) str")
    case None
    then have "list_all (\<lambda>c. c \<in> set BASE58_CHARS) str" by (auto simp: find_None_iff list_all_iff)
    then obtain es where es: "\<forall>d\<in>set es. d < 58" "str = map (\<lambda>d. BASE58_CHARS ! d) es" using base58_text_digits by blast
    then have "ret = base58_bytes es" using dec base58_decode_digits [OF assms es(1)] by simp
    then show ?thesis using base58_bytes_text [OF es(1)] es(2) by simp
  qed (use dec base58_decode_bad [OF assms] in simp)
  ultimately show ?thesis by blast
qed

text \<open>
  Property C32. A text that the encoder writes with its checksum decodes to the bytes it is written for, and the decoder accepts no
  other text for them: one that does not end in the checksum of what comes before it is refused.
\<close>

theorem base58check_roundtrip:
  assumes "\<And>n. n \<le> with_capacity n" "\<And>x. length (sha256d x) = 32"
  shows "(encode_unbounded sha256d data = Ok s \<longrightarrow> decode_check sha256d with_capacity (base58ck_as_bytes s) = Ok data)
    \<and> (decode_check sha256d with_capacity str = Ok data \<longleftrightarrow> encode_to_buffer None (data @ take 4 (sha256d data)) = Ok str)"
proof -
  have iff: "decode_check sha256d with_capacity str = Ok data \<longleftrightarrow> encode_to_buffer None (data @ take 4 (sha256d data)) = Ok str" for str
    using base58_decode_text [OF assms(1)] by (simp add: decode_check_Ok [OF assms(2)] encode_to_buffer_text)
  then show ?thesis using encode_unbounded_text [of sha256d data s] by (auto simp: encode_to_buffer_text)
qed

theorem base58check_roundtrip_witness:
  "\<exists>s. encode_unbounded (\<lambda>_. replicate 32 0) [] = Ok s \<and> decode_check (\<lambda>_. replicate 32 0) (\<lambda>n. n) (base58ck_as_bytes s) = Ok []"
proof -
  have "\<exists>s. encode_unbounded (\<lambda>_. replicate 32 0) [] = Ok s"
    by (simp add: encode_unbounded_def encoded_check_reserve_len_def encoded_reserve_len_def SHORT_OPT_BUFFER_LEN_def
        encode_to_buffer_text fits_def base58_text_def be_val_zeros [of 256 4 "[]", simplified] leading_zero_bytes_def)
  then show ?thesis using base58check_roundtrip [of "\<lambda>n. n" "\<lambda>_. replicate 32 0" "[]"] by auto
qed

subsection \<open>The short buffer\<close>

lemma length_base58_text: "length (base58_text data) \<le> leading_zero_bytes data + k \<longleftrightarrow> be_val 256 (map unat data) < 58 ^ k"
  by (simp add: base58_text_def length_be_digits)

lemma be_val_leading: "be_val 256 (map unat data) < 256 ^ (length data - leading_zero_bytes data)"
proof -
  let ?ds = "map unat data"
  have z: "leading_zero_bytes data = length (takeWhile (\<lambda>d. d = 0) ?ds)"
    by (simp add: leading_zero_bytes_def takeWhile_map comp_def unat_eq_0)
  have "be_val 256 ?ds = be_val 256 (replicate (leading_zero_bytes data) 0 @ dropWhile (\<lambda>d. d = 0) ?ds)"
    unfolding z by (simp only: leading_zeros)
  also have "\<dots> = be_val 256 (dropWhile (\<lambda>d. d = 0) ?ds)" by simp
  also have "\<dots> < 256 ^ length (dropWhile (\<lambda>d. d = 0) ?ds)"
    by (rule be_val_less) (use u8_bound in \<open>auto dest!: set_dropWhileD\<close>)
  also have "length (dropWhile (\<lambda>d. d = 0) ?ds) = length data - leading_zero_bytes data"
    unfolding z by (metis add_diff_cancel_left' length_append length_map takeWhile_dropWhile_id)
  finally show ?thesis .
qed

lemma short_enough: "z \<le> 93 \<Longrightarrow> (256 :: nat) ^ (93 - z) \<le> 58 ^ (128 - z)"
proof -
  assume z: "z \<le> 93"
  have "(58 :: nat) ^ z \<le> 256 ^ z" by (intro power_mono) simp_all
  then have "(256 :: nat) ^ (93 - z) * 58 ^ z \<le> 256 ^ (93 - z) * 256 ^ z" by (intro mult_le_mono2)
  also have "\<dots> = 256 ^ 93" using z by (simp only: power_add [symmetric] le_add_diff_inverse2)
  also have "\<dots> \<le> (58 :: nat) ^ 128" by simp
  also have "\<dots> = 58 ^ (128 - z) * 58 ^ z" using z by (simp only: power_add [symmetric]) simp
  finally show ?thesis by simp
qed

lemma leading_zero_bytes_le: "leading_zero_bytes data \<le> length data"
  by (simp add: leading_zero_bytes_def length_takeWhile_le)

lemma encode_unbounded_panic_iff:
  assumes "\<And>x. length (sha256d x) = 32"
  shows "encode_unbounded sha256d data = Panic \<longleftrightarrow>
    length data = 90 \<and> 128 < length (base58_text (data @ take 4 (sha256d data)))"
proof -
  let ?iter = "data @ take 4 (sha256d data)"
  have len: "length ?iter = length data + 4" using assms by simp
  have "(length data + 4) * 137 div 100 \<le> 128 \<longleftrightarrow> (length data + 4) * 137 < 129 * 100"
    using div_less_iff_less_mult [of 100 "(length data + 4) * 137" 129] by auto
  then have reserve: "encoded_check_reserve_len (length data) \<le> SHORT_OPT_BUFFER_LEN \<longleftrightarrow> length data \<le> 90"
    unfolding encoded_check_reserve_len_def encoded_reserve_len_def SHORT_OPT_BUFFER_LEN_def by auto
  have small: "length (base58_text ?iter) \<le> 128" if "length data \<le> 89"
  proof -
    let ?z = "leading_zero_bytes ?iter"
    have z: "?z \<le> 93" using leading_zero_bytes_le [of ?iter] that len by linarith
    have "(256 :: nat) ^ (length ?iter - ?z) \<le> 256 ^ (93 - ?z)" using that len by (intro power_increasing) simp_all
    then have "be_val 256 (map unat ?iter) < 58 ^ (128 - ?z)"
      using be_val_leading [of ?iter] short_enough [OF z] by linarith
    then have "length (base58_text ?iter) \<le> ?z + (128 - ?z)" by (simp only: length_base58_text)
    then show ?thesis using z by linarith
  qed
  show ?thesis
  proof (cases "length data \<le> 90")
    case True
    then have "encode_unbounded sha256d data = Panic \<longleftrightarrow> 128 < length (base58_text ?iter)"
      using reserve by (auto simp: encode_unbounded_def Let_def encode_to_buffer_text fits_def SHORT_OPT_BUFFER_LEN_def)
    then show ?thesis using True small by (cases "length data = 90") auto
  next
    case False
    then show ?thesis using reserve by (simp add: encode_unbounded_def Let_def encode_to_buffer_text)
  qed
qed

lemma base58ck_encode_no_alloc:
  "base58ck_encode False sha256d data =
     (let s = base58_text (data @ take 4 (sha256d data)) in if length s \<le> 128 then Ok (Small s) else Err (length data))"
  by (simp add: base58ck_encode_def encode_to_buffer_text fits_def SHORT_OPT_BUFFER_LEN_def Let_def)

text \<open>
  Property C33. \<open>encode_unbounded\<close>, whose comment says that it is infallible, panics on data of exactly 90 bytes when its text,
  with the checksum, has more than the 128 characters of the short buffer, as for 90 bytes \<open>0xff\<close>:
  the estimate of the length, 137 / 100 of 94 rounded down, is too small by one. For every other length it
  returns.
\<close>

theorem encode_unbounded_panics:
  assumes "\<And>x. length (sha256d x) = 32"
  shows "(encode_unbounded sha256d data = Panic \<longleftrightarrow>
       length data = 90 \<and> 128 < length (base58_text (data @ take 4 (sha256d data))))
    \<and> encode_unbounded sha256d (replicate 90 0xFF) = Panic"
proof
  let ?panics = "\<lambda>data. length data = 90 \<and> 128 < length (base58_text (data @ take 4 (sha256d data)))"
  show "encode_unbounded sha256d data = Panic \<longleftrightarrow> ?panics data" by (rule encode_unbounded_panic_iff) (rule assms)
  let ?data = "replicate 90 0xFF :: bytes"
  let ?rest = "replicate 89 0xFF @ take 4 (sha256d ?data) :: bytes"
  have cons: "?data @ take 4 (sha256d ?data) = 0xFF # ?rest"
    by (simp only: append_Cons [symmetric] replicate_Suc [symmetric]) simp
  have "length ?rest = 93" using assms by simp
  then have "255 * 256 ^ 93 \<le> be_val 256 (map unat ([0xFF] @ ?rest))"
    unfolding map_append be_val_append by (simp add: be_val_def)
  moreover have "(58 :: nat) ^ 128 \<le> 255 * 256 ^ 93" by simp
  ultimately have "\<not> be_val 256 (map unat (0xFF # ?rest)) < 58 ^ 128" by simp
  moreover have "leading_zero_bytes (0xFF # ?rest) = 0" by (simp add: leading_zero_bytes_def)
  ultimately have "128 < length (base58_text (0xFF # ?rest))" using length_base58_text [of "0xFF # ?rest" 128] by simp
  then show "encode_unbounded sha256d ?data = Panic" using encode_unbounded_panic_iff [of sha256d ?data, OF assms] unfolding cons by simp
qed

theorem encode_unbounded_panics_witness:
  "encode_unbounded (\<lambda>_. replicate 32 0) (replicate 90 0xFF) = Panic"
  using encode_unbounded_panics [of "\<lambda>_. replicate 32 0"] by simp

end
