(* ===== verification/Address.thy ===== *)
theory Address
  imports Networks Script_Templates Base58
begin

section \<open>Addresses\<close>

text \<open>
  \<open>bitcoin/src/address/mod.rs\<close>, and \<open>addresses/src/lib.rs\<close>. The crate \<open>bech32\<close> is a
  parameter: a record of its two encoders and its decoder, whose human-readable parts are in lower case, as their
  comparison ignores the case. Text is its UTF-8 bytes; no prefix that \<open>from_str\<close> looks for has a letter
  that is the lower case of a character outside of ASCII, so \<open>to_lowercase\<close> is that of ASCII. Hashes are 20 bytes.
\<close>

subsection \<open>Human-readable parts\<close>

datatype known_hrp = HrpMainnet | HrpTestnets | HrpRegtest

fun known_hrp_from_network :: "network \<Rightarrow> known_hrp" where
  "known_hrp_from_network Bitcoin = HrpMainnet"
| "known_hrp_from_network (Testnet _) = HrpTestnets"
| "known_hrp_from_network Signet = HrpTestnets"
| "known_hrp_from_network Regtest = HrpRegtest"

definition BC :: bytes where "BC = [98, 99]"
definition TB :: bytes where "TB = [116, 98]"
definition BCRT :: bytes where "BCRT = [98, 99, 114, 116]"

fun known_hrp_to_hrp :: "known_hrp \<Rightarrow> bytes" where
  "known_hrp_to_hrp HrpMainnet = BC"
| "known_hrp_to_hrp HrpTestnets = TB"
| "known_hrp_to_hrp HrpRegtest = BCRT"

text \<open>The error is the unknown part.\<close>

definition known_hrp_from_hrp :: "bytes \<Rightarrow> (bytes, known_hrp) res" where
  "known_hrp_from_hrp hrp =
     (if hrp = BC then Ok HrpMainnet else if hrp = TB then Ok HrpTestnets else if hrp = BCRT then Ok HrpRegtest else Err hrp)"

fun network_kind_of_hrp :: "known_hrp \<Rightarrow> network_kind" where
  "network_kind_of_hrp HrpMainnet = Main"
| "network_kind_of_hrp HrpTestnets = Test"
| "network_kind_of_hrp HrpRegtest = Test"

subsection \<open>Addresses and scripts\<close>

datatype address =
    P2pkh bytes network_kind
  | P2sh bytes network_kind
  | Segwit witness_program known_hrp

datatype address_type = TypeP2pkh | TypeP2sh | TypeP2wpkh | TypeP2wsh | TypeP2tr | TypeP2a

text \<open>What the types of the source guarantee: hashes of 20 bytes, and programs that \<open>WitnessProgram::new\<close> accepts.\<close>

fun address_ok :: "address \<Rightarrow> bool" where
  "address_ok (P2pkh h _) \<longleftrightarrow> length h = 20"
| "address_ok (P2sh h _) \<longleftrightarrow> length h = 20"
| "address_ok (Segwit p _) \<longleftrightarrow> witness_program_new (program_version p) (program_bytes p) = Ok p"

fun address_network_kind :: "address \<Rightarrow> network_kind" where
  "address_network_kind (P2pkh _ network) = network"
| "address_network_kind (P2sh _ network) = network"
| "address_network_kind (Segwit _ hrp) = network_kind_of_hrp hrp"

fun address_type_of :: "address \<Rightarrow> address_type option" where
  "address_type_of (P2pkh _ _) = Some TypeP2pkh"
| "address_type_of (P2sh _ _) = Some TypeP2sh"
| "address_type_of (Segwit p _) =
     (if program_is_p2wpkh p then Some TypeP2wpkh else if program_is_p2wsh p then Some TypeP2wsh
      else if program_is_p2tr p then Some TypeP2tr else if program_is_p2a p then Some TypeP2a else None)"

definition is_spend_standard :: "address \<Rightarrow> bool" where
  "is_spend_standard a \<longleftrightarrow> address_type_of a \<noteq> None"

datatype from_script_error =
    UnrecognizedScript
  | ErrWitnessProgram witness_program_error
  | ErrWitnessVersion u8

definition address_from_script :: "bytes \<Rightarrow> network \<Rightarrow> (from_script_error, address) res" where
  "address_from_script script network =
     (if is_p2pkh script then Ok (P2pkh (take 20 (drop 3 script)) (network_kind_of network))
      else if is_p2sh script then Ok (P2sh (take 20 (drop 2 script)) (network_kind_of network))
      else if is_witness_program script then
        res_bind (map_err ErrWitnessVersion (version_try_from_opcode (hd script))) (\<lambda>version.
          res_bind (map_err ErrWitnessProgram (witness_program_new version (drop 2 script))) (\<lambda>program.
            Ok (Segwit program (known_hrp_from_network network))))
      else Err UnrecognizedScript)"

fun address_script_pubkey :: "address \<Rightarrow> bytes" where
  "address_script_pubkey (P2pkh h _) = new_p2pkh h"
| "address_script_pubkey (P2sh h _) = new_p2sh h"
| "address_script_pubkey (Segwit p _) = new_witness_program_unchecked (program_version p) (program_bytes p)"

fun matches_script_pubkey :: "address \<Rightarrow> bytes \<Rightarrow> bool" where
  "matches_script_pubkey (P2pkh h _) script = (is_p2pkh script \<and> take 20 (drop 3 script) = h)"
| "matches_script_pubkey (P2sh h _) script = (is_p2sh script \<and> take 20 (drop 2 script) = h)"
| "matches_script_pubkey (Segwit p _) script = (is_witness_program script \<and> drop 2 script = program_bytes p)"

fun payload_as_bytes :: "address \<Rightarrow> bytes" where
  "payload_as_bytes (P2sh h _) = h"
| "payload_as_bytes (P2pkh h _) = h"
| "payload_as_bytes (Segwit p _) = program_bytes p"

text \<open>A public key by its hash and its x coordinate.\<close>

definition segwit_redeem_hash :: "(bytes \<Rightarrow> bytes) \<Rightarrow> bytes \<Rightarrow> bytes" where
  "segwit_redeem_hash hash160 pubkey_hash = hash160 ([0, 20] @ pubkey_hash)"

definition is_related_to_pubkey :: "(bytes \<Rightarrow> bytes) \<Rightarrow> address \<Rightarrow> bytes \<Rightarrow> bytes \<Rightarrow> bool" where
  "is_related_to_pubkey hash160 a pubkey_hash xonly =
     (pubkey_hash = payload_as_bytes a \<or> xonly = payload_as_bytes a \<or> segwit_redeem_hash hash160 pubkey_hash = payload_as_bytes a)"

definition is_related_to_xonly_pubkey :: "address \<Rightarrow> bytes \<Rightarrow> bool" where
  "is_related_to_xonly_pubkey a xonly = (xonly = payload_as_bytes a)"

fun is_valid_for_network :: "address \<Rightarrow> network \<Rightarrow> bool" where
  "is_valid_for_network (P2pkh _ kind) n = (kind = network_kind_of n)"
| "is_valid_for_network (P2sh _ kind) n = (kind = network_kind_of n)"
| "is_valid_for_network (Segwit _ hrp) n = (hrp = known_hrp_from_network n)"

subsection \<open>Addresses as text\<close>

record 'e bech32 =
  encode_lower :: "bytes \<Rightarrow> u8 \<Rightarrow> bytes \<Rightarrow> bytes"
  encode_upper :: "bytes \<Rightarrow> u8 \<Rightarrow> bytes \<Rightarrow> bytes"
  bech32_decode :: "bytes \<Rightarrow> ('e, bytes \<times> u8 \<times> bytes) res"

datatype 'e bech32_error =
    ParseBech32 'e
  | Bech32WitnessVersion u8
  | UnknownHrp bytes

datatype base58_address_error =
    ParseBase58 base58_error
  | LegacyAddressTooLong nat
  | InvalidBase58PayloadLength nat
  | InvalidLegacyPrefix u8

datatype 'e address_parse_error =
    ErrBase58 base58_address_error
  | ErrBech32 "'e bech32_error"
  | NetworkValidation network address

text \<open>The prefixes of \<open>addresses/src/lib.rs\<close>.\<close>

definition PUBKEY_ADDRESS_PREFIX_MAIN :: u8 where "PUBKEY_ADDRESS_PREFIX_MAIN = 0"
definition SCRIPT_ADDRESS_PREFIX_MAIN :: u8 where "SCRIPT_ADDRESS_PREFIX_MAIN = 5"
definition PUBKEY_ADDRESS_PREFIX_TEST :: u8 where "PUBKEY_ADDRESS_PREFIX_TEST = 111"
definition SCRIPT_ADDRESS_PREFIX_TEST :: u8 where "SCRIPT_ADDRESS_PREFIX_TEST = 196"

lemmas address_prefixes = PUBKEY_ADDRESS_PREFIX_MAIN_def SCRIPT_ADDRESS_PREFIX_MAIN_def
  PUBKEY_ADDRESS_PREFIX_TEST_def SCRIPT_ADDRESS_PREFIX_TEST_def

definition legacy_display :: "(bytes \<Rightarrow> bytes) \<Rightarrow> u8 \<Rightarrow> bytes \<Rightarrow> (unit, bytes) res" where
  "legacy_display sha256d prefix h =
     res_bind (encode_unbounded sha256d (prefix # h)) (\<lambda>s. Ok (base58ck_as_bytes s))"

text \<open>\<open>Display\<close>, with the alternate form of bech32 in upper case.\<close>

fun address_display :: "(bytes \<Rightarrow> bytes) \<Rightarrow> 'e bech32 \<Rightarrow> bool \<Rightarrow> address \<Rightarrow> (unit, bytes) res" where
  "address_display sha256d b32 alternate (P2pkh h network) =
     legacy_display sha256d (case network of Main \<Rightarrow> PUBKEY_ADDRESS_PREFIX_MAIN | Test \<Rightarrow> PUBKEY_ADDRESS_PREFIX_TEST) h"
| "address_display sha256d b32 alternate (P2sh h network) =
     legacy_display sha256d (case network of Main \<Rightarrow> SCRIPT_ADDRESS_PREFIX_MAIN | Test \<Rightarrow> SCRIPT_ADDRESS_PREFIX_TEST) h"
| "address_display sha256d b32 alternate (Segwit p hrp) =
     Ok ((if alternate then encode_upper b32 else encode_lower b32)
           (known_hrp_to_hrp hrp) (to_num (program_version p)) (program_bytes p))"

definition from_bech32_str :: "'e bech32 \<Rightarrow> bytes \<Rightarrow> ('e bech32_error, address) res" where
  "from_bech32_str b32 s =
     res_bind (map_err ParseBech32 (bech32_decode b32 s)) (\<lambda>(hrp, witness_version, data).
       res_bind (map_err Bech32WitnessVersion (version_try_from_u8 witness_version)) (\<lambda>version.
         case witness_program_new version data of
           Ok program \<Rightarrow> res_bind (map_err UnknownHrp (known_hrp_from_hrp hrp)) (\<lambda>hrp. Ok (Segwit program hrp))
         | _ \<Rightarrow> Panic))"

definition from_base58_str :: "(bytes \<Rightarrow> bytes) \<Rightarrow> (nat \<Rightarrow> nat) \<Rightarrow> bytes \<Rightarrow> (base58_address_error, address) res" where
  "from_base58_str sha256d with_capacity s =
     (if length s > 50 then Err (LegacyAddressTooLong (length s))
      else res_bind (map_err ParseBase58 (decode_check sha256d with_capacity s)) (\<lambda>data.
        if length data \<noteq> 21 then Err (InvalidBase58PayloadLength (length data))
        else
          let prefix = hd data; data = tl data in
          if prefix = PUBKEY_ADDRESS_PREFIX_MAIN then Ok (P2pkh data Main)
          else if prefix = PUBKEY_ADDRESS_PREFIX_TEST then Ok (P2pkh data Test)
          else if prefix = SCRIPT_ADDRESS_PREFIX_MAIN then Ok (P2sh data Main)
          else if prefix = SCRIPT_ADDRESS_PREFIX_TEST then Ok (P2sh data Test)
          else Err (InvalidLegacyPrefix prefix)))"

definition ascii_lower :: "u8 \<Rightarrow> u8" where
  "ascii_lower c = (if 65 \<le> c \<and> c \<le> 90 then c + 32 else c)"

definition starts_with :: "bytes \<Rightarrow> bytes \<Rightarrow> bool" where
  "starts_with s p \<longleftrightarrow> take (length p) s = p"

text \<open>What is before the last \<open>'1'\<close>, or all of the text.\<close>

definition before_separator :: "bytes \<Rightarrow> bytes" where
  "before_separator s = (if 49 \<in> set s then rev (tl (dropWhile (\<lambda>c. c \<noteq> 49) (rev s))) else s)"

definition address_from_str ::
  "(bytes \<Rightarrow> bytes) \<Rightarrow> (nat \<Rightarrow> nat) \<Rightarrow> 'e bech32 \<Rightarrow> bytes \<Rightarrow> ('e address_parse_error, address) res" where
  "address_from_str sha256d with_capacity b32 s =
     (if list_ex (starts_with (map ascii_lower s)) [BC @ [49], BCRT @ [49], TB @ [49]]
      then map_err ErrBech32 (from_bech32_str b32 s)
      else if list_ex (starts_with s) [[49], [50], [51], [109], [110]]
      then map_err ErrBase58 (from_base58_str sha256d with_capacity s)
      else Err (ErrBech32 (UnknownHrp (before_separator s))))"

definition require_network :: "address \<Rightarrow> network \<Rightarrow> ('e address_parse_error, address) res" where
  "require_network a required = (if is_valid_for_network a required then Ok a else Err (NetworkValidation required a))"

subsection \<open>Scripts of addresses\<close>

lemma witness_program_new_Ok:
  "witness_program_new v bs = Ok p \<longleftrightarrow> p = \<lparr>program_version = v, program_bytes = bs\<rparr> \<and> 2 \<le> length bs \<and> length bs \<le> 40
     \<and> (v = V0 \<longrightarrow> length bs = 20 \<or> length bs = 32)"
  by (auto simp: witness_program_new_def Let_def)

lemma witness_program_new_halts: "witness_program_new v bs \<noteq> Panic" "witness_program_new v bs \<noteq> Diverge"
  by (auto simp: witness_program_new_def Let_def)

lemma witness_script_kind:
  assumes "2 \<le> length p" "length p \<le> 40"
  shows "\<not> is_p2pkh (new_witness_program_unchecked v p)" "\<not> is_p2sh (new_witness_program_unchecked v p)"
    "is_witness_program (new_witness_program_unchecked v p)"
    "hd (new_witness_program_unchecked v p) = opcode_from_version v" "drop 2 (new_witness_program_unchecked v p) = p"
proof -
  have bytes: "new_witness_program_unchecked v p = opcode_from_version v # word_of_nat (length p) # p"
    using assms by (rule new_witness_program_unchecked_bytes)
  then show "\<not> is_p2pkh (new_witness_program_unchecked v p)" "\<not> is_p2sh (new_witness_program_unchecked v p)"
    using opcode_from_version_neq [of v] by (auto simp: is_p2pkh_def is_p2sh_def)
  have "script_witness_version (new_witness_program_unchecked v p) = Some v"
    using assms script_witness_version_iff by blast
  then show "is_witness_program (new_witness_program_unchecked v p)" by (simp add: is_witness_program_def)
  show "hd (new_witness_program_unchecked v p) = opcode_from_version v" "drop 2 (new_witness_program_unchecked v p) = p"
    by (simp_all add: bytes numeral_2_eq_2)
qed

lemma legacy_script_kind:
  assumes "length h = 20"
  shows "is_p2pkh (new_p2pkh h)" "take 20 (drop 3 (new_p2pkh h)) = h"
    "is_p2sh (new_p2sh h)" "\<not> is_p2pkh (new_p2sh h)" "take 20 (drop 2 (new_p2sh h)) = h"
proof -
  show "is_p2pkh (new_p2pkh h)" using assms is_p2pkh_iff by blast
  show "is_p2sh (new_p2sh h)" using assms is_p2sh_iff by blast
  show "\<not> is_p2pkh (new_p2sh h)" using assms by (simp add: is_p2pkh_def new_p2sh_bytes)
  show "take 20 (drop 3 (new_p2pkh h)) = h" "take 20 (drop 2 (new_p2sh h)) = h"
    using assms by (simp_all add: new_p2pkh_bytes new_p2sh_bytes)
qed

text \<open>The network of an address, as far as its script does not tell.\<close>

fun on_network :: "address \<Rightarrow> network \<Rightarrow> address" where
  "on_network (P2pkh h _) n = P2pkh h (network_kind_of n)"
| "on_network (P2sh h _) n = P2sh h (network_kind_of n)"
| "on_network (Segwit p _) n = Segwit p (known_hrp_from_network n)"

text \<open>
  Property C19. Addresses and the scripts that pay to them determine each other, up to the network: the script of an address
  gives the address back, on the network that is asked for, and an address that is made from a script has that
  script.
\<close>

theorem address_script_roundtrip:
  "(address_ok a \<longrightarrow> address_from_script (address_script_pubkey a) n = Ok (on_network a n))
   \<and> (address_from_script script n = Ok a \<longrightarrow> address_ok a \<and> address_script_pubkey a = script \<and> is_valid_for_network a n)"
proof
  show "address_ok a \<longrightarrow> address_from_script (address_script_pubkey a) n = Ok (on_network a n)"
  proof (cases a)
    case (Segwit p hrp)
    show ?thesis
    proof
      assume "address_ok a"
      then have p: "2 \<le> length (program_bytes p)" "length (program_bytes p) \<le> 40"
        "witness_program_new (program_version p) (program_bytes p) = Ok p"
        using Segwit by (auto simp: witness_program_new_Ok)
      then show "address_from_script (address_script_pubkey a) n = Ok (on_network a n)"
        using witness_script_kind [OF p(1,2)] Segwit by (simp add: address_from_script_def)
    qed
  qed (simp_all add: address_from_script_def legacy_script_kind)
  show "address_from_script script n = Ok a \<longrightarrow> address_ok a \<and> address_script_pubkey a = script \<and> is_valid_for_network a n"
  proof
    assume from_script: "address_from_script script n = Ok a"
    consider (pkh) "is_p2pkh script" | (sh) "\<not> is_p2pkh script" "is_p2sh script"
      | (wit) "\<not> is_p2pkh script" "\<not> is_p2sh script" "is_witness_program script"
      using from_script by (auto simp: address_from_script_def split: if_splits)
    then show "address_ok a \<and> address_script_pubkey a = script \<and> is_valid_for_network a n"
    proof cases
      case pkh
      then show ?thesis using from_script is_p2pkh_iff [of script] by (auto simp: address_from_script_def legacy_script_kind)
    next
      case sh
      then show ?thesis using from_script is_p2sh_iff [of script] by (auto simp: address_from_script_def legacy_script_kind)
    next
      case wit
      then obtain v p where p: "2 \<le> length p" "length p \<le> 40" "script = new_witness_program_unchecked v p"
        using script_witness_version_iff [of script] by (auto simp: is_witness_program_def)
      then show ?thesis using from_script wit witness_script_kind [OF p(1,2), of v]
        by (auto simp: address_from_script_def res_bind_Ok_iff witness_program_new_Ok)
    qed
  qed
qed

theorem address_script_roundtrip_witness:
  "address_from_script (address_script_pubkey (P2sh (replicate 20 7) Main)) Signet = Ok (P2sh (replicate 20 7) Test)"
  using address_script_roundtrip [of "P2sh (replicate 20 7) Main" Signet] by simp

text \<open>
  Property C34. \<open>matches_script_pubkey\<close> tells whether a script is that of the address, except that for a witness program it does
  not look at the version: an address of one version matches the script of another with the same program.
\<close>

theorem matches_script_pubkey_iff:
  "(address_ok a \<longrightarrow> (matches_script_pubkey a script \<longleftrightarrow>
      (case a of Segwit p _ \<Rightarrow> \<exists>v. script = new_witness_program_unchecked v (program_bytes p)
       | _ \<Rightarrow> script = address_script_pubkey a)))
   \<and> matches_script_pubkey (Segwit \<lparr>program_version = V1, program_bytes = replicate 32 7\<rparr> HrpMainnet) (new_p2wsh (replicate 32 7))
   \<and> address_script_pubkey (Segwit \<lparr>program_version = V1, program_bytes = replicate 32 7\<rparr> HrpMainnet) \<noteq> new_p2wsh (replicate 32 7)"
proof (intro conjI)
  show "address_ok a \<longrightarrow> (matches_script_pubkey a script \<longleftrightarrow>
      (case a of Segwit p _ \<Rightarrow> \<exists>v. script = new_witness_program_unchecked v (program_bytes p)
       | _ \<Rightarrow> script = address_script_pubkey a))"
  proof (cases a)
    case (Segwit p hrp)
    show ?thesis
    proof
      assume "address_ok a"
      then have p: "2 \<le> length (program_bytes p)" "length (program_bytes p) \<le> 40" using Segwit by (auto simp: witness_program_new_Ok)
      have "is_witness_program script \<and> drop 2 script = program_bytes p
          \<longleftrightarrow> (\<exists>v. script = new_witness_program_unchecked v (program_bytes p))"
      proof
        assume s: "is_witness_program script \<and> drop 2 script = program_bytes p"
        then obtain v q where q: "2 \<le> length q" "length q \<le> 40" "script = new_witness_program_unchecked v q"
          using script_witness_version_iff [of script] by (auto simp: is_witness_program_def)
        then have "q = program_bytes p" using s witness_script_kind(5) [OF q(1,2), of v] by simp
        then show "\<exists>v. script = new_witness_program_unchecked v (program_bytes p)" using q(3) by blast
      qed (use witness_script_kind [OF p] in auto)
      then show "matches_script_pubkey a script \<longleftrightarrow>
        (case a of Segwit p _ \<Rightarrow> \<exists>v. script = new_witness_program_unchecked v (program_bytes p)
         | _ \<Rightarrow> script = address_script_pubkey a)" using Segwit by simp
    qed
  next
    case (P2pkh h kind)
    then show ?thesis using is_p2pkh_iff [of script] legacy_script_kind [of h] legacy_script_kind(2) by auto
  next
    case (P2sh h kind)
    then show ?thesis using is_p2sh_iff [of script] legacy_script_kind [of h] legacy_script_kind(5) by auto
  qed
  have len: "2 \<le> length (replicate 32 (7 :: u8))" "length (replicate 32 (7 :: u8)) \<le> 40" by simp_all
  show "matches_script_pubkey (Segwit \<lparr>program_version = V1, program_bytes = replicate 32 7\<rparr> HrpMainnet) (new_p2wsh (replicate 32 7))"
    using witness_script_kind(3,5) [OF len, of V0] by (simp add: new_p2wsh_def)
  have "opcode_from_version V1 \<noteq> opcode_from_version V0" by (simp add: opcode_from_version_def opcodes)
  then show "address_script_pubkey (Segwit \<lparr>program_version = V1, program_bytes = replicate 32 7\<rparr> HrpMainnet) \<noteq> new_p2wsh (replicate 32 7)"
    using witness_script_kind(4) [OF len, of V1] witness_script_kind(4) [OF len, of V0] by (auto simp: new_p2wsh_def)
qed

theorem matches_script_pubkey_iff_witness:
  "matches_script_pubkey (P2sh (replicate 20 7) Main) (new_p2sh (replicate 20 7))"
  using matches_script_pubkey_iff [of "P2sh (replicate 20 7) Main" "new_p2sh (replicate 20 7)"] by simp

end
