(* ===== verification/Address_Text.thy ===== *)
theory Address_Text
  imports Address
begin

section \<open>Addresses as text\<close>

text \<open>
  That parsing inverts displaying, for the legacy addresses in base 58 and, as far as the crate \<open>bech32\<close> keeps its
  promises, for the addresses of witness programs. The leading digits of the base 58 texts decide how
  \<open>from_str\<close> reads them.
\<close>

subsection \<open>Leading digits\<close>

lemma be_digits_eq_Nil [simp]: "2 \<le> B \<Longrightarrow> be_digits B n = [] \<longleftrightarrow> n = 0"
  by (cases "n = 0") (simp_all add: be_digits_step)

lemma be_digits_single: "0 < d \<Longrightarrow> d < B \<Longrightarrow> be_digits B d = [d]"
  by (cases "2 \<le> B") (simp_all add: be_digits_step)

lemma hd_be_digits:
  "2 \<le> B \<Longrightarrow> 0 < n div B ^ k \<Longrightarrow> hd (be_digits B n) = hd (be_digits B (n div B ^ k))"
proof (induction k)
  case (Suc k)
  have quotient: "n div B ^ Suc k = n div B ^ k div B" by (simp only: power_Suc2 div_mult2_eq)
  then have pos: "0 < n div B ^ k div B" using Suc.prems by simp
  then have "0 < n div B ^ k" by (cases "n div B ^ k = 0") simp_all
  then have "hd (be_digits B n) = hd (be_digits B (n div B ^ k))" using Suc by simp
  also have "be_digits B (n div B ^ k) = be_digits B (n div B ^ k div B) @ [n div B ^ k mod B]"
    using be_digits_step [OF Suc.prems(1) \<open>0 < n div B ^ k\<close>] .
  also have "hd \<dots> = hd (be_digits B (n div B ^ Suc k))" unfolding quotient using pos Suc.prems(1) by simp
  finally show ?case .
qed simp

lemma leading_digit:
  assumes "d * 58 ^ k \<le> n" "n < (d + m) * 58 ^ k" "0 < d" "d + m \<le> 58"
  shows "\<exists>e. d \<le> e \<and> e < d + m \<and> hd (be_digits 58 n) = e \<and> be_digits 58 n \<noteq> []"
proof -
  let ?e = "n div 58 ^ k"
  have bounds: "d \<le> ?e" "?e < d + m"
    using assms by (simp_all add: less_eq_div_iff_mult_less_eq div_less_iff_less_mult)
  then have "0 < ?e" "?e < 58" using assms by linarith+
  then have "hd (be_digits 58 n) = ?e" using hd_be_digits [of 58 n k] be_digits_single [of ?e 58] by simp
  moreover have "n \<noteq> 0" using \<open>0 < ?e\<close> by (cases "n = 0") simp_all
  ultimately show ?thesis using bounds by auto
qed

lemma be_val_prefix:
  "unat p * 256 ^ length bs \<le> be_val 256 (map unat (p # bs)) \<and> be_val 256 (map unat (p # bs)) < (unat p + 1) * 256 ^ length bs"
  for p :: u8 and bs :: bytes
proof -
  have "be_val 256 (map unat ([p] @ bs)) = unat p * 256 ^ length bs + be_val 256 (map unat bs)"
    unfolding map_append be_val_append by (simp add: be_val_def)
  moreover have "be_val 256 (map unat bs) < 256 ^ length (map unat bs)" by (rule be_val_less) (use u8_bound in auto)
  ultimately show ?thesis by simp
qed

text \<open>The first characters of the four kinds of legacy addresses.\<close>

definition legacy_first :: "u8 \<Rightarrow> bytes" where
  "legacy_first prefix =
     (if prefix = PUBKEY_ADDRESS_PREFIX_MAIN then [49] else if prefix = SCRIPT_ADDRESS_PREFIX_MAIN then [51]
      else if prefix = PUBKEY_ADDRESS_PREFIX_TEST then [109, 110] else [50])"

definition legacy_prefixes :: "u8 list" where
  "legacy_prefixes = [PUBKEY_ADDRESS_PREFIX_MAIN, SCRIPT_ADDRESS_PREFIX_MAIN, PUBKEY_ADDRESS_PREFIX_TEST, SCRIPT_ADDRESS_PREFIX_TEST]"

lemma base58_text_first:
  assumes "p \<noteq> 0" "be_digits 58 (be_val 256 (map unat (p # bs))) \<noteq> []"
  shows "base58_text (p # bs) \<noteq> [] \<and> hd (base58_text (p # bs)) = BASE58_CHARS ! hd (be_digits 58 (be_val 256 (map unat (p # bs))))"
  using assms by (simp add: base58_text_def leading_zero_bytes_def hd_map)

lemma legacy_text_first:
  assumes "p \<in> set legacy_prefixes" "length bs = 24"
  shows "base58_text (p # bs) \<noteq> [] \<and> hd (base58_text (p # bs)) \<in> set (legacy_first p)"
proof -
  let ?v = "be_val 256 (map unat (p # bs))"
  have v: "unat p * 256 ^ 24 \<le> ?v" "?v < (unat p + 1) * 256 ^ 24" using be_val_prefix [of p bs] assms(2) by simp_all
  consider "p = 0" | "p = 5" | "p = 111" | "p = 196" using assms(1) by (auto simp: legacy_prefixes_def address_prefixes)
  then show ?thesis
  proof cases
    case 1
    then show ?thesis by (simp add: base58_text_def leading_zero_bytes_def legacy_first_def address_prefixes BASE58_CHARS_def)
  next
    case 2
    then have "2 * 58 ^ 33 \<le> ?v" "?v < (2 + 1) * 58 ^ 33" using v by simp_all
    then have "be_digits 58 ?v \<noteq> [] \<and> hd (be_digits 58 ?v) = 2" using leading_digit [of 2 33 ?v 1] by auto
    then show ?thesis using base58_text_first [of p bs] 2 by (simp add: legacy_first_def address_prefixes BASE58_CHARS_def)
  next
    case 3
    then have "44 * 58 ^ 33 \<le> ?v" "?v < (44 + 2) * 58 ^ 33" using v by simp_all
    then have "be_digits 58 ?v \<noteq> [] \<and> (hd (be_digits 58 ?v) = 44 \<or> hd (be_digits 58 ?v) = 45)"
      using leading_digit [of 44 33 ?v 2] by auto
    then show ?thesis using base58_text_first [of p bs] 3 by (auto simp: legacy_first_def address_prefixes BASE58_CHARS_def)
  next
    case 4
    then have "1 * 58 ^ 34 \<le> ?v" "?v < (1 + 1) * 58 ^ 34" using v by simp_all
    then have "be_digits 58 ?v \<noteq> [] \<and> hd (be_digits 58 ?v) = 1" using leading_digit [of 1 34 ?v 1] by auto
    then show ?thesis using base58_text_first [of p bs] 4 by (simp add: legacy_first_def address_prefixes BASE58_CHARS_def)
  qed
qed

lemma legacy_text_length:
  assumes "length data = 25"
  shows "length (base58_text data) \<le> 50"
proof -
  let ?z = "leading_zero_bytes data"
  have z: "?z \<le> 25" using leading_zero_bytes_le [of data] assms by simp
  have "be_val 256 (map unat data) < 256 ^ (25 - ?z)" using be_val_leading [of data] assms by simp
  also have "\<dots> \<le> (58 ^ 2) ^ (25 - ?z)" by (rule power_mono) simp_all
  also have "\<dots> = 58 ^ (2 * (25 - ?z))" by (simp only: power_mult)
  also have "\<dots> \<le> (58 :: nat) ^ (50 - ?z)" by (rule power_increasing) simp_all
  finally have "length (base58_text data) \<le> ?z + (50 - ?z)" by (simp only: length_base58_text)
  then show ?thesis using z by simp
qed

subsection \<open>Parsing what is displayed\<close>

text \<open>What the model relies on of \<open>bech32\<close>: the decoder inverts both encoders, and their texts start with the human-readable part and the separator.\<close>

definition bech32_ok :: "'e bech32 \<Rightarrow> bool" where
  "bech32_ok b32 \<longleftrightarrow> (\<forall>p hrp encode. witness_program_new (program_version p) (program_bytes p) = Ok p
      \<and> (encode = encode_lower b32 \<or> encode = encode_upper b32) \<longrightarrow>
     bech32_decode b32 (encode (known_hrp_to_hrp hrp) (to_num (program_version p)) (program_bytes p))
       = Ok (known_hrp_to_hrp hrp, to_num (program_version p), program_bytes p)
     \<and> starts_with (map ascii_lower (encode (known_hrp_to_hrp hrp) (to_num (program_version p)) (program_bytes p)))
         (known_hrp_to_hrp hrp @ [49]))"

lemma known_hrp_inverse [simp]: "known_hrp_from_hrp (known_hrp_to_hrp hrp) = Ok hrp"
  by (cases hrp) (simp_all add: known_hrp_from_hrp_def BC_def TB_def BCRT_def)

lemma version_to_num [simp]: "version_try_from_u8 (to_num v) = Ok v"
  by (cases v) (simp_all add: version_try_from_u8_def)

fun legacy_prefix :: "address \<Rightarrow> u8 option" where
  "legacy_prefix (P2pkh _ Main) = Some PUBKEY_ADDRESS_PREFIX_MAIN"
| "legacy_prefix (P2pkh _ Test) = Some PUBKEY_ADDRESS_PREFIX_TEST"
| "legacy_prefix (P2sh _ Main) = Some SCRIPT_ADDRESS_PREFIX_MAIN"
| "legacy_prefix (P2sh _ Test) = Some SCRIPT_ADDRESS_PREFIX_TEST"
| "legacy_prefix (Segwit _ _) = None"

lemma legacy_prefix_mem: "legacy_prefix a = Some p \<Longrightarrow> p \<in> set legacy_prefixes"
  by (cases a rule: legacy_prefix.cases) (auto simp: legacy_prefixes_def)

lemma legacy_display_text:
  assumes "\<And>x. length (sha256d x) = 32" "length h = 20"
  shows "legacy_display sha256d p h = Ok (base58_text (p # h @ take 4 (sha256d (p # h))))"
proof -
  have "encode_unbounded sha256d (p # h) \<noteq> Panic"
    using encode_unbounded_panic_iff [of sha256d "p # h", OF assms(1)] assms(2) by simp
  moreover have "encode_unbounded sha256d (p # h) \<noteq> Err e" "encode_unbounded sha256d (p # h) \<noteq> Diverge" for e
    by (auto simp: encode_unbounded_def Let_def split: res.splits)
  ultimately obtain s where "encode_unbounded sha256d (p # h) = Ok s" by (cases "encode_unbounded sha256d (p # h)") auto
  then show ?thesis using encode_unbounded_text [of sha256d "p # h" s] by (simp add: legacy_display_def)
qed

lemma address_display_legacy:
  assumes "\<And>x. length (sha256d x) = 32" "address_ok a" "legacy_prefix a = Some p"
  shows "address_display sha256d b32 alternate a = Ok (base58_text (p # payload_as_bytes a @ take 4 (sha256d (p # payload_as_bytes a))))"
  using assms by (cases a rule: legacy_prefix.cases) (auto simp: legacy_display_text)

lemma from_base58_str_iff:
  assumes "\<And>n. n \<le> with_capacity n" "\<And>x. length (sha256d x) = 32"
  shows "from_base58_str sha256d with_capacity s = Ok a \<longleftrightarrow> (\<exists>p. address_ok a \<and> legacy_prefix a = Some p
     \<and> s = base58_text (p # payload_as_bytes a @ take 4 (sha256d (p # payload_as_bytes a))))" (is "?l \<longleftrightarrow> ?r")
proof
  assume ?l
  then obtain data where data: "decode_check sha256d with_capacity s = Ok data" "length data = 21"
    and a: "legacy_prefix a = Some (hd data) \<and> payload_as_bytes a = tl data \<and> address_ok a"
    by (auto simp: from_base58_str_def res_bind_Ok_iff Let_def split: if_splits)
  then have "hd data # payload_as_bytes a = data" by (cases data) auto
  moreover have "base58_text (data @ take 4 (sha256d data)) = s"
    using data(1) by (simp add: decode_check_Ok [OF assms(2)] base58_decode_text [OF assms(1)])
  ultimately show ?r using a by (metis append_Cons)
next
  assume ?r
  then obtain p where p: "address_ok a" "legacy_prefix a = Some p"
    and s: "s = base58_text ((p # payload_as_bytes a) @ take 4 (sha256d (p # payload_as_bytes a)))" by auto
  then have len: "length (payload_as_bytes a) = 20" by (cases a) auto
  then have "length s \<le> 50" unfolding s using assms(2) by (intro legacy_text_length) simp
  moreover have "decode_check sha256d with_capacity s = Ok (p # payload_as_bytes a)"
    using s by (simp only: decode_check_Ok [OF assms(2)] base58_decode_text [OF assms(1)])
  ultimately show ?l using p len
    by (cases a rule: legacy_prefix.cases) (auto simp: from_base58_str_def address_prefixes)
qed

lemma from_str_legacy:
  assumes "s \<noteq> []" "hd s \<in> {49, 50, 51, 109, 110}"
  shows "address_from_str sha256d with_capacity b32 s = map_err ErrBase58 (from_base58_str sha256d with_capacity s)"
  using assms by (cases s) (auto simp: address_from_str_def starts_with_def ascii_lower_def BC_def TB_def BCRT_def)

lemma from_str_segwit:
  assumes "starts_with (map ascii_lower s) (known_hrp_to_hrp hrp @ [49])"
  shows "address_from_str sha256d with_capacity b32 s = map_err ErrBech32 (from_bech32_str b32 s)"
  using assms by (cases hrp) (simp_all add: address_from_str_def)

text \<open>A coder that keeps these promises: it writes the numbers as they are.\<close>

definition plain_decode :: "bytes \<Rightarrow> (unit, bytes \<times> u8 \<times> bytes) res" where
  "plain_decode s = (let rest = tl (dropWhile (\<lambda>c. c \<noteq> 49) s) in Ok (takeWhile (\<lambda>c. c \<noteq> 49) s, hd rest, tl rest))"

definition plain_bech32 :: "unit bech32" where
  "plain_bech32 = \<lparr>encode_lower = \<lambda>hrp v p. hrp @ [49, v] @ p, encode_upper = \<lambda>hrp v p. hrp @ [49, v] @ p,
     bech32_decode = plain_decode\<rparr>"

lemma plain_bech32_ok: "bech32_ok plain_bech32"
proof -
  have "starts_with (map ascii_lower (known_hrp_to_hrp hrp @ [49, v] @ p)) (known_hrp_to_hrp hrp @ [49])" for hrp v p
    by (cases hrp) (simp_all add: starts_with_def ascii_lower_def BC_def TB_def BCRT_def)
  moreover have "plain_decode (known_hrp_to_hrp hrp @ [49, v] @ p) = Ok (known_hrp_to_hrp hrp, v, p)" for hrp v p
    by (cases hrp) (simp_all add: plain_decode_def BC_def TB_def BCRT_def)
  ultimately show ?thesis unfolding bech32_ok_def plain_bech32_def by simp
qed

text \<open>
  Property C18. The text of every address, bech32 in either case, is parsed back to the address, and a text that is parsed as a
  legacy address is the text of that address: no other text stands for it.
\<close>

theorem address_text_roundtrip:
  assumes "\<And>n. n \<le> with_capacity n" "\<And>x. length (sha256d x) = 32" "bech32_ok b32"
  shows "(address_ok a \<longrightarrow> (\<exists>s. address_display sha256d b32 alternate a = Ok s
       \<and> address_from_str sha256d with_capacity b32 s = Ok a))
    \<and> (from_base58_str sha256d with_capacity str = Ok a \<longrightarrow> address_ok a
       \<and> address_display sha256d b32 alternate a = Ok str \<and> address_from_str sha256d with_capacity b32 str = Ok a)"
proof -
  have legacy: "address_display sha256d b32 alternate a = Ok s \<and> address_from_str sha256d with_capacity b32 s = Ok a"
    if "address_ok a" "legacy_prefix a = Some p" "s = base58_text (p # payload_as_bytes a @ take 4 (sha256d (p # payload_as_bytes a)))"
    for a p s
  proof -
    have "length (payload_as_bytes a) = 20" using that(1,2) by (cases a) auto
    then have "s \<noteq> [] \<and> hd s \<in> set (legacy_first p)" unfolding that(3)
      using legacy_prefix_mem [OF that(2)] assms(2) by (intro legacy_text_first) simp_all
    then have "s \<noteq> []" "hd s \<in> {49, 50, 51, 109, 110}" by (auto simp: legacy_first_def split: if_splits)
    then show ?thesis
      using that from_base58_str_iff [OF assms(1,2)] address_display_legacy [OF assms(2)] by (simp add: from_str_legacy)
  qed
  have "\<exists>s. address_display sha256d b32 alternate a = Ok s \<and> address_from_str sha256d with_capacity b32 s = Ok a" if ok: "address_ok a"
  proof (cases a)
    case (Segwit p hrp)
    let ?encode = "if alternate then encode_upper b32 else encode_lower b32"
    let ?s = "?encode (known_hrp_to_hrp hrp) (to_num (program_version p)) (program_bytes p)"
    have new: "witness_program_new (program_version p) (program_bytes p) = Ok p" using ok Segwit by simp
    have "?encode = encode_lower b32 \<or> ?encode = encode_upper b32" by simp
    then have "bech32_decode b32 ?s = Ok (known_hrp_to_hrp hrp, to_num (program_version p), program_bytes p)
      \<and> starts_with (map ascii_lower ?s) (known_hrp_to_hrp hrp @ [49])"
      using assms(3) new unfolding bech32_ok_def by blast
    moreover have "address_display sha256d b32 alternate a = Ok ?s" using Segwit by (cases alternate) simp_all
    moreover have "address_from_str sha256d with_capacity b32 ?s = map_err ErrBech32 (from_bech32_str b32 ?s)"
      by (rule from_str_segwit) (use calculation in blast)
    ultimately show ?thesis using new Segwit by (simp add: from_bech32_str_def)
  next
    case (P2pkh h kind)
    then show ?thesis using legacy [OF ok] by (cases kind) auto
  next
    case (P2sh h kind)
    then show ?thesis using legacy [OF ok] by (cases kind) auto
  qed
  moreover have "address_ok a \<and> address_display sha256d b32 alternate a = Ok str \<and> address_from_str sha256d with_capacity b32 str = Ok a"
    if parsed: "from_base58_str sha256d with_capacity str = Ok a"
  proof -
    obtain p where p: "address_ok a" "legacy_prefix a = Some p"
      "str = base58_text (p # payload_as_bytes a @ take 4 (sha256d (p # payload_as_bytes a)))"
      using from_base58_str_iff [THEN iffD1, OF assms(1,2) parsed] by (elim exE conjE)
    then show ?thesis using legacy [OF p] by simp
  qed
  ultimately show ?thesis by simp
qed

theorem address_text_roundtrip_witness:
  "\<exists>s. address_display (\<lambda>_. replicate 32 0) plain_bech32 False (P2pkh (replicate 20 7) Main) = Ok s
    \<and> address_from_str (\<lambda>_. replicate 32 0) (\<lambda>n. n) plain_bech32 s = Ok (P2pkh (replicate 20 7) Main)"
  using address_text_roundtrip [of "\<lambda>n. n" "\<lambda>_. replicate 32 0" plain_bech32 "P2pkh (replicate 20 7) Main" False] plain_bech32_ok
  by simp

end
