(* ===== verification/Sighash_Type.thy ===== *)
theory Sighash_Type
  imports Prelude
begin

section \<open>Signature hash types\<close>

text \<open>
  \<open>crypto/src/sighash.rs\<close>: which parts of a transaction a signature commits to. The lemmas state how a
  32-bit number is read, as the consensus rules do it bit by bit, and that the names are read back.
\<close>

datatype ecdsa_sighash_type =
    EcdsaAll | EcdsaNone | EcdsaSingle
  | EcdsaAllPlusAnyoneCanPay | EcdsaNonePlusAnyoneCanPay | EcdsaSinglePlusAnyoneCanPay

datatype tap_sighash_type =
    TapDefault | TapAll | TapNone | TapSingle
  | TapAllPlusAnyoneCanPay | TapNonePlusAnyoneCanPay | TapSinglePlusAnyoneCanPay

fun ecdsa_to_u32 :: "ecdsa_sighash_type \<Rightarrow> u32" where
  "ecdsa_to_u32 EcdsaAll = 0x01"
| "ecdsa_to_u32 EcdsaNone = 0x02"
| "ecdsa_to_u32 EcdsaSingle = 0x03"
| "ecdsa_to_u32 EcdsaAllPlusAnyoneCanPay = 0x81"
| "ecdsa_to_u32 EcdsaNonePlusAnyoneCanPay = 0x82"
| "ecdsa_to_u32 EcdsaSinglePlusAnyoneCanPay = 0x83"

fun tap_to_u8 :: "tap_sighash_type \<Rightarrow> u8" where
  "tap_to_u8 TapDefault = 0x00"
| "tap_to_u8 TapAll = 0x01"
| "tap_to_u8 TapNone = 0x02"
| "tap_to_u8 TapSingle = 0x03"
| "tap_to_u8 TapAllPlusAnyoneCanPay = 0x81"
| "tap_to_u8 TapNonePlusAnyoneCanPay = 0x82"
| "tap_to_u8 TapSinglePlusAnyoneCanPay = 0x83"

definition is_single :: "ecdsa_sighash_type \<Rightarrow> bool" where
  "is_single ty \<longleftrightarrow> ty = EcdsaSingle \<or> ty = EcdsaSinglePlusAnyoneCanPay"

definition ecdsa_from_consensus :: "u32 \<Rightarrow> ecdsa_sighash_type" where
  "ecdsa_from_consensus n =
     (let mask = 0x1f OR 0x80; x = n AND mask in
      if x = 0x01 then EcdsaAll
      else if x = 0x02 then EcdsaNone
      else if x = 0x03 then EcdsaSingle
      else if x = 0x81 then EcdsaAllPlusAnyoneCanPay
      else if x = 0x82 then EcdsaNonePlusAnyoneCanPay
      else if x = 0x83 then EcdsaSinglePlusAnyoneCanPay
      else if x AND 0x80 = 0x80 then EcdsaAllPlusAnyoneCanPay
      else EcdsaAll)"

text \<open>The errors are the numbers that are refused.\<close>

definition ecdsa_from_standard :: "u32 \<Rightarrow> (u32, ecdsa_sighash_type) res" where
  "ecdsa_from_standard n =
     (if n = 0x01 then Ok EcdsaAll
      else if n = 0x02 then Ok EcdsaNone
      else if n = 0x03 then Ok EcdsaSingle
      else if n = 0x81 then Ok EcdsaAllPlusAnyoneCanPay
      else if n = 0x82 then Ok EcdsaNonePlusAnyoneCanPay
      else if n = 0x83 then Ok EcdsaSinglePlusAnyoneCanPay
      else Err n)"

definition tap_from_consensus_u8 :: "u8 \<Rightarrow> (u32, tap_sighash_type) res" where
  "tap_from_consensus_u8 sighash_type =
     (if sighash_type = 0x00 then Ok TapDefault
      else if sighash_type = 0x01 then Ok TapAll
      else if sighash_type = 0x02 then Ok TapNone
      else if sighash_type = 0x03 then Ok TapSingle
      else if sighash_type = 0x81 then Ok TapAllPlusAnyoneCanPay
      else if sighash_type = 0x82 then Ok TapNonePlusAnyoneCanPay
      else if sighash_type = 0x83 then Ok TapSinglePlusAnyoneCanPay
      else Err (ucast sighash_type))"

fun tap_of_ecdsa :: "ecdsa_sighash_type \<Rightarrow> tap_sighash_type" where
  "tap_of_ecdsa EcdsaAll = TapAll"
| "tap_of_ecdsa EcdsaNone = TapNone"
| "tap_of_ecdsa EcdsaSingle = TapSingle"
| "tap_of_ecdsa EcdsaAllPlusAnyoneCanPay = TapAllPlusAnyoneCanPay"
| "tap_of_ecdsa EcdsaNonePlusAnyoneCanPay = TapNonePlusAnyoneCanPay"
| "tap_of_ecdsa EcdsaSinglePlusAnyoneCanPay = TapSinglePlusAnyoneCanPay"

fun split_ecdsa :: "ecdsa_sighash_type \<Rightarrow> ecdsa_sighash_type \<times> bool" where
  "split_ecdsa EcdsaAll = (EcdsaAll, False)"
| "split_ecdsa EcdsaNone = (EcdsaNone, False)"
| "split_ecdsa EcdsaSingle = (EcdsaSingle, False)"
| "split_ecdsa EcdsaAllPlusAnyoneCanPay = (EcdsaAll, True)"
| "split_ecdsa EcdsaNonePlusAnyoneCanPay = (EcdsaNone, True)"
| "split_ecdsa EcdsaSinglePlusAnyoneCanPay = (EcdsaSingle, True)"

fun split_tap :: "tap_sighash_type \<Rightarrow> tap_sighash_type \<times> bool" where
  "split_tap TapDefault = (TapDefault, False)"
| "split_tap TapAll = (TapAll, False)"
| "split_tap TapNone = (TapNone, False)"
| "split_tap TapSingle = (TapSingle, False)"
| "split_tap TapAllPlusAnyoneCanPay = (TapAll, True)"
| "split_tap TapNonePlusAnyoneCanPay = (TapNone, True)"
| "split_tap TapSinglePlusAnyoneCanPay = (TapSingle, True)"

subsection \<open>Names\<close>

fun ecdsa_display :: "ecdsa_sighash_type \<Rightarrow> string" where
  "ecdsa_display EcdsaAll = ''SIGHASH_ALL''"
| "ecdsa_display EcdsaNone = ''SIGHASH_NONE''"
| "ecdsa_display EcdsaSingle = ''SIGHASH_SINGLE''"
| "ecdsa_display EcdsaAllPlusAnyoneCanPay = ''SIGHASH_ALL|SIGHASH_ANYONECANPAY''"
| "ecdsa_display EcdsaNonePlusAnyoneCanPay = ''SIGHASH_NONE|SIGHASH_ANYONECANPAY''"
| "ecdsa_display EcdsaSinglePlusAnyoneCanPay = ''SIGHASH_SINGLE|SIGHASH_ANYONECANPAY''"

definition ecdsa_from_str :: "string \<Rightarrow> (string, ecdsa_sighash_type) res" where
  "ecdsa_from_str s =
     (if s = ''SIGHASH_ALL'' then Ok EcdsaAll
      else if s = ''SIGHASH_NONE'' then Ok EcdsaNone
      else if s = ''SIGHASH_SINGLE'' then Ok EcdsaSingle
      else if s = ''SIGHASH_ALL|SIGHASH_ANYONECANPAY'' then Ok EcdsaAllPlusAnyoneCanPay
      else if s = ''SIGHASH_NONE|SIGHASH_ANYONECANPAY'' then Ok EcdsaNonePlusAnyoneCanPay
      else if s = ''SIGHASH_SINGLE|SIGHASH_ANYONECANPAY'' then Ok EcdsaSinglePlusAnyoneCanPay
      else Err s)"

fun tap_display :: "tap_sighash_type \<Rightarrow> string" where
  "tap_display TapDefault = ''SIGHASH_DEFAULT''"
| "tap_display TapAll = ''SIGHASH_ALL''"
| "tap_display TapNone = ''SIGHASH_NONE''"
| "tap_display TapSingle = ''SIGHASH_SINGLE''"
| "tap_display TapAllPlusAnyoneCanPay = ''SIGHASH_ALL|SIGHASH_ANYONECANPAY''"
| "tap_display TapNonePlusAnyoneCanPay = ''SIGHASH_NONE|SIGHASH_ANYONECANPAY''"
| "tap_display TapSinglePlusAnyoneCanPay = ''SIGHASH_SINGLE|SIGHASH_ANYONECANPAY''"

definition tap_from_str :: "string \<Rightarrow> (string, tap_sighash_type) res" where
  "tap_from_str s =
     (if s = ''SIGHASH_DEFAULT'' then Ok TapDefault
      else if s = ''SIGHASH_ALL'' then Ok TapAll
      else if s = ''SIGHASH_NONE'' then Ok TapNone
      else if s = ''SIGHASH_SINGLE'' then Ok TapSingle
      else if s = ''SIGHASH_ALL|SIGHASH_ANYONECANPAY'' then Ok TapAllPlusAnyoneCanPay
      else if s = ''SIGHASH_NONE|SIGHASH_ANYONECANPAY'' then Ok TapNonePlusAnyoneCanPay
      else if s = ''SIGHASH_SINGLE|SIGHASH_ANYONECANPAY'' then Ok TapSinglePlusAnyoneCanPay
      else Err s)"

lemma ecdsa_from_str_iff: "ecdsa_from_str s = Ok ty \<longleftrightarrow> s = ecdsa_display ty"
  by (cases ty) (auto simp: ecdsa_from_str_def)

lemma tap_from_str_iff: "tap_from_str s = Ok ty \<longleftrightarrow> s = tap_display ty"
  by (cases ty) (auto simp: tap_from_str_def)

subsection \<open>Numbers\<close>

lemma ecdsa_from_standard_iff: "ecdsa_from_standard n = Ok ty \<longleftrightarrow> n = ecdsa_to_u32 ty"
  by (cases ty) (auto simp: ecdsa_from_standard_def)

lemma tap_from_consensus_u8_iff: "tap_from_consensus_u8 n = Ok ty \<longleftrightarrow> n = tap_to_u8 ty"
  by (cases ty) (auto simp: tap_from_consensus_u8_def)

lemma tap_to_u8_inj: "tap_to_u8 a = tap_to_u8 b \<longleftrightarrow> a = b"
  by (cases a; cases b) simp_all

lemma ecdsa_to_u32_inj: "ecdsa_to_u32 a = ecdsa_to_u32 b \<longleftrightarrow> a = b"
  by (cases a; cases b) simp_all

lemma ecdsa_from_consensus_to_u32 [simp]: "ecdsa_from_consensus (ecdsa_to_u32 ty) = ty"
  by (cases ty) (simp_all add: ecdsa_from_consensus_def)

lemma split_ecdsa_base: "fst (split_ecdsa ty) \<in> {EcdsaAll, EcdsaNone, EcdsaSingle}"
  by (cases ty) simp_all

lemma is_single_split: "is_single ty \<longleftrightarrow> fst (split_ecdsa ty) = EcdsaSingle"
  by (cases ty) (simp_all add: is_single_def)

text \<open>
  How the consensus rules read a number: bit 7 is \<open>ANYONECANPAY\<close>, and the lowest five bits tell \<open>NONE\<close> and
  \<open>SINGLE\<close> from everything else, whatever the other bits are.
\<close>

lemma masked:
  fixes n :: u32
  shows "n AND 0x9f = (n AND 0x1f) + (if bit n 7 then 0x80 else 0)" "unat (n AND 0x1f) < 32"
proof -
  have "n AND 0x9f = (n AND 0x1f) OR (n AND 0x80)" by (simp only: bit.conj_disj_distrib [symmetric]) simp
  also have "n AND 0x80 = (if bit n 7 then 0x80 else 0)"
    by (rule bit_word_eqI) (auto simp: bit_and_iff bit_numeral_rec numeral_eq_Suc elim!: less_SucE)
  finally show "n AND 0x9f = (n AND 0x1f) + (if bit n 7 then 0x80 else 0)"
    by (subst disjunctive_add) (auto simp: bit_and_iff bit_numeral_rec numeral_eq_Suc elim!: less_SucE)
  have "unat (n AND 0x1f) = unat (take_bit 5 n)" by (simp add: take_bit_eq_mask mask_numeral)
  also have "\<dots> = take_bit 5 (unat n)" by (simp only: unsigned_take_bit_eq)
  finally show "unat (n AND 0x1f) < 32" by (simp add: take_bit_eq_mod)
qed

lemma add_top_eq: "unat (m :: u32) < 32 \<Longrightarrow> m + 0x80 = w \<longleftrightarrow> 0x80 \<le> unat w \<and> unat m = unat w - 0x80"
proof -
  assume "unat m < 32"
  then have "unat (m + 0x80) = unat m + 0x80" by (subst unat_add_lem [THEN iffD1]) simp_all
  then show ?thesis by (auto simp: word_unat_eq_iff)
qed

lemma split_from_consensus:
  "split_ecdsa (ecdsa_from_consensus n) =
     (if n AND 0x1f = 2 then EcdsaNone else if n AND 0x1f = 3 then EcdsaSingle else EcdsaAll, bit n 7)"
proof -
  let ?m = "n AND 0x1f"
  have x: "n AND (0x1f OR 0x80) = ?m + (if bit n 7 then 0x80 else 0)" using masked(1) [of n] by simp
  have m: "unat ?m < 32" by (rule masked(2))
  have top: "(?m + (if bit n 7 then 0x80 else 0)) AND 0x80 = (if bit n 7 then 0x80 else 0)"
  proof -
    have "(n AND (0x1f OR 0x80)) AND 0x80 = n AND 0x80" by (simp add: and.assoc)
    also have "n AND 0x80 = (if bit n 7 then 0x80 else 0)"
      by (rule bit_word_eqI) (auto simp: bit_and_iff bit_numeral_rec numeral_eq_Suc elim!: less_SucE)
    finally show ?thesis unfolding x .
  qed
  have small: "?m = w \<longleftrightarrow> unat ?m = unat w" for w by (simp add: word_unat_eq_iff)
  show ?thesis
  proof (cases "bit n 7")
    case True
    then show ?thesis
      unfolding ecdsa_from_consensus_def Let_def x top using m by (simp add: add_top_eq small)
  next
    case False
    then show ?thesis
      unfolding ecdsa_from_consensus_def Let_def x top using m by (simp add: small)
  qed
qed

text \<open>
  What a type covers can be read off its number: bit 7 restricts the inputs to the own one, and the lowest bits tell whether
  none, one or all of the outputs are signed. The specifications of the messages use the numbers only, so that these lemmas tie the
  functions \<open>split_anyonecanpay_flag\<close> to them.
\<close>

lemma ecdsa_type_bits:
  assumes "split_ecdsa ty = (base, acp)"
  shows "bit (ecdsa_to_u32 ty) 7 \<longleftrightarrow> acp" "ecdsa_to_u32 ty AND 0x1f = 2 \<longleftrightarrow> base = EcdsaNone"
    "ecdsa_to_u32 ty AND 0x1f = 3 \<longleftrightarrow> base = EcdsaSingle"
  using assms split_from_consensus [of "ecdsa_to_u32 ty"] by (auto split: if_splits)

lemma tap_type_bits:
  assumes "split_tap ty = (base, acp)"
  shows "bit (tap_to_u8 ty) 7 \<longleftrightarrow> acp" "tap_to_u8 ty AND 3 = 2 \<longleftrightarrow> base = TapNone"
    "tap_to_u8 ty AND 3 = 3 \<longleftrightarrow> base = TapSingle"
  using assms by (cases ty; auto)+

lemma split_tap_bits: "snd (split_tap ty) = bit (tap_to_u8 ty) 7"
  by (cases "split_tap ty") (simp add: tap_type_bits(1))

text \<open>
  Every 32-bit number is read as the consensus rules read it: bit 7 decides whether only the own input is signed,
  and the five lowest bits decide about the outputs, two for none, three for the one with the index of the
  input, and anything else for all. The standard types are their own numbers.
\<close>

theorem sighash_type_consensus:
  "split_ecdsa (ecdsa_from_consensus n) =
     (if n AND 0x1f = 2 then EcdsaNone else if n AND 0x1f = 3 then EcdsaSingle else EcdsaAll, bit n 7)
   \<and> (ecdsa_from_standard n = Ok ty \<longleftrightarrow> n = ecdsa_to_u32 ty) \<and> ecdsa_from_consensus (ecdsa_to_u32 ty) = ty"
  by (simp add: split_from_consensus ecdsa_from_standard_iff)

end
