(* ===== verification/Sighash.thy ===== *)
theory Sighash
  imports Sighash_Type Script_Templates Transaction Taproot_Tree
begin

section \<open>Signature hashes\<close>

text \<open>
  \<open>bitcoin/src/crypto/sighash.rs\<close>: what a signature signs. The functions write the message into a writer, here
  one that does not fail and keeps its bytes, and keep the hashes that all inputs share in a cache. Encoders of parts
  are the bytes that they yield (the theories on transactions prove what they yield). The hash function SHA-256 is a
  parameter, as is the tagged hash of Taproot. A public key and a signature do not occur.
\<close>

subsection \<open>Previous outputs, annexes and errors\<close>

datatype prevouts = OnePrevout nat tx_out | AllPrevouts "tx_out list"

datatype prevouts_index_error = InvalidOneIndex | InvalidAllIndex

record index_out_of_bounds =
  oob_index :: nat
  oob_length :: nat

datatype taproot_sighash_error =
    InputsIndex index_out_of_bounds
  | SingleMissingOutput nat nat
  | PrevoutsSize
  | PrevoutsIndex prevouts_index_error
  | PrevoutsKind
  | InvalidSighashType u32

datatype p2wpkh_error = P2wpkhSighash index_out_of_bounds | NotP2wpkhScript

fun check_all :: "prevouts \<Rightarrow> transaction \<Rightarrow> (taproot_sighash_error, unit) res" where
  "check_all (AllPrevouts ps) tx = (if length ps \<noteq> length (inputs tx) then Err PrevoutsSize else Ok ())"
| "check_all (OnePrevout _ _) tx = Ok ()"

fun get_all :: "prevouts \<Rightarrow> (taproot_sighash_error, tx_out list) res" where
  "get_all (AllPrevouts ps) = Ok ps"
| "get_all (OnePrevout _ _) = Err PrevoutsKind"

fun get_prevout :: "prevouts \<Rightarrow> nat \<Rightarrow> (prevouts_index_error, tx_out) res" where
  "get_prevout (OnePrevout index prevout) input_index = (if input_index = index then Ok prevout else Err InvalidOneIndex)"
| "get_prevout (AllPrevouts ps) input_index = (if input_index < length ps then Ok (ps ! input_index) else Err InvalidAllIndex)"

definition get_tx_in :: "transaction \<Rightarrow> nat \<Rightarrow> (index_out_of_bounds, tx_in) res" where
  "get_tx_in tx input_index =
     (if input_index < length (inputs tx) then Ok (inputs tx ! input_index)
      else Err \<lparr>oob_index = input_index, oob_length = length (inputs tx)\<rparr>)"

definition get_tx_out :: "transaction \<Rightarrow> nat \<Rightarrow> (index_out_of_bounds, tx_out) res" where
  "get_tx_out tx output_index =
     (if output_index < length (outputs tx) then Ok (outputs tx ! output_index)
      else Err \<lparr>oob_index = output_index, oob_length = length (outputs tx)\<rparr>)"

datatype annex_error = AnnexEmpty | IncorrectPrefix u8

fun annex_new :: "bytes \<Rightarrow> (annex_error, bytes) res" where
  "annex_new [] = Err AnnexEmpty"
| "annex_new (b # bs) = (if b = TAPROOT_ANNEX_PREFIX then Ok (b # bs) else Err (IncorrectPrefix b))"

definition script_path_leaf_hash :: "(bytes \<Rightarrow> bytes) \<Rightarrow> bytes \<Rightarrow> leaf_version \<Rightarrow> bytes" where
  "script_path_leaf_hash leaf_tag script leaf_version =
     leaf_tag ([leaf_version_to_consensus leaf_version] @ script_bytes script)"

subsection \<open>The cache\<close>

record common_cache =
  cc_prevouts :: bytes
  cc_sequences :: bytes
  cc_outputs :: bytes

record segwit_cache =
  sc_prevouts :: bytes
  sc_sequences :: bytes
  sc_outputs :: bytes

record taproot_cache =
  tc_amounts :: bytes
  tc_script_pubkeys :: bytes

record sighash_cache =
  cached_tx :: transaction
  common_cached :: "common_cache option"
  segwit_cached :: "segwit_cache option"
  taproot_cached :: "taproot_cache option"

definition sighash_cache_new :: "transaction \<Rightarrow> sighash_cache" where
  "sighash_cache_new tx = \<lparr>cached_tx = tx, common_cached = None, segwit_cached = None, taproot_cached = None\<rparr>"

definition sha256d :: "(bytes \<Rightarrow> bytes) \<Rightarrow> bytes \<Rightarrow> bytes" where
  "sha256d sha256 x = sha256 (sha256 x)"

definition common_of :: "(bytes \<Rightarrow> bytes) \<Rightarrow> transaction \<Rightarrow> common_cache" where
  "common_of sha256 tx =
     \<lparr>cc_prevouts = sha256 (concat (map (\<lambda>txin. out_point_bytes (previous_output txin)) (inputs tx))),
      cc_sequences = sha256 (concat (map (\<lambda>txin. to_le_bytes (sequence_no txin)) (inputs tx))),
      cc_outputs = sha256 (concat (map tx_out_bytes (outputs tx)))\<rparr>"

definition common_cache_get :: "(bytes \<Rightarrow> bytes) \<Rightarrow> sighash_cache \<Rightarrow> common_cache \<times> sighash_cache" where
  "common_cache_get sha256 c =
     (case common_cached c of
        Some cc \<Rightarrow> (cc, c)
      | None \<Rightarrow> let cc = common_of sha256 (cached_tx c) in (cc, c\<lparr>common_cached := Some cc\<rparr>))"

definition segwit_cache_get :: "(bytes \<Rightarrow> bytes) \<Rightarrow> sighash_cache \<Rightarrow> segwit_cache \<times> sighash_cache" where
  "segwit_cache_get sha256 c =
     (case segwit_cached c of
        Some sc \<Rightarrow> (sc, c)
      | None \<Rightarrow>
          let (cc, c) = common_cache_get sha256 c;
              sc = \<lparr>sc_prevouts = sha256 (cc_prevouts cc), sc_sequences = sha256 (cc_sequences cc),
                    sc_outputs = sha256 (cc_outputs cc)\<rparr> in
          (sc, c\<lparr>segwit_cached := Some sc\<rparr>))"

definition taproot_cache_get :: "(bytes \<Rightarrow> bytes) \<Rightarrow> tx_out list \<Rightarrow> sighash_cache \<Rightarrow> taproot_cache \<times> sighash_cache" where
  "taproot_cache_get sha256 ps c =
     (case taproot_cached c of
        Some tc \<Rightarrow> (tc, c)
      | None \<Rightarrow>
          let tc = \<lparr>tc_amounts = sha256 (concat (map (\<lambda>prevout. to_le_bytes (amount prevout)) ps)),
                    tc_script_pubkeys = sha256 (concat (map (\<lambda>prevout. script_bytes (script_pubkey prevout)) ps))\<rparr> in
          (tc, c\<lparr>taproot_cached := Some tc\<rparr>))"

subsection \<open>Writing\<close>

text \<open>A step of a function that writes: it has the cache and what has been written so far, and may end the function.\<close>

type_synonym 'e signing = "sighash_cache \<times> bytes \<Rightarrow> ('e, unit) res \<times> sighash_cache \<times> bytes"

fun run_steps :: "'e signing list \<Rightarrow> 'e signing" where
  "run_steps [] s = (Ok (), s)"
| "run_steps (m # ms) s = (case m s of (Ok _, s) \<Rightarrow> run_steps ms s | (e, s) \<Rightarrow> (e, s))"

definition write_all :: "bytes \<Rightarrow> 'e signing" where
  "write_all b = (\<lambda>(c, written). (Ok (), c, written @ b))"

definition write_res :: "('e, bytes) res \<Rightarrow> 'e signing" where
  "write_res r = (\<lambda>(c, written).
     case r of Ok b \<Rightarrow> (Ok (), c, written @ b) | Err e \<Rightarrow> (Err e, c, written)
     | Panic \<Rightarrow> (Panic, c, written) | Diverge \<Rightarrow> (Diverge, c, written))"

definition write_common :: "(bytes \<Rightarrow> bytes) \<Rightarrow> (common_cache \<Rightarrow> bytes) \<Rightarrow> 'e signing" where
  "write_common sha256 field = (\<lambda>(c, written). let (cc, c) = common_cache_get sha256 c in (Ok (), c, written @ field cc))"

definition write_segwit :: "(bytes \<Rightarrow> bytes) \<Rightarrow> (segwit_cache \<Rightarrow> bytes) \<Rightarrow> 'e signing" where
  "write_segwit sha256 field = (\<lambda>(c, written). let (sc, c) = segwit_cache_get sha256 c in (Ok (), c, written @ field sc))"

definition write_taproot ::
  "(bytes \<Rightarrow> bytes) \<Rightarrow> prevouts \<Rightarrow> (taproot_cache \<Rightarrow> bytes) \<Rightarrow> taproot_sighash_error signing" where
  "write_taproot sha256 ps field = (\<lambda>(c, written).
     case get_all ps of
       Ok ps \<Rightarrow> let (tc, c) = taproot_cache_get sha256 ps c in (Ok (), c, written @ field tc)
     | Err e \<Rightarrow> (Err e, c, written)
     | Panic \<Rightarrow> (Panic, c, written) | Diverge \<Rightarrow> (Diverge, c, written))"

definition when_do :: "bool \<Rightarrow> 'e signing list \<Rightarrow> 'e signing" where
  "when_do b ms = (if b then run_steps ms else run_steps [])"

subsection \<open>Taproot\<close>

definition KEY_VERSION_0 :: u8 where "KEY_VERSION_0 = 0"

definition spent_output_bytes :: "transaction \<Rightarrow> nat \<Rightarrow> prevouts \<Rightarrow> (taproot_sighash_error, bytes) res" where
  "spent_output_bytes tx input_index ps =
     res_bind (map_err InputsIndex (get_tx_in tx input_index)) (\<lambda>txin.
       res_bind (map_err PrevoutsIndex (get_prevout ps input_index)) (\<lambda>previous_output_of.
         Ok (out_point_bytes (previous_output txin) @ to_le_bytes (amount previous_output_of)
             @ script_bytes (script_pubkey previous_output_of) @ to_le_bytes (sequence_no txin))))"

definition single_output_hash :: "(bytes \<Rightarrow> bytes) \<Rightarrow> transaction \<Rightarrow> nat \<Rightarrow> (taproot_sighash_error, bytes) res" where
  "single_output_hash sha256 tx input_index =
     (if input_index < length (outputs tx) then Ok (sha256 (tx_out_bytes (outputs tx ! input_index)))
      else Err (SingleMissingOutput input_index (length (outputs tx))))"

definition taproot_encode_signing_data_to ::
  "(bytes \<Rightarrow> bytes) \<Rightarrow> nat \<Rightarrow> prevouts \<Rightarrow> bytes option \<Rightarrow> (bytes \<times> u32) option \<Rightarrow> tap_sighash_type
     \<Rightarrow> taproot_sighash_error signing" where
  "taproot_encode_signing_data_to sha256 input_index ps annex leaf_hash_code_separator sighash_type = (\<lambda>(c, written).
     let tx = cached_tx c;
         (sighash, anyone_can_pay) = split_tap sighash_type;
         spend_type = (if annex \<noteq> None then 1 else 0) OR (if leaf_hash_code_separator \<noteq> None then 2 else 0 :: u8) in
     run_steps
      [write_res (res_bind (check_all ps tx) (\<lambda>_. Ok [])),
       write_all [0],
       write_all [tap_to_u8 sighash_type],
       write_all (to_le_bytes (version tx)),
       write_all (to_le_bytes (lock_time_to_consensus (lock_time_of tx))),
       when_do (\<not> anyone_can_pay)
         [write_common sha256 cc_prevouts,
          write_taproot sha256 ps tc_amounts,
          write_taproot sha256 ps tc_script_pubkeys,
          write_common sha256 cc_sequences],
       when_do (sighash \<noteq> TapNone \<and> sighash \<noteq> TapSingle) [write_common sha256 cc_outputs],
       write_all [spend_type],
       (if anyone_can_pay then write_res (spent_output_bytes tx input_index ps)
        else write_all (to_le_bytes (word_of_nat input_index :: u32))),
       (case annex of Some a \<Rightarrow> write_all (sha256 (compact_size_new (length a) @ a)) | None \<Rightarrow> run_steps []),
       when_do (sighash = TapSingle) [write_res (single_output_hash sha256 tx input_index)],
       (case leaf_hash_code_separator of
          Some (hash, code_separator_pos) \<Rightarrow>
            run_steps [write_all hash, write_all [KEY_VERSION_0], write_all (to_le_bytes code_separator_pos)]
        | None \<Rightarrow> run_steps [])]
      (c, written))"

definition taproot_signature_hash ::
  "(bytes \<Rightarrow> bytes) \<Rightarrow> (bytes \<Rightarrow> bytes) \<Rightarrow> nat \<Rightarrow> prevouts \<Rightarrow> bytes option \<Rightarrow> (bytes \<times> u32) option \<Rightarrow> tap_sighash_type
     \<Rightarrow> sighash_cache \<Rightarrow> (taproot_sighash_error, bytes) res \<times> sighash_cache" where
  "taproot_signature_hash sha256 sighash_tag input_index ps annex leaf_hash_code_separator sighash_type c =
     (case taproot_encode_signing_data_to sha256 input_index ps annex leaf_hash_code_separator sighash_type (c, []) of
        (r, c, enc) \<Rightarrow> (res_bind r (\<lambda>_. Ok (sighash_tag enc)), c))"

definition taproot_key_spend_signature_hash ::
  "(bytes \<Rightarrow> bytes) \<Rightarrow> (bytes \<Rightarrow> bytes) \<Rightarrow> nat \<Rightarrow> prevouts \<Rightarrow> tap_sighash_type
     \<Rightarrow> sighash_cache \<Rightarrow> (taproot_sighash_error, bytes) res \<times> sighash_cache" where
  "taproot_key_spend_signature_hash sha256 sighash_tag input_index ps =
     taproot_signature_hash sha256 sighash_tag input_index ps None None"

definition taproot_script_spend_signature_hash ::
  "(bytes \<Rightarrow> bytes) \<Rightarrow> (bytes \<Rightarrow> bytes) \<Rightarrow> nat \<Rightarrow> prevouts \<Rightarrow> bytes \<Rightarrow> tap_sighash_type
     \<Rightarrow> sighash_cache \<Rightarrow> (taproot_sighash_error, bytes) res \<times> sighash_cache" where
  "taproot_script_spend_signature_hash sha256 sighash_tag input_index ps leaf_hash =
     taproot_signature_hash sha256 sighash_tag input_index ps None (Some (leaf_hash, 0xFFFFFFFF))"

subsection \<open>Witness programs of version 0\<close>

definition ZERO_HASH :: bytes where "ZERO_HASH = replicate 32 0"

definition segwit_input_bytes :: "transaction \<Rightarrow> nat \<Rightarrow> bytes \<Rightarrow> u64 \<Rightarrow> (index_out_of_bounds, bytes) res" where
  "segwit_input_bytes tx input_index script_code amt =
     res_bind (get_tx_in tx input_index) (\<lambda>txin.
       Ok (out_point_bytes (previous_output txin) @ script_bytes script_code @ to_le_bytes amt
           @ to_le_bytes (sequence_no txin)))"

definition segwit_v0_encode_signing_data_to ::
  "(bytes \<Rightarrow> bytes) \<Rightarrow> nat \<Rightarrow> bytes \<Rightarrow> u64 \<Rightarrow> ecdsa_sighash_type \<Rightarrow> index_out_of_bounds signing" where
  "segwit_v0_encode_signing_data_to sha256 input_index script_code amt sighash_type = (\<lambda>(c, written).
     let tx = cached_tx c;
         (sighash, anyone_can_pay) = split_ecdsa sighash_type in
     run_steps
      [write_all (to_le_bytes (version tx)),
       (if \<not> anyone_can_pay then write_segwit sha256 sc_prevouts else write_all ZERO_HASH),
       (if \<not> anyone_can_pay \<and> sighash \<noteq> EcdsaSingle \<and> sighash \<noteq> EcdsaNone then write_segwit sha256 sc_sequences
        else write_all ZERO_HASH),
       write_res (segwit_input_bytes tx input_index script_code amt),
       (if sighash \<noteq> EcdsaSingle \<and> sighash \<noteq> EcdsaNone then write_segwit sha256 sc_outputs
        else if sighash = EcdsaSingle \<and> input_index < length (outputs tx)
        then write_all (sha256d sha256 (tx_out_bytes (outputs tx ! input_index)))
        else write_all ZERO_HASH),
       write_all (to_le_bytes (lock_time_to_consensus (lock_time_of tx))),
       write_all (to_le_bytes (ecdsa_to_u32 sighash_type))]
      (c, written))"

definition p2wsh_signature_hash ::
  "(bytes \<Rightarrow> bytes) \<Rightarrow> nat \<Rightarrow> bytes \<Rightarrow> u64 \<Rightarrow> ecdsa_sighash_type
     \<Rightarrow> sighash_cache \<Rightarrow> (index_out_of_bounds, bytes) res \<times> sighash_cache" where
  "p2wsh_signature_hash sha256 input_index witness_script amt sighash_type c =
     (case segwit_v0_encode_signing_data_to sha256 input_index witness_script amt sighash_type (c, []) of
        (r, c, enc) \<Rightarrow> (res_bind r (\<lambda>_. Ok (sha256d sha256 enc)), c))"

definition p2wpkh_signature_hash ::
  "(bytes \<Rightarrow> bytes) \<Rightarrow> nat \<Rightarrow> bytes \<Rightarrow> u64 \<Rightarrow> ecdsa_sighash_type
     \<Rightarrow> sighash_cache \<Rightarrow> (p2wpkh_error, bytes) res \<times> sighash_cache" where
  "p2wpkh_signature_hash sha256 input_index spk amt sighash_type c =
     (case script_p2wpkh_script_code spk of
        None \<Rightarrow> (Err NotP2wpkhScript, c)
      | Some script_code \<Rightarrow>
          (case segwit_v0_encode_signing_data_to sha256 input_index script_code amt sighash_type (c, []) of
             (r, c, enc) \<Rightarrow> (map_err P2wpkhSighash (res_bind r (\<lambda>_. Ok (sha256d sha256 enc))), c)))"

subsection \<open>Legacy inputs\<close>

definition UINT256_ONE :: bytes where "UINT256_ONE = 1 # replicate 31 0"

definition is_invalid_use_of_sighash_single :: "u32 \<Rightarrow> nat \<Rightarrow> nat \<Rightarrow> bool" where
  "is_invalid_use_of_sighash_single sighash input_index outputs_len \<longleftrightarrow>
     is_single (ecdsa_from_consensus sighash) \<and> outputs_len \<le> input_index"

datatype encode_signing_data_result = SighashSingleBug | WriteResult "(index_out_of_bounds, bytes) res"

definition legacy_input_bytes :: "ecdsa_sighash_type \<Rightarrow> nat \<Rightarrow> bytes \<Rightarrow> nat \<times> tx_in \<Rightarrow> bytes" where
  "legacy_input_bytes sighash input_index spk = (\<lambda>(n, txin).
     out_point_bytes (previous_output txin)
     @ (if n = input_index then script_bytes spk else script_bytes [])
     @ (if n \<noteq> input_index \<and> (sighash = EcdsaSingle \<or> sighash = EcdsaNone) then to_le_bytes (0 :: u32)
        else to_le_bytes (sequence_no txin)))"

definition legacy_outputs_bytes :: "ecdsa_sighash_type \<Rightarrow> nat \<Rightarrow> tx_out list \<Rightarrow> (index_out_of_bounds, bytes) res" where
  "legacy_outputs_bytes sighash input_index outs =
     (if sighash = EcdsaAll then Ok (compact_size_new (length outs) @ concat (map tx_out_bytes outs))
      else if sighash = EcdsaSingle then
        (if outs = [] then Panic
         else
           let count = min input_index (length outs - 1) in
           Ok (compact_size_new (count + 1)
               @ concat (replicate count [0xFF, 0xFF, 0xFF, 0xFF, 0xFF, 0xFF, 0xFF, 0xFF, 0x00])
               @ tx_out_bytes (outs ! count)))
      else if sighash = EcdsaNone then Ok (compact_size_new 0)
      else Panic)"

definition encode_signing_data_to_inner :: "transaction \<Rightarrow> nat \<Rightarrow> bytes \<Rightarrow> u32 \<Rightarrow> (index_out_of_bounds, bytes) res" where
  "encode_signing_data_to_inner tx input_index spk sighash_type =
     (let (sighash, anyone_can_pay) = split_ecdsa (ecdsa_from_consensus sighash_type) in
      res_bind
        (if anyone_can_pay then
           (if input_index < length (inputs tx) then
              Ok (compact_size_new 1 @ out_point_bytes (previous_output (inputs tx ! input_index))
                  @ script_bytes spk @ to_le_bytes (sequence_no (inputs tx ! input_index)))
            else Panic)
         else
           Ok (compact_size_new (length (inputs tx))
               @ concat (map (legacy_input_bytes sighash input_index spk) (enumerate 0 (inputs tx)))))
        (\<lambda>ins. res_bind (legacy_outputs_bytes sighash input_index (outputs tx)) (\<lambda>outs.
          Ok (to_le_bytes (version tx) @ ins @ outs
              @ to_le_bytes (lock_time_to_consensus (lock_time_of tx)) @ to_le_bytes sighash_type))))"

text \<open>The bytes are those written when the result is \<open>Ok\<close>.\<close>

definition legacy_encode_signing_data_to :: "transaction \<Rightarrow> nat \<Rightarrow> bytes \<Rightarrow> u32 \<Rightarrow> encode_signing_data_result" where
  "legacy_encode_signing_data_to tx input_index spk sighash_type =
     (case get_tx_in tx input_index of
        Err e \<Rightarrow> WriteResult (Err e)
      | _ \<Rightarrow>
          if is_invalid_use_of_sighash_single sighash_type input_index (length (outputs tx)) then SighashSingleBug
          else WriteResult (encode_signing_data_to_inner tx input_index spk sighash_type))"

definition legacy_signature_hash ::
  "(bytes \<Rightarrow> bytes) \<Rightarrow> sighash_cache \<Rightarrow> nat \<Rightarrow> bytes \<Rightarrow> u32 \<Rightarrow> (index_out_of_bounds, bytes) res" where
  "legacy_signature_hash sha256 c input_index spk sighash_type =
     (case legacy_encode_signing_data_to (cached_tx c) input_index spk sighash_type of
        SighashSingleBug \<Rightarrow> Ok UINT256_ONE
      | WriteResult r \<Rightarrow> res_bind r (\<lambda>written. Ok (sha256d sha256 written)))"

subsection \<open>Witnesses\<close>

text \<open>What \<open>witness_mut\<close> allows: to set the witness of an input. The result tells whether there is such an input.\<close>

definition set_witness_of :: "nat \<Rightarrow> witness \<Rightarrow> sighash_cache \<Rightarrow> bool \<times> sighash_cache" where
  "set_witness_of input_index w c =
     (let ins = inputs (cached_tx c) in
      if input_index < length ins then
        (True, c\<lparr>cached_tx := (cached_tx c)\<lparr>inputs := ins[input_index := (ins ! input_index)\<lparr>tx_witness := w\<rparr>]\<rparr>\<rparr>)
      else (False, c))"

end
