(* ===== verification/Sighash_Messages.thy ===== *)
theory Sighash_Messages
  imports Sighash
begin

section \<open>The messages that are signed\<close>

text \<open>
  The messages as the rules state them, without a cache, and that the functions that write them through the cache
  write these, in whatever order they are called. Then that the legacy message is the encoding of a
  changed transaction, and that equal messages come from transactions that agree in what the type of the signature covers.
\<close>

subsection \<open>Caches that hold what they should\<close>

definition segwit_of :: "(bytes \<Rightarrow> bytes) \<Rightarrow> transaction \<Rightarrow> segwit_cache" where
  "segwit_of sha256 tx =
     \<lparr>sc_prevouts = sha256 (cc_prevouts (common_of sha256 tx)), sc_sequences = sha256 (cc_sequences (common_of sha256 tx)),
      sc_outputs = sha256 (cc_outputs (common_of sha256 tx))\<rparr>"

definition taproot_of :: "(bytes \<Rightarrow> bytes) \<Rightarrow> tx_out list \<Rightarrow> taproot_cache" where
  "taproot_of sha256 ps =
     \<lparr>tc_amounts = sha256 (concat (map (\<lambda>prevout. to_le_bytes (amount prevout)) ps)),
      tc_script_pubkeys = sha256 (concat (map (\<lambda>prevout. script_bytes (script_pubkey prevout)) ps))\<rparr>"

definition coherent :: "(bytes \<Rightarrow> bytes) \<Rightarrow> tx_out list \<Rightarrow> sighash_cache \<Rightarrow> bool" where
  "coherent sha256 ps c \<longleftrightarrow>
     common_cached c \<in> {None, Some (common_of sha256 (cached_tx c))}
     \<and> segwit_cached c \<in> {None, Some (segwit_of sha256 (cached_tx c))}
     \<and> taproot_cached c \<in> {None, Some (taproot_of sha256 ps)}"

lemma coherent_new [simp]: "coherent sha256 ps (sighash_cache_new tx)" "cached_tx (sighash_cache_new tx) = tx"
  by (simp_all add: coherent_def sighash_cache_new_def)

text \<open>What a step writes, and how it ends, whatever a coherent cache already holds.\<close>

definition writes ::
  "(bytes \<Rightarrow> bytes) \<Rightarrow> tx_out list \<Rightarrow> transaction \<Rightarrow> 'e signing \<Rightarrow> ('e, unit) res \<Rightarrow> bytes \<Rightarrow> bool" where
  "writes sha256 ps tx m r b \<longleftrightarrow> (\<forall>c w. coherent sha256 ps c \<and> cached_tx c = tx \<longrightarrow>
     (\<exists>c'. m (c, w) = (r, c', w @ b) \<and> coherent sha256 ps c' \<and> cached_tx c' = tx))"

lemma writesD:
  assumes "writes sha256 ps tx m r b" "coherent sha256 ps c" "cached_tx c = tx"
  obtains c' where "m (c, w) = (r, c', w @ b)" "coherent sha256 ps c'" "cached_tx c' = tx"
  using assms unfolding writes_def by blast

named_theorems writing

lemma writes_Nil [writing]: "writes sha256 ps tx (run_steps []) (Ok ()) []"
  by (simp add: writes_def)

lemma writes_Cons:
  assumes "writes sha256 ps tx m (Ok ()) b" "writes sha256 ps tx (run_steps ms) r b'"
  shows "writes sha256 ps tx (run_steps (m # ms)) r (b @ b')"
  unfolding writes_def
proof (intro allI impI)
  fix c w
  assume c: "coherent sha256 ps c \<and> cached_tx c = tx"
  obtain c1 where c1: "m (c, w) = (Ok (), c1, w @ b)" "coherent sha256 ps c1" "cached_tx c1 = tx"
    using assms(1) c by (blast elim: writesD)
  obtain c2 where "run_steps ms (c1, w @ b) = (r, c2, (w @ b) @ b')" "coherent sha256 ps c2" "cached_tx c2 = tx"
    using assms(2) c1(2,3) by (blast elim: writesD)
  then show "\<exists>c'. run_steps (m # ms) (c, w) = (r, c', w @ b @ b') \<and> coherent sha256 ps c' \<and> cached_tx c' = tx"
    using c1(1) by simp
qed

lemma writes_Cons_Err:
  assumes "writes sha256 ps tx m (Err e) b"
  shows "writes sha256 ps tx (run_steps (m # ms)) (Err e) b"
  unfolding writes_def
proof (intro allI impI)
  fix c w
  assume "coherent sha256 ps c \<and> cached_tx c = tx"
  then obtain c1 where "m (c, w) = (Err e, c1, w @ b)" "coherent sha256 ps c1" "cached_tx c1 = tx"
    using assms by (blast elim: writesD)
  then show "\<exists>c'. run_steps (m # ms) (c, w) = (Err e, c', w @ b) \<and> coherent sha256 ps c' \<and> cached_tx c' = tx" by simp
qed

lemma writes_all [writing]: "writes sha256 ps tx (write_all b) (Ok ()) b"
  by (simp add: writes_def write_all_def)

lemma writes_res_Ok [writing]: "r = Ok b \<Longrightarrow> writes sha256 ps tx (write_res r) (Ok ()) b"
  by (simp add: writes_def write_res_def)

lemma writes_res_Err: "r = Err e \<Longrightarrow> writes sha256 ps tx (write_res r) (Err e) []"
  by (simp add: writes_def write_res_def)

lemma common_cache_get_coherent:
  assumes "coherent sha256 ps c"
  shows "fst (common_cache_get sha256 c) = common_of sha256 (cached_tx c)
    \<and> coherent sha256 ps (snd (common_cache_get sha256 c)) \<and> cached_tx (snd (common_cache_get sha256 c)) = cached_tx c"
  using assms by (auto simp: common_cache_get_def coherent_def Let_def split: option.splits)

lemma segwit_cache_get_coherent:
  assumes "coherent sha256 ps c"
  shows "fst (segwit_cache_get sha256 c) = segwit_of sha256 (cached_tx c)
    \<and> coherent sha256 ps (snd (segwit_cache_get sha256 c)) \<and> cached_tx (snd (segwit_cache_get sha256 c)) = cached_tx c"
proof (cases "segwit_cached c")
  case None
  obtain cc c1 where "common_cache_get sha256 c = (cc, c1)" by fastforce
  then show ?thesis using None common_cache_get_coherent [OF assms]
    by (auto simp: segwit_cache_get_def segwit_of_def coherent_def Let_def)
qed (use assms in \<open>auto simp: segwit_cache_get_def coherent_def\<close>)

lemma taproot_cache_get_coherent:
  assumes "coherent sha256 ps c"
  shows "fst (taproot_cache_get sha256 ps c) = taproot_of sha256 ps
    \<and> coherent sha256 ps (snd (taproot_cache_get sha256 ps c)) \<and> cached_tx (snd (taproot_cache_get sha256 ps c)) = cached_tx c"
  using assms by (auto simp: taproot_cache_get_def coherent_def taproot_of_def Let_def split: option.splits)

lemma writes_common [writing]: "writes sha256 ps tx (write_common sha256 field) (Ok ()) (field (common_of sha256 tx))"
  unfolding writes_def write_common_def using common_cache_get_coherent by (auto simp: Let_def split_beta)

lemma writes_segwit [writing]: "writes sha256 ps tx (write_segwit sha256 field) (Ok ()) (field (segwit_of sha256 tx))"
  unfolding writes_def write_segwit_def using segwit_cache_get_coherent by (auto simp: Let_def split_beta)

lemma writes_taproot [writing]:
  "writes sha256 ps tx (write_taproot sha256 (AllPrevouts ps) field) (Ok ()) (field (taproot_of sha256 ps))"
  unfolding writes_def write_taproot_def using taproot_cache_get_coherent by (auto simp: Let_def split_beta)

lemma writes_taproot_Err: "writes sha256 ps tx (write_taproot sha256 (OnePrevout i p) field) (Err PrevoutsKind) []"
  by (simp add: writes_def write_taproot_def)

lemma writes_when [writing]: "b \<Longrightarrow> writes sha256 ps tx (run_steps ms) r bs \<Longrightarrow> writes sha256 ps tx (when_do b ms) r bs"
  "\<not> b \<Longrightarrow> writes sha256 ps tx (when_do b ms) (Ok ()) []"
  by (simp_all add: when_do_def writes_Nil)

subsection \<open>Witness programs of version 0\<close>

text \<open>The message of BIP 143, in which bit 7 and the five lowest bits of the number of the type say what is left out.\<close>

definition bip143_message ::
  "(bytes \<Rightarrow> bytes) \<Rightarrow> transaction \<Rightarrow> nat \<Rightarrow> bytes \<Rightarrow> u64 \<Rightarrow> ecdsa_sighash_type \<Rightarrow> bytes" where
  "bip143_message sha256 tx i script_code amt ty =
     (let acp = bit (ecdsa_to_u32 ty) 7; none = (ecdsa_to_u32 ty AND 0x1f = 2); single = (ecdsa_to_u32 ty AND 0x1f = 3);
          txin = inputs tx ! i in
      to_le_bytes (version tx)
      @ (if acp then ZERO_HASH else sha256d sha256 (concat (map (out_point_bytes \<circ> previous_output) (inputs tx))))
      @ (if acp \<or> none \<or> single then ZERO_HASH else sha256d sha256 (concat (map (to_le_bytes \<circ> sequence_no) (inputs tx))))
      @ out_point_bytes (previous_output txin) @ script_bytes script_code @ to_le_bytes amt @ to_le_bytes (sequence_no txin)
      @ (if none then ZERO_HASH
         else if \<not> single then sha256d sha256 (concat (map tx_out_bytes (outputs tx)))
         else if i < length (outputs tx) then sha256d sha256 (tx_out_bytes (outputs tx ! i))
         else ZERO_HASH)
      @ to_le_bytes (lock_time_to_consensus (lock_time_of tx)) @ to_le_bytes (ecdsa_to_u32 ty))"

lemma bip143_message_split:
  assumes "split_ecdsa ty = (base, acp)"
  shows "bip143_message sha256 tx i script_code amt ty =
    to_le_bytes (version tx)
    @ (if acp then ZERO_HASH else sha256d sha256 (concat (map (out_point_bytes \<circ> previous_output) (inputs tx))))
    @ (if acp \<or> base \<noteq> EcdsaAll then ZERO_HASH else sha256d sha256 (concat (map (to_le_bytes \<circ> sequence_no) (inputs tx))))
    @ out_point_bytes (previous_output (inputs tx ! i)) @ script_bytes script_code @ to_le_bytes amt
    @ to_le_bytes (sequence_no (inputs tx ! i))
    @ (if base = EcdsaAll then sha256d sha256 (concat (map tx_out_bytes (outputs tx)))
       else if base = EcdsaSingle \<and> i < length (outputs tx) then sha256d sha256 (tx_out_bytes (outputs tx ! i))
       else ZERO_HASH)
    @ to_le_bytes (lock_time_to_consensus (lock_time_of tx)) @ to_le_bytes (ecdsa_to_u32 ty)"
proof -
  have "base \<in> {EcdsaAll, EcdsaNone, EcdsaSingle}" using split_ecdsa_base [of ty] assms by simp
  then show ?thesis unfolding bip143_message_def ecdsa_type_bits [OF assms] Let_def by (elim insertE emptyE) simp_all
qed

lemma segwit_of_hashes:
  "sc_prevouts (segwit_of sha256 tx) = sha256d sha256 (concat (map (out_point_bytes \<circ> previous_output) (inputs tx)))"
  "sc_sequences (segwit_of sha256 tx) = sha256d sha256 (concat (map (to_le_bytes \<circ> sequence_no) (inputs tx)))"
  "sc_outputs (segwit_of sha256 tx) = sha256d sha256 (concat (map tx_out_bytes (outputs tx)))"
  by (simp_all add: segwit_of_def common_of_def sha256d_def comp_def)

lemma encode_writes:
  assumes "\<And>c w. cached_tx c = tx \<Longrightarrow> m (c, w) = m' (c, w)" "writes sha256 ps tx m' r b"
  shows "writes sha256 ps tx m r b"
  using assms unfolding writes_def by metis

lemma segwit_writes:
  assumes "i < length (inputs tx)"
  shows "writes sha256 ps tx (segwit_v0_encode_signing_data_to sha256 i script_code amt ty) (Ok ())
    (bip143_message sha256 tx i script_code amt ty)"
proof -
  obtain base acp where split: "split_ecdsa ty = (base, acp)" by fastforce
  have base: "base \<in> {EcdsaAll, EcdsaNone, EcdsaSingle}" using split_ecdsa_base [of ty] split by simp
  let ?first = "if \<not> acp then write_segwit sha256 sc_prevouts else write_all ZERO_HASH :: index_out_of_bounds signing"
  have first: "writes sha256 ps tx ?first (Ok ())
      (if acp then ZERO_HASH else sha256d sha256 (concat (map (out_point_bytes \<circ> previous_output) (inputs tx))))"
    by (simp add: writing segwit_of_hashes [symmetric])
  let ?second = "if \<not> acp \<and> base \<noteq> EcdsaSingle \<and> base \<noteq> EcdsaNone then write_segwit sha256 sc_sequences
      else write_all ZERO_HASH :: index_out_of_bounds signing"
  have second: "writes sha256 ps tx ?second (Ok ())
      (if acp \<or> base \<noteq> EcdsaAll then ZERO_HASH else sha256d sha256 (concat (map (to_le_bytes \<circ> sequence_no) (inputs tx))))"
    using base by (auto simp: writing segwit_of_hashes [symmetric])
  let ?outs = "if base \<noteq> EcdsaSingle \<and> base \<noteq> EcdsaNone then write_segwit sha256 sc_outputs
        else if base = EcdsaSingle \<and> i < length (outputs tx) then write_all (sha256d sha256 (tx_out_bytes (outputs tx ! i)))
        else write_all ZERO_HASH :: index_out_of_bounds signing"
  have outs: "writes sha256 ps tx ?outs (Ok ())
      (if base = EcdsaAll then sha256d sha256 (concat (map tx_out_bytes (outputs tx)))
       else if base = EcdsaSingle \<and> i < length (outputs tx) then sha256d sha256 (tx_out_bytes (outputs tx ! i)) else ZERO_HASH)"
    using base by (auto simp: writing segwit_of_hashes [symmetric])
  have input: "segwit_input_bytes tx i script_code amt = Ok (out_point_bytes (previous_output (inputs tx ! i))
      @ script_bytes script_code @ to_le_bytes amt @ to_le_bytes (sequence_no (inputs tx ! i)))"
    using assms by (simp add: segwit_input_bytes_def get_tx_in_def)
  let ?run = "run_steps [write_all (to_le_bytes (version tx)), ?first, ?second, write_res (segwit_input_bytes tx i script_code amt), ?outs,
      write_all (to_le_bytes (lock_time_to_consensus (lock_time_of tx))), write_all (to_le_bytes (ecdsa_to_u32 ty))]"
  have "writes sha256 ps tx ?run (Ok ()) (to_le_bytes (version tx)
      @ (if acp then ZERO_HASH else sha256d sha256 (concat (map (out_point_bytes \<circ> previous_output) (inputs tx))))
      @ (if acp \<or> base \<noteq> EcdsaAll then ZERO_HASH else sha256d sha256 (concat (map (to_le_bytes \<circ> sequence_no) (inputs tx))))
      @ (out_point_bytes (previous_output (inputs tx ! i))
           @ script_bytes script_code @ to_le_bytes amt @ to_le_bytes (sequence_no (inputs tx ! i)))
      @ (if base = EcdsaAll then sha256d sha256 (concat (map tx_out_bytes (outputs tx)))
         else if base = EcdsaSingle \<and> i < length (outputs tx) then sha256d sha256 (tx_out_bytes (outputs tx ! i)) else ZERO_HASH)
      @ to_le_bytes (lock_time_to_consensus (lock_time_of tx)) @ to_le_bytes (ecdsa_to_u32 ty) @ [])"
    by (intro writes_Cons writes_all first second outs writes_res_Ok [OF input] writes_Nil)
  then have "writes sha256 ps tx ?run (Ok ()) (bip143_message sha256 tx i script_code amt ty)"
    by (simp only: bip143_message_split [OF split] append_assoc append_Nil2)
  then show ?thesis
    by (rule encode_writes [rotated]) (simp only: segwit_v0_encode_signing_data_to_def split Let_def prod.case)
qed

lemma segwit_writes_Err:
  assumes "\<not> i < length (inputs tx)"
  shows "\<exists>b. writes sha256 ps tx (segwit_v0_encode_signing_data_to sha256 i script_code amt ty)
    (Err \<lparr>oob_index = i, oob_length = length (inputs tx)\<rparr>) b"
proof -
  obtain base acp where split: "split_ecdsa ty = (base, acp)" by fastforce
  have err: "segwit_input_bytes tx i script_code amt = Err \<lparr>oob_index = i, oob_length = length (inputs tx)\<rparr>"
    using assms by (simp add: segwit_input_bytes_def get_tx_in_def)
  have either: "\<exists>b'. writes sha256 ps tx (if b then write_segwit sha256 field else write_all bs :: index_out_of_bounds signing) (Ok ()) b'" for b field bs
    by (cases b) (auto intro: writing)
  obtain b1 where b1: "writes sha256 ps tx (if \<not> acp then write_segwit sha256 sc_prevouts else write_all ZERO_HASH :: index_out_of_bounds signing) (Ok ()) b1"
    using either by blast
  obtain b2 where b2: "writes sha256 ps tx (if \<not> acp \<and> base \<noteq> EcdsaSingle \<and> base \<noteq> EcdsaNone then write_segwit sha256 sc_sequences
      else write_all ZERO_HASH :: index_out_of_bounds signing) (Ok ()) b2"
    using either by blast
  note steps = writes_Cons [OF writes_all writes_Cons [OF b1 writes_Cons [OF b2 writes_Cons_Err [OF writes_res_Err [OF err]]]]]
  show ?thesis
    by (rule exI, rule encode_writes [rotated], rule steps)
      (simp only: segwit_v0_encode_signing_data_to_def split Let_def prod.case)
qed

subsection \<open>Taproot\<close>

text \<open>
  The message of BIP 341, in which bit 7 and the two lowest bits of the type say what is left out, and which of the
  arguments is refused first.
\<close>

definition bip341_spent :: "prevouts \<Rightarrow> nat \<Rightarrow> tx_out" where
  "bip341_spent pv i = (case pv of OnePrevout _ p \<Rightarrow> p | AllPrevouts ps \<Rightarrow> ps ! i)"

definition bip341_message ::
  "(bytes \<Rightarrow> bytes) \<Rightarrow> transaction \<Rightarrow> tx_out list \<Rightarrow> nat \<Rightarrow> prevouts \<Rightarrow> bytes option \<Rightarrow> (bytes \<times> u32) option
     \<Rightarrow> tap_sighash_type \<Rightarrow> bytes" where
  "bip341_message sha256 tx ps i pv annex leaf ty =
     (let acp = bit (tap_to_u8 ty) 7; none = (tap_to_u8 ty AND 3 = 2); single = (tap_to_u8 ty AND 3 = 3) in
      [0] @ [tap_to_u8 ty] @ to_le_bytes (version tx) @ to_le_bytes (lock_time_to_consensus (lock_time_of tx))
      @ (if acp then []
         else sha256 (concat (map (out_point_bytes \<circ> previous_output) (inputs tx)))
           @ sha256 (concat (map (to_le_bytes \<circ> amount) ps)) @ sha256 (concat (map (script_bytes \<circ> script_pubkey) ps))
           @ sha256 (concat (map (to_le_bytes \<circ> sequence_no) (inputs tx))))
      @ (if none \<or> single then [] else sha256 (concat (map tx_out_bytes (outputs tx))))
      @ [(if annex \<noteq> None then 1 else 0) OR (if leaf \<noteq> None then 2 else 0)]
      @ (if acp then out_point_bytes (previous_output (inputs tx ! i)) @ to_le_bytes (amount (bip341_spent pv i))
           @ script_bytes (script_pubkey (bip341_spent pv i)) @ to_le_bytes (sequence_no (inputs tx ! i))
         else to_le_bytes (word_of_nat i :: u32))
      @ (case annex of Some a \<Rightarrow> sha256 (compact_size_new (length a) @ a) | None \<Rightarrow> [])
      @ (if single then sha256 (tx_out_bytes (outputs tx ! i)) else [])
      @ (case leaf of Some (hash, pos) \<Rightarrow> hash @ [0] @ to_le_bytes pos | None \<Rightarrow> []))"

definition taproot_refusal :: "transaction \<Rightarrow> nat \<Rightarrow> prevouts \<Rightarrow> tap_sighash_type \<Rightarrow> taproot_sighash_error option" where
  "taproot_refusal tx i pv ty =
     (let acp = bit (tap_to_u8 ty) 7; single = (tap_to_u8 ty AND 3 = 3) in
      case check_all pv tx of Err e \<Rightarrow> Some e
      | _ \<Rightarrow>
        if \<not> acp \<and> (\<exists>j p. pv = OnePrevout j p) then Some PrevoutsKind
        else if acp \<and> length (inputs tx) \<le> i then Some (InputsIndex \<lparr>oob_index = i, oob_length = length (inputs tx)\<rparr>)
        else if acp \<and> (\<exists>j p. pv = OnePrevout j p \<and> i \<noteq> j) then Some (PrevoutsIndex InvalidOneIndex)
        else if single \<and> length (outputs tx) \<le> i then Some (SingleMissingOutput i (length (outputs tx)))
        else None)"

lemma taproot_of_hashes:
  "tc_amounts (taproot_of sha256 ps) = sha256 (concat (map (to_le_bytes \<circ> amount) ps))"
  "tc_script_pubkeys (taproot_of sha256 ps) = sha256 (concat (map (script_bytes \<circ> script_pubkey) ps))"
  "cc_prevouts (common_of sha256 tx) = sha256 (concat (map (out_point_bytes \<circ> previous_output) (inputs tx)))"
  "cc_sequences (common_of sha256 tx) = sha256 (concat (map (to_le_bytes \<circ> sequence_no) (inputs tx)))"
  "cc_outputs (common_of sha256 tx) = sha256 (concat (map tx_out_bytes (outputs tx)))"
  by (simp_all add: taproot_of_def common_of_def comp_def)

text \<open>The prevouts that a call gives, where it uses all of them, are those that the cache is for.\<close>

definition prevouts_agree :: "tx_out list \<Rightarrow> prevouts \<Rightarrow> tap_sighash_type \<Rightarrow> bool" where
  "prevouts_agree ps pv ty \<longleftrightarrow> bit (tap_to_u8 ty) 7 \<or> (\<forall>qs. pv = AllPrevouts qs \<longrightarrow> qs = ps)"

lemma writes_if:
  "(b \<Longrightarrow> writes sha256 ps tx m r x) \<Longrightarrow> (\<not> b \<Longrightarrow> writes sha256 ps tx n r y)
    \<Longrightarrow> writes sha256 ps tx (if b then m else n) r (if b then x else y)"
  by simp

lemma writes_when_if:
  "(b \<Longrightarrow> writes sha256 ps tx (run_steps ms) (Ok ()) x) \<Longrightarrow> writes sha256 ps tx (when_do b ms) (Ok ()) (if b then x else [])"
  by (simp add: when_do_def writes_Nil)

lemma writes_annex:
  "writes sha256 ps tx (case annex of Some a \<Rightarrow> write_all (f a) | None \<Rightarrow> run_steps []) (Ok ())
     (case annex of Some a \<Rightarrow> f a | None \<Rightarrow> [])"
  by (cases annex) (simp_all add: writing)

lemma writes_leaf:
  "writes sha256 ps tx (case leaf of Some (hash, pos) \<Rightarrow>
       run_steps [write_all hash, write_all [KEY_VERSION_0], write_all (to_le_bytes pos)] | None \<Rightarrow> run_steps []) (Ok ())
     (case leaf of Some (hash, pos) \<Rightarrow> hash @ [0] @ to_le_bytes (pos :: u32) | None \<Rightarrow> [])"
proof (cases leaf)
  case (Some p)
  have "writes sha256 ps tx (run_steps [write_all (fst p), write_all [KEY_VERSION_0], write_all (to_le_bytes (snd p))]) (Ok ())
      (fst p @ [KEY_VERSION_0] @ to_le_bytes (snd p) @ [])" by (intro writes_Cons writes_all writes_Nil)
  then show ?thesis using Some by (simp add: split_beta KEY_VERSION_0_def)
qed (simp add: writes_Nil)

text \<open>The two outcomes of the function.\<close>

lemma refusal_cases:
  assumes "split_tap ty = (base, acp)" "taproot_refusal tx i pv ty = None"
  shows "check_all pv tx = Ok ()" "\<not> acp \<Longrightarrow> \<exists>qs. pv = AllPrevouts qs"
    "acp \<Longrightarrow> spent_output_bytes tx i pv = Ok (out_point_bytes (previous_output (inputs tx ! i)) @ to_le_bytes (amount (bip341_spent pv i))
       @ script_bytes (script_pubkey (bip341_spent pv i)) @ to_le_bytes (sequence_no (inputs tx ! i)))"
    "base = TapSingle \<Longrightarrow> single_output_hash sha256 tx i = Ok (sha256 (tx_out_bytes (outputs tx ! i)))"
  using assms(2) by (cases pv; auto simp: taproot_refusal_def tap_type_bits [OF assms(1)] bip341_spent_def spent_output_bytes_def
      get_tx_in_def single_output_hash_def Let_def split: if_splits)+

lemma taproot_writes:
  assumes "taproot_refusal tx i pv ty = None" "prevouts_agree ps pv ty"
  shows "writes sha256 ps tx (taproot_encode_signing_data_to sha256 i pv annex leaf ty) (Ok ())
    (bip341_message sha256 tx ps i pv annex leaf ty)"
proof -
  obtain base acp where split: "split_tap ty = (base, acp)" by fastforce
  note ok = refusal_cases [OF split assms(1)]
  have all: "\<not> acp \<Longrightarrow> pv = AllPrevouts ps" using ok(2) assms(2) by (auto simp: prevouts_agree_def tap_type_bits [OF split])
  have shared: "writes sha256 ps tx (when_do (\<not> acp)
         [write_common sha256 cc_prevouts, write_taproot sha256 pv tc_amounts, write_taproot sha256 pv tc_script_pubkeys,
          write_common sha256 cc_sequences]) (Ok ())
      (if \<not> acp then cc_prevouts (common_of sha256 tx) @ tc_amounts (taproot_of sha256 ps)
         @ tc_script_pubkeys (taproot_of sha256 ps) @ cc_sequences (common_of sha256 tx) @ [] else [])"
  proof (rule writes_when_if)
    assume "\<not> acp"
    then have pv: "pv = AllPrevouts ps" by (rule all)
    show "writes sha256 ps tx (run_steps [write_common sha256 cc_prevouts, write_taproot sha256 pv tc_amounts,
        write_taproot sha256 pv tc_script_pubkeys, write_common sha256 cc_sequences]) (Ok ())
      (cc_prevouts (common_of sha256 tx) @ tc_amounts (taproot_of sha256 ps) @ tc_script_pubkeys (taproot_of sha256 ps)
       @ cc_sequences (common_of sha256 tx) @ [])"
      unfolding pv by (intro writes_Cons writing)
  qed
  have outs: "writes sha256 ps tx (when_do (base \<noteq> TapNone \<and> base \<noteq> TapSingle) [write_common sha256 cc_outputs]) (Ok ())
      (if base \<noteq> TapNone \<and> base \<noteq> TapSingle then cc_outputs (common_of sha256 tx) @ [] else [])"
    by (intro writes_when_if writes_Cons writing)
  have own: "writes sha256 ps tx (if acp then write_res (spent_output_bytes tx i pv) else write_all (to_le_bytes (word_of_nat i :: u32))) (Ok ())
      (if acp then out_point_bytes (previous_output (inputs tx ! i)) @ to_le_bytes (amount (bip341_spent pv i))
           @ script_bytes (script_pubkey (bip341_spent pv i)) @ to_le_bytes (sequence_no (inputs tx ! i))
       else to_le_bytes (word_of_nat i :: u32))"
    by (intro writes_if writes_all writes_res_Ok ok(3))
  have single: "writes sha256 ps tx (when_do (base = TapSingle) [write_res (single_output_hash sha256 tx i)]) (Ok ())
      (if base = TapSingle then sha256 (tx_out_bytes (outputs tx ! i)) @ [] else [])"
    by (intro writes_when_if writes_Cons writes_res_Ok ok(4) writes_Nil)
  have check: "res_bind (check_all pv tx) (\<lambda>_. Ok []) = Ok []" using ok(1) by simp
  note steps = writes_Cons [OF writes_res_Ok [OF check] writes_Cons [OF writes_all writes_Cons [OF writes_all writes_Cons
      [OF writes_all writes_Cons [OF writes_all writes_Cons [OF shared writes_Cons [OF outs writes_Cons [OF writes_all
       writes_Cons [OF own writes_Cons [OF writes_annex writes_Cons [OF single writes_Cons [OF writes_leaf writes_Nil]]]]]]]]]]]]
  have message: "bip341_message sha256 tx ps i pv annex leaf ty =
      [] @ [0] @ [tap_to_u8 ty] @ to_le_bytes (version tx) @ to_le_bytes (lock_time_to_consensus (lock_time_of tx))
      @ (if \<not> acp then cc_prevouts (common_of sha256 tx) @ tc_amounts (taproot_of sha256 ps)
           @ tc_script_pubkeys (taproot_of sha256 ps) @ cc_sequences (common_of sha256 tx) @ [] else [])
      @ (if base \<noteq> TapNone \<and> base \<noteq> TapSingle then cc_outputs (common_of sha256 tx) @ [] else [])
      @ [(if annex \<noteq> None then 1 else 0) OR (if leaf \<noteq> None then 2 else 0)]
      @ (if acp then out_point_bytes (previous_output (inputs tx ! i)) @ to_le_bytes (amount (bip341_spent pv i))
           @ script_bytes (script_pubkey (bip341_spent pv i)) @ to_le_bytes (sequence_no (inputs tx ! i))
         else to_le_bytes (word_of_nat i :: u32))
      @ (case annex of Some a \<Rightarrow> sha256 (compact_size_new (length a) @ a) | None \<Rightarrow> [])
      @ (if base = TapSingle then sha256 (tx_out_bytes (outputs tx ! i)) @ [] else [])
      @ (case leaf of Some (hash, pos) \<Rightarrow> hash @ [0] @ to_le_bytes pos | None \<Rightarrow> []) @ []"
    by (simp add: bip341_message_def taproot_of_hashes tap_type_bits [OF split] Let_def)
  show ?thesis
    unfolding message
    by (rule encode_writes [rotated], rule steps)
      (simp only: taproot_encode_signing_data_to_def split Let_def prod.case)
qed

text \<open>Errors, whatever has been written before them.\<close>

definition ends :: "(bytes \<Rightarrow> bytes) \<Rightarrow> tx_out list \<Rightarrow> transaction \<Rightarrow> 'e signing \<Rightarrow> ('e, unit) res \<Rightarrow> bool" where
  "ends sha256 ps tx m r \<longleftrightarrow> (\<exists>b. writes sha256 ps tx m r b)"

lemma endsI: "writes sha256 ps tx m r b \<Longrightarrow> ends sha256 ps tx m r"
  unfolding ends_def by blast

lemma ends_later: "ends sha256 ps tx m (Ok ()) \<Longrightarrow> ends sha256 ps tx (run_steps ms) r \<Longrightarrow> ends sha256 ps tx (run_steps (m # ms)) r"
  unfolding ends_def by (blast intro: writes_Cons)

lemma ends_here: "ends sha256 ps tx m (Err e) \<Longrightarrow> ends sha256 ps tx (run_steps (m # ms)) (Err e)"
  unfolding ends_def by (blast intro: writes_Cons_Err)

lemma ends_when: "(b \<Longrightarrow> ends sha256 ps tx (run_steps ms) (Ok ())) \<Longrightarrow> ends sha256 ps tx (when_do b ms) (Ok ())"
  unfolding when_do_def by (cases b) (simp_all add: endsI [OF writes_Nil])

lemma taproot_writes_Err:
  assumes "taproot_refusal tx i pv ty = Some e" "prevouts_agree ps pv ty"
  shows "ends sha256 ps tx (taproot_encode_signing_data_to sha256 i pv annex leaf ty) (Err e)"
proof -
  obtain base acp where split: "split_tap ty = (base, acp)" by fastforce
  let ?run = "run_steps
      [write_res (res_bind (check_all pv tx) (\<lambda>_. Ok [])), write_all [0], write_all [tap_to_u8 ty], write_all (to_le_bytes (version tx)),
       write_all (to_le_bytes (lock_time_to_consensus (lock_time_of tx))),
       when_do (\<not> acp) [write_common sha256 cc_prevouts, write_taproot sha256 pv tc_amounts, write_taproot sha256 pv tc_script_pubkeys,
          write_common sha256 cc_sequences],
       when_do (base \<noteq> TapNone \<and> base \<noteq> TapSingle) [write_common sha256 cc_outputs],
       write_all [(if annex \<noteq> None then 1 else 0) OR (if leaf \<noteq> None then 2 else 0)],
       (if acp then write_res (spent_output_bytes tx i pv) else write_all (to_le_bytes (word_of_nat i :: u32))),
       (case annex of Some a \<Rightarrow> write_all (sha256 (compact_size_new (length a) @ a)) | None \<Rightarrow> run_steps []),
       when_do (base = TapSingle) [write_res (single_output_hash sha256 tx i)],
       (case leaf of Some (hash, pos) \<Rightarrow> run_steps [write_all hash, write_all [KEY_VERSION_0], write_all (to_le_bytes pos)]
        | None \<Rightarrow> run_steps [])]"
  have outs: "ends sha256 ps tx (when_do b [write_common sha256 cc_outputs]) (Ok ())" for b
    by (intro ends_when ends_later endsI [OF writes_common] endsI [OF writes_Nil])
  have "ends sha256 ps tx ?run (Err e)"
  proof (cases "check_all pv tx")
    case (Err e')
    then have "e' = e" using assms(1) by (simp add: taproot_refusal_def Let_def)
    then show ?thesis using Err by (intro ends_here endsI [OF writes_res_Err]) simp
  next
    case (Ok u)
    then have check: "res_bind (check_all pv tx) (\<lambda>_. Ok []) = Ok []" by simp
    note start = ends_later [OF endsI [OF writes_res_Ok [OF check]] ends_later [OF endsI [OF writes_all] ends_later [OF endsI [OF writes_all]
        ends_later [OF endsI [OF writes_all] ends_later [OF endsI [OF writes_all]]]]]]
    show ?thesis
    proof (cases "\<not> acp \<and> (\<exists>j p. pv = OnePrevout j p)")
      case True
      then obtain j p where pv: "pv = OnePrevout j p" "\<not> acp" by blast
      have "e = PrevoutsKind" using assms(1) True Ok by (simp add: taproot_refusal_def tap_type_bits [OF split] Let_def)
      moreover have "ends sha256 ps tx (when_do (\<not> acp) [write_common sha256 cc_prevouts, write_taproot sha256 pv tc_amounts,
          write_taproot sha256 pv tc_script_pubkeys, write_common sha256 cc_sequences]) (Err PrevoutsKind)"
        unfolding when_do_def pv(1) if_P [OF pv(2)]
        by (intro ends_later [OF endsI [OF writes_common] ends_here] endsI [OF writes_taproot_Err])
      ultimately show ?thesis by (intro start ends_here) simp
    next
      case kind: False
      have shared: "ends sha256 ps tx (when_do (\<not> acp) [write_common sha256 cc_prevouts, write_taproot sha256 pv tc_amounts,
          write_taproot sha256 pv tc_script_pubkeys, write_common sha256 cc_sequences]) (Ok ())"
      proof (rule ends_when)
        assume "\<not> acp"
        then have pv: "pv = AllPrevouts ps" using kind assms(2) by (cases pv) (auto simp: prevouts_agree_def tap_type_bits [OF split])
        show "ends sha256 ps tx (run_steps [write_common sha256 cc_prevouts, write_taproot sha256 pv tc_amounts,
            write_taproot sha256 pv tc_script_pubkeys, write_common sha256 cc_sequences]) (Ok ())"
          unfolding pv by (intro ends_later endsI [OF writes_common] endsI [OF writes_taproot] endsI [OF writes_Nil])
      qed
      note middle = start [OF ends_later [OF shared ends_later [OF outs ends_later [OF endsI [OF writes_all]]]]]
      show ?thesis
      proof (cases "\<exists>e'. acp \<and> spent_output_bytes tx i pv = Err e'")
        case True
        then obtain e' where e': "acp" "spent_output_bytes tx i pv = Err e'" by blast
        have "e' = e" using assms(1) e' Ok
          by (cases pv) (auto simp: taproot_refusal_def tap_type_bits [OF split] Let_def spent_output_bytes_def get_tx_in_def split: if_splits)
        then show ?thesis unfolding if_P [OF e'(1)] using e'(2) by (intro middle ends_here endsI [OF writes_res_Err]) simp
      next
        case False
        then have spent: "acp \<Longrightarrow> \<exists>b. spent_output_bytes tx i pv = Ok b"
          by (cases pv) (auto simp: spent_output_bytes_def get_tx_in_def split: if_splits)
        have own: "ends sha256 ps tx (if acp then write_res (spent_output_bytes tx i pv)
            else write_all (to_le_bytes (word_of_nat i :: u32))) (Ok ())"
          using spent by (cases acp) (auto intro: endsI writing)
        have single: "base = TapSingle \<and> single_output_hash sha256 tx i = Err e"
          using assms(1) Ok kind False
          by (cases pv) (auto simp: taproot_refusal_def tap_type_bits [OF split] Let_def spent_output_bytes_def get_tx_in_def
              single_output_hash_def split: if_splits)
        have "ends sha256 ps tx (when_do (base = TapSingle) [write_res (single_output_hash sha256 tx i)]) (Err e)"
          unfolding when_do_def if_P [OF single [THEN conjunct1]]
          by (intro ends_here endsI [OF writes_res_Err]) (simp add: single)
        then show ?thesis by (intro middle ends_later [OF own ends_later [OF endsI [OF writes_annex] ends_here]])
      qed
    qed
  qed (cases pv; simp split: if_splits)+
  then show ?thesis
    unfolding ends_def by (elim exE) (rule exI, rule encode_writes [rotated], assumption,
      simp only: taproot_encode_signing_data_to_def split Let_def prod.case)
qed

subsection \<open>Any sequence of calls\<close>

datatype sighash_call =
    TaprootCall nat prevouts "bytes option" "(bytes \<times> u32) option" tap_sighash_type
  | P2wshCall nat bytes u64 ecdsa_sighash_type
  | P2wpkhCall nat bytes u64 ecdsa_sighash_type
  | LegacyCall nat bytes u32
  | WitnessCall nat witness

datatype sighash_answer =
    TaprootAnswer "(taproot_sighash_error, bytes) res"
  | P2wshAnswer "(index_out_of_bounds, bytes) res"
  | P2wpkhAnswer "(p2wpkh_error, bytes) res"
  | LegacyAnswer "(index_out_of_bounds, bytes) res"
  | WitnessAnswer bool

fun answer_call ::
  "(bytes \<Rightarrow> bytes) \<Rightarrow> (bytes \<Rightarrow> bytes) \<Rightarrow> sighash_call \<Rightarrow> sighash_cache \<Rightarrow> sighash_answer \<times> sighash_cache" where
  "answer_call sha256 tag (TaprootCall i pv annex leaf ty) c =
     map_prod TaprootAnswer id (taproot_signature_hash sha256 tag i pv annex leaf ty c)"
| "answer_call sha256 tag (P2wshCall i script amt ty) c = map_prod P2wshAnswer id (p2wsh_signature_hash sha256 i script amt ty c)"
| "answer_call sha256 tag (P2wpkhCall i script amt ty) c = map_prod P2wpkhAnswer id (p2wpkh_signature_hash sha256 i script amt ty c)"
| "answer_call sha256 tag (LegacyCall i script ty) c = (LegacyAnswer (legacy_signature_hash sha256 c i script ty), c)"
| "answer_call sha256 tag (WitnessCall i w) c = map_prod WitnessAnswer id (set_witness_of i w c)"

fun answer_calls ::
  "(bytes \<Rightarrow> bytes) \<Rightarrow> (bytes \<Rightarrow> bytes) \<Rightarrow> sighash_call list \<Rightarrow> sighash_cache \<Rightarrow> sighash_answer list \<times> sighash_cache" where
  "answer_calls sha256 tag [] c = ([], c)"
| "answer_calls sha256 tag (call # calls) c =
     (let (a, c) = answer_call sha256 tag call c; (as, c) = answer_calls sha256 tag calls c in (a # as, c))"

fun call_agrees :: "tx_out list \<Rightarrow> sighash_call \<Rightarrow> bool" where
  "call_agrees ps (TaprootCall _ pv _ _ ty) \<longleftrightarrow> prevouts_agree ps pv ty"
| "call_agrees ps _ \<longleftrightarrow> True"

text \<open>The parts of a transaction that signatures see: all but the witnesses and the scripts of the inputs.\<close>

definition same_unsigned :: "transaction \<Rightarrow> transaction \<Rightarrow> bool" where
  "same_unsigned tx tx' \<longleftrightarrow> version tx = version tx' \<and> lock_time_of tx = lock_time_of tx' \<and> outputs tx = outputs tx'
     \<and> map previous_output (inputs tx) = map previous_output (inputs tx')
     \<and> map sequence_no (inputs tx) = map sequence_no (inputs tx')"

lemma same_unsignedD:
  assumes "same_unsigned tx tx'"
  shows "version tx = version tx'" "lock_time_of tx = lock_time_of tx'" "outputs tx = outputs tx'"
    "length (inputs tx) = length (inputs tx')"
    "i < length (inputs tx') \<Longrightarrow> previous_output (inputs tx ! i) = previous_output (inputs tx' ! i)"
    "i < length (inputs tx') \<Longrightarrow> sequence_no (inputs tx ! i) = sequence_no (inputs tx' ! i)"
proof -
  have "map previous_output (inputs tx) = map previous_output (inputs tx')" "map sequence_no (inputs tx) = map sequence_no (inputs tx')"
    using assms by (simp_all add: same_unsigned_def)
  note both = this
  show len: "length (inputs tx) = length (inputs tx')" using arg_cong [OF both(1), of length] by simp
  show "i < length (inputs tx') \<Longrightarrow> previous_output (inputs tx ! i) = previous_output (inputs tx' ! i)"
    using arg_cong [OF both(1), of "\<lambda>l. l ! i"] len by simp
  show "i < length (inputs tx') \<Longrightarrow> sequence_no (inputs tx ! i) = sequence_no (inputs tx' ! i)"
    using arg_cong [OF both(2), of "\<lambda>l. l ! i"] len by simp
qed (use assms in \<open>simp_all add: same_unsigned_def\<close>)

lemma maps_unsigned:
  assumes "same_unsigned tx tx'"
  shows "map (f \<circ> previous_output) (inputs tx) = map (f \<circ> previous_output) (inputs tx')"
    "map (g \<circ> sequence_no) (inputs tx) = map (g \<circ> sequence_no) (inputs tx')"
  using assms by (simp_all add: same_unsigned_def flip: map_map)

lemma common_of_unsigned: "same_unsigned tx tx' \<Longrightarrow> common_of sha256 tx = common_of sha256 tx'"
  by (simp add: common_of_def same_unsignedD(3) maps_unsigned [unfolded comp_def])

lemma segwit_of_unsigned: "same_unsigned tx tx' \<Longrightarrow> segwit_of sha256 tx = segwit_of sha256 tx'"
  by (simp add: segwit_of_def common_of_unsigned)

lemma bip143_unsigned:
  "same_unsigned tx tx' \<Longrightarrow> i < length (inputs tx') \<Longrightarrow> bip143_message sha256 tx i script amt ty = bip143_message sha256 tx' i script amt ty"
  by (simp add: bip143_message_def same_unsignedD maps_unsigned split_beta Let_def)

lemma refusal_unsigned: "same_unsigned tx tx' \<Longrightarrow> taproot_refusal tx i pv ty = taproot_refusal tx' i pv ty"
  by (cases pv) (simp_all add: taproot_refusal_def same_unsignedD(3,4) Let_def)

lemma bip341_unsigned:
  assumes "same_unsigned tx tx'" "taproot_refusal tx' i pv ty = None"
  shows "bip341_message sha256 tx ps i pv annex leaf ty = bip341_message sha256 tx' ps i pv annex leaf ty"
proof (cases "bit (tap_to_u8 ty) 7")
  case True
  then have "i < length (inputs tx')" using assms(2) by (cases pv) (auto simp: taproot_refusal_def Let_def split: if_splits)
  then show ?thesis using assms(1) by (simp add: bip341_message_def same_unsignedD maps_unsigned split_beta Let_def)
next
  case False
  then show ?thesis using assms(1) by (simp add: bip341_message_def same_unsignedD maps_unsigned split_beta Let_def)
qed

lemma legacy_unsigned:
  assumes "same_unsigned tx tx'"
  shows "legacy_encode_signing_data_to tx i script ty = legacy_encode_signing_data_to tx' i script ty"
proof (cases "i < length (inputs tx')")
  case True
  have "map (legacy_input_bytes base i script) (enumerate 0 (inputs tx)) = map (legacy_input_bytes base i script) (enumerate 0 (inputs tx'))" for base
    by (rule nth_equalityI) (auto simp: legacy_input_bytes_def nth_enumerate_eq same_unsignedD [OF assms])
  then have "encode_signing_data_to_inner tx i script ty = encode_signing_data_to_inner tx' i script ty"
    using True by (simp add: encode_signing_data_to_inner_def same_unsignedD [OF assms] split_beta Let_def)
  then show ?thesis using True by (simp add: legacy_encode_signing_data_to_def get_tx_in_def same_unsignedD [OF assms])
qed (simp add: legacy_encode_signing_data_to_def get_tx_in_def same_unsignedD(4) [OF assms])

text \<open>The answers without a cache.\<close>

fun answer_of :: "(bytes \<Rightarrow> bytes) \<Rightarrow> (bytes \<Rightarrow> bytes) \<Rightarrow> tx_out list \<Rightarrow> transaction \<Rightarrow> sighash_call \<Rightarrow> sighash_answer" where
  "answer_of sha256 tag ps tx (TaprootCall i pv annex leaf ty) =
     TaprootAnswer (case taproot_refusal tx i pv ty of Some e \<Rightarrow> Err e
       | None \<Rightarrow> Ok (tag (bip341_message sha256 tx ps i pv annex leaf ty)))"
| "answer_of sha256 tag ps tx (P2wshCall i script amt ty) =
     P2wshAnswer (if i < length (inputs tx) then Ok (sha256d sha256 (bip143_message sha256 tx i script amt ty))
       else Err \<lparr>oob_index = i, oob_length = length (inputs tx)\<rparr>)"
| "answer_of sha256 tag ps tx (P2wpkhCall i script amt ty) =
     P2wpkhAnswer (case script_p2wpkh_script_code script of None \<Rightarrow> Err NotP2wpkhScript
       | Some code \<Rightarrow> if i < length (inputs tx) then Ok (sha256d sha256 (bip143_message sha256 tx i code amt ty))
           else Err (P2wpkhSighash \<lparr>oob_index = i, oob_length = length (inputs tx)\<rparr>))"
| "answer_of sha256 tag ps tx (LegacyCall i script ty) = LegacyAnswer (legacy_signature_hash sha256 (sighash_cache_new tx) i script ty)"
| "answer_of sha256 tag ps tx (WitnessCall i w) = WitnessAnswer (i < length (inputs tx))"

lemma answer_of_unsigned: "same_unsigned tx tx' \<Longrightarrow> answer_of sha256 tag ps tx call = answer_of sha256 tag ps tx' call"
  by (cases call) (auto simp: same_unsignedD(4) bip143_unsigned refusal_unsigned bip341_unsigned legacy_signature_hash_def
      legacy_unsigned split: option.splits)

lemma segwit_outcome:
  assumes "coherent sha256 ps c"
  obtains c' b where "segwit_v0_encode_signing_data_to sha256 i script amt ty (c, []) =
      (if i < length (inputs (cached_tx c)) then (Ok (), c', bip143_message sha256 (cached_tx c) i script amt ty)
       else (Err \<lparr>oob_index = i, oob_length = length (inputs (cached_tx c))\<rparr>, c', b))"
    "coherent sha256 ps c'" "cached_tx c' = cached_tx c"
proof (cases "i < length (inputs (cached_tx c))")
  case True
  then show thesis using that segwit_writes [of i "cached_tx c" sha256 ps script amt ty] assms
    by (auto elim!: writesD [where w = "[]"])
next
  case False
  then obtain b where "writes sha256 ps (cached_tx c) (segwit_v0_encode_signing_data_to sha256 i script amt ty)
      (Err \<lparr>oob_index = i, oob_length = length (inputs (cached_tx c))\<rparr>) b" using segwit_writes_Err by blast
  then show thesis using that False assms by (auto elim!: writesD [where w = "[]"])
qed

lemma taproot_outcome:
  assumes "coherent sha256 ps c" "prevouts_agree ps pv ty"
  obtains c' b where "taproot_encode_signing_data_to sha256 i pv annex leaf ty (c, []) =
      (case taproot_refusal (cached_tx c) i pv ty of
         None \<Rightarrow> (Ok (), c', bip341_message sha256 (cached_tx c) ps i pv annex leaf ty)
       | Some e \<Rightarrow> (Err e, c', b))"
    "coherent sha256 ps c'" "cached_tx c' = cached_tx c"
proof (cases "taproot_refusal (cached_tx c) i pv ty")
  case None
  then show thesis using that taproot_writes [OF None assms(2), of sha256 annex leaf] assms(1)
    by (auto elim!: writesD [where w = "[]"])
next
  case (Some e)
  then obtain b where "writes sha256 ps (cached_tx c) (taproot_encode_signing_data_to sha256 i pv annex leaf ty) (Err e) b"
    using taproot_writes_Err [OF Some assms(2)] unfolding ends_def by blast
  then show thesis using that Some assms by (auto elim!: writesD [where w = "[]"])
qed

lemma set_witness_unsigned: "same_unsigned (cached_tx (snd (set_witness_of i w c))) (cached_tx c)"
  by (auto simp: set_witness_of_def same_unsigned_def Let_def nth_list_update intro!: nth_equalityI)

lemma coherent_unsigned:
  assumes "coherent sha256 ps c" "same_unsigned (cached_tx c') (cached_tx c)"
    "common_cached c' = common_cached c" "segwit_cached c' = segwit_cached c" "taproot_cached c' = taproot_cached c"
  shows "coherent sha256 ps c'"
  using assms by (simp add: coherent_def common_of_unsigned segwit_of_unsigned)

lemma answer_call_coherent:
  assumes "coherent sha256 ps c" "call_agrees ps call"
  shows "fst (answer_call sha256 tag call c) = answer_of sha256 tag ps (cached_tx c) call
    \<and> coherent sha256 ps (snd (answer_call sha256 tag call c))
    \<and> same_unsigned (cached_tx (snd (answer_call sha256 tag call c))) (cached_tx c)"
proof -
  have refl: "same_unsigned (cached_tx c) (cached_tx c)" by (simp add: same_unsigned_def)
  show ?thesis
  proof (cases call)
    case (TaprootCall i pv annex leaf ty)
    then have "prevouts_agree ps pv ty" using assms(2) by simp
    with assms(1) obtain c' b where "taproot_encode_signing_data_to sha256 i pv annex leaf ty (c, []) =
      (case taproot_refusal (cached_tx c) i pv ty of
         None \<Rightarrow> (Ok (), c', bip341_message sha256 (cached_tx c) ps i pv annex leaf ty)
       | Some e \<Rightarrow> (Err e, c', b))"
      "coherent sha256 ps c'" "cached_tx c' = cached_tx c" by (rule taproot_outcome)
    then show ?thesis using TaprootCall refl
      by (cases "taproot_refusal (cached_tx c) i pv ty") (simp_all add: taproot_signature_hash_def split_beta)
  next
    case (P2wshCall i script amt ty)
    show ?thesis
      by (rule segwit_outcome [OF assms(1), of i script amt ty])
        (use P2wshCall refl in \<open>cases "i < length (inputs (cached_tx c))"; simp add: p2wsh_signature_hash_def\<close>)
  next
    case (P2wpkhCall i script amt ty)
    show ?thesis
    proof (cases "script_p2wpkh_script_code script")
      case (Some code)
      show ?thesis
        by (rule segwit_outcome [OF assms(1), of i code amt ty])
          (use P2wpkhCall Some refl in \<open>cases "i < length (inputs (cached_tx c))"; simp add: p2wpkh_signature_hash_def\<close>)
    qed (use P2wpkhCall refl assms(1) in \<open>simp add: p2wpkh_signature_hash_def\<close>)
  next
    case (LegacyCall i script ty)
    then show ?thesis using refl assms(1) by (simp add: legacy_signature_hash_def)
  next
    case (WitnessCall i w)
    have "coherent sha256 ps (snd (set_witness_of i w c))"
      by (rule coherent_unsigned [OF assms(1) set_witness_unsigned]) (simp_all add: set_witness_of_def Let_def)
    then show ?thesis using WitnessCall set_witness_unsigned [of i w c] by (simp add: set_witness_of_def Let_def)
  qed
qed

lemma same_unsigned_trans: "same_unsigned a b \<Longrightarrow> same_unsigned b c \<Longrightarrow> same_unsigned a c"
  by (simp add: same_unsigned_def)

lemma answer_calls_coherent:
  assumes "coherent sha256 ps c" "list_all (call_agrees ps) calls"
  shows "fst (answer_calls sha256 tag calls c) = map (answer_of sha256 tag ps (cached_tx c)) calls"
  using assms
proof (induction calls arbitrary: c)
  case (Cons call calls)
  let ?c = "snd (answer_call sha256 tag call c)"
  have call: "fst (answer_call sha256 tag call c) = answer_of sha256 tag ps (cached_tx c) call"
    "coherent sha256 ps ?c" "same_unsigned (cached_tx ?c) (cached_tx c)"
    using answer_call_coherent [of sha256 ps c call tag] Cons.prems by simp_all
  have "fst (answer_calls sha256 tag calls ?c) = map (answer_of sha256 tag ps (cached_tx ?c)) calls"
    by (rule Cons.IH) (use call(2) Cons.prems in simp_all)
  also have "\<dots> = map (answer_of sha256 tag ps (cached_tx c)) calls" using answer_of_unsigned [OF call(3)] by simp
  finally show ?case using call(1) by (simp add: split_beta)
qed simp

subsection \<open>Which previous outputs the cache holds\<close>

text \<open>
  The hashes of the previous outputs are kept from the first call that uses all of them, that is, one whose type has not bit 7 and which gives as many
  as there are inputs; the cache does not look at those that later calls give.
\<close>

definition held_after :: "transaction \<Rightarrow> tx_out list option \<Rightarrow> sighash_call \<Rightarrow> tx_out list option" where
  "held_after tx held call =
     (case held of Some ps \<Rightarrow> Some ps
      | None \<Rightarrow> (case call of
          TaprootCall _ (AllPrevouts qs) _ _ ty \<Rightarrow>
            if \<not> bit (tap_to_u8 ty) 7 \<and> length qs = length (inputs tx) then Some qs else None
        | _ \<Rightarrow> None))"

definition held_list :: "tx_out list option \<Rightarrow> tx_out list" where
  "held_list held = (case held of Some ps \<Rightarrow> ps | None \<Rightarrow> [])"

fun answers_held ::
  "(bytes \<Rightarrow> bytes) \<Rightarrow> (bytes \<Rightarrow> bytes) \<Rightarrow> transaction \<Rightarrow> tx_out list option \<Rightarrow> sighash_call list \<Rightarrow> sighash_answer list" where
  "answers_held sha256 tag tx held [] = []"
| "answers_held sha256 tag tx held (call # calls) =
     answer_of sha256 tag (held_list (held_after tx held call)) tx call
       # answers_held sha256 tag tx (held_after tx held call) calls"

definition holds :: "(bytes \<Rightarrow> bytes) \<Rightarrow> tx_out list option \<Rightarrow> sighash_cache \<Rightarrow> bool" where
  "holds sha256 held c \<longleftrightarrow> coherent sha256 (held_list held) c
     \<and> taproot_cached c = map_option (taproot_of sha256) held
     \<and> (\<forall>ps. held = Some ps \<longrightarrow> length ps = length (inputs (cached_tx c)))"

text \<open>Steps that leave the hashes of the previous outputs alone, that keep them when they are there, and that fill them in.\<close>

definition leaves_taproot :: "'e signing \<Rightarrow> bool" where
  "leaves_taproot m \<longleftrightarrow> (\<forall>s. taproot_cached (fst (snd (m s))) = taproot_cached (fst s))"

definition keeps_taproot :: "'e signing \<Rightarrow> bool" where
  "keeps_taproot m \<longleftrightarrow> (\<forall>s. taproot_cached (fst s) \<noteq> None \<longrightarrow> taproot_cached (fst (snd (m s))) \<noteq> None)"

definition fills_taproot :: "'e signing \<Rightarrow> bool" where
  "fills_taproot m \<longleftrightarrow> (\<forall>s. taproot_cached (fst (snd (m s))) \<noteq> None)"

definition passes :: "'e signing \<Rightarrow> bool" where
  "passes m \<longleftrightarrow> (\<forall>s. \<exists>s'. m s = (Ok (), s'))"

named_theorems taproot_steps

lemma leaves_basic [taproot_steps]:
  "leaves_taproot (write_all b)" "leaves_taproot (write_res r)" "leaves_taproot (write_common sha256 f)"
  "leaves_taproot (write_segwit sha256 g)" "leaves_taproot (write_taproot sha256 (OnePrevout j p) k)" "leaves_taproot (run_steps [])"
  by (auto simp: leaves_taproot_def write_all_def write_res_def write_common_def write_segwit_def write_taproot_def
      segwit_cache_get_def common_cache_get_def Let_def split: res.splits option.splits prod.splits)

lemma leaves_run [taproot_steps]: "leaves_taproot m \<Longrightarrow> leaves_taproot (run_steps ms) \<Longrightarrow> leaves_taproot (run_steps (m # ms))"
  unfolding leaves_taproot_def by (auto split: prod.splits res.splits) (metis fst_conv snd_conv)+

lemma leaves_when [taproot_steps]: "(b \<Longrightarrow> leaves_taproot (run_steps ms)) \<Longrightarrow> leaves_taproot (when_do b ms)"
  by (simp add: when_do_def leaves_basic)

lemma leaves_if [taproot_steps]: "leaves_taproot m \<Longrightarrow> leaves_taproot n \<Longrightarrow> leaves_taproot (if b then m else n)"
  by simp

lemma leaves_option [taproot_steps]:
  "(\<And>a. leaves_taproot (f a)) \<Longrightarrow> leaves_taproot n \<Longrightarrow> leaves_taproot (case x of Some a \<Rightarrow> f a | None \<Rightarrow> n)"
  by (simp split: option.splits)

lemma leaves_pair [taproot_steps]: "(\<And>a b. leaves_taproot (f a b)) \<Longrightarrow> leaves_taproot (case x of (a, b) \<Rightarrow> f a b)"
  by (simp split: prod.splits)

lemma keeps_leaves: "leaves_taproot m \<Longrightarrow> keeps_taproot m"
  by (simp add: leaves_taproot_def keeps_taproot_def)

lemma keeps_taproot_write: "keeps_taproot (write_taproot sha256 pv f)"
  by (cases pv) (auto simp: keeps_taproot_def write_taproot_def taproot_cache_get_def Let_def split: option.splits)

lemma keeps_run: "keeps_taproot m \<Longrightarrow> keeps_taproot (run_steps ms) \<Longrightarrow> keeps_taproot (run_steps (m # ms))"
  unfolding keeps_taproot_def by (auto split: prod.splits res.splits) (metis fst_conv snd_conv)+

lemma fills_write: "fills_taproot (write_taproot sha256 (AllPrevouts qs) f)"
  by (auto simp: fills_taproot_def write_taproot_def taproot_cache_get_def Let_def split: option.splits)

lemma fills_later: "passes m \<Longrightarrow> fills_taproot (run_steps ms) \<Longrightarrow> fills_taproot (run_steps (m # ms))"
  unfolding fills_taproot_def passes_def by (auto split: prod.splits res.splits) (metis fst_conv snd_conv res.distinct res.inject prod.inject)+

lemma fills_here: "fills_taproot m \<Longrightarrow> keeps_taproot (run_steps ms) \<Longrightarrow> fills_taproot (run_steps (m # ms))"
  unfolding fills_taproot_def keeps_taproot_def by (auto split: prod.splits res.splits) (metis fst_conv snd_conv)+

lemma passes_basic: "passes (write_all b)" "passes (write_common sha256 f)" "r = Ok b \<Longrightarrow> passes (write_res r)"
  by (auto simp: passes_def write_all_def write_common_def write_res_def Let_def split: prod.splits)

text \<open>The steps of the Taproot message.\<close>

definition taproot_step_list where
  "taproot_step_list sha256 tx i pv annex leaf ty base acp =
      [write_res (res_bind (check_all pv tx) (\<lambda>_. Ok [])), write_all [0], write_all [tap_to_u8 ty], write_all (to_le_bytes (version tx)),
       write_all (to_le_bytes (lock_time_to_consensus (lock_time_of tx))),
       when_do (\<not> acp) [write_common sha256 cc_prevouts, write_taproot sha256 pv tc_amounts, write_taproot sha256 pv tc_script_pubkeys,
          write_common sha256 cc_sequences],
       when_do (base \<noteq> TapNone \<and> base \<noteq> TapSingle) [write_common sha256 cc_outputs],
       write_all [(if annex \<noteq> None then 1 else 0) OR (if leaf \<noteq> None then 2 else 0)],
       (if acp then write_res (spent_output_bytes tx i pv) else write_all (to_le_bytes (word_of_nat i :: u32))),
       (case annex of Some a \<Rightarrow> write_all (sha256 (compact_size_new (length a) @ a)) | None \<Rightarrow> run_steps []),
       when_do (base = TapSingle) [write_res (single_output_hash sha256 tx i)],
       (case leaf of Some (hash, pos) \<Rightarrow> run_steps [write_all hash, write_all [KEY_VERSION_0], write_all (to_le_bytes pos)]
        | None \<Rightarrow> run_steps [])]"

lemma taproot_encode_steps:
  "split_tap ty = (base, acp) \<Longrightarrow> taproot_encode_signing_data_to sha256 i pv annex leaf ty (c, w)
     = run_steps (taproot_step_list sha256 (cached_tx c) i pv annex leaf ty base acp) (c, w)"
  by (simp only: taproot_encode_signing_data_to_def taproot_step_list_def Let_def prod.case)

lemma leaves_segwit_encode:
  "leaves_taproot (segwit_v0_encode_signing_data_to sha256 i script amt ty)"
proof -
  obtain base acp where split: "split_ecdsa ty = (base, acp)" by fastforce
  have "leaves_taproot (run_steps
      [write_all (to_le_bytes (version tx)),
       (if \<not> acp then write_segwit sha256 sc_prevouts else write_all ZERO_HASH),
       (if \<not> acp \<and> base \<noteq> EcdsaSingle \<and> base \<noteq> EcdsaNone then write_segwit sha256 sc_sequences else write_all ZERO_HASH),
       write_res (segwit_input_bytes tx i script amt),
       (if base \<noteq> EcdsaSingle \<and> base \<noteq> EcdsaNone then write_segwit sha256 sc_outputs
        else if base = EcdsaSingle \<and> i < length (outputs tx)
        then write_all (sha256d sha256 (tx_out_bytes (outputs tx ! i)))
        else write_all ZERO_HASH),
       write_all (to_le_bytes (lock_time_to_consensus (lock_time_of tx))),
       write_all (to_le_bytes (ecdsa_to_u32 ty))])" for tx
    by (intro taproot_steps)
  then show ?thesis unfolding leaves_taproot_def segwit_v0_encode_signing_data_to_def split Let_def by simp
qed

lemma leaves_taproot_encode:
  assumes "bit (tap_to_u8 ty) 7 \<or> (\<exists>j p. pv = OnePrevout j p)"
  shows "leaves_taproot (taproot_encode_signing_data_to sha256 i pv annex leaf ty)"
proof -
  obtain base acp where split: "split_tap ty = (base, acp)" by fastforce
  have own: "\<not> acp \<Longrightarrow> leaves_taproot (write_taproot sha256 pv f)" for f
    using assms by (auto simp: tap_type_bits [OF split] intro: taproot_steps)
  have "leaves_taproot (run_steps (taproot_step_list sha256 tx i pv annex leaf ty base acp))" for tx
    unfolding taproot_step_list_def by (intro taproot_steps own)
  then show ?thesis unfolding leaves_taproot_def by (simp add: split_paired_all taproot_encode_steps [OF split])
qed

lemma fills_taproot_encode:
  assumes "\<not> bit (tap_to_u8 ty) 7" "length qs = length (inputs (cached_tx c))"
  shows "taproot_cached (fst (snd (taproot_encode_signing_data_to sha256 i (AllPrevouts qs) annex leaf ty (c, w)))) \<noteq> None"
proof -
  obtain base acp where split: "split_tap ty = (base, acp)" by fastforce
  then have acp: "\<not> acp" using assms(1) by (simp add: tap_type_bits)
  let ?tx = "cached_tx c"
  have check: "res_bind (check_all (AllPrevouts qs) ?tx) (\<lambda>_. Ok []) = Ok []" using assms(2) by simp
  have shared: "fills_taproot (when_do (\<not> acp) [write_common sha256 cc_prevouts, write_taproot sha256 (AllPrevouts qs) tc_amounts,
      write_taproot sha256 (AllPrevouts qs) tc_script_pubkeys, write_common sha256 cc_sequences])"
    unfolding when_do_def if_P [OF acp]
    by (intro fills_later [OF passes_basic(2)] fills_here [OF fills_write] keeps_run keeps_taproot_write keeps_leaves [OF leaves_basic(3)]
        keeps_leaves [OF leaves_basic(6)])
  have "fills_taproot (run_steps (taproot_step_list sha256 ?tx i (AllPrevouts qs) annex leaf ty base acp))"
    unfolding taproot_step_list_def
    by (intro fills_later [OF passes_basic(3) [OF check]] fills_later [OF passes_basic(1)] fills_here [OF shared] keeps_leaves taproot_steps)
  then show ?thesis unfolding fills_taproot_def taproot_encode_steps [OF split] by blast
qed

text \<open>With the hashes in the cache, the previous outputs that are given are not looked at.\<close>

definition same_steps :: "'e signing \<Rightarrow> 'e signing \<Rightarrow> bool" where
  "same_steps m m' \<longleftrightarrow> keeps_taproot m \<and> (\<forall>s. taproot_cached (fst s) \<noteq> None \<longrightarrow> m s = m' s)"

lemma same_refl: "leaves_taproot m \<Longrightarrow> same_steps m m"
  by (simp add: same_steps_def keeps_leaves)

lemma same_write: "same_steps (write_taproot sha256 (AllPrevouts qs) f) (write_taproot sha256 (AllPrevouts ps) f)"
  by (auto simp: same_steps_def keeps_taproot_write) (auto simp: write_taproot_def taproot_cache_get_def)

lemma same_run:
  assumes "same_steps m m'" "same_steps (run_steps ms) (run_steps ms')"
  shows "same_steps (run_steps (m # ms)) (run_steps (m' # ms'))"
proof -
  have "run_steps (m # ms) s = run_steps (m' # ms') s" if "taproot_cached (fst s) \<noteq> None" for s
  proof -
    have "m s = m' s" "taproot_cached (fst (snd (m s))) \<noteq> None"
      using assms(1) that unfolding same_steps_def keeps_taproot_def by blast+
    then show ?thesis using assms(2) by (auto simp: same_steps_def split: prod.splits res.splits)
  qed
  then show ?thesis using assms by (simp add: same_steps_def keeps_run)
qed

lemma same_when: "same_steps (run_steps ms) (run_steps ms') \<Longrightarrow> same_steps (when_do b ms) (when_do b ms')"
  by (cases b) (simp_all add: when_do_def same_refl leaves_basic)

lemma stale_taproot_encode:
  assumes "\<not> bit (tap_to_u8 ty) 7" "length qs = length (inputs (cached_tx c))" "length ps = length (inputs (cached_tx c))"
    and "taproot_cached c \<noteq> None"
  shows "taproot_encode_signing_data_to sha256 i (AllPrevouts qs) annex leaf ty (c, w)
    = taproot_encode_signing_data_to sha256 i (AllPrevouts ps) annex leaf ty (c, w)"
proof -
  obtain base acp where split: "split_tap ty = (base, acp)" by fastforce
  then have acp: "\<not> acp" using assms(1) by (simp add: tap_type_bits)
  let ?tx = "cached_tx c"
  let ?run = "\<lambda>pv. run_steps (taproot_step_list sha256 ?tx i pv annex leaf ty base acp)"
  have check: "check_all (AllPrevouts qs) ?tx = check_all (AllPrevouts ps) ?tx" using assms(2,3) by simp
  have "same_steps (?run (AllPrevouts qs)) (?run (AllPrevouts ps))"
    unfolding taproot_step_list_def check if_not_P [OF acp] by (intro same_run same_when same_write same_refl taproot_steps)
  then have "?run (AllPrevouts qs) (c, w) = ?run (AllPrevouts ps) (c, w)" using assms(4) by (simp only: same_steps_def fst_conv simp_thms)
  then show ?thesis unfolding taproot_encode_steps [OF split] .
qed

lemma leaves_other_calls:
  "taproot_cached (snd (answer_call sha256 tag (P2wshCall i script amt ty) c)) = taproot_cached c"
  "taproot_cached (snd (answer_call sha256 tag (P2wpkhCall i script amt ty) c)) = taproot_cached c"
  "taproot_cached (snd (answer_call sha256 tag (LegacyCall i script n) c)) = taproot_cached c"
  "taproot_cached (snd (answer_call sha256 tag (WitnessCall i w) c)) = taproot_cached c"
proof -
  have segwit: "taproot_cached (fst (snd (segwit_v0_encode_signing_data_to sha256 i script amt ty (c, [])))) = taproot_cached c"
    for script using leaves_segwit_encode [of sha256 i script amt ty] by (simp add: leaves_taproot_def)
  show "taproot_cached (snd (answer_call sha256 tag (P2wshCall i script amt ty) c)) = taproot_cached c"
    "taproot_cached (snd (answer_call sha256 tag (P2wpkhCall i script amt ty) c)) = taproot_cached c"
    by (simp_all add: p2wsh_signature_hash_def p2wpkh_signature_hash_def segwit split_beta split: option.split)
qed (simp_all add: set_witness_of_def Let_def)

lemma taproot_cache_after:
  "taproot_cached (snd (taproot_signature_hash sha256 tag i pv annex leaf ty c))
    = taproot_cached (fst (snd (taproot_encode_signing_data_to sha256 i pv annex leaf ty (c, []))))"
  by (simp add: taproot_signature_hash_def split: prod.splits)

lemma taproot_bad_length:
  assumes "length qs \<noteq> length (inputs (cached_tx c))"
  shows "taproot_signature_hash sha256 tag i (AllPrevouts qs) annex leaf ty c = (Err PrevoutsSize, c)"
  using assms
  by (cases "split_tap ty") (simp add: taproot_signature_hash_def taproot_encode_signing_data_to_def write_res_def)

text \<open>One call: a call that agrees with what the cache holds, one that fills the cache, or one that is answered for what the cache holds.\<close>

lemma answer_call_agreeing:
  assumes "holds sha256 held c" "call_agrees (held_list (held_after (cached_tx c) held call)) call"
    "coherent sha256 (held_list (held_after (cached_tx c) held call)) c"
  shows "fst (answer_call sha256 tag call c) = answer_of sha256 tag (held_list (held_after (cached_tx c) held call)) (cached_tx c) call
    \<and> holds sha256 (held_after (cached_tx c) held call) (snd (answer_call sha256 tag call c))
    \<and> same_unsigned (cached_tx (snd (answer_call sha256 tag call c))) (cached_tx c)"
proof -
  let ?held = "held_after (cached_tx c) held call" and ?c = "snd (answer_call sha256 tag call c)"
  note call = answer_call_coherent [OF assms(3,2), of tag]
  have cached: "taproot_cached ?c \<in> {None, Some (taproot_of sha256 (held_list ?held))}" using call by (simp add: coherent_def)
  have "taproot_cached ?c = None \<longleftrightarrow> ?held = None"
  proof (cases "\<exists>i pv annex leaf ty. call = TaprootCall i pv annex leaf ty")
    case False
    then have "taproot_cached ?c = taproot_cached c" by (cases call) (simp_all only: leaves_other_calls, blast)
    moreover have "?held = held" using False by (cases call) (simp_all add: held_after_def split: option.splits)
    ultimately show ?thesis using assms(1) by (simp add: holds_def)
  next
    case True
    then obtain i pv annex leaf ty where tap: "call = TaprootCall i pv annex leaf ty" by blast
    have c': "taproot_cached ?c = taproot_cached (fst (snd (taproot_encode_signing_data_to sha256 i pv annex leaf ty (c, []))))"
      by (simp add: tap taproot_cache_after)
    show ?thesis
    proof (cases "bit (tap_to_u8 ty) 7 \<or> (\<exists>j p. pv = OnePrevout j p)")
      case True
      then have "?held = held" by (auto simp: tap held_after_def split: option.splits prevouts.splits)
      moreover have "taproot_cached ?c = taproot_cached c"
        using leaves_taproot_encode [OF True, of sha256 i annex leaf] unfolding c' by (simp add: leaves_taproot_def)
      ultimately      show ?thesis using assms(1) by (simp add: holds_def)
    next
      case False
      then obtain qs where pv: "pv = AllPrevouts qs" by (cases pv) auto
      show ?thesis
      proof (cases "length qs = length (inputs (cached_tx c))")
        case True
        then have "?held \<noteq> None" using False by (auto simp: held_after_def tap pv split: option.splits)
        then show ?thesis using fills_taproot_encode [of ty qs c sha256 i annex leaf "[]"] False True unfolding c' pv by blast
      next
        case bad: False
        then have "?held = held" by (auto simp: held_after_def tap pv split: option.splits)
        then show ?thesis using assms(1) taproot_bad_length [OF bad] by (simp add: tap pv holds_def)
      qed
    qed
  qed
  then have "taproot_cached ?c = map_option (taproot_of sha256) ?held" using cached by (cases ?held) (auto simp: held_list_def)
  moreover have "\<forall>ps. ?held = Some ps \<longrightarrow> length ps = length (inputs (cached_tx ?c))"
    using assms(1) same_unsignedD(4) [OF call [THEN conjunct2, THEN conjunct2]]
    by (auto simp: held_after_def holds_def split: option.splits sighash_call.splits prevouts.splits if_splits)
  ultimately show ?thesis using call by (simp add: holds_def)
qed

lemma answer_call_holds:
  assumes "holds sha256 held c"
  shows "fst (answer_call sha256 tag call c) = answer_of sha256 tag (held_list (held_after (cached_tx c) held call)) (cached_tx c) call
    \<and> holds sha256 (held_after (cached_tx c) held call) (snd (answer_call sha256 tag call c))
    \<and> same_unsigned (cached_tx (snd (answer_call sha256 tag call c))) (cached_tx c)"
proof -
  let ?held = "held_after (cached_tx c) held call"
  have coherent: "coherent sha256 (held_list ?held) c"
  proof (cases held)
    case (Some ps)
    then have "?held = Some ps" by (simp add: held_after_def)
    then show ?thesis using assms Some by (simp add: holds_def held_list_def)
  qed (use assms in \<open>auto simp: holds_def coherent_def\<close>)
  show ?thesis
  proof (cases "call_agrees (held_list ?held) call")
    case True
    then show ?thesis by (rule answer_call_agreeing [OF assms _ coherent])
  next
    case False
    then obtain i pv annex leaf ty where tap: "call = TaprootCall i pv annex leaf ty" by (cases call) simp_all
    obtain qs where qs: "pv = AllPrevouts qs" "\<not> bit (tap_to_u8 ty) 7" "qs \<noteq> held_list ?held"
      using False by (auto simp: tap prevouts_agree_def)
    show ?thesis
    proof (cases "length qs = length (inputs (cached_tx c))")
      case bad: False
      have "?held = held" using bad by (auto simp: held_after_def tap qs(1) split: option.splits)
      moreover have "taproot_refusal (cached_tx c) i pv ty = Some PrevoutsSize" using bad by (simp add: taproot_refusal_def qs(1) Let_def)
      ultimately show ?thesis
        using assms taproot_bad_length [OF bad, of sha256 tag i annex leaf ty] by (simp add: tap qs(1) same_unsigned_def)
    next
      case True
      then obtain ps where held: "held = Some ps" using qs(2,3) by (cases held) (simp_all add: held_after_def held_list_def tap qs(1))
      have ps: "length ps = length (inputs (cached_tx c))" "taproot_cached c \<noteq> None" using assms held by (simp_all add: holds_def)
      let ?call = "TaprootCall i (AllPrevouts ps) annex leaf ty"
      have same: "answer_call sha256 tag call c = answer_call sha256 tag ?call c"
        using stale_taproot_encode [OF qs(2) True ps] by (simp add: tap qs(1) taproot_signature_hash_def)
      have heldc: "?held = Some ps" "held_after (cached_tx c) held ?call = Some ps" by (simp_all add: held_after_def held)
      have "answer_of sha256 tag ps (cached_tx c) call = answer_of sha256 tag ps (cached_tx c) ?call"
        using qs(2) True ps(1) by (simp add: tap qs(1) taproot_refusal_def bip341_message_def Let_def)
      then show ?thesis
        using answer_call_agreeing [OF assms, of ?call tag] coherent unfolding same heldc
        by (simp add: held_list_def prevouts_agree_def)
    qed
  qed
qed

lemma answers_held_unsigned: "same_unsigned tx tx' \<Longrightarrow> answers_held sha256 tag tx held calls = answers_held sha256 tag tx' held calls"
  by (induction calls arbitrary: held) (auto simp: answer_of_unsigned held_after_def same_unsignedD(4) split: option.splits sighash_call.splits
      prevouts.splits)

lemma answer_calls_holds:
  "holds sha256 held c \<Longrightarrow> fst (answer_calls sha256 tag calls c) = answers_held sha256 tag (cached_tx c) held calls"
proof (induction calls arbitrary: held c)
  case (Cons call calls)
  note call = answer_call_holds [OF Cons.prems, of tag call]
  then show ?case
    using Cons.IH [of "held_after (cached_tx c) held call" "snd (answer_call sha256 tag call c)"] answers_held_unsigned
    by (simp add: split_beta)
qed simp

text \<open>
  Property C4. The answers of a cache, in any sequence of calls for signature hashes of any kind and changes of witnesses: each is the
  hash of the message of BIP 143 or BIP 341 of the transaction, the legacy hash or the refusal of the arguments, computed without a
  cache, but for one thing: a Taproot call that signs all previous outputs is answered for those of the
  first call of this kind that gave one for each input. So if such calls all give the same previous outputs \<open>ps\<close>, the cache
  cannot be seen: each answer is the one that a new cache gives.
\<close>

theorem sighash_cache_transparent:
  "fst (answer_calls sha256 tag calls (sighash_cache_new tx)) = answers_held sha256 tag tx None calls
   \<and> (list_all (call_agrees ps) calls \<longrightarrow>
        fst (answer_calls sha256 tag calls (sighash_cache_new tx))
          = map (\<lambda>call. fst (answer_call sha256 tag call (sighash_cache_new tx))) calls
        \<and> fst (answer_calls sha256 tag calls (sighash_cache_new tx)) = map (answer_of sha256 tag ps tx) calls)"
proof (intro conjI impI)
  have "holds sha256 None (sighash_cache_new tx)" by (simp add: holds_def held_list_def) (simp add: sighash_cache_new_def)
  then show "fst (answer_calls sha256 tag calls (sighash_cache_new tx)) = answers_held sha256 tag tx None calls"
    using answer_calls_holds [of sha256 None "sighash_cache_new tx"] by simp
  assume agree: "list_all (call_agrees ps) calls"
  then show answers: "fst (answer_calls sha256 tag calls (sighash_cache_new tx)) = map (answer_of sha256 tag ps tx) calls"
    using answer_calls_coherent [of sha256 ps "sighash_cache_new tx" calls tag] by simp
  have "map (answer_of sha256 tag ps tx) calls = map (\<lambda>call. fst (answer_call sha256 tag call (sighash_cache_new tx))) calls"
    using answer_call_coherent [of sha256 ps "sighash_cache_new tx"] agree by (auto simp: list_all_iff)
  then show "fst (answer_calls sha256 tag calls (sighash_cache_new tx))
      = map (\<lambda>call. fst (answer_call sha256 tag call (sighash_cache_new tx))) calls"
    using answers by simp
qed

theorem sighash_cache_transparent_witness:
  "fst (answer_calls id id [LegacyCall 0 [] 1, TaprootCall 0 (AllPrevouts []) None None TapAll] (sighash_cache_new example_tx))
    = map (\<lambda>call. fst (answer_call id id call (sighash_cache_new example_tx)))
        [LegacyCall 0 [] 1, TaprootCall 0 (AllPrevouts []) None None TapAll]"
  by (rule sighash_cache_transparent [where ps = "[]", THEN conjunct2, THEN mp, THEN conjunct1]) (simp add: prevouts_agree_def)

text \<open>
  The condition on the previous outputs is needed: the cache keeps the hashes of those that the first call gave, so that a later
  call with others signs for the first, as here with the hash function that keeps its argument.
\<close>

definition stale_call :: "u64 \<Rightarrow> sighash_call" where
  "stale_call amt = TaprootCall 0 (AllPrevouts [\<lparr>amount = amt, script_pubkey = []\<rparr>]) None None TapAll"

theorem taproot_cache_stale:
  "fst (answer_calls id id [stale_call 1, stale_call 2] (sighash_cache_new example_tx))
     = [fst (answer_call id id (stale_call 1) (sighash_cache_new example_tx)), fst (answer_call id id (stale_call 1) (sighash_cache_new example_tx))]
   \<and> fst (answer_call id id (stale_call 1) (sighash_cache_new example_tx)) \<noteq> fst (answer_call id id (stale_call 2) (sighash_cache_new example_tx))"
proof -
  have "to_le_bytes (1 :: u64) \<noteq> to_le_bytes (2 :: u64)"
    by (rule notI, drule arg_cong [of _ _ "from_le_bytes :: bytes \<Rightarrow> u64"]) simp
  then show ?thesis
    by (simp add: stale_call_def taproot_signature_hash_def taproot_encode_signing_data_to_def sighash_cache_new_def write_res_def
        write_all_def write_common_def write_taproot_def when_do_def common_cache_get_def taproot_cache_get_def Let_def example_tx_def)
qed

end
