(* ===== verification/Sighash_Commit.thy ===== *)
theory Sighash_Commit
  imports Sighash_Messages
begin

section \<open>What signatures commit to\<close>

text \<open>
  The legacy message is the encoding of a changed transaction, as the consensus rules state it, and signature hashes that are
  equal come from transactions that agree in what the type of the signature covers, or the hash function has a collision.
\<close>

subsection \<open>Prefix codes\<close>

definition prefix_code :: "('a \<Rightarrow> bool) \<Rightarrow> ('a \<Rightarrow> bytes) \<Rightarrow> bool" where
  "prefix_code ok f \<longleftrightarrow> (\<forall>x y r s. ok x \<longrightarrow> ok y \<longrightarrow> f x @ r = f y @ s \<longrightarrow> x = y \<and> r = s)"

lemma prefix_codeD: "prefix_code ok f \<Longrightarrow> f x @ r = f y @ s \<Longrightarrow> ok x \<Longrightarrow> ok y \<Longrightarrow> x = y \<and> r = s"
  unfolding prefix_code_def by blast

lemma prefix_codeI: "(\<And>x y r s. ok x \<Longrightarrow> ok y \<Longrightarrow> f x @ r = f y @ s \<Longrightarrow> x = y \<and> r = s) \<Longrightarrow> prefix_code ok f"
  unfolding prefix_code_def by blast

lemma prefix_code_u32: "prefix_code (\<lambda>_. True) (to_le_bytes :: u32 \<Rightarrow> bytes)"
proof (rule prefix_codeI)
  fix x y :: u32 and r s
  assume "to_le_bytes x @ r = to_le_bytes y @ s"
  then have "to_le_bytes x = to_le_bytes y \<and> r = s" by simp
  moreover from this have "(from_le_bytes (to_le_bytes x) :: u32) = from_le_bytes (to_le_bytes y)" by (simp only:)
  ultimately show "x = y \<and> r = s" unfolding from_to_le_u32 by blast
qed

lemma prefix_code_u64: "prefix_code (\<lambda>_. True) (to_le_bytes :: u64 \<Rightarrow> bytes)"
proof (rule prefix_codeI)
  fix x y :: u64 and r s
  assume "to_le_bytes x @ r = to_le_bytes y @ s"
  then have "to_le_bytes x = to_le_bytes y \<and> r = s" by simp
  moreover from this have "(from_le_bytes (to_le_bytes x) :: u64) = from_le_bytes (to_le_bytes y)" by (simp only:)
  ultimately show "x = y \<and> r = s" unfolding from_to_le_u64 by blast
qed

lemma compact_size_new_inj:
  assumes "compact_size_new m @ r = compact_size_new n @ s" "m < 2 ^ 64" "n < 2 ^ 64"
  shows "m = n \<and> r = s"
proof -
  have "(word_of_nat m :: u64) = word_of_nat n \<and> r = s"
    using assms(1) unfolding compact_size_new_def by (rule compact_size_encode_inj)
  moreover have "unat (word_of_nat k :: u64) = k" if "k < 2 ^ 64" for k using that by (simp add: unsigned_of_nat take_bit_nat_eq_self)
  ultimately show ?thesis using assms(2,3) by metis
qed

text \<open>Lengths that a 64-bit machine can have.\<close>

definition short_script :: "bytes \<Rightarrow> bool" where "short_script s \<longleftrightarrow> length s < 2 ^ 64"

lemma prefix_code_script: "prefix_code short_script script_bytes"
proof (rule prefix_codeI)
  fix x y r s
  assume ok: "short_script x" "short_script y" and eq: "script_bytes x @ r = script_bytes y @ s"
  then have "compact_size_new (length x) @ (x @ r) = compact_size_new (length y) @ (y @ s)" by (simp add: script_bytes_def)
  then have "length x = length y \<and> x @ r = y @ s"
    by (rule compact_size_new_inj) (use ok in \<open>simp_all add: short_script_def\<close>)
  then show "x = y \<and> r = s" by auto
qed

lemma prefix_code_out_point: "prefix_code out_point_ok out_point_bytes"
proof (rule prefix_codeI)
  fix x y r s
  assume "out_point_ok x" "out_point_ok y" "out_point_bytes x @ r = out_point_bytes y @ s"
  then have split: "txid x = txid y" "to_le_bytes (vout x) @ r = to_le_bytes (vout y) @ s"
    by (simp_all add: out_point_bytes_def out_point_ok_def)
  have "vout x = vout y \<and> r = s" by (rule prefix_codeD [OF prefix_code_u32 split(2)]) simp_all
  then show "x = y \<and> r = s" using split(1) by (cases x; cases y) simp
qed

definition short_out :: "tx_out \<Rightarrow> bool" where "short_out out \<longleftrightarrow> short_script (script_pubkey out)"

lemma prefix_code_tx_out: "prefix_code short_out tx_out_bytes"
proof (rule prefix_codeI)
  fix x y r s
  assume ok: "short_out x" "short_out y" and eq: "tx_out_bytes x @ r = tx_out_bytes y @ s"
  then have "to_le_bytes (amount x) @ (script_bytes (script_pubkey x) @ r) = to_le_bytes (amount y) @ (script_bytes (script_pubkey y) @ s)"
    by (simp add: tx_out_bytes_def)
  then have amt: "amount x = amount y \<and> script_bytes (script_pubkey x) @ r = script_bytes (script_pubkey y) @ s"
    by (rule prefix_codeD [OF prefix_code_u64]) simp_all
  have "script_pubkey x = script_pubkey y \<and> r = s"
    by (rule prefix_codeD [OF prefix_code_script amt [THEN conjunct2]]) (use ok in \<open>simp_all add: short_out_def\<close>)
  then show "x = y \<and> r = s" using amt by (cases x; cases y) simp
qed

lemma prefix_code_concat:
  assumes "prefix_code ok f" "\<And>x. f x \<noteq> []" "list_all ok xs" "list_all ok ys"
    and "concat (map f xs) = concat (map f ys)"
  shows "xs = ys"
  using assms(3-5)
proof (induction xs arbitrary: ys)
  case Nil
  then show ?case using assms(2) by (cases ys) auto
next
  case (Cons x xs)
  have "ys \<noteq> []" using Cons.prems(3) assms(2) [of x] by auto
  then obtain y ys' where ys: "ys = y # ys'" by (cases ys) simp_all
  have "f x @ concat (map f xs) = f y @ concat (map f ys')" using Cons.prems(3) ys by simp
  then have step: "x = y \<and> concat (map f xs) = concat (map f ys')"
    by (rule prefix_codeD [OF assms(1)]) (use Cons.prems ys in simp_all)
  then have "xs = ys'" using Cons.IH [of ys'] Cons.prems ys by simp
  then show ?case using step ys by simp
qed

lemma prefix_code_same_length:
  assumes "prefix_code ok f" "length xs = length ys" "list_all ok xs" "list_all ok ys"
    and "concat (map f xs) @ r = concat (map f ys) @ s"
  shows "xs = ys \<and> r = s"
  using assms(2-5)
proof (induction xs ys rule: list_induct2)
  case (Cons x xs y ys)
  have "f x @ (concat (map f xs) @ r) = f y @ (concat (map f ys) @ s)" using Cons.prems(3) by simp
  then have step: "x = y \<and> concat (map f xs) @ r = concat (map f ys) @ s"
    by (rule prefix_codeD [OF assms(1)]) (use Cons.prems in simp_all)
  then have "xs = ys \<and> r = s" using Cons.IH Cons.prems by simp
  then show ?case using step by simp
qed simp

lemma prefix_code_vec: "prefix_code ok f \<Longrightarrow> prefix_code (\<lambda>xs. list_all ok xs \<and> length xs < 2 ^ 64) (vec_bytes f)"
proof (rule prefix_codeI)
  fix x y r s
  assume f: "prefix_code ok f" and ok: "list_all ok x \<and> length x < 2 ^ 64" "list_all ok y \<and> length y < 2 ^ 64"
    and eq: "vec_bytes f x @ r = vec_bytes f y @ s"
  then have "compact_size_new (length x) @ (concat (map f x) @ r) = compact_size_new (length y) @ (concat (map f y) @ s)"
    by (simp add: vec_bytes_def)
  then have "length x = length y \<and> concat (map f x) @ r = concat (map f y) @ s"
    by (rule compact_size_new_inj) (use ok in simp_all)
  then show "x = y \<and> r = s" using prefix_code_same_length [OF f] ok by blast
qed

lemma le_nonempty: "to_le_bytes (w :: u32) \<noteq> []" "to_le_bytes (v :: u64) \<noteq> []"
  using length_to_le_bytes [of w] length_to_le_bytes [of v] by (auto simp del: length_to_le_bytes)

lemma code_nonempty [simp]: "out_point_bytes p \<noteq> []" "tx_out_bytes out \<noteq> []" "to_le_bytes (w :: u32) \<noteq> []"
  "to_le_bytes (v :: u64) \<noteq> []" "script_bytes s \<noteq> []"
  by (simp_all add: out_point_bytes_def tx_out_bytes_def script_bytes_def compact_size_new_def le_nonempty)

subsection \<open>Legacy messages\<close>

text \<open>
  The transaction whose encoding is signed, as the consensus rules state it: the scripts of the inputs are emptied but for the one that
  is signed, which gets the script that it spends, and the five lowest bits and bit 7 of the type say what else is changed.
\<close>

definition null_tx_out :: tx_out where "null_tx_out = \<lparr>amount = - 1, script_pubkey = []\<rparr>"

definition legacy_input :: "nat \<Rightarrow> bytes \<Rightarrow> bool \<Rightarrow> nat \<times> tx_in \<Rightarrow> tx_in" where
  "legacy_input i spk keep = (\<lambda>(n, txin).
     if n = i then txin\<lparr>script_sig := spk\<rparr>
     else txin\<lparr>script_sig := [], sequence_no := if keep then sequence_no txin else 0\<rparr>)"

definition legacy_modified :: "transaction \<Rightarrow> nat \<Rightarrow> bytes \<Rightarrow> u32 \<Rightarrow> transaction" where
  "legacy_modified tx i spk ty =
     (let none = (ty AND 0x1f = 2); single = (ty AND 0x1f = 3);
          ins = map (legacy_input i spk (\<not> none \<and> \<not> single)) (enumerate 0 (inputs tx)) in
      tx\<lparr>inputs := if bit ty 7 then [ins ! i] else ins,
         outputs := if none then [] else if single then replicate i null_tx_out @ [outputs tx ! i] else outputs tx\<rparr>)"

lemma null_tx_out_bytes: "tx_out_bytes null_tx_out = [0xFF, 0xFF, 0xFF, 0xFF, 0xFF, 0xFF, 0xFF, 0xFF, 0x00]"
proof -
  let ?ones = "[0xFF, 0xFF, 0xFF, 0xFF, 0xFF, 0xFF, 0xFF, 0xFF] :: bytes"
  have "from_le_bytes ?ones = (- 1 :: u64)" by (simp add: from_le_bytes_def)
  then have "to_le_bytes (- 1 :: u64) = ?ones" using to_from_le_bytes [of ?ones, where 'a = 64] by simp
  moreover have "compact_size_new 0 = [0]" by (simp add: compact_size_new_def compact_size_encode_def)
  ultimately show ?thesis by (simp add: tx_out_bytes_def null_tx_out_def script_bytes_def)
qed

lemma legacy_input_bytes_eq:
  "base \<in> {EcdsaAll, EcdsaNone, EcdsaSingle} \<Longrightarrow>
     legacy_input_bytes base i spk nt = tx_in_bytes (legacy_input i spk (base = EcdsaAll) nt)"
  by (cases nt; cases base; simp add: legacy_input_bytes_def legacy_input_def tx_in_bytes_def)

lemma legacy_inner:
  assumes "i < length (inputs tx)" "ty AND 0x1f = 3 \<longrightarrow> i < length (outputs tx)"
  shows "encode_signing_data_to_inner tx i spk ty = Ok (legacy_bytes (legacy_modified tx i spk ty) @ to_le_bytes ty)"
proof -
  obtain base acp where split: "split_ecdsa (ecdsa_from_consensus ty) = (base, acp)" by fastforce
  have base: "base = (if ty AND 0x1f = 2 then EcdsaNone else if ty AND 0x1f = 3 then EcdsaSingle else EcdsaAll)" and acp: "acp = bit ty 7"
    using split split_from_consensus [of ty] by simp_all
  have bases: "base \<in> {EcdsaAll, EcdsaNone, EcdsaSingle}" using base by simp
  let ?ins = "map (legacy_input i spk (base = EcdsaAll)) (enumerate 0 (inputs tx))"
  have keep: "(ty AND 0x1f \<noteq> 2 \<and> ty AND 0x1f \<noteq> 3) = (base = EcdsaAll)" using base by simp
  have ins: "inputs (legacy_modified tx i spk ty) = (if acp then [?ins ! i] else ?ins)"
    by (simp add: legacy_modified_def acp keep [symmetric] Let_def)
  have first: "(if acp then
           (if i < length (inputs tx) then
              Ok (compact_size_new 1 @ out_point_bytes (previous_output (inputs tx ! i))
                  @ script_bytes spk @ to_le_bytes (sequence_no (inputs tx ! i)))
            else Panic)
         else Ok (compact_size_new (length (inputs tx)) @ concat (map (legacy_input_bytes base i spk) (enumerate 0 (inputs tx)))))
      = (Ok (vec_bytes tx_in_bytes (inputs (legacy_modified tx i spk ty))) :: (index_out_of_bounds, bytes) res)"
  proof (cases acp)
    case True
    then have "?ins ! i = (inputs tx ! i)\<lparr>script_sig := spk\<rparr>" using assms(1) by (simp add: legacy_input_def nth_enumerate_eq)
    then show ?thesis using True assms(1) by (simp add: ins vec_bytes_def tx_in_bytes_def)
  next
    case False
    have "map (legacy_input_bytes base i spk) (enumerate 0 (inputs tx)) = map tx_in_bytes ?ins"
      by (simp add: legacy_input_bytes_eq [OF bases])
    then show ?thesis using False by (simp only: ins vec_bytes_def if_False length_map length_enumerate)
  qed
  have second: "legacy_outputs_bytes base i (outputs tx) = (Ok (vec_bytes tx_out_bytes (outputs (legacy_modified tx i spk ty))) :: (index_out_of_bounds, bytes) res)"
  proof -
    have "concat (replicate i (tx_out_bytes null_tx_out)) = concat (map tx_out_bytes (replicate i null_tx_out))" by simp
    moreover have "min i (length (outputs tx) - 1) = i" "outputs tx \<noteq> []" if "ty AND 0x1f = 3" using assms(2) that by auto
    ultimately show ?thesis
      by (auto simp: legacy_outputs_bytes_def legacy_modified_def base vec_bytes_def Let_def null_tx_out_bytes)
  qed
  show ?thesis unfolding encode_signing_data_to_inner_def split Let_def prod.case first second
    by (simp add: legacy_bytes_def) (simp add: legacy_modified_def Let_def)
qed

text \<open>
  Property C5. For every input, script and 32-bit type, a legacy signature hash is the double hash of the encoding of the changed transaction and the type,
  except that it is the number one when only one output is signed and there is none with the index of the input; an
  index without an input is refused, and nothing panics.
\<close>

theorem legacy_signs_modified:
  "legacy_signature_hash sha256 c i spk ty =
     (if length (inputs (cached_tx c)) \<le> i then Err \<lparr>oob_index = i, oob_length = length (inputs (cached_tx c))\<rparr>
      else if ty AND 0x1f = 3 \<and> length (outputs (cached_tx c)) \<le> i then Ok (1 # replicate 31 0)
      else Ok (sha256 (sha256 (legacy_bytes (legacy_modified (cached_tx c) i spk ty) @ to_le_bytes ty))))"
proof (cases "i < length (inputs (cached_tx c))")
  case True
  have invalid: "is_invalid_use_of_sighash_single ty i (length (outputs (cached_tx c))) \<longleftrightarrow>
      ty AND 0x1f = 3 \<and> length (outputs (cached_tx c)) \<le> i"
    by (auto simp: is_invalid_use_of_sighash_single_def is_single_split split_from_consensus)
  show ?thesis
  proof (cases "ty AND 0x1f = 3 \<and> length (outputs (cached_tx c)) \<le> i")
    case bug: True
    then show ?thesis using True invalid
      by (simp add: legacy_signature_hash_def legacy_encode_signing_data_to_def get_tx_in_def UINT256_ONE_def)
  next
    case False
    then show ?thesis using True invalid legacy_inner [of i "cached_tx c" ty spk]
      by (auto simp: legacy_signature_hash_def legacy_encode_signing_data_to_def get_tx_in_def sha256d_def)
  qed
qed (simp add: legacy_signature_hash_def legacy_encode_signing_data_to_def get_tx_in_def)

subsection \<open>Witness programs of version 0\<close>

text \<open>What the types of the source guarantee, and scripts whose lengths a machine can hold.\<close>

definition signing_ok :: "transaction \<Rightarrow> bool" where
  "signing_ok tx \<longleftrightarrow> lock_time_wf (lock_time_of tx) \<and> list_all out_point_ok (map previous_output (inputs tx))
     \<and> list_all short_out (outputs tx)"

lemma lock_time_bytes_inj:
  assumes "signing_ok tx" "signing_ok tx'"
    "to_le_bytes (lock_time_to_consensus (lock_time_of tx)) = to_le_bytes (lock_time_to_consensus (lock_time_of tx'))"
  shows "lock_time_of tx = lock_time_of tx'"
proof -
  have "(from_le_bytes (to_le_bytes (lock_time_to_consensus (lock_time_of tx))) :: u32)
      = from_le_bytes (to_le_bytes (lock_time_to_consensus (lock_time_of tx')))" by (simp only: assms(3))
  then have "lock_time_to_consensus (lock_time_of tx) = lock_time_to_consensus (lock_time_of tx')" by simp
  then have "lock_time_from_consensus (lock_time_to_consensus (lock_time_of tx)) = lock_time_from_consensus (lock_time_to_consensus (lock_time_of tx'))"
    by (simp only:)
  moreover have "lock_time_wf (lock_time_of tx)" "lock_time_wf (lock_time_of tx')" using assms(1,2) by (simp_all add: signing_ok_def)
  note this [THEN lock_time_from_to_consensus]
  ultimately show ?thesis by simp
qed

text \<open>What a type covers, by its number: bit 7 leaves the other inputs out, and the five lowest bits say which outputs are signed.\<close>

definition segwit_view :: "transaction \<Rightarrow> nat \<Rightarrow> ecdsa_sighash_type
    \<Rightarrow> u32 \<times> lock_time \<times> out_point \<times> u32 \<times> out_point list option \<times> u32 list option \<times> tx_out list" where
  "segwit_view tx i ty =
     (let acp = bit (ecdsa_to_u32 ty) 7; none = (ecdsa_to_u32 ty AND 0x1f = 2); single = (ecdsa_to_u32 ty AND 0x1f = 3) in
      (version tx, lock_time_of tx, previous_output (inputs tx ! i), sequence_no (inputs tx ! i),
       if acp then None else Some (map previous_output (inputs tx)),
       if acp \<or> none \<or> single then None else Some (map sequence_no (inputs tx)),
       if none then [] else if \<not> single then outputs tx
       else if i < length (outputs tx) then [outputs tx ! i] else []))"

lemma segwit_view_split:
  assumes "split_ecdsa ty = (base, acp)"
  shows "segwit_view tx i ty =
    (version tx, lock_time_of tx, previous_output (inputs tx ! i), sequence_no (inputs tx ! i),
     if acp then None else Some (map previous_output (inputs tx)),
     if acp \<or> base \<noteq> EcdsaAll then None else Some (map sequence_no (inputs tx)),
     if base = EcdsaAll then outputs tx else if base = EcdsaSingle \<and> i < length (outputs tx) then [outputs tx ! i] else [])"
proof -
  have "base \<in> {EcdsaAll, EcdsaNone, EcdsaSingle}" using split_ecdsa_base [of ty] assms by simp
  then show ?thesis unfolding segwit_view_def ecdsa_type_bits [OF assms] Let_def by (elim insertE emptyE) simp_all
qed

text \<open>What is hashed on the way to a signature hash.\<close>

definition segwit_inputs :: "(bytes \<Rightarrow> bytes) \<Rightarrow> transaction \<Rightarrow> nat \<Rightarrow> bytes \<Rightarrow> u64 \<Rightarrow> ecdsa_sighash_type \<Rightarrow> bytes set" where
  "segwit_inputs sha256 tx i script amt ty =
     (let P = {concat (map (out_point_bytes \<circ> previous_output) (inputs tx)), concat (map (to_le_bytes \<circ> sequence_no) (inputs tx)),
               concat (map tx_out_bytes (outputs tx)), tx_out_bytes (outputs tx ! i), bip143_message sha256 tx i script amt ty}
      in P \<union> sha256 ` P)"

lemma segwit_inputs_mem:
  "concat (map (out_point_bytes \<circ> previous_output) (inputs tx)) \<in> segwit_inputs sha256 tx i script amt ty"
  "sha256 (concat (map (out_point_bytes \<circ> previous_output) (inputs tx))) \<in> segwit_inputs sha256 tx i script amt ty"
  "concat (map (to_le_bytes \<circ> sequence_no) (inputs tx)) \<in> segwit_inputs sha256 tx i script amt ty"
  "sha256 (concat (map (to_le_bytes \<circ> sequence_no) (inputs tx))) \<in> segwit_inputs sha256 tx i script amt ty"
  "concat (map tx_out_bytes (outputs tx)) \<in> segwit_inputs sha256 tx i script amt ty"
  "sha256 (concat (map tx_out_bytes (outputs tx))) \<in> segwit_inputs sha256 tx i script amt ty"
  "tx_out_bytes (outputs tx ! i) \<in> segwit_inputs sha256 tx i script amt ty"
  "sha256 (tx_out_bytes (outputs tx ! i)) \<in> segwit_inputs sha256 tx i script amt ty"
  "bip143_message sha256 tx i script amt ty \<in> segwit_inputs sha256 tx i script amt ty"
  "sha256 (bip143_message sha256 tx i script amt ty) \<in> segwit_inputs sha256 tx i script amt ty"
  by (simp_all add: segwit_inputs_def Let_def)

lemma double_collision:
  assumes "sha256d sha256 a = sha256d sha256 b" "a \<in> S" "b \<in> S" "sha256 a \<in> S" "sha256 b \<in> S"
  shows "a = b \<or> hash_collision sha256 S"
  using hash_collision_here [of sha256 "sha256 a" "sha256 b" S] hash_collision_here [of sha256 a b S] assms
  by (auto simp: sha256d_def)

lemma map_comp_inj:
  assumes "prefix_code ok f" "\<And>x. f x \<noteq> []" "list_all ok (map g xs)" "list_all ok (map g ys)"
    and "concat (map (f \<circ> g) xs) = concat (map (f \<circ> g) ys)"
  shows "map g xs = map g ys"
  by (rule prefix_code_concat [OF assms(1-4)]) (use assms(5) in simp)

text \<open>The parts of the message can be read off it.\<close>

lemma bip143_parts:
  fixes tx tx' :: transaction
  assumes "\<And>x. length (sha256 x) = 32" "signing_ok tx" "signing_ok tx'" "i < length (inputs tx)" "i' < length (inputs tx')"
    "short_script s" "short_script s'"
    and eq: "bip143_message sha256 tx i s amt ty = bip143_message sha256 tx' i' s' amt' ty'"
  shows "version tx = version tx' \<and> lock_time_of tx = lock_time_of tx' \<and> ty = ty' \<and> s = s' \<and> amt = amt'
    \<and> previous_output (inputs tx ! i) = previous_output (inputs tx' ! i') \<and> sequence_no (inputs tx ! i) = sequence_no (inputs tx' ! i')"
    "snd (split_ecdsa ty) \<or> sha256d sha256 (concat (map (out_point_bytes \<circ> previous_output) (inputs tx)))
       = sha256d sha256 (concat (map (out_point_bytes \<circ> previous_output) (inputs tx')))"
    "snd (split_ecdsa ty) \<or> fst (split_ecdsa ty) \<noteq> EcdsaAll \<or> sha256d sha256 (concat (map (to_le_bytes \<circ> sequence_no) (inputs tx)))
       = sha256d sha256 (concat (map (to_le_bytes \<circ> sequence_no) (inputs tx')))"
    "fst (split_ecdsa ty) = EcdsaAll \<Longrightarrow> sha256d sha256 (concat (map tx_out_bytes (outputs tx)))
       = sha256d sha256 (concat (map tx_out_bytes (outputs tx')))"
    "fst (split_ecdsa ty) = EcdsaSingle \<Longrightarrow>
       (if i < length (outputs tx) then sha256d sha256 (tx_out_bytes (outputs tx ! i)) else ZERO_HASH)
       = (if i' < length (outputs tx') then sha256d sha256 (tx_out_bytes (outputs tx' ! i')) else ZERO_HASH)"
proof -
  define h1 where "h1 tx ty = (if snd (split_ecdsa ty) then ZERO_HASH
      else sha256d sha256 (concat (map (out_point_bytes \<circ> previous_output) (inputs tx))))" for tx :: transaction and ty
  define h2 where "h2 tx ty = (if snd (split_ecdsa ty) \<or> fst (split_ecdsa ty) \<noteq> EcdsaAll then ZERO_HASH
      else sha256d sha256 (concat (map (to_le_bytes \<circ> sequence_no) (inputs tx))))" for tx :: transaction and ty
  define h3 where "h3 tx i ty = (if fst (split_ecdsa ty) = EcdsaAll then sha256d sha256 (concat (map tx_out_bytes (outputs tx)))
      else if fst (split_ecdsa ty) = EcdsaSingle \<and> i < length (outputs tx) then sha256d sha256 (tx_out_bytes (outputs tx ! i))
      else ZERO_HASH)" for tx :: transaction and i ty
  have len: "length (h1 tx ty) = 32" "length (h2 tx ty) = 32" "length (h3 tx i ty) = 32" for tx :: transaction and ty i
    by (simp_all add: h1_def h2_def h3_def ZERO_HASH_def sha256d_def assms(1))
  have msg: "bip143_message sha256 tx i s amt ty = to_le_bytes (version tx) @ h1 tx ty @ h2 tx ty
      @ out_point_bytes (previous_output (inputs tx ! i)) @ script_bytes s @ to_le_bytes amt @ to_le_bytes (sequence_no (inputs tx ! i))
      @ h3 tx i ty @ to_le_bytes (lock_time_to_consensus (lock_time_of tx)) @ to_le_bytes (ecdsa_to_u32 ty)" for tx :: transaction and i s amt ty
    by (simp only: bip143_message_split [OF prod.collapse [symmetric]] h1_def h2_def h3_def)
  have points: "out_point_ok (previous_output (inputs tx ! i))" "out_point_ok (previous_output (inputs tx' ! i'))"
    using assms(2-5) by (simp_all add: signing_ok_def list_all_length)
  note e1 = prefix_codeD [OF prefix_code_u32 eq [unfolded msg], OF TrueI TrueI]
  have e2: "h1 tx ty = h1 tx' ty' \<and> h2 tx ty = h2 tx' ty'" and e3: "out_point_bytes (previous_output (inputs tx ! i)) @ script_bytes s
      @ to_le_bytes amt @ to_le_bytes (sequence_no (inputs tx ! i)) @ h3 tx i ty
      @ to_le_bytes (lock_time_to_consensus (lock_time_of tx)) @ to_le_bytes (ecdsa_to_u32 ty)
    = out_point_bytes (previous_output (inputs tx' ! i')) @ script_bytes s' @ to_le_bytes amt' @ to_le_bytes (sequence_no (inputs tx' ! i'))
      @ h3 tx' i' ty' @ to_le_bytes (lock_time_to_consensus (lock_time_of tx')) @ to_le_bytes (ecdsa_to_u32 ty')"
    using e1 [THEN conjunct2] by (simp_all add: len)
  note e4 = prefix_codeD [OF prefix_code_out_point e3 points]
  note e5 = prefix_codeD [OF prefix_code_script e4 [THEN conjunct2] assms(6,7)]
  note e6 = prefix_codeD [OF prefix_code_u64 e5 [THEN conjunct2] TrueI TrueI]
  note e7 = prefix_codeD [OF prefix_code_u32 e6 [THEN conjunct2] TrueI TrueI]
  have e8: "h3 tx i ty = h3 tx' i' ty'" and e9: "to_le_bytes (lock_time_to_consensus (lock_time_of tx)) = to_le_bytes (lock_time_to_consensus (lock_time_of tx'))"
    and e10: "to_le_bytes (ecdsa_to_u32 ty) @ [] = to_le_bytes (ecdsa_to_u32 ty') @ []"
    using e7 [THEN conjunct2] by (simp_all add: len)
  have ty: "ty = ty'" using prefix_codeD [OF prefix_code_u32 e10 TrueI TrueI] by (simp add: ecdsa_to_u32_inj)
  show "version tx = version tx' \<and> lock_time_of tx = lock_time_of tx' \<and> ty = ty' \<and> s = s' \<and> amt = amt'
    \<and> previous_output (inputs tx ! i) = previous_output (inputs tx' ! i') \<and> sequence_no (inputs tx ! i) = sequence_no (inputs tx' ! i')"
    using e1 e4 e5 e6 e7 ty lock_time_bytes_inj [OF assms(2,3) e9] by blast
  show "snd (split_ecdsa ty) \<or> sha256d sha256 (concat (map (out_point_bytes \<circ> previous_output) (inputs tx)))
       = sha256d sha256 (concat (map (out_point_bytes \<circ> previous_output) (inputs tx')))"
    using e2 [THEN conjunct1] unfolding h1_def ty by (auto split: if_splits)
  show "snd (split_ecdsa ty) \<or> fst (split_ecdsa ty) \<noteq> EcdsaAll \<or> sha256d sha256 (concat (map (to_le_bytes \<circ> sequence_no) (inputs tx)))
       = sha256d sha256 (concat (map (to_le_bytes \<circ> sequence_no) (inputs tx')))"
    using e2 [THEN conjunct2] unfolding h2_def ty by (auto split: if_splits)
  show "fst (split_ecdsa ty) = EcdsaAll \<Longrightarrow> sha256d sha256 (concat (map tx_out_bytes (outputs tx)))
       = sha256d sha256 (concat (map tx_out_bytes (outputs tx')))"
    using e8 unfolding h3_def ty by simp
  show "fst (split_ecdsa ty) = EcdsaSingle \<Longrightarrow>
       (if i < length (outputs tx) then sha256d sha256 (tx_out_bytes (outputs tx ! i)) else ZERO_HASH)
       = (if i' < length (outputs tx') then sha256d sha256 (tx_out_bytes (outputs tx' ! i')) else ZERO_HASH)"
    using e8 unfolding h3_def ty by simp
qed

lemma p2wsh_message:
  "fst (p2wsh_signature_hash sha256 i s amt ty (sighash_cache_new tx)) = Ok h \<longleftrightarrow>
     i < length (inputs tx) \<and> h = sha256d sha256 (bip143_message sha256 tx i s amt ty)"
  using answer_call_coherent [of sha256 "[]" "sighash_cache_new tx" "P2wshCall i s amt ty" sha256] by (auto split: if_splits)

text \<open>Equal messages come from calls that agree in what the type covers.\<close>

lemma bip143_message_inj:
  fixes tx tx' :: transaction
  assumes "\<And>x. length (sha256 x) = 32" "signing_ok tx" "signing_ok tx'" "i < length (inputs tx)" "i' < length (inputs tx')"
    "short_script s" "short_script s'"
    and "bip143_message sha256 tx i s amt ty = bip143_message sha256 tx' i' s' amt' ty'"
    and no: "\<not> hash_collision sha256 (segwit_inputs sha256 tx i s amt ty \<union> segwit_inputs sha256 tx' i' s' amt' ty')"
      "\<not> (fst (split_ecdsa ty) = EcdsaSingle
         \<and> ZERO_HASH \<in> sha256 ` (segwit_inputs sha256 tx i s amt ty \<union> segwit_inputs sha256 tx' i' s' amt' ty'))"
  shows "(ty, s, amt, segwit_view tx i ty) = (ty', s', amt', segwit_view tx' i' ty')"
proof -
  define S where "S = segwit_inputs sha256 tx i s amt ty \<union> segwit_inputs sha256 tx' i' s' amt' ty'"
  have same: "a = b" if "sha256d sha256 a = sha256d sha256 b" "a \<in> S" "b \<in> S" "sha256 a \<in> S" "sha256 b \<in> S" for a b
    using double_collision [OF that] no(1) by (auto simp: S_def)
  have here: "x \<in> segwit_inputs sha256 tx i s amt ty \<Longrightarrow> x \<in> S" and there: "x \<in> segwit_inputs sha256 tx' i' s' amt' ty' \<Longrightarrow> x \<in> S" for x
    by (simp_all add: S_def)
  note zero = no(2) [folded S_def]
  note parts = bip143_parts [OF assms(1-8)]
  obtain base acp where split: "split_ecdsa ty = (base, acp)" by fastforce
  have ok: "list_all out_point_ok (map previous_output (inputs tx))" "list_all out_point_ok (map previous_output (inputs tx'))"
    "list_all short_out (outputs tx)" "list_all short_out (outputs tx')" using assms(2,3) by (simp_all add: signing_ok_def)
  have points: "map previous_output (inputs tx) = map previous_output (inputs tx')" if "\<not> acp"
  proof (rule map_comp_inj [OF prefix_code_out_point code_nonempty(1) ok(1,2)], rule same)
    show "sha256d sha256 (concat (map (out_point_bytes \<circ> previous_output) (inputs tx)))
        = sha256d sha256 (concat (map (out_point_bytes \<circ> previous_output) (inputs tx')))"
      using parts(2) that split by simp
  qed (intro here there segwit_inputs_mem)+
  have sequences: "map sequence_no (inputs tx) = map sequence_no (inputs tx')" if "\<not> acp" "base = EcdsaAll"
  proof (rule map_comp_inj [OF prefix_code_u32 code_nonempty(3)])
    show "concat (map (to_le_bytes \<circ> sequence_no) (inputs tx)) = concat (map (to_le_bytes \<circ> sequence_no) (inputs tx'))"
    proof (rule same)
      show "sha256d sha256 (concat (map (to_le_bytes \<circ> sequence_no) (inputs tx)))
          = sha256d sha256 (concat (map (to_le_bytes \<circ> sequence_no) (inputs tx')))"
        using parts(3) that split by simp
    qed (intro here there segwit_inputs_mem)+
  qed (simp_all add: list_all_iff)
  have outs: "outputs tx = outputs tx'" if "base = EcdsaAll"
  proof (rule prefix_code_concat [OF prefix_code_tx_out code_nonempty(2) ok(3,4)], rule same)
    show "sha256d sha256 (concat (map tx_out_bytes (outputs tx))) = sha256d sha256 (concat (map tx_out_bytes (outputs tx')))"
      using parts(4) that split by simp
  qed (intro here there segwit_inputs_mem)+
  have single: "(if i < length (outputs tx) then [outputs tx ! i] else []) = (if i' < length (outputs tx') then [outputs tx' ! i'] else [])"
    if "base = EcdsaSingle"
  proof -
    have nonzero: "sha256d sha256 (tx_out_bytes (outputs tx ! i)) \<noteq> ZERO_HASH" "sha256d sha256 (tx_out_bytes (outputs tx' ! i')) \<noteq> ZERO_HASH"
      using zero that split here [OF segwit_inputs_mem(8)] there [OF segwit_inputs_mem(8)] by (auto simp: sha256d_def image_iff)
    have "outputs tx ! i = outputs tx' ! i'" if "i < length (outputs tx)" "i' < length (outputs tx')"
      "sha256d sha256 (tx_out_bytes (outputs tx ! i)) = sha256d sha256 (tx_out_bytes (outputs tx' ! i'))"
    proof -
      have "tx_out_bytes (outputs tx ! i) = tx_out_bytes (outputs tx' ! i')"
        by (rule same [OF that(3)]) (intro here there segwit_inputs_mem)+
      then have "tx_out_bytes (outputs tx ! i) @ [] = tx_out_bytes (outputs tx' ! i') @ []" by simp
      then show ?thesis
        using prefix_codeD [OF prefix_code_tx_out] ok(3,4) that(1,2) by (auto simp: list_all_length)
    qed
    then show ?thesis using parts(5) that split nonzero nonzero [symmetric] by (auto split: if_splits)
  qed
  have split': "split_ecdsa ty' = (base, acp)" using parts(1) split by simp
  have "base \<in> {EcdsaAll, EcdsaNone, EcdsaSingle}" using split_ecdsa_base [of ty] split by simp
  then have covered: "(if base = EcdsaAll then outputs tx else if base = EcdsaSingle \<and> i < length (outputs tx) then [outputs tx ! i] else [])
      = (if base = EcdsaAll then outputs tx' else if base = EcdsaSingle \<and> i' < length (outputs tx') then [outputs tx' ! i'] else [])"
    using outs single by (elim insertE) simp_all
  have shared: "(if acp then None else Some (map previous_output (inputs tx))) = (if acp then None else Some (map previous_output (inputs tx')))"
    "(if acp \<or> base \<noteq> EcdsaAll then None else Some (map sequence_no (inputs tx)))
      = (if acp \<or> base \<noteq> EcdsaAll then None else Some (map sequence_no (inputs tx')))"
    using points sequences by (cases acp; simp)+
  show "(ty, s, amt, segwit_view tx i ty) = (ty', s', amt', segwit_view tx' i' ty')"
    unfolding segwit_view_split [OF split] segwit_view_split [OF split'] covered shared using parts(1) by (elim conjE) (simp only:)
qed

text \<open>
  Property C30. A signature hash of version 0 commits to the type, the script code, the amount and everything of the transaction that the type covers:
  two calls with the same result agree in these, or two different strings that were hashed have the same hash, or
  one of them has the hash zero, which stands for a missing output.
\<close>

theorem segwit_sighash_commits:
  assumes "\<And>x. length (sha256 x) = 32" "signing_ok tx" "signing_ok tx'" "short_script s" "short_script s'"
    and "fst (p2wsh_signature_hash sha256 i s amt ty (sighash_cache_new tx)) = Ok h"
    and "fst (p2wsh_signature_hash sha256 i' s' amt' ty' (sighash_cache_new tx')) = Ok h"
  shows "(ty, s, amt, segwit_view tx i ty) = (ty', s', amt', segwit_view tx' i' ty')
    \<or> hash_collision sha256 (segwit_inputs sha256 tx i s amt ty \<union> segwit_inputs sha256 tx' i' s' amt' ty')
    \<or> ecdsa_to_u32 ty AND 0x1f = 3
      \<and> ZERO_HASH \<in> sha256 ` (segwit_inputs sha256 tx i s amt ty \<union> segwit_inputs sha256 tx' i' s' amt' ty')"
proof -
  have i: "i < length (inputs tx)" "h = sha256d sha256 (bip143_message sha256 tx i s amt ty)"
    using assms(6) unfolding p2wsh_message by simp_all
  have i': "i' < length (inputs tx')" "h = sha256d sha256 (bip143_message sha256 tx' i' s' amt' ty')"
    using assms(7) unfolding p2wsh_message by simp_all
  let ?S = "segwit_inputs sha256 tx i s amt ty \<union> segwit_inputs sha256 tx' i' s' amt' ty'"
  have "bip143_message sha256 tx i s amt ty = bip143_message sha256 tx' i' s' amt' ty' \<or> hash_collision sha256 ?S"
    by (rule double_collision) (use i(2) i'(2) in \<open>simp_all add: segwit_inputs_mem\<close>)
  then show ?thesis
    using bip143_message_inj [of sha256, OF assms(1-3) i(1) i'(1) assms(4,5)] ecdsa_type_bits(3) [OF prod.collapse [symmetric], of ty] by blast
qed

lemma example_signing_ok: "signing_ok example_tx"
  by (simp add: signing_ok_def example_tx_def example_input_def out_point_ok_def short_out_def short_script_def is_block_height_def LOCK_TIME_THRESHOLD_def)

theorem segwit_sighash_commits_witness:
  "(EcdsaAll, [1] :: bytes, 5 :: u64, segwit_view example_tx 0 EcdsaAll) = (EcdsaAll, [], 5, segwit_view example_tx 0 EcdsaAll)
    \<or> hash_collision (\<lambda>_. replicate 32 7)
        (segwit_inputs (\<lambda>_. replicate 32 7) example_tx 0 [1] 5 EcdsaAll \<union> segwit_inputs (\<lambda>_. replicate 32 7) example_tx 0 [] 5 EcdsaAll)
    \<or> ecdsa_to_u32 EcdsaAll AND 0x1f = 3
      \<and> ZERO_HASH \<in> (\<lambda>_. replicate 32 7) `
        (segwit_inputs (\<lambda>_. replicate 32 7) example_tx 0 [1] 5 EcdsaAll \<union> segwit_inputs (\<lambda>_. replicate 32 7) example_tx 0 [] 5 EcdsaAll)"
proof (rule segwit_sighash_commits [OF _ example_signing_ok example_signing_ok])
  have "0 < length (inputs example_tx)" by (simp add: example_tx_def)
  then show "fst (p2wsh_signature_hash (\<lambda>_. replicate 32 7) 0 [1] 5 EcdsaAll (sighash_cache_new example_tx)) = Ok (replicate 32 7)"
    "fst (p2wsh_signature_hash (\<lambda>_. replicate 32 7) 0 [] 5 EcdsaAll (sighash_cache_new example_tx)) = Ok (replicate 32 7)"
    unfolding p2wsh_message by (simp_all add: sha256d_def)
qed (simp_all add: short_script_def)

subsection \<open>Taproot\<close>

definition prevouts_of :: "prevouts \<Rightarrow> tx_out list" where
  "prevouts_of pv = (case pv of AllPrevouts ps \<Rightarrow> ps | OnePrevout _ _ \<Rightarrow> [])"

text \<open>What a type covers, by its number as BIP 341 gives it: bit 7 leaves the other inputs out, and the two lowest bits say which outputs are signed.\<close>

definition taproot_view where
  "taproot_view tx i pv annex leaf ty =
     (let acp = bit (tap_to_u8 ty) 7; none = (tap_to_u8 ty AND 3 = 2); single = (tap_to_u8 ty AND 3 = 3) in
      (version tx, lock_time_of tx,
       if acp then Inl (previous_output (inputs tx ! i), bip341_spent pv i, sequence_no (inputs tx ! i))
       else Inr (map previous_output (inputs tx), prevouts_of pv, map sequence_no (inputs tx), word_of_nat i :: u32),
       if none \<or> single then None else Some (outputs tx),
       if single then Some (outputs tx ! i) else None,
       annex :: bytes option, leaf :: (bytes \<times> u32) option))"

definition taproot_inputs :: "transaction \<Rightarrow> nat \<Rightarrow> prevouts \<Rightarrow> bytes option \<Rightarrow> bytes set" where
  "taproot_inputs tx i pv annex =
     {concat (map (out_point_bytes \<circ> previous_output) (inputs tx)), concat (map (to_le_bytes \<circ> amount) (prevouts_of pv)),
      concat (map (script_bytes \<circ> script_pubkey) (prevouts_of pv)), concat (map (to_le_bytes \<circ> sequence_no) (inputs tx)),
      concat (map tx_out_bytes (outputs tx)), tx_out_bytes (outputs tx ! i),
      case annex of Some a \<Rightarrow> compact_size_new (length a) @ a | None \<Rightarrow> []}"

text \<open>Arguments that the types of the source guarantee: leaf hashes of 32 bytes, scripts and annexes whose length a machine can hold.\<close>

definition taproot_args_ok :: "transaction \<Rightarrow> nat \<Rightarrow> prevouts \<Rightarrow> bytes option \<Rightarrow> (bytes \<times> u32) option \<Rightarrow> bool" where
  "taproot_args_ok tx i pv annex leaf \<longleftrightarrow> signing_ok tx \<and> list_all short_out (prevouts_of pv) \<and> (i < length (inputs tx) \<longrightarrow> short_out (bip341_spent pv i))
     \<and> (\<forall>a. annex = Some a \<longrightarrow> short_script a) \<and> (\<forall>l. leaf = Some l \<longrightarrow> length (fst l) = 32)"

lemma taproot_message_of:
  "fst (taproot_signature_hash sha256 tag i pv annex leaf ty (sighash_cache_new tx)) = Ok h \<longleftrightarrow>
     taproot_refusal tx i pv ty = None \<and> h = tag (bip341_message sha256 tx (prevouts_of pv) i pv annex leaf ty)"
  using answer_call_coherent [of sha256 "prevouts_of pv" "sighash_cache_new tx" "TaprootCall i pv annex leaf ty" tag]
  by (cases pv) (auto simp: prevouts_agree_def prevouts_of_def split: option.splits)

lemma spend_type_inj:
  "((if a then 1 else 0) OR (if l then 2 else 0) :: u8) = (if a' then 1 else 0) OR (if l' then 2 else 0) \<longleftrightarrow> a = a' \<and> l = l'"
  by (cases a; cases l; cases a'; cases l') simp_all

lemma prevouts_determined:
  "map amount ps = map amount qs \<Longrightarrow> map script_pubkey ps = map script_pubkey qs \<Longrightarrow> ps = (qs :: tx_out list)"
proof (induction ps arbitrary: qs)
  case (Cons p ps)
  then obtain q qs' where "qs = q # qs'" by (cases qs) auto
  then show ?case using Cons by (cases p; cases q) simp
qed simp

text \<open>The message of BIP 341 in terms of its type, its fixed hashes and the part for the own input.\<close>

definition tap_shared :: "(bytes \<Rightarrow> bytes) \<Rightarrow> transaction \<Rightarrow> prevouts \<Rightarrow> bytes" where
  "tap_shared sha256 tx pv =
     sha256 (concat (map (out_point_bytes \<circ> previous_output) (inputs tx)))
     @ sha256 (concat (map (to_le_bytes \<circ> amount) (prevouts_of pv)))
     @ sha256 (concat (map (script_bytes \<circ> script_pubkey) (prevouts_of pv)))
     @ sha256 (concat (map (to_le_bytes \<circ> sequence_no) (inputs tx)))"

definition tap_own :: "transaction \<Rightarrow> nat \<Rightarrow> prevouts \<Rightarrow> bytes" where
  "tap_own tx i pv = out_point_bytes (previous_output (inputs tx ! i)) @ tx_out_bytes (bip341_spent pv i) @ to_le_bytes (sequence_no (inputs tx ! i))"

definition tap_rest :: "(bytes \<Rightarrow> bytes) \<Rightarrow> transaction \<Rightarrow> nat \<Rightarrow> bytes option \<Rightarrow> (bytes \<times> u32) option \<Rightarrow> tap_sighash_type \<Rightarrow> bytes" where
  "tap_rest sha256 tx i annex leaf base =
     (case annex of Some a \<Rightarrow> sha256 (compact_size_new (length a) @ a) | None \<Rightarrow> [])
     @ (if base = TapSingle then sha256 (tx_out_bytes (outputs tx ! i)) else [])
     @ (case leaf of Some (hash, pos) \<Rightarrow> hash @ [0] @ to_le_bytes pos | None \<Rightarrow> [])"

lemma bip341_split:
  assumes "split_tap ty = (base, acp)"
  shows "bip341_message sha256 tx (prevouts_of pv) i pv annex leaf ty =
    [0, tap_to_u8 ty] @ to_le_bytes (version tx) @ to_le_bytes (lock_time_to_consensus (lock_time_of tx))
    @ (if acp then [] else tap_shared sha256 tx pv)
    @ (if base = TapNone \<or> base = TapSingle then [] else sha256 (concat (map tx_out_bytes (outputs tx))))
    @ [(if annex \<noteq> None then 1 else 0) OR (if leaf \<noteq> None then 2 else 0)]
    @ (if acp then tap_own tx i pv else to_le_bytes (word_of_nat i :: u32)) @ tap_rest sha256 tx i annex leaf base"
  by (simp add: bip341_message_def tap_type_bits [OF assms] tap_shared_def tap_own_def tap_rest_def tx_out_bytes_def Let_def)

lemma tap_rest_parts:
  assumes "\<And>x. length (sha256 x) = 32" "taproot_args_ok tx i pv annex leaf" "taproot_args_ok tx' i' pv' annex' leaf'"
    and "(annex = None) = (annex' = None)" "(leaf = None) = (leaf' = None)"
    and eq: "tap_rest sha256 tx i annex leaf base = tap_rest sha256 tx' i' annex' leaf' base"
  shows "(case annex of Some a \<Rightarrow> sha256 (compact_size_new (length a) @ a) | None \<Rightarrow> [])
      = (case annex' of Some a \<Rightarrow> sha256 (compact_size_new (length a) @ a) | None \<Rightarrow> [])"
    "base = TapSingle \<Longrightarrow> sha256 (tx_out_bytes (outputs tx ! i)) = sha256 (tx_out_bytes (outputs tx' ! i'))"
    "leaf = leaf'"
proof -
  let ?annex = "\<lambda>annex :: bytes option. case annex of Some a \<Rightarrow> sha256 (compact_size_new (length a) @ a) | None \<Rightarrow> []"
  let ?single = "\<lambda>tx i. if base = TapSingle then sha256 (tx_out_bytes (outputs tx ! i)) else []"
  let ?leaf = "\<lambda>leaf :: (bytes \<times> u32) option. case leaf of Some (hash, pos) \<Rightarrow> hash @ [0] @ to_le_bytes pos | None \<Rightarrow> []"
  have len: "length (?annex annex) = length (?annex annex')" "length (?single tx i) = length (?single tx' i')"
    using assms(4) by (cases annex; cases annex'; simp add: assms(1))+
  have "?annex annex = ?annex annex' \<and> ?single tx i @ ?leaf leaf = ?single tx' i' @ ?leaf leaf'"
    using eq len(1) unfolding tap_rest_def by (rule append_eq_append_conv [THEN iffD1, OF disjI1, rotated])
  then have parts: "?annex annex = ?annex annex'" "?single tx i = ?single tx' i' \<and> ?leaf leaf = ?leaf leaf'"
    using append_eq_append_conv [OF disjI1 [OF len(2)], of "?leaf leaf" "?leaf leaf'"] by blast+
  show "?annex annex = ?annex annex'" by (rule parts(1))
  show "base = TapSingle \<Longrightarrow> sha256 (tx_out_bytes (outputs tx ! i)) = sha256 (tx_out_bytes (outputs tx' ! i'))" using parts(2) by simp
  show "leaf = leaf'"
  proof (cases leaf)
    case (Some l)
    then obtain l' where l': "leaf' = Some l'" using assms(5) by (cases leaf') auto
    then have "fst l @ [0] @ to_le_bytes (snd l) = fst l' @ [0] @ to_le_bytes (snd l')" using parts(2) Some by (simp add: split_beta)
    moreover have "length (fst l) = 32" "length (fst l') = 32" using assms(2,3) Some l' by (simp_all add: taproot_args_ok_def)
    ultimately have "fst l = fst l'" "to_le_bytes (snd l) @ [] = to_le_bytes (snd l') @ []" by simp_all
    then show ?thesis using prefix_codeD [OF prefix_code_u32, of "snd l" "[]" "snd l'" "[]"] Some l' by (simp add: prod_eq_iff)
  qed (use assms(5) in simp)
qed

lemma tap_own_inj:
  assumes "taproot_args_ok tx i pv annex leaf" "taproot_args_ok tx' i' pv' annex' leaf'" "i < length (inputs tx)" "i' < length (inputs tx')"
    and eq: "tap_own tx i pv @ r = tap_own tx' i' pv' @ s"
  shows "(previous_output (inputs tx ! i), bip341_spent pv i, sequence_no (inputs tx ! i))
      = (previous_output (inputs tx' ! i'), bip341_spent pv' i', sequence_no (inputs tx' ! i')) \<and> r = s"
proof -
  have ok: "out_point_ok (previous_output (inputs tx ! i))" "out_point_ok (previous_output (inputs tx' ! i'))"
    "short_out (bip341_spent pv i)" "short_out (bip341_spent pv' i')"
    using assms(1-4) by (simp_all add: taproot_args_ok_def signing_ok_def list_all_length)
  note e1 = prefix_codeD [OF prefix_code_out_point eq [unfolded tap_own_def append_assoc] ok(1,2)]
  note e2 = prefix_codeD [OF prefix_code_tx_out e1 [THEN conjunct2] ok(3,4)]
  note e3 = prefix_codeD [OF prefix_code_u32 e2 [THEN conjunct2] TrueI TrueI]
  show ?thesis using e1 e2 e3 by simp
qed

lemma tap_shared_parts:
  assumes "\<And>x. length (sha256 x) = 32" "tap_shared sha256 tx pv = tap_shared sha256 tx' pv'"
  shows "sha256 (concat (map (out_point_bytes \<circ> previous_output) (inputs tx))) = sha256 (concat (map (out_point_bytes \<circ> previous_output) (inputs tx')))"
    "sha256 (concat (map (to_le_bytes \<circ> amount) (prevouts_of pv))) = sha256 (concat (map (to_le_bytes \<circ> amount) (prevouts_of pv')))"
    "sha256 (concat (map (script_bytes \<circ> script_pubkey) (prevouts_of pv))) = sha256 (concat (map (script_bytes \<circ> script_pubkey) (prevouts_of pv')))"
    "sha256 (concat (map (to_le_bytes \<circ> sequence_no) (inputs tx))) = sha256 (concat (map (to_le_bytes \<circ> sequence_no) (inputs tx')))"
  using assms(2) unfolding tap_shared_def by (simp_all add: assms(1))

lemma length_tap_shared: "(\<And>x. length (sha256 x) = 32) \<Longrightarrow> length (tap_shared sha256 tx pv) = 128"
  by (simp add: tap_shared_def)

lemma append_same: "length a = length b \<Longrightarrow> a @ r = b @ s \<Longrightarrow> a = b \<and> r = s"
  by simp

lemma bip341_parts:
  assumes len: "\<And>x. length (sha256 x) = 32"
    and ok: "taproot_args_ok tx i pv annex leaf" "taproot_args_ok tx' i' pv' annex' leaf'"
    and index: "acp \<longrightarrow> i < length (inputs tx) \<and> i' < length (inputs tx')"
    and eq: "to_le_bytes (version tx) @ to_le_bytes (lock_time_to_consensus (lock_time_of tx))
      @ (if acp then [] else tap_shared sha256 tx pv) @ (if no_outs then [] else sha256 (concat (map tx_out_bytes (outputs tx))))
      @ [(if annex \<noteq> None then 1 else 0) OR (if leaf \<noteq> None then 2 else 0)]
      @ (if acp then tap_own tx i pv else to_le_bytes (word_of_nat i :: u32)) @ tap_rest sha256 tx i annex leaf base
    = to_le_bytes (version tx') @ to_le_bytes (lock_time_to_consensus (lock_time_of tx'))
      @ (if acp then [] else tap_shared sha256 tx' pv') @ (if no_outs then [] else sha256 (concat (map tx_out_bytes (outputs tx'))))
      @ [(if annex' \<noteq> None then 1 else 0) OR (if leaf' \<noteq> None then 2 else 0)]
      @ (if acp then tap_own tx' i' pv' else to_le_bytes (word_of_nat i' :: u32)) @ tap_rest sha256 tx' i' annex' leaf' base"
  shows "version tx = version tx'" "lock_time_of tx = lock_time_of tx'"
    "\<not> acp \<Longrightarrow> tap_shared sha256 tx pv = tap_shared sha256 tx' pv'"
    "\<not> no_outs \<Longrightarrow> sha256 (concat (map tx_out_bytes (outputs tx))) = sha256 (concat (map tx_out_bytes (outputs tx')))"
    "(annex = None) = (annex' = None)" "(leaf = None) = (leaf' = None)"
    "acp \<Longrightarrow> (previous_output (inputs tx ! i), bip341_spent pv i, sequence_no (inputs tx ! i))
      = (previous_output (inputs tx' ! i'), bip341_spent pv' i', sequence_no (inputs tx' ! i'))"
    "\<not> acp \<Longrightarrow> (word_of_nat i :: u32) = word_of_nat i'"
    "tap_rest sha256 tx i annex leaf base = tap_rest sha256 tx' i' annex' leaf' base"
proof -
  note e1 = prefix_codeD [OF prefix_code_u32 eq TrueI TrueI]
  note e2 = prefix_codeD [OF prefix_code_u32 e1 [THEN conjunct2] TrueI TrueI]
  have "length (if acp then [] else tap_shared sha256 tx pv) = length (if acp then [] else tap_shared sha256 tx' pv')"
    by (simp add: length_tap_shared len)
  note e3 = append_same [OF this e2 [THEN conjunct2]]
  have "length (if no_outs then [] else sha256 (concat (map tx_out_bytes (outputs tx))))
      = length (if no_outs then [] else sha256 (concat (map tx_out_bytes (outputs tx'))))" by (simp add: len)
  note e4 = append_same [OF this e3 [THEN conjunct2]]
  have "length [(if annex \<noteq> None then 1 else 0) OR (if leaf \<noteq> None then 2 else 0) :: u8]
      = length [(if annex' \<noteq> None then 1 else 0) OR (if leaf' \<noteq> None then 2 else 0) :: u8]" by simp
  note e5 = append_same [OF this e4 [THEN conjunct2]]
  show "version tx = version tx'" using e1 by blast
  show "lock_time_of tx = lock_time_of tx'"
    by (rule lock_time_bytes_inj) (use ok e2 in \<open>simp_all add: taproot_args_ok_def\<close>)
  show "\<not> acp \<Longrightarrow> tap_shared sha256 tx pv = tap_shared sha256 tx' pv'" using e3 by simp
  show "\<not> no_outs \<Longrightarrow> sha256 (concat (map tx_out_bytes (outputs tx))) = sha256 (concat (map tx_out_bytes (outputs tx')))" using e4 by simp
  show "(annex = None) = (annex' = None)" "(leaf = None) = (leaf' = None)"
    using e5 [THEN conjunct1] spend_type_inj [of "annex \<noteq> None" "leaf \<noteq> None" "annex' \<noteq> None" "leaf' \<noteq> None"] by auto
  have "if acp then (previous_output (inputs tx ! i), bip341_spent pv i, sequence_no (inputs tx ! i))
        = (previous_output (inputs tx' ! i'), bip341_spent pv' i', sequence_no (inputs tx' ! i'))
        \<and> tap_rest sha256 tx i annex leaf base = tap_rest sha256 tx' i' annex' leaf' base
      else (word_of_nat i :: u32) = word_of_nat i' \<and> tap_rest sha256 tx i annex leaf base = tap_rest sha256 tx' i' annex' leaf' base"
  proof (cases acp)
    case True
    then show ?thesis using tap_own_inj [OF ok] index e5 [THEN conjunct2] by simp
  next
    case False
    then show ?thesis using prefix_codeD [OF prefix_code_u32, of "word_of_nat i" _ "word_of_nat i'"] e5 [THEN conjunct2] by simp
  qed
  then show "acp \<Longrightarrow> (previous_output (inputs tx ! i), bip341_spent pv i, sequence_no (inputs tx ! i))
      = (previous_output (inputs tx' ! i'), bip341_spent pv' i', sequence_no (inputs tx' ! i'))"
    "\<not> acp \<Longrightarrow> (word_of_nat i :: u32) = word_of_nat i'"
    "tap_rest sha256 tx i annex leaf base = tap_rest sha256 tx' i' annex' leaf' base"
    by (simp_all split: if_splits)
qed

text \<open>Equal messages come from arguments that agree in what the type covers.\<close>

lemma bip341_message_inj:
  assumes len: "\<And>x. length (sha256 x) = 32"
    and ok: "taproot_args_ok tx i pv annex leaf" "taproot_args_ok tx' i' pv' annex' leaf'"
    and r: "taproot_refusal tx i pv ty = None" "taproot_refusal tx' i' pv' ty' = None"
    and msg: "bip341_message sha256 tx (prevouts_of pv) i pv annex leaf ty = bip341_message sha256 tx' (prevouts_of pv') i' pv' annex' leaf' ty'"
    and no: "\<not> hash_collision sha256 (taproot_inputs tx i pv annex \<union> taproot_inputs tx' i' pv' annex')"
  shows "(ty, taproot_view tx i pv annex leaf ty) = (ty', taproot_view tx' i' pv' annex' leaf' ty')"
proof -
  define S where "S = taproot_inputs tx i pv annex \<union> taproot_inputs tx' i' pv' annex'"
  obtain base acp where split: "split_tap ty = (base, acp)" by fastforce
  have "ty = ty'" using msg by (simp add: bip341_message_def Let_def tap_to_u8_inj)
  then have split': "split_tap ty' = (base, acp)" using split by simp
  have same: "a = b" if "sha256 a = sha256 b" "a \<in> S" "b \<in> S" for a b
    using hash_collision_here [OF that] no by (auto simp: S_def)
  note eq = msg [unfolded bip341_split [OF split] bip341_split [OF split']]
  have index: "acp \<longrightarrow> i < length (inputs tx) \<and> i' < length (inputs tx')"
    using r by (cases pv; cases pv'; auto simp: taproot_refusal_def tap_type_bits [OF split] tap_type_bits [OF split'] Let_def split: if_splits)+
  have "length [0, tap_to_u8 ty] = length [0, tap_to_u8 ty']" by simp
  note parts = bip341_parts [OF len ok index append_same [OF this eq, THEN conjunct2]]
  note rest = tap_rest_parts [OF len ok parts(5,6,9)]
  have here: "x \<in> taproot_inputs tx i pv annex \<Longrightarrow> x \<in> S" and there: "x \<in> taproot_inputs tx' i' pv' annex' \<Longrightarrow> x \<in> S" for x
    by (simp_all add: S_def)
  have oks: "list_all out_point_ok (map previous_output (inputs tx))" "list_all out_point_ok (map previous_output (inputs tx'))"
    "list_all short_out (outputs tx)" "list_all short_out (outputs tx')"
    "list_all short_script (map script_pubkey (prevouts_of pv))" "list_all short_script (map script_pubkey (prevouts_of pv'))"
    using ok by (simp_all add: taproot_args_ok_def signing_ok_def list_all_iff short_out_def)
  have shared: "map previous_output (inputs tx) = map previous_output (inputs tx') \<and> prevouts_of pv = prevouts_of pv'
      \<and> map sequence_no (inputs tx) = map sequence_no (inputs tx')" if "\<not> acp"
  proof -
    note hashes = tap_shared_parts [OF len parts(3) [OF that]]
    have "map previous_output (inputs tx) = map previous_output (inputs tx')"
      by (rule map_comp_inj [OF prefix_code_out_point code_nonempty(1) oks(1,2)], rule same [OF hashes(1)])
        (intro here there, simp add: taproot_inputs_def)+
    moreover have "map amount (prevouts_of pv) = map amount (prevouts_of pv')"
      by (rule map_comp_inj [OF prefix_code_u64 code_nonempty(4)], simp add: list_all_iff, simp add: list_all_iff, rule same [OF hashes(2)])
        (intro here there, simp add: taproot_inputs_def)+
    moreover have "map script_pubkey (prevouts_of pv) = map script_pubkey (prevouts_of pv')"
      by (rule map_comp_inj [OF prefix_code_script code_nonempty(5) oks(5,6)], rule same [OF hashes(3)])
        (intro here there, simp add: taproot_inputs_def)+
    moreover have "map sequence_no (inputs tx) = map sequence_no (inputs tx')"
      by (rule map_comp_inj [OF prefix_code_u32 code_nonempty(3)], simp add: list_all_iff, simp add: list_all_iff, rule same [OF hashes(4)])
        (intro here there, simp add: taproot_inputs_def)+
    ultimately show ?thesis using prevouts_determined by blast
  qed
  have outs: "outputs tx = outputs tx'" if "\<not> (base = TapNone \<or> base = TapSingle)"
    by (rule prefix_code_concat [OF prefix_code_tx_out code_nonempty(2) oks(3,4)], rule same [OF parts(4) [OF that]])
      (intro here there, simp add: taproot_inputs_def)+
  have single: "outputs tx ! i = outputs tx' ! i'" if "base = TapSingle"
  proof -
    have "tx_out_bytes (outputs tx ! i) = tx_out_bytes (outputs tx' ! i')"
      by (rule same [OF rest(2) [OF that]]) (intro here there, simp add: taproot_inputs_def)+
    then have bytes: "tx_out_bytes (outputs tx ! i) @ [] = tx_out_bytes (outputs tx' ! i') @ []" by simp
    have "i < length (outputs tx)" "i' < length (outputs tx')"
      using r that by (cases pv; cases pv'; auto simp: taproot_refusal_def tap_type_bits [OF split] tap_type_bits [OF split'] Let_def split: if_splits)+
    then have short: "short_out (outputs tx ! i)" "short_out (outputs tx' ! i')" using oks(3,4) by (simp_all add: list_all_length)
    show ?thesis using prefix_codeD [OF prefix_code_tx_out bytes short] by simp
  qed
  have annexes: "annex = annex'"
  proof (cases annex)
    case (Some a)
    then obtain a' where a': "annex' = Some a'" using parts(5) by (cases annex') auto
    have "sha256 (compact_size_new (length a) @ a) = sha256 (compact_size_new (length a') @ a')" using rest(1) Some a' by simp
    then have "compact_size_new (length a) @ a = compact_size_new (length a') @ a'"
      by (rule same) (intro here there, simp add: taproot_inputs_def Some a')+
    then have bytes: "script_bytes a @ [] = script_bytes a' @ []" by (simp add: script_bytes_def)
    have short: "short_script a" "short_script a'" using ok Some a' by (simp_all add: taproot_args_ok_def)
    show ?thesis using prefix_codeD [OF prefix_code_script bytes short] Some a' by simp
  qed (use parts(5) in simp)
  have "taproot_view tx i pv annex leaf ty = taproot_view tx' i' pv' annex' leaf' ty'"
    using parts(1,2,7,8) shared outs single annexes rest(3) unfolding taproot_view_def tap_type_bits [OF split] tap_type_bits [OF split'] Let_def
    by (cases acp; cases "base = TapSingle"; simp)
  then show ?thesis using \<open>ty = ty'\<close> by simp
qed

text \<open>
  Property C6. A Taproot signature hash commits to the type, the annex, the leaf and everything of the transaction and of the spent outputs that the
  type covers: two calls with the same result agree in these, or two different strings that were hashed have the
  same hash.
\<close>

theorem taproot_sighash_commits:
  assumes len: "\<And>x. length (sha256 x) = 32"
    and ok: "taproot_args_ok tx i pv annex leaf" "taproot_args_ok tx' i' pv' annex' leaf'"
    and hash: "fst (taproot_signature_hash sha256 tag i pv annex leaf ty (sighash_cache_new tx)) = Ok h"
    and hash': "fst (taproot_signature_hash sha256 tag i' pv' annex' leaf' ty' (sighash_cache_new tx')) = Ok h"
  shows "(ty, taproot_view tx i pv annex leaf ty) = (ty', taproot_view tx' i' pv' annex' leaf' ty')
    \<or> hash_collision sha256 (taproot_inputs tx i pv annex \<union> taproot_inputs tx' i' pv' annex')
    \<or> hash_collision tag {bip341_message sha256 tx (prevouts_of pv) i pv annex leaf ty,
        bip341_message sha256 tx' (prevouts_of pv') i' pv' annex' leaf' ty'}"
proof -
  let ?m = "bip341_message sha256 tx (prevouts_of pv) i pv annex leaf ty"
    and ?m' = "bip341_message sha256 tx' (prevouts_of pv') i' pv' annex' leaf' ty'"
  have r: "taproot_refusal tx i pv ty = None" "taproot_refusal tx' i' pv' ty' = None" and "tag ?m = tag ?m'"
    using hash hash' unfolding taproot_message_of by simp_all
  then have "?m = ?m' \<or> hash_collision tag {?m, ?m'}" using hash_collision_here [of tag ?m ?m' "{?m, ?m'}"] by blast
  then show ?thesis using bip341_message_inj [of sha256, OF len ok r] by blast
qed

theorem taproot_sighash_commits_witness:
  "(TapAll, taproot_view example_tx 0 (AllPrevouts [null_tx_out]) None None TapAll)
      = (TapAll, taproot_view example_tx 1 (AllPrevouts [null_tx_out]) None None TapAll)
    \<or> hash_collision (\<lambda>_. replicate 32 7)
        (taproot_inputs example_tx 0 (AllPrevouts [null_tx_out]) None \<union> taproot_inputs example_tx 1 (AllPrevouts [null_tx_out]) None)
    \<or> hash_collision (\<lambda>_. replicate 32 7)
        {bip341_message (\<lambda>_. replicate 32 7) example_tx (prevouts_of (AllPrevouts [null_tx_out])) 0 (AllPrevouts [null_tx_out]) None None TapAll,
         bip341_message (\<lambda>_. replicate 32 7) example_tx (prevouts_of (AllPrevouts [null_tx_out])) 1 (AllPrevouts [null_tx_out]) None None TapAll}"
proof (rule taproot_sighash_commits [where h = "replicate 32 7"])
  have "taproot_refusal example_tx i (AllPrevouts [null_tx_out]) TapAll = None" for i
    by (simp add: taproot_refusal_def example_tx_def)
  then show "fst (taproot_signature_hash (\<lambda>_. replicate 32 7) (\<lambda>_. replicate 32 7) 0 (AllPrevouts [null_tx_out]) None None TapAll
      (sighash_cache_new example_tx)) = Ok (replicate 32 7)"
    "fst (taproot_signature_hash (\<lambda>_. replicate 32 7) (\<lambda>_. replicate 32 7) 1 (AllPrevouts [null_tx_out]) None None TapAll
      (sighash_cache_new example_tx)) = Ok (replicate 32 7)"
    unfolding taproot_message_of by simp_all
  have "length (inputs example_tx) = 1" by (simp add: example_tx_def)
  then show "taproot_args_ok example_tx 0 (AllPrevouts [null_tx_out]) None None" "taproot_args_ok example_tx 1 (AllPrevouts [null_tx_out]) None None"
    by (simp_all add: taproot_args_ok_def example_signing_ok prevouts_of_def bip341_spent_def short_out_def short_script_def null_tx_out_def)
qed simp

end
