(* ===== verification/Tx_Weight.thy ===== *)
theory Tx_Weight
  imports Transaction Fees Script_Templates
begin

section \<open>Transaction sizes, weights and signature operations\<close>

text \<open>
  The extension traits of \<open>bitcoin/src/blockdata/transaction.rs\<close>: sizes and weights of inputs, outputs and
  transactions, the flags a transaction derives from its sequence numbers, the cost of its signature operations, and the
  prediction of the weight of a transaction that is not signed yet. Sums of \<open>usize\<close> values and products of \<open>u32\<close>
  values that overflow are \<open>Panic\<close>. The theorems relate the sizes to the bytes that the encoder writes, the cost of
  signature operations to a single saturated sum, and the prediction to the weight.
\<close>

subsection \<open>Checked sums\<close>

definition usize_checked :: "nat \<Rightarrow> (unit, nat) res" where
  "usize_checked n = (if n < 2 ^ 64 then Ok n else Panic)"

fun sum_sizes :: "('a \<Rightarrow> (unit, nat) res) \<Rightarrow> nat \<Rightarrow> 'a list \<Rightarrow> (unit, nat) res" where
  "sum_sizes f acc [] = Ok acc"
| "sum_sizes f acc (x # xs) = res_bind (f x) (\<lambda>n. res_bind (usize_checked (acc + n)) (\<lambda>acc'. sum_sizes f acc' xs))"

definition unwrap_weight :: "u64 option \<Rightarrow> (unit, u64) res" where
  "unwrap_weight w = (case w of Some wu \<Rightarrow> Ok wu | None \<Rightarrow> Panic)"

subsection \<open>Inputs and outputs\<close>

definition OUT_POINT_SIZE :: nat where "OUT_POINT_SIZE = 32 + 4"
definition SEQUENCE_SIZE :: nat where "SEQUENCE_SIZE = 4"
definition LOCK_TIME_SIZE :: nat where "LOCK_TIME_SIZE = 4"
definition AMOUNT_SIZE :: nat where "AMOUNT_SIZE = 8"

definition TX_IN_BASE_WEIGHT :: u64 where
  "TX_IN_BASE_WEIGHT = (word_of_nat OUT_POINT_SIZE + word_of_nat SEQUENCE_SIZE) * SCALE_FACTOR"

definition enables_lock_time :: "tx_in \<Rightarrow> bool" where
  "enables_lock_time i \<longleftrightarrow> sequence_no i \<noteq> SEQUENCE_MAX"

definition tx_in_base_size :: "tx_in \<Rightarrow> (unit, nat) res" where
  "tx_in_base_size i =
     usize_checked (OUT_POINT_SIZE + encoded_size (length (script_sig i)) + length (script_sig i) + SEQUENCE_SIZE)"

definition tx_in_total_size :: "tx_in \<Rightarrow> (unit, nat) res" where
  "tx_in_total_size i =
     res_bind (tx_in_base_size i) (\<lambda>base. res_bind (witness_size (tx_witness i)) (\<lambda>w. usize_checked (base + w)))"

definition legacy_weight :: "tx_in \<Rightarrow> (unit, u64) res" where
  "legacy_weight i = res_bind (tx_in_base_size i) (\<lambda>base. unwrap_weight (weight_from_vb (word_of_nat base)))"

definition segwit_weight :: "tx_in \<Rightarrow> (unit, u64) res" where
  "segwit_weight i =
     res_bind (tx_in_base_size i) (\<lambda>base.
       case weight_from_vb (word_of_nat base) of
         None \<Rightarrow> Panic
       | Some w \<Rightarrow> res_bind (witness_size (tx_witness i)) (\<lambda>size. unwrap_weight (weight_checked_add w (word_of_nat size))))"

definition size_from_script_pubkey :: "bytes \<Rightarrow> (unit, nat) res" where
  "size_from_script_pubkey script = usize_checked (AMOUNT_SIZE + encoded_size (length script) + length script)"

definition tx_out_size :: "tx_out \<Rightarrow> (unit, nat) res" where
  "tx_out_size out = size_from_script_pubkey (script_pubkey out)"

definition tx_out_weight :: "tx_out \<Rightarrow> (unit, u64) res" where
  "tx_out_weight out = res_bind (tx_out_size out) (\<lambda>size. unwrap_weight (weight_from_vb (word_of_nat size)))"

definition tx_out_minimal_non_dust :: "bytes \<Rightarrow> (unit, tx_out) res" where
  "tx_out_minimal_non_dust script = res_bind (minimal_non_dust script) (\<lambda>a. Ok \<lparr>amount = a, script_pubkey = script\<rparr>)"

definition tx_out_minimal_non_dust_custom :: "bytes \<Rightarrow> u64 \<Rightarrow> tx_out option" where
  "tx_out_minimal_non_dust_custom script dust_relay_fee =
     map_option (\<lambda>a. \<lparr>amount = a, script_pubkey = script\<rparr>) (minimal_non_dust_custom script dust_relay_fee)"

subsection \<open>Transactions\<close>

definition tx_base_size :: "transaction \<Rightarrow> (unit, nat) res" where
  "tx_base_size tx =
     res_bind (sum_sizes tx_in_base_size 0 (inputs tx)) (\<lambda>ins.
     res_bind (sum_sizes tx_out_size 0 (outputs tx)) (\<lambda>outs.
       usize_checked (4 + encoded_size (length (inputs tx)) + ins + encoded_size (length (outputs tx)) + outs
         + LOCK_TIME_SIZE)))"

definition tx_total_size :: "transaction \<Rightarrow> (unit, nat) res" where
  "tx_total_size tx =
     (let uses_segwit = uses_segwit_serialization tx in
      res_bind (sum_sizes (if uses_segwit then tx_in_total_size else tx_in_base_size) 0 (inputs tx)) (\<lambda>ins.
      res_bind (sum_sizes tx_out_size 0 (outputs tx)) (\<lambda>outs.
        usize_checked (4 + (if uses_segwit then 2 else 0) + encoded_size (length (inputs tx)) + ins
          + encoded_size (length (outputs tx)) + outs + LOCK_TIME_SIZE))))"

definition tx_weight :: "transaction \<Rightarrow> (unit, u64) res" where
  "tx_weight tx =
     res_bind (tx_base_size tx) (\<lambda>base.
     res_bind (usize_checked (base * 3)) (\<lambda>triple.
     res_bind (tx_total_size tx) (\<lambda>total.
     res_bind (usize_checked (triple + total)) (\<lambda>wu. Ok (word_of_nat wu)))))"

definition tx_vsize :: "transaction \<Rightarrow> (unit, nat) res" where
  "tx_vsize tx = res_bind (tx_weight tx) (\<lambda>w. Ok (unat (to_vbytes_ceil w)))"

definition is_explicitly_rbf :: "transaction \<Rightarrow> bool" where
  "is_explicitly_rbf tx = list_ex (\<lambda>i. is_rbf (sequence_no i)) (inputs tx)"

definition is_lock_time_enabled :: "transaction \<Rightarrow> bool" where
  "is_lock_time_enabled tx = list_ex enables_lock_time (inputs tx)"

definition is_absolute_timelock_satisfied :: "transaction \<Rightarrow> u32 \<Rightarrow> u32 \<Rightarrow> bool" where
  "is_absolute_timelock_satisfied tx height time =
     (if \<not> is_lock_time_enabled tx then True else lock_time_is_satisfied_by (lock_time_of tx) height time)"

definition script_pubkey_lens :: "transaction \<Rightarrow> nat list" where
  "script_pubkey_lens tx = map (\<lambda>out. length (script_pubkey out)) (outputs tx)"

definition coinbase_first_input :: "transaction \<Rightarrow> (unit, tx_in) res" where
  "coinbase_first_input tx = (if inputs tx = [] then Panic else Ok (inputs tx ! 0))"

subsection \<open>Signature operations\<close>

definition usize_saturating_add :: "nat \<Rightarrow> nat \<Rightarrow> nat" where
  "usize_saturating_add a b = min (a + b) (2 ^ 64 - 1)"

definition usize_saturating_mul :: "nat \<Rightarrow> nat \<Rightarrow> nat" where
  "usize_saturating_mul a b = min (a * b) (2 ^ 64 - 1)"

definition count_p2pk_p2pkh_sigops :: "transaction \<Rightarrow> nat" where
  "count_p2pk_p2pkh_sigops tx =
     fold (\<lambda>out n. usize_saturating_add n (count_sigops_legacy (script_pubkey out))) (outputs tx)
       (fold (\<lambda>i n. usize_saturating_add n (count_sigops_legacy (script_sig i))) (inputs tx) 0)"

definition p2sh_sigops :: "tx_out \<Rightarrow> tx_in \<Rightarrow> nat" where
  "p2sh_sigops prevout i =
     (if is_p2sh (script_pubkey prevout)
      then (case last_pushdata (script_sig i) of Some redeem \<Rightarrow> usize_saturating_add 0 (count_sigops redeem) | None \<Rightarrow> 0)
      else 0)"

definition count_p2sh_sigops :: "(out_point \<Rightarrow> tx_out option) \<Rightarrow> transaction \<Rightarrow> nat" where
  "count_p2sh_sigops spent tx =
     fold (\<lambda>i n. case spent (previous_output i) of
              Some prevout \<Rightarrow> usize_saturating_add n (p2sh_sigops prevout i) | None \<Rightarrow> n) (inputs tx) 0"

definition sigops_with_witness_program :: "witness \<Rightarrow> bytes \<Rightarrow> (unit, nat) res" where
  "sigops_with_witness_program w program =
     (if is_p2wpkh program then Ok 1
      else if is_p2wsh program
      then res_bind (witness_last w) (\<lambda>l. Ok (case l of Some script \<Rightarrow> count_sigops script | None \<Rightarrow> 0))
      else Ok 0)"

definition witness_sigops :: "tx_out \<Rightarrow> tx_in \<Rightarrow> (unit, nat) res" where
  "witness_sigops prevout i =
     (if is_witness_program (script_pubkey prevout) then sigops_with_witness_program (tx_witness i) (script_pubkey prevout)
      else if is_p2sh (script_pubkey prevout) \<and> is_push_only (script_sig i)
      then (case last_pushdata (script_sig i) of
              Some push_bytes \<Rightarrow> sigops_with_witness_program (tx_witness i) push_bytes
            | None \<Rightarrow> Ok 0)
      else Ok 0)"

fun count_witness_sigops_loop :: "(out_point \<Rightarrow> tx_out option) \<Rightarrow> tx_in list \<Rightarrow> nat \<Rightarrow> (unit, nat) res" where
  "count_witness_sigops_loop spent [] n = Ok n"
| "count_witness_sigops_loop spent (i # ins) n =
     (case spent (previous_output i) of
        Some prevout \<Rightarrow>
          res_bind (witness_sigops prevout i) (\<lambda>k. count_witness_sigops_loop spent ins (usize_saturating_add n k))
      | None \<Rightarrow> count_witness_sigops_loop spent ins n)"

definition count_witness_sigops :: "(out_point \<Rightarrow> tx_out option) \<Rightarrow> transaction \<Rightarrow> (unit, nat) res" where
  "count_witness_sigops spent tx = count_witness_sigops_loop spent (inputs tx) 0"

definition total_sigop_cost :: "(out_point \<Rightarrow> tx_out option) \<Rightarrow> transaction \<Rightarrow> (unit, nat) res" where
  "total_sigop_cost spent tx =
     (let cost = usize_saturating_mul (count_p2pk_p2pkh_sigops tx) 4;
          cost = usize_saturating_add cost (usize_saturating_mul (count_p2sh_sigops spent tx) 4) in
      res_bind (count_witness_sigops spent tx) (\<lambda>w. Ok (usize_saturating_add cost w)))"

subsection \<open>Predicting the weight of an input\<close>

record input_weight_prediction =
  pred_script_size :: u32
  pred_witness_size :: u32

definition saturate_to_u32 :: "nat \<Rightarrow> u32" where
  "saturate_to_u32 x = (if 0xFFFFFFFF < x then 0xFFFFFFFF else word_of_nat x)"

definition pred_encoded_size :: "nat \<Rightarrow> u32" where
  "pred_encoded_size v = (if v \<le> 0xFC then 1 else if v \<le> 0xFFFF then 3 else if v \<le> 0xFFFFFFFF then 5 else 9)"

definition u32_saturating_add :: "u32 \<Rightarrow> u32 \<Rightarrow> u32" where
  "u32_saturating_add a b = (if unat a + unat b < 2 ^ 32 then a + b else 0xFFFFFFFF)"

definition u32_checked :: "nat \<Rightarrow> (unit, u32) res" where
  "u32_checked n = (if n < 2 ^ 32 then Ok (word_of_nat n) else Panic)"

definition elem_size :: "nat \<Rightarrow> u32" where
  "elem_size elem_len = u32_saturating_add (saturate_to_u32 elem_len) (pred_encoded_size elem_len)"

definition prediction_new :: "nat \<Rightarrow> nat list \<Rightarrow> (unit, input_weight_prediction) res" where
  "prediction_new input_script_len witness_element_lengths =
     (let (count, total_size) =
        fold (\<lambda>elem_len (count, total_size). (count + 1, u32_saturating_add total_size (elem_size elem_len)))
          witness_element_lengths (0, 0) in
      res_bind (if 0 < count then u32_checked (unat total_size + unat (pred_encoded_size count)) else Ok 0) (\<lambda>wsize.
      res_bind (u32_checked (unat (saturate_to_u32 input_script_len) + unat (pred_encoded_size input_script_len))) (\<lambda>ssize.
        Ok \<lparr>pred_script_size = ssize, pred_witness_size = wsize\<rparr>)))"

fun total_elem_size :: "nat list \<Rightarrow> u32 \<Rightarrow> u32" where
  "total_elem_size [] total_size = total_size"
| "total_elem_size (elem_len # lens) total_size = total_elem_size lens (u32_saturating_add total_size (elem_size elem_len))"

definition prediction_from_slice :: "nat \<Rightarrow> nat list \<Rightarrow> input_weight_prediction" where
  "prediction_from_slice input_script_len witness_element_lengths =
     \<lparr>pred_script_size = u32_saturating_add (saturate_to_u32 input_script_len) (pred_encoded_size input_script_len),
      pred_witness_size =
        (if witness_element_lengths \<noteq> []
         then u32_saturating_add (total_elem_size witness_element_lengths 0) (pred_encoded_size (length witness_element_lengths))
         else 0)\<rparr>"

definition P2WPKH_MAX :: input_weight_prediction where "P2WPKH_MAX = prediction_from_slice 0 [72, 33]"
definition NESTED_P2WPKH_MAX :: input_weight_prediction where "NESTED_P2WPKH_MAX = prediction_from_slice 23 [72, 33]"
definition P2PKH_COMPRESSED_MAX :: input_weight_prediction where "P2PKH_COMPRESSED_MAX = prediction_from_slice 107 []"
definition P2PKH_UNCOMPRESSED_MAX :: input_weight_prediction where "P2PKH_UNCOMPRESSED_MAX = prediction_from_slice 139 []"
definition P2TR_KEY_DEFAULT_SIGHASH :: input_weight_prediction where
  "P2TR_KEY_DEFAULT_SIGHASH = prediction_from_slice 0 [64]"
definition P2TR_KEY_NON_DEFAULT_SIGHASH :: input_weight_prediction where
  "P2TR_KEY_NON_DEFAULT_SIGHASH = prediction_from_slice 0 [65]"

definition der_signature_size :: "nat \<Rightarrow> (unit, nat) res" where
  "der_signature_size bytes_to_grind = (if bytes_to_grind \<le> 62 then Ok (10 + (62 - bytes_to_grind)) else Panic)"

definition ground_p2wpkh :: "nat \<Rightarrow> (unit, input_weight_prediction) res" where
  "ground_p2wpkh bytes_to_grind =
     res_bind (der_signature_size bytes_to_grind) (\<lambda>size. Ok (prediction_from_slice 0 [size, 33]))"

definition ground_nested_p2wpkh :: "nat \<Rightarrow> (unit, input_weight_prediction) res" where
  "ground_nested_p2wpkh bytes_to_grind =
     res_bind (der_signature_size bytes_to_grind) (\<lambda>size. Ok (prediction_from_slice 23 [size, 33]))"

definition ground_p2pkh_compressed :: "nat \<Rightarrow> (unit, input_weight_prediction) res" where
  "ground_p2pkh_compressed bytes_to_grind =
     res_bind (der_signature_size bytes_to_grind) (\<lambda>size. Ok (prediction_from_slice (2 + 33 + size) []))"

definition witness_weight :: "input_weight_prediction \<Rightarrow> (unit, u64) res" where
  "witness_weight p =
     res_bind (u32_checked (unat (pred_script_size p) * 4)) (\<lambda>s.
     res_bind (u32_checked (unat s + unat (pred_witness_size p))) (\<lambda>wu. Ok (ucast wu)))"

definition total_weight :: "input_weight_prediction \<Rightarrow> (unit, u64) res" where
  "total_weight p = res_bind (witness_weight p) (\<lambda>w. Ok (TX_IN_BASE_WEIGHT + w))"

subsection \<open>Predicting the weight of a transaction\<close>

definition predict_weight_internal :: "nat \<Rightarrow> nat \<Rightarrow> nat \<Rightarrow> nat \<Rightarrow> nat \<Rightarrow> (unit, u64) res" where
  "predict_weight_internal input_count input_weight inputs_with_witnesses output_count output_scripts_size =
     (let output_size = 8 * output_count + output_scripts_size;
          non_input_size = 4 + encoded_size input_count + encoded_size output_count + output_size + 4 in
      res_bind (usize_checked (non_input_size * 4 + input_weight)) (\<lambda>weight.
        if inputs_with_witnesses = 0 then Ok (word_of_nat weight)
        else res_bind (usize_checked (weight + input_count)) (\<lambda>w.
          if w < inputs_with_witnesses then Panic
          else res_bind (usize_checked (w - inputs_with_witnesses + 2)) (\<lambda>wu. Ok (word_of_nat wu)))))"

fun predict_inputs :: "input_weight_prediction list \<Rightarrow> nat \<times> nat \<times> nat \<Rightarrow> (unit, nat \<times> nat \<times> nat) res" where
  "predict_inputs [] acc = Ok acc"
| "predict_inputs (p # ps) (count, weight, with_witnesses) =
     res_bind (total_weight p) (\<lambda>w.
     res_bind (usize_checked (weight + unat w)) (\<lambda>weight'.
       predict_inputs ps (count + 1, weight', with_witnesses + (if 0 < pred_witness_size p then 1 else 0))))"

fun predict_outputs :: "nat list \<Rightarrow> nat \<times> nat \<Rightarrow> (unit, nat \<times> nat) res" where
  "predict_outputs [] acc = Ok acc"
| "predict_outputs (script_len # lens) (count, scripts_size) =
     res_bind (usize_checked (scripts_size + script_len + encoded_size script_len)) (\<lambda>scripts_size'.
       predict_outputs lens (count + 1, scripts_size'))"

definition predict_weight :: "input_weight_prediction list \<Rightarrow> nat list \<Rightarrow> (unit, u64) res" where
  "predict_weight ins output_script_lens =
     res_bind (predict_inputs ins (0, 0, 0)) (\<lambda>(input_count, input_weight, inputs_with_witnesses).
     res_bind (predict_outputs output_script_lens (0, 0)) (\<lambda>(output_count, output_scripts_size).
       predict_weight_internal input_count input_weight inputs_with_witnesses output_count output_scripts_size))"

fun slice_inputs :: "input_weight_prediction list \<Rightarrow> nat \<Rightarrow> nat \<Rightarrow> (unit, nat \<times> nat) res" where
  "slice_inputs [] weight with_witnesses = Ok (weight, with_witnesses)"
| "slice_inputs (p # ps) weight with_witnesses =
     res_bind (total_weight p) (\<lambda>w.
     res_bind (usize_checked (weight + unat w)) (\<lambda>weight'.
       slice_inputs ps weight' (with_witnesses + (if 0 < pred_witness_size p then 1 else 0))))"

definition predict_weight_from_slices :: "input_weight_prediction list \<Rightarrow> nat list \<Rightarrow> (unit, u64) res" where
  "predict_weight_from_slices ins output_script_lens =
     res_bind (slice_inputs ins 0 0) (\<lambda>(input_weight, inputs_with_witnesses).
     res_bind (sum_sizes (\<lambda>len. usize_checked (len + encoded_size len)) 0 output_script_lens) (\<lambda>output_scripts_size.
       predict_weight_internal (length ins) input_weight inputs_with_witnesses (length output_script_lens)
         output_scripts_size))"

text \<open>The value of an output less what spending it costs.\<close>

definition effective_value :: "u64 \<Rightarrow> input_weight_prediction \<Rightarrow> u64 \<Rightarrow> (unit, int) res" where
  "effective_value fee_rate prediction v =
     res_bind (total_weight prediction) (\<lambda>weight. amount_signed_sub v (to_fee fee_rate weight))"

subsection \<open>Sizes are lengths of encodings\<close>

lemma usize_checked_Ok: "n < 2 ^ 64 \<Longrightarrow> usize_checked n = Ok n"
  by (simp add: usize_checked_def)

lemma usize_checked_Ok_iff [simp]: "usize_checked n = Ok m \<longleftrightarrow> m = n \<and> n < 2 ^ 64"
  by (auto simp: usize_checked_def)

lemma sum_sizes_Ok:
  "(\<And>x. x \<in> set xs \<Longrightarrow> f x = Ok (g x)) \<Longrightarrow> acc + sum_list (map g xs) < 2 ^ 64 \<Longrightarrow>
     sum_sizes f acc xs = Ok (acc + sum_list (map g xs))"
  by (induction xs arbitrary: acc) (simp_all add: usize_checked_Ok add.assoc)

lemma length_le_sum: "x \<in> set xs \<Longrightarrow> g x \<le> sum_list (map g xs :: nat list)"
  by (simp add: member_le_sum_list)

lemma length_vec_bytes:
  "length xs < 2 ^ 64 \<Longrightarrow> length (vec_bytes f xs) = encoded_size (length xs) + (\<Sum>x\<leftarrow>xs. length (f x))"
  by (simp add: vec_bytes_def length_compact_size_new length_concat comp_def)

lemma length_script_bytes: "length s < 2 ^ 64 \<Longrightarrow> length (script_bytes s) = encoded_size (length s) + length s"
  by (simp add: script_bytes_def length_compact_size_new)

lemma length_script_less: "length (script_bytes s) < 2 ^ 64 \<Longrightarrow> length s < 2 ^ 64"
  by (simp add: script_bytes_def)

lemma tx_in_base_size_eq:
  assumes "out_point_ok (previous_output i)" and "length (tx_in_bytes i) < 2 ^ 64"
  shows "tx_in_base_size i = Ok (length (tx_in_bytes i))"
  using assms length_script_less [of "script_sig i"]
  by (simp add: tx_in_base_size_def tx_in_bytes_def out_point_bytes_def out_point_ok_def OUT_POINT_SIZE_def
        SEQUENCE_SIZE_def length_script_bytes usize_checked_def)

lemma tx_out_size_eq:
  assumes "length (tx_out_bytes out) < 2 ^ 64"
  shows "tx_out_size out = Ok (length (tx_out_bytes out))"
  using assms length_script_less [of "script_pubkey out"]
  by (simp add: tx_out_size_def size_from_script_pubkey_def tx_out_bytes_def AMOUNT_SIZE_def
        length_script_bytes usize_checked_def)

lemma witness_size_eq:
  assumes "witness_readable w" and "length (witness_bytes w) < 2 ^ 64"
  shows "witness_size w = Ok (length (witness_bytes w))"
proof -
  obtain es where w: "w = witness_of es" "slices es" "offsets_fit 0 es" "list_all (\<lambda>e. length e \<le> 4000000) es"
    using assms(1) by (auto simp: witness_readable_def)
  then have "witness_to_vec w = Ok es" by (simp add: witness_to_vec_eq takeWhile_eq_all_conv list_all_iff)
  moreover have "length es \<le> length (body es)"
  proof (induction es)
    case (Cons e es)
    have "0 < length (compact_size_new (length e))" by (simp add: compact_size_new_def)
    then show ?case using Cons by (simp add: elem_bytes_def del: length_greater_0_conv)
  qed simp
  ultimately show ?thesis using w assms(2) content_size_body [of es]
    by (simp add: witness_size_def witness_bytes_of length_compact_size_new add.commute) (simp add: witness_of_def)
qed

lemma tx_in_total_size_eq:
  assumes "out_point_ok (previous_output i)" and "witness_readable (tx_witness i)"
    and "length (tx_in_bytes i) + length (witness_bytes (tx_witness i)) < 2 ^ 64"
  shows "tx_in_total_size i = Ok (length (tx_in_bytes i) + length (witness_bytes (tx_witness i)))"
  using assms by (simp add: tx_in_total_size_def tx_in_base_size_eq witness_size_eq usize_checked_Ok)

text \<open>A transaction whose inputs refer to transactions by 32 bytes and whose witnesses are well formed.\<close>

definition tx_formed :: "transaction \<Rightarrow> bool" where
  "tx_formed tx \<longleftrightarrow>
     list_all (\<lambda>i. out_point_ok (previous_output i) \<and> witness_readable (tx_witness i)) (inputs tx)"

lemma length_less_concat: "length (vec_bytes f xs) < 2 ^ 64 \<Longrightarrow> (\<And>x. 0 < length (f x)) \<Longrightarrow> length xs < 2 ^ 64"
proof -
  assume l: "length (vec_bytes f xs) < 2 ^ 64" and pos: "\<And>x. 0 < length (f x)"
  have "length xs = (\<Sum>x\<leftarrow>xs. 1)" by (simp add: sum_list_triv)
  also have "\<dots> \<le> (\<Sum>x\<leftarrow>xs. length (f x))" using pos by (intro sum_list_mono) (simp add: Suc_le_eq)
  also have "\<dots> \<le> length (vec_bytes f xs)" by (simp add: vec_bytes_def length_concat comp_def)
  finally show ?thesis using l by simp
qed

lemma tx_bytes_pos: "0 < length (tx_in_bytes i)" "0 < length (tx_out_bytes out)"
  by (simp_all add: tx_in_bytes_def tx_out_bytes_def out_point_bytes_def)

lemma sum_sizes_bytes:
  assumes "length (vec_bytes g xs) < 2 ^ 64" and "\<And>x. x \<in> set xs \<Longrightarrow> length (g x) < 2 ^ 64 \<Longrightarrow> f x = Ok (length (g x))"
  shows "sum_sizes f 0 xs = Ok (\<Sum>x\<leftarrow>xs. length (g x))"
proof -
  have sum: "(\<Sum>x\<leftarrow>xs. length (g x)) < 2 ^ 64"
    using assms(1) by (simp add: vec_bytes_def length_concat comp_def)
  then have "f x = Ok (length (g x))" if "x \<in> set xs" for x
    using assms(2) that member_le_sum_list [of "length (g x)" "map (\<lambda>x. length (g x)) xs"] by fastforce
  then show ?thesis using sum sum_sizes_Ok [of xs f "\<lambda>x. length (g x)" 0] by simp
qed

lemma length_legacy_bytes:
  "length (legacy_bytes tx) = 8 + length (vec_bytes tx_in_bytes (inputs tx)) + length (vec_bytes tx_out_bytes (outputs tx))"
  by (simp add: legacy_bytes_def)

lemma length_segwit_bytes:
  "length (segwit_bytes tx) = length (legacy_bytes tx) + 2 + (\<Sum>i\<leftarrow>inputs tx. length (witness_bytes (tx_witness i)))"
  by (simp add: legacy_bytes_def segwit_bytes_def length_concat comp_def)

lemma tx_base_size_eq:
  assumes "tx_formed tx" and "length (legacy_bytes tx) < 2 ^ 64"
  shows "tx_base_size tx = Ok (length (legacy_bytes tx))"
proof -
  have ins: "length (vec_bytes tx_in_bytes (inputs tx)) < 2 ^ 64"
    and outs: "length (vec_bytes tx_out_bytes (outputs tx)) < 2 ^ 64"
    using assms(2) by (simp_all add: length_legacy_bytes)
  have "sum_sizes tx_in_base_size 0 (inputs tx) = Ok (\<Sum>i\<leftarrow>inputs tx. length (tx_in_bytes i))"
    using assms(1) by (intro sum_sizes_bytes ins) (auto simp: tx_formed_def list_all_iff tx_in_base_size_eq)
  moreover have "sum_sizes tx_out_size 0 (outputs tx) = Ok (\<Sum>out\<leftarrow>outputs tx. length (tx_out_bytes out))"
    by (intro sum_sizes_bytes outs) (rule tx_out_size_eq)
  ultimately show ?thesis
    using assms(2) length_less_concat [OF ins tx_bytes_pos(1)] length_less_concat [OF outs tx_bytes_pos(2)]
    by (simp add: tx_base_size_def LOCK_TIME_SIZE_def length_legacy_bytes length_vec_bytes tx_bytes_pos usize_checked_def)
qed

lemma tx_total_size_eq:
  assumes "tx_formed tx" and "length (transaction_bytes tx) < 2 ^ 64"
  shows "tx_total_size tx = Ok (length (transaction_bytes tx))"
proof (cases "uses_segwit_serialization tx")
  case False
  then show ?thesis using tx_base_size_eq [OF assms(1)] assms(2)
    by (simp add: tx_total_size_def tx_base_size_def transaction_bytes_def)
next
  case True
  then have len: "length (legacy_bytes tx) + 2 + (\<Sum>i\<leftarrow>inputs tx. length (witness_bytes (tx_witness i))) < 2 ^ 64"
    using assms(2) by (simp add: transaction_bytes_def length_segwit_bytes)
  then have ins: "length (vec_bytes tx_in_bytes (inputs tx)) < 2 ^ 64"
    and outs: "length (vec_bytes tx_out_bytes (outputs tx)) < 2 ^ 64"
    by (simp_all add: length_legacy_bytes)
  let ?size = "\<lambda>i. length (tx_in_bytes i) + length (witness_bytes (tx_witness i))"
  have sums: "(\<Sum>i\<leftarrow>inputs tx. ?size i) =
      (\<Sum>i\<leftarrow>inputs tx. length (tx_in_bytes i)) + (\<Sum>i\<leftarrow>inputs tx. length (witness_bytes (tx_witness i)))"
    by (simp add: sum_list_addf)
  have bound: "(\<Sum>i\<leftarrow>inputs tx. ?size i) < 2 ^ 64"
    using len unfolding sums by (simp add: length_legacy_bytes vec_bytes_def length_concat comp_def)
  have "tx_in_total_size i = Ok (?size i)" if "i \<in> set (inputs tx)" for i
    using assms(1) that bound member_le_sum_list [of "?size i" "map ?size (inputs tx)"]
    by (intro tx_in_total_size_eq) (auto simp: tx_formed_def list_all_iff)
  then have "sum_sizes tx_in_total_size 0 (inputs tx) = Ok (\<Sum>i\<leftarrow>inputs tx. ?size i)"
    using bound sum_sizes_Ok [of "inputs tx" tx_in_total_size ?size 0] by simp
  moreover have "sum_sizes tx_out_size 0 (outputs tx) = Ok (\<Sum>out\<leftarrow>outputs tx. length (tx_out_bytes out))"
    by (intro sum_sizes_bytes outs) (rule tx_out_size_eq)
  ultimately show ?thesis
    using True len length_less_concat [OF ins tx_bytes_pos(1)] length_less_concat [OF outs tx_bytes_pos(2)]
    by (simp add: tx_total_size_def LOCK_TIME_SIZE_def transaction_bytes_def length_segwit_bytes length_legacy_bytes
          length_vec_bytes tx_bytes_pos usize_checked_def sums)
qed

text \<open>
  Property C21. The sizes of a transaction are the lengths of its two encodings, its weight is three times the size without
  witnesses plus the size with them, and its virtual size is a quarter of the weight, rounded up. This includes
  transactions without inputs, whose weight the documentation says is two less.
\<close>

theorem transaction_weight:
  assumes "tx_formed tx" and "3 * length (legacy_bytes tx) + length (transaction_bytes tx) < 2 ^ 64"
  shows "tx_base_size tx = Ok (length (legacy_bytes tx)) \<and> tx_total_size tx = Ok (length (transaction_bytes tx))
    \<and> tx_weight tx = Ok (word_of_nat (3 * length (legacy_bytes tx) + length (transaction_bytes tx)))
    \<and> tx_vsize tx = Ok (nat_ceil (3 * length (legacy_bytes tx) + length (transaction_bytes tx)) 4)"
proof -
  have base: "tx_base_size tx = Ok (length (legacy_bytes tx))" using assms by (simp add: tx_base_size_eq)
  have total: "tx_total_size tx = Ok (length (transaction_bytes tx))" using assms by (simp add: tx_total_size_eq)
  have weight: "tx_weight tx = Ok (word_of_nat (3 * length (legacy_bytes tx) + length (transaction_bytes tx)))"
    using assms(2) by (simp add: tx_weight_def base total usize_checked_Ok mult.commute)
  show ?thesis using base total weight assms(2)
    by (simp add: tx_vsize_def to_vbytes_ceil_def SCALE_FACTOR_def unat_div_ceil unat_of_nat del: of_nat_add of_nat_mult)
qed

theorem transaction_weight_witness:
  "tx_weight example_tx = Ok (word_of_nat (3 * length (legacy_bytes example_tx) + length (transaction_bytes example_tx)))"
  using transaction_weight [of example_tx] example_readable
  by (simp add: tx_formed_def list_all_iff example_tx_def example_input_def out_point_ok_def length_legacy_bytes
        transaction_bytes_def length_segwit_bytes length_vec_bytes encoded_size_def tx_in_bytes_def out_point_bytes_def
        length_script_bytes tx_out_bytes_def witness_bytes_of length_compact_size_new elem_bytes_def)

subsection \<open>The cost of signature operations is one saturated sum\<close>

definition witness_stack :: "witness \<Rightarrow> bytes list" where
  "witness_stack w = (case witness_to_vec w of Ok es \<Rightarrow> es | _ \<Rightarrow> [])"

definition program_sigops :: "bytes list \<Rightarrow> bytes \<Rightarrow> nat" where
  "program_sigops stack program =
     (if is_p2wpkh program then 1 else if is_p2wsh program \<and> stack \<noteq> [] then count_sigops (last stack) else 0)"

definition redeem_script_of :: "tx_out \<Rightarrow> tx_in \<Rightarrow> bytes option" where
  "redeem_script_of prevout i = (if is_p2sh (script_pubkey prevout) then last_pushdata (script_sig i) else None)"

definition witness_program_of :: "tx_out \<Rightarrow> tx_in \<Rightarrow> bytes option" where
  "witness_program_of prevout i =
     (if is_witness_program (script_pubkey prevout) then Some (script_pubkey prevout)
      else if is_push_only (script_sig i) then redeem_script_of prevout i else None)"

definition input_sigop_cost :: "(out_point \<Rightarrow> tx_out option) \<Rightarrow> tx_in \<Rightarrow> nat" where
  "input_sigop_cost spent i =
     4 * count_sigops_legacy (script_sig i)
     + (case spent (previous_output i) of None \<Rightarrow> 0
        | Some prevout \<Rightarrow>
            4 * (case redeem_script_of prevout i of None \<Rightarrow> 0 | Some redeem \<Rightarrow> count_sigops redeem)
            + (case witness_program_of prevout i of None \<Rightarrow> 0
               | Some program \<Rightarrow> program_sigops (witness_stack (tx_witness i)) program))"

abbreviation USIZE_MAX :: nat where "USIZE_MAX \<equiv> 2 ^ 64 - 1"

lemma fold_saturating:
  "n \<le> USIZE_MAX \<Longrightarrow> fold (\<lambda>x n. usize_saturating_add n (f x)) xs n = min (n + (\<Sum>x\<leftarrow>xs. f x)) USIZE_MAX"
  by (induction xs arbitrary: n) (auto simp: usize_saturating_add_def)

lemma witness_last_eq:
  assumes "witness_readable w"
  shows "witness_last w = Ok (if witness_stack w = [] then None else Some (last (witness_stack w)))"
proof -
  obtain es where w: "w = witness_of es" "slices es" "offsets_fit 0 es" "list_all (\<lambda>e. length e \<le> 4000000) es"
    using assms by (auto simp: witness_readable_def)
  then have stack: "witness_stack w = es"
    by (simp add: witness_stack_def witness_to_vec_eq takeWhile_eq_all_conv list_all_iff)
  have elements: "w_elements (witness_of es) = length es" by (simp add: witness_of_def)
  have "length (last es) \<le> 4000000" if "es \<noteq> []" using w(4) that by (auto simp: list_all_iff)
  then show ?thesis using w(2-3) unfolding stack
    by (simp add: w(1) witness_last_def witness_get_back_def witness_get_eq elements last_conv_nth)
qed

lemma sigops_with_witness_program_eq:
  "witness_readable w \<Longrightarrow> sigops_with_witness_program w program = Ok (program_sigops (witness_stack w) program)"
  by (simp add: sigops_with_witness_program_def program_sigops_def witness_last_eq)

lemma witness_sigops_eq:
  "witness_readable (tx_witness i) \<Longrightarrow>
     witness_sigops prevout i = Ok (case witness_program_of prevout i of None \<Rightarrow> 0
       | Some program \<Rightarrow> program_sigops (witness_stack (tx_witness i)) program)"
  by (auto simp: witness_sigops_def witness_program_of_def redeem_script_of_def sigops_with_witness_program_eq
        split: option.splits)

lemma count_witness_sigops_loop_eq:
  assumes "\<And>i. i \<in> set ins \<Longrightarrow> witness_readable (tx_witness i)" and "n \<le> USIZE_MAX"
  shows "count_witness_sigops_loop spent ins n = Ok (min (n + (\<Sum>i\<leftarrow>ins.
    case spent (previous_output i) of None \<Rightarrow> 0 | Some prevout \<Rightarrow>
      (case witness_program_of prevout i of None \<Rightarrow> 0
       | Some program \<Rightarrow> program_sigops (witness_stack (tx_witness i)) program))) USIZE_MAX)"
  using assms
proof (induction ins arbitrary: n)
  case (Cons i ins)
  then show ?case
    by (cases "spent (previous_output i)")
       (auto simp: witness_sigops_eq usize_saturating_add_def add.assoc min_def)
qed simp

lemma count_p2sh_sigops_eq:
  "count_p2sh_sigops spent tx = min (\<Sum>i\<leftarrow>inputs tx. case spent (previous_output i) of None \<Rightarrow> 0 | Some prevout \<Rightarrow>
     (case redeem_script_of prevout i of None \<Rightarrow> 0 | Some redeem \<Rightarrow> count_sigops redeem)) USIZE_MAX"
proof -
  let ?cost = "\<lambda>i. case spent (previous_output i) of None \<Rightarrow> 0 | Some prevout \<Rightarrow>
     (case redeem_script_of prevout i of None \<Rightarrow> 0 | Some redeem \<Rightarrow> count_sigops redeem)"
  have "n \<le> USIZE_MAX \<Longrightarrow> fold (\<lambda>i n. case spent (previous_output i) of
      Some prevout \<Rightarrow> usize_saturating_add n (p2sh_sigops prevout i) | None \<Rightarrow> n) ins n
    = fold (\<lambda>i n. usize_saturating_add n (?cost i)) ins n" for ins n
  proof (induction ins arbitrary: n)
    case (Cons i ins)
    have "(case spent (previous_output i) of
      Some prevout \<Rightarrow> usize_saturating_add n (p2sh_sigops prevout i) | None \<Rightarrow> n) = usize_saturating_add n (?cost i)"
      using Cons.prems
      by (auto simp: p2sh_sigops_def redeem_script_of_def usize_saturating_add_def min_def split: option.split)
    moreover have "usize_saturating_add n (?cost i) \<le> USIZE_MAX" by (simp add: usize_saturating_add_def)
    ultimately show ?case using Cons.IH by simp
  qed simp
  from this [of 0 "inputs tx"] show ?thesis
    using fold_saturating [of 0 ?cost "inputs tx"] by (simp add: count_p2sh_sigops_def)
qed

lemma count_p2pk_p2pkh_sigops_eq:
  "count_p2pk_p2pkh_sigops tx = min ((\<Sum>i\<leftarrow>inputs tx. count_sigops_legacy (script_sig i))
     + (\<Sum>out\<leftarrow>outputs tx. count_sigops_legacy (script_pubkey out))) USIZE_MAX"
  by (auto simp: count_p2pk_p2pkh_sigops_def fold_saturating min_def)

text \<open>
  Property C22. The cost of the signature operations, with its saturating steps, is the exact sum cut at the maximum of \<open>usize\<close>: four
  for each operation in the scripts of inputs and outputs and in redeem scripts, one for each in witness scripts.
\<close>

theorem sigop_cost_saturates_once:
  assumes "\<forall>i \<in> set (inputs tx). witness_readable (tx_witness i)"
  shows "total_sigop_cost spent tx = Ok (min ((\<Sum>i\<leftarrow>inputs tx. input_sigop_cost spent i)
    + 4 * (\<Sum>out\<leftarrow>outputs tx. count_sigops_legacy (script_pubkey out))) (2 ^ 64 - 1))"
proof -
  let ?legacy = "\<Sum>i\<leftarrow>inputs tx. count_sigops_legacy (script_sig i)"
  let ?p2sh = "\<Sum>i\<leftarrow>inputs tx. case spent (previous_output i) of None \<Rightarrow> 0 | Some prevout \<Rightarrow>
     (case redeem_script_of prevout i of None \<Rightarrow> 0 | Some redeem \<Rightarrow> count_sigops redeem)"
  let ?segwit = "\<Sum>i\<leftarrow>inputs tx. case spent (previous_output i) of None \<Rightarrow> 0 | Some prevout \<Rightarrow>
      (case witness_program_of prevout i of None \<Rightarrow> 0
       | Some program \<Rightarrow> program_sigops (witness_stack (tx_witness i)) program)"
  have "input_sigop_cost spent i = 4 * count_sigops_legacy (script_sig i)
      + 4 * (case spent (previous_output i) of None \<Rightarrow> 0 | Some prevout \<Rightarrow>
          (case redeem_script_of prevout i of None \<Rightarrow> 0 | Some redeem \<Rightarrow> count_sigops redeem))
      + (case spent (previous_output i) of None \<Rightarrow> 0 | Some prevout \<Rightarrow>
          (case witness_program_of prevout i of None \<Rightarrow> 0
           | Some program \<Rightarrow> program_sigops (witness_stack (tx_witness i)) program))" for i
    by (simp add: input_sigop_cost_def split: option.split)
  then have sum: "(\<Sum>i\<leftarrow>inputs tx. input_sigop_cost spent i) = 4 * ?legacy + 4 * ?p2sh + ?segwit"
    by (simp add: sum_list_addf sum_list_const_mult)
  have "count_witness_sigops spent tx = Ok (min ?segwit USIZE_MAX)"
    using assms count_witness_sigops_loop_eq [of "inputs tx" 0 spent] by (simp add: count_witness_sigops_def)
  then show ?thesis unfolding sum
    by (auto simp: total_sigop_cost_def Let_def count_p2pk_p2pkh_sigops_eq count_p2sh_sigops_eq
          usize_saturating_add_def usize_saturating_mul_def min_def)
qed

theorem sigop_cost_saturates_once_witness:
  "total_sigop_cost (\<lambda>_. Some \<lparr>amount = 1, script_pubkey = new_p2sh (replicate 20 0)\<rparr>) example_tx
   = Ok (min ((\<Sum>i\<leftarrow>inputs example_tx. input_sigop_cost (\<lambda>_. Some \<lparr>amount = 1, script_pubkey = new_p2sh (replicate 20 0)\<rparr>) i)
    + 4 * (\<Sum>out\<leftarrow>outputs example_tx. count_sigops_legacy (script_pubkey out))) (2 ^ 64 - 1))"
  by (rule sigop_cost_saturates_once [OF example_readable])

subsection \<open>Predictions\<close>

abbreviation U32_MAX :: nat where "U32_MAX \<equiv> 2 ^ 32 - 1"

definition elems_len :: "nat list \<Rightarrow> nat" where
  "elems_len lens = (\<Sum>n\<leftarrow>lens. n + encoded_size n)"

lemma elems_len_simps [simp]: "elems_len [] = 0" "elems_len (n # lens) = n + encoded_size n + elems_len lens"
  by (simp_all add: elems_len_def)

lemma encoded_size_pos [simp]: "0 < encoded_size n" "1 \<le> encoded_size n"
  by (simp_all add: encoded_size_def)

lemma unat_saturate: "unat (saturate_to_u32 x) = min x U32_MAX"
  by (auto simp: saturate_to_u32_def unat_of_nat min_def)

lemma unat_pred_encoded_size [simp]: "unat (pred_encoded_size v) = encoded_size v"
  by (simp add: pred_encoded_size_def encoded_size_def)

lemma u32_bound: "unat (a :: u32) < 2 ^ 32"
  using unsigned_less [of a] by simp

lemma unat_saturating_add: "unat (u32_saturating_add a b) = min (unat a + unat b) U32_MAX"
  using u32_bound [of a] u32_bound [of b]
  by (auto simp: u32_saturating_add_def min_def unat_word_ariths)

lemma unat_elem_size: "unat (elem_size n) = min (n + encoded_size n) U32_MAX"
  by (auto simp: elem_size_def unat_saturating_add unat_saturate min_def)

lemma unat_total_elem_size: "unat (total_elem_size lens t) = min (unat t + elems_len lens) U32_MAX"
proof (induction lens arbitrary: t)
  case Nil
  then show ?case using u32_bound [of t] by (simp add: min_def)
next
  case (Cons n lens)
  then show ?case by (auto simp: unat_saturating_add unat_elem_size min_def)
qed

lemma prediction_fold:
  "fold (\<lambda>elem_len (count, total_size). (count + 1, u32_saturating_add total_size (elem_size elem_len))) lens (count, t)
   = (count + length lens, total_elem_size lens t)"
  by (induction lens arbitrary: count t) simp_all

lemma u32_checked_saturating:
  "u32_checked (unat a + unat b) = (if unat a + unat b < 2 ^ 32 then Ok (u32_saturating_add a b) else Panic)"
  by (simp add: u32_checked_def u32_saturating_add_def)

lemma saturated_fits: "0 < k \<Longrightarrow> min m U32_MAX + k < 2 ^ 32 \<longleftrightarrow> m + k < 2 ^ 32" for m k :: nat
  by (auto simp: min_def)

text \<open>
  The constructor for iterators is the one for slices where that one does not saturate, and panics elsewhere.
\<close>

theorem prediction_new_eq:
  "prediction_new n lens =
     (if n + encoded_size n < 2 ^ 32 \<and> (lens = [] \<or> elems_len lens + encoded_size (length lens) < 2 ^ 32)
      then Ok (prediction_from_slice n lens) else Panic)"
proof -
  have "unat (saturate_to_u32 n) + unat (pred_encoded_size n) < 2 ^ 32 \<longleftrightarrow> n + encoded_size n < 2 ^ 32"
    unfolding unat_saturate unat_pred_encoded_size by (rule saturated_fits) simp
  then have script: "u32_checked (unat (saturate_to_u32 n) + unat (pred_encoded_size n)) =
      (if n + encoded_size n < 2 ^ 32 then Ok (u32_saturating_add (saturate_to_u32 n) (pred_encoded_size n)) else Panic)"
    by (simp only: u32_checked_saturating)
  have "unat (total_elem_size lens 0) + unat (pred_encoded_size (length lens)) < 2 ^ 32
      \<longleftrightarrow> elems_len lens + encoded_size (length lens) < 2 ^ 32"
    unfolding unat_total_elem_size unat_pred_encoded_size unat_0 add_0 by (rule saturated_fits) simp
  then have wit: "u32_checked (unat (total_elem_size lens 0) + unat (pred_encoded_size (length lens))) =
      (if elems_len lens + encoded_size (length lens) < 2 ^ 32
       then Ok (u32_saturating_add (total_elem_size lens 0) (pred_encoded_size (length lens))) else Panic)"
    by (simp only: u32_checked_saturating)
  show ?thesis
    using script wit unfolding prediction_new_def prediction_fold
    by (cases "lens = []") (simp_all add: prediction_from_slice_def)
qed

lemma predict_inputs_eq:
  "predict_inputs ps (count, weight, k) =
     res_bind (slice_inputs ps weight k) (\<lambda>(weight', k'). Ok (count + length ps, weight', k'))"
proof (induction ps arbitrary: count weight k)
  case (Cons p ps)
  then show ?case by (cases "total_weight p") (auto simp: usize_checked_def)
qed simp

lemma predict_outputs_eq:
  "predict_outputs lens (count, s) =
     res_bind (sum_sizes (\<lambda>len. usize_checked (len + encoded_size len)) s lens) (\<lambda>size'. Ok (count + length lens, size'))"
  by (induction lens arbitrary: count s) (auto simp: usize_checked_def add.assoc)

text \<open>The two ways of predicting a weight agree, also on where they overflow.\<close>

theorem predict_weight_from_slices_eq: "predict_weight_from_slices ps lens = predict_weight ps lens"
  by (cases "slice_inputs ps 0 0"; cases "sum_sizes (\<lambda>len. usize_checked (len + encoded_size len)) 0 lens")
     (auto simp: predict_weight_def predict_weight_from_slices_def predict_inputs_eq predict_outputs_eq)

text \<open>The prediction that describes a given input, and the part of its witness that counts when it is not empty.\<close>

definition prediction_of :: "tx_in \<Rightarrow> input_weight_prediction" where
  "prediction_of i = prediction_from_slice (length (script_sig i)) (map length (witness_stack (tx_witness i)))"

definition stack_bytes :: "tx_in \<Rightarrow> nat" where
  "stack_bytes i = (if witness_stack (tx_witness i) = [] then 0 else length (witness_bytes (tx_witness i)))"

definition short_input :: "tx_in \<Rightarrow> bool" where
  "short_input i \<longleftrightarrow> out_point_ok (previous_output i) \<and> witness_readable (tx_witness i)
     \<and> 4 * length (script_bytes (script_sig i)) + length (witness_bytes (tx_witness i)) < 2 ^ 32"

lemma witness_readable_stack:
  assumes "witness_readable w" and "length (witness_bytes w) < 2 ^ 64"
  shows "length (witness_bytes w) = encoded_size (length (witness_stack w)) + elems_len (map length (witness_stack w))"
    and "witness_is_empty w \<longleftrightarrow> witness_stack w = []"
proof -
  obtain es where w: "w = witness_of es" "slices es" "offsets_fit 0 es" "list_all (\<lambda>e. length e \<le> 4000000) es"
    using assms by (auto simp: witness_readable_def)
  then have vec: "witness_to_vec w = Ok es" by (simp add: witness_to_vec_eq takeWhile_eq_all_conv list_all_iff)
  then have stack: "witness_stack w = es" by (simp add: witness_stack_def)
  have size: "witness_size w = Ok (encoded_size (length es) + elems_len (map length es))"
    using vec by (simp add: witness_size_def elems_len_def comp_def add.commute) (simp add: w(1) witness_of_def)
  then show "length (witness_bytes w) = encoded_size (length (witness_stack w)) + elems_len (map length (witness_stack w))"
    using witness_size_eq [OF assms] by (simp add: stack)
  show "witness_is_empty w \<longleftrightarrow> witness_stack w = []" unfolding stack by (simp add: w(1) witness_is_empty_def witness_of_def)
qed

lemma short_input_facts:
  assumes "short_input i"
  shows "length (witness_bytes (tx_witness i)) < 2 ^ 32" and "length (script_bytes (script_sig i)) < 2 ^ 30"
    and "length (script_sig i) + encoded_size (length (script_sig i)) = length (script_bytes (script_sig i))"
    and "length (tx_in_bytes i) = 40 + length (script_bytes (script_sig i))"
    and "length (witness_bytes (tx_witness i)) = stack_bytes i + (if witness_is_empty (tx_witness i) then 1 else 0)"
    and "witness_is_empty (tx_witness i) \<longleftrightarrow> stack_bytes i = 0"
proof -
  show wit: "length (witness_bytes (tx_witness i)) < 2 ^ 32" and script: "length (script_bytes (script_sig i)) < 2 ^ 30"
    using assms by (simp_all add: short_input_def)
  show "length (script_sig i) + encoded_size (length (script_sig i)) = length (script_bytes (script_sig i))"
    using script length_script_less [of "script_sig i"] by (simp add: length_script_bytes)
  show "length (tx_in_bytes i) = 40 + length (script_bytes (script_sig i))"
    using assms by (simp add: tx_in_bytes_def out_point_bytes_def short_input_def out_point_ok_def)
  have readable: "witness_readable (tx_witness i)" using assms by (simp add: short_input_def)
  have "length (witness_bytes (tx_witness i)) < 2 ^ 64" using wit by simp
  note stack = witness_readable_stack [OF readable this]
  show "length (witness_bytes (tx_witness i)) = stack_bytes i + (if witness_is_empty (tx_witness i) then 1 else 0)"
    using stack by (auto simp: stack_bytes_def) (simp add: encoded_size_def)
  show "witness_is_empty (tx_witness i) \<longleftrightarrow> stack_bytes i = 0"
    using stack encoded_size_pos(1) [of "length (witness_stack (tx_witness i))"] by (auto simp: stack_bytes_def)
qed

lemma prediction_of_sizes:
  assumes "short_input i"
  shows "unat (pred_script_size (prediction_of i)) = length (script_bytes (script_sig i))"
    and "unat (pred_witness_size (prediction_of i)) = stack_bytes i"
proof -
  note facts = short_input_facts [OF assms]
  show "unat (pred_script_size (prediction_of i)) = length (script_bytes (script_sig i))"
    using facts(2,3) by (simp add: prediction_of_def prediction_from_slice_def unat_saturating_add unat_saturate min_def)
  have "witness_readable (tx_witness i)" using assms by (simp add: short_input_def)
  from witness_readable_stack(1) [OF this] have
    "length (witness_bytes (tx_witness i)) =
      encoded_size (length (witness_stack (tx_witness i))) + elems_len (map length (witness_stack (tx_witness i)))"
    using facts(1) by simp
  then show "unat (pred_witness_size (prediction_of i)) = stack_bytes i"
    using facts(1)
    by (simp add: prediction_of_def prediction_from_slice_def stack_bytes_def unat_saturating_add unat_total_elem_size min_def)
qed

lemma total_weight_of:
  assumes "short_input i"
  shows "\<exists>w. total_weight (prediction_of i) = Ok w \<and> unat w = 4 * length (tx_in_bytes i) + stack_bytes i"
proof -
  note facts = short_input_facts [OF assms] and sizes = prediction_of_sizes [OF assms]
  have sum: "4 * length (script_bytes (script_sig i)) + stack_bytes i < 2 ^ 32"
    using assms facts(5) by (simp add: short_input_def)
  have "\<exists>w. witness_weight (prediction_of i) = Ok w \<and> unat w = 4 * length (script_bytes (script_sig i)) + stack_bytes i"
    using sum by (simp add: witness_weight_def sizes u32_checked_def unat_of_nat unat_ucast_up mult.commute
          del: of_nat_add of_nat_mult)
  then show ?thesis
    using sum facts(4)
    by (auto simp: total_weight_def TX_IN_BASE_WEIGHT_def OUT_POINT_SIZE_def SEQUENCE_SIZE_def SCALE_FACTOR_def
         unat_word_ariths)
qed

lemma slice_inputs_of:
  assumes "\<And>i. i \<in> set ins \<Longrightarrow> short_input i"
    and "acc + (\<Sum>i\<leftarrow>ins. 4 * length (tx_in_bytes i) + stack_bytes i) < 2 ^ 64"
  shows "slice_inputs (map prediction_of ins) acc k =
    Ok (acc + (\<Sum>i\<leftarrow>ins. 4 * length (tx_in_bytes i) + stack_bytes i),
        k + length (filter (\<lambda>i. \<not> witness_is_empty (tx_witness i)) ins))"
  using assms
proof (induction ins arbitrary: acc k)
  case (Cons i ins)
  have short: "short_input i" using Cons.prems(1) by simp
  obtain w where w: "total_weight (prediction_of i) = Ok w" "unat w = 4 * length (tx_in_bytes i) + stack_bytes i"
    using total_weight_of [OF short] by blast
  have "0 < pred_witness_size (prediction_of i) \<longleftrightarrow> \<not> witness_is_empty (tx_witness i)"
    using prediction_of_sizes(2) [OF short] short_input_facts(6) [OF short] by (simp add: word_less_nat_alt)
  then show ?case using Cons.IH [of "acc + unat w"] Cons.prems w
    by (simp add: usize_checked_Ok add.assoc)
qed simp

lemma sum_output_lens:
  assumes "length (vec_bytes tx_out_bytes outs) < 2 ^ 64"
  shows "8 * length outs + (\<Sum>len\<leftarrow>map (\<lambda>out. length (script_pubkey out)) outs. len + encoded_size len)
    = (\<Sum>out\<leftarrow>outs. length (tx_out_bytes out))"
proof -
  have "length (tx_out_bytes out) = 8 + (length (script_pubkey out) + encoded_size (length (script_pubkey out)))"
    if "out \<in> set outs" for out
  proof -
    have "length (tx_out_bytes out) \<le> (\<Sum>out\<leftarrow>outs. length (tx_out_bytes out))" using that by (simp add: member_le_sum_list)
    then have "length (tx_out_bytes out) < 2 ^ 64" using assms by (simp add: vec_bytes_def length_concat comp_def)
    then show ?thesis using tx_out_size_eq [of out]
      by (simp add: tx_out_size_def size_from_script_pubkey_def AMOUNT_SIZE_def)
  qed
  then have "(\<Sum>out\<leftarrow>outs. length (tx_out_bytes out)) =
      (\<Sum>out\<leftarrow>outs. 8 + (length (script_pubkey out) + encoded_size (length (script_pubkey out))))"
    by (intro arg_cong [where f = sum_list] map_cong) auto
  then show ?thesis by (simp only: sum_list_addf sum_list_triv map_map comp_def) simp
qed

text \<open>What the witnesses add: the stacks that are not empty, and one byte for each of the others.\<close>

lemma sum_witness_bytes:
  assumes "\<And>i. i \<in> set ins \<Longrightarrow> short_input i"
  shows "(\<Sum>i\<leftarrow>ins. length (witness_bytes (tx_witness i)))
    + length (filter (\<lambda>i. \<not> witness_is_empty (tx_witness i)) ins) = (\<Sum>i\<leftarrow>ins. stack_bytes i) + length ins"
  using assms by (induction ins) (simp_all add: short_input_facts(5))

lemma no_witness_bytes:
  assumes "\<And>i. i \<in> set ins \<Longrightarrow> short_input i" and "filter (\<lambda>i. \<not> witness_is_empty (tx_witness i)) ins = []"
  shows "(\<Sum>i\<leftarrow>ins. stack_bytes i) = 0"
  using assms by (simp add: filter_empty_conv sum_list_eq_0_iff short_input_facts(6))

lemma uses_segwit_iff:
  "uses_segwit_serialization tx \<longleftrightarrow> inputs tx = [] \<or> filter (\<lambda>i. \<not> witness_is_empty (tx_witness i)) (inputs tx) \<noteq> []"
  by (auto simp: uses_segwit_serialization_def list_ex_iff filter_empty_conv)

lemma transaction_bytes_length:
  assumes "\<And>i. i \<in> set (inputs tx) \<Longrightarrow> short_input i"
  shows "length (transaction_bytes tx)
      + (if uses_segwit_serialization tx then length (filter (\<lambda>i. \<not> witness_is_empty (tx_witness i)) (inputs tx)) else 0)
    = length (legacy_bytes tx)
      + (if uses_segwit_serialization tx then 2 + (\<Sum>i\<leftarrow>inputs tx. stack_bytes i) + length (inputs tx) else 0)"
  using sum_witness_bytes [of "inputs tx", OF assms] by (simp add: transaction_bytes_def length_segwit_bytes)

text \<open>The arithmetic of the prediction, for the sums of the sizes.\<close>

lemma predict_weight_internal_eq:
  assumes "k \<le> n" and "n < 2 ^ 62" and "k = 0 \<Longrightarrow> S = 0" and "8 * m + scripts = out"
    and "4 * (8 + encoded_size n + I + encoded_size m + out) + (if k = 0 then 0 else 2 + S + n - k) < 2 ^ 63"
  shows "predict_weight_internal n (4 * I + S) k m scripts =
    Ok (word_of_nat (4 * (8 + encoded_size n + I + encoded_size m + out) + (if k = 0 then 0 else 2 + S + n - k)))"
proof -
  let ?w = "4 * (8 + encoded_size n + I + encoded_size m + out)"
  have weight: "(4 + encoded_size n + encoded_size m + (8 * m + scripts) + 4) * 4 + (4 * I + S) = ?w + S"
    using assms(4) by simp
  show ?thesis
  proof (cases "k = 0")
    case True
    then show ?thesis using assms(3,5)
      unfolding predict_weight_internal_def Let_def weight by (simp add: usize_checked_def)
  next
    case False
    have "?w + S + n < 2 ^ 64" and "\<not> ?w + S + n < k" and "?w + S + n - k + 2 < 2 ^ 64"
      and "?w + S + n - k + 2 = ?w + (2 + S + n - k)" and "?w + S < 2 ^ 64"
      using assms(1,2,5) False by simp_all
    then show ?thesis using False
      unfolding predict_weight_internal_def Let_def weight by (simp only: usize_checked_Ok res_bind.simps if_False)
  qed
qed

text \<open>
  Property C20. The prediction from the lengths of scripts and witness elements is the weight of the transaction that has them; without
  inputs it is two less, for the marker and flag bytes that such a transaction is serialised with.
\<close>

theorem predict_weight_exact:
  assumes "list_all short_input (inputs tx)"
    and "3 * length (legacy_bytes tx) + length (transaction_bytes tx) < 2 ^ 63"
  shows "predict_weight (map prediction_of (inputs tx)) (script_pubkey_lens tx) =
    Ok (word_of_nat (3 * length (legacy_bytes tx) + length (transaction_bytes tx) - (if inputs tx = [] then 2 else 0)))"
proof -
  let ?ins = "inputs tx" and ?outs = "outputs tx"
  let ?k = "length (filter (\<lambda>i. \<not> witness_is_empty (tx_witness i)) ?ins)"
  let ?I = "\<Sum>i\<leftarrow>?ins. length (tx_in_bytes i)" and ?S = "\<Sum>i\<leftarrow>?ins. stack_bytes i"
  let ?O = "\<Sum>out\<leftarrow>?outs. length (tx_out_bytes out)"
  let ?scripts = "\<Sum>len\<leftarrow>script_pubkey_lens tx. len + encoded_size len"
  have short: "\<And>i. i \<in> set ?ins \<Longrightarrow> short_input i" using assms(1) by (simp add: list_all_iff)
  have k: "?k \<le> length ?ins" by (rule length_filter_le)
  have S: "?S = 0" if "?k = 0" using no_witness_bytes [OF short] that by simp
  have ins: "length (vec_bytes tx_in_bytes ?ins) < 2 ^ 64" and outs: "length (vec_bytes tx_out_bytes ?outs) < 2 ^ 64"
    using assms(2) by (simp_all add: length_legacy_bytes)
  note counts = length_less_concat [OF ins tx_bytes_pos(1)] length_less_concat [OF outs tx_bytes_pos(2)]
  have L: "length (legacy_bytes tx) = 8 + encoded_size (length ?ins) + ?I + encoded_size (length ?outs) + ?O"
    using counts by (simp add: length_legacy_bytes length_vec_bytes)
  have segwit: "uses_segwit_serialization tx \<longleftrightarrow> ?ins = [] \<or> ?k \<noteq> 0" by (simp add: uses_segwit_iff)
  have weight: "3 * length (legacy_bytes tx) + length (transaction_bytes tx) - (if ?ins = [] then 2 else 0)
      = 4 * length (legacy_bytes tx) + (if ?k = 0 then 0 else 2 + ?S + length ?ins - ?k)"
    using transaction_bytes_length [of tx, OF short] k S unfolding segwit
    by (cases "?ins = []"; cases "?k = 0") (simp_all del: length_filter_le length_0_conv)
  then have bound: "4 * length (legacy_bytes tx) + (if ?k = 0 then 0 else 2 + ?S + length ?ins - ?k) < 2 ^ 63"
    using assms(2) by simp
  have "?S \<le> (if ?k = 0 then 0 else 2 + ?S + length ?ins - ?k)" 
  proof (cases "?k = 0")
    case False
    then show ?thesis using k by (simp only: if_False)
  qed (use S in simp)
  then have "4 * length (legacy_bytes tx) + ?S < 2 ^ 63" using bound by linarith
  then have fits: "4 * ?I + ?S < 2 ^ 64" "?O < 2 ^ 64" using L by simp_all
  have "40 * length ?ins = (\<Sum>i\<leftarrow>?ins. 40)" by (simp add: sum_list_triv)
  also have "\<dots> \<le> ?I" using short_input_facts(4) [OF short] by (intro sum_list_mono) simp
  finally have "40 * length ?ins \<le> ?I" .
  then have n: "length ?ins < 2 ^ 62" using fits(1) by simp
  have sumI: "(\<Sum>i\<leftarrow>?ins. 4 * length (tx_in_bytes i) + stack_bytes i) = 4 * ?I + ?S"
    by (simp add: sum_list_addf sum_list_const_mult)
  have "slice_inputs (map prediction_of ?ins) 0 0 = Ok (4 * ?I + ?S, ?k)"
    using slice_inputs_of [of ?ins 0 0] short fits(1) by (simp only: sumI add_0)
  moreover have scripts: "8 * length ?outs + ?scripts = ?O"
    unfolding script_pubkey_lens_def by (rule sum_output_lens [OF outs])
  moreover have "sum_sizes (\<lambda>len. usize_checked (len + encoded_size len)) 0 (script_pubkey_lens tx) = Ok ?scripts"
  proof -
    have "usize_checked (len + encoded_size len) = Ok (len + encoded_size len)" if "len \<in> set (script_pubkey_lens tx)" for len
      using scripts fits(2) length_le_sum [OF that, of "\<lambda>len. len + encoded_size len"] by (intro usize_checked_Ok) linarith
    then show ?thesis
      using scripts fits(2) sum_sizes_Ok [of "script_pubkey_lens tx" _ "\<lambda>len. len + encoded_size len" 0] by simp
  qed
  ultimately show ?thesis
    using predict_weight_internal_eq [OF k n S scripts] bound L weight
    by (simp add: predict_weight_from_slices_eq [symmetric] predict_weight_from_slices_def script_pubkey_lens_def)
qed

definition transfer_tx :: transaction where
  "transfer_tx = \<lparr>version = 2, lock_time_of = Blocks 0,
     inputs = [\<lparr>previous_output = \<lparr>txid = replicate 32 7, vout = 1\<rparr>, script_sig = [],
       sequence_no = 0xFFFFFFFF, tx_witness = witness_of [[1, 2], [3]]\<rparr>],
     outputs = [\<lparr>amount = 5000, script_pubkey = [0x51]\<rparr>]\<rparr>"

theorem predict_weight_exact_witness:
  "predict_weight (map prediction_of (inputs transfer_tx)) (script_pubkey_lens transfer_tx) =
    Ok (word_of_nat (3 * length (legacy_bytes transfer_tx) + length (transaction_bytes transfer_tx)))"
proof -
  have readable: "witness_readable (witness_of [[1, 2], [3]])"
    using example_readable by (simp add: example_tx_def example_input_def)
  have "list_all short_input (inputs transfer_tx)"
    using readable by (simp add: transfer_tx_def short_input_def out_point_ok_def length_script_bytes encoded_size_def
      witness_bytes_of length_compact_size_new elem_bytes_def)
  moreover have "3 * length (legacy_bytes transfer_tx) + length (transaction_bytes transfer_tx) < 2 ^ 63"
    by (simp add: transfer_tx_def length_legacy_bytes
        transaction_bytes_def length_segwit_bytes length_vec_bytes encoded_size_def tx_in_bytes_def out_point_bytes_def
        length_script_bytes tx_out_bytes_def witness_bytes_of length_compact_size_new elem_bytes_def)
  ultimately show ?thesis
    using predict_weight_exact [of transfer_tx] by (simp add: transfer_tx_def)
qed

text \<open>The documentation says that the weight of a prediction saturates; the product with four overflows instead.\<close>

theorem witness_weight_overflows:
  "witness_weight p = Panic \<longleftrightarrow> 2 ^ 32 \<le> 4 * unat (pred_script_size p) + unat (pred_witness_size p)"
proof (cases "unat (pred_script_size p) * 4 < 2 ^ 32")
  case True
  then have "unat (word_of_nat (unat (pred_script_size p) * 4) :: u32) = unat (pred_script_size p) * 4"
    by (simp add: unat_of_nat del: of_nat_mult)
  then show ?thesis using True
    by (auto simp: witness_weight_def u32_checked_def simp del: of_nat_mult)
next
  case False
  then show ?thesis by (simp add: witness_weight_def u32_checked_def)
qed

end
