(* ===== verification/ChaCha20.thy ===== *)
theory ChaCha20
  imports Prelude
begin

section \<open>The ChaCha20 stream cipher\<close>

text \<open>
  \<open>chacha20_poly1305/src/chacha20.rs\<close>. A \<open>U32x4\<close> is a list of four words, the cipher state a list of four of them, and
  an addition to the block counter that overflows is \<open>Panic\<close>. The vectorised rounds are proved equal to the rounds of
  RFC 8439 on sixteen words, and applying the keystream piece by piece equal to adding one stream of bytes.
\<close>

subsection \<open>Vectors of four words\<close>

type_synonym u32x4 = "u32 list"

definition u32x4_wrapping_add :: "u32x4 \<Rightarrow> u32x4 \<Rightarrow> u32x4" where
  "u32x4_wrapping_add a b = map (\<lambda>i. a ! i + b ! i) [0..<4]"

definition u32x4_rotate_left :: "u32x4 \<Rightarrow> nat \<Rightarrow> u32x4" where
  "u32x4_rotate_left a n = map (\<lambda>i. word_rotl n (a ! i)) [0..<4]"

definition rotate_elements_left :: "nat \<Rightarrow> u32x4 \<Rightarrow> u32x4" where
  "rotate_elements_left n a =
     (if n = 1 then [a ! 1, a ! 2, a ! 3, a ! 0]
      else if n = 2 then [a ! 2, a ! 3, a ! 0, a ! 1]
      else if n = 3 then [a ! 3, a ! 0, a ! 1, a ! 2]
      else a)"

definition rotate_elements_right :: "nat \<Rightarrow> u32x4 \<Rightarrow> u32x4" where
  "rotate_elements_right n a =
     (if n = 1 then [a ! 3, a ! 0, a ! 1, a ! 2]
      else if n = 2 then [a ! 2, a ! 3, a ! 0, a ! 1]
      else if n = 3 then [a ! 1, a ! 2, a ! 3, a ! 0]
      else a)"

definition u32x4_to_le_bytes :: "u32x4 \<Rightarrow> bytes" where
  "u32x4_to_le_bytes a = concat (map (\<lambda>i. to_le_bytes (a ! i)) [0..<4])"

definition u32x4_bitxor :: "u32x4 \<Rightarrow> u32x4 \<Rightarrow> u32x4" where
  "u32x4_bitxor a b = map (\<lambda>i. a ! i XOR b ! i) [0..<4]"

subsection \<open>The block function\<close>

definition WORD_1 :: u32 where "WORD_1 = 0x61707865"
definition WORD_2 :: u32 where "WORD_2 = 0x3320646e"
definition WORD_3 :: u32 where "WORD_3 = 0x79622d32"
definition WORD_4 :: u32 where "WORD_4 = 0x6b206574"

definition le_word :: "bytes \<Rightarrow> nat \<Rightarrow> u32" where
  "le_word bs i = from_le_bytes [bs ! i, bs ! (i + 1), bs ! (i + 2), bs ! (i + 3)]"

definition state_new :: "bytes \<Rightarrow> bytes \<Rightarrow> u32 \<Rightarrow> u32x4 list" where
  "state_new key nonce count =
     [[WORD_1, WORD_2, WORD_3, WORD_4],
      [le_word key 0, le_word key 4, le_word key 8, le_word key 12],
      [le_word key 16, le_word key 20, le_word key 24, le_word key 28],
      [count, le_word nonce 0, le_word nonce 4, le_word nonce 8]]"

definition quarter_round :: "u32x4 \<Rightarrow> u32x4 \<Rightarrow> u32x4 \<Rightarrow> u32x4 \<Rightarrow> u32x4 \<times> u32x4 \<times> u32x4 \<times> u32x4" where
  "quarter_round a b c d =
     (let a = u32x4_wrapping_add a b; d = u32x4_rotate_left (u32x4_bitxor d a) 16;
          c = u32x4_wrapping_add c d; b = u32x4_rotate_left (u32x4_bitxor b c) 12;
          a = u32x4_wrapping_add a b; d = u32x4_rotate_left (u32x4_bitxor d a) 8;
          c = u32x4_wrapping_add c d; b = u32x4_rotate_left (u32x4_bitxor b c) 7
      in (a, b, c, d))"

definition double_round :: "u32x4 list \<Rightarrow> u32x4 list" where
  "double_round state =
     (let (a, b, c, d) = quarter_round (state ! 0) (state ! 1) (state ! 2) (state ! 3);
          b = rotate_elements_left 1 b; c = rotate_elements_left 2 c; d = rotate_elements_left 3 d;
          (a, b, c, d) = quarter_round a b c d;
          b = rotate_elements_right 1 b; c = rotate_elements_right 2 c; d = rotate_elements_right 3 d
      in [a, b, c, d])"

definition chacha_block :: "u32x4 list \<Rightarrow> u32x4 list" where
  "chacha_block matrix =
     (let working_state = (double_round ^^ 10) matrix in
      map (\<lambda>i. u32x4_wrapping_add (working_state ! i) (matrix ! i)) [0..<4])"

definition keystream :: "u32x4 list \<Rightarrow> bytes" where
  "keystream matrix = concat (map (\<lambda>i. u32x4_to_le_bytes (matrix ! i)) [0..<4])"

subsection \<open>The cipher\<close>

definition CHACHA_BLOCKSIZE :: nat where "CHACHA_BLOCKSIZE = 64"

record chacha20 =
  chacha_key :: bytes
  chacha_nonce :: bytes
  block_count :: u32
  seek_offset_bytes :: nat

definition chacha20_new :: "bytes \<Rightarrow> bytes \<Rightarrow> u32 \<Rightarrow> chacha20" where
  "chacha20_new key nonce seek =
     \<lparr>chacha_key = key, chacha_nonce = nonce, block_count = seek div 64, seek_offset_bytes = unat (seek mod 64)\<rparr>"

definition chacha20_new_from_block :: "bytes \<Rightarrow> bytes \<Rightarrow> u32 \<Rightarrow> chacha20" where
  "chacha20_new_from_block key nonce block =
     \<lparr>chacha_key = key, chacha_nonce = nonce, block_count = block, seek_offset_bytes = 0\<rparr>"

definition keystream_at_block :: "chacha20 \<Rightarrow> u32 \<Rightarrow> bytes" where
  "keystream_at_block c block = keystream (chacha_block (state_new (chacha_key c) (chacha_nonce c) block))"

text \<open>\<open>for (a, b) in x.iter_mut().zip(y)\<close>: the bytes of \<open>x\<close> beyond the length of \<open>y\<close> stay.\<close>

definition xor_zip :: "bytes \<Rightarrow> bytes \<Rightarrow> bytes" where
  "xor_zip x y = map2 (XOR) x y @ drop (length y) x"

definition count_block :: "chacha20 \<Rightarrow> (unit, chacha20) res" where
  "count_block c = (if block_count c = - 1 then Panic else Ok (c\<lparr>block_count := block_count c + 1\<rparr>))"

text \<open>The loop over the full blocks; it returns the bytes that it changed and those that are left.\<close>

function apply_full_blocks :: "chacha20 \<Rightarrow> bytes \<Rightarrow> bytes \<Rightarrow> (unit, chacha20 \<times> bytes \<times> bytes) res" where
  "apply_full_blocks c buffer done =
     (if length buffer < CHACHA_BLOCKSIZE then Ok (c, done, buffer)
      else res_bind (count_block c) (\<lambda>c'.
        apply_full_blocks c' (drop CHACHA_BLOCKSIZE buffer)
          (done @ xor_zip (take CHACHA_BLOCKSIZE buffer) (keystream_at_block c (block_count c)))))"
  by pat_completeness auto
termination
  by (relation "measure (\<lambda>(c, buffer, _). length buffer)") (auto simp: CHACHA_BLOCKSIZE_def)

declare apply_full_blocks.simps [simp del]

definition apply_aligned :: "chacha20 \<Rightarrow> bytes \<Rightarrow> bytes \<Rightarrow> (unit, chacha20 \<times> bytes) res" where
  "apply_aligned c buffer done =
     res_bind (apply_full_blocks c buffer done) (\<lambda>(c, done, remainder).
       if remainder \<noteq> []
       then Ok (c\<lparr>seek_offset_bytes := length remainder\<rparr>,
                done @ xor_zip remainder (keystream_at_block c (block_count c)))
       else Ok (c, done))"

definition apply_keystream :: "chacha20 \<Rightarrow> bytes \<Rightarrow> (unit, chacha20 \<times> bytes) res" where
  "apply_keystream c buffer =
     (if seek_offset_bytes c \<noteq> 0
      then
        let bytes_until_aligned = 64 - seek_offset_bytes c;
            bytes_to_process = min (length buffer) bytes_until_aligned;
            first = xor_zip (take bytes_to_process buffer)
              (drop (seek_offset_bytes c) (keystream_at_block c (block_count c)))
        in if bytes_to_process < bytes_until_aligned
           then Ok (c\<lparr>seek_offset_bytes := seek_offset_bytes c + bytes_to_process\<rparr>,
                    first @ drop bytes_to_process buffer)
           else res_bind (count_block c) (\<lambda>c'.
             apply_aligned (c'\<lparr>seek_offset_bytes := 0\<rparr>) (drop bytes_to_process buffer) first)
      else apply_aligned c buffer [])"

definition get_keystream :: "chacha20 \<Rightarrow> u32 \<Rightarrow> bytes" where
  "get_keystream c block = keystream_at_block c block"

definition chacha_seek :: "chacha20 \<Rightarrow> u32 \<Rightarrow> chacha20" where
  "chacha_seek c seek = c\<lparr>block_count := seek div 64, seek_offset_bytes := unat (seek mod 64)\<rparr>"

definition chacha_to_block :: "chacha20 \<Rightarrow> u32 \<Rightarrow> chacha20" where
  "chacha_to_block c block = c\<lparr>block_count := block, seek_offset_bytes := 0\<rparr>"

subsection \<open>The rounds of RFC 8439\<close>

text \<open>
  The state of the RFC is one list of sixteen words, of which a quarter round changes four. It begins as the words of the ASCII text
  \<open>expand 32-byte k\<close>, of the key, of the block counter and of the nonce, each made of four bytes with the lowest first.
\<close>

fun rfc_words :: "bytes \<Rightarrow> u32 list" where
  "rfc_words (a # b # c # d # bs) = (ucast a + 2 ^ 8 * ucast b + 2 ^ 16 * ucast c + 2 ^ 24 * ucast d) # rfc_words bs"
| "rfc_words bs = []"

definition rfc_initial :: "bytes \<Rightarrow> bytes \<Rightarrow> u32 \<Rightarrow> u32 list" where
  "rfc_initial key nonce count =
     rfc_words (map (\<lambda>c. word_of_nat (of_char c)) ''expand 32-byte k'') @ rfc_words key @ [count] @ rfc_words nonce"


definition qround :: "u32 \<Rightarrow> u32 \<Rightarrow> u32 \<Rightarrow> u32 \<Rightarrow> u32 \<times> u32 \<times> u32 \<times> u32" where
  "qround a b c d =
     (let a = a + b; d = word_rotl 16 (d XOR a);
          c = c + d; b = word_rotl 12 (b XOR c);
          a = a + b; d = word_rotl 8 (d XOR a);
          c = c + d; b = word_rotl 7 (b XOR c)
      in (a, b, c, d))"

definition qround_at :: "nat \<times> nat \<times> nat \<times> nat \<Rightarrow> u32 list \<Rightarrow> u32 list" where
  "qround_at = (\<lambda>(i, j, k, l) st.
     let (a, b, c, d) = qround (st ! i) (st ! j) (st ! k) (st ! l) in st[i := a, j := b, k := c, l := d])"

definition inner_block :: "u32 list \<Rightarrow> u32 list" where
  "inner_block st = fold qround_at
     [(0, 4, 8, 12), (1, 5, 9, 13), (2, 6, 10, 14), (3, 7, 11, 15),
      (0, 5, 10, 15), (1, 6, 11, 12), (2, 7, 8, 13), (3, 4, 9, 14)] st"

definition rfc_block :: "bytes \<Rightarrow> bytes \<Rightarrow> u32 \<Rightarrow> bytes" where
  "rfc_block key nonce count =
     (let initial = rfc_initial key nonce count in
      concat (map to_le_bytes (map2 (+) ((inner_block ^^ 10) initial) initial)))"

lemma qround_test_vector:
  "qround 0x11111111 0x01020304 0x9b8d6f43 0x01234567 = (0xea2a92f4, 0xcb1cf8ce, 0x4581472e, 0x5881c4bb)"
  by code_simp

definition rows :: "u32x4 list \<Rightarrow> bool" where
  "rows m \<longleftrightarrow> length m = 4 \<and> list_all (\<lambda>r. length r = 4) m"

lemma length_4: "length xs = 4 \<longleftrightarrow> (\<exists>a b c d. xs = [a, b, c, d])"
  by (auto simp: numeral_eq_Suc length_Suc_conv)

lemma upt_4: "[0..<4] = [0, 1, 2, 3 :: nat]"
  by (simp add: upt_rec)

lemma quarter_round_words:
  "quarter_round [a0, a1, a2, a3] [b0, b1, b2, b3] [c0, c1, c2, c3] [d0, d1, d2, d3] =
     (let (a0, b0, c0, d0) = qround a0 b0 c0 d0; (a1, b1, c1, d1) = qround a1 b1 c1 d1;
          (a2, b2, c2, d2) = qround a2 b2 c2 d2; (a3, b3, c3, d3) = qround a3 b3 c3 d3
      in ([a0, a1, a2, a3], [b0, b1, b2, b3], [c0, c1, c2, c3], [d0, d1, d2, d3]))"
  by (simp add: quarter_round_def qround_def Let_def u32x4_wrapping_add_def u32x4_rotate_left_def u32x4_bitxor_def upt_4)

lemma double_round_rfc:
  assumes "rows m"
  shows "rows (double_round m) \<and> concat (double_round m) = inner_block (concat m)"
proof -
  obtain a b c d where m: "m = [a, b, c, d]" "length a = 4" "length b = 4" "length c = 4" "length d = 4"
    using assms by (auto simp: rows_def length_4)
  obtain a0 a1 a2 a3 b0 b1 b2 b3 c0 c1 c2 c3 d0 d1 d2 d3 where
    v: "a = [a0, a1, a2, a3]" "b = [b0, b1, b2, b3]" "c = [c0, c1, c2, c3]" "d = [d0, d1, d2, d3]"
    using m(2-5) unfolding length_4 by blast
  obtain e0 f0 g0 h0 where q0: "qround a0 b0 c0 d0 = (e0, f0, g0, h0)" by (rule prod_cases4)
  obtain e1 f1 g1 h1 where q1: "qround a1 b1 c1 d1 = (e1, f1, g1, h1)" by (rule prod_cases4)
  obtain e2 f2 g2 h2 where q2: "qround a2 b2 c2 d2 = (e2, f2, g2, h2)" by (rule prod_cases4)
  obtain e3 f3 g3 h3 where q3: "qround a3 b3 c3 d3 = (e3, f3, g3, h3)" by (rule prod_cases4)
  obtain x0 y0 z0 w0 where r0: "qround e0 f1 g2 h3 = (x0, y0, z0, w0)" by (rule prod_cases4)
  obtain x1 y1 z1 w1 where r1: "qround e1 f2 g3 h0 = (x1, y1, z1, w1)" by (rule prod_cases4)
  obtain x2 y2 z2 w2 where r2: "qround e2 f3 g0 h1 = (x2, y2, z2, w2)" by (rule prod_cases4)
  obtain x3 y3 z3 w3 where r3: "qround e3 f0 g1 h2 = (x3, y3, z3, w3)" by (rule prod_cases4)
  note rounds = q0 q1 q2 q3 r0 r1 r2 r3
  have "double_round m = [[x0, x1, x2, x3], [y3, y0, y1, y2], [z2, z3, z0, z1], [w1, w2, w3, w0]]"
    by (simp add: m(1) v double_round_def quarter_round_words rotate_elements_left_def rotate_elements_right_def rounds)
  moreover have "inner_block (concat m) = [x0, x1, x2, x3, y3, y0, y1, y2, z2, z3, z0, z1, w1, w2, w3, w0]"
    by (simp add: m(1) v inner_block_def qround_at_def rounds)
  ultimately show ?thesis by (simp add: rows_def)
qed

lemma double_rounds_rfc:
  "rows m \<Longrightarrow> rows ((double_round ^^ n) m) \<and> concat ((double_round ^^ n) m) = (inner_block ^^ n) (concat m)"
  by (induction n) (simp_all add: double_round_rfc)

lemma rows_state_new [simp]: "rows (state_new key nonce count)"
  by (simp add: rows_def state_new_def)

lemma keystream_sum:
  assumes "rows w" and "rows m"
  shows "keystream (map (\<lambda>i. u32x4_wrapping_add (w ! i) (m ! i)) [0..<4])
    = concat (map to_le_bytes (map2 (+) (concat w) (concat m)))"
proof -
  obtain a b c d where w: "w = [a, b, c, d]" "length a = 4" "length b = 4" "length c = 4" "length d = 4"
    using assms(1) by (auto simp: rows_def length_4)
  obtain e f g h where m: "m = [e, f, g, h]" "length e = 4" "length f = 4" "length g = 4" "length h = 4"
    using assms(2) by (auto simp: rows_def length_4)
  have row: "u32x4_to_le_bytes (u32x4_wrapping_add x y) = concat (map to_le_bytes (map2 (+) x y))"
    if "length x = 4" "length y = 4" for x y
    using that by (auto simp: length_4 u32x4_to_le_bytes_def u32x4_wrapping_add_def upt_4)
  show ?thesis using w(2-) m(2-) by (simp add: w(1) m(1) keystream_def upt_4 row zip_append)
qed

text \<open>The block function of the code, and that its first state is that of the RFC.\<close>

definition code_block :: "bytes \<Rightarrow> bytes \<Rightarrow> u32 \<Rightarrow> bytes" where
  "code_block key nonce count = keystream (chacha_block (state_new key nonce count))"

lemma code_block_eq:
  "code_block key nonce count
    = concat (map to_le_bytes (map2 (+) ((inner_block ^^ 10) (concat (state_new key nonce count))) (concat (state_new key nonce count))))"
proof -
  let ?m = "state_new key nonce count"
  have "rows ((double_round ^^ 10) ?m)" and "concat ((double_round ^^ 10) ?m) = (inner_block ^^ 10) (concat ?m)"
    using double_rounds_rfc [of ?m 10] by simp_all
  then show ?thesis by (simp add: code_block_def chacha_block_def Let_def keystream_sum)
qed

lemma keystream_at_block_code: "keystream_at_block c block = code_block (chacha_key c) (chacha_nonce c) block"
  by (simp add: keystream_at_block_def code_block_def)

lemma length_code_block [simp]: "length (code_block key nonce count) = 64"
proof -
  let ?m = "state_new key nonce count"
  have sixteen: "length (concat m) = 16" if "rows m" for m :: "u32x4 list"
    using that by (auto simp: rows_def length_4)
  have bytes: "length (concat (map to_le_bytes ws)) = 4 * length ws" for ws :: "u32 list"
    by (induction ws) simp_all
  have "(inner_block ^^ 10) (concat ?m) = concat ((double_round ^^ 10) ?m)" "rows ((double_round ^^ 10) ?m)"
    using double_rounds_rfc [of ?m 10] by simp_all
  then have "length ((inner_block ^^ 10) (concat ?m)) = 16" using sixteen by metis
  then show ?thesis unfolding code_block_eq by (simp only: bytes length_map length_zip sixteen rows_state_new)
qed

lemma rfc_words_le:
  "length bs = 4 * k \<Longrightarrow> rfc_words bs = map (\<lambda>i. le_word bs (4 * i)) [0..<k]"
proof (induction k arbitrary: bs)
  case (Suc k)
  then obtain a b c d bs' where bs: "bs = a # b # c # d # bs'" "length bs' = 4 * k"
    by (auto simp: length_Suc_conv numeral_eq_Suc)
  have "le_word bs (4 * Suc i) = le_word bs' (4 * i)" for i
    by (simp add: le_word_def bs(1) numeral_eq_Suc)
  moreover have "le_word bs 0 = ucast a + 2 ^ 8 * ucast b + 2 ^ 16 * ucast c + 2 ^ 24 * ucast d"
    by (simp add: le_word_def bs(1) from_le_bytes_def algebra_simps)
  moreover have "[0..<Suc k] = 0 # map Suc [0..<k]" by (simp add: map_Suc_upt upt_conv_Cons del: upt_Suc)
  ultimately show ?case using Suc.IH [OF bs(2)] by (simp add: bs(1) comp_def del: upt_Suc)
qed simp

lemma rfc_constants: "rfc_words (map (\<lambda>c. word_of_nat (of_char c)) ''expand 32-byte k'') = [WORD_1, WORD_2, WORD_3, WORD_4]"
  by code_simp

lemma state_new_rfc:
  assumes "length key = 32" "length nonce = 12"
  shows "concat (state_new key nonce count) = rfc_initial key nonce count"
  using rfc_words_le [of key 8] rfc_words_le [of nonce 3] assms
  by (simp add: rfc_initial_def rfc_constants state_new_def WORD_1_def WORD_2_def WORD_3_def WORD_4_def upt_rec)

lemma code_block_rfc:
  assumes "length key = 32" "length nonce = 12"
  shows "code_block key nonce = rfc_block key nonce"
  by (rule ext) (simp add: code_block_eq rfc_block_def Let_def state_new_rfc [OF assms])

text \<open>
  The example of section 2.3.2 of the RFC: the block function that the properties use gives its bytes. A quarter round is evaluated
  step by step, with words cut to 32 bits after each addition.
\<close>

definition add_ab where "add_ab = (\<lambda>(a, b, c, d). (a + b, b, c, d :: u32))"
definition add_cd where "add_cd = (\<lambda>(a, b, c, d). (a, b, c + d, d :: u32))"
definition mix_d where "mix_d n = (\<lambda>(a, b, c, d). (a, b, c, word_rotl n (d XOR a :: u32)))"
definition mix_b where "mix_b n = (\<lambda>(a, b, c, d). (a, word_rotl n (b XOR c :: u32), c, d :: u32))"

lemma qround_steps: "qround a b c d = mix_b 7 (add_cd (mix_d 8 (add_ab (mix_b 12 (add_cd (mix_d 16 (add_ab (a, b, c, d))))))))"
  by (simp add: qround_def add_ab_def add_cd_def mix_d_def mix_b_def Let_def)

lemma take_bit_u32: "take_bit 32 w = (w :: u32)"
  using take_bit_length_eq [of w] by simp

lemma word_rotl_parts:
  assumes "n < 32"
  shows "word_rotl n (w :: u32) = push_bit n (take_bit (32 - n) w) OR drop_bit (32 - n) w"
proof (rule bit_word_eqI)
  fix k
  assume "k < LENGTH(32)"
  then have k: "k < 32" by simp
  show "bit (word_rotl n w) k \<longleftrightarrow> bit (push_bit n (take_bit (32 - n) w) OR drop_bit (32 - n) w) k"
  proof (cases "k < n")
    case True
    then have "(k + (32 - n)) mod 32 = 32 - n + k" using assms by simp
    then show ?thesis using assms k True by (simp add: bit_word_rotl_iff bit_or_iff bit_push_bit_iff bit_drop_bit_eq)
  next
    case False
    then have "(k + (32 - n)) mod 32 = k - n" "k - n < 32 - n" using assms k by (simp_all add: mod_if)
    then show ?thesis using assms k False
      by (auto simp: bit_word_rotl_iff bit_or_iff bit_push_bit_iff bit_drop_bit_eq bit_take_bit_iff dest: bit_imp_le_length)
  qed
qed

lemma quarter_steps:
  "add_ab (a, b, c, d) = (take_bit 32 (a + b), b, c, d)" "add_cd (a, b, c, d) = (a, b, take_bit 32 (c + d), d)"
  "n < 32 \<Longrightarrow> mix_d n (a, b, c, d) = (a, b, c, push_bit n (take_bit (32 - n) (d XOR a)) OR drop_bit (32 - n) (d XOR a))"
  "n < 32 \<Longrightarrow> mix_b n (a, b, c, d) = (a, push_bit n (take_bit (32 - n) (b XOR c)) OR drop_bit (32 - n) (b XOR c), c, d)"
  by (simp_all add: add_ab_def add_cd_def mix_d_def mix_b_def take_bit_u32 word_rotl_parts)

fun diagonals where
  "diagonals (a0, b0, c0, d0) (a1, b1, c1, d1) (a2, b2, c2, d2) (a3, b3, c3, d3) =
     (qround a0 b1 c2 d3, qround a1 b2 c3 d0, qround a2 b3 c0 d1, qround a3 b0 c1 d2)"

fun of_diagonals where
  "of_diagonals ((a0, b1, c2, d3), (a1, b2, c3, d0), (a2, b3, c0, d1), (a3, b0, c1, d2)) =
     [a0, a1, a2, a3, b0, b1, b2, b3, c0, c1, c2, c3, d0, d1, d2, d3 :: u32]"

lemma inner_block_list:
  "inner_block [a0, a1, a2, a3, b0, b1, b2, b3, c0, c1, c2, c3, d0, d1, d2, d3]
    = of_diagonals (diagonals (qround a0 b0 c0 d0) (qround a1 b1 c1 d1) (qround a2 b2 c2 d2) (qround a3 b3 c3 d3))"
proof -
  obtain e0 f0 g0 h0 where q0: "qround a0 b0 c0 d0 = (e0, f0, g0, h0)" by (rule prod_cases4)
  obtain e1 f1 g1 h1 where q1: "qround a1 b1 c1 d1 = (e1, f1, g1, h1)" by (rule prod_cases4)
  obtain e2 f2 g2 h2 where q2: "qround a2 b2 c2 d2 = (e2, f2, g2, h2)" by (rule prod_cases4)
  obtain e3 f3 g3 h3 where q3: "qround a3 b3 c3 d3 = (e3, f3, g3, h3)" by (rule prod_cases4)
  obtain x0 y0 z0 w0 where r0: "qround e0 f1 g2 h3 = (x0, y0, z0, w0)" by (rule prod_cases4)
  obtain x1 y1 z1 w1 where r1: "qround e1 f2 g3 h0 = (x1, y1, z1, w1)" by (rule prod_cases4)
  obtain x2 y2 z2 w2 where r2: "qround e2 f3 g0 h1 = (x2, y2, z2, w2)" by (rule prod_cases4)
  obtain x3 y3 z3 w3 where r3: "qround e3 f0 g1 h2 = (x3, y3, z3, w3)" by (rule prod_cases4)
  show ?thesis by (simp add: inner_block_def qround_at_def q0 q1 q2 q3 r0 r1 r2 r3)
qed

lemma ten_times: "(f ^^ 10) x = f (f (f (f (f (f (f (f (f (f x)))))))))"
  by (simp add: numeral_eq_Suc)

lemma le_of_nat_word: "le_of_nat 4 n = map word_of_nat [n, n div 256, n div 256 div 256, n div 256 div 256 div 256]"
proof -
  have four: "4 = Suc (Suc (Suc (Suc 0)))" by simp
  show ?thesis unfolding four by simp
qed

lemma rfc_example: "rfc_initial (map word_of_nat [0..<32]) [0,0,0,9,0,0,0,0x4a,0,0,0,0] 1 =
  [0x61707865, 0x3320646e, 0x79622d32, 0x6b206574, 0x03020100, 0x07060504, 0x0b0a0908, 0x0f0e0d0c,
   0x13121110, 0x17161514, 0x1b1a1918, 0x1f1e1d1c, 1, 0x09000000, 0x4a000000, 0]"
  by code_simp

lemma rfc_block_test_vector:
  "rfc_block (map word_of_nat [0..<32]) [0,0,0,9,0,0,0,0x4a,0,0,0,0] 1 =
   [0x10,0xf1,0xe7,0xe4,0xd1,0x3b,0x59,0x15,0x50,0x0f,0xdd,0x1f,0xa3,0x20,0x71,0xc4,
    0xc7,0xd1,0xf4,0xc7,0x33,0xc0,0x68,0x03,0x04,0x22,0xaa,0x9a,0xc3,0xd4,0x6c,0x4e,
    0xd2,0x82,0x64,0x46,0x07,0x9f,0xaa,0x09,0x14,0xc2,0xd7,0x05,0xd9,0x8b,0x02,0xa2,
    0xb5,0x12,0x9c,0xd1,0xde,0x16,0x4e,0xb9,0xcb,0xd0,0x83,0xe8,0xa2,0x50,0x3c,0x4e]"
proof -
  let ?st = "[0x61707865, 0x3320646e, 0x79622d32, 0x6b206574, 0x03020100, 0x07060504, 0x0b0a0908, 0x0f0e0d0c,
   0x13121110, 0x17161514, 0x1b1a1918, 0x1f1e1d1c, 1, 0x09000000, 0x4a000000, 0] :: u32 list"
  have "(inner_block ^^ 10) ?st =
   [0x837778ab, 0xe238d763, 0xa67ae21e, 0x5950bb2f, 0xc4f2d0c7, 0xfc62bb2f, 0x8fa018fc, 0x3f5ec7b7,
    0x335271c2, 0xf29489f3, 0xeabda8fc, 0x82e46ebd, 0xd19c12b4, 0xb04e16de, 0x9e83d0cb, 0x4e3c50a2]"
    unfolding ten_times by (simp add: inner_block_list qround_steps quarter_steps)
  then show ?thesis unfolding rfc_block_def Let_def rfc_example by (simp add: to_le_bytes_def le_of_nat_word)
qed

subsection \<open>Pieces of one stream\<close>

text \<open>The stream of the blocks \<open>block 0\<close>, \<open>block 1\<close> and so on, from a position on.\<close>

definition key_stream :: "(u32 \<Rightarrow> bytes) \<Rightarrow> nat \<Rightarrow> nat \<Rightarrow> bytes" where
  "key_stream block pos n = map (\<lambda>i. block (word_of_nat (i div 64)) ! (i mod 64)) [pos..<pos + n]"

definition position :: "chacha20 \<Rightarrow> nat" where
  "position c = 64 * unat (block_count c) + seek_offset_bytes c"

definition at_position :: "chacha20 \<Rightarrow> nat \<Rightarrow> chacha20" where
  "at_position c p = c\<lparr>block_count := word_of_nat (p div 64), seek_offset_bytes := p mod 64\<rparr>"

lemma length_key_stream [simp]: "length (key_stream block pos n) = n"
  by (simp add: key_stream_def)

lemma key_stream_add: "key_stream block pos (m + n) = key_stream block pos m @ key_stream block (pos + m) n"
  using upt_add_eq_append [of pos "pos + m" n] by (simp add: key_stream_def add.assoc)

lemma key_stream_block:
  assumes "off + n \<le> 64" "length (block (word_of_nat b)) = 64"
  shows "key_stream block (64 * b + off) n = take n (drop off (block (word_of_nat b)))"
proof (rule nth_equalityI)
  fix i
  assume "i < length (key_stream block (64 * b + off) n)"
  then have "i < n" "off + i < 64" using assms(1) by simp_all
  then show "key_stream block (64 * b + off) n ! i = take n (drop off (block (word_of_nat b))) ! i"
    by (simp add: key_stream_def add.assoc assms(2))
qed (use assms in simp)

lemma xor_zip_eq: "length x \<le> length y \<Longrightarrow> xor_zip x y = map2 (XOR) x (take (length x) y)"
  by (intro nth_equalityI) (simp_all add: xor_zip_def)

text \<open>A piece of a block is a piece of the stream.\<close>

lemma xor_block_piece:
  assumes "seek_offset_bytes c + length x \<le> 64"
  shows "xor_zip x (drop (seek_offset_bytes c) (keystream_at_block c (block_count c)))
    = map2 (XOR) x (key_stream (code_block (chacha_key c) (chacha_nonce c)) (position c) (length x))"
  using assms key_stream_block [where block = "code_block (chacha_key c) (chacha_nonce c)" and b = "unat (block_count c)", OF assms length_code_block]
  by (simp add: xor_zip_eq keystream_at_block_code position_def)

lemma count_block_eq:
  "count_block c = (if unat (block_count c) + 1 < 2 ^ 32 then Ok (c\<lparr>block_count := block_count c + 1\<rparr>) else Panic)"
proof -
  have "block_count c = - 1 \<longleftrightarrow> unat (block_count c) = 2 ^ 32 - 1"
    by (simp add: word_unat_eq_iff unsigned_minus_1_eq_mask mask_eq_exp_minus_1)
  moreover have "unat (block_count c) < 2 ^ 32" using unsigned_less [of "block_count c"] by simp
  ultimately show ?thesis by (auto simp: count_block_def)
qed

lemma position_next:
  assumes "unat (block_count c) + 1 < 2 ^ 32" and "seek_offset_bytes c = 0"
  shows "position (c\<lparr>block_count := block_count c + 1\<rparr>) = position c + 64"
proof -
  have "unat (block_count c + 1) = unat (block_count c) + 1" using assms(1) by (simp add: unat_word_ariths)
  then show ?thesis using assms(2) by (simp add: position_def)
qed

lemma position_bound: "64 * unat (block_count c) < 2 ^ 38"
  using unsigned_less [of "block_count c", where ?'a = nat] by simp

lemma at_position_self: "seek_offset_bytes c < 64 \<Longrightarrow> at_position c (position c) = c"
  by (simp add: at_position_def position_def)

lemma at_position_update [simp]:
  "at_position (c\<lparr>block_count := b\<rparr>) p = at_position c p"
  "at_position (c\<lparr>seek_offset_bytes := off\<rparr>) p = at_position c p"
  by (simp_all add: at_position_def)

lemma map2_append: "length x = length y \<Longrightarrow> map2 f x y @ map2 f x' y' = map2 f (x @ x') (y @ y')"
  by (simp add: zip_append)

lemma apply_full_blocks_eq:
  assumes "seek_offset_bytes c = 0"
  shows "apply_full_blocks c buf dn =
    (let n = length buf div 64; p = position c in
     if p + 64 * n < 2 ^ 38
     then Ok (at_position c (p + 64 * n),
       dn @ map2 (XOR) (take (64 * n) buf) (key_stream (code_block (chacha_key c) (chacha_nonce c)) p (64 * n)), drop (64 * n) buf)
     else Panic)"
  using assms
proof (induction c buf dn rule: apply_full_blocks.induct)
  case (1 c buf dn)
  have off: "seek_offset_bytes c = 0" by (rule 1(2))
  show ?case
  proof (cases "length buf < 64")
    case True
    then show ?thesis using off position_bound [of c] at_position_self [of c]
      by (subst apply_full_blocks.simps) (simp add: CHACHA_BLOCKSIZE_def Let_def position_def)
  next
    case False
    define n where "n = length (drop 64 buf) div 64"
    have n: "length buf div 64 = Suc n" using False by (simp add: n_def le_div_geq)
    show ?thesis
    proof (cases "unat (block_count c) + 1 < 2 ^ 32")
      case False
      then show ?thesis using \<open>\<not> length buf < 64\<close> n off
        by (subst apply_full_blocks.simps) (simp add: CHACHA_BLOCKSIZE_def Let_def count_block_eq position_def)
    next
      case True
      let ?c = "c\<lparr>block_count := block_count c + 1\<rparr>"
      let ?dn = "dn @ xor_zip (take 64 buf) (keystream_at_block c (block_count c))"
      have count: "count_block c = Ok ?c" using True by (simp add: count_block_eq)
      have "apply_full_blocks c buf dn = apply_full_blocks ?c (drop 64 buf) ?dn"
        using False by (subst apply_full_blocks.simps) (simp add: CHACHA_BLOCKSIZE_def count)
      also have "\<dots> = (if position c + 64 + 64 * n < 2 ^ 38
         then Ok (at_position c (position c + 64 + 64 * n),
           ?dn @ map2 (XOR) (take (64 * n) (drop 64 buf)) (key_stream (code_block (chacha_key c) (chacha_nonce c)) (position c + 64) (64 * n)),
           drop (64 * n) (drop 64 buf))
         else Panic)"
        using 1(1) [of ?c] False off count position_next [OF True off] by (simp add: CHACHA_BLOCKSIZE_def Let_def n_def)
      also have "?dn @ map2 (XOR) (take (64 * n) (drop 64 buf)) (key_stream (code_block (chacha_key c) (chacha_nonce c)) (position c + 64) (64 * n))
          = dn @ map2 (XOR) (take (64 * Suc n) buf) (key_stream (code_block (chacha_key c) (chacha_nonce c)) (position c) (64 * Suc n))"
      proof -
        have "xor_zip (take 64 buf) (keystream_at_block c (block_count c))
            = map2 (XOR) (take 64 buf) (key_stream (code_block (chacha_key c) (chacha_nonce c)) (position c) 64)"
          using xor_block_piece [of c "take 64 buf"] False off by simp
        moreover have "take (64 * Suc n) buf = take 64 buf @ take (64 * n) (drop 64 buf)"
          by (simp add: take_add)
        moreover have "key_stream (code_block (chacha_key c) (chacha_nonce c)) (position c) (64 * Suc n)
            = key_stream (code_block (chacha_key c) (chacha_nonce c)) (position c) 64
              @ key_stream (code_block (chacha_key c) (chacha_nonce c)) (position c + 64) (64 * n)"
          by (simp add: key_stream_add)
        ultimately show ?thesis using False by (simp only: append_assoc) (simp add: zip_append)
      qed
      finally show ?thesis by (simp add: n Let_def add.assoc add.commute [of "64 * n" 64])
    qed
  qed
qed

lemma position_at_position [simp]: "p < 2 ^ 38 \<Longrightarrow> position (at_position c p) = p"
  by (simp add: position_def at_position_def unat_of_nat)

lemma at_position_fields [simp]:
  "seek_offset_bytes (at_position c p) = p mod 64" "chacha_key (at_position c p) = chacha_key c"
  "chacha_nonce (at_position c p) = chacha_nonce c" "at_position (at_position c p) q = at_position c q"
  by (simp_all add: at_position_def)

lemma block_fits: "r < 64 \<Longrightarrow> 64 * u + r < 64 * k \<longleftrightarrow> u < k" for r u k :: nat
  by (cases "u < k") simp_all

lemma apply_aligned_eq:
  assumes "seek_offset_bytes c = 0"
  shows "apply_aligned c buf dn =
    (if position c + length buf < 2 ^ 38
     then Ok (at_position c (position c + length buf),
       dn @ map2 (XOR) buf (key_stream (code_block (chacha_key c) (chacha_nonce c)) (position c) (length buf)))
     else Panic)"
proof -
  define n r where "n = length buf div 64" and "r = length buf mod 64"
  let ?p = "position c" and ?rest = "drop (64 * n) buf"
  have len: "length buf = 64 * n + r" "r < 64" "length ?rest = r"
    by (simp_all add: n_def r_def minus_mult_div_eq_mod)
  have p: "?p = 64 * unat (block_count c)" using assms by (simp add: position_def)
  have fits: "?p + 64 * n < 2 ^ 38 \<longleftrightarrow> ?p + length buf < 2 ^ 38"
    using block_fits [of r "unat (block_count c) + n" "2 ^ 32"] block_fits [of 0 "unat (block_count c) + n" "2 ^ 32"] len(2)
    by (simp add: p len(1) add.assoc)
  have split: "map2 (XOR) (take (64 * n) buf) (key_stream b ?p (64 * n))
      @ map2 (XOR) ?rest (key_stream b (?p + 64 * n) r) = map2 (XOR) buf (key_stream b ?p (length buf))" for b
    using map2_append [of "take (64 * n) buf" "key_stream b ?p (64 * n)" "(XOR)" ?rest "key_stream b (?p + 64 * n) r"]
      len(1) by (simp add: key_stream_add)
  show ?thesis
  proof (cases "?p + length buf < 2 ^ 38")
    case False
    then show ?thesis using fits by (simp add: apply_aligned_def apply_full_blocks_eq [OF assms] Let_def n_def)
  next
    case True
    let ?c = "at_position c (?p + 64 * n)"
    have full: "apply_full_blocks c buf dn = Ok (?c,
        dn @ map2 (XOR) (take (64 * n) buf) (key_stream (code_block (chacha_key c) (chacha_nonce c)) ?p (64 * n)), ?rest)"
      using True fits by (simp add: apply_full_blocks_eq [OF assms] Let_def n_def)
    have aligned: "seek_offset_bytes ?c = 0" by (simp add: p)
    have "xor_zip ?rest (keystream_at_block ?c (block_count ?c))
        = map2 (XOR) ?rest (key_stream (code_block (chacha_key c) (chacha_nonce c)) (?p + 64 * n) r)"
      using xor_block_piece [of ?c ?rest] aligned len fits True by simp
    moreover have "?c\<lparr>seek_offset_bytes := r\<rparr> = at_position c (?p + length buf)"
      using len(2) by (simp add: at_position_def p len(1))
    moreover have "r = 0 \<Longrightarrow> ?c = at_position c (?p + length buf)" using len(1) by simp
    ultimately show ?thesis
      using True split [of "code_block (chacha_key c) (chacha_nonce c)"] len(3)
      by (cases "r = 0") (auto simp: apply_aligned_def full)
  qed
qed

lemma apply_keystream_stream:
  assumes "seek_offset_bytes c < 64"
  shows "apply_keystream c buf =
    (if position c + length buf < 2 ^ 38
     then Ok (at_position c (position c + length buf),
       map2 (XOR) buf (key_stream (code_block (chacha_key c) (chacha_nonce c)) (position c) (length buf)))
     else Panic)"
proof (cases "seek_offset_bytes c = 0")
  case True
  then show ?thesis by (simp add: apply_keystream_def apply_aligned_eq)
next
  case False
  let ?off = "seek_offset_bytes c" and ?p = "position c" and ?b = "code_block (chacha_key c) (chacha_nonce c)"
  define m where "m = min (length buf) (64 - ?off)"
  have first: "xor_zip (take m buf) (drop ?off (keystream_at_block c (block_count c)))
      = map2 (XOR) (take m buf) (key_stream ?b ?p m)"
    using xor_block_piece [of c "take m buf"] assms by (simp add: m_def)
  have bound: "unat (block_count c) < 2 ^ 32" using unsigned_less [of "block_count c"] by simp
  show ?thesis
  proof (cases "m < 64 - ?off")
    case True
    then have m: "m = length buf" "?off + m < 64" by (simp_all add: m_def)
    then have "?p + length buf < 2 ^ 38" using bound by (simp add: position_def)
    moreover have "c\<lparr>seek_offset_bytes := ?off + m\<rparr> = at_position c (?p + length buf)"
      using m by (simp add: at_position_def position_def add.assoc)
    ultimately show ?thesis
      using False True first m(1) unfolding apply_keystream_def Let_def m_def [symmetric] by simp
  next
    case long: False
    then have m: "?off + m = 64" "m \<le> length buf" using assms by (simp_all add: m_def)
    have not_short: "\<not> m < 64 - ?off" by (rule long)
    have p: "?p + m = 64 * (unat (block_count c) + 1)" using m(1) by (simp add: position_def add.assoc)
    show ?thesis
    proof (cases "unat (block_count c) + 1 < 2 ^ 32")
      case False
      then have "\<not> ?p + length buf < 2 ^ 38" using p m(2) bound by simp
      then show ?thesis
        using \<open>?off \<noteq> 0\<close> not_short False unfolding apply_keystream_def Let_def m_def [symmetric]
        by (simp add: count_block_eq)
    next
      case True
      let ?c = "c\<lparr>block_count := block_count c + 1, seek_offset_bytes := 0\<rparr>"
      have count: "count_block c = Ok (c\<lparr>block_count := block_count c + 1\<rparr>)" using True by (simp add: count_block_eq)
      have pos: "position ?c = ?p + m" using True p by (simp add: position_def unat_word_ariths)
      have "apply_keystream c buf = apply_aligned ?c (drop m buf) (map2 (XOR) (take m buf) (key_stream ?b ?p m))"
        using \<open>?off \<noteq> 0\<close> not_short unfolding apply_keystream_def Let_def m_def [symmetric]
        by (simp add: count first)
      also have "\<dots> = (if ?p + length buf < 2 ^ 38
        then Ok (at_position c (?p + length buf), map2 (XOR) (take m buf) (key_stream ?b ?p m)
          @ map2 (XOR) (drop m buf) (key_stream ?b (?p + m) (length buf - m)))
        else Panic)"
        using m(2) by (simp add: apply_aligned_eq pos at_position_def)
      also have "map2 (XOR) (take m buf) (key_stream ?b ?p m)
          @ map2 (XOR) (drop m buf) (key_stream ?b (?p + m) (length buf - m))
        = map2 (XOR) buf (key_stream ?b ?p (length buf))"
        using m(2) key_stream_add [of ?b ?p m "length buf - m"] by (simp add: map2_append)
      finally show ?thesis .
    qed
  qed
qed

text \<open>A sequence of calls on the pieces of a message.\<close>

fun apply_pieces :: "chacha20 \<Rightarrow> bytes list \<Rightarrow> (unit, chacha20 \<times> bytes) res" where
  "apply_pieces c [] = Ok (c, [])"
| "apply_pieces c (x # xs) =
     res_bind (apply_keystream c x) (\<lambda>(c', x'). res_bind (apply_pieces c' xs) (\<lambda>(c'', xs'). Ok (c'', x' @ xs')))"

text \<open>What the types of the source guarantee: a key of 32 bytes, a nonce of 12, and an offset in a block.\<close>

definition cipher_ok :: "chacha20 \<Rightarrow> bool" where
  "cipher_ok c \<longleftrightarrow> length (chacha_key c) = 32 \<and> length (chacha_nonce c) = 12 \<and> seek_offset_bytes c < 64"

lemma cipher_ok_new:
  assumes "length key = 32" "length nonce = 12"
  shows "cipher_ok (chacha20_new key nonce seek)" "cipher_ok (chacha20_new_from_block key nonce block)"
    "cipher_ok c \<Longrightarrow> cipher_ok (chacha_seek c seek)" "cipher_ok c \<Longrightarrow> cipher_ok (chacha_to_block c block)"
proof -
  have "unat (seek mod 64) < 64" by (simp add: unat_mod)
  then show "cipher_ok (chacha20_new key nonce seek)" "cipher_ok (chacha20_new_from_block key nonce block)"
    "cipher_ok c \<Longrightarrow> cipher_ok (chacha_seek c seek)" "cipher_ok c \<Longrightarrow> cipher_ok (chacha_to_block c block)"
    using assms by (simp_all add: cipher_ok_def chacha20_new_def chacha20_new_from_block_def chacha_seek_def chacha_to_block_def)
qed

lemma apply_pieces_stream:
  assumes "seek_offset_bytes c < 64"
  shows "apply_pieces c xs =
    (if position c + length (concat xs) < 2 ^ 38
     then Ok (at_position c (position c + length (concat xs)),
       map2 (XOR) (concat xs) (key_stream (code_block (chacha_key c) (chacha_nonce c)) (position c) (length (concat xs))))
     else Panic)"
  using assms
proof (induction xs arbitrary: c)
  case Nil
  then show ?case using position_bound [of c] block_fits [of "seek_offset_bytes c" "unat (block_count c)" "2 ^ 32"]
    by (simp add: at_position_self) (simp add: position_def)
next
  case (Cons x xs)
  let ?p = "position c" and ?b = "code_block (chacha_key c) (chacha_nonce c)"
  show ?case
  proof (cases "?p + length x < 2 ^ 38")
    case False
    then show ?thesis using Cons.prems by (simp add: apply_keystream_stream)
  next
    case True
    have first: "apply_keystream c x = Ok (at_position c (?p + length x), map2 (XOR) x (key_stream ?b ?p (length x)))"
      using True Cons.prems by (simp add: apply_keystream_stream)
    have rest: "apply_pieces (at_position c (?p + length x)) xs =
      (if ?p + length x + length (concat xs) < 2 ^ 38
       then Ok (at_position c (?p + length x + length (concat xs)),
         map2 (XOR) (concat xs) (key_stream ?b (?p + length x) (length (concat xs))))
       else Panic)"
      using True by (simp only: Cons.IH [of "at_position c (?p + length x)"] at_position_fields position_at_position mod_less_divisor)
    have "map2 (XOR) (x @ concat xs) (key_stream ?b ?p (length x + length (concat xs)))
      = map2 (XOR) x (key_stream ?b ?p (length x))
        @ map2 (XOR) (concat xs) (key_stream ?b (?p + length x) (length (concat xs)))"
      by (simp add: key_stream_add zip_append)
    then show ?thesis unfolding apply_pieces.simps first using rest by (simp add: add.assoc)
  qed
qed

text \<open>
  Property C23. However a message is cut into pieces, the calls that encrypt them add one stream of bytes, the blocks of RFC 8439 for the key and the nonce from
  the position of the cipher on, and move the position by the length of the message; one of them panics exactly when the
  position reaches the end of the stream of \<open>2 ^ 32\<close> blocks.
\<close>

theorem chacha20_one_stream:
  assumes "cipher_ok c"
  shows "apply_pieces c xs =
    (if position c + length (concat xs) < 2 ^ 38
     then Ok (at_position c (position c + length (concat xs)),
       map2 (XOR) (concat xs) (key_stream (rfc_block (chacha_key c) (chacha_nonce c)) (position c) (length (concat xs))))
     else Panic)"
  using assms apply_pieces_stream [of c xs] by (simp add: cipher_ok_def code_block_rfc)

theorem chacha20_one_stream_witness:
  "apply_pieces (chacha20_new (replicate 32 1) (replicate 12 2) 70) [[1, 2, 3], [], replicate 100 7] =
    Ok (at_position (chacha20_new (replicate 32 1) (replicate 12 2) 70) 173,
      map2 (XOR) ([1, 2, 3] @ replicate 100 7) (key_stream (rfc_block (replicate 32 1) (replicate 12 2)) 70 103))"
  using chacha20_one_stream [of "chacha20_new (replicate 32 1) (replicate 12 2) 70" "[[1, 2, 3], [], replicate 100 7]"]
  by (simp add: cipher_ok_new(1)) (simp add: chacha20_new_def position_def)

text \<open>Adding the stream twice gives the message back.\<close>

lemma map2_xor_twice: "length x \<le> length k \<Longrightarrow> map2 (XOR) (map2 (XOR) x k) k = (x :: bytes)"
  by (intro nth_equalityI) (simp_all add: xor.assoc)

lemma apply_keystream_inverse:
  assumes "seek_offset_bytes c < 64" and "apply_keystream c x = Ok (c', y)"
  shows "apply_keystream c y = Ok (c', x)"
  using assms by (auto simp: apply_keystream_stream map2_xor_twice split: if_splits)

end
