(* ===== verification/Spec2Isabelle.thy ===== *)
theory Spec2Isabelle
  imports Tx_Codec Lock_Times Block Pow U256_Text Reject Fees Amount_Roundtrip Merkle_Block Taproot_Spend Taproot_Huffman
    Script_Templates Address_Text Sighash_Commit Tx_Weight ChaCha20
begin

text \<open>
  A verification development of rust-bitcoin, a collection of Rust crates for Bitcoin data structures. It models the
  consensus encoding, transactions and blocks, proof of work, amounts, Merkle proofs, scripts, addresses, Taproot and
  signature hashes as the crates implement them, and proves what makes them correct.

  \<^bold>\<open>The program.\<close> \<open>consensus_encoding\<close> defines decoders that are fed slices (\<open>push_bytes\<close>, \<open>end\<close>, \<open>read_limit\<close>) and
  encoders that are asked for chunks (\<open>current_chunk\<close>, \<open>advance\<close>), drivers that run them over slices and readers, and
  combinators. \<open>units\<close> holds amounts, weights, fee rates, lock times and targets; \<open>primitives\<close> scripts, witnesses,
  transactions, Merkle trees and blocks, whose codecs are built from the combinators. \<open>bitcoin\<close> adds operations: proof
  of work, script instructions and templates, sizes and weights, Taproot, addresses, signature hashes. \<open>base58\<close>,
  \<open>network\<close>, \<open>addresses\<close>, \<open>taproot-primitives\<close> and \<open>crypto\<close> serve it; \<open>p2p\<close> carries blocks, proofs and messages;
  \<open>chacha20_poly1305\<close> encrypts its connections.

  \<^bold>\<open>Conventions.\<close> A \<open>u8\<close> to \<open>u128\<close> is a word of that width; an \<open>i64\<close> is an \<open>int\<close> and a \<open>usize\<close> a natural number, with the
  bounds of the machine type written out where they matter (\<open>usize\<close> has 64 bits). A slice or vector is a list, a string
  the list of its UTF-8 bytes. A fallible function returns \<open>res\<close> (Prelude): \<open>Ok\<close>, \<open>Err\<close>, \<open>Panic\<close>, or \<open>Diverge\<close> for a loop
  that does not end. Arithmetic that overflows is \<open>Panic\<close>, as with overflow checks, or the wrapped value where the code
  asks for it. A function that takes \<open>&mut self\<close> returns the new state; \<open>push_bytes\<close> also returns the slice that is left.
  Left unbounded are the offsets that \<open>decode_cursor\<close> and \<open>encode_cursor\<close> of a witness compute (\<open>usize\<close>) and the shifts in
  \<open>traverse_and_build\<close> of a partial Merkle tree (\<open>u32\<close>); the addition in \<open>calc_tree_width\<close> wraps. No size that the callers allow
  reaches the difference. \<open>reserve_exact\<close> of a byte vector reserves what it is asked for.

  \<^bold>\<open>Parameters.\<close> Hash functions are arguments. What rests on their strength is an alternative: \<open>hash_collision h S\<close> says
  that \<open>h\<close> has a collision among the byte strings \<open>S\<close> that the code hashed. libsecp256k1 is the record \<open>secp\<close> with the
  promises \<open>secp_ok\<close> and \<open>secp_binding\<close>; the crate \<open>bech32\<close> is the record \<open>bech32\<close> with \<open>bech32_ok\<close>; \<open>char::is_alphabetic\<close>
  and the capacity that \<open>Vec::with_capacity\<close> really reserves are functions. Every hypothesis on a parameter has a witness
  where a concrete function fulfils it.

  \<^bold>\<open>Codecs.\<close>

  \<^item> \<open>Prelude\<close>: words and bytes, results, little-endian conversions, slices, hash collisions.
  \<^item> \<open>Push_Decoder\<close> (\<open>consensus_encoding/src/decode/mod.rs\<close>): the drivers, and the contract of a decoder as the locale
    \<open>push_decoder\<close>: a decoder denotes a parser (\<open>run\<close>), each push consumes a prefix and denotes the rest of it. The locale
    proves that every driver computes the parser, for every way of cutting the input, and returns (the loops of the
    drivers are \<open>partial_function (option)\<close>). Every decoder of the development is an interpretation.
  \<^item> \<open>Compact_Size\<close>, \<open>Decoders\<close>, \<open>Vec_Decoders\<close> (\<open>compact_size.rs\<close>, \<open>decode/decoders.rs\<close>, \<open>include/decoder_newtype.rs\<close>):
    the variable-length integer, arrays, sequences of two to six decoders, newtypes, vectors of bytes and of items.
  \<^item> \<open>Encoder_Contract\<close>, \<open>Encoders\<close> (\<open>encode/mod.rs\<close>, \<open>encode/encoders.rs\<close>): the locale \<open>encoder\<close>, the functions that drain
    an encoder, the byte iterator, the combinators.
  \<^item> \<open>Witness\<close>, \<open>Witness_Decoder\<close> (\<open>primitives/src/witness.rs\<close>): the flat representation of a witness with its index area.
  \<^item> \<open>Tx_Parts\<close>, \<open>Transaction\<close>, \<open>Transaction_Decoder\<close>, \<open>Tx_Codec\<close> (\<open>primitives/src/transaction.rs\<close>): the type, identifiers,
    encoder and decoder; the decoder accepts exactly the encodings of valid transactions and never panics.
  \<^item> \<open>Block_Header\<close>, \<open>Block\<close>, \<open>Merkle\<close> (\<open>primitives/src/block.rs\<close>, \<open>merkle_tree.rs\<close>): the codecs, both algorithms for Merkle
    roots against one recursive tree, and what roots and validated blocks commit to, also for trees of different heights.
  \<^item> \<open>Partial_Merkle\<close>, \<open>Merkle_Block\<close> (\<open>p2p/src/merkle_tree.rs\<close>), \<open>Reject\<close> (\<open>p2p/src/message_network.rs\<close>): proofs that
    transactions belong to a block: complete, sound, and kept by serialisation; one message type.

  \<^bold>\<open>Numbers.\<close>

  \<^item> \<open>Lock_Times\<close> (\<open>units/src/locktime\<close>, \<open>sequence.rs\<close>): absolute and relative lock times, when they are satisfied or implied.
  \<^item> \<open>Amounts\<close>, \<open>Amount_Arith\<close>, \<open>Fees\<close> (\<open>units/src/amount\<close>, \<open>result.rs\<close>, \<open>weight.rs\<close>, \<open>fee_rate\<close>, \<open>fee.rs\<close>): checked
    arithmetic against exact arithmetic, and rounding divisions as adjoints of multiplication.
  \<^item> \<open>Amount_Text\<close>, \<open>Amount_Roundtrip\<close>, \<open>Decimal_Text\<close>: parsing and formatting of amounts; \<open>U256\<close>, \<open>U256_Text\<close>
    (\<open>include/u256.rs\<close>): arithmetic on pairs of words against numbers modulo \<open>2 ^ 256\<close>, and decimal text.
  \<^item> \<open>Target\<close>, \<open>Networks\<close>, \<open>Pow\<close> (\<open>units/src/pow.rs\<close>, \<open>network\<close>, \<open>bitcoin/src/pow.rs\<close>): compact targets, work, difficulty,
    retargeting, and the walk to the last block of normal difficulty, which ends.

  \<^bold>\<open>Scripts, keys and signatures.\<close>

  \<^item> \<open>Script_Int\<close>, \<open>Opcodes\<close>, \<open>Script_Instructions\<close>, \<open>Script_Builder\<close>, \<open>Script_Templates\<close> (\<open>bitcoin/src/blockdata/script\<close> and
    the script types of \<open>primitives\<close>, \<open>internals\<close> and \<open>addresses\<close>): script numbers, the iterator over instructions as the
    inverse of building, templates recognised exactly, counts of signature operations, dust.
  \<^item> \<open>Tx_Weight\<close> (\<open>bitcoin/src/blockdata/transaction.rs\<close>): sizes, weights, the cost of signature operations, predictions.
  \<^item> \<open>Base58\<close>, \<open>Address\<close>, \<open>Address_Text\<close> (\<open>base58\<close>, \<open>bitcoin/src/address\<close>): the codec digit by digit with its buffers, and
    that addresses, scripts and texts determine each other.
  \<^item> \<open>Taproot_Tree\<close>, \<open>Taproot_Huffman\<close>, \<open>Taproot_Spend\<close> (\<open>bitcoin/src/taproot\<close>): the builder against trees, optimality of the
    Huffman constructor, control blocks that verify and bind.
  \<^item> \<open>Sighash_Type\<close>, \<open>Sighash\<close>, \<open>Sighash_Messages\<close>, \<open>Sighash_Commit\<close> (\<open>crypto/src/sighash.rs\<close>, \<open>bitcoin/src/crypto/sighash.rs\<close>):
    the messages that signatures sign, by the bits of their types; what a cache answers in any sequence of calls; equal
    hashes come from transactions that agree in what the type covers.
  \<^item> \<open>ChaCha20\<close> (\<open>chacha20_poly1305/src/chacha20.rs\<close>): the vectorised cipher against the block function of RFC 8439,
    stated on its own and checked on an example of the RFC, and pieces of a message against one stream.

  \<^bold>\<open>Bounds.\<close> Loops are structural or have a measure, but for the drivers (partial functions that are proved to return) and
  the witness iterator. No theorem rests on fuel. Size hypotheses (\<open>< 2 ^ 64\<close>, \<open>< 2 ^ 63\<close>) say that lengths fit in a
  \<open>usize\<close>, which holds of everything in memory.

  \<^bold>\<open>Not modelled.\<close> The compression functions of hashes and HMAC (their fast paths are CPU intrinsics), libsecp256k1 and its
  wrappers in \<open>crypto\<close> other than x-only keys, extended keys, Poly1305 and the authenticated cipher, the envelope of
  peer-to-peer messages and most of their payloads, compact block filters, partially signed transactions, hexadecimal
  forms, serde, \<open>Debug\<close> and error texts, and the traits of \<open>io\<close>. The repository's tests, fuzz targets and examples are
  not part of the model.
\<close>

end
